(* ===== verification/Prelude.thy ===== *)
theory Prelude
  imports
    Complex_Main
    "HOL-Library.Word"
    "HOL-Library.Signed_Division"
    "HOL-Library.Code_Target_Numeral"
begin

text \<open>
  Shared vocabulary of the development: the pieces of the Rust language and its standard
  library that the Moth sources use (checked and saturating integer arithmetic, byte-string
  operations, decimal printing and reading), as executable HOL definitions, together with the
  generic lemmas about them.

  Conventions.
  \<^item> \<open>Result\<langle>T, E\<rangle>\<close> is the sum \<open>'e + 'a\<close>: \<open>Inl\<close> is \<open>Err\<close>, \<open>Inr\<close> is \<open>Ok\<close>.
  \<^item> \<open>&str\<close> and \<open>String\<close> are \<open>string\<close>, the list of UTF-8 bytes.
  \<^item> \<open>u32\<close> and \<open>u64\<close> are words where the code works on bits; \<open>usize\<close>, \<open>i32\<close>, \<open>i64\<close> and
    \<open>i128\<close> are \<open>nat\<close>/\<open>int\<close> with the checked, saturating or wrapping operation written out.
  \<^item> \<open>BigInt\<close> is \<open>int\<close>; its truncating division is \<open>sdiv\<close>/\<open>smod\<close>.
\<close>

named_theorems std_defs \<open>definitions of the modelled standard-library operations\<close>
named_theorems digit_simps \<open>facts about ASCII digits and decimal values\<close>

section \<open>Result values\<close>

type_synonym ('e, 'a) result = "'e + 'a"

definition is_ok :: "('e, 'a) result \<Rightarrow> bool" where
  "is_ok r = (case r of Inl _ \<Rightarrow> False | Inr _ \<Rightarrow> True)"

definition result_bind :: "('e, 'a) result \<Rightarrow> ('a \<Rightarrow> ('e, 'b) result) \<Rightarrow> ('e, 'b) result" where
  "result_bind r f = (case r of Inl e \<Rightarrow> Inl e | Inr a \<Rightarrow> f a)"

definition ok_or :: "'a option \<Rightarrow> 'e \<Rightarrow> ('e, 'a) result" where
  "ok_or x e = (case x of None \<Rightarrow> Inl e | Some a \<Rightarrow> Inr a)"

lemma result_bind_simps [simp]:
  "result_bind (Inl e) f = Inl e"
  "result_bind (Inr a) f = f a"
  by (simp_all add: result_bind_def)

lemma result_bind_eq_Inr_iff:
  "result_bind r f = Inr b \<longleftrightarrow> (\<exists>a. r = Inr a \<and> f a = Inr b)"
  by (cases r) auto

lemma result_bind_eq_Inl_iff:
  "result_bind r f = Inl e \<longleftrightarrow> r = Inl e \<or> (\<exists>a. r = Inr a \<and> f a = Inl e)"
  by (cases r) auto

lemma ok_or_simps [simp]:
  "ok_or None e = Inl e"
  "ok_or (Some a) e = Inr a"
  by (simp_all add: ok_or_def)

lemma ok_or_eq_iff [simp]:
  "ok_or x e = Inr a \<longleftrightarrow> x = Some a"
  "ok_or x e = Inl e' \<longleftrightarrow> x = None \<and> e' = e"
  by (cases x; auto)+

text \<open>A loop whose body threads a state and may return early with an error.\<close>

primrec fold_each :: "('a \<Rightarrow> 's \<Rightarrow> ('e, 's) result) \<Rightarrow> 'a list \<Rightarrow> 's \<Rightarrow> ('e, 's) result" where
  "fold_each f [] s = Inr s"
| "fold_each f (x # xs) s = result_bind (f x s) (fold_each f xs)"

text \<open>A loop whose body only checks.\<close>

primrec check_each :: "('a \<Rightarrow> ('e, unit) result) \<Rightarrow> 'a list \<Rightarrow> ('e, unit) result" where
  "check_each f [] = Inr ()"
| "check_each f (x # xs) = result_bind (f x) (\<lambda>_. check_each f xs)"

lemma check_each_ok: "check_each f xs = Inr () \<longleftrightarrow> (\<forall>x \<in> set xs. f x = Inr ())"
  by (induction xs) (auto simp: result_bind_eq_Inr_iff)

lemma check_each_error: "check_each f xs = Inl e \<Longrightarrow> \<exists>x \<in> set xs. f x = Inl e"
  by (induction xs) (auto simp: result_bind_eq_Inl_iff)

section \<open>Outcomes\<close>

text \<open>What a fallible operation ends in: a failure with \<open>E\<close> or a result with \<open>Q\<close>.\<close>

definition outcome :: "('e \<Rightarrow> bool) \<Rightarrow> ('a \<Rightarrow> bool) \<Rightarrow> ('e, 'a) result \<Rightarrow> bool" where
  "outcome E Q r = (case r of Inl e \<Rightarrow> E e | Inr a \<Rightarrow> Q a)"

lemma outcome_simps [simp]:
  "outcome E Q (Inl e) = E e" "outcome E Q (Inr a) = Q a"
  by (simp_all add: outcome_def)

lemma outcome_bind: "outcome E Q (result_bind r f) = outcome E (\<lambda>a. outcome E Q (f a)) r"
  by (cases r) simp_all

lemma outcome_mono: "outcome E P r \<Longrightarrow> (\<And>a. P a \<Longrightarrow> Q a) \<Longrightarrow> outcome E Q r"
  by (cases r) simp_all

lemma outcome_bindI:
  "outcome E P r \<Longrightarrow> (\<And>a. P a \<Longrightarrow> outcome E Q (f a)) \<Longrightarrow> outcome E Q (result_bind r f)"
  by (cases r) simp_all

lemma outcome_map_sum: "outcome E Q (map_sum f g r) = outcome (E \<circ> f) (Q \<circ> g) r"
  by (cases r) simp_all

lemma outcome_cong: "(\<And>a. r = Inr a \<Longrightarrow> P a = Q a) \<Longrightarrow> outcome E P r = outcome E Q r"
  by (cases r) simp_all

lemma outcome_InrD: "outcome E Q r \<Longrightarrow> r = Inr a \<Longrightarrow> Q a"
  by simp

lemma outcome_fold_each:
  assumes "I s" "\<And>x u. x \<in> set xs \<Longrightarrow> I u \<Longrightarrow> outcome E I (f x u)"
  shows "outcome E I (fold_each f xs s)"
  using assms
proof (induction xs arbitrary: s)
  case (Cons x xs)
  show ?case unfolding fold_each.simps
    by (rule outcome_bindI [OF Cons.prems(2) Cons.IH]) (use Cons.prems in auto)
qed simp

text \<open>The same with an invariant over the elements already visited.\<close>

lemma outcome_fold_prefix:
  assumes "I [] s" "\<And>ys x u. x \<in> set xs \<Longrightarrow> I ys u \<Longrightarrow> outcome E (I (ys @ [x])) (f x u)"
  shows "outcome E (I xs) (fold_each f xs s)"
proof -
  have "outcome E (I (ys @ zs)) (fold_each f zs u)" if "I ys u" "set zs \<subseteq> set xs" for ys zs u
    using that
  proof (induction zs arbitrary: ys u)
    case (Cons z zs)
    have "outcome E (I (ys @ [z])) (f z u)" using Cons.prems by (intro assms(2)) auto
    then show ?case unfolding fold_each.simps
      by (rule outcome_bindI) (use Cons.IH [of "ys @ [z]"] Cons.prems in auto)
  qed simp
  from this [of "[]" s xs] show ?thesis using assms(1) by simp
qed

lemma outcome_check_each:
  assumes "\<And>x. x \<in> set xs \<Longrightarrow> outcome E (\<lambda>_. Q x) (f x)"
  shows "outcome E (\<lambda>_. \<forall>x \<in> set xs. Q x) (check_each f xs)"
  using assms
proof (induction xs)
  case (Cons x xs)
  show ?case unfolding check_each.simps
    by (rule outcome_bindI [OF Cons.prems]) (use Cons in \<open>auto elim: outcome_mono\<close>)
qed simp

section \<open>Bounded integers\<close>

abbreviation u32_max :: nat where "u32_max \<equiv> 4294967295"
abbreviation u64_max :: nat where "u64_max \<equiv> 18446744073709551615"

text \<open>\<open>usize\<close> on the 64-bit hosts the compiler targets.\<close>
abbreviation usize_max :: nat where "usize_max \<equiv> 18446744073709551615"

abbreviation i64_min :: int where "i64_min \<equiv> - 9223372036854775808"
abbreviation i64_max :: int where "i64_max \<equiv> 9223372036854775807"
abbreviation i128_min :: int where "i128_min \<equiv> - 170141183460469231731687303715884105728"
abbreviation i128_max :: int where "i128_max \<equiv> 170141183460469231731687303715884105727"

definition in_i128 :: "int \<Rightarrow> bool" where
  "in_i128 x \<longleftrightarrow> i128_min \<le> x \<and> x \<le> i128_max"

definition checked_i128 :: "int \<Rightarrow> int option" where [std_defs]:
  "checked_i128 x = (if in_i128 x then Some x else None)"

definition checked_usize :: "nat \<Rightarrow> nat option" where [std_defs]:
  "checked_usize n = (if n \<le> usize_max then Some n else None)"

definition saturating_add_usize :: "nat \<Rightarrow> nat \<Rightarrow> nat" where [std_defs]:
  "saturating_add_usize a b = min usize_max (a + b)"

definition saturating_sub_usize :: "nat \<Rightarrow> nat \<Rightarrow> nat" where [std_defs]:
  "saturating_sub_usize a b = (if b \<le> a then a - b else 0)"

definition checked_sub_usize :: "nat \<Rightarrow> nat \<Rightarrow> nat option" where [std_defs]:
  "checked_sub_usize a b = (if b \<le> a then Some (a - b) else None)"

lemma checked_i128_eq_Some [simp]:
  "checked_i128 x = Some y \<longleftrightarrow> in_i128 x \<and> y = x"
  by (auto simp: checked_i128_def)

lemma checked_usize_eq_Some [simp]:
  "checked_usize x = Some y \<longleftrightarrow> x \<le> usize_max \<and> y = x"
  by (auto simp: checked_usize_def)

section \<open>ASCII digits\<close>

definition byte :: "char \<Rightarrow> nat" where
  "byte c = of_char c"

definition is_ascii_digit :: "char \<Rightarrow> bool" where
  "is_ascii_digit c \<longleftrightarrow> 48 \<le> byte c \<and> byte c \<le> 57"

definition digit_of :: "char \<Rightarrow> nat" where
  "digit_of c = byte c - 48"

definition digit_char :: "nat \<Rightarrow> char" where
  "digit_char d = char_of (48 + d)"

lemma digit_of_digit_char [simp, digit_simps]:
  "d < 10 \<Longrightarrow> digit_of (digit_char d) = d"
  by (simp add: digit_of_def digit_char_def byte_def)

lemma is_ascii_digit_digit_char [simp, digit_simps]:
  "d < 10 \<Longrightarrow> is_ascii_digit (digit_char d)"
  by (simp add: is_ascii_digit_def digit_char_def byte_def)

lemma digit_of_less [digit_simps]:
  "is_ascii_digit c \<Longrightarrow> digit_of c < 10"
  by (auto simp: is_ascii_digit_def digit_of_def)

lemma digit_char_digit_of [simp, digit_simps]:
  "is_ascii_digit c \<Longrightarrow> digit_char (digit_of c) = c"
  by (simp add: is_ascii_digit_def digit_char_def digit_of_def byte_def)

lemma digit_char_0 [simp]: "digit_char 0 = CHR ''0''"
  by code_simp

lemma digit_of_0 [simp]: "digit_of (CHR ''0'') = 0" "is_ascii_digit (CHR ''0'')"
  by (simp_all add: digit_of_def is_ascii_digit_def byte_def)

lemma digit_of_eq_0_iff [digit_simps]:
  "is_ascii_digit c \<Longrightarrow> digit_of c = 0 \<longleftrightarrow> c = CHR ''0''"
  using digit_char_digit_of [of c] by fastforce

section \<open>Decimal digit strings\<close>

definition digits_value :: "string \<Rightarrow> nat" where
  "digits_value s = foldl (\<lambda>v c. 10 * v + digit_of c) 0 s"

definition all_digits :: "string \<Rightarrow> bool" where
  "all_digits s = list_all is_ascii_digit s"

lemma all_digits_simps [simp]:
  "all_digits []"
  "all_digits (c # s) \<longleftrightarrow> is_ascii_digit c \<and> all_digits s"
  "all_digits (s @ t) \<longleftrightarrow> all_digits s \<and> all_digits t"
  "all_digits (rev s) \<longleftrightarrow> all_digits s"
  by (auto simp: all_digits_def list_all_iff)

lemma all_digits_conv: "all_digits s \<longleftrightarrow> (\<forall>c\<in>set s. is_ascii_digit c)"
  by (simp add: all_digits_def list_all_iff)

lemma all_digits_replicate_0 [simp]: "all_digits (replicate n (CHR ''0''))"
  by (induction n) auto

lemma all_digits_takeI [intro]: "all_digits s \<Longrightarrow> all_digits (take n s)"
  by (meson all_digits_conv in_set_takeD)

lemma all_digits_dropI [intro]: "all_digits s \<Longrightarrow> all_digits (drop n s)"
  by (meson all_digits_conv in_set_dropD)

lemma foldl_digits_value:
  "foldl (\<lambda>v c. 10 * v + digit_of c) v s = v * 10 ^ length s + digits_value s"
proof (induction s arbitrary: v)
  case (Cons c s)
  from Cons.IH [of "10 * v + digit_of c"] Cons.IH [of "digit_of c"]
  show ?case by (simp add: digits_value_def algebra_simps)
qed (simp add: digits_value_def)

lemma digits_value_Nil [simp]: "digits_value [] = 0"
  by (simp add: digits_value_def)

lemma digits_value_Cons: "digits_value (c # s) = digit_of c * 10 ^ length s + digits_value s"
  using foldl_digits_value [of "digit_of c" s] by (simp add: digits_value_def)

lemma digits_value_append:
  "digits_value (s @ t) = digits_value s * 10 ^ length t + digits_value t"
  using foldl_digits_value [of "digits_value s" t] by (simp add: digits_value_def)

lemma digits_value_replicate_0 [simp]: "digits_value (replicate n (CHR ''0'')) = 0"
  by (induction n) (simp_all add: digits_value_Cons)

lemma digits_value_less: "all_digits s \<Longrightarrow> digits_value s < 10 ^ length s"
proof (induction s)
  case (Cons c s)
  from Cons.prems have "digit_of c \<le> 9" using digit_of_less [of c] by simp
  then have "digit_of c * 10 ^ length s \<le> 9 * 10 ^ length s" by (rule mult_le_mono1)
  moreover from Cons have "digits_value s < 10 ^ length s" by simp
  ultimately show ?case by (simp only: digits_value_Cons list.size power_Suc add_Suc_right add_0_right)
qed simp

lemma digits_value_eq_0_iff:
  "all_digits s \<Longrightarrow> digits_value s = 0 \<longleftrightarrow> (\<forall>c\<in>set s. c = CHR ''0'')"
  by (induction s) (auto simp: digits_value_Cons digit_of_eq_0_iff)

text \<open>Printing a natural number in decimal, as \<open>Display\<close> of the unsigned integers does.\<close>

fun nat_to_string :: "nat \<Rightarrow> string" where
  "nat_to_string n =
     (if n < 10 then [digit_char n] else nat_to_string (n div 10) @ [digit_char (n mod 10)])"

declare nat_to_string.simps [simp del]

lemma nat_to_string_small [simp]: "n < 10 \<Longrightarrow> nat_to_string n = [digit_char n]"
  by (simp add: nat_to_string.simps)

lemma nat_to_string_big:
  "10 \<le> n \<Longrightarrow> nat_to_string n = nat_to_string (n div 10) @ [digit_char (n mod 10)]"
  by (subst nat_to_string.simps) simp

lemma nat_to_string_induct [case_names small big]:
  assumes "\<And>n. n < 10 \<Longrightarrow> P n" and "\<And>n. 10 \<le> n \<Longrightarrow> P (n div 10) \<Longrightarrow> P n"
  shows "P (n :: nat)"
proof (induction n rule: less_induct)
  case (less n)
  then show ?case using assms by (cases "n < 10") auto
qed

lemma all_digits_nat_to_string [simp]: "all_digits (nat_to_string n)"
  by (induction n rule: nat_to_string_induct) (simp_all add: nat_to_string_big)

lemma digits_value_nat_to_string [simp]: "digits_value (nat_to_string n) = n"
  by (induction n rule: nat_to_string_induct)
     (simp_all add: nat_to_string_big digits_value_append digits_value_Cons)

lemma nat_to_string_nonempty [simp]: "nat_to_string n \<noteq> []"
  by (subst nat_to_string.simps) simp

lemma hd_nat_to_string: "0 < n \<Longrightarrow> hd (nat_to_string n) \<noteq> CHR ''0''"
proof (induction n rule: nat_to_string_induct)
  case (small n)
  then show ?case by (metis digit_of_0(1) digit_of_digit_char list.sel(1) nat_to_string_small not_gr0)
next
  case (big n)
  then show ?case by (simp add: nat_to_string_big div_greater_zero_iff)
qed

lemma nat_to_string_single: "length (nat_to_string n) = 1 \<or> hd (nat_to_string n) \<noteq> CHR ''0''"
  using hd_nat_to_string [of n] by (cases "n = 0") auto

lemma nat_to_string_digits_value:
  assumes "s \<noteq> []" and "all_digits s" and "length s = 1 \<or> hd s \<noteq> CHR ''0''"
  shows "nat_to_string (digits_value s) = s"
  using assms
proof (induction s rule: rev_induct)
  case (snoc c s)
  then have c: "is_ascii_digit c" "digit_of c < 10" using digit_of_less by auto
  show ?case
  proof (cases "s = []")
    case True
    with c show ?thesis by (simp add: digits_value_Cons)
  next
    case False
    with snoc.prems have hd: "hd s \<noteq> CHR ''0''" "all_digits s" by auto
    then have pos: "0 < digits_value s"
      using False digits_value_eq_0_iff [of s] by (metis hd_in_set neq0_conv)
    have "nat_to_string (digits_value s) = s" using snoc.IH False hd by simp
    moreover have "digits_value (s @ [c]) = digits_value s * 10 + digit_of c"
      by (simp add: digits_value_append digits_value_Cons)
    ultimately show ?thesis using pos c
      by (subst nat_to_string_big) auto
  qed
qed simp

definition int_to_string :: "int \<Rightarrow> string" where
  "int_to_string i = (if i < 0 then CHR ''-'' # nat_to_string (nat (- i)) else nat_to_string (nat i))"

section \<open>Byte-string operations\<close>

fun split_once :: "char \<Rightarrow> string \<Rightarrow> (string \<times> string) option" where
  "split_once c [] = None"
| "split_once c (x # xs) =
     (if x = c then Some ([], xs)
      else case split_once c xs of None \<Rightarrow> None | Some (a, b) \<Rightarrow> Some (x # a, b))"

definition trim_start_matches :: "char \<Rightarrow> string \<Rightarrow> string" where [std_defs]:
  "trim_start_matches c s = dropWhile (\<lambda>x. x = c) s"

definition trim_end_matches :: "char \<Rightarrow> string \<Rightarrow> string" where [std_defs]:
  "trim_end_matches c s = rev (dropWhile (\<lambda>x. x = c) (rev s))"

definition strip_prefix :: "string \<Rightarrow> string \<Rightarrow> string option" where [std_defs]:
  "strip_prefix p s = (if take (length p) s = p then Some (drop (length p) s) else None)"

lemma split_once_None_iff: "split_once c s = None \<longleftrightarrow> c \<notin> set s"
  by (induction s) (auto split: option.splits)

lemma split_once_append: "c \<notin> set a \<Longrightarrow> split_once c (a @ c # b) = Some (a, b)"
  by (induction a) auto

lemma split_once_SomeD: "split_once c s = Some (a, b) \<Longrightarrow> s = a @ c # b \<and> c \<notin> set a"
  by (induction s arbitrary: a b) (auto split: if_splits option.splits)

lemma split_once_all_digits:
  assumes "all_digits s" and "\<not> is_ascii_digit c"
  shows "split_once c s = None"
  using assms by (auto simp: split_once_None_iff all_digits_conv)

text \<open>\<open>str::parse\<close> for the unsigned and signed integers: an optional sign, at least one digit,
  and a value in range.\<close>

definition parse_unsigned :: "nat \<Rightarrow> string \<Rightarrow> nat option" where [std_defs]:
  "parse_unsigned limit s =
     (let d = (case s of [] \<Rightarrow> [] | c # r \<Rightarrow> if c = CHR ''+'' then r else s)
      in if d = [] \<or> \<not> all_digits d \<or> limit < digits_value d then None
         else Some (digits_value d))"

definition parse_signed :: "int \<Rightarrow> int \<Rightarrow> string \<Rightarrow> int option" where [std_defs]:
  "parse_signed lo hi s =
     (let negative = (s \<noteq> [] \<and> hd s = CHR ''-'');
          d = (if s \<noteq> [] \<and> (hd s = CHR ''+'' \<or> hd s = CHR ''-'') then tl s else s);
          v = (if negative then - int (digits_value d) else int (digits_value d))
      in if d = [] \<or> \<not> all_digits d \<or> v < lo \<or> hi < v then None else Some v)"

lemma not_digit_chars [simp]:
  "\<not> is_ascii_digit (CHR ''+'')" "\<not> is_ascii_digit (CHR ''-'')"
  "\<not> is_ascii_digit (CHR ''.'')" "\<not> is_ascii_digit (CHR ''_'')"
  "\<not> is_ascii_digit (CHR ''e'')" "\<not> is_ascii_digit (CHR ''E'')"
  by (simp_all add: is_ascii_digit_def byte_def)

lemma parse_unsigned_digits:
  assumes "all_digits s" and "s \<noteq> []"
  shows "parse_unsigned limit s =
    (if digits_value s \<le> limit then Some (digits_value s) else None)"
  using assms by (cases s) (auto simp: parse_unsigned_def Let_def)

lemma parse_signed_digits:
  assumes "all_digits s" and "s \<noteq> []" and "lo \<le> 0"
  shows "parse_signed lo hi s =
    (if int (digits_value s) \<le> hi then Some (int (digits_value s)) else None)"
  using assms by (cases s) (auto simp: parse_signed_def Let_def)

section \<open>Slices\<close>

text \<open>\<open>slice::get\<close>, and \<open>slice::partition_point\<close> on a slice partitioned by the predicate.\<close>

definition slice_get :: "'a list \<Rightarrow> nat \<Rightarrow> 'a option" where
  "slice_get xs i = (if i < length xs then Some (xs ! i) else None)"

definition partition_point :: "('a \<Rightarrow> bool) \<Rightarrow> 'a list \<Rightarrow> nat" where
  "partition_point p xs = length (takeWhile p xs)"

lemma slice_get_append:
  "slice_get (xs @ ys) i = (if i < length xs then slice_get xs i else slice_get ys (i - length xs))"
  by (auto simp: slice_get_def nth_append)

lemma slice_get_eq_Some: "slice_get xs i = Some x \<longleftrightarrow> i < length xs \<and> xs ! i = x"
  by (auto simp: slice_get_def)

lemma slice_get_eq_None: "slice_get xs i = None \<longleftrightarrow> length xs \<le> i"
  by (auto simp: slice_get_def)

lemma slice_get_map: "slice_get (map f xs) i = map_option f (slice_get xs i)"
  by (simp add: slice_get_def)

section \<open>Machine words\<close>

type_synonym u32 = "32 word"
type_synonym u64 = "64 word"

definition checked_add_u32 :: "u32 \<Rightarrow> u32 \<Rightarrow> u32 option" where [std_defs]:
  "checked_add_u32 a b = (if unat a + unat b \<le> u32_max then Some (a + b) else None)"

lemma u32_unat_le [simp]: "unat (w :: u32) \<le> u32_max"
proof -
  have "unat w < 2 ^ 32" using unsigned_less [of w] by simp
  then show ?thesis by simp
qed

lemma unat_add_u32: "unat a + unat b \<le> u32_max \<Longrightarrow> unat (a + b :: u32) = unat a + unat b"
  by (simp add: unat_word_ariths)

lemma checked_add_u32_eq_Some:
  "checked_add_u32 a b = Some c \<longleftrightarrow> unat c = unat a + unat b"
  using u32_unat_le [of c]
  by (auto simp: checked_add_u32_def unat_add_u32 word_unat_eq_iff simp del: u32_unat_le)

lemma checked_add_u32_eq_None: "checked_add_u32 a b = None \<longleftrightarrow> u32_max < unat a + unat b"
  by (auto simp: checked_add_u32_def)

lemma bit_unat: "bit (unat w) n = bit (w :: 'a :: len word) n"
  by (auto simp: bit_unsigned_iff dest: bit_imp_le_length)

lemma bit_above_bound:
  fixes w :: "'a :: len word"
  assumes "unat w < 2 ^ k" "k \<le> n"
  shows "\<not> bit w n"
proof
  assume "bit w n"
  then have "bit (unat w) n" by (simp add: bit_unsigned_iff)
  moreover have "take_bit k (unat w) = unat w" using assms(1) by (rule take_bit_nat_eq_self)
  ultimately show False using assms(2) by (metis bit_take_bit_iff not_le)
qed

end
