(* ===== verification/Fixed_Scalar.thy ===== *)
theory Fixed_Scalar
  imports Prelude
begin

text \<open>
  The fixed-width scalar vocabulary of \<open>crates/moth-lexical/src/numeric/fixed_scalar.rs\<close>:
  the \<open>FixedScalar\<close> enumeration, its spelling, value class, storage width and exact integer
  ranges. The value carrier \<open>FixedScalarValue\<close> needs float rounding and is modelled in
  \<open>Fixed_Scalar_Value\<close>.
\<close>

section \<open>Binary-float precision identities\<close>

datatype binary_float_precision = Binary16 | Binary32 | Binary64

section \<open>Fixed scalars\<close>

datatype fixed_scalar = I8 | I16 | I32 | I64 | U8 | U16 | U32 | U64 | F16 | F32 | F64 | Byte

datatype fixed_scalar_class = SignedInteger | UnsignedInteger | BinaryFloat | Octet

definition fixed_scalar_all :: "fixed_scalar list" where
  "fixed_scalar_all = [I8, I16, I32, I64, U8, U16, U32, U64, F16, F32, F64, Byte]"

fun scalar_discriminant :: "fixed_scalar \<Rightarrow> nat" where
  "scalar_discriminant I8 = 0"
| "scalar_discriminant I16 = 1"
| "scalar_discriminant I32 = 2"
| "scalar_discriminant I64 = 3"
| "scalar_discriminant U8 = 4"
| "scalar_discriminant U16 = 5"
| "scalar_discriminant U32 = 6"
| "scalar_discriminant U64 = 7"
| "scalar_discriminant F16 = 8"
| "scalar_discriminant F32 = 9"
| "scalar_discriminant F64 = 10"
| "scalar_discriminant Byte = 11"

fun scalar_name :: "fixed_scalar \<Rightarrow> string" where
  "scalar_name I8 = ''I8''"
| "scalar_name I16 = ''I16''"
| "scalar_name I32 = ''I32''"
| "scalar_name I64 = ''I64''"
| "scalar_name U8 = ''U8''"
| "scalar_name U16 = ''U16''"
| "scalar_name U32 = ''U32''"
| "scalar_name U64 = ''U64''"
| "scalar_name F16 = ''F16''"
| "scalar_name F32 = ''F32''"
| "scalar_name F64 = ''F64''"
| "scalar_name Byte = ''Byte''"

definition scalar_from_name :: "string \<Rightarrow> fixed_scalar option" where
  "scalar_from_name name = find (\<lambda>scalar. scalar_name scalar = name) fixed_scalar_all"

fun scalar_class :: "fixed_scalar \<Rightarrow> fixed_scalar_class" where
  "scalar_class I8 = SignedInteger"
| "scalar_class I16 = SignedInteger"
| "scalar_class I32 = SignedInteger"
| "scalar_class I64 = SignedInteger"
| "scalar_class U8 = UnsignedInteger"
| "scalar_class U16 = UnsignedInteger"
| "scalar_class U32 = UnsignedInteger"
| "scalar_class U64 = UnsignedInteger"
| "scalar_class F16 = BinaryFloat"
| "scalar_class F32 = BinaryFloat"
| "scalar_class F64 = BinaryFloat"
| "scalar_class Byte = Octet"

fun scalar_precision :: "fixed_scalar \<Rightarrow> binary_float_precision option" where
  "scalar_precision F16 = Some Binary16"
| "scalar_precision F32 = Some Binary32"
| "scalar_precision F64 = Some Binary64"
| "scalar_precision _ = None"

fun bit_width :: "fixed_scalar \<Rightarrow> nat" where
  "bit_width I8 = 8"
| "bit_width U8 = 8"
| "bit_width Byte = 8"
| "bit_width I16 = 16"
| "bit_width U16 = 16"
| "bit_width F16 = 16"
| "bit_width I32 = 32"
| "bit_width U32 = 32"
| "bit_width F32 = 32"
| "bit_width I64 = 64"
| "bit_width U64 = 64"
| "bit_width F64 = 64"

text \<open>The ranges are computed as the code does, by arithmetic right shifts of the 64-bit
  extremes (\<open>drop_bit\<close> on \<open>int\<close> is the arithmetic shift).\<close>

definition signed_range :: "fixed_scalar \<Rightarrow> (int \<times> int) option" where
  "signed_range s =
     (case scalar_class s of
        SignedInteger \<Rightarrow>
          (let shift = bit_width s - 1
           in Some (drop_bit (63 - shift) i64_min, drop_bit (63 - shift) i64_max))
      | _ \<Rightarrow> None)"

definition unsigned_max :: "fixed_scalar \<Rightarrow> nat option" where
  "unsigned_max s =
     (case scalar_class s of
        UnsignedInteger \<Rightarrow> Some (drop_bit (64 - bit_width s) u64_max)
      | Octet \<Rightarrow> Some (drop_bit (64 - bit_width s) u64_max)
      | _ \<Rightarrow> None)"

section \<open>Facts\<close>

lemma fixed_scalar_all_complete: "set fixed_scalar_all = UNIV"
  by (auto simp: fixed_scalar_all_def intro: fixed_scalar.exhaust)

lemma scalar_name_inj: "scalar_name s = scalar_name t \<Longrightarrow> s = t"
  by (cases s; cases t) simp_all

lemma signed_range_eq:
  "signed_range s =
     (if scalar_class s = SignedInteger
      then Some (- (2 ^ (bit_width s - 1)), 2 ^ (bit_width s - 1) - 1) else None)"
  by (cases s) (simp_all add: signed_range_def drop_bit_eq_div)

lemma unsigned_max_eq:
  "unsigned_max s =
     (if scalar_class s = UnsignedInteger \<or> scalar_class s = Octet
      then Some (2 ^ bit_width s - 1) else None)"
  by (cases s) (simp_all add: unsigned_max_def drop_bit_eq_div)

lemma scalar_precision_None_iff:
  "scalar_precision s = None \<longleftrightarrow> scalar_class s \<noteq> BinaryFloat"
  by (cases s) simp_all

lemma scalar_from_name_scalar_name: "scalar_from_name (scalar_name s) = Some s"
  by (cases s) (simp_all add: scalar_from_name_def fixed_scalar_all_def)

lemma scalar_from_name_Some_iff: "scalar_from_name name = Some s \<longleftrightarrow> scalar_name s = name"
proof
  show "scalar_from_name name = Some s \<Longrightarrow> scalar_name s = name"
    unfolding scalar_from_name_def find_Some_iff by blast
  show "scalar_name s = name \<Longrightarrow> scalar_from_name name = Some s"
    using scalar_from_name_scalar_name by blast
qed

lemma discriminant_indexes_all:
  "fixed_scalar_all ! scalar_discriminant s = s" "scalar_discriminant s < length fixed_scalar_all"
  by (cases s; simp add: fixed_scalar_all_def)+

end
