(* ===== verification/Numeric_Grammar.thy ===== *)
theory Numeric_Grammar
  imports Fixed_Scalar
begin

text \<open>
  The shared numeric-literal grammar: \<open>crates/moth-lexical/src/numeric/grammar.rs\<close> and the
  scanner \<open>parse_numeric_literal\<close> of \<open>parse.rs\<close>, with the validated decimal scale
  \<open>NumberScale\<close> of \<open>decimal.rs\<close> that the error reasons carry. The scanner is proved to accept
  exactly a grammar stated separately from it, to keep every byte but the separators, and to
  count its digits without overflowing \<open>u32\<close>.
\<close>

section \<open>Data\<close>

datatype numeric_literal_kind = WholeNumber | DecimalPoint | Exponent

datatype numeric_literal_sign = Positive | Negative

datatype numeric_exponent_sign = NoExponentSign | PositiveExponent | NegativeExponent

datatype number_scale = NumberScale (scale_get: nat)

definition number_scale_max :: nat where
  "number_scale_max = 256"

definition scale_zero :: number_scale where
  "scale_zero = NumberScale 0"

definition number_scale_new :: "nat \<Rightarrow> number_scale option" where
  "number_scale_new scale = (if scale \<le> number_scale_max then Some (NumberScale scale) else None)"

text \<open>The type invariant the private field and the single constructor establish.\<close>
definition scale_ok :: "number_scale \<Rightarrow> bool" where
  "scale_ok s \<longleftrightarrow> scale_get s \<le> number_scale_max"

definition number_scale_from_name :: "string \<Rightarrow> number_scale option" where
  "number_scale_from_name name =
     (if name = ''Dec'' then Some scale_zero
      else case strip_prefix ''Dec'' name of
        None \<Rightarrow> None
      | Some digits \<Rightarrow>
          if digits = [] \<or> (1 < length digits \<and> hd digits = CHR ''0'') \<or> \<not> all_digits digits
          then None
          else case parse_unsigned 65535 digits of
            None \<Rightarrow> None
          | Some n \<Rightarrow> number_scale_new n)"

definition number_scale_display :: "number_scale \<Rightarrow> string" where
  "number_scale_display s =
     (if s = scale_zero then ''Dec'' else ''Dec'' @ nat_to_string (scale_get s))"

datatype number_literal_error_reason =
    SeparatorNotBetweenDigits
  | MultipleDecimalPoints
  | DecimalPointNotAfterDigit
  | EndsWithSeparator
  | MissingFractionalDigits
  | UppercaseExponentMarker
  | MissingExponentDigits
  | InvalidExponentSignPlacement
  | InvalidSeparatorPlacement
  | OutsideFixedScalarRange fixed_scalar
  | NegativeUnsignedLiteral fixed_scalar
  | NonFiniteFixedFloat fixed_scalar
  | InexactNumberScale number_scale
  | ParseOverflow

record parsed_numeric_literal =
  normalized_text :: string
  literal_kind :: numeric_literal_kind
  digit_count :: nat
  fractional_digit_count :: nat
  exponent_digit_count :: nat
  exponent_sign :: numeric_exponent_sign

section \<open>Character classes\<close>

definition is_numeric_digit :: "char \<Rightarrow> bool" where
  "is_numeric_digit c = is_ascii_digit c"

definition is_exponent_marker :: "char \<Rightarrow> bool" where
  "is_exponent_marker c \<longleftrightarrow> c = CHR ''e'' \<or> c = CHR ''E''"

definition is_exponent_sign :: "char \<Rightarrow> bool" where
  "is_exponent_sign c \<longleftrightarrow> c = CHR ''+'' \<or> c = CHR ''-''"

definition is_digit_separator :: "char \<Rightarrow> bool" where
  "is_digit_separator c \<longleftrightarrow> c = CHR ''_''"

lemmas char_class_defs =
  is_numeric_digit_def is_exponent_marker_def is_exponent_sign_def is_digit_separator_def

section \<open>The scanner\<close>

definition check_numeric_input_length :: "nat \<Rightarrow> (number_literal_error_reason, unit) result" where
  "check_numeric_input_length len = (if len \<le> u32_max then Inr () else Inl ParseOverflow)"

text \<open>The digit loop the scanner runs for the integer, fractional and exponent parts. Its state
  is the normalized text so far, the digit counter, \<open>last_was_digit\<close>, \<open>last_was_separator\<close> and
  the characters still to be read.\<close>

fun scan_digit_run ::
  "string \<Rightarrow> nat \<Rightarrow> bool \<Rightarrow> bool \<Rightarrow> string
    \<Rightarrow> (number_literal_error_reason, string \<times> nat \<times> bool \<times> bool \<times> string) result" where
  "scan_digit_run text digits last_digit last_sep [] = Inr (text, digits, last_digit, last_sep, [])"
| "scan_digit_run text digits last_digit last_sep (c # cs) =
     (if is_numeric_digit c then scan_digit_run (text @ [c]) (digits + 1) True False cs
      else if is_digit_separator c then
        (if \<not> last_digit then Inl InvalidSeparatorPlacement
         else if last_sep then Inl InvalidSeparatorPlacement
         else scan_digit_run text digits False True cs)
      else Inr (text, digits, last_digit, last_sep, c # cs))"

text \<open>The check after each run: a separator may not be the last character read.\<close>

definition trailing_separator_check ::
  "bool \<Rightarrow> string \<Rightarrow> (number_literal_error_reason, unit) result" where
  "trailing_separator_check last_sep rest =
     (if last_sep
      then (if rest \<noteq> [] then Inl InvalidSeparatorPlacement else Inl EndsWithSeparator)
      else Inr ())"

definition scan_integer_part ::
  "string \<Rightarrow> (number_literal_error_reason, string \<times> nat \<times> bool \<times> string) result" where
  "scan_integer_part source =
     result_bind (scan_digit_run [] 0 False False source)
       (\<lambda>(text, digits, last_digit, last_sep, rest).
          if digits = 0 then Inl InvalidSeparatorPlacement
          else result_bind (trailing_separator_check last_sep rest)
            (\<lambda>_. Inr (text, digits, last_digit, rest)))"

definition scan_fractional_part ::
  "string \<Rightarrow> bool \<Rightarrow> string
    \<Rightarrow> (number_literal_error_reason, string \<times> nat \<times> bool \<times> string) result" where
  "scan_fractional_part text last_digit rest =
     (case rest of
        c # cs \<Rightarrow>
          if c = CHR ''.'' then
            (if \<not> last_digit then Inl DecimalPointNotAfterDigit
             else result_bind (scan_digit_run (text @ ''.'') 0 False False cs)
               (\<lambda>(text', digits, _, last_sep, rest').
                  result_bind (trailing_separator_check last_sep rest')
                    (\<lambda>_. if digits = 0 then Inl MissingFractionalDigits
                          else Inr (text', digits, True, rest'))))
          else Inr (text, 0, False, rest)
      | [] \<Rightarrow> Inr (text, 0, False, rest))"

definition scan_exponent_part ::
  "string \<Rightarrow> string
    \<Rightarrow> (number_literal_error_reason, string \<times> nat \<times> numeric_exponent_sign \<times> string) result" where
  "scan_exponent_part text rest =
     (case rest of
        c # cs \<Rightarrow>
          if is_exponent_marker c then
            (if c = CHR ''E'' then Inl UppercaseExponentMarker
             else
               (let (sign, sign_text, cs') =
                  (case cs of
                     s # cs' \<Rightarrow>
                       if is_exponent_sign s
                       then (if s = CHR ''+'' then PositiveExponent else NegativeExponent, [s], cs')
                       else (NoExponentSign, [], cs)
                   | [] \<Rightarrow> (NoExponentSign, [], cs))
                in result_bind (scan_digit_run (text @ ''e'' @ sign_text) 0 False False cs')
                     (\<lambda>(text', digits, _, last_sep, rest').
                        result_bind (trailing_separator_check last_sep rest')
                          (\<lambda>_. if digits = 0 then Inl MissingExponentDigits
                                else Inr (text', digits, sign, rest')))))
          else Inr (text, 0, NoExponentSign, rest)
      | [] \<Rightarrow> Inr (text, 0, NoExponentSign, rest))"

definition parse_numeric_literal ::
  "string \<Rightarrow> (number_literal_error_reason, parsed_numeric_literal) result" where
  "parse_numeric_literal source =
     result_bind (check_numeric_input_length (length source)) (\<lambda>_.
     result_bind (scan_integer_part source) (\<lambda>(text1, integer_digits, last_digit, rest1).
     result_bind (scan_fractional_part text1 last_digit rest1)
       (\<lambda>(text2, fractional_digits, has_decimal_point, rest2).
     result_bind (scan_exponent_part text2 rest2) (\<lambda>(text3, exponent_digits, sign, rest3).
       if rest3 \<noteq> [] then Inl InvalidSeparatorPlacement
       else Inr \<lparr> normalized_text = text3,
                  literal_kind = (if 0 < exponent_digits then Exponent
                                  else if has_decimal_point then DecimalPoint
                                  else WholeNumber),
                  digit_count = integer_digits + fractional_digits + exponent_digits,
                  fractional_digit_count = fractional_digits,
                  exponent_digit_count = exponent_digits,
                  exponent_sign = sign \<rparr>))))"

section \<open>The grammar the scanner accepts\<close>

text \<open>A digit run: digits, with single separators strictly between two digits.\<close>

inductive digit_run :: "string \<Rightarrow> bool" where
  single: "is_ascii_digit c \<Longrightarrow> digit_run [c]"
| digit: "is_ascii_digit c \<Longrightarrow> digit_run s \<Longrightarrow> digit_run (c # s)"
| separator: "is_ascii_digit c \<Longrightarrow> digit_run s \<Longrightarrow> digit_run (c # CHR ''_'' # s)"

inductive_simps digit_run_Nil [simp]: "digit_run []"
inductive_simps digit_run_Cons: "digit_run (c # s)"

definition exponent_sign_text :: "numeric_exponent_sign \<Rightarrow> string" where
  "exponent_sign_text s =
     (case s of NoExponentSign \<Rightarrow> '''' | PositiveExponent \<Rightarrow> ''+'' | NegativeExponent \<Rightarrow> ''-'')"

text \<open>An unsigned literal: an integer run, optionally a point and a fractional run, optionally
  \<open>e\<close>, a sign and an exponent run.\<close>

definition literal_text ::
  "string \<Rightarrow> string option \<Rightarrow> (numeric_exponent_sign \<times> string) option \<Rightarrow> string" where
  "literal_text ip fp ep =
     ip @ (case fp of None \<Rightarrow> [] | Some f \<Rightarrow> CHR ''.'' # f)
        @ (case ep of None \<Rightarrow> [] | Some (s, x) \<Rightarrow> CHR ''e'' # exponent_sign_text s @ x)"

definition literal_parts_ok ::
  "string \<Rightarrow> string option \<Rightarrow> (numeric_exponent_sign \<times> string) option \<Rightarrow> bool" where
  "literal_parts_ok ip fp ep \<longleftrightarrow>
     digit_run ip \<and> (case fp of None \<Rightarrow> True | Some f \<Rightarrow> digit_run f)
       \<and> (case ep of None \<Rightarrow> True | Some (_, x) \<Rightarrow> digit_run x)"

abbreviation strip_separators :: "string \<Rightarrow> string" where
  "strip_separators s \<equiv> filter (\<lambda>c. c \<noteq> CHR ''_'') s"

abbreviation run_ends :: "string \<Rightarrow> bool" where
  "run_ends r \<equiv> r = [] \<or> (\<not> is_ascii_digit (hd r) \<and> hd r \<noteq> CHR ''_'')"

lemma scan_digit_run_complete:
  assumes "digit_run a" and "run_ends r"
  shows "scan_digit_run t n d sep (a @ r) =
    Inr (t @ strip_separators a, n + length (strip_separators a), True, False, r)"
  using assms
proof (induction a arbitrary: t n d sep rule: digit_run.induct)
  case (single c)
  then show ?case by (cases r) (auto simp: char_class_defs)
qed (auto simp: char_class_defs)

lemma scan_digit_run_sound:
  assumes "scan_digit_run t n d sep s = Inr (t', n', d', sep', r)" and "\<not> (d \<and> sep)"
  shows "run_ends r \<and> (\<exists>a. s = a @ r \<and> t' = t @ strip_separators a
      \<and> n' = n + length (strip_separators a)
      \<and> (a \<noteq> [] \<longrightarrow> d' = (\<not> sep'))
      \<and> (\<not> sep' \<longrightarrow>
           (if d then \<forall>x. is_ascii_digit x \<longrightarrow> digit_run (x # a)
            else if sep then digit_run a else a = [] \<or> digit_run a)))"
  using assms
proof (induction t n d sep s rule: scan_digit_run.induct)
  case (1 tx digits last_digit last_sep)
  then show ?case by (auto intro: digit_run.single)
next
  case (2 tx digits last_digit last_sep c cs)
  consider (digit) "is_ascii_digit c"
    | (sep) "c = CHR ''_''" | (other) "\<not> is_ascii_digit c" "c \<noteq> CHR ''_''" by blast
  then show ?case
  proof cases
    case digit
    then have c: "c \<noteq> CHR ''_''" by auto
    from digit 2 obtain a where a: "run_ends r" "cs = a @ r"
      "t' = (tx @ [c]) @ strip_separators a" "n' = digits + 1 + length (strip_separators a)"
      "a \<noteq> [] \<longrightarrow> d' = (\<not> sep')" "\<not> sep' \<longrightarrow> (\<forall>x. is_ascii_digit x \<longrightarrow> digit_run (x # a))"
      by (auto simp: char_class_defs)
    have "a = [] \<Longrightarrow> d' = (\<not> sep')"
      using "2.prems"(1) digit a(1,2) by (cases r) (auto simp: char_class_defs)
    with a c digit show ?thesis
      by (intro conjI exI [of _ "c # a"]) (auto intro: digit_run.digit)
  next
    case sep
    with 2 have ld: "last_digit" "\<not> last_sep" by (auto simp: char_class_defs split: if_splits)
    with sep 2 obtain a where a: "run_ends r" "cs = a @ r"
      "t' = tx @ strip_separators a" "n' = digits + length (strip_separators a)"
      "a \<noteq> [] \<longrightarrow> d' = (\<not> sep')" "\<not> sep' \<longrightarrow> digit_run a"
      by (auto simp: char_class_defs)
    have "a = [] \<Longrightarrow> d' = (\<not> sep')"
      using "2.prems"(1) sep ld a(1,2) by (cases r) (auto simp: char_class_defs)
    with a sep ld show ?thesis
      by (intro conjI exI [of _ "c # a"]) (auto intro: digit_run.separator)
  next
    case other
    with 2 show ?thesis by (auto simp: char_class_defs intro: digit_run.single)
  qed
qed

lemma digit_run_hd: "digit_run s \<Longrightarrow> s \<noteq> [] \<and> is_ascii_digit (hd s)"
  by (induction rule: digit_run.induct) auto

lemma digit_run_strip_nonempty: "digit_run s \<Longrightarrow> strip_separators s \<noteq> []"
  by (induction rule: digit_run.induct) auto

lemma scan_fresh_run_iff:
  "(\<exists>d sep. scan_digit_run t 0 False False s = Inr (t', n, d, sep, r) \<and> 0 < n \<and> \<not> sep)
    \<longleftrightarrow> (\<exists>a. digit_run a \<and> s = a @ r \<and> run_ends r \<and> t' = t @ strip_separators a
           \<and> n = length (strip_separators a))" (is "?L \<longleftrightarrow> ?R")
proof
  assume ?L
  then obtain d sep where *: "scan_digit_run t 0 False False s = Inr (t', n, d, sep, r)" "0 < n"
    "\<not> sep" by blast
  from scan_digit_run_sound [OF *(1)] *(2,3) show ?R by (auto split: if_splits)
next
  assume ?R
  then show ?L
    using scan_digit_run_complete [of _ r t 0 False False] digit_run_strip_nonempty by fastforce
qed

lemma scan_fresh_run_last_digit:
  "scan_digit_run t 0 False False s = Inr (t', n, d, sep, r) \<Longrightarrow> 0 < n \<Longrightarrow> \<not> sep \<Longrightarrow> d"
  using scan_digit_run_sound by fastforce

lemma trailing_separator_check_ok [simp]:
  "trailing_separator_check sep r = Inr u \<longleftrightarrow> \<not> sep"
  by (auto simp: trailing_separator_check_def)

lemma scan_integer_part_iff:
  "scan_integer_part s = Inr (t, n, d, r) \<longleftrightarrow>
     d \<and> (\<exists>a. digit_run a \<and> s = a @ r \<and> run_ends r \<and> t = strip_separators a
           \<and> n = length (strip_separators a))"
  using scan_fresh_run_iff [of "[]" s t n r] scan_fresh_run_last_digit [of "[]" s t n]
  by (fastforce simp: scan_integer_part_def result_bind_eq_Inr_iff split: if_splits)

lemma scan_fractional_part_iff:
  "scan_fractional_part t True s = Inr (t', n, has, r) \<longleftrightarrow>
     (\<not> has \<and> n = 0 \<and> t' = t \<and> r = s \<and> (s = [] \<or> hd s \<noteq> CHR ''.''))
     \<or> (has \<and> (\<exists>a. digit_run a \<and> s = CHR ''.'' # a @ r \<and> run_ends r
           \<and> t' = t @ ''.'' @ strip_separators a \<and> n = length (strip_separators a)))"
proof (cases "\<exists>cs. s = CHR ''.'' # cs")
  case True
  then obtain cs where s: "s = CHR ''.'' # cs" by blast
  show ?thesis
    using scan_fresh_run_iff [of "t @ ''.''" cs t' n r]
    by (fastforce simp: s scan_fractional_part_def result_bind_eq_Inr_iff split: if_splits)
next
  case False
  then show ?thesis by (cases s) (auto simp: scan_fractional_part_def)
qed

fun split_exponent_sign :: "string \<Rightarrow> numeric_exponent_sign \<times> string" where
  "split_exponent_sign (c # cs) =
     (if c = CHR ''+'' then (PositiveExponent, cs)
      else if c = CHR ''-'' then (NegativeExponent, cs) else (NoExponentSign, c # cs))"
| "split_exponent_sign [] = (NoExponentSign, [])"

lemma scan_exponent_part_e:
  "scan_exponent_part t (CHR ''e'' # cs) =
     (case split_exponent_sign cs of (sign, cs') \<Rightarrow>
        result_bind (scan_digit_run (t @ ''e'' @ exponent_sign_text sign) 0 False False cs')
          (\<lambda>(text', digits, _, last_sep, rest').
             result_bind (trailing_separator_check last_sep rest')
               (\<lambda>_. if digits = 0 then Inl MissingExponentDigits
                     else Inr (text', digits, sign, rest'))))"
  by (cases cs) (auto simp: scan_exponent_part_def char_class_defs exponent_sign_text_def)

lemma split_exponent_sign_run:
  "digit_run a \<Longrightarrow> split_exponent_sign cs = (sign, a @ r) \<longleftrightarrow> cs = exponent_sign_text sign @ a @ r"
  using digit_run_hd [of a]
  by (cases cs; cases a; cases sign) (auto simp: exponent_sign_text_def)

lemma scan_exponent_part_iff:
  "scan_exponent_part t s = Inr (t', n, sign, r) \<longleftrightarrow>
     (n = 0 \<and> sign = NoExponentSign \<and> t' = t \<and> r = s
        \<and> (s = [] \<or> (hd s \<noteq> CHR ''e'' \<and> hd s \<noteq> CHR ''E'')))
     \<or> (\<exists>a. digit_run a \<and> s = CHR ''e'' # exponent_sign_text sign @ a @ r \<and> run_ends r
           \<and> t' = t @ ''e'' @ exponent_sign_text sign @ strip_separators a
           \<and> n = length (strip_separators a))" (is "?L \<longleftrightarrow> ?N \<or> ?E")
proof (cases "\<exists>cs. s = CHR ''e'' # cs")
  case True
  then obtain cs where s: "s = CHR ''e'' # cs" by blast
  obtain sg cs' where sp: "split_exponent_sign cs = (sg, cs')" by fastforce
  have eq: "cs = exponent_sign_text sign @ a @ r \<longleftrightarrow> sg = sign \<and> cs' = a @ r"
    if "digit_run a" for a using split_exponent_sign_run [OF that, of cs sign r] sp by simp
  have "?L \<longleftrightarrow> sg = sign \<and> (\<exists>d sep. scan_digit_run (t @ ''e'' @ exponent_sign_text sign) 0 False False cs'
      = Inr (t', n, d, sep, r) \<and> 0 < n \<and> \<not> sep)"
    by (auto simp: s scan_exponent_part_e sp result_bind_eq_Inr_iff split: if_splits)
  also have "\<dots> \<longleftrightarrow> ?E"
    unfolding scan_fresh_run_iff s by (simp add: eq cong: conj_cong) blast
  finally show ?thesis by (simp add: s)
next
  case False
  then show ?thesis
    by (cases s) (auto simp: scan_exponent_part_def char_class_defs)
qed

text \<open>The facts a literal made of these parts carries.\<close>

definition literal_facts ::
  "string \<Rightarrow> string option \<Rightarrow> (numeric_exponent_sign \<times> string) option \<Rightarrow> parsed_numeric_literal" where
  "literal_facts ip fp ep =
     (let count = (\<lambda>s. length (strip_separators s));
          fractional = (case fp of None \<Rightarrow> 0 | Some f \<Rightarrow> count f);
          exponent = (case ep of None \<Rightarrow> 0 | Some (_, x) \<Rightarrow> count x)
      in \<lparr> normalized_text = literal_text (strip_separators ip) (map_option strip_separators fp)
             (map_option (\<lambda>(s, x). (s, strip_separators x)) ep),
           literal_kind = (if ep \<noteq> None then Exponent else if fp \<noteq> None then DecimalPoint
                           else WholeNumber),
           digit_count = count ip + fractional + exponent,
           fractional_digit_count = fractional,
           exponent_digit_count = exponent,
           exponent_sign = (case ep of None \<Rightarrow> NoExponentSign | Some (s, _) \<Rightarrow> s) \<rparr>)"

lemma parse_numeric_literal_stages:
  "parse_numeric_literal s = Inr p \<longleftrightarrow>
     length s \<le> u32_max \<and>
     (\<exists>t1 n1 r1 t2 n2 has r2 t3 n3 sign.
        scan_integer_part s = Inr (t1, n1, True, r1)
      \<and> scan_fractional_part t1 True r1 = Inr (t2, n2, has, r2)
      \<and> scan_exponent_part t2 r2 = Inr (t3, n3, sign, [])
      \<and> p = \<lparr> normalized_text = t3,
              literal_kind = (if 0 < n3 then Exponent else if has then DecimalPoint
                              else WholeNumber),
              digit_count = n1 + n2 + n3, fractional_digit_count = n2,
              exponent_digit_count = n3, exponent_sign = sign \<rparr>)" (is "_ \<longleftrightarrow> ?R")
proof
  assume L: "parse_numeric_literal s = Inr p"
  then obtain t1 n1 d r1 t2 n2 has r2 t3 n3 sign r3 where
    *: "scan_integer_part s = Inr (t1, n1, d, r1)"
       "scan_fractional_part t1 d r1 = Inr (t2, n2, has, r2)"
       "scan_exponent_part t2 r2 = Inr (t3, n3, sign, r3)"
    by (fastforce simp: parse_numeric_literal_def result_bind_eq_Inr_iff)
  moreover from *(1) have "d" by (simp add: scan_integer_part_iff)
  ultimately show "?R" using L
    by (auto simp: parse_numeric_literal_def check_numeric_input_length_def split: if_splits)
next
  assume ?R
  then show "parse_numeric_literal s = Inr p"
    by (auto simp: parse_numeric_literal_def check_numeric_input_length_def)
qed

lemma literal_text_simps:
  "literal_text ip None None = ip"
  "literal_text ip (Some f) None = ip @ CHR ''.'' # f"
  "literal_text ip None (Some (s, x)) = ip @ CHR ''e'' # exponent_sign_text s @ x"
  "literal_text ip (Some f) (Some (s, x)) =
     ip @ CHR ''.'' # f @ CHR ''e'' # exponent_sign_text s @ x"
  by (simp_all add: literal_text_def)

lemma parse_numeric_literal_complete:
  assumes ok: "literal_parts_ok ip fp ep" and len: "length (literal_text ip fp ep) \<le> u32_max"
  shows "parse_numeric_literal (literal_text ip fp ep) = Inr (literal_facts ip fp ep)"
proof -
  define c where "c = (\<lambda>s. length (strip_separators s))"
  define E where "E = (case ep of None \<Rightarrow> [] | Some (s, x) \<Rightarrow> CHR ''e'' # exponent_sign_text s @ x)"
  define F where "F = (case fp of None \<Rightarrow> [] | Some f \<Rightarrow> CHR ''.'' # f)"
  define t2 where "t2 = strip_separators ip @ (case fp of None \<Rightarrow> [] | Some f \<Rightarrow> ''.'' @ strip_separators f)"
  have lt: "literal_text ip fp ep = ip @ F @ E"
    by (auto simp: literal_text_def E_def F_def)
  have E: "run_ends E" by (auto simp: E_def split: option.splits)
  then have FE: "run_ends (F @ E)" by (auto simp: F_def split: option.splits)
  have "scan_integer_part (ip @ F @ E) = Inr (strip_separators ip, c ip, True, F @ E)"
    using ok FE by (auto simp: scan_integer_part_iff literal_parts_ok_def c_def)
  moreover have "scan_fractional_part (strip_separators ip) True (F @ E) =
      Inr (t2, (case fp of None \<Rightarrow> 0 | Some f \<Rightarrow> c f), fp \<noteq> None, E)"
    using ok E by (auto simp: scan_fractional_part_iff literal_parts_ok_def F_def E_def t2_def c_def
        split: option.splits)
  moreover have "scan_exponent_part t2 E = Inr (normalized_text (literal_facts ip fp ep),
      (case ep of None \<Rightarrow> 0 | Some (_, x) \<Rightarrow> c x),
      (case ep of None \<Rightarrow> NoExponentSign | Some (s, _) \<Rightarrow> s), [])"
    using ok by (auto simp: scan_exponent_part_iff literal_parts_ok_def E_def t2_def c_def
        literal_facts_def literal_text_def Let_def split: option.splits)
  moreover have "0 < (case ep of None \<Rightarrow> 0 | Some (_, x) \<Rightarrow> c x) \<longleftrightarrow> ep \<noteq> None"
    using ok digit_run_strip_nonempty by (auto simp: literal_parts_ok_def c_def split: option.splits)
  ultimately show ?thesis
    using len unfolding parse_numeric_literal_stages lt c_def
    by (intro conjI exI) (assumption | simp add: literal_facts_def Let_def)+
qed

lemma parse_numeric_literal_sound:
  assumes "parse_numeric_literal s = Inr p"
  shows "\<exists>ip fp ep. literal_parts_ok ip fp ep \<and> s = literal_text ip fp ep \<and> length s \<le> u32_max"
proof -
  from assms obtain t1 n1 r1 t2 n2 has r2 t3 n3 sign where
    *: "length s \<le> u32_max" "scan_integer_part s = Inr (t1, n1, True, r1)"
       "scan_fractional_part t1 True r1 = Inr (t2, n2, has, r2)"
       "scan_exponent_part t2 r2 = Inr (t3, n3, sign, [])"
    unfolding parse_numeric_literal_stages by blast
  from *(2) obtain ip where ip: "digit_run ip" "s = ip @ r1" by (auto simp: scan_integer_part_iff)
  from *(3) obtain fp where fp: "case fp of None \<Rightarrow> True | Some f \<Rightarrow> digit_run f"
    "r1 = (case fp of None \<Rightarrow> [] | Some f \<Rightarrow> CHR ''.'' # f) @ r2"
    by (force simp: scan_fractional_part_iff split: option.splits)
  from *(4) obtain ep where ep: "case ep of None \<Rightarrow> True | Some (_, x) \<Rightarrow> digit_run x"
    "r2 = (case ep of None \<Rightarrow> [] | Some (s, x) \<Rightarrow> CHR ''e'' # exponent_sign_text s @ x)"
    by (force simp: scan_exponent_part_iff split: option.splits)
  from ip fp ep *(1) show ?thesis
    unfolding literal_parts_ok_def literal_text_def by blast
qed

lemma digit_run_strip: "digit_run s \<Longrightarrow> digit_run (strip_separators s)"
  by (induction rule: digit_run.induct) (auto intro: digit_run.intros)

lemma digit_run_strip_digits: "digit_run s \<Longrightarrow> all_digits (strip_separators s)"
  by (induction rule: digit_run.induct) auto

lemma strip_exponent_sign_text [simp]:
  "strip_separators (exponent_sign_text s) = exponent_sign_text s"
  by (cases s) (simp_all add: exponent_sign_text_def)

lemma strip_literal_text:
  "strip_separators (literal_text ip fp ep) =
     literal_text (strip_separators ip) (map_option strip_separators fp)
       (map_option (\<lambda>(s, x). (s, strip_separators x)) ep)"
  by (auto simp: literal_text_def split: option.splits)

lemma literal_parts_ok_strip:
  "literal_parts_ok ip fp ep \<Longrightarrow>
     literal_parts_ok (strip_separators ip) (map_option strip_separators fp)
       (map_option (\<lambda>(s, x). (s, strip_separators x)) ep)"
  by (auto simp: literal_parts_ok_def intro: digit_run_strip split: option.splits)

lemma normalized_text_literal_facts:
  "normalized_text (literal_facts ip fp ep) = strip_separators (literal_text ip fp ep)"
  by (simp add: literal_facts_def Let_def strip_literal_text)

lemma literal_facts_strip:
  "literal_facts (strip_separators ip) (map_option strip_separators fp)
     (map_option (\<lambda>(s, x). (s, strip_separators x)) ep) = literal_facts ip fp ep"
  by (auto simp: literal_facts_def Let_def option.map_comp comp_def split: option.splits)

section \<open>Properties\<close>

text \<open>C25. The numeric scanner accepts exactly the literals of the grammar (up to the \<open>u32\<close> length
  bound) and returns exactly the facts of their parts: normalized text, kind, digit counts and
  exponent sign.\<close>

theorem parse_numeric_literal_characterisation:
  "parse_numeric_literal s = Inr p \<longleftrightarrow>
     length s \<le> u32_max \<and>
     (\<exists>ip fp ep. literal_parts_ok ip fp ep \<and> s = literal_text ip fp ep \<and> p = literal_facts ip fp ep)"
  using parse_numeric_literal_sound [of s p] parse_numeric_literal_complete by fastforce

text \<open>The normalized text of an accepted literal is the source without its separators, and it
  is a fixed point: scanning it again succeeds with the same facts.\<close>

theorem parse_numeric_literal_normalizes:
  assumes "parse_numeric_literal s = Inr p"
  shows "normalized_text p = strip_separators s \<and> parse_numeric_literal (normalized_text p) = Inr p"
proof -
  from assms obtain ip fp ep where *: "literal_parts_ok ip fp ep" "s = literal_text ip fp ep"
    "p = literal_facts ip fp ep" "length s \<le> u32_max"
    using parse_numeric_literal_sound [OF assms] parse_numeric_literal_complete by fastforce
  have "length (strip_separators s) \<le> u32_max"
    using *(4) length_filter_le [of "\<lambda>c. c \<noteq> CHR ''_''" s] by linarith
  with parse_numeric_literal_complete [OF literal_parts_ok_strip [OF *(1)]] * show ?thesis
    by (simp add: normalized_text_literal_facts strip_literal_text literal_facts_strip)
qed

theorem parse_numeric_literal_normalizes_witness:
  "normalized_text \<lparr>normalized_text = ''12.5e-3'', literal_kind = Exponent, digit_count = 4,
      fractional_digit_count = 1, exponent_digit_count = 1, exponent_sign = NegativeExponent\<rparr>
     = strip_separators ''1_2.5e-3''"
proof -
  have "parse_numeric_literal ''1_2.5e-3'' =
    Inr \<lparr>normalized_text = ''12.5e-3'', literal_kind = Exponent, digit_count = 4,
      fractional_digit_count = 1, exponent_digit_count = 1, exponent_sign = NegativeExponent\<rparr>"
    by code_simp
  from parse_numeric_literal_normalizes [OF this] show ?thesis by blast
qed

lemma scan_digit_run_error:
  "scan_digit_run t n d sep s = Inl e \<Longrightarrow> e = InvalidSeparatorPlacement"
  by (induction t n d sep s rule: scan_digit_run.induct) (auto split: if_splits)

lemma trailing_separator_check_error:
  "trailing_separator_check sep r = Inl e \<Longrightarrow> e \<in> {InvalidSeparatorPlacement, EndsWithSeparator}"
  by (auto simp: trailing_separator_check_def split: if_splits)

lemma literal_facts_counts:
  "digit_count (literal_facts ip fp ep) \<le> length (literal_text ip fp ep)"
  using length_filter_le [of "\<lambda>c. c \<noteq> CHR ''_''" ip]
    length_filter_le [of "\<lambda>c. c \<noteq> CHR ''_''" "the fp"]
    length_filter_le [of "\<lambda>c. c \<noteq> CHR ''_''" "snd (the ep)"]
  by (auto simp: literal_facts_def literal_text_def Let_def simp del: length_filter_le
      split: option.splits)

text \<open>A rejected literal is rejected for one of six reasons, and for the length reason exactly
  when its byte length exceeds \<open>u32\<close>; the scanner never reports the other spelling reasons of the
  enumeration.\<close>

theorem parse_numeric_literal_errors:
  assumes "parse_numeric_literal s = Inl e"
  shows "e \<in> {InvalidSeparatorPlacement, EndsWithSeparator, MissingFractionalDigits,
               UppercaseExponentMarker, MissingExponentDigits, ParseOverflow}
         \<and> (e = ParseOverflow \<longleftrightarrow> u32_max < length s)"
proof -
  have "e \<in> {InvalidSeparatorPlacement, EndsWithSeparator}" if "scan_integer_part s = Inl e"
    using that by (auto simp: scan_integer_part_def result_bind_eq_Inl_iff split: if_splits
        dest: scan_digit_run_error trailing_separator_check_error)
  moreover have "e \<in> {InvalidSeparatorPlacement, EndsWithSeparator, MissingFractionalDigits}"
    if "scan_fractional_part t True r = Inl e" for t r
    using that by (auto simp: scan_fractional_part_def result_bind_eq_Inl_iff
        split: if_splits list.splits dest: scan_digit_run_error trailing_separator_check_error)
  moreover have "e \<in> {InvalidSeparatorPlacement, EndsWithSeparator, MissingExponentDigits,
      UppercaseExponentMarker}" if "scan_exponent_part t r = Inl e" for t r
    using that by (auto simp: scan_exponent_part_def result_bind_eq_Inl_iff Let_def
        split: if_splits list.splits dest: scan_digit_run_error trailing_separator_check_error)
  ultimately show ?thesis
    using assms by (fastforce simp: parse_numeric_literal_def check_numeric_input_length_def
        result_bind_eq_Inl_iff scan_integer_part_iff split: if_splits)
qed

theorem parse_numeric_literal_errors_witness:
  "MissingFractionalDigits \<in> {InvalidSeparatorPlacement, EndsWithSeparator,
     MissingFractionalDigits, UppercaseExponentMarker, MissingExponentDigits, ParseOverflow}
   \<and> (MissingFractionalDigits = ParseOverflow \<longleftrightarrow> u32_max < length ''1.'')"
proof -
  have "parse_numeric_literal ''1.'' = Inl MissingFractionalDigits" by code_simp
  from parse_numeric_literal_errors [OF this] show ?thesis .
qed

text \<open>The digit counters of an accepted literal fit \<open>u32\<close>, so the scanner's increments and the
  final sum never overflow.\<close>

theorem parse_numeric_literal_counts_bounded:
  assumes "parse_numeric_literal s = Inr p"
  shows "digit_count p \<le> length s \<and> digit_count p \<le> u32_max
    \<and> fractional_digit_count p \<le> digit_count p \<and> exponent_digit_count p \<le> digit_count p"
proof -
  from parse_numeric_literal_sound [OF assms] obtain ip fp ep where
    *: "literal_parts_ok ip fp ep" "s = literal_text ip fp ep" "length s \<le> u32_max" by blast
  with assms parse_numeric_literal_complete have "p = literal_facts ip fp ep" by fastforce
  with * literal_facts_counts [of ip fp ep] show ?thesis
    by (auto simp: literal_facts_def Let_def)
qed

theorem parse_numeric_literal_counts_bounded_witness:
  "(6::nat) \<le> length ''1_000.25''"
proof -
  have "parse_numeric_literal ''1_000.25'' =
    Inr \<lparr>normalized_text = ''1000.25'', literal_kind = DecimalPoint, digit_count = 6,
      fractional_digit_count = 2, exponent_digit_count = 0, exponent_sign = NoExponentSign\<rparr>"
    by code_simp
  from parse_numeric_literal_counts_bounded [OF this] show ?thesis by simp
qed

section \<open>Decimal scale names\<close>

lemma strip_prefix_append [simp]: "strip_prefix p (p @ s) = Some s"
  by (simp add: strip_prefix_def)

lemma strip_prefix_SomeD: "strip_prefix p s = Some r \<Longrightarrow> s = p @ r"
  by (metis append_take_drop_id option.distinct(1) option.sel strip_prefix_def)

lemma number_scale_from_name_digits:
  assumes "all_digits d" and "d \<noteq> []" and "length d = 1 \<or> hd d \<noteq> CHR ''0''"
  shows "number_scale_from_name (''Dec'' @ d) = number_scale_new (digits_value d)"
  using assms strip_prefix_append [of "''Dec''" d]
  by (auto simp: number_scale_from_name_def parse_unsigned_digits number_scale_new_def
      number_scale_max_def)

text \<open>The source spellings of the decimal types are exactly the displayed names of the valid
  scales \<open>0..256\<close>, plus the alias \<open>Dec0\<close> of scale zero.\<close>

theorem number_scale_names:
  "number_scale_from_name name = Some s \<longleftrightarrow>
     scale_ok s \<and> (name = number_scale_display s \<or> (s = scale_zero \<and> name = ''Dec0''))"
    (is "?L \<longleftrightarrow> ?R")
proof
  assume L: ?L
  show ?R
  proof (cases "name = ''Dec''")
    case True
    with L show ?thesis by (auto simp: number_scale_from_name_def scale_ok_def scale_zero_def
          number_scale_display_def)
  next
    case False
    with L obtain d where d: "strip_prefix ''Dec'' name = Some d" "d \<noteq> []" "all_digits d"
      "length d = 1 \<or> hd d \<noteq> CHR ''0''"
      by (auto simp: number_scale_from_name_def split: option.splits if_splits)
        (metis One_nat_def Suc_lessI length_greater_0_conv)+
    from d(1) have name: "name = ''Dec'' @ d" by (rule strip_prefix_SomeD)
    with L number_scale_from_name_digits [OF d(3,2,4)]
    have s: "s = NumberScale (digits_value d)" "scale_ok s"
      by (auto simp: number_scale_new_def scale_ok_def split: if_splits)
    moreover have "nat_to_string (digits_value d) = d"
      using d(2-4) by (rule nat_to_string_digits_value)
    ultimately show ?thesis using name
      by (auto simp: number_scale_display_def scale_zero_def)
  qed
next
  assume ?R
  moreover have "number_scale_from_name ''Dec0'' = Some scale_zero" by code_simp
  moreover have "number_scale_from_name (''Dec'' @ nat_to_string n) = number_scale_new n" for n
    using number_scale_from_name_digits [of "nat_to_string n"] nat_to_string_single [of n] by simp
  moreover have "number_scale_from_name ''Dec'' = Some scale_zero" by code_simp
  ultimately show ?L
    by (cases s) (auto simp: number_scale_display_def scale_ok_def number_scale_new_def
        split: if_splits)
qed

end
