(* ===== verification/Decimal_Facts.thy ===== *)
theory Decimal_Facts
  imports Numeric_Grammar
begin

text \<open>
  \<open>NormalizedDecimalFacts\<close> of \<open>crates/moth-lexical/src/numeric/decimal.rs\<close>: the split of a
  normalized literal into coefficient and exponent facts, and the effective scale both MON and
  the compiler decide exact fit with. The exact rational value of a literal is the specification:
  the effective scale is the least number of fractional places that represents it.
\<close>

section \<open>Model\<close>

record decimal_facts =
  integer_part :: string
  fractional_part :: string
  trailing_zeroes :: nat
  coefficient_is_zero :: bool
  exponent_magnitude :: "nat option"
  negative_exponent :: bool

text \<open>The backward scan over the coefficient digits, given last digit first.\<close>

fun scan_trailing_zeroes :: "string \<Rightarrow> nat \<Rightarrow> nat \<times> bool" where
  "scan_trailing_zeroes [] n = (n, True)"
| "scan_trailing_zeroes (c # cs) n =
     (if c = CHR ''0'' then scan_trailing_zeroes cs (n + 1) else (n, False))"

text \<open>\<open>checked_decimal_usize\<close>: accumulate digits, \<open>None\<close> once \<open>usize\<close> overflows.\<close>

fun checked_decimal_usize_from :: "nat \<Rightarrow> string \<Rightarrow> nat option" where
  "checked_decimal_usize_from v [] = Some v"
| "checked_decimal_usize_from v (c # cs) =
     (case checked_usize (v * 10) of
        None \<Rightarrow> None
      | Some v10 \<Rightarrow>
          (case checked_usize (v10 + digit_of c) of
             None \<Rightarrow> None
           | Some v' \<Rightarrow> checked_decimal_usize_from v' cs))"

definition checked_decimal_usize :: "string \<Rightarrow> nat option" where
  "checked_decimal_usize digits = checked_decimal_usize_from 0 digits"

definition strip_exponent_sign :: "string \<Rightarrow> string" where
  "strip_exponent_sign e =
     (case strip_prefix ''+'' e of
        Some r \<Rightarrow> r
      | None \<Rightarrow> (case strip_prefix ''-'' e of Some r \<Rightarrow> r | None \<Rightarrow> e))"

definition analyze :: "string \<Rightarrow> decimal_facts" where
  "analyze normalized =
     (let (coefficient, exponent) =
            (case split_once (CHR ''e'') normalized of
               Some (c, e) \<Rightarrow> (c, Some e) | None \<Rightarrow> (normalized, None));
          (ip, fp) =
            (case split_once (CHR ''.'') coefficient of
               Some (i, f) \<Rightarrow> (i, f) | None \<Rightarrow> (coefficient, []));
          (zeroes, is_zero) = scan_trailing_zeroes (rev (ip @ fp)) 0
      in if is_zero then
           \<lparr> integer_part = ip, fractional_part = fp, trailing_zeroes = zeroes,
             coefficient_is_zero = True, exponent_magnitude = Some 0, negative_exponent = False \<rparr>
         else
           (let (magnitude, negative) =
              (case exponent of
                 Some e \<Rightarrow>
                   (checked_decimal_usize (strip_exponent_sign e), e \<noteq> [] \<and> hd e = CHR ''-'')
               | None \<Rightarrow> (Some 0, False))
            in \<lparr> integer_part = ip, fractional_part = fp, trailing_zeroes = zeroes,
                 coefficient_is_zero = False, exponent_magnitude = magnitude,
                 negative_exponent = negative \<rparr>))"

definition effective_scale :: "decimal_facts \<Rightarrow> nat" where
  "effective_scale f =
     (if coefficient_is_zero f then 0
      else
        (let magnitude = (case exponent_magnitude f of Some m \<Rightarrow> m | None \<Rightarrow> usize_max);
             untrimmed =
               (if negative_exponent f
                then saturating_add_usize (length (fractional_part f)) magnitude
                else saturating_sub_usize (length (fractional_part f)) magnitude);
             zeroes = min (trailing_zeroes f) untrimmed
         in saturating_sub_usize untrimmed zeroes))"

definition effective_decimal_scale :: "string \<Rightarrow> nat" where
  "effective_decimal_scale normalized = effective_scale (analyze normalized)"

section \<open>The exact value of a literal\<close>

definition fraction_text :: "string option \<Rightarrow> string" where
  "fraction_text fp = (case fp of None \<Rightarrow> [] | Some f \<Rightarrow> f)"

definition exponent_value :: "(numeric_exponent_sign \<times> string) option \<Rightarrow> int" where
  "exponent_value ep =
     (case ep of
        None \<Rightarrow> 0
      | Some (s, x) \<Rightarrow>
          if s = NegativeExponent then - int (digits_value x) else int (digits_value x))"

definition coefficient_value :: "string \<Rightarrow> string option \<Rightarrow> nat" where
  "coefficient_value ip fp = digits_value (ip @ fraction_text fp)"

definition literal_value ::
  "string \<Rightarrow> string option \<Rightarrow> (numeric_exponent_sign \<times> string) option \<Rightarrow> rat" where
  "literal_value ip fp ep =
     of_nat (coefficient_value ip fp) * 10 powi (exponent_value ep - int (length (fraction_text fp)))"

text \<open>The parts of a normalized literal: digit strings without separators.\<close>

definition normal_parts ::
  "string \<Rightarrow> string option \<Rightarrow> (numeric_exponent_sign \<times> string) option \<Rightarrow> bool" where
  "normal_parts ip fp ep \<longleftrightarrow>
     all_digits ip \<and> ip \<noteq> []
       \<and> (case fp of None \<Rightarrow> True | Some f \<Rightarrow> all_digits f \<and> f \<noteq> [])
       \<and> (case ep of None \<Rightarrow> True | Some (_, x) \<Rightarrow> all_digits x \<and> x \<noteq> [])"

lemma normal_parts_strip:
  "literal_parts_ok ip fp ep \<Longrightarrow> normal_parts (strip_separators ip) (map_option strip_separators fp)
     (map_option (\<lambda>(s, x). (s, strip_separators x)) ep)"
  using digit_run_strip_nonempty digit_run_strip_digits
  by (auto simp: normal_parts_def literal_parts_ok_def split: option.splits)

lemma normal_parts_of_parsed:
  assumes "parse_numeric_literal s = Inr p"
  obtains ip fp ep where "normal_parts ip fp ep" "normalized_text p = literal_text ip fp ep"
    "p = literal_facts ip fp ep"
proof -
  from parse_numeric_literal_sound [OF assms] obtain ip fp ep where
    *: "literal_parts_ok ip fp ep" "s = literal_text ip fp ep" "length s \<le> u32_max" by blast
  with assms have p: "p = literal_facts ip fp ep"
    using parse_numeric_literal_complete [of ip fp ep] by simp
  show ?thesis
  proof (rule that)
    show "normal_parts (strip_separators ip) (map_option strip_separators fp)
        (map_option (\<lambda>(s, x). (s, strip_separators x)) ep)"
      using *(1) by (rule normal_parts_strip)
    show "normalized_text p = literal_text (strip_separators ip) (map_option strip_separators fp)
        (map_option (\<lambda>(s, x). (s, strip_separators x)) ep)"
      by (simp add: p normalized_text_literal_facts strip_literal_text)
    show "p = literal_facts (strip_separators ip) (map_option strip_separators fp)
        (map_option (\<lambda>(s, x). (s, strip_separators x)) ep)"
      by (simp add: p literal_facts_strip)
  qed
qed

section \<open>The analysis computes the parts\<close>

lemma split_literal_e:
  assumes "normal_parts ip fp ep"
  shows "split_once (CHR ''e'') (literal_text ip fp ep) =
    (case ep of None \<Rightarrow> None
     | Some (s, x) \<Rightarrow> Some (literal_text ip fp None, exponent_sign_text s @ x))"
proof -
  have no_e: "CHR ''e'' \<notin> set (literal_text ip fp None)"
    using assms not_digit_chars(5)
    by (auto simp: normal_parts_def literal_text_def all_digits_conv split: option.splits)
  have "literal_text ip fp (Some (s, x)) =
      literal_text ip fp None @ CHR ''e'' # exponent_sign_text s @ x" for s x
    by (simp add: literal_text_def)
  then show ?thesis
    using no_e by (auto simp: split_once_None_iff split_once_append split: option.splits)
qed

lemma split_literal_point:
  assumes "normal_parts ip fp ep"
  shows "split_once (CHR ''.'') (literal_text ip fp None) = map_option (\<lambda>f. (ip, f)) fp"
  using assms not_digit_chars(3)
  by (cases fp) (auto simp: normal_parts_def literal_text_def all_digits_conv split_once_None_iff
      intro!: split_once_append)

lemma scan_trailing_zeroes_eq:
  "scan_trailing_zeroes s n =
     (n + length (takeWhile (\<lambda>c. c = CHR ''0'') s), \<forall>c\<in>set s. c = CHR ''0'')"
  by (induction s arbitrary: n) auto

definition trailing_zero_count :: "string \<Rightarrow> nat" where
  "trailing_zero_count s = length (takeWhile (\<lambda>c. c = CHR ''0'') (rev s))"

lemma checked_decimal_usize_from_eq:
  "v \<le> usize_max \<Longrightarrow> checked_decimal_usize_from v s =
     (if v * 10 ^ length s + digits_value s \<le> usize_max
      then Some (v * 10 ^ length s + digits_value s) else None)"
proof (induction s arbitrary: v)
  case (Cons c s)
  define w where "w = v * 10 + digit_of c"
  have expand: "v * 10 ^ length (c # s) + digits_value (c # s) = w * 10 ^ length s + digits_value s"
    by (simp add: digits_value_Cons algebra_simps w_def)
  have step: "checked_decimal_usize_from v (c # s) =
      (if w \<le> usize_max then checked_decimal_usize_from w s else None)"
    by (auto simp: checked_usize_def w_def)
  show ?case
  proof (cases "w \<le> usize_max")
    case True
    then show ?thesis using Cons.IH [of w] unfolding expand step by simp
  next
    case False
    have "w \<le> w * 10 ^ length s" by simp
    with False have "\<not> w * 10 ^ length s + digits_value s \<le> usize_max" by linarith
    with False show ?thesis unfolding expand step by simp
  qed
qed simp

lemma checked_decimal_usize_eq:
  "checked_decimal_usize s = (if digits_value s \<le> usize_max then Some (digits_value s) else None)"
  by (simp add: checked_decimal_usize_def checked_decimal_usize_from_eq)

lemma strip_exponent_sign_text_append:
  assumes "all_digits x" "x \<noteq> []"
  shows "strip_exponent_sign (exponent_sign_text s @ x) = x"
    "hd (exponent_sign_text s @ x) = CHR ''-'' \<longleftrightarrow> s = NegativeExponent"
    "exponent_sign_text s @ x \<noteq> []"
  using assms
  by (cases x; cases s; auto simp: strip_exponent_sign_def exponent_sign_text_def strip_prefix_def)+

lemma analyze_literal:
  assumes "normal_parts ip fp ep"
  shows "analyze (literal_text ip fp ep) =
    \<lparr> integer_part = ip, fractional_part = fraction_text fp,
      trailing_zeroes = trailing_zero_count (ip @ fraction_text fp),
      coefficient_is_zero = (coefficient_value ip fp = 0),
      exponent_magnitude = (if coefficient_value ip fp = 0 then Some 0
         else case ep of None \<Rightarrow> Some 0 | Some (_, x) \<Rightarrow> checked_decimal_usize x),
      negative_exponent = (coefficient_value ip fp \<noteq> 0 \<and> (\<exists>x. ep = Some (NegativeExponent, x))) \<rparr>"
proof -
  have digits: "all_digits (ip @ fraction_text fp)"
    using assms by (auto simp: normal_parts_def fraction_text_def split: option.splits)
  have coefficient: "(case split_once (CHR ''.'') (literal_text ip fp None) of
      Some (i, f) \<Rightarrow> (i, f) | None \<Rightarrow> (literal_text ip fp None, [])) = (ip, fraction_text fp)"
    unfolding split_literal_point [OF assms]
    by (auto simp: fraction_text_def literal_text_def split: option.splits)
  have zero: "(\<forall>c\<in>set (rev (ip @ fraction_text fp)). c = CHR ''0'') \<longleftrightarrow> coefficient_value ip fp = 0"
    using digits_value_eq_0_iff [OF digits] by (auto simp: coefficient_value_def)
  show ?thesis
  proof (cases ep)
    case None
    then show ?thesis
      unfolding analyze_def split_literal_e [OF assms] scan_trailing_zeroes_eq
      using coefficient zero by (simp add: trailing_zero_count_def)
  next
    case (Some a)
    then obtain s x where ep: "ep = Some (s, x)" by fastforce
    with assms have "all_digits x" "x \<noteq> []" by (auto simp: normal_parts_def)
    then show ?thesis
      unfolding analyze_def split_literal_e [OF assms] scan_trailing_zeroes_eq
      using coefficient zero strip_exponent_sign_text_append [of x s]
      by (simp add: ep trailing_zero_count_def)
  qed
qed

lemma trailing_zero_count_snoc:
  "trailing_zero_count (s @ [c]) = (if c = CHR ''0'' then Suc (trailing_zero_count s) else 0)"
  by (simp add: trailing_zero_count_def)

lemma trailing_zero_count_dvd:
  "all_digits s \<Longrightarrow> 10 ^ trailing_zero_count s dvd digits_value s"
proof (induction s rule: rev_induct)
  case (snoc c s)
  then show ?case by (auto simp: trailing_zero_count_snoc digits_value_append digits_value_Cons)
qed simp

lemma trailing_zero_count_maximal:
  assumes "all_digits s" and "digits_value s \<noteq> 0"
  shows "\<not> 10 ^ Suc (trailing_zero_count s) dvd digits_value s"
  using assms
proof (induction s rule: rev_induct)
  case (snoc c s)
  then have c: "is_ascii_digit c" "digit_of c < 10" using digit_of_less by auto
  show ?case
  proof (cases "c = CHR ''0''")
    case True
    with snoc show ?thesis
      by (auto simp: trailing_zero_count_snoc digits_value_append digits_value_Cons)
  next
    case False
    with c have "0 < digit_of c" by (metis digit_of_eq_0_iff gr0I)
    with c have "\<not> 10 dvd digits_value s * 10 + digit_of c" by presburger
    with False show ?thesis
      by (simp add: trailing_zero_count_snoc digits_value_append digits_value_Cons)
  qed
qed simp

lemma times_powi_10_Ints_iff:
  assumes "\<not> 10 dvd c"
  shows "of_nat c * 10 powi z \<in> (\<int> :: rat set) \<longleftrightarrow> 0 \<le> z"
proof
  assume "0 \<le> z"
  then show "of_nat c * 10 powi z \<in> (\<int> :: rat set)"
    by (simp add: power_int_def)
next
  assume int: "of_nat c * 10 powi z \<in> (\<int> :: rat set)"
  show "0 \<le> z"
  proof (rule ccontr)
    assume "\<not> 0 \<le> z"
    then obtain n where z: "z = - int (Suc n)"
      by (metis negD not_le)
    from int obtain i where "of_nat c * 10 powi z = (of_int i :: rat)" by (elim Ints_cases)
    then have "of_nat c = (of_int i :: rat) * 10 ^ Suc n"
      unfolding z power_int_minus power_int_of_nat by (simp add: field_simps)
    then have "(of_int (int c) :: rat) = of_int (i * 10 ^ Suc n)" by simp
    then have "int c = i * 10 ^ Suc n" by (simp only: of_int_eq_iff)
    then have "int 10 dvd int c" by simp
    with assms show False by (simp only: of_nat_dvd_iff)
  qed
qed

lemma literal_value_eq_0_iff: "literal_value ip fp ep = 0 \<longleftrightarrow> coefficient_value ip fp = 0"
  by (simp add: literal_value_def)

lemma normal_parts_digits:
  "normal_parts ip fp ep \<Longrightarrow> all_digits (ip @ fraction_text fp)"
  by (auto simp: normal_parts_def fraction_text_def split: option.splits)

lemma literal_value_places_iff:
  assumes parts: "normal_parts ip fp ep" and nz: "coefficient_value ip fp \<noteq> 0"
  shows "literal_value ip fp ep * 10 ^ k \<in> \<int> \<longleftrightarrow>
    0 \<le> exponent_value ep - int (length (fraction_text fp))
        + int (trailing_zero_count (ip @ fraction_text fp)) + int k"
proof -
  let ?s = "ip @ fraction_text fp"
  let ?tz = "trailing_zero_count ?s"
  have digits: "all_digits ?s" using parts by (rule normal_parts_digits)
  obtain c where c: "digits_value ?s = c * 10 ^ ?tz"
    using trailing_zero_count_dvd [OF digits] by (metis dvd_def mult.commute)
  have "\<not> 10 dvd c"
    using trailing_zero_count_maximal [OF digits] nz c
    by (auto simp: coefficient_value_def dvd_def)
  moreover have "literal_value ip fp ep * 10 ^ k =
      of_nat c * 10 powi (exponent_value ep - int (length (fraction_text fp)) + int ?tz + int k)"
    by (simp add: literal_value_def coefficient_value_def c power_int_add)
  ultimately show ?thesis by (metis times_powi_10_Ints_iff)
qed

lemma effective_scale_le_iff:
  assumes "normal_parts ip fp ep"
    and "length (fraction_text fp) + nat \<bar>exponent_value ep\<bar> \<le> usize_max"
  shows "effective_scale (analyze (literal_text ip fp ep)) \<le> k \<longleftrightarrow> literal_value ip fp ep * 10 ^ k \<in> \<int>"
proof (cases "coefficient_value ip fp = 0")
  case True
  then show ?thesis
    using assms by (simp add: literal_value_def analyze_literal effective_scale_def)
next
  case False
  show ?thesis
    unfolding literal_value_places_iff [OF assms(1) False] 
      analyze_literal [OF assms(1)] effective_scale_def
    using False assms(2)
    by (cases ep) (auto simp: Let_def checked_decimal_usize_eq exponent_value_def
        saturating_add_usize_def saturating_sub_usize_def min_def)
qed

lemma digit_run_all_digits: "all_digits s \<Longrightarrow> s \<noteq> [] \<Longrightarrow> digit_run s"
proof (induction s)
  case (Cons c s)
  then show ?case by (cases "s = []") (simp_all add: digit_run.single digit_run.digit)
qed simp

lemma strip_all_digits: "all_digits s \<Longrightarrow> strip_separators s = s"
  using not_digit_chars by (auto simp: all_digits_conv filter_id_conv)

lemma parse_normal_literal:
  assumes "normal_parts ip fp ep" "length (literal_text ip fp ep) \<le> u32_max"
  shows "\<exists>p. parse_numeric_literal (literal_text ip fp ep) = Inr p \<and> normalized_text p = literal_text ip fp ep"
proof -
  have "literal_parts_ok ip fp ep"
    using assms(1) digit_run_all_digits by (auto simp: normal_parts_def literal_parts_ok_def split: option.splits)
  moreover have "strip_separators (literal_text ip fp ep) = literal_text ip fp ep"
    unfolding strip_literal_text
    using assms(1) strip_all_digits by (auto simp: normal_parts_def literal_text_def split: option.splits)
  ultimately show ?thesis
    using parse_numeric_literal_complete assms(2) by (simp add: normalized_text_literal_facts)
qed

section \<open>Properties\<close>

text \<open>C30. Unless a saturated exponent is involved, the effective scale of a normalized literal is
  the least number of decimal places at which its exact value is representable.\<close>

theorem effective_decimal_scale_least:
  assumes "normal_parts ip fp ep"
    and "length (fraction_text fp) + nat \<bar>exponent_value ep\<bar> \<le> usize_max"
  shows "literal_value ip fp ep * 10 ^ k \<in> \<int> \<longleftrightarrow> effective_decimal_scale (literal_text ip fp ep) \<le> k"
  using effective_scale_le_iff [OF assms] by (simp add: effective_decimal_scale_def)

theorem effective_decimal_scale_least_witness:
  "literal_value ''12'' (Some ''500'') None * 10 ^ 1 \<in> \<int> \<longleftrightarrow>
     effective_decimal_scale ''12.500'' \<le> 1"
proof -
  have "normal_parts ''12'' (Some ''500'') None" by code_simp
  moreover have "length (fraction_text (Some ''500'')) + nat \<bar>exponent_value None\<bar> \<le> usize_max"
    by code_simp
  moreover have "literal_text ''12'' (Some ''500'') None = ''12.500''" by code_simp
  ultimately show ?thesis
    using effective_decimal_scale_least [of "''12''" "Some ''500''" None 1] by simp
qed

end
