(* ===== verification/Builtin_Errors.thy ===== *)
theory Builtin_Errors
  imports Prelude
begin

text \<open>
  The compiler-owned builtin error codes of \<open>src/compiler_frontend/builtins/error_codes.rs\<close>:
  the enumeration, its stable \<open>u32\<close> values, default messages and the implicit-failure classification.
\<close>

datatype builtin_error_code =
    UnknownOrUnassigned
  | Unsupported
  | CollectionExpectedOrderedCollection
  | CollectionIndexOutOfBounds
  | CollectionFixedCapacityExceeded
  | MapExpectedOrderedMap
  | MapKeyNotFound
  | IntParseInvalidFormat
  | IntParseOutOfRange
  | FloatParseInvalidFormat
  | FloatParseOutOfRange
  | StringParseBoolInvalidFormat
  | StringParseCharInvalidFormat
  | FloatCastToIntInvalidValue
  | FloatCastToIntOutOfRange
  | IntCastOutOfRange
  | FloatCastNonFinite
  | IntCastToCharInvalidCodepoint
  | NumberParseInvalidFormat
  | NumberParseInexactScale
  | NumberCastInexact
  | NumberParseCapacity
  | DivideByZero
  | IntOverflow
  | InvalidExponent
  | FloatNonFinite
  | FloatBoundaryNonFinite
  | FloatFormatInvariant
  | InvalidLoopStep
  | RangeStepNoProgress
  | TimeInvalidTimestampText
  | TimeTimestampOutOfRange
  | HostInvalidArgument
  | HostResourceNotFound
  | HostResourceUnavailable
  | HostOperationFailed

fun as_u32 :: "builtin_error_code \<Rightarrow> nat" where
  "as_u32 UnknownOrUnassigned = 0"
| "as_u32 Unsupported = 1"
| "as_u32 CollectionExpectedOrderedCollection = 100"
| "as_u32 CollectionIndexOutOfBounds = 101"
| "as_u32 CollectionFixedCapacityExceeded = 102"
| "as_u32 MapExpectedOrderedMap = 110"
| "as_u32 MapKeyNotFound = 111"
| "as_u32 IntParseInvalidFormat = 200"
| "as_u32 IntParseOutOfRange = 201"
| "as_u32 FloatParseInvalidFormat = 210"
| "as_u32 FloatParseOutOfRange = 211"
| "as_u32 StringParseBoolInvalidFormat = 220"
| "as_u32 StringParseCharInvalidFormat = 230"
| "as_u32 FloatCastToIntInvalidValue = 240"
| "as_u32 FloatCastToIntOutOfRange = 241"
| "as_u32 IntCastOutOfRange = 242"
| "as_u32 FloatCastNonFinite = 243"
| "as_u32 IntCastToCharInvalidCodepoint = 250"
| "as_u32 NumberParseInvalidFormat = 260"
| "as_u32 NumberParseInexactScale = 261"
| "as_u32 NumberCastInexact = 262"
| "as_u32 NumberParseCapacity = 263"
| "as_u32 DivideByZero = 300"
| "as_u32 IntOverflow = 301"
| "as_u32 InvalidExponent = 302"
| "as_u32 FloatNonFinite = 303"
| "as_u32 FloatBoundaryNonFinite = 304"
| "as_u32 FloatFormatInvariant = 305"
| "as_u32 InvalidLoopStep = 306"
| "as_u32 RangeStepNoProgress = 307"
| "as_u32 TimeInvalidTimestampText = 310"
| "as_u32 TimeTimestampOutOfRange = 311"
| "as_u32 HostInvalidArgument = 400"
| "as_u32 HostResourceNotFound = 404"
| "as_u32 HostResourceUnavailable = 409"
| "as_u32 HostOperationFailed = 500"

fun default_message :: "builtin_error_code \<Rightarrow> string" where
  "default_message UnknownOrUnassigned = ''Unknown error''"
| "default_message Unsupported = ''Unsupported operation''"
| "default_message CollectionExpectedOrderedCollection = ''Collection operation expects an ordered collection''"
| "default_message CollectionIndexOutOfBounds = ''Collection index out of bounds''"
| "default_message CollectionFixedCapacityExceeded = ''Fixed collection capacity exceeded''"
| "default_message MapExpectedOrderedMap = ''Map operation expects an ordered map''"
| "default_message MapKeyNotFound = ''Map key not found''"
| "default_message IntParseInvalidFormat = ''Cannot parse integer from text''"
| "default_message IntParseOutOfRange = ''Parsed integer is out of the target range''"
| "default_message FloatParseInvalidFormat = ''Cannot parse floating-point value from text''"
| "default_message FloatParseOutOfRange = ''Parsed floating-point value is out of the target range''"
| "default_message StringParseBoolInvalidFormat = ''Cannot parse Bool from text''"
| "default_message StringParseCharInvalidFormat = ''Cannot parse Char from text''"
| "default_message FloatCastToIntInvalidValue = ''Floating-point value cannot be cast to an integer''"
| "default_message FloatCastToIntOutOfRange = ''Floating-point value is out of the target integer range''"
| "default_message IntCastOutOfRange = ''Integer value is out of the target range''"
| "default_message FloatCastNonFinite = ''Floating-point conversion produced a non-finite value''"
| "default_message IntCastToCharInvalidCodepoint = ''Integer value is not a valid Unicode scalar''"
| "default_message NumberParseInvalidFormat = ''Cannot parse Dec from text''"
| "default_message NumberParseInexactScale = ''Dec value is not exactly representable at the target scale''"
| "default_message NumberCastInexact = ''Dec value is not exactly representable as the target type''"
| "default_message NumberParseCapacity = ''the Dec value exceeds host representation capacity''"
| "default_message IntOverflow = ''Integer operation overflowed''"
| "default_message DivideByZero = ''Division by zero''"
| "default_message InvalidExponent = ''Invalid exponent''"
| "default_message FloatNonFinite = ''Floating-point operation produced a non-finite value''"
| "default_message FloatBoundaryNonFinite = ''External floating-point boundary produced a non-finite value''"
| "default_message FloatFormatInvariant = ''Floating-point formatting invariant failed''"
| "default_message InvalidLoopStep = ''Loop step cannot be zero''"
| "default_message RangeStepNoProgress = ''Floating-point range step made no progress''"
| "default_message TimeInvalidTimestampText = ''Cannot parse Timestamp from text''"
| "default_message TimeTimestampOutOfRange = ''Timestamp instant is outside the renderable range''"
| "default_message HostInvalidArgument = ''Host operation received an invalid argument''"
| "default_message HostResourceNotFound = ''Host resource not found''"
| "default_message HostResourceUnavailable = ''Host resource is unavailable''"
| "default_message HostOperationFailed = ''Host operation failed''"

definition is_implicit_numeric_or_range_failure :: "builtin_error_code \<Rightarrow> bool" where
  "is_implicit_numeric_or_range_failure code \<longleftrightarrow>
     code \<in> {DivideByZero, IntOverflow, InvalidExponent, FloatNonFinite, InvalidLoopStep, RangeStepNoProgress}"

definition is_implicit_cast_failure :: "builtin_error_code \<Rightarrow> bool" where
  "is_implicit_cast_failure code \<longleftrightarrow>
     code \<in> {IntParseInvalidFormat, IntParseOutOfRange, FloatParseInvalidFormat,
       FloatParseOutOfRange, StringParseBoolInvalidFormat, StringParseCharInvalidFormat,
       FloatCastToIntInvalidValue, FloatCastToIntOutOfRange, IntCastOutOfRange,
       FloatCastNonFinite, IntCastToCharInvalidCodepoint, NumberParseInvalidFormat,
       NumberParseInexactScale, NumberCastInexact, NumberParseCapacity}"

definition is_implicit_failure :: "builtin_error_code \<Rightarrow> bool" where
  "is_implicit_failure code \<longleftrightarrow>
     is_implicit_numeric_or_range_failure code \<or> is_implicit_cast_failure code"

text \<open>The codes are strictly increasing in declaration order, which makes the stable runtime
  values unambiguous without comparing all pairs.\<close>

definition all_error_codes :: "builtin_error_code list" where
  "all_error_codes =
     [UnknownOrUnassigned, Unsupported, CollectionExpectedOrderedCollection,
      CollectionIndexOutOfBounds, CollectionFixedCapacityExceeded, MapExpectedOrderedMap,
      MapKeyNotFound, IntParseInvalidFormat, IntParseOutOfRange,
      FloatParseInvalidFormat, FloatParseOutOfRange, StringParseBoolInvalidFormat,
      StringParseCharInvalidFormat, FloatCastToIntInvalidValue, FloatCastToIntOutOfRange,
      IntCastOutOfRange, FloatCastNonFinite, IntCastToCharInvalidCodepoint,
      NumberParseInvalidFormat, NumberParseInexactScale, NumberCastInexact,
      NumberParseCapacity, DivideByZero, IntOverflow,
      InvalidExponent, FloatNonFinite, FloatBoundaryNonFinite,
      FloatFormatInvariant, InvalidLoopStep, RangeStepNoProgress,
      TimeInvalidTimestampText, TimeTimestampOutOfRange, HostInvalidArgument,
      HostResourceNotFound, HostResourceUnavailable, HostOperationFailed]"

lemma all_error_codes_complete: "code \<in> set all_error_codes"
  by (cases code) (simp_all add: all_error_codes_def)

lemma all_error_codes_values: "sorted_wrt (<) (map as_u32 all_error_codes)"
  by (simp add: all_error_codes_def)

lemma as_u32_inj: "as_u32 a = as_u32 b \<Longrightarrow> a = b"
proof -
  have "inj_on as_u32 (set all_error_codes)"
    using all_error_codes_values by (simp add: strict_sorted_iff distinct_map)
  then show "as_u32 a = as_u32 b \<Longrightarrow> a = b"
    using all_error_codes_complete by (auto dest: inj_onD)
qed

text \<open>A user can tell the codes apart by their default messages.\<close>

lemma default_message_inj: "inj default_message"
proof -
  have "distinct (map default_message all_error_codes)" by code_simp
  then have "inj_on default_message (set all_error_codes)" by (simp add: distinct_map)
  then show ?thesis using all_error_codes_complete by (auto simp: inj_on_def)
qed

end
