(* ===== verification/Numeric_Operators.thy ===== *)
theory Numeric_Operators
  imports Numeric_Grammar Builtin_Errors
begin

text \<open>
  The numeric domains and the operator promotion policy of
  \<open>src/compiler_frontend/datatypes/numeric_scalar.rs\<close> and \<open>numeric_operators.rs\<close>: which domain
  a binary operation computes in, which pairs compare, the common integer type, the discharge
  predicate for operations that cannot fail and the failure codes of the others.
\<close>

section \<open>Numeric scalar domains\<close>

datatype numeric_scalar = Fixed fixed_scalar | Number number_scale

text \<open>The invariant of the source type: \<open>Fixed\<close> never holds \<open>Byte\<close>.\<close>
definition numeric_scalar_ok :: "numeric_scalar \<Rightarrow> bool" where
  "numeric_scalar_ok s = (case s of Fixed f \<Rightarrow> f \<noteq> Byte | Number n \<Rightarrow> scale_ok n)"

fun is_integer :: "numeric_scalar \<Rightarrow> bool" where
  "is_integer (Number _) = False"
| "is_integer (Fixed s) = (scalar_class s = SignedInteger \<or> scalar_class s = UnsignedInteger)"

fun is_binary_float :: "numeric_scalar \<Rightarrow> bool" where
  "is_binary_float (Number _) = False"
| "is_binary_float (Fixed s) = (scalar_class s = BinaryFloat)"

fun integer_range :: "numeric_scalar \<Rightarrow> (int \<times> int) option" where
  "integer_range (Number _) = None"
| "integer_range (Fixed s) =
     (case scalar_class s of
        SignedInteger \<Rightarrow> (case signed_range s of None \<Rightarrow> None | Some (lo, hi) \<Rightarrow> Some (lo, hi))
      | UnsignedInteger \<Rightarrow> (case unsigned_max s of None \<Rightarrow> None | Some hi \<Rightarrow> Some (0, int hi))
      | BinaryFloat \<Rightarrow> None
      | Octet \<Rightarrow> None)"

fun numeric_precision :: "numeric_scalar \<Rightarrow> binary_float_precision option" where
  "numeric_precision (Number _) = None"
| "numeric_precision (Fixed s) = scalar_precision s"

fun numeric_scalar_display :: "numeric_scalar \<Rightarrow> string" where
  "numeric_scalar_display (Fixed s) = scalar_name s"
| "numeric_scalar_display (Number s) = number_scale_display s"

section \<open>Operators\<close>

datatype numeric_operator =
  Add | Subtract | Multiply | Divide | IntegerDivide | Remainder | Power | Negate

fun operator_name :: "numeric_operator \<Rightarrow> string" where
  "operator_name Add = ''add''"
| "operator_name Subtract = ''subtract''"
| "operator_name Multiply = ''multiply''"
| "operator_name Divide = ''divide''"
| "operator_name IntegerDivide = ''integer_divide''"
| "operator_name Remainder = ''remainder''"
| "operator_name Power = ''power''"
| "operator_name Negate = ''negate''"

definition is_unary :: "numeric_operator \<Rightarrow> bool" where
  "is_unary operator \<longleftrightarrow> operator = Negate"

definition is_fixed_integer :: "fixed_scalar \<Rightarrow> bool" where
  "is_fixed_integer s \<longleftrightarrow> scalar_class s = SignedInteger \<or> scalar_class s = UnsignedInteger"

definition is_fixed_float :: "fixed_scalar \<Rightarrow> bool" where
  "is_fixed_float s \<longleftrightarrow> scalar_class s = BinaryFloat"

definition integer_of_width :: "nat \<Rightarrow> bool \<Rightarrow> fixed_scalar option" where
  "integer_of_width bits is_signed =
     (if is_signed then
        (if bits \<le> 8 then Some I8 else if bits \<le> 16 then Some I16
         else if bits \<le> 32 then Some I32 else if bits \<le> 64 then Some I64 else None)
      else
        (if bits \<le> 8 then Some U8 else if bits \<le> 16 then Some U16
         else if bits \<le> 32 then Some U32 else if bits \<le> 64 then Some U64 else None))"

definition required_bits :: "fixed_scalar \<Rightarrow> fixed_scalar \<Rightarrow> nat" where
  "required_bits left right =
     (let left_signed = (scalar_class left = SignedInteger);
          right_signed = (scalar_class right = SignedInteger)
      in if left_signed = right_signed then max (bit_width left) (bit_width right)
         else if left_signed then max (bit_width left) (bit_width right + 1)
         else max (bit_width right) (bit_width left + 1))"

definition common_fixed_integer :: "fixed_scalar \<Rightarrow> fixed_scalar \<Rightarrow> fixed_scalar option" where
  "common_fixed_integer left right =
     (if \<not> is_fixed_integer left \<or> \<not> is_fixed_integer right then None
      else
        (let left_signed = (scalar_class left = SignedInteger);
             right_signed = (scalar_class right = SignedInteger)
         in integer_of_width (required_bits left right) (left_signed \<or> right_signed)))"

definition fixed_binary_operation_domain ::
  "numeric_operator \<Rightarrow> fixed_scalar \<Rightarrow> fixed_scalar \<Rightarrow> numeric_scalar option" where
  "fixed_binary_operation_domain operator left right =
     (if is_fixed_integer left \<and> is_fixed_integer right then
        (case common_fixed_integer left right of
           None \<Rightarrow> None
         | Some common \<Rightarrow> Some (Fixed (if operator = Divide then F64 else common)))
      else if is_fixed_float left \<and> is_fixed_float right then
        (if operator = IntegerDivide then None
         else Some (Fixed (if bit_width right \<le> bit_width left then left else right)))
      else None)"

definition number_binary_operation_domain ::
  "numeric_operator \<Rightarrow> number_scale \<Rightarrow> numeric_scalar option" where
  "number_binary_operation_domain operator scale =
     (let supported =
        (case operator of
           Add \<Rightarrow> True | Subtract \<Rightarrow> True | Multiply \<Rightarrow> True | Remainder \<Rightarrow> True
         | Divide \<Rightarrow> scale \<noteq> scale_zero
         | IntegerDivide \<Rightarrow> scale = scale_zero
         | Power \<Rightarrow> False | Negate \<Rightarrow> False)
      in if supported then Some (Number scale) else None)"

definition binary_operation_domain ::
  "numeric_operator \<Rightarrow> numeric_scalar \<Rightarrow> numeric_scalar \<Rightarrow> numeric_scalar option" where
  "binary_operation_domain operator left right =
     (if is_unary operator then None
      else
        (case (left, right) of
           (Fixed l, Fixed r) \<Rightarrow> fixed_binary_operation_domain operator l r
         | (Number scale, Fixed r) \<Rightarrow>
             if r = I32 \<and> operator = Power then Some (Number scale)
             else if is_integer right then number_binary_operation_domain operator scale
             else None
         | (Number scale, Number right_scale) \<Rightarrow>
             if scale = right_scale then number_binary_operation_domain operator scale else None
         | (Fixed l, Number scale) \<Rightarrow>
             if is_integer left then number_binary_operation_domain operator scale else None))"

definition range_iteration_domain ::
  "numeric_scalar \<Rightarrow> numeric_scalar \<Rightarrow> numeric_scalar option" where
  "range_iteration_domain start end_bound =
     (if list_ex (\<lambda>operand. case operand of Number _ \<Rightarrow> True | Fixed _ \<Rightarrow> False) [start, end_bound]
      then None else binary_operation_domain Add start end_bound)"

definition negation_domain :: "numeric_scalar \<Rightarrow> numeric_scalar option" where
  "negation_domain operand =
     (case operand of
        Number _ \<Rightarrow> Some operand
      | Fixed s \<Rightarrow>
          (case scalar_class s of
             SignedInteger \<Rightarrow> Some operand | BinaryFloat \<Rightarrow> Some operand
           | UnsignedInteger \<Rightarrow> None | Octet \<Rightarrow> None))"

definition comparison_supported :: "numeric_scalar \<Rightarrow> numeric_scalar \<Rightarrow> bool" where
  "comparison_supported left right =
     (case (left, right) of
        (Fixed l, Fixed r) \<Rightarrow>
          (is_fixed_integer l \<and> is_fixed_integer r) \<or> (is_fixed_float l \<and> is_fixed_float r)
      | (Number _, Fixed f) \<Rightarrow> is_fixed_integer f
      | (Fixed f, Number _) \<Rightarrow> is_fixed_integer f
      | (Number l, Number r) \<Rightarrow> l = r)"

datatype numeric_comparison_domain = ExactInteger | BinaryFloatComparison | NumberComparison number_scale

definition comparison_domain ::
  "numeric_scalar \<Rightarrow> numeric_scalar \<Rightarrow> numeric_comparison_domain option" where
  "comparison_domain left right =
     (if \<not> comparison_supported left right then None
      else
        (case (left, right) of
           (Number scale, _) \<Rightarrow> Some (NumberComparison scale)
         | (_, Number scale) \<Rightarrow> Some (NumberComparison scale)
         | _ \<Rightarrow> if is_integer left \<and> is_integer right then Some ExactInteger
                else Some BinaryFloatComparison))"

section \<open>Discharging operations that cannot fail\<close>

text \<open>The accumulator loop over the four endpoint products, started at \<open>(i128::MAX, i128::MIN)\<close>;
  any product outside \<open>i128\<close> abandons the proof.\<close>

fun accumulate_corners :: "int list \<Rightarrow> int \<times> int \<Rightarrow> (int \<times> int) option" where
  "accumulate_corners [] acc = Some acc"
| "accumulate_corners (x # xs) (low, high) =
     (case checked_i128 x of
        None \<Rightarrow> None
      | Some v \<Rightarrow> accumulate_corners xs (min low v, max high v))"

definition endpoint_products :: "int \<times> int \<Rightarrow> int \<times> int \<Rightarrow> int list" where
  "endpoint_products left right =
     [fst left * fst right, fst left * snd right, snd left * fst right, snd left * snd right]"

definition checked_result_range ::
  "numeric_operator \<Rightarrow> int \<times> int \<Rightarrow> int \<times> int \<Rightarrow> (int \<times> int) option" where
  "checked_result_range operator left right =
     (case operator of
        Add \<Rightarrow>
          (case checked_i128 (fst left + fst right) of None \<Rightarrow> None | Some lo \<Rightarrow>
          (case checked_i128 (snd left + snd right) of None \<Rightarrow> None | Some hi \<Rightarrow> Some (lo, hi)))
      | Subtract \<Rightarrow>
          (case checked_i128 (fst left - snd right) of None \<Rightarrow> None | Some lo \<Rightarrow>
          (case checked_i128 (snd left - fst right) of None \<Rightarrow> None | Some hi \<Rightarrow> Some (lo, hi)))
      | Multiply \<Rightarrow> accumulate_corners (endpoint_products left right) (i128_max, i128_min)
      | _ \<Rightarrow> None)"

definition numeric_operation_cannot_fail ::
  "numeric_operator \<Rightarrow> numeric_scalar \<Rightarrow> numeric_scalar option \<Rightarrow> numeric_scalar \<Rightarrow> bool" where
  "numeric_operation_cannot_fail operator left right domain =
     (case integer_range domain of
        None \<Rightarrow> False
      | Some result_range \<Rightarrow>
          if operator = Add \<or> operator = Subtract \<or> operator = Multiply then
            (case right of
               None \<Rightarrow> False
             | Some right \<Rightarrow>
                 (case (integer_range left, integer_range right) of
                    (Some left_range, Some right_range) \<Rightarrow>
                      (case checked_result_range operator left_range right_range of
                         None \<Rightarrow> False
                       | Some result \<Rightarrow>
                           fst result_range \<le> fst result \<and> snd result \<le> snd result_range)
                  | _ \<Rightarrow> False))
          else if operator = Negate then
            (if right \<noteq> None then False
             else
               (case integer_range left of
                  None \<Rightarrow> False
                | Some operand_range \<Rightarrow>
                    (case checked_i128 (- snd operand_range) of
                       None \<Rightarrow> False
                     | Some high \<Rightarrow>
                         (case checked_i128 (- fst operand_range) of
                            None \<Rightarrow> False
                          | Some low \<Rightarrow>
                              fst result_range \<le> high \<and> low \<le> snd result_range))))
          else False)"

definition numeric_failure_codes ::
  "numeric_operator \<Rightarrow> numeric_scalar \<Rightarrow> builtin_error_code list" where
  "numeric_failure_codes operator domain =
     (let divides = (operator = Divide \<or> operator = IntegerDivide \<or> operator = Remainder)
      in if is_binary_float domain then
           (if divides then [DivideByZero, FloatNonFinite]
            else if operator = Negate then [] else [FloatNonFinite])
         else if is_integer domain then
           (case operator of
              Divide \<Rightarrow> [DivideByZero] | Remainder \<Rightarrow> [DivideByZero]
            | IntegerDivide \<Rightarrow> [DivideByZero, IntOverflow]
            | Power \<Rightarrow> [IntOverflow, InvalidExponent]
            | _ \<Rightarrow> [IntOverflow])
         else if divides then [DivideByZero]
         else if operator = Power then [InvalidExponent]
         else [])"

section \<open>Semantics of the ranges\<close>

definition in_range :: "int \<times> int \<Rightarrow> int \<Rightarrow> bool" where
  "in_range r x \<longleftrightarrow> fst r \<le> x \<and> x \<le> snd r"

definition range_within :: "int \<times> int \<Rightarrow> int \<times> int \<Rightarrow> bool" where
  "range_within a b \<longleftrightarrow> fst b \<le> fst a \<and> snd a \<le> snd b"

lemma integer_range_Fixed:
  "integer_range (Fixed s) =
     (if scalar_class s = SignedInteger then Some (- (2 ^ (bit_width s - 1)), 2 ^ (bit_width s - 1) - 1)
      else if scalar_class s = UnsignedInteger then Some (0, 2 ^ bit_width s - 1) else None)"
  by (cases s) (simp_all add: signed_range_eq unsigned_max_eq)

lemma integer_range_None_iff: "integer_range d = None \<longleftrightarrow> \<not> is_integer d"
  by (cases d) (auto simp: integer_range_Fixed simp del: integer_range.simps(2))

lemma integer_range_bounds:
  assumes "integer_range d = Some (lo, hi)"
  shows "lo \<le> 0" "0 < hi" "- (2 ^ 63) \<le> lo" "hi \<le> 2 ^ 64 - 1"
proof -
  obtain s where d: "d = Fixed s" using assms by (cases d) auto
  show "lo \<le> 0" "0 < hi" "- (2 ^ 63) \<le> lo" "hi \<le> 2 ^ 64 - 1"
    using assms unfolding d by (cases s; auto simp: signed_range_eq unsigned_max_eq)+
qed

abbreviation is_signed :: "fixed_scalar \<Rightarrow> bool" where
  "is_signed s \<equiv> scalar_class s = SignedInteger"

definition fixed_range :: "fixed_scalar \<Rightarrow> int \<times> int" where
  "fixed_range s =
     (if is_signed s then (- (2 ^ (bit_width s - 1)), 2 ^ (bit_width s - 1) - 1)
      else (0, 2 ^ bit_width s - 1))"

lemma integer_range_fixed_range:
  "integer_range (Fixed s) = (if is_fixed_integer s then Some (fixed_range s) else None)"
  by (cases s) (simp_all add: signed_range_eq unsigned_max_eq fixed_range_def is_fixed_integer_def)

lemma fixed_range_within_iff:
  assumes "is_fixed_integer s" and "is_fixed_integer t"
  shows "range_within (fixed_range s) (fixed_range t) \<longleftrightarrow>
    (is_signed s \<longrightarrow> is_signed t) \<and>
    bit_width s + (if \<not> is_signed s \<and> is_signed t then 1 else 0) \<le> bit_width t"
  using assms
  by (cases s; cases t; simp add: is_fixed_integer_def fixed_range_def range_within_def)

definition covers :: "fixed_scalar \<Rightarrow> fixed_scalar \<Rightarrow> bool" where
  "covers t s \<longleftrightarrow> is_fixed_integer t \<and> range_within (fixed_range s) (fixed_range t)"

lemma integer_of_width_eq_Some:
  "integer_of_width bits sg = Some c \<longleftrightarrow>
     is_fixed_integer c \<and> is_signed c = sg \<and> bits \<le> bit_width c \<and> bit_width c div 2 < max 8 bits"
  by (cases c; cases sg) (auto simp: integer_of_width_def is_fixed_integer_def)

lemma width_cases:
  "bit_width s = 8 \<or> bit_width s = 16 \<or> bit_width s = 32 \<or> bit_width s = 64"
  by (cases s) simp_all

lemma covers_both_iff:
  assumes "is_fixed_integer l" and "is_fixed_integer r"
  shows "covers t l \<and> covers t r \<longleftrightarrow>
    is_fixed_integer t \<and> (is_signed l \<or> is_signed r \<longrightarrow> is_signed t) \<and>
    required_bits l r + (if is_signed t \<and> \<not> is_signed l \<and> \<not> is_signed r then 1 else 0) \<le> bit_width t"
  using assms by (cases "is_signed l"; cases "is_signed r")
    (auto simp: covers_def fixed_range_within_iff required_bits_def Let_def)

lemma integer_of_width_least:
  assumes "integer_of_width bits sg = Some c" and "bits \<le> bit_width t"
  shows "bit_width c \<le> bit_width t"
  using assms width_cases [of t] width_cases [of c] by (auto simp: integer_of_width_eq_Some)

lemma integer_of_width_None: "integer_of_width bits sg = None \<Longrightarrow> 64 < bits"
  by (auto simp: integer_of_width_def split: if_splits)

text \<open>The common integer type of two fixed integers is a supported type that contains both
  complete operand ranges and is the narrowest such type; when there is none, no supported integer
  type contains both.\<close>

theorem common_fixed_integer_narrowest:
  assumes "is_fixed_integer l" and "is_fixed_integer r"
  shows "case common_fixed_integer l r of
      Some c \<Rightarrow> covers c l \<and> covers c r \<and> (\<forall>t. covers t l \<and> covers t r \<longrightarrow> bit_width c \<le> bit_width t)
    | None \<Rightarrow> \<not> (\<exists>t. covers t l \<and> covers t r)"
proof (cases "integer_of_width (required_bits l r) (is_signed l \<or> is_signed r)")
  case None
  from integer_of_width_None [OF this] have "\<not> (covers t l \<and> covers t r)" for t
    unfolding covers_both_iff [OF assms] using width_cases [of t] by auto
  with None assms show ?thesis by (simp add: common_fixed_integer_def)
next
  case (Some c)
  then have "covers c l \<and> covers c r"
    unfolding covers_both_iff [OF assms] by (auto simp: integer_of_width_eq_Some)
  moreover have "bit_width c \<le> bit_width t" if "covers t l \<and> covers t r" for t
    using integer_of_width_least [OF Some] that unfolding covers_both_iff [OF assms] by simp
  ultimately show ?thesis using Some assms by (simp add: common_fixed_integer_def)
qed

theorem common_fixed_integer_narrowest_witness:
  "covers I64 I32 \<and> covers I64 U32"
proof -
  have "is_fixed_integer I32" "is_fixed_integer U32" "common_fixed_integer I32 U32 = Some I64"
    by code_simp+
  with common_fixed_integer_narrowest [of I32 U32] show ?thesis by simp
qed

section \<open>Soundness and exactness of the discharge predicate\<close>

fun apply_operator :: "numeric_operator \<Rightarrow> int \<Rightarrow> int \<Rightarrow> int" where
  "apply_operator Add a b = a + b"
| "apply_operator Subtract a b = a - b"
| "apply_operator Multiply a b = a * b"
| "apply_operator _ a b = undefined"

lemma apply_operator_fun:
  "apply_operator Add = (+)" "apply_operator Subtract = (-)" "apply_operator Multiply = (*)"
  by (simp_all add: fun_eq_iff)

lemma accumulate_corners_eq:
  "accumulate_corners xs (lo, hi) =
     (if list_all in_i128 xs then Some (foldl min lo xs, foldl max hi xs) else None)"
  by (induction xs arbitrary: lo hi) (auto simp: checked_i128_def)

lemma product_corner_bounds:
  fixes a b :: int
  assumes "al \<le> a" "a \<le> ah" "bl \<le> b" "b \<le> bh"
  shows "min (min (al * bl) (al * bh)) (min (ah * bl) (ah * bh)) \<le> a * b"
    and "a * b \<le> max (max (al * bl) (al * bh)) (max (ah * bl) (ah * bh))"
proof -
  have edge: "min (x * bl) (x * bh) \<le> x * b \<and> x * b \<le> max (x * bl) (x * bh)" for x
    using assms(3,4) by (cases "0 \<le> x")
      (auto simp: min_le_iff_disj le_max_iff_disj mult_left_mono mult_left_mono_neg)
  have "min (al * b) (ah * b) \<le> a * b \<and> a * b \<le> max (al * b) (ah * b)"
    using assms(1,2) by (cases "0 \<le> b")
      (auto simp: min_le_iff_disj le_max_iff_disj mult_right_mono mult_right_mono_neg)
  with edge [of al] edge [of ah]
  show "min (min (al * bl) (al * bh)) (min (ah * bl) (ah * bh)) \<le> a * b"
    and "a * b \<le> max (max (al * bl) (al * bh)) (max (ah * bl) (ah * bh))" by linarith+
qed

definition exact_hull :: "(int \<Rightarrow> int \<Rightarrow> int) \<Rightarrow> int \<times> int \<Rightarrow> int \<times> int \<Rightarrow> int \<times> int \<Rightarrow> bool" where
  "exact_hull f rl rr h \<longleftrightarrow>
     (\<forall>a b. in_range rl a \<longrightarrow> in_range rr b \<longrightarrow> in_range h (f a b)) \<and>
     (\<exists>a b. in_range rl a \<and> in_range rr b \<and> f a b = fst h) \<and>
     (\<exists>a b. in_range rl a \<and> in_range rr b \<and> f a b = snd h)"

lemma exact_hull_within_iff:
  assumes "exact_hull f rl rr h"
  shows "range_within h d \<longleftrightarrow> (\<forall>a b. in_range rl a \<longrightarrow> in_range rr b \<longrightarrow> in_range d (f a b))"
proof
  assume "range_within h d"
  with assms show "\<forall>a b. in_range rl a \<longrightarrow> in_range rr b \<longrightarrow> in_range d (f a b)"
    unfolding exact_hull_def range_within_def in_range_def by fastforce
next
  assume all: "\<forall>a b. in_range rl a \<longrightarrow> in_range rr b \<longrightarrow> in_range d (f a b)"
  with assms have "in_range d (fst h)" "in_range d (snd h)" unfolding exact_hull_def by metis+
  then show "range_within h d" by (simp add: range_within_def in_range_def)
qed

lemma multiply_exact_hull:
  assumes "al \<le> ah" and "bl \<le> bh"
  shows "exact_hull (*) (al, ah) (bl, bh)
    (min (min (al * bl) (al * bh)) (min (ah * bl) (ah * bh)),
     max (max (al * bl) (al * bh)) (max (ah * bl) (ah * bh)))"
proof -
  have corner: "\<exists>a b. in_range (al, ah) a \<and> in_range (bl, bh) b \<and> a * b = x"
    if "x \<in> {al * bl, al * bh, ah * bl, ah * bh}" for x
    using that assms by (auto simp: in_range_def)
  have "min (min (al * bl) (al * bh)) (min (ah * bl) (ah * bh)) \<in> {al * bl, al * bh, ah * bl, ah * bh}"
    "max (max (al * bl) (al * bh)) (max (ah * bl) (ah * bh)) \<in> {al * bl, al * bh, ah * bl, ah * bh}"
    by (auto simp: min_def max_def)
  with corner show ?thesis
    unfolding exact_hull_def using product_corner_bounds by (auto simp: in_range_def)
qed

lemma foldl_corners:
  assumes "list_all in_i128 [p, q, r, s]"
  shows "foldl min i128_max [p, q, r, s] = min (min p q) (min r s)"
    and "foldl max i128_min [p, q, r, s] = max (max p q) (max r s)"
  using assms by (auto simp: in_i128_def)

lemma checked_result_range_hull:
  assumes "operator \<in> {Add, Subtract, Multiply}"
    and "fst rl \<le> snd rl" and "fst rr \<le> snd rr"
  shows "case checked_result_range operator rl rr of
      Some h \<Rightarrow> exact_hull (apply_operator operator) rl rr h
    | None \<Rightarrow> \<exists>a b. in_range rl a \<and> in_range rr b \<and> \<not> in_i128 (apply_operator operator a b)"
proof -
  obtain al ah bl bh where r: "rl = (al, ah)" "rr = (bl, bh)" by (cases rl; cases rr) auto
  consider "operator = Add" | "operator = Subtract" | "operator = Multiply" using assms by blast
  then show ?thesis
  proof cases
    assume "operator = Multiply"
    then show ?thesis
      using multiply_exact_hull [of al ah bl bh] assms(2,3) foldl_corners
      by (auto simp: r checked_result_range_def endpoint_products_def accumulate_corners_eq
          in_range_def apply_operator_fun simp del: foldl.simps)
  qed (use assms(2,3) in \<open>auto simp: r checked_result_range_def checked_i128_def exact_hull_def
        in_range_def intro: exI [of _ al] exI [of _ ah]\<close>)
qed


lemma negate_range_iff:
  assumes "integer_range l = Some rl" and "integer_range d = Some rd"
  shows "numeric_operation_cannot_fail Negate l None d \<longleftrightarrow>
    (\<forall>a. in_range rl a \<longrightarrow> in_range rd (- a))"
proof -
  obtain lo hi where rl: "rl = (lo, hi)" by fastforce
  have b: "lo \<le> 0" "0 < hi" "- (2 ^ 63) \<le> lo" "hi \<le> 2 ^ 64 - 1"
    using integer_range_bounds assms(1) unfolding rl by blast+
  then have "in_i128 (- hi)" "in_i128 (- lo)" by (auto simp: in_i128_def)
  then have "numeric_operation_cannot_fail Negate l None d \<longleftrightarrow> fst rd \<le> - hi \<and> - lo \<le> snd rd"
    using assms by (simp add: numeric_operation_cannot_fail_def rl checked_i128_def)
  also have "\<dots> \<longleftrightarrow> (\<forall>a. in_range rl a \<longrightarrow> in_range rd (- a))"
  proof
    assume all: "\<forall>a. in_range rl a \<longrightarrow> in_range rd (- a)"
    show "fst rd \<le> - hi \<and> - lo \<le> snd rd"
      using all [rule_format, of hi] all [rule_format, of lo] b by (simp add: rl in_range_def)
  qed (auto simp: rl in_range_def)
  finally show ?thesis .
qed

lemma binary_cannot_fail_iff:
  assumes op: "operator \<in> {Add, Subtract, Multiply}"
    and "integer_range l = Some rl" and "integer_range r = Some rr" and "integer_range d = Some rd"
  shows "numeric_operation_cannot_fail operator l (Some r) d \<longleftrightarrow>
      (\<forall>a b. in_range rl a \<longrightarrow> in_range rr b \<longrightarrow> in_range rd (apply_operator operator a b))"
    (is "?L \<longleftrightarrow> ?R")
proof -
  have "fst rl \<le> snd rl" "fst rr \<le> snd rr"
    using integer_range_bounds [of l "fst rl" "snd rl"] integer_range_bounds [of r "fst rr" "snd rr"]
      assms(2,3) by auto
  note hull = checked_result_range_hull [OF op this]
  have rd: "in_range rd x \<Longrightarrow> in_i128 x" for x
    using integer_range_bounds [of d "fst rd" "snd rd"] assms(4) by (auto simp: in_range_def in_i128_def)
  show ?thesis
  proof (cases "checked_result_range operator rl rr")
    case None
    with hull rd have "\<not> ?R" by auto
    with None assms show ?thesis by (auto simp: numeric_operation_cannot_fail_def)
  next
    case (Some h)
    with hull exact_hull_within_iff [of "apply_operator operator" rl rr h rd] assms show ?thesis
      by (auto simp: numeric_operation_cannot_fail_def range_within_def)
  qed
qed

text \<open>C31. The discharge predicate is exact: for fixed-integer operands and result domain it holds
  precisely when the mathematical result of every pair of operand values (or of every operand, for
  negation) lies in the result domain.\<close>

theorem numeric_operation_cannot_fail_exact:
  assumes "integer_range l = Some rl" and "integer_range r = Some rr" and "integer_range d = Some rd"
  shows "(operator \<in> {Add, Subtract, Multiply} \<longrightarrow>
      (numeric_operation_cannot_fail operator l (Some r) d \<longleftrightarrow>
        (\<forall>a b. in_range rl a \<longrightarrow> in_range rr b \<longrightarrow> in_range rd (apply_operator operator a b))))
    \<and> (numeric_operation_cannot_fail Negate l None d \<longleftrightarrow>
        (\<forall>a. in_range rl a \<longrightarrow> in_range rd (- a)))"
  using assms by (simp add: binary_cannot_fail_iff negate_range_iff)

theorem numeric_operation_cannot_fail_exact_witness:
  "numeric_operation_cannot_fail Add (Fixed I8) (Some (Fixed U8)) (Fixed I16)
   \<and> \<not> numeric_operation_cannot_fail Negate (Fixed I8) None (Fixed I8)"
proof -
  have r: "integer_range (Fixed I8) = Some (- 128, 127)" "integer_range (Fixed U8) = Some (0, 255)"
    "integer_range (Fixed I16) = Some (- 32768, 32767)" by code_simp+
  show ?thesis
    using numeric_operation_cannot_fail_exact [OF r(1,2,3), of Add]
      numeric_operation_cannot_fail_exact [OF r(1,2,1), of Add]
    by (auto simp: in_range_def intro: exI [of _ "- 128"])
qed

text \<open>An operation the predicate discharges has integer overflow as its only failure code, so
  discharging it removes its whole failure edge.\<close>

theorem discharged_operation_codes:
  assumes "numeric_operation_cannot_fail operator left right domain"
  shows "numeric_failure_codes operator domain = [IntOverflow]"
proof -
  have "is_integer domain"
    using assms integer_range_None_iff [of domain]
    by (auto simp: numeric_operation_cannot_fail_def split: option.splits)
  moreover from this have "\<not> is_binary_float domain" by (cases domain) auto
  ultimately show ?thesis
    using assms by (cases operator)
      (auto simp: numeric_failure_codes_def numeric_operation_cannot_fail_def split: option.splits)
qed

theorem discharged_operation_codes_witness:
  "numeric_failure_codes Multiply (Fixed I64) = [IntOverflow]"
proof -
  have "numeric_operation_cannot_fail Multiply (Fixed I32) (Some (Fixed I32)) (Fixed I64)"
    by code_simp
  then show ?thesis by (rule discharged_operation_codes)
qed

end
