(* ===== verification/Rounding.thy ===== *)
theory Rounding
  imports Prelude
begin

text \<open>
  The rounding vocabulary of the decimal and binary numeric components: round-half-to-even as a
  relation between a rational and an integer, truncation toward zero, and what the truncating
  division \<open>sdiv\<close> and remainder \<open>smod\<close> of the source compute. The locale \<open>half_even_division\<close> is the
  interface fixed-scale arithmetic relies on: a division of integers that rounds half to even.
\<close>

section \<open>Round half to even\<close>

definition rounds_half_even :: "rat \<Rightarrow> int \<Rightarrow> bool" where
  "rounds_half_even x q \<longleftrightarrow>
     \<bar>x - of_int q\<bar> < 1 / 2 \<or> (\<bar>x - of_int q\<bar> = 1 / 2 \<and> even q)"

lemma rounds_half_even_exact [simp, intro]: "rounds_half_even (of_int q) q"
  by (simp add: rounds_half_even_def)

lemma rounds_half_even_unique:
  assumes "rounds_half_even x p" and "rounds_half_even x q"
  shows "p = q"
proof (rule ccontr)
  assume "p \<noteq> q"
  have "\<bar>x - of_int p\<bar> \<le> 1 / 2" "\<bar>x - of_int q\<bar> \<le> 1 / 2"
    using assms by (auto simp: rounds_half_even_def)
  then have "\<bar>of_int p - of_int q :: rat\<bar> \<le> 1" by linarith
  then have "\<bar>p - q\<bar> \<le> 1" by (metis of_int_1 of_int_abs of_int_diff of_int_le_iff)
  with \<open>p \<noteq> q\<close> have "p = q + 1 \<or> q = p + 1" by linarith
  with assms show False
    by (auto simp: rounds_half_even_def abs_if split: if_splits)
qed

lemma rounds_half_even_div_iff:
  assumes "d \<noteq> 0"
  shows "rounds_half_even (of_int n / of_int d) q \<longleftrightarrow>
    2 * \<bar>n - q * d\<bar> < \<bar>d\<bar> \<or> (2 * \<bar>n - q * d\<bar> = \<bar>d\<bar> \<and> even q)"
proof -
  have d: "0 < \<bar>of_int d :: rat\<bar>" using assms by simp
  have "of_int n / of_int d - of_int q = of_int (n - q * d) / (of_int d :: rat)"
    using assms by (simp add: field_simps)
  then have eq: "\<bar>of_int n / of_int d - of_int q :: rat\<bar> = of_int \<bar>n - q * d\<bar> / of_int \<bar>d\<bar>"
    by (simp add: abs_divide)
  have "\<bar>of_int n / of_int d - of_int q :: rat\<bar> < 1 / 2 \<longleftrightarrow>
      of_int (2 * \<bar>n - q * d\<bar>) < (of_int \<bar>d\<bar> :: rat)"
    unfolding eq using d by (simp add: field_simps)
  moreover have "\<bar>of_int n / of_int d - of_int q :: rat\<bar> = 1 / 2 \<longleftrightarrow>
      of_int (2 * \<bar>n - q * d\<bar>) = (of_int \<bar>d\<bar> :: rat)"
    unfolding eq using d by (auto simp add: field_simps)
  ultimately show ?thesis
    unfolding rounds_half_even_def of_int_less_iff of_int_eq_iff by blast
qed

section \<open>Truncating division\<close>

lemma sdiv_smod_facts:
  fixes n d :: int
  assumes "d \<noteq> 0"
  shows "n = n sdiv d * d + n smod d" "\<bar>n smod d\<bar> < \<bar>d\<bar>"
    "n smod d \<noteq> 0 \<Longrightarrow> sgn (n smod d) = sgn n"
proof -
  show eq: "n = n sdiv d * d + n smod d" by (simp add: mult_sdiv_smod_eq smod_sdiv_mult_eq add.commute)
  have ab: "n smod d = sgn n * (\<bar>n\<bar> mod \<bar>d\<bar>)"
    by (simp add: smod_int_alt_def)
  have m: "0 \<le> \<bar>n\<bar> mod \<bar>d\<bar>" "\<bar>n\<bar> mod \<bar>d\<bar> < \<bar>d\<bar>" using assms by simp_all
  show "\<bar>n smod d\<bar> < \<bar>d\<bar>" unfolding ab using m by (auto simp: abs_mult sgn_if)
  show "n smod d \<noteq> 0 \<Longrightarrow> sgn (n smod d) = sgn n"
    unfolding ab using m by (auto simp: sgn_mult)
qed

lemma smod_zero_dvd: "(d::int) \<noteq> 0 \<Longrightarrow> n smod d = 0 \<Longrightarrow> n = n sdiv d * d"
  using sdiv_smod_facts(1) [of d n] by simp

definition truncate_rat :: "rat \<Rightarrow> int" where
  "truncate_rat x = (if 0 \<le> x then \<lfloor>x\<rfloor> else \<lceil>x\<rceil>)"

lemma sdiv_truncates:
  assumes "d \<noteq> 0"
  shows "n sdiv d = truncate_rat (of_int n / of_int d)"
proof -
  have c: "\<lceil>of_int n / of_int d :: rat\<rceil> = - ((- n) div d)"
    by (metis ceiling_def floor_divide_of_int_eq minus_divide_left of_int_minus)
  have f: "\<lfloor>of_int n / of_int d :: rat\<rfloor> = n div d" by (rule floor_divide_of_int_eq)
  show ?thesis
    using assms
    by (auto simp: truncate_rat_def c f signed_divide_int_def sgn_if abs_if zero_le_divide_iff
        div_minus_minus div_minus_right)
qed

lemma div_int_Ints_iff:
  assumes "d \<noteq> 0"
  shows "(of_int n / of_int d :: rat) \<in> \<int> \<longleftrightarrow> n smod d = 0"
proof
  assume "n smod d = 0"
  then have "n = n sdiv d * d" using smod_zero_dvd assms by simp
  then have "(of_int n / of_int d :: rat) = of_int (n sdiv d)"
    using assms by (metis nonzero_mult_div_cancel_right of_int_0_eq_iff of_int_mult)
  then show "(of_int n / of_int d :: rat) \<in> \<int>" by simp
next
  assume "(of_int n / of_int d :: rat) \<in> \<int>"
  then obtain k where "of_int n / of_int d = (of_int k :: rat)" by (elim Ints_cases)
  then have "(of_int n :: rat) = of_int (k * d)" using assms by (simp add: field_simps)
  then have "d dvd n" by (simp only: of_int_eq_iff dvd_triv_right)
  then show "n smod d = 0" by (simp add: smod_int_alt_def)
qed

lemma sdiv_exact_rat:
  assumes "d \<noteq> 0" and "n smod d = 0"
  shows "of_int (n sdiv d) = (of_int n / of_int d :: rat)"
  using smod_zero_dvd [OF assms] assms(1)
  by (metis nonzero_mult_div_cancel_right of_int_0_eq_iff of_int_mult)

section \<open>The rounding interface\<close>

text \<open>A rounding division, and what a caller gets from it: the product and the quotient of two
  fixed-point coefficients at scale factor \<open>f\<close> are the exact results rounded once.\<close>

locale half_even_division =
  fixes div_round :: "int \<Rightarrow> int \<Rightarrow> int"
  assumes div_round: "d \<noteq> 0 \<Longrightarrow> rounds_half_even (of_int n / of_int d) (div_round n d)"
begin

lemma exact:
  assumes "d \<noteq> 0" and "n = q * d"
  shows "div_round n d = q"
proof -
  have "(of_int n / of_int d :: rat) = of_int q" using assms by simp
  with div_round [OF assms(1), of n] show ?thesis
    by (metis rounds_half_even_exact rounds_half_even_unique)
qed

lemma determined:
  assumes "d \<noteq> 0" and "rounds_half_even (of_int n / of_int d) q"
  shows "div_round n d = q"
  using rounds_half_even_unique div_round assms by blast

lemma product:
  assumes "f \<noteq> 0"
  shows "rounds_half_even ((of_int a / of_int f) * (of_int b / of_int f) * of_int f) (div_round (a * b) f)"
  using div_round [OF assms, of "a * b"] assms by simp

lemma quotient:
  assumes "f \<noteq> 0" and "b \<noteq> 0"
  shows "rounds_half_even ((of_int a / of_int f) / (of_int b / of_int f) * of_int f) (div_round (a * f) b)"
  using div_round [OF assms(2), of "a * f"] assms by simp

lemma scaled_power:
  assumes "f \<noteq> 0" and "0 < e"
  shows "rounds_half_even ((of_int a / of_int f) ^ e * of_int f) (div_round (a ^ e) (f ^ (e - 1)))"
  using div_round [of "f ^ (e - 1)" "a ^ e"] assms by (cases e) (simp_all add: power_divide)

end

end
