(* ===== verification/Number_Value.thy ===== *)
theory Number_Value
  imports Decimal_Facts Numeric_Operators Rounding
begin

text \<open>
  The exact decimal values of \<open>src/compiler_frontend/datatypes/number.rs\<close>: materialisation from
  normalized text, exact rescaling and integer conversion, arithmetic with one final
  round-half-to-even, powers with their shortcut paths, and display.

  \<open>BigInt\<close> values are \<open>int\<close>. Two operations of code outside the repository are parameters:
  \<open>from_str\<close>, the big-integer reader \<open>BigInt::from_str\<close>, and \<open>reserve\<close>, whether the allocator
  grants a buffer of a given size (\<open>try_reserve_exact\<close>). The hypothesis \<open>reads_decimal\<close> states the
  documented behaviour of the reader on digit strings.
\<close>

section \<open>Data\<close>

datatype number_materialization_error = InexactScale | Capacity

datatype number_integer_conversion_error = Inexact | OutOfRange

datatype number_arithmetic_error = DivisionByZero | InvalidPowerExponent | InvalidOperation

record number_value =
  coefficient :: int
  value_scale :: number_scale

definition number_new :: "int \<Rightarrow> number_scale \<Rightarrow> number_value" where
  "number_new c s = \<lparr> coefficient = c, value_scale = s \<rparr>"

section \<open>Helpers\<close>

definition decimal_scale_factor :: "number_scale \<Rightarrow> int" where
  "decimal_scale_factor s = 10 ^ scale_get s"

text \<open>The square-and-multiply loop: \<open>pw\<close> (the remaining exponent), \<open>factor\<close> and \<open>result\<close> are the loop variables.\<close>

fun bigint_power_loop :: "nat \<Rightarrow> int \<Rightarrow> int \<Rightarrow> int" where
  "bigint_power_loop pw factor result =
     (if pw = 0 then result
      else
        (let result' = (if pw mod 2 = 1 then result * factor else result);
             pw' = pw div 2;
             factor' = (if pw' \<noteq> 0 then factor * factor else factor)
         in bigint_power_loop pw' factor' result'))"

declare bigint_power_loop.simps [simp del]

definition bigint_power :: "int \<Rightarrow> nat \<Rightarrow> int" where
  "bigint_power base exponent = bigint_power_loop exponent base 1"

definition round_rational_half_even :: "int \<Rightarrow> int \<Rightarrow> int" where
  "round_rational_half_even numerator denominator =
     (if \<bar>denominator\<bar> = 1 then (if denominator < 0 then - numerator else numerator)
      else
        (let quotient = numerator sdiv denominator;
             remainder = numerator smod denominator
         in if remainder = 0 then quotient
            else
              (let doubled_remainder = \<bar>remainder\<bar> * 2
               in if doubled_remainder < \<bar>denominator\<bar> then quotient
                  else if doubled_remainder = \<bar>denominator\<bar> \<and> even quotient then quotient
                  else if sgn numerator = sgn denominator then quotient + 1
                  else quotient - 1)))"

definition parse_coefficient ::
  "(string \<Rightarrow> int option) \<Rightarrow> string \<Rightarrow> (number_materialization_error, int) result" where
  "parse_coefficient from_str digits = ok_or (from_str digits) Capacity"

section \<open>Materialisation\<close>

text \<open>The decimal shifts of \<open>from_normalized\<close>: zeroes to append and zeroes to remove.\<close>

definition decimal_shift ::
  "decimal_facts \<Rightarrow> nat \<Rightarrow> nat \<Rightarrow> (number_materialization_error, nat \<times> nat) result" where
  "decimal_shift facts exponent scale =
     result_bind
       (if negative_exponent facts then Inr scale
        else ok_or (checked_usize (scale + exponent)) Capacity) (\<lambda>positive_shift.
     result_bind
       (if negative_exponent facts
        then ok_or (checked_usize (length (fractional_part facts) + exponent)) Capacity
        else Inr (length (fractional_part facts))) (\<lambda>negative_shift.
       Inr (if negative_shift \<le> positive_shift then (positive_shift - negative_shift, 0)
            else (0, negative_shift - positive_shift))))"

definition expand_coefficient :: "string \<Rightarrow> string \<Rightarrow> nat \<Rightarrow> nat \<Rightarrow> string" where
  "expand_coefficient ip fp retained appended =
     take (min (length ip) retained) ip
     @ (if length ip < retained then take (retained - length ip) fp else [])
     @ replicate appended (CHR ''0'')"

definition from_normalized ::
  "(string \<Rightarrow> int option) \<Rightarrow> (nat \<Rightarrow> bool) \<Rightarrow> string \<Rightarrow> numeric_literal_sign \<Rightarrow> number_scale
    \<Rightarrow> (number_materialization_error, number_value) result" where
  "from_normalized from_str reserve normalized sign scale =
     (let facts = analyze normalized in
      if coefficient_is_zero facts then Inr (number_new 0 scale)
      else if scale_get scale < effective_scale facts then Inl InexactScale
      else
        result_bind (ok_or (exponent_magnitude facts) Capacity) (\<lambda>exponent.
        result_bind (decimal_shift facts exponent (scale_get scale)) (\<lambda>(appended, removed).
        result_bind (ok_or (checked_usize (length (integer_part facts) + length (fractional_part facts)))
          Capacity) (\<lambda>digit_total.
        if trailing_zeroes facts < removed then Inl InexactScale
        else
          result_bind (ok_or (checked_sub_usize digit_total removed) Capacity) (\<lambda>retained.
          result_bind (ok_or (checked_usize (retained + appended)) Capacity) (\<lambda>expanded.
          result_bind
            (if fractional_part facts = [] \<and> appended = 0 \<and> removed = 0
             then parse_coefficient from_str (integer_part facts)
             else if \<not> reserve expanded then Inl Capacity
             else parse_coefficient from_str
               (expand_coefficient (integer_part facts) (fractional_part facts) retained appended))
            (\<lambda>c. Inr (number_new (case sign of Positive \<Rightarrow> c | Negative \<Rightarrow> - c) scale))))))))"

definition from_integer :: "int \<Rightarrow> number_scale \<Rightarrow> number_value" where
  "from_integer v scale =
     (if v = 0 \<or> scale = scale_zero then number_new v scale
      else number_new (v * decimal_scale_factor scale) scale)"

section \<open>Conversions\<close>

definition rescale ::
  "number_value \<Rightarrow> number_scale \<Rightarrow> (number_materialization_error, number_value) result" where
  "rescale v target =
     (if target = value_scale v then Inr v
      else if coefficient v = 0 then Inr (v\<lparr>value_scale := target\<rparr>)
      else if scale_get (value_scale v) < scale_get target then
        Inr (number_new
               (coefficient v *
                decimal_scale_factor (NumberScale (scale_get target - scale_get (value_scale v))))
               target)
      else
        (let divisor = decimal_scale_factor (NumberScale (scale_get (value_scale v) - scale_get target))
         in if coefficient v smod divisor \<noteq> 0 then Inl InexactScale
            else Inr (number_new (coefficient v sdiv divisor) target)))"

definition to_integer_exact :: "number_value \<Rightarrow> (number_integer_conversion_error, int) result" where
  "to_integer_exact v =
     (if value_scale v = scale_zero then ok_or (checked_i128 (coefficient v)) OutOfRange
      else if coefficient v = 0 then Inr 0
      else
        (let divisor = decimal_scale_factor (value_scale v)
         in if coefficient v smod divisor \<noteq> 0 then Inl Inexact
            else ok_or (checked_i128 (coefficient v sdiv divisor)) OutOfRange))"

definition negated :: "number_value \<Rightarrow> number_value" where
  "negated v = number_new (- coefficient v) (value_scale v)"

section \<open>Arithmetic\<close>

definition checked_binary ::
  "number_value \<Rightarrow> numeric_operator \<Rightarrow> number_value
    \<Rightarrow> (number_arithmetic_error, number_value) result" where
  "checked_binary left operator right =
     (if value_scale left \<noteq> value_scale right then Inl InvalidOperation
      else
        result_bind
          (case operator of
             Add \<Rightarrow> Inr (coefficient left + coefficient right)
           | Subtract \<Rightarrow> Inr (coefficient left - coefficient right)
           | Multiply \<Rightarrow>
               if value_scale left = scale_zero then Inr (coefficient left * coefficient right)
               else Inr (round_rational_half_even (coefficient left * coefficient right)
                           (decimal_scale_factor (value_scale left)))
           | Divide \<Rightarrow>
               if value_scale left = scale_zero then Inl InvalidOperation
               else if coefficient right = 0 then Inl DivisionByZero
               else Inr (round_rational_half_even
                           (coefficient left * decimal_scale_factor (value_scale left))
                           (coefficient right))
           | IntegerDivide \<Rightarrow>
               if value_scale left \<noteq> scale_zero then Inl InvalidOperation
               else if coefficient right = 0 then Inl DivisionByZero
               else Inr (coefficient left sdiv coefficient right)
           | Remainder \<Rightarrow>
               if coefficient right = 0 then Inl DivisionByZero
               else Inr (coefficient left smod coefficient right)
           | Power \<Rightarrow> Inl InvalidOperation
           | Negate \<Rightarrow> Inl InvalidOperation)
          (\<lambda>c. Inr (number_new c (value_scale left))))"

definition checked_power ::
  "number_value \<Rightarrow> int \<Rightarrow> (number_arithmetic_error, number_value) result" where
  "checked_power v exponent =
     (if exponent < 0 then Inl InvalidPowerExponent
      else if exponent = 0 then
        Inr (number_new (decimal_scale_factor (value_scale v)) (value_scale v))
      else if exponent = 1 \<or> coefficient v = 0 then Inr v
      else
        (let unity = decimal_scale_factor (value_scale v) in
         if coefficient v = unity then Inr v
         else if coefficient v < 0 \<and> \<bar>coefficient v\<bar> = \<bar>unity\<bar> then
           (if exponent mod 2 = 1 then Inr v else Inr (number_new unity (value_scale v)))
         else
           (let e = nat exponent in
            if value_scale v = scale_zero then
              Inr (number_new (bigint_power (coefficient v) e) (value_scale v))
            else if \<bar>coefficient v\<bar> = 1 then Inr (number_new 0 (value_scale v))
            else if coefficient v smod unity = 0 then
              Inr (number_new (bigint_power (coefficient v sdiv unity) e * unity) (value_scale v))
            else
              Inr (number_new
                     (round_rational_half_even (bigint_power (coefficient v) e)
                        (bigint_power unity (e - 1)))
                     (value_scale v)))))"

section \<open>Display\<close>

text \<open>The loop that drops trailing zeroes of the fraction: it lowers \<open>fractional_end\<close> while the
  digit before it is zero and it stays above \<open>integer_digit_count\<close>.\<close>

fun trim_fraction_end :: "string \<Rightarrow> nat \<Rightarrow> nat \<Rightarrow> nat" where
  "trim_fraction_end digits integer_count 0 = 0"
| "trim_fraction_end digits integer_count (Suc n) =
     (if integer_count < Suc n \<and> digits ! n = CHR ''0''
      then trim_fraction_end digits integer_count n else Suc n)"

text \<open>\<open>digits\<close> is the decimal text of the coefficient magnitude (\<open>to_str_radix(10)\<close> without its
  sign).\<close>

definition display_scaled :: "bool \<Rightarrow> string \<Rightarrow> nat \<Rightarrow> string" where
  "display_scaled negative digits scale =
     (let integer_count = length digits - scale;
          fractional_end = trim_fraction_end digits integer_count (length digits)
      in (if negative then ''-'' else [])
         @ (if integer_count = 0 then ''0'' else take integer_count digits)
         @ (if integer_count < fractional_end
            then ''.'' @ replicate (scale - length digits) (CHR ''0'')
                 @ take (fractional_end - integer_count) (drop integer_count digits)
            else []))"

definition number_display :: "number_value \<Rightarrow> string" where
  "number_display v =
     (let scale = scale_get (value_scale v) in
      if scale = 0 then int_to_string (coefficient v)
      else if coefficient v = 0 then ''0''
      else display_scaled (coefficient v < 0) (nat_to_string (nat \<bar>coefficient v\<bar>)) scale)"

section \<open>Rounding and powers\<close>

lemma round_rational_half_even_rounds:
  assumes d: "d \<noteq> 0"
  shows "rounds_half_even (of_int n / of_int d) (round_rational_half_even n d)"
proof (cases "\<bar>d\<bar> = 1")
  case True
  then have "of_int n / of_int d = (of_int (round_rational_half_even n d) :: rat)"
    by (auto simp: round_rational_half_even_def abs_if split: if_splits)
  then show ?thesis by simp
next
  case False
  define q r where "q = n sdiv d" and "r = n smod d"
  have n: "n = q * d + r" and r: "\<bar>r\<bar> < \<bar>d\<bar>" and sg: "r \<noteq> 0 \<Longrightarrow> sgn r = sgn n"
    using sdiv_smod_facts [OF d] unfolding q_def r_def by blast+
  show ?thesis
  proof (cases "2 * \<bar>r\<bar> < \<bar>d\<bar> \<or> (2 * \<bar>r\<bar> = \<bar>d\<bar> \<and> even q)")
    case True
    then have "round_rational_half_even n d = q"
      using False by (auto simp: round_rational_half_even_def Let_def simp flip: q_def r_def)
    with True show ?thesis unfolding rounds_half_even_div_iff [OF d] using n by simp
  next
    case big: False
    with r d have r0: "r \<noteq> 0" by auto
    define s where "s = (if sgn n = sgn d then 1 else - 1 :: int)"
    have "round_rational_half_even n d = q + s"
      using False big r0
      by (auto simp: round_rational_half_even_def Let_def s_def simp flip: q_def r_def)
    moreover have "\<bar>n - (q + s) * d\<bar> = \<bar>d\<bar> - \<bar>r\<bar>"
    proof -
      have "n - (q + s) * d = r - s * d" by (simp add: n algebra_simps)
      moreover have "\<bar>r - s * d\<bar> = \<bar>d\<bar> - \<bar>r\<bar>"
        using sg [OF r0] r r0 d by (auto simp: s_def sgn_if split: if_splits)
      ultimately show ?thesis by simp
    qed
    moreover have "even (q + s)" if "2 * \<bar>r\<bar> = \<bar>d\<bar>" using that big by (auto simp: s_def)
    ultimately show ?thesis
      unfolding rounds_half_even_div_iff [OF d] using big by auto
  qed
qed

interpretation half_even: half_even_division round_rational_half_even
  by unfold_locales (rule round_rational_half_even_rounds)

lemma bigint_power_loop_eq: "bigint_power_loop pw factor result = result * factor ^ pw"
proof (induction pw factor result rule: bigint_power_loop.induct)
  case (1 pw factor result)
  show ?case
  proof (cases "pw = 0")
    case True
    then show ?thesis by (simp add: bigint_power_loop.simps)
  next
    case False
    define f where "f = (if pw div 2 \<noteq> 0 then factor * factor else factor)"
    define res where "res = (if pw mod 2 = 1 then result * factor else result)"
    have "bigint_power_loop pw factor result = bigint_power_loop (pw div 2) f res"
      using False by (subst bigint_power_loop.simps) (simp add: f_def res_def Let_def)
    also have "\<dots> = res * f ^ (pw div 2)" using 1 False unfolding f_def res_def Let_def by auto
    also have "f ^ (pw div 2) = (factor * factor) ^ (pw div 2)" by (simp add: f_def)
    also have "res * (factor * factor) ^ (pw div 2) = result * factor ^ (pw mod 2 + 2 * (pw div 2))"
      by (cases "pw mod 2 = 1")
        (simp_all only: res_def power_add power_mult power2_eq_square, simp_all)
    finally show ?thesis by simp
  qed
qed

lemma bigint_power_eq [simp]: "bigint_power base e = base ^ e"
  by (simp add: bigint_power_def bigint_power_loop_eq)

section \<open>Arithmetic\<close>

definition number_rat :: "number_value \<Rightarrow> rat" where
  "number_rat v = of_int (coefficient v) / 10 ^ scale_get (value_scale v)"

lemma number_new_simps [simp]:
  "coefficient (number_new c s) = c" "value_scale (number_new c s) = s"
  by (simp_all add: number_new_def)

lemma decimal_scale_factor_rat: "(of_int (decimal_scale_factor s) :: rat) = 10 ^ scale_get s"
  by (simp add: decimal_scale_factor_def)

lemma decimal_scale_factor_pos [simp]: "0 < decimal_scale_factor s" "decimal_scale_factor s \<noteq> 0"
  by (simp_all add: decimal_scale_factor_def)

lemma scale_zero_iff: "s = scale_zero \<longleftrightarrow> scale_get s = 0"
  by (cases s) (simp add: scale_zero_def)

lemma round_scale_zero [simp]: "round_rational_half_even n (decimal_scale_factor scale_zero) = n"
  by (simp add: round_rational_half_even_def decimal_scale_factor_def scale_zero_def)

lemma checked_binary_fixed_scale:
  assumes "checked_binary l operator r = Inr w"
  shows "value_scale w = value_scale l" "value_scale r = value_scale l"
  using assms by (auto simp: checked_binary_def result_bind_eq_Inr_iff split: if_splits)

lemma number_rat_factor_div:
  "number_rat v = of_int (coefficient v) / of_int (decimal_scale_factor (value_scale v))"
  by (simp add: number_rat_def decimal_scale_factor_rat)

lemma multiply_contract:
  assumes "value_scale r = value_scale l"
  shows "rounds_half_even (number_rat l * number_rat r * 10 ^ scale_get (value_scale l))
    (round_rational_half_even (coefficient l * coefficient r) (decimal_scale_factor (value_scale l)))"
  using half_even.product [of "decimal_scale_factor (value_scale l)"] assms
  by (simp add: number_rat_factor_div flip: decimal_scale_factor_rat)

lemma divide_contract:
  assumes "value_scale r = value_scale l" and "coefficient r \<noteq> 0"
  shows "rounds_half_even (number_rat l / number_rat r * 10 ^ scale_get (value_scale l))
    (round_rational_half_even (coefficient l * decimal_scale_factor (value_scale l)) (coefficient r))"
  using half_even.quotient [of "decimal_scale_factor (value_scale l)" "coefficient r" "coefficient l"] assms
  by (simp add: number_rat_factor_div flip: decimal_scale_factor_rat)

lemma number_rat_new: "number_rat (number_new c s) = of_int c / 10 ^ scale_get s"
  by (simp add: number_rat_def)

lemma number_rat_eq_0_iff [simp]: "number_rat v = 0 \<longleftrightarrow> coefficient v = 0"
  by (simp add: number_rat_def)

lemma integer_divide_contract:
  assumes "value_scale r = value_scale l" and "coefficient r \<noteq> 0"
  shows "coefficient l sdiv coefficient r = truncate_rat (number_rat l / number_rat r)"
  using assms by (simp add: number_rat_def sdiv_truncates)

text \<open>The contract of one binary operation at a common scale.\<close>

definition binary_contract ::
  "numeric_operator \<Rightarrow> number_value \<Rightarrow> number_value \<Rightarrow> number_value \<Rightarrow> bool" where
  "binary_contract operator l r w =
     (let s = 10 ^ scale_get (value_scale l) in
      case operator of
        Add \<Rightarrow> number_rat w = number_rat l + number_rat r
      | Subtract \<Rightarrow> number_rat w = number_rat l - number_rat r
      | Multiply \<Rightarrow> rounds_half_even (number_rat l * number_rat r * s) (coefficient w)
      | Divide \<Rightarrow> number_rat r \<noteq> 0 \<and> rounds_half_even (number_rat l / number_rat r * s) (coefficient w)
      | IntegerDivide \<Rightarrow>
          number_rat r \<noteq> 0 \<and> number_rat w = of_int (truncate_rat (number_rat l / number_rat r))
      | Remainder \<Rightarrow>
          number_rat r \<noteq> 0 \<and>
          number_rat w = number_rat l - number_rat r * of_int (truncate_rat (number_rat l / number_rat r))
      | _ \<Rightarrow> False)"

lemma remainder_contract:
  assumes "coefficient r \<noteq> 0" "value_scale r = value_scale l"
  shows "of_int (coefficient l smod coefficient r) / 10 ^ scale_get (value_scale l) =
    number_rat l - number_rat r * of_int (truncate_rat (number_rat l / number_rat r))"
proof -
  have q: "number_rat l / number_rat r = of_int (coefficient l) / of_int (coefficient r)"
    using assms by (simp add: number_rat_def)
  have "coefficient l smod coefficient r = coefficient l - coefficient r * (coefficient l sdiv coefficient r)"
    by (simp add: minus_mult_sdiv_eq_smod)
  then show ?thesis
    unfolding q sdiv_truncates [OF assms(1), symmetric]
    using assms by (simp add: number_rat_def diff_divide_distrib)
qed

text \<open>C21. A successful binary operation keeps the common scale of its operands, and its value is the
  exact sum, difference, truncated quotient or remainder, or the exact product or quotient rounded
  once, half to even, at that scale.\<close>

theorem checked_binary_correct:
  assumes "checked_binary l operator r = Inr w"
  shows "value_scale w = value_scale l \<and> value_scale r = value_scale l \<and> binary_contract operator l r w"
proof -
  note sc = checked_binary_fixed_scale [OF assms]
  have ok: "\<exists>c. w = number_new c (value_scale l) \<and> (case operator of
       Add \<Rightarrow> c = coefficient l + coefficient r | Subtract \<Rightarrow> c = coefficient l - coefficient r
     | Multiply \<Rightarrow> c = round_rational_half_even (coefficient l * coefficient r) (decimal_scale_factor (value_scale l))
     | Divide \<Rightarrow> coefficient r \<noteq> 0 \<and> c = round_rational_half_even
                  (coefficient l * decimal_scale_factor (value_scale l)) (coefficient r)
     | IntegerDivide \<Rightarrow> coefficient r \<noteq> 0 \<and> value_scale l = scale_zero \<and> c = coefficient l sdiv coefficient r
     | Remainder \<Rightarrow> coefficient r \<noteq> 0 \<and> c = coefficient l smod coefficient r
     | _ \<Rightarrow> False)"
    using assms
    by (cases operator) (auto simp: checked_binary_def split: if_splits)
  have sum: "number_rat (number_new (coefficient l + coefficient r) (value_scale l)) = number_rat l + number_rat r"
    "number_rat (number_new (coefficient l - coefficient r) (value_scale l)) = number_rat l - number_rat r"
    using sc by (simp_all add: number_rat_def add_divide_distrib diff_divide_distrib)
  from ok have "binary_contract operator l r w"
    using sc multiply_contract [OF sc(2)] divide_contract [OF sc(2)] sum
      remainder_contract [OF _ sc(2)] integer_divide_contract [OF sc(2)]
    by (cases operator) (auto simp: binary_contract_def number_rat_new scale_zero_iff)
  with sc show ?thesis by simp
qed

theorem checked_binary_correct_witness:
  "binary_contract Divide (number_new 100 (NumberScale 2)) (number_new 800 (NumberScale 2))
     (number_new 12 (NumberScale 2))"
proof -
  have "checked_binary (number_new 100 (NumberScale 2)) Divide (number_new 800 (NumberScale 2))
      = Inr (number_new 12 (NumberScale 2))" by code_simp
  from checked_binary_correct [OF this] show ?thesis by simp
qed

text \<open>The arithmetic refuses an operation as invalid exactly where the operation-domain table has
  no decimal domain for the operand scales.\<close>

theorem checked_binary_invalid_iff_no_domain:
  "checked_binary l operator r = Inl InvalidOperation \<longleftrightarrow>
     binary_operation_domain operator (Number (value_scale l)) (Number (value_scale r)) = None"
  by (cases operator)
     (auto simp: checked_binary_def binary_operation_domain_def number_binary_operation_domain_def
       is_unary_def split: if_splits)

section \<open>Powers\<close>

lemma power_scale_value:
  assumes "0 < e"
  shows "number_rat v ^ e * 10 ^ scale_get (value_scale v) =
    of_int (coefficient v ^ e) / of_int (decimal_scale_factor (value_scale v) ^ (e - 1))"
  using assms by (cases e) (simp_all add: number_rat_def decimal_scale_factor_rat power_divide)

lemma unit_coefficient_power_small:
  assumes "\<bar>coefficient v\<bar> = 1" "scale_get (value_scale v) \<noteq> 0" "2 \<le> e"
  shows "rounds_half_even (number_rat v ^ e * 10 ^ scale_get (value_scale v)) 0"
proof -
  let ?F = "decimal_scale_factor (value_scale v)"
  have "10 \<le> ?F" using assms(2) power_increasing [of 1 "scale_get (value_scale v)" "10 :: int"]
    by (simp add: decimal_scale_factor_def)
  moreover from this have "?F \<le> ?F ^ (e - 1)" using assms(3) by (intro self_le_power) auto
  ultimately have "2 * 1 < \<bar>?F ^ (e - 1)\<bar>" by simp
  moreover have "\<bar>coefficient v ^ e\<bar> = 1" using assms(1) by (simp add: power_abs)
  ultimately have "rounds_half_even (of_int (coefficient v ^ e) / of_int (?F ^ (e - 1))) 0"
    by (subst rounds_half_even_div_iff) auto
  with assms(3) show ?thesis by (subst power_scale_value) simp_all
qed

text \<open>The contract of a power: the coefficient is the exact power at the value's scale, rounded
  once.\<close>

definition power_contract :: "number_value \<Rightarrow> nat \<Rightarrow> number_value \<Rightarrow> bool" where
  "power_contract v e w \<longleftrightarrow> value_scale w = value_scale v \<and>
     rounds_half_even (number_rat v ^ e * 10 ^ scale_get (value_scale v)) (coefficient w)"

lemma power_contract_exact:
  assumes "value_scale w = value_scale v" and "number_rat w = number_rat v ^ e"
  shows "power_contract v e w"
proof -
  have "number_rat v ^ e * 10 ^ scale_get (value_scale v) = of_int (coefficient w)"
    unfolding assms(2) [symmetric] using assms(1) by (simp add: number_rat_def)
  with assms(1) show ?thesis by (simp add: power_contract_def)
qed

lemma number_rat_factor: "number_rat (number_new (q * decimal_scale_factor s) s) = of_int q"
  by (simp add: number_rat_new decimal_scale_factor_rat)

lemma number_rat_unity: "number_rat (number_new (decimal_scale_factor s) s) = 1"
  using number_rat_factor [of 1 s] by simp

lemma checked_power_low:
  assumes "exponent = 0 \<or> exponent = 1 \<or> (2 \<le> exponent \<and> coefficient v = 0)"
  shows "\<exists>w. checked_power v exponent = Inr w \<and> power_contract v (nat exponent) w"
  using assms
  by (auto simp: checked_power_def number_rat_def decimal_scale_factor_def intro!: power_contract_exact)

lemma number_rat_pm_unity:
  assumes "\<bar>coefficient v\<bar> = decimal_scale_factor (value_scale v)"
  shows "number_rat v = (if coefficient v < 0 then - 1 else 1)"
proof -
  let ?F = "decimal_scale_factor (value_scale v)"
  have "coefficient v = (if coefficient v < 0 then - ?F else ?F)" using assms by auto
  then have "number_rat v = of_int (if coefficient v < 0 then - ?F else ?F) / of_int ?F"
    by (simp only: number_rat_def decimal_scale_factor_rat)
  then show ?thesis by simp
qed

lemma checked_power_unity:
  assumes "2 \<le> exponent" and unity: "\<bar>coefficient v\<bar> = decimal_scale_factor (value_scale v)"
  shows "\<exists>w. checked_power v exponent = Inr w \<and> power_contract v (nat exponent) w"
proof -
  have par: "exponent mod 2 = 1 \<longleftrightarrow> odd (nat exponent)"
    using assms(1) by (simp add: even_nat_iff odd_iff_mod_2_eq_one)
  have "coefficient v \<noteq> 0" using unity decimal_scale_factor_pos(1) [of "value_scale v"] by auto
  then have "checked_power v exponent =
      (if coefficient v < 0 \<and> even (nat exponent)
       then Inr (number_new (decimal_scale_factor (value_scale v)) (value_scale v)) else Inr v)"
    using assms unfolding checked_power_def par by (auto simp: Let_def)
  then show ?thesis
    using number_rat_pm_unity [OF unity]
    by (auto simp: number_rat_unity intro!: power_contract_exact)
qed

lemma checked_power_general:
  assumes "2 \<le> exponent" and "coefficient v \<noteq> 0"
    and "\<bar>coefficient v\<bar> \<noteq> decimal_scale_factor (value_scale v)"
  shows "\<exists>w. checked_power v exponent = Inr w \<and> power_contract v (nat exponent) w"
proof -
  define e F c where "e = nat exponent" and "F = decimal_scale_factor (value_scale v)"
    and "c = coefficient v"
  have F: "0 < F" by (simp add: F_def)
  have skip: "c \<noteq> F" "(c < 0 \<and> \<bar>c\<bar> = \<bar>F\<bar>) \<longleftrightarrow> False"
    using assms(3) F by (auto simp flip: c_def F_def)
  have run: "checked_power v exponent = Inr (number_new
      (if value_scale v = scale_zero then c ^ e else if \<bar>c\<bar> = 1 then 0
       else if c smod F = 0 then (c sdiv F) ^ e * F
       else round_rational_half_even (c ^ e) (F ^ (e - 1))) (value_scale v))"
    unfolding checked_power_def Let_def bigint_power_eq c_def [symmetric] F_def [symmetric]
      e_def [symmetric] skip(2) if_False using assms(1,2) skip(1) by (simp add: c_def [symmetric])
  consider (whole) "value_scale v = scale_zero" | (unit) "value_scale v \<noteq> scale_zero" "\<bar>c\<bar> = 1"
    | (integral) "value_scale v \<noteq> scale_zero" "\<bar>c\<bar> \<noteq> 1" "c smod F = 0"
    | (general) "value_scale v \<noteq> scale_zero" "\<bar>c\<bar> \<noteq> 1" "c smod F \<noteq> 0" by blast
  then show ?thesis
  proof cases
    case whole
    then show ?thesis unfolding run
      by (auto simp: number_rat_def c_def e_def scale_zero_def intro!: power_contract_exact)
  next
    case unit
    then show ?thesis unfolding run
      using unit_coefficient_power_small [of v e] assms(1)
      by (simp add: power_contract_def scale_zero_iff c_def e_def)
  next
    case integral
    then have "c = c sdiv F * F" using smod_zero_dvd [of F c] F by simp
    then have "number_rat v = of_int (c sdiv F)"
      using number_rat_factor [of "c sdiv F" "value_scale v"] by (simp add: number_rat_def c_def F_def)
    with integral show ?thesis unfolding run
      using number_rat_factor [of "(c sdiv F) ^ e" "value_scale v"]
      by (auto simp: F_def e_def intro!: power_contract_exact)
  next
    case general
    moreover have "rounds_half_even (number_rat v ^ e * 10 ^ scale_get (value_scale v))
        (round_rational_half_even (c ^ e) (F ^ (e - 1)))"
      using half_even.scaled_power [of F e c] F assms(1)
      by (simp add: number_rat_factor_div c_def F_def e_def flip: decimal_scale_factor_rat)
    ultimately show ?thesis unfolding run by (simp add: power_contract_def e_def)
  qed
qed

text \<open>C22. A power fails only on a negative exponent; otherwise, whichever shortcut path is taken, its
  coefficient is the exact power at the value's scale rounded once, half to even.\<close>

theorem checked_power_correct:
  "case checked_power v exponent of
     Inl err \<Rightarrow> err = InvalidPowerExponent \<and> exponent < 0
   | Inr w \<Rightarrow> 0 \<le> exponent \<and> power_contract v (nat exponent) w"
proof (cases "exponent < 0")
  case True
  then show ?thesis by (simp add: checked_power_def)
next
  case False
  then consider "exponent = 0 \<or> exponent = 1 \<or> (2 \<le> exponent \<and> coefficient v = 0)"
    | "2 \<le> exponent" "\<bar>coefficient v\<bar> = decimal_scale_factor (value_scale v)"
    | "2 \<le> exponent" "coefficient v \<noteq> 0" "\<bar>coefficient v\<bar> \<noteq> decimal_scale_factor (value_scale v)"
    by linarith
  then have "\<exists>w. checked_power v exponent = Inr w \<and> power_contract v (nat exponent) w"
    by cases (rule checked_power_low checked_power_unity checked_power_general; assumption)+
  with False show ?thesis by auto
qed

section \<open>Exact conversions\<close>

lemma scale_get_eq_iff: "scale_get s = scale_get t \<longleftrightarrow> s = t"
  by (cases s; cases t) simp

text \<open>Rescaling keeps the exact value, and refuses exactly the values that have no representation
  at the target scale.\<close>

theorem rescale_correct:
  "case rescale v target of
     Inr w \<Rightarrow> value_scale w = target \<and> number_rat w = number_rat v
   | Inl err \<Rightarrow> err = InexactScale \<and> number_rat v * 10 ^ scale_get target \<notin> \<int>"
proof -
  define a b c where "a = scale_get (value_scale v)" and "b = scale_get target" and "c = coefficient v"
  consider (same) "target = value_scale v" | (zero) "target \<noteq> value_scale v" "c = 0"
    | (widen) "c \<noteq> 0" "a < b" | (narrow) "c \<noteq> 0" "b < a"
    using scale_get_eq_iff [of target "value_scale v"] unfolding a_def b_def by (meson linorder_less_linear)
  then show ?thesis
  proof cases
    case widen
    then have "(10 :: rat) ^ b = 10 ^ (b - a) * 10 ^ a" by (simp flip: power_add)
    with widen show ?thesis
      by (auto simp: rescale_def a_def b_def c_def number_rat_def decimal_scale_factor_def field_simps)
  next
    case narrow
    define d where "d = decimal_scale_factor (NumberScale (a - b))"
    have d: "d \<noteq> 0" by (simp add: d_def)
    have "(10 :: rat) ^ a = 10 ^ (a - b) * 10 ^ b" using narrow by (simp flip: power_add)
    then have eq: "number_rat v * 10 ^ b = of_int c / of_int d"
      by (simp add: number_rat_def d_def decimal_scale_factor_def a_def c_def)
    have "rescale v target =
        (if c smod d \<noteq> 0 then Inl InexactScale else Inr (number_new (c sdiv d) target))"
      using narrow by (auto simp: rescale_def a_def b_def c_def d_def Let_def)
    moreover have "number_rat v = of_int c / of_int d / 10 ^ b" by (simp flip: eq)
    ultimately show ?thesis
      using div_int_Ints_iff [OF d, of c] sdiv_exact_rat [OF d, of c] eq
      by (auto simp: number_rat_new b_def)
  qed (auto simp: rescale_def c_def number_rat_def)
qed

text \<open>The exact integer conversion returns the value when it is an \<open>i128\<close> integer, and its two errors
  separate fractional values from integers outside the range.\<close>

theorem to_integer_exact_correct:
  "case to_integer_exact v of
     Inr i \<Rightarrow> number_rat v = of_int i \<and> in_i128 i
   | Inl Inexact \<Rightarrow> number_rat v \<notin> \<int>
   | Inl OutOfRange \<Rightarrow> \<exists>i. number_rat v = of_int i \<and> \<not> in_i128 i"
proof -
  define d where "d = decimal_scale_factor (value_scale v)"
  have d: "d \<noteq> 0" by (simp add: d_def)
  have v: "number_rat v = of_int (coefficient v) / of_int d"
    by (simp add: number_rat_def d_def decimal_scale_factor_rat)
  have "value_scale v = scale_zero \<Longrightarrow> d = 1"
    by (simp add: d_def decimal_scale_factor_def scale_zero_def)
  then have run: "to_integer_exact v = (if coefficient v smod d \<noteq> 0 then Inl Inexact
      else ok_or (checked_i128 (coefficient v sdiv d)) OutOfRange)"
    by (auto simp: to_integer_exact_def Let_def checked_i128_def in_i128_def smod_int_alt_def
        simp flip: d_def)
  show ?thesis
  proof (cases "coefficient v smod d = 0")
    case True
    have "\<exists>i. (of_int (coefficient v) / of_int d :: rat) = of_int i \<and> \<not> in_i128 i"
      if "\<not> in_i128 (coefficient v sdiv d)"
      using that sdiv_exact_rat [OF d True] by metis
    with True sdiv_exact_rat [OF d True] show ?thesis unfolding run v by (auto simp: checked_i128_def)
  next
    case False
    with div_int_Ints_iff [OF d, of "coefficient v"] show ?thesis unfolding run v by simp
  qed
qed

text \<open>An \<open>i128\<close> integer converted to a decimal of any scale converts back to itself.\<close>

theorem from_integer_roundtrip:
  assumes "in_i128 i"
  shows "to_integer_exact (from_integer i s) = Inr i"
proof -
  have "i * decimal_scale_factor s sdiv decimal_scale_factor s = i"
    using sdiv_truncates [of "decimal_scale_factor s" "i * decimal_scale_factor s"]
    by (simp add: truncate_rat_def)
  moreover have "i * decimal_scale_factor s smod decimal_scale_factor s = 0"
    by (simp add: smod_int_alt_def)
  ultimately show ?thesis
    using assms by (auto simp: to_integer_exact_def from_integer_def Let_def checked_i128_def)
qed

theorem from_integer_roundtrip_witness:
  "to_integer_exact (from_integer (- 42) (NumberScale 3)) = Inr (- 42)"
proof -
  have "in_i128 (- 42)" by code_simp
  then show ?thesis by (rule from_integer_roundtrip)
qed

end
