(* ===== verification/Number_Text.thy ===== *)
theory Number_Text
  imports Number_Value
begin

text \<open>
  Decimal values and their text: what \<open>NumberValue::from_normalized\<close> computes on the normalized
  literals of the numeric grammar, and that \<open>Display for NumberValue\<close> writes a literal which reads
  back to the displayed value.
\<close>

section \<open>Materialisation\<close>

definition reads_decimal :: "(string \<Rightarrow> int option) \<Rightarrow> bool" where
  "reads_decimal from_str \<longleftrightarrow>
     (\<forall>d. all_digits d \<and> d \<noteq> [] \<longrightarrow> from_str d = Some (int (digits_value d)))"

definition sign_factor :: "numeric_literal_sign \<Rightarrow> int" where
  "sign_factor sign = (case sign of Positive \<Rightarrow> 1 | Negative \<Rightarrow> - 1)"

lemma drop_trailing_zeroes:
  assumes "k \<le> trailing_zero_count s"
  shows "drop (length s - k) s = replicate k (CHR ''0'')"
proof -
  have "take k (rev s) = take k (takeWhile (\<lambda>c. c = CHR ''0'') (rev s))"
    using assms unfolding trailing_zero_count_def
    by (subst takeWhile_eq_take) (simp add: min_absorb1)
  moreover have "takeWhile (\<lambda>c. c = CHR ''0'') (rev s) = replicate (trailing_zero_count s) (CHR ''0'')"
    unfolding trailing_zero_count_def
    by (rule replicate_eqI) (auto dest: set_takeWhileD)
  ultimately have "take k (rev s) = replicate k (CHR ''0'')" using assms by (simp add: min_absorb1)
  then have "rev (take k (rev s)) = replicate k (CHR ''0'')" by (simp add: rev_replicate)
  then show ?thesis by (simp add: rev_take)
qed

lemma digits_value_drop_trailing:
  assumes "k \<le> trailing_zero_count s"
  shows "digits_value (take (length s - k) s) * 10 ^ k = digits_value s"
proof -
  have "digits_value s = digits_value (take (length s - k) s @ drop (length s - k) s)" by simp
  also have "\<dots> = digits_value (take (length s - k) s) * 10 ^ k"
    unfolding digits_value_append drop_trailing_zeroes [OF assms] by simp
  finally show ?thesis by simp
qed

lemma trailing_zero_count_le: "trailing_zero_count s \<le> length s"
  unfolding trailing_zero_count_def by (metis length_rev length_takeWhile_le)

lemma expand_coefficient_eq:
  "retained \<le> length ip + length fp \<Longrightarrow>
   expand_coefficient ip fp retained appended =
     take retained (ip @ fp) @ replicate appended (CHR ''0'')"
  by (auto simp: expand_coefficient_def min_def)

text \<open>The coefficient read from the expanded digits is the literal at the destination scale.\<close>

lemma expanded_coefficient_value:
  assumes z: "z = exponent_value ep - int (length (fraction_text fp)) + int scale"
    and removed: "nat (- z) \<le> trailing_zero_count (ip @ fraction_text fp)"
  defines "s \<equiv> ip @ fraction_text fp"
  shows "of_nat (digits_value (take (length s - nat (- z)) s @ replicate (nat z) (CHR ''0'')))
    = literal_value ip fp ep * 10 ^ scale"
proof -
  have v: "literal_value ip fp ep * 10 ^ scale = of_nat (digits_value s) * 10 powi z"
    by (simp add: literal_value_def coefficient_value_def s_def z power_int_add)
  show ?thesis
  proof (cases "0 \<le> z")
    case True
    then show ?thesis unfolding v by (simp add: digits_value_append power_int_def)
  next
    case False
    then have "(of_nat (digits_value s) :: rat) =
        of_nat (digits_value (take (length s - nat (- z)) s)) * 10 ^ nat (- z)"
      using digits_value_drop_trailing [OF removed] unfolding s_def
      by (metis of_nat_mult of_nat_numeral of_nat_power)
    then show ?thesis unfolding v using False by (simp add: power_int_def field_simps)
  qed
qed


lemma decimal_shift_eq:
  assumes "length (fractional_part f) + e + scale \<le> usize_max"
  defines "z \<equiv> (if negative_exponent f then - int e else int e)
     - int (length (fractional_part f)) + int scale"
  shows "decimal_shift f e scale = Inr (nat z, nat (- z))"
  using assms unfolding decimal_shift_def z_def
  by (auto simp: checked_usize_def)


text \<open>The numbers of bytes the materialisation handles; it fits in \<open>usize\<close> on every literal the
  tokenizer accepts with a scale.\<close>

definition materialisation_size ::
  "string \<Rightarrow> string option \<Rightarrow> (numeric_exponent_sign \<times> string) option \<Rightarrow> nat \<Rightarrow> nat" where
  "materialisation_size ip fp ep scale =
     length ip + length (fraction_text fp) + nat \<bar>exponent_value ep\<bar> + scale"

lemma exponent_facts:
  assumes "normal_parts ip fp ep" and "coefficient_value ip fp \<noteq> 0"
    and "nat \<bar>exponent_value ep\<bar> \<le> usize_max"
  shows "exponent_magnitude (analyze (literal_text ip fp ep)) = Some (nat \<bar>exponent_value ep\<bar>)"
    "(if negative_exponent (analyze (literal_text ip fp ep)) then - int (nat \<bar>exponent_value ep\<bar>)
      else int (nat \<bar>exponent_value ep\<bar>)) = exponent_value ep"
  using assms
  by (auto simp: analyze_literal checked_decimal_usize_eq exponent_value_def split: option.splits)

lemma from_normalized_run:
  assumes parts: "normal_parts ip fp ep" and nz: "coefficient_value ip fp \<noteq> 0"
    and eff: "\<not> scale_get scale < effective_scale (analyze (literal_text ip fp ep))"
    and ex: "exponent_magnitude (analyze (literal_text ip fp ep)) = Some e"
    and shift: "decimal_shift (analyze (literal_text ip fp ep)) e (scale_get scale) =
       Inr (appended, removed)"
    and size: "length ip + length (fraction_text fp) + appended \<le> usize_max"
    and removed: "removed \<le> trailing_zero_count (ip @ fraction_text fp)"
    and alloc: "\<forall>n. reserve n"
    and read: "from_str (take (length ip + length (fraction_text fp) - removed) (ip @ fraction_text fp)
       @ replicate appended (CHR ''0'')) = Some c"
  shows "from_normalized from_str reserve (literal_text ip fp ep) sign scale
     = Inr (number_new (sign_factor sign * c) scale)"
proof -
  have "removed \<le> length ip + length (fraction_text fp)"
    using removed trailing_zero_count_le [of "ip @ fraction_text fp"] by simp
  moreover from this have "expand_coefficient ip (fraction_text fp)
      (length ip + length (fraction_text fp) - removed) appended =
     take (length ip + length (fraction_text fp) - removed) (ip @ fraction_text fp)
       @ replicate appended (CHR ''0'')"
    by (intro expand_coefficient_eq) simp
  ultimately show ?thesis
    using assms unfolding from_normalized_def Let_def
    by (cases sign) (auto simp: analyze_literal checked_usize_def checked_sub_usize_def
      parse_coefficient_def sign_factor_def)
qed

lemma from_normalized_exact:
  assumes parts: "normal_parts ip fp ep" and nz: "coefficient_value ip fp \<noteq> 0"
    and size: "materialisation_size ip fp ep (scale_get scale) \<le> usize_max"
    and reader: "reads_decimal from_str" and alloc: "\<forall>n. reserve n"
    and fits: "literal_value ip fp ep * 10 ^ scale_get scale \<in> \<int>"
  shows "\<exists>w. from_normalized from_str reserve (literal_text ip fp ep) sign scale = Inr w
    \<and> value_scale w = scale \<and> number_rat w = of_int (sign_factor sign) * literal_value ip fp ep"
proof -
  define s z where "s = ip @ fraction_text fp"
    and "z = exponent_value ep - int (length (fraction_text fp)) + int (scale_get scale)"
  define e where "e = nat \<bar>exponent_value ep\<bar>"
  define digs where "digs = take (length s - nat (- z)) s @ replicate (nat z) (CHR ''0'')"
  let ?f = "analyze (literal_text ip fp ep)"
  note an = analyze_literal [OF parts]
  have small: "length (fraction_text fp) + e \<le> usize_max" "e \<le> usize_max"
    "length (fraction_text fp) + e + scale_get scale \<le> usize_max"
    using size by (simp_all add: materialisation_size_def e_def)
  have eff: "\<not> scale_get scale < effective_scale ?f"
    using effective_scale_le_iff [OF parts small(1) [unfolded e_def]] fits by (simp add: not_less)
  have ex: "exponent_magnitude ?f = Some e"
    "(if negative_exponent ?f then - int e else int e) = exponent_value ep"
    unfolding e_def using exponent_facts [OF parts nz] small(2) unfolding e_def by blast+
  have shift: "decimal_shift ?f e (scale_get scale) = Inr (nat z, nat (- z))"
    using decimal_shift_eq [of ?f e "scale_get scale"] small(3) unfolding ex(2)
    by (simp add: an z_def)
  have removed: "nat (- z) \<le> trailing_zero_count s"
    using fits literal_value_places_iff [OF parts nz] unfolding s_def z_def by simp
  have text_value: "(of_nat (digits_value digs) :: rat) = literal_value ip fp ep * 10 ^ scale_get scale"
    using expanded_coefficient_value [OF z_def] removed unfolding digs_def s_def by simp
  have "digs \<noteq> []" using text_value nz by (auto simp: literal_value_eq_0_iff)
  moreover have "all_digits digs"
    using normal_parts_digits [OF parts] unfolding digs_def s_def [symmetric]
    by (auto simp: all_digits_conv dest: in_set_takeD)
  ultimately have read: "from_str digs = Some (int (digits_value digs))"
    using reader by (simp add: reads_decimal_def)
  have run: "from_normalized from_str reserve (literal_text ip fp ep) sign scale
     = Inr (number_new (sign_factor sign * int (digits_value digs)) scale)"
    by (rule from_normalized_run [OF parts nz eff ex(1) shift [unfolded s_def] ])
       (use size removed alloc read in \<open>simp_all add: materialisation_size_def digs_def s_def z_def\<close>)
  show ?thesis
    unfolding run by (auto simp: number_rat_new text_value)
qed

lemma from_normalized_value:
  assumes "normal_parts ip fp ep" and "materialisation_size ip fp ep (scale_get scale) \<le> usize_max"
    and "reads_decimal from_str" and "\<forall>n. reserve n"
  shows "case from_normalized from_str reserve (literal_text ip fp ep) sign scale of
      Inr w \<Rightarrow> value_scale w = scale \<and> number_rat w = of_int (sign_factor sign) * literal_value ip fp ep
    | Inl err \<Rightarrow> err = InexactScale \<and> literal_value ip fp ep * 10 ^ scale_get scale \<notin> \<int>"
proof (cases "coefficient_value ip fp = 0")
  case True
  then show ?thesis
    using assms(1) by (simp add: from_normalized_def analyze_literal number_rat_new literal_value_def)
next
  case False
  have small: "length (fraction_text fp) + nat \<bar>exponent_value ep\<bar> \<le> usize_max"
    using assms(2) by (simp add: materialisation_size_def)
  show ?thesis
  proof (cases "literal_value ip fp ep * 10 ^ scale_get scale \<in> \<int>")
    case True
    then show ?thesis using from_normalized_exact [OF assms(1) False assms(2-4), of sign] by auto
  next
    case inexact: False
    then have "scale_get scale < effective_scale (analyze (literal_text ip fp ep))"
      using effective_scale_le_iff [OF assms(1) small, of "scale_get scale"] by linarith
    then have "from_normalized from_str reserve (literal_text ip fp ep) sign scale = Inl InexactScale"
      using False assms(1) by (simp add: from_normalized_def analyze_literal)
    with inexact show ?thesis by simp
  qed
qed

text \<open>A reader with the documented behaviour.\<close>

definition decimal_reader :: "string \<Rightarrow> int option" where
  "decimal_reader s = (if all_digits s \<and> s \<noteq> [] then Some (int (digits_value s)) else None)"

lemma decimal_reader_reads: "reads_decimal decimal_reader"
  by (simp add: reads_decimal_def decimal_reader_def)

lemma strip_literal_length:
  "length (strip_separators ip) + length (fraction_text (map_option strip_separators fp))
     \<le> length (literal_text ip fp ep)"
proof -
  have "length (strip_separators (ip @ fraction_text fp)) \<le> length (ip @ fraction_text fp)"
    by (rule length_filter_le)
  also have "\<dots> \<le> length (literal_text ip fp ep)"
    by (simp add: fraction_text_def literal_text_def split: option.splits)
  finally show ?thesis by (simp add: fraction_text_def split: option.splits)
qed

text \<open>C23. Source text of a decimal literal, separators included, is accepted by the scanner and
  materialises at a scale exactly: the value is the literal's rational value with the given sign,
  and the only error reports that the value has more places than the scale.\<close>

theorem source_literal_materialises:
  assumes "literal_parts_ok ip fp ep" and "length (literal_text ip fp ep) \<le> u32_max"
    and "reads_decimal from_str" and "\<forall>n. reserve n" and "scale_ok scale"
  defines "fp' \<equiv> map_option strip_separators fp"
    and "ep' \<equiv> map_option (\<lambda>(s, x). (s, strip_separators x)) ep"
  assumes "nat \<bar>exponent_value ep'\<bar> \<le> u32_max"
  shows "\<exists>p. parse_numeric_literal (literal_text ip fp ep) = Inr p \<and>
    (case from_normalized from_str reserve (normalized_text p) sign scale of
      Inr w \<Rightarrow> value_scale w = scale \<and>
        number_rat w = of_int (sign_factor sign) * literal_value (strip_separators ip) fp' ep'
    | Inl err \<Rightarrow> err = InexactScale \<and>
        literal_value (strip_separators ip) fp' ep' * 10 ^ scale_get scale \<notin> \<int>)"
proof -
  have parts: "normal_parts (strip_separators ip) fp' ep'"
    unfolding fp'_def ep'_def using assms(1) by (rule normal_parts_strip)
  have "length (strip_separators ip) + length (fraction_text fp') \<le> length (literal_text ip fp ep)"
    unfolding fp'_def by (rule strip_literal_length)
  then have size: "materialisation_size (strip_separators ip) fp' ep' (scale_get scale) \<le> usize_max"
    using assms(2,5,8) by (simp add: materialisation_size_def scale_ok_def number_scale_max_def)
  show ?thesis
    using parse_numeric_literal_complete [OF assms(1,2)] from_normalized_value [OF parts size assms(3,4)]
    by (simp add: normalized_text_literal_facts strip_literal_text fp'_def ep'_def)
qed

theorem source_literal_materialises_witness:
  "\<exists>p. parse_numeric_literal ''1_2.50e-1'' = Inr p \<and>
    (case from_normalized decimal_reader (\<lambda>_. True) (normalized_text p) Negative (NumberScale 3) of
      Inr w \<Rightarrow> value_scale w = NumberScale 3 \<and> number_rat w = - (5 / 4)
    | Inl err \<Rightarrow> False)"
proof -
  have ok: "literal_parts_ok ''1_2'' (Some ''50'') (Some (NegativeExponent, ''1''))"
    by (auto simp: literal_parts_ok_def is_ascii_digit_def byte_def intro!: digit_run.intros)
  have t: "literal_text ''1_2'' (Some ''50'') (Some (NegativeExponent, ''1'')) = ''1_2.50e-1''"
    "length (literal_text ''1_2'' (Some ''50'') (Some (NegativeExponent, ''1''))) \<le> u32_max"
    by code_simp+
  have v: "literal_value ''12'' (Some ''50'') (Some (NegativeExponent, ''1'')) = 5 / 4" by code_simp
  have i: "(5 / 4 :: rat) * 10 ^ scale_get (NumberScale 3) = of_int 1250" by simp
  have strip: "strip_separators ''1_2'' = ''12''" "map_option strip_separators (Some ''50'') = Some ''50''"
    "map_option (\<lambda>(s, x). (s, strip_separators x)) (Some (NegativeExponent, ''1'')) =
      Some (NegativeExponent, ''1'')" by simp_all
  have e: "nat \<bar>exponent_value (Some (NegativeExponent, ''1''))\<bar> \<le> u32_max" "scale_ok (NumberScale 3)"
    by code_simp+
  have "- (5 / 4) = of_int (sign_factor Negative) * (5 / 4 :: rat)" by (simp add: sign_factor_def)
  then show ?thesis
    using source_literal_materialises [OF ok t(2) decimal_reader_reads, of "\<lambda>_. True" "NumberScale 3" Negative,
        unfolded strip t(1) v i, OF _ e(2,1)]
    by (fastforce split: sum.splits)
qed

lemma trim_fraction_end_facts:
  assumes "m \<le> n" "n \<le> length digits"
  shows "m \<le> trim_fraction_end digits m n \<and> trim_fraction_end digits m n \<le> n \<and>
    (\<forall>i. trim_fraction_end digits m n \<le> i \<and> i < n \<longrightarrow> digits ! i = CHR ''0'')"
  using assms
proof (induction n)
  case (Suc n)
  show ?case
  proof (cases "m < Suc n \<and> digits ! n = CHR ''0''")
    case True
    with Suc show ?thesis by (auto simp: less_Suc_eq)
  next
    case False
    with Suc.prems show ?thesis by auto
  qed
qed simp

lemma digits_value_zero_tail:
  assumes "e \<le> length digits" "\<forall>i. e \<le> i \<and> i < length digits \<longrightarrow> digits ! i = CHR ''0''"
  shows "digits_value digits = digits_value (take e digits) * 10 ^ (length digits - e)"
proof -
  have "drop e digits = replicate (length digits - e) (CHR ''0'')"
    using assms by (intro nth_equalityI) auto
  then show ?thesis
    by (metis append_take_drop_id digits_value_append digits_value_replicate_0 length_replicate add_0_right)
qed

lemma display_scaled_parts:
  assumes digits: "all_digits digits" and nz: "digits_value digits \<noteq> 0"
  shows "\<exists>ip fp. normal_parts ip fp None \<and>
    display_scaled neg digits scale = (if neg then ''-'' else []) @ literal_text ip fp None \<and>
    literal_value ip fp None = of_nat (digits_value digits) / 10 ^ scale"
proof -
  define m where "m = length digits - scale"
  define e where "e = trim_fraction_end digits m (length digits)"
  define ip where "ip = (if m = 0 then ''0'' else take m digits)"
  define f where "f = replicate (scale - length digits) (CHR ''0'') @ take (e - m) (drop m digits)"
  have e: "m \<le> e" "e \<le> length digits"
    "\<forall>i. e \<le> i \<and> i < length digits \<longrightarrow> digits ! i = CHR ''0''"
    using trim_fraction_end_facts [of m "length digits" digits] by (auto simp: e_def m_def)
  have n: "digits_value digits = digits_value (take e digits) * 10 ^ (length digits - e)"
    using digits_value_zero_tail [OF e(2,3)] .
  have ip: "all_digits ip" "ip \<noteq> []"
    using digits by (auto simp: ip_def m_def all_digits_conv dest: in_set_takeD)
  have fd: "all_digits f"
    using digits by (auto simp: f_def all_digits_conv dest!: in_set_takeD in_set_dropD)
  have split: "take e digits = take m digits @ take (e - m) (drop m digits)"
    using e(1) by (metis le_add_diff_inverse take_add)
  show ?thesis
  proof (cases "m < e")
    case True
    have "length f + m = (scale - length digits) + e" using True e(2) by (simp add: f_def)
    then have len: "length f + (length digits - e) = scale" using e by (simp add: m_def split: nat_diff_split)
    have "digits_value (ip @ f) = digits_value (take e digits)"
      unfolding ip_def f_def split by (auto simp: digits_value_append m_def digits_value_Cons)
    then have "literal_value ip (Some f) None = of_nat (digits_value digits) / 10 ^ scale"
      unfolding n len [symmetric]
      by (simp add: literal_value_def coefficient_value_def fraction_text_def exponent_value_def
          power_int_minus power_add field_simps)
    moreover have "normal_parts ip (Some f) None"
      using ip fd True e by (auto simp: normal_parts_def f_def m_def)
    moreover have "display_scaled neg digits scale = (if neg then ''-'' else []) @ literal_text ip (Some f) None"
      using True by (simp add: display_scaled_def Let_def literal_text_def ip_def f_def flip: m_def e_def)
    ultimately show ?thesis by blast
  next
    case False
    with e have em: "e = m" by simp
    with n nz have m0: "m \<noteq> 0" by (metis digits_value_Nil mult_zero_left take_0)
    then have "literal_value ip None None = of_nat (digits_value digits) / 10 ^ scale"
      unfolding n em
      by (simp add: literal_value_def coefficient_value_def fraction_text_def exponent_value_def ip_def m_def)
    moreover have "normal_parts ip None None" using ip by (simp add: normal_parts_def)
    moreover have "display_scaled neg digits scale = (if neg then ''-'' else []) @ literal_text ip None None"
      using False m0 by (simp add: display_scaled_def Let_def literal_text_def ip_def flip: m_def e_def)
    ultimately show ?thesis by blast
  qed
qed


lemma number_display_parts:
  "\<exists>ip fp. normal_parts ip fp None \<and>
    number_display v = (if coefficient v < 0 then ''-'' else []) @ literal_text ip fp None \<and>
    literal_value ip fp None = \<bar>number_rat v\<bar>"
proof -
  define d where "d = nat_to_string (nat \<bar>coefficient v\<bar>)"
  have abs: "\<bar>number_rat v\<bar> = of_nat (digits_value d) / 10 ^ scale_get (value_scale v)"
    by (simp add: number_rat_def d_def abs_divide)
  consider (whole) "scale_get (value_scale v) = 0" | (zero) "coefficient v = 0" "scale_get (value_scale v) \<noteq> 0"
    | (scaled) "coefficient v \<noteq> 0" "scale_get (value_scale v) \<noteq> 0" by blast
  then show ?thesis
  proof cases
    case whole
    then show ?thesis unfolding abs
      by (intro exI [of _ d] exI [of _ None])
        (auto simp: normal_parts_def number_display_def int_to_string_def literal_text_def d_def
          literal_value_def coefficient_value_def fraction_text_def exponent_value_def)
  next
    case zero
    then show ?thesis
      by (intro exI [of _ "''0''"] exI [of _ None])
        (auto simp: normal_parts_def number_display_def literal_text_def number_rat_def all_digits_conv
          literal_value_def coefficient_value_def fraction_text_def exponent_value_def digits_value_Cons)
  next
    case scaled
    then show ?thesis
      unfolding abs using display_scaled_parts [of d "coefficient v < 0" "scale_get (value_scale v)"]
      by (simp add: number_display_def Let_def d_def)
  qed
qed

lemma number_value_eqI:
  assumes "value_scale v = value_scale w" and "number_rat v = number_rat w"
  shows "v = w"
  using assms by (cases v; cases w) (simp add: number_rat_def)

lemma number_materialises_back:
  assumes parts: "normal_parts ip fp ep" and size: "materialisation_size ip fp ep (scale_get (value_scale v)) \<le> usize_max"
    and env: "reads_decimal from_str" "\<forall>n. reserve n"
    and rat: "literal_value ip fp ep = \<bar>number_rat v\<bar>"
  shows "from_normalized from_str reserve (literal_text ip fp ep)
    (if coefficient v < 0 then Negative else Positive) (value_scale v) = Inr v"
proof -
  have "literal_value ip fp ep * 10 ^ scale_get (value_scale v) = of_int \<bar>coefficient v\<bar>"
    by (simp add: rat number_rat_def abs_divide)
  then have "literal_value ip fp ep * 10 ^ scale_get (value_scale v) \<in> \<int>" by simp
  moreover have "of_int (sign_factor (if coefficient v < 0 then Negative else Positive)) *
      literal_value ip fp ep = number_rat v"
    by (simp add: rat sign_factor_def number_rat_def abs_if divide_less_0_iff)
  ultimately show ?thesis
    using from_normalized_value [OF parts size env,
        of "if coefficient v < 0 then Negative else Positive"] number_value_eqI
    by (auto split: sum.splits)
qed

text \<open>C24. The displayed text of a decimal value, after its sign, is a literal of the numeric grammar
  that materialises back to the same value at its scale.\<close>

theorem number_display_roundtrip:
  assumes "reads_decimal from_str" and "\<forall>n. reserve n"
    and "scale_ok (value_scale v)" and "length (number_display v) \<le> u32_max"
  shows "\<exists>t p. number_display v = (if coefficient v < 0 then ''-'' else []) @ t
    \<and> parse_numeric_literal t = Inr p
    \<and> from_normalized from_str reserve (normalized_text p)
         (if coefficient v < 0 then Negative else Positive) (value_scale v) = Inr v"
proof -
  obtain ip fp where d: "normal_parts ip fp None"
    "number_display v = (if coefficient v < 0 then ''-'' else []) @ literal_text ip fp None"
    "literal_value ip fp None = \<bar>number_rat v\<bar>"
    using number_display_parts by blast
  have len: "length (literal_text ip fp None) \<le> u32_max" using assms(4) unfolding d(2) by simp
  then have "materialisation_size ip fp None (scale_get (value_scale v)) \<le> usize_max"
    using assms(3)
    by (auto simp: materialisation_size_def literal_text_def fraction_text_def exponent_value_def
        scale_ok_def number_scale_max_def split: option.splits)
  then have "from_normalized from_str reserve (literal_text ip fp None)
      (if coefficient v < 0 then Negative else Positive) (value_scale v) = Inr v"
    using number_materialises_back d assms(1,2) by blast
  with d(2) parse_normal_literal [OF d(1) len] show ?thesis by metis
qed

theorem number_display_roundtrip_witness:
  "\<exists>t p. number_display (number_new (- 1250) (NumberScale 3)) = ''-'' @ t
    \<and> parse_numeric_literal t = Inr p
    \<and> from_normalized decimal_reader (\<lambda>_. True) (normalized_text p) Negative (NumberScale 3)
        = Inr (number_new (- 1250) (NumberScale 3))"
proof -
  have "scale_ok (value_scale (number_new (- 1250) (NumberScale 3)))" by code_simp
  moreover have "length (number_display (number_new (- 1250) (NumberScale 3))) \<le> u32_max" by code_simp
  ultimately show ?thesis
    using number_display_roundtrip [OF decimal_reader_reads, of "\<lambda>_. True"
        "number_new (- 1250) (NumberScale 3)"] by simp
qed

end
