(* ===== verification/Span_Encoding.thy ===== *)
theory Span_Encoding
  imports Prelude
begin

unbundle bit_operations_syntax

text \<open>
  The packed span word of \<open>source/span_encoding.rs\<close> and the source identities of \<open>source/id.rs\<close>.
  \<open>u32\<close> is a 32-bit word; a \<open>NonZeroU32\<close> is a word whose zero value the constructors exclude, and
  the \<open>expect\<close> of \<open>store_logical\<close> is the error value \<open>ReservedLogicalWord\<close>.
\<close>

section \<open>Compiler bugs\<close>

text \<open>The panics of the span modules, as values.\<close>

datatype span_bug =
    ReservedLogicalWord
  | EncodedEndOverflow
  | ExtendedIndexOutside nat nat
  | BuilderNeverInstalled
  | RootRangeNotEmpty
  | RootExtendedRow nat
  | ForeignResolver
  | UnqualifiedResolver

section \<open>The codec\<close>

definition length_bits :: nat where
  "length_bits = 10"

definition length_mask :: u32 where
  "length_mask = push_bit length_bits 1 - 1"

definition length_sentinel :: u32 where
  "length_sentinel = length_mask"

definition payload_bits :: nat where
  "payload_bits = 32 - length_bits"

definition inline_start_limit :: u32 where
  "inline_start_limit = push_bit payload_bits 1"

definition inline_max_length :: u32 where
  "inline_max_length = length_sentinel - 1"

definition max_extended_index :: u32 where
  "max_extended_index = push_bit payload_bits 1 - 2"

definition reserved_logical :: u32 where
  "reserved_logical = - 1"

datatype decoded_span = Inline u32 u32 | Extended u32

definition fits_inline :: "u32 \<Rightarrow> u32 \<Rightarrow> bool" where
  "fits_inline start len \<longleftrightarrow> start < inline_start_limit \<and> len \<le> inline_max_length"

definition encode_inline :: "u32 \<Rightarrow> u32 \<Rightarrow> u32" where
  "encode_inline start len = (push_bit length_bits start OR len)"

definition encode_extended_index :: "u32 \<Rightarrow> u32 option" where
  "encode_extended_index index =
     (if max_extended_index < index then None
      else Some (push_bit length_bits index OR length_sentinel))"

definition decode_logical :: "u32 \<Rightarrow> decoded_span" where
  "decode_logical logical =
     (let length_code = logical AND length_mask;
          payload = drop_bit length_bits logical
      in if length_code = length_sentinel then Extended payload else Inline payload length_code)"

definition store_logical :: "u32 \<Rightarrow> (span_bug, u32) result" where
  "store_logical logical =
     (let stored = logical + 1 in if stored = 0 then Inl ReservedLogicalWord else Inr stored)"

definition load_logical :: "u32 \<Rightarrow> u32" where
  "load_logical stored = stored - 1"

section \<open>Source identities\<close>

datatype source_id = SourceId (raw_id: u32)

text \<open>The type invariant of the non-zero field.\<close>

definition source_id_ok :: "source_id \<Rightarrow> bool" where
  "source_id_ok i \<longleftrightarrow> raw_id i \<noteq> 0"

definition compilation_root :: source_id where
  "compilation_root = SourceId 1"

definition try_from_index :: "nat \<Rightarrow> source_id option" where
  "try_from_index index =
     (if index \<le> u32_max then map_option SourceId (checked_add_u32 (of_nat index) 1) else None)"

definition source_index :: "source_id \<Rightarrow> nat" where
  "source_index i = unat (raw_id i) - 1"

definition physical_index :: "source_id \<Rightarrow> nat option" where
  "physical_index i = checked_sub_usize (source_index i) 1"

section \<open>Codec facts\<close>

lemma span_constants:
  "length_mask = 1023" "length_sentinel = 1023" "inline_start_limit = 4194304"
  "inline_max_length = 1022" "max_extended_index = 4194302"
  by (code_simp; fail)+

lemma length_mask_eq: "length_mask = mask 10"
  by (simp add: span_constants mask_eq_exp_minus_1)

lemma fits_inline_iff: "fits_inline start len \<longleftrightarrow> unat start < 4194304 \<and> unat len \<le> 1022"
  by (simp add: fits_inline_def span_constants word_less_nat_alt word_le_nat_alt)

lemma packed_word:
  assumes "unat (p :: u32) < 2 ^ 22" "unat (l :: u32) < 2 ^ 10"
  shows "(push_bit 10 p OR l) AND mask 10 = l" "drop_bit 10 (push_bit 10 p OR l) = p"
  using bit_above_bound [OF assms(1)] bit_above_bound [OF assms(2)]
  by (auto simp: bit_eq_iff bit_simps not_le intro: leI)

lemma unpacked_word: "push_bit 10 (drop_bit 10 w) OR (w AND mask 10) = (w :: u32)"
  by (auto simp: bit_eq_iff bit_simps not_le intro: leI)

lemma packed_reserved_iff:
  assumes "unat (p :: u32) < 2 ^ 22" "unat (l :: u32) < 2 ^ 10"
  shows "(push_bit 10 p OR l) = - 1 \<longleftrightarrow> p = 4194303 \<and> l = 1023"
proof -
  have "(- 1 :: u32) AND mask 10 = 1023" "drop_bit 10 (- 1 :: u32) = 4194303" by (code_simp; fail)+
  moreover have "push_bit 10 4194303 OR 1023 = (- 1 :: u32)" by code_simp
  ultimately show ?thesis using packed_word [OF assms] by metis
qed

lemma store_logical_eq:
  "store_logical w = (if w = - 1 then Inl ReservedLogicalWord else Inr (w + 1))"
  using eq_neg_iff_add_eq_0 [of w 1] by (simp add: store_logical_def Let_def)

lemma load_store [simp]: "load_logical (w + 1) = w"
  by (simp add: load_logical_def)

lemma decode_encode_inline:
  assumes "fits_inline start len"
  shows "decode_logical (encode_inline start len) = Inline start len" "encode_inline start len \<noteq> - 1"
proof -
  have s: "unat start < 2 ^ 22" "unat len < 2 ^ 10" "len \<noteq> 1023"
    using assms by (auto simp: fits_inline_iff)
  show "decode_logical (encode_inline start len) = Inline start len"
    using packed_word [OF s(1,2)] s(3)
    by (simp add: decode_logical_def encode_inline_def length_mask_eq length_bits_def span_constants(2))
  show "encode_inline start len \<noteq> - 1"
    using packed_reserved_iff [OF s(1,2)] s(3) by (simp add: encode_inline_def length_bits_def)
qed

lemma encode_extended_index_eq_Some:
  assumes "encode_extended_index index = Some w"
  shows "decode_logical w = Extended index" "w \<noteq> - 1"
proof -
  have s: "unat index < 2 ^ 22" "unat (1023 :: u32) < 2 ^ 10" "index \<noteq> 4194303"
    and w: "w = (push_bit 10 index OR 1023)"
    using assms by (auto simp: encode_extended_index_def span_constants length_bits_def
        word_less_nat_alt split: if_splits)
  show "decode_logical w = Extended index"
    using packed_word [OF s(1,2)]
    by (simp add: decode_logical_def w length_mask_eq length_bits_def span_constants(2))
  show "w \<noteq> - 1" using packed_reserved_iff [OF s(1,2)] s(3) by (simp add: w)
qed

lemma encode_extended_index_None:
  "encode_extended_index index = None \<longleftrightarrow> 4194302 < unat index"
  by (simp add: encode_extended_index_def span_constants word_less_nat_alt)

lemma decode_cases:
  obtains (inline) start len where "decode_logical w = Inline start len" "fits_inline start len"
      "encode_inline start len = w"
    | (extended) index where "decode_logical w = Extended index"
proof (cases "w AND mask 10 = 1023")
  case True
  then show ?thesis
    using extended by (simp add: decode_logical_def length_mask_eq span_constants(2))
next
  case False
  define p l where "p = drop_bit 10 w" and "l = (w AND mask 10)"
  have w: "w = (push_bit 10 p OR l)" using unpacked_word [of w] by (simp add: p_def l_def)
  have "unat p < 4194304"
    using u32_unat_le [of w]
    by (simp add: p_def drop_bit_eq_div unat_div_distrib div_less_iff_less_mult del: u32_unat_le)
  moreover have "unat l < 1024"
    by (simp add: l_def unat_mod_distrib take_bit_eq_mod flip: take_bit_eq_mask)
  moreover have "unat l \<noteq> 1023" using False by (simp add: l_def word_unat_eq_iff)
  ultimately have "fits_inline p l" by (simp add: fits_inline_iff)
  then show ?thesis
    using inline [of p l] decode_encode_inline(1) w by (simp add: encode_inline_def length_bits_def)
qed

lemma decode_extended_encodes:
  assumes "decode_logical w = Extended index" and "w \<noteq> - 1"
  shows "encode_extended_index index = Some w"
proof -
  have i: "index = drop_bit 10 w" and l: "(w AND mask 10) = 1023"
    using assms(1)
    by (auto simp: decode_logical_def Let_def length_mask_eq span_constants(2) length_bits_def split: if_splits)
  have w: "w = (push_bit 10 index OR 1023)" using unpacked_word [of w] by (simp add: i l)
  have small: "unat index < 4194304"
    using u32_unat_le [of w]
    by (simp add: i drop_bit_eq_div unat_div_distrib div_less_iff_less_mult del: u32_unat_le)
  have "index \<noteq> 4194303" using assms(2) small packed_reserved_iff [of index 1023] w by simp
  then have "unat index \<noteq> 4194303" by (simp add: word_unat_eq_iff)
  with small show ?thesis
    by (simp add: encode_extended_index_def span_constants word_less_nat_alt length_bits_def w)
qed

section \<open>Properties\<close>

text \<open>The encoded words: an inline pair inside the split, or an addressable table index.\<close>

fun encoded_word :: "decoded_span \<Rightarrow> u32 option" where
  "encoded_word (Inline start len) = (if fits_inline start len then Some (encode_inline start len) else None)"
| "encoded_word (Extended index) = encode_extended_index index"

text \<open>Packing a span description and storing it never panics and decodes back to the same
  description, and every word except the reserved one is the encoding of what it decodes to: the
  codec is a bijection between span descriptions and non-reserved words.\<close>

theorem span_codec_bijective:
  "encoded_word d = Some w \<longleftrightarrow>
     (\<exists>stored. store_logical w = Inr stored \<and> load_logical stored = w \<and> decode_logical w = d)"
proof
  assume enc: "encoded_word d = Some w"
  have "decode_logical w = d \<and> w \<noteq> - 1"
  proof (cases d)
    case (Inline start len)
    with enc show ?thesis using decode_encode_inline by (auto split: if_splits)
  next
    case (Extended index)
    with enc show ?thesis using encode_extended_index_eq_Some by simp
  qed
  then show "\<exists>stored. store_logical w = Inr stored \<and> load_logical stored = w \<and> decode_logical w = d"
    by (simp add: store_logical_eq)
next
  assume "\<exists>stored. store_logical w = Inr stored \<and> load_logical stored = w \<and> decode_logical w = d"
  then have w: "w \<noteq> - 1" "decode_logical w = d" by (auto simp: store_logical_eq split: if_splits)
  show "encoded_word d = Some w"
    using w by (cases w rule: decode_cases) (auto simp: decode_extended_encodes)
qed

text \<open>Record indices and source identities correspond one to one: an index has an identity
  exactly when its successor fits \<open>u32\<close>, and the identity leads back to the index.\<close>

theorem source_id_roundtrip:
  "(try_from_index index = Some i \<longleftrightarrow> source_id_ok i \<and> source_index i = index) \<and>
   (try_from_index index = None \<longleftrightarrow> u32_max \<le> index)"
proof -
  have "unat (of_nat index :: u32) = index" if "index \<le> u32_max"
    using that by (simp add: unat_of_nat take_bit_nat_eq_self)
  then show ?thesis
    using u32_unat_le [of "raw_id i"] unat_gt_0 [of "raw_id i"]
    by (cases i) (auto simp: try_from_index_def checked_add_u32_eq_Some checked_add_u32_eq_None
        source_id_ok_def source_index_def simp del: u32_unat_le)
qed

lemma physical_index_None:
  "source_id_ok i \<Longrightarrow> physical_index i = None \<longleftrightarrow> i = compilation_root"
  by (cases i) (auto simp: physical_index_def checked_sub_usize_def source_index_def
      source_id_ok_def compilation_root_def word_unat_eq_iff)

end
