(* ===== verification/Append_Store.thy ===== *)
theory Append_Store
  imports Prelude "HOL-Library.Sublist"
begin

text \<open>
  The interface shared by the compiler's append-only tables (the extended-span builders, the
  string and path interners): a handle issued for a value keeps denoting that value in every
  later state of the table. Clients are proved once against the locale; the span builder and the
  string table interpret it on their own operations.
\<close>

locale append_store =
  fixes valid :: "'t \<Rightarrow> bool"
    and grows :: "'t \<Rightarrow> 't \<Rightarrow> bool"
    and put :: "'v \<Rightarrow> 't \<Rightarrow> ('k \<times> 't) option"
    and get :: "'k \<Rightarrow> 't \<Rightarrow> 'v option"
  assumes grows_refl: "grows t t"
    and grows_trans: "grows t u \<Longrightarrow> grows u w \<Longrightarrow> grows t w"
    and put_valid: "valid t \<Longrightarrow> put v t = Some (k, u) \<Longrightarrow> valid u"
    and put_grows: "valid t \<Longrightarrow> put v t = Some (k, u) \<Longrightarrow> grows t u"
    and get_put: "valid t \<Longrightarrow> put v t = Some (k, u) \<Longrightarrow> get k u = Some v"
    and get_stable: "grows t u \<Longrightarrow> get k t = Some v \<Longrightarrow> get k u = Some v"
begin

text \<open>A run of insertions, in order.\<close>

fun put_all :: "'v list \<Rightarrow> 't \<Rightarrow> ('k list \<times> 't) option" where
  "put_all [] t = Some ([], t)"
| "put_all (v # vs) t =
     (case put v t of
        None \<Rightarrow> None
      | Some (k, u) \<Rightarrow> map_option (\<lambda>(ks, w). (k # ks, w)) (put_all vs u))"

lemma put_all_ConsE:
  assumes "put_all (v # vs) t = Some (ks, w)"
  obtains k ks' u where "ks = k # ks'" "put v t = Some (k, u)" "put_all vs u = Some (ks', w)"
  using assms by (auto split: option.splits prod.splits)

lemma put_all_grows: "valid t \<Longrightarrow> put_all vs t = Some (ks, u) \<Longrightarrow> valid u \<and> grows t u"
proof (induction vs arbitrary: t ks)
  case (Cons v vs)
  then show ?case
    by (elim put_all_ConsE) (metis grows_trans put_grows put_valid)
qed (simp add: grows_refl)

text \<open>Every handle of a run denotes its own value at the end of the run.\<close>

lemma put_all_get: "valid t \<Longrightarrow> put_all vs t = Some (ks, u) \<Longrightarrow> map (\<lambda>k. get k u) ks = map Some vs"
proof (induction vs arbitrary: t ks)
  case (Cons v vs)
  from Cons.prems(2) show ?case
  proof (rule put_all_ConsE)
    fix k ks' s
    assume ks: "ks = k # ks'" "put v t = Some (k, s)" "put_all vs s = Some (ks', u)"
    with Cons.prems(1) have s: "valid s" "get k s = Some v" using put_valid get_put by blast+
    with ks put_all_grows have "get k u = Some v" using get_stable by blast
    with Cons.IH [OF s(1) ks(3)] show "map (\<lambda>k. get k u) ks = map Some (v # vs)" by (simp add: ks(1))
  qed
qed simp

text \<open>Handles of different values differ.\<close>

lemma put_distinct:
  assumes "valid t" "put v t = Some (k, u)" "grows u w" "get k' w = Some v'" "v \<noteq> v'"
  shows "k \<noteq> k'"
  using get_stable [OF assms(3) get_put [OF assms(1,2)]] assms(4,5) by auto

end

end
