(* ===== verification/Source_Span.thy ===== *)
theory Source_Span
  imports Span_Encoding Append_Store
begin

text \<open>
  The exact compact source spans of \<open>source/span.rs\<close>: four-byte local spans, the append-only
  extended table of one source, resolvers, global spans, joins and in-place narrowing.

  A \<open>&mut ExtendedSpanBuilder\<close> is the list of its entries, returned updated. Panics are \<open>Inl\<close> values
  of \<open>span_bug\<close> in the outer sum, ordinary \<open>Result\<close> errors are in the inner one, so that freedom
  from panics is a theorem and not an assumption. The trait \<open>SourceSpanDatabase\<close> is the argument
  \<open>record_table\<close> of \<open>byte_range\<close>: the extended table installed on a source's record.
\<close>

section \<open>Data\<close>

datatype local_span = LocalSpan (span_word: u32)

record source_span =
  span_source :: source_id
  span_local :: local_span

record extended_span =
  ext_start :: u32
  ext_length :: u32

type_synonym span_table = "extended_span list"

record span_resolver =
  resolver_entries :: "span_table option"
  source_identity :: "source_id option"

record byte_range =
  range_start :: u32
  range_end :: u32

datatype span_capacity_reason = EndUnrepresentable | ExtendedTableFull

record span_capacity_error =
  error_start :: u32
  error_length :: u32
  error_reason :: span_capacity_reason

datatype span_join_error =
    DifferentSources source_id source_id
  | JoinCapacity span_capacity_error

definition reports_as_source_diagnostic :: "span_capacity_reason \<Rightarrow> bool" where
  "reports_as_source_diagnostic reason = (reason = ExtendedTableFull)"

section \<open>Resolvers\<close>

definition from_start_length :: "u32 \<Rightarrow> u32 \<Rightarrow> (span_bug, byte_range) result" where
  "from_start_length start len =
     result_bind (ok_or (checked_add_u32 start len) EncodedEndOverflow)
       (\<lambda>e. Inr \<lparr> range_start = start, range_end = e \<rparr>)"

definition builder_resolver :: "span_table \<Rightarrow> span_resolver" where
  "builder_resolver table = \<lparr> resolver_entries = Some table, source_identity = None \<rparr>"

definition record_resolver :: "span_table option \<Rightarrow> source_id option \<Rightarrow> span_resolver" where
  "record_resolver table identity = \<lparr> resolver_entries = table, source_identity = identity \<rparr>"

definition for_source :: "span_resolver \<Rightarrow> source_id \<Rightarrow> span_resolver" where
  "for_source resolver source = resolver\<lparr>source_identity := Some source\<rparr>"

definition extended_entry :: "span_resolver \<Rightarrow> u32 \<Rightarrow> extended_span option" where
  "extended_entry resolver index =
     (case resolver_entries resolver of
        None \<Rightarrow> None
      | Some table \<Rightarrow> if unat index < length table then Some (table ! unat index) else None)"

definition report_unresolvable_index :: "span_resolver \<Rightarrow> u32 \<Rightarrow> span_bug" where
  "report_unresolvable_index resolver index =
     (case resolver_entries resolver of
        Some table \<Rightarrow> ExtendedIndexOutside (unat index) (length table)
      | None \<Rightarrow> BuilderNeverInstalled)"

section \<open>Local spans\<close>

definition pack_local :: "u32 \<Rightarrow> (span_bug, local_span) result" where
  "pack_local logical = result_bind (store_logical logical) (\<lambda>stored. Inr (LocalSpan stored))"

definition source_start :: "(span_bug, local_span) result" where
  "source_start = pack_local (encode_inline 0 0)"

definition local_exact ::
  "u32 \<Rightarrow> u32 \<Rightarrow> span_table
    \<Rightarrow> (span_bug, (span_capacity_error, local_span) result \<times> span_table) result" where
  "local_exact start len table =
     (let fail = (\<lambda>reason. Inr (Inl \<lparr> error_start = start, error_length = len, error_reason = reason \<rparr>,
                              table))
      in if checked_add_u32 start len = None then fail EndUnrepresentable
         else if fits_inline start len then
           result_bind (pack_local (encode_inline start len)) (\<lambda>sp. Inr (Inr sp, table))
         else
           (case (if length table \<le> u32_max then encode_extended_index (of_nat (length table)) else None) of
              None \<Rightarrow> fail ExtendedTableFull
            | Some logical \<Rightarrow>
                result_bind (pack_local logical) (\<lambda>sp.
                  Inr (Inr sp, table @ [\<lparr> ext_start = start, ext_length = len \<rparr>]))))"

definition exact_inline :: "u32 \<Rightarrow> u32 \<Rightarrow> (span_bug, local_span option) result" where
  "exact_inline start len =
     (if checked_add_u32 start len \<noteq> None \<and> fits_inline start len
      then result_bind (pack_local (encode_inline start len)) (\<lambda>sp. Inr (Some sp))
      else Inr None)"

definition logical_word :: "local_span \<Rightarrow> u32" where
  "logical_word sp = load_logical (span_word sp)"

definition inline_range :: "local_span \<Rightarrow> (span_bug, byte_range option) result" where
  "inline_range sp =
     (case decode_logical (logical_word sp) of
        Inline start len \<Rightarrow> result_bind (from_start_length start len) (\<lambda>r. Inr (Some r))
      | Extended _ \<Rightarrow> Inr None)"

definition local_resolve_with :: "local_span \<Rightarrow> span_resolver \<Rightarrow> (span_bug, byte_range) result" where
  "local_resolve_with sp resolver =
     (case decode_logical (logical_word sp) of
        Inline start len \<Rightarrow> from_start_length start len
      | Extended index \<Rightarrow>
          (case extended_entry resolver index of
             None \<Rightarrow> Inl (report_unresolvable_index resolver index)
           | Some entry \<Rightarrow> from_start_length (ext_start entry) (ext_length entry)))"

definition local_join ::
  "local_span \<Rightarrow> local_span \<Rightarrow> span_table
    \<Rightarrow> (span_bug, (span_capacity_error, local_span) result \<times> span_table) result" where
  "local_join sp other table =
     result_bind (local_resolve_with sp (builder_resolver table)) (\<lambda>left.
     result_bind (local_resolve_with other (builder_resolver table)) (\<lambda>right.
       let start = min (range_start left) (range_start right);
           e = max (range_end left) (range_end right)
       in local_exact start (e - start) table))"

section \<open>Global spans\<close>

definition reject_foreign_resolver :: "source_span \<Rightarrow> span_resolver \<Rightarrow> (span_bug, unit) result" where
  "reject_foreign_resolver sp resolver =
     (case source_identity resolver of
        Some identity \<Rightarrow> if identity = span_source sp then Inr () else Inl ForeignResolver
      | None \<Rightarrow> Inl UnqualifiedResolver)"

definition source_resolve_with :: "source_span \<Rightarrow> span_resolver \<Rightarrow> (span_bug, byte_range) result" where
  "source_resolve_with sp resolver =
     result_bind (reject_foreign_resolver sp resolver) (\<lambda>_.
       local_resolve_with (span_local sp) resolver)"

definition resolve_compilation_root_range :: "source_span \<Rightarrow> (span_bug, byte_range) result" where
  "resolve_compilation_root_range sp =
     (case decode_logical (logical_word (span_local sp)) of
        Inline start len \<Rightarrow>
          if start = 0 \<and> len = 0 then from_start_length 0 0 else Inl RootRangeNotEmpty
      | Extended index \<Rightarrow> Inl (RootExtendedRow (unat index)))"

definition resolve_from_record ::
  "local_span \<Rightarrow> span_table option \<Rightarrow> source_id \<Rightarrow> (span_bug, byte_range) result" where
  "resolve_from_record sp table identity =
     local_resolve_with sp (record_resolver table (Some identity))"

definition source_byte_range ::
  "(source_id \<Rightarrow> span_table option) \<Rightarrow> source_span \<Rightarrow> (span_bug, byte_range) result" where
  "source_byte_range record_table sp =
     (if span_source sp = compilation_root then resolve_compilation_root_range sp
      else resolve_from_record (span_local sp) (record_table (span_source sp)) (span_source sp))"

definition source_join ::
  "source_span \<Rightarrow> source_span \<Rightarrow> span_table
    \<Rightarrow> (span_bug, (span_join_error, source_span) result \<times> span_table) result" where
  "source_join sp other table =
     (if span_source sp \<noteq> span_source other then
        Inr (Inl (DifferentSources (span_source sp) (span_source other)), table)
      else
        result_bind (local_join (span_local sp) (span_local other) table) (\<lambda>(joined, table').
          Inr (case joined of
                 Inl err \<Rightarrow> Inl (JoinCapacity err)
               | Inr l \<Rightarrow> Inr \<lparr> span_source = span_source sp, span_local = l \<rparr>, table')))"

definition narrow_inline ::
  "source_span \<Rightarrow> u32 \<Rightarrow> u32 \<Rightarrow> u32 \<Rightarrow> (span_bug, source_span option) result" where
  "narrow_inline sp byte_offset byte_length expected_parent_length =
     (case decode_logical (logical_word (span_local sp)) of
        Extended _ \<Rightarrow> Inr None
      | Inline start len \<Rightarrow>
          if len \<noteq> expected_parent_length then Inr None
          else
            (case checked_add_u32 byte_offset byte_length of
               None \<Rightarrow> Inr None
             | Some narrowed_end \<Rightarrow>
                 if len < narrowed_end then Inr None
                 else
                   (case checked_add_u32 start byte_offset of
                      None \<Rightarrow> Inr None
                    | Some narrowed_start \<Rightarrow>
                        if \<not> fits_inline narrowed_start byte_length then Inr None
                        else
                          result_bind (pack_local (encode_inline narrowed_start byte_length)) (\<lambda>l.
                            Inr (Some \<lparr> span_source = span_source sp, span_local = l \<rparr>)))))"

section \<open>Local spans and their table\<close>

text \<open>The range \<open>[start, start + len)\<close>.\<close>

definition range_of :: "u32 \<Rightarrow> u32 \<Rightarrow> byte_range" where
  "range_of start len = \<lparr> range_start = start, range_end = start + len \<rparr>"

definition fits_u32 :: "u32 \<Rightarrow> u32 \<Rightarrow> bool" where
  "fits_u32 start len \<longleftrightarrow> unat start + unat len \<le> u32_max"

text \<open>The table invariant: only rows with a representable end, and only addressable rows.\<close>

definition table_ok :: "span_table \<Rightarrow> bool" where
  "table_ok table \<longleftrightarrow>
     length table \<le> 4194303 \<and> (\<forall>row\<in>set table. fits_u32 (ext_start row) (ext_length row))"

lemma table_ok_Nil [simp]: "table_ok []"
  by (simp add: table_ok_def)

lemma from_start_length_ok:
  "fits_u32 start len \<Longrightarrow> from_start_length start len = Inr (range_of start len)"
  by (simp add: from_start_length_def fits_u32_def checked_add_u32_def range_of_def)

lemma fits_inline_fits_u32: "fits_inline start len \<Longrightarrow> fits_u32 start len"
  by (simp add: fits_inline_iff fits_u32_def)

lemma pack_inline:
  assumes "fits_inline start len"
  shows "\<exists>sp. pack_local (encode_inline start len) = Inr sp \<and>
    decode_logical (logical_word sp) = Inline start len"
  using decode_encode_inline [OF assms] by (simp add: pack_local_def store_logical_eq logical_word_def)

lemma pack_extended:
  assumes "encode_extended_index index = Some w"
  shows "\<exists>sp. pack_local w = Inr sp \<and> decode_logical (logical_word sp) = Extended index"
  using encode_extended_index_eq_Some [OF assms] by (simp add: pack_local_def store_logical_eq logical_word_def)

lemma resolve_inline:
  assumes "decode_logical (logical_word sp) = Inline start len" "fits_inline start len"
  shows "local_resolve_with sp resolver = Inr (range_of start len)"
  using assms by (simp add: local_resolve_with_def from_start_length_ok fits_inline_fits_u32)

lemma resolve_extended:
  assumes "decode_logical (logical_word sp) = Extended index"
    and "resolver_entries resolver = Some table" "table_ok table" "unat index < length table"
  shows "local_resolve_with sp resolver =
    Inr (range_of (ext_start (table ! unat index)) (ext_length (table ! unat index)))"
proof -
  have "fits_u32 (ext_start (table ! unat index)) (ext_length (table ! unat index))"
    using assms(3,4) by (simp add: table_ok_def)
  with assms show ?thesis by (simp add: local_resolve_with_def extended_entry_def from_start_length_ok)
qed

text \<open>Resolution only reads rows, so it is stable when the table grows or its owner is named.\<close>

lemma resolve_stable:
  assumes "local_resolve_with sp (builder_resolver table) = Inr r" "prefix table table'"
  shows "local_resolve_with sp (record_resolver (Some table') identity) = Inr r"
proof -
  obtain rest where "table' = table @ rest" using assms(2) by (auto elim: prefixE)
  with assms(1) show ?thesis
    by (auto simp: local_resolve_with_def extended_entry_def builder_resolver_def record_resolver_def
        nth_append split: decoded_span.splits if_splits)
qed

lemma builder_resolver_record: "builder_resolver table = record_resolver (Some table) None"
  by (simp add: builder_resolver_def record_resolver_def)

lemma local_exact_cases:
  assumes "table_ok table"
  shows "if \<not> fits_u32 start len then
      local_exact start len table =
        Inr (Inl \<lparr> error_start = start, error_length = len, error_reason = EndUnrepresentable \<rparr>, table)
    else if \<not> fits_inline start len \<and> length table = 4194303 then
      local_exact start len table =
        Inr (Inl \<lparr> error_start = start, error_length = len, error_reason = ExtendedTableFull \<rparr>, table)
    else \<exists>sp table'. local_exact start len table = Inr (Inr sp, table') \<and> table_ok table' \<and>
      prefix table table' \<and> length table' \<le> length table + 1 \<and> (fits_inline start len \<longrightarrow> table' = table) \<and>
      local_resolve_with sp (builder_resolver table') = Inr (range_of start len)"
proof -
  let ?row = "\<lparr> ext_start = start, ext_length = len \<rparr>"
  have len: "length table \<le> 4194303" using assms by (simp add: table_ok_def)
  then have n: "unat (of_nat (length table) :: u32) = length table"
    by (simp add: unat_of_nat take_bit_nat_eq_self)
  consider (overflow) "\<not> fits_u32 start len" | (inline) "fits_u32 start len" "fits_inline start len"
    | (full) "fits_u32 start len" "\<not> fits_inline start len" "length table = 4194303"
    | (row) "fits_u32 start len" "\<not> fits_inline start len" "length table < 4194303"
    using len by linarith
  then show ?thesis
  proof cases
    case overflow
    then show ?thesis by (simp add: local_exact_def checked_add_u32_def fits_u32_def)
  next
    case inline
    then show ?thesis
      using pack_inline [OF inline(2)] resolve_inline [OF _ inline(2)] assms
      by (auto simp: local_exact_def checked_add_u32_def fits_u32_def)
  next
    case full
    then show ?thesis
      using encode_extended_index_None [of "of_nat (length table)"] n
      by (simp add: local_exact_def checked_add_u32_def fits_u32_def)
  next
    case row
    then obtain w where w: "encode_extended_index (of_nat (length table)) = Some w"
      using encode_extended_index_None [of "of_nat (length table)"] n
      by (cases "encode_extended_index (of_nat (length table))") auto
    then obtain sp where sp: "pack_local w = Inr sp"
      "decode_logical (logical_word sp) = Extended (of_nat (length table))"
      using pack_extended by blast
    have ok: "table_ok (table @ [?row])" using assms row by (simp add: table_ok_def)
    have "local_resolve_with sp (builder_resolver (table @ [?row])) = Inr (range_of start len)"
      using resolve_extended [OF sp(2) _ ok] n by (simp add: builder_resolver_def)
    with row ok sp(1) w show ?thesis
      by (simp add: local_exact_def checked_add_u32_def fits_u32_def)
  qed
qed

lemma local_exact_Inr:
  assumes "table_ok table" "local_exact start len table = Inr (Inr sp, table')"
  shows "table_ok table'" "prefix table table'" "fits_u32 start len"
    "local_resolve_with sp (builder_resolver table') = Inr (range_of start len)"
  using local_exact_cases [OF assms(1), of start len] assms(2) by (auto split: if_splits)

lemma local_exact_no_panic:
  assumes "table_ok table"
  obtains r table' where "local_exact start len table = Inr (r, table')" "table_ok table'" "prefix table table'"
  using local_exact_cases [OF assms, of start len] assms
  by (cases "fits_u32 start len"; cases "fits_inline start len"; cases "length table = 4194303") auto

text \<open>The builder of one source is an append store of byte ranges.\<close>

definition put_range :: "u32 \<times> u32 \<Rightarrow> span_table \<Rightarrow> (local_span \<times> span_table) option" where
  "put_range r table =
     (case local_exact (fst r) (snd r) table of Inr (Inr sp, table') \<Rightarrow> Some (sp, table') | _ \<Rightarrow> None)"

definition get_range :: "local_span \<Rightarrow> span_table \<Rightarrow> (u32 \<times> u32) option" where
  "get_range sp table =
     (case local_resolve_with sp (builder_resolver table) of
        Inr r \<Rightarrow> Some (range_start r, range_end r - range_start r) | Inl _ \<Rightarrow> None)"

lemma put_range_Some:
  "put_range r table = Some (sp, table') \<longleftrightarrow> local_exact (fst r) (snd r) table = Inr (Inr sp, table')"
  by (auto simp: put_range_def split: sum.splits)

interpretation span_builder: append_store table_ok prefix put_range get_range
proof unfold_locales
  fix t v k u
  assume "table_ok t" "put_range v t = Some (k, u)"
  note exact = local_exact_Inr [OF this(1) this(2) [unfolded put_range_Some]]
  show "table_ok u" "prefix t u" by (rule exact)+
  show "get_range k u = Some v" by (simp add: get_range_def exact(4) range_of_def)
next
  fix t u k v
  assume "prefix t u" "get_range k t = Some v"
  then show "get_range k u = Some v"
    using resolve_stable [of k t _ u None]
    by (auto simp: get_range_def builder_resolver_record split: sum.splits)
qed auto

section \<open>Ranges and covers\<close>

definition range_ok :: "byte_range \<Rightarrow> bool" where
  "range_ok r \<longleftrightarrow> range_start r \<le> range_end r"

definition range_covers :: "byte_range \<Rightarrow> byte_range \<Rightarrow> bool" where
  "range_covers outer inner \<longleftrightarrow> range_start outer \<le> range_start inner \<and> range_end inner \<le> range_end outer"

definition range_join :: "byte_range \<Rightarrow> byte_range \<Rightarrow> byte_range" where
  "range_join a b =
     \<lparr> range_start = min (range_start a) (range_start b), range_end = max (range_end a) (range_end b) \<rparr>"

lemma range_join_least:
  "range_covers (range_join a b) a" "range_covers (range_join a b) b"
  "range_covers r a \<Longrightarrow> range_covers r b \<Longrightarrow> range_covers r (range_join a b)"
  by (auto simp: range_covers_def range_join_def)

lemma range_of_ok: "fits_u32 start len \<Longrightarrow> range_ok (range_of start len)"
  by (simp add: range_ok_def range_of_def fits_u32_def word_le_nat_alt unat_add_u32)

lemma range_as_exact:
  assumes "range_ok r"
  shows "range_of (range_start r) (range_end r - range_start r) = r"
    "fits_u32 (range_start r) (range_end r - range_start r)"
proof -
  show "range_of (range_start r) (range_end r - range_start r) = r"
    by (simp add: range_of_def)
  have "unat (range_end r - range_start r) = unat (range_end r) - unat (range_start r)"
    using assms by (simp add: range_ok_def unat_sub)
  then show "fits_u32 (range_start r) (range_end r - range_start r)"
    using assms by (simp add: fits_u32_def range_ok_def word_le_nat_alt)
qed

lemma range_join_ok: "range_ok a \<Longrightarrow> range_ok b \<Longrightarrow> range_ok (range_join a b)"
  by (auto simp: range_ok_def range_join_def min_def max_def)

lemma resolved_range_ok:
  assumes "local_resolve_with sp resolver = Inr r"
  shows "range_ok r"
proof -
  have "from_start_length start len = Inr r \<Longrightarrow> range_ok r" for start len
    by (auto simp: from_start_length_def result_bind_eq_Inr_iff checked_add_u32_eq_Some range_ok_def
        word_le_nat_alt)
  with assms show ?thesis by (auto simp: local_resolve_with_def split: decoded_span.splits option.splits)
qed

lemma local_join_eq:
  assumes "local_resolve_with a (builder_resolver table) = Inr ra"
    and "local_resolve_with b (builder_resolver table) = Inr rb"
  shows "local_join a b table =
    local_exact (range_start (range_join ra rb)) (range_end (range_join ra rb) - range_start (range_join ra rb)) table"
  using assms by (simp add: local_join_def range_join_def Let_def)

lemma local_join_Inr:
  assumes "table_ok table" "local_resolve_with a (builder_resolver table) = Inr ra"
    and "local_resolve_with b (builder_resolver table) = Inr rb"
    and "local_join a b table = Inr (Inr sp, table')"
  shows "table_ok table'" "prefix table table'"
    "local_resolve_with sp (builder_resolver table') = Inr (range_join ra rb)"
proof -
  have ok: "range_ok (range_join ra rb)" using assms(2,3) resolved_range_ok range_join_ok by blast
  note exact = local_exact_Inr [OF assms(1) assms(4) [unfolded local_join_eq [OF assms(2,3)]]]
  show "table_ok table'" "prefix table table'" by (rule exact)+
  show "local_resolve_with sp (builder_resolver table') = Inr (range_join ra rb)"
    using exact(4) range_as_exact(1) [OF ok] by simp
qed

section \<open>Span-producing sessions\<close>

text \<open>A source's producer: its builder table and the spans issued so far, each with the range it
  was issued for. A refused range leaves the state unchanged.\<close>

inductive span_session :: "span_table \<Rightarrow> (local_span \<times> byte_range) list \<Rightarrow> bool" where
  fresh: "span_session [] []"
| exact: "span_session table issued \<Longrightarrow> local_exact start len table = Inr (Inr sp, table')
    \<Longrightarrow> span_session table' ((sp, range_of start len) # issued)"
| refused: "span_session table issued \<Longrightarrow> local_exact start len table = Inr (Inl err, table')
    \<Longrightarrow> span_session table' issued"
| joined: "span_session table issued \<Longrightarrow> (a, ra) \<in> set issued \<Longrightarrow> (b, rb) \<in> set issued
    \<Longrightarrow> local_join a b table = Inr (Inr sp, table') \<Longrightarrow> span_session table' ((sp, range_join ra rb) # issued)"

definition issued_ok :: "span_table \<Rightarrow> (local_span \<times> byte_range) list \<Rightarrow> bool" where
  "issued_ok table issued \<longleftrightarrow>
     table_ok table \<and> (\<forall>(sp, r)\<in>set issued. local_resolve_with sp (builder_resolver table) = Inr r)"

lemma issued_ok_step:
  assumes "issued_ok table issued" "table_ok table'" "prefix table table'"
    and "local_resolve_with sp (builder_resolver table') = Inr r"
  shows "issued_ok table' ((sp, r) # issued)"
  using assms resolve_stable [of _ table _ table' None]
  by (fastforce simp: issued_ok_def builder_resolver_record)

lemma issued_ok_join:
  assumes "issued_ok table issued" "(a, ra) \<in> set issued" "(b, rb) \<in> set issued"
    and "local_join a b table = Inr (Inr sp, table')"
  shows "issued_ok table' ((sp, range_join ra rb) # issued)"
proof -
  have "local_resolve_with a (builder_resolver table) = Inr ra"
    "local_resolve_with b (builder_resolver table) = Inr rb" "table_ok table"
    using assms(1-3) by (auto simp: issued_ok_def)
  from local_join_Inr [OF this(3,1,2) assms(4)] show ?thesis
    using issued_ok_step [OF assms(1)] by blast
qed

lemma session_issued_ok: "span_session table issued \<Longrightarrow> issued_ok table issued"
proof (induction rule: span_session.induct)
  case fresh
  then show ?case by (simp add: issued_ok_def)
next
  case (exact table issued start len sp table')
  then have "table_ok table" by (simp add: issued_ok_def)
  from local_exact_Inr [OF this exact.hyps(2)] show ?case using issued_ok_step [OF exact.IH] by blast
next
  case (refused table issued start len err table')
  then show ?case
    using local_exact_cases [of table start len] by (auto simp: issued_ok_def split: if_splits)
next
  case (joined table issued a ra b rb sp table')
  then show ?case using issued_ok_join by blast
qed

section \<open>Properties\<close>

text \<open>C32. In every state a span producer can reach by encoding ranges and joining issued spans, each
  issued span resolves, through the source's installed record and whatever the table grew into
  before it was frozen, to exactly the byte range it was issued for.\<close>

theorem session_spans_resolve_exactly:
  assumes "span_session table issued" and "(sp, r) \<in> set issued"
    and "prefix table installed" and "source \<noteq> compilation_root"
  shows "source_byte_range (\<lambda>_. Some installed) \<lparr> span_source = source, span_local = sp \<rparr> = Inr r"
proof -
  have "local_resolve_with sp (builder_resolver table) = Inr r"
    using session_issued_ok [OF assms(1)] assms(2) by (auto simp: issued_ok_def)
  from resolve_stable [OF this assms(3)] show ?thesis
    using assms(4) by (simp add: source_byte_range_def resolve_from_record_def)
qed

theorem session_spans_resolve_exactly_witness:
  "\<exists>sp table. local_exact 5000000 7 [] = Inr (Inr sp, table) \<and>
     source_byte_range (\<lambda>_. Some table) \<lparr> span_source = SourceId 3, span_local = sp \<rparr> = Inr (range_of 5000000 7)"
proof -
  let ?t = "[\<lparr> ext_start = 5000000, ext_length = 7 \<rparr>] :: span_table"
  have run: "local_exact 5000000 7 [] = Inr (Inr (LocalSpan 1024), ?t)" by code_simp
  have "span_session ?t [(LocalSpan 1024, range_of 5000000 7)]"
    using span_session.exact [OF span_session.fresh run] .
  from session_spans_resolve_exactly [OF this, of _ _ ?t "SourceId 3"] run show ?thesis
    by (auto simp: compilation_root_def)
qed

text \<open>Encoding a range never panics; it fails exactly when the end does not fit \<open>u32\<close>, or when a
  range outside the inline split meets a full table, and then the error carries the range and the
  table is unchanged. On success the span resolves to the range and the table only grew.\<close>

theorem local_exact_outcome:
  assumes "table_ok table"
  shows "case local_exact start len table of
      Inl bug \<Rightarrow> False
    | Inr (Inl err, table') \<Rightarrow> table' = table \<and> error_start err = start \<and> error_length err = len \<and>
        (case error_reason err of
           EndUnrepresentable \<Rightarrow> u32_max < unat start + unat len
         | ExtendedTableFull \<Rightarrow> unat start + unat len \<le> u32_max \<and> \<not> fits_inline start len \<and>
             length table = 4194303)
    | Inr (Inr sp, table') \<Rightarrow> unat start + unat len \<le> u32_max \<and> table_ok table' \<and> prefix table table' \<and>
        local_resolve_with sp (builder_resolver table') = Inr (range_of start len)"
  using local_exact_cases [OF assms, of start len] by (auto simp: fits_u32_def split: if_splits)

theorem local_exact_outcome_witness:
  "local_exact 4294967295 2 [] = Inr (Inl \<lparr> error_start = 4294967295, error_length = 2,
     error_reason = EndUnrepresentable \<rparr>, []) \<and> u32_max < unat (4294967295 :: u32) + unat (2 :: u32)"
proof -
  have run: "local_exact 4294967295 2 [] = Inr (Inl \<lparr> error_start = 4294967295, error_length = 2,
     error_reason = EndUnrepresentable \<rparr>, [])" by code_simp
  with local_exact_outcome [OF table_ok_Nil, of 4294967295 2] show ?thesis by simp
qed

text \<open>Joining two spans of a well-formed table never panics and yields the smallest range that
  covers both operands; only a full table refuses it.\<close>

theorem local_join_least_cover:
  assumes "table_ok table" and "local_resolve_with a (builder_resolver table) = Inr ra"
    and "local_resolve_with b (builder_resolver table) = Inr rb"
  shows "case local_join a b table of
      Inl bug \<Rightarrow> False
    | Inr (Inl err, table') \<Rightarrow> table' = table \<and> error_reason err = ExtendedTableFull \<and> length table = 4194303
    | Inr (Inr sp, table') \<Rightarrow> table_ok table' \<and> prefix table table' \<and>
        (\<exists>r. local_resolve_with sp (builder_resolver table') = Inr r \<and> range_covers r ra \<and> range_covers r rb \<and>
          (\<forall>r'. range_covers r' ra \<and> range_covers r' rb \<longrightarrow> range_covers r' r))"
proof -
  define j where "j = range_join ra rb"
  have ok: "range_ok j" unfolding j_def using assms(2,3) resolved_range_ok range_join_ok by blast
  have run: "local_join a b table = local_exact (range_start j) (range_end j - range_start j) table"
    using local_join_eq [OF assms(2,3)] by (simp add: j_def)
  show ?thesis
    using local_exact_cases [OF assms(1), of "range_start j" "range_end j - range_start j"]
      range_as_exact [OF ok] range_join_least(1,2) [of ra rb] range_join_least(3) [of _ ra rb]
    unfolding run j_def [symmetric] by (auto split: if_splits)
qed

theorem local_join_least_cover_witness:
  "\<exists>sp r. local_join (LocalSpan 5123) (LocalSpan 2049) [] = Inr (Inr sp, []) \<and>
     local_resolve_with sp (builder_resolver []) = Inr r \<and> range_covers r (range_of 5 2) \<and> range_covers r (range_of 2 0)"
proof -
  have "local_resolve_with (LocalSpan 5123) (builder_resolver []) = Inr (range_of 5 2)"
    "local_resolve_with (LocalSpan 2049) (builder_resolver []) = Inr (range_of 2 0)"
    "local_join (LocalSpan 5123) (LocalSpan 2049) [] = Inr (Inr (LocalSpan 2054), [])" by code_simp+
  with local_join_least_cover [OF table_ok_Nil this(1,2)] show ?thesis by auto
qed

text \<open>A narrowed span keeps its source and resolves, through any resolver, to the requested
  bytes inside the authored span, which has the length the caller expected; narrowing never
  panics.\<close>

theorem narrow_inline_correct:
  "case narrow_inline sp offset len expected of
     Inl bug \<Rightarrow> False
   | Inr None \<Rightarrow> True
   | Inr (Some inner) \<Rightarrow>
       (\<exists>r r'. local_resolve_with (span_local sp) resolver = Inr r \<and>
          local_resolve_with (span_local inner) resolver = Inr r' \<and>
          span_source inner = span_source sp \<and> range_covers r r' \<and>
          range_end r = range_start r + expected \<and>
          range_start r' = range_start r + offset \<and> range_end r' = range_start r' + len)"
proof (cases "logical_word (span_local sp)" rule: decode_cases)
  case (extended index)
  then show ?thesis by (simp add: narrow_inline_def)
next
  case (inline start plen)
  show ?thesis
  proof (cases "plen = expected \<and> unat offset + unat len \<le> unat plen \<and>
      unat start + unat offset \<le> u32_max \<and> fits_inline (start + offset) len")
    case True
    then obtain l where l: "pack_local (encode_inline (start + offset) len) = Inr l"
      "decode_logical (logical_word l) = Inline (start + offset) len" using pack_inline by blast
    have pu: "unat plen \<le> u32_max" by simp
    have "checked_add_u32 offset len = Some (offset + len)" "\<not> plen < offset + len"
      using True pu by (auto simp: checked_add_u32_def word_less_nat_alt unat_add_u32 simp del: u32_unat_le)
    with True inline(1) l(1) have "narrow_inline sp offset len expected =
        Inr (Some \<lparr> span_source = span_source sp, span_local = l \<rparr>)"
      by (simp add: narrow_inline_def checked_add_u32_def)
    moreover have "range_covers (range_of start plen) (range_of (start + offset) len)"
      using True fits_inline_fits_u32 [OF inline(2)] fits_inline_fits_u32 [of "start + offset" len]
      by (auto simp: range_covers_def range_of_def word_le_nat_alt fits_u32_def unat_add_u32)
    ultimately show ?thesis
      using True resolve_inline [OF inline(1,2)] resolve_inline [OF l(2)] by (simp add: range_of_def)
  next
    case False
    then have "narrow_inline sp offset len expected = Inr None"
      using inline(1)
      by (auto simp: narrow_inline_def checked_add_u32_def word_less_nat_alt unat_add_u32 split: option.splits)
    then show ?thesis by simp
  qed
qed

end
