(* ===== verification/Expression_Order.thy ===== *)
theory Expression_Order
  imports Source_Span Numeric_Operators "HOL-Library.Multiset"
begin

text \<open>
  Expression ordering: the operator vocabulary of \<open>ast/expressions/expression_kind.rs\<close>, the fragment
  items of \<open>expression_rpn.rs\<close>, the shunting-yard pass of \<open>eval_expression/ordering.rs\<close> that turns one
  flat infix fragment into postfix order, and the indexing of the postfix stream in
  \<open>eval_expression/result_type.rs\<close>. A fragment is specified by the tree it spells: precedence and
  associativity are conditions on the tree, its infix and postfix texts are its two traversals,
  and the pass is proved to turn the one into the other and the indexing to rebuild the tree.

  \<^item> Constructors of \<open>Operator\<close> carry the prefix \<open>Op\<close>. Expression identities are numbers; what the
    expression store answers about them is the argument \<open>view_span\<close>.
  \<^item> Payloads the pass moves without reading them (literal tokens, deferred calls, casts and
    constructors) are type parameters.
\<close>

section \<open>Operators and fragment items\<close>

datatype operator =
    OpAdd | OpSubtract | OpMultiply | OpDivide | OpIntDivide | OpModulus | OpExponent
  | OpAnd | OpOr | OpGreaterThan | OpGreaterThanOrEqual | OpLessThan | OpLessThanOrEqual
  | OpEquality | OpNotEqual
  | OpNot | OpNegate
  | OpRange

fun precedence :: "operator \<Rightarrow> nat" where
  "precedence OpRange = 6"
| "precedence OpNot = 6"
| "precedence OpNegate = 6"
| "precedence OpExponent = 5"
| "precedence OpMultiply = 4"
| "precedence OpDivide = 4"
| "precedence OpIntDivide = 4"
| "precedence OpModulus = 4"
| "precedence OpAdd = 3"
| "precedence OpSubtract = 3"
| "precedence OpLessThan = 2"
| "precedence OpLessThanOrEqual = 2"
| "precedence OpGreaterThan = 2"
| "precedence OpGreaterThanOrEqual = 2"
| "precedence OpEquality = 2"
| "precedence OpNotEqual = 2"
| "precedence OpAnd = 1"
| "precedence OpOr = 0"

definition is_left_associative :: "operator \<Rightarrow> bool" where
  "is_left_associative p \<longleftrightarrow> p \<noteq> OpExponent"

definition required_values :: "operator \<Rightarrow> nat" where
  "required_values p = (if p = OpNot \<or> p = OpNegate then 1 else 2)"

fun numeric_operator_of :: "operator \<Rightarrow> numeric_operator option" where
  "numeric_operator_of OpAdd = Some Add"
| "numeric_operator_of OpSubtract = Some Subtract"
| "numeric_operator_of OpMultiply = Some Multiply"
| "numeric_operator_of OpDivide = Some Divide"
| "numeric_operator_of OpIntDivide = Some IntegerDivide"
| "numeric_operator_of OpModulus = Some Remainder"
| "numeric_operator_of OpExponent = Some Power"
| "numeric_operator_of OpNegate = Some Negate"
| "numeric_operator_of _ = None"

datatype value_mode = MutableOwned | MutableReference | ImmutableOwned | ImmutableReference

type_synonym expr_id = nat

datatype ('t, 'd) expression_rpn_item =
    Operand expr_id
  | PendingNumericLiteral 't "source_span option" value_mode
  | GroupOpen "source_span option"
  | GroupClose nat "source_span option"
  | PendingNumericBinding nat "source_span option" value_mode bool
  | PendingNumericCall 'd "source_span option"
  | PendingNumericCast 'd "source_span option"
  | PendingNumericExpression 'd "source_span option"
  | OperatorItem operator "source_span option"
  | ResolvedOperatorItem operator "source_span option"

datatype ordering_failure =
    NoNodes
  | UnmatchedGroupClose
  | UnclosedGroup
  | PendingItemReachedOrdering
  | ResolvedOperationReachedOrdering
  | OperandOnOperatorStack
  | LostOperatorStack
  | ForeignExpression

type_synonym view_span = "expr_id \<Rightarrow> (ordering_failure, source_span option) result"

definition item_source_span ::
  "view_span \<Rightarrow> ('t, 'd) expression_rpn_item \<Rightarrow> (ordering_failure, source_span option) result" where
  "item_source_span view item =
     (case item of
        Operand e \<Rightarrow> view e
      | PendingNumericLiteral _ sp _ \<Rightarrow> Inr sp
      | GroupOpen sp \<Rightarrow> Inr sp
      | GroupClose _ sp \<Rightarrow> Inr sp
      | PendingNumericBinding _ sp _ _ \<Rightarrow> Inr sp
      | PendingNumericCall _ sp \<Rightarrow> Inr sp
      | PendingNumericCast _ sp \<Rightarrow> Inr sp
      | PendingNumericExpression _ sp \<Rightarrow> Inr sp
      | OperatorItem _ sp \<Rightarrow> Inr sp
      | ResolvedOperatorItem _ sp \<Rightarrow> Inr sp)"

fun is_operand_shape :: "('t, 'd) expression_rpn_item \<Rightarrow> bool" where
  "is_operand_shape (Operand _) = True"
| "is_operand_shape (PendingNumericLiteral _ _ _) = True"
| "is_operand_shape (GroupOpen _) = False"
| "is_operand_shape (GroupClose _ _) = True"
| "is_operand_shape (PendingNumericBinding _ _ _ _) = True"
| "is_operand_shape (PendingNumericCall _ _) = True"
| "is_operand_shape (PendingNumericCast _ _) = True"
| "is_operand_shape (PendingNumericExpression _ _) = True"
| "is_operand_shape (OperatorItem _ _) = False"
| "is_operand_shape (ResolvedOperatorItem _ _) = False"

section \<open>The ordering pass\<close>

text \<open>The loop over the nodes returns at the first one of operand shape.\<close>

definition extract_expression_span ::
  "view_span \<Rightarrow> ('t, 'd) expression_rpn_item list \<Rightarrow> (ordering_failure, source_span option) result" where
  "extract_expression_span view nodes =
     (case nodes of
        [] \<Rightarrow> Inl NoNodes
      | first # _ \<Rightarrow>
          (case find is_operand_shape nodes of
             Some node \<Rightarrow> item_source_span view node
           | None \<Rightarrow> item_source_span view first))"

fun operator_from_item :: "('t, 'd) expression_rpn_item \<Rightarrow> (ordering_failure, operator) result" where
  "operator_from_item (OperatorItem p _) = Inr p"
| "operator_from_item _ = Inl OperandOnOperatorStack"

text \<open>The operator stack is a \<open>Vec\<close>: its top is the last element.\<close>

function pop_higher_precedence ::
  "('t, 'd) expression_rpn_item list \<Rightarrow> ('t, 'd) expression_rpn_item list \<Rightarrow> nat \<Rightarrow> bool \<Rightarrow> nat
   \<Rightarrow> (ordering_failure,
       ('t, 'd) expression_rpn_item list \<times> ('t, 'd) expression_rpn_item list) result" where
  "pop_higher_precedence stack output current left_associative fl =
     (if length stack > fl then
        (case operator_from_item (last stack) of
           Inl e \<Rightarrow> Inl e
         | Inr existing \<Rightarrow>
             (if (if left_associative then precedence existing \<ge> current
                  else precedence existing > current)
              then pop_higher_precedence (butlast stack) (output @ [last stack])
                     current left_associative fl
              else Inr (stack, output)))
      else Inr (stack, output))"
  by pat_completeness auto

termination by (relation "measure (\<lambda>(s, _). length s)") auto

declare pop_higher_precedence.simps [simp del]

record ('t, 'd) ordering_state =
  output_queue :: "('t, 'd) expression_rpn_item list"
  operator_stack :: "('t, 'd) expression_rpn_item list"
  parent_floors :: "nat list"
  operator_floor :: nat

text \<open>\<open>operator_stack.drain(operator_floor..).rev()\<close>, appended to the output.\<close>

definition drain_group :: "('t, 'd) ordering_state \<Rightarrow> ('t, 'd) ordering_state" where
  "drain_group st = st\<lparr>
     output_queue := output_queue st @ rev (drop (operator_floor st) (operator_stack st)),
     operator_stack := take (operator_floor st) (operator_stack st)\<rparr>"

definition order_step ::
  "('t, 'd) ordering_state \<Rightarrow> ('t, 'd) expression_rpn_item
   \<Rightarrow> (ordering_failure, ('t, 'd) ordering_state) result" where
  "order_step st node =
     (case node of
        GroupOpen _ \<Rightarrow>
          Inr (st\<lparr>parent_floors := parent_floors st @ [operator_floor st],
                  operator_floor := length (operator_stack st)\<rparr>)
      | GroupClose _ _ \<Rightarrow>
          (let drained = drain_group st
           in if parent_floors drained = [] then Inl UnmatchedGroupClose
              else Inr (drained\<lparr>operator_floor := last (parent_floors drained),
                                parent_floors := butlast (parent_floors drained)\<rparr>))
      | Operand _ \<Rightarrow> Inr (st\<lparr>output_queue := output_queue st @ [node]\<rparr>)
      | PendingNumericLiteral _ _ _ \<Rightarrow> Inr (st\<lparr>output_queue := output_queue st @ [node]\<rparr>)
      | PendingNumericBinding _ _ _ _ \<Rightarrow> Inl PendingItemReachedOrdering
      | PendingNumericCall _ _ \<Rightarrow> Inl PendingItemReachedOrdering
      | PendingNumericCast _ _ \<Rightarrow> Inl PendingItemReachedOrdering
      | PendingNumericExpression _ _ \<Rightarrow> Inl PendingItemReachedOrdering
      | OperatorItem p _ \<Rightarrow>
          result_bind (operator_from_item node) (\<lambda>p.
          result_bind (pop_higher_precedence (operator_stack st) (output_queue st)
                         (precedence p) (is_left_associative p) (operator_floor st))
            (\<lambda>(stack, output). Inr (st\<lparr>output_queue := output, operator_stack := stack @ [node]\<rparr>)))
      | ResolvedOperatorItem _ _ \<Rightarrow> Inl ResolvedOperationReachedOrdering)"

primrec order_loop ::
  "('t, 'd) ordering_state \<Rightarrow> ('t, 'd) expression_rpn_item list
   \<Rightarrow> (ordering_failure, ('t, 'd) ordering_state) result" where
  "order_loop st [] = Inr st"
| "order_loop st (node # nodes) = result_bind (order_step st node) (\<lambda>st'. order_loop st' nodes)"

definition initial_ordering :: "('t, 'd) ordering_state" where
  "initial_ordering =
     \<lparr>output_queue = [], operator_stack = [], parent_floors = [], operator_floor = 0\<rparr>"

definition order_expression_nodes ::
  "view_span \<Rightarrow> ('t, 'd) expression_rpn_item list
   \<Rightarrow> (ordering_failure, ('t, 'd) expression_rpn_item list \<times> source_span option) result" where
  "order_expression_nodes view nodes =
     (if nodes = [] then Inl NoNodes
      else result_bind (extract_expression_span view nodes) (\<lambda>sp.
           result_bind (order_loop initial_ordering nodes) (\<lambda>st.
             if parent_floors st \<noteq> [] then Inl UnclosedGroup
             else Inr (output_queue (drain_group st), sp))))"

section \<open>Indexing the postfix stream\<close>

datatype operand_position = UnaryOperand | BinaryLeft | BinaryRight

datatype indexing_error =
    MissingOperand operator operand_position "source_span option"
  | PendingItemReachedTyping

datatype expression_children = LeafNode | UnaryNode nat | BinaryNode nat nat

text \<open>The type of a node is filled in later; indexing leaves it unset.\<close>

record indexed_node =
  children :: expression_children
  literal_only :: bool

definition pop_operand ::
  "operator \<Rightarrow> operand_position \<Rightarrow> source_span option \<Rightarrow> nat list
   \<Rightarrow> (indexing_error, nat \<times> nat list) result" where
  "pop_operand p side sp stack =
     (if stack = [] then Inl (MissingOperand p side sp) else Inr (last stack, butlast stack))"

definition index_operator ::
  "operator \<Rightarrow> source_span option \<Rightarrow> indexed_node list \<Rightarrow> nat list
   \<Rightarrow> (indexing_error, indexed_node \<times> nat list) result" where
  "index_operator p sp nodes stack =
     (if required_values p = 1 then
        result_bind (pop_operand p UnaryOperand sp stack) (\<lambda>(child, stack).
          Inr (\<lparr>children = UnaryNode child,
                literal_only = (p = OpNegate \<and> literal_only (nodes ! child))\<rparr>, stack))
      else
        result_bind (pop_operand p BinaryRight sp stack) (\<lambda>(right, stack).
        result_bind (pop_operand p BinaryLeft sp stack) (\<lambda>(left, stack).
          Inr (\<lparr>children = BinaryNode left right,
                literal_only = (numeric_operator_of p \<noteq> None \<and>
                                literal_only (nodes ! left) \<and> literal_only (nodes ! right))\<rparr>,
               stack))))"

definition index_item ::
  "('t, 'd) expression_rpn_item \<Rightarrow> indexed_node list \<Rightarrow> nat list
   \<Rightarrow> (indexing_error, indexed_node \<times> nat list) result" where
  "index_item item nodes stack =
     (case item of
        Operand _ \<Rightarrow> Inr (\<lparr>children = LeafNode, literal_only = False\<rparr>, stack)
      | PendingNumericLiteral _ _ _ \<Rightarrow> Inr (\<lparr>children = LeafNode, literal_only = True\<rparr>, stack)
      | OperatorItem p sp \<Rightarrow> index_operator p sp nodes stack
      | ResolvedOperatorItem p sp \<Rightarrow> index_operator p sp nodes stack
      | _ \<Rightarrow> Inl PendingItemReachedTyping)"

primrec index_loop ::
  "indexed_node list \<Rightarrow> nat list \<Rightarrow> nat \<Rightarrow> ('t, 'd) expression_rpn_item list
   \<Rightarrow> (indexing_error, indexed_node list \<times> nat list) result" where
  "index_loop nodes stack index [] = Inr (nodes, stack)"
| "index_loop nodes stack index (item # items) =
     result_bind (index_item item nodes stack) (\<lambda>(node, stack).
       index_loop (nodes @ [node]) (stack @ [index]) (index + 1) items)"

definition index_expression_nodes ::
  "('t, 'd) expression_rpn_item list \<Rightarrow> (indexing_error, indexed_node list \<times> nat list) result" where
  "index_expression_nodes items = index_loop [] [] 0 items"

section \<open>The tree a fragment spells\<close>

datatype ('t, 'd) expr_tree =
    Leaf "('t, 'd) expression_rpn_item"
  | Group "source_span option" nat "source_span option" "('t, 'd) expr_tree"
  | Unary operator "source_span option" "('t, 'd) expr_tree"
  | Binary operator "source_span option" "('t, 'd) expr_tree" "('t, 'd) expr_tree"

primrec infix_items :: "('t, 'd) expr_tree \<Rightarrow> ('t, 'd) expression_rpn_item list" where
  "infix_items (Leaf i) = [i]"
| "infix_items (Group a d b e) = GroupOpen a # infix_items e @ [GroupClose d b]"
| "infix_items (Unary p sp e) = OperatorItem p sp # infix_items e"
| "infix_items (Binary p sp l r) = infix_items l @ OperatorItem p sp # infix_items r"

primrec postfix_items :: "('t, 'd) expr_tree \<Rightarrow> ('t, 'd) expression_rpn_item list" where
  "postfix_items (Leaf i) = [i]"
| "postfix_items (Group a d b e) = postfix_items e"
| "postfix_items (Unary p sp e) = postfix_items e @ [OperatorItem p sp]"
| "postfix_items (Binary p sp l r) = postfix_items l @ postfix_items r @ [OperatorItem p sp]"

text \<open>How tightly the root binds; leaves and groups bind tighter than every operator.\<close>

primrec level :: "('t, 'd) expr_tree \<Rightarrow> nat" where
  "level (Leaf i) = 7"
| "level (Group a d b e) = 7"
| "level (Unary p sp e) = precedence p"
| "level (Binary p sp l r) = precedence p"

fun is_leaf_item :: "('t, 'd) expression_rpn_item \<Rightarrow> bool" where
  "is_leaf_item (Operand _) = True"
| "is_leaf_item (PendingNumericLiteral _ _ _) = True"
| "is_leaf_item _ = False"

text \<open>The trees of the grammar: a prefix operator applies to a leaf or a group; the operands of a
  binary operator bind tighter, and the one on the side it associates to may bind equally.\<close>

primrec grammatical :: "('t, 'd) expr_tree \<Rightarrow> bool" where
  "grammatical (Leaf i) = is_leaf_item i"
| "grammatical (Group a d b e) = grammatical e"
| "grammatical (Unary p sp e) = (required_values p = 1 \<and> level e = 7 \<and> grammatical e)"
| "grammatical (Binary p sp l r) =
     (required_values p = 2 \<and> grammatical l \<and> grammatical r \<and>
      (if is_left_associative p then precedence p \<le> level l \<and> precedence p < level r
       else precedence p < level l \<and> precedence p \<le> level r))"

text \<open>A fragment in the grammar: operands separated by binary operators, an operand being a leaf or
  a parenthesised fragment with at most one prefix operator. The range operator binds as tightly
  as the prefix operators, so its right operand has none.\<close>

inductive fragment :: "('t, 'd) expression_rpn_item list \<Rightarrow> bool"
  and primary :: "('t, 'd) expression_rpn_item list \<Rightarrow> bool"
  and prefixed :: "('t, 'd) expression_rpn_item list \<Rightarrow> bool" where
  leaf: "is_leaf_item i \<Longrightarrow> primary [i]"
| group: "fragment f \<Longrightarrow> primary (GroupOpen a # f @ [GroupClose d b])"
| plain: "primary q \<Longrightarrow> prefixed q"
| prefix: "primary q \<Longrightarrow> required_values p = 1 \<Longrightarrow> prefixed (OperatorItem p sp # q)"
| single: "prefixed q \<Longrightarrow> fragment q"
| step: "fragment f \<Longrightarrow> required_values p = 2 \<Longrightarrow> p \<noteq> OpRange \<Longrightarrow> prefixed q
     \<Longrightarrow> fragment (f @ OperatorItem p sp # q)"
| range: "fragment f \<Longrightarrow> primary q \<Longrightarrow> fragment (f @ OperatorItem OpRange sp # q)"

section \<open>Ordering a grammatical fragment\<close>

text \<open>An earlier operator leaves the stack before a later one.\<close>

definition pops :: "operator \<Rightarrow> operator \<Rightarrow> bool" where
  "pops earlier later \<longleftrightarrow>
     (if is_left_associative later then precedence later \<le> precedence earlier
      else precedence later < precedence earlier)"

text \<open>What the pass has written after reading a tree, and what it still holds on the stack.\<close>

primrec emitted :: "('t, 'd) expr_tree \<Rightarrow> ('t, 'd) expression_rpn_item list" where
  "emitted (Leaf i) = [i]"
| "emitted (Group a d b e) = postfix_items e"
| "emitted (Unary p sp e) = emitted e"
| "emitted (Binary p sp l r) = postfix_items l @ emitted r"

primrec pending :: "('t, 'd) expr_tree \<Rightarrow> ('t, 'd) expression_rpn_item list" where
  "pending (Leaf i) = []"
| "pending (Group a d b e) = []"
| "pending (Unary p sp e) = OperatorItem p sp # pending e"
| "pending (Binary p sp l r) = OperatorItem p sp # pending r"

lemma emitted_pending: "emitted e @ rev (pending e) = postfix_items e"
  by (induction e) auto

lemma precedence_le: "precedence p \<le> 6"
  by (cases p) auto

lemma precedence_not_seven [simp]: "precedence p \<noteq> 7"
  using precedence_le [of p] by simp

lemma right_associative_precedence: "\<not> is_left_associative p \<longleftrightarrow> precedence p = 5"
  by (cases p) (auto simp: is_left_associative_def)

lemma pending_primary: "level e = 7 \<Longrightarrow> pending e = []"
  by (cases e) auto

lemma pending_level:
  "grammatical e \<Longrightarrow> i \<in> set (pending e) \<Longrightarrow> \<exists>p sp. i = OperatorItem p sp \<and> level e \<le> precedence p"
  by (induction e) (auto simp: pending_primary split: if_splits intro: le_trans less_imp_le)

definition stops_at :: "('t, 'd) expression_rpn_item list \<Rightarrow> nat \<Rightarrow> operator \<Rightarrow> bool" where
  "stops_at base fl p \<longleftrightarrow>
     length base \<le> fl \<or> (\<exists>q sp. last base = OperatorItem q sp \<and> \<not> pops q p)"

lemma pop_higher_precedence_exact:
  assumes "\<forall>i \<in> set pend. \<exists>q sp. i = OperatorItem q sp \<and> pops q p"
    and "fl \<le> length base" "stops_at base fl p"
  shows "pop_higher_precedence (base @ pend) out (precedence p) (is_left_associative p) fl
       = Inr (base, out @ rev pend)"
  using assms
proof (induction pend arbitrary: out rule: rev_induct)
  case Nil
  then show ?case
    by (subst pop_higher_precedence.simps) (auto simp: stops_at_def pops_def)
next
  case (snoc i pend)
  from snoc.prems(1) obtain q sp where i: "i = OperatorItem q sp" and q: "pops q p" by auto
  have "pop_higher_precedence (base @ pend @ [i]) out (precedence p) (is_left_associative p) fl
      = pop_higher_precedence (base @ pend) (out @ [i]) (precedence p) (is_left_associative p) fl"
    using q snoc.prems(2)
    by (subst pop_higher_precedence.simps) (simp add: i pops_def butlast_append)
  then show ?case using snoc by simp
qed

text \<open>The operator under a tree, if any, lets the tree be read as its right operand.\<close>

definition admits :: "('t, 'd) expression_rpn_item list \<Rightarrow> nat \<Rightarrow> nat \<Rightarrow> bool" where
  "admits base fl n \<longleftrightarrow>
     length base \<le> fl \<or>
     (\<exists>q sp. last base = OperatorItem q sp \<and>
        (if is_left_associative q then precedence q < n else precedence q \<le> n))"

lemma admits_mono: "admits base fl n \<Longrightarrow> n \<le> m \<Longrightarrow> admits base fl m"
  unfolding admits_def by (elim disjE exE conjE) (auto split: if_splits)

lemma admitted_stays:
  "(if is_left_associative q then precedence q < precedence p else precedence q \<le> precedence p)
   \<Longrightarrow> \<not> pops q p"
  using right_associative_precedence [of p] right_associative_precedence [of q]
  by (auto simp: pops_def split: if_splits)

lemma admits_stops: "admits base fl (precedence p) \<Longrightarrow> stops_at base fl p"
  using admitted_stays unfolding admits_def stops_at_def by blast

lemma grammatical_operands:
  assumes "grammatical (Binary p sp l r)"
  shows "precedence p \<le> level l" "precedence p \<le> level r"
    and "i \<in> set (pending l) \<Longrightarrow> \<exists>q sq. i = OperatorItem q sq \<and> pops q p"
    and "admits (base @ [OperatorItem p sp']) fl (level r)"
proof -
  show "precedence p \<le> level l" "precedence p \<le> level r" using assms by (auto split: if_splits)
  show "admits (base @ [OperatorItem p sp']) fl (level r)"
    using assms by (auto simp: admits_def split: if_splits)
  assume "i \<in> set (pending l)"
  moreover have "grammatical l" using assms by simp
  ultimately obtain q sq where "i = OperatorItem q sq" "level l \<le> precedence q"
    using pending_level by blast
  then show "\<exists>q sq. i = OperatorItem q sq \<and> pops q p"
    using assms by (auto simp: pops_def split: if_splits)
qed

abbreviation ordering ::
  "('t, 'd) expression_rpn_item list \<Rightarrow> ('t, 'd) expression_rpn_item list \<Rightarrow> nat list \<Rightarrow> nat
   \<Rightarrow> ('t, 'd) ordering_state" where
  "ordering out stack floors fl \<equiv>
     \<lparr>output_queue = out, operator_stack = stack, parent_floors = floors, operator_floor = fl\<rparr>"

lemma order_step_operator:
  assumes "\<forall>i \<in> set pend. \<exists>q sp. i = OperatorItem q sp \<and> pops q p"
    and "fl \<le> length base" "stops_at base fl p"
  shows "order_step (ordering out (base @ pend) floors fl) (OperatorItem p sp)
       = Inr (ordering (out @ rev pend) (base @ [OperatorItem p sp]) floors fl)"
  using pop_higher_precedence_exact [OF assms] by (simp add: order_step_def)

lemma order_loop_tree:
  assumes "grammatical e" "admits base fl (level e)" "fl \<le> length base"
  shows "order_loop (ordering out base floors fl) (infix_items e @ rest)
       = order_loop (ordering (out @ emitted e) (base @ pending e) floors fl) rest"
  using assms
proof (induction e arbitrary: out base floors fl rest)
  case (Leaf i)
  then show ?case by (cases i) (auto simp: order_step_def)
next
  case (Group a d b e)
  have "order_loop (ordering out base (floors @ [fl]) (length base)) (infix_items e @ GroupClose d b # rest)
      = order_loop (ordering (out @ emitted e) (base @ pending e) (floors @ [fl]) (length base))
          (GroupClose d b # rest)"
    by (rule Group.IH) (use Group.prems in \<open>auto simp: admits_def\<close>)
  then show ?case
    by (simp add: order_step_def drain_group_def Let_def emitted_pending)
next
  case (Unary p sp e)
  have s: "stops_at base fl p" using Unary.prems by (simp add: admits_stops)
  have "order_step (ordering out (base @ []) floors fl) (OperatorItem p sp)
      = Inr (ordering (out @ rev []) (base @ [OperatorItem p sp]) floors fl)"
    by (rule order_step_operator) (use s Unary.prems in auto)
  moreover have "admits (base @ [OperatorItem p sp]) fl (level e)"
    using Unary.prems(1) precedence_le [of p] by (auto simp: admits_def)
  ultimately show ?case using Unary.IH [of "base @ [OperatorItem p sp]" fl] Unary.prems by simp
next
  case (Binary p sp l r)
  note g = grammatical_operands [OF Binary.prems(1)]
  have "admits base fl (level l)" using Binary.prems(2) g(1) by (auto intro: admits_mono)
  then have l: "order_loop (ordering out base floors fl) (infix_items (Binary p sp l r) @ rest)
      = order_loop (ordering (out @ emitted l) (base @ pending l) floors fl)
          (OperatorItem p sp # infix_items r @ rest)"
    using Binary.IH(1) Binary.prems by simp
  have "order_step (ordering (out @ emitted l) (base @ pending l) floors fl) (OperatorItem p sp)
      = Inr (ordering ((out @ emitted l) @ rev (pending l)) (base @ [OperatorItem p sp]) floors fl)"
    by (rule order_step_operator) (use g(3) Binary.prems in \<open>auto simp: admits_stops\<close>)
  also have "(out @ emitted l) @ rev (pending l) = out @ postfix_items l"
    by (simp add: emitted_pending)
  finally have "order_loop (ordering out base floors fl) (infix_items (Binary p sp l r) @ rest)
      = order_loop (ordering (out @ postfix_items l) (base @ [OperatorItem p sp]) floors fl)
          (infix_items r @ rest)"
    using l by simp
  then show ?case using Binary.IH(2) [OF _ g(4)] Binary.prems by simp
qed

lemma infix_items_nonempty [simp]: "infix_items e \<noteq> []"
  by (induction e) auto

lemma order_grammatical:
  assumes "grammatical e"
  shows "order_expression_nodes view (infix_items e) =
     result_bind (extract_expression_span view (infix_items e)) (\<lambda>sp. Inr (postfix_items e, sp))"
proof -
  have "order_loop initial_ordering (infix_items e @ []) = Inr (ordering (emitted e) (pending e) [] 0)"
    unfolding initial_ordering_def
    by (subst order_loop_tree) (use assms in \<open>auto simp: admits_def\<close>)
  then show ?thesis
    by (simp add: order_expression_nodes_def drain_group_def emitted_pending)
qed

section \<open>Every fragment spells a tree\<close>

text \<open>Reading one more operator and operand extends the tree on its right edge.\<close>

primrec attach ::
  "operator \<Rightarrow> source_span option \<Rightarrow> ('t, 'd) expr_tree \<Rightarrow> ('t, 'd) expr_tree \<Rightarrow> ('t, 'd) expr_tree" where
  "attach p sp q (Leaf i) = Binary p sp (Leaf i) q"
| "attach p sp q (Group a d b e) = Binary p sp (Group a d b e) q"
| "attach p sp q (Unary u su e) = Binary p sp (Unary u su e) q"
| "attach p sp q (Binary u su l r) =
     (if pops u p then Binary p sp (Binary u su l r) q else Binary u su l (attach p sp q r))"

lemma infix_attach: "infix_items (attach p sp q e) = infix_items e @ OperatorItem p sp # infix_items q"
  by (induction e) auto

lemma level_attach: "min (level e) (precedence p) \<le> level (attach p sp q e)"
  by (induction e) auto

lemma not_popped_level:
  assumes "\<not> pops u p" "if is_left_associative u then precedence u < n else precedence u \<le> n"
  shows "if is_left_associative u then precedence u < min n (precedence p)
         else precedence u \<le> min n (precedence p)"
  using assms right_associative_precedence [of p] right_associative_precedence [of u]
  by (auto simp: pops_def split: if_splits)

lemma grammatical_attach:
  assumes "grammatical e" "grammatical q" "required_values p = 2" "precedence p < level q"
  shows "grammatical (attach p sp q e)"
  using assms(1)
proof (induction e)
  case (Binary u su l r)
  have u: "required_values u = 2" "grammatical l" "grammatical r"
    and lr: "if is_left_associative u then precedence u \<le> level l \<and> precedence u < level r
             else precedence u < level l \<and> precedence u \<le> level r"
    using Binary.prems by auto
  show ?case
  proof (cases "pops u p")
    case True
    then show ?thesis using Binary.prems assms(2-4) by (auto simp: pops_def split: if_splits)
  next
    case False
    have "if is_left_associative u then precedence u < min (level r) (precedence p)
          else precedence u \<le> min (level r) (precedence p)"
      by (rule not_popped_level [OF False]) (use lr in \<open>auto split: if_splits\<close>)
    with level_attach [of r p sp q] lr
    have "if is_left_associative u then precedence u \<le> level l \<and> precedence u < level (attach p sp q r)
          else precedence u < level l \<and> precedence u \<le> level (attach p sp q r)"
      by (auto split: if_splits)
    with False u Binary.IH(2) show ?thesis by simp
  qed
qed (use assms precedence_le [of p] right_associative_precedence [of p] in
      \<open>auto simp: required_values_def split: if_splits\<close>)

lemma fragment_tree:
  fixes f g h :: "('t, 'd) expression_rpn_item list"
  shows "fragment f \<Longrightarrow> \<exists>e. grammatical e \<and> infix_items e = f"
    and "primary g \<Longrightarrow> \<exists>e. grammatical e \<and> level e = 7 \<and> infix_items e = g"
    and "prefixed h \<Longrightarrow> \<exists>e. grammatical e \<and> 6 \<le> level e \<and> infix_items e = h"
proof (induction f and g and h rule: fragment_primary_prefixed.inducts)
  case (leaf i)
  then show ?case by (intro exI [of _ "Leaf i"]) simp
next
  case (group f a d b)
  then obtain e where "grammatical e" "infix_items e = f" by blast
  then show ?case by (intro exI [of _ "Group a d b e"]) simp
next
  case (plain q)
  then obtain e where "grammatical e" "level e = 7" "infix_items e = q" by blast
  then show ?case by (intro exI [of _ e]) simp
next
  case (prefix q p sp)
  then obtain e where e: "grammatical e" "level e = 7" "infix_items e = q" by blast
  have "6 \<le> precedence p" using prefix.hyps by (cases p) (auto simp: required_values_def)
  then show ?case using e prefix.hyps by (intro exI [of _ "Unary p sp e"]) simp
next
  case (single q)
  then show ?case by blast
next
  case (step f p q sp)
  then obtain e t where e: "grammatical e" "infix_items e = f"
    and t: "grammatical t" "infix_items t = q" "6 \<le> level t" by blast
  have "precedence p \<le> 5" using step.hyps by (cases p) (auto simp: required_values_def)
  with t have "precedence p < level t" by simp
  with e t step.hyps have "grammatical (attach p sp t e)" by (intro grammatical_attach)
  with e t show ?case by (intro exI [of _ "attach p sp t e"]) (simp add: infix_attach)
next
  case (range f q sp)
  then obtain e t where e: "grammatical e" "infix_items e = f"
    and t: "grammatical t" "infix_items t = q" "level t = 7" by blast
  have "grammatical (attach OpRange sp t e)"
    by (rule grammatical_attach) (use e t in \<open>auto simp: required_values_def\<close>)
  with e t show ?case by (intro exI [of _ "attach OpRange sp t e"]) (simp add: infix_attach)
qed

section \<open>Indexing a postfix stream rebuilds the tree\<close>

text \<open>Groups leave no trace in postfix order.\<close>

primrec ungroup :: "('t, 'd) expr_tree \<Rightarrow> ('t, 'd) expr_tree" where
  "ungroup (Leaf i) = Leaf i"
| "ungroup (Group a d b e) = ungroup e"
| "ungroup (Unary p sp e) = Unary p sp (ungroup e)"
| "ungroup (Binary p sp l r) = Binary p sp (ungroup l) (ungroup r)"

text \<open>An expression made of numeric literals only.\<close>

primrec literals_only :: "('t, 'd) expr_tree \<Rightarrow> bool" where
  "literals_only (Leaf i) = (\<exists>t sp vm. i = PendingNumericLiteral t sp vm)"
| "literals_only (Group a d b e) = literals_only e"
| "literals_only (Unary p sp e) = (p = OpNegate \<and> literals_only e)"
| "literals_only (Binary p sp l r) = (numeric_operator_of p \<noteq> None \<and> literals_only l \<and> literals_only r)"

text \<open>Node \<open>n\<close> of an indexed stream, read back as a tree.\<close>

primrec denotes ::
  "('t, 'd) expression_rpn_item list \<Rightarrow> indexed_node list \<Rightarrow> ('t, 'd) expr_tree \<Rightarrow> nat \<Rightarrow> bool" where
  "denotes items nodes (Leaf i) n =
     (n < length nodes \<and> items ! n = i \<and> children (nodes ! n) = LeafNode \<and>
      literal_only (nodes ! n) = literals_only (Leaf i))"
| "denotes items nodes (Group a d b e) n = False"
| "denotes items nodes (Unary p sp e) n =
     (n < length nodes \<and> items ! n = OperatorItem p sp \<and>
      literal_only (nodes ! n) = literals_only (Unary p sp e) \<and>
      (\<exists>c < n. children (nodes ! n) = UnaryNode c \<and> denotes items nodes e c))"
| "denotes items nodes (Binary p sp l r) n =
     (n < length nodes \<and> items ! n = OperatorItem p sp \<and>
      literal_only (nodes ! n) = literals_only (Binary p sp l r) \<and>
      (\<exists>x < n. \<exists>y < n. children (nodes ! n) = BinaryNode x y \<and>
         denotes items nodes l x \<and> denotes items nodes r y))"

lemma denotes_bound: "denotes items nodes e n \<Longrightarrow> n < length nodes"
  by (cases e) auto

lemma denotes_append:
  "denotes items nodes e n \<Longrightarrow> denotes items (nodes @ more_nodes) e n"
  by (induction e arbitrary: n) (auto simp: nth_append)

lemma denotes_literal: "denotes items nodes e n \<Longrightarrow> literal_only (nodes ! n) = literals_only e"
  by (cases e) auto

primrec well_formed_tree :: "('t, 'd) expr_tree \<Rightarrow> bool" where
  "well_formed_tree (Leaf i) = is_leaf_item i"
| "well_formed_tree (Group a d b e) = well_formed_tree e"
| "well_formed_tree (Unary p sp e) = (required_values p = 1 \<and> well_formed_tree e)"
| "well_formed_tree (Binary p sp l r) =
     (required_values p = 2 \<and> well_formed_tree l \<and> well_formed_tree r)"

lemma grammatical_well_formed: "grammatical e \<Longrightarrow> well_formed_tree e"
  by (induction e) auto

lemma literals_only_ungroup [simp]: "literals_only (ungroup e) = literals_only e"
  by (induction e) auto

lemma index_loop_tree:
  fixes e :: "('t, 'd) expr_tree" and pre :: "('t, 'd) expression_rpn_item list"
  assumes "well_formed_tree e" "length nodes = length pre"
    and "\<And>k. k < length (postfix_items e) \<Longrightarrow> items ! (length pre + k) = postfix_items e ! k"
  shows "\<exists>added. length added = length (postfix_items e) \<and> added \<noteq> [] \<and>
     index_loop nodes stack (length nodes) (postfix_items e @ rest) =
       index_loop (nodes @ added) (stack @ [length nodes + length added - 1])
         (length nodes + length added) rest \<and>
     denotes items (nodes @ added) (ungroup e) (length nodes + length added - 1)"
  using assms
proof (induction e arbitrary: nodes stack pre rest)
  case (Leaf i)
  have i: "items ! length nodes = i" using Leaf.prems(2) Leaf.prems(3) [of 0] by simp
  show ?case using Leaf.prems(1) i
    by (cases i) (auto simp: index_item_def nth_append intro!: exI [of _ "[_]"])
next
  case (Group a d b e)
  then show ?case by simp
next
  case (Unary p sp e)
  have "items ! (length pre + k) = postfix_items e ! k" if "k < length (postfix_items e)" for k
    using Unary.prems(3) [of k] that by (simp add: nth_append)
  from Unary.IH [OF _ Unary.prems(2) this, of stack "OperatorItem p sp # rest"] Unary.prems(1)
  obtain added where added: "length added = length (postfix_items e)" "added \<noteq> []"
    and run: "index_loop nodes stack (length nodes) (postfix_items e @ OperatorItem p sp # rest) =
      index_loop (nodes @ added) (stack @ [length nodes + length added - 1])
        (length nodes + length added) (OperatorItem p sp # rest)"
    and den: "denotes items (nodes @ added) (ungroup e) (length nodes + length added - 1)"
    by auto
  define c where "c = length nodes + length added - 1"
  define node where "node = \<lparr>children = UnaryNode c,
    literal_only = (p = OpNegate \<and> literal_only ((nodes @ added) ! c))\<rparr>"
  have c: "c < length nodes + length added" using added(2) by (simp add: c_def)
  have "items ! (length nodes + length added) = OperatorItem p sp"
    using Unary.prems(2) Unary.prems(3) [of "length (postfix_items e)"] added(1) by simp
  then have "denotes items (nodes @ added @ [node]) (ungroup (Unary p sp e)) (length nodes + length added)"
    using denotes_append [OF den [folded c_def], of "[node]"] denotes_literal [OF den [folded c_def]] c
    by (simp add: node_def nth_append)
  moreover have "index_item (OperatorItem p sp :: ('t, 'd) expression_rpn_item) (nodes @ added) (stack @ [c]) = Inr (node, stack)"
    using Unary.prems(1) by (simp add: index_item_def index_operator_def pop_operand_def node_def)
  ultimately show ?case using run added
    by (intro exI [of _ "added @ [node]"]) (simp add: c_def)
next
  case (Binary p sp l r)
  let ?t = "OperatorItem p sp # rest"
  have "items ! (length pre + k) = postfix_items l ! k" if "k < length (postfix_items l)" for k
    using Binary.prems(3) [of k] that by (simp add: nth_append)
  from Binary.IH(1) [OF _ Binary.prems(2) this, of stack "postfix_items r @ ?t"] Binary.prems(1)
  obtain ls where ls: "length ls = length (postfix_items l)" "ls \<noteq> []"
    and runl: "index_loop nodes stack (length nodes) (postfix_items l @ postfix_items r @ ?t) =
      index_loop (nodes @ ls) (stack @ [length nodes + length ls - 1])
        (length nodes + length ls) (postfix_items r @ ?t)"
    and denl: "denotes items (nodes @ ls) (ungroup l) (length nodes + length ls - 1)"
    by auto
  have "items ! (length (pre @ postfix_items l) + k) = postfix_items r ! k" if "k < length (postfix_items r)" for k
    using Binary.prems(3) [of "length (postfix_items l) + k"] that by (simp add: nth_append add.assoc)
  from Binary.IH(2) [OF _ _ this, of "nodes @ ls" "stack @ [length nodes + length ls - 1]" ?t]
    Binary.prems(1,2) ls(1)
  obtain rs where rs: "length rs = length (postfix_items r)" "rs \<noteq> []"
    and runr: "index_loop (nodes @ ls) (stack @ [length nodes + length ls - 1])
        (length nodes + length ls) (postfix_items r @ ?t) =
      index_loop (nodes @ ls @ rs)
        (stack @ [length nodes + length ls - 1] @ [length nodes + length ls + length rs - 1])
        (length nodes + length ls + length rs) ?t"
    and denr: "denotes items (nodes @ ls @ rs) (ungroup r) (length nodes + length ls + length rs - 1)"
    by auto
  define x where "x = length nodes + length ls - 1"
  define y where "y = length nodes + length ls + length rs - 1"
  define node where "node = \<lparr>children = BinaryNode x y,
    literal_only = (numeric_operator_of p \<noteq> None \<and> literal_only ((nodes @ ls @ rs) ! x) \<and>
      literal_only ((nodes @ ls @ rs) ! y))\<rparr>"
  have "0 < length ls" "0 < length rs" using ls(2) rs(2) by auto
  then have xy: "x < length nodes + length ls + length rs" "y < length nodes + length ls + length rs"
    unfolding x_def y_def by linarith+
  note dl = denotes_append [OF denl [folded x_def], of rs] and dr = denr [folded y_def]
  have "items ! (length nodes + length ls + length rs) = OperatorItem p sp"
    using Binary.prems(2) Binary.prems(3) [of "length (postfix_items l) + length (postfix_items r)"] ls(1) rs(1)
    by (simp add: nth_append add.assoc)
  then have "denotes items (nodes @ ls @ rs @ [node]) (ungroup (Binary p sp l r))
      (length nodes + length ls + length rs)"
    using denotes_append [OF dl, of "[node]"] denotes_append [OF dr, of "[node]"]
      denotes_literal [OF dl] denotes_literal [OF dr] xy
    by (simp add: node_def nth_append)
  moreover have "index_item (OperatorItem p sp :: ('t, 'd) expression_rpn_item) (nodes @ ls @ rs) (stack @ [x] @ [y]) = Inr (node, stack)"
    using Binary.prems(1)
    by (simp add: index_item_def index_operator_def pop_operand_def node_def butlast_append)
  ultimately show ?case using runl runr ls rs
    by (intro exI [of _ "ls @ rs @ [node]"]) (simp add: x_def y_def add.assoc)
qed

lemma index_expression_nodes_tree:
  assumes "well_formed_tree e"
  shows "\<exists>nodes r. index_expression_nodes (postfix_items e) = Inr (nodes, [r]) \<and>
     denotes (postfix_items e) nodes (ungroup e) r"
  using index_loop_tree [OF assms, of "[]" "[]" "postfix_items e" "[]" "[]"]
  by (auto simp: index_expression_nodes_def)

section \<open>Every outcome\<close>

definition is_group_marker :: "('t, 'd) expression_rpn_item \<Rightarrow> bool" where
  "is_group_marker i \<longleftrightarrow> (case i of GroupOpen _ \<Rightarrow> True | GroupClose _ _ \<Rightarrow> True | _ \<Rightarrow> False)"

text \<open>The first fault of a fragment, reading it with \<open>d\<close> groups open.\<close>

fun first_fault :: "nat \<Rightarrow> ('t, 'd) expression_rpn_item list \<Rightarrow> ordering_failure option" where
  "first_fault d [] = (if d = 0 then None else Some UnclosedGroup)"
| "first_fault d (GroupOpen _ # nodes) = first_fault (Suc d) nodes"
| "first_fault d (GroupClose _ _ # nodes) =
     (if d = 0 then Some UnmatchedGroupClose else first_fault (d - 1) nodes)"
| "first_fault d (PendingNumericBinding _ _ _ _ # nodes) = Some PendingItemReachedOrdering"
| "first_fault d (PendingNumericCall _ _ # nodes) = Some PendingItemReachedOrdering"
| "first_fault d (PendingNumericCast _ _ # nodes) = Some PendingItemReachedOrdering"
| "first_fault d (PendingNumericExpression _ _ # nodes) = Some PendingItemReachedOrdering"
| "first_fault d (ResolvedOperatorItem _ _ # nodes) = Some ResolvedOperationReachedOrdering"
| "first_fault d (Operand _ # nodes) = first_fault d nodes"
| "first_fault d (PendingNumericLiteral _ _ _ # nodes) = first_fault d nodes"
| "first_fault d (OperatorItem _ _ # nodes) = first_fault d nodes"

definition ordering_ok :: "('t, 'd) ordering_state \<Rightarrow> bool" where
  "ordering_ok st \<longleftrightarrow>
     (\<forall>i \<in> set (operator_stack st). \<exists>p sp. i = OperatorItem p sp) \<and>
     sorted (parent_floors st @ [operator_floor st, length (operator_stack st)]) \<and>
     hd (parent_floors st @ [operator_floor st]) = 0"

lemma pop_higher_precedence_total:
  assumes "\<forall>i \<in> set stack. \<exists>p sp. i = OperatorItem p sp" "fl \<le> length stack"
  shows "\<exists>n. fl \<le> n \<and> n \<le> length stack \<and>
     pop_higher_precedence stack out current left fl = Inr (take n stack, out @ rev (drop n stack))"
  using assms
proof (induction stack out current left fl rule: pop_higher_precedence.induct)
  case (1 stack out current left fl)
  show ?case
  proof (cases "length stack > fl")
    case True
    then have ne: "stack \<noteq> []" by auto
    with 1(2) obtain p sp where p: "last stack = OperatorItem p sp" using last_in_set by metis
    let ?pop = "if left then precedence p \<ge> current else precedence p > current"
    show ?thesis
    proof (cases ?pop)
      case pop: True
      have "\<forall>i \<in> set (butlast stack). \<exists>p sp. i = OperatorItem p sp"
        using 1(2) in_set_butlastD by metis
      moreover have "fl \<le> length (butlast stack)" using True by simp
      ultimately obtain n where n: "fl \<le> n" "n \<le> length (butlast stack)"
        and run: "pop_higher_precedence (butlast stack) (out @ [last stack]) current left fl =
          Inr (take n (butlast stack), (out @ [last stack]) @ rev (drop n (butlast stack)))"
        using 1(1) [OF True, of p] p pop by auto
      have "take n (butlast stack) = take n stack"
        using n(2) ne by (cases stack rule: rev_cases) auto
      moreover have "[last stack] @ rev (drop n (butlast stack)) = rev (drop n stack)"
        using n(2) ne by (cases stack rule: rev_cases) auto
      moreover have "pop_higher_precedence stack out current left fl =
          pop_higher_precedence (butlast stack) (out @ [last stack]) current left fl"
        using True p pop by (subst pop_higher_precedence.simps) simp
      ultimately show ?thesis using n run by (intro exI [of _ n]) auto
    next
      case False
      then have "pop_higher_precedence stack out current left fl = Inr (stack, out)"
        using True p by (subst pop_higher_precedence.simps) auto
      then show ?thesis using True by (intro exI [of _ "length stack"]) auto
    qed
  next
    case False
    then have "pop_higher_precedence stack out current left fl = Inr (stack, out)"
      by (subst pop_higher_precedence.simps) simp
    then show ?thesis using 1(3) by (intro exI [of _ "length stack"]) auto
  qed
qed

lemma mset_take_rev_drop: "mset (take n xs) + mset (rev (drop n xs)) = mset xs"
  by (metis append_take_drop_id mset_append mset_rev)

text \<open>What a successful step keeps, and which items it accounts for.\<close>

definition held_items :: "('t, 'd) ordering_state \<Rightarrow> ('t, 'd) expression_rpn_item multiset" where
  "held_items st = mset (output_queue st) + mset (operator_stack st)"

definition finish_ordering ::
  "('t, 'd) ordering_state \<Rightarrow> (ordering_failure, ('t, 'd) expression_rpn_item list) result" where
  "finish_ordering st =
     (if parent_floors st \<noteq> [] then Inl UnclosedGroup else Inr (output_queue (drain_group st)))"

lemma order_step_open:
  assumes "ordering_ok st"
  obtains st' where "order_step st (GroupOpen a) = Inr st'" "ordering_ok st'"
    "held_items st' = held_items st" "length (parent_floors st') = Suc (length (parent_floors st))"
  using assms
  by (cases "parent_floors st")
     (auto simp: order_step_def ordering_ok_def held_items_def sorted_append)

lemma order_step_close:
  assumes "ordering_ok st" "parent_floors st \<noteq> []"
  obtains st' where "order_step st (GroupClose d a) = Inr st'" "ordering_ok st'"
    "held_items st' = held_items st" "length (parent_floors st') = length (parent_floors st) - 1"
proof -
  let ?fs = "parent_floors st"
  let ?st = "(drain_group st)\<lparr>operator_floor := last ?fs, parent_floors := butlast ?fs\<rparr>"
  have fs: "butlast ?fs @ [last ?fs] = ?fs" using assms(2) by simp
  have srt: "sorted (?fs @ [operator_floor st, length (operator_stack st)])"
    using assms(1) by (simp add: ordering_ok_def)
  then have fl: "operator_floor st \<le> length (operator_stack st)" "sorted ?fs" "last ?fs \<le> operator_floor st"
    using assms(2) by (auto simp: sorted_append)
  have "sorted ((butlast ?fs @ [last ?fs]) @ [operator_floor st])"
    using srt by (simp only: fs) (simp add: sorted_append)
  then have "ordering_ok ?st"
    using assms fl by (cases ?fs)
      (auto simp: ordering_ok_def drain_group_def fs sorted_append dest: in_set_takeD split: if_splits)
  moreover have "held_items ?st = held_items st"
    by (simp add: held_items_def drain_group_def)
       (metis mset_take_rev_drop mset_rev add.commute)
  ultimately show thesis
    using that [of ?st] assms(2) by (simp add: order_step_def drain_group_def Let_def)
qed

lemma order_step_operator_total:
  assumes "ordering_ok st"
  obtains st' where "order_step st (OperatorItem p sp) = Inr st'" "ordering_ok st'"
    "held_items st' = held_items st + {#OperatorItem p sp#}"
    "parent_floors st' = parent_floors st"
proof -
  have "operator_floor st \<le> length (operator_stack st)"
    using assms by (auto simp: ordering_ok_def sorted_append)
  then obtain n where n: "operator_floor st \<le> n" "n \<le> length (operator_stack st)"
    and run: "pop_higher_precedence (operator_stack st) (output_queue st) (precedence p)
        (is_left_associative p) (operator_floor st) =
      Inr (take n (operator_stack st), output_queue st @ rev (drop n (operator_stack st)))"
    using pop_higher_precedence_total assms unfolding ordering_ok_def by blast
  let ?st = "st\<lparr>output_queue := output_queue st @ rev (drop n (operator_stack st)),
                operator_stack := take n (operator_stack st) @ [OperatorItem p sp]\<rparr>"
  have "ordering_ok ?st"
    using assms n by (auto simp: ordering_ok_def sorted_append dest: in_set_takeD)
  moreover have "held_items ?st = held_items st + {#OperatorItem p sp#}"
    using mset_take_rev_drop [of n "operator_stack st"] by (simp add: held_items_def ac_simps)
  ultimately show thesis using that [of ?st] run by (simp add: order_step_def)
qed

lemma finish_ordering_ok:
  assumes "ordering_ok st"
  shows "\<exists>out. mset out = held_items st \<and>
     finish_ordering st = (if parent_floors st = [] then Inr out else Inl UnclosedGroup)"
proof -
  have "operator_floor st = 0" if "parent_floors st = []"
    using assms that by (simp add: ordering_ok_def)
  then show ?thesis
    by (cases "parent_floors st = []")
       (auto simp: finish_ordering_def drain_group_def held_items_def ex_mset)
qed

lemma order_loop_outcome:
  assumes "ordering_ok st"
  shows "\<exists>out. mset out = held_items st + {#i \<in># mset nodes. \<not> is_group_marker i#} \<and>
     result_bind (order_loop st nodes) finish_ordering =
       (case first_fault (length (parent_floors st)) nodes of Some e \<Rightarrow> Inl e | None \<Rightarrow> Inr out)"
  using assms
proof (induction nodes arbitrary: st)
  case Nil
  then show ?case using finish_ordering_ok [of st] by auto
next
  case (Cons node nodes)
  have step: "?case" if "order_step st node = Inr st'" "ordering_ok st'"
    "held_items st' + {#i \<in># mset nodes. \<not> is_group_marker i#} =
       held_items st + {#i \<in># mset (node # nodes). \<not> is_group_marker i#}"
    "first_fault (length (parent_floors st)) (node # nodes) = first_fault (length (parent_floors st')) nodes"
    for st'
  proof -
    from Cons.IH [OF that(2)] obtain out where
      "mset out = held_items st' + {#i \<in># mset nodes. \<not> is_group_marker i#}"
      "result_bind (order_loop st' nodes) finish_ordering =
         (case first_fault (length (parent_floors st')) nodes of Some e \<Rightarrow> Inl e | None \<Rightarrow> Inr out)"
      by blast
    with that show ?thesis by (intro exI [of _ out] conjI) (simp_all only: order_loop.simps result_bind_simps)
  qed
  show ?case
  proof (cases node)
    case (GroupOpen a)
    obtain st' where st': "order_step st (GroupOpen a) = Inr st'" "ordering_ok st'"
      "held_items st' = held_items st" "length (parent_floors st') = Suc (length (parent_floors st))"
      by (rule order_step_open [OF Cons.prems])
    show ?thesis by (rule step [of st']) (use st' GroupOpen in \<open>auto simp: is_group_marker_def\<close>)
  next
    case (Operand x)
    let ?st = "st\<lparr>output_queue := output_queue st @ [node]\<rparr>"
    show ?thesis by (rule step [of ?st])
      (use Cons.prems Operand in \<open>auto simp: order_step_def ordering_ok_def held_items_def is_group_marker_def\<close>)
  next
    case (PendingNumericLiteral t sp vm)
    let ?st = "st\<lparr>output_queue := output_queue st @ [node]\<rparr>"
    show ?thesis by (rule step [of ?st])
      (use Cons.prems PendingNumericLiteral in \<open>auto simp: order_step_def ordering_ok_def held_items_def is_group_marker_def\<close>)
  next
    case (OperatorItem p sp)
    obtain st' where st': "order_step st (OperatorItem p sp) = Inr st'" "ordering_ok st'"
      "held_items st' = held_items st + {#OperatorItem p sp#}" "parent_floors st' = parent_floors st"
      by (rule order_step_operator_total [OF Cons.prems])
    show ?thesis by (rule step [of st']) (use st' OperatorItem in \<open>auto simp: is_group_marker_def\<close>)
  next
    case (GroupClose d a)
    show ?thesis
    proof (cases "parent_floors st = []")
      case True
      then show ?thesis using GroupClose
        by (auto simp: order_step_def drain_group_def Let_def intro: ex_mset)
    next
      case False
      obtain st' where st': "order_step st (GroupClose d a) = Inr st'" "ordering_ok st'"
        "held_items st' = held_items st" "length (parent_floors st') = length (parent_floors st) - 1"
        by (rule order_step_close [OF Cons.prems False])
      show ?thesis by (rule step [of st']) (use st' GroupClose False in \<open>auto simp: is_group_marker_def\<close>)
    qed
  qed (auto simp: order_step_def intro: ex_mset)
qed

lemma ordering_ok_initial: "ordering_ok initial_ordering"
  by (simp add: ordering_ok_def initial_ordering_def)

lemma order_expression_nodes_finish:
  "nodes \<noteq> [] \<Longrightarrow> order_expression_nodes view nodes =
     result_bind (extract_expression_span view nodes) (\<lambda>sp.
     result_bind (result_bind (order_loop initial_ordering nodes) finish_ordering) (\<lambda>out. Inr (out, sp)))"
  by (simp add: order_expression_nodes_def finish_ordering_def result_bind_def split: sum.splits)

section \<open>Properties\<close>

text \<open>C4. Every fragment of the expression grammar spells a tree in which each operator has the
  operands its precedence and associativity give it; ordering returns the postfix form of that
  tree, with no group marker left, and indexing the postfix stream finds every operand, ends with
  one root and links the nodes back to that tree, flagging exactly its literal-only subtrees.\<close>

theorem fragments_order_by_precedence:
  assumes "fragment nodes"
  shows "\<exists>e. grammatical e \<and> infix_items e = nodes \<and>
     order_expression_nodes view nodes =
       result_bind (extract_expression_span view nodes) (\<lambda>sp. Inr (postfix_items e, sp)) \<and>
     (\<exists>indexed r. index_expression_nodes (postfix_items e) = Inr (indexed, [r]) \<and>
        denotes (postfix_items e) indexed (ungroup e) r)"
proof -
  obtain e where e: "grammatical e" "infix_items e = nodes"
    using fragment_tree(1) [OF assms] by blast
  then show ?thesis
    using order_grammatical [OF e(1), of view]
      index_expression_nodes_tree [OF grammatical_well_formed [OF e(1)]] by blast
qed

text \<open>\<open>- a + b ^ (c * d) ^ e\<close>.\<close>

definition sample_fragment :: "(unit, unit) expression_rpn_item list" where
  "sample_fragment =
     [OperatorItem OpNegate None, Operand 0, OperatorItem OpAdd None, Operand 1,
      OperatorItem OpExponent None, GroupOpen None, Operand 2, OperatorItem OpMultiply None,
      Operand 3, GroupClose 4 None, OperatorItem OpExponent None, Operand 4]"

lemma sample_fragment_ok: "fragment sample_fragment"
proof -
  have one: "primary [Operand k :: (unit, unit) expression_rpn_item]" for k by (rule leaf) simp
  have opd: "prefixed [Operand k :: (unit, unit) expression_rpn_item]"
    "fragment [Operand k :: (unit, unit) expression_rpn_item]" for k
    by (rule plain, rule one) (rule single, rule plain, rule one)
  have "fragment ([Operand 2 :: (unit, unit) expression_rpn_item] @ OperatorItem OpMultiply None # [Operand 3])"
    by (rule step [OF opd(2) _ _ opd(1)]) (simp_all add: required_values_def)
  from plain [OF group [OF this, of None 4 None]]
  have g: "prefixed [GroupOpen None :: (unit, unit) expression_rpn_item, Operand 2, OperatorItem OpMultiply None, Operand 3, GroupClose 4 None]"
    by simp
  have "fragment [OperatorItem OpNegate None, Operand 0 :: (unit, unit) expression_rpn_item]"
    by (rule single [OF prefix [OF one]]) (simp add: required_values_def)
  from step [OF this _ _ opd(1) [of 1], of OpAdd None]
  have "fragment ([OperatorItem OpNegate None, Operand 0 :: (unit, unit) expression_rpn_item] @ OperatorItem OpAdd None # [Operand 1])"
    by (simp add: required_values_def)
  from step [OF this _ _ g, of OpExponent None]
  have "fragment (([OperatorItem OpNegate None, Operand 0 :: (unit, unit) expression_rpn_item] @ OperatorItem OpAdd None # [Operand 1]) @
     OperatorItem OpExponent None #
     [GroupOpen None, Operand 2, OperatorItem OpMultiply None, Operand 3, GroupClose 4 None])"
    by (simp add: required_values_def)
  from step [OF this _ _ opd(1) [of 4], of OpExponent None]
  show ?thesis by (simp add: sample_fragment_def required_values_def)
qed

theorem fragments_order_by_precedence_witness:
  "\<exists>e. grammatical e \<and> infix_items e = sample_fragment \<and>
     order_expression_nodes (\<lambda>_. Inr None) sample_fragment =
       result_bind (extract_expression_span (\<lambda>_. Inr None) sample_fragment)
         (\<lambda>sp. Inr (postfix_items e, sp)) \<and>
     (\<exists>indexed r. index_expression_nodes (postfix_items e) = Inr (indexed, [r]) \<and>
        denotes (postfix_items e) indexed (ungroup e) r)"
  using fragments_order_by_precedence [OF sample_fragment_ok, of "\<lambda>_. Inr None"] .

lemma sample_fragment_postfix:
  "order_expression_nodes (\<lambda>_. Inr None) sample_fragment =
     Inr ([Operand 0, OperatorItem OpNegate None, Operand 1, Operand 2, Operand 3,
           OperatorItem OpMultiply None, Operand 4, OperatorItem OpExponent None,
           OperatorItem OpExponent None, OperatorItem OpAdd None], None)"
  by code_simp

text \<open>C14. Ordering any item list: the first fault of the list (a construction-only item, a resolved
  operation, a close without an open, or a group still open at the end) is reported, after a
  failure to find the anchor span; without a fault the pass succeeds and its output holds every
  item of the input exactly once, except the group markers. In particular the pass never finds an
  operand on its operator stack and never loses operator-stack state.\<close>

theorem ordering_outcome:
  "\<exists>out. mset out = {#i \<in># mset nodes. \<not> is_group_marker i#} \<and>
     order_expression_nodes view nodes =
       (if nodes = [] then Inl NoNodes
        else result_bind (extract_expression_span view nodes) (\<lambda>sp.
          case first_fault 0 nodes of Some e \<Rightarrow> Inl e | None \<Rightarrow> Inr (out, sp)))"
proof -
  obtain out where "mset out = held_items (initial_ordering :: ('a, 'b) ordering_state) +
      {#i \<in># mset nodes. \<not> is_group_marker i#}"
    and run: "result_bind (order_loop initial_ordering nodes) finish_ordering =
      (case first_fault 0 nodes of Some e \<Rightarrow> Inl e | None \<Rightarrow> Inr out)"
    using order_loop_outcome [OF ordering_ok_initial, of nodes] by (auto simp: initial_ordering_def)
  then have out: "mset out = {#i \<in># mset nodes. \<not> is_group_marker i#}"
    by (simp add: held_items_def initial_ordering_def)
  show ?thesis
  proof (cases "nodes = []")
    case True
    then show ?thesis by (intro exI [of _ "[]"]) (simp add: order_expression_nodes_def)
  next
    case False
    show ?thesis
      by (rule exI [of _ out])
         (simp add: out order_expression_nodes_finish [OF False] False run split: option.splits)
  qed
qed

text \<open>Two prefix operators in a row: the pass pops the first one, which binds equally and counts as
  left-associative, before its operand is read. The indexing of the postfix stream then reports
  the first \<open>not\<close> as lacking its operand.\<close>

theorem stacked_prefix_operators_misordered:
  "order_expression_nodes (\<lambda>_. Inr None)
     [OperatorItem OpNot (Some s), OperatorItem OpNot None, Operand x :: (unit, unit) expression_rpn_item] =
     Inr ([OperatorItem OpNot (Some s), Operand x, OperatorItem OpNot None], None) \<and>
   index_expression_nodes
     [OperatorItem OpNot (Some s), Operand x :: (unit, unit) expression_rpn_item, OperatorItem OpNot None] =
     Inl (MissingOperand OpNot UnaryOperand (Some s))"
  by (simp add: order_expression_nodes_def extract_expression_span_def initial_ordering_def
      order_step_def pop_higher_precedence.simps drain_group_def item_source_span_def
      index_expression_nodes_def index_item_def index_operator_def pop_operand_def
      required_values_def is_left_associative_def)

end
