(* ===== verification/Line_Index.thy ===== *)
theory Line_Index
  imports Prelude
begin

text \<open>
  Line and column conversion over one retained UTF-8 snapshot, \<open>source/line_index.rs\<close>: the
  line-start table built from the bytes, line lookup, visible line text, scalar and UTF-16 columns.

  The text is its list of UTF-8 bytes, so byte offsets are list indices; \<open>as u32\<close> casts are written
  out as \<open>cast_u32\<close>, and the two \<open>u32\<close> subtractions that would underflow on a malformed table are the
  error value \<open>SubtractOverflow\<close>. The specification is the function \<open>lines\<close>, which splits the text
  after each LF, CRLF or bare CR.
\<close>

section \<open>Model\<close>

datatype line_bug = SubtractOverflow

record line_index =
  index_text :: string
  line_starts :: "nat list"

record line_position =
  position_line :: nat
  position_column :: nat

abbreviation lf :: char where "lf \<equiv> CHR 0x0A"
abbreviation cr :: char where "cr \<equiv> CHR 0x0D"

definition cast_u32 :: "nat \<Rightarrow> nat" where
  "cast_u32 n = n mod 2 ^ 32"

definition byte_at :: "string \<Rightarrow> nat \<Rightarrow> char option" where
  "byte_at bytes i = (if i < length bytes then Some (bytes ! i) else None)"

definition is_continuation_byte :: "char \<Rightarrow> bool" where
  "is_continuation_byte c \<longleftrightarrow> 128 \<le> byte c \<and> byte c < 192"

definition is_char_boundary :: "string \<Rightarrow> nat \<Rightarrow> bool" where
  "is_char_boundary s i \<longleftrightarrow>
     i = 0 \<or> i = length s \<or> (i < length s \<and> \<not> is_continuation_byte (s ! i))"

definition str_get :: "string \<Rightarrow> nat \<Rightarrow> nat \<Rightarrow> string option" where
  "str_get s a b =
     (if a \<le> b \<and> b \<le> length s \<and> is_char_boundary s a \<and> is_char_boundary s b
      then Some (take (b - a) (drop a s)) else None)"

definition strip_suffix_char :: "char \<Rightarrow> string \<Rightarrow> string option" where
  "strip_suffix_char c s = (if s \<noteq> [] \<and> last s = c then Some (butlast s) else None)"

definition line_byte_range :: "line_index \<Rightarrow> nat \<Rightarrow> (nat \<times> nat) option" where
  "line_byte_range ix line =
     (if line < length (line_starts ix) then
        Some (line_starts ix ! line,
              if line + 1 < length (line_starts ix) then line_starts ix ! (line + 1)
              else cast_u32 (length (index_text ix)))
      else None)"

definition visible_text :: "string \<Rightarrow> string" where
  "visible_text line =
     (let without_newline = (case strip_suffix_char lf line of Some s \<Rightarrow> s | None \<Rightarrow> line)
      in case strip_suffix_char cr without_newline of Some s \<Rightarrow> s | None \<Rightarrow> without_newline)"

definition line_text :: "line_index \<Rightarrow> nat \<Rightarrow> string option" where
  "line_text ix line =
     (case line_byte_range ix line of
        None \<Rightarrow> None
      | Some (a, b) \<Rightarrow> map_option visible_text (str_get (index_text ix) a b))"

definition line_of_offset :: "line_index \<Rightarrow> nat \<Rightarrow> (line_bug, nat option) result" where
  "line_of_offset ix offset =
     (if length (index_text ix) < offset then Inr None
      else if index_text ix = [] then Inr (Some 0)
      else
        (let following_line = cast_u32 (partition_point (\<lambda>s. s \<le> offset) (line_starts ix))
         in if following_line = 0 then Inl SubtractOverflow else Inr (Some (following_line - 1))))"

definition line_and_authored_offset ::
  "line_index \<Rightarrow> nat \<Rightarrow> (line_bug, (nat \<times> string \<times> nat) option) result" where
  "line_and_authored_offset ix offset =
     (if index_text ix = [] then Inr (if offset = 0 then Some (0, index_text ix, 0) else None)
      else
        result_bind (line_of_offset ix offset) (\<lambda>found.
          case found of
            None \<Rightarrow> Inr None
          | Some line \<Rightarrow>
              (case line_byte_range ix line of
                 None \<Rightarrow> Inr None
               | Some (a, b) \<Rightarrow>
                   (case line_text ix line of
                      None \<Rightarrow> Inr None
                    | Some visible \<Rightarrow>
                        if offset < a then Inl SubtractOverflow
                        else Inr (Some (line, visible, offset - a))))))"

text \<open>The scalar starts of \<open>char_indices\<close>: the offsets of the non-continuation bytes, with the lead
  byte of the scalar.\<close>

definition char_indices :: "string \<Rightarrow> (nat \<times> char) list" where
  "char_indices s = filter (\<lambda>(i, c). \<not> is_continuation_byte c) (enumerate 0 s)"

definition len_utf16 :: "char \<Rightarrow> nat" where
  "len_utf16 lead = (if 240 \<le> byte lead then 2 else 1)"

definition position :: "line_index \<Rightarrow> nat \<Rightarrow> (line_bug, line_position option) result" where
  "position ix offset =
     result_bind (line_and_authored_offset ix offset) (\<lambda>found.
       Inr (map_option (\<lambda>(line, visible, authored).
              \<lparr> position_line = line,
                position_column =
                  cast_u32 (length (takeWhile (\<lambda>(i, _). cast_u32 i < authored) (char_indices visible))) \<rparr>)
            found))"

fun utf16_loop :: "nat \<Rightarrow> nat \<Rightarrow> (nat \<times> char) list \<Rightarrow> nat" where
  "utf16_loop authored column [] = column"
| "utf16_loop authored column ((i, c) # rest) =
     (if authored \<le> cast_u32 i then column else utf16_loop authored (column + len_utf16 c) rest)"

definition utf16_column :: "line_index \<Rightarrow> nat \<Rightarrow> (line_bug, nat option) result" where
  "utf16_column ix offset =
     result_bind (line_and_authored_offset ix offset) (\<lambda>found.
       Inr (map_option (\<lambda>(line, visible, authored). utf16_loop authored 0 (char_indices visible)) found))"

definition opens_next_line :: "string \<Rightarrow> nat \<Rightarrow> char \<Rightarrow> bool" where
  "opens_next_line bytes offset b \<longleftrightarrow> b = lf \<or> (b = cr \<and> byte_at bytes (offset + 1) \<noteq> Some lf)"

definition line_start_offsets :: "string \<Rightarrow> nat list" where
  "line_start_offsets bytes =
     (if bytes = [] then []
      else 0 # map (\<lambda>(offset, b). cast_u32 offset + 1)
                 (filter (\<lambda>(offset, b). opens_next_line bytes offset b) (enumerate 0 (butlast bytes))))"

section \<open>Lines\<close>

fun take_line :: "string \<Rightarrow> string \<times> string" where
  "take_line [] = ([], [])"
| "take_line (c # cs) =
     (if c = lf then ([c], cs)
      else if c = cr then (case cs of [] \<Rightarrow> ([c], []) | d # ds \<Rightarrow> if d = lf then ([c, d], ds) else ([c], cs))
      else (c # fst (take_line cs), snd (take_line cs)))"

lemma take_line_append: "fst (take_line s) @ snd (take_line s) = s"
  by (induction s rule: take_line.induct) (auto split: list.splits)

lemma take_line_nonempty: "s \<noteq> [] \<Longrightarrow> fst (take_line s) \<noteq> []"
  by (cases s) (auto split: list.splits)

lemma take_line_shorter: "s \<noteq> [] \<Longrightarrow> length (snd (take_line s)) < length s"
  by (metis take_line_append take_line_nonempty length_append add.commute less_add_same_cancel1 length_greater_0_conv)

function lines :: "string \<Rightarrow> string list" where
  "lines s = (if s = [] then [] else fst (take_line s) # lines (snd (take_line s)))"
  by auto
termination by (relation "measure length") (auto simp: take_line_shorter)

declare lines.simps [simp del]

lemma lines_Nil [simp]: "lines [] = []"
  by (simp add: lines.simps)

lemma lines_step: "s \<noteq> [] \<Longrightarrow> lines s = fst (take_line s) # lines (snd (take_line s))"
  by (subst lines.simps) simp

lemma upt_split: "m \<le> n \<Longrightarrow> [0..<n] = [0..<m] @ [m..<n]"
  using upt_add_eq_append [of 0 m "n - m"] by simp

lemma concat_lines: "concat (lines s) = s"
proof (induction s rule: lines.induct)
  case (1 s)
  then show ?case by (subst lines.simps) (auto simp: take_line_append)
qed

definition opens_at :: "string \<Rightarrow> nat \<Rightarrow> bool" where
  "opens_at s i \<longleftrightarrow> Suc i < length s \<and> opens_next_line s i (s ! i)"

lemma opens_at_Cons_Suc [simp]: "opens_at (c # s) (Suc i) = opens_at s i"
  by (auto simp: opens_at_def opens_next_line_def byte_at_def)

lemma opens_at_append: "opens_at (l @ s) (length l + i) = opens_at s i"
  by (induction l) auto

lemma opens_at_Cons_0 [simp]:
  "opens_at (c # s) 0 \<longleftrightarrow> s \<noteq> [] \<and> (c = lf \<or> (c = cr \<and> hd s \<noteq> lf))"
  by (cases s) (auto simp: opens_at_def opens_next_line_def byte_at_def)

lemma take_line_cases:
  obtains (nil) "s = []"
    | (lf) cs where "s = lf # cs" "take_line s = ([lf], cs)"
    | (crlf) cs where "s = cr # lf # cs" "take_line s = ([cr, lf], cs)"
    | (cr) cs where "s = cr # cs" "cs = [] \<or> hd cs \<noteq> lf" "take_line s = ([cr], cs)"
    | (other) c cs where "s = c # cs" "c \<noteq> lf" "c \<noteq> cr" "take_line s = (c # fst (take_line cs), snd (take_line cs))"
proof (cases s)
  case (Cons c cs)
  then show ?thesis using lf crlf cr other by (cases "c = lf"; cases "c = cr"; cases cs) auto
qed (use nil in simp)

lemma take_line_opens:
  "(\<forall>i. Suc i < length (fst (take_line s)) \<longrightarrow> \<not> opens_at s i) \<and>
   (s \<noteq> [] \<longrightarrow> snd (take_line s) \<noteq> [] \<longrightarrow> opens_at s (length (fst (take_line s)) - 1))"
proof (induction s)
  case (Cons a s)
  show ?case
  proof (cases "a # s" rule: take_line_cases)
    case (other c cs)
    then have eq: "take_line (a # s) = (a # fst (take_line s), snd (take_line s))" "a \<noteq> lf" "a \<noteq> cr" by auto
    have "\<not> opens_at (a # s) i" if "Suc i < length (fst (take_line (a # s)))" for i
      using that Cons eq by (cases i) (auto simp: eq(1))
    moreover have "opens_at (a # s) (length (fst (take_line (a # s))) - 1)"
      if "snd (take_line (a # s)) \<noteq> []"
    proof -
      have "snd (take_line s) \<noteq> []" using that unfolding eq(1) snd_conv .
      then have "s \<noteq> []" by auto
      then have "fst (take_line s) \<noteq> []" by (rule take_line_nonempty)
      then obtain n where "length (fst (take_line s)) = Suc n" by (cases "fst (take_line s)") auto
      with Cons that \<open>s \<noteq> []\<close> eq(2,3) show ?thesis by (auto simp: eq(1))
    qed
    ultimately show ?thesis by blast
  qed auto
qed simp

lemma enumerate_butlast_filter:
  "map fst (filter (\<lambda>(i, b). P i b) (enumerate 0 (butlast s))) = filter (\<lambda>i. P i (s ! i)) [0..<length s - 1]"
proof -
  have "enumerate 0 (butlast s) = map (\<lambda>i. (i, s ! i)) [0..<length s - 1]"
    by (rule nth_equalityI) (auto simp: nth_enumerate_eq nth_butlast)
  then show ?thesis by (simp add: filter_map comp_def)
qed

lemma line_start_offsets_eq:
  assumes "length s \<le> u32_max"
  shows "line_start_offsets s = (if s = [] then [] else 0 # map Suc (filter (opens_at s) [0..<length s - 1]))"
proof -
  let ?f = "filter (\<lambda>(offset, b). opens_next_line s offset b) (enumerate 0 (butlast s))"
  have fst: "map fst ?f = filter (\<lambda>i. opens_next_line s i (s ! i)) [0..<length s - 1]"
    by (rule enumerate_butlast_filter)
  also have "\<dots> = filter (opens_at s) [0..<length s - 1]" by (rule filter_cong) (auto simp: opens_at_def)
  finally have f: "map fst ?f = filter (opens_at s) [0..<length s - 1]" .
  have "fst x < length s" if "x \<in> set ?f" for x
  proof -
    have "fst x \<in> set (map fst ?f)" using that by simp
    then show ?thesis unfolding f by auto
  qed
  then have "map (\<lambda>(offset, b). cast_u32 offset + 1) ?f = map (\<lambda>x. Suc (fst x)) ?f"
    using assms by (intro map_cong) (fastforce simp: cast_u32_def)+
  also have "\<dots> = map Suc (map fst ?f)" by simp
  finally show ?thesis by (simp add: line_start_offsets_def f)
qed

lemma line_start_offsets_first:
  assumes "length s \<le> u32_max" "s \<noteq> []"
  shows "line_start_offsets s =
    0 # map (\<lambda>n. length (fst (take_line s)) + n) (line_start_offsets (snd (take_line s)))"
proof -
  define l r where "l = fst (take_line s)" and "r = snd (take_line s)"
  have s: "s = l @ r" and l: "l \<noteq> []" using take_line_append take_line_nonempty [OF assms(2)] by (simp_all add: l_def r_def)
  have before: "filter (opens_at s) [0..<length l - 1] = []"
    using take_line_opens [of s] by (auto simp: filter_empty_conv l_def)
  show ?thesis
  proof (cases "r = []")
    case True
    then have "line_start_offsets s = [0]" using before s assms by (simp add: line_start_offsets_eq)
    with True show ?thesis unfolding r_def [symmetric] by (simp add: line_start_offsets_def)
  next
    case False
    have "length l - 1 < length s - 1" "Suc (length l - 1) = length l"
      "length s - 1 = length l + (length r - 1)"
      using l False by (cases l; cases r; simp add: s)+
    then have "[0..<length s - 1] = [0..<length l - 1] @ [length l - 1] @ [length l..<length l + (length r - 1)]"
      using upt_split [of "length l - 1" "length s - 1"] upt_conv_Cons [of "length l - 1" "length s - 1"] by simp
    moreover have "opens_at s (length l - 1)" using take_line_opens [of s] False assms(2) by (simp add: l_def r_def)
    moreover have "filter (opens_at s) [length l..<length l + (length r - 1)] =
        map (\<lambda>n. length l + n) (filter (opens_at r) [0..<length r - 1])"
    proof -
      have "[length l..<length l + (length r - 1)] = map (\<lambda>n. n + length l) [0..<length r - 1]"
        by (simp only: map_add_upt add.commute)
      moreover have "opens_at s (n + length l) = opens_at r n" for n
        using opens_at_append [of l r n] by (simp add: s add.commute)
      ultimately show ?thesis by (simp add: filter_map comp_def add.commute)
    qed
    ultimately have "filter (opens_at s) [0..<length s - 1] =
        (length l - 1) # map (\<lambda>n. length l + n) (filter (opens_at r) [0..<length r - 1])"
      using before by simp
    then show ?thesis
      using assms l False s unfolding l_def [symmetric] r_def [symmetric]
      by (simp add: line_start_offsets_eq)
  qed
qed

text \<open>The start of line \<open>k\<close>: the bytes of the lines before it.\<close>

definition lines_length :: "string \<Rightarrow> nat \<Rightarrow> nat" where
  "lines_length s k = length (concat (take k (lines s)))"

lemma line_start_offsets_lines:
  assumes "length s \<le> u32_max"
  shows "line_start_offsets s = map (lines_length s) [0..<length (lines s)]"
  using assms
proof (induction s rule: lines.induct)
  case (1 s)
  show ?case
  proof (cases "s = []")
    case True
    then show ?thesis by (simp add: line_start_offsets_def)
  next
    case False
    let ?l = "fst (take_line s)" and ?r = "snd (take_line s)"
    have ls: "lines s = ?l # lines ?r" using False by (subst lines.simps) simp
    have "length ?r \<le> u32_max" using take_line_shorter [OF False] 1(2) by linarith
    with 1(1) [OF False] have "line_start_offsets ?r = map (lines_length ?r) [0..<length (lines ?r)]" by simp
    moreover have "map (lines_length s) [0..<length (lines s)] =
        0 # map (\<lambda>k. length ?l + lines_length ?r k) [0..<length (lines ?r)]"
      by (simp add: ls lines_length_def upt_conv_Cons del: upt_Suc flip: map_Suc_upt)
    ultimately show ?thesis
      using line_start_offsets_first [OF 1(2) False] by simp
  qed
qed


section \<open>The index of a snapshot\<close>

definition snapshot_index :: "string \<Rightarrow> line_index" where
  "snapshot_index s = \<lparr> index_text = s, line_starts = line_start_offsets s \<rparr>"

lemma lines_length_0 [simp]: "lines_length s 0 = 0"
  by (simp add: lines_length_def)

lemma lines_length_Suc: "k < length (lines s) \<Longrightarrow> lines_length s (Suc k) = lines_length s k + length (lines s ! k)"
  by (simp add: lines_length_def take_Suc_conv_app_nth)

lemma lines_length_end: "length (lines s) \<le> k \<Longrightarrow> lines_length s k = length s"
  by (simp add: lines_length_def concat_lines)

lemma lines_slice:
  assumes "k < length (lines s)"
  shows "take (lines_length s (Suc k) - lines_length s k) (drop (lines_length s k) s) = lines s ! k"
proof -
  have "s = concat (take k (lines s)) @ lines s ! k @ concat (drop (Suc k) (lines s))"
    by (metis assms concat.simps(2) concat_append concat_lines id_take_nth_drop)
  then have "drop (lines_length s k) s = lines s ! k @ concat (drop (Suc k) (lines s))"
    by (metis append_eq_conv_conj lines_length_def)
  then show ?thesis by (simp add: lines_length_Suc [OF assms])
qed

lemma lines_nonempty: "l \<in> set (lines s) \<Longrightarrow> l \<noteq> []"
proof (induction s rule: lines.induct)
  case (1 s)
  then have ne: "s \<noteq> []" by auto
  then have "l = fst (take_line s) \<or> l \<in> set (lines (snd (take_line s)))"
    using 1(2) by (simp add: lines_step)
  then show ?case
  proof
    assume "l = fst (take_line s)"
    then show ?thesis using take_line_nonempty [OF ne] by simp
  next
    assume "l \<in> set (lines (snd (take_line s)))"
    then show ?thesis by (rule 1(1) [OF ne])
  qed
qed

lemma lines_length_strict: "j < k \<Longrightarrow> k \<le> length (lines s) \<Longrightarrow> lines_length s j < lines_length s k"
proof (induction k)
  case (Suc k)
  have "0 < length (lines s ! k)" using lines_nonempty [of "lines s ! k" s] Suc.prems(2) by simp
  with Suc show ?case by (auto simp: lines_length_Suc less_Suc_eq)
qed simp

lemma lines_count: "length (lines s) \<le> length s"
proof -
  have "k \<le> length (lines s) \<Longrightarrow> k \<le> lines_length s k" for k
  proof (induction k)
    case (Suc k)
    then show ?case using lines_length_strict [of k "Suc k" s] by simp
  qed simp
  from this [of "length (lines s)"] show ?thesis by (simp add: lines_length_end)
qed

lemma snapshot_line_byte_range:
  assumes "length s \<le> u32_max"
  shows "line_byte_range (snapshot_index s) k =
    (if k < length (lines s) then Some (lines_length s k, lines_length s (Suc k)) else None)"
  using assms lines_length_end [of s "Suc k"]
  by (auto simp: line_byte_range_def snapshot_index_def line_start_offsets_lines cast_u32_def)


text \<open>What every \<open>&str\<close> satisfies: a continuation byte never starts the text and never follows an
  ASCII byte.\<close>

definition utf8_text :: "string \<Rightarrow> bool" where
  "utf8_text s \<longleftrightarrow>
     (\<forall>i<length s. is_continuation_byte (s ! i) \<longrightarrow> 0 < i \<and> 128 \<le> byte (s ! (i - 1)))"

lemma take_line_terminated:
  "snd (take_line s) \<noteq> [] \<Longrightarrow> last (fst (take_line s)) = lf \<or> last (fst (take_line s)) = cr"
proof (induction s)
  case (Cons a s)
  show ?case
  proof (cases "a # s" rule: take_line_cases)
    case (other c cs)
    then have eq: "take_line (a # s) = (a # fst (take_line s), snd (take_line s))" by auto
    then have "s \<noteq> []" using Cons.prems by auto
    with Cons eq show ?thesis using take_line_nonempty [of s] by (simp only: eq fst_conv snd_conv last_ConsR) auto
  qed auto
qed simp

lemma lines_terminated:
  "Suc k < length (lines s) \<Longrightarrow> last (lines s ! k) = lf \<or> last (lines s ! k) = cr"
proof (induction s arbitrary: k rule: lines.induct)
  case (1 s)
  have ne: "s \<noteq> []" using 1(2) by auto
  then have ls: "lines s = fst (take_line s) # lines (snd (take_line s))" by (subst lines.simps) simp
  show ?case
  proof (cases k)
    case 0
    then have "snd (take_line s) \<noteq> []" using 1(2) ls by auto
    with 0 show ?thesis using take_line_terminated ls by simp
  next
    case (Suc j)
    then show ?thesis using 1(1) [OF ne, of j] 1(2) by (simp add: ls)
  qed
qed

lemma line_start_boundary:
  assumes "utf8_text s" "k \<le> length (lines s)"
  shows "is_char_boundary s (lines_length s k)"
proof (cases "k = 0 \<or> k = length (lines s)")
  case True
  then show ?thesis by (auto simp: is_char_boundary_def lines_length_end)
next
  case False
  then obtain j where j: "k = Suc j" "Suc j < length (lines s)" using assms(2) by (cases k) auto
  let ?n = "lines_length s (Suc j)"
  have n: "?n = lines_length s j + length (lines s ! j)" "lines s ! j \<noteq> []" "?n < length s"
    using lines_length_Suc [of j s] lines_nonempty [of "lines s ! j" s] j
      lines_length_strict [of "Suc j" "length (lines s)" s] by (auto simp: lines_length_end)
  define a m where "a = lines_length s j" and "m = length (lines s ! j)"
  have m: "0 < m" "?n = a + m" using n by (simp_all add: a_def m_def)
  have "last (lines s ! j) = take m (drop a s) ! (m - 1)"
    using lines_slice [of j s] j n(2) m by (simp add: last_conv_nth a_def m_def)
  then have "s ! (?n - 1) = last (lines s ! j)" using m n(3) by simp
  then have "byte (s ! (?n - 1)) < 128" using lines_terminated [OF j(2)] by (auto simp: byte_def)
  then have "\<not> is_continuation_byte (s ! ?n)" using assms(1) n(3) unfolding utf8_text_def by fastforce
  with n(3) show ?thesis by (simp add: is_char_boundary_def j)
qed

lemma snapshot_line_text:
  assumes "length s \<le> u32_max" "utf8_text s"
  shows "line_text (snapshot_index s) k =
    (if k < length (lines s) then Some (visible_text (lines s ! k)) else None)"
proof (cases "k < length (lines s)")
  case True
  have "lines_length s k \<le> lines_length s (Suc k)" "lines_length s (Suc k) \<le> length s"
    using lines_length_Suc [OF True] lines_length_strict [of "Suc k" "length (lines s)" s] True
      lines_length_end [of s "Suc k"] lines_length_end [of s "length (lines s)"]
    by (cases "Suc k = length (lines s)"; simp)+
  then have "str_get s (lines_length s k) (lines_length s (Suc k)) = Some (lines s ! k)"
    using line_start_boundary [OF assms(2)] True lines_slice [OF True] by (simp add: str_get_def)
  with True assms(1) show ?thesis
    by (simp add: line_text_def snapshot_line_byte_range) (simp add: snapshot_index_def)
next
  case False
  with assms(1) show ?thesis by (simp add: line_text_def snapshot_line_byte_range)
qed

lemma takeWhile_map_upt:
  assumes "k < n" "\<And>j. j \<le> k \<Longrightarrow> P (f j)" "Suc k < n \<Longrightarrow> \<not> P (f (Suc k))"
  shows "takeWhile P (map f [0..<n]) = map f [0..<Suc k]"
proof (cases "Suc k < n")
  case True
  then have "[0..<n] = [0..<Suc k] @ Suc k # [Suc (Suc k)..<n]"
    using upt_split [of "Suc k" n] upt_conv_Cons [of "Suc k" n] by simp
  with assms True show ?thesis by (simp add: takeWhile_append del: upt_Suc)
next
  case False
  with assms(1) have "n = Suc k" by simp
  with assms(2) show ?thesis by (auto simp: takeWhile_eq_all_conv simp del: upt_Suc)
qed

text \<open>The line of an offset, as a specification.\<close>

definition offset_on_line :: "string \<Rightarrow> nat \<Rightarrow> nat \<Rightarrow> bool" where
  "offset_on_line s offset k \<longleftrightarrow> k < length (lines s) \<and> lines_length s k \<le> offset \<and>
     (offset < lines_length s (Suc k) \<or> offset = length s \<and> Suc k = length (lines s))"

lemma offset_on_some_line:
  assumes "s \<noteq> []" "offset \<le> length s"
  shows "\<exists>k. offset_on_line s offset k"
proof (cases "offset = length s")
  case True
  have "lines s \<noteq> []" using assms(1) by (subst lines.simps) simp
  then have "offset_on_line s offset (length (lines s) - 1)"
    using True lines_length_strict [of "length (lines s) - 1" "length (lines s)" s]
    by (simp add: offset_on_line_def lines_length_end)
  then show ?thesis by blast
next
  case False
  define k where "k = (LEAST k. offset < lines_length s (Suc k))"
  have ex: "offset < lines_length s (Suc (length (lines s)))"
    using False assms(2) by (simp add: lines_length_end)
  then have upper: "offset < lines_length s (Suc k)" unfolding k_def by (rule LeastI)
  have lower: "lines_length s k \<le> offset"
  proof (cases k)
    case (Suc j)
    then have "\<not> offset < lines_length s (Suc j)" using not_less_Least [of j "\<lambda>k. offset < lines_length s (Suc k)"] by (auto simp: k_def)
    then show ?thesis by (simp add: Suc)
  qed simp
  have "k < length (lines s)"
    using lower False assms(2) by (metis lines_length_end linorder_not_le order_antisym)
  with lower upper show ?thesis by (auto simp: offset_on_line_def)
qed

lemma snapshot_line_of_offset:
  assumes "length s \<le> u32_max" "offset_on_line s offset k" "offset \<le> length s"
  shows "line_of_offset (snapshot_index s) offset = Inr (Some k)"
proof -
  have k: "k < length (lines s)" using assms(2) by (simp add: offset_on_line_def)
  have mono: "lines_length s j \<le> offset" if "j \<le> k" for j
    using that assms(2) lines_length_strict [of j k s] by (cases "j = k") (auto simp: offset_on_line_def)
  have "takeWhile (\<lambda>n. n \<le> offset) (line_start_offsets s) = map (lines_length s) [0..<Suc k]"
    unfolding line_start_offsets_lines [OF assms(1)]
    using assms(2) mono k by (intro takeWhile_map_upt) (auto simp: offset_on_line_def)
  moreover have "length (lines s) \<le> length s" by (rule lines_count)
  moreover have "s \<noteq> []" using k by auto
  ultimately show ?thesis
    using assms(1,3) k
    by (auto simp: line_of_offset_def partition_point_def snapshot_index_def cast_u32_def)
qed


definition line_terminator :: "string \<Rightarrow> bool" where
  "line_terminator t \<longleftrightarrow> t = [] \<or> t = [lf] \<or> t = [cr] \<or> t = [cr, lf]"

lemma take_line_shape:
  "\<exists>v t. fst (take_line s) = v @ t \<and> line_terminator t \<and> lf \<notin> set v \<and> cr \<notin> set v"
proof (induction s)
  case (Cons a s)
  show ?case
  proof (cases "a # s" rule: take_line_cases)
    case (other c cs)
    then have eq: "fst (take_line (a # s)) = a # fst (take_line s)" "a \<noteq> lf" "a \<noteq> cr" by auto
    from Cons obtain v t where "fst (take_line s) = v @ t" "line_terminator t" "lf \<notin> set v" "cr \<notin> set v" by blast
    with eq show ?thesis by (intro exI [of _ "a # v"] exI [of _ t]) auto
  qed (auto simp: line_terminator_def intro: exI [of _ "[]"])
qed (simp add: line_terminator_def)

lemma lines_shape:
  "l \<in> set (lines s) \<Longrightarrow> \<exists>v t. l = v @ t \<and> line_terminator t \<and> lf \<notin> set v \<and> cr \<notin> set v"
proof (induction s rule: lines.induct)
  case (1 s)
  then have ne: "s \<noteq> []" by auto
  then have "l = fst (take_line s) \<or> l \<in> set (lines (snd (take_line s)))"
    using 1(2) by (simp add: lines_step)
  then show ?case
  proof
    assume "l = fst (take_line s)"
    then show ?thesis using take_line_shape by simp
  next
    assume "l \<in> set (lines (snd (take_line s)))"
    then show ?thesis by (rule 1(1) [OF ne])
  qed
qed

lemma visible_text_append:
  assumes "line_terminator t" "lf \<notin> set v" "cr \<notin> set v"
  shows "visible_text (v @ t) = v"
proof -
  have "v \<noteq> [] \<Longrightarrow> last v \<noteq> lf \<and> last v \<noteq> cr" using assms(2,3) last_in_set by metis
  with assms(1) show ?thesis
    by (auto simp: line_terminator_def visible_text_def strip_suffix_char_def butlast_append)
qed

lemma char_indices_before:
  assumes "length s \<le> u32_max"
  shows "takeWhile (\<lambda>(i, _). cast_u32 i < n) (char_indices s) =
    filter (\<lambda>(i, c). \<not> is_continuation_byte c) (enumerate 0 (take n s))"
proof -
  have "enumerate 0 s = enumerate 0 (take n s) @ enumerate (length (take n s)) (drop n s)"
    using enumerate_append_eq [of 0 "take n s" "drop n s"] by simp
  then have split: "char_indices s = filter (\<lambda>(i, c). \<not> is_continuation_byte c) (enumerate 0 (take n s))
      @ filter (\<lambda>(i, c). \<not> is_continuation_byte c) (enumerate (length (take n s)) (drop n s))"
    by (simp add: char_indices_def)
  have low: "cast_u32 i < n" if "(i, c) \<in> set (enumerate 0 (take n s))" for i c
    using that assms by (auto simp: in_set_enumerate_eq cast_u32_def)
  have high: "\<not> cast_u32 i < n" if "(i, c) \<in> set (enumerate (length (take n s)) (drop n s))" for i c
    using that assms by (auto simp: in_set_enumerate_eq cast_u32_def)
  have "takeWhile (\<lambda>(i, _). cast_u32 i < n)
      (filter (\<lambda>(i, c). \<not> is_continuation_byte c) (enumerate (length (take n s)) (drop n s))) = []"
    using high by (auto simp: takeWhile_eq_Nil_iff dest!: hd_in_set)
  with low show ?thesis unfolding split by (subst takeWhile_append2) auto
qed

definition scalar_count :: "string \<Rightarrow> nat" where
  "scalar_count s = length (filter (\<lambda>c. \<not> is_continuation_byte c) s)"

lemma scalar_count_enumerate:
  "length (filter (\<lambda>(i, c). \<not> is_continuation_byte c) (enumerate k s)) = scalar_count s"
  by (induction s arbitrary: k) (auto simp: scalar_count_def)

lemma snapshot_line_and_authored_offset:
  assumes "length s \<le> u32_max" "utf8_text s" "offset_on_line s offset k" "offset \<le> length s"
  shows "line_and_authored_offset (snapshot_index s) offset =
    Inr (Some (k, visible_text (lines s ! k), offset - lines_length s k))"
proof -
  have k: "k < length (lines s)" "lines_length s k \<le> offset" using assms(3) by (auto simp: offset_on_line_def)
  then have "index_text (snapshot_index s) \<noteq> []" by (auto simp: snapshot_index_def)
  with k show ?thesis
    by (simp add: line_and_authored_offset_def snapshot_line_of_offset [OF assms(1,3,4)]
        snapshot_line_byte_range [OF assms(1)] snapshot_line_text [OF assms(1,2)])
qed

lemma visible_length: "length (visible_text l) \<le> length l"
  by (auto simp: visible_text_def strip_suffix_char_def Let_def split: option.splits)

lemma snapshot_position:
  assumes "length s \<le> u32_max" "utf8_text s" "offset_on_line s offset k" "offset \<le> length s"
  shows "position (snapshot_index s) offset = Inr (Some \<lparr> position_line = k,
    position_column = scalar_count (take (offset - lines_length s k) (visible_text (lines s ! k))) \<rparr>)"
proof -
  let ?v = "visible_text (lines s ! k)"
  have k: "k < length (lines s)" using assms(3) by (simp add: offset_on_line_def)
  have "lines_length s (Suc k) \<le> length s"
    using lines_length_strict [of "Suc k" "length (lines s)" s] k lines_length_end [of s "length (lines s)"]
    by (cases "Suc k = length (lines s)") simp_all
  then have v: "length ?v \<le> u32_max"
    using visible_length [of "lines s ! k"] lines_length_Suc [OF k] assms(1) by linarith
  have "cast_u32 (scalar_count (take n ?v)) = scalar_count (take n ?v)" for n
  proof -
    have "scalar_count (take n ?v) \<le> length ?v"
      unfolding scalar_count_def by (rule order_trans [OF length_filter_le]) simp
    with v show ?thesis by (simp add: cast_u32_def)
  qed
  then show ?thesis
    by (simp add: position_def snapshot_line_and_authored_offset [OF assms] char_indices_before [OF v]
        scalar_count_enumerate)
qed

section \<open>Properties\<close>

text \<open>C33. The line-start table describes the tokenizer's lines of the snapshot: they concatenate to the
  text, and the index returns for each its exact byte range and its text without the terminator,
  which is one of LF, CRLF, CR or nothing and is the only line break in the line.\<close>

theorem line_text_correct:
  assumes "length s \<le> u32_max" and "utf8_text s"
  shows "concat (lines s) = s \<and>
    (\<forall>k<length (lines s). \<exists>v t. lines s ! k = v @ t \<and> line_terminator t \<and> lf \<notin> set v \<and> cr \<notin> set v \<and>
       line_text (snapshot_index s) k = Some v \<and>
       line_byte_range (snapshot_index s) k = Some (lines_length s k, lines_length s k + length (v @ t)))"
proof (intro conjI allI impI)
  fix k
  assume k: "k < length (lines s)"
  then obtain v t where vt: "lines s ! k = v @ t" "line_terminator t" "lf \<notin> set v" "cr \<notin> set v"
    using lines_shape [of "lines s ! k" s] by auto
  then show "\<exists>v t. lines s ! k = v @ t \<and> line_terminator t \<and> lf \<notin> set v \<and> cr \<notin> set v \<and>
       line_text (snapshot_index s) k = Some v \<and>
       line_byte_range (snapshot_index s) k = Some (lines_length s k, lines_length s k + length (v @ t))"
    using k visible_text_append [OF vt(2-4)]
    by (intro exI [of _ v] exI [of _ t])
      (simp add: snapshot_line_text [OF assms] snapshot_line_byte_range [OF assms(1)] lines_length_Suc)
qed (rule concat_lines)

theorem line_text_correct_witness:
  "concat (lines (''a'' @ [cr, lf] @ ''b'')) = ''a'' @ [cr, lf] @ ''b'' \<and>
   (\<exists>v t. lines (''a'' @ [cr, lf] @ ''b'') ! 0 = v @ t \<and> line_text (snapshot_index (''a'' @ [cr, lf] @ ''b'')) 0 = Some v)"
proof -
  let ?s = "''a'' @ [cr, lf] @ ''b''"
  have "length ?s \<le> u32_max" "utf8_text ?s" "0 < length (lines ?s)"
    by (code_simp | simp add: lines_step)+
  with line_text_correct [of ?s] show ?thesis by metis
qed

text \<open>C34. Every offset up to the end of a non-empty snapshot has a position, without underflow: the
  line that contains it (the last line for the end of text) and the number of Unicode scalars
  that start before it in the visible text of that line.\<close>

theorem position_correct:
  assumes "length s \<le> u32_max" and "utf8_text s" and "s \<noteq> []" and "offset \<le> length s"
  shows "\<exists>k. offset_on_line s offset k \<and>
    position (snapshot_index s) offset = Inr (Some \<lparr> position_line = k,
      position_column = scalar_count (take (offset - lines_length s k) (visible_text (lines s ! k))) \<rparr>)"
  using offset_on_some_line [OF assms(3,4)] snapshot_position [OF assms(1,2) _ assms(4)] by blast

theorem position_correct_witness:
  "\<exists>k. offset_on_line (''a'' @ [lf] @ ''bc'') 3 k \<and>
    position (snapshot_index (''a'' @ [lf] @ ''bc'')) 3 = Inr (Some \<lparr> position_line = k,
      position_column = scalar_count (take (3 - lines_length (''a'' @ [lf] @ ''bc'') k)
        (visible_text (lines (''a'' @ [lf] @ ''bc'') ! k))) \<rparr>)"
proof -
  let ?s = "''a'' @ [lf] @ ''bc''"
  have "length ?s \<le> u32_max" "utf8_text ?s" "?s \<noteq> []" "3 \<le> length ?s" by code_simp+
  then show ?thesis by (rule position_correct)
qed

end
