(* ===== verification/Root_Set.thy ===== *)
theory Root_Set
  imports Prelude
begin

unbundle bit_operations_syntax

text \<open>
  The root sets of \<open>analysis/borrow_checker/state.rs\<close>: bit sets over the locals of a function, as an
  optional buffer of 64-bit words with the empty set as the only buffer-free value.

  The words are shared copy-on-write (\<open>Option<Rc<[u64]>>\<close>). A set is modelled by its value; the
  sharing test \<open>Rc::strong_count(words) != 1\<close>, which only selects between an early return and an
  in-place write, is the argument \<open>shared\<close> of the mutating operations, so that their independence of
  it is part of the theorems.
\<close>

section \<open>Model\<close>

record root_set =
  set_words :: "u64 list option"
  bit_len :: nat

definition div_ceil_64 :: "nat \<Rightarrow> nat" where
  "div_ceil_64 n = (n + 63) div 64"

definition tail_mask :: "nat \<Rightarrow> u64" where
  "tail_mask n = (if n mod 64 = 0 then - 1 else push_bit (n mod 64) 1 - 1)"

definition root_empty :: "nat \<Rightarrow> root_set" where
  "root_empty n = \<lparr> set_words = None, bit_len = n \<rparr>"

definition root_full :: "nat \<Rightarrow> root_set" where
  "root_full n =
     (let word_len = div_ceil_64 n in
      \<lparr> set_words =
          (if word_len \<noteq> 0
           then Some (map (\<lambda>index. if index + 1 = word_len then tail_mask n else - 1) [0..<word_len])
           else None),
        bit_len = n \<rparr>)"

definition word_slice :: "root_set \<Rightarrow> u64 list" where
  "word_slice s = (case set_words s of None \<Rightarrow> [] | Some ws \<Rightarrow> ws)"

definition covers_all :: "root_set \<Rightarrow> nat \<Rightarrow> bool" where
  "covers_all s local_count =
     (if bit_len s \<noteq> local_count then False
      else if length (word_slice s) \<noteq> div_ceil_64 local_count then False
      else if word_slice s = [] then div_ceil_64 local_count = 0
      else last (word_slice s) = tail_mask local_count \<and> (\<forall>w\<in>set (butlast (word_slice s)). w = - 1))"

definition words_mut :: "root_set \<Rightarrow> u64 list" where
  "words_mut s = (case set_words s of None \<Rightarrow> replicate (div_ceil_64 (bit_len s)) 0 | Some ws \<Rightarrow> ws)"

definition root_contains :: "root_set \<Rightarrow> nat \<Rightarrow> bool" where
  "root_contains s i =
     (if bit_len s \<le> i then False
      else i div 64 < length (word_slice s) \<and> (word_slice s ! (i div 64)) AND push_bit (i mod 64) 1 \<noteq> 0)"

definition root_insert :: "bool \<Rightarrow> nat \<Rightarrow> root_set \<Rightarrow> root_set" where
  "root_insert shared i s =
     (if bit_len s \<le> i then s
      else if shared \<and> root_contains s i then s
      else s\<lparr>set_words := Some ((words_mut s)[i div 64 := (words_mut s ! (i div 64)) OR push_bit (i mod 64) 1])\<rparr>)"

text \<open>Zip-and-update of the leading words, as the in-place loops do.\<close>

fun zip_update :: "(u64 \<Rightarrow> u64 \<Rightarrow> u64) \<Rightarrow> u64 list \<Rightarrow> u64 list \<Rightarrow> u64 list" where
  "zip_update f (l # ls) (r # rs) = f l r # zip_update f ls rs"
| "zip_update f ls _ = ls"

definition union_with :: "bool \<Rightarrow> root_set \<Rightarrow> root_set \<Rightarrow> bool \<times> root_set" where
  "union_with shared other s =
     (case set_words other of
        None \<Rightarrow> (False, s)
      | Some other_words \<Rightarrow>
          if set_words s = None then (True, s\<lparr>set_words := Some other_words\<rparr>)
          else if shared \<and> \<not> list_ex (\<lambda>(l, r). r AND NOT l \<noteq> 0) (zip (word_slice s) other_words)
          then (False, s)
          else (list_ex (\<lambda>(l, r). (l OR r) \<noteq> l) (zip (words_mut s) other_words),
                s\<lparr>set_words := Some (zip_update (OR) (words_mut s) other_words)\<rparr>))"

text \<open>The masking loop of \<open>intersect_with\<close> and \<open>subtract_with\<close>: the masked words, and the surviving
  bits of the words the loop visited.\<close>

fun mask_words :: "(u64 \<Rightarrow> u64 \<Rightarrow> u64) \<Rightarrow> u64 \<Rightarrow> u64 list \<Rightarrow> u64 list \<Rightarrow> u64 \<times> u64 list" where
  "mask_words f surviving (l # ls) (r # rs) =
     (let (s, ws) = mask_words f (surviving OR f l r) ls rs in (s, f l r # ws))"
| "mask_words f surviving ls _ = (surviving, ls)"

definition apply_mask :: "(u64 \<Rightarrow> u64 \<Rightarrow> u64) \<Rightarrow> u64 list \<Rightarrow> root_set \<Rightarrow> root_set" where
  "apply_mask f other_words s =
     (let (surviving, ws) = mask_words f 0 (words_mut s) other_words
      in s\<lparr>set_words := (if surviving = 0 then None else Some ws)\<rparr>)"

definition intersect_with :: "bool \<Rightarrow> root_set \<Rightarrow> root_set \<Rightarrow> root_set" where
  "intersect_with shared other s =
     (if set_words s = None then s
      else
        (case set_words other of
           None \<Rightarrow> s\<lparr>set_words := None\<rparr>
         | Some other_words \<Rightarrow>
             if shared \<and> \<not> list_ex (\<lambda>(l, r). l AND NOT r \<noteq> 0) (zip (word_slice s) other_words) then s
             else apply_mask (AND) other_words s))"

definition subtract_with :: "bool \<Rightarrow> root_set \<Rightarrow> root_set \<Rightarrow> root_set" where
  "subtract_with shared other s =
     (case set_words other of
        None \<Rightarrow> s
      | Some other_words \<Rightarrow>
          if set_words s = None then s
          else if shared \<and> \<not> list_ex (\<lambda>(l, r). l AND r \<noteq> 0) (zip (word_slice s) other_words) then s
          else apply_mask (\<lambda>l r. l AND NOT r) other_words s)"

definition intersects :: "root_set \<Rightarrow> root_set \<Rightarrow> bool" where
  "intersects s other = list_ex (\<lambda>(l, r). l AND r \<noteq> 0) (zip (word_slice s) (word_slice other))"

definition root_clear :: "root_set \<Rightarrow> root_set" where
  "root_clear s = s\<lparr>set_words := None\<rparr>"

definition root_is_empty :: "root_set \<Rightarrow> bool" where
  "root_is_empty s \<longleftrightarrow> set_words s = None"

section \<open>Sets\<close>

text \<open>The bits of a word list, as positions.\<close>

definition words_bit :: "u64 list \<Rightarrow> nat \<Rightarrow> bool" where
  "words_bit ws i \<longleftrightarrow> i div 64 < length ws \<and> bit (ws ! (i div 64)) (i mod 64)"

definition elems :: "root_set \<Rightarrow> nat set" where
  "elems s = {i. words_bit (word_slice s) i}"

text \<open>The representation invariant documented on the struct, for a universe of \<open>n\<close> locals.\<close>

definition root_ok :: "nat \<Rightarrow> root_set \<Rightarrow> bool" where
  "root_ok n s \<longleftrightarrow> bit_len s = n \<and>
     (case set_words s of
        None \<Rightarrow> True
      | Some ws \<Rightarrow> length ws = div_ceil_64 n \<and> (\<exists>i. words_bit ws i) \<and> (\<forall>i. words_bit ws i \<longrightarrow> i < n))"

lemma and_push_bit_1: "(w :: u64) AND 2 ^ k = 0 \<longleftrightarrow> \<not> bit w k"
  using bit_iff_and_push_bit_not_eq_0 [of w k] by simp

lemma div_ceil_64_less: "i < n \<Longrightarrow> i div 64 < div_ceil_64 n"
  by (simp add: div_ceil_64_def) 

lemma words_bit_Nil [simp]: "\<not> words_bit [] i"
  by (simp add: words_bit_def)

lemma elems_bounded: "root_ok n s \<Longrightarrow> i \<in> elems s \<Longrightarrow> i < n"
  by (auto simp: root_ok_def elems_def word_slice_def split: option.splits)

lemma root_contains_iff: "root_ok n s \<Longrightarrow> root_contains s i \<longleftrightarrow> i \<in> elems s"
  using elems_bounded [of n s i]
  by (auto simp: root_contains_def elems_def words_bit_def and_push_bit_1 root_ok_def)

lemma words_bit_at: "k < length ws \<Longrightarrow> n < 64 \<Longrightarrow> words_bit ws (k * 64 + n) = bit (ws ! k) n"
proof -
  assume "k < length ws" "n < 64"
  then have "(k * 64 + n) div 64 = k" "(k * 64 + n) mod 64 = n" by auto
  with \<open>k < length ws\<close> show ?thesis by (simp add: words_bit_def)
qed

lemma words_eqI:
  assumes "length ws = length vs" "\<And>i. words_bit ws i = words_bit vs i"
  shows "ws = vs"
proof (rule nth_equalityI)
  fix k assume k: "k < length ws"
  show "ws ! k = vs ! k"
  proof (rule bit_word_eqI)
    fix n assume "n < LENGTH(64)"
    then show "bit (ws ! k) n = bit (vs ! k) n"
      using assms(2) [of "k * 64 + n"] words_bit_at [of k ws n] words_bit_at [of k vs n] k assms(1) by simp
  qed
qed (rule assms(1))

lemma root_ok_canonical:
  assumes "root_ok n s" "root_ok n t" "elems s = elems t"
  shows "s = t"
proof (cases "set_words s"; cases "set_words t")
  fix ws vs assume "set_words s = Some ws" "set_words t = Some vs"
  with assms have "ws = vs" by (intro words_eqI) (auto simp: root_ok_def elems_def word_slice_def set_eq_iff)
  with assms \<open>set_words s = Some ws\<close> \<open>set_words t = Some vs\<close> show ?thesis
    by (cases s; cases t) (simp add: root_ok_def)
qed (use assms in \<open>cases s; cases t; auto simp: root_ok_def elems_def word_slice_def\<close>)+

lemma root_is_empty_iff: "root_ok n s \<Longrightarrow> root_is_empty s \<longleftrightarrow> elems s = {}"
  by (auto simp: root_is_empty_def root_ok_def elems_def word_slice_def split: option.splits)

lemma root_empty_ok: "root_ok n (root_empty n)" "elems (root_empty n) = {}"
  by (simp_all add: root_ok_def root_empty_def elems_def word_slice_def)

lemma root_clear_ok: "root_ok n s \<Longrightarrow> root_ok n (root_clear s)" "elems (root_clear s) = {}"
  by (simp_all add: root_ok_def root_clear_def elems_def word_slice_def)


lemma words_mut_bit: "words_bit (words_mut s) i = words_bit (word_slice s) i"
  by (auto simp: words_mut_def word_slice_def words_bit_def split: option.splits)

lemma words_mut_length: "root_ok n s \<Longrightarrow> length (words_mut s) = div_ceil_64 n"
  by (auto simp: root_ok_def words_mut_def split: option.splits)

lemma words_bit_update:
  assumes "k div 64 < length ws"
  shows "words_bit (ws[k div 64 := (ws ! (k div 64)) OR 2 ^ (k mod 64)]) i \<longleftrightarrow> words_bit ws i \<or> i = k"
proof -
  have "i = k \<longleftrightarrow> i div 64 = k div 64 \<and> i mod 64 = k mod 64"
    by (metis div_mult_mod_eq)
  moreover have "k mod 64 < 64" by simp
  ultimately show ?thesis
    using assms by (auto simp: words_bit_def nth_list_update bit_simps)
qed

lemma root_insert_correct:
  assumes "root_ok n s"
  shows "root_ok n (root_insert shared i s)"
    "elems (root_insert shared i s) = (if i < n then insert i (elems s) else elems s)"
proof -
  let ?ws = "(words_mut s)[i div 64 := (words_mut s ! (i div 64)) OR 2 ^ (i mod 64)]"
  have "root_ok n (root_insert shared i s) \<and>
    elems (root_insert shared i s) = (if i < n then insert i (elems s) else elems s)"
  proof (cases "i < n \<and> \<not> (shared \<and> root_contains s i)")
    case True
    have n: "bit_len s = n" using assms by (simp add: root_ok_def)
    have bits: "words_bit ?ws j \<longleftrightarrow> j \<in> elems s \<or> j = i" for j
      using words_bit_update [of i "words_mut s" j] True words_mut_length [OF assms] div_ceil_64_less
      by (simp add: words_mut_bit elems_def)
    have run: "root_insert shared i s = s\<lparr>set_words := Some ?ws\<rparr>"
      using True n by (auto simp: root_insert_def)
    have "root_ok n (s\<lparr>set_words := Some ?ws\<rparr>)"
      using bits True n elems_bounded [OF assms] by (auto simp: root_ok_def words_mut_length [OF assms])
    moreover have "elems (s\<lparr>set_words := Some ?ws\<rparr>) = insert i (elems s)"
      using bits by (auto simp: elems_def word_slice_def)
    ultimately show ?thesis unfolding run using True by simp
  next
    case False
    then have "root_insert shared i s = s" using assms by (auto simp: root_insert_def root_ok_def)
    with False assms root_contains_iff [OF assms, of i] show ?thesis by auto
  qed
  then show "root_ok n (root_insert shared i s)"
    "elems (root_insert shared i s) = (if i < n then insert i (elems s) else elems s)" by blast+
qed

lemma zip_update_eq: "length ls = length rs \<Longrightarrow> zip_update f ls rs = map2 f ls rs"
  by (induction f ls rs rule: zip_update.induct) auto

lemma mask_words_eq:
  "length ls = length rs \<Longrightarrow>
     mask_words f sv ls rs = (fold (OR) (map2 f ls rs) sv, map2 f ls rs)"
  by (induction f sv ls rs rule: mask_words.induct) (auto simp: or.commute)

lemma fold_or_eq_0: "fold (OR) ws sv = (0 :: u64) \<longleftrightarrow> sv = 0 \<and> (\<forall>w\<in>set ws. w = 0)"
proof (induction ws arbitrary: sv)
  case (Cons w ws)
  show ?case by (auto simp: Cons.IH or_eq_0_iff)
qed simp

lemma no_words_bit: "(\<forall>w\<in>set ws. w = 0) \<longleftrightarrow> (\<nexists>i. words_bit ws i)"
proof -
  have "w = 0" if "w \<in> set ws" "\<nexists>i. words_bit ws i" for w
  proof -
    from that(1) obtain k where k: "k < length ws" "w = ws ! k" by (auto simp: in_set_conv_nth)
    show "w = 0"
    proof (rule bit_word_eqI)
      fix n assume "n < LENGTH(64)"
      then have "\<not> bit w n" using that(2) k words_bit_at [of k ws n] by auto
      then show "bit w n = bit (0 :: u64) n" by simp
    qed
  qed
  moreover have "\<not> words_bit ws i" if "\<forall>w\<in>set ws. w = 0" for i
  proof
    assume i: "words_bit ws i"
    then have "ws ! (i div 64) = 0" using that by (simp add: words_bit_def)
    with i show False by (simp add: words_bit_def)
  qed
  ultimately show ?thesis by blast
qed

lemma map2_words_bit:
  assumes "length ls = length rs" "\<And>l r k. k < 64 \<Longrightarrow> bit (f l r) k \<longleftrightarrow> P (bit l k) (bit r k)" "\<not> P False False"
  shows "words_bit (map2 f ls rs) i \<longleftrightarrow> P (words_bit ls i) (words_bit rs i)"
proof (cases "i div 64 < length ls")
  case True
  then show ?thesis using assms by (simp add: words_bit_def)
next
  case False
  then show ?thesis using assms by (simp add: words_bit_def)
qed


lemma words_bit_or: "length ls = length rs \<Longrightarrow> words_bit (map2 (OR) ls rs) i \<longleftrightarrow> words_bit ls i \<or> words_bit rs i"
  by (rule map2_words_bit) (auto simp: bit_simps)

lemma words_bit_and: "length ls = length rs \<Longrightarrow> words_bit (map2 (AND) ls rs) i \<longleftrightarrow> words_bit ls i \<and> words_bit rs i"
  by (rule map2_words_bit) (auto simp: bit_simps)

lemma words_bit_diff:
  "length ls = length rs \<Longrightarrow> words_bit (map2 (\<lambda>l r. l AND NOT r) ls rs) i \<longleftrightarrow> words_bit ls i \<and> \<not> words_bit rs i"
  by (rule map2_words_bit) (auto simp: bit_simps)

lemma words_bit_rdiff:
  "length ls = length rs \<Longrightarrow> words_bit (map2 (\<lambda>l r. r AND NOT l) ls rs) i \<longleftrightarrow> \<not> words_bit ls i \<and> words_bit rs i"
  by (rule map2_words_bit) (auto simp: bit_simps)

lemma or_absorbed_iff: "(l OR r) = l \<longleftrightarrow> r AND NOT l = (0 :: u64)"
  by (auto simp: bit_eq_iff bit_simps)

lemma some_word_iff:
  assumes "length ls = length rs"
  shows "list_ex (\<lambda>(l, r). f l r \<noteq> 0) (zip ls rs) \<longleftrightarrow> (\<exists>i. words_bit (map2 f ls rs) i)"
proof -
  have "list_ex (\<lambda>(l, r). f l r \<noteq> 0) (zip ls rs) \<longleftrightarrow> \<not> (\<forall>w\<in>set (map2 f ls rs). w = 0)"
    by (force simp: list_ex_iff)
  then show ?thesis by (simp only: no_words_bit not_not)
qed

text \<open>Two sets of one universe, both with words.\<close>

lemma both_words:
  assumes "root_ok n s" "root_ok n t" "set_words s = Some ls" "set_words t = Some rs"
  shows "length ls = length rs" "words_mut s = ls" "word_slice s = ls" "word_slice t = rs"
    "i \<in> elems s \<longleftrightarrow> words_bit ls i" "i \<in> elems t \<longleftrightarrow> words_bit rs i"
  using assms by (simp_all add: root_ok_def words_mut_def word_slice_def elems_def)

lemma union_with_correct:
  assumes "root_ok n s" "root_ok n t"
  shows "root_ok n (snd (union_with shared t s)) \<and> elems (snd (union_with shared t s)) = elems s \<union> elems t \<and>
    (fst (union_with shared t s) \<longleftrightarrow> \<not> elems t \<subseteq> elems s)"
proof (cases "set_words t")
  case None
  then show ?thesis using assms(1) by (simp add: union_with_def elems_def word_slice_def)
next
  case t: (Some rs)
  show ?thesis
  proof (cases "set_words s")
    case None
    then have "elems s = {}" "elems t \<noteq> {}" using t assms(2) by (auto simp: elems_def word_slice_def root_ok_def)
    with None t assms show ?thesis by (auto simp: union_with_def root_ok_def elems_def word_slice_def)
  next
    case (Some ls)
    note w = both_words [OF assms Some t]
    have ex: "list_ex (\<lambda>(l, r). r AND NOT l \<noteq> 0) (zip ls rs) \<longleftrightarrow> \<not> elems t \<subseteq> elems s"
      unfolding some_word_iff [OF w(1)] using w by (auto simp: words_bit_rdiff)
    have ch: "list_ex (\<lambda>(l, r). (l OR r) \<noteq> l) (zip ls rs) \<longleftrightarrow> \<not> elems t \<subseteq> elems s"
      using ex by (simp only: or_absorbed_iff)
    have bits: "words_bit (zip_update (OR) ls rs) i \<longleftrightarrow> i \<in> elems s \<union> elems t" for i
      using w by (simp add: zip_update_eq words_bit_or)
    have ok: "root_ok n (s\<lparr>set_words := Some (zip_update (OR) ls rs)\<rparr>)"
      "elems (s\<lparr>set_words := Some (zip_update (OR) ls rs)\<rparr>) = elems s \<union> elems t"
      using bits assms Some elems_bounded [OF assms(1)] elems_bounded [OF assms(2)] w(1)
      by (auto simp: root_ok_def elems_def word_slice_def zip_update_eq)
    show ?thesis
      using ok assms(1) Some t ex ch by (auto simp: union_with_def w)
  qed
qed


lemma apply_mask_correct:
  assumes "root_ok n s" "root_ok n t" "set_words s = Some ls" "set_words t = Some rs"
    and bits: "\<And>i. words_bit (map2 f ls rs) i \<longleftrightarrow> i \<in> E" and sub: "E \<subseteq> elems s"
  shows "root_ok n (apply_mask f rs s) \<and> elems (apply_mask f rs s) = E"
proof -
  note w = both_words [OF assms(1-4)]
  have run: "apply_mask f rs s = s\<lparr>set_words := (if E = {} then None else Some (map2 f ls rs))\<rparr>"
    using bits by (auto simp: apply_mask_def w mask_words_eq fold_or_eq_0 no_words_bit simp del: set_map)
  show ?thesis
    unfolding run using assms(1) bits sub elems_bounded [OF assms(1)] w(1) assms(3)
    by (auto simp: root_ok_def elems_def word_slice_def)
qed

lemma intersect_with_correct:
  assumes "root_ok n s" "root_ok n t"
  shows "root_ok n (intersect_with shared t s) \<and> elems (intersect_with shared t s) = elems s \<inter> elems t"
proof (cases "set_words s")
  case None
  then show ?thesis using assms by (simp add: intersect_with_def elems_def word_slice_def)
next
  case s: (Some ls)
  show ?thesis
  proof (cases "set_words t")
    case None
    then show ?thesis using s assms(1) by (simp add: intersect_with_def root_ok_def elems_def word_slice_def)
  next
    case (Some rs)
    note w = both_words [OF assms s Some]
    have "root_ok n (apply_mask (AND) rs s) \<and> elems (apply_mask (AND) rs s) = elems s \<inter> elems t"
      using w by (intro apply_mask_correct [OF assms s Some]) (auto simp: words_bit_and)
    moreover have "list_ex (\<lambda>(l, r). l AND NOT r \<noteq> 0) (zip ls rs) \<longleftrightarrow> \<not> elems s \<subseteq> elems t"
      unfolding some_word_iff [OF w(1)] using w by (auto simp: words_bit_diff)
    ultimately show ?thesis using s Some assms(1) by (auto simp: intersect_with_def w)
  qed
qed

lemma subtract_with_correct:
  assumes "root_ok n s" "root_ok n t"
  shows "root_ok n (subtract_with shared t s) \<and> elems (subtract_with shared t s) = elems s - elems t"
proof (cases "set_words t")
  case None
  then show ?thesis using assms by (simp add: subtract_with_def elems_def word_slice_def)
next
  case t: (Some rs)
  show ?thesis
  proof (cases "set_words s")
    case None
    then show ?thesis using t assms(1) by (simp add: subtract_with_def elems_def word_slice_def)
  next
    case (Some ls)
    note w = both_words [OF assms Some t]
    have "root_ok n (apply_mask (\<lambda>l r. l AND NOT r) rs s) \<and>
        elems (apply_mask (\<lambda>l r. l AND NOT r) rs s) = elems s - elems t"
      using w by (intro apply_mask_correct [OF assms Some t]) (auto simp: words_bit_diff)
    moreover have "list_ex (\<lambda>(l, r). l AND r \<noteq> 0) (zip ls rs) \<longleftrightarrow> elems s \<inter> elems t \<noteq> {}"
      unfolding some_word_iff [OF w(1)] using w by (auto simp: words_bit_and)
    ultimately show ?thesis using Some t assms(1) by (auto simp: subtract_with_def w)
  qed
qed

lemma intersects_correct:
  assumes "root_ok n s" "root_ok n t"
  shows "intersects s t \<longleftrightarrow> elems s \<inter> elems t \<noteq> {}"
proof (cases "set_words s = None \<or> set_words t = None")
  case True
  then show ?thesis by (auto simp: intersects_def elems_def word_slice_def)
next
  case False
  then obtain ls rs where st: "set_words s = Some ls" "set_words t = Some rs" by auto
  note w = both_words [OF assms st]
  have "list_ex (\<lambda>(l, r). l AND r \<noteq> 0) (zip ls rs) \<longleftrightarrow> elems s \<inter> elems t \<noteq> {}"
    unfolding some_word_iff [OF w(1)] using w by (auto simp: words_bit_and)
  then show ?thesis by (simp add: intersects_def w)
qed


section \<open>Full sets\<close>

definition full_words :: "nat \<Rightarrow> u64 list" where
  "full_words n = map (\<lambda>index. if index + 1 = div_ceil_64 n then tail_mask n else - 1) [0..<div_ceil_64 n]"

lemma bit_tail_mask: "bit (tail_mask n) k \<longleftrightarrow> k < 64 \<and> (n mod 64 = 0 \<or> k < n mod 64)"
proof (cases "n mod 64 = 0")
  case False
  then have "tail_mask n = mask (n mod 64)" by (simp add: tail_mask_def mask_eq_exp_minus_1)
  then show ?thesis using False by (auto simp: bit_simps)
qed (simp add: tail_mask_def bit_simps)

lemma full_arith:
  "i < n \<longleftrightarrow> i div 64 < (n + 63) div 64 \<and>
      (i div 64 + 1 = (n + 63) div 64 \<longrightarrow> n mod 64 = 0 \<or> i mod 64 < n mod (64 :: nat))"
proof -
  define q r a b where "q = n div 64" and "r = n mod 64" and "a = i div 64" and "b = i mod 64"
  have n: "n = q * 64 + r" "r < 64" and i: "i = a * 64 + b" "b < 64"
    by (simp_all add: q_def r_def a_def b_def)
  have c: "(n + 63) div 64 = (if r = 0 then q else q + 1)"
    using n(2) unfolding n(1) by auto
  have lt: "i < n \<longleftrightarrow> a < q \<or> (a = q \<and> b < r)" using n i by auto
  show ?thesis
    unfolding c lt a_def [symmetric] b_def [symmetric] r_def [symmetric] by auto
qed

lemma full_words_bit: "words_bit (full_words n) i \<longleftrightarrow> i < n"
proof -
  have "i < n \<longleftrightarrow> i div 64 < div_ceil_64 n \<and>
      (i div 64 + 1 = div_ceil_64 n \<longrightarrow> n mod 64 = 0 \<or> i mod 64 < n mod 64)"
    unfolding div_ceil_64_def by (rule full_arith)
  then show ?thesis
    by (auto simp: words_bit_def full_words_def bit_tail_mask bit_simps)
qed

lemma full_words_length: "length (full_words n) = div_ceil_64 n"
  by (simp add: full_words_def)

lemma root_full_eq:
  "root_full n = \<lparr> set_words = (if div_ceil_64 n \<noteq> 0 then Some (full_words n) else None), bit_len = n \<rparr>"
  by (simp add: root_full_def full_words_def Let_def)

lemma root_full_correct: "root_ok n (root_full n)" "elems (root_full n) = {..<n}"
proof -
  have "div_ceil_64 n = 0 \<longleftrightarrow> n = 0" by (auto simp: div_ceil_64_def)
  then show "root_ok n (root_full n)" "elems (root_full n) = {..<n}"
    unfolding root_full_eq using full_words_bit [of n]
    by (auto simp: root_ok_def elems_def word_slice_def full_words_length)
qed

lemma full_words_snoc: "0 < div_ceil_64 n \<Longrightarrow> full_words n = replicate (div_ceil_64 n - 1) (- 1) @ [tail_mask n]"
  by (rule nth_equalityI) (auto simp: full_words_def nth_append)

lemma covers_all_correct:
  assumes "root_ok n s"
  shows "covers_all s n \<longleftrightarrow> elems s = {..<n}"
proof -
  let ?ws = "word_slice s"
  have "covers_all s n \<longleftrightarrow> ?ws = full_words n"
  proof (cases "?ws = []")
    case True
    then show ?thesis using assms by (auto simp: covers_all_def full_words_def root_ok_def)
  next
    case False
    then have "?ws = full_words n \<longleftrightarrow> length ?ws = div_ceil_64 n \<and> butlast ?ws @ [last ?ws] = full_words n"
      using full_words_length [of n] by (metis append_butlast_last_id)
    also have "\<dots> \<longleftrightarrow> length ?ws = div_ceil_64 n \<and> last ?ws = tail_mask n \<and> (\<forall>w\<in>set (butlast ?ws). w = - 1)"
    proof (cases "length ?ws = div_ceil_64 n")
      case True
      with False have "butlast ?ws = replicate (div_ceil_64 n - 1) (- 1) \<longleftrightarrow> (\<forall>w\<in>set (butlast ?ws). w = - 1)"
        using replicate_eqI [of "butlast ?ws" "div_ceil_64 n - 1" "- 1"] by auto
      moreover have "full_words n = replicate (div_ceil_64 n - 1) (- 1) @ [tail_mask n]"
        using full_words_snoc [of n] False True by (metis length_greater_0_conv)
      ultimately show ?thesis unfolding append1_eq_conv by (simp only: append1_eq_conv) blast
    qed simp
    finally show ?thesis using False assms by (auto simp: covers_all_def root_ok_def)
  qed
  also have "\<dots> \<longleftrightarrow> elems s = {..<n}"
  proof
    assume "?ws = full_words n"
    then show "elems s = {..<n}" by (auto simp: elems_def full_words_bit)
  next
    assume "elems s = {..<n}"
    then have "s = root_full n" using root_ok_canonical [OF assms root_full_correct(1)] root_full_correct(2) by simp
    then show "?ws = full_words n" by (simp add: root_full_def word_slice_def Let_def full_words_def)
  qed
  finally show ?thesis .
qed


section \<open>Iteration\<close>

definition trailing_zeros :: "u64 \<Rightarrow> nat" where
  "trailing_zeros w = length (takeWhile (\<lambda>k. \<not> bit w k) [0..<64])"

lemma and_pred_less: "w \<noteq> 0 \<Longrightarrow> unat (w AND (w - 1)) < unat (w :: u64)"
proof -
  assume "w \<noteq> 0"
  then have "unat (w - 1) < unat w" by (simp add: unat_minus_one unat_gt_0)
  moreover have "unat (w AND (w - 1)) \<le> unat (w - 1)" by (simp add: word_and_le1 flip: word_le_nat_alt)
  ultimately show ?thesis by simp
qed

record root_iter =
  iter_words :: "u64 list"
  iter_bit_len :: nat
  word_index :: nat
  current_word :: u64

definition iter_ones :: "root_set \<Rightarrow> root_iter" where
  "iter_ones s =
     \<lparr> iter_words = word_slice s, iter_bit_len = bit_len s, word_index = 0,
       current_word = (case word_slice s of [] \<Rightarrow> 0 | w # _ \<Rightarrow> w) \<rparr>"

function iter_next :: "root_iter \<Rightarrow> nat option \<times> root_iter" where
  "iter_next it =
     (if length (iter_words it) \<le> word_index it then (None, it)
      else if current_word it \<noteq> 0 then
        (let bit_index = word_index it * 64 + trailing_zeros (current_word it);
             it' = it\<lparr>current_word := current_word it AND (current_word it - 1)\<rparr>
         in if bit_index < iter_bit_len it then (Some bit_index, it') else iter_next it')
      else
        (let next_index = word_index it + 1;
             it' = it\<lparr>word_index := next_index\<rparr>
         in iter_next (if next_index < length (iter_words it)
                       then it'\<lparr>current_word := iter_words it ! next_index\<rparr> else it')))"
  by auto
termination
  by (relation "measures [\<lambda>it. length (iter_words it) - word_index it, \<lambda>it. unat (current_word it)]")
    (auto simp: and_pred_less)

declare iter_next.simps [simp del]

lemma bit_pred_nat:
  "0 < x \<Longrightarrow> bit x n \<Longrightarrow> bit (x - 1 :: nat) n \<longleftrightarrow> (\<exists>m<n. bit x m)"
proof (induction n arbitrary: x)
  case 0
  then show ?case by (simp add: bit_0)
next
  case (Suc n)
  show ?case
  proof (cases "odd x")
    case True
    then have "(x - 1) div 2 = x div 2" by (auto elim: oddE)
    with Suc.prems True have "bit (x - 1) (Suc n)" by (simp add: bit_Suc)
    moreover have "bit x 0" using True by (simp add: bit_0)
    ultimately show ?thesis by blast
  next
    case False
    then have half: "(x - 1) div 2 = x div 2 - 1" "0 < x div 2" using Suc.prems(1) by (auto elim!: evenE)
    have "bit (x - 1) (Suc n) \<longleftrightarrow> (\<exists>m<n. bit (x div 2) m)"
      unfolding bit_Suc half(1) using Suc.IH [OF half(2)] Suc.prems(2) by (simp add: bit_Suc)
    also have "\<dots> \<longleftrightarrow> (\<exists>m<Suc n. bit x m)"
      using False by (auto simp: less_Suc_eq_0_disj bit_Suc bit_0)
    finally show ?thesis .
  qed
qed

lemma bit_pred_word:
  fixes w :: "'a :: len word"
  assumes "bit w n"
  shows "bit (w - 1) n \<longleftrightarrow> (\<exists>m<n. bit w m)"
proof -
  have "w \<noteq> 0" using assms by auto
  then have "unat (w - 1) = unat w - 1" "0 < unat w" by (simp_all add: unat_minus_one unat_gt_0)
  with assms bit_pred_nat [of "unat w" n] show ?thesis by (metis bit_unat)
qed

lemma trailing_zeros_facts:
  assumes "w \<noteq> 0"
  shows "bit w (trailing_zeros w)" "k < trailing_zeros w \<Longrightarrow> \<not> bit w k" "trailing_zeros w < 64"
proof -
  let ?t = "takeWhile (\<lambda>k. \<not> bit w k) [0..<64]"
  obtain b where b: "bit w b" "b < 64" using assms bit_imp_le_length [of w]
    by (auto simp: bit_eq_iff)
  then have lt: "trailing_zeros w < 64"
  proof -
    have "?t \<noteq> [0..<64]" using b by (subst takeWhile_eq_all_conv) auto
    then show ?thesis
      unfolding trailing_zeros_def using length_takeWhile_le [of "\<lambda>k. \<not> bit w k" "[0..<64]"]
      by (metis le_neq_implies_less length_upt minus_nat.diff_0 take_all_iff takeWhile_eq_take order_refl)
  qed
  then show "trailing_zeros w < 64" .
  have "\<not> \<not> bit w ([0..<64] ! length ?t)"
    using lt by (intro nth_length_takeWhile) (simp add: trailing_zeros_def)
  then show "bit w (trailing_zeros w)" using lt by (simp add: trailing_zeros_def)
  assume "k < trailing_zeros w"
  then have "?t ! k \<in> set ?t" "?t ! k = [0..<64] ! k"
    by (auto simp: trailing_zeros_def intro: takeWhile_nth nth_mem)
  then have "\<not> bit w ([0..<64] ! k)" by (metis (mono_tags, lifting) set_takeWhileD)
  with \<open>k < trailing_zeros w\<close> lt show "\<not> bit w k" by simp
qed

lemma bit_clear_lowest:
  assumes "(w :: u64) \<noteq> 0"
  shows "bit (w AND (w - 1)) k \<longleftrightarrow> bit w k \<and> k \<noteq> trailing_zeros w"
proof (cases "bit w k")
  case True
  have "(\<exists>m<k. bit w m) \<longleftrightarrow> k \<noteq> trailing_zeros w"
    using trailing_zeros_facts [OF assms] True by (metis linorder_neqE_nat)
  with True bit_pred_word [OF True] show ?thesis by (simp add: bit_simps)
qed (simp add: bit_simps)

text \<open>The positions an iterator has still to report.\<close>

definition iter_rest :: "root_iter \<Rightarrow> nat set" where
  "iter_rest it = {i. i div 64 < length (iter_words it) \<and>
     (if i div 64 = word_index it then bit (current_word it) (i mod 64)
      else word_index it < i div 64 \<and> bit (iter_words it ! (i div 64)) (i mod 64))}"

definition iter_ok :: "root_iter \<Rightarrow> bool" where
  "iter_ok it \<longleftrightarrow> (\<forall>i\<in>iter_rest it. i < iter_bit_len it)"

lemma iter_next_correct:
  "iter_ok it \<Longrightarrow>
     (case iter_next it of
        (None, it') \<Rightarrow> iter_rest it = {}
      | (Some i, it') \<Rightarrow> i \<in> iter_rest it \<and> (\<forall>j\<in>iter_rest it. i \<le> j) \<and> iter_rest it' = iter_rest it - {i} \<and>
          iter_ok it')"
proof (induction it rule: iter_next.induct)
  case (1 it)
  consider (exhausted) "length (iter_words it) \<le> word_index it"
    | (bit) "word_index it < length (iter_words it)" "current_word it \<noteq> 0"
    | (advance) "word_index it < length (iter_words it)" "current_word it = 0" by linarith
  then show ?case
  proof cases
    case exhausted
    then show ?thesis by (subst iter_next.simps) (auto simp: iter_rest_def)
  next
    case bit
    define w t it' where "w = current_word it" and "t = trailing_zeros w"
      and "it' = it\<lparr>current_word := w AND (w - 1)\<rparr>"
    note tz = trailing_zeros_facts [OF bit(2), folded w_def, folded t_def]
    let ?i = "word_index it * 64 + t"
    have at: "?i div 64 = word_index it" "?i mod 64 = t" using tz(3) by auto
    have mem: "?i \<in> iter_rest it" using bit tz(1) unfolding iter_rest_def mem_Collect_eq at by (simp add: w_def)
    then have lt: "?i < iter_bit_len it" using 1(3) by (simp add: iter_ok_def)
    have rest: "iter_rest it' = iter_rest it - {?i}"
    proof -
      have "j = ?i \<longleftrightarrow> j div 64 = word_index it \<and> j mod 64 = t" for j using at by (metis div_mult_mod_eq)
      then show ?thesis
        using bit_clear_lowest [OF bit(2)] by (auto simp: iter_rest_def it'_def w_def t_def)
    qed
    have least: "?i \<le> j" if "j \<in> iter_rest it" for j
    proof (cases "j div 64 = word_index it")
      case True
      with that have "bit w (j mod 64)" by (simp add: iter_rest_def w_def)
      then have "t \<le> j mod 64" using tz(2) by (meson not_less)
      with True show ?thesis by (metis add_left_mono div_mult_mod_eq)
    next
      case False
      with that have "Suc (word_index it) \<le> j div 64" by (simp add: iter_rest_def)
      then have "Suc (word_index it) * 64 \<le> j div 64 * 64" by (rule mult_le_mono1)
      also have "\<dots> \<le> j" by (rule div_times_less_eq_dividend)
      finally show ?thesis using tz(3) by simp
    qed
    have "iter_next it = (Some ?i, it')"
      using bit lt by (subst iter_next.simps) (simp add: Let_def w_def t_def it'_def)
    moreover have "iter_ok it'"
      using 1(3) rest by (auto simp: iter_ok_def it'_def)
    ultimately show ?thesis using mem rest least by simp
  next
    case advance
    define it' where "it' = it\<lparr>word_index := word_index it + 1\<rparr>"
    define it'' where "it'' = (if word_index it + 1 < length (iter_words it)
      then it'\<lparr>current_word := iter_words it ! (word_index it + 1)\<rparr> else it')"
    have run: "iter_next it = iter_next it''"
      using advance by (subst iter_next.simps) (simp add: Let_def it'_def it''_def)
    have rest: "iter_rest it'' = iter_rest it"
    proof (rule set_eqI)
      fix i :: nat
      define q r where "q = i div 64" and "r = i mod 64"
      show "i \<in> iter_rest it'' \<longleftrightarrow> i \<in> iter_rest it"
        unfolding iter_rest_def mem_Collect_eq q_def [symmetric] r_def [symmetric]
        using advance by (cases "q = Suc (word_index it)") (auto simp: it''_def it'_def)
    qed
    then have "iter_ok it''" using 1(3) by (simp add: iter_ok_def it''_def it'_def)
    then have "case iter_next it'' of (None, it') \<Rightarrow> iter_rest it'' = {}
      | (Some i, it') \<Rightarrow> i \<in> iter_rest it'' \<and> (\<forall>j\<in>iter_rest it''. i \<le> j) \<and>
          iter_rest it' = iter_rest it'' - {i} \<and> iter_ok it'"
      using 1(2) advance unfolding it''_def it'_def Let_def by simp
    then show ?thesis unfolding run rest .
  qed
qed

fun iter_collect :: "nat \<Rightarrow> root_iter \<Rightarrow> nat list option" where
  "iter_collect 0 it = None"
| "iter_collect (Suc fuel) it =
     (case iter_next it of
        (None, _) \<Rightarrow> Some []
      | (Some i, it') \<Rightarrow> map_option ((#) i) (iter_collect fuel it'))"

lemma iter_collect_correct:
  "iter_ok it \<Longrightarrow> finite (iter_rest it) \<Longrightarrow> card (iter_rest it) < fuel \<Longrightarrow>
     iter_collect fuel it = Some (sorted_list_of_set (iter_rest it))"
proof (induction fuel arbitrary: it)
  case (Suc fuel)
  note step = iter_next_correct [OF Suc.prems(1)]
  obtain o' it' where nx: "iter_next it = (o', it')" by (cases "iter_next it")
  show ?case
  proof (cases o')
    case None
    with step nx show ?thesis by simp
  next
    case (Some i)
    with step nx have i: "i \<in> iter_rest it" "\<forall>j\<in>iter_rest it. i \<le> j"
      "iter_rest it' = iter_rest it - {i}" "iter_ok it'" by simp_all
    have "card (iter_rest it') < fuel" "finite (iter_rest it')" using i Suc.prems card_gt_0_iff [of "iter_rest it"] by (auto simp: card_Diff_singleton)
    with Suc.IH [OF i(4)] have "iter_collect fuel it' = Some (sorted_list_of_set (iter_rest it - {i}))" by (simp add: i(3))
    moreover have "sorted_list_of_set (iter_rest it) = i # sorted_list_of_set (iter_rest it - {i})"
      using i(1,2) Suc.prems(2)
      by (metis Min_eqI emptyE sorted_list_of_set_nonempty)
    ultimately show ?thesis using nx Some by simp
  qed
qed simp

lemma iter_ones_collect:
  assumes "root_ok n s"
  shows "iter_collect (n + 1) (iter_ones s) = Some (sorted_list_of_set (elems s))"
proof -
  have rest: "iter_rest (iter_ones s) = elems s"
  proof (rule set_eqI)
    fix i :: nat
    define q r where "q = i div 64" and "r = i mod 64"
    show "i \<in> iter_rest (iter_ones s) \<longleftrightarrow> i \<in> elems s"
      unfolding iter_rest_def elems_def words_bit_def mem_Collect_eq q_def [symmetric] r_def [symmetric]
      by (cases "word_slice s"; cases q) (auto simp: iter_ones_def)
  qed
  have sub: "elems s \<subseteq> {..<n}" using elems_bounded [OF assms] by auto
  then have "finite (elems s)" "card (elems s) \<le> n"
    using finite_subset [OF sub] card_mono [OF _ sub] by simp_all
  moreover have "iter_ok (iter_ones s)"
    using sub assms unfolding iter_ok_def rest by (auto simp: iter_ones_def root_ok_def)
  ultimately show ?thesis using iter_collect_correct [of "iter_ones s" "n + 1"] by (simp add: rest)
qed

section \<open>The interface to the dataflow states\<close>

text \<open>What borrow states rely on: canonical finite subsets of a universe, where union reports whether
  it added a member.\<close>

locale bounded_set =
  fixes ok :: "nat \<Rightarrow> 's \<Rightarrow> bool"
    and members :: "'s \<Rightarrow> nat set"
    and join :: "'s \<Rightarrow> 's \<Rightarrow> bool \<times> 's"
    and meet :: "'s \<Rightarrow> 's \<Rightarrow> 's"
  assumes bounded: "ok n s \<Longrightarrow> members s \<subseteq> {..<n}"
    and canonical: "ok n s \<Longrightarrow> ok n t \<Longrightarrow> members s = members t \<Longrightarrow> s = t"
    and join_ok: "ok n s \<Longrightarrow> ok n t \<Longrightarrow> ok n (snd (join t s))"
    and members_join: "ok n s \<Longrightarrow> ok n t \<Longrightarrow> members (snd (join t s)) = members s \<union> members t"
    and join_changed: "ok n s \<Longrightarrow> ok n t \<Longrightarrow> fst (join t s) \<longleftrightarrow> \<not> members t \<subseteq> members s"
    and meet_ok: "ok n s \<Longrightarrow> ok n t \<Longrightarrow> ok n (meet t s)"
    and members_meet: "ok n s \<Longrightarrow> ok n t \<Longrightarrow> members (meet t s) = members s \<inter> members t"
begin

lemma finite_members: "ok n s \<Longrightarrow> finite (members s)"
  using bounded finite_subset by blast

lemma card_members: "ok n s \<Longrightarrow> card (members s) \<le> n"
  using card_mono [OF _ bounded, of n s] by simp

lemma join_unchanged:
  assumes "ok n s" "ok n t"
  shows "fst (join t s) \<longleftrightarrow> snd (join t s) \<noteq> s"
proof -
  have "snd (join t s) = s \<longleftrightarrow> members t \<subseteq> members s"
    using canonical [OF join_ok [OF assms] assms(1)] members_join [OF assms] by auto
  then show ?thesis using join_changed [OF assms] by simp
qed

lemma join_commute: "ok n s \<Longrightarrow> ok n t \<Longrightarrow> snd (join t s) = snd (join s t)"
  by (rule canonical [of n]) (auto simp: join_ok [of n] members_join [of n])

lemma join_assoc:
  "ok n s \<Longrightarrow> ok n t \<Longrightarrow> ok n u \<Longrightarrow> snd (join u (snd (join t s))) = snd (join (snd (join u t)) s)"
  by (rule canonical [of n]) (auto simp: join_ok [of n] members_join [of n])

lemma join_idem: "ok n s \<Longrightarrow> snd (join s s) = s"
  by (rule canonical [of n]) (auto simp: join_ok [of n] members_join [of n])

lemma join_grows_card:
  assumes "ok n s" "ok n t" "fst (join t s)"
  shows "card (members s) < card (members (snd (join t s)))"
proof (rule psubset_card_mono)
  show "finite (members (snd (join t s)))" using finite_members join_ok assms by blast
  show "members s \<subset> members (snd (join t s))"
    using assms members_join [OF assms(1,2)] join_changed [OF assms(1,2)] by auto
qed

lemma meet_distrib:
  "ok n s \<Longrightarrow> ok n t \<Longrightarrow> ok n u \<Longrightarrow> meet u (snd (join t s)) = snd (join (meet u t) (meet u s))"
  by (rule canonical [of n]) (auto simp: join_ok [of n] meet_ok [of n] members_join [of n] members_meet [of n])

end

interpretation root_bits: bounded_set root_ok elems "union_with shared" "intersect_with shared" for shared
proof unfold_locales
  fix n s t
  assume st: "root_ok n s" "root_ok n t"
  show "root_ok n (snd (union_with shared t s))" "elems (snd (union_with shared t s)) = elems s \<union> elems t"
    "fst (union_with shared t s) \<longleftrightarrow> \<not> elems t \<subseteq> elems s"
    using union_with_correct [OF st] by blast+
  show "root_ok n (intersect_with shared t s)" "elems (intersect_with shared t s) = elems s \<inter> elems t"
    using intersect_with_correct [OF st] by blast+
  show "elems s = elems t \<Longrightarrow> s = t" using root_ok_canonical [OF st] .
next
  fix n s
  assume "root_ok n s"
  then show "elems s \<subseteq> {..<n}" using elems_bounded by auto
qed

section \<open>Properties\<close>

text \<open>C35. On well-formed sets of one universe, every operation computes the set operation it names and
  keeps the representation invariant, whether or not the words are shared; union reports exactly
  whether it added a member.\<close>

theorem root_set_refines_sets:
  assumes "root_ok n s" and "root_ok n t"
  shows "(\<forall>i. root_contains s i \<longleftrightarrow> i \<in> elems s) \<and>
    (root_is_empty s \<longleftrightarrow> elems s = {}) \<and> (covers_all s n \<longleftrightarrow> elems s = {..<n}) \<and>
    (intersects s t \<longleftrightarrow> elems s \<inter> elems t \<noteq> {}) \<and> (s = t \<longleftrightarrow> elems s = elems t) \<and>
    root_ok n (root_insert shared i s) \<and>
    elems (root_insert shared i s) = (if i < n then insert i (elems s) else elems s) \<and>
    root_ok n (snd (union_with shared t s)) \<and> elems (snd (union_with shared t s)) = elems s \<union> elems t \<and>
    (fst (union_with shared t s) \<longleftrightarrow> \<not> elems t \<subseteq> elems s) \<and>
    root_ok n (intersect_with shared t s) \<and> elems (intersect_with shared t s) = elems s \<inter> elems t \<and>
    root_ok n (subtract_with shared t s) \<and> elems (subtract_with shared t s) = elems s - elems t"
  using root_contains_iff [OF assms(1)] root_is_empty_iff [OF assms(1)] covers_all_correct [OF assms(1)]
    intersects_correct [OF assms] root_ok_canonical [OF assms] root_insert_correct [OF assms(1)]
    union_with_correct [OF assms] intersect_with_correct [OF assms] subtract_with_correct [OF assms]
  by metis

theorem root_set_refines_sets_witness:
  "elems (snd (union_with True (root_full 70) (root_insert False 3 (root_empty 70)))) = {..<70}"
proof -
  have ok: "root_ok 70 (root_insert False 3 (root_empty 70))" "root_ok 70 (root_full 70)"
    using root_insert_correct root_empty_ok root_full_correct by blast+
  have "elems (snd (union_with True (root_full 70) (root_insert False 3 (root_empty 70)))) =
      elems (root_insert False 3 (root_empty 70)) \<union> elems (root_full 70)"
    using root_set_refines_sets [OF ok, of True 0] by blast
  then show ?thesis
    using root_insert_correct(2) [where n = 70 and shared = False and i = 3, OF root_empty_ok(1)] by (auto simp: root_full_correct root_empty_ok)
qed

text \<open>The iterator of a well-formed set ends, and yields exactly its members in increasing
  order.\<close>

theorem iter_ones_sorted_members:
  assumes "root_ok n s"
  shows "iter_collect (n + 1) (iter_ones s) = Some (sorted_list_of_set (elems s))"
  by (rule iter_ones_collect [OF assms])

theorem iter_ones_sorted_members_witness:
  "iter_collect 71 (iter_ones (root_insert False 65 (root_empty 70))) = Some [65]"
proof -
  have "root_ok 70 (root_insert False 65 (root_empty 70))"
    "elems (root_insert False 65 (root_empty 70)) = {65}"
    using root_insert_correct [where n = 70 and shared = False and i = 65, OF root_empty_ok(1)] by (simp_all add: root_empty_ok)
  with iter_ones_sorted_members [OF this(1)] show ?thesis by simp
qed

end
