(* ===== verification/Borrow_State.thy ===== *)
theory Borrow_State
  imports Root_Set
begin

unbundle bit_operations_syntax

text \<open>
  The abstract states of the borrow checker's forward analysis,
  \<open>analysis/borrow_checker/state.rs\<close> and the fact lattices of \<open>types.rs\<close>: per-local binding modes and
  root sets, the in-place join at control-flow edges, narrowing at lexical region exits, effective
  roots, and the merge of facts published per value.

  A state is the list of its locals; the root sets are those of \<open>Root_Set\<close>, used only through the
  facts of its \<open>bounded_set\<close> interpretation and operation lemmas. A \<open>Vec\<close> index outside the
  function's locals is \<open>None\<close>.
\<close>

section \<open>Facts published per value\<close>

type_synonym local_id = nat

datatype optional_transfer_status = NotAttempted | Borrow | Transfer

fun merge_completed_use :: "optional_transfer_status \<Rightarrow> optional_transfer_status \<Rightarrow> optional_transfer_status" where
  "merge_completed_use NotAttempted NotAttempted = NotAttempted"
| "merge_completed_use Transfer Transfer = Transfer"
| "merge_completed_use _ _ = Borrow"

fun merge_transfer :: "optional_transfer_status \<Rightarrow> optional_transfer_status \<Rightarrow> optional_transfer_status" where
  "merge_transfer NotAttempted status = status"
| "merge_transfer status NotAttempted = status"
| "merge_transfer Borrow Borrow = Borrow"
| "merge_transfer Transfer Transfer = Transfer"
| "merge_transfer Borrow Transfer = Borrow"
| "merge_transfer Transfer Borrow = Borrow"

datatype value_access_classification = NoAccess | SharedRead | MutableArgument | Mixed

fun merge_classification ::
  "value_access_classification \<Rightarrow> value_access_classification \<Rightarrow> value_access_classification" where
  "merge_classification NoAccess rhs = rhs"
| "merge_classification lhs NoAccess = lhs"
| "merge_classification SharedRead SharedRead = SharedRead"
| "merge_classification MutableArgument MutableArgument = MutableArgument"
| "merge_classification _ _ = Mixed"

record value_borrow_fact =
  classification :: value_access_classification
  fact_roots :: "local_id list"
  optional_transfer :: optional_transfer_status

definition merge_fact :: "value_borrow_fact \<Rightarrow> value_borrow_fact \<Rightarrow> value_borrow_fact" where
  "merge_fact self other =
     \<lparr> classification = merge_classification (classification self) (classification other),
       fact_roots = remdups_adj (sort (fact_roots self @ fact_roots other)),
       optional_transfer = merge_completed_use (optional_transfer self) (optional_transfer other) \<rparr>"

section \<open>Local modes\<close>

datatype local_mode = LocalMode (mode_bits: "8 word")

definition mode_uninit :: local_mode where "mode_uninit = LocalMode 1"
definition mode_slot :: local_mode where "mode_slot = LocalMode 2"
definition mode_alias :: local_mode where "mode_alias = LocalMode 4"

definition mode_contains :: "local_mode \<Rightarrow> local_mode \<Rightarrow> bool" where
  "mode_contains m other \<longleftrightarrow> (mode_bits m AND mode_bits other) = mode_bits other"

definition mode_union :: "local_mode \<Rightarrow> local_mode \<Rightarrow> local_mode" where
  "mode_union m other = LocalMode (mode_bits m OR mode_bits other)"

definition is_definitely_uninit :: "local_mode \<Rightarrow> bool" where
  "is_definitely_uninit m \<longleftrightarrow> mode_bits m = mode_bits mode_uninit"

section \<open>Local states\<close>

record local_state =
  mode :: local_mode
  value_roots :: root_set
  direct_alias_roots :: root_set

definition local_uninit :: "nat \<Rightarrow> local_state" where
  "local_uninit n = \<lparr> mode = mode_uninit, value_roots = root_empty n, direct_alias_roots = root_empty n \<rparr>"

definition local_slot :: "nat \<Rightarrow> local_state" where
  "local_slot n = \<lparr> mode = mode_slot, value_roots = root_empty n, direct_alias_roots = root_empty n \<rparr>"

definition slot_with_value_roots :: "root_set \<Rightarrow> root_set \<Rightarrow> local_state" where
  "slot_with_value_roots vr dr = \<lparr> mode = mode_slot, value_roots = vr, direct_alias_roots = dr \<rparr>"

definition alias_with_direct :: "root_set \<Rightarrow> root_set \<Rightarrow> local_state" where
  "alias_with_direct vr dr = \<lparr> mode = mode_alias, value_roots = vr, direct_alias_roots = dr \<rparr>"

definition local_reset :: "local_mode \<Rightarrow> local_state \<Rightarrow> local_state" where
  "local_reset m l =
     \<lparr> mode = m, value_roots = root_clear (value_roots l), direct_alias_roots = root_clear (direct_alias_roots l) \<rparr>"

definition has_value_aliases :: "local_state \<Rightarrow> bool" where
  "has_value_aliases l \<longleftrightarrow> \<not> root_is_empty (value_roots l)"

definition is_alias_only :: "local_state \<Rightarrow> bool" where
  "is_alias_only l \<longleftrightarrow> mode_contains (mode l) mode_alias \<and> \<not> mode_contains (mode l) mode_slot"

section \<open>Borrow states\<close>

type_synonym borrow_state = "local_state list"

definition new_uninitialized :: "nat \<Rightarrow> borrow_state" where
  "new_uninitialized n = map (\<lambda>_. local_uninit n) [0..<n]"

text \<open>Indexing \<open>locals[i]\<close> panics outside the vector: \<open>None\<close>.\<close>

definition state_at :: "borrow_state \<Rightarrow> nat \<Rightarrow> local_state option" where
  "state_at st i = (if i < length st then Some (st ! i) else None)"

definition update_local_state :: "nat \<Rightarrow> local_state \<Rightarrow> borrow_state \<Rightarrow> borrow_state option" where
  "update_local_state i l st = (if i < length st then Some (st[i := l]) else None)"

definition initialize_parameter :: "nat \<Rightarrow> borrow_state \<Rightarrow> borrow_state option" where
  "initialize_parameter i st = update_local_state i (local_slot (length st)) st"

definition effective_root_sources :: "borrow_state \<Rightarrow> nat \<Rightarrow> (bool \<times> bool) option" where
  "effective_root_sources st i =
     map_option (\<lambda>l.
       let has_slot = mode_contains (mode l) mode_slot;
           has_alias = mode_contains (mode l) mode_alias;
           has_roots = \<not> root_is_empty (value_roots l)
       in (has_slot \<and> (has_alias \<or> \<not> has_roots), has_alias \<or> (has_slot \<and> has_roots)))
     (state_at st i)"

definition effective_roots :: "borrow_state \<Rightarrow> nat \<Rightarrow> root_set option" where
  "effective_roots st i =
     map_option (\<lambda>(includes_self, includes_value_roots).
       let roots = root_empty (length st);
           roots' = (if includes_self then root_insert False i roots else roots)
       in if includes_value_roots then snd (union_with False (value_roots (st ! i)) roots') else roots')
     (effective_root_sources st i)"

definition effective_root_contains :: "borrow_state \<Rightarrow> nat \<Rightarrow> nat \<Rightarrow> bool option" where
  "effective_root_contains st i r =
     map_option (\<lambda>(includes_self, includes_value_roots).
       (includes_self \<and> r = i) \<or> (includes_value_roots \<and> root_contains (value_roots (st ! i)) r))
     (effective_root_sources st i)"

text \<open>\<open>sh k\<close> tells whether the value roots and the direct-alias roots of local \<open>k\<close> share their words
  with a clone when an operation reaches them.\<close>

type_synonym sharing = "nat \<Rightarrow> bool \<times> bool"

definition join_local :: "bool \<times> bool \<Rightarrow> local_state \<Rightarrow> local_state \<Rightarrow> bool \<times> local_state" where
  "join_local sh left right =
     (let m = mode_union (mode left) (mode right);
          (cv, vr) = union_with (fst sh) (value_roots right) (value_roots left);
          (cd, dr) = union_with (snd sh) (direct_alias_roots right) (direct_alias_roots left)
      in (m \<noteq> mode left \<or> cv \<or> cd, \<lparr> mode = m, value_roots = vr, direct_alias_roots = dr \<rparr>))"

fun join_locals :: "sharing \<Rightarrow> nat \<Rightarrow> borrow_state \<Rightarrow> borrow_state \<Rightarrow> bool \<times> borrow_state" where
  "join_locals sh k (l # ls) (r # rs) =
     (let (c, l') = join_local (sh k) l r;
          (cs, ls') = join_locals sh (k + 1) ls rs
      in (c \<or> cs, l' # ls'))"
| "join_locals sh k ls _ = (False, ls)"

definition join_in_place :: "sharing \<Rightarrow> borrow_state \<Rightarrow> borrow_state \<Rightarrow> bool \<times> borrow_state" where
  "join_in_place sh other st = join_locals sh 0 st other"

definition kill_local :: "bool \<times> bool \<Rightarrow> root_set \<Rightarrow> nat \<Rightarrow> local_state \<Rightarrow> local_state" where
  "kill_local sh visible i l =
     (if \<not> root_contains visible i then local_reset mode_uninit l
      else if root_is_empty (value_roots l) then l
      else
        (let l' = l\<lparr>value_roots := intersect_with (fst sh) visible (value_roots l),
                    direct_alias_roots := intersect_with (snd sh) visible (direct_alias_roots l)\<rparr>
         in if root_is_empty (value_roots l')
            then local_reset (if mode_contains (mode l') mode_slot then mode_slot else mode_uninit) l'
            else l'))"

definition kill_sweep :: "sharing \<Rightarrow> root_set \<Rightarrow> borrow_state \<Rightarrow> borrow_state" where
  "kill_sweep sh visible st = map (\<lambda>(i, l). kill_local (sh i) visible i l) (enumerate 0 st)"

definition kill_invisible :: "sharing \<Rightarrow> root_set \<Rightarrow> borrow_state \<Rightarrow> borrow_state" where
  "kill_invisible sh visible st = (if covers_all visible (length st) then st else kill_sweep sh visible st)"

section \<open>Merging facts\<close>

lemma merge_completed_use_eq: "merge_completed_use a b = (if a = b then a else Borrow)"
  by (cases a; cases b) simp_all

lemma merge_transfer_laws:
  "merge_transfer a a = a" "merge_transfer a b = merge_transfer b a"
  "merge_transfer (merge_transfer a b) c = merge_transfer a (merge_transfer b c)"
  "merge_transfer a b = Transfer \<longleftrightarrow> a \<noteq> Borrow \<and> b \<noteq> Borrow \<and> (a = Transfer \<or> b = Transfer)"
  by (cases a; cases b; cases c; simp)+

lemma merge_classification_laws:
  "merge_classification a a = a" "merge_classification a b = merge_classification b a"
  "merge_classification (merge_classification a b) c = merge_classification a (merge_classification b c)"
  by (cases a; cases b; cases c; simp)+

lemma distinct_remdups_adj: "sorted (xs :: nat list) \<Longrightarrow> distinct (remdups_adj xs)"
  by (induction xs rule: remdups_adj.induct) fastforce+

lemma remdups_adj_sort: "remdups_adj (sort xs) = sorted_list_of_set (set (xs :: nat list))"
  by (rule sorted_distinct_set_unique) (auto simp: sorted_remdups_adj distinct_remdups_adj)

lemma merge_fact_eq:
  "merge_fact a b =
     \<lparr> classification = merge_classification (classification a) (classification b),
       fact_roots = sorted_list_of_set (set (fact_roots a) \<union> set (fact_roots b)),
       optional_transfer = merge_completed_use (optional_transfer a) (optional_transfer b) \<rparr>"
  by (simp add: merge_fact_def remdups_adj_sort)

text \<open>Merging value facts is commutative and associative, so the published fact of a value row
  shared by several contexts does not depend on the order the contexts are visited in; a transfer
  is published only when every context proved one.\<close>

theorem merge_fact_order_independent:
  "merge_fact a b = merge_fact b a \<and>
   merge_fact (merge_fact a b) c = merge_fact a (merge_fact b c) \<and>
   set (fact_roots (merge_fact a b)) = set (fact_roots a) \<union> set (fact_roots b) \<and>
   (optional_transfer (merge_fact a b) = Transfer \<longleftrightarrow>
      optional_transfer a = Transfer \<and> optional_transfer b = Transfer)"
  using merge_classification_laws(2) [of "classification a" "classification b"]
    merge_classification_laws(3) [of "classification a" "classification b" "classification c"]
  by (auto simp: merge_fact_eq merge_completed_use_eq Un_commute Un_assoc Un_left_commute)


section \<open>The lattice of borrow states\<close>

definition mode_set :: "local_mode \<Rightarrow> nat set" where
  "mode_set m = {k. bit (mode_bits m) k}"

definition local_ok :: "nat \<Rightarrow> local_state \<Rightarrow> bool" where
  "local_ok n l \<longleftrightarrow> root_ok n (value_roots l) \<and> root_ok n (direct_alias_roots l) \<and> mode_set (mode l) \<subseteq> {..<3}"

definition state_ok :: "nat \<Rightarrow> borrow_state \<Rightarrow> bool" where
  "state_ok n st \<longleftrightarrow> length st = n \<and> (\<forall>l\<in>set st. local_ok n l)"

definition local_le :: "local_state \<Rightarrow> local_state \<Rightarrow> bool" where
  "local_le a b \<longleftrightarrow> mode_set (mode a) \<subseteq> mode_set (mode b) \<and> elems (value_roots a) \<subseteq> elems (value_roots b) \<and>
     elems (direct_alias_roots a) \<subseteq> elems (direct_alias_roots b)"

definition state_le :: "borrow_state \<Rightarrow> borrow_state \<Rightarrow> bool" where
  "state_le = list_all2 local_le"

lemma mode_word_eq_iff: "(a :: 8 word) = b \<longleftrightarrow> (\<forall>k. bit a k = bit b k)"
  by (auto intro: bit_word_eqI)

lemma mode_set_inject: "mode_set a = mode_set b \<longleftrightarrow> a = b"
  by (cases a; cases b) (auto simp: mode_set_def mode_word_eq_iff set_eq_iff)

lemma mode_set_union: "mode_set (mode_union a b) = mode_set a \<union> mode_set b"
  by (auto simp: mode_set_def mode_union_def bit_simps)

lemma mode_set_consts: "mode_set mode_uninit = {0}" "mode_set mode_slot = {1}" "mode_set mode_alias = {2}"
proof -
  have "bit (2 ^ j :: 8 word) k \<longleftrightarrow> k = j" if "j < 8" for j k
    using that by (auto simp: bit_simps)
  from this [of 0] this [of 1] this [of 2]
  show "mode_set mode_uninit = {0}" "mode_set mode_slot = {1}" "mode_set mode_alias = {2}"
    by (auto simp: mode_set_def mode_uninit_def mode_slot_def mode_alias_def)
qed

lemma mode_contains_iff: "mode_contains m other \<longleftrightarrow> mode_set other \<subseteq> mode_set m"
  by (auto simp: mode_contains_def mode_set_def mode_word_eq_iff bit_simps)

lemma local_le_antisym: "local_ok n a \<Longrightarrow> local_ok n b \<Longrightarrow> local_le a b \<Longrightarrow> local_le b a \<Longrightarrow> a = b"
  using root_ok_canonical [of n "value_roots a" "value_roots b"]
    root_ok_canonical [of n "direct_alias_roots a" "direct_alias_roots b"] mode_set_inject [of "mode a" "mode b"]
  by (cases a; cases b) (auto simp: local_le_def local_ok_def)

lemma local_le_refl [simp]: "local_le a a" by (simp add: local_le_def)

lemma local_le_trans: "local_le a b \<Longrightarrow> local_le b c \<Longrightarrow> local_le a c"
  by (auto simp: local_le_def)

lemma join_local_eq:
  "join_local sh l r =
     (mode_union (mode l) (mode r) \<noteq> mode l \<or> fst (union_with (fst sh) (value_roots r) (value_roots l)) \<or>
        fst (union_with (snd sh) (direct_alias_roots r) (direct_alias_roots l)),
      \<lparr> mode = mode_union (mode l) (mode r),
        value_roots = snd (union_with (fst sh) (value_roots r) (value_roots l)),
        direct_alias_roots = snd (union_with (snd sh) (direct_alias_roots r) (direct_alias_roots l)) \<rparr>)"
  by (simp add: join_local_def Let_def split: prod.splits)

lemma join_local_correct:
  assumes "local_ok n l" "local_ok n r"
  shows "local_ok n (snd (join_local sh l r))" "local_le l (snd (join_local sh l r))"
    "local_le r (snd (join_local sh l r))"
    "local_le l u \<Longrightarrow> local_le r u \<Longrightarrow> local_le (snd (join_local sh l r)) u"
    "fst (join_local sh l r) \<longleftrightarrow> \<not> local_le r l"
proof -
  have v: "root_ok n (value_roots l)" "root_ok n (value_roots r)"
    and d: "root_ok n (direct_alias_roots l)" "root_ok n (direct_alias_roots r)"
    and m: "mode_set (mode l) \<subseteq> {..<3}" "mode_set (mode r) \<subseteq> {..<3}"
    using assms by (auto simp: local_ok_def)
  note uv = union_with_correct [OF v, of "fst sh"] and ud = union_with_correct [OF d, of "snd sh"]
  have mm: "mode_union (mode l) (mode r) \<noteq> mode l \<longleftrightarrow> \<not> mode_set (mode r) \<subseteq> mode_set (mode l)"
    using mode_set_inject [of "mode_union (mode l) (mode r)" "mode l"] by (auto simp: mode_set_union)
  show "local_ok n (snd (join_local sh l r))"
    using uv ud m by (auto simp: join_local_eq local_ok_def mode_set_union)
  show "local_le l (snd (join_local sh l r))" "local_le r (snd (join_local sh l r))"
    "local_le l u \<Longrightarrow> local_le r u \<Longrightarrow> local_le (snd (join_local sh l r)) u"
    using uv ud by (auto simp: join_local_eq local_le_def mode_set_union)
  show "fst (join_local sh l r) \<longleftrightarrow> \<not> local_le r l"
    using uv ud mm by (auto simp: join_local_eq local_le_def)
qed

lemma join_locals_eq:
  "length st = length other \<Longrightarrow>
     join_locals sh k st other =
       ((\<exists>i<length st. fst (join_local (sh (k + i)) (st ! i) (other ! i))),
        map (\<lambda>i. snd (join_local (sh (k + i)) (st ! i) (other ! i))) [0..<length st])"
proof (induction st other arbitrary: k rule: list_induct2)
  case (Cons l ls r rs)
  have "(\<exists>i<Suc (length ls). P i) \<longleftrightarrow> P 0 \<or> (\<exists>i<length ls. P (Suc i))" for P
    by (auto simp: less_Suc_eq_0_disj)
  moreover have "[0..<Suc (length ls)] = 0 # map Suc [0..<length ls]" by (simp add: map_Suc_upt upt_conv_Cons del: upt_Suc)
  ultimately show ?case by (simp add: Cons.IH comp_def del: upt_Suc split: prod.splits)
qed simp

lemma join_in_place_eq:
  assumes "length st = n" "length other = n"
  shows "join_in_place sh other st =
    ((\<exists>i<n. fst (join_local (sh i) (st ! i) (other ! i))),
     map (\<lambda>i. snd (join_local (sh i) (st ! i) (other ! i))) [0..<n])"
  using join_locals_eq [of st other sh 0] assms by (simp add: join_in_place_def)

lemma state_okD: "state_ok n st \<Longrightarrow> i < n \<Longrightarrow> local_ok n (st ! i)"
  by (auto simp: state_ok_def)

lemma state_le_iff:
  "length a = n \<Longrightarrow> length b = n \<Longrightarrow> state_le a b \<longleftrightarrow> (\<forall>i<n. local_le (a ! i) (b ! i))"
  by (auto simp: state_le_def list_all2_conv_all_nth)

lemma join_in_place_correct:
  assumes "state_ok n st" "state_ok n other"
  shows "state_ok n (snd (join_in_place sh other st))" "state_le st (snd (join_in_place sh other st))"
    "state_le other (snd (join_in_place sh other st))"
    "state_le st u \<Longrightarrow> state_le other u \<Longrightarrow> state_le (snd (join_in_place sh other st)) u"
    "fst (join_in_place sh other st) \<longleftrightarrow> \<not> state_le other st"
proof -
  have len: "length st = n" "length other = n" using assms by (auto simp: state_ok_def)
  note jl = join_local_correct [OF state_okD [OF assms(1)] state_okD [OF assms(2)]]
  note eq = join_in_place_eq [OF len]
  show "state_ok n (snd (join_in_place sh other st))" unfolding eq using jl(1) by (auto simp: state_ok_def)
  show "state_le st (snd (join_in_place sh other st))" "state_le other (snd (join_in_place sh other st))"
    unfolding eq using jl(2,3) by (simp_all add: state_le_iff len)
  show "fst (join_in_place sh other st) \<longleftrightarrow> \<not> state_le other st"
    unfolding eq state_le_iff [OF len(2,1)] fst_conv using jl(5) by (metis (no_types))
  assume u: "state_le st u" "state_le other u"
  then have "length u = n" using len by (auto simp: state_le_def dest: list_all2_lengthD)
  with u show "state_le (snd (join_in_place sh other st)) u"
    unfolding eq using jl(4) by (simp add: state_le_iff len)
qed


lemma join_local_parts:
  assumes "local_ok n l" "local_ok n r"
  shows "mode (snd (join_local sh l r)) = mode_union (mode l) (mode r) \<and>
    elems (value_roots (snd (join_local sh l r))) = elems (value_roots l) \<union> elems (value_roots r) \<and>
    elems (direct_alias_roots (snd (join_local sh l r))) = elems (direct_alias_roots l) \<union> elems (direct_alias_roots r)"
  using assms root_bits.members_join by (auto simp: join_local_eq local_ok_def)

lemma mode_union_idem [simp]: "mode_union m m = m"
  by (simp add: mode_union_def)

lemma state_le_antisym:
  assumes "state_ok n a" "state_ok n b" "state_le a b" "state_le b a"
  shows "a = b"
proof (rule nth_equalityI)
  show len: "length a = length b" using assms by (simp add: state_ok_def)
  fix i assume "i < length a"
  then have "i < n" "local_le (a ! i) (b ! i)" "local_le (b ! i) (a ! i)"
    using assms len by (auto simp: state_le_iff state_ok_def)
  then show "a ! i = b ! i" using local_le_antisym state_okD assms(1,2) by blast
qed

lemma local_uninit_ok: "local_ok n (local_uninit n)"
  by (simp add: local_ok_def local_uninit_def root_empty_ok mode_set_consts)

lemma local_slot_ok: "local_ok n (local_slot n)"
  by (simp add: local_ok_def local_slot_def root_empty_ok mode_set_consts)

lemma new_uninitialized_ok: "state_ok n (new_uninitialized n)"
  by (auto simp: state_ok_def new_uninitialized_def local_uninit_ok)

section \<open>Termination of the join iteration\<close>

definition local_weight :: "local_state \<Rightarrow> nat" where
  "local_weight l = card (mode_set (mode l)) + card (elems (value_roots l)) + card (elems (direct_alias_roots l))"

definition state_weight :: "borrow_state \<Rightarrow> nat" where
  "state_weight st = sum_list (map local_weight st)"

lemma local_finite: "local_ok n l \<Longrightarrow> finite (mode_set (mode l)) \<and> finite (elems (value_roots l)) \<and>
   finite (elems (direct_alias_roots l))"
  by (auto simp: local_ok_def dest: finite_subset root_bits.finite_members)

lemma local_weight_bound: "local_ok n l \<Longrightarrow> local_weight l \<le> 3 + 2 * n"
proof -
  assume l: "local_ok n l"
  have "card (mode_set (mode l)) \<le> 3" using l card_mono [of "{..<3}" "mode_set (mode l)"] by (auto simp: local_ok_def)
  moreover have "card (elems (value_roots l)) \<le> n" "card (elems (direct_alias_roots l)) \<le> n"
    using l root_bits.card_members by (auto simp: local_ok_def)
  ultimately show ?thesis by (simp add: local_weight_def)
qed

lemma state_weight_bound: "state_ok n st \<Longrightarrow> state_weight st \<le> n * (3 + 2 * n)"
proof -
  assume "state_ok n st"
  then have "\<forall>l\<in>set st. local_weight l \<le> 3 + 2 * n" "length st = n"
    using local_weight_bound by (auto simp: state_ok_def)
  then show ?thesis
    using sum_list_mono [of st local_weight "\<lambda>_. 3 + 2 * n"] by (simp add: state_weight_def sum_list_triv)
qed

lemma local_weight_mono:
  assumes "local_ok n b" "local_le a b"
  shows "local_weight a \<le> local_weight b"
  using assms local_finite [OF assms(1)] unfolding local_weight_def local_le_def
  by (intro add_mono card_mono) auto

lemma local_weight_strict:
  assumes "local_ok n a" "local_ok n b" "local_le a b" "a \<noteq> b"
  shows "local_weight a < local_weight b"
proof -
  note fin = local_finite [OF assms(2)]
  have le: "card (mode_set (mode a)) \<le> card (mode_set (mode b))"
    "card (elems (value_roots a)) \<le> card (elems (value_roots b))"
    "card (elems (direct_alias_roots a)) \<le> card (elems (direct_alias_roots b))"
    using assms(3) fin by (auto simp: local_le_def intro: card_mono)
  have "\<not> local_le b a" using local_le_antisym assms by blast
  then have "mode_set (mode a) \<subset> mode_set (mode b) \<or> elems (value_roots a) \<subset> elems (value_roots b) \<or>
      elems (direct_alias_roots a) \<subset> elems (direct_alias_roots b)"
    using assms(3) by (auto simp: local_le_def)
  then have "card (mode_set (mode a)) < card (mode_set (mode b)) \<or>
      card (elems (value_roots a)) < card (elems (value_roots b)) \<or>
      card (elems (direct_alias_roots a)) < card (elems (direct_alias_roots b))"
    using fin psubset_card_mono by metis
  with le show ?thesis by (auto simp: local_weight_def)
qed

lemma state_weight_strict:
  assumes "state_ok n a" "state_ok n b" "state_le a b" "a \<noteq> b"
  shows "state_weight a < state_weight b"
proof -
  have len: "length a = n" "length b = n" using assms by (auto simp: state_ok_def)
  have le: "local_weight (a ! i) \<le> local_weight (b ! i)" if "i < n" for i
    using local_weight_mono state_okD [OF assms(2) that] assms(3) that by (simp add: state_le_iff len)
  obtain i where i: "i < n" "a ! i \<noteq> b ! i" using assms(4) len by (metis nth_equalityI)
  have "local_weight (a ! i) < local_weight (b ! i)"
    using local_weight_strict [OF state_okD [OF assms(1)] state_okD [OF assms(2)]] i assms(3)
    by (simp add: state_le_iff len)
  then have "(\<Sum>i<n. local_weight (a ! i)) < (\<Sum>i<n. local_weight (b ! i))"
    using le i(1) by (intro sum_strict_mono_ex1) auto
  then show ?thesis by (simp add: state_weight_def sum_list_sum_nth len atLeast0LessThan)
qed

text \<open>Joining a sequence of incoming states into a block's state, counting the joins that report a
  change (after each of which the engine requeues the block).\<close>

fun join_run :: "sharing \<Rightarrow> borrow_state list \<Rightarrow> borrow_state \<Rightarrow> nat \<times> borrow_state" where
  "join_run sh [] st = (0, st)"
| "join_run sh (other # others) st =
     (let (changed, st') = join_in_place sh other st;
          (changes, st'') = join_run sh others st'
      in ((if changed then changes + 1 else changes), st''))"

lemma join_run_weight:
  "state_ok n st \<Longrightarrow> \<forall>other\<in>set others. state_ok n other \<Longrightarrow>
     state_ok n (snd (join_run sh others st)) \<and>
     fst (join_run sh others st) + state_weight st \<le> state_weight (snd (join_run sh others st))"
proof (induction others arbitrary: st)
  case (Cons other others)
  let ?j = "join_in_place sh other st"
  have o: "state_ok n other" using Cons.prems by simp
  note j = join_in_place_correct [OF Cons.prems(1) o, where sh = sh]
  have w: "(if fst ?j then 1 else 0) + state_weight st \<le> state_weight (snd ?j)"
  proof (cases "snd ?j = st")
    case True
    then show ?thesis using j(3,5) by simp
  next
    case False
    then show ?thesis using state_weight_strict [OF Cons.prems(1) j(1,2)] by simp
  qed
  from Cons.IH [OF j(1)] Cons.prems(2) w show ?case by (auto split: prod.splits if_splits)
qed simp


section \<open>Narrowing\<close>

text \<open>Transfer keeps the direct-alias roots of a local within its value roots.\<close>

definition aliases_within :: "borrow_state \<Rightarrow> bool" where
  "aliases_within st \<longleftrightarrow> (\<forall>l\<in>set st. elems (direct_alias_roots l) \<subseteq> elems (value_roots l))"

text \<open>A local narrowed to a set of visible locals: invisible locals are uninitialised and root-free,
  visible locals hold only visible roots.\<close>

definition local_narrowed :: "nat set \<Rightarrow> nat \<Rightarrow> local_state \<Rightarrow> bool" where
  "local_narrowed V i l \<longleftrightarrow>
     (if i \<in> V then elems (value_roots l) \<subseteq> V \<and> elems (direct_alias_roots l) \<subseteq> V
      else mode l = mode_uninit \<and> elems (value_roots l) = {} \<and> elems (direct_alias_roots l) = {})"

definition narrowed :: "nat set \<Rightarrow> borrow_state \<Rightarrow> bool" where
  "narrowed V st \<longleftrightarrow> (\<forall>i<length st. local_narrowed V i (st ! i))"

lemma local_reset_ok: "local_ok n l \<Longrightarrow> mode_set m \<subseteq> {..<3} \<Longrightarrow> local_ok n (local_reset m l)"
  by (simp add: local_ok_def local_reset_def root_clear_ok)

lemma kill_local_correct:
  assumes l: "local_ok n l" and v: "root_ok n visible"
    and within: "elems (direct_alias_roots l) \<subseteq> elems (value_roots l)"
  shows "local_ok n (kill_local sh visible i l)"
    "elems (direct_alias_roots (kill_local sh visible i l)) \<subseteq> elems (value_roots (kill_local sh visible i l))"
    "local_narrowed (elems visible) i (kill_local sh visible i l)"
    "local_narrowed (elems visible) i l \<Longrightarrow> kill_local sh visible i l = l"
proof -
  have vr: "root_ok n (value_roots l)" "root_ok n (direct_alias_roots l)" using l by (auto simp: local_ok_def)
  note iv = intersect_with_correct [OF vr(1) v, of "fst sh"] and idr = intersect_with_correct [OF vr(2) v, of "snd sh"]
  note em = root_is_empty_iff [OF vr(1)] root_is_empty_iff [OF conjunct1 [OF iv]]
  note con = root_contains_iff [OF v, of i]
  have modes: "mode_set mode_uninit \<subseteq> {..<3}" "mode_set mode_slot \<subseteq> {..<3}" by (auto simp: mode_set_consts)
  let ?k = "kill_local sh visible i l"
  have cases: "(i \<notin> elems visible \<and> ?k = local_reset mode_uninit l) \<or>
    (i \<in> elems visible \<and> elems (value_roots l) = {} \<and> ?k = l) \<or>
    (i \<in> elems visible \<and> elems (value_roots l) \<inter> elems visible = {} \<and> elems (value_roots l) \<noteq> {} \<and>
      (\<exists>m\<in>{mode_slot, mode_uninit}. ?k = \<lparr> mode = m, value_roots = root_clear (intersect_with (fst sh) visible (value_roots l)),
         direct_alias_roots = root_clear (intersect_with (snd sh) visible (direct_alias_roots l)) \<rparr>)) \<or>
    (i \<in> elems visible \<and> elems (value_roots l) \<inter> elems visible \<noteq> {} \<and>
      ?k = l\<lparr>value_roots := intersect_with (fst sh) visible (value_roots l),
             direct_alias_roots := intersect_with (snd sh) visible (direct_alias_roots l)\<rparr>)"
    using em con iv by (auto simp: kill_local_def local_reset_def Let_def)
  show "local_ok n ?k"
    using cases l iv idr modes by (auto simp: local_ok_def local_reset_def root_clear_ok)
  show "elems (direct_alias_roots ?k) \<subseteq> elems (value_roots ?k)"
    using cases within iv idr by (auto simp: local_reset_def root_clear_ok)
  show "local_narrowed (elems visible) i ?k"
    using cases within iv idr by (auto simp: local_narrowed_def local_reset_def root_clear_ok)
  assume nar: "local_narrowed (elems visible) i l"
  have "i \<in> elems visible \<Longrightarrow> elems (value_roots l) \<inter> elems visible = elems (value_roots l)"
    using nar by (auto simp: local_narrowed_def)
  then have "(i \<notin> elems visible \<and> ?k = local_reset mode_uninit l) \<or> ?k = l \<or> (i \<in> elems visible \<and>
      ?k = l\<lparr>value_roots := intersect_with (fst sh) visible (value_roots l),
             direct_alias_roots := intersect_with (snd sh) visible (direct_alias_roots l)\<rparr>)"
    using cases by metis
  then have "local_le ?k l" "local_le l ?k"
    using nar iv idr by (auto simp: local_le_def local_narrowed_def local_reset_def root_clear_ok)
  then show "?k = l" using local_le_antisym \<open>local_ok n ?k\<close> l by blast
qed

lemma kill_sweep_nth: "i < length st \<Longrightarrow> kill_sweep sh visible st ! i = kill_local (sh i) visible i (st ! i)"
  by (simp add: kill_sweep_def nth_enumerate_eq)

lemma kill_sweep_length [simp]: "length (kill_sweep sh visible st) = length st"
  by (simp add: kill_sweep_def)

lemma kill_sweep_correct:
  assumes "state_ok n st" "root_ok n visible" "aliases_within st"
  shows "state_ok n (kill_sweep sh visible st)" "aliases_within (kill_sweep sh visible st)"
    "narrowed (elems visible) (kill_sweep sh visible st)"
    "narrowed (elems visible) st \<Longrightarrow> kill_sweep sh visible st = st"
proof -
  have len: "length st = n" using assms(1) by (simp add: state_ok_def)
  have within: "elems (direct_alias_roots (st ! i)) \<subseteq> elems (value_roots (st ! i))" if "i < n" for i
    using assms(3) that len by (auto simp: aliases_within_def)
  have kl: "local_ok n (kill_local (sh i) visible i (st ! i))"
    "elems (direct_alias_roots (kill_local (sh i) visible i (st ! i)))
      \<subseteq> elems (value_roots (kill_local (sh i) visible i (st ! i)))"
    "local_narrowed (elems visible) i (kill_local (sh i) visible i (st ! i))"
    "local_narrowed (elems visible) i (st ! i) \<Longrightarrow> kill_local (sh i) visible i (st ! i) = st ! i"
    if "i < n" for i
    using kill_local_correct [OF state_okD [OF assms(1) that] assms(2) within [OF that]] by blast+
  show "state_ok n (kill_sweep sh visible st)"
    using kl(1) len by (auto simp: state_ok_def in_set_conv_nth kill_sweep_nth)
  show "aliases_within (kill_sweep sh visible st)"
    unfolding aliases_within_def all_set_conv_all_nth using kl(2) len by (simp add: kill_sweep_nth)
  show "narrowed (elems visible) (kill_sweep sh visible st)"
    using kl(3) len by (auto simp: narrowed_def kill_sweep_nth)
  show "narrowed (elems visible) st \<Longrightarrow> kill_sweep sh visible st = st"
    using kl(4) len by (auto simp: narrowed_def kill_sweep_nth intro: nth_equalityI)
qed

lemma all_visible_narrowed: "state_ok n st \<Longrightarrow> narrowed {..<n} st"
proof -
  assume st: "state_ok n st"
  have "elems (value_roots (st ! i)) \<subseteq> {..<n} \<and> elems (direct_alias_roots (st ! i)) \<subseteq> {..<n}" if "i < n" for i
    using state_okD [OF st that] root_bits.bounded by (auto simp: local_ok_def)
  with st show ?thesis by (auto simp: narrowed_def local_narrowed_def state_ok_def)
qed

lemma kill_invisible_sweep:
  assumes "state_ok n st" "root_ok n visible" "aliases_within st"
  shows "kill_invisible sh visible st = kill_sweep sh visible st"
proof (cases "covers_all visible n")
  case True
  then have "narrowed (elems visible) st"
    using all_visible_narrowed [OF assms(1)] covers_all_correct [OF assms(2)] by simp
  then show ?thesis using kill_sweep_correct(4) [OF assms] by (simp add: kill_invisible_def)
next
  case False
  then show ?thesis using assms(1) by (simp add: kill_invisible_def state_ok_def)
qed


section \<open>Effective roots\<close>

definition effective_set :: "nat \<Rightarrow> local_state \<Rightarrow> nat set" where
  "effective_set i l =
     (let slot = 1 \<in> mode_set (mode l); aliased = 2 \<in> mode_set (mode l); vs = elems (value_roots l) in
      (if slot \<and> (aliased \<or> vs = {}) then {i} else {}) \<union> (if aliased \<or> slot then vs else {}))"

lemma effective_roots_correct:
  assumes "state_ok n st" "i < n"
  shows "\<exists>roots. effective_roots st i = Some roots \<and> root_ok n roots \<and> elems roots = effective_set i (st ! i) \<and>
    effective_root_contains st i r = Some (r \<in> effective_set i (st ! i))"
proof -
  have len: "length st = n" using assms(1) by (simp add: state_ok_def)
  have v: "root_ok n (value_roots (st ! i))" using state_okD [OF assms] by (simp add: local_ok_def)
  define S A where "S = (1 \<in> mode_set (mode (st ! i)))" and "A = (2 \<in> mode_set (mode (st ! i)))"
  define vs where "vs = elems (value_roots (st ! i))"
  have src: "effective_root_sources st i = Some (S \<and> (A \<or> vs = {}), A \<or> (S \<and> vs \<noteq> {}))"
    using assms(2) len root_is_empty_iff [OF v]
    by (simp add: effective_root_sources_def state_at_def mode_contains_iff mode_set_consts S_def A_def vs_def Let_def)
  define r0 where "r0 = (if S \<and> (A \<or> vs = {}) then root_insert False i (root_empty n) else root_empty n)"
  have r0: "root_ok n r0" "elems r0 = (if S \<and> (A \<or> vs = {}) then {i} else {})"
    using root_insert_correct [where n = n and shared = False and i = i, OF root_empty_ok(1)] assms(2) by (simp_all add: r0_def root_empty_ok)
  have "effective_roots st i = Some (if A \<or> (S \<and> vs \<noteq> {}) then snd (union_with False (value_roots (st ! i)) r0) else r0)"
    by (simp add: effective_roots_def src len r0_def)
  moreover have es: "effective_set i (st ! i) = (if S \<and> (A \<or> vs = {}) then {i} else {}) \<union> (if A \<or> S then vs else {})"
    by (simp add: effective_set_def Let_def S_def A_def vs_def)
  moreover have "effective_root_contains st i r = Some (r \<in> effective_set i (st ! i))"
    using root_contains_iff [OF v, folded vs_def] by (auto simp: effective_root_contains_def src es)
  ultimately show ?thesis
    using union_with_correct [OF r0(1) v, of False, folded vs_def] r0 by auto
qed

section \<open>Properties\<close>

text \<open>C36. Joining a state in place yields the least upper bound of the two states in the product
  lattice of binding modes and root sets, and reports a change exactly when the incoming state is
  not already below, that is, exactly when the stored state differs afterwards.\<close>

theorem join_in_place_least_upper_bound:
  assumes "state_ok n st" and "state_ok n other"
  shows "state_ok n (snd (join_in_place sh other st)) \<and>
    state_le st (snd (join_in_place sh other st)) \<and> state_le other (snd (join_in_place sh other st)) \<and>
    (\<forall>u. state_le st u \<and> state_le other u \<longrightarrow> state_le (snd (join_in_place sh other st)) u) \<and>
    (fst (join_in_place sh other st) \<longleftrightarrow> snd (join_in_place sh other st) \<noteq> st)"
proof -
  note j = join_in_place_correct [OF assms, where sh = sh]
  have "state_le other st \<longleftrightarrow> snd (join_in_place sh other st) = st"
  proof
    assume "state_le other st"
    moreover have "state_le st st" by (simp add: state_le_def list.rel_refl)
    ultimately have "state_le (snd (join_in_place sh other st)) st" using j(4) by blast
    then show "snd (join_in_place sh other st) = st"
      using state_le_antisym [OF j(1) assms(1)] j(2) by blast
  qed (use j(3) in simp)
  with j show ?thesis by blast
qed

theorem join_in_place_least_upper_bound_witness:
  "state_le (new_uninitialized 2) (snd (join_in_place (\<lambda>_. (True, False)) [local_slot 2, local_slot 2] (new_uninitialized 2)))"
proof -
  have "state_ok 2 (new_uninitialized 2)" "state_ok 2 [local_slot 2, local_slot 2]"
    by (simp_all add: new_uninitialized_ok) (simp add: state_ok_def local_slot_ok)
  with join_in_place_least_upper_bound [of 2 "new_uninitialized 2" "[local_slot 2, local_slot 2]" "\<lambda>_. (True, False)"]
  show ?thesis by blast
qed

text \<open>C37. However many states arrive at a block, at most \<open>n * (3 + 2 * n)\<close> joins report a change for a
  function of \<open>n\<close> locals, so a block is requeued only finitely often.\<close>

theorem join_changes_bounded:
  assumes "state_ok n st" and "\<forall>other\<in>set others. state_ok n other"
  shows "fst (join_run sh others st) \<le> n * (3 + 2 * n)"
  using join_run_weight [OF assms, of sh] state_weight_bound [of n "snd (join_run sh others st)"] by linarith

theorem join_changes_bounded_witness:
  "fst (join_run (\<lambda>_. (False, False)) [[local_slot 1], [local_uninit 1]] [local_uninit 1]) \<le> 1 * (3 + 2 * 1)"
proof -
  have "state_ok 1 [local_uninit 1]" "\<forall>other\<in>set [[local_slot 1], [local_uninit 1]]. state_ok 1 other"
    by (simp_all add: state_ok_def local_slot_ok local_uninit_ok)
  then show ?thesis by (rule join_changes_bounded)
qed

text \<open>Narrowing a state to the visible locals leaves no invisible binding and no invisible root:
  invisible locals are uninitialised, and every effective root of every local is visible. The
  shortcut for an all-visible mask does not change the result.\<close>

theorem kill_invisible_narrows:
  assumes "state_ok n st" and "root_ok n visible" and "aliases_within st"
  shows "kill_invisible sh visible st = kill_sweep sh visible st \<and>
    state_ok n (kill_invisible sh visible st) \<and> aliases_within (kill_invisible sh visible st) \<and>
    narrowed (elems visible) (kill_invisible sh visible st) \<and>
    (\<forall>i<n. \<exists>roots. effective_roots (kill_invisible sh visible st) i = Some roots \<and> elems roots \<subseteq> elems visible)"
proof -
  note k = kill_sweep_correct [OF assms, where sh = sh]
  have "\<exists>roots. effective_roots (kill_sweep sh visible st) i = Some roots \<and> elems roots \<subseteq> elems visible" if "i < n" for i
  proof -
    have "local_narrowed (elems visible) i (kill_sweep sh visible st ! i)"
      using k(1,3) that by (simp add: narrowed_def state_ok_def)
    then have "effective_set i (kill_sweep sh visible st ! i) \<subseteq> elems visible"
      by (auto simp: local_narrowed_def effective_set_def Let_def mode_set_consts split: if_splits)
    with effective_roots_correct [OF k(1) that] show ?thesis by metis
  qed
  with k show ?thesis unfolding kill_invisible_sweep [OF assms] by blast
qed

theorem kill_invisible_narrows_witness:
  "narrowed {0} (kill_invisible (\<lambda>_. (False, False)) (root_insert False 0 (root_empty 2)) [local_slot 2, local_slot 2])"
proof -
  have v: "root_ok 2 (root_insert False 0 (root_empty 2))" "elems (root_insert False 0 (root_empty 2)) = {0}"
    using root_insert_correct [where n = 2 and shared = False and i = 0, OF root_empty_ok(1)] by (simp_all add: root_empty_ok)
  have "state_ok 2 [local_slot 2, local_slot 2]" "aliases_within [local_slot 2, local_slot 2]"
    by (simp_all add: state_ok_def local_slot_ok aliases_within_def) (simp add: local_slot_def root_empty_ok)
  from kill_invisible_narrows [OF this(1) v(1) this(2), of "\<lambda>_. (False, False)"] show ?thesis
    unfolding v(2) by blast
qed

text \<open>Joining two states narrowed to the same visible locals stays narrowed, so block inputs
  stored narrowed need no second narrowing: the sweep leaves the join unchanged.\<close>

theorem narrowed_join_stays_narrowed:
  assumes "state_ok n a" and "state_ok n b" and "root_ok n visible"
    and "aliases_within a" and "aliases_within b" and "narrowed (elems visible) a" and "narrowed (elems visible) b"
  shows "kill_invisible sh visible (snd (join_in_place sh' b a)) = snd (join_in_place sh' b a)"
proof -
  let ?j = "snd (join_in_place sh' b a)"
  have len: "length a = n" "length b = n" using assms(1,2) by (auto simp: state_ok_def)
  have j: "state_ok n ?j" using join_in_place_correct(1) [OF assms(1,2)] .
  have parts: "mode (?j ! i) = mode_union (mode (a ! i)) (mode (b ! i)) \<and>
      elems (value_roots (?j ! i)) = elems (value_roots (a ! i)) \<union> elems (value_roots (b ! i)) \<and>
      elems (direct_alias_roots (?j ! i)) = elems (direct_alias_roots (a ! i)) \<union> elems (direct_alias_roots (b ! i))"
    if "i < n" for i
    using join_local_parts [OF state_okD [OF assms(1) that] state_okD [OF assms(2) that]] that
    by (simp add: join_in_place_eq [OF len])
  have "aliases_within ?j"
    using assms(4,5) parts len j unfolding aliases_within_def all_set_conv_all_nth state_ok_def by fastforce
  moreover have "narrowed (elems visible) ?j"
    using assms(6,7) parts len j mode_union_idem
    by (auto simp: narrowed_def local_narrowed_def state_ok_def)
  ultimately show ?thesis
    using kill_invisible_sweep [OF j assms(3)] kill_sweep_correct(4) [OF j assms(3)] by simp
qed

theorem narrowed_join_stays_narrowed_witness:
  "kill_invisible (\<lambda>_. (False, False)) (root_empty 1) (snd (join_in_place (\<lambda>_. (False, False)) [local_uninit 1] [local_uninit 1]))
     = snd (join_in_place (\<lambda>_. (False, False)) [local_uninit 1] [local_uninit 1])"
proof (rule narrowed_join_stays_narrowed [where n = 1])
  show "root_ok 1 (root_empty 1)" by (simp add: root_empty_ok)
  show "aliases_within [local_uninit 1]" "aliases_within [local_uninit 1]"
    by (simp_all add: aliases_within_def local_uninit_def root_empty_ok)
  show "narrowed (elems (root_empty 1)) [local_uninit 1]" "narrowed (elems (root_empty 1)) [local_uninit 1]"
    by (simp_all add: narrowed_def local_narrowed_def local_uninit_def root_empty_ok)
qed (simp_all add: state_ok_def local_uninit_ok)

end
