(* ===== verification/Borrow_Layout.thy ===== *)
theory Borrow_Layout
  imports Borrow_State
begin

text \<open>
  The dense function layout of \<open>analysis/borrow_checker/state.rs\<close>: the index of each local, the order
  keys of statements and terminators, and the future-use queries move and borrow decisions ask at
  a program point. \<open>FxHashMap\<close> values are finite maps, \<open>OrderKey\<close> is \<open>int\<close>. The liveness tables are
  fields of the layout: \<open>metadata.rs\<close>, which fills them, is not modelled, so the queries are described in
  terms of the tables.
\<close>

section \<open>Model\<close>

type_synonym order_key = int
type_synonym block_id = nat
type_synonym hir_node_id = nat

definition unknown_order_key :: order_key where
  "unknown_order_key = - 1"

record function_layout_inputs =
  local_ids :: "local_id list"
  local_mutable :: "bool list"
  local_first_write_order :: "order_key list"
  local_last_use_order :: "order_key list"
  statement_order_by_id :: "hir_node_id \<rightharpoonup> order_key"
  terminator_order_by_block :: "block_id \<rightharpoonup> order_key"
  block_local_max_use_order :: "block_id \<rightharpoonup> order_key list"
  block_successors :: "block_id \<rightharpoonup> block_id list"
  visible_locals_by_block :: "block_id \<rightharpoonup> root_set"
  may_use_from_block :: "block_id \<rightharpoonup> root_set"
  must_use_from_block :: "block_id \<rightharpoonup> root_set"
  may_assign_from_block :: "block_id \<rightharpoonup> root_set"

record function_layout = function_layout_inputs +
  local_index_by_id :: "local_id \<rightharpoonup> nat"

datatype future_use_class = NoFutureUse | MayUse | MustUse

definition index_locals :: "local_id list \<Rightarrow> local_id \<rightharpoonup> nat" where
  "index_locals ids = fold (\<lambda>(index, i) m. m(i \<mapsto> index)) (enumerate 0 ids) Map.empty"

definition layout_new :: "function_layout_inputs \<Rightarrow> function_layout" where
  "layout_new inputs =
     function_layout_inputs.extend inputs (function_layout.fields (index_locals (local_ids inputs)))"

definition local_count :: "function_layout \<Rightarrow> nat" where
  "local_count lay = length (local_ids lay)"

definition index_of :: "function_layout \<Rightarrow> local_id \<Rightarrow> nat option" where
  "index_of lay i = local_index_by_id lay i"

definition statement_order_or_unknown :: "function_layout \<Rightarrow> hir_node_id \<Rightarrow> order_key" where
  "statement_order_or_unknown lay s =
     (case statement_order_by_id lay s of Some k \<Rightarrow> k | None \<Rightarrow> unknown_order_key)"

definition terminator_order_or_unknown :: "function_layout \<Rightarrow> block_id \<Rightarrow> order_key" where
  "terminator_order_or_unknown lay b =
     (case terminator_order_by_block lay b of Some k \<Rightarrow> k | None \<Rightarrow> unknown_order_key)"

text \<open>\<open>None\<close>: the index is outside the table.\<close>

definition local_is_expired :: "function_layout \<Rightarrow> nat \<Rightarrow> order_key \<Rightarrow> bool option" where
  "local_is_expired lay i current =
     (if i < length (local_last_use_order lay)
      then Some (0 \<le> local_last_use_order lay ! i \<and> local_last_use_order lay ! i < current)
      else None)"

definition local_has_future_use_in_block :: "function_layout \<Rightarrow> block_id \<Rightarrow> nat \<Rightarrow> order_key \<Rightarrow> bool" where
  "local_has_future_use_in_block lay b i current =
     (case block_local_max_use_order lay b of
        None \<Rightarrow> False
      | Some orders \<Rightarrow> if i < length orders then current < orders ! i else False)"

definition block_set_contains :: "(block_id \<rightharpoonup> root_set) \<Rightarrow> nat \<Rightarrow> block_id \<Rightarrow> bool" where
  "block_set_contains sets i b = (case sets b of None \<Rightarrow> False | Some roots \<Rightarrow> root_contains roots i)"

text \<open>The successor loop: \<open>may\<close> and \<open>must\<close> are its accumulators.\<close>

fun scan_successors :: "function_layout \<Rightarrow> nat \<Rightarrow> bool \<Rightarrow> bool \<Rightarrow> block_id list \<Rightarrow> bool \<times> bool" where
  "scan_successors lay i may must [] = (may, must)"
| "scan_successors lay i may must (s # ss) =
     scan_successors lay i
       (may \<or> block_set_contains (may_use_from_block lay) i s)
       (must \<and> block_set_contains (must_use_from_block lay) i s) ss"

definition future_use_kind :: "function_layout \<Rightarrow> block_id \<Rightarrow> nat \<Rightarrow> order_key \<Rightarrow> future_use_class" where
  "future_use_kind lay b i current =
     (if local_has_future_use_in_block lay b i current then MustUse
      else
        (case block_successors lay b of
           None \<Rightarrow> NoFutureUse
         | Some successors \<Rightarrow>
             if successors = [] then NoFutureUse
             else
               (let (may, must) = scan_successors lay i False True successors
                in if \<not> may then NoFutureUse else if must then MustUse else MayUse)))"

definition local_has_future_assignment :: "function_layout \<Rightarrow> block_id \<Rightarrow> nat \<Rightarrow> bool" where
  "local_has_future_assignment lay b i =
     (case block_successors lay b of
        None \<Rightarrow> False
      | Some successors \<Rightarrow> list_ex (block_set_contains (may_assign_from_block lay) i) successors)"

section \<open>Dense indices\<close>

lemma index_locals_snoc: "index_locals (ids @ [i]) = (index_locals ids)(i \<mapsto> length ids)"
  by (simp add: index_locals_def enumerate_append_eq)

lemma index_locals_correct:
  "distinct ids \<Longrightarrow> index_locals ids i = Some k \<longleftrightarrow> k < length ids \<and> ids ! k = i"
proof (induction ids arbitrary: i k rule: rev_induct)
  case Nil
  then show ?case by (simp add: index_locals_def)
next
  case (snoc x ids)
  then show ?case by (auto simp: index_locals_snoc nth_append less_Suc_eq)
qed

lemma layout_new_simps [simp]:
  "local_index_by_id (layout_new inputs) = index_locals (local_ids inputs)"
  "local_ids (layout_new inputs) = local_ids inputs"
  by (simp_all add: layout_new_def function_layout_inputs.defs function_layout.defs)

section \<open>Future uses\<close>

lemma scan_successors_eq:
  "scan_successors lay i may must ss =
     (may \<or> (\<exists>s\<in>set ss. block_set_contains (may_use_from_block lay) i s),
      must \<and> (\<forall>s\<in>set ss. block_set_contains (must_use_from_block lay) i s))"
  by (induction ss arbitrary: may must) auto

text \<open>The answer of the classification in terms of the tables it reads.\<close>

lemma future_use_kind_eq:
  "future_use_kind lay b i current =
     (if local_has_future_use_in_block lay b i current then MustUse
      else (case block_successors lay b of
          None \<Rightarrow> NoFutureUse
        | Some ss \<Rightarrow>
            if \<forall>s\<in>set ss. \<not> block_set_contains (may_use_from_block lay) i s then NoFutureUse
            else if \<forall>s\<in>set ss. block_set_contains (must_use_from_block lay) i s then MustUse else MayUse))"
  by (cases "block_successors lay b") (auto simp: future_use_kind_def scan_successors_eq Let_def)

section \<open>Properties\<close>

text \<open>A straight-line function of two blocks: block 0 is followed by block 1, which uses local 0.\<close>

definition example_layout :: function_layout where
  "example_layout = layout_new
     \<lparr> local_ids = [7], local_mutable = [False], local_first_write_order = [0], local_last_use_order = [3],
       statement_order_by_id = Map.empty, terminator_order_by_block = Map.empty,
       block_local_max_use_order = [0 \<mapsto> [- 1], 1 \<mapsto> [3]],
       block_successors = [0 \<mapsto> [1], 1 \<mapsto> []],
       visible_locals_by_block = Map.empty,
       may_use_from_block = [0 \<mapsto> root_full 1, 1 \<mapsto> root_full 1],
       must_use_from_block = [0 \<mapsto> root_full 1, 1 \<mapsto> root_full 1],
       may_assign_from_block = Map.empty \<rparr>"

text \<open>In a layout built from distinct locals, looking up a local id and indexing the local table
  are inverse to each other.\<close>

theorem index_of_inverse:
  assumes "distinct (local_ids inputs)"
  shows "index_of (layout_new inputs) i = Some k \<longleftrightarrow>
    k < local_count (layout_new inputs) \<and> local_ids (layout_new inputs) ! k = i"
  using index_locals_correct [OF assms] by (simp add: index_of_def local_count_def)

theorem index_of_inverse_witness: "index_of example_layout 7 = Some 0"
proof -
  define inputs where "inputs = function_layout_inputs.truncate example_layout"
  have "distinct (local_ids inputs)" "local_ids inputs = [7]"
    by (simp_all add: inputs_def example_layout_def layout_new_def function_layout_inputs.defs function_layout.defs)
  moreover have "index_of example_layout = index_of (layout_new inputs)"
    by (simp add: inputs_def example_layout_def index_of_def layout_new_def function_layout_inputs.defs
        function_layout.defs fun_eq_iff)
  ultimately show ?thesis using index_of_inverse [of inputs 7 0] by (simp add: local_count_def)
qed

end
