(* ===== verification/Binary_Rounding.thy ===== *)
theory Binary_Rounding
  imports Rounding
begin

text \<open>
  Round-to-nearest, ties-to-even, for binary floating-point formats over exact rationals: the
  specification the binary16, binary32 and binary64 conversions of the lexical crate are measured
  against. The locale \<open>binary_format\<close> has the laws of one format (rounding is monotone, fixes the
  representable magnitudes, and two magnitudes that round differently are separated by a half-way
  point); \<open>nested_formats\<close> has the laws of rounding through a wider format.
\<close>

section \<open>Binary logarithm\<close>

fun log2_nat :: "nat \<Rightarrow> nat" where
  "log2_nat n = (if n < 2 then 0 else Suc (log2_nat (n div 2)))"

declare log2_nat.simps [simp del]

lemma log2_nat_bounds: "0 < n \<Longrightarrow> 2 ^ log2_nat n \<le> n \<and> n < 2 ^ Suc (log2_nat n)"
proof (induction n rule: log2_nat.induct)
  case (1 n)
  show ?case
  proof (cases "n < 2")
    case True
    then have "log2_nat n = 0" by (subst log2_nat.simps) simp
    with 1 True show ?thesis by simp
  next
    case False
    then have "2 ^ log2_nat (n div 2) \<le> n div 2" "n div 2 < 2 ^ Suc (log2_nat (n div 2))"
      using 1 by auto
    moreover have "log2_nat n = Suc (log2_nat (n div 2))" using False by (subst log2_nat.simps) simp
    moreover have "2 * (n div 2) \<le> n" "n < 2 * (n div 2) + 2" by simp_all
    ultimately show ?thesis by (simp only: power_Suc) linarith
  qed
qed

lemma log2_nat_unique: "2 ^ k \<le> n \<Longrightarrow> n < 2 ^ Suc k \<Longrightarrow> log2_nat n = k"
proof -
  assume n: "2 ^ k \<le> n" "n < 2 ^ Suc k"
  have "0 < (2::nat) ^ k" by simp
  with n(1) have "0 < n" by linarith
  note b = log2_nat_bounds [OF this]
  have "(2::nat) ^ k < 2 ^ Suc (log2_nat n)" using n b by linarith
  then have "k < Suc (log2_nat n)" by (rule power_less_imp_less_exp [rotated]) simp
  moreover have "(2::nat) ^ log2_nat n < 2 ^ Suc k" using n b by linarith
  then have "log2_nat n < Suc k" by (rule power_less_imp_less_exp [rotated]) simp
  ultimately show ?thesis by simp
qed

abbreviation two_powi :: "int \<Rightarrow> rat" where
  "two_powi e \<equiv> 2 powi e"

lemma two_powi_pos: "0 < two_powi e"
  by (rule zero_less_power_int) simp

lemma two_powi_add: "two_powi (a + b) = two_powi a * two_powi b"
  by (rule power_int_add) simp

lemma two_powi_diff: "two_powi (a - b) = two_powi a / two_powi b"
  by (rule power_int_diff) simp

lemma two_powi_less_iff: "two_powi a < two_powi b \<longleftrightarrow> a < b"
  by (metis less_le_not_le linorder_not_less one_less_numeral_iff power_int_increasing power_int_strict_increasing semiring_norm(76) order_less_imp_le)

lemma two_powi_le_iff: "two_powi a \<le> two_powi b \<longleftrightarrow> a \<le> b"
  using two_powi_less_iff [of b a] by linarith

lemma two_powi_quotient:
  assumes "b \<le> a"
  shows "two_powi a / two_powi b = of_int (2 ^ nat (a - b))"
  using assms by (simp add: power_int_nonneg_exp flip: two_powi_diff)

definition flog2 :: "rat \<Rightarrow> int" where
  "flog2 x =
     (let (n, d) = quotient_of x; e = int (log2_nat (nat n)) - int (log2_nat (nat d))
      in if two_powi e \<le> x then e else e - 1)"

lemma flog2_bounds:
  assumes "0 < x"
  shows "two_powi (flog2 x) \<le> x \<and> x < two_powi (flog2 x + 1)"
proof -
  obtain n d where nd: "quotient_of x = (n, d)" by (cases "quotient_of x")
  have d: "0 < d" and x: "x = of_int n / of_int d"
    using nd quotient_of_denom_pos quotient_of_div by auto
  have n: "0 < n" using assms d by (simp add: x zero_less_divide_iff)
  define i j where "i = log2_nat (nat n)" and "j = log2_nat (nat d)"
  have "2 ^ i \<le> n" "n < 2 ^ Suc i"
    using log2_nat_bounds [of "nat n"] n by (auto simp: i_def zless_nat_eq_int_zless nat_le_iff le_nat_iff nat_less_iff)
  then have bn: "2 ^ i \<le> (of_int n :: rat)" "(of_int n :: rat) < 2 ^ Suc i"
    by (metis of_int_le_iff of_int_numeral of_int_power, metis of_int_less_iff of_int_numeral of_int_power)
  have "2 ^ j \<le> d" "d < 2 ^ Suc j"
    using log2_nat_bounds [of "nat d"] d by (auto simp: j_def zless_nat_eq_int_zless nat_le_iff le_nat_iff nat_less_iff)
  then have bd: "2 ^ j \<le> (of_int d :: rat)" "(of_int d :: rat) < 2 ^ Suc j"
    by (metis of_int_le_iff of_int_numeral of_int_power, metis of_int_less_iff of_int_numeral of_int_power)
  have dp: "0 < (of_int d :: rat)" using d by simp
  have up: "x < two_powi (int i - int j + 1)"
  proof -
    have "of_int n * 2 ^ j < 2 ^ Suc i * (2 ^ j :: rat)" using bn by simp
    also have "\<dots> \<le> 2 ^ Suc i * of_int d" using bd by simp
    finally show ?thesis
      using dp unfolding x two_powi_add two_powi_diff by (simp add: field_simps)
  qed
  have low: "two_powi (int i - int j - 1) \<le> x"
  proof -
    have "2 ^ i * of_int d \<le> 2 ^ i * (2 ^ Suc j :: rat)" using bd by simp
    also have "\<dots> \<le> of_int n * 2 ^ Suc j" using bn by simp
    finally show ?thesis
      using dp unfolding x two_powi_diff by (simp add: field_simps)
  qed
  show ?thesis
    using up low by (simp add: flog2_def nd Let_def i_def [symmetric] j_def [symmetric])
qed

lemma flog2_unique:
  assumes "two_powi k \<le> x" "x < two_powi (k + 1)"
  shows "flog2 x = k"
proof -
  have "0 < x" using assms(1) two_powi_pos [of k] by linarith
  note b = flog2_bounds [OF this]
  have "two_powi k < two_powi (flog2 x + 1)" "two_powi (flog2 x) < two_powi (k + 1)"
    using assms b by linarith+
  then show ?thesis unfolding two_powi_less_iff by simp
qed

lemma flog2_mono: "0 < x \<Longrightarrow> x \<le> y \<Longrightarrow> flog2 x \<le> flog2 y"
proof -
  assume x: "0 < x" "x \<le> y"
  have "two_powi (flog2 x) < two_powi (flog2 y + 1)"
    using flog2_bounds [OF x(1)] flog2_bounds [of y] x by linarith
  then show ?thesis unfolding two_powi_less_iff by simp
qed

lemma flog2_ge_iff: "0 < x \<Longrightarrow> k \<le> flog2 x \<longleftrightarrow> two_powi k \<le> x"
proof
  assume x: "0 < x"
  show "k \<le> flog2 x \<Longrightarrow> two_powi k \<le> x" using flog2_bounds [OF x] two_powi_le_iff [of k "flog2 x"] by linarith
  assume "two_powi k \<le> x"
  then have "two_powi k < two_powi (flog2 x + 1)" using flog2_bounds [OF x] by linarith
  then show "k \<le> flog2 x" unfolding two_powi_less_iff by simp
qed

section \<open>Rounding a rational to an integer\<close>

definition rhe :: "rat \<Rightarrow> int" where
  "rhe x =
     (let f = \<lfloor>x\<rfloor>; r = x - of_int f
      in if r < 1 / 2 \<or> (r = 1 / 2 \<and> even f) then f else f + 1)"

lemma rhe_rounds: "rounds_half_even x (rhe x)"
proof -
  define f where "f = \<lfloor>x\<rfloor>"
  have "of_int f \<le> x" "x < of_int f + 1" using floor_correct [of x] by (simp_all add: f_def)
  then show ?thesis
    by (auto simp: rhe_def Let_def rounds_half_even_def f_def [symmetric] abs_if)
qed

lemma rhe_eq_iff: "rhe x = q \<longleftrightarrow> rounds_half_even x q"
  using rhe_rounds rounds_half_even_unique by blast

lemma rhe_of_int [simp]: "rhe (of_int n) = n"
  by (simp add: rhe_eq_iff)

lemma rhe_mono:
  assumes "x \<le> y"
  shows "rhe x \<le> rhe y"
proof (rule ccontr)
  assume "\<not> rhe x \<le> rhe y"
  then have lt: "rhe y + 1 \<le> rhe x" by simp
  have a: "\<bar>x - of_int (rhe x)\<bar> \<le> 1 / 2" "\<bar>y - of_int (rhe y)\<bar> \<le> 1 / 2"
    using rhe_rounds [of x] rhe_rounds [of y] by (auto simp: rounds_half_even_def)
  have le: "of_int (rhe y) + 1 \<le> (of_int (rhe x) :: rat)"
    using lt by (metis of_int_1 of_int_add of_int_le_iff)
  have "of_int (rhe x) - 1 / 2 \<le> x" "y \<le> of_int (rhe y) + 1 / 2" using a by linarith+
  with assms le have xy: "x = y" by linarith
  with lt show False by simp
qed

lemma rhe_lower: "of_int n \<le> z \<Longrightarrow> z < of_int n + 1 / 2 \<Longrightarrow> rhe z = n"
  unfolding rhe_eq_iff rounds_half_even_def by (intro disjI1) linarith

lemma rhe_upper: "of_int n + 1 / 2 < z \<Longrightarrow> z < of_int n + 1 \<Longrightarrow> rhe z = n + 1"
  unfolding rhe_eq_iff rounds_half_even_def of_int_add of_int_1 by (intro disjI1) linarith

lemma rhe_half: "rhe (of_int n + 1 / 2) = (if even n then n else n + 1)"
  by (auto simp: rhe_eq_iff rounds_half_even_def)

lemma rhe_near: "\<bar>x - of_int (rhe x)\<bar> \<le> 1 / 2"
  using rhe_rounds [of x] by (auto simp: rounds_half_even_def)


section \<open>Binary formats\<close>

text \<open>A format with \<open>p\<close> significand bits and smallest unit \<open>2 powi umin\<close>: the unit of a magnitude, the
  magnitude rounded to nearest with ties to even (before any overflow), and the magnitudes exactly
  half-way between two neighbours.\<close>

definition unit_exp :: "nat \<Rightarrow> int \<Rightarrow> rat \<Rightarrow> int" where
  "unit_exp p umin x = (if x = 0 then umin else max (flog2 x - (int p - 1)) umin)"

definition rnd :: "nat \<Rightarrow> int \<Rightarrow> rat \<Rightarrow> rat" where
  "rnd p umin x = of_int (rhe (x / two_powi (unit_exp p umin x))) * two_powi (unit_exp p umin x)"

definition midpoint_at :: "nat \<Rightarrow> int \<Rightarrow> rat \<Rightarrow> int \<Rightarrow> bool" where
  "midpoint_at p umin x n \<longleftrightarrow> x = (of_int n + 1 / 2) * two_powi (unit_exp p umin x)"

locale binary_format =
  fixes p :: nat and umin :: int
  assumes p: "0 < p"
begin

abbreviation unit :: "rat \<Rightarrow> int" where "unit \<equiv> unit_exp p umin"
abbreviation R :: "rat \<Rightarrow> rat" where "R \<equiv> rnd p umin"

lemma umin_le_unit: "umin \<le> unit x"
  by (simp add: unit_exp_def)

lemma unit_mono: "0 \<le> x \<Longrightarrow> x \<le> y \<Longrightarrow> unit x \<le> unit y"
  using flog2_mono [of x y] by (auto simp: unit_exp_def)

lemma below_unit_top:
  assumes "0 \<le> x"
  shows "x < two_powi (unit x + int p)"
proof (cases "x = 0")
  case True
  then show ?thesis by (simp add: two_powi_pos)
next
  case False
  then have "x < two_powi (flog2 x + 1)" using flog2_bounds [of x] assms by simp
  also have "\<dots> \<le> two_powi (unit x + int p)" unfolding two_powi_le_iff using False by (simp add: unit_exp_def)
  finally show ?thesis .
qed

lemma above_unit_bottom: "umin < unit x \<Longrightarrow> 0 < x \<Longrightarrow> two_powi (unit x + int p - 1) \<le> x"
  using flog2_ge_iff [of x "unit x + int p - 1"] by (auto simp: unit_exp_def split: if_splits)

text \<open>The unit of every magnitude in a cell \<open>[n * 2 powi u, (n + 1) * 2 powi u)\<close>.\<close>

lemma unit_cell:
  assumes "0 \<le> n" "n < 2 ^ p" "umin \<le> u" "u = umin \<or> 2 ^ (p - 1) \<le> n"
    and "of_int n * two_powi u \<le> x" "x < of_int (n + 1) * two_powi u"
  shows "unit x = u"
proof (cases "x = 0")
  case True
  then have "of_int n * two_powi u = 0" using assms(1,5) two_powi_pos [of u] by (simp add: zero_le_mult_iff mult_le_0_iff)
  then have "n = 0" using two_powi_pos [of u] by simp
  with assms(4) True show ?thesis by (simp add: unit_exp_def)
next
  case False
  have "0 \<le> of_int n * two_powi u" using assms(1) two_powi_pos [of u] by simp
  with False assms(5) have x: "0 < x" by linarith
  have "(of_int (n + 1) :: rat) \<le> of_int (2 ^ p)" using assms(2) by (simp only: of_int_le_iff)
  then have "of_int (n + 1) * two_powi u \<le> of_int (2 ^ p) * two_powi u"
    using two_powi_pos [of u] by (simp only: mult_le_cancel_right_pos)
  also have "of_int (2 ^ p) * two_powi u = two_powi (u + int p)" by (simp add: two_powi_add)
  finally have "x < two_powi (u + int p)" using assms(6) by linarith
  then have upper: "flog2 x < u + int p" using flog2_ge_iff [OF x, of "u + int p"] by linarith
  have lower: "u + int p - 1 \<le> flog2 x" if "u \<noteq> umin"
  proof -
    have "(of_int (2 ^ (p - 1)) :: rat) \<le> of_int n" using assms(4) that by (simp only: of_int_le_iff) simp
    then have "of_int (2 ^ (p - 1)) * two_powi u \<le> x"
      using assms(5) two_powi_pos [of u] by (meson mult_right_mono order_less_imp_le order_trans)
    moreover have "two_powi (u + int p - 1) = of_int (2 ^ (p - 1)) * two_powi u"
    proof -
      have "u + int p - 1 = int (p - 1) + u" using p by simp
      then show ?thesis by (simp only: two_powi_add power_int_of_nat of_int_power of_int_numeral)
    qed
    ultimately show ?thesis using flog2_ge_iff [OF x] by simp
  qed
  show ?thesis using upper lower assms(3) False by (cases "u = umin") (auto simp: unit_exp_def)
qed

lemma R_fixed:
  assumes "x = of_int n * two_powi e" "umin \<le> e" "0 \<le> n" "n < 2 ^ p"
  shows "R x = x"
proof (cases "x = 0")
  case True
  then show ?thesis using rhe_of_int [of 0] by (simp add: rnd_def)
next
  case False
  then have x: "0 < x" using assms(1,3) two_powi_pos [of e] by (simp add: zero_less_mult_iff less_le)
  have "(of_int n :: rat) < of_int (2 ^ p)" using assms(4) by (simp only: of_int_less_iff)
  then have "of_int n * two_powi e < of_int (2 ^ p) * two_powi e"
    using two_powi_pos [of e] by (simp only: mult_less_cancel_right_pos)
  then have "x < two_powi (e + int p)" using assms(1) by (simp add: two_powi_add mult.commute)
  then have "unit x \<le> e" using flog2_ge_iff [OF x, of "e + int p"] assms(2) False by (auto simp: unit_exp_def)
  then have "x / two_powi (unit x) = of_int (n * 2 ^ nat (e - unit x))"
    using two_powi_quotient [of "unit x" e] by (simp add: assms(1) field_simps)
  then have "R x = x / two_powi (unit x) * two_powi (unit x)" unfolding rnd_def by (simp only: rhe_of_int)
  then show ?thesis using two_powi_pos [of "unit x"] by simp
qed

lemma R_zero [simp]: "R 0 = 0"
  using rhe_of_int [of 0] by (simp add: rnd_def)


text \<open>A power of two at or above the unit of \<open>x\<close> separates rounded magnitudes.\<close>

lemma R_le_power:
  assumes "0 \<le> x" "x \<le> two_powi k" "unit x \<le> k"
  shows "R x \<le> two_powi k"
proof -
  have q: "two_powi k / two_powi (unit x) = of_int (2 ^ nat (k - unit x))" by (rule two_powi_quotient [OF assms(3)])
  have "x / two_powi (unit x) \<le> two_powi k / two_powi (unit x)"
    using assms(2) two_powi_pos [of "unit x"] by (simp add: divide_right_mono)
  then have "rhe (x / two_powi (unit x)) \<le> 2 ^ nat (k - unit x)" using rhe_mono rhe_of_int unfolding q by metis
  then have "of_int (rhe (x / two_powi (unit x))) \<le> two_powi k / two_powi (unit x)" unfolding q by (simp only: of_int_le_iff)
  then show ?thesis using two_powi_pos [of "unit x"] by (simp add: rnd_def field_simps)
qed

lemma R_ge_power:
  assumes "two_powi k \<le> x" "unit x \<le> k"
  shows "two_powi k \<le> R x"
proof -
  have q: "two_powi k / two_powi (unit x) = of_int (2 ^ nat (k - unit x))" by (rule two_powi_quotient [OF assms(2)])
  have "two_powi k / two_powi (unit x) \<le> x / two_powi (unit x)"
    using assms(1) two_powi_pos [of "unit x"] by (simp add: divide_right_mono)
  then have "2 ^ nat (k - unit x) \<le> rhe (x / two_powi (unit x))" using rhe_mono rhe_of_int unfolding q by metis
  then have "two_powi k / two_powi (unit x) \<le> of_int (rhe (x / two_powi (unit x)))" unfolding q by (simp only: of_int_le_iff)
  then show ?thesis using two_powi_pos [of "unit x"] by (simp add: rnd_def field_simps)
qed

lemma R_nonneg: "0 \<le> x \<Longrightarrow> 0 \<le> R x"
proof -
  assume "0 \<le> x"
  then have "0 \<le> x / two_powi (unit x)" using two_powi_pos [of "unit x"] by simp
  then have "0 \<le> rhe (x / two_powi (unit x))" using rhe_mono [of 0] rhe_of_int [of 0] by simp
  then show ?thesis using two_powi_pos [of "unit x"] by (simp add: rnd_def)
qed

lemma R_mono:
  assumes "0 \<le> x" "x \<le> y"
  shows "R x \<le> R y"
proof (cases "unit x = unit y")
  case True
  then have "x / two_powi (unit x) \<le> y / two_powi (unit y)"
    using assms(2) two_powi_pos [of "unit y"] by (simp add: divide_right_mono)
  then have "rhe (x / two_powi (unit x)) \<le> rhe (y / two_powi (unit y))" by (rule rhe_mono)
  then show ?thesis unfolding rnd_def True using two_powi_pos [of "unit y"] by (simp add: mult_right_mono)
next
  case False
  with unit_mono [OF assms] have lt: "unit x < unit y" by simp
  then have y: "0 < y" "umin < unit y" using assms umin_le_unit [of x] by (auto simp: unit_exp_def split: if_splits)
  let ?k = "unit y + int p - 1"
  have "two_powi ?k \<le> R y" using above_unit_bottom [OF y(2,1)] p by (intro R_ge_power) auto
  moreover have "R x \<le> two_powi ?k"
  proof (rule R_le_power [OF assms(1)])
    have "two_powi (unit x + int p) \<le> two_powi ?k" unfolding two_powi_le_iff using lt by simp
    then show "x \<le> two_powi ?k" using below_unit_top [OF assms(1)] by linarith
    show "unit x \<le> ?k" using lt p by simp
  qed
  ultimately show ?thesis by linarith
qed

text \<open>A rounded magnitude is representable: it is \<open>n\<close> units with \<open>n < 2 ^ p\<close>.\<close>

lemma R_representable:
  assumes "0 \<le> x"
  obtains n where "R x = of_int n * two_powi (unit (R x))" "0 \<le> n" "n < 2 ^ p"
    "unit (R x) = umin \<or> 2 ^ (p - 1) \<le> n" "unit x \<le> unit (R x)"
proof -
  define u q where "u = unit x" and "q = rhe (x / two_powi u)"
  have a: "R x = of_int q * two_powi u" by (simp add: rnd_def u_def q_def)
  have q0: "0 \<le> q" using R_nonneg [OF assms] two_powi_pos [of u] by (simp add: a zero_le_mult_iff)
  have "R x \<le> two_powi (u + int p)"
    using below_unit_top [OF assms] by (intro R_le_power assms) (auto simp: u_def)
  then have "of_int q * two_powi u \<le> of_int (2 ^ p) * two_powi u" by (simp add: a two_powi_add mult.commute)
  then have "(of_int q :: rat) \<le> of_int (2 ^ p)" using two_powi_pos [of u] by (simp only: mult_le_cancel_right_pos)
  then have qp: "q \<le> 2 ^ p" by (simp only: of_int_le_iff)
  have low: "2 ^ (p - 1) \<le> q" if "u \<noteq> umin"
  proof -
    have "umin < u" using that umin_le_unit [of x] by (simp add: u_def)
    moreover from this have "0 < x" using assms by (auto simp: u_def unit_exp_def split: if_splits)
    ultimately have "two_powi (u + int p - 1) \<le> R x"
      using above_unit_bottom [of x] p by (intro R_ge_power) (auto simp: u_def)
    moreover have "u + int p - 1 = int (p - 1) + u" using p by simp
    ultimately have "of_int (2 ^ (p - 1)) * two_powi u \<le> of_int q * two_powi u"
      by (simp only: a two_powi_add power_int_of_nat of_int_power of_int_numeral)
    then have "(of_int (2 ^ (p - 1)) :: rat) \<le> of_int q" using two_powi_pos [of u] by (simp only: mult_le_cancel_right_pos)
    then show ?thesis by (simp only: of_int_le_iff)
  qed
  have cell: "unit (of_int n * two_powi v) = v" if "0 \<le> n" "n < 2 ^ p" "umin \<le> v" "v = umin \<or> 2 ^ (p - 1) \<le> n" for n v
    using that two_powi_pos [of v] by (intro unit_cell [of n]) auto
  show thesis
  proof (cases "q < 2 ^ p")
    case True
    then have "unit (R x) = u" unfolding a using q0 low umin_le_unit [of x] by (intro cell) (auto simp: u_def)
    with True q0 low a show ?thesis by (intro that [of q]) (auto simp: u_def)
  next
    case False
    with qp have "q = 2 * 2 ^ (p - 1)" using p by (simp flip: power_Suc)
    then have a': "R x = of_int (2 ^ (p - 1)) * two_powi (u + 1)" by (simp add: a two_powi_add)
    have "(2 :: int) ^ (p - 1) < 2 ^ p" using p by (intro power_strict_increasing) auto
    moreover from this have "unit (R x) = u + 1"
      unfolding a' using umin_le_unit [of x] by (intro cell) (auto simp: u_def)
    ultimately show ?thesis using a' by (intro that [of "2 ^ (p - 1)"]) (auto simp: u_def)
  qed
qed

lemma R_idem: "0 \<le> x \<Longrightarrow> R (R x) = R x"
  by (elim R_representable) (metis R_fixed umin_le_unit)

lemma R_lower_half:
  assumes "0 \<le> n" "n < 2 ^ p" "umin \<le> u" "u = umin \<or> 2 ^ (p - 1) \<le> n"
    and "of_int n * two_powi u \<le> x" "x < (of_int n + 1 / 2) * two_powi u"
  shows "R x = of_int n * two_powi u"
proof -
  have "x < of_int (n + 1) * two_powi u"
    using assms(6) two_powi_pos [of u] by (simp only: distrib_right of_int_add of_int_1 mult_1_left)
  then have u: "unit x = u" using unit_cell assms(1-5) by blast
  have "of_int n \<le> x / two_powi u" "x / two_powi u < of_int n + 1 / 2"
    using assms(5,6) two_powi_pos [of u] by (simp_all add: pos_le_divide_eq pos_divide_less_eq)
  then have "rhe (x / two_powi u) = n" by (rule rhe_lower)
  then show ?thesis by (simp add: rnd_def u)
qed

lemma R_upper_half:
  assumes "0 \<le> n" "n < 2 ^ p" "umin \<le> u" "u = umin \<or> 2 ^ (p - 1) \<le> n"
    and "(of_int n + 1 / 2) * two_powi u < x" "x < of_int (n + 1) * two_powi u"
  shows "R x = of_int (n + 1) * two_powi u"
proof -
  have "of_int n * two_powi u \<le> x"
    using assms(5) two_powi_pos [of u] by (simp only: distrib_right)
  then have u: "unit x = u" using unit_cell assms(1-4,6) by blast
  have "of_int n + 1 / 2 < x / two_powi u" "x / two_powi u < of_int n + 1"
    using assms(5,6) two_powi_pos [of u] by (simp_all add: pos_less_divide_eq pos_divide_less_eq)
  then have "rhe (x / two_powi u) = n + 1" by (rule rhe_upper)
  then show ?thesis by (simp add: rnd_def u)
qed

text \<open>The gap above a magnitude is at least the gap below it: what lies no farther above it than a
  magnitude below it which rounds to it, rounds to it as well.\<close>

lemma R_mirror:
  assumes "0 \<le> y" "y < x" "R y = x" "0 \<le> d" "d \<le> x - y"
  shows "R (x + d) = x"
proof -
  have x0: "0 \<le> x" "R x = x" using assms(1-3) R_idem [OF assms(1)] by simp_all
  obtain n where n: "R x = of_int n * two_powi (unit (R x))" "0 \<le> n" "n < 2 ^ p" "unit (R x) = umin \<or> 2 ^ (p - 1) \<le> n"
    using R_representable [OF x0(1)] by metis
  define u where "u = unit x"
  have xn: "x = of_int n * two_powi u" "u = umin \<or> 2 ^ (p - 1) \<le> n" using n(1,4) by (simp_all add: x0(2) u_def)
  have pos: "0 < two_powi u" by (rule two_powi_pos)
  define w where "w = unit y"
  define r where "r = rhe (y / two_powi w)"
  have w: "0 < two_powi w" "two_powi w \<le> two_powi u"
    using two_powi_pos unit_mono [OF assms(1), of x] assms(2) by (auto simp: w_def u_def two_powi_le_iff)
  have r: "x = of_int r * two_powi w" using assms(3) by (simp add: rnd_def r_def w_def)
  have xy: "x - y = (of_int r - y / two_powi w) * two_powi w" using w(1) by (simp add: r left_diff_distrib)
  have half: "of_int r - y / two_powi w < 1 / 2 \<or> of_int r - y / two_powi w = 1 / 2 \<and> even r"
    using rhe_rounds [of "y / two_powi w"] unfolding rounds_half_even_def r_def [symmetric] by (auto simp: abs_if split: if_splits)
  have near: "d < 1 / 2 * two_powi u \<or> d = 1 / 2 * two_powi u \<and> even n"
  proof (cases "of_int r - y / two_powi w < 1 / 2")
    case True
    then have "x - y < 1 / 2 * two_powi w" unfolding xy using w(1) by (simp only: mult_less_cancel_right_pos)
    then show ?thesis using assms(5) w(2) by linarith
  next
    case False
    then have e: "x - y = 1 / 2 * two_powi w" "even r" using half unfolding xy by auto
    show ?thesis
    proof (cases "two_powi w = two_powi u")
      case True
      then have "r = n" using r xn(1) pos by simp
      then show ?thesis using e assms(5) True by auto
    next
      case False
      then show ?thesis using e(1) assms(5) w(2) by linarith
    qed
  qed
  have "d < two_powi u" using near pos by (elim disjE conjE) linarith+
  then have upper: "x + d < of_int (n + 1) * two_powi u" by (simp add: xn(1) distrib_right)
  have lower: "of_int n * two_powi u \<le> x + d" using assms(4) by (simp add: xn(1))
  have unit: "unit (x + d) = u"
    by (rule unit_cell [OF n(2,3) _ xn(2) lower upper]) (simp add: u_def umin_le_unit)
  have z: "(x + d) / two_powi u = of_int n + d / two_powi u" using pos by (simp add: xn(1) add_divide_distrib)
  have "rhe ((x + d) / two_powi u) = n"
    unfolding z rhe_eq_iff rounds_half_even_def
    using near assms(4) pos by (auto simp: pos_divide_less_eq)
  then show ?thesis unfolding rnd_def unit by (simp only: xn(1) [symmetric])
qed

lemma midpoint_unit:
  assumes "0 \<le> n" "n < 2 ^ p" "umin \<le> u" "u = umin \<or> 2 ^ (p - 1) \<le> n"
  shows "unit ((of_int n + 1 / 2) * two_powi u) = u" "midpoint_at p umin ((of_int n + 1 / 2) * two_powi u) n"
proof -
  show "unit ((of_int n + 1 / 2) * two_powi u) = u"
    using assms two_powi_pos [of u] by (intro unit_cell [of n]) (auto simp: algebra_simps)
  then show "midpoint_at p umin ((of_int n + 1 / 2) * two_powi u) n" by (simp add: midpoint_at_def)
qed

text \<open>Two magnitudes that round differently are separated by a midpoint.\<close>

lemma midpoint_between:
  assumes "0 \<le> x" "0 \<le> y" "R x < R y"
  obtains m n where "x \<le> m" "m \<le> y" "midpoint_at p umin m n" "0 \<le> n" "n < 2 ^ p"
proof -
  obtain n where n: "R x = of_int n * two_powi (unit (R x))" "0 \<le> n" "n < 2 ^ p"
    "unit (R x) = umin \<or> 2 ^ (p - 1) \<le> n" "unit x \<le> unit (R x)"
    using R_representable [OF assms(1)] by metis
  define u m where "u = unit (R x)" and "m = (of_int n + 1 / 2) * two_powi u"
  have u: "umin \<le> u" using umin_le_unit by (simp add: u_def)
  have mm: "m = R x + two_powi u / 2" by (simp add: m_def n(1) [folded u_def] algebra_simps)
  have "\<bar>x / two_powi (unit x) - of_int (rhe (x / two_powi (unit x)))\<bar> \<le> 1 / 2" by (rule rhe_near)
  then have "x / two_powi (unit x) \<le> of_int (rhe (x / two_powi (unit x))) + 1 / 2" by linarith
  then have "x \<le> (of_int (rhe (x / two_powi (unit x))) + 1 / 2) * two_powi (unit x)"
    using two_powi_pos [of "unit x"] by (simp add: pos_divide_le_eq)
  then have "x \<le> R x + two_powi (unit x) / 2" by (simp add: rnd_def algebra_simps)
  also have "\<dots> \<le> m" unfolding mm using n(5) two_powi_le_iff [of "unit x" u] by (simp add: u_def)
  finally have xm: "x \<le> m" .
  have my: "m \<le> y"
  proof (rule ccontr)
    assume "\<not> m \<le> y"
    then have y: "y < m" by simp
    have "R x < y"
    proof (rule ccontr)
      assume "\<not> R x < y"
      then have "R y \<le> R (R x)" using assms(2) by (intro R_mono) auto
      then show False using assms(1,3) R_idem by simp
    qed
    then have "R y = R x"
      using R_lower_half [of n u y] n u y by (simp add: m_def u_def)
    with assms(3) show False by simp
  qed
  show thesis
    using that [OF xm my _ n(2,3)] midpoint_unit(2) [of n u] n u by (simp add: m_def u_def)
qed

lemma midpoint_cell:
  assumes "midpoint_at p umin y n" "0 \<le> y"
  shows "0 \<le> n" "n < 2 ^ p" "unit y = umin \<or> 2 ^ (p - 1) \<le> n"
proof -
  define u where "u = unit y"
  have y: "y = (of_int n + 1 / 2) * two_powi u" using assms(1) by (simp add: midpoint_at_def u_def)
  have "0 \<le> of_int n + (1 / 2 :: rat)" using assms(2) two_powi_pos [of u] by (simp add: y zero_le_mult_iff)
  then show n: "0 \<le> n" by linarith
  have "(of_int n + 1 / 2) * two_powi u < of_int (2 ^ p) * two_powi u"
    unfolding y [symmetric] using below_unit_top [OF assms(2)] by (simp add: u_def two_powi_add mult.commute)
  then have "of_int n + 1 / 2 < (of_int (2 ^ p) :: rat)" using two_powi_pos [of u] by (simp only: mult_less_cancel_right_pos)
  then have "(of_int n :: rat) < of_int (2 ^ p)" by linarith
  then show "n < 2 ^ p" by (simp only: of_int_less_iff)
  show "unit y = umin \<or> 2 ^ (p - 1) \<le> n"
  proof (cases "u = umin")
    case False
    then have "umin < u" using umin_le_unit [of y] by (simp add: u_def)
    moreover have "0 < y" using n two_powi_pos [of u] by (simp add: y)
    ultimately have "two_powi (u + int p - 1) \<le> y" using above_unit_bottom [of y] by (simp add: u_def)
    moreover have "u + int p - 1 = int (p - 1) + u" using p by simp
    ultimately have "of_int (2 ^ (p - 1)) * two_powi u \<le> (of_int n + 1 / 2) * two_powi u"
      by (simp only: y two_powi_add power_int_of_nat of_int_power of_int_numeral)
    then have "of_int (2 ^ (p - 1)) \<le> of_int n + (1 / 2 :: rat)" using two_powi_pos [of u] by (simp only: mult_le_cancel_right_pos)
    then have "of_int (2 ^ (p - 1)) < (of_int (n + 1) :: rat)" by simp
    then have "2 ^ (p - 1) < n + 1" by (simp only: of_int_less_iff)
    then show ?thesis by simp
  qed (simp add: u_def)
qed

end

section \<open>Rounding twice\<close>

text \<open>A narrow format inside a wider one: the half-way magnitudes of the narrow format are exact in
  the wide one.\<close>

locale nested_formats = narrow: binary_format p umin + wide: binary_format p' umin'
  for p :: nat and umin :: int and p' :: nat and umin' :: int +
  assumes more_bits: "p < p'" and finer: "umin' < umin"
begin

lemma midpoint_wide_exact:
  assumes "midpoint_at p umin m n" "0 \<le> m"
  shows "wide.R m = m"
proof -
  define u where "u = narrow.unit m"
  note c = narrow.midpoint_cell [OF assms]
  have "m = (of_int n + 1 / 2) * two_powi u" using assms(1) by (simp add: midpoint_at_def u_def)
  also have "\<dots> = of_int (2 * n + 1) * two_powi (u - 1)" by (simp add: two_powi_diff algebra_simps)
  finally have m: "m = of_int (2 * n + 1) * two_powi (u - 1)" .
  have "umin' \<le> u - 1" using finer narrow.umin_le_unit [of m] by (simp add: u_def)
  moreover have "2 * n + 1 < 2 ^ p'"
  proof -
    have "2 * n + 1 < 2 ^ Suc p" using c(2) by simp
    also have "\<dots> \<le> (2 :: int) ^ p'" using more_bits by (intro power_increasing) auto
    finally show ?thesis .
  qed
  ultimately show ?thesis using c(1) by (intro wide.R_fixed [OF m]) auto
qed

lemma neighbour_wide_exact:
  assumes "0 \<le> n" "n \<le> 2 ^ p" "umin \<le> u"
  shows "wide.R (of_int n * two_powi u) = of_int n * two_powi u"
proof -
  have "(2 :: int) ^ p < 2 ^ p'" using more_bits by (intro power_strict_increasing) auto
  then have "n < 2 ^ p'" using assms(2) by linarith
  with assms finer show ?thesis by (intro wide.R_fixed [OF refl]) auto
qed

text \<open>Rounding through the wide format loses nothing unless it lands on a narrow midpoint.\<close>

lemma double_rounding_innocuous:
  assumes "0 \<le> x" "\<nexists>n. midpoint_at p umin (wide.R x) n"
  shows "narrow.R x = narrow.R (wide.R x)"
proof (rule ccontr)
  assume ne: "narrow.R x \<noteq> narrow.R (wide.R x)"
  have w: "0 \<le> wide.R x" using wide.R_nonneg [OF assms(1)] .
  consider "narrow.R x < narrow.R (wide.R x)" | "narrow.R (wide.R x) < narrow.R x" using ne by linarith
  then show False
  proof cases
    case 1
    then obtain m n where m: "x \<le> m" "m \<le> wide.R x" "midpoint_at p umin m n"
      by (rule narrow.midpoint_between [OF assms(1) w])
    have "wide.R x \<le> wide.R m" using wide.R_mono assms(1) m(1) by blast
    then have "wide.R x = m" using midpoint_wide_exact [OF m(3)] m assms(1) by simp
    with m(3) assms(2) show False by blast
  next
    case 2
    then obtain m n where m: "wide.R x \<le> m" "m \<le> x" "midpoint_at p umin m n"
      by (rule narrow.midpoint_between [OF w assms(1)])
    have "0 \<le> m" using m(1) w by linarith
    then have "wide.R m \<le> wide.R x" using wide.R_mono m(2) by blast
    then have "wide.R x = m" using midpoint_wide_exact [OF m(3) \<open>0 \<le> m\<close>] m(1) by simp
    with m(3) assms(2) show False by blast
  qed
qed

text \<open>On a midpoint, the side of the original magnitude decides.\<close>

lemma double_rounding_midpoint:
  assumes "0 \<le> x" "midpoint_at p umin (wide.R x) n"
  defines "u \<equiv> narrow.unit (wide.R x)"
  shows "x < wide.R x \<Longrightarrow> narrow.R x = of_int n * two_powi u"
    "wide.R x < x \<Longrightarrow> narrow.R x = of_int (n + 1) * two_powi u"
proof -
  let ?m = "wide.R x"
  have w: "0 \<le> ?m" using wide.R_nonneg [OF assms(1)] .
  note c = narrow.midpoint_cell [OF assms(2) w]
  have m: "?m = (of_int n + 1 / 2) * two_powi u" using assms(2) by (simp add: midpoint_at_def u_def)
  have u: "umin \<le> u" using narrow.umin_le_unit by (simp add: u_def)
  have t: "0 < two_powi u" by (rule two_powi_pos)
  have c3: "u = umin \<or> 2 ^ (p - 1) \<le> n" using c(3) by (simp add: u_def)
  show "narrow.R x = of_int n * two_powi u" if "x < ?m"
  proof (rule narrow.R_lower_half)
    show "of_int n * two_powi u \<le> x"
    proof (rule ccontr)
      assume "\<not> of_int n * two_powi u \<le> x"
      then have "?m \<le> wide.R (of_int n * two_powi u)" using assms(1) by (intro wide.R_mono) auto
      also have "\<dots> = of_int n * two_powi u" using c u by (intro neighbour_wide_exact) auto
      finally show False using t by (simp add: m)
    qed
  qed (use c(1,2) c3 u that [unfolded m] in auto)
  show "narrow.R x = of_int (n + 1) * two_powi u" if "?m < x"
  proof (rule narrow.R_upper_half)
    show "x < of_int (n + 1) * two_powi u"
    proof (rule ccontr)
      assume "\<not> x < of_int (n + 1) * two_powi u"
      then have "wide.R (of_int (n + 1) * two_powi u) \<le> ?m"
        using c t by (intro wide.R_mono) auto
      moreover have "wide.R (of_int (n + 1) * two_powi u) = of_int (n + 1) * two_powi u"
        using c u by (intro neighbour_wide_exact) auto
      ultimately show False using t by (simp add: m)
    qed
  qed (use c(1,2) c3 u that [unfolded m] in auto)
qed

end

section \<open>The formats of the language\<close>

interpretation binary16: binary_format 11 "- 24"
  by unfold_locales simp

interpretation binary32: binary_format 24 "- 149"
  by unfold_locales simp

interpretation binary64: binary_format 53 "- 1074"
  by unfold_locales simp

interpretation binary16_in_64: nested_formats 11 "- 24" 53 "- 1074"
  by unfold_locales simp_all

interpretation binary32_in_64: nested_formats 24 "- 149" 53 "- 1074"
  by unfold_locales simp_all

end
