(* ===== verification/Binary64.thy ===== *)
theory Binary64
  imports Binary_Rounding Decimal_Facts
begin

unbundle bit_operations_syntax

text \<open>
  The \<open>f64\<close> values of the Rust sources as 64-bit patterns: their fields and exact magnitudes, the
  operations of the standard library the numeric modules use (\<open>is_finite\<close>, \<open>abs\<close>, negation,
  \<open>to_bits\<close>/\<open>from_bits\<close>, which are the identity here), correctly rounded conversion of a rational
  magnitude, and \<open>str::parse\<close> on unsigned normalized literals.
\<close>

section \<open>Bit patterns\<close>

type_synonym f64 = u64

definition f64_exponent_field :: "f64 \<Rightarrow> nat" where
  "f64_exponent_field w = unat (drop_bit 52 w AND 0x7FF)"

definition f64_fraction :: "f64 \<Rightarrow> nat" where
  "f64_fraction w = unat (w AND mask 52)"

definition f64_is_sign_negative :: "f64 \<Rightarrow> bool" where
  "f64_is_sign_negative w \<longleftrightarrow> bit w 63"

definition f64_is_finite :: "f64 \<Rightarrow> bool" where
  "f64_is_finite w \<longleftrightarrow> f64_exponent_field w \<noteq> 2047"

definition f64_infinity :: f64 where
  "f64_infinity = push_bit 52 0x7FF"

definition f64_abs :: "f64 \<Rightarrow> f64" where
  "f64_abs w = w AND mask 63"

definition f64_neg :: "f64 \<Rightarrow> f64" where
  "f64_neg w = w XOR push_bit 63 1"

text \<open>The exact magnitude of a finite pattern.\<close>

definition f64_mag :: "f64 \<Rightarrow> rat" where
  "f64_mag w =
     (if f64_exponent_field w = 0 then of_nat (f64_fraction w) * two_powi (- 1074)
      else of_nat (2 ^ 52 + f64_fraction w) * two_powi (int (f64_exponent_field w) - 1075))"

section \<open>Correctly rounded magnitudes\<close>

text \<open>The pattern of a representable magnitude below \<open>2 powi 1024\<close>.\<close>

definition f64_bits :: "rat \<Rightarrow> f64" where
  "f64_bits y =
     (if y < two_powi (- 1022) then of_int \<lfloor>y * two_powi 1074\<rfloor>
      else of_int ((flog2 y + 1022) * 2 ^ 52 + \<lfloor>y * two_powi (52 - flog2 y)\<rfloor>))"

definition f64_round :: "rat \<Rightarrow> f64" where
  "f64_round x =
     (let y = rnd 53 (- 1074) x in if two_powi 1024 \<le> y then f64_infinity else f64_bits y)"

text \<open>The value of an unsigned decimal text \<open>digits[.digits][e[+-]digits]\<close>.\<close>

definition decimal_text_value :: "string \<Rightarrow> rat option" where
  "decimal_text_value t =
     (let (c, e) = (case split_once (CHR ''e'') t of Some (c, e) \<Rightarrow> (c, Some e) | None \<Rightarrow> (t, None));
          (i, f) = (case split_once (CHR ''.'') c of Some (i, f) \<Rightarrow> (i, Some f) | None \<Rightarrow> (c, None));
          x = (case e of None \<Rightarrow> ''0'' | Some s \<Rightarrow> strip_exponent_sign s);
          magnitude = int (digits_value x);
          ex = (if (case e of Some (ch # _) \<Rightarrow> ch = CHR ''-'' | _ \<Rightarrow> False) then - magnitude else magnitude);
          fd = (case f of None \<Rightarrow> [] | Some d \<Rightarrow> d)
      in if all_digits i \<and> i \<noteq> [] \<and> all_digits fd \<and> f \<noteq> Some [] \<and> all_digits x \<and> x \<noteq> []
         then Some (of_nat (digits_value (i @ fd)) * 10 powi (ex - int (length fd))) else None)"

text \<open>\<open>str::parse::<f64>\<close> on such a text: correctly rounded, with overflow to infinity.\<close>

definition parse_f64 :: "string \<Rightarrow> f64 option" where
  "parse_f64 t = map_option f64_round (decimal_text_value t)"

lemma decimal_text_value_literal:
  assumes "normal_parts ip fp ep"
  shows "decimal_text_value (literal_text ip fp ep) = Some (literal_value ip fp ep)"
proof -
  have c: "(case split_once (CHR ''.'') (literal_text ip fp None) of Some (i, f) \<Rightarrow> (i, Some f)
      | None \<Rightarrow> (literal_text ip fp None, None)) = (ip, fp)"
    unfolding split_literal_point [OF assms] by (auto simp: literal_text_def split: option.splits)
  have digits: "all_digits ip" "ip \<noteq> []" "all_digits (fraction_text fp)" "fp \<noteq> Some []"
    using assms by (auto simp: normal_parts_def fraction_text_def split: option.splits)
  have fd: "(case fp of None \<Rightarrow> [] | Some d \<Rightarrow> d) = fraction_text fp"
    by (simp add: fraction_text_def)
  show ?thesis
  proof (cases ep)
    case None
    then show ?thesis
      unfolding decimal_text_value_def split_literal_e [OF assms]
      using c digits by (simp add: fd literal_value_def coefficient_value_def exponent_value_def digits_value_Cons Let_def)
  next
    case (Some a)
    then obtain s x where ep: "ep = Some (s, x)" by fastforce
    with assms have x: "all_digits x" "x \<noteq> []" by (auto simp: normal_parts_def)
    note sx = strip_exponent_sign_text_append [OF x, of s]
    obtain ch r where chr: "exponent_sign_text s @ x = ch # r" using sx(3) by (cases "exponent_sign_text s @ x") auto
    have neg: "ch = CHR ''-'' \<longleftrightarrow> s = NegativeExponent" using sx(2) by (simp add: chr)
    show ?thesis
      unfolding decimal_text_value_def split_literal_e [OF assms]
      using c digits x sx(1) neg
      by (simp add: fd ep chr literal_value_def coefficient_value_def exponent_value_def Let_def)
  qed
qed

section \<open>Fields of a pattern\<close>

lemma f64_exponent_field_eq: "f64_exponent_field w = unat w div 2 ^ 52 mod 2048"
proof -
  have "(0x7FF :: u64) = mask 11" by (simp add: mask_eq_exp_minus_1)
  then have "f64_exponent_field w = unat (take_bit 11 (drop_bit 52 w))"
    by (simp only: f64_exponent_field_def take_bit_eq_mask)
  then show ?thesis
    by (simp add: take_bit_eq_mod drop_bit_eq_div unat_mod_distrib unat_div_distrib)
qed

lemma f64_fraction_eq: "f64_fraction w = unat w mod 2 ^ 52"
proof -
  have "f64_fraction w = unat (take_bit 52 w)" by (simp only: f64_fraction_def take_bit_eq_mask)
  then show ?thesis by (simp add: take_bit_eq_mod unat_mod_distrib)
qed

lemma f64_sign_eq: "f64_is_sign_negative w \<longleftrightarrow> 2 ^ 63 \<le> unat w"
proof -
  have "bit w 63 \<longleftrightarrow> odd (unat w div 2 ^ 63)"
    by (metis bit_iff_odd bit_unat)
  moreover have "unat w < 2 ^ 64" using unsigned_less [of w] by simp
  then have "unat w div 2 ^ 63 = (if 2 ^ 63 \<le> unat w then 1 else 0)"
    by (auto simp: div_nat_eqI)
  ultimately show ?thesis by (simp add: f64_is_sign_negative_def)
qed

lemma pattern_fields:
  assumes "e < 2048" "f < 2 ^ 52"
  defines "w \<equiv> (of_nat (e * 2 ^ 52 + f) :: f64)"
  shows "f64_exponent_field w = e" "f64_fraction w = f" "\<not> f64_is_sign_negative w"
proof -
  define n where "n = e * 2 ^ 52 + f"
  have "n < 2 ^ 64" using assms(1,2) by (simp add: n_def)
  moreover have "w = of_nat n" by (simp only: w_def n_def)
  ultimately have u: "unat w = e * 2 ^ 52 + f"
    by (simp add: unat_of_nat take_bit_nat_eq_self n_def [symmetric] del: of_nat_add of_nat_mult) (simp add: n_def)?
  then show "f64_exponent_field w = e" "f64_fraction w = f" "\<not> f64_is_sign_negative w"
    using assms(1,2) by (simp_all add: f64_exponent_field_eq f64_fraction_eq f64_sign_eq)
qed

lemma infinity_fields: "f64_exponent_field f64_infinity = 2047" "\<not> f64_is_finite f64_infinity"
  by code_simp+

text \<open>The magnitude of a finite pattern as a significand and an exponent.\<close>

lemma f64_mag_nonneg: "0 \<le> f64_mag w"
  using two_powi_pos by (simp add: f64_mag_def)

lemma f64_bits_small:
  assumes "y = of_int n * two_powi (- 1074)" "0 \<le> n" "n < 2 ^ 52"
  shows "f64_bits y = of_nat (0 * 2 ^ 52 + nat n)"
proof -
  have "(of_int n :: rat) < of_int (2 ^ 52)" using assms(3) by (simp only: of_int_less_iff)
  then have "y < of_int (2 ^ 52) * two_powi (- 1074)"
    unfolding assms(1) using two_powi_pos [of "- 1074"] by (simp only: mult_less_cancel_right_pos)
  also have "\<dots> = two_powi (int 52 + - 1074)" unfolding two_powi_add power_int_of_nat by simp
  finally have small: "y < two_powi (- 1022)" by simp
  have "y * two_powi 1074 = of_int n * two_powi (- 1074 + 1074)"
    unfolding assms(1) two_powi_add by (simp only: mult.assoc)
  then have "\<lfloor>y * two_powi 1074\<rfloor> = n" by simp
  moreover have "of_int n = (of_nat (nat n) :: f64)" using assms(2) by simp
  ultimately show ?thesis using small by (simp only: f64_bits_def if_True) simp
qed

lemma f64_bits_normal:
  assumes "y = of_int n * two_powi u" "2 ^ 52 \<le> n" "n < 2 ^ 53" "- 1074 \<le> u"
  shows "f64_bits y = of_nat (nat (u + 1075) * 2 ^ 52 + nat (n - 2 ^ 52))"
proof -
  have n: "(of_int (2 ^ 52) :: rat) \<le> of_int n" "(of_int n :: rat) < of_int (2 ^ 53)"
    using assms(2,3) by (simp_all only: of_int_less_iff of_int_le_iff)
  have "of_int (2 ^ 52) * two_powi u \<le> y" "y < of_int (2 ^ 53) * two_powi u"
    unfolding assms(1) using n two_powi_pos [of u] by (simp_all only: mult_less_cancel_right_pos mult_le_cancel_right_pos)
  moreover have "of_int (2 ^ 52) * two_powi u = two_powi (int 52 + u)" "of_int (2 ^ 53) * two_powi u = two_powi (int 53 + u)"
    unfolding two_powi_add power_int_of_nat by simp_all
  ultimately have y: "two_powi (u + 52) \<le> y" "y < two_powi (u + 52 + 1)" by (simp_all add: algebra_simps)
  then have log: "flog2 y = u + 52" by (rule flog2_unique)
  have "two_powi (- 1022) \<le> two_powi (u + 52)" unfolding two_powi_le_iff using assms(4) by simp
  with y(1) have big: "\<not> y < two_powi (- 1022)" by linarith
  have "y * two_powi (52 - flog2 y) = of_int n * two_powi (u + - u)"
    unfolding assms(1) log [unfolded assms(1)] two_powi_add by (simp add: mult.assoc)
  then have "\<lfloor>y * two_powi (52 - flog2 y)\<rfloor> = n" by simp
  moreover have "(flog2 y + 1022) * 2 ^ 52 + n = int (nat (u + 1075) * 2 ^ 52 + nat (n - 2 ^ 52))"
    using assms(2,4) by (simp add: log algebra_simps)
  ultimately show ?thesis using big unfolding f64_bits_def by (simp only: if_False of_int_of_nat_eq)
qed

text \<open>The pattern of a representable magnitude has that magnitude.\<close>

lemma f64_bits_mag:
  assumes "rnd 53 (- 1074) y = y" "0 \<le> y" "y < two_powi 1024"
  shows "f64_mag (f64_bits y) = y \<and> f64_is_finite (f64_bits y) \<and> \<not> f64_is_sign_negative (f64_bits y)"
proof -
  define u where "u = unit_exp 53 (- 1074) y"
  obtain n where n: "y = of_int n * two_powi u" "0 \<le> n" "n < 2 ^ 53" "u = - 1074 \<or> 2 ^ (53 - 1) \<le> n"
    using binary64.R_representable [OF assms(2)] unfolding assms(1) u_def by metis
  show ?thesis
  proof (cases "n < 2 ^ 52")
    case True
    with n(4) have u: "u = - 1074" by simp
    have f: "nat n < 2 ^ 52" using True by (simp add: nat_less_iff)
    show ?thesis
      using pattern_fields [of 0 "nat n"] f n(2) f64_bits_small [of y n] True
      by (simp add: n(1) u f64_mag_def f64_is_finite_def)
  next
    case False
    then have n52: "2 ^ 52 \<le> n" by simp
    have "two_powi (u + 52) \<le> y"
    proof -
      have "(of_int (2 ^ 52) :: rat) \<le> of_int n" using n52 by (simp only: of_int_le_iff)
      then have "of_int (2 ^ 52) * two_powi u \<le> y"
        unfolding n(1) using two_powi_pos [of u] by (simp only: mult_le_cancel_right_pos)
      moreover have "two_powi (int 52 + u) = of_int (2 ^ 52) * two_powi u" unfolding two_powi_add power_int_of_nat by simp
      ultimately show ?thesis by (simp add: add.commute)
    qed
    with assms(3) have "two_powi (u + 52) < two_powi 1024" by linarith
    then have u: "u < 972" unfolding two_powi_less_iff by simp
    have u0: "- 1074 \<le> u" using binary64.umin_le_unit by (simp add: u_def)
    have f: "nat (n - 2 ^ 52) < 2 ^ 52" using n(3) n52 by (simp add: nat_less_iff)
    have e: "nat (u + 1075) < 2047" "0 < nat (u + 1075)" using u u0 by auto
    have n': "of_nat (2 ^ 52 + nat (n - 2 ^ 52)) = (of_int n :: rat)"
    proof -
      have "int (2 ^ 52 + nat (n - 2 ^ 52)) = n" using n52 by simp
      then show ?thesis by (metis of_int_of_nat_eq)
    qed
    have u': "int (nat (u + 1075)) - 1075 = u" using u0 by simp
    have ee: "nat (u + 1075) \<noteq> 0" "nat (u + 1075) \<noteq> 2047" "nat (u + 1075) < 2048" using e by linarith+
    note w = f64_bits_normal [OF n(1) n52 n(3) u0]
    show ?thesis
      unfolding w f64_mag_def f64_is_finite_def pattern_fields [OF ee(3) f] n' u' using n(1) ee
      by (simp only: if_False not_False_eq_True simp_thms pattern_fields [OF ee(3) f])
  qed
qed

lemma f64_round_correct:
  assumes "0 \<le> x"
  shows "f64_is_finite (f64_round x) \<longleftrightarrow> rnd 53 (- 1074) x < two_powi 1024"
    "rnd 53 (- 1074) x < two_powi 1024 \<Longrightarrow>
       f64_mag (f64_round x) = rnd 53 (- 1074) x \<and> \<not> f64_is_sign_negative (f64_round x)"
  using f64_bits_mag [OF binary64.R_idem [OF assms] binary64.R_nonneg [OF assms]] infinity_fields
  by (auto simp: f64_round_def Let_def)

end
