(* ===== verification/Decimal_Compare.thy ===== *)
theory Decimal_Compare
  imports Decimal_Facts Binary_Rounding
begin

unbundle bit_operations_syntax

text \<open>
  The exact decimal comparison of \<open>binary16.rs\<close>: an authored magnitude text is reduced to significant
  digits and a power of ten, a binary magnitude is expanded to its terminating decimal, and the two
  digit runs are compared without folding the authored digits into a fixed-width integer. The theory
  shows that this is the comparison of the exact rational values.
\<close>

section \<open>Orderings\<close>

datatype ordering = Less | Equal | Greater

definition cmp :: "'a :: linorder \<Rightarrow> 'a \<Rightarrow> ordering" where
  "cmp x y = (if x < y then Less else if x = y then Equal else Greater)"

lemma cmp_eq_iff: "cmp x y = Less \<longleftrightarrow> x < y" "cmp x y = Equal \<longleftrightarrow> x = y" "cmp x y = Greater \<longleftrightarrow> y < x"
  by (auto simp: cmp_def)

lemma cmp_scale:
  fixes a b k :: rat
  shows "0 < k \<Longrightarrow> cmp (a * k) (b * k) = cmp a b"
  by (simp add: cmp_def)

lemma cmp_of_nat: "cmp (of_nat a :: rat) (of_nat b) = cmp a b"
  by (simp add: cmp_def)

section \<open>The code\<close>

type_synonym u128 = "128 word"

definition saturating_i64 :: "int \<Rightarrow> int" where
  "saturating_i64 x = max i64_min (min i64_max x)"

definition parse_decimal_exponent :: "string \<Rightarrow> int" where
  "parse_decimal_exponent s =
     (let (negative, digits) =
            (case strip_prefix ''-'' s of
               Some digits \<Rightarrow> (True, digits)
             | None \<Rightarrow> (False, case strip_prefix ''+'' s of Some d \<Rightarrow> d | None \<Rightarrow> s));
          exponent = foldl (\<lambda>e c. saturating_i64 (saturating_i64 (e * 10) + int (digit_of c))) 0 digits
      in if negative then - exponent else exponent)"

function pop_trailing_zeroes :: "string \<Rightarrow> int \<Rightarrow> string \<times> int" where
  "pop_trailing_zeroes digits scale =
     (if digits \<noteq> [] \<and> last digits = CHR ''0'' then pop_trailing_zeroes (butlast digits) (scale + 1)
      else (digits, scale))"
  by pat_completeness auto
termination by (relation "measure (\<lambda>(digits, scale). length digits)") auto

declare pop_trailing_zeroes.simps [simp del]

definition decompose_decimal_magnitude :: "string \<Rightarrow> string \<times> int" where
  "decompose_decimal_magnitude s =
     (let (mantissa, explicit_exponent) =
            (case split_once (CHR ''e'') s of
               Some (mantissa, exponent_text) \<Rightarrow> (mantissa, parse_decimal_exponent exponent_text)
             | None \<Rightarrow> (s, 0));
          (integer_digits, fractional_digits) =
            (case split_once (CHR ''.'') mantissa of
               Some (integer_digits, fractional_digits) \<Rightarrow> (integer_digits, fractional_digits)
             | None \<Rightarrow> (mantissa, []));
          digits = dropWhile (\<lambda>c. c = CHR ''0'') (integer_digits @ fractional_digits)
      in pop_trailing_zeroes digits (explicit_exponent - int (length fractional_digits)))"

text \<open>\<open><<\<close> on \<open>u128\<close>: a shift by the width or more panics in a build with overflow checks (the \<open>dev\<close>
  profile) and is taken modulo the width in one without (the \<open>release\<close> profile).\<close>

datatype arithmetic_panic = ShiftOverflow

definition shl_u128 :: "bool \<Rightarrow> u128 \<Rightarrow> nat \<Rightarrow> (arithmetic_panic, u128) result" where
  "shl_u128 overflow_checks w k =
     (if k < 128 then Inr (push_bit k w)
      else if overflow_checks then Inl ShiftOverflow
      else Inr (push_bit (k mod 128) w))"

definition binary_decimal_expansion :: "bool \<Rightarrow> u64 \<Rightarrow> int \<Rightarrow> (arithmetic_panic, u128 \<times> int) result" where
  "binary_decimal_expansion overflow_checks significand exponent =
     (if 0 \<le> exponent
      then map_sum id (\<lambda>shifted. (shifted, 0)) (shl_u128 overflow_checks (ucast significand) (nat exponent))
      else let denominator = nat (- exponent)
           in Inr (ucast significand * 5 ^ denominator, - int denominator))"

definition digit_or_zero :: "string \<Rightarrow> nat \<Rightarrow> char" where
  "digit_or_zero s index = (if index < length s then s ! index else CHR ''0'')"

fun compare_digit_loop :: "string \<Rightarrow> string \<Rightarrow> nat list \<Rightarrow> ordering" where
  "compare_digit_loop authored exact [] = Equal"
| "compare_digit_loop authored exact (index # indices) =
     (case cmp (byte (digit_or_zero authored index)) (byte (digit_or_zero exact index)) of
        Equal \<Rightarrow> compare_digit_loop authored exact indices
      | decided \<Rightarrow> decided)"

definition compare_scaled_decimals :: "string \<Rightarrow> int \<Rightarrow> u128 \<Rightarrow> int \<Rightarrow> ordering" where
  "compare_scaled_decimals authored_digits authored_scale exact_digits exact_scale =
     (let exact_text = nat_to_string (unat exact_digits);
          authored_position = authored_scale + int (length authored_digits);
          exact_position = exact_scale + int (length exact_text)
      in if authored_position \<noteq> exact_position then cmp authored_position exact_position
         else compare_digit_loop authored_digits exact_text
                [0..<max (length authored_digits) (length exact_text)])"

definition compare_decimal_magnitude :: "bool \<Rightarrow> string \<Rightarrow> u64 \<Rightarrow> int \<Rightarrow> (arithmetic_panic, ordering) result" where
  "compare_decimal_magnitude overflow_checks authored significand exponent =
     (let (authored_digits, authored_scale) = decompose_decimal_magnitude authored
      in if authored_digits = [] then Inr Less
         else map_sum id
                (\<lambda>(exact_digits, exact_scale).
                   compare_scaled_decimals authored_digits authored_scale exact_digits exact_scale)
                (binary_decimal_expansion overflow_checks significand exponent))"

section \<open>Digit runs of one length\<close>

fun lex_digits :: "string \<Rightarrow> string \<Rightarrow> ordering" where
  "lex_digits (c # s) (d # t) = (case cmp (digit_of c) (digit_of d) of Equal \<Rightarrow> lex_digits s t | decided \<Rightarrow> decided)"
| "lex_digits _ _ = Equal"

lemma digits_value_Cons_less:
  assumes "digit_of c < digit_of d" "all_digits s" "length s = length t"
  shows "digits_value (c # s) < digits_value (d # t)"
proof -
  have "digits_value (c # s) < Suc (digit_of c) * 10 ^ length s"
    using digits_value_less [OF assms(2)] by (simp add: digits_value_Cons)
  also have "\<dots> \<le> digit_of d * 10 ^ length t" unfolding assms(3) using assms(1) by (intro mult_le_mono1) simp
  finally show ?thesis by (simp add: digits_value_Cons)
qed

lemma lex_digits_cmp:
  "all_digits s \<Longrightarrow> all_digits t \<Longrightarrow> length s = length t \<Longrightarrow> lex_digits s t = cmp (digits_value s) (digits_value t)"
proof (induction s t rule: lex_digits.induct)
  case (1 c s d t)
  consider "digit_of c < digit_of d" | "digit_of c = digit_of d" | "digit_of d < digit_of c" by linarith
  then show ?case
  proof cases
    case 1
    then show ?thesis using "1.prems" digits_value_Cons_less [of c d s t] by (simp add: cmp_def)
  next
    case 2
    then have "cmp (digits_value (c # s)) (digits_value (d # t)) = cmp (digits_value s) (digits_value t)"
      using "1.prems" by (simp add: digits_value_Cons cmp_def)
    with 2 "1.IH" "1.prems" show ?thesis by (simp add: cmp_def)
  next
    case 3
    then show ?thesis using "1.prems" digits_value_Cons_less [of d c t s] by (simp add: cmp_def)
  qed
qed (simp_all add: cmp_def)

definition pad_digits :: "nat \<Rightarrow> string \<Rightarrow> string" where
  "pad_digits n s = s @ replicate (n - length s) (CHR ''0'')"

lemma map_digit_or_zero: "length s \<le> n \<Longrightarrow> map (digit_or_zero s) [0..<n] = pad_digits n s"
  by (intro nth_equalityI) (auto simp: pad_digits_def digit_or_zero_def nth_append)

lemma digit_or_zero_digit: "all_digits s \<Longrightarrow> is_ascii_digit (digit_or_zero s i)"
  by (auto simp: digit_or_zero_def all_digits_conv)

lemma cmp_byte: "is_ascii_digit c \<Longrightarrow> is_ascii_digit d \<Longrightarrow> cmp (byte c) (byte d) = cmp (digit_of c) (digit_of d)"
  by (auto simp: cmp_def is_ascii_digit_def digit_of_def)

lemma compare_digit_loop_lex:
  assumes "all_digits s" "all_digits t"
  shows "compare_digit_loop s t is = lex_digits (map (digit_or_zero s) is) (map (digit_or_zero t) is)"
  by (induction "is") (simp_all add: cmp_byte digit_or_zero_digit assms split: ordering.split)

lemma pad_digits_value:
  assumes "length s \<le> n"
  shows "(of_nat (digits_value s) :: rat) * 10 powi e = of_nat (digits_value (pad_digits n s)) * 10 powi (e + int (length s) - int n)"
proof -
  have "(10 :: rat) powi e = 10 ^ (n - length s) * 10 powi (e + int (length s) - int n)"
  proof -
    have "e = int (n - length s) + (e + int (length s) - int n)" using assms by simp
    then show ?thesis by (metis power_int_add power_int_of_nat zero_neq_numeral)
  qed
  then show ?thesis by (simp add: pad_digits_def digits_value_append)
qed

section \<open>Positions\<close>

lemma leading_digit_bounds:
  assumes "all_digits s" "s \<noteq> []" "hd s \<noteq> CHR ''0''"
  shows "10 powi (e + int (length s) - 1) \<le> (of_nat (digits_value s) :: rat) * 10 powi e"
    "(of_nat (digits_value s) :: rat) * 10 powi e < 10 powi (e + int (length s))"
proof -
  obtain c t where s: "s = c # t" using assms(2) by (cases s) auto
  have "0 < digit_of c" using assms digit_of_eq_0_iff [of c] by (simp add: s)
  then have "1 * 10 ^ length t \<le> digit_of c * 10 ^ length t" by (intro mult_le_mono1) simp
  then have "10 ^ length t \<le> digits_value s" unfolding s digits_value_Cons by linarith
  then have l: "(10 :: rat) ^ length t \<le> of_nat (digits_value s)" by (metis of_nat_le_iff of_nat_numeral of_nat_power)
  have "digits_value s < 10 ^ length s" using assms(1) by (rule digits_value_less)
  then have u: "of_nat (digits_value s) < (10 :: rat) ^ length s" by (metis of_nat_less_iff of_nat_numeral of_nat_power)
  have p: "0 < (10 :: rat) powi e" by simp
  have "(10 :: rat) powi (e + int (length s) - 1) = 10 ^ length t * 10 powi e"
  proof -
    have "e + int (length s) - 1 = int (length t) + e" by (simp add: s)
    then show ?thesis by (simp only: power_int_add power_int_of_nat) (simp add: power_int_add)
  qed
  then show "10 powi (e + int (length s) - 1) \<le> (of_nat (digits_value s) :: rat) * 10 powi e"
    using l p by (simp add: mult_right_mono)
  have "(10 :: rat) powi (e + int (length s)) = 10 ^ length s * 10 powi e"
    by (simp add: power_int_add)
  then show "(of_nat (digits_value s) :: rat) * 10 powi e < 10 powi (e + int (length s))"
    using u p by simp
qed

lemma leading_position_less:
  assumes "all_digits s" "s \<noteq> []" "hd s \<noteq> CHR ''0''" "all_digits t" "t \<noteq> []" "hd t \<noteq> CHR ''0''"
    and "e + int (length s) < f + int (length t)"
  shows "(of_nat (digits_value s) :: rat) * 10 powi e < of_nat (digits_value t) * 10 powi f"
proof -
  have "(10 :: rat) powi (e + int (length s)) \<le> 10 powi (f + int (length t) - 1)"
    using assms(7) by (intro power_int_increasing) auto
  then show ?thesis
    using leading_digit_bounds(2) [OF assms(1-3), of e] leading_digit_bounds(1) [OF assms(4-6), of f] by linarith
qed

lemma compare_scaled_decimals_cmp:
  assumes "all_digits s" "s \<noteq> []" "hd s \<noteq> CHR ''0''" "0 < unat d"
  shows "compare_scaled_decimals s e d f = cmp (of_nat (digits_value s) * 10 powi e :: rat) (of_nat (unat d) * 10 powi f)"
proof -
  define t where "t = nat_to_string (unat d)"
  have t: "all_digits t" "t \<noteq> []" "hd t \<noteq> CHR ''0''" "digits_value t = unat d"
    using hd_nat_to_string [OF assms(4)] by (simp_all add: t_def)
  define n where "n = max (length s) (length t)"
  have n: "length s \<le> n" "length t \<le> n" by (simp_all add: n_def)
  consider "e + int (length s) < f + int (length t)" | "f + int (length t) < e + int (length s)"
    | (same) "e + int (length s) = f + int (length t)" by linarith
  then show ?thesis
  proof cases
    case 1
    then show ?thesis using leading_position_less [OF assms(1-3) t(1-3) 1] t(4)
      by (simp add: compare_scaled_decimals_def t_def [symmetric] cmp_def Let_def)
  next
    case 2
    then show ?thesis using leading_position_less [OF t(1-3) assms(1-3) 2] t(4)
      by (simp add: compare_scaled_decimals_def t_def [symmetric] cmp_def Let_def)
  next
    case same
    have "compare_scaled_decimals s e d f = lex_digits (pad_digits n s) (pad_digits n t)"
      using same map_digit_or_zero [OF n(1)] map_digit_or_zero [OF n(2)]
      by (simp add: compare_scaled_decimals_def t_def [symmetric] n_def [symmetric] Let_def compare_digit_loop_lex [OF assms(1) t(1)])
    also have "\<dots> = cmp (digits_value (pad_digits n s)) (digits_value (pad_digits n t))"
      using assms(1) t(1) n by (intro lex_digits_cmp) (simp_all add: pad_digits_def)
    also have "\<dots> = cmp (of_nat (digits_value s) * 10 powi e :: rat) (of_nat (digits_value t) * 10 powi f)"
      unfolding pad_digits_value [OF n(1)] pad_digits_value [OF n(2)] same by (simp only: cmp_of_nat cmp_scale zero_less_power_int zero_less_numeral)
    finally show ?thesis by (simp add: t(4))
  qed
qed

section \<open>Decomposing an authored magnitude\<close>

lemma pop_trailing_zeroes_correct:
  assumes "all_digits s"
  shows "case pop_trailing_zeroes s e of (t, f) \<Rightarrow>
    all_digits t \<and> (t \<noteq> [] \<longrightarrow> hd t = hd s) \<and> (t = [] \<longrightarrow> (\<forall>c\<in>set s. c = CHR ''0'')) \<and>
    (of_nat (digits_value t) :: rat) * 10 powi f = of_nat (digits_value s) * 10 powi e"
  using assms
proof (induction s e rule: pop_trailing_zeroes.induct)
  case (1 s e)
  show ?case
  proof (cases "s \<noteq> [] \<and> last s = CHR ''0''")
    case False
    then show ?thesis using 1 by (subst pop_trailing_zeroes.simps) auto
  next
    case True
    then have s: "s = butlast s @ [CHR ''0'']" by (metis append_butlast_last_id)
    have b: "all_digits (butlast s)" using 1(2) by (subst (asm) s) simp
    have "digits_value s = 10 * digits_value (butlast s)"
      by (subst s) (simp add: digits_value_append digits_value_Cons)
    then have v: "(of_nat (digits_value s) :: rat) * 10 powi e = of_nat (digits_value (butlast s)) * 10 powi (e + 1)"
      by (simp add: power_int_add)
    have h: "butlast s \<noteq> [] \<longrightarrow> hd (butlast s) = hd s" by (metis s hd_append2)
    have z: "(\<forall>c\<in>set (butlast s). c = CHR ''0'') \<longrightarrow> (\<forall>c\<in>set s. c = CHR ''0'')"
      by (subst (2) s) simp
    have u: "pop_trailing_zeroes s e = pop_trailing_zeroes (butlast s) (e + 1)"
      using True by (subst pop_trailing_zeroes.simps) simp
    obtain t f where t: "pop_trailing_zeroes (butlast s) (e + 1) = (t, f)" by fastforce
    have "t \<noteq> [] \<longrightarrow> hd t = hd s"
    proof (cases "butlast s = []")
      case True
      then have "t = []" using t by (subst (asm) pop_trailing_zeroes.simps) simp
      then show ?thesis by simp
    next
      case False
      then show ?thesis using 1(1) [OF True b] h by (simp add: t)
    qed
    then show ?thesis using 1(1) [OF True b] z unfolding u v t prod.case by blast
  qed
qed

lemma saturating_fold:
  assumes "0 \<le> e" "e \<le> i64_max"
  shows "foldl (\<lambda>e c. saturating_i64 (saturating_i64 (e * 10) + int (digit_of c))) e s
    = min i64_max (e * 10 ^ length s + int (digits_value s))"
  using assms
proof (induction s arbitrary: e)
  case (Cons c s)
  define g where "g = saturating_i64 (saturating_i64 (e * 10) + int (digit_of c))"
  have g: "g = min i64_max (e * 10 + int (digit_of c))" "0 \<le> g" "g \<le> i64_max"
    using Cons.prems by (auto simp: g_def saturating_i64_def)
  have p: "1 \<le> (10 :: int) ^ length s" by simp
  have "min i64_max (g * 10 ^ length s + int (digits_value s))
      = min i64_max ((e * 10 + int (digit_of c)) * 10 ^ length s + int (digits_value s))"
  proof (cases "e * 10 + int (digit_of c) \<le> i64_max")
    case True
    then show ?thesis by (simp add: g(1))
  next
    case False
    then have "g = i64_max" by (simp add: g(1))
    moreover have "i64_max * 1 \<le> i64_max * 10 ^ length s" using p by (intro mult_left_mono) auto
    moreover have "i64_max * 10 ^ length s \<le> (e * 10 + int (digit_of c)) * 10 ^ length s"
      using False by (intro mult_right_mono) auto
    moreover have "0 \<le> int (digits_value s)" by simp
    ultimately have "i64_max \<le> g * 10 ^ length s + int (digits_value s)"
      "i64_max \<le> (e * 10 + int (digit_of c)) * 10 ^ length s + int (digits_value s)" by (metis add_increasing2 mult_1_right order_trans)+
    then show ?thesis by (simp only: min_absorb1)
  qed
  with Cons.IH [OF g(2,3)] show ?case by (simp add: g_def digits_value_Cons algebra_simps)
qed simp

lemma parse_decimal_exponent_text:
  assumes "all_digits x" "x \<noteq> []"
  shows "parse_decimal_exponent (exponent_sign_text s @ x) =
    (if s = NegativeExponent then - min i64_max (int (digits_value x)) else min i64_max (int (digits_value x)))"
proof -
  obtain c r where x: "x = c # r" "is_ascii_digit c" using assms by (cases x) auto
  then have "c \<noteq> CHR ''-''" "c \<noteq> CHR ''+''" using not_digit_chars by auto
  then show ?thesis
    using saturating_fold [of 0 x]
    by (cases s) (simp_all add: parse_decimal_exponent_def x(1) strip_prefix_def exponent_sign_text_def Let_def)
qed

lemma digits_value_dropWhile_0: "digits_value (dropWhile (\<lambda>c. c = CHR ''0'') s) = digits_value s"
  by (induction s) (auto simp: digits_value_Cons)

definition saturated_exponent :: "(numeric_exponent_sign \<times> string) option \<Rightarrow> int" where
  "saturated_exponent ep = max (- i64_max) (min i64_max (exponent_value ep))"

lemma decompose_literal:
  assumes "normal_parts ip fp ep"
  shows "case decompose_decimal_magnitude (literal_text ip fp ep) of (digits, scale) \<Rightarrow>
    all_digits digits \<and> (digits \<noteq> [] \<longrightarrow> hd digits \<noteq> CHR ''0'') \<and>
    (digits = [] \<longleftrightarrow> coefficient_value ip fp = 0) \<and>
    (of_nat (digits_value digits) :: rat) * 10 powi scale
      = of_nat (coefficient_value ip fp) * 10 powi (saturated_exponent ep - int (length (fraction_text fp)))"
proof -
  let ?d = "ip @ fraction_text fp" and ?e = "saturated_exponent ep - int (length (fraction_text fp))"
  let ?z = "dropWhile (\<lambda>c. c = CHR ''0'') ?d"
  have point: "(case split_once (CHR ''.'') (literal_text ip fp None) of Some (i, f) \<Rightarrow> (i, f)
      | None \<Rightarrow> (literal_text ip fp None, [])) = (ip, fraction_text fp)"
    unfolding split_literal_point [OF assms] by (auto simp: literal_text_def fraction_text_def split: option.splits)
  have expo: "(case split_once (CHR ''e'') (literal_text ip fp ep) of Some (m, x) \<Rightarrow> (m, parse_decimal_exponent x)
      | None \<Rightarrow> (literal_text ip fp ep, 0)) = (literal_text ip fp None, saturated_exponent ep)"
  proof (cases ep)
    case None
    then show ?thesis unfolding split_literal_e [OF assms] by (simp add: saturated_exponent_def exponent_value_def)
  next
    case (Some a)
    then obtain s x where ep: "ep = Some (s, x)" by fastforce
    with assms have x: "all_digits x" "x \<noteq> []" by (auto simp: normal_parts_def)
    show ?thesis
      unfolding split_literal_e [OF assms] using parse_decimal_exponent_text [OF x, of s]
      by (simp add: ep saturated_exponent_def exponent_value_def min_def max_def)
  qed
  have dec: "decompose_decimal_magnitude (literal_text ip fp ep) = pop_trailing_zeroes ?z ?e"
    by (simp only: decompose_decimal_magnitude_def Let_def expo point prod.case)
  have d: "all_digits ?d" using normal_parts_digits [OF assms] .
  then have z: "all_digits ?z" by (meson all_digits_conv set_dropWhileD)
  have hd: "?z \<noteq> [] \<Longrightarrow> hd ?z \<noteq> CHR ''0''" using hd_dropWhile [of "\<lambda>c. c = CHR ''0''" ?d] by simp
  have vz: "digits_value ?z = digits_value ?d" by (rule digits_value_dropWhile_0)
  obtain t f where t: "pop_trailing_zeroes ?z ?e = (t, f)" by fastforce
  note pop = pop_trailing_zeroes_correct [OF z, of ?e, unfolded t prod.case vz]
  have "t = [] \<longleftrightarrow> digits_value ?d = 0"
  proof
    assume "t = []"
    then have "digits_value ?z = 0" using pop digits_value_eq_0_iff [OF z] by blast
    then show "digits_value ?d = 0" by (simp only: vz)
  next
    assume "digits_value ?d = 0"
    then have "\<forall>c\<in>set ?z. c = CHR ''0''" using digits_value_eq_0_iff [OF z] vz by metis
    then have "?z = []" using hd by (metis list.set_sel(1))
    then have "pop_trailing_zeroes [] ?e = (t, f)" using t by (simp only:)
    then show "t = []" by (simp add: pop_trailing_zeroes.simps)
  qed
  moreover have "t \<noteq> [] \<longrightarrow> hd t \<noteq> CHR ''0''"
  proof
    assume "t \<noteq> []"
    moreover have "?z \<noteq> []"
    proof
      assume "?z = []"
      then have "pop_trailing_zeroes [] ?e = (t, f)" using t by (simp only:)
      with \<open>t \<noteq> []\<close> show False by (simp add: pop_trailing_zeroes.simps)
    qed
    ultimately show "hd t \<noteq> CHR ''0''" using pop hd by metis
  qed
  ultimately show ?thesis using pop unfolding dec t prod.case coefficient_value_def by blast
qed

section \<open>The exact comparison\<close>

lemma unat_of_nat_u128: "n < 2 ^ 128 \<Longrightarrow> unat (of_nat n :: u128) = n"
  by (simp add: unat_of_nat take_bit_nat_eq_self)

lemma ucast_u64_u128: "(ucast (w :: u64) :: u128) = of_nat (unat w)"
  by (simp add: unsigned_ucast_eq)

text \<open>Significands below \<open>2 ^ 12\<close> with exponents from -25 to 60 expand exactly: nothing is lost to the
  width of \<open>u128\<close>.\<close>

lemma binary_decimal_expansion_exact:
  assumes "unat w < 2 ^ 12" "- 25 \<le> e" "e \<le> 60"
  shows "\<exists>d f. binary_decimal_expansion checks w e = Inr (d, f) \<and>
    (of_nat (unat d) :: rat) * 10 powi f = of_nat (unat w) * two_powi e"
proof (cases "0 \<le> e")
  case True
  have "unat w * 2 ^ nat e < 2 ^ 12 * 2 ^ nat e" using assms(1) by simp
  also have "\<dots> \<le> 2 ^ 12 * 2 ^ 60" using assms(3) True by (intro mult_left_mono power_increasing) auto
  finally have b: "unat w * 2 ^ nat e < 2 ^ 128" by simp
  have "push_bit (nat e) (ucast w :: u128) = of_nat (unat w * 2 ^ nat e)"
    by (simp only: ucast_u64_u128 push_bit_eq_mult) simp
  then have "unat (push_bit (nat e) (ucast w :: u128)) = unat w * 2 ^ nat e"
    using unat_of_nat_u128 [OF b] by (simp only:)
  then have "(of_nat (unat (push_bit (nat e) (ucast w :: u128))) :: rat) = of_nat (unat w) * 2 ^ nat e"
    by (simp only: of_nat_mult of_nat_power of_nat_numeral)
  then show ?thesis using True assms(3)
    by (simp add: binary_decimal_expansion_def shl_u128_def power_int_nonneg_exp nat_less_iff)
next
  case False
  define k where "k = nat (- e)"
  have "unat w * 5 ^ k < 2 ^ 12 * 5 ^ k" using assms(1) by simp
  also have "\<dots> \<le> 2 ^ 12 * 5 ^ 25" using assms(2) by (intro mult_left_mono power_increasing) (auto simp: k_def)
  finally have b: "unat w * 5 ^ k < 2 ^ 128" by simp
  have "(ucast w :: u128) * 5 ^ k = of_nat (unat w * 5 ^ k)"
    by (simp only: ucast_u64_u128) simp
  then have u: "unat ((ucast w :: u128) * 5 ^ k) = unat w * 5 ^ k"
    using unat_of_nat_u128 [OF b] by (simp only:)
  have e: "e = - int k" using False by (simp add: k_def)
  have "(5 :: rat) ^ k * 10 powi (- int k) = two_powi (- int k)"
    by (simp add: power_int_minus field_simps flip: power_mult_distrib)
  moreover have "(of_nat (unat ((ucast w :: u128) * 5 ^ k)) :: rat) = of_nat (unat w) * 5 ^ k"
    unfolding u by (simp only: of_nat_mult of_nat_power of_nat_numeral)
  ultimately show ?thesis using False
    by (simp add: binary_decimal_expansion_def Let_def k_def [symmetric] e mult.assoc)
qed

lemma compare_decimal_magnitude_exact:
  assumes "normal_parts ip fp ep" "saturated_exponent ep = exponent_value ep"
    and "0 < unat w" "unat w < 2 ^ 12" "- 25 \<le> e" "e \<le> 60"
  shows "compare_decimal_magnitude checks (literal_text ip fp ep) w e
    = Inr (cmp (literal_value ip fp ep) (of_nat (unat w) * two_powi e))"
proof -
  obtain s sc where s: "decompose_decimal_magnitude (literal_text ip fp ep) = (s, sc)" by fastforce
  note dec = decompose_literal [OF assms(1), unfolded s prod.case assms(2) literal_value_def [symmetric]]
  obtain d f where d: "binary_decimal_expansion checks w e = Inr (d, f)"
    and ex: "(of_nat (unat d) :: rat) * 10 powi f = of_nat (unat w) * two_powi e"
    using binary_decimal_expansion_exact [OF assms(4-6), of checks] by blast
  have pos: "0 < of_nat (unat w) * two_powi e" 
    using assms(3) two_powi_pos [of e] by (simp only: mult_pos_pos of_nat_0_less_iff)
  show ?thesis
  proof (cases "s = []")
    case True
    then have "literal_value ip fp ep = 0" using dec by (simp add: literal_value_eq_0_iff)
    then show ?thesis using pos True by (simp add: compare_decimal_magnitude_def s cmp_def)
  next
    case False
    have "0 < unat d"
    proof (rule ccontr)
      assume "\<not> 0 < unat d"
      then show False using ex pos by simp
    qed
    then have "compare_scaled_decimals s sc d f = cmp (literal_value ip fp ep) (of_nat (unat w) * two_powi e)"
      using compare_scaled_decimals_cmp [of s d sc f] dec False ex by simp
    then show ?thesis using False by (simp add: compare_decimal_magnitude_def s d)
  qed
qed

end
