(* ===== verification/Binary16.thy ===== *)
theory Binary16
  imports Binary64 Decimal_Compare
begin

unbundle bit_operations_syntax

text \<open>
  Binary16 rounding of the lexical crate (\<open>binary16.rs\<close>): the integer rounding of an \<open>f64\<close> magnitude to
  eleven significand bits and the guard against double rounding of authored decimals. Binary16
  values are carried as exactly representable \<open>f64\<close> patterns, as in the code.
\<close>

section \<open>The code\<close>

definition f64_mantissa_bits :: nat where "f64_mantissa_bits = 52"
definition f64_mantissa_mask :: u64 where "f64_mantissa_mask = push_bit f64_mantissa_bits 1 - 1"
definition f64_exponent_mask :: u64 where "f64_exponent_mask = 0x7FF"
definition f64_exponent_bias :: int where "f64_exponent_bias = 1023"
definition f64_min_subnormal_exponent :: int where "f64_min_subnormal_exponent = - 1074"
definition f16_significand_bits :: int where "f16_significand_bits = 11"
definition f16_max_normal_exponent :: int where "f16_max_normal_exponent = 15"
definition f16_subnormal_ulp_exponent :: int where "f16_subnormal_ulp_exponent = - 24"

lemmas f16_constants = f64_mantissa_bits_def f64_exponent_mask_def f64_exponent_bias_def
  f64_min_subnormal_exponent_def f16_significand_bits_def f16_max_normal_exponent_def
  f16_subnormal_ulp_exponent_def

text \<open>\<open>u64::leading_zeros\<close>.\<close>

definition leading_zeros :: "u64 \<Rightarrow> nat" where
  "leading_zeros w = (if w = 0 then 64 else 63 - log2_nat (unat w))"

record f16_midpoint =
  below :: f64
  above :: f64
  mid_significand :: u64
  mid_exponent :: int

record f16_magnitude_rounding =
  rounded_value :: f64
  rounded_midpoint :: "f16_midpoint option"

definition scale_pow2 :: "u64 \<Rightarrow> int \<Rightarrow> f64" where
  "scale_pow2 significand exponent =
     (let highest_bit = 63 - leading_zeros significand;
          mantissa = push_bit (f64_mantissa_bits - highest_bit) significand AND f64_mantissa_mask;
          biased_exponent = of_int (exponent + int highest_bit + f64_exponent_bias)
      in push_bit f64_mantissa_bits biased_exponent OR mantissa)"

definition scaled_value :: "u64 \<Rightarrow> int \<Rightarrow> f64" where
  "scaled_value quot unit_exponent =
     (if quot = 0 then 0
      else let value_exponent = unit_exponent + (63 - int (leading_zeros quot))
           in if f16_max_normal_exponent < value_exponent then f64_infinity
              else scale_pow2 quot unit_exponent)"

definition midpoint_new :: "u64 \<Rightarrow> int \<Rightarrow> f16_midpoint" where
  "midpoint_new truncated unit_exponent =
     \<lparr> below = scaled_value truncated unit_exponent,
       above = scaled_value (truncated + 1) unit_exponent,
       mid_significand = push_bit 1 truncated OR 1,
       mid_exponent = unit_exponent - 1 \<rparr>"

definition decompose_magnitude :: "f64 \<Rightarrow> u64 \<times> int" where
  "decompose_magnitude bits =
     (let raw_exponent = int (unat (drop_bit f64_mantissa_bits bits AND f64_exponent_mask));
          fraction = bits AND f64_mantissa_mask
      in if raw_exponent = 0 then (fraction, f64_min_subnormal_exponent)
         else (fraction OR push_bit f64_mantissa_bits 1,
               raw_exponent - f64_exponent_bias - int f64_mantissa_bits))"

definition round_quotient :: "u64 \<Rightarrow> int \<Rightarrow> int \<Rightarrow> u64 \<times> f16_midpoint option" where
  "round_quotient significand unit_exponent shift =
     (if shift \<le> 0 then (push_bit (nat (- shift)) significand, None)
      else if shift < 64 then
        (let truncated = drop_bit (nat shift) significand;
             remainder = significand AND (push_bit (nat shift) 1 - 1);
             half = push_bit (nat shift - 1) 1;
             round_up = (half < remainder \<or> (remainder = half \<and> truncated AND 1 = 1));
             quot = truncated + (if round_up then 1 else 0)
         in (quot, if remainder = half then Some (midpoint_new truncated unit_exponent) else None))
      else (0, None))"

definition round_finite_magnitude_to_f16 :: "f64 \<Rightarrow> f16_magnitude_rounding" where
  "round_finite_magnitude_to_f16 magnitude =
     (if f64_abs magnitude = 0 then \<lparr> rounded_value = 0, rounded_midpoint = None \<rparr>
      else
        let (significand, exponent) = decompose_magnitude magnitude;
            leading_exponent = exponent + (63 - int (leading_zeros significand));
            unit_exponent = max (leading_exponent - (f16_significand_bits - 1)) f16_subnormal_ulp_exponent;
            (quot, midpoint) = round_quotient significand unit_exponent (unit_exponent - exponent)
        in \<lparr> rounded_value = scaled_value quot unit_exponent, rounded_midpoint = midpoint \<rparr>)"

definition round_f64_to_f16 :: "f64 \<Rightarrow> f64" where
  "round_f64_to_f16 v =
     (if \<not> f64_is_finite v then v
      else let rounded = rounded_value (round_finite_magnitude_to_f16 (f64_abs v))
           in if f64_is_sign_negative v then f64_neg rounded else rounded)"

text \<open>The choice between the neighbours of a reported midpoint.\<close>

definition resolve_midpoint :: "bool \<Rightarrow> string \<Rightarrow> f16_magnitude_rounding \<Rightarrow> (arithmetic_panic, f64) result" where
  "resolve_midpoint overflow_checks normalized rounding =
     (case rounded_midpoint rounding of
        Some midpoint \<Rightarrow>
          map_sum id
            (\<lambda>exact. case exact of
                 Less \<Rightarrow> below midpoint | Greater \<Rightarrow> above midpoint | Equal \<Rightarrow> rounded_value rounding)
            (compare_decimal_magnitude overflow_checks normalized (mid_significand midpoint) (mid_exponent midpoint))
      | None \<Rightarrow> Inr (rounded_value rounding))"

definition decimal_to_f16 :: "bool \<Rightarrow> string \<Rightarrow> bool \<Rightarrow> (arithmetic_panic, f64 option) result" where
  "decimal_to_f16 overflow_checks normalized negative =
     (if take 1 normalized = ''-'' \<or> take 1 normalized = ''+'' then Inr None
      else case parse_f64 normalized of
        None \<Rightarrow> Inr None
      | Some parsed \<Rightarrow>
          if \<not> f64_is_finite parsed then Inr None
          else map_sum id
                 (\<lambda>rounded. if \<not> f64_is_finite rounded then None
                           else Some (if negative then f64_neg rounded else rounded))
                 (resolve_midpoint overflow_checks normalized (round_finite_magnitude_to_f16 parsed)))"

section \<open>Rebuilding a binary16 magnitude\<close>

text \<open>The carrier of a rounded binary16 magnitude: infinity at and above \<open>2 powi 16\<close>.\<close>

definition f16_pattern :: "rat \<Rightarrow> f64" where
  "f16_pattern y = (if two_powi 16 \<le> y then f64_infinity else f64_bits y)"

lemma mantissa_mask_eq: "f64_mantissa_mask = mask 52"
  by (simp add: f64_mantissa_mask_def f64_mantissa_bits_def mask_eq_exp_minus_1 push_bit_eq_mult)

lemma highest_bit_eq:
  assumes "w \<noteq> 0"
  shows "63 - leading_zeros w = log2_nat (unat w)" "63 - int (leading_zeros w) = int (log2_nat (unat w))"
proof -
  have "unat w < 2 ^ 64" using unsigned_less [of w] by simp
  moreover have "0 < unat w" using assms by (simp add: unat_gt_0)
  ultimately have "log2_nat (unat w) < 64"
    using log2_nat_bounds [of "unat w"] by (meson le_less_trans one_less_numeral_iff power_strict_increasing_iff semiring_norm(76))
  then show "63 - leading_zeros w = log2_nat (unat w)" "63 - int (leading_zeros w) = int (log2_nat (unat w))"
    using assms by (simp_all add: leading_zeros_def)
qed

lemma or_disjoint_fields: "push_bit k (a :: u64) OR (b AND mask k) = push_bit k a + take_bit k b"
proof -
  have "push_bit k a AND take_bit k b = 0" by (auto simp: bit_eq_iff bit_simps)
  then show ?thesis by (simp add: disjunctive_add_eq_or take_bit_eq_mask)
qed

lemma scale_pow2_correct:
  assumes "0 < unat w" "unat w < 2 ^ 53" "- 1022 \<le> e" "e \<le> 900"
  shows "scale_pow2 w e = f64_bits (of_nat (unat w) * two_powi e)"
proof -
  define h where "h = log2_nat (unat w)"
  have w: "w \<noteq> 0" using assms(1) by auto
  have b: "2 ^ h \<le> unat w" "unat w < 2 ^ Suc h" using log2_nat_bounds [OF assms(1)] by (simp_all add: h_def)
  have "(2 :: nat) ^ h < 2 ^ 53" using b(1) assms(2) by linarith
  then have h: "h \<le> 52" using power_less_imp_less_exp [of "2 :: nat" h 53] by simp
  define n where "n = unat w * 2 ^ (52 - h)"
  have "2 ^ h * 2 ^ (52 - h) \<le> n" "n < 2 ^ Suc h * 2 ^ (52 - h)" using b by (simp_all add: n_def)
  moreover have "(2 :: nat) ^ h * 2 ^ (52 - h) = 2 ^ 52" "(2 :: nat) ^ Suc h * 2 ^ (52 - h) = 2 ^ 53"
    using h by (simp_all flip: power_add)
  ultimately have n: "2 ^ 52 \<le> n" "n < 2 ^ 53" by linarith+
  have y: "of_nat (unat w) * two_powi e = of_int (int n) * two_powi (e + int h - 52)"
  proof -
    have "two_powi e = 2 ^ (52 - h) * two_powi (e + int h - 52)"
    proof -
      have "e = int (52 - h) + (e + int h - 52)" using h by simp
      then show ?thesis by (metis power_int_of_nat two_powi_add)
    qed
    then show ?thesis by (simp only: n_def of_int_mult of_int_power of_int_numeral of_int_of_nat_eq of_nat_mult of_nat_power of_nat_numeral mult.assoc)
  qed
  have bits: "f64_bits (of_nat (unat w) * two_powi e)
      = of_nat (nat (e + int h - 52 + 1075) * 2 ^ 52 + nat (int n - 2 ^ 52))"
    using n assms(3) by (intro f64_bits_normal [OF y]) auto
  have m: "take_bit 52 (push_bit (52 - h) w) = of_nat (n - 2 ^ 52)"
  proof -
    have "push_bit (52 - h) w = of_nat n" by (simp add: n_def push_bit_eq_mult)
    moreover have "take_bit 52 n = n - 2 ^ 52" using n by (simp add: take_bit_eq_mod mod_nat_eqI)
    ultimately show ?thesis by (simp add: take_bit_of_nat)
  qed
  have ex: "e + int h + 1023 = int (nat (e + int h - 52 + 1075))" using assms(3) by simp
  have "scale_pow2 w e = push_bit 52 (of_int (e + int h + 1023)) + of_nat (n - 2 ^ 52)"
    unfolding scale_pow2_def highest_bit_eq(1) [OF w] h_def [symmetric] Let_def f16_constants mantissa_mask_eq
      or_disjoint_fields m by (simp add: add.assoc)
  also have "\<dots> = of_nat (nat (e + int h - 52 + 1075) * 2 ^ 52 + (n - 2 ^ 52))"
    unfolding ex by (simp only: push_bit_eq_mult of_int_of_nat_eq of_nat_add of_nat_mult of_nat_power of_nat_numeral)
  also have "n - 2 ^ 52 = nat (int n - 2 ^ 52)" using n by simp
  finally show ?thesis using bits by simp
qed

lemma flog2_scaled:
  assumes "0 < n"
  shows "flog2 (of_nat n * two_powi e) = int (log2_nat n) + e"
proof (rule flog2_unique)
  have b: "2 ^ log2_nat n \<le> n" "n < 2 ^ Suc (log2_nat n)" using log2_nat_bounds [OF assms] by simp_all
  have "(2 :: rat) ^ log2_nat n \<le> of_nat n" using b(1) by (metis of_nat_le_iff of_nat_numeral of_nat_power)
  then show "two_powi (int (log2_nat n) + e) \<le> of_nat n * two_powi e"
    unfolding two_powi_add using two_powi_pos [of e] by (simp only: power_int_of_nat mult_le_cancel_right_pos)
  have "of_nat n < (2 :: rat) ^ Suc (log2_nat n)" using b(2) by (metis of_nat_less_iff of_nat_numeral of_nat_power)
  moreover have "two_powi (int (log2_nat n) + e + 1) = 2 ^ Suc (log2_nat n) * two_powi e"
    by (simp add: two_powi_add)
  ultimately show "of_nat n * two_powi e < two_powi (int (log2_nat n) + e + 1)"
    using two_powi_pos [of e] by (simp only: mult_less_cancel_right_pos)
qed

lemma scaled_value_correct:
  assumes "unat w < 2 ^ 53" "- 1022 \<le> u"
  shows "scaled_value w u = f16_pattern (of_nat (unat w) * two_powi u)"
proof (cases "w = 0")
  case True
  have "f64_bits 0 = 0" using f64_bits_small [of 0 0] by simp
  moreover have "\<not> two_powi 16 \<le> 0" using two_powi_pos [of 16] by (simp only: not_le)
  ultimately show ?thesis by (simp add: scaled_value_def True f16_pattern_def)
next
  case False
  then have w: "0 < unat w" by (simp add: unat_gt_0)
  then have y: "0 < of_nat (unat w) * two_powi u" using two_powi_pos [of u] by (simp only: mult_pos_pos of_nat_0_less_iff)
  have big: "two_powi 16 \<le> of_nat (unat w) * two_powi u \<longleftrightarrow> 15 < u + int (log2_nat (unat w))"
    using flog2_ge_iff [OF y, of 16] unfolding flog2_scaled [OF w] by linarith
  show ?thesis
  proof (cases "15 < u + int (log2_nat (unat w))")
    case True
    then show ?thesis using False big
      by (simp only: scaled_value_def highest_bit_eq(2) [OF False] f16_constants f16_pattern_def Let_def if_True if_False)
  next
    case F: False
    then have "scale_pow2 w u = f64_bits (of_nat (unat w) * two_powi u)"
      using assms w by (intro scale_pow2_correct) auto
    then show ?thesis using False big F
      by (simp only: scaled_value_def highest_bit_eq(2) [OF False] f16_constants f16_pattern_def Let_def if_True if_False)
  qed
qed

section \<open>Rounding a significand\<close>

lemma rhe_shifted:
  fixes s k :: nat
  defines "t \<equiv> s div 2 ^ k" and "r \<equiv> s mod 2 ^ k"
  assumes "0 < k"
  shows "rhe (of_nat s / 2 ^ k) = int (t + (if 2 ^ (k - 1) < r \<or> r = 2 ^ (k - 1) \<and> odd t then 1 else 0))"
    "of_nat s / 2 ^ k = (of_int n + 1 / 2 :: rat) \<longleftrightarrow> r = 2 ^ (k - 1) \<and> n = int t"
proof -
  define h :: nat where "h = 2 ^ (k - 1)"
  have k: "(2 :: nat) ^ k = 2 * h" using assms(3) by (simp add: h_def flip: power_Suc)
  have h: "0 < h" by (simp add: h_def)
  have r: "r < 2 * h" using h unfolding r_def k by simp
  have "s = t * (2 * h) + r" unfolding t_def r_def k by (rule div_mult_mod_eq [symmetric])
  then have s: "(of_nat s :: rat) / 2 ^ k = of_int (int t) + of_nat r / (2 * of_nat h)"
    using h arg_cong [OF k, of "of_nat :: nat \<Rightarrow> rat"] by (simp add: field_simps)
  let ?f = "of_nat r / (2 * of_nat h) :: rat"
  have f: "0 \<le> ?f" "?f < 1" using r h by (auto simp: divide_simps)
  have lt: "?f < 1 / 2 \<longleftrightarrow> r < h" "?f = 1 / 2 \<longleftrightarrow> r = h" "1 / 2 < ?f \<longleftrightarrow> h < r" using h by (auto simp: divide_simps)
  consider "r < h" | "r = h" | "h < r" by linarith
  then show "rhe (of_nat s / 2 ^ k) = int (t + (if 2 ^ (k - 1) < r \<or> r = 2 ^ (k - 1) \<and> odd t then 1 else 0))"
  proof cases
    case 1
    then have "rhe (of_nat s / 2 ^ k) = int t" unfolding s using f lt by (intro rhe_lower) auto
    then show ?thesis using 1 by (simp add: h_def)
  next
    case 2
    then have "rhe (of_nat s / 2 ^ k) = (if even (int t) then int t else int t + 1)"
      unfolding s using rhe_half [of "int t"] lt(2) by metis
    then show ?thesis using 2 by (simp add: h_def)
  next
    case 3
    then have "rhe (of_nat s / 2 ^ k) = int t + 1" unfolding s using f lt by (intro rhe_upper) auto
    then show ?thesis using 3 by (simp add: h_def)
  qed
  show "of_nat s / 2 ^ k = (of_int n + 1 / 2 :: rat) \<longleftrightarrow> r = 2 ^ (k - 1) \<and> n = int t"
  proof
    assume e: "of_nat s / 2 ^ k = (of_int n + 1 / 2 :: rat)"
    then have "of_int n \<le> (of_nat s :: rat) / 2 ^ k" "(of_nat s :: rat) / 2 ^ k < of_int n + 1" by simp_all
    then have "\<lfloor>(of_nat s :: rat) / 2 ^ k\<rfloor> = n" by (intro floor_unique)
    moreover have "\<lfloor>(of_nat s :: rat) / 2 ^ k\<rfloor> = int t" unfolding s using f by (intro floor_unique) auto
    ultimately have n: "n = int t" by simp
    with e have "?f = 1 / 2" unfolding s by simp
    with n lt(2) show "r = 2 ^ (k - 1) \<and> n = int t" by (simp add: h_def)
  next
    assume "r = 2 ^ (k - 1) \<and> n = int t"
    then show "of_nat s / 2 ^ k = (of_int n + 1 / 2 :: rat)" unfolding s using lt(2) by (simp add: h_def)
  qed
qed

text \<open>What the rounded quotient and the reported midpoint are, for a magnitude \<open>x\<close> with unit exponent \<open>u\<close>.\<close>

definition quotient_contract :: "rat \<Rightarrow> int \<Rightarrow> u64 \<times> f16_midpoint option \<Rightarrow> bool" where
  "quotient_contract x u result \<longleftrightarrow>
     int (unat (fst result)) = rhe (x / two_powi u) \<and>
     (case snd result of
        None \<Rightarrow> \<forall>n. x / two_powi u \<noteq> of_int n + 1 / 2
      | Some m \<Rightarrow> \<exists>t. x / two_powi u = of_int (int (unat t)) + 1 / 2 \<and> m = midpoint_new t u)"

lemma half_not_int: "of_int a \<noteq> (of_int b + 1 / 2 :: rat)"
proof
  assume "of_int a = (of_int b + 1 / 2 :: rat)"
  then have "(of_int (2 * a) :: rat) = of_int (2 * b + 1)" by simp
  then have "2 * a = 2 * b + 1" by (simp only: of_int_eq_iff)
  then show False by presburger
qed

lemma round_quotient_left:
  assumes "u \<le> e" "of_nat (unat w) * two_powi e < two_powi (u + 11)"
  shows "quotient_contract (of_nat (unat w) * two_powi e) u (round_quotient w u (u - e))"
proof -
  define k where "k = nat (e - u)"
  have "two_powi e / two_powi u = of_int (2 ^ nat (e - u))" by (rule two_powi_quotient [OF assms(1)])
  then have q: "of_nat (unat w) * two_powi e / two_powi u = of_int (int (unat w * 2 ^ k))"
    by (simp only: times_divide_eq_right [symmetric] k_def of_int_mult of_int_power of_int_numeral of_int_of_nat_eq of_nat_mult of_nat_power of_nat_numeral)
  have "of_nat (unat w) * two_powi e / two_powi u < two_powi (u + 11) / two_powi u"
    using assms(2) two_powi_pos [of u] by (rule divide_strict_right_mono)
  also have "\<dots> = of_int (2 ^ 11)" using two_powi_quotient [of u "u + 11"] by simp
  finally have "unat w * 2 ^ k < 2 ^ 11" unfolding q of_int_less_iff
    by (metis of_nat_less_iff of_nat_numeral of_nat_power)
  then have "unat w * 2 ^ k < 2 ^ 64" by simp
  moreover have "push_bit k w = of_nat (unat w * 2 ^ k)" by (simp add: push_bit_eq_mult)
  ultimately have "unat (push_bit k w) = unat w * 2 ^ k" by (simp only: unat_of_nat take_bit_nat_eq_self len_num0 len_bit0) (simp add: take_bit_nat_eq_self)
  moreover have "round_quotient w u (u - e) = (push_bit k w, None)"
    using assms(1) by (simp add: round_quotient_def k_def)
  ultimately show ?thesis
    using half_not_int unfolding quotient_contract_def q rhe_of_int by (simp only: fst_conv snd_conv option.case) simp
qed

lemma round_quotient_far:
  assumes "e + 64 \<le> u" "unat w < 2 ^ 53"
  shows "quotient_contract (of_nat (unat w) * two_powi e) u (round_quotient w u (u - e))"
proof -
  let ?z = "of_nat (unat w) * two_powi e / two_powi u"
  have "(of_nat (unat w) :: rat) < of_nat (2 ^ 53)" using assms(2) by (simp only: of_nat_less_iff)
  moreover have "two_powi e / two_powi u \<le> two_powi (- 64)"
    unfolding two_powi_diff [symmetric] two_powi_le_iff using assms(1) by simp
  ultimately have "of_nat (unat w) * (two_powi e / two_powi u) \<le> of_nat (2 ^ 53) * two_powi (- 64)"
    using two_powi_pos [of e] two_powi_pos [of u] by (intro mult_mono) auto
  also have "of_nat (2 ^ 53) * two_powi (- 64) < 1 / 2" by simp
  finally have hi: "?z < 1 / 2" by (simp only: times_divide_eq_right)
  have lo: "0 \<le> ?z" using two_powi_pos [of e] two_powi_pos [of u]
    by (intro divide_nonneg_pos mult_nonneg_nonneg) (simp_all only: of_nat_0_le_iff less_imp_le)
  have "rhe ?z = 0" using hi lo by (intro rhe_lower) auto
  moreover have "?z \<noteq> of_int n + 1 / 2" for n :: int
  proof
    assume n: "?z = of_int n + 1 / 2"
    then have "(of_int n :: rat) < of_int 0" "(of_int (- 1) :: rat) < of_int n" using hi lo by auto
    then have "n < 0" "- 1 < n" by (simp_all only: of_int_less_iff)
    then show False by simp
  qed
  ultimately show ?thesis using assms(1) by (simp add: quotient_contract_def round_quotient_def)
qed

lemma unat_low_bits:
  assumes "k < 64"
  shows "unat (w AND (push_bit k 1 - 1) :: u64) = unat w mod 2 ^ k" "unat (push_bit k (1 :: u64)) = 2 ^ k"
proof -
  have "w AND (push_bit k 1 - 1) = take_bit k w"
    by (simp add: take_bit_eq_mask mask_eq_exp_minus_1 push_bit_eq_mult)
  then have "unat (w AND (push_bit k 1 - 1)) = take_bit k (unat w)" by (simp only: unsigned_take_bit_eq)
  then show "unat (w AND (push_bit k 1 - 1) :: u64) = unat w mod 2 ^ k" by (simp only: take_bit_eq_mod)
  show "unat (push_bit k (1 :: u64)) = 2 ^ k"
  proof -
    have "(2 :: nat) ^ k < 2 ^ 64" using assms by (intro power_strict_increasing) auto
    moreover have "push_bit k (1 :: u64) = of_nat (2 ^ k)" by (simp add: push_bit_eq_mult)
    ultimately show ?thesis by (simp only: unat_of_nat) (simp add: take_bit_nat_eq_self)
  qed
qed

lemma round_quotient_right:
  assumes "e < u" "u < e + 64" "unat w < 2 ^ 53"
  shows "quotient_contract (of_nat (unat w) * two_powi e) u (round_quotient w u (u - e))"
proof -
  define k where "k = nat (u - e)"
  have k: "0 < k" "k < 64" "int k = u - e" using assms by (auto simp: k_def)
  have q: "of_nat (unat w) * two_powi e / two_powi u = of_nat (unat w) / 2 ^ k"
  proof -
    have "u = int k + e" using k(3) by simp
    then have "two_powi u = 2 ^ k * two_powi e" by (simp only: two_powi_add power_int_of_nat)
    then show ?thesis using two_powi_pos [of e] by simp
  qed
  define t where "t = drop_bit k w"
  have t: "unat t = unat w div 2 ^ k" unfolding t_def unat_drop_bit_eq by (rule drop_bit_eq_div)
  have "unat t \<le> unat w" unfolding t by (rule div_le_dividend)
  then have t53: "unat t < 2 ^ 53" using assms(3) by linarith
  have odd: "t AND 1 = 1 \<longleftrightarrow> odd (unat t)"
    by (metis and_one_eq bit_0 bit_unat odd_iff_mod_2_eq_one)
  define c where "c \<longleftrightarrow> 2 ^ (k - 1) < unat w mod 2 ^ k \<or> (unat w mod 2 ^ k = 2 ^ (k - 1) \<and> odd (unat t))"
  have up: "(push_bit (k - 1) 1 < w AND (push_bit k 1 - 1)) \<longleftrightarrow> 2 ^ (k - 1) < unat w mod 2 ^ k"
    "(w AND (push_bit k 1 - 1) = push_bit (k - 1) 1) \<longleftrightarrow> unat w mod 2 ^ k = 2 ^ (k - 1)"
    using k unat_low_bits(1) [of k w] unat_low_bits(2) [of k] unat_low_bits(2) [of "k - 1"] by (simp_all add: word_less_nat_alt word_unat_eq_iff)
  have rq: "round_quotient w u (u - e) = (t + (if c then 1 else 0),
      if unat w mod 2 ^ k = 2 ^ (k - 1) then Some (midpoint_new t u) else None)"
  proof -
    have "\<not> u - e \<le> 0" "u - e < 64" using assms by simp_all
    then show ?thesis
      by (simp only: round_quotient_def if_False if_True k_def [symmetric] t_def [symmetric] Let_def up odd c_def)
  qed
  have "unat (t + (if c then 1 else 0)) = unat t + (if c then 1 else 0)"
    using t53 by (auto simp: unat_word_ariths take_bit_nat_eq_self)
  then have A: "int (unat (t + (if c then 1 else 0))) = rhe (of_nat (unat w) / 2 ^ k)"
    using rhe_shifted(1) [OF k(1), where s = "unat w"] by (simp only: c_def t)
  have B: "of_nat (unat w) / 2 ^ k = of_int n + (1 / 2 :: rat) \<longleftrightarrow> unat w mod 2 ^ k = 2 ^ (k - 1) \<and> n = int (unat t)" for n
    using rhe_shifted(2) [OF k(1), where s = "unat w" and n = n] by (simp only: t)
  show ?thesis
  proof (cases "unat w mod 2 ^ k = 2 ^ (k - 1)")
    case True
    then show ?thesis using A B [of "int (unat t)"]
      unfolding quotient_contract_def q rq fst_conv snd_conv by (simp only: simp_thms if_True option.case) blast
  next
    case False
    then show ?thesis using A B
      unfolding quotient_contract_def q rq fst_conv snd_conv by (simp only: if_False option.case) blast
  qed
qed

lemma round_quotient_correct:
  assumes "unat w < 2 ^ 53" "of_nat (unat w) * two_powi e < two_powi (u + 11)"
  shows "quotient_contract (of_nat (unat w) * two_powi e) u (round_quotient w u (u - e))"
  using round_quotient_left round_quotient_far round_quotient_right assms by (meson not_le)

section \<open>Rounding an \<open>f64\<close> magnitude\<close>

lemma decompose_magnitude_correct:
  assumes "decompose_magnitude w = (s, e)"
  shows "f64_mag w = of_nat (unat s) * two_powi e" "unat s < 2 ^ 53"
proof -
  have fr: "unat (w AND mask 52) < 2 ^ 52"
    using f64_fraction_eq [of w] by (simp only: f64_fraction_def) simp
  have "unat ((w AND mask 52) OR push_bit 52 1) = 2 ^ 52 + unat (w AND mask 52)"
  proof -
    have "(w AND mask 52) OR push_bit 52 1 = of_nat (2 ^ 52 + unat (w AND mask 52))"
      using or_disjoint_fields [of 52 1 w] by (simp add: or.commute take_bit_eq_mask push_bit_eq_mult)
    then show ?thesis using fr by (simp only: unat_of_nat) (simp add: take_bit_nat_eq_self)
  qed
  note su = this
  define x where "x = f64_exponent_field w"
  have d: "decompose_magnitude w = (if x = 0 then (w AND mask 52, - 1074)
      else ((w AND mask 52) OR push_bit 52 1, int x - 1075))"
    by (simp only: decompose_magnitude_def f16_constants mantissa_mask_eq Let_def f64_exponent_field_def [symmetric]
      x_def [symmetric] of_nat_eq_0_iff) simp
  have m: "f64_mag w = (if x = 0 then of_nat (unat (w AND mask 52)) * two_powi (- 1074)
      else of_nat (2 ^ 52 + unat (w AND mask 52)) * two_powi (int x - 1075))"
    by (simp only: f64_mag_def x_def f64_fraction_def)
  have "f64_mag w = of_nat (unat s) * two_powi e \<and> unat s < 2 ^ 53"
  proof (cases "x = 0")
    case True
    then have "s = w AND mask 52" "e = - 1074" using assms unfolding d by simp_all
    moreover have "unat (w AND mask 52) < 2 ^ 53" using fr by simp
    ultimately show ?thesis using True unfolding m by (simp_all only: simp_thms if_True)
  next
    case False
    then have s: "s = (w AND mask 52) OR push_bit 52 1" and e: "e = int x - 1075"
      using assms unfolding d by (simp_all only: if_False prod.inject)
    have "unat s < 2 ^ 53" unfolding s su using fr by simp
    moreover have "f64_mag w = of_nat (unat s) * two_powi e" unfolding m s e su using False by (simp only: if_False)
    ultimately show ?thesis by blast
  qed
  then show "f64_mag w = of_nat (unat s) * two_powi e" "unat s < 2 ^ 53" by blast+
qed

lemma unat_f64_abs: "unat (f64_abs w) = unat w mod 2 ^ 63"
proof -
  have "f64_abs w = take_bit 63 w" by (simp add: f64_abs_def take_bit_eq_mask)
  then have "unat (f64_abs w) = take_bit 63 (unat w)" by (simp only: unsigned_take_bit_eq)
  then show ?thesis by (simp only: take_bit_eq_mod)
qed

lemma split_63: "n mod 2 ^ 63 = (n div 2 ^ 52 mod 2048) * 2 ^ 52 + n mod 2 ^ 52" for n :: nat
  using mod_mult2_eq [of n "2 ^ 52" 2048] by simp

lemma f64_abs_fields: "f64_exponent_field (f64_abs w) = f64_exponent_field w" "f64_fraction (f64_abs w) = f64_fraction w"
  "\<not> f64_is_sign_negative (f64_abs w)"
proof -
  have l: "n mod 2 ^ 52 < 2 ^ 52" "n div 2 ^ 52 mod 2048 < 2048" for n :: nat by simp_all
  show "f64_exponent_field (f64_abs w) = f64_exponent_field w" "f64_fraction (f64_abs w) = f64_fraction w"
    unfolding f64_exponent_field_eq f64_fraction_eq unat_f64_abs split_63 using l by simp_all
  have "unat w mod 2 ^ 63 < 2 ^ 63" by simp
  then show "\<not> f64_is_sign_negative (f64_abs w)" unfolding f64_sign_eq unat_f64_abs by linarith
qed

lemma f64_abs_facts: "f64_mag (f64_abs w) = f64_mag w" "f64_is_finite (f64_abs w) \<longleftrightarrow> f64_is_finite w"
  by (simp_all only: f64_mag_def f64_is_finite_def f64_abs_fields)

lemma f64_mag_eq_0_iff: "f64_mag w = 0 \<longleftrightarrow> f64_abs w = 0"
proof -
  have "f64_mag w = 0 \<longleftrightarrow> f64_exponent_field w = 0 \<and> f64_fraction w = 0"
  proof (cases "f64_exponent_field w = 0")
    case True
    then show ?thesis using two_powi_pos [of "- 1074"] by (simp add: f64_mag_def)
  next
    case False
    have "(0 :: rat) < of_nat (2 ^ 52 + f64_fraction w)" by (simp only: of_nat_0_less_iff) simp
    then have "0 < f64_mag w" using False two_powi_pos [of "int (f64_exponent_field w) - 1075"]
      by (simp only: f64_mag_def if_False mult_pos_pos)
    then show ?thesis using False by simp
  qed
  also have "\<dots> \<longleftrightarrow> unat (f64_abs w) = 0"
    unfolding f64_exponent_field_eq f64_fraction_eq unat_f64_abs split_63 by auto
  finally show ?thesis by (simp add: word_unat_eq_iff)
qed

lemma midpoint_new_correct:
  assumes "unat t < 2 ^ 11" "- 24 \<le> u"
  shows "below (midpoint_new t u) = f16_pattern (of_int (int (unat t)) * two_powi u)"
    "above (midpoint_new t u) = f16_pattern (of_int (int (unat t) + 1) * two_powi u)"
    "of_nat (unat (mid_significand (midpoint_new t u))) * two_powi (mid_exponent (midpoint_new t u))
       = (of_int (int (unat t)) + 1 / 2) * two_powi u"
    "0 < unat (mid_significand (midpoint_new t u))" "unat (mid_significand (midpoint_new t u)) < 2 ^ 12"
    "mid_exponent (midpoint_new t u) = u - 1"
proof -
  have t1: "unat (t + 1) = unat t + 1" using assms(1) by (simp add: unat_word_ariths take_bit_nat_eq_self)
  have b: "unat t < 2 ^ 53" "unat (t + 1) < 2 ^ 53" using assms(1) t1 by simp_all
  show "below (midpoint_new t u) = f16_pattern (of_int (int (unat t)) * two_powi u)"
    using scaled_value_correct [OF b(1), of u] assms(2) by (simp add: midpoint_new_def)
  have "of_nat (unat (t + 1)) = (of_int (int (unat t) + 1) :: rat)" unfolding t1 by simp
  then show "above (midpoint_new t u) = f16_pattern (of_int (int (unat t) + 1) * two_powi u)"
    using scaled_value_correct [OF b(2), of u] assms(2) by (simp only: midpoint_new_def f16_midpoint.simps)
  have m: "unat (mid_significand (midpoint_new t u)) = 2 * unat t + 1"
  proof -
    have "push_bit 1 t OR 1 = push_bit 1 t + 1"
      using or_disjoint_fields [of 1 t 1] by (simp add: mask_eq_exp_minus_1)
    also have "\<dots> = of_nat (2 * unat t + 1)" by (simp add: push_bit_eq_mult)
    finally show ?thesis using assms(1) by (simp add: midpoint_new_def unat_word_ariths take_bit_nat_eq_self)
  qed
  show "of_nat (unat (mid_significand (midpoint_new t u))) * two_powi (mid_exponent (midpoint_new t u))
       = (of_int (int (unat t)) + 1 / 2) * two_powi u"
    unfolding m by (simp add: midpoint_new_def two_powi_diff algebra_simps)
  show "0 < unat (mid_significand (midpoint_new t u))" "unat (mid_significand (midpoint_new t u)) < 2 ^ 12"
    unfolding m using assms(1) by simp_all
  show "mid_exponent (midpoint_new t u) = u - 1" by (simp add: midpoint_new_def)
qed

text \<open>What rounding a magnitude with exact value \<open>x\<close> returns.\<close>

definition f16_rounding_contract :: "rat \<Rightarrow> f16_magnitude_rounding \<Rightarrow> bool" where
  "f16_rounding_contract x r \<longleftrightarrow>
     rounded_value r = f16_pattern (rnd 11 (- 24) x) \<and>
     (case rounded_midpoint r of
        None \<Rightarrow> \<forall>n. \<not> midpoint_at 11 (- 24) x n
      | Some m \<Rightarrow>
          \<exists>n. midpoint_at 11 (- 24) x n \<and>
            below m = f16_pattern (of_int n * two_powi (unit_exp 11 (- 24) x)) \<and>
            above m = f16_pattern (of_int (n + 1) * two_powi (unit_exp 11 (- 24) x)) \<and>
            of_nat (unat (mid_significand m)) * two_powi (mid_exponent m) = x \<and>
            0 < unat (mid_significand m) \<and> unat (mid_significand m) < 2 ^ 12 \<and>
            mid_exponent m = unit_exp 11 (- 24) x - 1)"

lemma round_zero_contract: "f16_rounding_contract 0 \<lparr> rounded_value = 0, rounded_midpoint = None \<rparr>"
proof -
  have "f64_bits 0 = 0" using f64_bits_small [of 0 0] by simp
  moreover have "\<not> two_powi 16 \<le> 0" by simp
  moreover have "\<not> midpoint_at 11 (- 24) 0 n" for n
  proof
    assume "midpoint_at 11 (- 24) 0 n"
    then have "(of_int n + 1 / 2 :: rat) = 0" using two_powi_pos [of "unit_exp 11 (- 24) 0"] by (auto simp: midpoint_at_def)
    then have "of_int (- 1 - n) = (of_int n :: rat)" by simp
    then have "- 1 - n = n" by (simp only: of_int_eq_iff)
    then show False by presburger
  qed
  ultimately show ?thesis by (simp add: f16_rounding_contract_def f16_pattern_def)
qed

lemma unit_exp_scaled:
  assumes "w \<noteq> 0"
  shows "max (e + (63 - int (leading_zeros w)) - (f16_significand_bits - 1)) f16_subnormal_ulp_exponent
    = unit_exp 11 (- 24) (of_nat (unat w) * two_powi e)"
proof -
  have w: "0 < unat w" using assms by (simp add: unat_gt_0)
  then have "of_nat (unat w) * two_powi e \<noteq> 0" using two_powi_pos [of e] by (simp add: less_imp_neq del: of_nat_unat)
  then show ?thesis
    unfolding unit_exp_def flog2_scaled [OF w] highest_bit_eq(2) [OF assms] f16_constants
    by (simp add: algebra_simps)
qed

lemma round_finite_contract: "f16_rounding_contract (f64_mag w) (round_finite_magnitude_to_f16 w)"
proof (cases "f64_abs w = 0")
  case True
  then have "f64_mag w = 0" by (simp add: f64_mag_eq_0_iff)
  then show ?thesis using round_zero_contract True by (simp add: round_finite_magnitude_to_f16_def)
next
  case False
  obtain s e where se: "decompose_magnitude w = (s, e)" by fastforce
  note x = decompose_magnitude_correct [OF se]
  define u where "u = unit_exp 11 (- 24) (f64_mag w)"
  have pos: "0 < f64_mag w" using False f64_mag_nonneg [of w] f64_mag_eq_0_iff [of w] by simp
  then have s: "s \<noteq> 0" using x(1) by auto
  obtain q m where qm: "round_quotient s u (u - e) = (q, m)" by fastforce
  have top: "f64_mag w < two_powi (u + 11)" using binary16.below_unit_top [of "f64_mag w"] pos by (simp add: u_def)
  have c: "quotient_contract (f64_mag w) u (q, m)"
    using round_quotient_correct [OF x(2), of e u] top unfolding qm x(1) by blast
  have u24: "- 24 \<le> u" using binary16.umin_le_unit by (simp add: u_def)
  have r: "round_finite_magnitude_to_f16 w = \<lparr> rounded_value = scaled_value q u, rounded_midpoint = m \<rparr>"
    using False by (simp only: round_finite_magnitude_to_f16_def if_False se Let_def prod.case
        unit_exp_scaled [OF s] x(1) [symmetric] u_def [symmetric] qm)
  have q: "rnd 11 (- 24) (f64_mag w) = of_nat (unat q) * two_powi u"
  proof -
    have "int (unat q) = rhe (f64_mag w / two_powi u)" using c by (simp only: quotient_contract_def fst_conv)
    then have "rnd 11 (- 24) (f64_mag w) = of_int (int (unat q)) * two_powi u" by (simp only: rnd_def u_def)
    then show ?thesis by (simp only: of_int_of_nat_eq)
  qed
  have "rnd 11 (- 24) (f64_mag w) \<le> two_powi (u + 11)"
    using binary16.R_le_power [of "f64_mag w" "u + 11"] pos top by (simp add: u_def)
  then have "of_nat (unat q) * two_powi u \<le> of_nat (2 ^ 11) * two_powi u" by (simp add: q two_powi_add)
  then have "unat q \<le> 2 ^ 11" using two_powi_pos [of u] by (simp only: mult_le_cancel_right_pos of_nat_le_iff)
  then have v: "scaled_value q u = f16_pattern (rnd 11 (- 24) (f64_mag w))"
    unfolding q using u24 by (intro scaled_value_correct) auto
  have at: "f64_mag w / two_powi u = of_int n + 1 / 2 \<longleftrightarrow> midpoint_at 11 (- 24) (f64_mag w) n" for n
    using two_powi_pos [of u] by (auto simp: midpoint_at_def u_def [symmetric] field_simps)
  show ?thesis
  proof (cases m)
    case None
    then show ?thesis using c v at by (simp add: f16_rounding_contract_def quotient_contract_def r)
  next
    case (Some mid)
    then obtain t where t: "f64_mag w / two_powi u = of_int (int (unat t)) + 1 / 2" "mid = midpoint_new t u"
      using c by (auto simp: quotient_contract_def)
    have n: "midpoint_at 11 (- 24) (f64_mag w) (int (unat t))" using t(1) at by blast
    have "int (unat t) < int (2 ^ 11)" using binary16.midpoint_cell(2) [OF n less_imp_le [OF pos]]
      by (simp only: of_nat_power of_nat_numeral)
    then have "unat t < 2 ^ 11" by (simp only: of_nat_less_iff)
    note mn = midpoint_new_correct [OF this u24]
    have "f64_mag w = (of_int (int (unat t)) + 1 / 2) * two_powi u" using n by (simp add: midpoint_at_def u_def)
    with mn n v show ?thesis
      unfolding f16_rounding_contract_def r Some t(2) u_def [symmetric] f16_magnitude_rounding.simps option.case by metis
  qed
qed

section \<open>Finite results\<close>

lemma f16_value_wide:
  assumes "0 \<le> v"
  shows "rnd 53 (- 1074) (rnd 11 (- 24) v) = rnd 11 (- 24) v"
proof -
  obtain n where "rnd 11 (- 24) v = of_int n * two_powi (unit_exp 11 (- 24) (rnd 11 (- 24) v))" "0 \<le> n" "n < 2 ^ 11"
    using binary16.R_representable [OF assms] by metis
  then show ?thesis
    using binary16_in_64.neighbour_wide_exact [of n "unit_exp 11 (- 24) (rnd 11 (- 24) v)"] binary16.umin_le_unit by simp
qed

lemma f16_pattern_facts:
  assumes "0 \<le> v"
  shows "f64_is_finite (f16_pattern (rnd 11 (- 24) v)) \<longleftrightarrow> rnd 11 (- 24) v < two_powi 16"
    "rnd 11 (- 24) v < two_powi 16 \<Longrightarrow> f16_pattern (rnd 11 (- 24) v) = f64_bits (rnd 11 (- 24) v)"
    "rnd 11 (- 24) v < two_powi 16 \<Longrightarrow> f64_mag (f16_pattern (rnd 11 (- 24) v)) = rnd 11 (- 24) v"
proof -
  let ?y = "rnd 11 (- 24) v"
  have b: "f64_mag (f64_bits ?y) = ?y" "f64_is_finite (f64_bits ?y)" if "?y < two_powi 16"
  proof -
    have "two_powi 16 < two_powi 1024" unfolding two_powi_less_iff by simp
    with that have "?y < two_powi 1024" by linarith
    then show "f64_mag (f64_bits ?y) = ?y" "f64_is_finite (f64_bits ?y)"
      using f64_bits_mag [OF f16_value_wide [OF assms] binary16.R_nonneg [OF assms]] by blast+
  qed
  have p: "f16_pattern ?y = (if ?y < two_powi 16 then f64_bits ?y else f64_infinity)"
    unfolding f16_pattern_def using linorder_not_le [of "two_powi 16" ?y] by argo
  show "f64_is_finite (f16_pattern ?y) \<longleftrightarrow> ?y < two_powi 16"
    unfolding p using b(2) infinity_fields(2) by (cases "?y < two_powi 16") (simp_all only: if_True if_False)
  show "?y < two_powi 16 \<Longrightarrow> f16_pattern ?y = f64_bits ?y" unfolding p by (simp only: if_True)
  show "?y < two_powi 16 \<Longrightarrow> f64_mag (f16_pattern ?y) = ?y" unfolding p using b(1) by (simp only: if_True)
qed

lemma f16_overflow_power: "two_powi 16 \<le> x \<Longrightarrow> two_powi 16 \<le> rnd 11 (- 24) x"
proof -
  assume x: "two_powi 16 \<le> x"
  have "rnd 11 (- 24) (two_powi 16) = two_powi 16" by (rule binary16.R_fixed [of _ 1 16]) simp_all
  then show ?thesis using binary16.R_mono [of "two_powi 16" x] x by simp
qed

section \<open>Authored decimals\<close>

text \<open>The exponent of an authored magnitude near a binary16 midpoint is bounded by the length of the
  text, so that its \<open>i64\<close> accumulation does not saturate.\<close>

lemma ten_powi_less_imp: "(10 :: rat) powi a < 10 powi b \<Longrightarrow> a < b"
  using power_int_increasing [of b a "10 :: rat"] by (meson linorder_not_le not_less one_le_numeral)

lemma near_midpoint_exponent:
  assumes "normal_parts ip fp ep" "length (literal_text ip fp ep) \<le> u32_max"
    and "two_powi (- 26) < literal_value ip fp ep" "literal_value ip fp ep < two_powi 17"
  shows "saturated_exponent ep = exponent_value ep"
proof -
  define E L c where "E = exponent_value ep" and "L = length (fraction_text fp)" and "c = coefficient_value ip fp"
  have v: "literal_value ip fp ep = of_nat c * 10 powi (E - int L)" by (simp add: literal_value_def E_def L_def c_def)
  have len: "length ip + L \<le> u32_max"
    using assms(2) by (auto simp: literal_text_def L_def fraction_text_def split: option.splits)
  have "0 < literal_value ip fp ep" using assms(3) two_powi_pos [of "- 26"] by linarith
  then have c: "1 \<le> c" by (cases "c = 0") (simp_all add: v)
  have "1 * (10 :: rat) powi (E - int L) \<le> of_nat c * 10 powi (E - int L)"
    using c by (intro mult_right_mono) auto
  also have "\<dots> < two_powi 17" using assms(4) by (simp only: v)
  also have "two_powi 17 < (10 :: rat) powi 6" by simp
  finally have "E - int L < 6" by (intro ten_powi_less_imp) (simp only: mult_1_left)
  then have up: "E < 6 + int u32_max" using len by simp
  have "c < 10 ^ (length ip + L)"
    using digits_value_less [OF normal_parts_digits [OF assms(1)]] by (simp add: c_def coefficient_value_def L_def)
  then have "(of_nat c :: rat) < 10 ^ (length ip + L)" by (metis of_nat_less_iff of_nat_numeral of_nat_power)
  then have "of_nat c * (10 :: rat) powi (E - int L) < 10 ^ (length ip + L) * 10 powi (E - int L)" by simp
  also have "(10 :: rat) ^ (length ip + L) * 10 powi (E - int L) = 10 powi (int (length ip) + E)"
  proof -
    have "int (length ip) + E = int (length ip + L) + (E - int L)" by simp
    then show ?thesis by (simp only: power_int_add power_int_of_nat zero_neq_numeral [symmetric] not_False_eq_True simp_thms)
  qed
  finally have "two_powi (- 26) < (10 :: rat) powi (int (length ip) + E)" using assms(3) by (simp only: v)
  moreover have "(10 :: rat) powi (- 8) < two_powi (- 26)" by simp
  ultimately have "(10 :: rat) powi (- 8) < 10 powi (int (length ip) + E)" by linarith
  then have "- 8 < int (length ip) + E" by (rule ten_powi_less_imp)
  then have "- 8 - int u32_max < E" using len by simp
  with up show ?thesis by (simp add: saturated_exponent_def E_def)
qed

lemma compare_decimal_magnitude_total:
  "\<not> checks \<or> e < 128 \<Longrightarrow> \<exists>ord. compare_decimal_magnitude checks s w e = Inr ord"
proof -
  assume c: "\<not> checks \<or> e < 128"
  have shl: "\<exists>p. shl_u128 checks d (nat e) = Inr p" for d
  proof (cases "nat e < 128")
    case True
    then show ?thesis by (simp only: shl_u128_def if_True) blast
  next
    case False
    with c have "\<not> checks" by linarith
    with False show ?thesis by (simp only: shl_u128_def if_False) blast
  qed
  obtain p where p: "binary_decimal_expansion checks w e = Inr p"
  proof (cases "0 \<le> e")
    case True
    then show ?thesis using shl [of "ucast w"] that unfolding binary_decimal_expansion_def by (auto simp only: if_True map_sum.simps)
  next
    case False
    then show ?thesis using that unfolding binary_decimal_expansion_def Let_def by (simp only: if_False)
  qed
  show ?thesis
    unfolding compare_decimal_magnitude_def Let_def p map_sum.simps by (cases "decompose_decimal_magnitude s") simp
qed

lemma wide_power_fixed: "- 1074 \<le> k \<Longrightarrow> rnd 53 (- 1074) (two_powi k) = two_powi k"
  by (rule binary64.R_fixed [of _ 1 k]) simp_all

lemma wide_less_powerD:
  assumes "0 \<le> v" "- 1074 \<le> k" "rnd 53 (- 1074) v < two_powi k"
  shows "v < two_powi k"
proof (rule ccontr)
  assume "\<not> v < two_powi k"
  then have "rnd 53 (- 1074) (two_powi k) \<le> rnd 53 (- 1074) v"
    using two_powi_pos [of k] by (intro binary64.R_mono) linarith+
  with assms(3) show False unfolding wide_power_fixed [OF assms(2)] by linarith
qed

lemma wide_less_powerI: "0 \<le> v \<Longrightarrow> - 1074 \<le> k \<Longrightarrow> v \<le> two_powi k \<Longrightarrow> rnd 53 (- 1074) v \<le> two_powi k"
  using binary64.R_mono [of v "two_powi k"] wide_power_fixed [of k] by metis

lemma large_midpoint_neighbours:
  assumes "midpoint_at 11 (- 24) x n" "two_powi 17 \<le> x"
  shows "two_powi 16 \<le> of_int n * two_powi (unit_exp 11 (- 24) x)"
proof -
  define u where "u = unit_exp 11 (- 24) x"
  have x: "0 < x" using assms(2) two_powi_pos [of 17] by linarith
  have "17 \<le> flog2 x" using flog2_ge_iff [OF x] assms(2) by blast
  then have u: "7 \<le> u" using x by (simp add: u_def unit_exp_def)
  have "2 ^ (11 - 1) \<le> n" using binary16.midpoint_cell(3) [OF assms(1)] x u by (simp add: u_def)
  then have "(of_int (2 ^ 10) :: rat) \<le> of_int n" by (simp only: of_int_le_iff) simp
  then have "of_int (2 ^ 10) * two_powi u \<le> of_int n * two_powi u" using two_powi_pos [of u] by (simp only: mult_le_cancel_right_pos)
  moreover have "two_powi 16 \<le> two_powi (int 10 + u)" unfolding two_powi_le_iff using u by simp
  moreover have "two_powi (int 10 + u) = of_int (2 ^ 10) * two_powi u" unfolding two_powi_add power_int_of_nat by simp
  ultimately show ?thesis unfolding u_def by linarith
qed

lemma f16_pattern_overflow: "two_powi 16 \<le> y \<Longrightarrow> f16_pattern y = f64_infinity"
  by (simp only: f16_pattern_def if_True)

lemma resolve_large:
  assumes "0 \<le> v" "x = rnd 53 (- 1074) v" "two_powi 17 \<le> x" "f16_rounding_contract x r"
    and "\<not> checks \<or> v < two_powi 128" "rounded_midpoint r = Some m"
  shows "resolve_midpoint checks s r = Inr f64_infinity"
proof -
  obtain n where n: "midpoint_at 11 (- 24) x n" "below m = f16_pattern (of_int n * two_powi (unit_exp 11 (- 24) x))"
      "above m = f16_pattern (of_int (n + 1) * two_powi (unit_exp 11 (- 24) x))" "mid_exponent m = unit_exp 11 (- 24) x - 1"
    and rv: "rounded_value r = f16_pattern (rnd 11 (- 24) x)"
    using assms(4,6) by (auto simp: f16_rounding_contract_def)
  define u where "u = unit_exp 11 (- 24) x"
  have lo: "two_powi 16 \<le> of_int n * two_powi u" using large_midpoint_neighbours [OF n(1) assms(3)] by (simp add: u_def)
  moreover have "of_int n * two_powi u \<le> of_int (n + 1) * two_powi u" using two_powi_pos [of u] by simp
  ultimately have hi: "two_powi 16 \<le> of_int (n + 1) * two_powi u" by linarith
  have "two_powi 16 \<le> x" using assms(3) two_powi_le_iff [of 16 17] by linarith
  then have "f16_pattern (rnd 11 (- 24) x) = f64_infinity" by (intro f16_pattern_overflow f16_overflow_power)
  then have all: "below m = f64_infinity" "above m = f64_infinity" "rounded_value r = f64_infinity"
    using n(2,3) rv f16_pattern_overflow [OF lo] f16_pattern_overflow [OF hi] by (simp_all only: u_def)
  have "\<not> checks \<or> mid_exponent m < 128"
  proof (cases checks)
    case True
    then have "x \<le> two_powi 128" using wide_less_powerI [OF assms(1), of 128] assms(2,5) by simp
    moreover have x: "0 < x" using assms(3) two_powi_pos [of 17] by linarith
    ultimately have "two_powi (flog2 x) \<le> two_powi 128" using flog2_bounds [OF x] by linarith
    then have "flog2 x \<le> 128" unfolding two_powi_le_iff .
    then show ?thesis using n(4) x by (simp add: unit_exp_def)
  qed simp
  then obtain ord where "compare_decimal_magnitude checks s (mid_significand m) (mid_exponent m) = Inr ord"
    using compare_decimal_magnitude_total by blast
  then show ?thesis using all assms(6) by (simp add: resolve_midpoint_def split: ordering.split)
qed

lemma resolve_near:
  assumes "normal_parts ip fp ep" "length (literal_text ip fp ep) \<le> u32_max" "v = literal_value ip fp ep"
    and "0 \<le> v" "x = rnd 53 (- 1074) v" "x < two_powi 17" "f16_rounding_contract x r" "rounded_midpoint r = Some m"
  shows "resolve_midpoint checks (literal_text ip fp ep) r = Inr (f16_pattern (rnd 11 (- 24) v))"
proof -
  define u where "u = unit_exp 11 (- 24) x"
  obtain n where n: "midpoint_at 11 (- 24) x n" "below m = f16_pattern (of_int n * two_powi u)"
      "above m = f16_pattern (of_int (n + 1) * two_powi u)" "of_nat (unat (mid_significand m)) * two_powi (mid_exponent m) = x"
      "0 < unat (mid_significand m)" "unat (mid_significand m) < 2 ^ 12" "mid_exponent m = u - 1"
    and rv: "rounded_value r = f16_pattern (rnd 11 (- 24) x)"
    using assms(7,8) by (auto simp: f16_rounding_contract_def u_def)
  have x0: "0 \<le> x" using binary64.R_nonneg [OF assms(4)] by (simp only: assms(5))
  have u24: "- 24 \<le> u" using binary16.umin_le_unit by (simp add: u_def)
  have x: "two_powi (- 26) < x"
  proof -
    have "0 \<le> (of_int n :: rat)" using binary16.midpoint_cell(1) [OF n(1) x0] by simp
    then have "1 / 2 * two_powi u \<le> (of_int n + 1 / 2) * two_powi u"
      using two_powi_pos [of u] by (intro mult_right_mono) auto
    also have "\<dots> = x" using n(1) unfolding midpoint_at_def u_def by (rule sym)
    finally have "1 / 2 * two_powi u \<le> x" .
    moreover have "1 / 2 * two_powi u = two_powi (u - 1)" by (simp add: two_powi_diff)
    moreover have "two_powi (- 26) < two_powi (u - 1)" unfolding two_powi_less_iff using u24 by simp
    ultimately show ?thesis by linarith
  qed
  have v: "two_powi (- 26) < v" "v < two_powi 17"
    using wide_less_powerI [OF assms(4), of "- 26"] wide_less_powerD [OF assms(4), of 17] x assms(5,6) by (simp_all add: not_le) fastforce
  have "flog2 x < 17" using flog2_ge_iff [of x 17] x two_powi_pos [of "- 26"] assms(6) by (meson less_trans not_le)
  then have e: "- 25 \<le> mid_exponent m" "mid_exponent m \<le> 60" using n(7) u24 by (simp_all add: u_def unit_exp_def)
  have cmp: "compare_decimal_magnitude checks (literal_text ip fp ep) (mid_significand m) (mid_exponent m) = Inr (cmp v x)"
    using compare_decimal_magnitude_exact [OF assms(1) _ n(5,6) e] near_midpoint_exponent [OF assms(1,2)] v n(4) assms(3) by simp
  have mid: "midpoint_at 11 (- 24) (rnd 53 (- 1074) v) n" using n(1) by (simp only: assms(5))
  note dr = binary16_in_64.double_rounding_midpoint [OF assms(4) mid, folded assms(5) u_def]
  show ?thesis
  proof (cases "cmp v x")
    case Less
    moreover from this have "v < x" by (simp only: cmp_eq_iff)
    ultimately show ?thesis using dr(1) n(2) cmp assms(8) by (simp add: resolve_midpoint_def)
  next
    case Equal
    moreover from this have "v = x" by (simp only: cmp_eq_iff)
    ultimately show ?thesis using rv cmp assms(8) by (simp add: resolve_midpoint_def)
  next
    case Greater
    moreover from this have "x < v" by (simp only: cmp_eq_iff)
    ultimately show ?thesis using dr(2) n(3) cmp assms(8) by (simp add: resolve_midpoint_def)
  qed
qed

lemma resolve_midpoint_correct:
  assumes "normal_parts ip fp ep" "length (literal_text ip fp ep) \<le> u32_max" "v = literal_value ip fp ep"
    and "f16_rounding_contract (rnd 53 (- 1074) v) r" "\<not> checks \<or> v < two_powi 128"
  shows "resolve_midpoint checks (literal_text ip fp ep) r = Inr (f16_pattern (rnd 11 (- 24) v))"
proof -
  have v: "0 \<le> v" using assms(3) by (simp add: literal_value_def)
  show ?thesis
  proof (cases "rounded_midpoint r")
    case None
    then have "\<nexists>n. midpoint_at 11 (- 24) (rnd 53 (- 1074) v) n" "rounded_value r = f16_pattern (rnd 11 (- 24) (rnd 53 (- 1074) v))"
      using assms(4) by (auto simp: f16_rounding_contract_def)
    then show ?thesis using binary16_in_64.double_rounding_innocuous [OF v] None by (simp add: resolve_midpoint_def)
  next
    case (Some m)
    show ?thesis
    proof (cases "rnd 53 (- 1074) v < two_powi 17")
      case True
      show ?thesis by (rule resolve_near [OF assms(1-3) v refl True assms(4) Some])
    next
      case False
      have "two_powi 16 \<le> v"
      proof (rule ccontr)
        assume "\<not> two_powi 16 \<le> v"
        then have "rnd 53 (- 1074) v \<le> two_powi 16" using wide_less_powerI [OF v, of 16] by linarith
        then show False using False two_powi_less_iff [of 16 17] by linarith
      qed
      then have "f16_pattern (rnd 11 (- 24) v) = f64_infinity" by (intro f16_pattern_overflow f16_overflow_power)
      moreover have "resolve_midpoint checks (literal_text ip fp ep) r = Inr f64_infinity"
        using False by (intro resolve_large [OF v refl _ assms(4,5) Some]) linarith
      ultimately show ?thesis by simp
    qed
  qed
qed

lemma literal_text_unsigned:
  assumes "normal_parts ip fp ep"
  shows "take 1 (literal_text ip fp ep) \<noteq> ''-''" "take 1 (literal_text ip fp ep) \<noteq> ''+''"
proof -
  obtain c r where "ip = c # r" "is_ascii_digit c" using assms by (cases ip) (auto simp: normal_parts_def)
  then show "take 1 (literal_text ip fp ep) \<noteq> ''-''" "take 1 (literal_text ip fp ep) \<noteq> ''+''"
    using not_digit_chars(1,2) by (auto simp: literal_text_def)
qed

lemma decimal_to_f16_finite_parse:
  assumes "normal_parts ip fp ep" "rnd 53 (- 1074) (literal_value ip fp ep) < two_powi 1024"
  obtains r where "f16_rounding_contract (rnd 53 (- 1074) (literal_value ip fp ep)) r"
    "decimal_to_f16 checks (literal_text ip fp ep) negative =
       map_sum id (\<lambda>rounded. if \<not> f64_is_finite rounded then None
                            else Some (if negative then f64_neg rounded else rounded))
         (resolve_midpoint checks (literal_text ip fp ep) r)"
proof -
  define w where "w = f64_round (literal_value ip fp ep)"
  have v: "0 \<le> literal_value ip fp ep" by (simp add: literal_value_def)
  have w: "f64_is_finite w" "f64_mag w = rnd 53 (- 1074) (literal_value ip fp ep)"
    using f64_round_correct [OF v] assms(2) unfolding w_def by blast+
  have "parse_f64 (literal_text ip fp ep) = Some w"
    by (simp add: parse_f64_def decimal_text_value_literal [OF assms(1)] w_def)
  then show thesis
    using that [of "round_finite_magnitude_to_f16 w"] round_finite_contract [of w] w literal_text_unsigned [OF assms(1)]
    by (simp add: decimal_to_f16_def)
qed

lemma decimal_to_f16_once:
  assumes "normal_parts ip fp ep" and "length (literal_text ip fp ep) \<le> u32_max"
    and "\<not> overflow_checks \<or> literal_value ip fp ep < two_powi 128"
  shows "decimal_to_f16 overflow_checks (literal_text ip fp ep) negative =
    Inr (let y = rnd 11 (- 24) (literal_value ip fp ep)
         in if y < two_powi 16 then Some (if negative then f64_neg (f64_bits y) else f64_bits y) else None)"
proof (cases "rnd 53 (- 1074) (literal_value ip fp ep) < two_powi 1024")
  case True
  have v: "0 \<le> literal_value ip fp ep" by (simp add: literal_value_def)
  obtain r where r: "f16_rounding_contract (rnd 53 (- 1074) (literal_value ip fp ep)) r"
    "decimal_to_f16 overflow_checks (literal_text ip fp ep) negative =
       map_sum id (\<lambda>rounded. if \<not> f64_is_finite rounded then None
                            else Some (if negative then f64_neg rounded else rounded))
         (resolve_midpoint overflow_checks (literal_text ip fp ep) r)"
    using decimal_to_f16_finite_parse [OF assms(1) True] by blast
  note rm = r(2) resolve_midpoint_correct [OF assms(1,2) refl r(1) assms(3)] Let_def map_sum.simps
  show ?thesis
  proof (cases "rnd 11 (- 24) (literal_value ip fp ep) < two_powi 16")
    case True
    then show ?thesis using f16_pattern_facts(1,2) [OF v] by (simp only: rm if_True if_False simp_thms)
  next
    case False
    then show ?thesis using f16_pattern_facts(1) [OF v] by (simp only: rm if_True if_False simp_thms)
  qed
next
  case False
  then have big: "two_powi 1024 \<le> rnd 53 (- 1074) (literal_value ip fp ep)" by linarith
  have v: "0 \<le> literal_value ip fp ep" by (simp add: literal_value_def)
  have "two_powi 16 \<le> literal_value ip fp ep"
  proof (rule ccontr)
    assume "\<not> two_powi 16 \<le> literal_value ip fp ep"
    then have "rnd 53 (- 1074) (literal_value ip fp ep) \<le> two_powi 16" using wide_less_powerI [OF v, of 16] by linarith
    then show False using big two_powi_less_iff [of 16 1024] by linarith
  qed
  then have "\<not> rnd 11 (- 24) (literal_value ip fp ep) < two_powi 16" using f16_overflow_power not_less by blast
  moreover have "\<not> f64_is_finite (f64_round (literal_value ip fp ep))" using f64_round_correct(1) [OF v] False by blast
  ultimately show ?thesis
    using literal_text_unsigned [OF assms(1)]
    by (simp only: decimal_to_f16_def parse_f64_def decimal_text_value_literal [OF assms(1)] option.map option.case Let_def if_False if_True simp_thms)
qed

text \<open>C1. An authored magnitude becomes the binary16 value nearest to its exact decimal value, ties to
  even, in one rounding, and \<open>None\<close> exactly when that value is beyond the largest finite one: the
  \<open>f64\<close> intermediate never decides. It holds for every literal in a build without overflow checks,
  and for every literal below \<open>2 powi 128\<close> in a build with them.\<close>

theorem decimal_to_f16_rounds_once:
  assumes "normal_parts ip fp ep" and "length (literal_text ip fp ep) \<le> u32_max"
    and "\<not> overflow_checks \<or> literal_value ip fp ep < two_powi 128"
  shows "decimal_to_f16 overflow_checks (literal_text ip fp ep) negative =
    Inr (let y = rnd 11 (- 24) (literal_value ip fp ep)
         in if y < two_powi 16 then Some (if negative then f64_neg (f64_bits y) else f64_bits y) else None)"
  using assms by (rule decimal_to_f16_once)

theorem decimal_to_f16_rounds_once_witness:
  "decimal_to_f16 True ''1.5'' True = Inr (Some (f64_neg (f64_bits (3 / 2))))"
proof -
  have l: "literal_value ''1'' (Some ''5'') None = 3 / 2" "literal_text ''1'' (Some ''5'') None = ''1.5''"
    "normal_parts ''1'' (Some ''5'') None" by code_simp+
  have r: "rnd 11 (- 24) (3 / 2) = 3 / 2" by (rule binary16.R_fixed [of _ 3 "- 1"]) simp_all
  have "3 / 2 < two_powi 16" "3 / 2 < two_powi 128" "length ''1.5'' \<le> u32_max" by simp_all
  then show ?thesis
    using decimal_to_f16_rounds_once [OF l(3), of True True] by (simp only: l r Let_def if_True simp_thms)
qed

text \<open>C40. Without the bound the guarded path is not total: a literal whose value is exactly half-way
  between two eleven-bit significands at a unit above \<open>2 powi 128\<close> shifts a \<open>u128\<close> by 128 bits or more
  before the overflow is noticed, which panics in a build with overflow checks.\<close>

theorem decimal_to_f16_large_midpoint_panics:
  assumes "normal_parts ip fp ep" and "literal_value ip fp ep = of_nat (2 * t + 1) * two_powi k"
    and "2 ^ 10 \<le> t" and "t < 2 ^ 11" and "128 \<le> k" and "k \<le> 1000"
  shows "decimal_to_f16 True (literal_text ip fp ep) negative = Inl ShiftOverflow"
proof -
  let ?v = "literal_value ip fp ep"
  have v0: "0 \<le> ?v" by (simp add: literal_value_def)
  have v: "?v = (of_int (int t) + 1 / 2) * two_powi (k + 1)" using assms(2) by (simp add: two_powi_add algebra_simps)
  have "int (2 ^ 10) \<le> int t" "int t < int (2 ^ 11)" using assms(3,4) by (simp_all only: of_nat_le_iff of_nat_less_iff)
  then have t: "2 ^ (11 - 1) \<le> int t" "int t < 2 ^ 11" by simp_all
  have mid: "unit_exp 11 (- 24) ?v = k + 1" "midpoint_at 11 (- 24) ?v (int t)"
    unfolding v using binary16.midpoint_unit [of "int t" "k + 1"] t assms(5) by simp_all
  have wide: "rnd 53 (- 1074) ?v = ?v" by (rule binary16_in_64.midpoint_wide_exact [OF mid(2) v0])
  have "?v < two_powi (k + 1 + 11)" using binary16.below_unit_top [OF v0] by (simp add: mid(1))
  moreover have "two_powi (k + 1 + 11) < two_powi 1024" unfolding two_powi_less_iff using assms(6) by simp
  ultimately have fin: "rnd 53 (- 1074) ?v < two_powi 1024" unfolding wide by linarith
  obtain r where r: "f16_rounding_contract ?v r"
    "decimal_to_f16 True (literal_text ip fp ep) negative =
       map_sum id (\<lambda>rounded. if \<not> f64_is_finite rounded then None
                            else Some (if negative then f64_neg rounded else rounded))
         (resolve_midpoint True (literal_text ip fp ep) r)"
    using decimal_to_f16_finite_parse [OF assms(1) fin] unfolding wide by blast
  obtain m where m: "rounded_midpoint r = Some m" "mid_exponent m = k"
    using r(1) mid by (auto simp: f16_rounding_contract_def split: option.splits)
  obtain d sc where d: "decompose_decimal_magnitude (literal_text ip fp ep) = (d, sc)" by fastforce
  have "0 < ?v" using assms(2) two_powi_pos [of k] by simp
  then have "coefficient_value ip fp \<noteq> 0" using literal_value_eq_0_iff by (metis less_irrefl)
  then have "d \<noteq> []" using decompose_literal [OF assms(1)] by (simp add: d)
  moreover have "binary_decimal_expansion True w k = Inl ShiftOverflow" for w
    using assms(5) by (simp add: binary_decimal_expansion_def shl_u128_def)
  ultimately have "compare_decimal_magnitude True (literal_text ip fp ep) w k = Inl ShiftOverflow" for w
    by (simp add: compare_decimal_magnitude_def d)
  then show ?thesis unfolding r(2) resolve_midpoint_def m option.case by simp
qed

theorem decimal_to_f16_large_midpoint_panics_witness:
  "decimal_to_f16 True ''697238569821002911636454570627693065273344'' False = Inl ShiftOverflow"
proof -
  let ?s = "''697238569821002911636454570627693065273344''"
  have n: "normal_parts ?s None None" "literal_text ?s None None = ?s" by code_simp+
  have "coefficient_value ?s None = 697238569821002911636454570627693065273344"
    by (simp add: coefficient_value_def fraction_text_def digits_value_def digit_of_def byte_def)
  then have "literal_value ?s None None = of_nat (2 * 1024 + 1) * two_powi 128"
    by (simp add: literal_value_def exponent_value_def fraction_text_def)
  from decimal_to_f16_large_midpoint_panics [OF n(1) this, of False] show ?thesis by (simp only: n(2)) simp
qed

text \<open>Rounding an \<open>f64\<close> value to binary16 keeps the sign and gives the nearest binary16 magnitude,
  ties to even, or infinity when that is \<open>2 powi 16\<close>; values that are not finite pass through.\<close>

lemma round_f64_to_f16_eq:
  "round_f64_to_f16 v =
     (if f64_is_finite v
      then let m = f16_pattern (rnd 11 (- 24) (f64_mag v)) in if f64_is_sign_negative v then f64_neg m else m
      else v)"
proof -
  have "rounded_value (round_finite_magnitude_to_f16 (f64_abs v)) = f16_pattern (rnd 11 (- 24) (f64_mag v))"
    using round_finite_contract [of "f64_abs v"] by (simp add: f16_rounding_contract_def f64_abs_facts)
  then show ?thesis by (simp add: round_f64_to_f16_def)
qed

end
