(* ===== verification/Fixed_Scalar_Value.thy ===== *)
theory Fixed_Scalar_Value
  imports Binary16 Fixed_Scalar
begin

unbundle bit_operations_syntax

text \<open>
  Rounding at one binary-float precision (\<open>precision.rs\<close>), the exact value carrier of the fixed
  scalars (\<open>FixedScalarValue\<close> of \<open>fixed_scalar.rs\<close>) and the materialisation of literal text at a fixed
  scalar destination (the second half of \<open>parse.rs\<close>). Only the binary16 path can panic, so its panic is
  the outer layer of the results that contain it.
\<close>

section \<open>Standard-library conversions\<close>

definition with_sign :: "bool \<Rightarrow> f64 \<Rightarrow> f64" where
  "with_sign negative w = (if negative then f64_neg w else w)"

definition f32_pattern :: "rat \<Rightarrow> f64" where
  "f32_pattern y = (if two_powi 128 \<le> y then f64_infinity else f64_bits y)"

text \<open>\<open>f64::from(value as f32)\<close> on a finite value, \<open>value as f32\<close> and \<open>value as f64\<close> on an integer, and
  \<open>str::parse::<f32>\<close> widened to \<open>f64\<close>.\<close>

definition through_f32 :: "f64 \<Rightarrow> f64" where
  "through_f32 v =
     (if f64_is_finite v then with_sign (f64_is_sign_negative v) (f32_pattern (rnd 24 (- 149) (f64_mag v))) else v)"

definition int_as_f32 :: "int \<Rightarrow> f64" where
  "int_as_f32 z = with_sign (z < 0) (f32_pattern (rnd 24 (- 149) (of_int \<bar>z\<bar>)))"

definition int_as_f64 :: "int \<Rightarrow> f64" where
  "int_as_f64 z = with_sign (z < 0) (f64_round (of_int \<bar>z\<bar>))"

definition parse_f32 :: "string \<Rightarrow> f64 option" where
  "parse_f32 s = map_option (\<lambda>x. f32_pattern (rnd 24 (- 149) x)) (decimal_text_value s)"

section \<open>Precision\<close>

definition binary16_overflow_threshold :: nat where "binary16_overflow_threshold = 65520"

fun precision_round :: "binary_float_precision \<Rightarrow> f64 \<Rightarrow> f64" where
  "precision_round Binary16 v = round_f64_to_f16 v"
| "precision_round Binary32 v = through_f32 v"
| "precision_round Binary64 v = v"

fun round_integer :: "binary_float_precision \<Rightarrow> int \<Rightarrow> f64" where
  "round_integer Binary16 z =
     (if nat \<bar>z\<bar> < binary16_overflow_threshold then round_f64_to_f16 (int_as_f64 z)
      else with_sign (f64_is_sign_negative (int_as_f64 z)) f64_infinity)"
| "round_integer Binary32 z = int_as_f32 z"
| "round_integer Binary64 z = int_as_f64 z"

section \<open>The value carrier\<close>

record fixed_scalar_value =
  value_scalar :: fixed_scalar
  value_bits :: u64

definition fixed_signed :: "fixed_scalar \<Rightarrow> int \<Rightarrow> fixed_scalar_value option" where
  "fixed_signed scalar v =
     (case signed_range scalar of
        None \<Rightarrow> None
      | Some (lo, hi) \<Rightarrow>
          if lo \<le> v \<and> v \<le> hi then Some \<lparr> value_scalar = scalar, value_bits = of_int v \<rparr> else None)"

definition fixed_unsigned :: "fixed_scalar \<Rightarrow> nat \<Rightarrow> fixed_scalar_value option" where
  "fixed_unsigned scalar v =
     (case unsigned_max scalar of
        None \<Rightarrow> None
      | Some hi \<Rightarrow> if v \<le> hi then Some \<lparr> value_scalar = scalar, value_bits = of_nat v \<rparr> else None)"

definition fixed_binary_float :: "fixed_scalar \<Rightarrow> f64 \<Rightarrow> fixed_scalar_value option" where
  "fixed_binary_float scalar v =
     (case scalar_precision scalar of
        None \<Rightarrow> None
      | Some p \<Rightarrow>
          if \<not> f64_is_finite v \<or> precision_round p v \<noteq> v then None
          else Some \<lparr> value_scalar = scalar, value_bits = v \<rparr>)"

definition as_i64 :: "fixed_scalar_value \<Rightarrow> int option" where
  "as_i64 v = (if scalar_class (value_scalar v) = SignedInteger then Some (sint (value_bits v)) else None)"

definition as_u64 :: "fixed_scalar_value \<Rightarrow> nat option" where
  "as_u64 v =
     (case scalar_class (value_scalar v) of
        UnsignedInteger \<Rightarrow> Some (unat (value_bits v))
      | Octet \<Rightarrow> Some (unat (value_bits v))
      | _ \<Rightarrow> None)"

definition as_f64 :: "fixed_scalar_value \<Rightarrow> f64 option" where
  "as_f64 v = (if scalar_class (value_scalar v) = BinaryFloat then Some (value_bits v) else None)"

section \<open>Materialisation\<close>

fun literal_kind_initialises :: "numeric_literal_kind \<Rightarrow> fixed_scalar \<Rightarrow> bool" where
  "literal_kind_initialises WholeNumber scalar \<longleftrightarrow> True"
| "literal_kind_initialises DecimalPoint scalar \<longleftrightarrow> scalar_class scalar = BinaryFloat"
| "literal_kind_initialises Exponent scalar \<longleftrightarrow> scalar_class scalar = BinaryFloat"

definition materialize_signed_fixed_scalar ::
  "string \<Rightarrow> numeric_literal_sign \<Rightarrow> fixed_scalar \<Rightarrow> (number_literal_error_reason, fixed_scalar_value) result" where
  "materialize_signed_fixed_scalar s sign scalar =
     result_bind
       (case sign of
          Positive \<Rightarrow> ok_or (parse_signed i64_min i64_max s) (OutsideFixedScalarRange scalar)
        | Negative \<Rightarrow>
            result_bind (ok_or (parse_unsigned u64_max s) (OutsideFixedScalarRange scalar))
              (\<lambda>magnitude. if nat (- i64_min) < magnitude then Inl (OutsideFixedScalarRange scalar)
                           else Inr (sint (- (of_nat magnitude :: u64)))))
       (\<lambda>v. ok_or (fixed_signed scalar v) (OutsideFixedScalarRange scalar))"

definition materialize_unsigned_fixed_scalar ::
  "string \<Rightarrow> numeric_literal_sign \<Rightarrow> fixed_scalar \<Rightarrow> (number_literal_error_reason, fixed_scalar_value) result" where
  "materialize_unsigned_fixed_scalar s sign scalar =
     (if sign = Negative then Inl (NegativeUnsignedLiteral scalar)
      else result_bind (ok_or (parse_unsigned u64_max s) (OutsideFixedScalarRange scalar))
             (\<lambda>v. ok_or (fixed_unsigned scalar v) (OutsideFixedScalarRange scalar)))"

definition parse_binary_float_text ::
  "(string \<Rightarrow> f64 option) \<Rightarrow> string \<Rightarrow> bool \<Rightarrow> fixed_scalar \<Rightarrow> (number_literal_error_reason, f64) result" where
  "parse_binary_float_text parse s negative scalar =
     (case parse s of
        None \<Rightarrow> Inl ParseOverflow
      | Some magnitude \<Rightarrow>
          if \<not> f64_is_finite magnitude then Inl (NonFiniteFixedFloat scalar)
          else Inr (if negative then f64_neg magnitude else magnitude))"

definition materialize_binary_float_fixed_scalar ::
  "bool \<Rightarrow> string \<Rightarrow> numeric_literal_sign \<Rightarrow> fixed_scalar \<Rightarrow>
     (arithmetic_panic, (number_literal_error_reason, fixed_scalar_value) result) result" where
  "materialize_binary_float_fixed_scalar overflow_checks s sign scalar =
     (let negative = (sign = Negative);
          non_finite = NonFiniteFixedFloat scalar
      in case scalar_precision scalar of
           None \<Rightarrow> Inr (Inl non_finite)
         | Some p \<Rightarrow>
             map_sum id (\<lambda>magnitude. result_bind magnitude (\<lambda>m. ok_or (fixed_binary_float scalar m) non_finite))
               (case p of
                  Binary16 \<Rightarrow> map_sum id (\<lambda>m. ok_or m non_finite) (decimal_to_f16 overflow_checks s negative)
                | Binary32 \<Rightarrow> Inr (parse_binary_float_text parse_f32 s negative scalar)
                | Binary64 \<Rightarrow> Inr (parse_binary_float_text parse_f64 s negative scalar)))"

definition materialize_normalized_fixed_scalar ::
  "bool \<Rightarrow> string \<Rightarrow> bool \<Rightarrow> fixed_scalar \<Rightarrow>
     (arithmetic_panic, (number_literal_error_reason, fixed_scalar_value) result) result" where
  "materialize_normalized_fixed_scalar overflow_checks normalized negative scalar =
     (let sign = (if negative then Negative else Positive)
      in case scalar_class scalar of
           SignedInteger \<Rightarrow> Inr (materialize_signed_fixed_scalar normalized sign scalar)
         | UnsignedInteger \<Rightarrow> Inr (materialize_unsigned_fixed_scalar normalized sign scalar)
         | Octet \<Rightarrow> Inr (materialize_unsigned_fixed_scalar normalized sign scalar)
         | BinaryFloat \<Rightarrow> materialize_binary_float_fixed_scalar overflow_checks normalized sign scalar)"

definition parse_numeric_text_to_fixed_scalar ::
  "bool \<Rightarrow> string \<Rightarrow> fixed_scalar \<Rightarrow>
     (arithmetic_panic, (number_literal_error_reason, fixed_scalar_value) result) result" where
  "parse_numeric_text_to_fixed_scalar overflow_checks source scalar =
     (if source = [] then Inr (Inl InvalidSeparatorPlacement)
      else case (case strip_prefix ''-'' source of
                   Some rest \<Rightarrow> Inr (Negative, rest)
                 | None \<Rightarrow> if take 1 source = ''+'' then Inl InvalidSeparatorPlacement else Inr (Positive, source)) of
        Inl reason \<Rightarrow> Inr (Inl reason)
      | Inr (sign, magnitude_text) \<Rightarrow>
          if magnitude_text = [] then Inr (Inl InvalidSeparatorPlacement)
          else case parse_numeric_literal magnitude_text of
            Inl reason \<Rightarrow> Inr (Inl reason)
          | Inr parsed \<Rightarrow>
              if scalar_class scalar = SignedInteger \<or> scalar_class scalar = UnsignedInteger then
                (if literal_kind parsed \<noteq> WholeNumber then Inr (Inl InvalidSeparatorPlacement)
                 else if scalar_class scalar = SignedInteger
                 then Inr (materialize_signed_fixed_scalar (normalized_text parsed) sign scalar)
                 else Inr (materialize_unsigned_fixed_scalar (normalized_text parsed) sign scalar))
              else if scalar_class scalar = BinaryFloat
              then materialize_binary_float_fixed_scalar overflow_checks (normalized_text parsed) sign scalar
              else Inr (Inl InvalidSeparatorPlacement))"

section \<open>Formats\<close>

fun precision_rnd :: "binary_float_precision \<Rightarrow> rat \<Rightarrow> rat" where
  "precision_rnd Binary16 x = rnd 11 (- 24) x"
| "precision_rnd Binary32 x = rnd 24 (- 149) x"
| "precision_rnd Binary64 x = rnd 53 (- 1074) x"

fun precision_limit :: "binary_float_precision \<Rightarrow> int" where
  "precision_limit Binary16 = 16"
| "precision_limit Binary32 = 128"
| "precision_limit Binary64 = 1024"

definition precision_pattern :: "binary_float_precision \<Rightarrow> rat \<Rightarrow> f64" where
  "precision_pattern p y = (if two_powi (precision_limit p) \<le> y then f64_infinity else f64_bits y)"

lemma f64_bits_of_mag:
  assumes "f64_is_finite w"
  shows "f64_bits (f64_mag w) = f64_abs w"
proof -
  define e f where "e = f64_exponent_field w" and "f = f64_fraction w"
  have f: "f < 2 ^ 52" unfolding f_def f64_fraction_eq by simp
  have u: "unat (f64_abs w) = e * 2 ^ 52 + f"
    unfolding unat_f64_abs split_63 e_def f_def f64_exponent_field_eq f64_fraction_eq by (rule refl)
  have "f64_abs w = of_nat (unat (f64_abs w))" by simp
  then have w: "f64_abs w = of_nat (e * 2 ^ 52 + f)" by (simp only: u)
  show ?thesis
  proof (cases "e = 0")
    case True
    have "f64_mag w = of_int (int f) * two_powi (- 1074)" using True by (simp add: f64_mag_def e_def f_def)
    then have "f64_bits (f64_mag w) = of_nat (0 * 2 ^ 52 + nat (int f))"
      using f by (intro f64_bits_small) auto
    then show ?thesis using True by (simp add: w)
  next
    case False
    have n: "f64_mag w = of_int (int (2 ^ 52 + f)) * two_powi (int e - 1075)"
      unfolding of_int_of_nat_eq using False by (simp only: f64_mag_def e_def f_def if_False)
    have "f64_bits (f64_mag w) = of_nat (nat (int e - 1075 + 1075) * 2 ^ 52 + nat (int (2 ^ 52 + f) - 2 ^ 52))"
      using f False by (intro f64_bits_normal [OF n]) auto
    then show ?thesis by (simp add: w)
  qed
qed

lemma bit_f64_neg: "n < 64 \<Longrightarrow> bit (f64_neg w) n \<longleftrightarrow> bit w n \<noteq> (n = 63)"
  by (simp only: f64_neg_def bit_xor_iff bit_push_bit_iff) (auto simp: bit_simps)

lemma with_sign_abs: "with_sign (f64_is_sign_negative w) (f64_abs w) = w"
proof (rule bit_word_eqI)
  fix n assume n: "n < LENGTH(64)"
  show "bit (with_sign (f64_is_sign_negative w) (f64_abs w)) n = bit w n"
    using n by (cases "n = 63") (auto simp: with_sign_def f64_is_sign_negative_def f64_abs_def bit_f64_neg bit_simps)
qed

lemma f64_abs_neg: "f64_abs (f64_neg w) = f64_abs w"
  by (rule bit_word_eqI) (auto simp: f64_abs_def bit_f64_neg bit_simps)

lemma f64_neg_facts: "f64_mag (f64_neg w) = f64_mag w" "f64_is_finite (f64_neg w) \<longleftrightarrow> f64_is_finite w"
  "f64_is_sign_negative (f64_neg w) \<longleftrightarrow> \<not> f64_is_sign_negative w"
  using f64_abs_facts [of "f64_neg w"] f64_abs_facts [of w] unfolding f64_abs_neg
  by (auto simp: f64_is_sign_negative_def bit_f64_neg)

lemma with_sign_facts: "f64_mag (with_sign b w) = f64_mag w" "f64_is_finite (with_sign b w) \<longleftrightarrow> f64_is_finite w"
  "\<not> f64_is_sign_negative w \<Longrightarrow> f64_is_sign_negative (with_sign b w) \<longleftrightarrow> b"
  by (simp_all add: with_sign_def f64_neg_facts)

lemma f64_finite_mag:
  assumes "f64_is_finite w"
  shows "rnd 53 (- 1074) (f64_mag w) = f64_mag w" "f64_mag w < two_powi 1024"
proof -
  obtain s e where d: "decompose_magnitude w = (s, e)" by fastforce
  note m = decompose_magnitude_correct [OF d]
  have "f64_exponent_field w < 2048" unfolding f64_exponent_field_eq by simp
  then have ex: "f64_exponent_field w < 2047" using assms unfolding f64_is_finite_def by linarith
  define x where "x = f64_exponent_field w"
  have "e = (if x = 0 then - 1074 else int x - 1075)"
    using d by (simp only: decompose_magnitude_def f16_constants Let_def f64_exponent_field_def [symmetric] x_def [symmetric] of_nat_eq_0_iff)
      (auto split: if_splits)
  then have e: "- 1074 \<le> e" "e \<le> 971" using ex by (auto simp: x_def)
  have mi: "f64_mag w = of_int (int (unat s)) * two_powi e" unfolding m(1) by (simp only: of_int_of_nat_eq)
  have s: "int (unat s) < 2 ^ 53" using m(2) by (metis of_nat_less_iff of_nat_numeral of_nat_power)
  show "rnd 53 (- 1074) (f64_mag w) = f64_mag w" using binary64.R_fixed [OF mi e(1) _ s] by simp
  have "(of_nat (unat s) :: rat) < of_nat (2 ^ 53)" using m(2) by (simp only: of_nat_less_iff)
  then have "f64_mag w < of_nat (2 ^ 53) * two_powi e" unfolding m(1) using two_powi_pos [of e] by (simp only: mult_less_cancel_right_pos)
  also have "\<dots> = two_powi (int 53 + e)" unfolding two_powi_add power_int_of_nat by simp
  also have "\<dots> \<le> two_powi 1024" unfolding two_powi_le_iff using e(2) by simp
  finally show "f64_mag w < two_powi 1024" .
qed

section \<open>Rounding at a precision\<close>

lemma precision_rnd_facts:
  assumes "0 \<le> x"
  shows "0 \<le> precision_rnd p x" "precision_rnd p (precision_rnd p x) = precision_rnd p x"
    "rnd 53 (- 1074) (precision_rnd p x) = precision_rnd p x"
proof -
  show "0 \<le> precision_rnd p x" using assms binary16.R_nonneg binary32.R_nonneg binary64.R_nonneg by (cases p) simp_all
  show "precision_rnd p (precision_rnd p x) = precision_rnd p x"
    using assms binary16.R_idem binary32.R_idem binary64.R_idem by (cases p) simp_all
  have "rnd 53 (- 1074) (rnd 24 (- 149) x) = rnd 24 (- 149) x"
  proof -
    obtain n where "rnd 24 (- 149) x = of_int n * two_powi (unit_exp 24 (- 149) (rnd 24 (- 149) x))" "0 \<le> n" "n < 2 ^ 24"
      using binary32.R_representable [OF assms] by metis
    then show ?thesis
      using binary32_in_64.neighbour_wide_exact [of n "unit_exp 24 (- 149) (rnd 24 (- 149) x)"] binary32.umin_le_unit by simp
  qed
  then show "rnd 53 (- 1074) (precision_rnd p x) = precision_rnd p x"
    using assms f16_value_wide binary64.R_idem by (cases p) simp_all
qed

lemma precision_pattern_facts:
  assumes "0 \<le> x"
  shows "f64_is_finite (precision_pattern p (precision_rnd p x)) \<longleftrightarrow> precision_rnd p x < two_powi (precision_limit p)"
    "precision_rnd p x < two_powi (precision_limit p) \<Longrightarrow>
       f64_mag (precision_pattern p (precision_rnd p x)) = precision_rnd p x"
    "\<not> f64_is_sign_negative (precision_pattern p (precision_rnd p x))"
proof -
  let ?y = "precision_rnd p x"
  have lim: "two_powi (precision_limit p) \<le> two_powi 1024" unfolding two_powi_le_iff by (cases p) simp_all
  have b: "f64_mag (f64_bits ?y) = ?y \<and> f64_is_finite (f64_bits ?y) \<and> \<not> f64_is_sign_negative (f64_bits ?y)"
    if "?y < two_powi (precision_limit p)"
    using that lim by (intro f64_bits_mag precision_rnd_facts assms) linarith
  have inf: "\<not> f64_is_sign_negative f64_infinity" by (simp add: f64_is_sign_negative_def f64_infinity_def)
  have p: "precision_pattern p ?y = (if ?y < two_powi (precision_limit p) then f64_bits ?y else f64_infinity)"
    unfolding precision_pattern_def using linorder_not_le [of "two_powi (precision_limit p)" ?y] by argo
  show "f64_is_finite (precision_pattern p ?y) \<longleftrightarrow> ?y < two_powi (precision_limit p)"
    "?y < two_powi (precision_limit p) \<Longrightarrow> f64_mag (precision_pattern p ?y) = ?y"
    "\<not> f64_is_sign_negative (precision_pattern p ?y)"
    unfolding p using b infinity_fields(2) inf by presburger+
qed

lemma precision_round_eq:
  assumes "f64_is_finite v"
  shows "precision_round p v = with_sign (f64_is_sign_negative v) (precision_pattern p (precision_rnd p (f64_mag v)))"
proof (cases p)
  case Binary16
  then show ?thesis
    using round_f64_to_f16_eq [of v] assms by (simp add: with_sign_def precision_pattern_def f16_pattern_def Let_def)
next
  case Binary32
  then show ?thesis using assms by (simp add: through_f32_def f32_pattern_def precision_pattern_def)
next
  case Binary64
  have "\<not> two_powi 1024 \<le> f64_mag v" using f64_finite_mag(2) [OF assms] by linarith
  then have "precision_pattern p (precision_rnd p (f64_mag v)) = f64_abs v"
    unfolding Binary64 precision_pattern_def precision_rnd.simps precision_limit.simps f64_finite_mag(1) [OF assms]
    by (simp only: if_False f64_bits_of_mag [OF assms])
  then show ?thesis by (simp add: Binary64 with_sign_abs)
qed

lemma int_as_f64_eq: "int_as_f64 z = with_sign (z < 0) (precision_pattern Binary64 (precision_rnd Binary64 (of_int \<bar>z\<bar>)))"
  by (simp only: int_as_f64_def f64_round_def precision_pattern_def precision_rnd.simps precision_limit.simps Let_def)

lemma binary16_threshold: "65520 \<le> x \<Longrightarrow> two_powi 16 \<le> rnd 11 (- 24) x"
proof -
  assume x: "65520 \<le> x"
  have "flog2 65520 = 15" by (rule flog2_unique) simp_all
  then have "rnd 11 (- 24) 65520 = of_int (rhe (of_int 2047 + 1 / 2)) * two_powi 5"
    by (simp add: rnd_def unit_exp_def)
  also have "\<dots> = two_powi 16" unfolding rhe_half by simp
  finally show ?thesis using binary16.R_mono [of 65520 x] x by simp
qed

lemma int_as_f64_facts:
  "f64_is_sign_negative (int_as_f64 z) \<longleftrightarrow> z < 0"
  "\<bar>z\<bar> < 2 ^ 53 \<Longrightarrow> f64_is_finite (int_as_f64 z) \<and> f64_mag (int_as_f64 z) = of_int \<bar>z\<bar>"
proof -
  have z: "(0 :: rat) \<le> of_int \<bar>z\<bar>" by simp
  note pf = precision_pattern_facts [OF z, of Binary64]
  show "f64_is_sign_negative (int_as_f64 z) \<longleftrightarrow> z < 0"
    unfolding int_as_f64_eq using with_sign_facts(3) [OF pf(3)] .
  assume b: "\<bar>z\<bar> < 2 ^ 53"
  have r: "rnd 53 (- 1074) (of_int \<bar>z\<bar>) = of_int \<bar>z\<bar>" using b by (intro binary64.R_fixed [of _ "\<bar>z\<bar>" 0]) auto
  have "(of_int \<bar>z\<bar> :: rat) < of_int (2 ^ 53)" using b by (simp only: of_int_less_iff)
  also have "(of_int (2 ^ 53) :: rat) = two_powi (int 53)" by (simp only: power_int_of_nat of_int_power of_int_numeral)
  also have "two_powi (int 53) < two_powi 1024" unfolding two_powi_less_iff by simp
  finally have "precision_rnd Binary64 (of_int \<bar>z\<bar>) < two_powi (precision_limit Binary64)"
    by (simp only: precision_rnd.simps precision_limit.simps r)
  then show "f64_is_finite (int_as_f64 z) \<and> f64_mag (int_as_f64 z) = of_int \<bar>z\<bar>"
    unfolding int_as_f64_eq with_sign_facts using pf(1,2) by (simp only: precision_rnd.simps r simp_thms)
qed

lemma round_integer_eq:
  "round_integer p z = with_sign (z < 0) (precision_pattern p (precision_rnd p (of_int \<bar>z\<bar>)))"
proof (cases p)
  case Binary16
  show ?thesis
  proof (cases "nat \<bar>z\<bar> < 65520")
    case True
    then have "\<bar>z\<bar> < 2 ^ 53" by simp
    note f = int_as_f64_facts(2) [OF this]
    have "round_integer p z = precision_round Binary16 (int_as_f64 z)"
      using True by (simp add: Binary16 binary16_overflow_threshold_def)
    then show ?thesis using f by (simp only: Binary16 precision_round_eq int_as_f64_facts(1))
  next
    case False
    then have "65520 \<le> \<bar>z\<bar>" by simp
    then have "(65520 :: rat) \<le> of_int \<bar>z\<bar>" by (metis of_int_le_iff of_int_numeral)
    then have "precision_pattern p (precision_rnd p (of_int \<bar>z\<bar>)) = f64_infinity"
      using binary16_threshold by (simp only: Binary16 precision_pattern_def precision_rnd.simps precision_limit.simps if_True)
    then show ?thesis using False
      by (simp only: Binary16 round_integer.simps binary16_overflow_threshold_def if_False int_as_f64_facts(1))
  qed
next
  case Binary32
  show ?thesis by (simp only: Binary32 round_integer.simps int_as_f32_def f32_pattern_def precision_pattern_def precision_rnd.simps precision_limit.simps)
next
  case Binary64
  show ?thesis by (simp only: Binary64 round_integer.simps int_as_f64_eq)
qed

section \<open>Values\<close>

lemma fixed_binary_float_eq:
  assumes "scalar_precision scalar = Some p" "0 \<le> x" "precision_rnd p x < two_powi (precision_limit p)"
  shows "fixed_binary_float scalar (with_sign negative (precision_pattern p (precision_rnd p x)))
    = Some \<lparr> value_scalar = scalar, value_bits = with_sign negative (precision_pattern p (precision_rnd p x)) \<rparr>"
proof -
  let ?w = "with_sign negative (precision_pattern p (precision_rnd p x))"
  note pf = precision_pattern_facts [OF assms(2), of p]
  have fin: "f64_is_finite ?w" using pf(1) assms(3) by (simp only: with_sign_facts(2))
  have "f64_mag ?w = precision_rnd p x" using pf(2) [OF assms(3)] by (simp only: with_sign_facts(1))
  then have "precision_round p ?w = ?w"
    by (simp only: precision_round_eq [OF fin] with_sign_facts(3) [OF pf(3)] precision_rnd_facts(2) [OF assms(2)])
  then show ?thesis using fin by (simp add: fixed_binary_float_def assms(1))
qed

text \<open>A well-formed carrier: the payload is a value of the scalar.\<close>

definition fixed_value_ok :: "fixed_scalar_value \<Rightarrow> bool" where
  "fixed_value_ok v =
     (case scalar_class (value_scalar v) of
        SignedInteger \<Rightarrow>
          - (2 ^ (bit_width (value_scalar v) - 1)) \<le> sint (value_bits v) \<and>
          sint (value_bits v) < 2 ^ (bit_width (value_scalar v) - 1)
      | BinaryFloat \<Rightarrow>
          f64_is_finite (value_bits v) \<and>
          (case scalar_precision (value_scalar v) of
             None \<Rightarrow> False
           | Some p \<Rightarrow> precision_rnd p (f64_mag (value_bits v)) = f64_mag (value_bits v) \<and>
                       f64_mag (value_bits v) < two_powi (precision_limit p))
      | _ \<Rightarrow> unat (value_bits v) < 2 ^ bit_width (value_scalar v))"

lemma sint_of_int_i64: "i64_min \<le> z \<Longrightarrow> z \<le> i64_max \<Longrightarrow> sint (of_int z :: u64) = z"
  by (simp add: signed_of_int signed_take_bit_int_eq_self)

lemma unat_of_nat_u64: "n \<le> u64_max \<Longrightarrow> unat (of_nat n :: u64) = n"
  by (simp add: unat_of_nat take_bit_nat_eq_self)

lemma signed_bounds:
  "scalar_class s = SignedInteger \<Longrightarrow> i64_min \<le> - (2 ^ (bit_width s - 1)) \<and> 2 ^ (bit_width s - 1) \<le> i64_max + 1"
  by (cases s) simp_all

lemma unsigned_bounds: "(2 :: nat) ^ bit_width s \<le> u64_max + 1"
  by (cases s) simp_all

lemma fixed_signed_eq:
  "fixed_signed s z = (if scalar_class s = SignedInteger \<and> - (2 ^ (bit_width s - 1)) \<le> z \<and> z < 2 ^ (bit_width s - 1)
     then Some \<lparr> value_scalar = s, value_bits = of_int z \<rparr> else None)"
  by (auto simp: fixed_signed_def signed_range_eq)

lemma fixed_unsigned_eq:
  "fixed_unsigned s n = (if (scalar_class s = UnsignedInteger \<or> scalar_class s = Octet) \<and> n < 2 ^ bit_width s
     then Some \<lparr> value_scalar = s, value_bits = of_nat n \<rparr> else None)"
proof -
  have "0 < (2 :: nat) ^ bit_width s" by simp
  then have "n \<le> 2 ^ bit_width s - 1 \<longleftrightarrow> n < 2 ^ bit_width s" by linarith
  then show ?thesis by (simp only: fixed_unsigned_def unsigned_max_eq) auto
qed

lemma constructors_ok:
  "fixed_signed s z = Some v \<Longrightarrow> value_scalar v = s \<and> fixed_value_ok v \<and> as_i64 v = Some z"
  "fixed_unsigned s n = Some v \<Longrightarrow> value_scalar v = s \<and> fixed_value_ok v \<and> as_u64 v = Some n"
  "fixed_binary_float s w = Some v \<Longrightarrow> value_scalar v = s \<and> fixed_value_ok v \<and> as_f64 v = Some w"
proof -
  assume "fixed_signed s z = Some v"
  then have s: "scalar_class s = SignedInteger" "- (2 ^ (bit_width s - 1)) \<le> z" "z < 2 ^ (bit_width s - 1)"
    "v = \<lparr> value_scalar = s, value_bits = of_int z \<rparr>"
    by (auto simp: fixed_signed_eq split: if_splits)
  then have "sint (of_int z :: u64) = z" using signed_bounds [OF s(1)] by (intro sint_of_int_i64) linarith+
  with s show "value_scalar v = s \<and> fixed_value_ok v \<and> as_i64 v = Some z"
    by (simp add: fixed_value_ok_def as_i64_def)
next
  assume "fixed_unsigned s n = Some v"
  then have s: "scalar_class s = UnsignedInteger \<or> scalar_class s = Octet" "n < 2 ^ bit_width s"
    "v = \<lparr> value_scalar = s, value_bits = of_nat n \<rparr>"
    by (auto simp: fixed_unsigned_eq split: if_splits)
  then have "unat (of_nat n :: u64) = n" using unsigned_bounds [of s] by (intro unat_of_nat_u64) linarith
  with s show "value_scalar v = s \<and> fixed_value_ok v \<and> as_u64 v = Some n"
    by (auto simp: fixed_value_ok_def as_u64_def)
next
  assume b: "fixed_binary_float s w = Some v"
  then obtain p where p: "scalar_precision s = Some p" "f64_is_finite w" "precision_round p w = w"
    "v = \<lparr> value_scalar = s, value_bits = w \<rparr>"
    by (auto simp: fixed_binary_float_def split: option.splits if_splits)
  have c: "scalar_class s = BinaryFloat" using p(1) scalar_precision_None_iff [of s] by auto
  let ?y = "precision_rnd p (f64_mag w)"
  note pf = precision_pattern_facts [OF f64_mag_nonneg, of p w]
  have w: "w = with_sign (f64_is_sign_negative w) (precision_pattern p ?y)"
    using precision_round_eq [OF p(2), of p] by (simp only: p(3))
  have "f64_is_finite (precision_pattern p ?y)" using p(2) by (subst (asm) w) (simp only: with_sign_facts)
  then have lt: "?y < two_powi (precision_limit p)" using pf(1) by blast
  then have "f64_mag w = ?y" using pf(2) by (subst w) (simp only: with_sign_facts)
  with lt p c show "value_scalar v = s \<and> fixed_value_ok v \<and> as_f64 v = Some w"
    by (simp add: fixed_value_ok_def as_f64_def)
qed

section \<open>Materialisation lemmas\<close>

lemma wrapping_neg_i64: "m \<le> nat (- i64_min) \<Longrightarrow> sint (- (of_nat m :: u64)) = - int m"
proof -
  assume "m \<le> nat (- i64_min)"
  then have "sint (of_int (- int m) :: u64) = - int m" by (intro sint_of_int_i64) auto
  then show ?thesis by simp
qed

definition signed_digits :: "numeric_literal_sign \<Rightarrow> string \<Rightarrow> int" where
  "signed_digits sign s = (if sign = Negative then - int (digits_value s) else int (digits_value s))"

lemma materialize_signed_eq:
  assumes "all_digits s" "s \<noteq> []" "scalar_class scalar = SignedInteger"
  shows "materialize_signed_fixed_scalar s sign scalar =
    ok_or (fixed_signed scalar (signed_digits sign s)) (OutsideFixedScalarRange scalar)"
proof -
  note b = signed_bounds [OF assms(3)]
  show ?thesis
  proof (cases sign)
    case Positive
    show ?thesis
    proof (cases "int (digits_value s) \<le> i64_max")
      case True
      then show ?thesis using Positive parse_signed_digits [OF assms(1,2), of i64_min i64_max]
        by (simp add: materialize_signed_fixed_scalar_def signed_digits_def ok_or_def)
    next
      case False
      then have "\<not> int (digits_value s) < 2 ^ (bit_width scalar - 1)" using b by linarith
      then have "fixed_signed scalar (int (digits_value s)) = None" by (simp only: fixed_signed_eq simp_thms if_False)
      then show ?thesis using False Positive parse_signed_digits [OF assms(1,2), of i64_min i64_max]
        by (simp add: materialize_signed_fixed_scalar_def signed_digits_def ok_or_def)
    qed
  next
    case Negative
    show ?thesis
    proof (cases "digits_value s \<le> nat (- i64_min)")
      case True
      then show ?thesis using Negative parse_unsigned_digits [OF assms(1,2), of u64_max] wrapping_neg_i64 [OF True]
        by (simp add: materialize_signed_fixed_scalar_def signed_digits_def ok_or_def)
    next
      case False
      then have "9223372036854775808 < int (digits_value s)" by simp
      then have "\<not> - (2 ^ (bit_width scalar - 1)) \<le> - int (digits_value s)" using b by linarith
      then have "fixed_signed scalar (- int (digits_value s)) = None" by (simp only: fixed_signed_eq simp_thms if_False)
      then show ?thesis using False Negative parse_unsigned_digits [OF assms(1,2), of u64_max]
        by (simp add: materialize_signed_fixed_scalar_def signed_digits_def ok_or_def)
    qed
  qed
qed

lemma materialize_unsigned_eq:
  assumes "all_digits s" "s \<noteq> []"
  shows "materialize_unsigned_fixed_scalar s sign scalar =
    (if sign = Negative then Inl (NegativeUnsignedLiteral scalar)
     else ok_or (fixed_unsigned scalar (digits_value s)) (OutsideFixedScalarRange scalar))"
proof (cases "digits_value s \<le> u64_max")
  case True
  then show ?thesis using parse_unsigned_digits [OF assms, of u64_max]
    by (simp add: materialize_unsigned_fixed_scalar_def ok_or_def)
next
  case False
  then have "fixed_unsigned scalar (digits_value s) = None" using unsigned_bounds [of scalar] by (simp add: fixed_unsigned_eq)
  then show ?thesis using False parse_unsigned_digits [OF assms, of u64_max]
    by (simp add: materialize_unsigned_fixed_scalar_def ok_or_def)
qed

text \<open>The integer a carrier of an integer scalar holds, and the integers of a scalar.\<close>

definition fixed_integer :: "fixed_scalar_value \<Rightarrow> int option" where
  "fixed_integer v = (case as_i64 v of Some z \<Rightarrow> Some z | None \<Rightarrow> map_option int (as_u64 v))"

definition scalar_holds :: "fixed_scalar \<Rightarrow> int \<Rightarrow> bool" where
  "scalar_holds s z \<longleftrightarrow>
     (if scalar_class s = SignedInteger then - (2 ^ (bit_width s - 1)) \<le> z \<and> z < 2 ^ (bit_width s - 1)
      else 0 \<le> z \<and> z < 2 ^ bit_width s)"

lemma fixed_integer_signed: "as_i64 v = Some z \<Longrightarrow> fixed_integer v = Some z"
  by (simp add: fixed_integer_def)

lemma fixed_integer_unsigned: "as_u64 v = Some n \<Longrightarrow> fixed_integer v = Some (int n)"
  by (auto simp: fixed_integer_def as_i64_def as_u64_def split: fixed_scalar_class.splits)

lemma materialize_float_text:
  assumes "normal_parts ip fp ep" "length (literal_text ip fp ep) \<le> u32_max" "scalar_precision scalar = Some p"
    and "p \<noteq> Binary16 \<or> \<not> checks \<or> literal_value ip fp ep < two_powi 128"
  shows "materialize_binary_float_fixed_scalar checks (literal_text ip fp ep) sign scalar =
    Inr (let y = precision_rnd p (literal_value ip fp ep)
         in if y < two_powi (precision_limit p)
            then Inr \<lparr> value_scalar = scalar, value_bits = with_sign (sign = Negative) (f64_bits y) \<rparr>
            else Inl (NonFiniteFixedFloat scalar))"
proof -
  define v where "v = literal_value ip fp ep"
  define y where "y = precision_rnd p v"
  define negative where "negative = (sign = Negative)"
  have v: "0 \<le> v" by (simp add: v_def literal_value_def)
  have pat: "precision_pattern p y = (if y < two_powi (precision_limit p) then f64_bits y else f64_infinity)"
    unfolding precision_pattern_def using linorder_not_le [of "two_powi (precision_limit p)" y] by argo
  note pf = precision_pattern_facts [OF v, of p, folded y_def]
  have val: "decimal_text_value (literal_text ip fp ep) = Some v" by (simp add: decimal_text_value_literal [OF assms(1)] v_def)
  have mag: "(case p of
       Binary16 \<Rightarrow> map_sum id (\<lambda>m. ok_or m (NonFiniteFixedFloat scalar)) (decimal_to_f16 checks (literal_text ip fp ep) negative)
     | Binary32 \<Rightarrow> Inr (parse_binary_float_text parse_f32 (literal_text ip fp ep) negative scalar)
     | Binary64 \<Rightarrow> Inr (parse_binary_float_text parse_f64 (literal_text ip fp ep) negative scalar))
    = Inr (if y < two_powi (precision_limit p) then Inr (with_sign negative (precision_pattern p y))
           else Inl (NonFiniteFixedFloat scalar))" (is "?m = _")
  proof (cases p)
    case Binary16
    have "decimal_to_f16 checks (literal_text ip fp ep) negative
        = Inr (if y < two_powi 16 then Some (with_sign negative (f64_bits y)) else None)"
      using decimal_to_f16_once [OF assms(1,2), of checks negative] assms(4) Binary16
      by (simp only: Binary16 simp_thms v_def y_def precision_rnd.simps with_sign_def Let_def)
    then show ?thesis unfolding pat by (simp add: Binary16 ok_or_def)
  next
    case Binary32
    have "parse_f32 (literal_text ip fp ep) = Some (precision_pattern p y)"
      by (simp add: parse_f32_def val Binary32 y_def f32_pattern_def precision_pattern_def)
    then show ?thesis using pf(1) by (simp add: Binary32 parse_binary_float_text_def with_sign_def)
  next
    case Binary64
    have "parse_f64 (literal_text ip fp ep) = Some (precision_pattern p y)"
      by (simp only: parse_f64_def val f64_round_def Binary64 y_def precision_pattern_def precision_rnd.simps precision_limit.simps Let_def option.map)
    then show ?thesis using pf(1)
      by (simp only: Binary64 parse_binary_float_text_def with_sign_def option.case binary_float_precision.case if_not_P) presburger
  qed
  have "materialize_binary_float_fixed_scalar checks (literal_text ip fp ep) sign scalar
      = map_sum id (\<lambda>m. result_bind m (\<lambda>m. ok_or (fixed_binary_float scalar m) (NonFiniteFixedFloat scalar))) ?m"
    by (simp only: materialize_binary_float_fixed_scalar_def Let_def assms(3) option.case negative_def)
  then show ?thesis
    unfolding mag using fixed_binary_float_eq [OF assms(3) v, folded y_def, of negative] pat
    by (cases "y < two_powi (precision_limit p)")
       (simp_all only: if_True if_False map_sum.simps result_bind_simps ok_or_def option.case Let_def y_def [symmetric] v_def [symmetric] negative_def [symmetric])
qed

section \<open>Properties\<close>

text \<open>Rounding at a binary-float precision, from a finite \<open>f64\<close> or from an integer, rounds the exact
  value once to nearest, ties to even, keeps the sign, and gives infinity exactly when the rounded
  magnitude leaves the finite range.\<close>

theorem precision_rounding_single:
  assumes "f64_is_finite v"
  shows "precision_round p v = with_sign (f64_is_sign_negative v) (precision_pattern p (precision_rnd p (f64_mag v))) \<and>
    round_integer p z = with_sign (z < 0) (precision_pattern p (precision_rnd p (of_int \<bar>z\<bar>))) \<and>
    (f64_is_finite (precision_round p v) \<longleftrightarrow> precision_rnd p (f64_mag v) < two_powi (precision_limit p)) \<and>
    (f64_is_finite (round_integer p z) \<longleftrightarrow> precision_rnd p (of_int \<bar>z\<bar>) < two_powi (precision_limit p))"
proof -
  have z: "(0 :: rat) \<le> of_int \<bar>z\<bar>" by simp
  show ?thesis
    unfolding precision_round_eq [OF assms] round_integer_eq with_sign_facts
    using precision_pattern_facts(1) [OF f64_mag_nonneg, of p v] precision_pattern_facts(1) [OF z, of p] by blast
qed

theorem precision_rounding_single_witness: "round_integer Binary16 (- 65520) = with_sign True f64_infinity"
proof -
  have "f64_is_finite 0" by code_simp
  from precision_rounding_single [OF this, of Binary16 "- 65520"]
  have "round_integer Binary16 (- 65520) = with_sign True (precision_pattern Binary16 (rnd 11 (- 24) 65520))" by simp
  then show ?thesis
    using binary16_threshold [of 65520] by (simp only: precision_pattern_def precision_limit.simps if_True order_refl)
qed

text \<open>C20. A whole-number literal at an integer scalar: a minus sign at an unsigned scalar or \<open>Byte\<close> is
  refused as such, also before a zero; otherwise the signed value is taken exactly when it is one of the
  scalar's values, and refused as out of range exactly when it is not. No value passes through a float,
  and the minimum of each signed width is accepted.\<close>

theorem materialize_integer_exact:
  fixes negative :: bool
  assumes "all_digits s" and "s \<noteq> []" and "scalar_class scalar \<noteq> BinaryFloat"
  defines "z \<equiv> (if negative then - int (digits_value s) else int (digits_value s))"
  shows "\<exists>r. materialize_normalized_fixed_scalar checks s negative scalar = Inr r \<and>
    (if negative \<and> scalar_class scalar \<noteq> SignedInteger then r = Inl (NegativeUnsignedLiteral scalar)
     else if scalar_holds scalar z
     then \<exists>v. r = Inr v \<and> value_scalar v = scalar \<and> fixed_integer v = Some z
     else r = Inl (OutsideFixedScalarRange scalar))"
proof (cases "scalar_class scalar = SignedInteger")
  case True
  define sign where "sign = (if negative then Negative else Positive)"
  have z: "signed_digits sign s = z" by (simp add: signed_digits_def z_def sign_def)
  have m: "materialize_normalized_fixed_scalar checks s negative scalar
      = Inr (ok_or (fixed_signed scalar z) (OutsideFixedScalarRange scalar))"
    using materialize_signed_eq [OF assms(1,2) True, of sign]
    by (simp add: materialize_normalized_fixed_scalar_def True z sign_def [symmetric])
  show ?thesis
  proof (cases "fixed_signed scalar z")
    case None
    then show ?thesis using m True by (auto simp: ok_or_def fixed_signed_eq scalar_holds_def split: if_splits)
  next
    case (Some v)
    moreover from this have "scalar_holds scalar z" using True by (auto simp: fixed_signed_eq scalar_holds_def split: if_splits)
    ultimately show ?thesis using m True constructors_ok(1) [OF Some] fixed_integer_signed by (simp add: ok_or_def)
  qed
next
  case False
  with assms(3) have c: "scalar_class scalar = UnsignedInteger \<or> scalar_class scalar = Octet"
    by (cases "scalar_class scalar") auto
  have m: "materialize_normalized_fixed_scalar checks s negative scalar =
      Inr (if negative then Inl (NegativeUnsignedLiteral scalar)
           else ok_or (fixed_unsigned scalar (digits_value s)) (OutsideFixedScalarRange scalar))"
    using c materialize_unsigned_eq [OF assms(1,2)] by (auto simp: materialize_normalized_fixed_scalar_def)
  have pw: "digits_value s < 2 ^ bit_width scalar \<longleftrightarrow> int (digits_value s) < 2 ^ bit_width scalar"
    by (metis of_nat_less_iff of_nat_numeral of_nat_power)
  show ?thesis
  proof (cases "fixed_unsigned scalar (digits_value s)")
    case None
    then have "\<not> int (digits_value s) < 2 ^ bit_width scalar" using c pw by (auto simp only: fixed_unsigned_eq split: if_splits)
    then show ?thesis using m None False by (simp add: ok_or_def scalar_holds_def z_def del: of_nat_less_numeral_power_cancel_iff)
  next
    case (Some v)
    then have h: "int (digits_value s) < 2 ^ bit_width scalar" using pw by (auto simp only: fixed_unsigned_eq split: if_splits)
    show ?thesis
      using m Some False h constructors_ok(2) [OF Some] fixed_integer_unsigned
      by (simp add: ok_or_def scalar_holds_def z_def del: of_nat_less_numeral_power_cancel_iff)
  qed
qed

theorem materialize_integer_exact_witness:
  "\<exists>v. materialize_normalized_fixed_scalar True ''128'' True I8 = Inr (Inr v) \<and> fixed_integer v = Some (- 128)"
proof -
  have d: "all_digits ''128''" "digits_value ''128'' = 128" by code_simp+
  have "scalar_holds I8 (- 128)" by (simp add: scalar_holds_def)
  then show ?thesis
    using materialize_integer_exact [OF d(1), of I8 True True] d(2) by auto
qed

text \<open>C19. A literal materialises at a binary-float scalar as its exact decimal value rounded once, at
  the scalar's own precision, with the sign kept (so \<open>-0.0\<close> is a negative zero); the only error is
  reported exactly when the rounded magnitude is not finite.\<close>

theorem materialize_binary_float_rounds_once:
  assumes "normal_parts ip fp ep" and "length (literal_text ip fp ep) \<le> u32_max"
    and "scalar_precision scalar = Some p"
    and "scalar \<noteq> F16 \<or> \<not> overflow_checks \<or> literal_value ip fp ep < two_powi 128"
  shows "materialize_normalized_fixed_scalar overflow_checks (literal_text ip fp ep) negative scalar =
    Inr (let y = precision_rnd p (literal_value ip fp ep)
         in if y < two_powi (precision_limit p)
            then Inr \<lparr> value_scalar = scalar, value_bits = with_sign negative (f64_bits y) \<rparr>
            else Inl (NonFiniteFixedFloat scalar))"
proof -
  have c: "scalar_class scalar = BinaryFloat" using assms(3) scalar_precision_None_iff [of scalar] by auto
  have "scalar \<noteq> F16 \<Longrightarrow> p \<noteq> Binary16" using assms(3) by (cases scalar) auto
  then have "p \<noteq> Binary16 \<or> \<not> overflow_checks \<or> literal_value ip fp ep < two_powi 128" using assms(4) by blast
  note m = materialize_float_text [OF assms(1-3) this]
  have n: "((if negative then Negative else Positive) = Negative) = negative" by simp
  show ?thesis
    by (simp only: materialize_normalized_fixed_scalar_def c fixed_scalar_class.case Let_def m n)
qed

theorem materialize_binary_float_rounds_once_witness:
  "materialize_normalized_fixed_scalar True ''1.5'' True F32 =
     Inr (Inr \<lparr> value_scalar = F32, value_bits = with_sign True (f64_bits (3 / 2)) \<rparr>)"
proof -
  have l: "literal_value ''1'' (Some ''5'') None = 3 / 2" "literal_text ''1'' (Some ''5'') None = ''1.5''"
    "normal_parts ''1'' (Some ''5'') None" by code_simp+
  have r: "precision_rnd Binary32 (3 / 2) = 3 / 2" unfolding precision_rnd.simps by (rule binary32.R_fixed [of _ 3 "- 1"]) simp_all
  have "3 / 2 < two_powi (precision_limit Binary32)" "length ''1.5'' \<le> u32_max" "scalar_precision F32 = Some Binary32" "F32 \<noteq> F16"
    by simp_all
  then show ?thesis
    using materialize_binary_float_rounds_once [OF l(3), of F32 Binary32 True True] by (simp only: l r Let_def if_True simp_thms)
qed

text \<open>C39. Every value a fixed scalar conversion produces, from normalized text or from the text of a
  cast, is a well-formed value of the requested scalar: an integer in its range, or a finite float
  already exact at its precision.\<close>

theorem fixed_scalar_conversions_typed:
  assumes "materialize_normalized_fixed_scalar checks s negative scalar = Inr (Inr v) \<or>
    parse_numeric_text_to_fixed_scalar checks s scalar = Inr (Inr v)"
  shows "value_scalar v = scalar \<and> fixed_value_ok v"
proof -
  have sg: "value_scalar v = scalar \<and> fixed_value_ok v" if "materialize_signed_fixed_scalar t sign scalar = Inr v" for t sign
    using that constructors_ok(1)
    by (auto simp: materialize_signed_fixed_scalar_def ok_or_def result_bind_eq_Inr_iff split: option.splits)
  have us: "value_scalar v = scalar \<and> fixed_value_ok v" if "materialize_unsigned_fixed_scalar t sign scalar = Inr v" for t sign
    using that constructors_ok(2)
    by (auto simp: materialize_unsigned_fixed_scalar_def ok_or_def result_bind_eq_Inr_iff split: option.splits if_splits)
  have fl: "value_scalar v = scalar \<and> fixed_value_ok v"
    if f: "materialize_binary_float_fixed_scalar checks t sign scalar = Inr (Inr v)" for t sign
  proof -
    obtain p m where "fixed_binary_float scalar m = Some v"
      using f by (auto simp: materialize_binary_float_fixed_scalar_def Let_def ok_or_def result_bind_eq_Inr_iff map_sum_def
          split: option.splits sum.splits)
    then show ?thesis using constructors_ok(3) by blast
  qed
  from assms show ?thesis
  proof
    assume "materialize_normalized_fixed_scalar checks s negative scalar = Inr (Inr v)"
    then show ?thesis using sg us fl
      by (auto simp: materialize_normalized_fixed_scalar_def Let_def split: fixed_scalar_class.splits)
  next
    assume "parse_numeric_text_to_fixed_scalar checks s scalar = Inr (Inr v)"
    then show ?thesis using sg us fl
      by (auto simp: parse_numeric_text_to_fixed_scalar_def split: option.splits sum.splits if_splits)
  qed
qed

theorem fixed_scalar_conversions_typed_witness: "fixed_value_ok \<lparr> value_scalar = U8, value_bits = 7 \<rparr>"
proof -
  have d: "all_digits ''7''" "digits_value ''7'' = 7" by code_simp+
  have "materialize_normalized_fixed_scalar True ''7'' False U8 = Inr (Inr \<lparr> value_scalar = U8, value_bits = 7 \<rparr>)"
    using materialize_unsigned_eq [OF d(1), of Positive U8] d(2)
    by (simp add: materialize_normalized_fixed_scalar_def fixed_unsigned_eq ok_or_def)
  then show ?thesis using fixed_scalar_conversions_typed by blast
qed

end
