(* ===== verification/Numeric_Proofs.thy ===== *)
theory Numeric_Proofs
  imports Fixed_Scalar_Value Numeric_Operators Rounding
begin

text \<open>
  The bounded-integer proof table of \<open>analysis/numeric_proofs/mod.rs\<close>: which checked integer operations
  and narrowings of a HIR module can never fail, from closed intervals and a one-entry cache of the
  last written local. Expressions are the trees the value ids of the append-only expression store
  denote; statements, terminators and policies the analysis does not inspect are single constructors.
  A nondeterministic semantics of the inspected forms states what the facts promise to the backends.
\<close>

section \<open>The inspected part of HIR\<close>

type_synonym interval = "int \<times> int"
type_synonym type_id = nat
type_synonym hir_local = nat
type_synonym node_id = nat

text \<open>The two lookups of the type environment the analysis makes, on any environment.\<close>

record type_environment =
  env_number_scale :: "type_id \<Rightarrow> number_scale option"
  env_fixed_scalar :: "type_id \<Rightarrow> fixed_scalar option"

definition from_type_id :: "type_id \<Rightarrow> type_environment \<Rightarrow> numeric_scalar option" where
  "from_type_id ty env =
     (case env_number_scale env ty of
        Some scale \<Rightarrow> Some (Number scale)
      | None \<Rightarrow>
          (case env_fixed_scalar env ty of
             None \<Rightarrow> None
           | Some scalar \<Rightarrow> if scalar = Byte then None else Some (Fixed scalar)))"

datatype cast_policy = NumericConversion numeric_scalar numeric_scalar | OtherPolicy

record hir_place =
  place_root :: hir_local
  place_projections :: "nat list"

datatype hir_expression =
    FixedScalarExpr type_id fixed_scalar_value
  | CastExpr type_id hir_expression cast_policy
  | LoadExpr type_id hir_place
  | CopyExpr type_id hir_place
  | OtherExpr type_id

record hir_numeric_op =
  op_operator :: numeric_operator
  op_domain :: numeric_scalar

datatype hir_numeric_operands = Unary hir_expression | Binary hir_expression hir_expression

datatype hir_write_target = DefineLocal hir_local | AssignPlace hir_place

datatype hir_local_destination = Define hir_local | Update hir_local

fun destination_local :: "hir_local_destination \<Rightarrow> hir_local" where
  "destination_local (Define l) = l"
| "destination_local (Update l) = l"

datatype hir_statement_kind =
    Write hir_write_target hir_expression
  | NumericOp hir_numeric_op hir_numeric_operands hir_local_destination
  | LoopStepFailure
  | OtherStatement

record hir_statement =
  statement_id :: node_id
  statement_kind :: hir_statement_kind

datatype hir_fallible_operation =
    InvokeNumericOp hir_numeric_op hir_numeric_operands
  | InvokeCastOp cast_policy hir_expression
  | OtherOperation

datatype hir_terminator = Invoke node_id hir_fallible_operation | OtherTerminator

record hir_block =
  block_statements :: "hir_statement list"
  block_terminator :: hir_terminator

section \<open>The code\<close>

record numeric_proofs =
  safe_operations :: "node_id set"
  safe_narrowings :: "node_id set"

record block_analyser =
  cache :: "(hir_local \<times> interval) option"
  facts :: numeric_proofs

definition integer_operation_is_safe :: "numeric_proofs \<Rightarrow> node_id \<Rightarrow> bool" where
  "integer_operation_is_safe proofs statement \<longleftrightarrow> statement \<in> safe_operations proofs"

definition integer_narrowing_is_safe :: "numeric_proofs \<Rightarrow> node_id \<Rightarrow> bool" where
  "integer_narrowing_is_safe proofs statement \<longleftrightarrow> statement \<in> safe_narrowings proofs"

definition canonical_interval :: "type_environment \<Rightarrow> type_id \<Rightarrow> interval option" where
  "canonical_interval env ty =
     (case from_type_id ty env of
        None \<Rightarrow> None
      | Some scalar \<Rightarrow> if \<not> is_integer scalar then None else integer_range scalar)"

definition place_interval ::
  "type_environment \<Rightarrow> (hir_local \<times> interval) option \<Rightarrow> type_id \<Rightarrow> hir_place \<Rightarrow> interval option" where
  "place_interval env c ty place =
     (if place_projections place = [] then
        (case c of
           Some (cached_local, interval) \<Rightarrow>
             if cached_local = place_root place then Some interval else canonical_interval env ty
         | None \<Rightarrow> canonical_interval env ty)
      else canonical_interval env ty)"

fun expression_interval ::
  "type_environment \<Rightarrow> (hir_local \<times> interval) option \<Rightarrow> hir_expression \<Rightarrow> interval option" where
  "expression_interval env c (FixedScalarExpr ty v) =
     (case (case as_i64 v of Some z \<Rightarrow> Some z | None \<Rightarrow> map_option int (as_u64 v)) of
        None \<Rightarrow> None
      | Some z \<Rightarrow> Some (z, z))"
| "expression_interval env c (CastExpr ty source policy) =
     (case policy of
        OtherPolicy \<Rightarrow> None
      | NumericConversion _ target \<Rightarrow>
          (case integer_range target of
             None \<Rightarrow> None
           | Some target_range \<Rightarrow>
               (case expression_interval env c source of
                  None \<Rightarrow> None
                | Some source_interval \<Rightarrow>
                    let low = max (fst source_interval) (fst target_range);
                        high = min (snd source_interval) (snd target_range)
                    in if low \<le> high then Some (low, high) else None)))"
| "expression_interval env c (LoadExpr ty place) = place_interval env c ty place"
| "expression_interval env c (CopyExpr ty place) = place_interval env c ty place"
| "expression_interval env c (OtherExpr ty) = canonical_interval env ty"

definition binary_intervals ::
  "type_environment \<Rightarrow> (hir_local \<times> interval) option \<Rightarrow> hir_numeric_operands \<Rightarrow> (interval \<times> interval) option" where
  "binary_intervals env c operands =
     (case operands of
        Unary _ \<Rightarrow> None
      | Binary left right \<Rightarrow>
          (case expression_interval env c left of
             None \<Rightarrow> None
           | Some l \<Rightarrow> map_option (\<lambda>r. (l, r)) (expression_interval env c right)))"

text \<open>\<open>i128::checked_div\<close>.\<close>

definition checked_div_i128 :: "int \<Rightarrow> int \<Rightarrow> int option" where
  "checked_div_i128 a b = (if b = 0 then None else checked_i128 (a sdiv b))"

fun accumulate_quotients :: "(int \<times> int) list \<Rightarrow> interval \<Rightarrow> interval option" where
  "accumulate_quotients [] acc = Some acc"
| "accumulate_quotients ((a, b) # rest) (low, high) =
     (case checked_div_i128 a b of
        None \<Rightarrow> None
      | Some q \<Rightarrow> accumulate_quotients rest (min low q, max high q))"

definition divide_interval :: "interval \<Rightarrow> interval \<Rightarrow> interval \<Rightarrow> interval option" where
  "divide_interval domain left right =
     (if fst right \<le> 0 \<and> 0 \<le> snd right then None
      else if fst domain < 0 \<and> fst left \<le> fst domain \<and> fst domain \<le> snd left \<and> fst right \<le> - 1 \<and> - 1 \<le> snd right
      then None
      else accumulate_quotients
             [(fst left, fst right), (fst left, snd right), (snd left, fst right), (snd left, snd right)]
             (i128_max, i128_min))"

definition remainder_interval :: "interval \<Rightarrow> interval \<Rightarrow> interval option" where
  "remainder_interval left right =
     (if fst right \<le> 0 \<and> 0 \<le> snd right then None
      else
        (case checked_i128 (max \<bar>fst right\<bar> \<bar>snd right\<bar> - 1) of
           None \<Rightarrow> None
         | Some bound \<Rightarrow>
             Some (if 0 \<le> fst left then (0, bound) else if snd left \<le> 0 then (- bound, 0) else (- bound, bound))))"

definition prove_operation ::
  "type_environment \<Rightarrow> (hir_local \<times> interval) option \<Rightarrow> hir_numeric_op \<Rightarrow> hir_numeric_operands \<Rightarrow> interval option" where
  "prove_operation env c op operands =
     (case integer_range (op_domain op) of
        None \<Rightarrow> None
      | Some domain \<Rightarrow>
          if \<not> is_integer (op_domain op) then None
          else
            (case (case op_operator op of
                Negate \<Rightarrow>
                  (if negation_domain (op_domain op) \<noteq> Some (op_domain op) then None
                   else case operands of
                     Binary _ _ \<Rightarrow> None
                   | Unary operand \<Rightarrow>
                       (case expression_interval env c operand of
                          None \<Rightarrow> None
                        | Some (low, high) \<Rightarrow>
                            (case checked_i128 (- high) of
                               None \<Rightarrow> None
                             | Some lo \<Rightarrow> map_option (\<lambda>hi. (lo, hi)) (checked_i128 (- low)))))
              | Divide \<Rightarrow> None
              | Power \<Rightarrow> None
              | _ \<Rightarrow>
                  (case binary_intervals env c operands of
                     None \<Rightarrow> None
                   | Some (left, right) \<Rightarrow>
                       (case op_operator op of
                          IntegerDivide \<Rightarrow> divide_interval domain left right
                        | Remainder \<Rightarrow> remainder_interval left right
                        | _ \<Rightarrow> checked_result_range (op_operator op) left right))) of
               None \<Rightarrow> None
             | Some interval \<Rightarrow>
                 if fst domain \<le> fst interval \<and> snd interval \<le> snd domain then Some interval else None))"

definition cast_narrowing_is_provable :: "cast_policy \<Rightarrow> interval \<Rightarrow> bool" where
  "cast_narrowing_is_provable policy source_interval =
     (case policy of
        OtherPolicy \<Rightarrow> False
      | NumericConversion source target \<Rightarrow>
          if \<not> is_integer source \<or> \<not> is_integer target then False
          else
            (case integer_range target of
               None \<Rightarrow> False
             | Some (target_low, target_high) \<Rightarrow>
                 target_low \<le> fst source_interval \<and> snd source_interval \<le> target_high))"

definition write_local :: "hir_write_target \<Rightarrow> hir_local option" where
  "write_local target =
     (case target of
        DefineLocal l \<Rightarrow> Some l
      | AssignPlace place \<Rightarrow> if place_projections place = [] then Some (place_root place) else None)"

definition visit_statement :: "type_environment \<Rightarrow> hir_statement \<Rightarrow> block_analyser \<Rightarrow> block_analyser" where
  "visit_statement env statement an =
     (case statement_kind statement of
        Write target v \<Rightarrow>
          (let interval = expression_interval env (cache an) v
           in case write_local target of
                Some target_local \<Rightarrow> an\<lparr> cache := map_option (\<lambda>interval. (target_local, interval)) interval \<rparr>
              | None \<Rightarrow> an\<lparr> cache := None \<rparr>)
      | NumericOp op operands result \<Rightarrow>
          (case prove_operation env (cache an) op operands of
             Some result_interval \<Rightarrow>
               an\<lparr> facts := (facts an)\<lparr> safe_operations := insert (statement_id statement) (safe_operations (facts an)) \<rparr>,
                   cache := Some (destination_local result, result_interval) \<rparr>
           | None \<Rightarrow> an\<lparr> cache := None \<rparr>)
      | LoopStepFailure \<Rightarrow> an\<lparr> cache := None \<rparr>
      | OtherStatement \<Rightarrow> an\<lparr> cache := None \<rparr>)"

definition visit_terminator :: "type_environment \<Rightarrow> hir_terminator \<Rightarrow> block_analyser \<Rightarrow> block_analyser" where
  "visit_terminator env terminator an =
     (case terminator of
        OtherTerminator \<Rightarrow> an
      | Invoke i operation \<Rightarrow>
          (let fs = facts an;
               fs' = (case operation of
                  InvokeNumericOp op operands \<Rightarrow>
                    if prove_operation env (cache an) op operands \<noteq> None
                    then fs\<lparr> safe_operations := insert i (safe_operations fs) \<rparr> else fs
                | InvokeCastOp policy source \<Rightarrow>
                    (case expression_interval env (cache an) source of
                       None \<Rightarrow> fs
                     | Some interval \<Rightarrow>
                         if cast_narrowing_is_provable policy interval
                         then fs\<lparr> safe_narrowings := insert i (safe_narrowings fs) \<rparr> else fs)
                | OtherOperation \<Rightarrow> fs)
           in an\<lparr> facts := fs', cache := None \<rparr>))"

definition visit_block :: "type_environment \<Rightarrow> hir_block \<Rightarrow> block_analyser \<Rightarrow> block_analyser" where
  "visit_block env block an =
     visit_terminator env (block_terminator block)
       (fold (visit_statement env) (block_statements block) (an\<lparr> cache := None \<rparr>))"

definition analyse_numeric_proofs :: "type_environment \<Rightarrow> hir_block list \<Rightarrow> numeric_proofs" where
  "analyse_numeric_proofs env blocks =
     facts (fold (visit_block env) blocks
       \<lparr> cache = None, facts = \<lparr> safe_operations = {}, safe_narrowings = {} \<rparr> \<rparr>)"

section \<open>Runtime meaning\<close>

text \<open>Runtime values, as far as the analysis distinguishes them, and the values of a type.\<close>

datatype rvalue = IntValue int | OpaqueValue

type_synonym store = "hir_local \<Rightarrow> rvalue"

definition value_of_type :: "type_environment \<Rightarrow> type_id \<Rightarrow> rvalue \<Rightarrow> bool" where
  "value_of_type env ty v =
     (case canonical_interval env ty of
        None \<Rightarrow> True
      | Some r \<Rightarrow> (case v of IntValue z \<Rightarrow> in_range r z | OpaqueValue \<Rightarrow> False))"

text \<open>The values an expression may evaluate to: an uninspected expression has any value of its type, a
  direct load or copy the value of its local, an infallible conversion keeps its source value, which
  lies in the target's range.\<close>

inductive evaluates :: "type_environment \<Rightarrow> store \<Rightarrow> hir_expression \<Rightarrow> rvalue \<Rightarrow> bool"
  for env :: type_environment and st :: store where
  literal: "fixed_integer v = Some z \<Longrightarrow> evaluates env st (FixedScalarExpr ty v) (IntValue z)"
| other_literal: "fixed_integer v = None \<Longrightarrow> evaluates env st (FixedScalarExpr ty v) OpaqueValue"
| conversion: "evaluates env st source (IntValue z) \<Longrightarrow> integer_range target = Some r \<Longrightarrow> in_range r z
    \<Longrightarrow> evaluates env st (CastExpr ty source (NumericConversion s target)) (IntValue z)"
| opaque_conversion: "evaluates env st source OpaqueValue \<Longrightarrow> integer_range target = Some r \<Longrightarrow> in_range r z
    \<Longrightarrow> evaluates env st (CastExpr ty source (NumericConversion s target)) (IntValue z)"
| other_conversion: "integer_range target = None \<Longrightarrow> value_of_type env ty v
    \<Longrightarrow> evaluates env st (CastExpr ty source (NumericConversion s target)) v"
| other_cast: "value_of_type env ty v \<Longrightarrow> evaluates env st (CastExpr ty source OtherPolicy) v"
| load: "place_projections p = [] \<Longrightarrow> value_of_type env ty (st (place_root p))
    \<Longrightarrow> evaluates env st (LoadExpr ty p) (st (place_root p))"
| copy: "place_projections p = [] \<Longrightarrow> value_of_type env ty (st (place_root p))
    \<Longrightarrow> evaluates env st (CopyExpr ty p) (st (place_root p))"
| projected_load: "place_projections p \<noteq> [] \<Longrightarrow> value_of_type env ty v \<Longrightarrow> evaluates env st (LoadExpr ty p) v"
| projected_copy: "place_projections p \<noteq> [] \<Longrightarrow> value_of_type env ty v \<Longrightarrow> evaluates env st (CopyExpr ty p) v"
| other: "value_of_type env ty v \<Longrightarrow> evaluates env st (OtherExpr ty) v"

inductive_cases evaluates_elims:
  "evaluates env st (FixedScalarExpr ty v) w" "evaluates env st (CastExpr ty source policy) w"
  "evaluates env st (LoadExpr ty p) w" "evaluates env st (CopyExpr ty p) w" "evaluates env st (OtherExpr ty) w"

text \<open>The exact result of an integer operation (the second operand of a negation is ignored), and the
  checked operation in its domain.\<close>

fun exact_result :: "numeric_operator \<Rightarrow> int \<Rightarrow> int \<Rightarrow> int option" where
  "exact_result Add a b = Some (a + b)"
| "exact_result Subtract a b = Some (a - b)"
| "exact_result Multiply a b = Some (a * b)"
| "exact_result IntegerDivide a b = (if b = 0 then None else Some (a sdiv b))"
| "exact_result Remainder a b = (if b = 0 then None else Some (a smod b))"
| "exact_result Negate a b = Some (- a)"
| "exact_result _ a b = None"

definition checked_operation :: "hir_numeric_op \<Rightarrow> int \<Rightarrow> int \<Rightarrow> int option" where
  "checked_operation op a b =
     (case integer_range (op_domain op) of
        None \<Rightarrow> None
      | Some domain \<Rightarrow>
          (case exact_result (op_operator op) a b of
             None \<Rightarrow> None
           | Some r \<Rightarrow> if in_range domain r then Some r else None))"

inductive operands_evaluate ::
  "type_environment \<Rightarrow> store \<Rightarrow> hir_numeric_operands \<Rightarrow> rvalue \<Rightarrow> rvalue \<Rightarrow> bool"
  for env :: type_environment and st :: store where
  unary: "evaluates env st e v \<Longrightarrow> operands_evaluate env st (Unary e) v (IntValue 0)"
| binary: "evaluates env st l v \<Longrightarrow> evaluates env st r w \<Longrightarrow> operands_evaluate env st (Binary l r) v w"

inductive_cases operands_evaluate_elims:
  "operands_evaluate env st (Unary e) v w" "operands_evaluate env st (Binary l r) v w"

text \<open>One statement that completes: it fixes the local it writes directly and may change every other
  local (aliases write through, calls and projections reach anything).\<close>

inductive completes :: "type_environment \<Rightarrow> hir_statement_kind \<Rightarrow> store \<Rightarrow> store \<Rightarrow> bool"
  for env :: type_environment where
  direct_write: "write_local target = Some l \<Longrightarrow> evaluates env st e v \<Longrightarrow> st' l = v \<Longrightarrow> completes env (Write target e) st st'"
| write_through: "write_local target = None \<Longrightarrow> completes env (Write target e) st st'"
| operation: "operands_evaluate env st operands (IntValue a) (IntValue b) \<Longrightarrow> checked_operation op a b = Some r
    \<Longrightarrow> st' (destination_local result) = IntValue r \<Longrightarrow> completes env (NumericOp op operands result) st st'"
| other_operation: "integer_range (op_domain op) = None \<Longrightarrow> completes env (NumericOp op operands result) st st'"
| other_statement: "completes env OtherStatement st st'"

inductive_cases completes_elims:
  "completes env (Write target e) st st'" "completes env (NumericOp op operands result) st st'"
  "completes env LoopStepFailure st st'"

inductive runs :: "type_environment \<Rightarrow> hir_statement list \<Rightarrow> store \<Rightarrow> store \<Rightarrow> bool"
  for env :: type_environment where
  start: "runs env [] st st"
| step: "completes env (statement_kind s) st st1 \<Longrightarrow> runs env ss st1 st2 \<Longrightarrow> runs env (s # ss) st st2"

inductive_cases runs_elims: "runs env [] st st'" "runs env (s # ss) st st'"

section \<open>Truncating division on intervals\<close>

lemma sdiv_nonneg: "0 \<le> a \<Longrightarrow> 0 < b \<Longrightarrow> a sdiv b = a div (b :: int)"
  by (cases "a = 0") (simp_all add: signed_divide_int_def)

lemma sdiv_mono_dividend:
  assumes "a \<le> a'" "0 < (b :: int)"
  shows "a sdiv b \<le> a' sdiv b"
proof -
  consider "0 \<le> a" | "a < 0" "0 \<le> a'" | "a' < 0" using assms(1) by linarith
  then show ?thesis
  proof cases
    case 1
    then show ?thesis using assms by (simp add: sdiv_nonneg zdiv_mono1)
  next
    case 2
    then have "a sdiv b = - (- a div b)" using assms(2) sdiv_nonneg [of "- a" b] by (simp add: minus_sdiv_eq flip: minus_equation_iff)
    moreover have "0 \<le> - a div b" using 2 assms(2) by (simp add: pos_imp_zdiv_nonneg_iff)
    moreover have "0 \<le> a' sdiv b" using 2 assms(2) by (simp add: sdiv_nonneg pos_imp_zdiv_nonneg_iff)
    ultimately show ?thesis by linarith
  next
    case 3
    then have "a sdiv b = - (- a div b)" "a' sdiv b = - (- a' div b)"
      using assms sdiv_nonneg [of "- a" b] sdiv_nonneg [of "- a'" b] by (simp_all add: minus_sdiv_eq)
    moreover have "- a' div b \<le> - a div b" using assms by (intro zdiv_mono1) auto
    ultimately show ?thesis by linarith
  qed
qed

lemma sdiv_divisor_between:
  assumes "0 < c" "c \<le> b" "b \<le> (d :: int)"
  shows "min (a sdiv c) (a sdiv d) \<le> a sdiv b" "a sdiv b \<le> max (a sdiv c) (a sdiv d)"
proof -
  have "min (a sdiv c) (a sdiv d) \<le> a sdiv b \<and> a sdiv b \<le> max (a sdiv c) (a sdiv d)"
  proof (cases "0 \<le> a")
    case True
    then have "a div d \<le> a div b" "a div b \<le> a div c" using assms by (intro zdiv_mono2; simp)+
    then show ?thesis using True assms by (simp add: sdiv_nonneg min_def max_def)
  next
    case False
    then have neg: "a sdiv x = - (- a div x)" if "0 < x" for x using that sdiv_nonneg [of "- a" x] by simp
    have "- a div d \<le> - a div b" "- a div b \<le> - a div c" using False assms by (intro zdiv_mono2; simp)+
    then show ?thesis using assms neg by (simp add: min_def max_def)
  qed
  then show "min (a sdiv c) (a sdiv d) \<le> a sdiv b" "a sdiv b \<le> max (a sdiv c) (a sdiv d)" by blast+
qed

lemma sdiv_corners_positive:
  assumes "l \<le> a" "a \<le> h" "0 < c" "c \<le> b" "b \<le> (d :: int)"
  shows "min (min (l sdiv c) (l sdiv d)) (min (h sdiv c) (h sdiv d)) \<le> a sdiv b"
    "a sdiv b \<le> max (max (l sdiv c) (l sdiv d)) (max (h sdiv c) (h sdiv d))"
proof -
  have "l sdiv c \<le> a sdiv c" "l sdiv d \<le> a sdiv d" "a sdiv c \<le> h sdiv c" "a sdiv d \<le> h sdiv d"
    using assms by (intro sdiv_mono_dividend; simp)+
  with sdiv_divisor_between [OF assms(3-5), of a]
  show "min (min (l sdiv c) (l sdiv d)) (min (h sdiv c) (h sdiv d)) \<le> a sdiv b"
    "a sdiv b \<le> max (max (l sdiv c) (l sdiv d)) (max (h sdiv c) (h sdiv d))" by linarith+
qed

lemma sdiv_corners:
  assumes "l \<le> a" "a \<le> h" "c \<le> b" "b \<le> (d :: int)" "\<not> (c \<le> 0 \<and> 0 \<le> d)"
  shows "min (min (l sdiv c) (l sdiv d)) (min (h sdiv c) (h sdiv d)) \<le> a sdiv b \<and>
    a sdiv b \<le> max (max (l sdiv c) (l sdiv d)) (max (h sdiv c) (h sdiv d))"
proof (cases "0 < c")
  case True
  then show ?thesis using sdiv_corners_positive [OF assms(1,2) _ assms(3,4)] by blast
next
  case False
  with assms have d: "0 < - d" "- d \<le> - b" "- b \<le> - c" by auto
  note p = sdiv_corners_positive [OF assms(1,2) d]
  have m: "x sdiv (- y) = - (x sdiv y)" for x y :: int by simp
  show ?thesis using p unfolding m by linarith
qed

section \<open>Soundness of the intervals\<close>

definition cache_holds :: "store \<Rightarrow> (hir_local \<times> interval) option \<Rightarrow> bool" where
  "cache_holds st c \<longleftrightarrow> (case c of None \<Rightarrow> True | Some (l, r) \<Rightarrow> \<exists>z. st l = IntValue z \<and> in_range r z)"

lemma value_of_type_interval:
  "value_of_type env ty v \<Longrightarrow> canonical_interval env ty = Some r \<Longrightarrow> \<exists>z. v = IntValue z \<and> in_range r z"
  by (auto simp: value_of_type_def split: rvalue.splits)

lemma place_interval_sound:
  assumes "cache_holds st c" "place_interval env c ty p = Some r"
    and "place_projections p = [] \<Longrightarrow> v = st (place_root p)" "value_of_type env ty v"
  shows "\<exists>z. v = IntValue z \<and> in_range r z"
proof (cases "canonical_interval env ty = Some r")
  case True
  then show ?thesis using value_of_type_interval [OF assms(4)] by blast
next
  case False
  then have "place_projections p = []" "c = Some (place_root p, r)"
    using assms(2) by (auto simp: place_interval_def split: if_splits option.splits)
  then show ?thesis using assms(1,3) by (simp add: cache_holds_def case_prod_unfold)
qed

lemma expression_interval_sound:
  assumes "cache_holds st c"
  shows "expression_interval env c e = Some r \<Longrightarrow> evaluates env st e v \<Longrightarrow> \<exists>z. v = IntValue z \<and> in_range r z"
proof (induction e arbitrary: r v)
  case (FixedScalarExpr ty w)
  then show ?case
    by (auto simp: fixed_integer_def [symmetric] in_range_def elim!: evaluates_elims split: option.splits)
next
  case (CastExpr ty source policy)
  obtain s target where p: "policy = NumericConversion s target" using CastExpr.prems(1) by (cases policy) auto
  obtain tr sr where t: "integer_range target = Some tr" and sr: "expression_interval env c source = Some sr"
    and r: "r = (max (fst sr) (fst tr), min (snd sr) (snd tr))"
    using CastExpr.prems(1) by (auto simp: p Let_def split: option.splits if_splits)
  from CastExpr.prems(2) obtain z where z: "v = IntValue z" "in_range tr z"
    "evaluates env st source (IntValue z) \<or> evaluates env st source OpaqueValue"
    unfolding p by (auto simp: t elim!: evaluates_elims)
  then have "in_range sr z" using CastExpr.IH [OF sr] by blast
  then show ?case using z by (auto simp: r in_range_def)
next
  case (LoadExpr ty p)
  then show ?case using place_interval_sound [OF assms, of env ty p r v] by (auto elim!: evaluates_elims)
next
  case (CopyExpr ty p)
  then show ?case using place_interval_sound [OF assms, of env ty p r v] by (auto elim!: evaluates_elims)
next
  case (OtherExpr ty)
  then have "value_of_type env ty v" by (blast elim: evaluates_elims)
  with OtherExpr.prems(1) show ?case by (simp add: value_of_type_interval)
qed

lemma accumulate_quotients_eq:
  "accumulate_quotients xs (lo, hi) =
     (if list_all (\<lambda>(a, b). b \<noteq> 0 \<and> in_i128 (a sdiv b)) xs
      then Some (foldl min lo (map (\<lambda>(a, b). a sdiv b) xs), foldl max hi (map (\<lambda>(a, b). a sdiv b) xs)) else None)"
proof (induction xs arbitrary: lo hi)
  case (Cons x xs)
  obtain a b where x: "x = (a, b)" by fastforce
  have "checked_div_i128 a b = (if b \<noteq> 0 \<and> in_i128 (a sdiv b) then Some (a sdiv b) else None)"
    by (simp add: checked_div_i128_def checked_i128_def)
  then show ?case using Cons.IH by (simp add: x)
qed simp

lemma accumulate_quotients_four:
  assumes "accumulate_quotients [(l, c), (l, d), (h, c), (h, d)] (i128_max, i128_min) = Some r"
  shows "r = (min (min (l sdiv c) (l sdiv d)) (min (h sdiv c) (h sdiv d)),
    max (max (l sdiv c) (l sdiv d)) (max (h sdiv c) (h sdiv d)))"
proof -
  have all: "list_all in_i128 [l sdiv c, l sdiv d, h sdiv c, h sdiv d]"
    using assms by (simp add: accumulate_quotients_eq split: if_splits)
  show ?thesis
    using assms foldl_corners [OF all] by (simp add: accumulate_quotients_eq del: foldl.simps split: if_splits)
qed

lemma divide_interval_sound:
  assumes "divide_interval domain left right = Some r" "in_range left a" "in_range right b"
  shows "b \<noteq> 0 \<and> in_range r (a sdiv b)"
proof -
  have nz: "\<not> (fst right \<le> 0 \<and> 0 \<le> snd right)" using assms(1) by (auto simp: divide_interval_def split: if_splits)
  then have b: "b \<noteq> 0" using assms(3) by (auto simp: in_range_def)
  have "accumulate_quotients [(fst left, fst right), (fst left, snd right), (snd left, fst right), (snd left, snd right)]
      (i128_max, i128_min) = Some r"
    using assms(1) nz by (auto simp: divide_interval_def split: if_splits)
  from accumulate_quotients_four [OF this] show ?thesis
    using sdiv_corners [of "fst left" a "snd left" "fst right" b "snd right"] nz assms(2,3) b by (simp add: in_range_def)
qed

lemma remainder_interval_sound:
  assumes "remainder_interval left right = Some r" "in_range left a" "in_range right b"
  shows "b \<noteq> 0 \<and> in_range r (a smod b)"
proof -
  have nz: "\<not> (fst right \<le> 0 \<and> 0 \<le> snd right)" using assms(1) by (auto simp: remainder_interval_def split: if_splits)
  then have b: "b \<noteq> 0" using assms(3) by (auto simp: in_range_def)
  define bound where "bound = max \<bar>fst right\<bar> \<bar>snd right\<bar> - 1"
  have r: "r = (if 0 \<le> fst left then (0, bound) else if snd left \<le> 0 then (- bound, 0) else (- bound, bound))"
    using assms(1) nz by (auto simp: remainder_interval_def bound_def split: option.splits if_splits)
  have "\<bar>b\<bar> \<le> max \<bar>fst right\<bar> \<bar>snd right\<bar>" using assms(3) by (auto simp: in_range_def)
  then have m: "\<bar>a smod b\<bar> \<le> bound" using sdiv_smod_facts(2) [OF b, of a] by (simp add: bound_def)
  have sg: "0 \<le> a \<Longrightarrow> 0 \<le> a smod b" "a \<le> 0 \<Longrightarrow> a smod b \<le> 0"
    using sdiv_smod_facts(3) [OF b, of a] by (cases "a smod b = 0"; auto simp: sgn_if split: if_splits)+
  show ?thesis using b m sg assms(2) by (auto simp: r in_range_def)
qed

lemma checked_result_range_sound:
  assumes "checked_result_range operator left right = Some r" "in_range left a" "in_range right b"
  shows "\<exists>z. exact_result operator a b = Some z \<and> in_range r z"
proof -
  have op: "operator \<in> {Add, Subtract, Multiply}"
    using assms(1) by (cases operator) (auto simp: checked_result_range_def)
  then have "exact_result operator a b = Some (apply_operator operator a b)" by auto
  moreover have lr: "fst left \<le> snd left" "fst right \<le> snd right" using assms(2,3) by (auto simp: in_range_def)
  have "exact_hull (apply_operator operator) left right r"
    using checked_result_range_hull [OF op lr] by (simp only: assms(1) option.case)
  then have "in_range r (apply_operator operator a b)" using assms(2,3) by (simp only: exact_hull_def)
  ultimately show ?thesis by blast
qed

text \<open>A proved operation on operands that evaluate cannot fail, and its result lies in the interval.\<close>

lemma prove_operation_cases:
  assumes "prove_operation env c op operands = Some r"
  obtains domain where "integer_range (op_domain op) = Some domain" "range_within r domain"
    "(\<exists>e lo hi. operands = Unary e \<and> op_operator op = Negate \<and> expression_interval env c e = Some (lo, hi) \<and> r = (- hi, - lo)) \<or>
     (\<exists>e e' left right. operands = Binary e e' \<and> expression_interval env c e = Some left \<and>
        expression_interval env c e' = Some right \<and>
        (op_operator op = IntegerDivide \<and> divide_interval domain left right = Some r \<or>
         op_operator op = Remainder \<and> remainder_interval left right = Some r \<or>
         checked_result_range (op_operator op) left right = Some r))"
proof -
  obtain domain where d: "integer_range (op_domain op) = Some domain"
    using assms by (cases "integer_range (op_domain op)") (simp_all add: prove_operation_def)
  have i: "is_integer (op_domain op)" using assms d by (cases "is_integer (op_domain op)") (simp_all add: prove_operation_def)
  note P = assms [unfolded prove_operation_def d option.case]
  show thesis
  proof (cases "op_operator op = Negate")
    case True
    then show thesis
      using P i that [OF d]
      by (fastforce simp: range_within_def split: if_splits hir_numeric_operands.splits option.splits prod.splits)
  next
    case False
    have b: "\<exists>left right. binary_intervals env c operands = Some (left, right)"
      using P False i by (cases "op_operator op") (auto split: option.splits)
    then obtain left right e e' where lr: "binary_intervals env c operands = Some (left, right)" "operands = Binary e e'"
      "expression_interval env c e = Some left" "expression_interval env c e' = Some right"
      by (auto simp: binary_intervals_def split: hir_numeric_operands.splits option.splits)
    have "range_within r domain \<and> (op_operator op = IntegerDivide \<and> divide_interval domain left right = Some r \<or>
         op_operator op = Remainder \<and> remainder_interval left right = Some r \<or>
         checked_result_range (op_operator op) left right = Some r)"
      using P False i lr(1) by (cases "op_operator op") (auto simp: range_within_def split: option.splits if_splits)
    then show thesis using that [OF d] lr by blast
  qed
qed

lemma prove_operation_sound:
  assumes "cache_holds st c" "prove_operation env c op operands = Some r" "operands_evaluate env st operands v w"
  shows "\<exists>a b z. v = IntValue a \<and> w = IntValue b \<and> checked_operation op a b = Some z \<and> in_range r z"
proof -
  note sound = expression_interval_sound [OF assms(1)]
  obtain domain where d: "integer_range (op_domain op) = Some domain" "range_within r domain"
    and cases: "(\<exists>e lo hi. operands = Unary e \<and> op_operator op = Negate \<and> expression_interval env c e = Some (lo, hi) \<and> r = (- hi, - lo)) \<or>
     (\<exists>e e' left right. operands = Binary e e' \<and> expression_interval env c e = Some left \<and>
        expression_interval env c e' = Some right \<and>
        (op_operator op = IntegerDivide \<and> divide_interval domain left right = Some r \<or>
         op_operator op = Remainder \<and> remainder_interval left right = Some r \<or>
         checked_result_range (op_operator op) left right = Some r))"
    by (rule prove_operation_cases [OF assms(2)])
  have "\<exists>a b z. v = IntValue a \<and> w = IntValue b \<and> exact_result (op_operator op) a b = Some z \<and> in_range r z"
    using cases
  proof
    assume "\<exists>e lo hi. operands = Unary e \<and> op_operator op = Negate \<and> expression_interval env c e = Some (lo, hi) \<and> r = (- hi, - lo)"
    then obtain e lo hi where e: "operands = Unary e" "op_operator op = Negate" "expression_interval env c e = Some (lo, hi)" "r = (- hi, - lo)"
      by blast
    with assms(3) have "evaluates env st e v" "w = IntValue 0" by (auto elim: operands_evaluate_elims)
    with sound [OF e(3)] obtain a where "v = IntValue a" "in_range (lo, hi) a" "w = IntValue 0" by blast
    then show ?thesis using e by (auto simp: in_range_def)
  next
    assume "\<exists>e e' left right. operands = Binary e e' \<and> expression_interval env c e = Some left \<and>
        expression_interval env c e' = Some right \<and>
        (op_operator op = IntegerDivide \<and> divide_interval domain left right = Some r \<or>
         op_operator op = Remainder \<and> remainder_interval left right = Some r \<or>
         checked_result_range (op_operator op) left right = Some r)"
    then obtain e e' left right where e: "operands = Binary e e'" "expression_interval env c e = Some left"
      "expression_interval env c e' = Some right"
      and how: "op_operator op = IntegerDivide \<and> divide_interval domain left right = Some r \<or>
         op_operator op = Remainder \<and> remainder_interval left right = Some r \<or>
         checked_result_range (op_operator op) left right = Some r" by blast
    from assms(3) have "evaluates env st e v" "evaluates env st e' w" unfolding e(1) by (auto elim: operands_evaluate_elims)
    then obtain a b where ab: "v = IntValue a" "w = IntValue b" "in_range left a" "in_range right b"
      using sound [OF e(2)] sound [OF e(3)] by blast
    have "\<exists>z. exact_result (op_operator op) a b = Some z \<and> in_range r z"
      using how divide_interval_sound [of domain left right r a b] remainder_interval_sound [of left right r a b]
        checked_result_range_sound [of "op_operator op" left right r a b] ab by auto
    then show ?thesis using ab by blast
  qed
  then obtain a b z where z: "v = IntValue a" "w = IntValue b" "exact_result (op_operator op) a b = Some z" "in_range r z" by blast
  then have "in_range domain z" using d(2) by (auto simp: range_within_def in_range_def)
  then show ?thesis using z d(1) by (simp add: checked_operation_def)
qed

section \<open>The walk over a module\<close>

definition next_cache :: "type_environment \<Rightarrow> hir_statement \<Rightarrow> (hir_local \<times> interval) option \<Rightarrow> (hir_local \<times> interval) option" where
  "next_cache env s c = cache (visit_statement env s \<lparr> cache = c, facts = \<lparr> safe_operations = {}, safe_narrowings = {} \<rparr> \<rparr>)"

definition cache_after :: "type_environment \<Rightarrow> hir_statement list \<Rightarrow> (hir_local \<times> interval) option" where
  "cache_after env ss = fold (next_cache env) ss None"

definition proves_here :: "type_environment \<Rightarrow> (hir_local \<times> interval) option \<Rightarrow> hir_statement \<Rightarrow> bool" where
  "proves_here env c s =
     (case statement_kind s of NumericOp op operands result \<Rightarrow> prove_operation env c op operands \<noteq> None | _ \<Rightarrow> False)"

lemma visit_statement_eq:
  "cache (visit_statement env s an) = next_cache env s (cache an)"
  "safe_operations (facts (visit_statement env s an)) =
     safe_operations (facts an) \<union> (if proves_here env (cache an) s then {statement_id s} else {})"
  "safe_narrowings (facts (visit_statement env s an)) = safe_narrowings (facts an)"
  by (auto simp: visit_statement_def next_cache_def proves_here_def Let_def split: hir_statement_kind.split option.split)

lemma next_cache_sound:
  assumes "cache_holds st c" "completes env (statement_kind s) st st'"
  shows "cache_holds st' (next_cache env s c)"
proof (cases "statement_kind s")
  case (Write target e)
  show ?thesis
  proof (cases "write_local target")
    case None
    then show ?thesis by (simp add: next_cache_def visit_statement_def Write cache_holds_def Let_def)
  next
    case (Some l)
    then obtain v where v: "evaluates env st e v" "st' l = v" using assms(2) unfolding Write by (auto elim: completes_elims)
    show ?thesis
    proof (cases "expression_interval env c e")
      case None
      then show ?thesis using Some by (simp add: next_cache_def visit_statement_def Write cache_holds_def Let_def)
    next
      case i: (Some r)
      have "\<exists>z. st' l = IntValue z \<and> in_range r z" using expression_interval_sound [OF assms(1) i v(1)] v(2) by blast
      then show ?thesis using Some i by (simp add: next_cache_def visit_statement_def Write cache_holds_def Let_def case_prod_unfold)
    qed
  qed
next
  case (NumericOp op operands result)
  show ?thesis
  proof (cases "prove_operation env c op operands")
    case None
    then show ?thesis by (simp add: next_cache_def visit_statement_def NumericOp cache_holds_def)
  next
    case (Some r)
    then have "integer_range (op_domain op) \<noteq> None" by (cases "integer_range (op_domain op)") (simp_all add: prove_operation_def)
    with assms(2) obtain a b z where z: "operands_evaluate env st operands (IntValue a) (IntValue b)"
      "checked_operation op a b = Some z" "st' (destination_local result) = IntValue z"
      unfolding NumericOp by (auto elim: completes_elims)
    have "in_range r z" using prove_operation_sound [OF assms(1) Some z(1)] z(2) by auto
    then show ?thesis using Some z(3) by (simp add: next_cache_def visit_statement_def NumericOp cache_holds_def case_prod_unfold)
  qed
qed (simp_all add: next_cache_def visit_statement_def cache_holds_def)

lemma fold_cache_sound:
  assumes "cache_holds st c" "runs env ss st st'"
  shows "cache_holds st' (fold (next_cache env) ss c)"
  using assms
proof (induction ss arbitrary: st c)
  case (Cons s ss)
  from Cons.prems(2) obtain st1 where st1: "completes env (statement_kind s) st st1" "runs env ss st1 st'" by (auto elim: runs_elims)
  show ?case using Cons.IH [OF next_cache_sound [OF Cons.prems(1) st1(1)] st1(2)] by simp
qed (auto elim: runs_elims)

definition statement_facts :: "type_environment \<Rightarrow> hir_statement list \<Rightarrow> (hir_local \<times> interval) option \<Rightarrow> node_id set" where
  "statement_facts env ss c =
     {statement_id s | pre s post. ss = pre @ s # post \<and> proves_here env (fold (next_cache env) pre c) s}"

lemma statement_facts_snoc:
  "statement_facts env (ss @ [s]) c =
     statement_facts env ss c \<union> (if proves_here env (fold (next_cache env) ss c) s then {statement_id s} else {})"
proof -
  have split: "ss @ [s] = pre @ x # post \<longleftrightarrow> (post = [] \<and> pre = ss \<and> x = s) \<or> (\<exists>post'. post = post' @ [s] \<and> ss = pre @ x # post')" for pre x post
    by (cases post rule: rev_cases) auto
  show ?thesis unfolding statement_facts_def split by auto
qed

lemma fold_statements:
  "cache (fold (visit_statement env) ss an) = fold (next_cache env) ss (cache an) \<and>
   safe_operations (facts (fold (visit_statement env) ss an)) = safe_operations (facts an) \<union> statement_facts env ss (cache an) \<and>
   safe_narrowings (facts (fold (visit_statement env) ss an)) = safe_narrowings (facts an)"
proof (induction ss rule: rev_induct)
  case Nil
  then show ?case by (simp add: statement_facts_def)
next
  case (snoc s ss)
  then show ?case by (simp add: visit_statement_eq statement_facts_snoc Un_assoc)
qed

definition block_operations :: "type_environment \<Rightarrow> hir_block \<Rightarrow> node_id set" where
  "block_operations env b = statement_facts env (block_statements b) None \<union>
     {i. \<exists>op operands. block_terminator b = Invoke i (InvokeNumericOp op operands) \<and>
        prove_operation env (cache_after env (block_statements b)) op operands \<noteq> None}"

definition block_narrowings :: "type_environment \<Rightarrow> hir_block \<Rightarrow> node_id set" where
  "block_narrowings env b =
     {i. \<exists>policy source r. block_terminator b = Invoke i (InvokeCastOp policy source) \<and>
        expression_interval env (cache_after env (block_statements b)) source = Some r \<and>
        cast_narrowing_is_provable policy r}"

lemma visit_block_facts:
  "safe_operations (facts (visit_block env b an)) = safe_operations (facts an) \<union> block_operations env b \<and>
   safe_narrowings (facts (visit_block env b an)) = safe_narrowings (facts an) \<union> block_narrowings env b"
proof -
  define an' where "an' = fold (visit_statement env) (block_statements b) (an\<lparr> cache := None \<rparr>)"
  have an': "cache an' = cache_after env (block_statements b)"
    "safe_operations (facts an') = safe_operations (facts an) \<union> statement_facts env (block_statements b) None"
    "safe_narrowings (facts an') = safe_narrowings (facts an)"
    using fold_statements [of env "block_statements b" "an\<lparr> cache := None \<rparr>"] by (simp_all add: an'_def cache_after_def)
  have "visit_block env b an = visit_terminator env (block_terminator b) an'" by (simp add: visit_block_def an'_def)
  then show ?thesis
    by (auto simp: visit_terminator_def an' block_operations_def block_narrowings_def Let_def
        split: hir_terminator.split hir_fallible_operation.split option.split)
qed

lemma analyse_facts:
  "safe_operations (analyse_numeric_proofs env blocks) = (\<Union>b\<in>set blocks. block_operations env b)"
  "safe_narrowings (analyse_numeric_proofs env blocks) = (\<Union>b\<in>set blocks. block_narrowings env b)"
proof -
  have "safe_operations (facts (fold (visit_block env) blocks an)) = safe_operations (facts an) \<union> (\<Union>b\<in>set blocks. block_operations env b) \<and>
    safe_narrowings (facts (fold (visit_block env) blocks an)) = safe_narrowings (facts an) \<union> (\<Union>b\<in>set blocks. block_narrowings env b)" for an
    by (induction blocks arbitrary: an) (simp_all add: visit_block_facts Un_assoc)
  then show "safe_operations (analyse_numeric_proofs env blocks) = (\<Union>b\<in>set blocks. block_operations env b)"
    "safe_narrowings (analyse_numeric_proofs env blocks) = (\<Union>b\<in>set blocks. block_narrowings env b)"
    by (simp_all add: analyse_numeric_proofs_def)
qed

section \<open>Node identities\<close>

definition block_node_ids :: "hir_block \<Rightarrow> node_id list" where
  "block_node_ids b = map statement_id (block_statements b) @
     (case block_terminator b of Invoke i _ \<Rightarrow> [i] | OtherTerminator \<Rightarrow> [])"

definition module_node_ids :: "hir_block list \<Rightarrow> node_id list" where
  "module_node_ids blocks = concat (map block_node_ids blocks)"

lemma same_block:
  assumes "distinct (module_node_ids blocks)" "b \<in> set blocks" "b' \<in> set blocks"
    and "i \<in> set (block_node_ids b)" "i \<in> set (block_node_ids b')"
  shows "b = b'"
  using assms
proof (induction blocks)
  case (Cons x blocks)
  then show ?case by (auto simp: module_node_ids_def)
qed simp

lemma block_ids_distinct: "distinct (module_node_ids blocks) \<Longrightarrow> b \<in> set blocks \<Longrightarrow> distinct (block_node_ids b)"
  by (induction blocks) (auto simp: module_node_ids_def)

lemma same_position:
  assumes "distinct (map f (pre @ s # post))" "pre @ s # post = pre' @ s' # post'" "f s = f s'"
  shows "pre = pre'"
proof -
  have m: "map f (pre @ s # post) ! length pre = f s" "map f (pre' @ s' # post') ! length pre' = f s'"
    by (simp_all add: nth_append)
  have "length pre' < length (pre' @ s' # post')" by simp
  then have l: "length pre < length (pre @ s # post)" "length pre' < length (pre @ s # post)" by (simp, simp only: assms(2))
  have "map f (pre @ s # post) ! length pre = map f (pre @ s # post) ! length pre'"
    using m assms(2,3) by (simp only:)
  then have "length pre = length pre'" using assms(1) l by (simp only: nth_eq_iff_index_eq length_map)
  then show ?thesis using assms(2) by simp
qed

lemma fact_ids: "block_operations env b \<subseteq> set (block_node_ids b)" "block_narrowings env b \<subseteq> set (block_node_ids b)"
  by (auto simp: block_operations_def block_narrowings_def statement_facts_def block_node_ids_def)

lemma safe_statement_proved:
  assumes "distinct (module_node_ids blocks)" "b \<in> set blocks" "block_statements b = pre @ s # post"
    and "statement_id s \<in> safe_operations (analyse_numeric_proofs env blocks)"
  shows "proves_here env (cache_after env pre) s"
proof -
  have mem: "statement_id s \<in> set (block_node_ids b)" by (simp add: block_node_ids_def assms(3))
  obtain b' where "b' \<in> set blocks" "statement_id s \<in> block_operations env b'" using assms(4) by (auto simp: analyse_facts)
  then have op: "statement_id s \<in> block_operations env b"
    using same_block [OF assms(1,2)] mem fact_ids(1) by blast
  have d: "distinct (block_node_ids b)" using block_ids_distinct assms(1,2) by blast
  then have "\<forall>o'. block_terminator b \<noteq> Invoke (statement_id s) o'" by (auto simp: block_node_ids_def assms(3))
  then have "statement_id s \<in> statement_facts env (block_statements b) None" using op by (auto simp: block_operations_def)
  then obtain pre' s' post' where p: "block_statements b = pre' @ s' # post'" "statement_id s = statement_id s'"
    "proves_here env (cache_after env pre') s'" by (auto simp: statement_facts_def cache_after_def)
  have ds: "distinct (map statement_id (pre @ s # post))"
    using d unfolding block_node_ids_def assms(3) by (simp only: distinct_append)
  have pp: "pre = pre'" using same_position [OF ds _ p(2)] p(1) assms(3) by simp
  then have "s = s'" using p(1) assms(3) by simp
  with p(3) pp show ?thesis by simp
qed

lemma safe_terminator_proved:
  assumes "distinct (module_node_ids blocks)" "b \<in> set blocks" "block_terminator b = Invoke i operation"
  shows "i \<in> safe_operations (analyse_numeric_proofs env blocks) \<Longrightarrow>
      \<exists>op operands. operation = InvokeNumericOp op operands \<and> prove_operation env (cache_after env (block_statements b)) op operands \<noteq> None"
    and "i \<in> safe_narrowings (analyse_numeric_proofs env blocks) \<Longrightarrow>
      \<exists>policy source r. operation = InvokeCastOp policy source \<and> cast_narrowing_is_provable policy r \<and>
        expression_interval env (cache_after env (block_statements b)) source = Some r"
proof -
  have mem: "i \<in> set (block_node_ids b)" by (simp add: block_node_ids_def assms(3))
  have d: "distinct (block_node_ids b)" using block_ids_distinct assms(1,2) by blast
  have own: "i \<notin> statement_facts env (block_statements b) None"
    using d by (auto simp: statement_facts_def block_node_ids_def assms(3))
  assume "i \<in> safe_operations (analyse_numeric_proofs env blocks)"
  then obtain b' where "b' \<in> set blocks" "i \<in> block_operations env b'" by (auto simp: analyse_facts)
  then have "i \<in> block_operations env b" using same_block [OF assms(1,2)] mem fact_ids(1) by blast
  then show "\<exists>op operands. operation = InvokeNumericOp op operands \<and> prove_operation env (cache_after env (block_statements b)) op operands \<noteq> None"
    using own by (auto simp: block_operations_def assms(3))
next
  have mem: "i \<in> set (block_node_ids b)" by (simp add: block_node_ids_def assms(3))
  assume "i \<in> safe_narrowings (analyse_numeric_proofs env blocks)"
  then obtain b' where "b' \<in> set blocks" "i \<in> block_narrowings env b'" by (auto simp: analyse_facts)
  then have "i \<in> block_narrowings env b" using same_block [OF assms(1,2)] mem fact_ids(2) by blast
  then show "\<exists>policy source r. operation = InvokeCastOp policy source \<and> cast_narrowing_is_provable policy r \<and>
        expression_interval env (cache_after env (block_statements b)) source = Some r"
    by (auto simp: block_narrowings_def assms(3))
qed

section \<open>Bounds of the intervals\<close>

text \<open>Every interval the analysis derives lies within the 64-bit ranges, so that the \<open>i128\<close> absolute
  values of the remainder rule cannot overflow.\<close>

definition bounded_interval :: "interval \<Rightarrow> bool" where
  "bounded_interval r \<longleftrightarrow> i64_min \<le> fst r \<and> snd r \<le> int u64_max \<and> fst r \<le> snd r"

definition cache_bounded :: "(hir_local \<times> interval) option \<Rightarrow> bool" where
  "cache_bounded c \<longleftrightarrow> (case c of None \<Rightarrow> True | Some (l, r) \<Rightarrow> bounded_interval r)"

lemma integer_range_bounded: "integer_range s = Some r \<Longrightarrow> bounded_interval r"
proof (cases s)
  case (Fixed f)
  then show "integer_range s = Some r \<Longrightarrow> ?thesis"
    by (cases f) (auto simp: integer_range_Fixed bounded_interval_def simp del: integer_range.simps)
qed simp

lemma canonical_bounded: "canonical_interval env ty = Some r \<Longrightarrow> bounded_interval r"
  by (auto simp: canonical_interval_def intro: integer_range_bounded split: option.splits if_splits)

lemma literal_bounded: "fixed_integer v = Some z \<Longrightarrow> bounded_interval (z, z)"
proof -
  assume "fixed_integer v = Some z"
  then have z: "z = sint (value_bits v) \<or> z = int (unat (value_bits v))"
    by (auto simp: fixed_integer_def as_i64_def as_u64_def split: if_splits fixed_scalar_class.splits)
  define n where "n = unat (value_bits v)"
  have s: "- (2 ^ 63) \<le> sint (value_bits v)" "sint (value_bits v) < 2 ^ 63"
    using sint_greater_eq [of "value_bits v"] sint_less [of "value_bits v"] by simp_all
  have "n < 2 ^ 64" using unsigned_less [of "value_bits v"] by (simp add: n_def)
  moreover have "z = sint (value_bits v) \<or> z = int n" using z by (simp only: n_def)
  ultimately show ?thesis using s by (auto simp: bounded_interval_def)
qed

lemma expression_interval_bounded:
  assumes "cache_bounded c"
  shows "expression_interval env c e = Some r \<Longrightarrow> bounded_interval r"
proof (induction e arbitrary: r)
  case (FixedScalarExpr ty v)
  then show ?case using literal_bounded by (auto simp: fixed_integer_def [symmetric] split: option.splits)
next
  case (CastExpr ty source policy)
  then obtain tr sr where "bounded_interval tr" "bounded_interval sr" "fst r \<le> snd r"
    "r = (max (fst sr) (fst tr), min (snd sr) (snd tr))"
    by (auto simp: Let_def split: cast_policy.splits option.splits if_splits dest: integer_range_bounded)
  then show ?case by (auto simp: bounded_interval_def)
next
  case (LoadExpr ty p)
  then show ?case using assms
    by (auto simp: place_interval_def cache_bounded_def split: if_splits option.splits dest: canonical_bounded)
next
  case (CopyExpr ty p)
  then show ?case using assms
    by (auto simp: place_interval_def cache_bounded_def split: if_splits option.splits dest: canonical_bounded)
next
  case (OtherExpr ty)
  then show ?case by (auto dest: canonical_bounded)
qed

lemma prove_operation_bounded:
  assumes "cache_bounded c" "prove_operation env c op operands = Some r"
  shows "bounded_interval r"
proof -
  obtain domain where d: "integer_range (op_domain op) = Some domain" "range_within r domain"
    and cases: "(\<exists>e lo hi. operands = Unary e \<and> op_operator op = Negate \<and> expression_interval env c e = Some (lo, hi) \<and> r = (- hi, - lo)) \<or>
     (\<exists>e e' left right. operands = Binary e e' \<and> expression_interval env c e = Some left \<and>
        expression_interval env c e' = Some right \<and>
        (op_operator op = IntegerDivide \<and> divide_interval domain left right = Some r \<or>
         op_operator op = Remainder \<and> remainder_interval left right = Some r \<or>
         checked_result_range (op_operator op) left right = Some r))"
    by (rule prove_operation_cases [OF assms(2)])
  have "fst r \<le> snd r"
    using cases
  proof
    assume "\<exists>e lo hi. operands = Unary e \<and> op_operator op = Negate \<and> expression_interval env c e = Some (lo, hi) \<and> r = (- hi, - lo)"
    then show ?thesis using expression_interval_bounded [OF assms(1)] by (auto simp: bounded_interval_def)
  next
    assume "\<exists>e e' left right. operands = Binary e e' \<and> expression_interval env c e = Some left \<and>
        expression_interval env c e' = Some right \<and>
        (op_operator op = IntegerDivide \<and> divide_interval domain left right = Some r \<or>
         op_operator op = Remainder \<and> remainder_interval left right = Some r \<or>
         checked_result_range (op_operator op) left right = Some r)"
    then obtain e e' left right where e: "expression_interval env c e = Some left" "expression_interval env c e' = Some right"
      and how: "divide_interval domain left right = Some r \<or> remainder_interval left right = Some r \<or>
         checked_result_range (op_operator op) left right = Some r" by blast
    have "in_range left (fst left)" "in_range right (fst right)"
      using expression_interval_bounded [OF assms(1)] e by (auto simp: bounded_interval_def in_range_def)
    then have "\<exists>z. in_range r z"
      using how divide_interval_sound [of domain left right r "fst left" "fst right"]
        remainder_interval_sound [of left right r "fst left" "fst right"]
        checked_result_range_sound [of "op_operator op" left right r "fst left" "fst right"] by blast
    then show ?thesis by (auto simp: in_range_def)
  qed
  moreover have "bounded_interval domain" using d(1) by (rule integer_range_bounded)
  ultimately show ?thesis using d(2) by (auto simp: bounded_interval_def range_within_def)
qed

lemma next_cache_bounded:
  assumes "cache_bounded c"
  shows "cache_bounded (next_cache env s c)"
proof (cases "statement_kind s")
  case (Write target e)
  then show ?thesis using expression_interval_bounded [OF assms, of env e]
    by (cases "write_local target"; cases "expression_interval env c e")
       (simp_all add: next_cache_def visit_statement_def cache_bounded_def)
next
  case (NumericOp op operands result)
  then show ?thesis using prove_operation_bounded [OF assms, of env op operands]
    by (cases "prove_operation env c op operands") (simp_all add: next_cache_def visit_statement_def cache_bounded_def)
qed (simp_all add: next_cache_def visit_statement_def cache_bounded_def)

lemma cache_after_bounded: "cache_bounded (cache_after env ss)"
proof -
  have "cache_bounded (fold (next_cache env) ss c)" if "cache_bounded c" for c
    using that by (induction ss arbitrary: c) (simp_all add: next_cache_bounded)
  then show ?thesis by (simp add: cache_after_def cache_bounded_def)
qed

section \<open>Properties\<close>

text \<open>C2. A checked operation the table marks safe cannot fail: in every execution that reaches it,
  whatever aliases, calls and projected writes do to other locals, its operands are integers and the
  checked operation returns a value of its domain. Statement and Invoke operations alike.\<close>

theorem proved_operations_cannot_fail:
  assumes "distinct (module_node_ids blocks)" and "b \<in> set blocks"
    and "integer_operation_is_safe (analyse_numeric_proofs env blocks) i"
    and "(\<exists>s post result. block_statements b = pre @ s # post \<and> statement_id s = i \<and> statement_kind s = NumericOp op operands result)
      \<or> (pre = block_statements b \<and> block_terminator b = Invoke i (InvokeNumericOp op operands))"
    and "runs env pre st st'" and "operands_evaluate env st' operands v w"
  shows "\<exists>x y z. v = IntValue x \<and> w = IntValue y \<and> checked_operation op x y = Some z"
proof -
  have "cache_holds st None" by (simp add: cache_holds_def)
  then have c: "cache_holds st' (cache_after env pre)"
    unfolding cache_after_def using assms(5) by (rule fold_cache_sound)
  have "prove_operation env (cache_after env pre) op operands \<noteq> None"
    using assms(4)
  proof
    assume "\<exists>s post result. block_statements b = pre @ s # post \<and> statement_id s = i \<and> statement_kind s = NumericOp op operands result"
    then obtain s post result where s: "block_statements b = pre @ s # post" "statement_id s = i"
      "statement_kind s = NumericOp op operands result" by blast
    have "proves_here env (cache_after env pre) s"
      using safe_statement_proved [OF assms(1,2) s(1)] assms(3) s(2) by (simp add: integer_operation_is_safe_def)
    then show ?thesis by (simp add: proves_here_def s(3))
  next
    assume "pre = block_statements b \<and> block_terminator b = Invoke i (InvokeNumericOp op operands)"
    then show ?thesis
      using safe_terminator_proved(1) [OF assms(1,2)] assms(3) by (fastforce simp: integer_operation_is_safe_def)
  qed
  then obtain r where "prove_operation env (cache_after env pre) op operands = Some r" by blast
  from prove_operation_sound [OF c this assms(6)] show ?thesis by blast
qed

text \<open>A module that adds two \<open>U8\<close> literals into a local and narrows it to \<open>I8\<close>.\<close>

definition example_environment :: type_environment where
  "example_environment = \<lparr> env_number_scale = (\<lambda>_. None), env_fixed_scalar = (\<lambda>_. Some U8) \<rparr>"

definition example_add :: hir_statement where
  "example_add = \<lparr> statement_id = 7,
     statement_kind = NumericOp \<lparr> op_operator = Add, op_domain = Fixed U8 \<rparr>
       (Binary (FixedScalarExpr 0 \<lparr> value_scalar = U8, value_bits = 100 \<rparr>)
          (FixedScalarExpr 0 \<lparr> value_scalar = U8, value_bits = 20 \<rparr>)) (Define 1) \<rparr>"

definition example_block :: hir_block where
  "example_block = \<lparr> block_statements = [example_add],
     block_terminator = Invoke 8 (InvokeCastOp (NumericConversion (Fixed U8) (Fixed I8))
       (LoadExpr 0 \<lparr> place_root = 1, place_projections = [] \<rparr>)) \<rparr>"

lemma example_facts:
  "safe_operations (analyse_numeric_proofs example_environment [example_block]) = {7}"
  "safe_narrowings (analyse_numeric_proofs example_environment [example_block]) = {8}"
  "distinct (module_node_ids [example_block])"
  "operands_evaluate example_environment st (Binary (FixedScalarExpr 0 \<lparr> value_scalar = U8, value_bits = 100 \<rparr>)
     (FixedScalarExpr 0 \<lparr> value_scalar = U8, value_bits = 20 \<rparr>)) (IntValue 100) (IntValue 20)"
proof -
  have v: "fixed_integer \<lparr> value_scalar = U8, value_bits = 100 \<rparr> = Some 100" "fixed_integer \<lparr> value_scalar = U8, value_bits = 20 \<rparr> = Some 20"
    by (simp_all add: fixed_integer_def as_i64_def as_u64_def)
  show "operands_evaluate example_environment st (Binary (FixedScalarExpr 0 \<lparr> value_scalar = U8, value_bits = 100 \<rparr>)
     (FixedScalarExpr 0 \<lparr> value_scalar = U8, value_bits = 20 \<rparr>)) (IntValue 100) (IntValue 20)"
    by (intro operands_evaluate.binary evaluates.literal v)
  have e: "expression_interval env c (FixedScalarExpr 0 \<lparr> value_scalar = U8, value_bits = 100 \<rparr>) = Some (100, 100)"
    "expression_interval env c (FixedScalarExpr 0 \<lparr> value_scalar = U8, value_bits = 20 \<rparr>) = Some (20, 20)" for env c
    using v by (simp_all add: fixed_integer_def [symmetric])
  have p: "prove_operation env c \<lparr> op_operator = Add, op_domain = Fixed U8 \<rparr>
      (Binary (FixedScalarExpr 0 \<lparr> value_scalar = U8, value_bits = 100 \<rparr>) (FixedScalarExpr 0 \<lparr> value_scalar = U8, value_bits = 20 \<rparr>))
      = Some (120, 120)" for env c
    by (simp add: prove_operation_def binary_intervals_def e checked_result_range_def checked_i128_def in_i128_def
        integer_range_Fixed del: integer_range.simps expression_interval.simps)
  have c: "cache_after example_environment (block_statements example_block) = Some (1, (120, 120))"
    by (simp add: cache_after_def next_cache_def visit_statement_def example_block_def example_add_def p)
  show "safe_operations (analyse_numeric_proofs example_environment [example_block]) = {7}"
    unfolding analyse_facts by (auto simp: block_operations_def statement_facts_def proves_here_def example_block_def example_add_def p Cons_eq_append_conv)
  show "safe_narrowings (analyse_numeric_proofs example_environment [example_block]) = {8}"
    unfolding analyse_facts using c
    by (auto simp: block_narrowings_def example_block_def place_interval_def cast_narrowing_is_provable_def integer_range_Fixed
        simp del: integer_range.simps)
  show "distinct (module_node_ids [example_block])"
    by (simp add: module_node_ids_def block_node_ids_def example_block_def example_add_def)
qed

theorem proved_operations_cannot_fail_witness:
  "\<exists>x y z. IntValue 100 = IntValue x \<and> IntValue 20 = IntValue y \<and>
     checked_operation \<lparr> op_operator = Add, op_domain = Fixed U8 \<rparr> x y = Some z"
proof (rule proved_operations_cannot_fail [OF example_facts(3) _ _ _ runs.start example_facts(4)])
  show "example_block \<in> set [example_block]" by simp
  show "integer_operation_is_safe (analyse_numeric_proofs example_environment [example_block]) 7"
    by (simp add: integer_operation_is_safe_def example_facts(1))
qed (simp add: example_block_def example_add_def)

text \<open>C38. A narrowing the table marks safe cannot fail: in every execution of the block, the source of
  the conversion is an integer inside the complete range of the target.\<close>

theorem proved_narrowings_cannot_fail:
  assumes "distinct (module_node_ids blocks)" and "b \<in> set blocks"
    and "block_terminator b = Invoke i (InvokeCastOp policy source)"
    and "integer_narrowing_is_safe (analyse_numeric_proofs env blocks) i"
    and "runs env (block_statements b) st st'" and "evaluates env st' source v"
  shows "\<exists>s target domain z. policy = NumericConversion s target \<and> integer_range target = Some domain \<and>
    v = IntValue z \<and> in_range domain z"
proof -
  have "cache_holds st None" by (simp add: cache_holds_def)
  then have c: "cache_holds st' (cache_after env (block_statements b))"
    unfolding cache_after_def using assms(5) by (rule fold_cache_sound)
  obtain r where r: "cast_narrowing_is_provable policy r"
    "expression_interval env (cache_after env (block_statements b)) source = Some r"
    using safe_terminator_proved(2) [OF assms(1-3), of env] assms(4) unfolding integer_narrowing_is_safe_def by blast
  obtain z where z: "v = IntValue z" "in_range r z" using expression_interval_sound [OF c r(2) assms(6)] by blast
  from r(1) obtain s target domain where "policy = NumericConversion s target" "integer_range target = Some domain"
    "fst domain \<le> fst r" "snd r \<le> snd domain"
    by (auto simp: cast_narrowing_is_provable_def split: cast_policy.splits if_splits option.splits)
  moreover from this have "in_range domain z" using z(2) by (simp add: in_range_def)
  ultimately show ?thesis using z(1) by blast
qed

theorem proved_narrowings_cannot_fail_witness:
  "\<exists>s target domain z. NumericConversion (Fixed U8) (Fixed I8) = NumericConversion s target \<and>
     integer_range target = Some domain \<and> IntValue 120 = IntValue z \<and> in_range domain z"
proof (rule proved_narrowings_cannot_fail [OF example_facts(3)])
  show "example_block \<in> set [example_block]" by simp
  show "integer_narrowing_is_safe (analyse_numeric_proofs example_environment [example_block]) 8"
    by (simp add: integer_narrowing_is_safe_def example_facts(2))
  show "block_terminator example_block = Invoke 8 (InvokeCastOp (NumericConversion (Fixed U8) (Fixed I8))
       (LoadExpr 0 \<lparr> place_root = 1, place_projections = [] \<rparr>))" by (simp add: example_block_def)
  let ?st = "\<lambda>_. IntValue 120"
  have "checked_operation \<lparr> op_operator = Add, op_domain = Fixed U8 \<rparr> 100 20 = Some 120"
    by (simp add: checked_operation_def integer_range_Fixed in_range_def del: integer_range.simps)
  then have "completes example_environment (statement_kind example_add) ?st ?st"
    unfolding example_add_def using example_facts(4) by (auto intro: completes.operation)
  then show "runs example_environment (block_statements example_block) ?st ?st"
    by (auto simp: example_block_def intro: runs.intros)
  show "evaluates example_environment ?st (LoadExpr 0 \<lparr> place_root = 1, place_projections = [] \<rparr>) (IntValue 120)"
    using evaluates.load [of "\<lparr> place_root = 1, place_projections = [] \<rparr>" example_environment 0 ?st]
    by (simp add: value_of_type_def canonical_interval_def from_type_id_def example_environment_def integer_range_Fixed in_range_def
        del: integer_range.simps)
qed

text \<open>Every interval of the analysis is non-empty and within the 64-bit ranges, at every point of
  every block, so that no endpoint computation of the remainder rule can overflow \<open>i128\<close>.\<close>

theorem analysis_intervals_bounded:
  "(case cache_after env ss of None \<Rightarrow> True | Some (l, r) \<Rightarrow> bounded_interval r) \<and>
   (case expression_interval env (cache_after env ss) e of None \<Rightarrow> True
    | Some r \<Rightarrow> bounded_interval r \<and> in_i128 \<bar>fst r\<bar> \<and> in_i128 \<bar>snd r\<bar>)"
proof -
  have "in_i128 \<bar>fst r\<bar> \<and> in_i128 \<bar>snd r\<bar>" if "bounded_interval r" for r
    using that by (auto simp: bounded_interval_def in_i128_def)
  then show ?thesis
    using cache_after_bounded [of env ss] expression_interval_bounded [OF cache_after_bounded [of env ss], of env e]
    by (auto simp: cache_bounded_def split: option.splits)
qed

end
