(* ===== verification/String_Interning.thy ===== *)
theory String_Interning
  imports Append_Store
begin

text \<open>
  String interning (\<open>symbols/string_interning.rs\<close>): the table that hands out a compact \<open>StringId\<close>
  per distinct string, module-local forks over a shared prefix, the remaps that rewrite a worker's
  identifiers after its strings were merged, and the frozen lookup tables.

  A \<open>&mut StringTable\<close> is a record returned updated. \<open>None\<close> is a panic (\<open>compiler_bug!\<close>, \<open>assert!\<close>,
  an index out of range); \<open>debug_assert!\<close> panics under the argument \<open>dbg\<close>, the profile's
  \<open>debug_assertions\<close> switch. \<open>Arc\<close> sharing, capacities and instrumentation counters have no effect
  on the values and are left out.
\<close>

section \<open>Data\<close>

type_synonym string_id = u32

record string_id_remap =
  identity_prefix_len :: nat
  mapped_suffix :: "string_id list"
  remap_is_identity :: bool

record string_table_base =
  base_strings :: "string list"
  base_string_to_id :: "string \<rightharpoonup> string_id"

record string_table =
  table_base :: "string_table_base option"
  table_strings :: "string list"
  string_to_id :: "string \<rightharpoonup> string_id"
  next_id :: u32

record string_table_fork =
  fork_table :: string_table
  fork_base_len :: nat

type_synonym frozen_string_table = "string list"

section \<open>Lookup\<close>

definition base_len :: "string_table \<Rightarrow> nat" where
  "base_len t = (case table_base t of None \<Rightarrow> 0 | Some b \<Rightarrow> length (base_strings b))"

definition table_len :: "string_table \<Rightarrow> nat" where
  "table_len t = base_len t + length (table_strings t)"

definition base_try_resolve :: "string_table_base \<Rightarrow> string_id \<Rightarrow> string option" where
  "base_try_resolve b sid = slice_get (base_strings b) (unat sid)"

definition try_resolve :: "string_id \<Rightarrow> string_table \<Rightarrow> string option" where
  "try_resolve sid t =
     (let index = unat sid; base_len = base_len t in
      if index < base_len then
        (case table_base t of None \<Rightarrow> None | Some b \<Rightarrow> base_try_resolve b sid)
      else slice_get (table_strings t) (index - base_len))"

text \<open>\<open>resolve\<close> panics exactly where \<open>try_resolve\<close> has no answer.\<close>

definition resolve :: "string_id \<Rightarrow> string_table \<Rightarrow> string option" where
  "resolve sid t = try_resolve sid t"

definition existing :: "string \<Rightarrow> string_table \<Rightarrow> string_id option" where
  "existing s t =
     (case table_base t of
        Some b \<Rightarrow> (case base_string_to_id b s of Some sid \<Rightarrow> Some sid | None \<Rightarrow> string_to_id t s)
      | None \<Rightarrow> string_to_id t s)"

definition table_iter :: "string_table \<Rightarrow> (string_id \<times> string) list" where
  "table_iter t =
     (case table_base t of
        None \<Rightarrow> []
      | Some b \<Rightarrow> map (\<lambda>(i, s). (of_nat i, s)) (enumerate 0 (base_strings b)))
     @ map (\<lambda>(i, s). (of_nat (base_len t + i), s)) (enumerate 0 (table_strings t))"

section \<open>Interning\<close>

definition empty_unallocated :: string_table where
  "empty_unallocated =
     \<lparr> table_base = None, table_strings = [], string_to_id = Map.empty, next_id = 0 \<rparr>"

definition new_table :: string_table where
  "new_table =
     \<lparr> table_base = None, table_strings = [], string_to_id = Map.empty, next_id = 0 \<rparr>"

definition take_for_handoff :: "string_table \<Rightarrow> string_table \<times> string_table" where
  "take_for_handoff t = (t, empty_unallocated)"

definition allocate_id :: "string_table \<Rightarrow> (string_id \<times> string_table) option" where
  "allocate_id t =
     (let new_id = next_id t in
      if next_id t = - 1 then None else Some (new_id, t \<lparr> next_id := next_id t + 1 \<rparr>))"

definition intern_new :: "string \<Rightarrow> string_table \<Rightarrow> (string_id \<times> string_table) option" where
  "intern_new s t =
     (case allocate_id t of
        None \<Rightarrow> None
      | Some (new_id, u) \<Rightarrow>
          let u = u \<lparr> string_to_id := (string_to_id u)(s \<mapsto> new_id) \<rparr>;
              u = u \<lparr> table_strings := table_strings u @ [s] \<rparr>
          in Some (new_id, u))"

definition intern :: "string \<Rightarrow> string_table \<Rightarrow> (string_id \<times> string_table) option" where
  "intern s t = (case existing s t of Some sid \<Rightarrow> Some (sid, t) | None \<Rightarrow> intern_new s t)"

definition get_or_intern :: "string \<Rightarrow> string_table \<Rightarrow> (string_id \<times> string_table) option" where
  "get_or_intern s t =
     (case (case table_base t of None \<Rightarrow> None | Some b \<Rightarrow> base_string_to_id b s) of
        Some sid \<Rightarrow> Some (sid, t)
      | None \<Rightarrow>
          (case string_to_id t s of
             Some sid \<Rightarrow> Some (sid, t)
           | None \<Rightarrow> intern_new s t))"

section \<open>Forks, copies and frozen tables\<close>

text \<open>The loop that rebuilds a reverse map over an enumerated string list.\<close>

primrec insert_ids :: "nat \<Rightarrow> string list \<Rightarrow> (string \<rightharpoonup> string_id) \<Rightarrow> (string \<rightharpoonup> string_id)" where
  "insert_ids i [] m = m"
| "insert_ids i (s # ss) m = insert_ids (Suc i) ss (m(s \<mapsto> of_nat i))"

definition base_from_table :: "string_table \<Rightarrow> string_table_base" where
  "base_from_table t =
     (let strings = (case table_base t of None \<Rightarrow> [] | Some b \<Rightarrow> base_strings b) @ table_strings t
      in \<lparr> base_strings = strings, base_string_to_id = insert_ids 0 strings Map.empty \<rparr>)"

definition from_shared_base :: "string_table_base \<Rightarrow> string_table" where
  "from_shared_base b =
     \<lparr> table_base = Some b, table_strings = [], string_to_id = Map.empty,
       next_id = of_nat (length (base_strings b)) \<rparr>"

definition fork_source :: "string_table \<Rightarrow> string_table_base" where
  "fork_source t = base_from_table t"

definition source_fork_for_module :: "string_table_base \<Rightarrow> string_table_fork" where
  "source_fork_for_module b =
     \<lparr> fork_table = from_shared_base b, fork_base_len = length (base_strings b) \<rparr>"

definition fork_for_module :: "string_table \<Rightarrow> string_table_fork" where
  "fork_for_module t = source_fork_for_module (fork_source t)"

definition clone_table :: "string_table \<Rightarrow> string_table" where
  "clone_table t =
     (let strings = map snd (table_iter t) in
      \<lparr> table_base = None, table_strings = strings, string_to_id = insert_ids 0 strings Map.empty,
        next_id = of_nat (table_len t) \<rparr>)"

definition clone_preserving_inherited_prefix :: "string_table \<Rightarrow> string_table" where
  "clone_preserving_inherited_prefix t =
     (if table_base t = None then from_shared_base (base_from_table t)
      else \<lparr> table_base = table_base t, table_strings = table_strings t,
             string_to_id = insert_ids (base_len t) (table_strings t) Map.empty,
             next_id = next_id t \<rparr>)"

definition frozen_try_resolve :: "string_id \<Rightarrow> frozen_string_table \<Rightarrow> string option" where
  "frozen_try_resolve sid f = slice_get f (unat sid)"

definition frozen_iter :: "frozen_string_table \<Rightarrow> (string_id \<times> string) list" where
  "frozen_iter f = map (\<lambda>(i, s). (of_nat i, s)) (enumerate 0 f)"

definition freeze :: "bool \<Rightarrow> string_table \<Rightarrow> frozen_string_table option" where
  "freeze dbg t =
     (if table_base t \<noteq> None then None
      else if dbg \<and> unat (next_id t) \<noteq> length (table_strings t) then None
      else Some (table_strings t))"

definition freeze_snapshot :: "bool \<Rightarrow> string_table \<Rightarrow> frozen_string_table option" where
  "freeze_snapshot dbg t =
     (let strings = (case table_base t of None \<Rightarrow> [] | Some b \<Rightarrow> base_strings b) @ table_strings t
      in if dbg \<and> unat (next_id t) \<noteq> length strings then None else Some strings)"

definition freeze_flattening :: "bool \<Rightarrow> string_table \<Rightarrow> frozen_string_table option" where
  "freeze_flattening dbg t =
     (case table_base t of
        None \<Rightarrow> freeze dbg t
      | Some b \<Rightarrow>
          let strings = base_strings b @ table_strings t
          in if dbg \<and> unat (next_id t) \<noteq> length strings then None else Some strings)"

section \<open>Merging\<close>

definition remap_get :: "string_id_remap \<Rightarrow> string_id \<Rightarrow> string_id option" where
  "remap_get r old =
     (if unat old < identity_prefix_len r then Some old
      else slice_get (mapped_suffix r) (unat old - identity_prefix_len r))"

primrec merge_from_loop ::
  "bool \<Rightarrow> (string_id \<times> string) list \<Rightarrow> string_table \<Rightarrow> string_id list \<Rightarrow> bool \<Rightarrow>
   (string_table \<times> string_id list \<times> bool) option" where
  "merge_from_loop dbg [] t old_to_new is_identity = Some (t, old_to_new, is_identity)"
| "merge_from_loop dbg (e # es) t old_to_new is_identity =
     (case e of (old_id, s) \<Rightarrow>
        case intern s t of
          None \<Rightarrow> None
        | Some (new_id, u) \<Rightarrow>
            let is_identity = (if new_id \<noteq> old_id then False else is_identity);
                old_to_new = old_to_new @ [new_id]
            in if dbg \<and> unat old_id \<noteq> length old_to_new - 1 then None
               else merge_from_loop dbg es u old_to_new is_identity)"

definition merge_from :: "bool \<Rightarrow> string_table \<Rightarrow> string_table \<Rightarrow> (string_id_remap \<times> string_table) option" where
  "merge_from dbg t other =
     map_option (\<lambda>(u, old_to_new, is_identity).
         (\<lparr> identity_prefix_len = 0, mapped_suffix = old_to_new, remap_is_identity = is_identity \<rparr>, u))
       (merge_from_loop dbg (table_iter other) t [] True)"

primrec merge_delta_loop ::
  "bool \<Rightarrow> nat \<Rightarrow> (string_id \<times> string) list \<Rightarrow> string_table \<Rightarrow> string_id list \<Rightarrow> bool \<Rightarrow>
   (string_table \<times> string_id list \<times> bool) option" where
  "merge_delta_loop dbg prefix_len [] t mapped is_identity = Some (t, mapped, is_identity)"
| "merge_delta_loop dbg prefix_len (e # es) t mapped is_identity =
     (case e of (old_id, s) \<Rightarrow>
        let expected_old_index = prefix_len + length mapped in
        if dbg \<and> unat old_id \<noteq> expected_old_index then None
        else case intern s t of
          None \<Rightarrow> None
        | Some (new_id, u) \<Rightarrow>
            let is_identity = (if unat new_id \<noteq> expected_old_index then False else is_identity)
            in merge_delta_loop dbg prefix_len es u (mapped @ [new_id]) is_identity)"

definition same_prefix_asserted :: "string_table \<Rightarrow> string_table \<Rightarrow> nat \<Rightarrow> bool" where
  "same_prefix_asserted t other prefix_len =
     list_all (\<lambda>i. case (resolve (of_nat i) t, resolve (of_nat i) other) of
                     (Some a, Some b) \<Rightarrow> a = b
                   | _ \<Rightarrow> False) [0..<prefix_len]"

definition merge_delta_from ::
  "bool \<Rightarrow> string_table \<Rightarrow> string_table \<Rightarrow> nat \<Rightarrow> (string_id_remap \<times> string_table) option" where
  "merge_delta_from dbg t other prefix_len =
     (if dbg \<and> (prefix_len > table_len t \<or> prefix_len > table_len other
                \<or> \<not> same_prefix_asserted t other prefix_len) then None
      else map_option (\<lambda>(u, mapped, is_identity).
             (\<lparr> identity_prefix_len = prefix_len, mapped_suffix = mapped, remap_is_identity = is_identity \<rparr>, u))
           (merge_delta_loop dbg prefix_len (drop prefix_len (table_iter other)) t [] True))"

section \<open>The table invariant\<close>

text \<open>The strings of a table in identifier order, its inherited prefix first.\<close>

definition all_strings :: "string_table \<Rightarrow> string list" where
  "all_strings t = (case table_base t of None \<Rightarrow> [] | Some b \<Rightarrow> base_strings b) @ table_strings t"

text \<open>A reverse map is exactly the inverse of the identifiers of a run of strings.\<close>

definition inverts :: "nat \<Rightarrow> string list \<Rightarrow> (string \<rightharpoonup> string_id) \<Rightarrow> bool" where
  "inverts k xs m \<longleftrightarrow>
     (\<forall>s sid. m s = Some sid \<longleftrightarrow> k \<le> unat sid \<and> unat sid < k + length xs \<and> xs ! (unat sid - k) = s)"

definition strings_ok :: "string_table \<Rightarrow> bool" where
  "strings_ok t \<longleftrightarrow>
     distinct (all_strings t) \<and> unat (next_id t) = length (all_strings t)
     \<and> (case table_base t of None \<Rightarrow> True | Some b \<Rightarrow> inverts 0 (base_strings b) (base_string_to_id b))
     \<and> inverts (base_len t) (table_strings t) (string_to_id t)"

definition strings_grow :: "string_table \<Rightarrow> string_table \<Rightarrow> bool" where
  "strings_grow t u \<longleftrightarrow> prefix (all_strings t) (all_strings u)"

lemma unat_of_nat_u32: "n \<le> u32_max \<Longrightarrow> unat (of_nat n :: u32) = n"
  by (simp add: unat_of_nat take_bit_nat_eq_self)

lemma strings_okD:
  assumes "strings_ok t"
  shows "distinct (all_strings t)" "unat (next_id t) = length (all_strings t)"
    "\<And>b. table_base t = Some b \<Longrightarrow> inverts 0 (base_strings b) (base_string_to_id b)"
    "inverts (base_len t) (table_strings t) (string_to_id t)"
    "length (all_strings t) \<le> u32_max"
proof -
  show n: "unat (next_id t) = length (all_strings t)" using assms by (simp add: strings_ok_def)
  have "unat (next_id t) < 2 ^ 32" using unsigned_less [of "next_id t"] by simp
  then show "length (all_strings t) \<le> u32_max" by (simp add: n [symmetric])
qed (use assms in \<open>auto simp: strings_ok_def\<close>)

lemma table_len_eq: "table_len t = length (all_strings t)"
  by (simp add: table_len_def all_strings_def base_len_def split: option.splits)

lemma try_resolve_eq: "try_resolve sid t = slice_get (all_strings t) (unat sid)"
  by (auto simp: try_resolve_def all_strings_def base_len_def base_try_resolve_def slice_get_append
      split: option.splits)

lemma try_resolve_eq_Some:
  "try_resolve sid t = Some s \<longleftrightarrow> unat sid < length (all_strings t) \<and> all_strings t ! unat sid = s"
  by (auto simp: try_resolve_eq slice_get_def)

text \<open>The two reverse maps together invert \<open>try_resolve\<close>.\<close>

lemma existing_eq:
  assumes "strings_ok t"
  shows "existing s t = Some sid \<longleftrightarrow> try_resolve sid t = Some s"
proof (cases "table_base t")
  case None
  with strings_okD(4) [OF assms] show ?thesis
    by (simp add: existing_def try_resolve_eq_Some all_strings_def inverts_def base_len_def)
next
  case (Some b)
  let ?bs = "base_strings b" let ?ls = "table_strings t"
  have B: "base_string_to_id b s = Some i \<longleftrightarrow> unat i < length ?bs \<and> ?bs ! unat i = s" for i
    using strings_okD(3) [OF assms Some] by (simp add: inverts_def)
  have L: "string_to_id t s = Some i \<longleftrightarrow>
      length ?bs \<le> unat i \<and> unat i < length ?bs + length ?ls \<and> ?ls ! (unat i - length ?bs) = s" for i
    using strings_okD(4) [OF assms] Some by (simp add: inverts_def base_len_def)
  have all: "all_strings t = ?bs @ ?ls" by (simp add: all_strings_def Some)
  have d: "set ?bs \<inter> set ?ls = {}" "distinct ?bs" using strings_okD(1) [OF assms] by (auto simp: all)
  show ?thesis
  proof (cases "base_string_to_id b s")
    case None
    then have "\<not> (unat sid < length ?bs \<and> ?bs ! unat sid = s)" using B by auto
    with None show ?thesis
      by (auto simp: existing_def Some L try_resolve_eq_Some all nth_append)
  next
    case (Some i)
    then have i: "unat i < length ?bs" "?bs ! unat i = s" using B by auto
    have "existing s t = Some i" by (simp add: existing_def \<open>table_base t = Some b\<close> Some)
    moreover have "try_resolve sid t = Some s \<longleftrightarrow> sid = i"
    proof
      assume "try_resolve sid t = Some s"
      then have "unat sid < length (all_strings t)" "all_strings t ! unat sid = all_strings t ! unat i"
        using i by (auto simp: try_resolve_eq_Some all nth_append)
      then have "unat sid = unat i"
        using i strings_okD(1) [OF assms] by (simp add: nth_eq_iff_index_eq all)
      then show "sid = i" by (simp add: word_unat_eq_iff)
    qed (use i in \<open>simp add: try_resolve_eq_Some all nth_append\<close>)
    ultimately show ?thesis by auto
  qed
qed

lemma existing_None:
  assumes "strings_ok t"
  shows "existing s t = None \<longleftrightarrow> s \<notin> set (all_strings t)"
proof
  assume *: "existing s t = None"
  show "s \<notin> set (all_strings t)"
  proof
    assume "s \<in> set (all_strings t)"
    then obtain i where i: "i < length (all_strings t)" "all_strings t ! i = s"
      by (auto simp: in_set_conv_nth)
    with strings_okD(5) [OF assms] have "unat (of_nat i :: u32) = i"
      by (intro unat_of_nat_u32) simp
    with i have "try_resolve (of_nat i) t = Some s" by (simp only: try_resolve_eq_Some)
    with * show False by (simp add: existing_eq [OF assms, symmetric])
  qed
next
  assume "s \<notin> set (all_strings t)"
  then have "existing s t \<noteq> Some sid" for sid
    by (auto simp: existing_eq [OF assms] try_resolve_eq_Some)
  then show "existing s t = None" by (cases "existing s t") auto
qed

section \<open>Interning keeps the invariant\<close>

lemma inverts_snoc:
  assumes m: "inverts k xs m" and s: "s \<notin> set xs" and n: "unat n = k + length xs"
  shows "inverts k (xs @ [s]) (m(s \<mapsto> n))"
  unfolding inverts_def
proof (intro allI)
  fix v i
  have M: "m v = Some i \<longleftrightarrow> k \<le> unat i \<and> unat i < k + length xs \<and> xs ! (unat i - k) = v"
    using m by (simp add: inverts_def)
  show "(m(s \<mapsto> n)) v = Some i \<longleftrightarrow>
      k \<le> unat i \<and> unat i < k + length (xs @ [s]) \<and> (xs @ [s]) ! (unat i - k) = v"
  proof (cases "unat i = unat n")
    case True
    then have "i = n" by (simp add: word_unat_eq_iff)
    moreover have "m v \<noteq> Some n" using M n \<open>i = n\<close> by auto
    ultimately show ?thesis using n by (auto simp: nth_append)
  next
    case False
    then have "i \<noteq> n" by auto
    show ?thesis
    proof (cases "k \<le> unat i \<and> unat i < k + length xs")
      case True
      then have "(xs @ [s]) ! (unat i - k) = xs ! (unat i - k)" "xs ! (unat i - k) \<noteq> s"
        using s by (auto simp: nth_append)
      with True M show ?thesis using \<open>i \<noteq> n\<close> by auto
    next
      case out: False
      then have "m v \<noteq> Some i" using M by auto
      with out False n show ?thesis using \<open>i \<noteq> n\<close> by auto
    qed
  qed
qed

lemma intern_new_Some:
  assumes ok: "strings_ok t" and new: "s \<notin> set (all_strings t)" and put: "intern_new s t = Some (k, u)"
  shows "strings_ok u" "all_strings u = all_strings t @ [s]" "unat k = length (all_strings t)"
    "base_len u = base_len t" "table_base u = table_base t"
proof -
  have ne: "next_id t \<noteq> - 1" and k: "k = next_id t"
    and u: "u = t \<lparr> next_id := next_id t + 1, string_to_id := (string_to_id t)(s \<mapsto> next_id t),
                     table_strings := table_strings t @ [s] \<rparr>"
    using put by (auto simp: intern_new_def allocate_id_def Let_def split: if_splits)
  note [simp] = strings_okD(2) [OF ok]
  show base: "base_len u = base_len t" "table_base u = table_base t" by (simp_all add: u base_len_def)
  show all: "all_strings u = all_strings t @ [s]" by (simp add: all_strings_def u)
  show "unat k = length (all_strings t)" by (simp add: k)
  have n: "unat (next_id t) = base_len t + length (table_strings t)"
    by (simp add: table_len_eq [symmetric] table_len_def)
  have "s \<notin> set (table_strings t)" using new by (simp add: all_strings_def)
  then have "inverts (base_len u) (table_strings u) (string_to_id u)"
    using inverts_snoc [OF strings_okD(4) [OF ok] _ n] by (simp add: u base_len_def)
  moreover have "unat (next_id u) = Suc (unat (next_id t))"
    using unatSuc [of "next_id t"] ne by (simp add: u add.commute add_eq_0_iff)
  moreover have "distinct (all_strings u)" using strings_okD(1) [OF ok] new by (simp add: all)
  ultimately show "strings_ok u"
    using ok by (simp add: strings_ok_def all base)
qed

lemma intern_Some:
  assumes ok: "strings_ok t" and put: "intern s t = Some (k, u)"
  shows "strings_ok u" "strings_grow t u" "try_resolve k u = Some s" "existing s u = Some k"
    "table_base u = table_base t"
    "all_strings u = (if s \<in> set (all_strings t) then all_strings t else all_strings t @ [s])"
proof -
  have "strings_ok u \<and> strings_grow t u \<and> try_resolve k u = Some s \<and> table_base u = table_base t
    \<and> all_strings u = (if s \<in> set (all_strings t) then all_strings t else all_strings t @ [s])"
  proof (cases "existing s t")
    case None
    then have "s \<notin> set (all_strings t)" by (simp add: existing_None [OF ok])
    moreover have "intern_new s t = Some (k, u)" using put None by (simp add: intern_def)
    ultimately show ?thesis
      using intern_new_Some [OF ok, of s k u] by (simp add: strings_grow_def try_resolve_eq_Some)
  next
    case (Some i)
    then have "k = i" "u = t" using put by (auto simp: intern_def)
    moreover have "s \<in> set (all_strings t)" using existing_None [OF ok, of s] Some by auto
    ultimately show ?thesis using Some ok by (simp add: strings_grow_def existing_eq)
  qed
  then show "strings_ok u" "strings_grow t u" "try_resolve k u = Some s" "existing s u = Some k"
    "table_base u = table_base t"
    "all_strings u = (if s \<in> set (all_strings t) then all_strings t else all_strings t @ [s])"
    by (simp_all add: existing_eq)
qed

lemma try_resolve_stable:
  "strings_grow t u \<Longrightarrow> try_resolve k t = Some s \<Longrightarrow> try_resolve k u = Some s"
  by (auto simp: strings_grow_def try_resolve_eq_Some prefix_def nth_append)

interpretation string_store: append_store strings_ok strings_grow intern try_resolve
proof unfold_locales
  fix t v k u
  assume "strings_ok t" "intern v t = Some (k, u)"
  from intern_Some [OF this] show "strings_ok u" "strings_grow t u" "try_resolve k u = Some v"
    by simp_all
qed (auto simp: strings_grow_def intro: try_resolve_stable [unfolded strings_grow_def])

text \<open>Interning panics only when a new string meets the exhausted identifier space.\<close>

lemma intern_defined:
  assumes "strings_ok t" "length (all_strings t) < u32_max"
  shows "\<exists>k u. intern s t = Some (k, u)"
proof (cases "existing s t")
  case None
  have "unat (next_id t) \<noteq> unat (- 1 :: u32)"
    using assms by (simp add: strings_okD(2) unsigned_minus_1_eq_mask mask_eq_exp_minus_1)
  then have "next_id t \<noteq> - 1" by auto
  then show ?thesis by (simp add: intern_def None intern_new_def allocate_id_def Let_def)
qed (simp add: intern_def)

lemma put_all_defined:
  assumes "strings_ok t" "length (all_strings t) + length vs \<le> u32_max"
  shows "\<exists>ks u. string_store.put_all vs t = Some (ks, u)"
  using assms
proof (induction vs arbitrary: t)
  case (Cons v vs)
  obtain k u where u: "intern v t = Some (k, u)" using intern_defined [of t v] Cons.prems by auto
  note i = intern_Some [OF Cons.prems(1) u]
  have "length (all_strings u) \<le> Suc (length (all_strings t))" by (simp add: i(6))
  with Cons.prems(2) have "length (all_strings u) + length vs \<le> u32_max" by simp
  from Cons.IH [OF i(1) this] show ?case by (auto simp: u)
qed simp

lemma put_all_strings:
  "strings_ok t \<Longrightarrow> string_store.put_all vs t = Some (ks, u) \<Longrightarrow>
   length ks = length vs \<and> set (all_strings u) = set (all_strings t) \<union> set vs \<and> table_base u = table_base t"
proof (induction vs arbitrary: t ks)
  case (Cons v vs)
  from Cons.prems(2) show ?case
  proof (rule string_store.put_all_ConsE)
    fix k ks' s assume a: "ks = k # ks'" "intern v t = Some (k, s)" "string_store.put_all vs s = Some (ks', u)"
    note i = intern_Some [OF Cons.prems(1) a(2)]
    from Cons.IH [OF i(1) a(3)] show ?thesis by (auto simp: a(1) i(5,6))
  qed
qed simp

section \<open>Copies of a table\<close>

lemma inverts_insert_ids:
  "inverts k xs m \<Longrightarrow> distinct (xs @ ys) \<Longrightarrow> k + length (xs @ ys) \<le> u32_max \<Longrightarrow>
   inverts k (xs @ ys) (insert_ids (k + length xs) ys m)"
proof (induction ys arbitrary: xs m)
  case (Cons y ys)
  have "k + length xs \<le> u32_max" using Cons.prems(3) by simp
  then have "unat (of_nat (k + length xs) :: u32) = k + length xs" by (rule unat_of_nat_u32)
  then have "inverts k (xs @ [y]) (m(y \<mapsto> of_nat (k + length xs)))"
    using Cons.prems(1,2) by (intro inverts_snoc) simp_all
  moreover have "distinct ((xs @ [y]) @ ys)" "k + length ((xs @ [y]) @ ys) \<le> u32_max"
    using Cons.prems(2,3) by simp_all
  ultimately have "inverts k ((xs @ [y]) @ ys)
      (insert_ids (k + length (xs @ [y])) ys (m(y \<mapsto> of_nat (k + length xs))))"
    by (rule Cons.IH)
  then show ?case by (simp del: fun_upd_apply)
qed simp

lemma inverts_empty: "inverts k [] Map.empty"
  by (simp add: inverts_def)

lemma inverts_rebuilt:
  "distinct ys \<Longrightarrow> k + length ys \<le> u32_max \<Longrightarrow> inverts k ys (insert_ids k ys Map.empty)"
  using inverts_insert_ids [OF inverts_empty, of ys k] by simp

lemma base_strings_from_table: "base_strings (base_from_table t) = all_strings t"
  by (simp add: base_from_table_def all_strings_def Let_def)

lemma table_iter_eq: "table_iter t = zip (map of_nat [0..<table_len t]) (all_strings t)"
proof (rule nth_equalityI)
  show "length (table_iter t) = length (zip (map of_nat [0..<table_len t]) (all_strings t))"
    by (simp add: table_iter_def table_len_eq) (simp add: all_strings_def split: option.splits)
next
  fix i assume "i < length (table_iter t)"
  then show "table_iter t ! i = zip (map of_nat [0..<table_len t]) (all_strings t) ! i"
    by (auto simp: table_iter_def table_len_def base_len_def all_strings_def nth_append
        nth_enumerate_eq split: option.splits)
qed

lemma table_iter_strings: "map snd (table_iter t) = all_strings t"
  by (simp add: table_iter_eq table_len_eq)

lemma from_shared_base_ok:
  assumes "strings_ok t"
  shows "strings_ok (from_shared_base (base_from_table t))"
    "all_strings (from_shared_base (base_from_table t)) = all_strings t"
proof -
  show all: "all_strings (from_shared_base (base_from_table t)) = all_strings t"
    by (subst all_strings_def) (simp add: from_shared_base_def base_strings_from_table)
  have "inverts 0 (all_strings t) (insert_ids 0 (all_strings t) Map.empty)"
    using strings_okD(1,5) [OF assms] by (intro inverts_rebuilt) simp_all
  then have "inverts 0 (base_strings (base_from_table t)) (base_string_to_id (base_from_table t))"
    by (simp add: base_from_table_def all_strings_def Let_def)
  then show "strings_ok (from_shared_base (base_from_table t))"
    using strings_okD(1,5) [OF assms] unat_of_nat_u32 [OF strings_okD(5) [OF assms]]
    unfolding strings_ok_def all
    by (simp add: from_shared_base_def inverts_empty base_strings_from_table del: unat_of_nat)
qed

lemma clone_table_ok:
  assumes "strings_ok t"
  shows "strings_ok (clone_table t)" "all_strings (clone_table t) = all_strings t"
proof -
  show all: "all_strings (clone_table t) = all_strings t"
    by (subst all_strings_def) (simp add: clone_table_def table_iter_strings Let_def)
  have "inverts 0 (all_strings t) (insert_ids 0 (all_strings t) Map.empty)"
    using strings_okD(1,5) [OF assms] by (intro inverts_rebuilt) simp_all
  then show "strings_ok (clone_table t)"
    using strings_okD(1,5) [OF assms] unat_of_nat_u32 [OF strings_okD(5) [OF assms]]
    unfolding strings_ok_def all
    by (simp add: clone_table_def table_iter_strings base_len_def table_len_eq Let_def del: unat_of_nat)
qed

lemma clone_preserving_ok:
  assumes "strings_ok t"
  shows "strings_ok (clone_preserving_inherited_prefix t)
    \<and> all_strings (clone_preserving_inherited_prefix t) = all_strings t"
proof (cases "table_base t")
  case None
  then show ?thesis using from_shared_base_ok [OF assms] by (simp add: clone_preserving_inherited_prefix_def)
next
  case (Some b)
  let ?c = "clone_preserving_inherited_prefix t"
  have c: "table_base ?c = Some b" "table_strings ?c = table_strings t" "base_len ?c = base_len t"
    "next_id ?c = next_id t" "string_to_id ?c = insert_ids (base_len t) (table_strings t) Map.empty"
    by (simp_all add: clone_preserving_inherited_prefix_def Some base_len_def)
  have all: "all_strings ?c = all_strings t" by (simp add: all_strings_def c Some)
  have "distinct (table_strings t)" using strings_okD(1) [OF assms] by (simp add: all_strings_def)
  moreover have "base_len t + length (table_strings t) \<le> u32_max"
    using strings_okD(5) [OF assms] by (simp add: table_len_eq [symmetric] table_len_def)
  ultimately have "inverts (base_len t) (table_strings t) (insert_ids (base_len t) (table_strings t) Map.empty)"
    by (rule inverts_rebuilt)
  with strings_okD [OF assms] Some show ?thesis by (simp add: strings_ok_def all c)
qed

lemma fork_facts:
  "fork_table (fork_for_module t) = from_shared_base (base_from_table t)"
  "fork_base_len (fork_for_module t) = table_len t"
  by (simp_all add: fork_for_module_def source_fork_for_module_def fork_source_def
      base_strings_from_table table_len_eq)

section \<open>Merges\<close>

text \<open>Identifiers that keep consecutive numbers.\<close>

definition numbered :: "nat \<Rightarrow> string_id list \<Rightarrow> bool" where
  "numbered n ks \<longleftrightarrow> (\<forall>j < length ks. unat (ks ! j) = n + j)"

lemma numbered_Cons: "numbered n (k # ks) \<longleftrightarrow> unat k = n \<and> numbered (Suc n) ks"
  by (auto simp: numbered_def nth_Cons split: nat.splits)

lemma numbered_Nil [simp]: "numbered n []" by (simp add: numbered_def)

lemma merge_delta_loop_eq:
  "numbered (p + length mapped) (map fst es) \<Longrightarrow>
   merge_delta_loop dbg p es t mapped ident =
     map_option (\<lambda>(ks, u). (u, mapped @ ks, ident \<and> numbered (p + length mapped) ks))
       (string_store.put_all (map snd es) t)"
proof (induction es arbitrary: t mapped ident)
  case (Cons e es)
  obtain old s where e: "e = (old, s)" by (cases e)
  have old: "unat old = p + length mapped" "numbered (p + length (mapped @ [k])) (map fst es)" for k
    using Cons.prems by (auto simp: e numbered_Cons)
  show ?case
  proof (cases "intern s t")
    case (Some ku)
    then obtain k u where ku: "intern s t = Some (k, u)" by (cases ku) auto
    show ?thesis
      by (cases "string_store.put_all (map snd es) u")
        (auto simp: e ku old(1) Cons.IH [OF old(2)] numbered_Cons)
  qed (simp add: e old(1))
qed simp

lemma merge_from_loop_delta:
  "numbered (length mapped) (map fst es) \<Longrightarrow>
   merge_from_loop dbg es t mapped ident = merge_delta_loop dbg 0 es t mapped ident"
proof (induction es arbitrary: t mapped ident)
  case (Cons e es)
  obtain old s where e: "e = (old, s)" by (cases e)
  have old: "unat old = length mapped" "numbered (length (mapped @ [k])) (map fst es)" for k
    using Cons.prems by (auto simp: e numbered_Cons)
  then have "k \<noteq> old \<longleftrightarrow> unat k \<noteq> length mapped" for k by (auto simp: word_unat_eq_iff)
  then show ?case by (auto simp: e old(1) Cons.IH [OF old(2)] split: option.splits)
qed simp

lemma table_iter_numbered:
  assumes "strings_ok t"
  shows "numbered p (map fst (drop p (table_iter t)))"
  unfolding numbered_def
proof (intro allI impI)
  fix j assume "j < length (map fst (drop p (table_iter t)))"
  then have j: "p + j < length (all_strings t)" by (simp add: table_iter_eq table_len_eq)
  then have "p + j \<le> u32_max" using strings_okD(5) [OF assms] by simp
  then have "unat (of_nat (p + j) :: u32) = p + j" by (rule unat_of_nat_u32)
  moreover have "map fst (drop p (table_iter t)) ! j = of_nat (p + j)"
    using j by (simp add: table_iter_eq table_len_eq)
  ultimately show "unat (map fst (drop p (table_iter t)) ! j) = p + j" by simp
qed

text \<open>
  What a merge of the strings after a common prefix gives: a remap under which every identifier
  of the worker denotes its own string in the destination.
\<close>

definition remap_correct :: "string_id_remap \<Rightarrow> string_table \<Rightarrow> string_table \<Rightarrow> bool" where
  "remap_correct r w u \<longleftrightarrow>
     (\<forall>k s. try_resolve k w = Some s \<longrightarrow> (\<exists>k'. remap_get r k = Some k' \<and> try_resolve k' u = Some s))
     \<and> (remap_is_identity r \<longleftrightarrow> (\<forall>k s. try_resolve k w = Some s \<longrightarrow> remap_get r k = Some k))"

lemma same_prefix_assertedI:
  assumes "p \<le> length (all_strings d)" "p \<le> length (all_strings w)"
    "take p (all_strings d) = take p (all_strings w)" "p \<le> u32_max"
  shows "same_prefix_asserted d w p"
proof -
  have "try_resolve (of_nat i) d = Some (all_strings d ! i) \<and> try_resolve (of_nat i) w = Some (all_strings d ! i)"
    if "i < p" for i
  proof -
    have i: "unat (of_nat i :: u32) = i" using that assms(4) by (intro unat_of_nat_u32) simp
    have "all_strings d ! i = all_strings w ! i"
      using that assms(3) by (metis nth_take)
    then show ?thesis using that assms(1,2) by (simp only: try_resolve_eq_Some i) simp
  qed
  then show ?thesis by (simp add: same_prefix_asserted_def list_all_iff resolve_def)
qed

lemma remap_correctI:
  assumes "p \<le> length (all_strings w)" "prefix (take p (all_strings w)) (all_strings u)"
    and max: "length (all_strings w) \<le> u32_max"
    and len: "length ks = length (all_strings w) - p"
    and get: "map (\<lambda>k. try_resolve k u) ks = map Some (drop p (all_strings w))"
    and flag: "flag \<longleftrightarrow> numbered p ks"
  shows "remap_correct \<lparr> identity_prefix_len = p, mapped_suffix = ks, remap_is_identity = flag \<rparr> w u"
proof -
  define r where "r = \<lparr> identity_prefix_len = p, mapped_suffix = ks, remap_is_identity = flag \<rparr>"
  have high: "remap_get r k = Some (ks ! (unat k - p))" "try_resolve (ks ! (unat k - p)) u = try_resolve k w"
    if "p \<le> unat k" "unat k < length (all_strings w)" for k
  proof -
    have j: "unat k - p < length ks" using that len by simp
    then show "remap_get r k = Some (ks ! (unat k - p))"
      using that by (simp add: r_def remap_get_def slice_get_def)
    have "try_resolve (ks ! (unat k - p)) u = map (\<lambda>k. try_resolve k u) ks ! (unat k - p)"
      using j by simp
    also have "\<dots> = try_resolve k w"
      unfolding get using that by (simp add: try_resolve_eq slice_get_def)
    finally show "try_resolve (ks ! (unat k - p)) u = try_resolve k w" .
  qed
  have low: "remap_get r k = Some k" "try_resolve k u = try_resolve k w" if "unat k < p" for k
    using that assms(1,2)
    by (auto simp: r_def remap_get_def try_resolve_eq slice_get_def prefix_def nth_append)
  have "numbered p ks \<longleftrightarrow> (\<forall>k. p \<le> unat k \<and> unat k < length (all_strings w) \<longrightarrow> ks ! (unat k - p) = k)"
  proof
    assume n: "numbered p ks"
    then show "\<forall>k. p \<le> unat k \<and> unat k < length (all_strings w) \<longrightarrow> ks ! (unat k - p) = k"
      using len by (auto simp: numbered_def word_unat_eq_iff)
  next
    assume *: "\<forall>k. p \<le> unat k \<and> unat k < length (all_strings w) \<longrightarrow> ks ! (unat k - p) = k"
    show "numbered p ks" unfolding numbered_def
    proof (intro allI impI)
      fix j assume j: "j < length ks"
      define k where "k = (of_nat (p + j) :: u32)"
      have k: "unat k = p + j" unfolding k_def using j len max by (intro unat_of_nat_u32) simp
      have "ks ! (unat k - p) = k" using * [rule_format, of k] j len by (simp add: k)
      with k show "unat (ks ! j) = p + j" by simp
    qed
  qed
  moreover have "remap_is_identity r = flag" by (simp add: r_def)
  moreover have "(\<forall>k s. try_resolve k w = Some s \<longrightarrow> remap_get r k = Some k) \<longleftrightarrow>
      (\<forall>k. p \<le> unat k \<and> unat k < length (all_strings w) \<longrightarrow> ks ! (unat k - p) = k)"
    using low(1) high(1) by (simp add: try_resolve_eq_Some) (metis linorder_not_less option.inject)
  moreover have "\<exists>k'. remap_get r k = Some k' \<and> try_resolve k' u = Some s" if "try_resolve k w = Some s" for k s
  proof (cases "unat k < p")
    case True
    with low [OF True] that show ?thesis by simp
  next
    case False
    with that have "p \<le> unat k" "unat k < length (all_strings w)" by (auto simp: try_resolve_eq_Some)
    with high [OF this] that show ?thesis by simp
  qed
  ultimately show ?thesis unfolding remap_correct_def r_def [symmetric] using flag by blast
qed

lemma merge_delta_from_correct:
  assumes d: "strings_ok d" and w: "strings_ok w"
    and p: "p \<le> table_len d" "p \<le> table_len w" "take p (all_strings d) = take p (all_strings w)"
    and room: "table_len d + (table_len w - p) \<le> u32_max"
  shows "\<exists>r u. merge_delta_from dbg d w p = Some (r, u) \<and> strings_ok u \<and> strings_grow d u
    \<and> remap_correct r w u \<and> set (all_strings u) = set (all_strings d) \<union> set (drop p (all_strings w))"
proof -
  let ?vs = "drop p (all_strings w)"
  obtain ks u where u: "string_store.put_all ?vs d = Some (ks, u)"
    using put_all_defined [OF d, of ?vs] room by (auto simp: table_len_eq)
  define r where "r = \<lparr> identity_prefix_len = p, mapped_suffix = ks, remap_is_identity = numbered p ks \<rparr>"
  have vs: "map snd (drop p (table_iter w)) = ?vs" by (simp add: drop_map [symmetric] table_iter_strings)
  have "same_prefix_asserted d w p"
    using p strings_okD(5) [OF d] by (intro same_prefix_assertedI) (simp_all add: table_len_eq)
  then have "merge_delta_from dbg d w p = Some (r, u)"
    using p(1,2) merge_delta_loop_eq [of p "[]" "drop p (table_iter w)" dbg d True] table_iter_numbered [OF w, of p]
    by (simp add: merge_delta_from_def vs u r_def)
  moreover note grows = string_store.put_all_grows [OF d u] and strs = put_all_strings [OF d u]
  moreover have "remap_correct r w u"
    unfolding r_def
  proof (rule remap_correctI)
    show "prefix (take p (all_strings w)) (all_strings u)"
      using grows p(3) by (metis prefix_order.trans strings_grow_def take_is_prefix)
    show "map (\<lambda>k. try_resolve k u) ks = map Some ?vs" by (rule string_store.put_all_get [OF d u])
  qed (use p(2) strs strings_okD(5) [OF w] in \<open>simp_all add: table_len_eq\<close>)
  ultimately show ?thesis by blast
qed

lemma merge_from_delta:
  assumes "strings_ok w"
  shows "merge_from dbg d w = merge_delta_from dbg d w 0"
  using merge_from_loop_delta [of "[]" "table_iter w"] table_iter_numbered [OF assms, of 0]
  by (simp add: merge_from_def merge_delta_from_def same_prefix_asserted_def)

section \<open>Properties\<close>

text \<open>C26. Interning is canonical: the identifier issued for a string resolves to it, interning the
  string again (borrowed or owned) returns the same identifier and changes nothing, every identifier
  issued before keeps its string, and two identifiers of the table are equal exactly when their
  strings are.\<close>

theorem intern_canonical:
  assumes "strings_ok t" "intern s t = Some (k, u)"
  shows "strings_ok u \<and> try_resolve k u = Some s
    \<and> intern s u = Some (k, u) \<and> get_or_intern s t = Some (k, u)
    \<and> (\<forall>j v. try_resolve j t = Some v \<longrightarrow> try_resolve j u = Some v)
    \<and> (\<forall>i j v w. try_resolve i u = Some v \<and> try_resolve j u = Some w \<longrightarrow> (i = j \<longleftrightarrow> v = w))"
proof (intro conjI allI impI)
  note i = intern_Some [OF assms]
  show "strings_ok u" "try_resolve k u = Some s" by (fact i)+
  show "intern s u = Some (k, u)" by (simp add: intern_def i(4))
  show "get_or_intern s t = Some (k, u)"
    using assms(2) by (auto simp: get_or_intern_def intern_def existing_def split: option.splits)
  show "try_resolve j u = Some v" if "try_resolve j t = Some v" for j v
    using try_resolve_stable [OF i(2) that] .
  show "i' = j \<longleftrightarrow> v = w" if "try_resolve i' u = Some v \<and> try_resolve j u = Some w" for i' j v w
    using that existing_eq [OF i(1), of v i'] existing_eq [OF i(1), of w j] by auto
qed

lemma new_table_ok [simp]: "strings_ok new_table" "all_strings new_table = []"
  by (simp_all add: strings_ok_def new_table_def all_strings_def inverts_def)

lemma intern_new_table: "\<exists>k u. intern s new_table = Some (k, u)"
  by (rule intern_defined) simp_all

theorem intern_canonical_witness:
  "\<exists>k u. intern ''main'' new_table = Some (k, u) \<and> try_resolve k u = Some ''main''
     \<and> intern ''main'' u = Some (k, u)"
  using intern_new_table [of "''main''"] intern_canonical [OF new_table_ok(1), of "''main''"] by blast

text \<open>C18. A worker's strings survive its merge: when a module fork of the build table has grown to
  \<open>w\<close> and the build table has meanwhile grown to \<open>d\<close> (by earlier merges), merging the fork's delta
  never panics while identifiers last, keeps every identifier of \<open>d\<close>, interns no string twice, and
  returns a remap under which every identifier of the worker denotes its own string in the merged
  table; its identity flag is set exactly when no identifier changes.\<close>

theorem worker_merge_resolves:
  assumes "strings_ok t" "strings_ok w" "strings_grow (fork_table (fork_for_module t)) w"
    and "strings_ok d" "strings_grow t d"
    and "table_len d + (table_len w - table_len t) \<le> u32_max"
  shows "\<exists>r u. merge_delta_from dbg d w (fork_base_len (fork_for_module t)) = Some (r, u)
    \<and> strings_ok u \<and> strings_grow d u \<and> set (all_strings u) = set (all_strings d) \<union> set (all_strings w)
    \<and> (\<forall>k s. try_resolve k w = Some s \<longrightarrow> (\<exists>k'. remap_get r k = Some k' \<and> try_resolve k' u = Some s))
    \<and> (remap_is_identity r \<longleftrightarrow> (\<forall>k s. try_resolve k w = Some s \<longrightarrow> remap_get r k = Some k))"
proof -
  have "prefix (all_strings t) (all_strings w)" "prefix (all_strings t) (all_strings d)"
    using assms(3,5) by (simp_all add: strings_grow_def fork_facts from_shared_base_ok(2) [OF assms(1)])
  then obtain w' d' where wd: "all_strings w = all_strings t @ w'" "all_strings d = all_strings t @ d'"
    by (auto simp: prefix_def)
  have "set (all_strings d) \<union> set (drop (table_len t) (all_strings w)) = set (all_strings d) \<union> set (all_strings w)"
    by (auto simp: table_len_eq wd)
  moreover have "\<exists>r u. merge_delta_from dbg d w (table_len t) = Some (r, u) \<and> strings_ok u \<and> strings_grow d u
    \<and> remap_correct r w u \<and> set (all_strings u) = set (all_strings d) \<union> set (drop (table_len t) (all_strings w))"
    using assms(6) by (intro merge_delta_from_correct assms(2,4)) (simp_all add: table_len_eq wd)
  ultimately show ?thesis unfolding remap_correct_def fork_facts by metis
qed

theorem worker_merge_resolves_witness:
  "\<exists>a b w r u. intern ''x'' new_table = Some (a, b)
     \<and> intern ''y'' (fork_table (fork_for_module new_table)) = Some (0, w)
     \<and> merge_delta_from True b w 0 = Some (r, u) \<and> set (all_strings u) = {''x'', ''y''}"
proof -
  let ?f = "fork_table (fork_for_module new_table)"
  have f: "strings_ok ?f" "all_strings ?f = []"
    using from_shared_base_ok [OF new_table_ok(1)] by (simp_all add: fork_facts)
  obtain a b where b: "intern ''x'' new_table = Some (a, b)" using intern_new_table by blast
  obtain k w where w: "intern ''y'' ?f = Some (k, w)" using intern_defined [OF f(1), of "''y''"] f(2) by auto
  note ib = intern_Some [OF new_table_ok(1) b] and iw = intern_Some [OF f(1) w]
  have "try_resolve k w = Some ''y''" "all_strings w = [''y'']" using iw(3,6) f(2) by simp_all
  then have "k = 0" by (simp add: try_resolve_eq_Some unat_eq_zero)
  moreover have "table_len new_table = 0" by (simp add: table_len_eq)
  moreover have "set (all_strings b) = {''x''}" "table_len b = 1" "set (all_strings w) = {''y''}" "table_len w = 1"
    using ib(6) iw(6) f(2) by (simp_all add: table_len_eq)
  moreover obtain r u where "merge_delta_from True b w (fork_base_len (fork_for_module new_table)) = Some (r, u)"
    "set (all_strings u) = set (all_strings b) \<union> set (all_strings w)"
    using worker_merge_resolves [OF new_table_ok(1) iw(1,2) ib(1,2), of True] calculation by auto
  moreover have "set (all_strings u) = {''x'', ''y''}" using calculation by auto
  ultimately show ?thesis using b w by (auto simp: fork_facts)
qed

text \<open>Every copy of a table (fork, full clone, prefix-sharing clone) satisfies the table
  invariant and resolves every identifier as the table does, and so does each frozen form; only
  \<open>freeze\<close> of a fork panics.\<close>

theorem string_copies_resolve_alike:
  assumes "strings_ok t"
    and "c \<in> {fork_table (fork_for_module t), clone_table t, clone_preserving_inherited_prefix t}"
  shows "strings_ok c \<and> try_resolve k c = try_resolve k t
    \<and> (\<exists>f. freeze_flattening dbg t = Some f \<and> freeze_snapshot dbg t = Some f
          \<and> frozen_try_resolve k f = try_resolve k t
          \<and> freeze dbg t = (if table_base t = None then Some f else None))"
proof -
  have "strings_ok c \<and> all_strings c = all_strings t"
    using assms(2) from_shared_base_ok [OF assms(1)] clone_table_ok [OF assms(1)] clone_preserving_ok [OF assms(1)]
    by (auto simp: fork_facts)
  moreover have "freeze_flattening dbg t = Some (all_strings t)" "freeze_snapshot dbg t = Some (all_strings t)"
    "freeze dbg t = (if table_base t = None then Some (all_strings t) else None)"
    using strings_okD(2) [OF assms(1)]
    by (auto simp: freeze_flattening_def freeze_snapshot_def freeze_def all_strings_def split: option.splits)
  ultimately show ?thesis by (simp add: try_resolve_eq frozen_try_resolve_def)
qed

theorem string_copies_resolve_alike_witness:
  "strings_ok (clone_table new_table) \<and> try_resolve 3 (clone_table new_table) = None"
  using string_copies_resolve_alike [OF new_table_ok(1), of "clone_table new_table" 3 True]
  by (simp add: try_resolve_eq slice_get_def)

end
