(* ===== verification/Path_Table.thy ===== *)
theory Path_Table
  imports String_Interning
begin

text \<open>
  Dense logical-path tables (\<open>symbols/path_interner/id.rs\<close> and \<open>frozen.rs\<close>): parent-linked trie nodes
  in immutable shared segments followed by a local suffix, and the lookup operations on them.

  A \<open>PathId\<close> is its zero-based node index; the source stores index plus one in a \<open>NonZeroU32\<close>, so
  exactly the indexes below \<open>u32_max\<close> can be named. \<open>u32\<close> depths are naturals with the checked
  increment written out. \<open>None\<close> is a panic (\<open>expect\<close>, an index out of range, \<open>debug_assert!\<close> under
  \<open>dbg\<close>). The source writes the component walks twice, for tables and for forks; here each walk is
  one definition over the accessors, and the locale \<open>path_reader\<close> states what they rely on.
\<close>

section \<open>Path identities\<close>

datatype path_id = PathId (path_index: nat)

definition path_root :: path_id where
  "path_root = PathId 0"

definition try_from_index :: "nat \<Rightarrow> path_id option" where
  "try_from_index index =
     (if index > u32_max then None
      else if index + 1 > u32_max then None
      else Some (PathId index))"

record path_node =
  node_parent :: "path_id option"
  node_component :: string_id

section \<open>Segmented storage\<close>

record path_table_segment =
  segment_nodes :: "path_node list"
  segment_depths :: "nat list"

record path_table_base =
  segments :: "path_table_segment list"
  segment_ends :: "nat list"
  base_rows :: nat
  max_component_index :: nat

definition component_index :: "path_node \<Rightarrow> nat" where
  "component_index node = unat (node_component node)"

definition base_from_parts :: "path_node list \<Rightarrow> nat list \<Rightarrow> path_table_base" where
  "base_from_parts nodes depths =
     \<lparr> segments = [\<lparr> segment_nodes = nodes, segment_depths = depths \<rparr>],
       segment_ends = [length nodes],
       base_rows = length nodes,
       max_component_index = fold max (map component_index nodes) 0 \<rparr>"

definition with_segment :: "path_table_base \<Rightarrow> path_table_segment \<Rightarrow> path_table_base" where
  "with_segment b segment =
     (let len = base_rows b + length (segment_nodes segment) in
      \<lparr> segments = segments b @ [segment],
        segment_ends = segment_ends b @ [len],
        base_rows = len,
        max_component_index =
          fold max (map component_index (segment_nodes segment)) (max_component_index b) \<rparr>)"

text \<open>\<open>PathTableBase::node\<close> and \<open>PathTableBase::depth\<close> share one body over the two columns.\<close>

definition base_lookup :: "(path_table_segment \<Rightarrow> 'a list) \<Rightarrow> path_table_base \<Rightarrow> nat \<Rightarrow> 'a option" where
  "base_lookup column b index =
     (if index \<ge> base_rows b then None
      else if length (segments b) = 1 then slice_get (column (segments b ! 0)) index
      else if segments b = [] then None
      else
        let last_segment = last (segments b);
            last_segment_start = base_rows b - length (column last_segment)
        in if index \<ge> last_segment_start
           then slice_get (column last_segment) (index - last_segment_start)
           else
             let segment_index = partition_point (\<lambda>e. e \<le> index) (segment_ends b);
                 start = (if segment_index = 0 then 0 else segment_ends b ! (segment_index - 1))
             in case slice_get (segments b) segment_index of
                  None \<Rightarrow> None
                | Some segment \<Rightarrow> slice_get (column segment) (index - start))"

definition base_node :: "path_table_base \<Rightarrow> nat \<Rightarrow> path_node option" where
  "base_node b index = base_lookup segment_nodes b index"

definition base_depth :: "path_table_base \<Rightarrow> nat \<Rightarrow> nat option" where
  "base_depth b index = base_lookup segment_depths b index"

definition snapshot_with_suffix :: "path_table_base \<Rightarrow> path_node list \<Rightarrow> nat list \<Rightarrow> path_table_base" where
  "snapshot_with_suffix b nodes depths =
     with_segment b \<lparr> segment_nodes = nodes, segment_depths = depths \<rparr>"

definition copy_into ::
  "path_table_base \<Rightarrow> path_node list \<times> nat list \<Rightarrow> path_node list \<times> nat list" where
  "copy_into b = fold (\<lambda>segment (nodes, depths).
       (nodes @ segment_nodes segment, depths @ segment_depths segment)) (segments b)"

section \<open>Tables\<close>

record path_table =
  shared_base :: path_table_base
  local_nodes :: "path_node list"
  local_depths :: "nat list"

definition table_from_parts :: "path_node list \<Rightarrow> nat list \<Rightarrow> path_table" where
  "table_from_parts nodes depths =
     \<lparr> shared_base = base_from_parts nodes depths, local_nodes = [], local_depths = [] \<rparr>"

definition table_from_shared_parts :: "path_table_base \<Rightarrow> path_node list \<Rightarrow> nat list \<Rightarrow> path_table" where
  "table_from_shared_parts b nodes depths =
     \<lparr> shared_base = b, local_nodes = nodes, local_depths = depths \<rparr>"

definition new_path_table :: path_table where
  "new_path_table = table_from_parts [\<lparr> node_parent = None, node_component = 0 \<rparr>] [0]"

definition path_table_len :: "path_table \<Rightarrow> nat" where
  "path_table_len t = base_rows (shared_base t) + length (local_nodes t)"

definition table_node :: "path_table \<Rightarrow> nat \<Rightarrow> path_node option" where
  "table_node t index =
     (if index < base_rows (shared_base t) then base_node (shared_base t) index
      else slice_get (local_nodes t) (index - base_rows (shared_base t)))"

definition depth_at :: "path_table \<Rightarrow> nat \<Rightarrow> nat option" where
  "depth_at t index =
     (if index < base_rows (shared_base t) then base_depth (shared_base t) index
      else slice_get (local_depths t) (index - base_rows (shared_base t)))"

definition path_table_eq :: "path_table \<Rightarrow> path_table \<Rightarrow> bool" where
  "path_table_eq t u \<longleftrightarrow>
     path_table_len t = path_table_len u
     \<and> list_all (\<lambda>index. table_node t index = table_node u index \<and> depth_at t index = depth_at u index)
         [0..<path_table_len t]"

definition table_contains :: "path_table \<Rightarrow> path_id \<Rightarrow> bool" where
  "table_contains t path \<longleftrightarrow> path_index path < path_table_len t"

definition table_parent :: "path_table \<Rightarrow> path_id \<Rightarrow> path_id option option" where
  "table_parent t path = map_option node_parent (table_node t (path_index path))"

definition table_try_parent :: "path_table \<Rightarrow> path_id \<Rightarrow> path_id option" where
  "table_try_parent t path =
     (case table_node t (path_index path) of None \<Rightarrow> None | Some node \<Rightarrow> node_parent node)"

definition table_component :: "path_table \<Rightarrow> path_id \<Rightarrow> string_id option option" where
  "table_component t path =
     (if path = path_root then Some None
      else map_option (\<lambda>node. Some (node_component node)) (table_node t (path_index path)))"

definition table_try_component :: "path_table \<Rightarrow> path_id \<Rightarrow> string_id option" where
  "table_try_component t path =
     (if path = path_root then None else map_option node_component (table_node t (path_index path)))"

definition table_depth :: "path_table \<Rightarrow> path_id \<Rightarrow> nat option" where
  "table_depth t path = depth_at t (path_index path)"

definition table_try_depth :: "path_table \<Rightarrow> path_id \<Rightarrow> nat option" where
  "table_try_depth t path = depth_at t (path_index path)"

definition try_append_child :: "path_id \<Rightarrow> string_id \<Rightarrow> path_table \<Rightarrow> (path_id option \<times> path_table) option" where
  "try_append_child parent component t =
     (case try_from_index (path_table_len t) of
        None \<Rightarrow> Some (None, t)
      | Some child \<Rightarrow>
          (case table_depth t parent of
             None \<Rightarrow> None
           | Some depth \<Rightarrow>
               if depth + 1 > u32_max then Some (None, t)
               else Some (Some child,
                 t \<lparr> local_nodes := local_nodes t @ [\<lparr> node_parent = Some parent, node_component = component \<rparr>],
                     local_depths := local_depths t @ [depth + 1] \<rparr>)))"

definition snapshot_base :: "path_table \<Rightarrow> path_table_base" where
  "snapshot_base t =
     (if local_nodes t = [] then shared_base t
      else with_segment (shared_base t)
             \<lparr> segment_nodes = local_nodes t, segment_depths = local_depths t \<rparr>)"

definition seal_shared_base :: "path_table \<Rightarrow> path_table" where
  "seal_shared_base t =
     (if local_nodes t = [] then t
      else \<lparr> shared_base = with_segment (shared_base t)
               \<lparr> segment_nodes = local_nodes t, segment_depths = local_depths t \<rparr>,
             local_nodes = [], local_depths = [] \<rparr>)"

text \<open>\<open>remap_string_ids\<close>: every component goes through the remap, which panics on a foreign one.\<close>

definition remap_node :: "string_id_remap \<Rightarrow> path_node \<Rightarrow> path_node option" where
  "remap_node remap node =
     map_option (\<lambda>c. node \<lparr> node_component := c \<rparr>) (remap_get remap (node_component node))"

definition traverse :: "('a \<Rightarrow> 'b option) \<Rightarrow> 'a list \<Rightarrow> 'b list option" where
  "traverse f xs = those (map f xs)"

definition remap_string_ids :: "string_id_remap \<Rightarrow> path_table \<Rightarrow> path_table option" where
  "remap_string_ids remap t =
     (case (if \<not> remap_is_identity remap
               \<and> max_component_index (shared_base t) \<ge> identity_prefix_len remap
            then (let (nodes, depths) = copy_into (shared_base t) ([], [])
                  in map_option (\<lambda>nodes. base_from_parts nodes depths) (traverse (remap_node remap) nodes))
            else Some (shared_base t)) of
        None \<Rightarrow> None
      | Some b \<Rightarrow>
          map_option (\<lambda>nodes. t \<lparr> shared_base := b, local_nodes := nodes \<rparr>)
            (traverse (remap_node remap) (local_nodes t)))"

section \<open>Component walks\<close>

text \<open>\<open>par\<close>, \<open>cmp\<close> and \<open>dep\<close> are the accessors of a table or of a fork; \<open>None\<close> is their panic.\<close>

type_synonym parent_of = "path_id \<Rightarrow> path_id option option"
type_synonym component_of = "path_id \<Rightarrow> string_id option option"
type_synonym depth_of = "path_id \<Rightarrow> nat option"

primrec walk_up :: "parent_of \<Rightarrow> nat \<Rightarrow> path_id \<Rightarrow> path_id option" where
  "walk_up par 0 current = Some current"
| "walk_up par (Suc n) current =
     (case par current of Some (Some parent) \<Rightarrow> walk_up par n parent | _ \<Rightarrow> None)"

definition starts_with :: "parent_of \<Rightarrow> depth_of \<Rightarrow> path_id \<Rightarrow> path_id \<Rightarrow> bool option" where
  "starts_with par dep path prefix_path =
     (case (dep path, dep prefix_path) of
        (Some path_depth, Some prefix_depth) \<Rightarrow>
          if prefix_depth > path_depth then Some False
          else map_option (\<lambda>current. current = prefix_path) (walk_up par (path_depth - prefix_depth) path)
      | _ \<Rightarrow> None)"

primrec ends_with_loop :: "parent_of \<Rightarrow> component_of \<Rightarrow> nat \<Rightarrow> path_id \<Rightarrow> path_id \<Rightarrow> bool option" where
  "ends_with_loop par cmp 0 path_cursor suffix_cursor = Some True"
| "ends_with_loop par cmp (Suc n) path_cursor suffix_cursor =
     (case (cmp path_cursor, cmp suffix_cursor) of
        (Some a, Some b) \<Rightarrow>
          if a \<noteq> b then Some False
          else (case (par path_cursor, par suffix_cursor) of
                  (Some (Some p), Some (Some q)) \<Rightarrow> ends_with_loop par cmp n p q
                | _ \<Rightarrow> None)
      | _ \<Rightarrow> None)"

definition ends_with :: "parent_of \<Rightarrow> component_of \<Rightarrow> depth_of \<Rightarrow> path_id \<Rightarrow> path_id \<Rightarrow> bool option" where
  "ends_with par cmp dep path suffix_path =
     (case (dep path, dep suffix_path) of
        (Some path_depth, Some suffix_depth) \<Rightarrow>
          if suffix_depth > path_depth then Some False
          else ends_with_loop par cmp suffix_depth path suffix_path
      | _ \<Rightarrow> None)"

primrec collect_components ::
  "parent_of \<Rightarrow> component_of \<Rightarrow> nat \<Rightarrow> path_id \<Rightarrow> string_id list \<Rightarrow> (string_id list \<times> path_id) option" where
  "collect_components par cmp 0 current scratch = Some (scratch, current)"
| "collect_components par cmp (Suc remaining) current scratch =
     (case cmp current of
        Some (Some component) \<Rightarrow>
          (case par current of
             Some (Some parent) \<Rightarrow> collect_components par cmp remaining parent (scratch @ [component])
           | _ \<Rightarrow> None)
      | _ \<Rightarrow> None)"

definition resolve_components ::
  "bool \<Rightarrow> parent_of \<Rightarrow> component_of \<Rightarrow> depth_of \<Rightarrow> path_id \<Rightarrow> string_id list option" where
  "resolve_components dbg par cmp dep path =
     (case dep path of
        None \<Rightarrow> None
      | Some depth \<Rightarrow>
          (case collect_components par cmp depth path [] of
             None \<Rightarrow> None
           | Some (scratch, current) \<Rightarrow>
               if dbg \<and> current \<noteq> path_root then None else Some (rev scratch)))"

primrec render_loop :: "(string_id \<Rightarrow> string option) \<Rightarrow> nat \<Rightarrow> string_id list \<Rightarrow> string \<Rightarrow> string option" where
  "render_loop res index [] rendered = Some rendered"
| "render_loop res index (c # cs) rendered =
     (let rendered = (if index > 0 then rendered @ ''/'' else rendered) in
      case res c of None \<Rightarrow> None | Some s \<Rightarrow> render_loop res (Suc index) cs (rendered @ s))"

definition render_portable_with ::
  "bool \<Rightarrow> parent_of \<Rightarrow> component_of \<Rightarrow> depth_of \<Rightarrow> (string_id \<Rightarrow> string option) \<Rightarrow> path_id \<Rightarrow> string option" where
  "render_portable_with dbg par cmp dep res path =
     (case resolve_components dbg par cmp dep path of
        None \<Rightarrow> None
      | Some components \<Rightarrow> render_loop res 0 components [])"

section \<open>Segmented storage is one flat array\<close>

definition flat_nodes :: "path_table_base \<Rightarrow> path_node list" where
  "flat_nodes b = concat (map segment_nodes (segments b))"

definition flat_depths :: "path_table_base \<Rightarrow> nat list" where
  "flat_depths b = concat (map segment_depths (segments b))"

primrec ends_from :: "nat \<Rightarrow> path_table_segment list \<Rightarrow> nat list" where
  "ends_from n [] = []"
| "ends_from n (s # ss) = (n + length (segment_nodes s)) # ends_from (n + length (segment_nodes s)) ss"

definition base_ok :: "path_table_base \<Rightarrow> bool" where
  "base_ok b \<longleftrightarrow>
     segments b \<noteq> [] \<and> segment_ends b = ends_from 0 (segments b)
     \<and> base_rows b = length (flat_nodes b)
     \<and> (\<forall>s \<in> set (segments b). length (segment_depths s) = length (segment_nodes s))
     \<and> max_component_index b = fold max (map component_index (flat_nodes b)) 0"

lemma ends_from_append:
  "ends_from n (xs @ [s]) = ends_from n xs @ [n + length (concat (map segment_nodes (xs @ [s])))]"
  by (induction xs arbitrary: n) (simp_all add: add.assoc)

lemma length_ends_from [simp]: "length (ends_from n xs) = length xs"
  by (induction xs arbitrary: n) simp_all

text \<open>The binary search finds the segment of an index and its offset there.\<close>

lemma segment_search:
  assumes "\<forall>s \<in> set ss. length (column s) = length (segment_nodes s)"
    and "n \<le> i" "i < n + length (concat (map segment_nodes ss))"
  defines "k \<equiv> partition_point (\<lambda>e. e \<le> i) (ends_from n ss)"
  shows "k < length ss \<and>
    slice_get (column (ss ! k)) (i - (if k = 0 then n else ends_from n ss ! (k - 1)))
      = slice_get (concat (map column ss)) (i - n)"
  using assms(1-3) unfolding k_def
proof (induction ss arbitrary: n)
  case (Cons s ss)
  let ?m = "n + length (segment_nodes s)"
  have c: "length (column s) = length (segment_nodes s)" using Cons.prems(1) by simp
  show ?case
  proof (cases "?m \<le> i")
    case True
    let ?k = "partition_point (\<lambda>e. e \<le> i) (ends_from ?m ss)"
    have "i < ?m + length (concat (map segment_nodes ss))" using Cons.prems(3) by simp
    from Cons.IH [OF _ True this] Cons.prems(1)
    have IH: "?k < length ss" "slice_get (column (ss ! ?k)) (i - (if ?k = 0 then ?m else ends_from ?m ss ! (?k - 1)))
      = slice_get (concat (map column ss)) (i - ?m)" by auto
    have k: "partition_point (\<lambda>e. e \<le> i) (ends_from n (s # ss)) = Suc ?k"
      using True by (simp add: partition_point_def)
    have "ends_from n (s # ss) ! ?k = (if ?k = 0 then ?m else ends_from ?m ss ! (?k - 1))"
      by (cases ?k) simp_all
    moreover have "\<not> i - n < length (segment_nodes s)" "i - n - length (segment_nodes s) = i - ?m"
      using True by auto
    ultimately show ?thesis using IH unfolding k by (simp add: slice_get_append c)
  next
    case False
    then have k: "partition_point (\<lambda>e. e \<le> i) (ends_from n (s # ss)) = 0"
      by (simp add: partition_point_def)
    have "i - n < length (segment_nodes s)" using False Cons.prems(2) by linarith
    then show ?thesis unfolding k by (simp add: slice_get_append c)
  qed
qed simp

lemma base_lookup_flat:
  assumes "base_ok b" and "\<And>s. s \<in> set (segments b) \<Longrightarrow> length (column s) = length (segment_nodes s)"
  shows "base_lookup column b i = slice_get (concat (map column (segments b))) i"
proof -
  obtain ss s where ss: "segments b = ss @ [s]"
    using assms(1) by (metis base_ok_def rev_exhaust)
  have len: "length (concat (map column xs)) = length (concat (map segment_nodes xs))"
    if "set xs \<subseteq> set (segments b)" for xs
    using that assms(2) by (induction xs) auto
  have rows: "base_rows b = length (concat (map column (segments b)))"
    using assms(1) len [of "segments b"] by (simp add: base_ok_def flat_nodes_def)
  show ?thesis
  proof (cases "i < base_rows b")
    case False
    then show ?thesis by (simp add: base_lookup_def rows slice_get_def)
  next
    case True
    show ?thesis
    proof (cases "ss = []")
      case True
      then show ?thesis using \<open>i < base_rows b\<close> by (simp add: base_lookup_def ss)
    next
      case False
      have start: "base_rows b - length (column s) = length (concat (map column ss))"
        by (simp add: rows ss)
      show ?thesis
      proof (cases "length (concat (map column ss)) \<le> i")
        case True
        then show ?thesis
          using \<open>i < base_rows b\<close> False start by (simp add: base_lookup_def ss slice_get_append)
      next
        case in_front: False
        let ?k = "partition_point (\<lambda>e. e \<le> i) (segment_ends b)"
        have k: "?k < length (segments b)"
          "slice_get (column (segments b ! ?k)) (i - (if ?k = 0 then 0 else segment_ends b ! (?k - 1)))
            = slice_get (concat (map column (segments b))) i"
          using segment_search [of "segments b" column 0 i] assms \<open>i < base_rows b\<close>
          by (auto simp: base_ok_def flat_nodes_def)
        have "base_lookup column b i = slice_get (column (segments b ! ?k)) (i - (if ?k = 0 then 0 else segment_ends b ! (?k - 1)))"
          using \<open>i < base_rows b\<close> False in_front start k(1)
          by (simp add: base_lookup_def slice_get_def ss Let_def)
        with k(2) show ?thesis by simp
      qed
    qed
  qed
qed

text \<open>The view of a table as two flat columns.\<close>

definition table_nodes :: "path_table \<Rightarrow> path_node list" where
  "table_nodes t = flat_nodes (shared_base t) @ local_nodes t"

definition table_depths :: "path_table \<Rightarrow> nat list" where
  "table_depths t = flat_depths (shared_base t) @ local_depths t"

lemma base_columns:
  assumes "base_ok b"
  shows "base_node b i = slice_get (flat_nodes b) i" "base_depth b i = slice_get (flat_depths b) i"
    "base_rows b = length (flat_nodes b)" "length (flat_depths b) = length (flat_nodes b)"
proof -
  have eq: "length (segment_depths s) = length (segment_nodes s)" if "s \<in> set (segments b)" for s
    using assms that by (simp add: base_ok_def)
  show "base_node b i = slice_get (flat_nodes b) i"
    by (simp add: base_node_def flat_nodes_def base_lookup_flat [OF assms])
  show "base_depth b i = slice_get (flat_depths b) i"
    by (simp add: base_depth_def flat_depths_def base_lookup_flat [OF assms eq])
  show "base_rows b = length (flat_nodes b)" using assms by (simp add: base_ok_def)
  have "length (concat (map segment_depths xs)) = length (concat (map segment_nodes xs))"
    if "set xs \<subseteq> set (segments b)" for xs using that eq by (induction xs) auto
  then show "length (flat_depths b) = length (flat_nodes b)" by (simp add: flat_nodes_def flat_depths_def)
qed

lemma base_from_parts_ok:
  "length depths = length nodes \<Longrightarrow> base_ok (base_from_parts nodes depths)"
  "flat_nodes (base_from_parts nodes depths) = nodes"
  "flat_depths (base_from_parts nodes depths) = depths"
  by (simp_all add: base_ok_def base_from_parts_def flat_nodes_def flat_depths_def)

lemma with_segment_ok:
  assumes "base_ok b" "length (segment_depths s) = length (segment_nodes s)"
  shows "base_ok (with_segment b s)"
    "flat_nodes (with_segment b s) = flat_nodes b @ segment_nodes s"
    "flat_depths (with_segment b s) = flat_depths b @ segment_depths s"
proof -
  show n: "flat_nodes (with_segment b s) = flat_nodes b @ segment_nodes s"
    "flat_depths (with_segment b s) = flat_depths b @ segment_depths s"
    by (simp_all add: with_segment_def flat_nodes_def flat_depths_def Let_def)
  have "segment_ends (with_segment b s) = ends_from 0 (segments (with_segment b s))"
    using assms(1) by (simp add: with_segment_def Let_def base_ok_def ends_from_append flat_nodes_def)
  with assms show "base_ok (with_segment b s)"
    unfolding base_ok_def n(1) by (auto simp: with_segment_def Let_def)
qed

lemma copy_into_flat: "copy_into b (ns, ds) = (ns @ flat_nodes b, ds @ flat_depths b)"
proof -
  have "fold (\<lambda>s (ns, ds). (ns @ segment_nodes s, ds @ segment_depths s)) xs (ns, ds)
      = (ns @ concat (map segment_nodes xs), ds @ concat (map segment_depths xs))" for xs
    by (induction xs arbitrary: ns ds) simp_all
  then show ?thesis by (simp add: copy_into_def flat_nodes_def flat_depths_def)
qed

section \<open>The trie invariant\<close>

text \<open>
  The root comes first, every other node hangs below an earlier one and is one deeper, no two nodes
  have the same parent and component, and every node has a compact name.
\<close>

definition trie_ok :: "path_node list \<Rightarrow> nat list \<Rightarrow> bool" where
  "trie_ok ns ds \<longleftrightarrow>
     length ds = length ns \<and> ns \<noteq> [] \<and> length ns \<le> u32_max
     \<and> node_parent (ns ! 0) = None \<and> ds ! 0 = 0
     \<and> (\<forall>i. 0 < i \<and> i < length ns \<longrightarrow>
          (\<exists>j < i. node_parent (ns ! i) = Some (PathId j) \<and> ds ! i = Suc (ds ! j)))
     \<and> (\<forall>i k. 0 < i \<and> i < length ns \<and> 0 < k \<and> k < length ns
          \<and> node_parent (ns ! i) = node_parent (ns ! k) \<and> node_component (ns ! i) = node_component (ns ! k)
          \<longrightarrow> i = k)"

primrec spine :: "path_node list \<Rightarrow> nat \<Rightarrow> nat \<Rightarrow> string_id list" where
  "spine ns 0 i = []"
| "spine ns (Suc d) i =
     (case node_parent (ns ! i) of
        None \<Rightarrow> []
      | Some p \<Rightarrow> spine ns d (path_index p) @ [node_component (ns ! i)])"

text \<open>The components of a node: the abstract value of a path identity.\<close>

definition path_of :: "path_node list \<Rightarrow> nat list \<Rightarrow> nat \<Rightarrow> string_id list" where
  "path_of ns ds i = spine ns (ds ! i) i"

lemma trie_okD:
  assumes "trie_ok ns ds"
  shows "length ds = length ns" "0 < length ns" "length ns \<le> u32_max" "node_parent (ns ! 0) = None" "ds ! 0 = 0"
    "\<And>i k. 0 < i \<Longrightarrow> i < length ns \<Longrightarrow> 0 < k \<Longrightarrow> k < length ns \<Longrightarrow>
       node_parent (ns ! i) = node_parent (ns ! k) \<Longrightarrow> node_component (ns ! i) = node_component (ns ! k) \<Longrightarrow> i = k"
  using assms by (auto simp: trie_ok_def)

lemma trie_parentE:
  assumes "trie_ok ns ds" "0 < i" "i < length ns"
  obtains j where "j < i" "node_parent (ns ! i) = Some (PathId j)" "ds ! i = Suc (ds ! j)"
    "path_of ns ds i = path_of ns ds j @ [node_component (ns ! i)]"
proof -
  obtain j where j: "j < i" "node_parent (ns ! i) = Some (PathId j)" "ds ! i = Suc (ds ! j)"
    using assms by (auto simp: trie_ok_def)
  moreover from j(2,3) have "path_of ns ds i = path_of ns ds j @ [node_component (ns ! i)]"
    by (simp add: path_of_def)
  ultimately show thesis by (rule that)
qed

lemma path_of_root: "trie_ok ns ds \<Longrightarrow> path_of ns ds 0 = []"
  by (simp add: path_of_def trie_okD)

lemma trie_depth_le: "trie_ok ns ds \<Longrightarrow> i < length ns \<Longrightarrow> ds ! i \<le> i"
proof (induction i rule: less_induct)
  case (less i)
  show ?case
  proof (cases "i = 0")
    case False
    with less.prems obtain j where "j < i" "ds ! i = Suc (ds ! j)" using trie_parentE by blast
    with less.IH [of j] less.prems show ?thesis by simp
  qed (use less.prems in \<open>simp add: trie_okD\<close>)
qed

lemma length_path_of: "trie_ok ns ds \<Longrightarrow> i < length ns \<Longrightarrow> length (path_of ns ds i) = ds ! i"
proof (induction i rule: less_induct)
  case (less i)
  show ?case
  proof (cases "i = 0")
    case False
    with less.prems obtain j where "j < i" "ds ! i = Suc (ds ! j)"
      "path_of ns ds i = path_of ns ds j @ [node_component (ns ! i)]" using trie_parentE by blast
    with less.IH [of j] less.prems show ?thesis by simp
  qed (use less.prems in \<open>simp add: trie_okD path_of_def\<close>)
qed

text \<open>Paths are canonical: equal components, equal identity.\<close>

lemma path_of_inject:
  "trie_ok ns ds \<Longrightarrow> i < length ns \<Longrightarrow> k < length ns \<Longrightarrow> path_of ns ds i = path_of ns ds k \<longleftrightarrow> i = k"
proof (induction i arbitrary: k rule: less_induct)
  case (less i)
  note ok = less.prems(1)
  have "i = k" if eq: "path_of ns ds i = path_of ns ds k"
  proof (cases "i = 0 \<or> k = 0")
    case True
    have "ds ! i = ds ! k" using eq length_path_of [OF ok] less.prems by metis
    moreover have "ds ! m \<noteq> 0" if "0 < m" "m < length ns" for m
      using trie_parentE [OF ok that] by (metis Zero_not_Suc)
    ultimately show ?thesis using True less.prems trie_okD(5) [OF ok] by (metis gr0I)
  next
    case False
    then obtain j where j: "j < i" "node_parent (ns ! i) = Some (PathId j)"
      "path_of ns ds i = path_of ns ds j @ [node_component (ns ! i)]"
      using trie_parentE [OF ok, of i] less.prems by auto
    obtain l where l: "l < k" "node_parent (ns ! k) = Some (PathId l)"
      "path_of ns ds k = path_of ns ds l @ [node_component (ns ! k)]"
      using trie_parentE [OF ok, of k] less.prems False by auto
    from eq j(3) l(3) have "path_of ns ds j = path_of ns ds l" "node_component (ns ! i) = node_component (ns ! k)"
      by simp_all
    moreover from this less.IH [OF j(1) ok, of l] j(1) l(1) less.prems have "j = l" by simp
    ultimately show ?thesis using trie_okD(6) [OF ok, of i k] False less.prems j(2) l(2) by simp
  qed
  then show ?case by blast
qed

text \<open>Appending a fresh child keeps the invariant, every old path, and adds exactly one path.\<close>

lemma nth_snoc_old: "i < length xs \<Longrightarrow> (xs @ [x]) ! i = xs ! i"
  by (simp add: nth_append)

lemma trie_snoc:
  assumes ok: "trie_ok ns ds" and room: "length ns < u32_max" and p: "p < length ns"
    and fresh: "\<And>i. 0 < i \<Longrightarrow> i < length ns \<Longrightarrow>
      \<not> (node_parent (ns ! i) = Some (PathId p) \<and> node_component (ns ! i) = c)"
  defines "ns' \<equiv> ns @ [\<lparr> node_parent = Some (PathId p), node_component = c \<rparr>]"
    and "ds' \<equiv> ds @ [Suc (ds ! p)]"
  shows "trie_ok ns' ds'"
proof -
  note D = trie_okD [OF ok]
  have old: "ns' ! i = ns ! i" "ds' ! i = ds ! i" if "i < length ns" for i
    using that D(1) by (simp_all add: ns'_def ds'_def nth_append)
  have new: "ns' ! length ns = \<lparr> node_parent = Some (PathId p), node_component = c \<rparr>" "ds' ! length ns = Suc (ds ! p)"
    using D(1) by (simp_all add: ns'_def ds'_def nth_append)
  have len: "length ns' = Suc (length ns)" "length ds' = length ns'" using D(1) by (simp_all add: ns'_def ds'_def)
  have "\<exists>j < i. node_parent (ns' ! i) = Some (PathId j) \<and> ds' ! i = Suc (ds' ! j)" if "0 < i" "i < length ns'" for i
  proof (cases "i = length ns")
    case True
    then show ?thesis using p by (auto simp: new old)
  next
    case False
    with that have i: "i < length ns" by (simp add: len)
    obtain j where "j < i" "node_parent (ns ! i) = Some (PathId j)" "ds ! i = Suc (ds ! j)"
      by (rule trie_parentE [OF ok \<open>0 < i\<close> i])
    with i show ?thesis by (auto simp: old)
  qed
  moreover have "i = k" if "0 < i" "i < length ns'" "0 < k" "k < length ns'"
    "node_parent (ns' ! i) = node_parent (ns' ! k)" "node_component (ns' ! i) = node_component (ns' ! k)" for i k
  proof (cases "i = length ns \<or> k = length ns")
    case True
    then show ?thesis using that fresh [of i] fresh [of k] by (auto simp: new old len less_Suc_eq)
  next
    case False
    with that have "i < length ns" "k < length ns" by (simp_all add: len)
    with that D(6) [of i k] show ?thesis by (simp add: old)
  qed
  ultimately show ?thesis
    using D(2,4,5) room old(1,2) [OF D(2)] len by (auto simp: trie_ok_def)
qed

lemma path_of_append:
  assumes ok: "trie_ok ns ds" and i: "i < length ns"
  shows "path_of (ns @ ms) (ds @ es) i = path_of ns ds i"
  using i
proof (induction i rule: less_induct)
  case (less i)
  have i: "i < length ns" "(ns @ ms) ! i = ns ! i" "(ds @ es) ! i = ds ! i"
    using less.prems trie_okD(1) [OF ok] by (simp_all add: nth_append)
  show ?case
  proof (cases "i = 0")
    case True
    then show ?thesis using trie_okD(5) [OF ok] i(3) by (simp add: path_of_def)
  next
    case False
    then obtain j where j: "j < i" "node_parent (ns ! i) = Some (PathId j)" "ds ! i = Suc (ds ! j)"
      using trie_parentE [OF ok _ i(1)] by auto
    then have "(ds @ es) ! j = ds ! j" using i(1) trie_okD(1) [OF ok] by (simp add: nth_append)
    with less.IH [OF j(1)] j i show ?thesis by (simp add: path_of_def)
  qed
qed

section \<open>Readers\<close>

text \<open>
  What the component walks rely on: accessors that read the rows of a well-formed trie. Tables
  interpret the locale below, forks in the theory of the interners.
\<close>

locale path_reader =
  fixes ok :: "'t \<Rightarrow> bool"
    and nodes :: "'t \<Rightarrow> path_node list"
    and depths :: "'t \<Rightarrow> nat list"
    and par :: "'t \<Rightarrow> parent_of"
    and cmp :: "'t \<Rightarrow> component_of"
    and dep :: "'t \<Rightarrow> depth_of"
  assumes reader_trie: "ok t \<Longrightarrow> trie_ok (nodes t) (depths t)"
    and reader_parent: "ok t \<Longrightarrow> i < length (nodes t) \<Longrightarrow> par t (PathId i) = Some (node_parent (nodes t ! i))"
    and reader_component: "ok t \<Longrightarrow> i < length (nodes t) \<Longrightarrow>
      cmp t (PathId i) = Some (if i = 0 then None else Some (node_component (nodes t ! i)))"
    and reader_depth: "ok t \<Longrightarrow> i < length (nodes t) \<Longrightarrow> dep t (PathId i) = Some (depths t ! i)"
begin

abbreviation components :: "'t \<Rightarrow> nat \<Rightarrow> string_id list" where
  "components t i \<equiv> path_of (nodes t) (depths t) i"

text \<open>One step up from a node that is not the root.\<close>

lemma reader_step:
  assumes "ok t" "i < length (nodes t)" "depths t ! i = Suc d"
  obtains j where "j < length (nodes t)" "par t (PathId i) = Some (Some (PathId j))" "depths t ! j = d"
    "cmp t (PathId i) = Some (Some (node_component (nodes t ! i)))"
    "components t i = components t j @ [node_component (nodes t ! i)]"
proof -
  note trie = reader_trie [OF assms(1)]
  have i: "0 < i" using assms(3) trie_okD(5) [OF trie] by (cases i) auto
  obtain j where "j < i" "node_parent (nodes t ! i) = Some (PathId j)" "depths t ! i = Suc (depths t ! j)"
    "components t i = components t j @ [node_component (nodes t ! i)]"
    by (rule trie_parentE [OF trie i assms(2)])
  with assms i reader_parent [OF assms(1,2)] reader_component [OF assms(1,2)] show thesis
    by (intro that [of j]) auto
qed

lemma depth_zero: "ok t \<Longrightarrow> i < length (nodes t) \<Longrightarrow> depths t ! i = 0 \<Longrightarrow> i = 0"
  using path_of_inject [OF reader_trie, of t i 0] length_path_of [OF reader_trie, of t i]
    path_of_root [OF reader_trie, of t] trie_okD(2) [OF reader_trie, of t] by simp

lemma walk_up_components:
  "ok t \<Longrightarrow> i < length (nodes t) \<Longrightarrow> n \<le> depths t ! i \<Longrightarrow>
   \<exists>a < length (nodes t). walk_up (par t) n (PathId i) = Some (PathId a)
     \<and> components t a = take (depths t ! i - n) (components t i)"
proof (induction n arbitrary: i)
  case 0
  then show ?case using length_path_of [OF reader_trie, of t i] by auto
next
  case (Suc n)
  from Suc.prems(3) obtain d where d: "depths t ! i = Suc d" by (cases "depths t ! i") auto
  show ?case
  proof (rule reader_step [OF Suc.prems(1,2) d])
    fix j assume j: "j < length (nodes t)" "par t (PathId i) = Some (Some (PathId j))" "depths t ! j = d"
      "components t i = components t j @ [node_component (nodes t ! i)]"
    have "length (components t j) = d" using length_path_of [OF reader_trie, OF Suc.prems(1) j(1)] j(3) by simp
    with Suc.IH [OF Suc.prems(1) j(1)] Suc.prems(3) d j show ?thesis by auto
  qed
qed

lemma collect_components_ok:
  "ok t \<Longrightarrow> i < length (nodes t) \<Longrightarrow>
   collect_components (par t) (cmp t) (depths t ! i) (PathId i) acc = Some (acc @ rev (components t i), path_root)"
proof (induction "depths t ! i" arbitrary: i acc)
  case 0
  then have "i = 0" using depth_zero by metis
  with 0 show ?case using path_of_root [OF reader_trie] by (simp add: path_root_def)
next
  case (Suc d)
  note d = Suc.hyps(2) [symmetric]
  show ?case
  proof (rule reader_step [OF Suc.prems d])
    fix j assume j: "j < length (nodes t)" "par t (PathId i) = Some (Some (PathId j))" "depths t ! j = d"
      "cmp t (PathId i) = Some (Some (node_component (nodes t ! i)))"
      "components t i = components t j @ [node_component (nodes t ! i)]"
    from Suc.hyps(1) [OF j(3) [symmetric] Suc.prems(1) j(1)] j show ?thesis by (simp add: d)
  qed
qed

lemma resolve_components_eq:
  "ok t \<Longrightarrow> i < length (nodes t) \<Longrightarrow>
   resolve_components dbg (par t) (cmp t) (dep t) (PathId i) = Some (components t i)"
  by (simp add: resolve_components_def reader_depth collect_components_ok)

lemma starts_with_eq:
  assumes "ok t" "i < length (nodes t)" "j < length (nodes t)"
  shows "starts_with (par t) (dep t) (PathId i) (PathId j) = Some (prefix (components t j) (components t i))"
proof (cases "depths t ! i < depths t ! j")
  case True
  then have "\<not> prefix (components t j) (components t i)"
    using length_path_of [OF reader_trie, OF assms(1)] assms(2,3) prefix_length_le by fastforce
  with True show ?thesis by (simp add: starts_with_def reader_depth assms)
next
  case False
  note trie = reader_trie [OF assms(1)]
  from walk_up_components [OF assms(1,2), of "depths t ! i - depths t ! j"] False
  obtain a where a: "a < length (nodes t)"
    "walk_up (par t) (depths t ! i - depths t ! j) (PathId i) = Some (PathId a)"
    "components t a = take (depths t ! j) (components t i)" by auto
  have "a = j \<longleftrightarrow> components t a = components t j"
    using path_of_inject [OF trie a(1) assms(3)] by simp
  also have "\<dots> \<longleftrightarrow> prefix (components t j) (components t i)"
    unfolding a(3) using length_path_of [OF trie assms(3)]
    by (metis append_eq_conv_conj prefix_def take_is_prefix)
  finally show ?thesis using False a(2) by (simp add: starts_with_def reader_depth assms)
qed

lemma ends_with_loop_eq:
  "ok t \<Longrightarrow> i < length (nodes t) \<Longrightarrow> k < length (nodes t) \<Longrightarrow> n \<le> depths t ! i \<Longrightarrow> n \<le> depths t ! k \<Longrightarrow>
   ends_with_loop (par t) (cmp t) n (PathId i) (PathId k) =
     Some (drop (depths t ! i - n) (components t i) = drop (depths t ! k - n) (components t k))"
proof (induction n arbitrary: i k)
  case 0
  then show ?case using length_path_of [OF reader_trie, of t] by simp
next
  case (Suc n)
  obtain d where d: "depths t ! i = Suc d" using Suc.prems(4) by (cases "depths t ! i") auto
  obtain e where e: "depths t ! k = Suc e" using Suc.prems(5) by (cases "depths t ! k") auto
  show ?case
  proof (rule reader_step [OF Suc.prems(1,2) d], rule reader_step [OF Suc.prems(1,3) e])
    fix j l
    assume j: "j < length (nodes t)" "par t (PathId i) = Some (Some (PathId j))" "depths t ! j = d"
        "cmp t (PathId i) = Some (Some (node_component (nodes t ! i)))"
        "components t i = components t j @ [node_component (nodes t ! i)]"
      and l: "l < length (nodes t)" "par t (PathId k) = Some (Some (PathId l))" "depths t ! l = e"
        "cmp t (PathId k) = Some (Some (node_component (nodes t ! k)))"
        "components t k = components t l @ [node_component (nodes t ! k)]"
    have len: "length (components t j) = d" "length (components t l) = e"
      using length_path_of [OF reader_trie, OF Suc.prems(1)] j(1,3) l(1,3) by simp_all
    have "n \<le> d" "n \<le> e" using Suc.prems(4,5) d e by simp_all
    with Suc.IH [OF Suc.prems(1) j(1) l(1)] j l len show ?thesis by (auto simp: d e)
  qed
qed

lemma ends_with_eq:
  assumes "ok t" "i < length (nodes t)" "j < length (nodes t)"
  shows "ends_with (par t) (cmp t) (dep t) (PathId i) (PathId j) = Some (suffix (components t j) (components t i))"
proof (cases "depths t ! i < depths t ! j")
  case True
  then have "\<not> suffix (components t j) (components t i)"
    using length_path_of [OF reader_trie, OF assms(1)] assms(2,3) suffix_length_le by fastforce
  with True show ?thesis by (simp add: ends_with_def reader_depth assms)
next
  case False
  note len = length_path_of [OF reader_trie, OF assms(1)]
  have "drop (depths t ! i - depths t ! j) (components t i) = components t j \<longleftrightarrow> suffix (components t j) (components t i)"
    using False len [OF assms(2)] len [OF assms(3)]
    by (metis append_take_drop_id diff_diff_cancel length_drop linorder_not_less suffixE suffix_drop
        append_eq_append_conv suffixI)
  with False show ?thesis by (simp add: ends_with_def reader_depth assms ends_with_loop_eq)
qed

lemma parent_component:
  assumes "ok t" "i < length (nodes t)"
  shows "par t (PathId i) = Some None \<longleftrightarrow> i = 0"
    and "\<And>p. par t (PathId i) = Some (Some p) \<Longrightarrow>
      path_index p < i \<and> components t (path_index p) = butlast (components t i)
      \<and> cmp t (PathId i) = Some (Some (last (components t i)))"
proof -
  note trie = reader_trie [OF assms(1)] and p = reader_parent [OF assms] and c = reader_component [OF assms]
  show "par t (PathId i) = Some None \<longleftrightarrow> i = 0"
  proof (cases "i = 0")
    case True
    then show ?thesis using p trie_okD(4) [OF trie] by simp
  next
    case False
    then have "0 < i" by simp
    then show ?thesis by (rule trie_parentE [OF trie _ assms(2)]) (simp add: p False)
  qed
  fix q assume q: "par t (PathId i) = Some (Some q)"
  then have i: "0 < i" using p trie_okD(4) [OF trie] by (cases i) auto
  show "path_index q < i \<and> components t (path_index q) = butlast (components t i)
      \<and> cmp t (PathId i) = Some (Some (last (components t i)))"
    by (rule trie_parentE [OF trie i assms(2)]) (use q p c i in auto)
qed

end

section \<open>Tables are readers\<close>

definition path_table_ok :: "path_table \<Rightarrow> bool" where
  "path_table_ok t \<longleftrightarrow>
     base_ok (shared_base t) \<and> length (local_depths t) = length (local_nodes t)
     \<and> trie_ok (table_nodes t) (table_depths t)"

lemma table_columns:
  assumes "base_ok (shared_base t)"
  shows "table_node t i = slice_get (table_nodes t) i" "depth_at t i = slice_get (table_depths t) i"
    "path_table_len t = length (table_nodes t)"
  using base_columns [OF assms]
  by (simp_all add: table_node_def depth_at_def path_table_len_def table_nodes_def table_depths_def slice_get_append)

interpretation table_reader: path_reader path_table_ok table_nodes table_depths table_parent table_component table_depth
proof
  fix t i
  assume "path_table_ok t"
  then have t: "base_ok (shared_base t)" "trie_ok (table_nodes t) (table_depths t)" by (simp_all add: path_table_ok_def)
  note c = table_columns [OF t(1)]
  show "trie_ok (table_nodes t) (table_depths t)" by (rule t)
  assume i: "i < length (table_nodes t)"
  show "table_parent t (PathId i) = Some (node_parent (table_nodes t ! i))"
    using i by (simp add: table_parent_def c slice_get_def)
  show "table_component t (PathId i) = Some (if i = 0 then None else Some (node_component (table_nodes t ! i)))"
    using i by (simp add: table_component_def c slice_get_def path_root_def)
  show "table_depth t (PathId i) = Some (table_depths t ! i)"
    using i trie_okD(1) [OF t(2)] by (simp add: table_depth_def c slice_get_def)
qed

lemma new_path_table_ok:
  "path_table_ok new_path_table"
  "table_nodes new_path_table = [\<lparr> node_parent = None, node_component = 0 \<rparr>]" "table_depths new_path_table = [0]"
proof -
  show n: "table_nodes new_path_table = [\<lparr> node_parent = None, node_component = 0 \<rparr>]" "table_depths new_path_table = [0]"
    by (simp_all add: new_path_table_def table_from_parts_def table_nodes_def table_depths_def base_from_parts_ok)
  have "base_ok (shared_base new_path_table)"
    by (simp add: new_path_table_def table_from_parts_def base_from_parts_ok)
  then show "path_table_ok new_path_table"
    unfolding path_table_ok_def n by (auto simp add: trie_ok_def new_path_table_def table_from_parts_def)
qed

lemma sealed_columns:
  assumes "base_ok (shared_base t)" "length (local_depths t) = length (local_nodes t)"
  shows "base_ok (shared_base (seal_shared_base t))"
    "table_nodes (seal_shared_base t) = table_nodes t" "table_depths (seal_shared_base t) = table_depths t"
    "local_nodes (seal_shared_base t) = []" "local_depths (seal_shared_base t) = []"
    "base_ok (snapshot_base t)" "flat_nodes (snapshot_base t) = table_nodes t"
    "flat_depths (snapshot_base t) = table_depths t"
  using assms
  by (auto simp: seal_shared_base_def snapshot_base_def table_nodes_def table_depths_def with_segment_ok)

section \<open>Renaming components\<close>

lemma traverse_map: "(\<And>x. x \<in> set xs \<Longrightarrow> f x = Some (g x)) \<Longrightarrow> traverse f xs = Some (map g xs)"
  unfolding traverse_def by (induction xs) simp_all

lemma those_eq_Some_length: "those ys = Some zs \<Longrightarrow> length zs = length ys"
  by (induction ys arbitrary: zs) (auto split: option.splits)

lemma fold_max_base: "n \<le> fold max xs (n :: nat)"
  by (induction xs arbitrary: n) (auto intro: order_trans [OF max.cobounded2])

lemma fold_max_ge: "x \<in> set xs \<Longrightarrow> x \<le> fold max xs (n :: nat)"
proof (induction xs arbitrary: n)
  case (Cons y ys)
  then show ?case using order_trans [OF max.cobounded1 fold_max_base] by (cases "x = y") auto
qed simp

definition rename_node :: "(string_id \<Rightarrow> string_id) \<Rightarrow> path_node \<Rightarrow> path_node" where
  "rename_node f n = n \<lparr> node_component := f (node_component n) \<rparr>"

lemma path_of_rename:
  assumes ok: "trie_ok ns ds" and i: "i < length ns"
  shows "path_of (map (rename_node f) ns) ds i = map f (path_of ns ds i)"
  using i
proof (induction i rule: less_induct)
  case (less i)
  show ?case
  proof (cases "i = 0")
    case False
    then have "0 < i" by simp
    then show ?thesis
    proof (rule trie_parentE [OF ok _ less.prems])
      fix j assume j: "j < i" "node_parent (ns ! i) = Some (PathId j)" "ds ! i = Suc (ds ! j)"
        "path_of ns ds i = path_of ns ds j @ [node_component (ns ! i)]"
      with less.IH [OF j(1)] less.prems show ?thesis by (simp add: path_of_def rename_node_def)
    qed
  qed (simp add: path_of_def trie_okD(5) [OF ok])
qed

lemma trie_rename:
  assumes ok: "trie_ok ns ds" and inj: "inj_on f (node_component ` set ns)"
  shows "trie_ok (map (rename_node f) ns) ds"
proof -
  have p: "node_parent (rename_node f n) = node_parent n" for n by (simp add: rename_node_def)
  have "node_component (rename_node f (ns ! i)) = node_component (rename_node f (ns ! k)) \<longleftrightarrow>
      node_component (ns ! i) = node_component (ns ! k)" if "i < length ns" "k < length ns" for i k
    using inj that by (auto simp: rename_node_def inj_on_def)
  with ok show ?thesis by (auto simp: trie_ok_def p)
qed

lemma remap_string_ids_map:
  assumes ok: "path_table_ok t"
    and total: "\<And>n. n \<in> set (table_nodes t) \<Longrightarrow> remap_get r (node_component n) = Some (f (node_component n))"
    and flag: "\<And>k k'. remap_is_identity r \<Longrightarrow> remap_get r k = Some k' \<Longrightarrow> k' = k"
  shows "\<exists>u. remap_string_ids r t = Some u \<and> base_ok (shared_base u)
    \<and> table_nodes u = map (rename_node f) (table_nodes t) \<and> table_depths u = table_depths t"
proof -
  let ?b = "shared_base t"
  have b: "base_ok ?b" and len: "length (local_depths t) = length (local_nodes t)"
    using ok by (simp_all add: path_table_ok_def)
  have node: "remap_node r n = Some (rename_node f n)" if "n \<in> set (table_nodes t)" for n
    using total [OF that] by (simp add: remap_node_def rename_node_def)
  have sub: "set (flat_nodes ?b) \<subseteq> set (table_nodes t)" "set (local_nodes t) \<subseteq> set (table_nodes t)"
    by (auto simp: table_nodes_def)
  have loc: "traverse (remap_node r) (local_nodes t) = Some (map (rename_node f) (local_nodes t))"
    using node sub(2) by (intro traverse_map) auto
  show ?thesis
  proof (cases "\<not> remap_is_identity r \<and> max_component_index ?b \<ge> identity_prefix_len r")
    case True
    have "traverse (remap_node r) (flat_nodes ?b) = Some (map (rename_node f) (flat_nodes ?b))"
      using node sub(1) by (intro traverse_map) auto
    with True loc show ?thesis
      by (simp add: remap_string_ids_def copy_into_flat table_nodes_def table_depths_def
          base_from_parts_ok base_columns(4) [OF b])
  next
    case False
    have "f (node_component n) = node_component n" if n: "n \<in> set (flat_nodes ?b)" for n
    proof (cases "remap_is_identity r")
      case True
      then show ?thesis using flag [OF True total] n sub(1) by auto
    next
      case not_flag: False
      have "component_index n \<le> max_component_index ?b"
        using b n fold_max_ge [of "component_index n"] by (simp add: base_ok_def)
      with not_flag False have "unat (node_component n) < identity_prefix_len r"
        by (simp add: component_index_def)
      then have "remap_get r (node_component n) = Some (node_component n)" by (simp add: remap_get_def)
      then show ?thesis using total n sub(1) by fastforce
    qed
    then have "map (rename_node f) (flat_nodes ?b) = flat_nodes ?b"
      by (intro map_idI) (simp add: rename_node_def)
    with False loc b show ?thesis by (auto simp: remap_string_ids_def table_nodes_def table_depths_def)
  qed
qed

section \<open>Properties\<close>

text \<open>Segmented path storage is exact: for a base built from one run of rows and any further
  segments, the lookup by last-segment shortcut and binary search returns the node and depth of the
  flat concatenation at every index, and nothing past its end.\<close>

theorem segmented_rows_exact:
  assumes "length ds = length ns"
    and "\<forall>s \<in> set extra. length (segment_depths s) = length (segment_nodes s)"
    and "b = fold (\<lambda>s b. with_segment b s) extra (base_from_parts ns ds)"
  shows "base_node b i = slice_get (ns @ concat (map segment_nodes extra)) i
    \<and> base_depth b i = slice_get (ds @ concat (map segment_depths extra)) i
    \<and> base_rows b = length (ns @ concat (map segment_nodes extra))"
proof -
  have "base_ok (fold (\<lambda>s b. with_segment b s) xs c)
      \<and> flat_nodes (fold (\<lambda>s b. with_segment b s) xs c) = flat_nodes c @ concat (map segment_nodes xs)
      \<and> flat_depths (fold (\<lambda>s b. with_segment b s) xs c) = flat_depths c @ concat (map segment_depths xs)"
    if "base_ok c" "\<forall>s \<in> set xs. length (segment_depths s) = length (segment_nodes s)" for xs c
    using that by (induction xs arbitrary: c) (simp_all add: with_segment_ok)
  from this [OF base_from_parts_ok(1) [OF assms(1)] assms(2)]
  show ?thesis by (simp add: assms(3) base_columns base_from_parts_ok)
qed

theorem segmented_rows_exact_witness:
  "base_depth (with_segment (with_segment (base_from_parts [\<lparr> node_parent = None, node_component = 0 \<rparr>] [0])
      \<lparr> segment_nodes = [\<lparr> node_parent = Some (PathId 0), node_component = 4 \<rparr>], segment_depths = [1] \<rparr>)
      \<lparr> segment_nodes = [\<lparr> node_parent = Some (PathId 1), node_component = 5 \<rparr>], segment_depths = [2] \<rparr>) 1 = Some 1"
  using segmented_rows_exact [of "[0]" "[\<lparr> node_parent = None, node_component = 0 \<rparr>]"
      "[\<lparr> segment_nodes = [\<lparr> node_parent = Some (PathId 0), node_component = 4 \<rparr>], segment_depths = [1] \<rparr>,
        \<lparr> segment_nodes = [\<lparr> node_parent = Some (PathId 1), node_component = 5 \<rparr>], segment_depths = [2] \<rparr>]" _ 1]
  by (simp add: slice_get_def)

text \<open>C29. Prefix and suffix tests on identities are the tests on component lists, component
  resolution returns exactly the components of the path, and two identities of a table are equal
  exactly when their component lists are; none of the walks panics on an identity of the table.\<close>

theorem path_queries_exact:
  assumes "path_table_ok t" "i < path_table_len t" "j < path_table_len t"
  shows "\<exists>p q. resolve_components dbg (table_parent t) (table_component t) (table_depth t) (PathId i) = Some p
    \<and> resolve_components dbg (table_parent t) (table_component t) (table_depth t) (PathId j) = Some q
    \<and> (p = q \<longleftrightarrow> i = j)
    \<and> table_depth t (PathId i) = Some (length p)
    \<and> starts_with (table_parent t) (table_depth t) (PathId i) (PathId j) = Some (prefix q p)
    \<and> ends_with (table_parent t) (table_component t) (table_depth t) (PathId i) (PathId j) = Some (suffix q p)"
proof -
  have b: "base_ok (shared_base t)" using assms(1) by (simp add: path_table_ok_def)
  have i: "i < length (table_nodes t)" and j: "j < length (table_nodes t)"
    using assms(2,3) by (simp_all add: table_columns(3) [OF b])
  note trie = table_reader.reader_trie [OF assms(1)]
  show ?thesis
    by (simp add: table_reader.resolve_components_eq [OF assms(1)] i j path_of_inject [OF trie]
        table_reader.starts_with_eq [OF assms(1)] table_reader.ends_with_eq [OF assms(1)]
        table_reader.reader_depth [OF assms(1)] length_path_of [OF trie])
qed

theorem path_queries_exact_witness:
  "starts_with (table_parent new_path_table) (table_depth new_path_table) (PathId 0) (PathId 0) = Some True"
proof -
  have b: "base_ok (shared_base new_path_table)" using new_path_table_ok(1) by (simp add: path_table_ok_def)
  show ?thesis
    using path_queries_exact [OF new_path_table_ok(1), of 0 0 True] by (auto simp: table_columns(3) [OF b] new_path_table_ok)
qed

text \<open>Rewriting a table through a merge's string remap renames the components of every path and
  changes nothing else, although the shared rows are skipped when no component of theirs can change:
  the remap has to cover the table's components, be injective on them, and have an exact flag.\<close>

theorem remap_string_ids_renames:
  assumes "path_table_ok t"
    and "\<forall>n \<in> set (table_nodes t). remap_get r (node_component n) = Some (f (node_component n))"
    and "inj_on f (node_component ` set (table_nodes t))"
    and "remap_is_identity r \<longrightarrow> (\<forall>k k'. remap_get r k = Some k' \<longrightarrow> k' = k)"
  shows "\<exists>u. remap_string_ids r t = Some u \<and> path_table_ok u \<and> path_table_len u = path_table_len t
    \<and> (\<forall>i < path_table_len t.
          resolve_components dbg (table_parent u) (table_component u) (table_depth u) (PathId i)
          = map_option (map f) (resolve_components dbg (table_parent t) (table_component t) (table_depth t) (PathId i)))"
proof -
  from assms(2,4) obtain u where u: "remap_string_ids r t = Some u" "base_ok (shared_base u)"
    "table_nodes u = map (rename_node f) (table_nodes t)" "table_depths u = table_depths t"
    using remap_string_ids_map [OF assms(1), of r f] by blast
  note trie = table_reader.reader_trie [OF assms(1)]
  have base: "base_ok (shared_base t)" using assms(1) by (simp add: path_table_ok_def)
  have trie': "trie_ok (table_nodes u) (table_depths u)"
    using trie_rename [OF trie assms(3)] by (simp add: u(3,4))
  have "length (local_depths u) = length (local_nodes u)"
    using u(1) assms(1) by (auto simp: remap_string_ids_def path_table_ok_def traverse_def those_eq_Some_length
        split: if_splits option.splits)
  with u trie' have ok: "path_table_ok u" by (simp add: path_table_ok_def)
  show ?thesis
    using u ok by (auto simp: table_columns(3) [OF base] table_columns(3) [OF u(2)] path_of_rename [OF trie]
        table_reader.resolve_components_eq [OF assms(1)] table_reader.resolve_components_eq [OF ok])
qed

theorem remap_string_ids_renames_witness:
  "\<exists>u. remap_string_ids \<lparr> identity_prefix_len = 0, mapped_suffix = [7], remap_is_identity = False \<rparr> new_path_table = Some u
     \<and> path_table_ok u"
  using remap_string_ids_renames [OF new_path_table_ok(1),
      of "\<lparr> identity_prefix_len = 0, mapped_suffix = [7], remap_is_identity = False \<rparr>" "\<lambda>_. 7" True]
  by (auto simp: new_path_table_ok remap_get_def slice_get_def)

end
