(* ===== verification/Path_Interner.thy ===== *)
theory Path_Interner
  imports Path_Table
begin

text \<open>
  The mutable path interners (\<open>symbols/path_interner/builder.rs\<close>, \<open>fork.rs\<close>, \<open>remap.rs\<close>): the build-wide
  builder, module-local forks over a shared prefix, interning of component, portable and filesystem
  paths, joins, and the merges that rewrite a worker's identities into another table.

  Builder and fork are records returned updated; a \<open>FxHashMap\<close> is an association list, newest entry
  first. The outer \<open>None\<close> is a panic, an inner \<open>None\<close> or \<open>Inl\<close> the reported failure. The loops that the
  source repeats in builder and fork are one definition here, over the child-interning operation
  \<open>put\<close> of either; the locale \<open>path_store\<close> states the contract of \<open>put\<close>. A filesystem path is the
  list of its components, \<open>None\<close> where a component is not UTF-8.
\<close>

section \<open>Data\<close>

type_synonym path_lookup = "((path_id \<times> string_id) \<times> path_id) list"

record path_id_remap =
  path_prefix_len :: nat
  mapped_paths :: "path_id list"
  path_is_identity :: bool

record path_interner_builder =
  builder_table :: path_table
  builder_layers :: "path_lookup list"
  builder_lookup :: path_lookup

record path_interner_base =
  interner_table :: path_table_base
  interner_layers :: "path_lookup list"

record path_interner_fork =
  fork_base :: path_interner_base
  inherited_len :: nat
  fork_nodes :: "path_node list"
  fork_depths :: "nat list"
  fork_lookup :: path_lookup

datatype path_intern_error =
    BaseMismatch nat nat nat
  | NonUtf8 "string option list"
  | TableFull

section \<open>Remaps\<close>

definition remap_from_full :: "path_id list \<Rightarrow> path_id_remap" where
  "remap_from_full mapped =
     \<lparr> path_prefix_len = 0, mapped_paths = mapped,
       path_is_identity = list_all (\<lambda>(index, path). path_index path = index) (enumerate 0 mapped) \<rparr>"

definition path_remap_get :: "path_id_remap \<Rightarrow> path_id \<Rightarrow> path_id option" where
  "path_remap_get r old =
     (if path_index old < path_prefix_len r then Some old
      else slice_get (mapped_paths r) (path_index old - path_prefix_len r))"

section \<open>Reverse lookup\<close>

primrec find_map :: "('a \<Rightarrow> 'b option) \<Rightarrow> 'a list \<Rightarrow> 'b option" where
  "find_map f [] = None"
| "find_map f (x # xs) = (case f x of Some y \<Rightarrow> Some y | None \<Rightarrow> find_map f xs)"

definition layers_child :: "path_lookup list \<Rightarrow> path_id \<times> string_id \<Rightarrow> path_id option" where
  "layers_child layers key = find_map (\<lambda>layer. map_of layer key) (rev layers)"

section \<open>The builder\<close>

definition new_builder :: path_interner_builder where
  "new_builder = \<lparr> builder_table = new_path_table, builder_layers = [], builder_lookup = [] \<rparr>"

definition seal_shared_prefix :: "path_interner_builder \<Rightarrow> path_interner_builder" where
  "seal_shared_prefix b =
     (let b = b \<lparr> builder_table := seal_shared_base (builder_table b) \<rparr> in
      if builder_lookup b \<noteq> []
      then b \<lparr> builder_layers := builder_layers b @ [builder_lookup b], builder_lookup := [] \<rparr>
      else b)"

definition fork_with_shared_prefix :: "path_interner_builder \<Rightarrow> path_interner_builder \<times> path_interner_builder" where
  "fork_with_shared_prefix b =
     (let b = seal_shared_prefix b in
      (\<lparr> builder_table = builder_table b, builder_layers = builder_layers b, builder_lookup = [] \<rparr>, b))"

definition builder_shared_table :: "path_interner_builder \<Rightarrow> path_table \<times> path_interner_builder" where
  "builder_shared_table b = (let b = seal_shared_prefix b in (builder_table b, b))"

definition builder_len :: "path_interner_builder \<Rightarrow> nat" where
  "builder_len b = path_table_len (builder_table b)"

definition builder_intern_child ::
  "path_id \<Rightarrow> string_id \<Rightarrow> path_interner_builder \<Rightarrow> (path_id option \<times> path_interner_builder) option" where
  "builder_intern_child parent component b =
     (let key = (parent, component) in
      case map_of (builder_lookup b) key of
        Some child \<Rightarrow> Some (Some child, b)
      | None \<Rightarrow>
          (case layers_child (builder_layers b) key of
             Some child \<Rightarrow> Some (Some child, b)
           | None \<Rightarrow>
               (case try_append_child parent component (builder_table b) of
                  None \<Rightarrow> None
                | Some (None, t) \<Rightarrow> Some (None, b \<lparr> builder_table := t \<rparr>)
                | Some (Some child, t) \<Rightarrow>
                    (case table_depth t child of
                       None \<Rightarrow> None
                     | Some _ \<Rightarrow> Some (Some child,
                         b \<lparr> builder_table := t, builder_lookup := (key, child) # builder_lookup b \<rparr>)))))"

definition builder_fork_source :: "path_interner_builder \<Rightarrow> path_interner_base" where
  "builder_fork_source b =
     \<lparr> interner_table = snapshot_base (builder_table b),
       interner_layers = builder_layers b @ (if builder_lookup b \<noteq> [] then [builder_lookup b] else []) \<rparr>"

definition builder_freeze :: "path_interner_builder \<Rightarrow> path_table" where
  "builder_freeze b = builder_table b"

section \<open>Forks\<close>

definition source_fork :: "path_interner_base \<Rightarrow> path_interner_fork" where
  "source_fork s =
     \<lparr> fork_base = s, inherited_len = base_rows (interner_table s), fork_nodes = [], fork_depths = [],
       fork_lookup = [] \<rparr>"

definition empty_fork :: path_interner_fork where
  "empty_fork = source_fork \<lparr> interner_table = shared_base new_path_table, interner_layers = [] \<rparr>"

definition fork_len :: "path_interner_fork \<Rightarrow> nat" where
  "fork_len f = inherited_len f + length (fork_nodes f)"

definition fork_contains :: "path_interner_fork \<Rightarrow> path_id \<Rightarrow> bool" where
  "fork_contains f path \<longleftrightarrow> path_index path < fork_len f"

definition fork_parent :: "path_interner_fork \<Rightarrow> path_id \<Rightarrow> path_id option option" where
  "fork_parent f path =
     (let index = path_index path in
      if index < inherited_len f
      then Some (case base_node (interner_table (fork_base f)) index of None \<Rightarrow> None | Some n \<Rightarrow> node_parent n)
      else map_option node_parent (slice_get (fork_nodes f) (index - inherited_len f)))"

definition fork_try_parent :: "path_interner_fork \<Rightarrow> path_id \<Rightarrow> path_id option" where
  "fork_try_parent f path =
     (let index = path_index path in
      case (if index < inherited_len f then base_node (interner_table (fork_base f)) index
            else slice_get (fork_nodes f) (index - inherited_len f)) of
        None \<Rightarrow> None
      | Some n \<Rightarrow> node_parent n)"

definition fork_component :: "path_interner_fork \<Rightarrow> path_id \<Rightarrow> string_id option option" where
  "fork_component f path =
     (if path = path_root then Some None
      else let index = path_index path in
        if index < inherited_len f
        then Some (map_option node_component (base_node (interner_table (fork_base f)) index))
        else map_option (\<lambda>n. Some (node_component n)) (slice_get (fork_nodes f) (index - inherited_len f)))"

definition fork_try_component :: "path_interner_fork \<Rightarrow> path_id \<Rightarrow> string_id option" where
  "fork_try_component f path =
     (if path = path_root then None
      else let index = path_index path in
        map_option node_component
          (if index < inherited_len f then base_node (interner_table (fork_base f)) index
           else slice_get (fork_nodes f) (index - inherited_len f)))"

definition fork_depth :: "path_interner_fork \<Rightarrow> path_id \<Rightarrow> nat option" where
  "fork_depth f path =
     (let index = path_index path in
      if index < inherited_len f then base_depth (interner_table (fork_base f)) index
      else slice_get (fork_depths f) (index - inherited_len f))"

definition fork_intern_child ::
  "path_id \<Rightarrow> string_id \<Rightarrow> path_interner_fork \<Rightarrow> (path_id option \<times> path_interner_fork) option" where
  "fork_intern_child parent component f =
     (case map_of (fork_lookup f) (parent, component) of
        Some child \<Rightarrow> Some (Some child, f)
      | None \<Rightarrow>
          (case layers_child (interner_layers (fork_base f)) (parent, component) of
             Some child \<Rightarrow> Some (Some child, f)
           | None \<Rightarrow>
               (case fork_depth f parent of
                  None \<Rightarrow> None
                | Some parent_depth \<Rightarrow>
                    if parent_depth + 1 > u32_max then Some (None, f)
                    else (case try_from_index (inherited_len f + length (fork_nodes f)) of
                            None \<Rightarrow> Some (None, f)
                          | Some child \<Rightarrow> Some (Some child,
                              f \<lparr> fork_nodes := fork_nodes f @ [\<lparr> node_parent = Some parent, node_component = component \<rparr>],
                                  fork_depths := fork_depths f @ [parent_depth + 1],
                                  fork_lookup := ((parent, component), child) # fork_lookup f \<rparr>)))))"

definition fork_fork_source :: "path_interner_fork \<Rightarrow> path_interner_base" where
  "fork_fork_source f =
     \<lparr> interner_table =
         (if fork_nodes f = [] then interner_table (fork_base f)
          else snapshot_with_suffix (interner_table (fork_base f)) (fork_nodes f) (fork_depths f)),
       interner_layers =
         interner_layers (fork_base f) @ (if fork_lookup f \<noteq> [] then [fork_lookup f] else []) \<rparr>"

definition fork_shared_table :: "path_interner_fork \<Rightarrow> path_table" where
  "fork_shared_table f = table_from_shared_parts (interner_table (fork_base f)) (fork_nodes f) (fork_depths f)"

definition fork_snapshot_table :: "path_interner_fork \<Rightarrow> path_table" where
  "fork_snapshot_table f =
     (let (nodes, depths) = copy_into (interner_table (fork_base f)) ([], [])
      in table_from_parts (nodes @ fork_nodes f) (depths @ fork_depths f))"

definition fork_path_builder :: "path_interner_fork \<Rightarrow> path_interner_builder" where
  "fork_path_builder f =
     \<lparr> builder_table = fork_shared_table f, builder_layers = interner_layers (fork_base f),
       builder_lookup = fork_lookup f \<rparr>"

section \<open>Interning whole paths\<close>

type_synonym 't child_op = "path_id \<Rightarrow> string_id \<Rightarrow> 't \<Rightarrow> (path_id option \<times> 't) option"

primrec intern_walk :: "'t child_op \<Rightarrow> string_id list \<Rightarrow> path_id \<Rightarrow> 't \<Rightarrow> (path_id option \<times> 't) option" where
  "intern_walk put [] path t = Some (Some path, t)"
| "intern_walk put (c # cs) path t =
     (case put path c t of
        None \<Rightarrow> None
      | Some (None, u) \<Rightarrow> Some (None, u)
      | Some (Some child, u) \<Rightarrow> intern_walk put cs child u)"

definition try_intern_components ::
  "string_id list \<Rightarrow> path_interner_fork \<Rightarrow> (path_id option \<times> path_interner_fork) option" where
  "try_intern_components components f = intern_walk fork_intern_child components path_root f"

definition try_join ::
  "bool \<Rightarrow> path_id \<Rightarrow> path_id \<Rightarrow> path_interner_fork \<Rightarrow> (path_id option \<times> path_interner_fork) option" where
  "try_join dbg prefix_path suffix_path f =
     (case resolve_components dbg (fork_parent f) (fork_component f) (fork_depth f) suffix_path of
        None \<Rightarrow> None
      | Some components \<Rightarrow> intern_walk fork_intern_child components prefix_path f)"

text \<open>The loops that intern each component's text before the component.\<close>

primrec intern_text_walk ::
  "'t child_op \<Rightarrow> path_intern_error \<Rightarrow> string option list \<Rightarrow> path_id \<Rightarrow> string_table \<Rightarrow> 't \<Rightarrow>
   ((path_intern_error, path_id) result \<times> string_table \<times> 't) option" where
  "intern_text_walk put non_utf8 [] path strs t = Some (Inr path, strs, t)"
| "intern_text_walk put non_utf8 (component # cs) path strs t =
     (case component of
        None \<Rightarrow> Some (Inl non_utf8, strs, t)
      | Some s \<Rightarrow>
          (case intern s strs of
             None \<Rightarrow> None
           | Some (component_id, strs) \<Rightarrow>
               (case put path component_id t of
                  None \<Rightarrow> None
                | Some (None, u) \<Rightarrow> Some (Inl TableFull, strs, u)
                | Some (Some child, u) \<Rightarrow> intern_text_walk put non_utf8 cs child strs u)))"

definition try_intern_filesystem_path ::
  "'t child_op \<Rightarrow> string option list \<Rightarrow> string_table \<Rightarrow> 't \<Rightarrow>
   ((path_intern_error, path_id) result \<times> string_table \<times> 't) option" where
  "try_intern_filesystem_path put components strs t =
     intern_text_walk put (NonUtf8 components) components path_root strs t"

text \<open>\<open>str::split\<close> on one character.\<close>

fun split_char :: "char \<Rightarrow> string \<Rightarrow> string list" where
  "split_char c [] = [[]]"
| "split_char c (x # xs) =
     (if x = c then [] # split_char c xs
      else case split_char c xs of [] \<Rightarrow> [[x]] | y # ys \<Rightarrow> (x # y) # ys)"

definition try_intern_portable_path ::
  "'t child_op \<Rightarrow> string \<Rightarrow> string_table \<Rightarrow> 't \<Rightarrow>
   ((path_intern_error, path_id) result \<times> string_table \<times> 't) option" where
  "try_intern_portable_path put spelling strs t =
     (if spelling = [] then Some (Inr path_root, strs, t)
      else intern_text_walk put TableFull (map Some (split_char (CHR ''/'') spelling)) path_root strs t)"

section \<open>Merging deltas\<close>

definition agree_rows ::
  "('t \<Rightarrow> path_id \<Rightarrow> path_id option) \<Rightarrow> ('t \<Rightarrow> path_id \<Rightarrow> string_id option) \<Rightarrow> ('t \<Rightarrow> path_id \<Rightarrow> nat option) \<Rightarrow>
   't \<Rightarrow> path_interner_fork \<Rightarrow> nat \<Rightarrow> bool" where
  "agree_rows tp tc td t delta prefix_len =
     list_all (\<lambda>index. case try_from_index index of
          None \<Rightarrow> False
        | Some expected \<Rightarrow>
            tp t expected = fork_try_parent delta expected
            \<and> tc t expected = fork_try_component delta expected
            \<and> td t expected = fork_depth delta expected) [0..<prefix_len]"

definition ordered_delta :: "path_interner_fork \<Rightarrow> nat \<Rightarrow> bool" where
  "ordered_delta delta prefix_len =
     list_all (\<lambda>offset. case node_parent (fork_nodes delta ! offset) of
          None \<Rightarrow> False
        | Some parent \<Rightarrow> \<not> (path_index parent \<ge> prefix_len \<and> path_index parent - prefix_len \<ge> offset))
       [0..<length (fork_nodes delta)]"

primrec merge_rows ::
  "'t child_op \<Rightarrow> ('t \<Rightarrow> nat) \<Rightarrow> nat \<Rightarrow> nat \<Rightarrow> string_id_remap \<Rightarrow> path_node list \<Rightarrow> path_id list \<Rightarrow> bool \<Rightarrow> 't \<Rightarrow>
   ((path_intern_error, path_id_remap) result \<times> 't) option" where
  "merge_rows put len prefix_len delta_len string_remap [] mapped is_identity t =
     Some (Inr \<lparr> path_prefix_len = prefix_len, mapped_paths = mapped, path_is_identity = is_identity \<rparr>, t)"
| "merge_rows put len prefix_len delta_len string_remap (node # nodes) mapped is_identity t =
     (let offset = length mapped; mismatch = BaseMismatch prefix_len (len t) delta_len in
      case node_parent node of
        None \<Rightarrow> Some (Inl mismatch, t)
      | Some parent \<Rightarrow>
          (case (if path_index parent < prefix_len then Inr parent
                 else let parent_offset = path_index parent - prefix_len in
                   if parent_offset \<ge> offset then Inl mismatch
                   else ok_or (slice_get mapped parent_offset) mismatch) of
             Inl e \<Rightarrow> Some (Inl e, t)
           | Inr remapped_parent \<Rightarrow>
               (case remap_get string_remap (node_component node) of
                  None \<Rightarrow> None
                | Some remapped_component \<Rightarrow>
                    (case put remapped_parent remapped_component t of
                       None \<Rightarrow> None
                     | Some (None, u) \<Rightarrow> Some (Inl TableFull, u)
                     | Some (Some merged, u) \<Rightarrow>
                         merge_rows put len prefix_len delta_len string_remap nodes (mapped @ [merged])
                           (if path_index merged \<noteq> prefix_len + offset then False else is_identity) u))))"

definition merge_delta ::
  "'t child_op \<Rightarrow> ('t \<Rightarrow> nat) \<Rightarrow> ('t \<Rightarrow> path_id \<Rightarrow> path_id option) \<Rightarrow> ('t \<Rightarrow> path_id \<Rightarrow> string_id option) \<Rightarrow>
   ('t \<Rightarrow> path_id \<Rightarrow> nat option) \<Rightarrow> path_interner_fork \<Rightarrow> string_id_remap \<Rightarrow> 't \<Rightarrow>
   ((path_intern_error, path_id_remap) result \<times> 't) option" where
  "merge_delta put len tp tc td delta string_remap t =
     (let prefix_len = inherited_len delta;
          mismatch = BaseMismatch prefix_len (len t) (fork_len delta)
      in if prefix_len > len t \<or> prefix_len > fork_len delta then Some (Inl mismatch, t)
         else if \<not> agree_rows tp tc td t delta prefix_len then Some (Inl mismatch, t)
         else if \<not> ordered_delta delta prefix_len then Some (Inl mismatch, t)
         else merge_rows put len prefix_len (fork_len delta) string_remap (fork_nodes delta) [] True t)"

definition builder_merge_delta_from ::
  "path_interner_fork \<Rightarrow> string_id_remap \<Rightarrow> path_interner_builder \<Rightarrow>
   ((path_intern_error, path_id_remap) result \<times> path_interner_builder) option" where
  "builder_merge_delta_from delta string_remap b =
     merge_delta builder_intern_child builder_len
       (\<lambda>b. table_try_parent (builder_table b)) (\<lambda>b. table_try_component (builder_table b))
       (\<lambda>b. table_try_depth (builder_table b)) delta string_remap b"

definition fork_merge_delta_from ::
  "path_interner_fork \<Rightarrow> string_id_remap \<Rightarrow> path_interner_fork \<Rightarrow>
   ((path_intern_error, path_id_remap) result \<times> path_interner_fork) option" where
  "fork_merge_delta_from delta string_remap f =
     merge_delta fork_intern_child fork_len fork_try_parent fork_try_component fork_depth delta string_remap f"

section \<open>Merging whole tables\<close>

text \<open>\<open>merge_snapshot\<close>: an append-only merge of a flat snapshot of the same string domain.\<close>

primrec merge_snapshot_rows ::
  "path_table \<Rightarrow> nat \<Rightarrow> nat list \<Rightarrow> path_id list \<Rightarrow> path_interner_builder \<Rightarrow>
   ((path_intern_error, path_id list) result \<times> path_interner_builder) option" where
  "merge_snapshot_rows snapshot prefix_len [] mapped b = Some (Inr mapped, b)"
| "merge_snapshot_rows snapshot prefix_len (index # rest) mapped b =
     (case try_from_index index of
        None \<Rightarrow> None
      | Some path \<Rightarrow>
          (case (table_try_parent snapshot path, table_try_component snapshot path) of
             (Some parent, Some component) \<Rightarrow>
               if path_index parent \<ge> index then None
               else
                 (case (if path_index parent < prefix_len then Some parent
                        else slice_get mapped (path_index parent - prefix_len)) of
                    None \<Rightarrow> None
                  | Some mapped_parent \<Rightarrow>
                      (case builder_intern_child mapped_parent component b of
                         None \<Rightarrow> None
                       | Some (None, u) \<Rightarrow> Some (Inl TableFull, u)
                       | Some (Some m, u) \<Rightarrow> merge_snapshot_rows snapshot prefix_len rest (mapped @ [m]) u))
           | _ \<Rightarrow> None))"

definition snapshot_disagrees :: "path_table \<Rightarrow> path_table \<Rightarrow> nat \<Rightarrow> bool" where
  "snapshot_disagrees t snapshot index \<longleftrightarrow>
     table_try_parent t (PathId index) \<noteq> table_try_parent snapshot (PathId index)
     \<or> table_try_component t (PathId index) \<noteq> table_try_component snapshot (PathId index)"

definition merge_snapshot ::
  "path_table \<Rightarrow> path_interner_builder \<Rightarrow>
   ((path_intern_error, path_id_remap) result \<times> path_interner_builder) option" where
  "merge_snapshot snapshot b =
     (let snapshot_len = path_table_len snapshot;
          shared_len = min snapshot_len (builder_len b);
          prefix_len = (case find (snapshot_disagrees (builder_table b) snapshot) [0..<shared_len] of
                          Some index \<Rightarrow> index | None \<Rightarrow> shared_len)
      in case merge_snapshot_rows snapshot prefix_len [prefix_len..<snapshot_len] [] b of
           None \<Rightarrow> None
         | Some (Inl e, u) \<Rightarrow> Some (Inl e, u)
         | Some (Inr mapped, u) \<Rightarrow>
             Some (Inr \<lparr> path_prefix_len = prefix_len, mapped_paths = mapped,
                         path_is_identity = list_all (\<lambda>(offset, m). path_index m = prefix_len + offset)
                           (enumerate 0 mapped) \<rparr>, u))"

text \<open>\<open>remap_table_from_strings\<close>: re-interns a foreign table through its own strings.\<close>

primrec remap_rows ::
  "path_table \<Rightarrow> (string_id \<Rightarrow> string option) \<Rightarrow> nat list \<Rightarrow> path_id list \<Rightarrow> string_table \<Rightarrow> path_interner_fork \<Rightarrow>
   (path_id list option \<times> string_table \<times> path_interner_fork) option" where
  "remap_rows source_table res [] mapped strs f = Some (Some mapped, strs, f)"
| "remap_rows source_table res (index # rest) mapped strs f =
     (case try_from_index index of
        None \<Rightarrow> Some (None, strs, f)
      | Some old \<Rightarrow>
          if old = path_root then remap_rows source_table res rest (mapped @ [path_root]) strs f
          else case table_try_parent source_table old of
            None \<Rightarrow> Some (None, strs, f)
          | Some parent \<Rightarrow>
              (case slice_get mapped (path_index parent) of
                 None \<Rightarrow> Some (None, strs, f)
               | Some remapped_parent \<Rightarrow>
                   (case table_try_component source_table old of
                      None \<Rightarrow> Some (None, strs, f)
                    | Some component \<Rightarrow>
                        (case res component of
                           None \<Rightarrow> Some (None, strs, f)
                         | Some s \<Rightarrow>
                             (case intern s strs of
                                None \<Rightarrow> None
                              | Some (c, strs) \<Rightarrow>
                                  (case fork_intern_child remapped_parent c f of
                                     None \<Rightarrow> None
                                   | Some (None, g) \<Rightarrow> Some (None, strs, g)
                                   | Some (Some remapped, g) \<Rightarrow>
                                       remap_rows source_table res rest (mapped @ [remapped]) strs g))))))"

definition remap_table_from_strings ::
  "path_table \<Rightarrow> (string_id \<Rightarrow> string option) \<Rightarrow> string_table \<Rightarrow> path_interner_fork \<Rightarrow>
   (path_id_remap option \<times> string_table \<times> path_interner_fork) option" where
  "remap_table_from_strings source_table res strs f =
     map_option (\<lambda>(mapped, strs, f). (map_option remap_from_full mapped, strs, f))
       (remap_rows source_table res [0..<path_table_len source_table] [] strs f)"

section \<open>The contract of child interning\<close>

text \<open>
  \<open>put\<close> returns the one child with the given parent and component when there is one, and appends it
  otherwise, unless every compact name is taken.
\<close>

locale path_store = path_reader ok nodes depths par cmp dep
  for ok :: "'t \<Rightarrow> bool" and nodes :: "'t \<Rightarrow> path_node list" and depths :: "'t \<Rightarrow> nat list"
    and par :: "'t \<Rightarrow> parent_of" and cmp :: "'t \<Rightarrow> component_of" and dep :: "'t \<Rightarrow> depth_of" +
  fixes put :: "'t child_op"
  assumes put_existing: "ok t \<Longrightarrow> 0 < i \<Longrightarrow> i < length (nodes t) \<Longrightarrow> node_parent (nodes t ! i) = Some q \<Longrightarrow>
      node_component (nodes t ! i) = c \<Longrightarrow> put q c t = Some (Some (PathId i), t)"
    and put_new: "ok t \<Longrightarrow> p < length (nodes t) \<Longrightarrow> length (nodes t) < u32_max \<Longrightarrow>
      (\<And>i. 0 < i \<Longrightarrow> i < length (nodes t) \<Longrightarrow>
         \<not> (node_parent (nodes t ! i) = Some (PathId p) \<and> node_component (nodes t ! i) = c)) \<Longrightarrow>
      \<exists>u. put (PathId p) c t = Some (Some (PathId (length (nodes t))), u) \<and> ok u
        \<and> nodes u = nodes t @ [\<lparr> node_parent = Some (PathId p), node_component = c \<rparr>]
        \<and> depths u = depths t @ [Suc (depths t ! p)]"
    and put_full: "ok t \<Longrightarrow> p < length (nodes t) \<Longrightarrow> length (nodes t) = u32_max \<Longrightarrow>
      (\<And>i. 0 < i \<Longrightarrow> i < length (nodes t) \<Longrightarrow>
         \<not> (node_parent (nodes t ! i) = Some (PathId p) \<and> node_component (nodes t ! i) = c)) \<Longrightarrow>
      put (PathId p) c t = Some (None, t)"
begin

definition grows :: "'t \<Rightarrow> 't \<Rightarrow> bool" where
  "grows t u \<longleftrightarrow> prefix (nodes t) (nodes u) \<and> prefix (depths t) (depths u)"

lemma grows_refl: "grows t t" by (simp add: grows_def)

lemma grows_trans: "grows t u \<Longrightarrow> grows u v \<Longrightarrow> grows t v"
  by (auto simp: grows_def intro: prefix_order.trans)

lemma grows_length: "grows t u \<Longrightarrow> length (nodes t) \<le> length (nodes u)"
  by (simp add: grows_def prefix_length_le)

lemma components_stable: "ok t \<Longrightarrow> grows t u \<Longrightarrow> i < length (nodes t) \<Longrightarrow> components u i = components t i"
  by (auto simp: grows_def prefix_def path_of_append [OF reader_trie])

lemma put_cases:
  assumes t: "ok t" and p: "p < length (nodes t)"
  shows "put (PathId p) c t = Some (None, t) \<and> length (nodes t) = u32_max
    \<or> (\<exists>i u. put (PathId p) c t = Some (Some (PathId i), u) \<and> ok u \<and> grows t u \<and> i < length (nodes u)
        \<and> components u i = components t p @ [c] \<and> length (nodes u) \<le> Suc (length (nodes t)))"
proof (cases "\<exists>i. 0 < i \<and> i < length (nodes t) \<and> node_parent (nodes t ! i) = Some (PathId p)
    \<and> node_component (nodes t ! i) = c")
  case True
  then obtain i where i: "0 < i" "i < length (nodes t)" "node_parent (nodes t ! i) = Some (PathId p)"
    "node_component (nodes t ! i) = c" by blast
  have "components t i = components t p @ [c]"
    by (rule trie_parentE [OF reader_trie [OF t] i(1,2)]) (use i in auto)
  with put_existing [OF t i] t i(2) grows_refl show ?thesis by auto
next
  case False
  note trie = reader_trie [OF t]
  show ?thesis
  proof (cases "length (nodes t) < u32_max")
    case True
    with put_new [OF t p, of c] False obtain u where u: "ok u"
      "put (PathId p) c t = Some (Some (PathId (length (nodes t))), u)"
      "nodes u = nodes t @ [\<lparr> node_parent = Some (PathId p), node_component = c \<rparr>]"
      "depths u = depths t @ [Suc (depths t ! p)]" by blast
    have g: "grows t u" by (simp add: grows_def u)
    have new: "depths u ! length (nodes t) = Suc (depths t ! p)"
      "nodes u ! length (nodes t) = \<lparr> node_parent = Some (PathId p), node_component = c \<rparr>"
      using trie_okD(1) [OF trie] by (simp_all add: u nth_append)
    have "depths u ! p = depths t ! p" using p trie_okD(1) [OF trie] by (simp add: u(4) nth_append)
    then have "components u (length (nodes t)) = components u p @ [c]"
      by (simp add: path_of_def new)
    with u g components_stable [OF t g p] show ?thesis by auto
  next
    case full: False
    then have "length (nodes t) = u32_max" using trie_okD(3) [OF trie] by simp
    with put_full [OF t p _, of c] False show ?thesis by blast
  qed
qed

text \<open>A walk either names the extended path or stops on a full table.\<close>

definition walked :: "'t \<Rightarrow> 't \<Rightarrow> string_id list \<Rightarrow> path_id option \<Rightarrow> bool" where
  "walked t u path r \<longleftrightarrow> ok u \<and> grows t u \<and>
     (case r of
        None \<Rightarrow> length (nodes u) = u32_max
      | Some q \<Rightarrow> path_index q < length (nodes u) \<and> components u (path_index q) = path)"

lemma intern_walk_ok:
  "ok t \<Longrightarrow> p < length (nodes t) \<Longrightarrow>
   \<exists>r u. intern_walk put cs (PathId p) t = Some (r, u) \<and> walked t u (components t p @ cs) r
     \<and> length (nodes u) \<le> length (nodes t) + length cs"
proof (induction cs arbitrary: p t)
  case Nil
  then show ?case by (simp add: walked_def grows_refl)
next
  case (Cons c cs)
  from put_cases [OF Cons.prems, of c] show ?case
  proof (elim disjE exE conjE)
    assume "put (PathId p) c t = Some (None, t)" "length (nodes t) = u32_max"
    then show ?thesis using Cons.prems(1) by (simp add: walked_def grows_refl)
  next
    fix i u
    assume i: "put (PathId p) c t = Some (Some (PathId i), u)" "ok u" "grows t u" "i < length (nodes u)"
      "components u i = components t p @ [c]" "length (nodes u) \<le> Suc (length (nodes t))"
    from Cons.IH [OF i(2,4)] obtain r v where v: "intern_walk put cs (PathId i) u = Some (r, v)"
      "walked u v (components u i @ cs) r" "length (nodes v) \<le> length (nodes u) + length cs" by blast
    have "walked t v (components t p @ c # cs) r"
      using v(2) grows_trans [OF i(3)] by (simp add: walked_def i(5))
    with i(1,6) v(1,3) show ?thesis by simp
  qed
qed

lemma intern_walk_fits:
  assumes "ok t" "p < length (nodes t)" "length (nodes t) + length cs < u32_max"
  shows "\<exists>q u. intern_walk put cs (PathId p) t = Some (Some q, u) \<and> walked t u (components t p @ cs) (Some q)"
  using intern_walk_ok [OF assms(1,2), of cs] assms(3) by (auto simp: walked_def split: option.splits)

text \<open>Interning the texts of the components first.\<close>

lemma intern_text_walk_ok:
  "ok t \<Longrightarrow> p < length (nodes t) \<Longrightarrow> strings_ok strs \<Longrightarrow>
   length (all_strings strs) + length cs \<le> u32_max \<Longrightarrow>
   \<exists>r strs' u. intern_text_walk put e cs (PathId p) strs t = Some (r, strs', u)
     \<and> ok u \<and> grows t u \<and> strings_ok strs' \<and> strings_grow strs strs'
     \<and> length (nodes u) \<le> length (nodes t) + length cs
     \<and> (case r of
          Inl err \<Rightarrow> err = e \<and> None \<in> set cs \<or> err = TableFull \<and> length (nodes u) = u32_max
        | Inr q \<Rightarrow> path_index q < length (nodes u) \<and>
            (\<exists>ids. components u (path_index q) = components t p @ ids \<and> map (\<lambda>k. try_resolve k strs') ids = cs))"
proof (induction cs arbitrary: p t strs)
  case Nil
  then show ?case by (auto simp: grows_refl strings_grow_def)
next
  case (Cons c cs)
  show ?case
  proof (cases c)
    case None
    with Cons.prems show ?thesis by (auto simp: grows_refl strings_grow_def)
  next
    case (Some s)
    obtain k strs1 where k: "intern s strs = Some (k, strs1)"
      using intern_defined [OF Cons.prems(3), of s] Cons.prems(4) by auto
    note i = intern_Some [OF Cons.prems(3) k]
    from put_cases [OF Cons.prems(1,2), of k] show ?thesis
    proof (elim disjE exE conjE)
      assume "put (PathId p) k t = Some (None, t)" "length (nodes t) = u32_max"
      then show ?thesis using Cons.prems(1) i by (auto simp: Some k grows_refl)
    next
      fix j u
      assume j: "put (PathId p) k t = Some (Some (PathId j), u)" "ok u" "grows t u" "j < length (nodes u)"
        "components u j = components t p @ [k]" "length (nodes u) \<le> Suc (length (nodes t))"
      have room: "length (all_strings strs1) + length cs \<le> u32_max"
        using Cons.prems(4) by (simp add: i(6))
      from Cons.IH [OF j(2,4) i(1) room] obtain r strs2 v where v:
        "intern_text_walk put e cs (PathId j) strs1 u = Some (r, strs2, v)"
        "ok v" "grows u v" "strings_ok strs2" "strings_grow strs1 strs2"
        "length (nodes v) \<le> length (nodes u) + length cs"
        and res: "case r of
          Inl err \<Rightarrow> err = e \<and> None \<in> set cs \<or> err = TableFull \<and> length (nodes v) = u32_max
        | Inr q \<Rightarrow> path_index q < length (nodes v) \<and>
            (\<exists>ids. components v (path_index q) = components u j @ ids \<and> map (\<lambda>k. try_resolve k strs2) ids = cs)"
        by blast
      have resolved: "try_resolve k strs2 = Some s" using try_resolve_stable [OF v(5) i(3)] .
      have "case r of
          Inl err \<Rightarrow> err = e \<and> None \<in> set (c # cs) \<or> err = TableFull \<and> length (nodes v) = u32_max
        | Inr q \<Rightarrow> path_index q < length (nodes v) \<and>
            (\<exists>ids. components v (path_index q) = components t p @ ids \<and> map (\<lambda>k. try_resolve k strs2) ids = c # cs)"
      proof (cases r)
        case (Inr q)
        from res obtain ids where "path_index q < length (nodes v)" "components v (path_index q) = components u j @ ids"
          "map (\<lambda>k. try_resolve k strs2) ids = cs" by (auto simp: Inr)
        then have "path_index q < length (nodes v) \<and> components v (path_index q) = components t p @ (k # ids)
            \<and> map (\<lambda>k. try_resolve k strs2) (k # ids) = c # cs" by (simp add: j(5) resolved Some)
        then show ?thesis unfolding Inr by auto
      qed (use res in auto)
      moreover have "grows t v" "strings_grow strs strs2"
        using grows_trans [OF j(3) v(3)] string_store.grows_trans [OF i(2) v(5)] .
      ultimately show ?thesis using v j(1,6) by (auto simp: Some k)
    qed
  qed
qed

text \<open>Walking an interned path again finds it.\<close>

lemma put_found:
  assumes t: "ok t" and p: "p < length (nodes t)" and i: "i < length (nodes t)"
    and path: "components t i = components t p @ [c]"
  shows "put (PathId p) c t = Some (Some (PathId i), t)"
proof -
  note trie = reader_trie [OF t]
  have "0 < i" using path path_of_root [OF trie] by (cases i) auto
  then show ?thesis
  proof (rule trie_parentE [OF trie _ i])
    fix j assume j: "j < i" "node_parent (nodes t ! i) = Some (PathId j)"
      "components t i = components t j @ [node_component (nodes t ! i)]"
    with path have "components t j = components t p" "node_component (nodes t ! i) = c" by simp_all
    moreover from this have "j = p" using path_of_inject [OF trie, of j p] j(1) i p by simp
    ultimately show ?thesis using put_existing [OF t \<open>0 < i\<close> i] j(2) by simp
  qed
qed

lemma intern_walk_found:
  "ok t \<Longrightarrow> p < length (nodes t) \<Longrightarrow> i < length (nodes t) \<Longrightarrow> components t i = components t p @ cs \<Longrightarrow>
   intern_walk put cs (PathId p) t = Some (Some (PathId i), t)"
proof (induction cs arbitrary: p)
  case Nil
  then show ?case using path_of_inject [OF reader_trie, of t i p] by simp
next
  case (Cons c cs)
  note len = length_path_of [OF reader_trie, OF Cons.prems(1)]
  let ?n = "Suc (length (components t p))"
  have "?n \<le> depths t ! i" using Cons.prems(4) len [OF Cons.prems(3)] by simp
  then obtain a where a: "a < length (nodes t)" "components t a = take ?n (components t i)"
    using walk_up_components [OF Cons.prems(1,3), of "depths t ! i - ?n"] by auto
  then have "components t a = components t p @ [c]" by (simp add: Cons.prems(4))
  with put_found [OF Cons.prems(1,2) a(1)] Cons.IH [OF Cons.prems(1) a(1) Cons.prems(3)] Cons.prems(4)
  show ?case by simp
qed

end

section \<open>Builder and fork satisfy the contract\<close>

text \<open>The reverse-lookup layers hold exactly the children of the rows.\<close>

definition children_ok :: "path_node list \<Rightarrow> path_lookup list \<Rightarrow> bool" where
  "children_ok ns layers \<longleftrightarrow>
     (\<forall>p c q. layers_child layers (p, c) = Some q \<longleftrightarrow>
        (\<exists>i. q = PathId i \<and> 0 < i \<and> i < length ns \<and> node_parent (ns ! i) = Some p \<and> node_component (ns ! i) = c))"

lemma layers_child_snoc:
  "layers_child (ls @ [l]) key = (case map_of l key of Some q \<Rightarrow> Some q | None \<Rightarrow> layers_child ls key)"
  by (simp add: layers_child_def split: option.split)

lemma layers_child_empty_layer [simp]: "layers_child (ls @ [[]]) key = layers_child ls key"
  by (simp add: layers_child_snoc)

lemma children_okD:
  assumes "children_ok ns layers" "layers_child layers (p, c) = None" "0 < i" "i < length ns"
  shows "\<not> (node_parent (ns ! i) = Some p \<and> node_component (ns ! i) = c)"
  using assms unfolding children_ok_def by (metis option.distinct(1))

lemma children_ok_existing:
  assumes "children_ok ns layers" "0 < i" "i < length ns" "node_parent (ns ! i) = Some p" "node_component (ns ! i) = c"
  shows "layers_child layers (p, c) = Some (PathId i)"
  using assms unfolding children_ok_def by metis

lemma children_ok_fresh:
  assumes "children_ok ns layers"
    and "\<And>i. 0 < i \<Longrightarrow> i < length ns \<Longrightarrow> \<not> (node_parent (ns ! i) = Some p \<and> node_component (ns ! i) = c)"
  shows "layers_child layers (p, c) = None"
  using assms unfolding children_ok_def by (metis not_None_eq)

lemma children_ok_snoc:
  assumes ok: "children_ok ns (ls @ [l])" and ne: "ns \<noteq> []" and fresh: "layers_child (ls @ [l]) (p, c) = None"
  shows "children_ok (ns @ [\<lparr> node_parent = Some p, node_component = c \<rparr>])
    (ls @ [((p, c), PathId (length ns)) # l])"
  unfolding children_ok_def
proof (intro allI)
  fix p' c' q
  let ?ns = "ns @ [\<lparr> node_parent = Some p, node_component = c \<rparr>]"
  have old: "layers_child (ls @ [l]) (p', c') = Some q \<longleftrightarrow>
      (\<exists>i. q = PathId i \<and> 0 < i \<and> i < length ns \<and> node_parent (?ns ! i) = Some p' \<and> node_component (?ns ! i) = c')"
    using ok by (auto simp: children_ok_def nth_append)
  have split: "(\<exists>i. q = PathId i \<and> 0 < i \<and> i < length ?ns \<and> node_parent (?ns ! i) = Some p' \<and> node_component (?ns ! i) = c')
      \<longleftrightarrow> layers_child (ls @ [l]) (p', c') = Some q \<or> q = PathId (length ns) \<and> p' = p \<and> c' = c"
    unfolding old using ne by (auto simp: less_Suc_eq)
  show "layers_child (ls @ [((p, c), PathId (length ns)) # l]) (p', c') = Some q \<longleftrightarrow>
      (\<exists>i. q = PathId i \<and> 0 < i \<and> i < length ?ns \<and> node_parent (?ns ! i) = Some p' \<and> node_component (?ns ! i) = c')"
    unfolding split using fresh by (auto simp: layers_child_snoc split: option.splits if_splits)
qed

lemma try_append_child_eq:
  assumes t: "path_table_ok t" and p: "p < length (table_nodes t)"
  shows "length (table_nodes t) = u32_max \<Longrightarrow> try_append_child (PathId p) c t = Some (None, t)"
    and "length (table_nodes t) < u32_max \<Longrightarrow>
      (\<And>i. 0 < i \<Longrightarrow> i < length (table_nodes t) \<Longrightarrow>
         \<not> (node_parent (table_nodes t ! i) = Some (PathId p) \<and> node_component (table_nodes t ! i) = c)) \<Longrightarrow>
      \<exists>u. try_append_child (PathId p) c t = Some (Some (PathId (length (table_nodes t))), u) \<and> path_table_ok u
        \<and> table_nodes u = table_nodes t @ [\<lparr> node_parent = Some (PathId p), node_component = c \<rparr>]
        \<and> table_depths u = table_depths t @ [Suc (table_depths t ! p)]"
proof -
  have b: "base_ok (shared_base t)" "length (local_depths t) = length (local_nodes t)"
    using t by (simp_all add: path_table_ok_def)
  note trie = table_reader.reader_trie [OF t]
  have len: "path_table_len t = length (table_nodes t)" by (rule table_columns(3) [OF b(1)])
  have d: "table_depth t (PathId p) = Some (table_depths t ! p)" "table_depths t ! p + 1 \<le> u32_max"
    using table_reader.reader_depth [OF t p] trie_depth_le [OF trie p] p trie_okD(3) [OF trie] by simp_all
  show "length (table_nodes t) = u32_max \<Longrightarrow> try_append_child (PathId p) c t = Some (None, t)"
    by (simp add: try_append_child_def len try_from_index_def)
  assume room: "length (table_nodes t) < u32_max"
    and fresh: "\<And>i. 0 < i \<Longrightarrow> i < length (table_nodes t) \<Longrightarrow>
         \<not> (node_parent (table_nodes t ! i) = Some (PathId p) \<and> node_component (table_nodes t ! i) = c)"
  let ?u = "t \<lparr> local_nodes := local_nodes t @ [\<lparr> node_parent = Some (PathId p), node_component = c \<rparr>],
                 local_depths := local_depths t @ [Suc (table_depths t ! p)] \<rparr>"
  have "try_append_child (PathId p) c t = Some (Some (PathId (length (table_nodes t))), ?u)"
    using room d by (simp add: try_append_child_def len try_from_index_def)
  moreover have cols: "table_nodes ?u = table_nodes t @ [\<lparr> node_parent = Some (PathId p), node_component = c \<rparr>]"
    "table_depths ?u = table_depths t @ [Suc (table_depths t ! p)]"
    by (simp_all add: table_nodes_def table_depths_def)
  moreover have "path_table_ok ?u"
    using trie_snoc [OF trie room p, of c] fresh b by (simp add: path_table_ok_def cols [simplified])
  ultimately show "\<exists>u. try_append_child (PathId p) c t = Some (Some (PathId (length (table_nodes t))), u) \<and> path_table_ok u
        \<and> table_nodes u = table_nodes t @ [\<lparr> node_parent = Some (PathId p), node_component = c \<rparr>]
        \<and> table_depths u = table_depths t @ [Suc (table_depths t ! p)]" by blast
qed

definition builder_ok :: "path_interner_builder \<Rightarrow> bool" where
  "builder_ok b \<longleftrightarrow> path_table_ok (builder_table b)
     \<and> children_ok (table_nodes (builder_table b)) (builder_layers b @ [builder_lookup b])"

lemma builder_intern_child_eq:
  "builder_intern_child p c b =
     (case layers_child (builder_layers b @ [builder_lookup b]) (p, c) of
        Some q \<Rightarrow> Some (Some q, b)
      | None \<Rightarrow>
          (case try_append_child p c (builder_table b) of
             None \<Rightarrow> None
           | Some (None, t) \<Rightarrow> Some (None, b \<lparr> builder_table := t \<rparr>)
           | Some (Some q, t) \<Rightarrow>
               (case table_depth t q of
                  None \<Rightarrow> None
                | Some _ \<Rightarrow> Some (Some q, b \<lparr> builder_table := t, builder_lookup := ((p, c), q) # builder_lookup b \<rparr>))))"
  by (simp add: builder_intern_child_def layers_child_snoc split: option.splits)

interpretation builder_store: path_store builder_ok
  "\<lambda>b. table_nodes (builder_table b)" "\<lambda>b. table_depths (builder_table b)"
  "\<lambda>b. table_parent (builder_table b)" "\<lambda>b. table_component (builder_table b)" "\<lambda>b. table_depth (builder_table b)"
  builder_intern_child
proof (unfold_locales, goal_cases)
  case (1 t)
  then show ?case by (simp add: builder_ok_def path_table_ok_def)
next
  case (2 t i)
  then show ?case by (simp add: builder_ok_def table_reader.reader_parent)
next
  case (3 t i)
  then show ?case by (simp add: builder_ok_def table_reader.reader_component)
next
  case (4 t i)
  then show ?case by (simp add: builder_ok_def table_reader.reader_depth)
next
  case (5 b i q c)
  then show ?case
    using children_ok_existing [of "table_nodes (builder_table b)" "builder_layers b @ [builder_lookup b]" i q c]
    by (simp add: builder_ok_def builder_intern_child_eq)
next
  case (6 b p c)
  have ok: "path_table_ok (builder_table b)"
    and ch: "children_ok (table_nodes (builder_table b)) (builder_layers b @ [builder_lookup b])"
    using 6(1) by (simp_all add: builder_ok_def)
  have fresh: "layers_child (builder_layers b @ [builder_lookup b]) (PathId p, c) = None"
    by (rule children_ok_fresh [OF ch 6(4)])
  obtain u where u: "try_append_child (PathId p) c (builder_table b) = Some (Some (PathId (length (table_nodes (builder_table b)))), u)"
    "path_table_ok u"
    "table_nodes u = table_nodes (builder_table b) @ [\<lparr> node_parent = Some (PathId p), node_component = c \<rparr>]"
    "table_depths u = table_depths (builder_table b) @ [Suc (table_depths (builder_table b) ! p)]"
    using try_append_child_eq(2) [OF ok 6(2,3,4)] by blast
  have "table_depth u (PathId (length (table_nodes (builder_table b)))) \<noteq> None"
    using table_reader.reader_depth [OF u(2)] u(3) by simp
  moreover have "table_nodes (builder_table b) \<noteq> []" using 6(2) by auto
  ultimately show ?case
    using fresh u children_ok_snoc [OF ch _ fresh] by (auto simp: builder_intern_child_eq builder_ok_def)
next
  case (7 b p c)
  have ok: "path_table_ok (builder_table b)"
    and ch: "children_ok (table_nodes (builder_table b)) (builder_layers b @ [builder_lookup b])"
    using 7(1) by (simp_all add: builder_ok_def)
  have "layers_child (builder_layers b @ [builder_lookup b]) (PathId p, c) = None"
    by (rule children_ok_fresh [OF ch 7(4)])
  then show ?case using try_append_child_eq(1) [OF ok 7(2,3)] by (simp add: builder_intern_child_eq)
qed

definition fork_rows :: "path_interner_fork \<Rightarrow> path_node list" where
  "fork_rows f = flat_nodes (interner_table (fork_base f)) @ fork_nodes f"

definition fork_depth_rows :: "path_interner_fork \<Rightarrow> nat list" where
  "fork_depth_rows f = flat_depths (interner_table (fork_base f)) @ fork_depths f"

definition fork_ok :: "path_interner_fork \<Rightarrow> bool" where
  "fork_ok f \<longleftrightarrow> base_ok (interner_table (fork_base f)) \<and> flat_nodes (interner_table (fork_base f)) \<noteq> []
     \<and> inherited_len f = base_rows (interner_table (fork_base f))
     \<and> length (fork_depths f) = length (fork_nodes f)
     \<and> trie_ok (fork_rows f) (fork_depth_rows f)
     \<and> children_ok (fork_rows f) (interner_layers (fork_base f) @ [fork_lookup f])"

lemma fork_columns:
  assumes "fork_ok f"
  shows "(if i < inherited_len f then base_node (interner_table (fork_base f)) i
          else slice_get (fork_nodes f) (i - inherited_len f)) = slice_get (fork_rows f) i"
    "fork_depth f (PathId i) = slice_get (fork_depth_rows f) i"
    "fork_len f = length (fork_rows f)" "inherited_len f = length (flat_nodes (interner_table (fork_base f)))"
    "inherited_len f \<le> length (fork_rows f)"
  using assms base_columns [of "interner_table (fork_base f)"]
  by (simp_all add: fork_ok_def fork_depth_def fork_len_def fork_rows_def fork_depth_rows_def slice_get_append)

lemma fork_local_rows:
  assumes "fork_ok f" "k < length (fork_nodes f)"
  shows "inherited_len f + k < length (fork_rows f)" "fork_rows f ! (inherited_len f + k) = fork_nodes f ! k"
    "0 < inherited_len f + k"
proof -
  have "flat_nodes (interner_table (fork_base f)) \<noteq> []" using assms(1) by (simp add: fork_ok_def)
  then show "inherited_len f + k < length (fork_rows f)" "fork_rows f ! (inherited_len f + k) = fork_nodes f ! k"
    "0 < inherited_len f + k"
    using assms(2) unfolding fork_columns(4) [OF assms(1)] by (simp_all add: fork_rows_def)
qed

lemma fork_accessors:
  assumes "fork_ok f" "i < length (fork_rows f)"
  shows "fork_parent f (PathId i) = Some (node_parent (fork_rows f ! i))"
    "fork_try_parent f (PathId i) = node_parent (fork_rows f ! i)"
    "fork_component f (PathId i) = Some (if i = 0 then None else Some (node_component (fork_rows f ! i)))"
    "fork_try_component f (PathId i) = (if i = 0 then None else Some (node_component (fork_rows f ! i)))"
    "fork_depth f (PathId i) = Some (fork_depth_rows f ! i)"
proof -
  have row: "(if i < inherited_len f then base_node (interner_table (fork_base f)) i
          else slice_get (fork_nodes f) (i - inherited_len f)) = Some (fork_rows f ! i)"
    using fork_columns(1) [OF assms(1), of i] assms(2) by (simp add: slice_get_def)
  show "fork_parent f (PathId i) = Some (node_parent (fork_rows f ! i))"
    "fork_component f (PathId i) = Some (if i = 0 then None else Some (node_component (fork_rows f ! i)))"
    using row by (auto simp: fork_parent_def fork_component_def path_root_def split: if_splits)
  show "fork_try_parent f (PathId i) = node_parent (fork_rows f ! i)"
    "fork_try_component f (PathId i) = (if i = 0 then None else Some (node_component (fork_rows f ! i)))"
    unfolding fork_try_parent_def fork_try_component_def by (simp_all add: row path_root_def)
  have "length (fork_depth_rows f) = length (fork_rows f)"
    using assms(1) by (simp add: fork_ok_def trie_okD(1))
  then show "fork_depth f (PathId i) = Some (fork_depth_rows f ! i)"
    using assms(2) by (simp add: fork_columns(2) [OF assms(1)] slice_get_def)
qed

lemma fork_intern_child_eq:
  "fork_intern_child p c f =
     (case layers_child (interner_layers (fork_base f) @ [fork_lookup f]) (p, c) of
        Some q \<Rightarrow> Some (Some q, f)
      | None \<Rightarrow>
          (case fork_depth f p of
             None \<Rightarrow> None
           | Some d \<Rightarrow>
               if d + 1 > u32_max then Some (None, f)
               else (case try_from_index (fork_len f) of
                       None \<Rightarrow> Some (None, f)
                     | Some q \<Rightarrow> Some (Some q,
                         f \<lparr> fork_nodes := fork_nodes f @ [\<lparr> node_parent = Some p, node_component = c \<rparr>],
                             fork_depths := fork_depths f @ [d + 1],
                             fork_lookup := ((p, c), q) # fork_lookup f \<rparr>))))"
  by (simp add: fork_intern_child_def layers_child_snoc fork_len_def split: option.splits)

interpretation fork_store: path_store fork_ok fork_rows fork_depth_rows fork_parent fork_component fork_depth
  fork_intern_child
proof (unfold_locales, goal_cases)
  case (1 f)
  then show ?case by (simp add: fork_ok_def)
next
  case (5 f i q c)
  then show ?case
    using children_ok_existing [of "fork_rows f" "interner_layers (fork_base f) @ [fork_lookup f]" i q c]
    by (simp add: fork_ok_def fork_intern_child_eq)
next
  case (6 f p c)
  note ok = 6(1)
  have trie: "trie_ok (fork_rows f) (fork_depth_rows f)"
    and ch: "children_ok (fork_rows f) (interner_layers (fork_base f) @ [fork_lookup f])"
    using ok by (simp_all add: fork_ok_def)
  have fresh: "layers_child (interner_layers (fork_base f) @ [fork_lookup f]) (PathId p, c) = None"
    by (rule children_ok_fresh [OF ch 6(4)])
  have ne: "fork_rows f \<noteq> []" using 6(2) by auto
  have d: "fork_depth f (PathId p) = Some (fork_depth_rows f ! p)" "fork_depth_rows f ! p + 1 \<le> u32_max"
    using fork_accessors(5) [OF ok 6(2)] trie_depth_le [OF trie 6(2)] 6(2,3) by simp_all
  let ?u = "f \<lparr> fork_nodes := fork_nodes f @ [\<lparr> node_parent = Some (PathId p), node_component = c \<rparr>],
                 fork_depths := fork_depths f @ [Suc (fork_depth_rows f ! p)],
                 fork_lookup := ((PathId p, c), PathId (length (fork_rows f))) # fork_lookup f \<rparr>"
  have "fork_intern_child (PathId p) c f = Some (Some (PathId (length (fork_rows f))), ?u)"
    using fresh d 6(3) by (simp add: fork_intern_child_eq fork_columns(3) [OF ok] try_from_index_def)
  moreover have cols: "fork_rows ?u = fork_rows f @ [\<lparr> node_parent = Some (PathId p), node_component = c \<rparr>]"
    "fork_depth_rows ?u = fork_depth_rows f @ [Suc (fork_depth_rows f ! p)]"
    by (simp_all add: fork_rows_def fork_depth_rows_def)
  moreover have "fork_ok ?u"
    using trie_snoc [OF trie 6(3,2), of c] 6(4) children_ok_snoc [OF ch ne fresh] ok
    by (simp add: fork_ok_def cols [simplified])
  ultimately show ?case by blast
next
  case (7 f p c)
  have trie: "trie_ok (fork_rows f) (fork_depth_rows f)"
    and ch: "children_ok (fork_rows f) (interner_layers (fork_base f) @ [fork_lookup f])"
    using 7(1) by (simp_all add: fork_ok_def)
  have "layers_child (interner_layers (fork_base f) @ [fork_lookup f]) (PathId p, c) = None"
    by (rule children_ok_fresh [OF ch 7(4)])
  then show ?case
    using fork_accessors(5) [OF 7(1,2)] 7(3)
    by (simp add: fork_intern_child_eq fork_columns(3) [OF 7(1)] try_from_index_def)
qed (simp_all add: fork_accessors)

section \<open>Copies and forks of an interner\<close>

lemma table_ok_rows:
  assumes "base_ok (shared_base u)" "length (local_depths u) = length (local_nodes u)"
    "table_nodes u = table_nodes t" "table_depths u = table_depths t" "path_table_ok t"
  shows "path_table_ok u"
  using assms by (simp add: path_table_ok_def)

lemma new_builder_ok: "builder_ok new_builder"
  using new_path_table_ok
  by (simp add: builder_ok_def new_builder_def children_ok_def layers_child_def)

lemma seal_shared_prefix_ok:
  assumes "builder_ok b"
  shows "builder_ok (seal_shared_prefix b)"
    "table_nodes (builder_table (seal_shared_prefix b)) = table_nodes (builder_table b)"
    "table_depths (builder_table (seal_shared_prefix b)) = table_depths (builder_table b)"
    "builder_lookup (seal_shared_prefix b) = []"
proof -
  have t: "path_table_ok (builder_table b)" "base_ok (shared_base (builder_table b))"
    "length (local_depths (builder_table b)) = length (local_nodes (builder_table b))"
    using assms by (simp_all add: builder_ok_def path_table_ok_def)
  note s = sealed_columns [OF t(2,3)]
  have tab: "builder_table (seal_shared_prefix b) = seal_shared_base (builder_table b)"
    by (simp add: seal_shared_prefix_def Let_def)
  show cols: "table_nodes (builder_table (seal_shared_prefix b)) = table_nodes (builder_table b)"
    "table_depths (builder_table (seal_shared_prefix b)) = table_depths (builder_table b)" by (simp_all add: tab s)
  show "builder_lookup (seal_shared_prefix b) = []" by (simp add: seal_shared_prefix_def Let_def)
  have "path_table_ok (seal_shared_base (builder_table b))"
    by (rule table_ok_rows [OF _ _ _ _ t(1)]) (simp_all add: s)
  moreover have "layers_child (builder_layers (seal_shared_prefix b) @ [builder_lookup (seal_shared_prefix b)]) key
      = layers_child (builder_layers b @ [builder_lookup b]) key" for key
    by (simp add: seal_shared_prefix_def Let_def layers_child_snoc)
  ultimately show "builder_ok (seal_shared_prefix b)"
    using assms unfolding builder_ok_def cols by (simp add: tab children_ok_def)
qed

lemma source_fork_ok:
  assumes "base_ok (interner_table s)" "trie_ok (flat_nodes (interner_table s)) (flat_depths (interner_table s))"
    "children_ok (flat_nodes (interner_table s)) (interner_layers s)"
  shows "fork_ok (source_fork s)" "fork_rows (source_fork s) = flat_nodes (interner_table s)"
    "fork_depth_rows (source_fork s) = flat_depths (interner_table s)"
  using assms trie_okD(2) [OF assms(2)]
  by (simp_all add: fork_ok_def source_fork_def fork_rows_def fork_depth_rows_def children_ok_def)

lemma nonempty_layer:
  "children_ok ns (ls @ (if l \<noteq> [] then [l] else [])) \<longleftrightarrow> children_ok ns (ls @ [l])"
  by (simp add: children_ok_def)

lemma builder_fork_ok:
  assumes "builder_ok b"
  shows "fork_ok (source_fork (builder_fork_source b))"
    "fork_rows (source_fork (builder_fork_source b)) = table_nodes (builder_table b)"
    "fork_depth_rows (source_fork (builder_fork_source b)) = table_depths (builder_table b)"
    "inherited_len (source_fork (builder_fork_source b)) = builder_len b"
proof -
  have t: "base_ok (shared_base (builder_table b))" "trie_ok (table_nodes (builder_table b)) (table_depths (builder_table b))"
    "length (local_depths (builder_table b)) = length (local_nodes (builder_table b))"
    "children_ok (table_nodes (builder_table b)) (builder_layers b @ [builder_lookup b])"
    using assms by (simp_all add: builder_ok_def path_table_ok_def)
  note s = sealed_columns [OF t(1,3)]
  have "children_ok (flat_nodes (snapshot_base (builder_table b)))
      (builder_layers b @ (if builder_lookup b \<noteq> [] then [builder_lookup b] else []))"
    unfolding nonempty_layer s by (rule t(4))
  then have f: "fork_ok (source_fork (builder_fork_source b))"
    "fork_rows (source_fork (builder_fork_source b)) = flat_nodes (snapshot_base (builder_table b))"
    "fork_depth_rows (source_fork (builder_fork_source b)) = flat_depths (snapshot_base (builder_table b))"
    using source_fork_ok [of "builder_fork_source b"] t(2) s(6) by (simp_all add: builder_fork_source_def s)
  show "fork_ok (source_fork (builder_fork_source b))"
    "fork_rows (source_fork (builder_fork_source b)) = table_nodes (builder_table b)"
    "fork_depth_rows (source_fork (builder_fork_source b)) = table_depths (builder_table b)"
    using f by (simp_all add: s)
  show "inherited_len (source_fork (builder_fork_source b)) = builder_len b"
    by (simp add: source_fork_def builder_fork_source_def builder_len_def base_columns(3) [OF s(6)] s(7) table_columns(3) [OF t(1)])
qed

lemma fork_fork_ok:
  assumes "fork_ok f"
  shows "fork_ok (source_fork (fork_fork_source f))"
    "fork_rows (source_fork (fork_fork_source f)) = fork_rows f"
    "fork_depth_rows (source_fork (fork_fork_source f)) = fork_depth_rows f"
proof -
  let ?s = "interner_table (fork_fork_source f)"
  have b: "base_ok (interner_table (fork_base f))" "length (fork_depths f) = length (fork_nodes f)"
    "trie_ok (fork_rows f) (fork_depth_rows f)"
    "children_ok (fork_rows f) (interner_layers (fork_base f) @ [fork_lookup f])"
    using assms by (simp_all add: fork_ok_def)
  have s: "base_ok ?s" "flat_nodes ?s = fork_rows f" "flat_depths ?s = fork_depth_rows f"
    using b(1,2) by (auto simp: fork_fork_source_def snapshot_with_suffix_def with_segment_ok fork_rows_def fork_depth_rows_def)
  have "children_ok (flat_nodes ?s) (interner_layers (fork_fork_source f))"
    unfolding s using b(4) by (simp only: fork_fork_source_def path_interner_base.select_convs nonempty_layer)
  then show "fork_ok (source_fork (fork_fork_source f))"
    "fork_rows (source_fork (fork_fork_source f)) = fork_rows f"
    "fork_depth_rows (source_fork (fork_fork_source f)) = fork_depth_rows f"
    using source_fork_ok [of "fork_fork_source f"] b(3) s by simp_all
qed

lemma fork_tables_ok:
  assumes "fork_ok f"
  shows "path_table_ok (fork_shared_table f)" "table_nodes (fork_shared_table f) = fork_rows f"
    "table_depths (fork_shared_table f) = fork_depth_rows f"
    "path_table_ok (fork_snapshot_table f)" "table_nodes (fork_snapshot_table f) = fork_rows f"
    "table_depths (fork_snapshot_table f) = fork_depth_rows f"
    "builder_ok (fork_path_builder f)"
proof -
  have b: "base_ok (interner_table (fork_base f))" "length (fork_depths f) = length (fork_nodes f)"
    "trie_ok (fork_rows f) (fork_depth_rows f)"
    "children_ok (fork_rows f) (interner_layers (fork_base f) @ [fork_lookup f])"
    using assms by (simp_all add: fork_ok_def)
  have len: "length (fork_depth_rows f) = length (fork_rows f)" by (rule trie_okD(1) [OF b(3)])
  show 1: "table_nodes (fork_shared_table f) = fork_rows f" "table_depths (fork_shared_table f) = fork_depth_rows f"
    by (simp_all add: fork_shared_table_def table_from_shared_parts_def table_nodes_def table_depths_def
        fork_rows_def fork_depth_rows_def)
  show 2: "table_nodes (fork_snapshot_table f) = fork_rows f" "table_depths (fork_snapshot_table f) = fork_depth_rows f"
    by (simp_all add: fork_snapshot_table_def copy_into_flat table_from_parts_def table_nodes_def table_depths_def
        base_from_parts_ok fork_rows_def fork_depth_rows_def)
  show "path_table_ok (fork_shared_table f)"
    unfolding path_table_ok_def 1 using b by (simp add: fork_shared_table_def table_from_shared_parts_def)
  then show "builder_ok (fork_path_builder f)"
    using b(4) by (simp add: builder_ok_def fork_path_builder_def 1)
  show "path_table_ok (fork_snapshot_table f)"
    unfolding path_table_ok_def 2 using b(3) len
    by (simp add: fork_snapshot_table_def copy_into_flat table_from_parts_def base_from_parts_ok
        fork_rows_def fork_depth_rows_def)
qed

section \<open>Merges\<close>

declare merge_rows.simps(2) [simp del]

text \<open>The rows of a delta seen as a trie, and when another trie has the same first rows.\<close>

definition same_rows :: "nat \<Rightarrow> path_node list \<Rightarrow> nat list \<Rightarrow> path_node list \<Rightarrow> nat list \<Rightarrow> bool" where
  "same_rows n ns ds ms es \<longleftrightarrow>
     (\<forall>i < n. node_parent (ns ! i) = node_parent (ms ! i) \<and> ds ! i = es ! i
        \<and> (0 < i \<longrightarrow> node_component (ns ! i) = node_component (ms ! i)))"

lemma same_rows_path_of:
  assumes ok: "trie_ok ms es" and n: "n \<le> length ms" and same: "same_rows n ns ds ms es"
  shows "i < n \<Longrightarrow> path_of ns ds i = path_of ms es i"
proof (induction i rule: less_induct)
  case (less i)
  then have row: "node_parent (ns ! i) = node_parent (ms ! i)" "ds ! i = es ! i"
    "0 < i \<Longrightarrow> node_component (ns ! i) = node_component (ms ! i)" using same by (auto simp: same_rows_def)
  show ?case
  proof (cases "i = 0")
    case True
    then show ?thesis using row(2) trie_okD(5) [OF ok] by (simp add: path_of_def)
  next
    case False
    then have i: "0 < i" "i < length ms" using less.prems n by simp_all
    show ?thesis
    proof (rule trie_parentE [OF ok i])
      fix j assume j: "j < i" "node_parent (ms ! i) = Some (PathId j)" "es ! i = Suc (es ! j)"
        "path_of ms es i = path_of ms es j @ [node_component (ms ! i)]"
      have "ds ! j = es ! j" using same j(1) less.prems by (simp add: same_rows_def)
      with less.IH [OF j(1)] j less.prems row i(1) show ?thesis by (simp add: path_of_def)
    qed
  qed
qed

text \<open>
  What a merge needs beside \<open>put\<close>: the checked accessors of the destination. The laws of the remap
  are proved once for builder and fork.
\<close>

locale path_merge = path_store ok nodes depths par cmp dep put
  for ok :: "'t \<Rightarrow> bool" and nodes :: "'t \<Rightarrow> path_node list" and depths :: "'t \<Rightarrow> nat list"
    and par :: "'t \<Rightarrow> parent_of" and cmp :: "'t \<Rightarrow> component_of" and dep :: "'t \<Rightarrow> depth_of"
    and put :: "'t child_op" +
  fixes len :: "'t \<Rightarrow> nat" and tp :: "'t \<Rightarrow> path_id \<Rightarrow> path_id option"
    and tc :: "'t \<Rightarrow> path_id \<Rightarrow> string_id option" and td :: "'t \<Rightarrow> path_id \<Rightarrow> nat option"
  assumes merge_len: "ok t \<Longrightarrow> len t = length (nodes t)"
    and merge_rows_read: "ok t \<Longrightarrow> i < length (nodes t) \<Longrightarrow> tp t (PathId i) = node_parent (nodes t ! i)
      \<and> tc t (PathId i) = (if i = 0 then None else Some (node_component (nodes t ! i)))
      \<and> td t (PathId i) = Some (depths t ! i)"
begin

lemma agree_rows_iff:
  assumes t: "ok t" and d: "fork_ok d" and n: "inherited_len d \<le> length (nodes t)"
  shows "agree_rows tp tc td t d (inherited_len d) \<longleftrightarrow>
    same_rows (inherited_len d) (nodes t) (depths t) (fork_rows d) (fork_depth_rows d)"
proof -
  have "(case try_from_index i of
          None \<Rightarrow> False
        | Some e \<Rightarrow> tp t e = fork_try_parent d e \<and> tc t e = fork_try_component d e \<and> td t e = fork_depth d e)
    \<longleftrightarrow> node_parent (nodes t ! i) = node_parent (fork_rows d ! i) \<and> depths t ! i = fork_depth_rows d ! i
        \<and> (0 < i \<longrightarrow> node_component (nodes t ! i) = node_component (fork_rows d ! i))"
    if i: "i < inherited_len d" for i
  proof -
    have l: "i < length (nodes t)" "i < length (fork_rows d)"
      using i n fork_columns(5) [OF d] by simp_all
    have "try_from_index i = Some (PathId i)"
      using l(1) trie_okD(3) [OF reader_trie [OF t]] by (simp add: try_from_index_def)
    with merge_rows_read [OF t l(1)] fork_accessors [OF d l(2)] show ?thesis by auto
  qed
  then show ?thesis by (auto simp: agree_rows_def same_rows_def list_all_iff)
qed

lemma ordered_delta_ok:
  assumes "fork_ok d"
  shows "ordered_delta d (inherited_len d)"
  unfolding ordered_delta_def list_all_iff
proof
  fix k assume "k \<in> set [0..<length (fork_nodes d)]"
  then have "k < length (fork_nodes d)" by simp
  note k = fork_local_rows [OF assms this]
  have trie: "trie_ok (fork_rows d) (fork_depth_rows d)" using assms by (simp add: fork_ok_def)
  from k(3) show "case node_parent (fork_nodes d ! k) of None \<Rightarrow> False
      | Some p \<Rightarrow> \<not> (path_index p \<ge> inherited_len d \<and> path_index p - inherited_len d \<ge> k)"
    by (rule trie_parentE [OF trie _ k(1)]) (use k(2) in auto)
qed

text \<open>The loop invariant: the rows handled so far are mapped to their renamed paths.\<close>

definition mapped_ok :: "'t \<Rightarrow> path_interner_fork \<Rightarrow> (string_id \<Rightarrow> string_id) \<Rightarrow> path_id list \<Rightarrow> bool" where
  "mapped_ok t d f mapped \<longleftrightarrow>
     (\<forall>k < length mapped. path_index (mapped ! k) < length (nodes t)
        \<and> components t (path_index (mapped ! k)) = map f (fork_store.components d (inherited_len d + k)))"

lemma mapped_ok_grows: "ok t \<Longrightarrow> grows t u \<Longrightarrow> mapped_ok t d f mapped \<Longrightarrow> mapped_ok u d f mapped"
  using components_stable [of t u] grows_length [of t u] by (fastforce simp: mapped_ok_def)

lemma mapped_ok_snoc:
  "mapped_ok t d f mapped \<Longrightarrow> i < length (nodes t) \<Longrightarrow>
   components t i = map f (fork_store.components d (inherited_len d + length mapped)) \<Longrightarrow>
   mapped_ok t d f (mapped @ [PathId i])"
  by (auto simp: mapped_ok_def nth_append less_Suc_eq)

definition base_kept :: "'t \<Rightarrow> path_interner_fork \<Rightarrow> (string_id \<Rightarrow> string_id) \<Rightarrow> bool" where
  "base_kept t d f \<longleftrightarrow> inherited_len d \<le> length (nodes t)
     \<and> (\<forall>i < inherited_len d. components t i = map f (fork_store.components d i))"

lemma base_kept_grows: "ok t \<Longrightarrow> grows t u \<Longrightarrow> base_kept t d f \<Longrightarrow> base_kept u d f"
  using components_stable [of t u] grows_length [of t u] by (auto simp: base_kept_def)

definition keeps_numbers :: "nat \<Rightarrow> path_id list \<Rightarrow> bool" where
  "keeps_numbers n mapped \<longleftrightarrow> (\<forall>k < length mapped. path_index (mapped ! k) = n + k)"

lemma keeps_numbers_snoc:
  "keeps_numbers n (mapped @ [m]) \<longleftrightarrow> path_index m = n + length mapped \<and> keeps_numbers n mapped"
  by (auto simp: keeps_numbers_def nth_append less_Suc_eq)

text \<open>The remapped parent of the next row.\<close>

lemma remapped_parent:
  assumes d: "fork_ok d" and base: "base_kept t d f" and mapped: "mapped_ok t d f mapped"
    and k: "length mapped < length (fork_nodes d)"
  shows "\<exists>p j. node_parent (fork_nodes d ! length mapped) = Some p \<and> j < length (nodes t)
    \<and> (if path_index p < inherited_len d then Inr p
        else if path_index p - inherited_len d \<ge> length mapped then Inl e
        else ok_or (slice_get mapped (path_index p - inherited_len d)) e) = Inr (PathId j)
    \<and> map f (fork_store.components d (inherited_len d + length mapped))
        = components t j @ [f (node_component (fork_nodes d ! length mapped))]"
proof -
  let ?n = "inherited_len d" and ?k = "length mapped"
  note i = fork_local_rows [OF d k]
  have trie: "trie_ok (fork_rows d) (fork_depth_rows d)" using d by (simp add: fork_ok_def)
  show ?thesis
  proof (rule trie_parentE [OF trie i(3,1)])
    fix p assume p: "p < ?n + ?k" "node_parent (fork_rows d ! (?n + ?k)) = Some (PathId p)"
      "fork_store.components d (?n + ?k) = fork_store.components d p @ [node_component (fork_rows d ! (?n + ?k))]"
    show ?thesis
    proof (cases "p < ?n")
      case True
      then show ?thesis using p base i(2) by (auto simp: base_kept_def)
    next
      case False
      then have "p - ?n < ?k" "?n + (p - ?n) = p" using p(1) by simp_all
      then have m: "path_index (mapped ! (p - ?n)) < length (nodes t)"
        "components t (path_index (mapped ! (p - ?n))) = map f (fork_store.components d p)"
        using mapped unfolding mapped_ok_def by metis+
      show ?thesis
        using p(2,3) m False \<open>p - ?n < ?k\<close> i(2)
        by (intro exI [of _ "PathId p"] exI [of _ "path_index (mapped ! (p - ?n))"]) (simp add: slice_get_def)
    qed
  qed
qed

lemma merge_rows_step:
  assumes "node_parent node = Some p"
    and "(if path_index p < n then Inr p
        else if path_index p - n \<ge> length mapped then Inl (BaseMismatch n (len t) dl)
        else ok_or (slice_get mapped (path_index p - n)) (BaseMismatch n (len t) dl)) = Inr q"
    and "remap_get r (node_component node) = Some c"
  shows "merge_rows put len n dl r (node # rest) mapped ident t =
    (case put q c t of
       None \<Rightarrow> None
     | Some (None, u) \<Rightarrow> Some (Inl TableFull, u)
     | Some (Some merged, u) \<Rightarrow>
         merge_rows put len n dl r rest (mapped @ [merged])
           (if path_index merged \<noteq> n + length mapped then False else ident) u)"
  by (simp only: merge_rows.simps Let_def assms option.case sum.case)

lemma merge_rows_ok:
  assumes d: "fork_ok d"
    and total: "\<And>n. n \<in> set (fork_nodes d) \<Longrightarrow> remap_get r (node_component n) = Some (f (node_component n))"
  shows "ok t \<Longrightarrow> base_kept t d f \<Longrightarrow> mapped_ok t d f mapped \<Longrightarrow> rest = drop (length mapped) (fork_nodes d) \<Longrightarrow>
    length mapped \<le> length (fork_nodes d) \<Longrightarrow> ident = keeps_numbers (inherited_len d) mapped \<Longrightarrow>
    \<exists>res u. merge_rows put len (inherited_len d) dl r rest mapped ident t = Some (res, u) \<and> ok u \<and> grows t u
      \<and> length (nodes u) \<le> length (nodes t) + length rest
      \<and> (case res of
           Inl e \<Rightarrow> e = TableFull \<and> length (nodes u) = u32_max
         | Inr pr \<Rightarrow> path_prefix_len pr = inherited_len d \<and> length (mapped_paths pr) = length (fork_nodes d)
             \<and> mapped_ok u d f (mapped_paths pr)
             \<and> path_is_identity pr = keeps_numbers (inherited_len d) (mapped_paths pr))"
proof (induction rest arbitrary: mapped ident t)
  case Nil
  then show ?case by (auto simp: grows_refl)
next
  case (Cons node rest)
  let ?k = "length mapped" and ?n = "inherited_len d"
  have k: "?k < length (fork_nodes d)" using Cons.prems(4) by (metis drop_all list.distinct(1) not_le)
  have node: "node = fork_nodes d ! ?k" and rest: "rest = drop (Suc ?k) (fork_nodes d)"
    using Cons.prems(4) k by (simp_all add: Cons_nth_drop_Suc [symmetric])
  have f: "remap_get r (node_component node) = Some (f (node_component node))"
    using total k by (simp add: node)
  let ?e = "BaseMismatch ?n (len t) dl"
  obtain p j where p: "node_parent node = Some p" "j < length (nodes t)"
    "(if path_index p < ?n then Inr p
        else if path_index p - ?n \<ge> ?k then Inl ?e
        else ok_or (slice_get mapped (path_index p - ?n)) ?e) = Inr (PathId j)"
    "map f (fork_store.components d (?n + ?k)) = components t j @ [f (node_component node)]"
    using remapped_parent [OF d Cons.prems(2,3) k, of ?e] unfolding node by blast
  from put_cases [OF Cons.prems(1) p(2), of "f (node_component node)"] show ?case
  proof (elim disjE exE conjE)
    assume "put (PathId j) (f (node_component node)) t = Some (None, t)" "length (nodes t) = u32_max"
    then have "merge_rows put len ?n dl r (node # rest) mapped ident t = Some (Inl TableFull, t)"
      unfolding merge_rows_step [OF p(1,3) f] by simp
    then show ?thesis using Cons.prems(1) \<open>length (nodes t) = u32_max\<close> by (auto simp: grows_refl)
  next
    fix m u
    assume m: "put (PathId j) (f (node_component node)) t = Some (Some (PathId m), u)" "ok u" "grows t u"
      "m < length (nodes u)" "components u m = components t j @ [f (node_component node)]"
      "length (nodes u) \<le> Suc (length (nodes t))"
    let ?mapped = "mapped @ [PathId m]"
    let ?ident = "if m \<noteq> ?n + ?k then False else ident"
    have "mapped_ok u d f ?mapped"
      using mapped_ok_grows [OF Cons.prems(1) m(3) Cons.prems(3)] m(4,5) p(4) by (intro mapped_ok_snoc) simp_all
    moreover have "?ident = keeps_numbers ?n ?mapped" by (simp add: keeps_numbers_snoc Cons.prems(6))
    ultimately obtain res v where v: "merge_rows put len ?n dl r rest ?mapped ?ident u = Some (res, v)"
      "ok v" "grows u v" "length (nodes v) \<le> length (nodes u) + length rest"
      "case res of
           Inl e \<Rightarrow> e = TableFull \<and> length (nodes v) = u32_max
         | Inr pr \<Rightarrow> path_prefix_len pr = inherited_len d \<and> length (mapped_paths pr) = length (fork_nodes d)
             \<and> mapped_ok v d f (mapped_paths pr)
             \<and> path_is_identity pr = keeps_numbers (inherited_len d) (mapped_paths pr)"
      using Cons.IH [OF m(2) base_kept_grows [OF Cons.prems(1) m(3) Cons.prems(2)], of ?mapped ?ident] rest k
      by auto
    have "merge_rows put len ?n dl r (node # rest) mapped ident t = Some (res, v)"
      using m(1) v(1) unfolding merge_rows_step [OF p(1,3) f] by simp
    moreover note grows_trans [OF m(3) v(3)]
    moreover have "length (nodes v) \<le> length (nodes t) + length (node # rest)" using v(4) m(6) by simp
    ultimately show ?thesis using v(2,5) by blast
  qed
qed

text \<open>
  The merge of a delta whose base rows the destination has: it never panics and never reports a
  mismatch, and on success every path of the delta denotes its renamed components.
\<close>

lemma merge_delta_ok:
  assumes t: "ok t" and d: "fork_ok d"
    and total: "\<And>n. n \<in> set (fork_nodes d) \<Longrightarrow> remap_get r (node_component n) = Some (f (node_component n))"
    and fixed: "\<And>i. 0 < i \<Longrightarrow> i < inherited_len d \<Longrightarrow>
      f (node_component (fork_rows d ! i)) = node_component (fork_rows d ! i)"
    and n: "inherited_len d \<le> length (nodes t)"
    and same: "same_rows (inherited_len d) (nodes t) (depths t) (fork_rows d) (fork_depth_rows d)"
  shows "\<exists>res u. merge_delta put len tp tc td d r t = Some (res, u) \<and> ok u \<and> grows t u
    \<and> length (nodes u) \<le> length (nodes t) + length (fork_nodes d)
    \<and> (case res of
         Inl e \<Rightarrow> e = TableFull \<and> length (nodes u) = u32_max
       | Inr pr \<Rightarrow>
           (\<forall>i < fork_len d. \<exists>j < length (nodes u). path_remap_get pr (PathId i) = Some (PathId j)
              \<and> components u j = map f (fork_store.components d i))
           \<and> (path_is_identity pr \<longleftrightarrow> (\<forall>i < fork_len d. path_remap_get pr (PathId i) = Some (PathId i))))"
proof -
  let ?n = "inherited_len d"
  have trie: "trie_ok (fork_rows d) (fork_depth_rows d)" using d by (simp add: fork_ok_def)
  have "map f (fork_store.components d i) = fork_store.components d i" if "i < ?n" for i
    using that
  proof (induction i rule: less_induct)
    case (less i)
    show ?case
    proof (cases "i = 0")
      case True
      then show ?thesis using path_of_root [OF trie] by simp
    next
      case False
      then have i: "0 < i" "i < length (fork_rows d)" using less.prems fork_columns(5) [OF d] by simp_all
      show ?thesis by (rule trie_parentE [OF trie i]) (use less fixed i in auto)
    qed
  qed
  then have base: "base_kept t d f"
    using same_rows_path_of [OF trie fork_columns(5) [OF d] same] n by (simp add: base_kept_def)
  have m0: "mapped_ok t d f []" "keeps_numbers ?n []" by (simp_all add: mapped_ok_def keeps_numbers_def)
  obtain res u where u: "merge_rows put len ?n (fork_len d) r (fork_nodes d) [] True t = Some (res, u)"
    "ok u" "grows t u" "length (nodes u) \<le> length (nodes t) + length (fork_nodes d)"
    "case res of
           Inl e \<Rightarrow> e = TableFull \<and> length (nodes u) = u32_max
         | Inr pr \<Rightarrow> path_prefix_len pr = ?n \<and> length (mapped_paths pr) = length (fork_nodes d)
             \<and> mapped_ok u d f (mapped_paths pr)
             \<and> path_is_identity pr = keeps_numbers ?n (mapped_paths pr)"
    using merge_rows_ok [OF d total t base m0(1), of "fork_nodes d" True "fork_len d"] m0(2) by auto
  have "merge_delta put len tp tc td d r t = Some (res, u)"
    using u(1) n same agree_rows_iff [OF t d n] ordered_delta_ok [OF d] fork_columns(3,5) [OF d]
    by (simp add: merge_delta_def merge_len [OF t])
  moreover have "(\<forall>i < fork_len d. \<exists>j < length (nodes u). path_remap_get pr (PathId i) = Some (PathId j)
              \<and> components u j = map f (fork_store.components d i))
           \<and> (path_is_identity pr \<longleftrightarrow> (\<forall>i < fork_len d. path_remap_get pr (PathId i) = Some (PathId i)))"
    if "res = Inr pr" for pr
  proof -
    have pr: "path_prefix_len pr = ?n" "length (mapped_paths pr) = length (fork_nodes d)"
      "mapped_ok u d f (mapped_paths pr)" "path_is_identity pr = keeps_numbers ?n (mapped_paths pr)"
      using u(5) that by simp_all
    have low: "path_remap_get pr (PathId i) = Some (PathId i)" if "i < ?n" for i
      using that by (simp add: path_remap_get_def pr(1))
    have high: "path_remap_get pr (PathId (?n + k)) = Some (mapped_paths pr ! k)" if "k < length (fork_nodes d)" for k
      using that by (simp add: path_remap_get_def pr(1,2) slice_get_def)
    have split: "(\<forall>i < fork_len d. P i) \<longleftrightarrow> (\<forall>i < ?n. P i) \<and> (\<forall>k < length (fork_nodes d). P (?n + k))" for P
      by (auto simp: fork_len_def) (metis add_diff_inverse_nat nat_add_left_cancel_less)
    have "\<exists>j < length (nodes u). path_remap_get pr (PathId i) = Some (PathId j)
              \<and> components u j = map f (fork_store.components d i)" if "i < ?n" for i
      using low [OF that] base_kept_grows [OF t u(3) base] that by (auto simp: base_kept_def)
    moreover have "\<exists>j < length (nodes u). path_remap_get pr (PathId (?n + k)) = Some (PathId j)
              \<and> components u j = map f (fork_store.components d (?n + k))" if "k < length (fork_nodes d)" for k
      using high [OF that] pr(3) that
      by (intro exI [of _ "path_index (mapped_paths pr ! k)"]) (simp add: mapped_ok_def pr(2))
    moreover have "keeps_numbers ?n (mapped_paths pr) \<longleftrightarrow>
        (\<forall>k < length (fork_nodes d). path_remap_get pr (PathId (?n + k)) = Some (PathId (?n + k)))"
      by (auto simp: keeps_numbers_def pr(2) high) (metis path_id.collapse)
    ultimately show ?thesis unfolding split pr(4) using low by auto
  qed
  ultimately show ?thesis using u(2,3,4,5) by (intro exI [of _ res] exI [of _ u]) (auto split: sum.splits)
qed

text \<open>Otherwise the merge reports the mismatch and leaves the destination as it was.\<close>

lemma merge_delta_mismatch:
  assumes t: "ok t" and d: "fork_ok d"
    and "\<not> (inherited_len d \<le> length (nodes t)
      \<and> same_rows (inherited_len d) (nodes t) (depths t) (fork_rows d) (fork_depth_rows d))"
  shows "merge_delta put len tp tc td d r t = Some (Inl (BaseMismatch (inherited_len d) (len t) (fork_len d)), t)"
  using assms agree_rows_iff [OF t d] by (auto simp: merge_delta_def merge_len Let_def)

lemma merge_delta_outcome:
  assumes t: "ok t" and d: "fork_ok d"
    and total: "\<forall>n \<in> set (fork_nodes d). remap_get r (node_component n) \<noteq> None"
    and fixed: "\<forall>i. 0 < i \<and> i < inherited_len d \<longrightarrow>
      remap_get r (node_component (fork_rows d ! i)) = Some (node_component (fork_rows d ! i))"
  shows "\<exists>res c. merge_delta put len tp tc td d r t = Some (res, c) \<and> ok c \<and> grows t c
      \<and> ((\<exists>x y z. res = Inl (BaseMismatch x y z)) \<longleftrightarrow>
          \<not> (inherited_len d \<le> len t
             \<and> same_rows (inherited_len d) (nodes t) (depths t) (fork_rows d) (fork_depth_rows d)))
      \<and> ((\<exists>x y z. res = Inl (BaseMismatch x y z)) \<longrightarrow> c = t)
      \<and> (res = Inl TableFull \<longrightarrow> len c = u32_max)"
proof (cases "inherited_len d \<le> length (nodes t)
    \<and> same_rows (inherited_len d) (nodes t) (depths t) (fork_rows d) (fork_depth_rows d)")
  case False
  then show ?thesis using merge_delta_mismatch [OF t d] t by (auto simp: grows_refl merge_len)
next
  case True
  define f where "f k = the (remap_get r k)" for k
  have "remap_get r (node_component n) = Some (f (node_component n))" if "n \<in> set (fork_nodes d)" for n
    using total that by (auto simp: f_def)
  moreover have "f (node_component (fork_rows d ! i)) = node_component (fork_rows d ! i)"
    if "0 < i" "i < inherited_len d" for i using fixed that by (simp add: f_def)
  ultimately obtain res u where u: "merge_delta put len tp tc td d r t = Some (res, u)" "ok u" "grows t u"
    "case res of Inl e \<Rightarrow> e = TableFull \<and> length (nodes u) = u32_max | Inr pr \<Rightarrow> True"
    using merge_delta_ok [OF t d, of r f] True by (fastforce split: sum.splits)
  then show ?thesis using True t by (cases res) (auto simp: merge_len)
qed

end

lemma builder_reads:
  assumes "builder_ok b"
  shows "builder_len b = length (table_nodes (builder_table b))"
    "i < length (table_nodes (builder_table b)) \<Longrightarrow>
      table_try_parent (builder_table b) (PathId i) = node_parent (table_nodes (builder_table b) ! i)
      \<and> table_try_component (builder_table b) (PathId i)
          = (if i = 0 then None else Some (node_component (table_nodes (builder_table b) ! i)))
      \<and> table_try_depth (builder_table b) (PathId i) = Some (table_depths (builder_table b) ! i)"
proof -
  have b: "base_ok (shared_base (builder_table b))" "trie_ok (table_nodes (builder_table b)) (table_depths (builder_table b))"
    using assms by (simp_all add: builder_ok_def path_table_ok_def)
  note c = table_columns [OF b(1)]
  show "builder_len b = length (table_nodes (builder_table b))" by (simp add: builder_len_def c)
  assume "i < length (table_nodes (builder_table b))"
  then show "table_try_parent (builder_table b) (PathId i) = node_parent (table_nodes (builder_table b) ! i)
      \<and> table_try_component (builder_table b) (PathId i)
          = (if i = 0 then None else Some (node_component (table_nodes (builder_table b) ! i)))
      \<and> table_try_depth (builder_table b) (PathId i) = Some (table_depths (builder_table b) ! i)"
    using trie_okD(1) [OF b(2)]
    by (simp add: table_try_parent_def table_try_component_def table_try_depth_def c slice_get_def path_root_def)
qed

interpretation builder_merge: path_merge builder_ok
  "\<lambda>b. table_nodes (builder_table b)" "\<lambda>b. table_depths (builder_table b)"
  "\<lambda>b. table_parent (builder_table b)" "\<lambda>b. table_component (builder_table b)" "\<lambda>b. table_depth (builder_table b)"
  builder_intern_child builder_len
  "\<lambda>b. table_try_parent (builder_table b)" "\<lambda>b. table_try_component (builder_table b)"
  "\<lambda>b. table_try_depth (builder_table b)"
  by unfold_locales (simp_all add: builder_reads)

interpretation fork_merge: path_merge fork_ok fork_rows fork_depth_rows fork_parent fork_component fork_depth
  fork_intern_child fork_len fork_try_parent fork_try_component fork_depth
  by unfold_locales (simp_all add: fork_columns(3) fork_accessors)

section \<open>Rendering\<close>

lemma intern_walk_append:
  "intern_walk put (as @ bs) p t =
     (case intern_walk put as p t of
        None \<Rightarrow> None
      | Some (None, u) \<Rightarrow> Some (None, u)
      | Some (Some q, u) \<Rightarrow> intern_walk put bs q u)"
  by (induction as arbitrary: p t) (auto split: option.splits prod.splits)

abbreviation builder_resolve :: "bool \<Rightarrow> path_interner_builder \<Rightarrow> path_id \<Rightarrow> string_id list option" where
  "builder_resolve dbg b \<equiv> resolve_components dbg (table_parent (builder_table b))
     (table_component (builder_table b)) (table_depth (builder_table b))"

abbreviation fork_resolve :: "bool \<Rightarrow> path_interner_fork \<Rightarrow> path_id \<Rightarrow> string_id list option" where
  "fork_resolve dbg f \<equiv> resolve_components dbg (fork_parent f) (fork_component f) (fork_depth f)"

abbreviation builder_render :: "bool \<Rightarrow> path_interner_builder \<Rightarrow> string_table \<Rightarrow> path_id \<Rightarrow> string option" where
  "builder_render dbg b strs \<equiv> render_portable_with dbg (table_parent (builder_table b))
     (table_component (builder_table b)) (table_depth (builder_table b)) (\<lambda>k. resolve k strs)"

abbreviation fork_render :: "bool \<Rightarrow> path_interner_fork \<Rightarrow> string_table \<Rightarrow> path_id \<Rightarrow> string option" where
  "fork_render dbg f strs \<equiv> render_portable_with dbg (fork_parent f) (fork_component f) (fork_depth f)
     (\<lambda>k. resolve k strs)"

fun join_slash :: "string list \<Rightarrow> string" where
  "join_slash [] = []"
| "join_slash [s] = s"
| "join_slash (s # t # ts) = s @ ''/'' @ join_slash (t # ts)"

lemma length_split_char: "length (split_char c s) \<le> length s + 1"
  by (induction s) (auto split: list.splits)

lemma split_char_nonempty: "split_char c s \<noteq> []"
  by (cases s) (auto split: list.splits)

lemma join_split: "join_slash (split_char (CHR ''/'') s) = s"
proof (induction s)
  case (Cons x xs)
  then show ?case
    using split_char_nonempty [of "CHR ''/''" xs]
    by (cases "split_char (CHR ''/'') xs" rule: join_slash.cases) auto
qed simp

lemma render_loop_tail:
  "map res ids = map Some ss \<Longrightarrow>
   render_loop res (Suc i) ids out = Some (out @ (if ss = [] then [] else ''/'' @ join_slash ss))"
proof (induction ids arbitrary: ss i out)
  case (Cons c ids)
  then obtain s rest where ss: "ss = s # rest" "res c = Some s" "map res ids = map Some rest" by (cases ss) auto
  with Cons.IH [OF ss(3)] show ?case by (cases rest) simp_all
qed simp

lemma render_loop_join:
  "map res ids = map Some ss \<Longrightarrow> render_loop res 0 ids [] = Some (join_slash ss)"
proof (cases ids)
  case (Cons c cs)
  assume "map res ids = map Some ss"
  then obtain s rest where ss: "ss = s # rest" "res c = Some s" "map res cs = map Some rest"
    using Cons by (cases ss) auto
  with render_loop_tail [OF ss(3), of 0 s] show ?thesis by (cases rest) (simp_all add: Cons)
qed simp

lemma render_loop_cong:
  "(\<And>k. k \<in> set ids \<Longrightarrow> res (f k) = res' k) \<Longrightarrow> render_loop res i (map f ids) out = render_loop res' i ids out"
  by (induction ids arbitrary: i out) (auto split: option.splits)

lemma set_path_of:
  assumes ok: "trie_ok ns ds" and i: "i < length ns"
  shows "set (path_of ns ds i) \<subseteq> {node_component (ns ! k) | k. 0 < k \<and> k < length ns}"
  using i
proof (induction i rule: less_induct)
  case (less i)
  show ?case
  proof (cases "i = 0")
    case False
    then have "0 < i" by simp
    then show ?thesis
    proof (rule trie_parentE [OF ok _ less.prems])
      fix j assume j: "j < i" "path_of ns ds i = path_of ns ds j @ [node_component (ns ! i)]"
      from less.IH [OF j(1)] j less.prems \<open>0 < i\<close> show ?thesis by auto
    qed
  qed (simp add: path_of_root [OF ok])
qed

section \<open>Properties\<close>

lemma empty_fork_ok: "fork_ok empty_fork" "fork_len empty_fork = 1"
proof -
  let ?s = "\<lparr> interner_table = shared_base new_path_table, interner_layers = [] \<rparr> :: path_interner_base"
  have rows: "flat_nodes (interner_table ?s) = table_nodes new_path_table"
    "flat_depths (interner_table ?s) = table_depths new_path_table"
    by (simp_all add: new_path_table_def table_from_parts_def table_nodes_def table_depths_def)
  have "base_ok (interner_table ?s)" "trie_ok (flat_nodes (interner_table ?s)) (flat_depths (interner_table ?s))"
    using new_path_table_ok(1) unfolding path_table_ok_def rows by simp_all
  moreover have "children_ok (flat_nodes (interner_table ?s)) (interner_layers ?s)"
    unfolding rows by (simp add: new_path_table_ok children_ok_def layers_child_def)
  ultimately show ok: "fork_ok empty_fork" unfolding empty_fork_def by (rule source_fork_ok)
  show "fork_len empty_fork = 1"
    using fork_columns(3) [OF ok] rows(1) by (simp add: fork_rows_def empty_fork_def source_fork_def new_path_table_ok)
qed

lemma fork_resolve_eq: "fork_ok f \<Longrightarrow> i < fork_len f \<Longrightarrow> fork_resolve dbg f (PathId i) = Some (fork_store.components f i)"
  by (simp add: fork_store.resolve_components_eq fork_columns(3))

lemma fork_resolve_stable:
  assumes "fork_ok f" "fork_ok g" "fork_store.grows f g" "k < fork_len f"
  shows "fork_resolve dbg g (PathId k) = fork_resolve dbg f (PathId k)"
  using assms fork_store.components_stable [OF assms(1,3), of k] fork_store.grows_length [OF assms(3)]
  by (simp add: fork_resolve_eq fork_columns(3))

text \<open>C27. Interning components and joining paths are exact: while names last, extending a path by a
  component list yields an identity that resolves to the concatenation, repeating the call returns
  the same identity and changes nothing, joining with a path of those components is the same
  extension, and every identity issued before keeps its components.\<close>

theorem interned_components_exact:
  assumes "fork_ok f" "i < fork_len f" "j < fork_len f" "fork_resolve dbg f (PathId i) = Some p"
    and "fork_resolve dbg f (PathId j) = Some cs" "fork_len f + length (p @ cs) < u32_max"
  shows "\<exists>q g. try_join dbg (PathId i) (PathId j) f = Some (Some q, g)
    \<and> try_intern_components (p @ cs) f = Some (Some q, g)
    \<and> fork_ok g \<and> fork_resolve dbg g q = Some (p @ cs)
    \<and> try_intern_components (p @ cs) g = Some (Some q, g)
    \<and> (\<forall>k < fork_len f. fork_resolve dbg g (PathId k) = fork_resolve dbg f (PathId k))"
proof -
  note len = fork_columns(3) [OF assms(1)]
  have i: "i < length (fork_rows f)" "fork_store.components f i = p" "fork_store.components f j = cs"
    using assms(2-5) by (simp_all add: fork_resolve_eq [OF assms(1)] len)
  note root = path_of_root [OF fork_store.reader_trie]
  have z: "0 < length (fork_rows f)" "path_root = PathId 0" using i by (auto simp: path_root_def)
  obtain q g where walk: "intern_walk fork_intern_child cs (PathId i) f = Some (Some q, g)"
    and w: "fork_store.walked f g (p @ cs) (Some q)"
    using fork_store.intern_walk_fits [OF assms(1) i(1), of cs] assms(6) len i(2) by auto
  from w have g: "fork_ok g" "fork_store.grows f g" "path_index q < length (fork_rows g)"
    "fork_store.components g (path_index q) = p @ cs" by (simp_all add: fork_store.walked_def)
  have "intern_walk fork_intern_child p (PathId 0) f = Some (Some (PathId i), f)"
    by (rule fork_store.intern_walk_found [OF assms(1) z(1) i(1)]) (simp add: root [OF assms(1)] i(2))
  then have "intern_walk fork_intern_child (p @ cs) (PathId 0) f = Some (Some q, g)"
    using walk by (simp add: intern_walk_append)
  moreover have "intern_walk fork_intern_child (p @ cs) (PathId 0) g = Some (Some (PathId (path_index q)), g)"
    using z(1) fork_store.grows_length [OF g(2)] g(3,4)
    by (intro fork_store.intern_walk_found [OF g(1)]) (auto simp: root [OF g(1)])
  moreover have "try_join dbg (PathId i) (PathId j) f = Some (Some q, g)"
    using walk assms(5) by (simp add: try_join_def)
  moreover have "fork_resolve dbg g q = Some (p @ cs)"
    using fork_resolve_eq [OF g(1), of "path_index q" dbg] g(3,4) by (simp add: fork_columns(3) [OF g(1)])
  ultimately show ?thesis
    using g(1) fork_resolve_stable [OF assms(1) g(1,2)] by (simp add: try_intern_components_def z(2))
qed

theorem interned_components_exact_witness:
  "\<exists>q g. try_join True path_root path_root empty_fork = Some (Some q, g) \<and> fork_resolve True g q = Some []"
proof -
  have "fork_resolve True empty_fork (PathId 0) = Some []"
    using fork_resolve_eq [OF empty_fork_ok(1), of 0 True] empty_fork_ok(2)
      path_of_root [OF fork_store.reader_trie [OF empty_fork_ok(1)]] by simp
  with interned_components_exact [OF empty_fork_ok(1), of 0 0 True "[]" "[]"] empty_fork_ok(2)
  show ?thesis by (auto simp: path_root_def)
qed

text \<open>C28. Portable spellings round-trip: while names last, interning any spelling and rendering the
  identity in the resulting tables returns the spelling, empty segments and the empty spelling
  included.\<close>

theorem portable_path_roundtrip:
  assumes "fork_ok f" "strings_ok strs"
    and "fork_len f + length s + 1 < u32_max" "table_len strs + length s + 1 \<le> u32_max"
  shows "\<exists>p strs' g. try_intern_portable_path fork_intern_child s strs f = Some (Inr p, strs', g)
    \<and> fork_ok g \<and> strings_ok strs' \<and> fork_render dbg g strs' p = Some s"
proof (cases "s = []")
  case True
  have "fork_resolve dbg f (PathId 0) = Some []"
    using fork_resolve_eq [OF assms(1), of 0 dbg] path_of_root [OF fork_store.reader_trie [OF assms(1)]]
      trie_okD(2) [OF fork_store.reader_trie [OF assms(1)]] by (simp add: fork_columns(3) [OF assms(1)])
  then show ?thesis
    using True assms by (simp add: try_intern_portable_path_def render_portable_with_def path_root_def)
next
  case False
  let ?cs = "map Some (split_char (CHR ''/'') s)"
  have cs: "length ?cs \<le> length s + 1" using length_split_char [of "CHR ''/''" s] by simp
  have z: "0 < length (fork_rows f)" using trie_okD(2) [OF fork_store.reader_trie [OF assms(1)]] .
  have "length (all_strings strs) + length ?cs \<le> u32_max" using assms(4) cs by (simp add: table_len_eq)
  from fork_store.intern_text_walk_ok [OF assms(1) z assms(2) this, of TableFull]
  obtain r strs' g where g: "intern_text_walk fork_intern_child TableFull ?cs (PathId 0) strs f = Some (r, strs', g)"
    "fork_ok g" "strings_ok strs'" "length (fork_rows g) \<le> length (fork_rows f) + length ?cs"
    "case r of
          Inl err \<Rightarrow> err = TableFull \<and> None \<in> set ?cs \<or> err = TableFull \<and> length (fork_rows g) = u32_max
        | Inr q \<Rightarrow> path_index q < length (fork_rows g) \<and>
            (\<exists>ids. fork_store.components g (path_index q) = fork_store.components f 0 @ ids
               \<and> map (\<lambda>k. try_resolve k strs') ids = ?cs)" by blast
  have "length (fork_rows g) < u32_max" using g(4) cs assms(3) by (simp add: fork_columns(3) [OF assms(1)])
  with g(5) obtain q ids where q: "r = Inr q" "path_index q < length (fork_rows g)"
    "fork_store.components g (path_index q) = ids" "map (\<lambda>k. try_resolve k strs') ids = ?cs"
    using path_of_root [OF fork_store.reader_trie [OF assms(1)]] by (cases r) auto
  have "fork_resolve dbg g q = Some ids"
    using fork_resolve_eq [OF g(2), of "path_index q" dbg] q(2,3) by (simp add: fork_columns(3) [OF g(2)])
  moreover have "render_loop (\<lambda>k. resolve k strs') 0 ids [] = Some (join_slash (split_char (CHR ''/'') s))"
    using q(4) by (intro render_loop_join) (simp add: resolve_def)
  ultimately show ?thesis
    using False g(1,2,3) q(1) by (simp add: try_intern_portable_path_def path_root_def render_portable_with_def join_split)
qed

theorem portable_path_roundtrip_witness:
  "\<exists>p strs g. try_intern_portable_path fork_intern_child ''lib//a'' new_table empty_fork = Some (Inr p, strs, g)
     \<and> fork_render True g strs p = Some ''lib//a''"
  using portable_path_roundtrip [OF empty_fork_ok(1) new_table_ok(1), of "''lib//a''" True] empty_fork_ok(2)
  by (auto simp: table_len_eq)

text \<open>Facts about the fork a worker starts from and grows.\<close>

lemma worker_fork:
  assumes b: "builder_ok b" and d: "fork_ok d" "fork_base d = builder_fork_source b"
    and b': "builder_store.grows b b'"
  shows "inherited_len d = builder_len b" "inherited_len d \<le> length (table_nodes (builder_table b'))"
    "same_rows (inherited_len d) (table_nodes (builder_table b')) (table_depths (builder_table b'))
       (fork_rows d) (fork_depth_rows d)"
    "\<And>i. i < inherited_len d \<Longrightarrow> fork_rows d ! i = table_nodes (builder_table b) ! i"
proof -
  let ?s = "builder_fork_source b" and ?n = "inherited_len d"
  have t: "base_ok (shared_base (builder_table b))" "trie_ok (table_nodes (builder_table b)) (table_depths (builder_table b))"
    "length (local_depths (builder_table b)) = length (local_nodes (builder_table b))"
    using b by (simp_all add: builder_ok_def path_table_ok_def)
  have s: "flat_nodes (interner_table ?s) = table_nodes (builder_table b)"
    "flat_depths (interner_table ?s) = table_depths (builder_table b)"
    using sealed_columns [OF t(1,3)] by (simp_all add: builder_fork_source_def)
  show n: "?n = builder_len b"
    by (simp add: fork_columns(4) [OF d(1)] d(2) s builder_reads(1) [OF b])
  have len: "?n = length (table_nodes (builder_table b))" "?n = length (table_depths (builder_table b))"
    by (simp_all add: n builder_reads(1) [OF b] trie_okD(1) [OF t(2)])
  obtain ns ds where grow: "table_nodes (builder_table b') = table_nodes (builder_table b) @ ns"
    "table_depths (builder_table b') = table_depths (builder_table b) @ ds"
    using b' by (auto simp: builder_store.grows_def prefix_def)
  then show "?n \<le> length (table_nodes (builder_table b'))" by (simp add: len(1))
  show rows: "fork_rows d ! i = table_nodes (builder_table b) ! i" if "i < ?n" for i
    using that len by (simp add: fork_rows_def d(2) s nth_append)
  have "fork_depth_rows d ! i = table_depths (builder_table b) ! i" if "i < ?n" for i
    using that len by (simp add: fork_depth_rows_def d(2) s nth_append)
  then show "same_rows ?n (table_nodes (builder_table b')) (table_depths (builder_table b')) (fork_rows d) (fork_depth_rows d)"
    using len by (simp add: same_rows_def grow nth_append rows)
qed

text \<open>C17. A worker's paths survive its merge. A module worker starts from a fork of the build's string
  table and of its path builder and interns further strings and paths, while the build grows by
  earlier merges. Merging the worker's strings and then its paths through the resulting remap never
  panics and never reports a mismatch while names last, and every path of the worker renders from
  the merged tables exactly as it rendered in the worker.\<close>

theorem worker_paths_survive_merge:
  assumes "strings_ok t" "strings_ok w" "strings_grow (fork_table (fork_for_module t)) w"
    and "strings_ok t'" "strings_grow t t'"
    and "builder_ok b" "fork_ok d" "fork_base d = builder_fork_source b"
    and "builder_ok b'" "builder_store.grows b b'"
    and "\<forall>i. 0 < i \<and> i < builder_len b \<longrightarrow> unat (node_component (table_nodes (builder_table b) ! i)) < table_len t"
    and "\<forall>n \<in> set (fork_nodes d). unat (node_component n) < table_len w"
    and "table_len t' + (table_len w - table_len t) \<le> u32_max"
    and "builder_len b' + length (fork_nodes d) < u32_max"
  shows "\<exists>r strs pr c. merge_delta_from dbg t' w (table_len t) = Some (r, strs)
    \<and> builder_merge_delta_from d r b' = Some (Inr pr, c) \<and> builder_ok c
    \<and> (\<forall>i < fork_len d. \<exists>q. path_remap_get pr (PathId i) = Some q
          \<and> builder_render dbg c strs q = fork_render dbg d w (PathId i))"
proof -
  note worker = worker_fork [OF assms(6,7,8,10)]
  have pre: "prefix (all_strings t) (all_strings w)" "prefix (all_strings t) (all_strings t')"
    using assms(3,5) by (simp_all add: strings_grow_def fork_facts from_shared_base_ok(2) [OF assms(1)])
  then obtain x y where xy: "all_strings w = all_strings t @ x" "all_strings t' = all_strings t @ y"
    by (auto simp: prefix_def)
  obtain r strs where r: "merge_delta_from dbg t' w (table_len t) = Some (r, strs)" "remap_correct r w strs"
    using merge_delta_from_correct [OF assms(4,2), of "table_len t" dbg] assms(13) by (auto simp: table_len_eq xy)
  have pl: "identity_prefix_len r = table_len t"
    using r(1) by (auto simp: merge_delta_from_def split: if_splits)
  define f where "f k = the (remap_get r k)" for k
  have total: "remap_get r k = Some (f k) \<and> resolve (f k) strs = resolve k w" if "unat k < table_len w" for k
  proof -
    have "try_resolve k w = Some (all_strings w ! unat k)" using that by (simp add: try_resolve_eq_Some table_len_eq)
    with r(2) show ?thesis by (fastforce simp: remap_correct_def f_def resolve_def)
  qed
  have low: "f k = k" if "unat k < table_len t" for k
    using that by (simp add: f_def remap_get_def pl)
  have row: "unat (node_component (fork_rows d ! i)) < table_len w" if "0 < i" "i < fork_len d" for i
  proof (cases "i < inherited_len d")
    case True
    then have "unat (node_component (fork_rows d ! i)) < table_len t" using assms(11) worker(1,4) that by simp
    then show ?thesis by (simp add: table_len_eq xy)
  next
    case False
    then have "fork_rows d ! i \<in> set (fork_nodes d)"
      using that fork_local_rows(2) [OF assms(7), of "i - inherited_len d"] by (auto simp: fork_len_def)
    then show ?thesis using assms(12) by blast
  qed
  obtain res c where c: "builder_merge_delta_from d r b' = Some (res, c)" "builder_ok c"
    "length (table_nodes (builder_table c)) \<le> length (table_nodes (builder_table b')) + length (fork_nodes d)"
    "case res of
         Inl e \<Rightarrow> e = TableFull \<and> length (table_nodes (builder_table c)) = u32_max
       | Inr pr \<Rightarrow>
           (\<forall>i < fork_len d. \<exists>j < length (table_nodes (builder_table c)). path_remap_get pr (PathId i) = Some (PathId j)
              \<and> builder_store.components c j = map f (fork_store.components d i))
           \<and> (path_is_identity pr \<longleftrightarrow> (\<forall>i < fork_len d. path_remap_get pr (PathId i) = Some (PathId i)))"
    using builder_merge.merge_delta_ok [OF assms(9,7) _ _ worker(2,3), of r f] total low assms(11,12) worker(1,4)
    unfolding builder_merge_delta_from_def by auto
  have "length (table_nodes (builder_table c)) < u32_max"
    using c(3) assms(14) builder_reads(1) [OF assms(9)] by simp
  with c(4) obtain pr where pr: "res = Inr pr"
    "\<And>i. i < fork_len d \<Longrightarrow> \<exists>j < length (table_nodes (builder_table c)). path_remap_get pr (PathId i) = Some (PathId j)
              \<and> builder_store.components c j = map f (fork_store.components d i)"
    by (cases res) auto
  have "\<exists>q. path_remap_get pr (PathId i) = Some q \<and> builder_render dbg c strs q = fork_render dbg d w (PathId i)"
    if i: "i < fork_len d" for i
  proof -
    from pr(2) [OF i] obtain j where j: "j < length (table_nodes (builder_table c))"
      "path_remap_get pr (PathId i) = Some (PathId j)" "builder_store.components c j = map f (fork_store.components d i)"
      by blast
    have "set (fork_store.components d i) \<subseteq> {node_component (fork_rows d ! k) | k. 0 < k \<and> k < length (fork_rows d)}"
      using set_path_of [OF fork_store.reader_trie [OF assms(7)]] i by (simp add: fork_columns(3) [OF assms(7)])
    then have "resolve (f k) strs = resolve k w" if "k \<in> set (fork_store.components d i)" for k
      using that row total fork_columns(3) [OF assms(7)] by auto
    then have "render_loop (\<lambda>k. resolve k strs) 0 (map f (fork_store.components d i)) []
        = render_loop (\<lambda>k. resolve k w) 0 (fork_store.components d i) []" by (rule render_loop_cong)
    then show ?thesis
      using j builder_store.resolve_components_eq [OF c(2) j(1), of dbg] fork_resolve_eq [OF assms(7) i, of dbg]
      by (auto simp: render_portable_with_def)
  qed
  with r(1) c(1,2) pr(1) show ?thesis by auto
qed

lemma worker_example:
  fixes k :: string_id
  defines "f \<equiv> source_fork (builder_fork_source new_builder)"
  shows "\<exists>d. fork_intern_child path_root k f = Some (Some (PathId 1), d) \<and> fork_ok d \<and> fork_base d = builder_fork_source new_builder
    \<and> fork_nodes d = [\<lparr> node_parent = Some path_root, node_component = k \<rparr>]"
proof -
  have f: "fork_ok f" "fork_rows f = table_nodes new_path_table" "fork_depth_rows f = table_depths new_path_table"
    using builder_fork_ok [OF new_builder_ok] by (simp_all add: f_def new_builder_def)
  have z: "0 < length (fork_rows f)" "fork_depth f (PathId 0) = Some 0"
    using fork_accessors(5) [OF f(1), of 0] by (simp_all add: f(2,3) new_path_table_ok)
  have "layers_child (interner_layers (fork_base f) @ [fork_lookup f]) (PathId 0, k) = None"
    by (simp add: f_def source_fork_def builder_fork_source_def new_builder_def layers_child_def)
  then obtain d where d: "fork_intern_child (PathId 0) k f = Some (Some (PathId 1), d)"
    "fork_base d = fork_base f" "fork_nodes d = fork_nodes f @ [\<lparr> node_parent = Some (PathId 0), node_component = k \<rparr>]"
    using z by (simp add: fork_intern_child_eq fork_columns(3) [OF f(1)] f(2) new_path_table_ok try_from_index_def)
  moreover have "fork_ok d" using fork_store.put_cases [OF f(1) z(1), of k] d(1) by auto
  moreover have "fork_base f = builder_fork_source new_builder" "fork_nodes f = []"
    by (simp_all add: f_def source_fork_def)
  ultimately show ?thesis by (simp add: path_root_def)
qed

theorem worker_paths_survive_merge_witness:
  "\<exists>w d r strs pr c q. intern ''x'' (fork_table (fork_for_module new_table)) = Some (0, w)
     \<and> fork_intern_child path_root 0 (source_fork (builder_fork_source new_builder)) = Some (Some (PathId 1), d)
     \<and> merge_delta_from True new_table w 0 = Some (r, strs)
     \<and> builder_merge_delta_from d r new_builder = Some (Inr pr, c)
     \<and> path_remap_get pr (PathId 1) = Some q \<and> builder_render True c strs q = fork_render True d w (PathId 1)"
proof -
  let ?f = "fork_table (fork_for_module new_table)"
  have f: "strings_ok ?f" "all_strings ?f = []"
    using from_shared_base_ok [OF new_table_ok(1)] by (simp_all add: fork_facts)
  obtain k w where kw: "intern ''x'' ?f = Some (k, w)" using intern_defined [OF f(1), of "''x''"] f(2) by auto
  note i = intern_Some [OF f(1) kw]
  have strs: "all_strings w = [''x'']" using i(6) f(2) by simp
  have "k = 0" using i(3) by (simp add: try_resolve_eq_Some strs unat_eq_zero)
  with kw have w: "intern ''x'' ?f = Some (0, w)" by simp
  obtain d where d: "fork_intern_child path_root 0 (source_fork (builder_fork_source new_builder)) = Some (Some (PathId 1), d)"
    "fork_ok d" "fork_base d = builder_fork_source new_builder"
    "fork_nodes d = [\<lparr> node_parent = Some path_root, node_component = 0 \<rparr>]"
    using worker_example [of 0] by blast
  have len: "builder_len new_builder = 1" "table_len new_table = 0" "table_len w = 1"
    using builder_reads(1) [OF new_builder_ok] by (simp_all add: new_builder_def new_path_table_ok table_len_eq strs)
  have "fork_len d = 2"
    using worker_fork(1) [OF new_builder_ok d(2,3) builder_store.grows_refl] by (simp add: fork_len_def d(4) len)
  moreover have "\<exists>r strs pr c. merge_delta_from True new_table w 0 = Some (r, strs)
    \<and> builder_merge_delta_from d r new_builder = Some (Inr pr, c) \<and> builder_ok c
    \<and> (\<forall>i < fork_len d. \<exists>q. path_remap_get pr (PathId i) = Some q
          \<and> builder_render True c strs q = fork_render True d w (PathId i))"
    using worker_paths_survive_merge [OF new_table_ok(1) i(1,2) new_table_ok(1) string_store.grows_refl
        new_builder_ok d(2,3) new_builder_ok builder_store.grows_refl, of True] len d(4) by auto
  ultimately obtain r strs pr c q where "merge_delta_from True new_table w 0 = Some (r, strs)"
    "builder_merge_delta_from d r new_builder = Some (Inr pr, c)"
    "path_remap_get pr (PathId 1) = Some q" "builder_render True c strs q = fork_render True d w (PathId 1)"
    by (metis one_less_numeral_iff semiring_norm(76))
  with w d(1) show ?thesis by blast
qed

text \<open>The outcome of a path merge is decided by the claimed base: the merge reports \<open>BaseMismatch\<close>
  and changes nothing exactly when the base rows are not the destination's first rows, and otherwise
  it keeps every destination path and reports only a full table, for builder and fork alike.\<close>

theorem path_merge_outcome:
  assumes "builder_ok b" "fork_ok g" "fork_ok d"
    and "\<forall>n \<in> set (fork_nodes d). remap_get r (node_component n) \<noteq> None"
    and "\<forall>i. 0 < i \<and> i < inherited_len d \<longrightarrow>
      remap_get r (node_component (fork_rows d ! i)) = Some (node_component (fork_rows d ! i))"
  shows "(\<exists>res c. builder_merge_delta_from d r b = Some (res, c) \<and> builder_ok c \<and> builder_store.grows b c
      \<and> ((\<exists>x y z. res = Inl (BaseMismatch x y z)) \<longleftrightarrow>
          \<not> (inherited_len d \<le> builder_len b \<and> same_rows (inherited_len d) (table_nodes (builder_table b))
               (table_depths (builder_table b)) (fork_rows d) (fork_depth_rows d)))
      \<and> ((\<exists>x y z. res = Inl (BaseMismatch x y z)) \<longrightarrow> c = b)
      \<and> (res = Inl TableFull \<longrightarrow> builder_len c = u32_max))
    \<and> (\<exists>res c. fork_merge_delta_from d r g = Some (res, c) \<and> fork_ok c \<and> fork_store.grows g c
      \<and> ((\<exists>x y z. res = Inl (BaseMismatch x y z)) \<longleftrightarrow>
          \<not> (inherited_len d \<le> fork_len g \<and> same_rows (inherited_len d) (fork_rows g)
               (fork_depth_rows g) (fork_rows d) (fork_depth_rows d)))
      \<and> ((\<exists>x y z. res = Inl (BaseMismatch x y z)) \<longrightarrow> c = g)
      \<and> (res = Inl TableFull \<longrightarrow> fork_len c = u32_max))"
  using builder_merge.merge_delta_outcome [OF assms(1,3-5)] fork_merge.merge_delta_outcome [OF assms(2-5)]
  unfolding builder_merge_delta_from_def fork_merge_delta_from_def by (rule conjI)

theorem path_merge_outcome_witness:
  "\<exists>res c. fork_merge_delta_from empty_fork \<lparr> identity_prefix_len = 0, mapped_suffix = [], remap_is_identity = True \<rparr>
      empty_fork = Some (res, c) \<and> fork_ok c"
proof -
  have "fork_nodes empty_fork = []" "inherited_len empty_fork = 1"
    using empty_fork_ok(2) by (simp_all add: empty_fork_def source_fork_def fork_len_def)
  then show ?thesis
    using path_merge_outcome [OF new_builder_ok empty_fork_ok(1) empty_fork_ok(1),
        of "\<lparr> identity_prefix_len = 0, mapped_suffix = [], remap_is_identity = True \<rparr>"] by auto
qed

end
