(* ===== verification/Module_Dependencies.thy ===== *)
theory Module_Dependencies
  imports Path_Interner Source_Span "HOL-Library.Product_Lexorder" "HOL-Library.List_Lexorder" "HOL-Library.Char_ord"
begin

text \<open>
  Stage 3 dependency ordering (\<open>module_dependencies.rs\<close>): retained ordering hints become resolved graph
  edges, a depth-first traversal emits every top-level header after the headers it depends on, and
  the entry's start functions are appended last.

  The \<open>HashSet\<close> of hints is the list of its elements in iteration order, and every theorem is for
  every such list. Payloads of headers that ordering does not read are left out, as are counters.
  The recursion \<open>visit_node\<close>/\<open>visit_dependency_edge\<close> takes fuel, one unit per nested header; running
  out and \<open>compiler_bug!\<close> are outcomes of their own, shown not to occur. Lookups of a path or string
  that the tables did not issue panic in the source; the identities of a module's headers are issued
  by the fork at hand, for which the lookups are total, and \<open>path_env\<close> reads them as total functions.
\<close>

section \<open>Headers and hints\<close>

datatype hint_origin = SourceOwned | ProviderSpelling | QualifiedTypeSpelling | ContentSource

record ordering_hint =
  hint_path :: path_id
  hint_origin :: hint_origin
  hint_occurrence :: "nat option"
  hint_occurrence_span :: "source_span option"

datatype header_kind =
    FunctionHeader | ConstantHeader | StructHeader | ChoiceHeader | TypeAliasHeader
  | ConstTemplateHeader | StartFunction | TraitHeader | TraitConformanceHeader | TraitIncompatibilityHeader

record header =
  header_kind :: header_kind
  declaration_path :: path_id
  local_ordering_hints :: "ordering_hint list"
  name_span :: "source_span option"
  header_source :: source_id

section \<open>Path lookups of the stage\<close>

record path_env =
  env_fork :: path_interner_fork
  env_strings :: string_table

definition env_components :: "path_env \<Rightarrow> path_id \<Rightarrow> string_id list" where
  "env_components env path =
     (case fork_resolve False (env_fork env) path of Some cs \<Rightarrow> cs | None \<Rightarrow> [])"

definition env_text :: "path_env \<Rightarrow> string_id \<Rightarrow> string" where
  "env_text env sid = (case try_resolve sid (env_strings env) of Some s \<Rightarrow> s | None \<Rightarrow> [])"

definition env_rendered :: "path_env \<Rightarrow> path_id \<Rightarrow> string" where
  "env_rendered env path =
     (case fork_render False (env_fork env) (env_strings env) path of Some s \<Rightarrow> s | None \<Rightarrow> [])"

definition env_parent :: "path_env \<Rightarrow> path_id \<Rightarrow> path_id option" where
  "env_parent env path = (case fork_parent (env_fork env) path of Some p \<Rightarrow> p | None \<Rightarrow> None)"

definition env_component :: "path_env \<Rightarrow> path_id \<Rightarrow> string_id option" where
  "env_component env path = (case fork_component (env_fork env) path of Some c \<Rightarrow> c | None \<Rightarrow> None)"

text \<open>\<open>match_package_prefix\<close> of \<open>source_packages/mod.rs\<close>; the map's keys come in iteration order.\<close>

primrec prefix_matches :: "path_env \<Rightarrow> string_id list \<Rightarrow> string list \<Rightarrow> nat \<Rightarrow> nat option" where
  "prefix_matches env components [] matched = Some matched"
| "prefix_matches env components (expected # rest) matched =
     (case slice_get components matched of
        None \<Rightarrow> None
      | Some actual \<Rightarrow>
          if env_text env actual \<noteq> expected then None
          else prefix_matches env components rest (matched + 1))"

definition match_package_prefix :: "path_env \<Rightarrow> string list \<Rightarrow> string_id list \<Rightarrow> (string \<times> nat) option" where
  "match_package_prefix env registered components =
     find_map (\<lambda>pre. map_option (\<lambda>matched. (pre, matched))
         (prefix_matches env components (split_char (CHR ''/'') pre) 0)) registered"

section \<open>The dependency graph\<close>

record dependency_graph =
  headers_by_path :: "path_id \<rightharpoonup> header"
  source_order_by_path :: "path_id \<rightharpoonup> nat"
  ordered_paths :: "path_id list"
  public_exports :: "(string \<times> string_id list) list"
  provider_interface_paths :: "path_id list"
  content_targets :: "source_id \<times> nat \<rightharpoonup> path_id"
  source_paths :: "source_id \<rightharpoonup> path_id"

datatype resolved_graph_path =
    HeaderPath path_id
  | ProviderInterfacePath path_id
  | SourcePackagePublicExportPath path_id

datatype dependency_edge_kind =
    GraphHeader | ProviderInterface | SourcePackagePublicExport | SameFileSymbolHint
  | MissingContentSource | MissingEdge

record dependency_edge =
  requested_path :: path_id
  resolved_path :: "path_id option"
  edge_span :: "source_span option"
  edge_source_order :: "nat option"
  edge_kind :: dependency_edge_kind

text \<open>The loop of \<open>from_headers\<close>.\<close>

definition insert_header :: "header \<Rightarrow> dependency_graph \<Rightarrow> dependency_graph" where
  "insert_header h g =
     (let path = declaration_path h in
      g \<lparr> source_order_by_path := (source_order_by_path g)(path \<mapsto> length (ordered_paths g)),
          ordered_paths := ordered_paths g @ [path],
          headers_by_path := (headers_by_path g)(path \<mapsto> h) \<rparr>)"

record graph_inputs =
  in_public_exports :: "(string \<times> string_id list) list"
  in_provider_paths :: "path_id list"
  in_content_targets :: "source_id \<times> nat \<rightharpoonup> path_id"
  in_source_paths :: "source_id \<rightharpoonup> path_id"

definition from_headers :: "graph_inputs \<Rightarrow> header list \<Rightarrow> dependency_graph" where
  "from_headers inp headers =
     fold insert_header headers
       \<lparr> headers_by_path = Map.empty, source_order_by_path = Map.empty, ordered_paths = [],
         public_exports = in_public_exports inp, provider_interface_paths = in_provider_paths inp,
         content_targets = in_content_targets inp, source_paths = in_source_paths inp \<rparr>"

definition is_source_package_public_export_path :: "path_env \<Rightarrow> dependency_graph \<Rightarrow> path_id \<Rightarrow> bool" where
  "is_source_package_public_export_path env g path =
     (case match_package_prefix env (map fst (public_exports g)) (env_components env path) of
        None \<Rightarrow> False
      | Some (package_prefix, _) \<Rightarrow>
          (case env_component env path of
             None \<Rightarrow> False
           | Some export_name \<Rightarrow>
               (case map_of (public_exports g) package_prefix of
                  None \<Rightarrow> False
                | Some entries \<Rightarrow> export_name \<in> set entries)))"

definition resolve_requested_path ::
  "path_env \<Rightarrow> dependency_graph \<Rightarrow> path_id \<Rightarrow> resolved_graph_path option" where
  "resolve_requested_path env g path =
     (if headers_by_path g path \<noteq> None then Some (HeaderPath path)
      else if path \<in> set (provider_interface_paths g) then Some (ProviderInterfacePath path)
      else if is_source_package_public_export_path env g path
        then Some (SourcePackagePublicExportPath path)
      else None)"

definition source_order_for_requested_path ::
  "path_env \<Rightarrow> dependency_graph \<Rightarrow> path_id \<Rightarrow> nat option" where
  "source_order_for_requested_path env g path =
     (case resolve_requested_path env g path of
        Some (HeaderPath p) \<Rightarrow> source_order_by_path g p
      | _ \<Rightarrow> None)"

definition is_same_file_symbol_hint :: "path_env \<Rightarrow> path_id \<Rightarrow> path_id \<Rightarrow> bool" where
  "is_same_file_symbol_hint env path source_file \<longleftrightarrow> env_parent env path = Some source_file"

definition content_header_path :: "dependency_graph \<Rightarrow> ordering_hint \<Rightarrow> source_id \<Rightarrow> path_id option" where
  "content_header_path g hint referencing_file =
     (case hint_occurrence hint of
        None \<Rightarrow> None
      | Some occurrence \<Rightarrow> content_targets g (referencing_file, occurrence))"

text \<open>\<open>None\<close> is the panic of a header whose source has no prepared path.\<close>

definition resolve_dependency_edge ::
  "path_env \<Rightarrow> dependency_graph \<Rightarrow> header \<Rightarrow> ordering_hint \<Rightarrow> dependency_edge option" where
  "resolve_dependency_edge env g h hint =
     (let is_content = (hint_origin hint = ContentSource);
          sp = (if is_content
                  then (case hint_occurrence_span hint of Some s \<Rightarrow> Some s | None \<Rightarrow> name_span h)
                  else name_span h)
      in case (if is_content then content_header_path g hint (header_source h)
               else Some (hint_path hint)) of
           None \<Rightarrow> Some \<lparr> requested_path = hint_path hint, resolved_path = None, edge_span = sp,
                          edge_source_order = None, edge_kind = MissingContentSource \<rparr>
         | Some requested \<Rightarrow>
             let source_order = source_order_for_requested_path env g requested;
                 edge = (\<lambda>resolved kind. \<lparr> requested_path = requested, resolved_path = resolved,
                            edge_span = sp, edge_source_order = source_order, edge_kind = kind \<rparr>)
             in case resolve_requested_path env g requested of
                  Some (HeaderPath p) \<Rightarrow> Some (edge (Some p) GraphHeader)
                | Some (SourcePackagePublicExportPath p) \<Rightarrow> Some (edge (Some p) SourcePackagePublicExport)
                | Some (ProviderInterfacePath p) \<Rightarrow> Some (edge (Some p) ProviderInterface)
                | None \<Rightarrow>
                    (case source_paths g (header_source h) of
                       None \<Rightarrow> None
                     | Some source_file \<Rightarrow>
                         if is_same_file_symbol_hint env requested source_file
                         then Some (edge None SameFileSymbolHint)
                         else if is_content then Some (edge None MissingContentSource)
                         else Some (edge None MissingEdge)))"

primrec collect_edges ::
  "path_env \<Rightarrow> dependency_graph \<Rightarrow> header \<Rightarrow> ordering_hint list \<Rightarrow> path_id set \<Rightarrow> dependency_edge list \<Rightarrow>
   dependency_edge list option" where
  "collect_edges env g h [] seen_targets edges = Some edges"
| "collect_edges env g h (hint # hints) seen_targets edges =
     (case resolve_dependency_edge env g h hint of
        None \<Rightarrow> None
      | Some edge \<Rightarrow>
          (case resolved_path edge of
             None \<Rightarrow> collect_edges env g h hints seen_targets (edges @ [edge])
           | Some target \<Rightarrow>
               if target \<in> seen_targets then collect_edges env g h hints seen_targets edges
               else collect_edges env g h hints (insert target seen_targets) (edges @ [edge])))"

definition source_order_for_edge :: "dependency_edge \<Rightarrow> nat" where
  "source_order_for_edge edge = (case edge_source_order edge of Some n \<Rightarrow> n | None \<Rightarrow> usize_max)"

text \<open>The stable \<open>sort_by\<close> on source order, then on the rendered path.\<close>

definition sorted_dependency_edges_for_header ::
  "path_env \<Rightarrow> dependency_graph \<Rightarrow> header \<Rightarrow> dependency_edge list option" where
  "sorted_dependency_edges_for_header env g h =
     map_option (sort_key (\<lambda>edge. (source_order_for_edge edge, env_rendered env (requested_path edge))))
       (collect_edges env g h (local_ordering_hints h) {} [])"

section \<open>The traversal\<close>

record dependency_tracker =
  temp_mark :: "path_id set"
  visited :: "path_id set"
  visit_stack :: "path_id list"
  visit_count :: nat

definition new_tracker :: dependency_tracker where
  "new_tracker = \<lparr> temp_mark = {}, visited = {}, visit_stack = [], visit_count = 0 \<rparr>"

definition enter :: "path_id \<Rightarrow> dependency_tracker \<Rightarrow> dependency_tracker" where
  "enter path t = t \<lparr> temp_mark := insert path (temp_mark t), visit_stack := visit_stack t @ [path] \<rparr>"

definition is_in_current_stack :: "path_id \<Rightarrow> dependency_tracker \<Rightarrow> bool" where
  "is_in_current_stack path t \<longleftrightarrow> path \<in> temp_mark t"

definition abandon :: "path_id \<Rightarrow> dependency_tracker \<Rightarrow> dependency_tracker" where
  "abandon path t =
     (let t = t \<lparr> temp_mark := temp_mark t - {path} \<rparr> in
      if visit_stack t \<noteq> [] \<and> last (visit_stack t) = path
      then t \<lparr> visit_stack := butlast (visit_stack t) \<rparr>
      else t \<lparr> visit_stack := filter (\<lambda>p. p \<noteq> path) (visit_stack t) \<rparr>)"

definition finish :: "path_id \<Rightarrow> dependency_tracker \<Rightarrow> dependency_tracker" where
  "finish path t = (let t = abandon path t in t \<lparr> visited := insert path (visited t) \<rparr>)"

datatype dependency_diagnostic =
    MissingImportTarget path_id "source_span option"
  | CircularDependency path_id "source_span option"

datatype visit_stop = Diagnosed dependency_diagnostic | CompilerBug | OutOfFuel

type_synonym visit_state = "dependency_tracker \<times> header list"
type_synonym visit_result = "(visit_stop, unit) result \<times> visit_state"

text \<open>\<open>visit_dependency_edge\<close>, with the recursive call as the argument \<open>visit\<close>.\<close>

definition visit_dependency_edge ::
  "(path_id \<Rightarrow> source_span option \<Rightarrow> visit_state \<Rightarrow> visit_result) \<Rightarrow> dependency_edge \<Rightarrow> visit_state \<Rightarrow> visit_result" where
  "visit_dependency_edge visit edge st =
     (case edge_kind edge of
        GraphHeader \<Rightarrow>
          (case resolved_path edge of
             None \<Rightarrow> (Inl CompilerBug, st)
           | Some path \<Rightarrow> visit path (edge_span edge) st)
      | ProviderInterface \<Rightarrow>
          (case resolved_path edge of
             None \<Rightarrow> (Inr (), st)
           | Some path \<Rightarrow> (Inr (), (fst st) \<lparr> visited := insert path (visited (fst st)) \<rparr>, snd st))
      | SourcePackagePublicExport \<Rightarrow>
          (case resolved_path edge of
             None \<Rightarrow> (Inr (), st)
           | Some path \<Rightarrow> (Inr (), (fst st) \<lparr> visited := insert path (visited (fst st)) \<rparr>, snd st))
      | SameFileSymbolHint \<Rightarrow> (Inr (), st)
      | MissingContentSource \<Rightarrow> (Inr (), st)
      | MissingEdge \<Rightarrow> (Inl (Diagnosed (MissingImportTarget (requested_path edge) (edge_span edge))), st))"

primrec visit_edges ::
  "(path_id \<Rightarrow> source_span option \<Rightarrow> visit_state \<Rightarrow> visit_result) \<Rightarrow> dependency_edge list \<Rightarrow> visit_state \<Rightarrow> visit_result" where
  "visit_edges visit [] st = (Inr (), st)"
| "visit_edges visit (edge # edges) st =
     (case visit_dependency_edge visit edge st of
        (Inl e, st) \<Rightarrow> (Inl e, st)
      | (Inr _, st) \<Rightarrow> visit_edges visit edges st)"

primrec visit_node ::
  "nat \<Rightarrow> path_env \<Rightarrow> dependency_graph \<Rightarrow> path_id \<Rightarrow> source_span option \<Rightarrow> visit_state \<Rightarrow> visit_result" where
  "visit_node 0 env g path sp st = (Inl OutOfFuel, st)"
| "visit_node (Suc fuel) env g path sp st =
     (let t = (fst st) \<lparr> visit_count := visit_count (fst st) + 1 \<rparr>; emitted = snd st in
      case resolve_requested_path env g path of
        None \<Rightarrow> (Inl (Diagnosed (MissingImportTarget path sp)), t, emitted)
      | Some (ProviderInterfacePath p) \<Rightarrow> (Inr (), t \<lparr> visited := insert p (visited t) \<rparr>, emitted)
      | Some (SourcePackagePublicExportPath p) \<Rightarrow> (Inr (), t \<lparr> visited := insert p (visited t) \<rparr>, emitted)
      | Some (HeaderPath p) \<Rightarrow>
          if is_in_current_stack p t then (Inl (Diagnosed (CircularDependency p sp)), t, emitted)
          else if p \<in> visited t then (Inr (), t, emitted)
          else (case headers_by_path g p of
                  None \<Rightarrow> (Inl CompilerBug, t, emitted)
                | Some h \<Rightarrow>
                    (case sorted_dependency_edges_for_header env g h of
                       None \<Rightarrow> (Inl CompilerBug, t, emitted)
                     | Some edges \<Rightarrow>
                         (case visit_edges (visit_node fuel env g) edges (enter p t, emitted) of
                            (Inl e, t, emitted) \<Rightarrow> (Inl e, abandon p t, emitted)
                          | (Inr _, t, emitted) \<Rightarrow> (Inr (), finish p t, emitted @ [h])))))"

section \<open>The stage\<close>

primrec visit_roots ::
  "nat \<Rightarrow> path_env \<Rightarrow> dependency_graph \<Rightarrow> path_id list \<Rightarrow> visit_state \<Rightarrow> dependency_diagnostic list \<Rightarrow>
   (visit_stop, dependency_diagnostic list) result \<times> visit_state" where
  "visit_roots fuel env g [] st bag = (Inr bag, st)"
| "visit_roots fuel env g (path # paths) st bag =
     (if path \<in> visited (fst st) then visit_roots fuel env g paths st bag
      else
        let sp = (case headers_by_path g path of Some h \<Rightarrow> name_span h | None \<Rightarrow> None)
        in case visit_node fuel env g path sp st of
             (Inr _, st) \<Rightarrow> visit_roots fuel env g paths st bag
           | (Inl (Diagnosed d), st) \<Rightarrow> visit_roots fuel env g paths st (bag @ [d])
           | (Inl stop, st) \<Rightarrow> (Inl stop, st))"

definition is_start :: "header \<Rightarrow> bool" where
  "is_start h \<longleftrightarrow> header_kind h = StartFunction"

definition top_level :: "header list \<Rightarrow> header list" where
  "top_level headers = filter (\<lambda>h. \<not> is_start h) headers"

definition traversal_fuel :: "header list \<Rightarrow> nat" where
  "traversal_fuel headers = Suc (length (top_level headers))"

datatype ordering_outcome =
    SortedHeaders "header list"
  | DiagnosedBatch "dependency_diagnostic list"
  | OrderingPanic visit_stop

definition resolve_module_dependencies ::
  "path_env \<Rightarrow> graph_inputs \<Rightarrow> header list \<Rightarrow> ordering_outcome" where
  "resolve_module_dependencies env inp headers =
     (let start_headers = filter is_start headers;
          g = from_headers inp (top_level headers)
      in case visit_roots (traversal_fuel headers) env g (ordered_paths g) (new_tracker, []) [] of
           (Inl stop, _) \<Rightarrow> OrderingPanic stop
         | (Inr bag, _, emitted) \<Rightarrow>
             if bag \<noteq> [] then DiagnosedBatch bag else SortedHeaders (emitted @ start_headers))"

section \<open>What the hints ask for\<close>

definition hint_target :: "dependency_graph \<Rightarrow> header \<Rightarrow> ordering_hint \<Rightarrow> path_id option" where
  "hint_target g h hint =
     (if hint_origin hint = ContentSource then content_header_path g hint (header_source h)
      else Some (hint_path hint))"

text \<open>A header depends on the headers its hints name.\<close>

definition header_depends :: "dependency_graph \<Rightarrow> header \<Rightarrow> path_id \<Rightarrow> bool" where
  "header_depends g h q \<longleftrightarrow>
     headers_by_path g q \<noteq> None \<and> (\<exists>hint \<in> set (local_ordering_hints h). hint_target g h hint = Some q)"

definition depends_on :: "dependency_graph \<Rightarrow> (path_id \<times> path_id) set" where
  "depends_on g = {(p, q). \<exists>h. headers_by_path g p = Some h \<and> header_depends g h q}"

text \<open>A hint that names nothing known, and nothing the same file may still declare.\<close>

definition header_missing :: "path_env \<Rightarrow> dependency_graph \<Rightarrow> header \<Rightarrow> path_id \<Rightarrow> bool" where
  "header_missing env g h q \<longleftrightarrow>
     (\<exists>hint \<in> set (local_ordering_hints h). hint_origin hint \<noteq> ContentSource \<and> hint_path hint = q)
     \<and> resolve_requested_path env g q = None
     \<and> (\<forall>f. source_paths g (header_source h) = Some f \<longrightarrow> env_parent env q \<noteq> Some f)"

lemma resolve_requested_header:
  "headers_by_path g q \<noteq> None \<Longrightarrow> resolve_requested_path env g q = Some (HeaderPath q)"
  by (simp add: resolve_requested_path_def)

lemma resolve_requested_cases:
  assumes "headers_by_path g q = None"
  shows "resolve_requested_path env g q \<in> {None, Some (ProviderInterfacePath q), Some (SourcePackagePublicExportPath q)}"
  using assms by (simp add: resolve_requested_path_def)

text \<open>The edge of one hint.\<close>

lemma resolve_edge_header:
  assumes "hint_target g h hint = Some q" "headers_by_path g q \<noteq> None"
  shows "\<exists>e. resolve_dependency_edge env g h hint = Some e \<and> edge_kind e = GraphHeader \<and> resolved_path e = Some q"
  using assms resolve_requested_header [OF assms(2), of env]
  by (auto simp: resolve_dependency_edge_def hint_target_def Let_def split: if_splits)

lemma resolve_edge_kinds:
  assumes "resolve_dependency_edge env g h hint = Some e"
  shows "edge_kind e = GraphHeader \<Longrightarrow>
      \<exists>q. resolved_path e = Some q \<and> hint_target g h hint = Some q \<and> headers_by_path g q \<noteq> None"
    and "edge_kind e \<noteq> GraphHeader \<Longrightarrow> resolved_path e = Some q \<Longrightarrow> headers_by_path g q = None"
    and "edge_kind e = MissingEdge \<Longrightarrow> resolved_path e = None \<and> hint_origin hint \<noteq> ContentSource
      \<and> hint_path hint = requested_path e \<and> resolve_requested_path env g (requested_path e) = None
      \<and> (\<forall>f. source_paths g (header_source h) = Some f \<longrightarrow> env_parent env (requested_path e) \<noteq> Some f)"
proof -
  show "edge_kind e = GraphHeader \<Longrightarrow>
      \<exists>q. resolved_path e = Some q \<and> hint_target g h hint = Some q \<and> headers_by_path g q \<noteq> None"
    "edge_kind e \<noteq> GraphHeader \<Longrightarrow> resolved_path e = Some q \<Longrightarrow> headers_by_path g q = None"
    using assms
    by (auto simp: resolve_dependency_edge_def hint_target_def Let_def resolve_requested_path_def
        split: option.splits if_splits)
  show "edge_kind e = MissingEdge \<Longrightarrow> resolved_path e = None \<and> hint_origin hint \<noteq> ContentSource
      \<and> hint_path hint = requested_path e \<and> resolve_requested_path env g (requested_path e) = None
      \<and> (\<forall>f. source_paths g (header_source h) = Some f \<longrightarrow> env_parent env (requested_path e) \<noteq> Some f)"
    using assms
    by (auto simp: resolve_dependency_edge_def is_same_file_symbol_hint_def Let_def
        split: option.splits if_splits resolved_graph_path.splits)
qed

lemma resolve_edge_missing:
  assumes "hint_origin hint \<noteq> ContentSource" "resolve_requested_path env g (hint_path hint) = None"
    and "source_paths g (header_source h) = Some f" "env_parent env (hint_path hint) \<noteq> Some f"
  shows "\<exists>e. resolve_dependency_edge env g h hint = Some e \<and> edge_kind e = MissingEdge
    \<and> requested_path e = hint_path hint \<and> resolved_path e = None"
  using assms by (simp add: resolve_dependency_edge_def is_same_file_symbol_hint_def Let_def)

lemma resolve_edge_defined:
  "source_paths g (header_source h) = Some f \<Longrightarrow> resolve_dependency_edge env g h hint \<noteq> None"
  by (auto simp: resolve_dependency_edge_def Let_def split: option.splits resolved_graph_path.splits)

text \<open>The collected edges: one per distinct target, every unresolved one, nothing else.\<close>

lemma collect_edges_defined:
  assumes "source_paths g (header_source h) = Some f"
  shows "\<exists>es. collect_edges env g h hints seen acc = Some es"
  using resolve_edge_defined [OF assms, of env]
  by (induction hints arbitrary: seen acc) (auto split: option.splits)

lemma collect_edges_sound:
  "collect_edges env g h hints seen acc = Some es \<Longrightarrow> e \<in> set es \<Longrightarrow>
   e \<in> set acc \<or> (\<exists>hint \<in> set hints. resolve_dependency_edge env g h hint = Some e)"
  by (induction hints arbitrary: seen acc) (force split: option.splits if_splits)+

lemma collect_edges_keeps: "collect_edges env g h hints seen acc = Some es \<Longrightarrow> set acc \<subseteq> set es"
  by (induction hints arbitrary: seen acc) (force split: option.splits if_splits)+

lemma collect_edges_complete:
  "collect_edges env g h hints seen acc = Some es \<Longrightarrow> hint \<in> set hints \<Longrightarrow>
   resolve_dependency_edge env g h hint = Some e \<Longrightarrow>
   (resolved_path e = None \<longrightarrow> e \<in> set es)
   \<and> (\<forall>q. resolved_path e = Some q \<longrightarrow> q \<in> seen \<or> (\<exists>e' \<in> set es. resolved_path e' = Some q))"
proof (induction hints arbitrary: seen acc)
  case (Cons x hints)
  obtain d where d: "resolve_dependency_edge env g h x = Some d"
    using Cons.prems(1) by (auto split: option.splits)
  show ?case
  proof (cases "resolved_path d")
    case None
    then have rest: "collect_edges env g h hints seen (acc @ [d]) = Some es" using Cons.prems(1) d by simp
    then have "d \<in> set es" using collect_edges_keeps by fastforce
    with Cons.IH [OF rest _ Cons.prems(3)] Cons.prems(2,3) d None show ?thesis by auto
  next
    case (Some p)
    show ?thesis
    proof (cases "p \<in> seen")
      case True
      then have "collect_edges env g h hints seen acc = Some es" using Cons.prems(1) d Some by simp
      with Cons.IH [OF this _ Cons.prems(3)] Cons.prems(2,3) d Some True show ?thesis by auto
    next
      case False
      then have rest: "collect_edges env g h hints (insert p seen) (acc @ [d]) = Some es"
        using Cons.prems(1) d Some by simp
      then have "d \<in> set es" using collect_edges_keeps by fastforce
      with Cons.IH [OF rest _ Cons.prems(3)] Cons.prems(2,3) d Some show ?thesis by auto
    qed
  qed
qed simp

definition good_edge :: "dependency_graph \<Rightarrow> dependency_edge \<Rightarrow> bool" where
  "good_edge g e \<longleftrightarrow>
     (edge_kind e = GraphHeader \<longrightarrow> (\<exists>q. resolved_path e = Some q \<and> headers_by_path g q \<noteq> None))
     \<and> (edge_kind e \<noteq> GraphHeader \<longrightarrow> (\<forall>q. resolved_path e = Some q \<longrightarrow> headers_by_path g q = None))"

lemma header_edges:
  assumes src: "source_paths g (header_source h) = Some f"
  shows "\<exists>es. sorted_dependency_edges_for_header env g h = Some es
    \<and> (\<forall>q. header_depends g h q \<longleftrightarrow> (\<exists>e \<in> set es. edge_kind e = GraphHeader \<and> resolved_path e = Some q))
    \<and> (\<forall>q. header_missing env g h q \<longleftrightarrow> (\<exists>e \<in> set es. edge_kind e = MissingEdge \<and> requested_path e = q))
    \<and> (\<forall>e \<in> set es. good_edge g e)"
proof -
  obtain es where es: "collect_edges env g h (local_ordering_hints h) {} [] = Some es"
    using collect_edges_defined [OF src] by blast
  let ?hints = "local_ordering_hints h"
  have sound: "\<exists>hint \<in> set ?hints. resolve_dependency_edge env g h hint = Some e" if "e \<in> set es" for e
    using collect_edges_sound [OF es that] by simp
  have dep: "header_depends g h q \<longleftrightarrow> (\<exists>e \<in> set es. edge_kind e = GraphHeader \<and> resolved_path e = Some q)" for q
  proof
    assume "header_depends g h q"
    then obtain hint where hint: "hint \<in> set ?hints" "hint_target g h hint = Some q" "headers_by_path g q \<noteq> None"
      by (auto simp: header_depends_def)
    then obtain e where "resolve_dependency_edge env g h hint = Some e" "resolved_path e = Some q"
      using resolve_edge_header by blast
    with collect_edges_complete [OF es hint(1)] obtain e' where e': "e' \<in> set es" "resolved_path e' = Some q" by blast
    obtain hint' where "resolve_dependency_edge env g h hint' = Some e'" using sound [OF e'(1)] by blast
    from resolve_edge_kinds(2) [OF this, of q] e'(2) hint(3) have "edge_kind e' = GraphHeader" by auto
    with e' show "\<exists>e \<in> set es. edge_kind e = GraphHeader \<and> resolved_path e = Some q" by blast
  next
    assume "\<exists>e \<in> set es. edge_kind e = GraphHeader \<and> resolved_path e = Some q"
    then obtain e hint where "edge_kind e = GraphHeader" "resolved_path e = Some q" "hint \<in> set ?hints"
      "resolve_dependency_edge env g h hint = Some e" using sound by blast
    with resolve_edge_kinds(1) [of env g h hint e] show "header_depends g h q" by (auto simp: header_depends_def)
  qed
  have mis: "header_missing env g h q \<longleftrightarrow> (\<exists>e \<in> set es. edge_kind e = MissingEdge \<and> requested_path e = q)" for q
  proof
    assume "header_missing env g h q"
    then obtain hint where hint: "hint \<in> set ?hints" "hint_origin hint \<noteq> ContentSource" "hint_path hint = q"
      "resolve_requested_path env g q = None" "env_parent env q \<noteq> Some f" using src by (auto simp: header_missing_def)
    then obtain e where e: "resolve_dependency_edge env g h hint = Some e" "edge_kind e = MissingEdge"
      "requested_path e = q" "resolved_path e = None" using resolve_edge_missing [OF hint(2) _ src] by blast
    with collect_edges_complete [OF es hint(1) e(1)]
    show "\<exists>e \<in> set es. edge_kind e = MissingEdge \<and> requested_path e = q" by auto
  next
    assume "\<exists>e \<in> set es. edge_kind e = MissingEdge \<and> requested_path e = q"
    then obtain e hint where e: "edge_kind e = MissingEdge" "requested_path e = q" "hint \<in> set ?hints"
      "resolve_dependency_edge env g h hint = Some e" using sound by blast
    with resolve_edge_kinds(3) [OF e(4,1)] show "header_missing env g h q" by (auto simp: header_missing_def)
  qed
  have "good_edge g e" if "e \<in> set es" for e
  proof -
    from sound [OF that] obtain hint where "resolve_dependency_edge env g h hint = Some e" by blast
    from resolve_edge_kinds(1,2) [OF this] show ?thesis by (auto simp: good_edge_def)
  qed
  with dep mis es show ?thesis by (auto simp: sorted_dependency_edges_for_header_def)
qed

section \<open>The traversal invariant\<close>

definition emitted_paths :: "header list \<Rightarrow> path_id set" where
  "emitted_paths hs = declaration_path ` set hs"

text \<open>Headers come after everything they depend on, and none has a missing hint.\<close>

fun dependencies_first :: "dependency_graph \<Rightarrow> path_id set \<Rightarrow> header list \<Rightarrow> bool" where
  "dependencies_first g before [] \<longleftrightarrow> True"
| "dependencies_first g before (h # hs) \<longleftrightarrow>
     {q. header_depends g h q} \<subseteq> before \<and> dependencies_first g (insert (declaration_path h) before) hs"

lemma dependencies_first_snoc:
  "dependencies_first g before (hs @ [h]) \<longleftrightarrow>
     dependencies_first g before hs \<and> {q. header_depends g h q} \<subseteq> before \<union> emitted_paths hs"
  by (induction hs arbitrary: before) (auto simp: emitted_paths_def)

lemma dependencies_first_nth:
  "dependencies_first g before hs \<Longrightarrow> i < length hs \<Longrightarrow> header_depends g (hs ! i) q \<Longrightarrow>
   q \<in> before \<or> (\<exists>j < i. declaration_path (hs ! j) = q)"
proof (induction hs arbitrary: before i)
  case (Cons h hs)
  show ?case
  proof (cases i)
    case 0
    with Cons.prems show ?thesis by auto
  next
    case (Suc k)
    with Cons.prems have "q \<in> insert (declaration_path h) before \<or> (\<exists>j < k. declaration_path (hs ! j) = q)"
      by (intro Cons.IH) auto
    then show ?thesis using Suc by (auto intro: exI [of _ 0] exI [of _ "Suc _"])
  qed
qed simp

definition traversal_ok :: "path_env \<Rightarrow> dependency_graph \<Rightarrow> visit_state \<Rightarrow> bool" where
  "traversal_ok env g st \<longleftrightarrow>
     emitted_paths (snd st) = visited (fst st) \<inter> dom (headers_by_path g)
     \<and> distinct (map declaration_path (snd st))
     \<and> (\<forall>h \<in> set (snd st). headers_by_path g (declaration_path h) = Some h \<and> (\<forall>q. \<not> header_missing env g h q))
     \<and> dependencies_first g {} (snd st)"

definition graph_ok :: "dependency_graph \<Rightarrow> bool" where
  "graph_ok g \<longleftrightarrow> finite (dom (headers_by_path g))
     \<and> (\<forall>p h. headers_by_path g p = Some h \<longrightarrow> declaration_path h = p \<and> source_paths g (header_source h) \<noteq> None)"

text \<open>What a diagnostic says of the graph, seen from a node whose ancestors are \<open>T\<close>.\<close>

fun justified :: "path_env \<Rightarrow> dependency_graph \<Rightarrow> path_id set \<Rightarrow> path_id \<Rightarrow> dependency_diagnostic \<Rightarrow> bool" where
  "justified env g T p (CircularDependency q _) \<longleftrightarrow>
     (p, q) \<in> (depends_on g)\<^sup>* \<and> (q \<in> T \<or> (q, q) \<in> (depends_on g)\<^sup>+)"
| "justified env g T p (MissingImportTarget q _) \<longleftrightarrow>
     (\<exists>m h. (p, m) \<in> (depends_on g)\<^sup>* \<and> headers_by_path g m = Some h \<and> header_missing env g h q)"

text \<open>A call changes the state only by emitting headers and marking them.\<close>

definition advances :: "path_env \<Rightarrow> dependency_graph \<Rightarrow> visit_state \<Rightarrow> visit_state \<Rightarrow> bool" where
  "advances env g st st' \<longleftrightarrow>
     traversal_ok env g st' \<and> temp_mark (fst st') = temp_mark (fst st)
     \<and> visit_stack (fst st') = visit_stack (fst st) \<and> visited (fst st) \<subseteq> visited (fst st')
     \<and> visited (fst st') \<inter> temp_mark (fst st) \<subseteq> visited (fst st) \<union> - dom (headers_by_path g)"

lemma advances_refl: "traversal_ok env g st \<Longrightarrow> advances env g st st"
  by (auto simp: advances_def)

lemma advances_trans: "advances env g st st' \<Longrightarrow> advances env g st' st'' \<Longrightarrow> advances env g st st''"
  by (fastforce simp: advances_def)

lemma advances_ok: "advances env g st st' \<Longrightarrow> traversal_ok env g st'" by (simp add: advances_def)

lemma advances_mark:
  assumes "traversal_ok env g st" "headers_by_path g p = None"
  shows "advances env g st ((fst st) \<lparr> visited := insert p (visited (fst st)) \<rparr>, snd st)"
  using assms by (auto simp: advances_def traversal_ok_def)

text \<open>The contract of a visit: it returns, and either the node is emitted or a diagnostic is justified.\<close>

definition visit_outcome :: "path_env \<Rightarrow> dependency_graph \<Rightarrow> path_id \<Rightarrow> visit_state \<Rightarrow> visit_result \<Rightarrow> bool" where
  "visit_outcome env g p st res \<longleftrightarrow>
     advances env g st (snd res)
     \<and> (case fst res of
          Inr _ \<Rightarrow> p \<in> visited (fst (snd res))
        | Inl stop \<Rightarrow> \<exists>d. stop = Diagnosed d \<and> justified env g (temp_mark (fst st)) p d)"

lemma visit_edges_outcome:
  assumes V: "\<And>q sp st. headers_by_path g q \<noteq> None \<Longrightarrow> traversal_ok env g st \<Longrightarrow> temp_mark (fst st) = T \<Longrightarrow>
      visit_outcome env g q st (visit q sp st)"
  shows "traversal_ok env g st \<Longrightarrow> temp_mark (fst st) = T \<Longrightarrow> \<forall>e \<in> set es. good_edge g e \<Longrightarrow>
    advances env g st (snd (visit_edges visit es st))
    \<and> (case fst (visit_edges visit es st) of
         Inr _ \<Rightarrow> (\<forall>e \<in> set es. edge_kind e \<noteq> MissingEdge
             \<and> (\<forall>q. edge_kind e = GraphHeader \<and> resolved_path e = Some q \<longrightarrow>
                   q \<in> visited (fst (snd (visit_edges visit es st)))))
       | Inl stop \<Rightarrow> \<exists>d. stop = Diagnosed d \<and>
           ((\<exists>e \<in> set es. \<exists>q. edge_kind e = GraphHeader \<and> resolved_path e = Some q \<and> justified env g T q d)
            \<or> (\<exists>e \<in> set es. edge_kind e = MissingEdge \<and> d = MissingImportTarget (requested_path e) (edge_span e))))"
proof (induction es arbitrary: st)
  case Nil
  then show ?case by (simp add: advances_refl)
next
  case (Cons e es)
  let ?step = "visit_dependency_edge visit e st"
  have e: "good_edge g e" using Cons.prems(3) by simp
  have step: "advances env g st (snd ?step)
    \<and> (case fst ?step of
         Inr _ \<Rightarrow> edge_kind e \<noteq> MissingEdge
             \<and> (\<forall>q. edge_kind e = GraphHeader \<and> resolved_path e = Some q \<longrightarrow> q \<in> visited (fst (snd ?step)))
       | Inl stop \<Rightarrow> \<exists>d. stop = Diagnosed d \<and>
           ((\<exists>q. edge_kind e = GraphHeader \<and> resolved_path e = Some q \<and> justified env g T q d)
            \<or> (edge_kind e = MissingEdge \<and> d = MissingImportTarget (requested_path e) (edge_span e))))"
  proof (cases "edge_kind e")
    case GraphHeader
    with e obtain q where q: "resolved_path e = Some q" "headers_by_path g q \<noteq> None" by (auto simp: good_edge_def)
    with V [OF q(2) Cons.prems(1,2), of "edge_span e"] GraphHeader Cons.prems(2) show ?thesis
      by (auto simp: visit_dependency_edge_def visit_outcome_def split: sum.splits)
  qed (use e Cons.prems(1) advances_refl [OF Cons.prems(1)] advances_mark [OF Cons.prems(1)] in
      \<open>auto simp: visit_dependency_edge_def good_edge_def split: option.splits\<close>)
  obtain r st1 where st1: "?step = (r, st1)" by (cases ?step)
  show ?case
  proof (cases r)
    case (Inl stop)
    then show ?thesis using step by (auto simp: st1)
  next
    case (Inr u)
    from step have a: "advances env g st st1" by (simp add: st1)
    then have "temp_mark (fst st1) = T" "traversal_ok env g st1" using Cons.prems(2) by (simp_all add: advances_def)
    note IH = Cons.IH [OF this(2,1)]
    have mono: "visited (fst st1) \<subseteq> visited (fst (snd (visit_edges visit es st1)))"
      using IH Cons.prems(3) by (simp add: advances_def)
    from IH Cons.prems(3) step mono advances_trans [OF a] show ?thesis
      by (auto simp: st1 Inr split: sum.splits)
  qed
qed

lemma justified_step:
  assumes "(p, q) \<in> depends_on g" "justified env g (insert p T) q d"
  shows "justified env g T p d"
proof (cases d)
  case (CircularDependency c sp)
  then have c: "(q, c) \<in> (depends_on g)\<^sup>*" "c \<in> insert p T \<or> (c, c) \<in> (depends_on g)\<^sup>+" using assms(2) by simp_all
  have "(p, c) \<in> (depends_on g)\<^sup>+" using assms(1) c(1) by (rule rtrancl_into_trancl2)
  with c(2) show ?thesis by (auto simp: CircularDependency)
next
  case (MissingImportTarget m sp)
  with assms show ?thesis by (auto intro: converse_rtrancl_into_rtrancl)
qed

text \<open>The bookkeeping around the edge loop restores the marks and the stack.\<close>

lemma abandon_entered:
  assumes "temp_mark t = insert p (temp_mark u)" "visit_stack t = visit_stack u @ [p]" "p \<notin> temp_mark u"
  shows "temp_mark (abandon p t) = temp_mark u" "visit_stack (abandon p t) = visit_stack u"
    "visited (abandon p t) = visited t"
    "temp_mark (finish p t) = temp_mark u" "visit_stack (finish p t) = visit_stack u"
    "visited (finish p t) = insert p (visited t)"
  using assms by (auto simp: abandon_def finish_def Let_def)

lemma advances_leave:
  assumes "advances env g (enter p t, hs) (t2, hs2)" "p \<notin> temp_mark t"
    and "visited t \<subseteq> visited u" "temp_mark u = temp_mark t" "visit_stack u = visit_stack t"
    and "visited u \<inter> temp_mark t \<subseteq> visited t2" "traversal_ok env g (u, hs')"
  shows "advances env g (t, hs) (u, hs')"
  using assms by (auto simp: advances_def enter_def)

lemma emit_header:
  assumes g: "graph_ok g" and h: "headers_by_path g p = Some h" and ok: "traversal_ok env g (t, hs)"
    and new: "p \<notin> visited t" and deps: "\<And>q. header_depends g h q \<Longrightarrow> q \<in> visited t"
    and mis: "\<And>q. \<not> header_missing env g h q" and u: "visited u = insert p (visited t)"
  shows "traversal_ok env g (u, hs @ [h])"
proof -
  have p: "declaration_path h = p" using g h by (simp add: graph_ok_def)
  have em: "emitted_paths hs = visited t \<inter> dom (headers_by_path g)" using ok by (simp add: traversal_ok_def)
  have "emitted_paths (hs @ [h]) = insert p (emitted_paths hs)" by (auto simp: emitted_paths_def p)
  also have "\<dots> = visited u \<inter> dom (headers_by_path g)" using h by (auto simp: em u)
  finally have 1: "emitted_paths (hs @ [h]) = visited u \<inter> dom (headers_by_path g)" .
  have "p \<notin> declaration_path ` set hs" using em new by (simp add: emitted_paths_def)
  then have 2: "distinct (map declaration_path (hs @ [h]))" using ok by (simp add: traversal_ok_def p)
  have "{q. header_depends g h q} \<subseteq> emitted_paths hs" using deps by (auto simp: em header_depends_def)
  then have "dependencies_first g {} (hs @ [h])" using ok by (simp add: traversal_ok_def dependencies_first_snoc)
  with 1 2 ok h mis show ?thesis by (auto simp: traversal_ok_def p)
qed

lemma visit_node_outcome:
  assumes g: "graph_ok g"
  shows "headers_by_path g p \<noteq> None \<Longrightarrow> traversal_ok env g st \<Longrightarrow>
    card (dom (headers_by_path g) - temp_mark (fst st)) < fuel \<Longrightarrow>
    visit_outcome env g p st (visit_node fuel env g p sp st)"
proof (induction fuel arbitrary: p sp st)
  case (Suc n)
  obtain t0 hs where st: "st = (t0, hs)" by (cases st)
  define t where "t = t0 \<lparr> visit_count := Suc (visit_count t0) \<rparr>"
  let ?H = "dom (headers_by_path g)" and ?T = "temp_mark t0"
  have t: "temp_mark t = ?T" "visited t = visited t0" "visit_stack t = visit_stack t0" by (simp_all add: t_def)
  have ok: "traversal_ok env g (t, hs)" using Suc.prems(2) by (simp add: st traversal_ok_def t)
  have lift: "visit_outcome env g p st res" if "visit_outcome env g p (t, hs) res" for res
    using that by (cases "fst res") (simp_all add: visit_outcome_def advances_def st t)
  obtain h where h: "headers_by_path g p = Some h" using Suc.prems(1) by auto
  have res: "resolve_requested_path env g p = Some (HeaderPath p)" using resolve_requested_header [OF Suc.prems(1)] .
  have unfold: "visit_node (Suc n) env g p sp st =
     (if p \<in> temp_mark t then (Inl (Diagnosed (CircularDependency p sp)), t, hs)
      else if p \<in> visited t then (Inr (), t, hs)
      else case sorted_dependency_edges_for_header env g h of
             None \<Rightarrow> (Inl CompilerBug, t, hs)
           | Some edges \<Rightarrow>
               (case visit_edges (visit_node n env g) edges (enter p t, hs) of
                  (Inl e, t, emitted) \<Rightarrow> (Inl e, abandon p t, emitted)
                | (Inr _, t, emitted) \<Rightarrow> (Inr (), finish p t, emitted @ [h])))"
    unfolding t_def by (simp add: st res h is_in_current_stack_def Let_def)
  show ?case
  proof (cases "p \<in> temp_mark t \<or> p \<in> visited t")
    case True
    then show ?thesis unfolding unfold
      using advances_refl [OF ok] by (intro lift) (auto simp: visit_outcome_def)
  next
    case False
    then have pT: "p \<notin> temp_mark t" "p \<notin> visited t" by (simp_all add: t)
    have "source_paths g (header_source h) \<noteq> None" using g h by (simp add: graph_ok_def)
    then obtain es where es: "sorted_dependency_edges_for_header env g h = Some es"
      "\<And>q. header_depends g h q \<longleftrightarrow> (\<exists>e \<in> set es. edge_kind e = GraphHeader \<and> resolved_path e = Some q)"
      "\<And>q. header_missing env g h q \<longleftrightarrow> (\<exists>e \<in> set es. edge_kind e = MissingEdge \<and> requested_path e = q)"
      "\<forall>e \<in> set es. good_edge g e" using header_edges [of g h _ env] by blast
    let ?st = "(enter p t, hs)"
    have ent: "temp_mark (fst ?st) = insert p ?T" "traversal_ok env g ?st"
      using ok by (simp_all add: enter_def t traversal_ok_def)
    have fin: "finite ?H" using g by (simp add: graph_ok_def)
    have "card (?H - insert p ?T) < card (?H - ?T)"
      using fin h pT by (intro psubset_card_mono) (auto simp: t)
    then have fuel: "card (?H - insert p ?T) < n" using Suc.prems(3) by (simp add: st)
    have loop: "advances env g ?st (snd (visit_edges (visit_node n env g) es ?st))
      \<and> (case fst (visit_edges (visit_node n env g) es ?st) of
         Inr _ \<Rightarrow> (\<forall>e \<in> set es. edge_kind e \<noteq> MissingEdge
             \<and> (\<forall>q. edge_kind e = GraphHeader \<and> resolved_path e = Some q \<longrightarrow>
                   q \<in> visited (fst (snd (visit_edges (visit_node n env g) es ?st)))))
       | Inl stop \<Rightarrow> \<exists>d. stop = Diagnosed d \<and>
           ((\<exists>e \<in> set es. \<exists>q. edge_kind e = GraphHeader \<and> resolved_path e = Some q \<and> justified env g (insert p ?T) q d)
            \<or> (\<exists>e \<in> set es. edge_kind e = MissingEdge \<and> d = MissingImportTarget (requested_path e) (edge_span e))))"
      by (rule visit_edges_outcome) (use Suc.IH fuel ent es(4) in auto)
    obtain r t2 hs2 where run: "visit_edges (visit_node n env g) es ?st = (r, t2, hs2)"
      by (cases "visit_edges (visit_node n env g) es ?st") auto
    have adv: "advances env g ?st (t2, hs2)" using loop by (simp add: run)
    then have t2: "temp_mark t2 = insert p (temp_mark t)" "visit_stack t2 = visit_stack t @ [p]"
      "traversal_ok env g (t2, hs2)" "visited t \<subseteq> visited t2" "p \<notin> visited t2"
      using h pT by (auto simp: advances_def enter_def)
    note leave = abandon_entered [OF t2(1,2) pT(1)]
    show ?thesis
    proof (cases r)
      case (Inl stop)
      have node: "visit_node (Suc n) env g p sp st = (Inl stop, abandon p t2, hs2)"
        unfolding unfold using pT by (simp add: es(1) run Inl)
      have "traversal_ok env g (abandon p t2, hs2)" using t2(3) by (simp add: traversal_ok_def leave)
      then have "advances env g (t, hs) (abandon p t2, hs2)"
        by (intro advances_leave [OF adv pT(1)]) (use t2(4) leave in auto)
      moreover have "\<exists>d. stop = Diagnosed d \<and> justified env g ?T p d"
      proof -
        from loop obtain d where d: "stop = Diagnosed d"
          "(\<exists>e \<in> set es. \<exists>q. edge_kind e = GraphHeader \<and> resolved_path e = Some q \<and> justified env g (insert p ?T) q d)
            \<or> (\<exists>e \<in> set es. edge_kind e = MissingEdge \<and> d = MissingImportTarget (requested_path e) (edge_span e))"
          by (auto simp: run Inl)
        from d(2) have "justified env g ?T p d"
        proof (elim disjE bexE exE conjE)
          fix e q assume e: "e \<in> set es" "edge_kind e = GraphHeader" "resolved_path e = Some q"
            and j: "justified env g (insert p ?T) q d"
          have "(p, q) \<in> depends_on g" using e es(2) h by (auto simp: depends_on_def)
          then show ?thesis using j by (rule justified_step)
        next
          fix e assume "e \<in> set es" "edge_kind e = MissingEdge" "d = MissingImportTarget (requested_path e) (edge_span e)"
          then show ?thesis using es(3) h by auto
        qed
        with d(1) show ?thesis by blast
      qed
      ultimately show ?thesis unfolding node by (intro lift) (simp add: visit_outcome_def t)
    next
      case (Inr unit)
      have node: "visit_node (Suc n) env g p sp st = (Inr (), finish p t2, hs2 @ [h])"
        unfolding unfold using pT by (simp add: es(1) run Inr)
      have edges: "\<forall>e \<in> set es. edge_kind e \<noteq> MissingEdge
             \<and> (\<forall>q. edge_kind e = GraphHeader \<and> resolved_path e = Some q \<longrightarrow> q \<in> visited t2)"
        using loop by (simp add: run Inr)
      have "traversal_ok env g (finish p t2, hs2 @ [h])"
        by (rule emit_header [OF g h t2(3,5)]) (use edges es(2,3) leave in auto)
      then have "advances env g (t, hs) (finish p t2, hs2 @ [h])"
        by (intro advances_leave [OF adv pT(1)]) (use t2(4) pT leave in auto)
      then show ?thesis unfolding node by (intro lift) (simp add: visit_outcome_def leave)
    qed
  qed
qed simp

section \<open>The whole stage\<close>

lemma fold_insert_lookup:
  "headers_by_path (fold insert_header hs g) p = Some h \<Longrightarrow>
     headers_by_path g p = Some h \<or> (h \<in> set hs \<and> declaration_path h = p)"
proof (induction hs arbitrary: g)
  case (Cons a hs)
  from Cons.IH [of "insert_header a g"] Cons.prems show ?case
    by (auto simp: insert_header_def Let_def split: if_splits)
qed simp

lemma fold_insert_header:
  "dom (headers_by_path (fold insert_header hs g)) = dom (headers_by_path g) \<union> declaration_path ` set hs"
  "ordered_paths (fold insert_header hs g) = ordered_paths g @ map declaration_path hs"
  "source_paths (fold insert_header hs g) = source_paths g"
  by (induction hs arbitrary: g) (auto simp: insert_header_def Let_def split: if_splits)

lemma from_headers_facts:
  "headers_by_path (from_headers inp hs) p = Some h \<Longrightarrow> h \<in> set hs \<and> declaration_path h = p"
  "dom (headers_by_path (from_headers inp hs)) = declaration_path ` set hs"
  "ordered_paths (from_headers inp hs) = map declaration_path hs"
  "source_paths (from_headers inp hs) = in_source_paths inp"
  unfolding from_headers_def by (auto simp: fold_insert_header dest: fold_insert_lookup)

lemma from_headers_ok:
  "\<forall>h \<in> set hs. in_source_paths inp (header_source h) \<noteq> None \<Longrightarrow> graph_ok (from_headers inp hs)"
  by (auto simp: graph_ok_def from_headers_facts dest: from_headers_facts(1))

lemma from_headers_distinct:
  assumes "distinct (map declaration_path hs)" "h \<in> set hs"
  shows "headers_by_path (from_headers inp hs) (declaration_path h) = Some h"
proof -
  have "declaration_path h \<in> dom (headers_by_path (from_headers inp hs))"
    using assms(2) by (simp add: from_headers_facts)
  then obtain h' where "headers_by_path (from_headers inp hs) (declaration_path h) = Some h'" by blast
  moreover from from_headers_facts(1) [OF this] assms have "h' = h" by (auto simp: distinct_map inj_on_def)
  ultimately show ?thesis by simp
qed

lemma visit_roots_outcome:
  assumes g: "graph_ok g" and fuel: "card (dom (headers_by_path g)) < fuel"
  shows "traversal_ok env g st \<Longrightarrow> temp_mark (fst st) = {} \<Longrightarrow> set paths \<subseteq> dom (headers_by_path g) \<Longrightarrow>
    \<exists>ds st'. visit_roots fuel env g paths st bag = (Inr (bag @ ds), st') \<and> traversal_ok env g st'
      \<and> visited (fst st) \<subseteq> visited (fst st') \<and> (\<forall>d \<in> set ds. \<exists>p. justified env g {} p d)
      \<and> (ds = [] \<longrightarrow> set paths \<subseteq> visited (fst st'))"
proof (induction paths arbitrary: st bag)
  case (Cons p paths)
  show ?case
  proof (cases "p \<in> visited (fst st)")
    case True
    obtain ds st' where "visit_roots fuel env g paths st bag = (Inr (bag @ ds), st')" "traversal_ok env g st'"
      "visited (fst st) \<subseteq> visited (fst st')" "\<forall>d \<in> set ds. \<exists>p. justified env g {} p d"
      "ds = [] \<longrightarrow> set paths \<subseteq> visited (fst st')"
      using Cons.IH [OF Cons.prems(1,2), of bag] Cons.prems(3) by auto
    with True show ?thesis by (intro exI [of _ ds] exI [of _ st']) auto
  next
    case False
    let ?sp = "case headers_by_path g p of Some h \<Rightarrow> name_span h | None \<Rightarrow> None"
    obtain r st1 where run: "visit_node fuel env g p ?sp st = (r, st1)" by (cases "visit_node fuel env g p ?sp st")
    have "headers_by_path g p \<noteq> None" using Cons.prems(3) by auto
    from visit_node_outcome [OF g this Cons.prems(1), of fuel ?sp] fuel Cons.prems(2)
    have out: "visit_outcome env g p st (r, st1)" by (simp add: run)
    then have st1: "traversal_ok env g st1" "temp_mark (fst st1) = {}" "visited (fst st) \<subseteq> visited (fst st1)"
      using Cons.prems(2) by (auto simp: visit_outcome_def advances_def)
    have "\<exists>ds. visit_roots fuel env g (p # paths) st bag = visit_roots fuel env g paths st1 (bag @ ds)
        \<and> (\<forall>d \<in> set ds. justified env g {} p d) \<and> (ds = [] \<longrightarrow> p \<in> visited (fst st1))"
    proof (cases r)
      case (Inl stop)
      then obtain d where "stop = Diagnosed d" "justified env g {} p d"
        using out Cons.prems(2) by (auto simp: visit_outcome_def)
      then show ?thesis using False by (intro exI [of _ "[d]"]) (simp add: run Inl)
    next
      case (Inr u)
      then show ?thesis using False out by (intro exI [of _ "[]"]) (simp add: run visit_outcome_def)
    qed
    then obtain ds where ds: "visit_roots fuel env g (p # paths) st bag = visit_roots fuel env g paths st1 (bag @ ds)"
      "\<forall>d \<in> set ds. justified env g {} p d" "ds = [] \<longrightarrow> p \<in> visited (fst st1)" by blast
    obtain ds' st' where "visit_roots fuel env g paths st1 (bag @ ds) = (Inr ((bag @ ds) @ ds'), st')"
      "traversal_ok env g st'" "visited (fst st1) \<subseteq> visited (fst st')" "\<forall>d \<in> set ds'. \<exists>p. justified env g {} p d"
      "ds' = [] \<longrightarrow> set paths \<subseteq> visited (fst st')"
      using Cons.IH [OF st1(1,2), of "bag @ ds"] Cons.prems(3) by auto
    with ds st1(3) show ?thesis by (intro exI [of _ "ds @ ds'"] exI [of _ st']) auto
  qed
qed simp

lemma traversal_fuel_enough:
  "card (dom (headers_by_path (from_headers inp (top_level headers)))) < traversal_fuel headers"
  using card_image_le [of "set (top_level headers)" declaration_path] card_length [of "top_level headers"]
  by (simp add: from_headers_facts traversal_fuel_def)

text \<open>The run of the stage, in one statement the properties below read off.\<close>

lemma stage_run:
  fixes env inp headers
  defines "g \<equiv> from_headers inp (top_level headers)"
  assumes src: "\<forall>h \<in> set (top_level headers). in_source_paths inp (header_source h) \<noteq> None"
  shows "\<exists>ds top. traversal_ok env g top \<and> (\<forall>d \<in> set ds. \<exists>p. justified env g {} p d)
    \<and> (ds = [] \<longrightarrow> dom (headers_by_path g) \<subseteq> visited (fst top))
    \<and> resolve_module_dependencies env inp headers =
        (if ds \<noteq> [] then DiagnosedBatch ds else SortedHeaders (snd top @ filter is_start headers))"
proof -
  have g: "graph_ok g" unfolding g_def by (rule from_headers_ok [OF src])
  have "traversal_ok env g (new_tracker, [])"
    by (simp add: traversal_ok_def new_tracker_def emitted_paths_def)
  moreover have "set (ordered_paths g) = dom (headers_by_path g)" by (simp add: g_def from_headers_facts)
  ultimately obtain ds st where run: "visit_roots (traversal_fuel headers) env g (ordered_paths g) (new_tracker, []) [] = (Inr ds, st)"
    "traversal_ok env g st" "\<forall>d \<in> set ds. \<exists>p. justified env g {} p d" "ds = [] \<longrightarrow> dom (headers_by_path g) \<subseteq> visited (fst st)"
    using visit_roots_outcome [OF g traversal_fuel_enough [of inp headers, folded g_def], of env "(new_tracker, [])" "ordered_paths g" "[]"]
    by (auto simp: new_tracker_def)
  moreover have "resolve_module_dependencies env inp headers =
        (if ds \<noteq> [] then DiagnosedBatch ds else SortedHeaders (snd st @ filter is_start headers))"
    using run(1) by (simp add: resolve_module_dependencies_def Let_def g_def [symmetric] split: prod.splits)
  ultimately show ?thesis by blast
qed

text \<open>A list with dependencies first leaves no room for a cycle.\<close>

lemma dependencies_first_acyclic:
  assumes first: "dependencies_first g {} hs"
    and own: "\<forall>h \<in> set hs. headers_by_path g (declaration_path h) = Some h"
    and all: "dom (headers_by_path g) \<subseteq> emitted_paths hs"
  shows "acyclic (depends_on g)"
proof -
  define sits where "sits p i \<longleftrightarrow> i < length hs \<and> declaration_path (hs ! i) = p" for p i
  define pos where "pos p = (LEAST i. sits p i)" for p
  have pos: "pos p < length hs" "declaration_path (hs ! pos p) = p" if "p \<in> emitted_paths hs" for p
  proof -
    have "\<exists>i. sits p i" using that by (force simp: emitted_paths_def sits_def in_set_conv_nth)
    then have "sits p (pos p)" unfolding pos_def by (rule LeastI_ex)
    then show "pos p < length hs" "declaration_path (hs ! pos p) = p" by (simp_all add: sits_def)
  qed
  have least: "pos q \<le> j" if "j < length hs" "declaration_path (hs ! j) = q" for q j
    unfolding pos_def using that by (intro Least_le) (simp add: sits_def)
  have "pos q < pos p" if "(p, q) \<in> depends_on g" for p q
  proof -
    from that obtain h where h: "headers_by_path g p = Some h" "header_depends g h q" by (auto simp: depends_on_def)
    then have p: "p \<in> emitted_paths hs" using all by auto
    have "hs ! pos p = h" using own pos [OF p] h(1) by (metis nth_mem option.inject)
    with dependencies_first_nth [OF first pos(1) [OF p], of q] h(2) obtain j where
      "j < pos p" "declaration_path (hs ! j) = q" by auto
    then show ?thesis using least [of j q] pos(1) [OF p] by simp
  qed
  then have "(depends_on g)\<inverse> \<subseteq> measure pos" by auto
  then show ?thesis by (meson acyclic_converse acyclic_subset wf_acyclic wf_measure)
qed

section \<open>A small module\<close>

text \<open>Header 1 names header 2, header 4 names nothing known, header 3 is the start function.\<close>

definition spelled :: "path_id \<Rightarrow> ordering_hint" where
  "spelled p = \<lparr> hint_path = p, hint_origin = ProviderSpelling, hint_occurrence = None, hint_occurrence_span = None \<rparr>"

definition sample_header :: "header_kind \<Rightarrow> nat \<Rightarrow> ordering_hint list \<Rightarrow> header" where
  "sample_header kind i hints =
     \<lparr> header_kind = kind, declaration_path = PathId i, local_ordering_hints = hints, name_span = None,
       header_source = SourceId 0 \<rparr>"

definition sample_module :: "header list" where
  "sample_module =
     [sample_header StartFunction 3 [], sample_header ConstantHeader 1 [spelled (PathId 2)],
      sample_header StructHeader 2 []]"

definition broken_module :: "header list" where
  "broken_module = [sample_header ConstantHeader 4 [spelled (PathId 9)]]"

definition sample_inputs :: graph_inputs where
  "sample_inputs = \<lparr> in_public_exports = [], in_provider_paths = [], in_content_targets = Map.empty,
     in_source_paths = [SourceId 0 \<mapsto> PathId 0] \<rparr>"

definition sample_env :: path_env where
  "sample_env = \<lparr> env_fork = empty_fork, env_strings = new_table \<rparr>"

lemmas sample_defs = spelled_def sample_header_def sample_module_def broken_module_def sample_inputs_def
  top_level_def is_start_def

lemma sample_sources:
  "\<forall>h \<in> set (top_level sample_module). in_source_paths sample_inputs (header_source h) \<noteq> None"
  "\<forall>h \<in> set (top_level broken_module). in_source_paths sample_inputs (header_source h) \<noteq> None"
  "distinct (map declaration_path (top_level sample_module))"
  by (simp_all add: sample_defs)

lemma sample_run:
  "resolve_module_dependencies sample_env sample_inputs sample_module =
     SortedHeaders [sample_header StructHeader 2 [], sample_header ConstantHeader 1 [spelled (PathId 2)],
       sample_header StartFunction 3 []]"
  by (simp add: resolve_module_dependencies_def traversal_fuel_def from_headers_def insert_header_def
      resolve_requested_path_def sorted_dependency_edges_for_header_def resolve_dependency_edge_def
      source_order_for_requested_path_def visit_dependency_edge_def enter_def finish_def abandon_def
      is_in_current_stack_def new_tracker_def sample_defs Let_def)

lemma broken_run:
  "resolve_module_dependencies sample_env sample_inputs broken_module =
     DiagnosedBatch [MissingImportTarget (PathId 9) None]"
  by (simp add: resolve_module_dependencies_def traversal_fuel_def from_headers_def insert_header_def
      resolve_requested_path_def sorted_dependency_edges_for_header_def resolve_dependency_edge_def
      source_order_for_requested_path_def visit_dependency_edge_def enter_def abandon_def
      is_in_current_stack_def new_tracker_def sample_defs is_source_package_public_export_path_def
      match_package_prefix_def is_same_file_symbol_hint_def env_parent_def fork_parent_def sample_env_def
      empty_fork_def source_fork_def new_path_table_def table_from_parts_def base_from_parts_def
      slice_get_def Let_def)

section \<open>Properties\<close>

text \<open>C3. The order of the stage: with distinct declaration paths and known sources, a successful run
  lists every top-level header exactly once, each one after all headers its ordering hints name, and
  the start functions last in source order.\<close>

theorem module_order_correct:
  assumes "distinct (map declaration_path (top_level headers))"
    and "\<forall>h \<in> set (top_level headers). in_source_paths inp (header_source h) \<noteq> None"
    and "resolve_module_dependencies env inp headers = SortedHeaders hs"
  shows "\<exists>top. hs = top @ filter is_start headers \<and> distinct top \<and> set top = set (top_level headers)
    \<and> (\<forall>i < length top. \<forall>q. header_depends (from_headers inp (top_level headers)) (top ! i) q \<longrightarrow>
          (\<exists>j < i. declaration_path (top ! j) = q))"
proof -
  let ?g = "from_headers inp (top_level headers)"
  obtain ds st where run: "traversal_ok env ?g st" "ds = [] \<longrightarrow> dom (headers_by_path ?g) \<subseteq> visited (fst st)"
    "resolve_module_dependencies env inp headers =
        (if ds \<noteq> [] then DiagnosedBatch ds else SortedHeaders (snd st @ filter is_start headers))"
    using stage_run [OF assms(2), of env] by blast
  then have ds: "ds = []" "hs = snd st @ filter is_start headers" using assms(3) by (auto split: if_splits)
  have em: "emitted_paths (snd st) = declaration_path ` set (top_level headers)"
    using run(1,2) ds(1) by (auto simp: traversal_ok_def from_headers_facts)
  have "set (snd st) = set (top_level headers)"
  proof
    show "set (snd st) \<subseteq> set (top_level headers)"
    proof
      fix h assume "h \<in> set (snd st)"
      then have "headers_by_path ?g (declaration_path h) = Some h" using run(1) by (simp add: traversal_ok_def)
      from from_headers_facts(1) [OF this] show "h \<in> set (top_level headers)" by simp
    qed
    show "set (top_level headers) \<subseteq> set (snd st)"
    proof
      fix h assume h: "h \<in> set (top_level headers)"
      then have "declaration_path h \<in> emitted_paths (snd st)" unfolding em by (rule imageI)
      then obtain h' where h': "declaration_path h = declaration_path h'" "h' \<in> set (snd st)"
        unfolding emitted_paths_def by (rule imageE)
      from h'(2) have "headers_by_path ?g (declaration_path h') = Some h'" using run(1) by (simp add: traversal_ok_def)
      with from_headers_distinct [OF assms(1) h, of inp] h'(1) have "h' = h" by simp
      with h' show "h \<in> set (snd st)" by simp
    qed
  qed
  moreover have "distinct (snd st)" using run(1) by (auto simp: traversal_ok_def distinct_map)
  moreover have "\<forall>i < length (snd st). \<forall>q. header_depends ?g (snd st ! i) q \<longrightarrow> (\<exists>j < i. declaration_path (snd st ! j) = q)"
    using run(1) dependencies_first_nth [of ?g "{}" "snd st"] by (auto simp: traversal_ok_def)
  ultimately show ?thesis using ds(2) by blast
qed

theorem module_order_correct_witness:
  "\<exists>top. [sample_header StructHeader 2 [], sample_header ConstantHeader 1 [spelled (PathId 2)],
       sample_header StartFunction 3 []] = top @ filter is_start sample_module
     \<and> set top = set (top_level sample_module)"
  using module_order_correct [OF sample_sources(3,1) sample_run] by blast

text \<open>C15. The stage succeeds exactly on orderable modules: when every header's source is known, headers
  are emitted if and only if the dependency relation of the hints has no cycle and no hint is left
  without a target.\<close>

theorem module_order_exists_iff:
  assumes "\<forall>h \<in> set (top_level headers). in_source_paths inp (header_source h) \<noteq> None"
  shows "(\<exists>hs. resolve_module_dependencies env inp headers = SortedHeaders hs) \<longleftrightarrow>
    acyclic (depends_on (from_headers inp (top_level headers)))
    \<and> (\<forall>p h q. headers_by_path (from_headers inp (top_level headers)) p = Some h \<longrightarrow>
          \<not> header_missing env (from_headers inp (top_level headers)) h q)"
proof -
  let ?g = "from_headers inp (top_level headers)"
  obtain ds st where run: "traversal_ok env ?g st" "ds = [] \<longrightarrow> dom (headers_by_path ?g) \<subseteq> visited (fst st)"
    "\<forall>d \<in> set ds. \<exists>p. justified env ?g {} p d"
    "resolve_module_dependencies env inp headers =
        (if ds \<noteq> [] then DiagnosedBatch ds else SortedHeaders (snd st @ filter is_start headers))"
    using stage_run [OF assms, of env] by blast
  have own: "\<forall>h \<in> set (snd st). headers_by_path ?g (declaration_path h) = Some h \<and> (\<forall>q. \<not> header_missing env ?g h q)"
    using run(1) by (simp add: traversal_ok_def)
  show ?thesis
  proof (cases "ds = []")
    case True
    then have all: "dom (headers_by_path ?g) \<subseteq> emitted_paths (snd st)" using run(1,2) by (auto simp: traversal_ok_def)
    have "acyclic (depends_on ?g)"
      using run(1) own all by (intro dependencies_first_acyclic [of _ "snd st"]) (auto simp: traversal_ok_def)
    moreover have "\<not> header_missing env ?g h q" if h: "headers_by_path ?g p = Some h" for p h q
    proof -
      have "p \<in> emitted_paths (snd st)" using all h by auto
      then obtain h' where "h' \<in> set (snd st)" "declaration_path h' = p" by (auto simp: emitted_paths_def)
      with own h show ?thesis by auto
    qed
    ultimately show ?thesis using run(4) True by auto
  next
    case False
    then obtain d p where d: "justified env ?g {} p d" using run(3) by (cases ds) auto
    have "\<not> (acyclic (depends_on ?g) \<and> (\<forall>p h q. headers_by_path ?g p = Some h \<longrightarrow> \<not> header_missing env ?g h q))"
      using d by (cases d) (auto simp: acyclic_def)
    then show ?thesis using run(4) False by auto
  qed
qed

theorem module_order_exists_iff_witness:
  "acyclic (depends_on (from_headers sample_inputs (top_level sample_module)))"
  using module_order_exists_iff [OF sample_sources(1), of sample_env] sample_run by blast

text \<open>C16. The stage always returns: it runs out of no fuel and reaches no compiler-bug branch, and
  every diagnostic of a failed run is right: a circular dependency names a header that depends on
  itself, a missing target is a hint of some header that names nothing known.\<close>

theorem module_order_diagnostics:
  assumes "\<forall>h \<in> set (top_level headers). in_source_paths inp (header_source h) \<noteq> None"
  shows "(\<exists>hs. resolve_module_dependencies env inp headers = SortedHeaders hs)
    \<or> (\<exists>ds. resolve_module_dependencies env inp headers = DiagnosedBatch ds \<and> ds \<noteq> []
        \<and> (\<forall>q sp. CircularDependency q sp \<in> set ds \<longrightarrow> (q, q) \<in> (depends_on (from_headers inp (top_level headers)))\<^sup>+)
        \<and> (\<forall>q sp. MissingImportTarget q sp \<in> set ds \<longrightarrow>
              (\<exists>h \<in> set (top_level headers). header_missing env (from_headers inp (top_level headers)) h q)))"
proof -
  let ?g = "from_headers inp (top_level headers)"
  obtain ds st where run: "\<forall>d \<in> set ds. \<exists>p. justified env ?g {} p d" "traversal_ok env ?g st"
    "resolve_module_dependencies env inp headers =
        (if ds \<noteq> [] then DiagnosedBatch ds else SortedHeaders (snd st @ filter is_start headers))"
    using stage_run [OF assms, of env] by blast
  have "(q, q) \<in> (depends_on ?g)\<^sup>+" if "CircularDependency q sp \<in> set ds" for q sp
    using run(1) that by fastforce
  moreover have "\<exists>h \<in> set (top_level headers). header_missing env ?g h q" if "MissingImportTarget q sp \<in> set ds" for q sp
  proof -
    from run(1) that obtain p where "justified env ?g {} p (MissingImportTarget q sp)" by blast
    then obtain m h where "headers_by_path ?g m = Some h" "header_missing env ?g h q" by auto
    with from_headers_facts(1) [OF this(1)] show ?thesis by blast
  qed
  ultimately show ?thesis using run(3) by (cases "ds = []") auto
qed

theorem module_order_diagnostics_witness:
  "\<exists>h. header_missing sample_env (from_headers sample_inputs (top_level broken_module)) h (PathId 9)"
  using module_order_diagnostics [OF sample_sources(2), of sample_env] broken_run by auto

end
