(* ===== verification/Float_Format.thy ===== *)
theory Float_Format
  imports Fixed_Scalar_Value Decimal_Facts
begin

text \<open>
  The finite binary-float formatting contract (\<open>crates/moth-lexical/src/numeric/format.rs\<close>): the
  shortest decimal of a value at its own precision is split into digits and an exponent and printed
  again in Moth's layout.

  \<^item> The shortest decimals of \<open>f32\<close> and \<open>f64\<close> come from the third-party crate \<open>ryu\<close>: they are the
    argument \<open>shortest_formats\<close>, with \<open>{:e}\<close> of the standard library. Binary16 has its own search, over
    the standard library's exactly rounded \<open>{:.*e}\<close>, which is written out.
  \<^item> \<open>i32\<close> exponents are \<open>int\<close>: the exponents of finite values are below \<open>400\<close> in magnitude.
  \<^item> Reading a candidate back as binary16 can panic (see \<open>Binary16\<close>), so that is the outer layer of the
    results; it is proved not to.
\<close>

section \<open>The code\<close>

datatype float_format_error = NonFiniteFloatFormat | InexactPrecision binary_float_precision

record shortest_formats =
  ryu_f32 :: "f64 \<Rightarrow> string"
  ryu_f64 :: "f64 \<Rightarrow> string"
  lower_exp :: "f64 \<Rightarrow> string"

definition exponent_threshold_high :: f64 where
  "exponent_threshold_high = f64_round (10 ^ 21)"

definition exponent_threshold_low :: f64 where
  "exponent_threshold_low = f64_round (1 / 10 ^ 6)"

text \<open>\<open>{:.*e}\<close> with \<open>digits - 1\<close> places, as the significand its digits spell and its exponent: the
  nearest decimal of that many digits, ties to even.\<close>

definition decimal_exponent_of :: "rat \<Rightarrow> int" where
  "decimal_exponent_of x =
     (let (n, d) = quotient_of x;
          k = int (length (nat_to_string (nat n))) - int (length (nat_to_string (nat d)))
      in if 10 powi k \<le> x then k else k - 1)"

definition nearest_exponential :: "nat \<Rightarrow> rat \<Rightarrow> nat \<times> int" where
  "nearest_exponential digits x =
     (let e = decimal_exponent_of x;
          m = nat (rhe (x / 10 powi (e - (int digits - 1))))
      in if m = 10 ^ digits then (10 ^ (digits - 1), e + 1) else (m, e))"

function strip_trailing_zeros :: "nat \<Rightarrow> int \<Rightarrow> nat \<times> int" where
  "strip_trailing_zeros candidate exponent =
     (if candidate \<noteq> 0 \<and> candidate mod 10 = 0
      then strip_trailing_zeros (candidate div 10) (exponent + 1) else (candidate, exponent))"
  by pat_completeness auto

termination by (relation "measure fst") auto

declare strip_trailing_zeros.simps [simp del]

definition candidate_text :: "nat \<Rightarrow> int \<Rightarrow> string" where
  "candidate_text candidate exponent =
     (let (candidate, exponent) = strip_trailing_zeros candidate exponent
      in nat_to_string candidate @ ''e'' @ int_to_string exponent)"

text \<open>The first candidate that reads back to the magnitude.\<close>

primrec find_candidate :: "bool \<Rightarrow> f64 \<Rightarrow> string list \<Rightarrow> (arithmetic_panic, string option) result" where
  "find_candidate checks magnitude [] = Inr None"
| "find_candidate checks magnitude (candidate # candidates) =
     result_bind (decimal_to_f16 checks candidate False) (\<lambda>read.
       if read = Some magnitude then Inr (Some candidate)
       else find_candidate checks magnitude candidates)"

definition round_tripping_binary16_decimal ::
  "bool \<Rightarrow> f64 \<Rightarrow> nat \<Rightarrow> (arithmetic_panic, string option) result" where
  "round_tripping_binary16_decimal checks magnitude digits =
     (let (significand, e) = nearest_exponential digits (f64_mag magnitude);
          exponent = e - (int digits - 1)
      in find_candidate checks magnitude
           (map (\<lambda>candidate. candidate_text candidate exponent)
              [significand, significand + 1, significand - 1]))"

definition binary16_significant_digit_budget :: nat where
  "binary16_significant_digit_budget = 5"

primrec find_digit_count :: "bool \<Rightarrow> f64 \<Rightarrow> nat list \<Rightarrow> (arithmetic_panic, string option) result" where
  "find_digit_count checks magnitude [] = Inr None"
| "find_digit_count checks magnitude (digits # counts) =
     result_bind (round_tripping_binary16_decimal checks magnitude digits) (\<lambda>found.
       case found of Some t \<Rightarrow> Inr (Some t) | None \<Rightarrow> find_digit_count checks magnitude counts)"

definition shortest_binary16_decimal ::
  "bool \<Rightarrow> shortest_formats \<Rightarrow> f64 \<Rightarrow> (arithmetic_panic, string) result" where
  "shortest_binary16_decimal checks R v =
     (let magnitude = f64_abs v in
      result_bind (find_digit_count checks magnitude [1..<Suc binary16_significant_digit_budget])
        (\<lambda>found.
           let t = (case found of Some t \<Rightarrow> t | None \<Rightarrow> lower_exp R magnitude)
           in Inr (if f64_is_sign_negative v then ''-'' @ t else t)))"

definition shortest_decimal ::
  "bool \<Rightarrow> shortest_formats \<Rightarrow> f64 \<Rightarrow> binary_float_precision \<Rightarrow> (arithmetic_panic, string) result" where
  "shortest_decimal checks R v precision =
     (case precision of
        Binary32 \<Rightarrow> Inr (ryu_f32 R v)
      | Binary64 \<Rightarrow> Inr (ryu_f64 R v)
      | Binary16 \<Rightarrow> shortest_binary16_decimal checks R v)"

text \<open>\<open>str::parse::<i32>\<close>.\<close>

definition parse_i32 :: "string \<Rightarrow> int option" where
  "parse_i32 s =
     (let negative = (take 1 s = ''-'');
          ds = (if negative \<or> take 1 s = ''+'' then drop 1 s else s);
          z = (if negative then - int (digits_value ds) else int (digits_value ds))
      in if ds \<noteq> [] \<and> all_digits ds \<and> - (2 ^ 31) \<le> z \<and> z < 2 ^ 31 then Some z else None)"

record ryu_parts =
  ryu_negative :: bool
  mantissa_digits :: string
  fractional_digits :: int
  scientific_exponent :: int

definition parse_ryu_output :: "string \<Rightarrow> (float_format_error, ryu_parts) result" where
  "parse_ryu_output source =
     (let (signless, is_negative) =
            (case strip_prefix ''-'' source of Some rest \<Rightarrow> (rest, True) | None \<Rightarrow> (source, False));
          is_marker = (\<lambda>c. c = CHR ''e'' \<or> c = CHR ''E'');
          mantissa_part = takeWhile (\<lambda>c. \<not> is_marker c) signless;
          exponent_part = dropWhile (\<lambda>c. \<not> is_marker c) signless
      in if mantissa_part = [] then Inl NonFiniteFloatFormat
         else
           (let integer_part = takeWhile (\<lambda>c. c \<noteq> CHR ''.'') mantissa_part;
                fractional_part = dropWhile (\<lambda>c. c \<noteq> CHR ''.'') mantissa_part;
                digits = integer_part @ drop 1 fractional_part;
                count = (if fractional_part = [] then 0 else int (length fractional_part) - 1)
            in map_sum id (\<lambda>e. \<lparr>ryu_negative = is_negative, mantissa_digits = digits,
                               fractional_digits = count, scientific_exponent = e\<rparr>)
                 (if exponent_part = [] then Inr 0
                  else ok_or (parse_i32 (drop 1 exponent_part)) NonFiniteFloatFormat)))"

definition trim_leading_zeros :: "string \<Rightarrow> string" where
  "trim_leading_zeros source =
     (let trimmed = trim_start_matches (CHR ''0'') source in if trimmed = [] then ''0'' else trimmed)"

definition format_fixed :: "string \<Rightarrow> int \<Rightarrow> string" where
  "format_fixed digits decimal_exponent =
     (if 0 \<le> decimal_exponent then digits @ replicate (nat decimal_exponent) CHR ''0''
      else
        (let zeros = nat (- decimal_exponent) in
         if zeros < length digits then
           (let cut = length digits - zeros;
                integer_part = take cut digits;
                trimmed_fraction = trim_end_matches (CHR ''0'') (drop cut digits)
            in if trimmed_fraction = [] then integer_part else integer_part @ ''.'' @ trimmed_fraction)
         else
           (let leading_zeros = zeros - length digits;
                trimmed_fraction = trim_end_matches (CHR ''0'') (replicate leading_zeros CHR ''0'' @ digits)
            in if trimmed_fraction = [] then ''0'' else ''0.'' @ trimmed_fraction)))"

definition format_exponent :: "string \<Rightarrow> int \<Rightarrow> string" where
  "format_exponent digits decimal_exponent =
     (let e = decimal_exponent + (int (length digits) - 1);
          trimmed_rest = trim_end_matches (CHR ''0'') (drop 1 digits);
          mantissa = (if trimmed_rest = [] then take 1 digits else take 1 digits @ ''.'' @ trimmed_rest)
      in mantissa @ ''e'' @ (if 0 \<le> e then ''+'' else []) @ int_to_string e)"

text \<open>The comparisons of \<open>value.abs()\<close> with the thresholds are comparisons of magnitudes.\<close>

definition use_exponent :: "f64 \<Rightarrow> bool" where
  "use_exponent v \<longleftrightarrow>
     f64_mag exponent_threshold_high \<le> f64_mag v \<or>
     (0 < f64_mag v \<and> f64_mag v < f64_mag exponent_threshold_low)"

definition render_shortest :: "f64 \<Rightarrow> string \<Rightarrow> (float_format_error, string) result" where
  "render_shortest v shortest =
     result_bind (parse_ryu_output shortest) (\<lambda>parts.
       let decimal_exponent = scientific_exponent parts - fractional_digits parts;
           digits = trim_leading_zeros (mantissa_digits parts)
       in if digits = [] then Inr ''0''
          else
            (let formatted = (if use_exponent v then format_exponent digits decimal_exponent
                              else format_fixed digits decimal_exponent)
             in Inr (if ryu_negative parts then ''-'' @ formatted else formatted)))"

definition format_finite_float ::
  "bool \<Rightarrow> shortest_formats \<Rightarrow> f64 \<Rightarrow> binary_float_precision
   \<Rightarrow> (arithmetic_panic, (float_format_error, string) result) result" where
  "format_finite_float checks R v precision =
     (if \<not> f64_is_finite v then Inr (Inl NonFiniteFloatFormat)
      else if precision_round precision v \<noteq> v then Inr (Inl (InexactPrecision precision))
      else if f64_abs v = 0 then Inr (Inr ''0'')
      else map_sum id (render_shortest v) (shortest_decimal checks R v precision))"

section \<open>Splitting the shortest decimal\<close>

definition sign_text :: "bool \<Rightarrow> string" where
  "sign_text negative = (if negative then ''-'' else [])"

lemma digit_char_facts:
  "all_digits s \<Longrightarrow> c \<in> set s \<Longrightarrow> c \<noteq> CHR ''e'' \<and> c \<noteq> CHR ''E'' \<and> c \<noteq> CHR ''.'' \<and> c \<noteq> CHR ''-'' \<and> c \<noteq> CHR ''+''"
  by (auto simp: all_digits_def list_all_iff is_ascii_digit_def byte_def)

lemma all_digits_append: "all_digits (s @ t) \<longleftrightarrow> all_digits s \<and> all_digits t"
  by (auto simp: all_digits_def)

lemma parse_i32_exponent:
  assumes "all_digits x" "x \<noteq> []" "digits_value x < 2 ^ 31"
  shows "parse_i32 (exponent_sign_text s @ x) = Some (exponent_value (Some (s, x)))"
proof -
  obtain c cs where x: "x = c # cs" using assms(2) by (cases x) auto
  have "c \<noteq> CHR ''-''" "c \<noteq> CHR ''+''" using digit_char_facts [OF assms(1), of c] by (simp_all add: x)
  then show ?thesis
    using assms by (cases s) (auto simp: parse_i32_def exponent_sign_text_def exponent_value_def x)
qed

definition exponent_fits :: "(numeric_exponent_sign \<times> string) option \<Rightarrow> bool" where
  "exponent_fits ep \<longleftrightarrow> (case ep of None \<Rightarrow> True | Some (_, x) \<Rightarrow> digits_value x < 2 ^ 31)"

lemma parse_ryu_literal:
  assumes "normal_parts ip fp ep" "exponent_fits ep"
  shows "parse_ryu_output (sign_text negative @ literal_text ip fp ep) =
    Inr \<lparr>ryu_negative = negative, mantissa_digits = ip @ fraction_text fp,
         fractional_digits = int (length (fraction_text fp)), scientific_exponent = exponent_value ep\<rparr>"
proof -
  define m where "m = ip @ (case fp of None \<Rightarrow> [] | Some f \<Rightarrow> CHR ''.'' # f)"
  define t where "t = (case ep of None \<Rightarrow> [] | Some (s, x) \<Rightarrow> CHR ''e'' # exponent_sign_text s @ x)"
  let ?not = "\<lambda>c. \<not> (c = CHR ''e'' \<or> c = CHR ''E'')"
  have l: "literal_text ip fp ep = m @ t" by (simp add: literal_text_def m_def t_def)
  have ip: "all_digits ip" "ip \<noteq> []" using assms(1) by (auto simp: normal_parts_def)
  have fp: "all_digits f" "f \<noteq> []" if "fp = Some f" for f using assms(1) that by (auto simp: normal_parts_def)
  have ipn: "?not c" if "c \<in> set ip" for c using digit_char_facts [OF ip(1) that] by simp
  have fpn: "?not c" if "fp = Some f" "c \<in> set f" for f c using digit_char_facts [OF fp(1) that(2)] that by simp
  have m: "?not c" if "c \<in> set m" for c
    using that ipn [of c] fpn [of _ c] by (auto simp: m_def split: option.splits)
  have t: "t = [] \<or> (\<exists>r. t = CHR ''e'' # r)" by (auto simp: t_def split: option.splits)
  have tw: "takeWhile ?not (m @ t) = m" "dropWhile ?not (m @ t) = t"
    using m t by (auto simp: takeWhile_append2 dropWhile_append2)
  have d: "takeWhile (\<lambda>c. c \<noteq> CHR ''.'') m = ip"
    "dropWhile (\<lambda>c. c \<noteq> CHR ''.'') m = (case fp of None \<Rightarrow> [] | Some f \<Rightarrow> CHR ''.'' # f)"
    using digit_char_facts [OF ip(1)] by (auto simp: m_def takeWhile_append2 dropWhile_append2 split: option.splits)
  obtain c cs where c: "literal_text ip fp ep = c # cs" "c \<noteq> CHR ''-''"
    using ip digit_char_facts [OF ip(1)] by (cases ip) (auto simp: literal_text_def)
  have s: "(case strip_prefix ''-'' (sign_text negative @ literal_text ip fp ep) of
      Some rest \<Rightarrow> (rest, True) | None \<Rightarrow> (sign_text negative @ literal_text ip fp ep, False)) = (m @ t, negative)"
    using c l by (cases negative) (simp_all add: sign_text_def strip_prefix_def)
  have e: "(if t = [] then Inr 0 else ok_or (parse_i32 (drop 1 t)) NonFiniteFloatFormat) =
      Inr (exponent_value ep)"
  proof (cases ep)
    case None
    then show ?thesis by (simp add: t_def exponent_value_def)
  next
    case (Some a)
    then obtain s x where a: "ep = Some (s, x)" by (cases a) auto
    then have "parse_i32 (exponent_sign_text s @ x) = Some (exponent_value ep)"
      using assms by (auto simp: normal_parts_def exponent_fits_def intro!: parse_i32_exponent)
    then show ?thesis by (simp add: t_def a ok_or_def)
  qed
  have ne: "m \<noteq> []" using ip(2) by (simp add: m_def)
  show ?thesis
    unfolding parse_ryu_output_def s prod.case Let_def tw d e
    using ne by (auto simp: fraction_text_def split: option.splits)
qed

section \<open>Printing\<close>

lemma trim_end_matches_split: "\<exists>k. s = trim_end_matches c s @ replicate k c"
proof -
  have "rev s = takeWhile (\<lambda>x. x = c) (rev s) @ dropWhile (\<lambda>x. x = c) (rev s)" by simp
  then have "s = rev (dropWhile (\<lambda>x. x = c) (rev s)) @ rev (takeWhile (\<lambda>x. x = c) (rev s))"
    by (metis rev_append rev_rev_ident)
  moreover have "replicate (length (takeWhile (\<lambda>x. x = c) (rev s))) c = takeWhile (\<lambda>x. x = c) (rev s)"
    by (rule replicate_length_same) (auto dest: set_takeWhileD)
  ultimately have "s = trim_end_matches c s @ rev (replicate (length (takeWhile (\<lambda>x. x = c) (rev s))) c)"
    unfolding trim_end_matches_def by simp
  then show ?thesis by (metis rev_replicate)
qed

lemma trim_end_matches_last: "trim_end_matches c s \<noteq> [] \<Longrightarrow> last (trim_end_matches c s) \<noteq> c"
  unfolding trim_end_matches_def by (metis (mono_tags, lifting) hd_dropWhile last_rev rev_is_Nil_conv)

lemma trim_end_zeros_digits:
  assumes "all_digits s"
  obtains k where "s = trim_end_matches (CHR ''0'') s @ replicate k CHR ''0''"
    "all_digits (trim_end_matches (CHR ''0'') s)"
    "digits_value s = digits_value (trim_end_matches (CHR ''0'') s) * 10 ^ k"
    "length s = length (trim_end_matches (CHR ''0'') s) + k"
proof -
  obtain k where k: "s = trim_end_matches (CHR ''0'') s @ replicate k CHR ''0''"
    using trim_end_matches_split by blast
  have a: "all_digits (trim_end_matches (CHR ''0'') s)"
    using assms k by (metis all_digits_append)
  have "digits_value s = digits_value (trim_end_matches (CHR ''0'') s) * 10 ^ k"
    by (subst k) (simp add: digits_value_append)
  moreover have "length s = length (trim_end_matches (CHR ''0'') s) + k"
    by (subst k) simp
  ultimately show thesis using that k a by blast
qed

text \<open>The layout: no superfluous zeros, one digit before the point of an exponent form.\<close>

definition canonical_layout ::
  "string \<Rightarrow> string option \<Rightarrow> (numeric_exponent_sign \<times> string) option \<Rightarrow> bool" where
  "canonical_layout ip fp ep \<longleftrightarrow>
     (ip = ''0'' \<or> hd ip \<noteq> CHR ''0'') \<and> (case fp of None \<Rightarrow> True | Some f \<Rightarrow> last f \<noteq> CHR ''0'') \<and>
     (case ep of None \<Rightarrow> True | Some (s, x) \<Rightarrow> length ip = 1 \<and> s \<noteq> NoExponentSign)"

lemma powi_split: "(x :: rat) \<noteq> 0 \<Longrightarrow> x powi (a + int n) = x powi a * x ^ n"
  by (simp add: power_int_add)

lemma format_fixed_literal:
  assumes "all_digits ds" "ds \<noteq> []" "hd ds \<noteq> CHR ''0''"
  shows "\<exists>ip fp. format_fixed ds e = literal_text ip fp None \<and> normal_parts ip fp None \<and>
    canonical_layout ip fp None \<and> literal_value ip fp None = of_nat (digits_value ds) * 10 powi e"
proof (cases "0 \<le> e")
  case True
  have "digits_value (ds @ replicate (nat e) CHR ''0'') = digits_value ds * 10 ^ nat e"
    by (simp add: digits_value_append)
  then have "literal_value (ds @ replicate (nat e) CHR ''0'') None None = of_nat (digits_value ds) * 10 powi e"
    using True by (simp add: literal_value_def coefficient_value_def fraction_text_def exponent_value_def power_int_def)
  moreover have "all_digits (ds @ replicate (nat e) CHR ''0'')"
    using assms(1) by (auto simp: all_digits_def list_all_iff is_ascii_digit_def byte_def)
  ultimately show ?thesis
    using True assms
    by (intro exI [of _ "ds @ replicate (nat e) CHR ''0''"] exI [of _ None])
       (simp add: format_fixed_def literal_text_def normal_parts_def canonical_layout_def)
next
  case False
  define zeros where "zeros = nat (- e)"
  have e: "e = - int zeros" "\<not> 0 \<le> e" using False by (simp_all add: zeros_def)
  show ?thesis
  proof (cases "zeros < length ds")
    case True
    define cut where "cut = length ds - zeros"
    define frac where "frac = drop cut ds"
    define tr where "tr = trim_end_matches (CHR ''0'') frac"
    have cut: "0 < cut" "cut \<le> length ds" "length frac = zeros" using True by (simp_all add: cut_def frac_def)
    have ds: "ds = take cut ds @ frac" by (simp add: frac_def)
    have fd: "all_digits frac" using assms(1) ds by (metis all_digits_append)
    obtain k where k: "all_digits tr" "digits_value frac = digits_value tr * 10 ^ k" "zeros = length tr + k"
      using trim_end_zeros_digits [OF fd] cut(3) unfolding tr_def by metis
    have ip: "all_digits (take cut ds)" "take cut ds \<noteq> []" "hd (take cut ds) \<noteq> CHR ''0''"
      using assms cut ds by (auto simp: hd_append all_digits_def list_all_iff dest: in_set_takeD)
    have "digits_value ds = digits_value (take cut ds @ tr) * 10 ^ k"
      using k(2,3) cut(3) by (subst ds) (simp add: digits_value_append algebra_simps power_add)
    then have v: "of_nat (digits_value ds) * 10 powi e = (of_nat (digits_value (take cut ds @ tr)) * 10 powi (- int (length tr)) :: rat)"
      using k(3) powi_split [of 10 e k] by (simp add: e)
    have f: "format_fixed ds e = (if tr = [] then take cut ds else take cut ds @ ''.'' @ tr)"
      using True e by (simp add: format_fixed_def Let_def tr_def frac_def cut_def)
    show ?thesis
    proof (cases "tr = []")
      case True
      then show ?thesis
        using f ip v
        by (intro exI [of _ "take cut ds"] exI [of _ None])
           (simp add: literal_text_def normal_parts_def canonical_layout_def literal_value_def
            coefficient_value_def fraction_text_def exponent_value_def)
    next
      case False
      have "last tr \<noteq> CHR ''0''" using False trim_end_matches_last unfolding tr_def by blast
      then show ?thesis
        using f ip v k(1) False
        by (intro exI [of _ "take cut ds"] exI [of _ "Some tr"])
           (simp add: literal_text_def normal_parts_def canonical_layout_def literal_value_def
            coefficient_value_def fraction_text_def exponent_value_def)
    qed
  next
    case False
    define frac where "frac = replicate (zeros - length ds) CHR ''0'' @ ds"
    define tr where "tr = trim_end_matches (CHR ''0'') frac"
    have fd: "all_digits frac" using assms(1) by (auto simp: frac_def all_digits_def list_all_iff is_ascii_digit_def byte_def)
    have fl: "length frac = zeros" using False by (simp add: frac_def)
    have fv: "digits_value frac = digits_value ds" by (simp add: frac_def digits_value_append)
    obtain k where k: "frac = tr @ replicate k CHR ''0''" "all_digits tr" "digits_value frac = digits_value tr * 10 ^ k" "zeros = length tr + k"
      using trim_end_zeros_digits [OF fd] fl unfolding tr_def by metis
    have tr: "tr \<noteq> []"
    proof
      assume "tr = []"
      then have "\<forall>c \<in> set ds. c = CHR ''0''" using k(1) unfolding frac_def
        by (metis Un_iff append_Nil in_set_replicate set_append)
      then show False using assms(2,3) by (cases ds) auto
    qed
    have v: "of_nat (digits_value ds) * 10 powi e = (of_nat (digits_value tr) * 10 powi (- int (length tr)) :: rat)"
      using k(3,4) fv powi_split [of 10 e k] by (simp add: e)
    have "last tr \<noteq> CHR ''0''" using tr trim_end_matches_last unfolding tr_def by blast
    moreover have "format_fixed ds e = ''0.'' @ tr"
      using False e tr by (simp add: format_fixed_def Let_def tr_def frac_def)
    moreover have d0: "digits_value (''0'' @ tr) = digits_value tr"
      using digits_value_replicate_0 [of 1] unfolding digits_value_append by simp
    have "literal_value ''0'' (Some tr) None = of_nat (digits_value tr) * 10 powi (- int (length tr))"
      unfolding literal_value_def coefficient_value_def fraction_text_def option.case d0 exponent_value_def
      by simp
    moreover have "all_digits ''0''" by (simp add: all_digits_def is_ascii_digit_def byte_def)
    ultimately show ?thesis
      using tr k(2) v
      by (intro exI [of _ "''0''"] exI [of _ "Some tr"] conjI)
         (simp_all add: literal_text_def normal_parts_def canonical_layout_def)
  qed
qed

lemma format_exponent_literal:
  assumes "all_digits ds" "ds \<noteq> []" "hd ds \<noteq> CHR ''0''"
  shows "\<exists>ip fp ep. format_exponent ds e = literal_text ip fp (Some ep) \<and> normal_parts ip fp (Some ep) \<and>
    canonical_layout ip fp (Some ep) \<and> literal_value ip fp (Some ep) = of_nat (digits_value ds) * 10 powi e"
proof -
  obtain d r where ds: "ds = d # r" using assms(2) by (cases ds) auto
  have dr: "all_digits [d]" "all_digits r" "d \<noteq> CHR ''0''"
    using assms ds all_digits_append [of "[d]" r] by auto
  define tr where "tr = trim_end_matches (CHR ''0'') r"
  define x where "x = e + int (length r)"
  define ep where "ep = (if 0 \<le> x then PositiveExponent else NegativeExponent, nat_to_string (nat \<bar>x\<bar>))"
  obtain k where k: "all_digits tr" "digits_value r = digits_value tr * 10 ^ k" "length r = length tr + k"
    using trim_end_zeros_digits [OF dr(2)] unfolding tr_def by metis
  define fp where "fp = (if tr = [] then None else Some tr)"
  have t: "format_exponent ds e = literal_text [d] fp (Some ep)"
    by (simp add: format_exponent_def ds Let_def tr_def [symmetric] fp_def ep_def literal_text_def x_def
        exponent_sign_text_def int_to_string_def nat_abs_int_diff)
  have l: "last tr \<noteq> CHR ''0''" if "tr \<noteq> []" using that trim_end_matches_last unfolding tr_def by blast
  have n: "normal_parts [d] fp (Some ep)" "canonical_layout [d] fp (Some ep)"
    using dr(1,3) k(1) l by (auto simp: normal_parts_def canonical_layout_def fp_def ep_def)
  have ev: "exponent_value (Some ep) = x" by (simp add: exponent_value_def ep_def)
  have ft: "fraction_text fp = tr" by (simp add: fraction_text_def fp_def)
  have "digits_value ds = digits_value ([d] @ tr) * 10 ^ k"
    using k by (simp add: ds digits_value_Cons power_add algebra_simps)
  then have "literal_value [d] fp (Some ep) = of_nat (digits_value ds) * 10 powi e"
    unfolding literal_value_def coefficient_value_def ft ev
    using powi_split [of 10 e k] k(3) by (simp add: x_def)
  with t n show ?thesis by blast
qed

lemma trim_end_matches_length: "length (trim_end_matches c s) \<le> length s"
  unfolding trim_end_matches_def by (metis length_dropWhile_le length_rev)

lemma nat_to_string_length_le: "length (nat_to_string n) \<le> Suc n"
proof (induction n rule: nat_to_string_induct)
  case (big n)
  then show ?case by (simp add: nat_to_string_big)
qed simp

lemma format_fixed_length: "length (format_fixed ds e) \<le> length ds + nat \<bar>e\<bar> + 2"
proof (cases "0 \<le> e")
  case True
  then show ?thesis by (simp add: format_fixed_def)
next
  case False
  define cut where "cut = length ds - nat (- e)"
  define pad where "pad = nat (- e) - length ds"
  have "length (trim_end_matches (CHR ''0'') (drop cut ds)) \<le> length ds - cut"
    using trim_end_matches_length [of "CHR ''0''" "drop cut ds"] by simp
  moreover have "length (trim_end_matches (CHR ''0'') (replicate pad CHR ''0'' @ ds)) \<le> pad + length ds"
    using trim_end_matches_length [of "CHR ''0''" "replicate pad CHR ''0'' @ ds"] by simp
  moreover have "cut \<le> length ds" "pad \<le> nat \<bar>e\<bar>" using False by (auto simp: cut_def pad_def)
  ultimately show ?thesis
    using False by (auto simp: format_fixed_def Let_def cut_def [symmetric] pad_def [symmetric])
qed

lemma format_exponent_length: "length (format_exponent ds e) \<le> 2 * length ds + nat \<bar>e\<bar> + 8"
proof -
  have "length (trim_end_matches (CHR ''0'') (drop 1 ds)) \<le> length ds"
    using trim_end_matches_length [of "CHR ''0''" "drop 1 ds"] by simp
  moreover have "length (int_to_string x) \<le> nat \<bar>x\<bar> + 2" for x
    using nat_to_string_length_le [of "nat \<bar>x\<bar>"] by (auto simp: int_to_string_def le_SucI)
  from this [of "e + (int (length ds) - 1)"]
  have "length (int_to_string (e + (int (length ds) - 1))) \<le> nat \<bar>e\<bar> + length ds + 3" by linarith
  moreover have "length (take 1 ds) \<le> 1" by simp
  ultimately show ?thesis
    by (auto simp: format_exponent_def Let_def)
qed

text \<open>The rendering keeps the exact value of the shortest decimal.\<close>

lemma render_shortest_literal:
  assumes "normal_parts ip fp ep" "exponent_fits ep" "literal_value ip fp ep \<noteq> 0"
  shows "\<exists>ip' fp' ep'. render_shortest v (sign_text negative @ literal_text ip fp ep) =
      Inr (sign_text negative @ literal_text ip' fp' ep') \<and>
    normal_parts ip' fp' ep' \<and> canonical_layout ip' fp' ep' \<and> (ep' \<noteq> None \<longleftrightarrow> use_exponent v) \<and>
    literal_value ip' fp' ep' = literal_value ip fp ep \<and>
    (length (literal_text ip fp ep) \<le> 10000000 \<longrightarrow> length (literal_text ip' fp' ep') \<le> u32_max)"
proof -
  define m where "m = ip @ fraction_text fp"
  define ds where "ds = trim_leading_zeros m"
  define e where "e = exponent_value ep - int (length (fraction_text fp))"
  have m: "all_digits m" "digits_value m \<noteq> 0"
    using assms(1,3) unfolding literal_value_eq_0_iff
    by (auto simp: m_def all_digits_append normal_parts_def coefficient_value_def fraction_text_def split: option.splits)
  obtain k where k: "m = replicate k CHR ''0'' @ trim_start_matches (CHR ''0'') m"
  proof -
    have "replicate (length (takeWhile (\<lambda>x. x = CHR ''0'') m)) CHR ''0'' = takeWhile (\<lambda>x. x = CHR ''0'') m"
      by (rule replicate_length_same) (auto dest: set_takeWhileD)
    then show thesis using that unfolding trim_start_matches_def by (metis takeWhile_dropWhile_id)
  qed
  have v: "digits_value (trim_start_matches (CHR ''0'') m) = digits_value m"
    by (subst (2) k) (simp add: digits_value_append)
  then have ne: "trim_start_matches (CHR ''0'') m \<noteq> []" using m(2) by auto
  then have ds: "ds = trim_start_matches (CHR ''0'') m" by (simp add: ds_def trim_leading_zeros_def Let_def)
  have d1: "all_digits ds" using m(1) unfolding ds by (subst (asm) k) (simp only: all_digits_append)
  have d2: "ds \<noteq> []" using ne ds by simp
  have d3: "hd ds \<noteq> CHR ''0''" using hd_dropWhile ne unfolding ds trim_start_matches_def by blast
  have d4: "digits_value ds = digits_value m" using v ds by simp
  note d = d1 d2 d3 d4
  have lv: "literal_value ip fp ep = of_nat (digits_value ds) * 10 powi e"
    by (simp add: literal_value_def coefficient_value_def e_def d(4) m_def)
  have r: "render_shortest v (sign_text negative @ literal_text ip fp ep) =
      Inr (sign_text negative @ (if use_exponent v then format_exponent ds e else format_fixed ds e))"
    unfolding render_shortest_def parse_ryu_literal [OF assms(1,2)]
    using d(2) by (simp add: Let_def m_def [symmetric] ds_def [symmetric] e_def [symmetric] sign_text_def)
  have bound: "length (format_exponent ds e) \<le> u32_max \<and> length (format_fixed ds e) \<le> u32_max"
    if "length (literal_text ip fp ep) \<le> 10000000"
  proof -
    have "length ip + length (fraction_text fp) \<le> length (literal_text ip fp ep)"
      by (auto simp: literal_text_def fraction_text_def split: option.splits)
    then have l: "length m \<le> 10000000" "length (fraction_text fp) \<le> 10000000" using that by (simp_all add: m_def)
    have "length ds \<le> length m" unfolding ds trim_start_matches_def by (rule length_dropWhile_le)
    moreover have "\<bar>exponent_value ep\<bar> < 2147483648"
      using assms(2) by (auto simp: exponent_fits_def exponent_value_def split: option.splits)
    ultimately show ?thesis
      using l format_exponent_length [of ds e] format_fixed_length [of ds e] unfolding e_def by linarith
  qed
  show ?thesis
  proof (cases "use_exponent v")
    case True
    obtain ip' fp' ep' where f: "format_exponent ds e = literal_text ip' fp' (Some ep')"
      "normal_parts ip' fp' (Some ep')" "canonical_layout ip' fp' (Some ep')"
      "literal_value ip' fp' (Some ep') = of_nat (digits_value ds) * 10 powi e"
      using format_exponent_literal [OF d(1-3), of e] by blast
    show ?thesis
      by (rule exI [of _ ip'], rule exI [of _ fp'], rule exI [of _ "Some ep'"])
         (use bound in \<open>simp only: r f lv True if_True simp_thms option.distinct, blast\<close>)
  next
    case False
    obtain ip' fp' where f: "format_fixed ds e = literal_text ip' fp' None"
      "normal_parts ip' fp' None" "canonical_layout ip' fp' None"
      "literal_value ip' fp' None = of_nat (digits_value ds) * 10 powi e"
      using format_fixed_literal [OF d(1-3), of e] by blast
    show ?thesis
      by (rule exI [of _ ip'], rule exI [of _ fp'], rule exI [of _ None])
         (use bound in \<open>simp only: r f lv False if_False simp_thms option.distinct, blast\<close>)
  qed
qed

section \<open>The binary16 search\<close>

lemma nat_to_string_length: "0 < n \<Longrightarrow> 10 ^ (length (nat_to_string n) - 1) \<le> n \<and> n < 10 ^ length (nat_to_string n)"
proof (induction n rule: nat_to_string_induct)
  case (small n)
  then show ?case by simp
next
  case (big n)
  define l where "l = length (nat_to_string (n div 10))"
  have "0 < l" by (simp add: l_def)
  then obtain k where k: "l = Suc k" by (cases l) auto
  have "10 ^ k \<le> n div 10" "n div 10 < 10 ^ l" using big by (simp_all add: l_def [symmetric] k)
  then have "10 ^ l \<le> n" "n < 10 ^ Suc l" unfolding k by simp_all
  then show ?case using big(1) by (simp add: nat_to_string_big l_def [symmetric])
qed

lemma ten_powi_le_iff: "(10 :: rat) powi a \<le> 10 powi b \<longleftrightarrow> a \<le> b"
  using power_int_strict_increasing [of b a "10 :: rat"] power_int_increasing [of a b "10 :: rat"]
  by (cases "a \<le> b") auto

lemma decimal_exponent_bounds:
  assumes "0 < x"
  shows "10 powi decimal_exponent_of x \<le> x" "x < 10 powi (decimal_exponent_of x + 1)"
proof -
  obtain n d where q: "quotient_of x = (n, d)" by fastforce
  have d: "0 < d" "x = of_int n / of_int d" using quotient_of_denom_pos [OF q] quotient_of_div [OF q] by auto
  then have n: "0 < n" using assms by (simp add: zero_less_divide_iff)
  define a b where "a = length (nat_to_string (nat n))" and "b = length (nat_to_string (nat d))"
  have ab: "0 < a" "0 < b" by (simp_all add: a_def b_def)
  have "10 ^ (a - 1) \<le> nat n" "nat n < 10 ^ a" "10 ^ (b - 1) \<le> nat d" "nat d < 10 ^ b"
    using nat_to_string_length [of "nat n"] nat_to_string_length [of "nat d"] n d(1) by (simp_all add: a_def b_def)
  then have "(10 :: rat) ^ (a - 1) \<le> of_nat (nat n)" "of_nat (nat n) < (10 :: rat) ^ a"
    "(10 :: rat) ^ (b - 1) \<le> of_nat (nat d)" "of_nat (nat d) < (10 :: rat) ^ b"
    by (metis of_nat_le_iff of_nat_less_iff of_nat_numeral of_nat_power)+
  then have nd: "(10 :: rat) powi (int a - 1) \<le> of_int n" "of_int n < (10 :: rat) powi int a"
    "(10 :: rat) powi (int b - 1) \<le> of_int d" "of_int d < (10 :: rat) powi int b"
    using n d(1) ab by (simp_all add: power_int_def nat_diff_distrib)
  have dp: "(0 :: rat) < of_int d" using d(1) by simp
  have "10 powi (int a - int b - 1) * of_int d < (10 :: rat) powi (int a - int b - 1) * 10 powi int b"
    using nd(4) by (simp add: power_int_def)
  also have "\<dots> = 10 powi (int a - 1)" unfolding power_int_add [symmetric, of "10 :: rat", OF disjI1, simplified] by simp
  finally have lo: "10 powi (int a - int b - 1) \<le> x" using nd(1) dp by (simp add: d(2) pos_le_divide_eq)
  have "(10 :: rat) powi int a = 10 powi (int a - int b + 1) * 10 powi (int b - 1)" by (simp flip: power_int_add)
  also have "\<dots> \<le> 10 powi (int a - int b + 1) * of_int d" by (rule mult_left_mono [OF nd(3)]) simp
  finally have "(of_int n :: rat) < 10 powi (int a - int b + 1) * of_int d" using nd(2) by linarith
  then have hi: "x < 10 powi (int a - int b + 1)" unfolding d(2) pos_divide_less_eq [OF dp] .
  have e: "decimal_exponent_of x = (if 10 powi (int a - int b) \<le> x then int a - int b else int a - int b - 1)"
    by (simp add: decimal_exponent_of_def q Let_def a_def b_def)
  show "10 powi decimal_exponent_of x \<le> x" "x < 10 powi (decimal_exponent_of x + 1)"
    using lo hi by (auto simp: e)
qed

lemma nearest_exponential_near:
  assumes "0 < x" "0 < digits" "nearest_exponential digits x = (m, e)"
  shows "\<bar>of_nat m * 10 powi (e - (int digits - 1)) - x\<bar> \<le> 1 / 2 * 10 powi (decimal_exponent_of x - (int digits - 1))"
    "0 < m" "m \<le> 10 ^ digits" "e \<in> {decimal_exponent_of x, decimal_exponent_of x + 1}"
proof -
  define E where "E = decimal_exponent_of x"
  define q where "q = E - (int digits - 1)"
  define z where "z = x / 10 powi q"
  have q: "(0 :: rat) < 10 powi q" by (simp add: zero_less_power_int)
  note b = decimal_exponent_bounds [OF assms(1), folded E_def]
  have ex: "E = int (digits - 1) + q" "E + 1 = int digits + q" using assms(2) by (simp_all add: q_def)
  have "10 ^ (digits - 1) \<le> z" "z < 10 ^ digits"
    using b q unfolding z_def ex(2) unfolding ex(1)
    by (simp_all add: pos_le_divide_eq pos_divide_less_eq power_int_add)
  then have z: "of_int (10 ^ (digits - 1)) \<le> z" "z \<le> of_int (10 ^ digits)" by simp_all
  have r: "10 ^ (digits - 1) \<le> rhe z" "rhe z \<le> 10 ^ digits"
    using rhe_mono [OF z(1)] rhe_mono [OF z(2)] by (simp_all only: rhe_of_int)
  have r0: "0 < rhe z" using r(1) zero_less_power [of "10 :: int" "digits - 1"] by linarith
  have near: "\<bar>of_int (rhe z) * 10 powi q - x\<bar> \<le> 1 / 2 * 10 powi q"
  proof -
    have "\<bar>of_int (rhe z) * 10 powi q - x\<bar> = \<bar>z - of_int (rhe z)\<bar> * 10 powi q"
      using q by (simp add: z_def abs_mult field_simps flip: abs_mult_pos)
    also have "\<dots> \<le> 1 / 2 * 10 powi q" using rhe_near [of z] q by (intro mult_right_mono) auto
    finally show ?thesis .
  qed
  have me: "(m, e) = (if nat (rhe z) = 10 ^ digits then (10 ^ (digits - 1), E + 1) else (nat (rhe z), E))"
    using assms(3) unfolding nearest_exponential_def Let_def E_def [symmetric] q_def [symmetric] z_def [symmetric]
    by (rule sym)
  have same: "of_nat m * 10 powi (e - (int digits - 1)) = (of_int (rhe z) * 10 powi q :: rat)"
  proof (cases "nat (rhe z) = 10 ^ digits")
    case True
    have "(10 :: rat) ^ digits = 10 ^ (digits - 1) * 10" using assms(2) by (simp flip: power_Suc2)
    moreover have "(10 :: rat) powi (E + 1 - (int digits - 1)) = 10 powi q * 10" by (simp add: q_def flip: power_int_add_1)
    moreover have "rhe z = 10 ^ digits" using True r0 by (metis int_nat_eq less_le of_nat_numeral of_nat_power)
    ultimately show ?thesis using me True by simp
  next
    case False
    then show ?thesis using me r0 by (simp add: q_def)
  qed
  show "\<bar>of_nat m * 10 powi (e - (int digits - 1)) - x\<bar> \<le> 1 / 2 * 10 powi (decimal_exponent_of x - (int digits - 1))"
    unfolding same using near by (simp add: q_def E_def)
  show "0 < m" using me r0 by (auto split: if_splits)
  show "m \<le> 10 ^ digits" using me r(2) by (auto split: if_splits simp: nat_le_iff intro: power_increasing)
  show "e \<in> {decimal_exponent_of x, decimal_exponent_of x + 1}" using me by (auto simp: E_def split: if_splits)
qed

lemma nearest_exponential_cases:
  assumes "0 < x" "0 < digits" "nearest_exponential digits x = (m, e)"
  defines "q \<equiv> decimal_exponent_of x - (int digits - 1)"
  shows "of_int (10 ^ (digits - 1)) \<le> x / 10 powi q" "x / 10 powi q < of_int (10 ^ digits)" "m < 10 ^ digits"
    "(int m = rhe (x / 10 powi q) \<and> e - (int digits - 1) = q) \<or>
     (rhe (x / 10 powi q) = 10 ^ digits \<and> of_nat m * 10 powi (e - (int digits - 1)) = of_int (10 ^ digits) * (10 powi q :: rat))"
proof -
  define E where "E = decimal_exponent_of x"
  define z where "z = x / 10 powi q"
  have q: "(0 :: rat) < 10 powi q" by (simp add: zero_less_power_int)
  note b = decimal_exponent_bounds [OF assms(1), folded E_def]
  have ex: "E = int (digits - 1) + q" "E + 1 = int digits + q" using assms(2) by (simp_all add: q_def E_def)
  have zb: "10 ^ (digits - 1) \<le> z" "z < 10 ^ digits"
    using b q unfolding z_def ex(2) unfolding ex(1)
    by (simp_all add: pos_le_divide_eq pos_divide_less_eq power_int_add)
  then show z: "of_int (10 ^ (digits - 1)) \<le> x / 10 powi q" "x / 10 powi q < of_int (10 ^ digits)" by (simp_all add: z_def)
  have r: "10 ^ (digits - 1) \<le> rhe z" "rhe z \<le> 10 ^ digits"
    using rhe_mono [OF z(1)] rhe_mono [OF less_imp_le [OF z(2)]] unfolding z_def [symmetric] by (simp_all only: rhe_of_int)
  have r0: "0 < rhe z" using r(1) zero_less_power [of "10 :: int" "digits - 1"] by linarith
  have me: "(m, e) = (if nat (rhe z) = 10 ^ digits then (10 ^ (digits - 1), E + 1) else (nat (rhe z), E))"
    using assms(3) unfolding nearest_exponential_def Let_def E_def [symmetric] q_def [folded E_def, symmetric] z_def [symmetric]
    by (rule sym)
  have up: "(10 :: nat) ^ (digits - 1) < 10 ^ digits" using assms(2) by (intro power_strict_increasing) auto
  show "m < 10 ^ digits"
  proof (cases "nat (rhe z) = 10 ^ digits")
    case False
    have "nat (rhe z) \<le> 10 ^ digits" using r(2) by (simp add: nat_le_iff)
    then show ?thesis using me False by simp
  qed (use me up in simp)
  show "(int m = rhe (x / 10 powi q) \<and> e - (int digits - 1) = q) \<or>
     (rhe (x / 10 powi q) = 10 ^ digits \<and> of_nat m * 10 powi (e - (int digits - 1)) = of_int (10 ^ digits) * (10 powi q :: rat))"
  proof (cases "nat (rhe z) = 10 ^ digits")
    case True
    have "(10 :: rat) ^ digits = 10 ^ (digits - 1) * 10" using assms(2) by (simp flip: power_Suc2)
    moreover have "(10 :: rat) powi (E + 1 - (int digits - 1)) = 10 powi q * 10" by (simp add: q_def E_def flip: power_int_add_1)
    moreover have "rhe z = 10 ^ digits" using True r0 by (metis int_nat_eq less_le of_nat_numeral of_nat_power)
    ultimately show ?thesis using me True by (simp add: z_def)
  next
    case False
    then show ?thesis using me r0 by (simp add: q_def E_def z_def)
  qed
qed

lemma strip_trailing_zeros_value:
  "strip_trailing_zeros c q = (c', q') \<Longrightarrow>
     of_nat c' * 10 powi q' = (of_nat c * 10 powi q :: rat) \<and> c' \<le> c \<and> q \<le> q' \<and> q' \<le> q + int c"
proof (induction c q rule: strip_trailing_zeros.induct)
  case (1 c q)
  show ?case
  proof (cases "c \<noteq> 0 \<and> c mod 10 = 0")
    case True
    then have r: "strip_trailing_zeros (c div 10) (q + 1) = (c', q')"
      using 1(2) by (subst (asm) strip_trailing_zeros.simps) simp
    have c10: "c = 10 * (c div 10)" "0 < c div 10" using True by auto
    have "of_nat c = (10 * of_nat (c div 10) :: rat)" by (subst c10(1)) simp
    then show ?thesis using 1(1) [OF True r] c10(2) by (simp add: power_int_add_1)
  next
    case False
    then show ?thesis using 1(2) by (subst (asm) strip_trailing_zeros.simps) auto
  qed
qed

lemma candidate_text_literal:
  assumes "c \<le> 1000000" "\<bar>q\<bar> \<le> 1000000"
  obtains ip ep where "candidate_text c q = literal_text ip None (Some ep)" "normal_parts ip None (Some ep)"
    "exponent_fits (Some ep)" "literal_value ip None (Some ep) = of_nat c * 10 powi q"
    "length (literal_text ip None (Some ep)) \<le> 10000000"
proof -
  obtain c' q' where s: "strip_trailing_zeros c q = (c', q')" by fastforce
  note f = strip_trailing_zeros_value [OF s]
  define ep where "ep = (if q' < 0 then NegativeExponent else NoExponentSign, nat_to_string (nat \<bar>q'\<bar>))"
  have b: "nat \<bar>q'\<bar> \<le> 2000000" "c' \<le> 1000000" using f assms by linarith+
  have t: "candidate_text c q = literal_text (nat_to_string c') None (Some ep)"
    by (simp add: candidate_text_def s Let_def literal_text_def ep_def exponent_sign_text_def int_to_string_def)
  have "length (nat_to_string c') \<le> Suc 1000000" "length (nat_to_string (nat \<bar>q'\<bar>)) \<le> Suc 2000000"
    using nat_to_string_length_le b le_trans Suc_le_mono by metis+
  then have l: "length (literal_text (nat_to_string c') None (Some ep)) \<le> 10000000"
    by (auto simp: literal_text_def ep_def exponent_sign_text_def)
  show thesis
  proof (rule that [OF t])
    show "normal_parts (nat_to_string c') None (Some ep)" by (simp add: normal_parts_def ep_def)
    show "exponent_fits (Some ep)" using b(1) by (simp add: exponent_fits_def ep_def)
    show "literal_value (nat_to_string c') None (Some ep) = of_nat c * 10 powi q"
      using f by (simp add: literal_value_def coefficient_value_def fraction_text_def exponent_value_def ep_def)
  qed (rule l)
qed

text \<open>A decimal within a twentieth of a unit of a binary16 value reads back to it.\<close>

lemma near_reads_back:
  assumes x: "rnd 11 (- 24) x = x" "0 < x" and c: "\<bar>c - x\<bar> \<le> x / 20000"
  shows "rnd 11 (- 24) c = x"
proof -
  obtain n where n: "rnd 11 (- 24) x = of_int n * two_powi (unit_exp 11 (- 24) (rnd 11 (- 24) x))" "0 \<le> n" "n < 2 ^ 11"
    "unit_exp 11 (- 24) (rnd 11 (- 24) x) = - 24 \<or> 2 ^ (11 - 1) \<le> n"
    using binary16.R_representable [of x] x(2) by (metis less_imp_le)
  define u where "u = unit_exp 11 (- 24) x"
  have xn: "x = of_int n * two_powi u" "u = - 24 \<or> 2 ^ 10 \<le> n" "- 24 \<le> u"
    using n(1,4) binary16.umin_le_unit [of x] by (simp_all add: x(1) u_def)
  note n = n(2,3)
  have u: "0 < two_powi u" by (rule two_powi_pos)
  have n0: "0 < n" using x(2) u n(1) by (auto simp: xn(1) zero_less_mult_iff)
  have "(of_int n :: rat) \<le> 2047" using n(2) by simp
  then have "x \<le> 2047 * two_powi u" using u by (simp only: xn(1) mult_right_mono less_imp_le)
  then have near: "\<bar>c - x\<bar> \<le> 2047 / 20000 * two_powi u" using c by linarith
  show ?thesis
  proof (cases "x \<le> c")
    case True
    have "c < x + 1 / 2 * two_powi u" using near True u by linarith
    then have "c < (of_int n + 1 / 2) * two_powi u" by (simp only: xn(1) distrib_right)
    moreover have "of_int n * two_powi u \<le> c" using True by (simp add: xn(1))
    moreover have "u = - 24 \<or> 2 ^ (11 - 1) \<le> n" using xn(2) by simp
    ultimately have "rnd 11 (- 24) c = of_int n * two_powi u"
      using binary16.R_lower_half [of n u c] n xn(3) by simp
    then show ?thesis by (simp add: xn(1))
  next
    case False
    show ?thesis
    proof (cases "u = - 24 \<or> 2 ^ 10 < n")
      case True
      have "x - 1 / 2 * two_powi u < c" using near \<open>\<not> x \<le> c\<close> u by linarith
      then have "(of_int (n - 1) + 1 / 2) * two_powi u < c" by (simp add: xn(1) algebra_simps)
      moreover have "c < of_int (n - 1 + 1) * two_powi u" using \<open>\<not> x \<le> c\<close> by (simp add: xn(1))
      moreover have "u = - 24 \<or> 2 ^ (11 - 1) \<le> n - 1" using True by auto
      ultimately have "rnd 11 (- 24) c = of_int (n - 1 + 1) * two_powi u"
        using binary16.R_upper_half [of "n - 1" u c] n n0 xn(3) by simp
      then show ?thesis by (simp add: xn(1))
    next
      case False
      then have nu: "n = 1024" "- 24 < u" using xn(2,3) by auto
      have uu: "two_powi u = 2 * two_powi (u - 1)" using two_powi_add [of "u - 1" 1] by simp
      have "x / 20000 \<le> 1 / 4 * two_powi (u - 1)" using two_powi_pos [of "u - 1"] by (simp add: xn(1) nu(1) uu)
      then have "\<bar>c - x\<bar> \<le> 1 / 4 * two_powi (u - 1)" using c by linarith
      then have "x - 1 / 2 * two_powi (u - 1) < c" using two_powi_pos [of "u - 1"] by linarith
      then have "(of_int 2047 + 1 / 2) * two_powi (u - 1) < c" by (simp add: xn(1) nu(1) uu)
      moreover have "c < of_int (2047 + 1) * two_powi (u - 1)" using \<open>\<not> x \<le> c\<close> by (simp add: xn(1) nu(1) uu)
      ultimately have "rnd 11 (- 24) c = of_int (2047 + 1) * two_powi (u - 1)"
        using binary16.R_upper_half [of 2047 "u - 1" c] nu(2) by simp
      then show ?thesis by (simp add: xn(1) nu(1) uu)
    qed
  qed
qed

text \<open>Between two magnitudes that round to the same one, every magnitude does.\<close>

lemma rounds_between:
  assumes "rnd 11 (- 24) a = x" "rnd 11 (- 24) b = x" "0 \<le> a" "a \<le> y" "y \<le> b"
  shows "rnd 11 (- 24) y = x"
  using binary16.R_mono [OF assms(3,4)] binary16.R_mono [of y b] assms by linarith

text \<open>Where some decimal of at most \<open>digits\<close> digits reads back to \<open>x\<close>, the multiple of the last place next
  to \<open>x\<close> on its side does.\<close>

lemma neighbour_reads_back:
  fixes x :: rat
  assumes x: "rnd 11 (- 24) x = x" "0 < x"
    and z: "of_int (10 ^ (digits - 1)) \<le> x / 10 powi q" "x / 10 powi q < of_int (10 ^ digits)" "0 < digits"
    and d: "c < 10 ^ digits" "rnd 11 (- 24) (of_nat c * 10 powi k) = x"
  shows "rnd 11 (- 24) (of_int \<lfloor>x / 10 powi q\<rfloor> * 10 powi q) = x \<or>
    rnd 11 (- 24) (of_int \<lceil>x / 10 powi q\<rceil> * 10 powi q) = x"
proof -
  define u :: rat where "u = 10 powi q"
  have u: "0 < u" by (simp add: u_def zero_less_power_int)
  have xz: "x = x / u * u" using u by simp
  have fl: "of_int \<lfloor>x / u\<rfloor> * u \<le> x" "x \<le> of_int \<lceil>x / u\<rceil> * u"
    using u mult_right_mono [OF of_int_floor_le [of "x / u"], of u] mult_right_mono [OF le_of_int_ceiling [of "x / u"], of u] by simp_all
  have low: "(10 :: int) ^ (digits - 1) \<le> \<lfloor>x / u\<rfloor>" using z(1) by (simp only: u_def le_floor_iff)
  have c: "(of_nat c :: rat) < 10 ^ digits" using d(1) by (metis of_nat_less_iff of_nat_numeral of_nat_power)
  have dpos: "(0 :: rat) \<le> of_nat c * 10 powi k" by simp
  show ?thesis
  proof (cases "q \<le> k")
    case True
    then obtain j where "k = int j + q" by (metis add.commute zle_iff_zadd)
    then have "(10 :: rat) powi k = 10 ^ j * u" by (simp add: u_def power_int_add)
    then obtain N :: int where N: "of_nat c * 10 powi k = of_int N * u"
      by (intro that [of "int c * 10 ^ j"]) simp
    show ?thesis
    proof (cases "of_int N * u \<le> x")
      case le: True
      then have "N \<le> \<lfloor>x / u\<rfloor>" using u by (simp add: le_floor_iff pos_le_divide_eq)
      then have "of_int N * u \<le> of_int \<lfloor>x / u\<rfloor> * u" using u by simp
      from rounds_between [OF d(2)[unfolded N] x(1) _ this fl(1)] show ?thesis using dpos N by (simp add: u_def)
    next
      case False
      then have "\<lceil>x / u\<rceil> \<le> N" using u by (simp add: ceiling_le_iff pos_divide_le_eq)
      then have "of_int \<lceil>x / u\<rceil> * u \<le> of_int N * u" using u by simp
      from rounds_between [OF x(1) d(2)[unfolded N] _ fl(2) this] show ?thesis using x(2) by (simp add: u_def)
    qed
  next
    case False
    have "of_nat c * 10 powi k < 10 ^ digits * (10 powi k :: rat)" using c by (simp add: zero_less_power_int)
    also have "\<dots> \<le> 10 ^ digits * 10 powi (q - 1)" using False by (simp add: ten_powi_le_iff)
    also have "\<dots> = 10 ^ (digits - 1) * u" using z(3) by (simp add: u_def power_int_diff flip: power_Suc2)
    also have "\<dots> \<le> of_int \<lfloor>x / u\<rfloor> * u"
    proof (rule mult_right_mono)
      show "(10 :: rat) ^ (digits - 1) \<le> of_int \<lfloor>x / u\<rfloor>" using low by (metis of_int_le_iff of_int_numeral of_int_power)
    qed (use u in simp)
    finally have "of_nat c * 10 powi k \<le> of_int \<lfloor>x / u\<rfloor> * u" by simp
    from rounds_between [OF d(2) x(1) dpos this fl(1)] show ?thesis by (simp add: u_def)
  qed
qed

lemma candidate_reads_back:
  assumes x: "rnd 11 (- 24) x = x" "0 < x" and dg: "0 < digits" and near: "nearest_exponential digits x = (m, e)"
    and d: "c < 10 ^ digits" "rnd 11 (- 24) (of_nat c * 10 powi k) = x"
  shows "\<exists>c \<in> {m, m + 1, m - 1}. rnd 11 (- 24) (of_nat c * 10 powi (e - (int digits - 1))) = x"
proof -
  define q where "q = decimal_exponent_of x - (int digits - 1)"
  define u :: rat where "u = 10 powi q"
  define z where "z = x / u"
  have u: "0 < u" by (simp add: u_def zero_less_power_int)
  note cs = nearest_exponential_cases [OF x(2) dg near, folded q_def, folded u_def, folded z_def]
  have xz: "x = z * u" using u by (simp add: z_def)
  have side: "rnd 11 (- 24) (of_int \<lfloor>z\<rfloor> * u) = x \<or> rnd 11 (- 24) (of_int \<lceil>z\<rceil> * u) = x"
    using neighbour_reads_back [OF x cs(1,2)[unfolded z_def u_def] dg d] by (simp add: z_def u_def)
  have r: "\<bar>z - of_int (rhe z)\<bar> \<le> 1 / 2" by (rule rhe_near)
  have z0: "0 < z" using x(2) u by (simp add: z_def)
  show ?thesis
  proof (cases "int m = rhe z \<and> e - (int digits - 1) = q")
    case True
    have fl: "\<lfloor>z\<rfloor> = rhe z \<or> \<lfloor>z\<rfloor> = rhe z - 1" "\<lceil>z\<rceil> = rhe z \<or> \<lceil>z\<rceil> = rhe z + 1"
      using r by linarith+
    have "\<exists>c \<in> {m, m + 1, m - 1}. int c = \<lfloor>z\<rfloor>" "\<exists>c \<in> {m, m + 1, m - 1}. int c = \<lceil>z\<rceil>"
      using fl z0 True by (auto simp: of_nat_diff) linarith+
    then show ?thesis using side True unfolding u_def by (metis of_int_of_nat_eq)
  next
    case False
    then have cr: "rhe z = 10 ^ digits" "of_nat m * 10 powi (e - (int digits - 1)) = of_int (10 ^ digits) * u"
      using cs(4) by blast+
    have zlt: "z < of_int (10 ^ digits)" by (rule cs(2))
    have fl: "\<lceil>z\<rceil> = 10 ^ digits" "\<lfloor>z\<rfloor> = 10 ^ digits - 1"
      using r zlt unfolding cr(1) by linarith+
    have "rnd 11 (- 24) (of_int (10 ^ digits) * u) = x"
    proof (cases "rnd 11 (- 24) (of_int \<lceil>z\<rceil> * u) = x")
      case True
      then show ?thesis by (simp add: fl)
    next
      case False
      define y where "y = of_int \<lfloor>z\<rfloor> * u"
      have y: "rnd 11 (- 24) y = x" using side False by (simp add: y_def)
      have "0 \<le> \<lfloor>z\<rfloor>" using z0 by simp
      then have y0: "0 \<le> y" using u by (simp add: y_def)
      have "\<bar>z - of_int (10 ^ digits)\<bar> \<le> 1 / 2" using r unfolding cr(1) .
      then have "of_int (10 ^ digits) - z \<le> 1 / 2" by linarith
      moreover have "z - of_int \<lfloor>z\<rfloor> = 1 - (of_int (10 ^ digits) - z)" by (simp add: fl(2))
      ultimately have gap: "of_int (10 ^ digits) - z \<le> z - of_int \<lfloor>z\<rfloor>" by linarith
      have yx: "y < x"
        unfolding y_def xz using u zlt gap by simp
      have "(of_int (10 ^ digits) - z) * u \<le> (z - of_int \<lfloor>z\<rfloor>) * u" using gap u by (intro mult_right_mono) auto
      then have d: "of_int (10 ^ digits) * u - x \<le> x - y" by (simp add: y_def xz left_diff_distrib)
      have "0 \<le> of_int (10 ^ digits) * u - x" using zlt u by (simp add: xz)
      from binary16.R_mirror [OF y0 yx y this d] show ?thesis by simp
    qed
    then show ?thesis using cr(2) by auto
  qed
qed

lemma binary16_magnitude_bounds:
  assumes "rnd 11 (- 24) x = x" "0 < x" "x < two_powi 16"
  shows "- 8 \<le> decimal_exponent_of x" "decimal_exponent_of x \<le> 4"
proof -
  obtain n where "rnd 11 (- 24) x = of_int n * two_powi (unit_exp 11 (- 24) (rnd 11 (- 24) x))" "0 \<le> n"
    using binary16.R_representable [of x] assms(2) by (metis less_imp_le)
  then have xn: "x = of_int n * two_powi (unit_exp 11 (- 24) x)" "0 \<le> n" using assms(1) by simp_all
  have n1: "1 \<le> n"
  proof (rule ccontr)
    assume "\<not> 1 \<le> n"
    then have "n = 0" using xn(2) by simp
    then show False using xn(1) assms(2) by simp
  qed
  have "two_powi (- 24) \<le> two_powi (unit_exp 11 (- 24) x)" using binary16.umin_le_unit by (simp only: two_powi_le_iff)
  also have "\<dots> \<le> of_int n * two_powi (unit_exp 11 (- 24) x)"
    using n1 two_powi_pos [of "unit_exp 11 (- 24) x"] by simp
  finally have "two_powi (- 24) \<le> x" using xn(1) by simp
  moreover have "(10 :: rat) powi (- 8) < two_powi (- 24)" by (simp add: power_int_def power_divide)
  ultimately have "(10 :: rat) powi (- 8) < 10 powi (decimal_exponent_of x + 1)"
    using decimal_exponent_bounds(2) [OF assms(2)] by linarith
  then show "- 8 \<le> decimal_exponent_of x" using ten_powi_less_imp by fastforce
  have "two_powi 16 < (10 :: rat) powi 5" by (simp add: power_int_def)
  then have "(10 :: rat) powi decimal_exponent_of x < 10 powi 5"
    using decimal_exponent_bounds(1) [OF assms(2)] assms(3) by linarith
  then show "decimal_exponent_of x \<le> 4" using ten_powi_less_imp by fastforce
qed

text \<open>A finite value that its precision represents exactly and that is not zero.\<close>

definition exact_at :: "binary_float_precision \<Rightarrow> f64 \<Rightarrow> bool" where
  "exact_at p v \<longleftrightarrow> f64_is_finite v \<and> precision_round p v = v \<and> f64_abs v \<noteq> 0"

lemma exact_at_mag:
  assumes "exact_at p v"
  shows "precision_rnd p (f64_mag v) = f64_mag v" "f64_mag v < two_powi (precision_limit p)" "0 < f64_mag v"
proof -
  have v: "f64_is_finite v" "v = with_sign (f64_is_sign_negative v) (precision_pattern p (precision_rnd p (f64_mag v)))"
    using assms precision_round_eq [of v p] by (simp_all add: exact_at_def)
  note f = precision_pattern_facts [OF f64_mag_nonneg, of p v]
  have "f64_is_finite (precision_pattern p (precision_rnd p (f64_mag v)))"
    using v with_sign_facts(2) by metis
  then have lt: "precision_rnd p (f64_mag v) < two_powi (precision_limit p)" using f(1) by simp
  have "f64_mag v = f64_mag (precision_pattern p (precision_rnd p (f64_mag v)))"
    using v(2) with_sign_facts(1) by metis
  then show m: "precision_rnd p (f64_mag v) = f64_mag v" using f(2) [OF lt] by simp
  show "f64_mag v < two_powi (precision_limit p)" using lt m by simp
  show "0 < f64_mag v" using assms f64_mag_nonneg [of v] f64_mag_eq_0_iff [of v] by (simp add: exact_at_def)
qed

text \<open>A decimal of at most \<open>n\<close> significant digits.\<close>

definition spelled_in :: "nat \<Rightarrow> rat \<Rightarrow> bool" where
  "spelled_in n y \<longleftrightarrow> (\<exists>c k. c < 10 ^ n \<and> y = of_nat c * 10 powi k)"

lemma spelled_in_mono: "spelled_in n y \<Longrightarrow> n \<le> k \<Longrightarrow> spelled_in k y"
  unfolding spelled_in_def by (metis le_neq_implies_less less_trans one_less_numeral_iff power_strict_increasing semiring_norm(76))

lemma spelled_in_round:
  assumes "c \<le> 10 ^ n" "0 < n"
  shows "spelled_in n (of_nat c * 10 powi k)"
proof (cases "c = 10 ^ n")
  case True
  have "of_nat c * 10 powi k = (of_nat 1 * 10 powi (int n + k) :: rat)" by (simp add: True power_int_add)
  moreover have "(1 :: nat) < 10 ^ n" by (rule one_less_power) (use assms(2) in simp_all)
  ultimately show ?thesis unfolding spelled_in_def by blast
next
  case False
  then have "c < 10 ^ n" using assms(1) by simp
  then show ?thesis unfolding spelled_in_def by blast
qed

text \<open>No decimal with fewer significant digits than \<open>y\<close> has reads back to the value.\<close>

definition shortest_value :: "binary_float_precision \<Rightarrow> f64 \<Rightarrow> rat \<Rightarrow> bool" where
  "shortest_value p v y \<longleftrightarrow>
     (\<forall>n d. spelled_in n d \<and> precision_rnd p d = f64_mag v \<longrightarrow> spelled_in n y)"

definition reads_back :: "f64 \<Rightarrow> nat \<Rightarrow> string \<Rightarrow> bool" where
  "reads_back v digits t \<longleftrightarrow>
     (\<exists>ip ep. t = literal_text ip None (Some ep) \<and> normal_parts ip None (Some ep) \<and> exponent_fits (Some ep) \<and>
        length t \<le> 10000000 \<and> rnd 11 (- 24) (literal_value ip None (Some ep)) = f64_mag v \<and>
        spelled_in digits (literal_value ip None (Some ep)))"

lemma find_candidate_outcome:
  assumes "\<And>t. t \<in> set ts \<Longrightarrow> \<exists>r. decimal_to_f16 checks t False = Inr r"
  shows "\<exists>r. find_candidate checks m ts = Inr r \<and>
    (\<forall>t. r = Some t \<longrightarrow> t \<in> set ts \<and> decimal_to_f16 checks t False = Inr (Some m)) \<and>
    (r = None \<longrightarrow> (\<forall>t \<in> set ts. decimal_to_f16 checks t False \<noteq> Inr (Some m)))"
  using assms
proof (induction ts)
  case Nil
  then show ?case by simp
next
  case (Cons t ts)
  obtain r where r: "decimal_to_f16 checks t False = Inr r" using Cons.prems by auto
  show ?case using Cons.IH Cons.prems r by (cases "r = Some m") auto
qed

lemma candidate_read:
  assumes "c \<le> 100001" "- 12 \<le> q" "q \<le> 5"
  shows "\<exists>ip ep. candidate_text c q = literal_text ip None (Some ep) \<and> normal_parts ip None (Some ep) \<and>
    exponent_fits (Some ep) \<and> literal_value ip None (Some ep) = of_nat c * 10 powi q \<and>
    length (candidate_text c q) \<le> 10000000 \<and>
    decimal_to_f16 checks (candidate_text c q) False =
      Inr (let y = rnd 11 (- 24) (of_nat c * 10 powi q) in if y < two_powi 16 then Some (f64_bits y) else None)"
proof -
  have c: "c \<le> 1000000" "\<bar>q\<bar> \<le> 1000000" using assms by linarith+
  obtain ip ep where t: "candidate_text c q = literal_text ip None (Some ep)" "normal_parts ip None (Some ep)"
    "exponent_fits (Some ep)" "literal_value ip None (Some ep) = of_nat c * 10 powi q"
    "length (literal_text ip None (Some ep)) \<le> 10000000"
    by (rule candidate_text_literal [OF c(1,2)])
  then have lt32: "length (literal_text ip None (Some ep)) \<le> u32_max" by linarith
  have "(of_nat c :: rat) \<le> 100001" using assms(1) by (metis of_nat_le_iff of_nat_numeral)
  moreover have "(10 :: rat) powi q \<le> 10 powi 5" using assms(3) by (simp only: ten_powi_le_iff)
  ultimately have "of_nat c * 10 powi q \<le> (100001 * 10 powi 5 :: rat)" by (intro mult_mono) simp_all
  also have "\<dots> < two_powi 128" by (simp add: power_int_def)
  finally have lt: "\<not> checks \<or> literal_value ip None (Some ep) < two_powi 128" by (simp add: t(4))
  have "decimal_to_f16 checks (candidate_text c q) False =
      Inr (let y = rnd 11 (- 24) (of_nat c * 10 powi q) in if y < two_powi 16 then Some (f64_bits y) else None)"
    using decimal_to_f16_once [OF t(2) lt32 lt, of False] unfolding t(1,4) if_False .
  moreover have "length (candidate_text c q) \<le> 10000000" using t(1,5) by simp
  ultimately show ?thesis using t(1-4) by blast
qed

lemma round_tripping_search:
  assumes v: "exact_at Binary16 v" and d: "1 \<le> digits" "digits \<le> 5"
  shows "\<exists>r. round_tripping_binary16_decimal checks (f64_abs v) digits = Inr r \<and>
    (\<forall>t. r = Some t \<longrightarrow> reads_back v digits t) \<and> (digits = 5 \<longrightarrow> r \<noteq> None) \<and>
    (r = None \<longrightarrow> (\<forall>d. spelled_in digits d \<longrightarrow> rnd 11 (- 24) d \<noteq> f64_mag v))"
proof -
  define x where "x = f64_mag v"
  have x: "rnd 11 (- 24) x = x" "0 < x" "x < two_powi 16"
    using exact_at_mag [OF v] by (simp_all add: x_def)
  have mag: "f64_mag (f64_abs v) = x" by (simp add: x_def f64_abs_facts)
  obtain m e where me: "nearest_exponential digits x = (m, e)" by fastforce
  define q where "q = e - (int digits - 1)"
  have d0: "0 < digits" using d(1) by simp
  note near = nearest_exponential_near [OF x(2) d0 me]
  note b = binary16_magnitude_bounds [OF x]
  have "m \<le> 10 ^ 5" using near(3) power_increasing [OF d(2), of "10 :: nat"] by simp
  then have cs: "c \<le> 100001" if "c \<in> {m, m + 1, m - 1}" for c using that by auto
  have q: "- 12 \<le> q" "q \<le> 5" using near(4) b d by (auto simp: q_def)
  let ?ts = "map (\<lambda>candidate. candidate_text candidate q) [m, m + 1, m - 1]"
  have rt: "round_tripping_binary16_decimal checks (f64_abs v) digits = find_candidate checks (f64_abs v) ?ts"
    by (simp add: round_tripping_binary16_decimal_def mag me q_def Let_def)
  have "\<exists>r. decimal_to_f16 checks t False = Inr r" if "t \<in> set ?ts" for t
    using that candidate_read [OF cs q, of _ checks] by fastforce
  then obtain r where r: "find_candidate checks (f64_abs v) ?ts = Inr r"
    "\<And>t. r = Some t \<Longrightarrow> t \<in> set ?ts \<and> decimal_to_f16 checks t False = Inr (Some (f64_abs v))"
    "r = None \<Longrightarrow> \<forall>t \<in> set ?ts. decimal_to_f16 checks t False \<noteq> Inr (Some (f64_abs v))"
    using find_candidate_outcome [of ?ts checks "f64_abs v"] by blast
  have m10: "m < 10 ^ digits" by (rule nearest_exponential_cases(3) [OF x(2) d0 me])
  have "reads_back v digits t" if "r = Some t" for t
  proof -
    note read = r(2) [OF that]
    from read obtain c where c: "c \<in> {m, m + 1, m - 1}" "t = candidate_text c q" by auto
    obtain ip ep where t: "t = literal_text ip None (Some ep)" "normal_parts ip None (Some ep)" "exponent_fits (Some ep)"
      "literal_value ip None (Some ep) = of_nat c * 10 powi q"
      "decimal_to_f16 checks t False =
        Inr (let y = rnd 11 (- 24) (of_nat c * 10 powi q) in if y < two_powi 16 then Some (f64_bits y) else None)"
      "length t \<le> 10000000"
      using candidate_read [OF cs [OF c(1)] q, of checks] unfolding c(2) by blast
    define y where "y = rnd 11 (- 24) (of_nat c * 10 powi q :: rat)"
    have y: "y < two_powi 16" "f64_bits y = f64_abs v"
      using t(5) read by (simp_all add: y_def Let_def split: if_splits)
    have pos: "(0 :: rat) \<le> of_nat c * 10 powi q" by simp
    note pf = precision_pattern_facts(2) [OF pos, of Binary16]
    have "f64_mag (f64_bits y) = y"
      using pf y(1) by (simp add: precision_pattern_def y_def [symmetric])
    then have "y = x" using y(2) mag by simp
    then have "rnd 11 (- 24) (literal_value ip None (Some ep)) = f64_mag v" by (simp add: t(4) y_def x_def)
    moreover have "spelled_in digits (literal_value ip None (Some ep))"
      unfolding t(4) using c(1) m10 by (intro spelled_in_round [OF _ d0]) auto
    ultimately show ?thesis using t(1-4,6) unfolding reads_back_def by blast
  qed
  moreover have "\<forall>d. spelled_in digits d \<longrightarrow> rnd 11 (- 24) d \<noteq> f64_mag v" if "r = None"
  proof (intro allI impI notI)
    fix d assume "spelled_in digits d" and dx: "rnd 11 (- 24) d = f64_mag v"
    then obtain c k where "c < 10 ^ digits" "rnd 11 (- 24) (of_nat c * 10 powi k) = x"
      by (auto simp: spelled_in_def x_def)
    from candidate_reads_back [OF x(1,2) d0 me this, folded q_def]
    obtain c where c: "c \<in> {m, m + 1, m - 1}" "rnd 11 (- 24) (of_nat c * 10 powi q) = x" by (rule bexE)
    have "f64_bits x = f64_abs v" using f64_bits_of_mag v by (simp add: x_def exact_at_def)
    then have "decimal_to_f16 checks (candidate_text c q) False = Inr (Some (f64_abs v))"
      using candidate_read [OF cs [OF c(1)] q, of checks] c(2) x(3) by auto
    moreover have "candidate_text c q \<in> set ?ts" using c(1) by auto
    ultimately show False using r(3) [OF that] by blast
  qed
  moreover have "r \<noteq> None" if "digits = 5"
  proof
    assume "r = None"
    then have no: "decimal_to_f16 checks (candidate_text m q) False \<noteq> Inr (Some (f64_abs v))" using r(3) by simp
    have E: "10 powi decimal_exponent_of x \<le> x" by (rule decimal_exponent_bounds(1) [OF x(2)])
    have "(10 :: rat) powi (decimal_exponent_of x - 4) = 10 powi decimal_exponent_of x / 10000"
      by (simp add: power_int_diff)
    then have "\<bar>of_nat m * 10 powi q - x\<bar> \<le> x / 20000"
      using near(1) E by (simp add: that q_def)
    then have rx: "rnd 11 (- 24) (of_nat m * 10 powi q) = x" by (rule near_reads_back [OF x(1,2)])
    have "f64_bits x = f64_abs v" using f64_bits_of_mag v by (simp add: x_def exact_at_def)
    then show False using no candidate_read [OF cs q, of m checks] rx x(3) by auto
  qed
  ultimately show ?thesis using rt r(1) by auto
qed

lemma find_digit_count_shortest:
  assumes v: "exact_at Binary16 v"
  shows "digits \<le> 5 \<Longrightarrow> 1 \<le> digits \<Longrightarrow> (\<And>n d. n < digits \<Longrightarrow> spelled_in n d \<Longrightarrow> rnd 11 (- 24) d \<noteq> f64_mag v) \<Longrightarrow>
    \<exists>t n. find_digit_count checks (f64_abs v) [digits..<6] = Inr (Some t) \<and> reads_back v n t \<and>
      (\<forall>k d. k < n \<longrightarrow> spelled_in k d \<longrightarrow> rnd 11 (- 24) d \<noteq> f64_mag v)"
proof (induction "5 - digits" arbitrary: digits)
  case (0 digits)
  then have digits: "digits = 5" by simp
  obtain r where r: "round_tripping_binary16_decimal checks (f64_abs v) 5 = Inr r"
    "\<And>t. r = Some t \<Longrightarrow> reads_back v 5 t" "r \<noteq> None"
    using round_tripping_search [OF v, of 5 checks] by auto
  then obtain t where t: "r = Some t" by blast
  have "find_digit_count checks (f64_abs v) [5..<6] = Inr (Some t)" by (simp add: upt_rec [of 5 6] r(1) t)
  then show ?case using r(2) [OF t] "0.prems"(3) unfolding digits by blast
next
  case (Suc i digits)
  have up: "[digits..<6] = digits # [Suc digits..<6]" using Suc(2) by (simp add: upt_conv_Cons)
  obtain r where r: "round_tripping_binary16_decimal checks (f64_abs v) digits = Inr r"
    "\<And>t. r = Some t \<Longrightarrow> reads_back v digits t"
    "\<And>d. r = None \<Longrightarrow> spelled_in digits d \<Longrightarrow> rnd 11 (- 24) d \<noteq> f64_mag v"
    using round_tripping_search [OF v, of digits checks] Suc.prems(1,2) by auto
  show ?case
  proof (cases r)
    case None
    have "rnd 11 (- 24) d \<noteq> f64_mag v" if "n < Suc digits" "spelled_in n d" for n d
      using that Suc.prems(3) [of n d] r(3) [OF None, of d] by (cases "n = digits") auto
    then show ?thesis using Suc(1) [of "Suc digits"] Suc(2) Suc.prems(1) r(1) None by (simp add: up del: upt_Suc)
  next
    case (Some t)
    then show ?thesis using r(1,2) Suc.prems(3) by (auto simp: up simp del: upt_Suc)
  qed
qed

lemma reads_back_shortest:
  assumes "reads_back v digits t" "\<And>n d. n < digits \<Longrightarrow> spelled_in n d \<Longrightarrow> rnd 11 (- 24) d \<noteq> f64_mag v"
  shows "\<exists>ip ep. t = literal_text ip None (Some ep) \<and> normal_parts ip None (Some ep) \<and> exponent_fits (Some ep) \<and>
    length t \<le> 10000000 \<and> rnd 11 (- 24) (literal_value ip None (Some ep)) = f64_mag v \<and>
    shortest_value Binary16 v (literal_value ip None (Some ep))"
proof -
  obtain ip ep where t: "t = literal_text ip None (Some ep)" "normal_parts ip None (Some ep)" "exponent_fits (Some ep)"
    "length t \<le> 10000000" "rnd 11 (- 24) (literal_value ip None (Some ep)) = f64_mag v"
    "spelled_in digits (literal_value ip None (Some ep))"
    using assms(1) unfolding reads_back_def by blast
  have "shortest_value Binary16 v (literal_value ip None (Some ep))"
    unfolding shortest_value_def precision_rnd.simps
    using assms(2) spelled_in_mono [OF t(6)] by (meson not_less)
  then show ?thesis using t(1-5) by blast
qed

section \<open>What a shortest decimal promises\<close>

text \<open>The text of a value at a precision: its sign and an unsigned literal that rounds back to it, with as
  few significant digits as any decimal that does. The length bound is far above the 24 bytes of a \<open>ryu\<close>
  buffer.\<close>

definition shortest_text :: "binary_float_precision \<Rightarrow> f64 \<Rightarrow> string \<Rightarrow> bool" where
  "shortest_text p v s \<longleftrightarrow>
     (\<exists>ip fp ep. s = sign_text (f64_is_sign_negative v) @ literal_text ip fp ep \<and> normal_parts ip fp ep \<and>
        exponent_fits ep \<and> length (literal_text ip fp ep) \<le> 10000000 \<and>
        precision_rnd p (literal_value ip fp ep) = f64_mag v \<and> shortest_value p v (literal_value ip fp ep))"

text \<open>The documented contract of the third-party formatter at one value: the shortest decimal that reads
  back to a finite value of the type.\<close>

definition ryu_documented :: "shortest_formats \<Rightarrow> binary_float_precision \<Rightarrow> f64 \<Rightarrow> bool" where
  "ryu_documented R p v \<longleftrightarrow>
     (p = Binary32 \<and> exact_at Binary32 v \<longrightarrow> shortest_text Binary32 v (ryu_f32 R v)) \<and>
     (p = Binary64 \<and> exact_at Binary64 v \<longrightarrow> shortest_text Binary64 v (ryu_f64 R v))"

lemma shortest_decimal_text:
  assumes "exact_at p v" "ryu_documented R p v"
  shows "\<exists>s. shortest_decimal checks R v p = Inr s \<and> shortest_text p v s"
proof (cases p)
  case Binary16
  note v = assms(1) [unfolded Binary16]
  have none: "rnd 11 (- 24) d \<noteq> f64_mag v" if "n < 1" "spelled_in n d" for n d
    using that exact_at_mag(3) [OF v] binary16.R_zero by (auto simp: spelled_in_def)
  have "\<exists>t n. find_digit_count checks (f64_abs v) [1..<6] = Inr (Some t) \<and> reads_back v n t \<and>
      (\<forall>k d. k < n \<longrightarrow> spelled_in k d \<longrightarrow> rnd 11 (- 24) d \<noteq> f64_mag v)"
    by (rule find_digit_count_shortest [OF v]) (simp, simp, rule none)
  then obtain t n where t: "find_digit_count checks (f64_abs v) [1..<Suc binary16_significant_digit_budget] = Inr (Some t)"
    "reads_back v n t" "\<And>k d. k < n \<Longrightarrow> spelled_in k d \<Longrightarrow> rnd 11 (- 24) d \<noteq> f64_mag v"
    by (auto simp: binary16_significant_digit_budget_def)
  have "shortest_decimal checks R v p = Inr (sign_text (f64_is_sign_negative v) @ t)"
    using t(1) by (simp add: Binary16 shortest_decimal_def shortest_binary16_decimal_def Let_def sign_text_def)
  moreover have "shortest_text Binary16 v (sign_text (f64_is_sign_negative v) @ t)"
    using reads_back_shortest [OF t(2)] t(3) unfolding shortest_text_def precision_rnd.simps by blast
  ultimately show ?thesis using Binary16 by blast
qed (use assms in \<open>auto simp: ryu_documented_def shortest_decimal_def\<close>)

lemma format_reads_back:
  assumes "exact_at p v" "ryu_documented R p v"
  shows "\<exists>ip fp ep. format_finite_float checks R v p =
      Inr (Inr (sign_text (f64_is_sign_negative v) @ literal_text ip fp ep)) \<and>
    normal_parts ip fp ep \<and> canonical_layout ip fp ep \<and> (ep \<noteq> None \<longleftrightarrow> use_exponent v) \<and>
    length (literal_text ip fp ep) \<le> u32_max \<and> precision_rnd p (literal_value ip fp ep) = f64_mag v \<and>
    shortest_value p v (literal_value ip fp ep)"
proof -
  obtain ip fp ep where s: "shortest_decimal checks R v p = Inr (sign_text (f64_is_sign_negative v) @ literal_text ip fp ep)"
    "normal_parts ip fp ep" "exponent_fits ep" "length (literal_text ip fp ep) \<le> 10000000"
    "precision_rnd p (literal_value ip fp ep) = f64_mag v" "shortest_value p v (literal_value ip fp ep)"
    using shortest_decimal_text [OF assms, of checks] unfolding shortest_text_def by blast
  have "precision_rnd p 0 = 0" using binary16.R_zero binary32.R_zero binary64.R_zero by (cases p) simp_all
  then have nz: "literal_value ip fp ep \<noteq> 0" using s(5) exact_at_mag(3) [OF assms(1)] by auto
  obtain ip' fp' ep' where r: "render_shortest v (sign_text (f64_is_sign_negative v) @ literal_text ip fp ep) =
      Inr (sign_text (f64_is_sign_negative v) @ literal_text ip' fp' ep')" "normal_parts ip' fp' ep'"
    "canonical_layout ip' fp' ep'" "ep' \<noteq> None \<longleftrightarrow> use_exponent v" "literal_value ip' fp' ep' = literal_value ip fp ep"
    "length (literal_text ip' fp' ep') \<le> u32_max"
    using render_shortest_literal [OF s(2,3) nz] s(4) by blast
  have "format_finite_float checks R v p = Inr (Inr (sign_text (f64_is_sign_negative v) @ literal_text ip' fp' ep'))"
    using assms(1) s(1) r(1) by (simp add: format_finite_float_def exact_at_def)
  then show ?thesis using r(2-6) s(5,6) by metis
qed

text \<open>What reads a formatted text back.\<close>

lemma formatted_materializes:
  assumes "exact_at p v" "scalar_precision scalar = Some p"
    and "normal_parts ip fp ep" "length (literal_text ip fp ep) \<le> u32_max"
    and "precision_rnd p (literal_value ip fp ep) = f64_mag v"
  shows "materialize_normalized_fixed_scalar checks (literal_text ip fp ep) (f64_is_sign_negative v) scalar =
    Inr (Inr \<lparr>value_scalar = scalar, value_bits = v\<rparr>)"
proof -
  note x = exact_at_mag [OF assms(1)]
  have lt: "p \<noteq> Binary16 \<or> \<not> checks \<or> literal_value ip fp ep < two_powi 128"
  proof (cases "p = Binary16")
    case True
    have "literal_value ip fp ep < two_powi 16"
      using f16_overflow_power [of "literal_value ip fp ep"] x(2) assms(5) True by (fastforce simp: not_le [symmetric])
    also have "\<dots> < two_powi 128" by (simp add: two_powi_less_iff)
    finally show ?thesis by simp
  qed simp
  have c: "scalar_class scalar = BinaryFloat" using assms(2) scalar_precision_None_iff [of scalar] by auto
  have "f64_bits (f64_mag v) = f64_abs v" using f64_bits_of_mag assms(1) by (simp add: exact_at_def)
  then show ?thesis
    using materialize_float_text [OF assms(3,4,2) lt, of "if f64_is_sign_negative v then Negative else Positive"] x(2)
      with_sign_abs [of v]
    by (simp add: materialize_normalized_fixed_scalar_def c assms(5) Let_def split: if_splits)
qed

text \<open>C5. Formatting a float: what is not finite, or not exact at its precision, is refused as such, either
  zero prints as \<open>0\<close>, and every other value as its sign and a literal in Moth's layout (an exponent
  exactly outside the two thresholds, no superfluous zeros) that materialises at the precision's scalar to
  the same bits, and for which no decimal with fewer significant digits reads back to the value. For \<open>F16\<close>
  this holds of the crate's own search, which never panics and always finds its text within five digits;
  for \<open>F32\<close> and \<open>F64\<close> it rests on the documented contract of \<open>ryu\<close>.\<close>

theorem formatted_float_reads_back:
  assumes "ryu_documented R p v" "scalar_precision scalar = Some p"
  shows "if \<not> f64_is_finite v then format_finite_float checks R v p = Inr (Inl NonFiniteFloatFormat)
    else if precision_round p v \<noteq> v then format_finite_float checks R v p = Inr (Inl (InexactPrecision p))
    else if f64_abs v = 0 then format_finite_float checks R v p = Inr (Inr ''0'')
    else \<exists>ip fp ep. format_finite_float checks R v p =
        Inr (Inr (sign_text (f64_is_sign_negative v) @ literal_text ip fp ep)) \<and>
      canonical_layout ip fp ep \<and> (ep \<noteq> None \<longleftrightarrow> use_exponent v) \<and>
      materialize_normalized_fixed_scalar checks (literal_text ip fp ep) (f64_is_sign_negative v) scalar =
        Inr (Inr \<lparr>value_scalar = scalar, value_bits = v\<rparr>) \<and>
      shortest_value p v (literal_value ip fp ep)"
proof (cases "exact_at p v")
  case True
  obtain ip fp ep where f: "format_finite_float checks R v p =
      Inr (Inr (sign_text (f64_is_sign_negative v) @ literal_text ip fp ep))"
    "normal_parts ip fp ep" "canonical_layout ip fp ep" "ep \<noteq> None \<longleftrightarrow> use_exponent v"
    "length (literal_text ip fp ep) \<le> u32_max" "precision_rnd p (literal_value ip fp ep) = f64_mag v"
    "shortest_value p v (literal_value ip fp ep)"
    using format_reads_back [OF True assms(1)] by blast
  have v: "f64_is_finite v" "precision_round p v = v" "f64_abs v \<noteq> 0" using True by (simp_all add: exact_at_def)
  have "\<exists>ip fp ep. format_finite_float checks R v p =
        Inr (Inr (sign_text (f64_is_sign_negative v) @ literal_text ip fp ep)) \<and>
      canonical_layout ip fp ep \<and> (ep \<noteq> None \<longleftrightarrow> use_exponent v) \<and>
      materialize_normalized_fixed_scalar checks (literal_text ip fp ep) (f64_is_sign_negative v) scalar =
        Inr (Inr \<lparr>value_scalar = scalar, value_bits = v\<rparr>) \<and>
      shortest_value p v (literal_value ip fp ep)"
    using f(1,3,4,7) formatted_materializes [OF True assms(2) f(2,5,6)] by blast
  then show ?thesis using v by simp
next
  case False
  then show ?thesis by (auto simp: exact_at_def format_finite_float_def)
qed

text \<open>Three halves, at every precision, and a formatter that prints it.\<close>

definition sample_formats :: shortest_formats where
  "sample_formats = \<lparr>ryu_f32 = \<lambda>_. ''1.5'', ryu_f64 = \<lambda>_. ''1.5'', lower_exp = \<lambda>_. []\<rparr>"

lemma three_halves_fixed: "precision_rnd p (3 / 2) = 3 / 2" "precision_rnd p 1 = 1" "precision_rnd p 2 = 2"
proof -
  show "precision_rnd p (3 / 2) = 3 / 2"
    using binary16.R_fixed [of "3 / 2" 3 "- 1"] binary32.R_fixed [of "3 / 2" 3 "- 1"] binary64.R_fixed [of "3 / 2" 3 "- 1"]
    by (cases p) simp_all
  show "precision_rnd p 1 = 1"
    using binary16.R_fixed [of 1 1 0] binary32.R_fixed [of 1 1 0] binary64.R_fixed [of 1 1 0] by (cases p) simp_all
  show "precision_rnd p 2 = 2"
    using binary16.R_fixed [of 2 1 1] binary32.R_fixed [of 2 1 1] binary64.R_fixed [of 2 1 1] by (cases p) simp_all
qed

lemma three_halves_shortest:
  assumes "f64_mag v = 3 / 2"
  shows "shortest_value p v (3 / 2)"
  unfolding shortest_value_def
proof (intro allI impI, elim conjE)
  fix n d
  assume d: "spelled_in n d" "precision_rnd p d = f64_mag v"
  obtain c k where c: "c < 10 ^ n" "d = of_nat c * 10 powi k" using d(1) by (auto simp: spelled_in_def)
  have mono: "precision_rnd p a \<le> precision_rnd p b" if "0 \<le> a" "a \<le> b" for a b
    using that binary16.R_mono [of a b] binary32.R_mono [of a b] binary64.R_mono [of a b] by (cases p) simp_all
  have between: "1 < d" "d < 2"
  proof -
    show "1 < d"
    proof (rule ccontr)
      assume "\<not> 1 < d"
      then have "precision_rnd p d \<le> precision_rnd p 1" by (intro mono) (simp_all add: c(2))
      then show False by (simp add: d(2) assms three_halves_fixed)
    qed
    show "d < 2"
    proof (rule ccontr)
      assume "\<not> d < 2"
      then have "precision_rnd p 2 \<le> precision_rnd p d" by (intro mono) simp_all
      then show False by (simp add: d(2) assms three_halves_fixed)
    qed
  qed
  have "\<not> n < 2"
  proof
    assume "n < 2"
    then have "c \<le> 9" using c(1) by (auto simp: less_2_cases_iff)
    then have c9: "(of_nat c :: rat) \<le> 9" by (metis of_nat_le_iff of_nat_numeral)
    show False
    proof (cases "0 \<le> k")
      case True
      then have "d = of_nat (c * 10 ^ nat k)" by (simp add: c(2) power_int_def)
      then have "1 < c * 10 ^ nat k" "c * 10 ^ nat k < 2" using between by (simp_all flip: of_nat_less_iff [where ?'a = rat])
      then show False by linarith
    next
      case False
      then have "(10 :: rat) powi k \<le> 10 powi (- 1)" by (simp only: ten_powi_le_iff)
      then have "of_nat c * 10 powi k \<le> (9 * (1 / 10) :: rat)" using c9 by (intro mult_mono) (simp_all add: power_int_def)
      then show False using between(1) by (simp add: c(2))
    qed
  qed
  then have "2 \<le> n" by simp
  moreover have "spelled_in 2 (3 / 2)" unfolding spelled_in_def by (rule exI [of _ 15], rule exI [of _ "- 1"]) (simp add: power_int_def)
  ultimately show "spelled_in n (3 / 2)" using spelled_in_mono by blast
qed

lemma three_halves_exact:
  "exact_at p (f64_bits (3 / 2))" "f64_mag (f64_bits (3 / 2)) = 3 / 2" "\<not> f64_is_sign_negative (f64_bits (3 / 2))"
proof -
  have r: "rnd 53 (- 1074) (3 / 2) = 3 / 2" by (rule binary64.R_fixed [of _ 3 "- 1"]) simp_all
  have lt: "(3 / 2 :: rat) < two_powi 1024" by simp
  have m: "f64_mag (f64_bits (3 / 2)) = 3 / 2" "f64_is_finite (f64_bits (3 / 2))"
    "f64_is_sign_negative (f64_bits (3 / 2)) = False"
    using f64_bits_mag [OF r _ lt] by simp_all
  have lim: "(3 / 2 :: rat) < two_powi (precision_limit p)" by (cases p) simp_all
  have "precision_round p (f64_bits (3 / 2)) = f64_bits (3 / 2)"
    unfolding precision_round_eq [OF m(2)] m three_halves_fixed precision_pattern_def
    using lim by (simp add: with_sign_def)
  moreover have "f64_abs (f64_bits (3 / 2)) \<noteq> 0" using f64_mag_eq_0_iff [of "f64_bits (3 / 2)"] m(1) by simp
  ultimately show "exact_at p (f64_bits (3 / 2))" using m(2) by (simp add: exact_at_def)
  show "f64_mag (f64_bits (3 / 2)) = 3 / 2" "\<not> f64_is_sign_negative (f64_bits (3 / 2))" using m by simp_all
qed

lemma sample_formats_documented: "ryu_documented sample_formats p (f64_bits (3 / 2))"
proof -
  have l: "literal_text ''1'' (Some ''5'') None = ''1.5''" "literal_value ''1'' (Some ''5'') None = 3 / 2"
    "normal_parts ''1'' (Some ''5'') None" "exponent_fits None" by code_simp+
  have "shortest_text p (f64_bits (3 / 2)) ''1.5''" for p
    unfolding shortest_text_def
    using three_halves_shortest [OF three_halves_exact(2), of p] l(3,4)
    by (intro exI [of _ "''1''"] exI [of _ "Some ''5''"] exI [of _ None])
       (simp only: l(1,2) three_halves_exact(2,3) three_halves_fixed sign_text_def if_False append_Nil simp_thms, simp)
  then show ?thesis by (simp add: ryu_documented_def sample_formats_def)
qed

theorem formatted_float_reads_back_witness:
  "(\<exists>ip fp ep. format_finite_float True sample_formats (f64_bits (3 / 2)) Binary64 = Inr (Inr (literal_text ip fp ep)) \<and>
      shortest_value Binary64 (f64_bits (3 / 2)) (literal_value ip fp ep)) \<and>
   (\<exists>ip fp ep. format_finite_float True sample_formats (f64_bits (3 / 2)) Binary32 = Inr (Inr (literal_text ip fp ep)) \<and>
      shortest_value Binary32 (f64_bits (3 / 2)) (literal_value ip fp ep)) \<and>
   (\<exists>ip fp ep. format_finite_float True sample_formats (f64_bits (3 / 2)) Binary16 = Inr (Inr (literal_text ip fp ep)) \<and>
      shortest_value Binary16 (f64_bits (3 / 2)) (literal_value ip fp ep))"
proof -
  have v: "f64_is_finite (f64_bits (3 / 2))" "precision_round p (f64_bits (3 / 2)) = f64_bits (3 / 2)"
    "f64_abs (f64_bits (3 / 2)) \<noteq> 0" for p
    using three_halves_exact(1) [of p] by (simp_all add: exact_at_def)
  have "\<exists>ip fp ep. format_finite_float True sample_formats (f64_bits (3 / 2)) p = Inr (Inr (literal_text ip fp ep)) \<and>
      shortest_value p (f64_bits (3 / 2)) (literal_value ip fp ep)"
    if "scalar_precision scalar = Some p" for p scalar
    using formatted_float_reads_back [OF sample_formats_documented that, of True] v three_halves_exact(3)
    by (auto simp: sign_text_def)
  from this [of F64 Binary64] this [of F32 Binary32] this [of F16 Binary16] show ?thesis by simp
qed

end
