(* ===== verification/Unicode_Text.thy ===== *)
theory Unicode_Text
  imports Prelude "HOL-Library.List_Lexorder"
begin

text \<open>
  Text as sequences of Unicode scalar values, for the components that read text character by
  character (\<open>crates/moth-mon\<close> and \<open>identifier.rs\<close>, \<open>words.rs\<close> of \<open>crates/moth-lexical\<close>): the UTF-8 widths
  and encoding, the character classes of the standard library the sources use, the identifier
  shape and the reserved names.

  \<^item> A \<open>char\<close> is its code point, a \<open>nat\<close>; \<open>&str\<close> and \<open>String\<close> are \<open>utext\<close>. The order of \<open>str\<close> is the
    lexicographic order of UTF-8 bytes, which is the lexicographic order of code points.
  \<^item> \<open>char::is_alphabetic\<close> and \<open>char::is_numeric\<close> beyond ASCII are tables of the Unicode version the
    toolchain ships; they are the argument \<open>unicode\<close>, and the theorems hold for every such table.
    The White_Space and control characters are stable and written out.
\<close>

section \<open>Scalars and UTF-8\<close>

type_synonym uchar = nat
type_synonym utext = "uchar list"

abbreviation ch :: "char \<Rightarrow> uchar" where "ch c \<equiv> of_char c"

text \<open>The text of an ASCII string.\<close>

definition ustr :: "string \<Rightarrow> utext" where
  "ustr s = map of_char s"

definition len_utf8 :: "uchar \<Rightarrow> nat" where
  "len_utf8 c = (if c < 0x80 then 1 else if c < 0x800 then 2 else if c < 0x10000 then 3 else 4)"

definition text_len :: "utext \<Rightarrow> nat" where
  "text_len s = sum_list (map len_utf8 s)"

definition utf8_char :: "uchar \<Rightarrow> string" where
  "utf8_char c =
     (if c < 0x80 then [char_of c]
      else if c < 0x800 then [char_of (0xC0 + c div 64), char_of (0x80 + c mod 64)]
      else if c < 0x10000 then
        [char_of (0xE0 + c div 4096), char_of (0x80 + c div 64 mod 64), char_of (0x80 + c mod 64)]
      else
        [char_of (0xF0 + c div 262144), char_of (0x80 + c div 4096 mod 64),
         char_of (0x80 + c div 64 mod 64), char_of (0x80 + c mod 64)])"

definition utf8 :: "utext \<Rightarrow> string" where
  "utf8 s = concat (map utf8_char s)"

definition is_scalar :: "uchar \<Rightarrow> bool" where
  "is_scalar c \<longleftrightarrow> c < 0xD800 \<or> (0xDFFF < c \<and> c < 0x110000)"

definition from_u32 :: "nat \<Rightarrow> uchar option" where
  "from_u32 n = (if is_scalar n then Some n else None)"

lemma ustr_simps [simp]:
  "ustr [] = []" "ustr (c # s) = of_char c # ustr s" "ustr (s @ t) = ustr s @ ustr t"
  "length (ustr s) = length s" "ustr s = [] \<longleftrightarrow> s = []"
  by (simp_all add: ustr_def)

lemma text_len_simps [simp]:
  "text_len [] = 0" "text_len (c # s) = len_utf8 c + text_len s" "text_len (s @ t) = text_len s + text_len t"
  by (simp_all add: text_len_def)

lemma text_len_rev [simp]: "text_len (rev s) = text_len s"
  by (induction s) simp_all

lemma len_utf8_pos [simp]: "0 < len_utf8 c"
  by (simp add: len_utf8_def)

lemma len_utf8_le: "len_utf8 c \<le> 4"
  by (simp add: len_utf8_def)

lemma length_le_text_len: "length s \<le> text_len s"
  by (induction s) (auto simp: Suc_le_eq intro: add_less_le_mono [of 0 _ "length _", simplified])

lemma length_utf8_char: "length (utf8_char c) = len_utf8 c"
  by (simp add: utf8_char_def len_utf8_def)

lemma length_utf8: "length (utf8 s) = text_len s"
  by (induction s) (simp_all add: utf8_def length_utf8_char)

lemma utf8_simps [simp]:
  "utf8 [] = []" "utf8 (c # s) = utf8_char c @ utf8 s" "utf8 (s @ t) = utf8 s @ utf8 t"
  by (simp_all add: utf8_def)

text \<open>ASCII strings are their own UTF-8 encoding.\<close>

definition ascii :: "string \<Rightarrow> bool" where
  "ascii s \<longleftrightarrow> (\<forall>c \<in> set s. (of_char c :: nat) < 0x80)"

lemma ascii_simps [simp]:
  "ascii []" "ascii (c # s) \<longleftrightarrow> (of_char c :: nat) < 0x80 \<and> ascii s" "ascii (s @ t) \<longleftrightarrow> ascii s \<and> ascii t"
  by (auto simp: ascii_def)

lemma utf8_ustr: "ascii s \<Longrightarrow> utf8 (ustr s) = s"
  by (induction s) (auto simp: utf8_char_def)

lemma text_len_ustr: "ascii s \<Longrightarrow> text_len (ustr s) = length s"
  by (induction s) (auto simp: len_utf8_def)

lemma ustr_inj: "ustr s = ustr t \<Longrightarrow> s = t"
  by (metis inj_map_eq_map inj_on_inverseI char_of_char ustr_def)

section \<open>Decoding\<close>

text \<open>
  \<open>std::str::from_utf8\<close>: the scalar a byte sequence starts with and the bytes after it, or what the
  error reports as the length of the invalid sequence, \<open>None\<close> when the input ends within one.
\<close>

abbreviation byte_of :: "char \<Rightarrow> nat" where "byte_of c \<equiv> of_char c"

definition is_continuation :: "char \<Rightarrow> bool" where
  "is_continuation c \<longleftrightarrow> 0x80 \<le> byte_of c \<and> byte_of c \<le> 0xBF"

definition second_byte_ok :: "nat \<Rightarrow> nat \<Rightarrow> bool" where
  "second_byte_ok first second \<longleftrightarrow>
     (first = 0xE0 \<and> 0xA0 \<le> second \<and> second \<le> 0xBF) \<or>
     (0xE1 \<le> first \<and> first \<le> 0xEC \<and> 0x80 \<le> second \<and> second \<le> 0xBF) \<or>
     (first = 0xED \<and> 0x80 \<le> second \<and> second \<le> 0x9F) \<or>
     (0xEE \<le> first \<and> first \<le> 0xEF \<and> 0x80 \<le> second \<and> second \<le> 0xBF) \<or>
     (first = 0xF0 \<and> 0x90 \<le> second \<and> second \<le> 0xBF) \<or>
     (0xF1 \<le> first \<and> first \<le> 0xF3 \<and> 0x80 \<le> second \<and> second \<le> 0xBF) \<or>
     (first = 0xF4 \<and> 0x80 \<le> second \<and> second \<le> 0x8F)"

definition decode_char :: "char \<Rightarrow> string \<Rightarrow> (nat option, uchar \<times> string) result" where
  "decode_char first bytes =
     (let a = byte_of first in
      if a < 0x80 then Inr (a, bytes)
      else if 0xC2 \<le> a \<and> a \<le> 0xDF then
        (case bytes of
           [] \<Rightarrow> Inl None
         | b # bytes \<Rightarrow>
             if is_continuation b then Inr ((a mod 32) * 64 + byte_of b mod 64, bytes) else Inl (Some 1))
      else if 0xE0 \<le> a \<and> a \<le> 0xEF then
        (case bytes of
           [] \<Rightarrow> Inl None
         | b # bytes \<Rightarrow>
             if \<not> second_byte_ok a (byte_of b) then Inl (Some 1)
             else
               (case bytes of
                  [] \<Rightarrow> Inl None
                | c # bytes \<Rightarrow>
                    if is_continuation c
                    then Inr ((a mod 16) * 4096 + (byte_of b mod 64) * 64 + byte_of c mod 64, bytes)
                    else Inl (Some 2)))
      else if 0xF0 \<le> a \<and> a \<le> 0xF4 then
        (case bytes of
           [] \<Rightarrow> Inl None
         | b # bytes \<Rightarrow>
             if \<not> second_byte_ok a (byte_of b) then Inl (Some 1)
             else
               (case bytes of
                  [] \<Rightarrow> Inl None
                | c # bytes \<Rightarrow>
                    if \<not> is_continuation c then Inl (Some 2)
                    else
                      (case bytes of
                         [] \<Rightarrow> Inl None
                       | d # bytes \<Rightarrow>
                           if is_continuation d
                           then Inr ((a mod 8) * 262144 + (byte_of b mod 64) * 4096
                                       + (byte_of c mod 64) * 64 + byte_of d mod 64, bytes)
                           else Inl (Some 3))))
      else Inl (Some 1))"

lemma decode_char_length:
  "decode_char first bytes = Inr (c, remaining) \<Longrightarrow> length remaining \<le> length bytes"
  by (auto simp: decode_char_def Let_def split: if_splits list.splits)

text \<open>An error carries \<open>valid_up_to\<close> and \<open>error_len\<close>.\<close>

function from_utf8_from :: "nat \<Rightarrow> string \<Rightarrow> (nat \<times> nat option, utext) result" where
  "from_utf8_from valid_up_to [] = Inr []"
| "from_utf8_from valid_up_to (first # bytes) =
     (case decode_char first bytes of
        Inl error_len \<Rightarrow> Inl (valid_up_to, error_len)
      | Inr (c, remaining) \<Rightarrow>
          map_sum id (Cons c) (from_utf8_from (valid_up_to + (Suc (length bytes) - length remaining)) remaining))"
  by pat_completeness auto

termination
  by (relation "measure (\<lambda>(_, bytes). length bytes)") (auto dest: decode_char_length)

definition from_utf8 :: "string \<Rightarrow> (nat \<times> nat option, utext) result" where
  "from_utf8 bytes = from_utf8_from 0 bytes"

lemma decode_char_utf8:
  assumes "is_scalar c"
  shows "\<exists>first bytes. utf8_char c = first # bytes \<and> decode_char first (bytes @ rest) = Inr (c, rest)"
proof -
  have y': "(0x80 + n) mod 256 = 0x80 + n" "(0x80 + n) mod 64 = n" if "n < 64" for n :: nat
    using that by (simp_all add: mod_nat_eqI)
  consider "c < 0x80" | "0x80 \<le> c" "c < 0x800" | "0x800 \<le> c" "c < 0x10000" | "0x10000 \<le> c" "c < 0x110000"
    using assms by (fastforce simp: is_scalar_def)
  then show ?thesis
  proof cases
    case 1
    then show ?thesis by (simp add: utf8_char_def decode_char_def)
  next
    case 2
    define p where "p = c div 64"
    define q where "q = c mod 64"
    have c: "c = p * 64 + q" "q < 64" by (simp_all add: p_def q_def)
    have p: "2 \<le> p" "p < 32" using 2 c by simp_all
    have "(0xC0 + p) mod 256 = 0xC0 + p" "(0xC0 + p) mod 32 = p"
      using p by (simp_all add: mod_nat_eqI)
    then show ?thesis
      using 2 p c(2) y' [OF c(2)]
      by (simp add: utf8_char_def decode_char_def is_continuation_def p_def [symmetric] q_def [symmetric]
          c(1) [symmetric])
  next
    case 3
    define o' where "o' = c div 4096"
    define p where "p = c div 64 mod 64"
    define q where "q = c mod 64"
    have "c div 4096 = c div 64 div 64" by (simp add: div_mult2_eq [symmetric])
    then have c: "c = o' * 4096 + p * 64 + q"
      unfolding o'_def p_def q_def
      using div_mult_mod_eq [of c 64] div_mult_mod_eq [of "c div 64" 64] by linarith
    have lt: "p < 64" "q < 64" by (simp_all add: p_def q_def)
    have b: "o' < 16" "o' = 0 \<longrightarrow> 32 \<le> p" using 3 c lt by linarith+
    have s: "o' = 13 \<longrightarrow> p < 32" using assms c lt by (auto simp: is_scalar_def)
    have "(0xE0 + o') mod 256 = 0xE0 + o'" "(0xE0 + o') mod 16 = o'"
      using b by (simp_all add: mod_nat_eqI)
    moreover have "second_byte_ok (0xE0 + o') (0x80 + p)"
      using b s lt by (auto simp: second_byte_ok_def)
    ultimately show ?thesis
      using 3 b lt y'
      by (simp add: utf8_char_def decode_char_def is_continuation_def o'_def [symmetric] p_def [symmetric]
          q_def [symmetric] c [symmetric])
  next
    case 4
    define x where "x = c div 64"
    define q where "q = c mod 64"
    define p where "p = x mod 64"
    define y where "y = x div 64"
    define n where "n = y div 64"
    define o' where "o' = y mod 64"
    have e: "c = x * 64 + q" "x = y * 64 + p" "y = n * 64 + o'"
      by (simp_all add: x_def q_def y_def p_def n_def o'_def)
    have d: "c div 262144 = n" "c div 4096 mod 64 = o'" "c div 64 mod 64 = p" "c mod 64 = q"
      by (simp_all add: x_def q_def y_def p_def n_def o'_def div_mult2_eq [symmetric])
    have c: "c = n * 262144 + o' * 4096 + p * 64 + q" using e by simp
    have lt: "o' < 64" "p < 64" "q < 64" by (simp_all add: o'_def p_def q_def)
    have b: "n < 5" "n = 0 \<longrightarrow> 16 \<le> o'" "n = 4 \<longrightarrow> o' < 16" using 4 c lt by linarith+
    have "(0xF0 + n) mod 256 = 0xF0 + n" "(0xF0 + n) mod 8 = n"
      using b by (simp_all add: mod_nat_eqI)
    moreover have "second_byte_ok (0xF0 + n) (0x80 + o')"
      using b lt by (auto simp: second_byte_ok_def)
    ultimately show ?thesis
      using 4 b lt y'
      by (simp add: utf8_char_def decode_char_def is_continuation_def d c [symmetric])
  qed
qed


lemma from_utf8_from_utf8: "list_all is_scalar s \<Longrightarrow> from_utf8_from n (utf8 s) = Inr s"
proof (induction s arbitrary: n)
  case (Cons c s)
  then obtain first bytes where "utf8_char c = first # bytes"
    and "decode_char first (bytes @ utf8 s) = Inr (c, utf8 s)"
    using decode_char_utf8 [of c "utf8 s"] by auto
  then show ?case using Cons by simp
qed simp

text \<open>Decoding inverts encoding.\<close>

lemma from_utf8_utf8: "list_all is_scalar s \<Longrightarrow> from_utf8 (utf8 s) = Inr s"
  by (simp add: from_utf8_def from_utf8_from_utf8)

text \<open>An error lies within the input.\<close>

lemma decode_char_error: "decode_char first bytes = Inl (Some k) \<Longrightarrow> 0 < k \<and> k \<le> Suc (length bytes)"
  by (auto simp: decode_char_def Let_def split: if_splits list.splits)

lemma from_utf8_from_error:
  "from_utf8_from n bytes = Inl (start, k) \<Longrightarrow>
     n \<le> start \<and> start < n + length bytes \<and> (case k of Some j \<Rightarrow> 0 < j \<and> start + j \<le> n + length bytes | None \<Rightarrow> True)"
proof (induction n bytes rule: from_utf8_from.induct)
  case (2 n first bytes)
  show ?case
  proof (cases "decode_char first bytes")
    case (Inl e)
    then show ?thesis using 2(2) decode_char_error [of first bytes] by (auto split: option.splits)
  next
    case (Inr r)
    obtain c remaining where r: "r = (c, remaining)" by (cases r)
    have l: "length remaining \<le> length bytes" using decode_char_length Inr r by blast
    have "from_utf8_from (n + (Suc (length bytes) - length remaining)) remaining = Inl (start, k)"
      using 2(2) Inr r by (auto simp: map_sum_def split: sum.splits)
    from 2(1) [OF Inr r [symmetric] this] show ?thesis using l by (auto split: option.splits)
  qed
qed simp

lemma decode_char_sound:
  assumes "decode_char first bytes = Inr (c, remaining)"
  shows "is_scalar c \<and> first # bytes = utf8_char c @ remaining"
proof -
  define a where "a = byte_of first"
  have first: "first = char_of a" by (simp add: a_def)
  have cont: "\<exists>q. q < 64 \<and> b = char_of (0x80 + q) \<and> byte_of b mod 64 = q \<and> byte_of b = 0x80 + q"
    if "0x80 \<le> byte_of b" "byte_of b \<le> 0xBF" for b
  proof -
    define q where "q = byte_of b - 0x80"
    have q: "byte_of b = 0x80 + q" "q < 64" using that by (simp_all add: q_def)
    have "b = char_of (byte_of b)" by simp
    then have "b = char_of (0x80 + q)" unfolding q(1) .
    moreover have "byte_of b mod 64 = q" unfolding q(1) using q(2) by (simp add: mod_nat_eqI)
    ultimately show ?thesis using q by blast
  qed
  have dm: "(x * 64 + q) div 64 = x" "(x * 64 + q) mod 64 = q" if "q < 64" for x q :: nat using that by simp_all
  have second: "0x80 \<le> n \<and> n \<le> 0xBF" if "second_byte_ok m n" for m n
    using that by (auto simp: second_byte_ok_def)
  consider "a < 0x80" | "0xC2 \<le> a" "a \<le> 0xDF" | "0xE0 \<le> a" "a \<le> 0xEF" | "0xF0 \<le> a" "a \<le> 0xF4"
    using assms by (auto simp: decode_char_def Let_def a_def [symmetric] split: if_splits)
  then show ?thesis
  proof cases
    case 1
    then show ?thesis using assms by (auto simp: decode_char_def Let_def a_def [symmetric] utf8_char_def is_scalar_def first)
  next
    case 2
    define p where "p = a - 0xC0"
    have p: "a = 0xC0 + p" "2 \<le> p" "p < 32" using 2 by (simp_all add: p_def)
    have m: "a mod 32 = p" unfolding p(1) using p(3) by (simp add: mod_nat_eqI)
    obtain b where b: "bytes = b # remaining" "is_continuation b" "c = p * 64 + byte_of b mod 64"
      using assms 2 m by (auto simp: decode_char_def Let_def a_def [symmetric] split: if_splits list.splits)
    obtain q where q: "q < 64" "b = char_of (0x80 + q)" "byte_of b mod 64 = q" using cont b(2) unfolding is_continuation_def by blast
    have c: "c = p * 64 + q" using b(3) q(3) by simp
    have "c div 64 = p" "c mod 64 = q" unfolding c by (rule dm [OF q(1)])+
    moreover have "0x80 \<le> c" "c < 0x800" using c p q(1) by linarith+
    ultimately show ?thesis using b(1) q(2) by (simp add: utf8_char_def first p(1) is_scalar_def)
  next
    case 3
    define o' where "o' = a - 0xE0"
    have o: "a = 0xE0 + o'" "o' < 16" using 3 by (simp_all add: o'_def)
    have m: "a mod 16 = o'" unfolding o(1) using o(2) by (simp add: mod_nat_eqI)
    obtain b d where b: "bytes = b # d # remaining" "second_byte_ok a (byte_of b)" "is_continuation d"
      "c = o' * 4096 + byte_of b mod 64 * 64 + byte_of d mod 64"
      using assms 3 m by (auto simp: decode_char_def Let_def a_def [symmetric] split: if_splits list.splits)
    obtain p where p: "p < 64" "b = char_of (0x80 + p)" "byte_of b mod 64 = p" "byte_of b = 0x80 + p"
      using cont second [OF b(2)] by blast
    obtain q where q: "q < 64" "d = char_of (0x80 + q)" "byte_of d mod 64 = q" using cont b(3) unfolding is_continuation_def by blast
    have c: "c = (o' * 64 + p) * 64 + q" using b(4) p(3) q(3) by simp
    have d: "c div 64 = o' * 64 + p" "c mod 64 = q" unfolding c by (rule dm [OF q(1)])+
    note e = dm [OF p(1), of o']
    have f: "c div 4096 = o'" using d(1) e(1) div_mult2_eq [of c 64 64] by simp
    have s: "o' = 0 \<longrightarrow> 32 \<le> p" "o' = 13 \<longrightarrow> p < 32" using b(2) p(4) o(1) by (auto simp: second_byte_ok_def)
    have "0x800 \<le> c" "c < 0x10000" using c s(1) o(2) p(1) q(1) by (cases "o' = 0"; simp)+
    moreover have "is_scalar c" using s(2) c p(1) q(1) o(2) unfolding is_scalar_def by (cases "o' < 13"; cases "o' = 13"; simp)
    ultimately show ?thesis using b(1) q(2) p(2) d e f by (simp add: utf8_char_def first o(1))
  next
    case 4
    define n where "n = a - 0xF0"
    have n: "a = 0xF0 + n" "n < 5" using 4 by (simp_all add: n_def)
    have m: "a mod 8 = n" unfolding n(1) using n(2) by (simp add: mod_nat_eqI)
    obtain b d e where b: "bytes = b # d # e # remaining" "second_byte_ok a (byte_of b)" "is_continuation d" "is_continuation e"
      "c = n * 262144 + byte_of b mod 64 * 4096 + byte_of d mod 64 * 64 + byte_of e mod 64"
      using assms 4 m by (auto simp: decode_char_def Let_def a_def [symmetric] split: if_splits list.splits)
    obtain o' where o: "o' < 64" "b = char_of (0x80 + o')" "byte_of b mod 64 = o'" "byte_of b = 0x80 + o'"
      using cont second [OF b(2)] by blast
    obtain p where p: "p < 64" "d = char_of (0x80 + p)" "byte_of d mod 64 = p" using cont b(3) unfolding is_continuation_def by blast
    obtain q where q: "q < 64" "e = char_of (0x80 + q)" "byte_of e mod 64 = q" using cont b(4) unfolding is_continuation_def by blast
    define y where "y = n * 64 + o'"
    define x where "x = y * 64 + p"
    have c: "c = x * 64 + q" using b(5) o(3) p(3) q(3) by (simp add: x_def y_def)
    have d: "c div 64 = x" "c mod 64 = q" "x div 64 = y" "x mod 64 = p" "y div 64 = n" "y mod 64 = o'"
      unfolding c x_def y_def by (rule dm [OF q(1)] dm [OF p(1)] dm [OF o(1)])+
    have "c div 4096 = c div 64 div 64" "c div 262144 = c div 64 div 64 div 64" by (simp_all add: div_mult2_eq [symmetric])
    then have f: "c div 4096 = y" "c div 262144 = n" using d by simp_all
    have s: "n = 0 \<longrightarrow> 16 \<le> o'" "n = 4 \<longrightarrow> o' < 16" using b(2) o(4) n(1) by (auto simp: second_byte_ok_def)
    have lo: "0x10000 \<le> c" using c s(1) n(2) by (cases "n = 0") (simp_all add: x_def y_def)
    have "c < 0x110000"
    proof -
      have "y < 272" using s(2) n(2) o(1) by (cases "n = 4") (auto simp: y_def)
      then have "x < 17408" using p(1) unfolding x_def by linarith
      then show ?thesis using c q(1) by linarith
    qed
    then show ?thesis using lo b(1) o(2) p(2) q(2) d f by (simp add: utf8_char_def first n(1) is_scalar_def)
  qed
qed

lemma from_utf8_from_sound:
  "from_utf8_from n bytes = Inr s \<Longrightarrow> list_all is_scalar s \<and> bytes = utf8 s"
proof (induction n bytes arbitrary: s rule: from_utf8_from.induct)
  case (2 n first bytes)
  obtain c remaining where d: "decode_char first bytes = Inr (c, remaining)"
    using 2(2) by (auto split: sum.splits)
  then obtain t where t: "from_utf8_from (n + (Suc (length bytes) - length remaining)) remaining = Inr t" "s = c # t"
    using 2(2) by (auto simp: map_sum_def split: sum.splits)
  show ?case using decode_char_sound [OF d] 2(1) [OF d refl t(1)] t(2) by simp
qed simp

text \<open>Decoding runs through an encoded prefix, so an error lies behind every readable prefix.\<close>

lemma from_utf8_from_append:
  "list_all is_scalar s \<Longrightarrow>
     from_utf8_from n (utf8 s @ rest) = map_sum id ((@) s) (from_utf8_from (n + length (utf8 s)) rest)"
proof (induction s arbitrary: n)
  case Nil
  show ?case by (cases "from_utf8_from n rest") simp_all
next
  case (Cons c s)
  then obtain first bytes where "utf8_char c = first # bytes"
    and "decode_char first (bytes @ utf8 s @ rest) = Inr (c, utf8 s @ rest)"
    using decode_char_utf8 [of c "utf8 s @ rest"] by auto
  then show ?case using Cons by (simp add: sum.map_comp add.assoc comp_def)
qed

lemma from_utf8_from_error_maximal:
  assumes "from_utf8_from n bytes = Inl (start, k)" and "list_all is_scalar t" and "bytes = utf8 t @ rest"
  shows "n + length (utf8 t) \<le> start"
proof -
  have "from_utf8_from (n + length (utf8 t)) rest = Inl (start, k)"
    using assms from_utf8_from_append [OF assms(2), of n rest] by (auto simp: map_sum_def split: sum.splits)
  then show ?thesis using from_utf8_from_error by blast
qed

text \<open>The accepted byte strings are the encodings of Unicode scalar values.\<close>

lemma from_utf8_iff: "from_utf8 bytes = Inr s \<longleftrightarrow> list_all is_scalar s \<and> bytes = utf8 s"
  using from_utf8_from_sound [of 0 bytes s] from_utf8_utf8 [of s] by (auto simp: from_utf8_def)

text \<open>What precedes an error is well-formed.\<close>

lemma from_utf8_from_error_prefix:
  "from_utf8_from n bytes = Inl (start, k) \<Longrightarrow> \<exists>t. list_all is_scalar t \<and> take (start - n) bytes = utf8 t"
proof (induction n bytes rule: from_utf8_from.induct)
  case (2 n first bytes)
  show ?case
  proof (cases "decode_char first bytes")
    case (Inl e)
    then have "start = n" using 2(2) by simp
    then show ?thesis by (intro exI [of _ "[]"]) simp
  next
    case (Inr r)
    obtain c remaining where r: "r = (c, remaining)" by (cases r)
    define m where "m = Suc (length bytes) - length remaining"
    have f: "from_utf8_from (n + m) remaining = Inl (start, k)"
      using 2(2) Inr r by (auto simp: map_sum_def m_def split: sum.splits)
    obtain t where t: "list_all is_scalar t" "take (start - (n + m)) remaining = utf8 t"
      using 2(1) [OF Inr r [symmetric] f [unfolded m_def]] by (auto simp: m_def)
    have c: "is_scalar c" "first # bytes = utf8_char c @ remaining" using decode_char_sound Inr r by auto
    have m: "m = length (utf8_char c)" using arg_cong [OF c(2), of length] by (simp add: m_def)
    have "n + m \<le> start" using from_utf8_from_error [OF f] by simp
    then have "take (start - n) (first # bytes) = utf8 (c # t)"
      unfolding c(2) using t(2) by (simp add: m take_append)
    then show ?thesis using c(1) t(1) by (intro exI [of _ "c # t"]) simp
  qed
qed simp

section \<open>Character classes\<close>

record unicode =
  alphabetic_beyond_ascii :: "uchar \<Rightarrow> bool"
  numeric_beyond_ascii :: "uchar \<Rightarrow> bool"

definition is_ascii_letter :: "uchar \<Rightarrow> bool" where
  "is_ascii_letter c \<longleftrightarrow> (65 \<le> c \<and> c \<le> 90) \<or> (97 \<le> c \<and> c \<le> 122)"

definition is_digit :: "uchar \<Rightarrow> bool" where
  "is_digit c \<longleftrightarrow> 48 \<le> c \<and> c \<le> 57"

definition is_alphabetic :: "unicode \<Rightarrow> uchar \<Rightarrow> bool" where
  "is_alphabetic u c = (if c < 128 then is_ascii_letter c else alphabetic_beyond_ascii u c)"

definition is_numeric :: "unicode \<Rightarrow> uchar \<Rightarrow> bool" where
  "is_numeric u c = (if c < 128 then is_digit c else numeric_beyond_ascii u c)"

definition is_alphanumeric :: "unicode \<Rightarrow> uchar \<Rightarrow> bool" where
  "is_alphanumeric u c \<longleftrightarrow> is_alphabetic u c \<or> is_numeric u c"

definition is_whitespace :: "uchar \<Rightarrow> bool" where
  "is_whitespace c \<longleftrightarrow>
     (9 \<le> c \<and> c \<le> 13) \<or> c = 32 \<or> c = 0x85 \<or> c = 0xA0 \<or> c = 0x1680 \<or> (0x2000 \<le> c \<and> c \<le> 0x200A) \<or>
     c = 0x2028 \<or> c = 0x2029 \<or> c = 0x202F \<or> c = 0x205F \<or> c = 0x3000"

definition is_control :: "uchar \<Rightarrow> bool" where
  "is_control c \<longleftrightarrow> c < 32 \<or> (127 \<le> c \<and> c < 160)"

definition is_line_break :: "uchar \<Rightarrow> bool" where
  "is_line_break c \<longleftrightarrow> c = 10 \<or> c = 13"

definition to_ascii_lower :: "uchar \<Rightarrow> uchar" where
  "to_ascii_lower c = (if 65 \<le> c \<and> c \<le> 90 then c + 32 else c)"

definition eq_ignore_ascii_case :: "utext \<Rightarrow> utext \<Rightarrow> bool" where
  "eq_ignore_ascii_case s t \<longleftrightarrow> map to_ascii_lower s = map to_ascii_lower t"

section \<open>Identifiers\<close>

abbreviation underscore :: uchar where "underscore \<equiv> 95"

definition is_identifier_start :: "unicode \<Rightarrow> uchar \<Rightarrow> bool" where
  "is_identifier_start u c \<longleftrightarrow> c = underscore \<or> is_alphabetic u c"

definition is_identifier_continue :: "unicode \<Rightarrow> uchar \<Rightarrow> bool" where
  "is_identifier_continue u c \<longleftrightarrow> c = underscore \<or> is_alphanumeric u c"

definition is_identifier :: "unicode \<Rightarrow> utext \<Rightarrow> bool" where
  "is_identifier u s =
     (case s of [] \<Rightarrow> False | c # cs \<Rightarrow> is_identifier_start u c \<and> list_all (is_identifier_continue u) cs)"

text \<open>A byte prefix of length three equal to \<open>Dec\<close> in either case is the first three characters.\<close>

definition is_dec_family_spelling :: "utext \<Rightarrow> bool" where
  "is_dec_family_spelling s \<longleftrightarrow>
     3 \<le> length s \<and> eq_ignore_ascii_case (take 3 s) (ustr ''Dec'') \<and> list_all is_digit (drop 3 s)"

definition trim_underscores :: "utext \<Rightarrow> utext" where
  "trim_underscores s = dropWhile (\<lambda>c. c = underscore) s"

definition is_reserved_dec_family_name :: "utext \<Rightarrow> bool" where
  "is_reserved_dec_family_name s = is_dec_family_spelling (trim_underscores s)"

text \<open>The source words, in inventory order, with the reservation-only word last.\<close>

definition reserved_word_spellings :: "string list" where
  "reserved_word_spellings =
     [''export'', ''type'', ''of'', ''as'', ''copy'', ''if'', ''return'', ''catch'', ''then'',
      ''else'', ''checked'', ''cast'', ''break'', ''continue'', ''must'', ''this'', ''This'',
      ''assert'', ''async'', ''yield'', ''loop'', ''to'', ''by'', ''is'', ''not'', ''and'', ''or'',
      ''true'', ''false'', ''none'', ''Bool'', ''String'', ''Char'', ''None'', ''True'', ''False'',
      ''I8'', ''I16'', ''I32'', ''I64'', ''U8'', ''U16'', ''U32'', ''U64'', ''F16'', ''F32'', ''F64'',
      ''Byte'', ''config'']"

definition is_reserved_source_word :: "utext \<Rightarrow> bool" where
  "is_reserved_source_word s = list_ex (\<lambda>r. eq_ignore_ascii_case s (ustr r)) reserved_word_spellings"

definition is_reserved_user_name :: "utext \<Rightarrow> bool" where
  "is_reserved_user_name s =
     (let stripped = trim_underscores s
      in stripped \<noteq> [] \<and> (is_reserved_source_word stripped \<or> is_dec_family_spelling stripped))"

text \<open>A name a user may choose.\<close>

definition user_name :: "unicode \<Rightarrow> utext \<Rightarrow> bool" where
  "user_name u s \<longleftrightarrow> is_identifier u s \<and> \<not> is_reserved_user_name s"

lemma identifier_start_continues: "is_identifier_start u c \<Longrightarrow> is_identifier_continue u c"
  by (auto simp: is_identifier_start_def is_identifier_continue_def is_alphanumeric_def)

lemma identifier_ascii:
  "c < 128 \<Longrightarrow> is_identifier_continue u c \<longleftrightarrow> c = underscore \<or> is_ascii_letter c \<or> is_digit c"
  "c < 128 \<Longrightarrow> is_identifier_start u c \<longleftrightarrow> c = underscore \<or> is_ascii_letter c"
  by (auto simp: is_identifier_continue_def is_identifier_start_def is_alphanumeric_def
      is_alphabetic_def is_numeric_def)

lemmas char_classes =
  is_ascii_letter_def is_digit_def is_whitespace_def is_control_def is_line_break_def

text \<open>The names \<open>none\<close>, \<open>true\<close> and \<open>false\<close> are reserved.\<close>

lemma literal_words_reserved:
  "is_reserved_user_name (ustr ''none'')" "is_reserved_user_name (ustr ''true'')"
  "is_reserved_user_name (ustr ''false'')"
  by (simp_all add: is_reserved_user_name_def is_reserved_source_word_def trim_underscores_def
      reserved_word_spellings_def eq_ignore_ascii_case_def)

end
