(* ===== verification/Mon_Model.thy ===== *)
theory Mon_Model
  imports Unicode_Text Fixed_Scalar_Value
begin

text \<open>
  The data model of the MON codec (\<open>crates/moth-mon\<close>: \<open>model.rs\<close>, \<open>error.rs\<close>, \<open>budget.rs\<close>,
  \<open>map_keys.rs\<close>, \<open>numeric.rs\<close>): owned values, schema descriptions, structured failures with their
  byte spans and paths, the resource limits with the meter that charges them, and the typed index
  of map keys.

  \<^item> The twelve fixed-width variants of \<open>Value\<close> are \<open>FixedValue\<close> of a payload at its own width; the
    twelve fixed-width members of \<open>SchemaType\<close> are \<open>FixedSchema\<close> of their scalar.
  \<^item> The \<open>detail\<close> text of a failure is left out; its code, span and path are kept.
  \<^item> The meter borrows its limits; here they are an argument beside the counters.
\<close>

section \<open>Failures\<close>

record mon_span =
  mon_start :: nat
  mon_end :: nat

text \<open>\<open>as u32\<close> on both ends.\<close>

definition span_new :: "nat \<Rightarrow> nat \<Rightarrow> mon_span" where
  "span_new start end' = \<lparr>mon_start = start mod 2 ^ 32, mon_end = end' mod 2 ^ 32\<rparr>"

datatype path_segment =
    FieldSegment utext
  | IndexSegment nat
  | MapKeySegment utext
  | VariantSegment utext

datatype mon_error_code =
    InvalidUtf8 | UnexpectedEnd | UnexpectedToken | MissingComma | RootNotRecord | TrailingInput
  | InvalidIdentifier | InvalidEscape | InvalidCharacter | NumericSyntax | NumericType
  | NumericRange | NumericScale | NonFiniteFloat | UnknownField | MissingField | DuplicateField
  | TypeMismatch | MapKind | InvalidMapKey | DuplicateMapKey | UnknownVariant | QualifierMismatch
  | UnknownArgument | DuplicateArgument | ArgumentOrder | Arity | UnsupportedSchema
  | InvalidSchema | InvalidDefault | InputBudget | DepthBudget | NodeBudget | NumericBudget
  | DecodedBudget | OutputBudget | DefaultBudget | InternalInvariant

record mon_error =
  code :: mon_error_code
  error_span :: "mon_span option"
  error_path :: "path_segment list"

type_synonym mon_path = "path_segment list"

definition mon_error_new :: "mon_error_code \<Rightarrow> mon_span option \<Rightarrow> path_segment list \<Rightarrow> mon_error" where
  "mon_error_new c sp p = \<lparr>code = c, error_span = sp, error_path = p\<rparr>"

definition with_path :: "path_segment list \<Rightarrow> (mon_error, 'a) result \<Rightarrow> (mon_error, 'a) result" where
  "with_path p r = (case r of Inl e \<Rightarrow> Inl (e\<lparr>error_path := p\<rparr>) | Inr a \<Rightarrow> Inr a)"

text \<open>Why an operation of the codec stops: a failure it reports; an arithmetic panic of a binary16
  conversion; the panic of a payload accessor; the \<open>unreachable!\<close> of \<open>MapKeyIndex::new\<close> at a key type
  without an index; or a model run out of fuel. The last three are proved not to occur.\<close>

datatype mon_stop = MonFailure mon_error | MonPanic arithmetic_panic | CarrierPanic | KeyIndexPanic | OutOfFuel

definition lift_failure :: "(mon_error, 'a) result \<Rightarrow> (mon_stop, 'a) result" where
  "lift_failure r = map_sum MonFailure id r"

definition is_failure :: "mon_stop \<Rightarrow> bool" where
  "is_failure s = (case s of MonFailure _ \<Rightarrow> True | _ \<Rightarrow> False)"

lemma is_failure_simps [simp]:
  "is_failure (MonFailure e)" "\<not> is_failure (MonPanic p)" "\<not> is_failure CarrierPanic"
  "\<not> is_failure KeyIndexPanic" "\<not> is_failure OutOfFuel"
  by (simp_all add: is_failure_def)

section \<open>Limits and their meter\<close>

record limits =
  max_input_bytes :: nat
  max_depth :: nat
  max_nodes :: nat
  max_numeric_digits :: nat
  max_decoded_bytes :: nat
  max_output_bytes :: nat
  max_default_expansions :: nat

definition max_safe_depth :: nat where
  "max_safe_depth = 64"

definition default_limits :: limits where
  "default_limits =
     \<lparr>max_input_bytes = 1024 * 1024, max_depth = 64, max_nodes = 100000, max_numeric_digits = 4096,
      max_decoded_bytes = 16 * 1024 * 1024, max_output_bytes = 16 * 1024 * 1024,
      max_default_expansions = 10000\<rparr>"

record budget =
  nodes :: nat
  decoded_bytes :: nat
  default_expansions :: nat

definition budget_new :: budget where
  "budget_new = \<lparr>nodes = 0, decoded_bytes = 0, default_expansions = 0\<rparr>"

definition charge_nodes ::
  "limits \<Rightarrow> nat \<Rightarrow> mon_span option \<Rightarrow> budget \<Rightarrow> (mon_error, budget) result" where
  "charge_nodes lm count sp b =
     result_bind (ok_or (checked_usize (nodes b + count)) (mon_error_new NodeBudget sp []))
       (\<lambda>total. if max_nodes lm < total then Inl (mon_error_new NodeBudget sp [])
                else Inr (b\<lparr>nodes := total\<rparr>))"

definition charge_decoded_bytes ::
  "limits \<Rightarrow> nat \<Rightarrow> mon_span option \<Rightarrow> budget \<Rightarrow> (mon_error, budget) result" where
  "charge_decoded_bytes lm count sp b =
     result_bind (ok_or (checked_usize (decoded_bytes b + count)) (mon_error_new DecodedBudget sp []))
       (\<lambda>total. if max_decoded_bytes lm < total then Inl (mon_error_new DecodedBudget sp [])
                else Inr (b\<lparr>decoded_bytes := total\<rparr>))"

definition charge_default ::
  "limits \<Rightarrow> mon_span option \<Rightarrow> budget \<Rightarrow> (mon_error, budget) result" where
  "charge_default lm sp b =
     result_bind (ok_or (checked_usize (default_expansions b + 1)) (mon_error_new DefaultBudget sp []))
       (\<lambda>total. if max_default_expansions lm < total then Inl (mon_error_new DefaultBudget sp [])
                else Inr (b\<lparr>default_expansions := total\<rparr>))"

definition check_depth :: "limits \<Rightarrow> nat \<Rightarrow> mon_span option \<Rightarrow> (mon_error, unit) result" where
  "check_depth lm depth sp =
     (if max_depth lm < depth then Inl (mon_error_new DepthBudget sp []) else Inr ())"

section \<open>Values and schemas\<close>

datatype fixed_payload =
    PayloadI8 "8 word" | PayloadI16 "16 word" | PayloadI32 "32 word" | PayloadI64 "64 word"
  | PayloadU8 "8 word" | PayloadU16 "16 word" | PayloadU32 "32 word" | PayloadU64 "64 word"
  | PayloadF16 f64 | PayloadF32 f64 | PayloadF64 f64
  | PayloadByte "8 word"

datatype mon_value =
    NoneValue
  | BoolValue bool
  | CharValue uchar
  | StringValue utext
  | IntegerValue utext
  | DecimalValue utext
  | FixedValue fixed_payload
  | RecordValue "(utext \<times> mon_value) list"
  | CollectionValue "mon_value list"
  | MapValue "(mon_value \<times> mon_value) list"
  | ChoiceValue "utext option" utext "(utext \<times> mon_value) list"

datatype schema_type =
    NoneSchema
  | BoolSchema
  | CharSchema
  | StringSchema
  | IntegerSchema
  | DecimalSchema nat
  | FixedSchema fixed_scalar
  | OptionalSchema schema_type
  | RecordSchema "schema_field list"
  | StructSchema utext "schema_field list"
  | CollectionSchema schema_type
  | MapSchema schema_type schema_type
  | ChoiceSchema utext "schema_variant list"
  | UnsupportedSchemaType utext
and schema_field = SchemaField (field_name: utext) (field_type: schema_type) (field_default: "mon_value option")
and schema_variant = SchemaVariant (variant_name: utext) (variant_fields: "schema_field list")

definition required_field :: "utext \<Rightarrow> schema_type \<Rightarrow> schema_field" where
  "required_field name ty = SchemaField name ty None"

definition field_with_default :: "utext \<Rightarrow> schema_type \<Rightarrow> mon_value \<Rightarrow> schema_field" where
  "field_with_default name ty dflt = SchemaField name ty (Some dflt)"

definition unit_variant :: "utext \<Rightarrow> schema_variant" where
  "unit_variant name = SchemaVariant name []"

definition payload_variant :: "utext \<Rightarrow> schema_field list \<Rightarrow> schema_variant" where
  "payload_variant name fs = SchemaVariant name fs"

record schema =
  schema_root :: schema_type
  schema_limits :: limits

definition record_schema :: "schema_field list \<Rightarrow> schema" where
  "record_schema fs = \<lparr>schema_root = RecordSchema fs, schema_limits = default_limits\<rparr>"

definition value_schema :: "schema_type \<Rightarrow> schema" where
  "value_schema ty = \<lparr>schema_root = ty, schema_limits = default_limits\<rparr>"

definition with_limits :: "limits \<Rightarrow> schema \<Rightarrow> schema" where
  "with_limits lm s = s\<lparr>schema_limits := lm\<rparr>"

section \<open>Fixed scalar payloads\<close>

fun payload_scalar :: "fixed_payload \<Rightarrow> fixed_scalar" where
  "payload_scalar (PayloadI8 _) = I8"
| "payload_scalar (PayloadI16 _) = I16"
| "payload_scalar (PayloadI32 _) = I32"
| "payload_scalar (PayloadI64 _) = I64"
| "payload_scalar (PayloadU8 _) = U8"
| "payload_scalar (PayloadU16 _) = U16"
| "payload_scalar (PayloadU32 _) = U32"
| "payload_scalar (PayloadU64 _) = U64"
| "payload_scalar (PayloadF16 _) = F16"
| "payload_scalar (PayloadF32 _) = F32"
| "payload_scalar (PayloadF64 _) = F64"
| "payload_scalar (PayloadByte _) = Byte"

definition fixed_scalar_of :: "mon_value \<Rightarrow> fixed_scalar option" where
  "fixed_scalar_of v = (case v of FixedValue p \<Rightarrow> Some (payload_scalar p) | _ \<Rightarrow> None)"

text \<open>The carrier accessors panic on a scalar of another class: \<open>None\<close>.\<close>

definition signed_payload :: "fixed_scalar_value \<Rightarrow> int option" where
  "signed_payload m = as_i64 m"

definition unsigned_payload :: "fixed_scalar_value \<Rightarrow> nat option" where
  "unsigned_payload m = as_u64 m"

definition float_payload :: "fixed_scalar_value \<Rightarrow> f64 option" where
  "float_payload m = as_f64 m"

definition fixed_scalar_to_value :: "fixed_scalar_value \<Rightarrow> mon_value option" where
  "fixed_scalar_to_value m = map_option FixedValue
     (case value_scalar m of
        I8 \<Rightarrow> map_option (\<lambda>z. PayloadI8 (word_of_int z)) (signed_payload m)
      | I16 \<Rightarrow> map_option (\<lambda>z. PayloadI16 (word_of_int z)) (signed_payload m)
      | I32 \<Rightarrow> map_option (\<lambda>z. PayloadI32 (word_of_int z)) (signed_payload m)
      | I64 \<Rightarrow> map_option (\<lambda>z. PayloadI64 (word_of_int z)) (signed_payload m)
      | U8 \<Rightarrow> map_option (\<lambda>n. PayloadU8 (word_of_nat n)) (unsigned_payload m)
      | U16 \<Rightarrow> map_option (\<lambda>n. PayloadU16 (word_of_nat n)) (unsigned_payload m)
      | U32 \<Rightarrow> map_option (\<lambda>n. PayloadU32 (word_of_nat n)) (unsigned_payload m)
      | U64 \<Rightarrow> map_option (\<lambda>n. PayloadU64 (word_of_nat n)) (unsigned_payload m)
      | F16 \<Rightarrow> map_option PayloadF16 (float_payload m)
      | F32 \<Rightarrow> map_option PayloadF32 (float_payload m)
      | F64 \<Rightarrow> map_option PayloadF64 (float_payload m)
      | Byte \<Rightarrow> map_option (\<lambda>n. PayloadByte (word_of_nat n)) (unsigned_payload m))"

definition float_carrier :: "mon_value \<Rightarrow> f64 option" where
  "float_carrier v =
     (case v of
        FixedValue (PayloadF16 x) \<Rightarrow> Some x
      | FixedValue (PayloadF32 x) \<Rightarrow> Some x
      | FixedValue (PayloadF64 x) \<Rightarrow> Some x
      | _ \<Rightarrow> None)"

definition materialize_fixed_value :: "mon_value \<Rightarrow> fixed_scalar \<Rightarrow> mon_value option" where
  "materialize_fixed_value v scalar =
     (case scalar_precision scalar of
        None \<Rightarrow> Some v
      | Some precision \<Rightarrow>
          (case float_carrier v of
             None \<Rightarrow> None
           | Some payload \<Rightarrow>
               (let rounded = precision_round precision payload
                in if \<not> f64_is_finite rounded then None
                   else case scalar of
                     F16 \<Rightarrow> Some (FixedValue (PayloadF16 rounded))
                   | F32 \<Rightarrow> Some (FixedValue (PayloadF32 rounded))
                   | F64 \<Rightarrow> Some (FixedValue (PayloadF64 rounded))
                   | _ \<Rightarrow> None)))"

section \<open>Map keys\<close>

text \<open>\<open>to_string\<close> of the integer payloads, and nothing for the floats, which are not keys.\<close>

fun integer_payload_text :: "fixed_payload \<Rightarrow> string option" where
  "integer_payload_text (PayloadI8 w) = Some (int_to_string (sint w))"
| "integer_payload_text (PayloadI16 w) = Some (int_to_string (sint w))"
| "integer_payload_text (PayloadI32 w) = Some (int_to_string (sint w))"
| "integer_payload_text (PayloadI64 w) = Some (int_to_string (sint w))"
| "integer_payload_text (PayloadU8 w) = Some (nat_to_string (unat w))"
| "integer_payload_text (PayloadU16 w) = Some (nat_to_string (unat w))"
| "integer_payload_text (PayloadU32 w) = Some (nat_to_string (unat w))"
| "integer_payload_text (PayloadU64 w) = Some (nat_to_string (unat w))"
| "integer_payload_text (PayloadByte w) = Some (nat_to_string (unat w))"
| "integer_payload_text _ = None"

definition map_key_name :: "mon_value \<Rightarrow> utext" where
  "map_key_name v =
     (case v of
        StringValue s \<Rightarrow> s
      | FixedValue p \<Rightarrow> (case integer_payload_text p of Some s \<Rightarrow> ustr s | None \<Rightarrow> [])
      | BoolValue b \<Rightarrow> ustr (if b then ''true'' else ''false'')
      | CharValue c \<Rightarrow> [c]
      | _ \<Rightarrow> [])"

text \<open>The digit-counting loop.\<close>

fun count_digits :: "nat \<Rightarrow> nat \<Rightarrow> nat" where
  "count_digits magnitude digits =
     (if 10 \<le> magnitude then count_digits (magnitude div 10) (digits + 1) else digits)"

declare count_digits.simps [simp del]

definition unsigned_key_len :: "nat \<Rightarrow> nat" where
  "unsigned_key_len magnitude = count_digits magnitude 1"

definition signed_key_len :: "int \<Rightarrow> nat" where
  "signed_key_len number = unsigned_key_len (nat \<bar>number\<bar>) + (if number < 0 then 1 else 0)"

fun payload_key_len :: "fixed_payload \<Rightarrow> nat" where
  "payload_key_len (PayloadI8 w) = signed_key_len (sint w)"
| "payload_key_len (PayloadI16 w) = signed_key_len (sint w)"
| "payload_key_len (PayloadI32 w) = signed_key_len (sint w)"
| "payload_key_len (PayloadI64 w) = signed_key_len (sint w)"
| "payload_key_len (PayloadU8 w) = unsigned_key_len (unat w)"
| "payload_key_len (PayloadU16 w) = unsigned_key_len (unat w)"
| "payload_key_len (PayloadU32 w) = unsigned_key_len (unat w)"
| "payload_key_len (PayloadU64 w) = unsigned_key_len (unat w)"
| "payload_key_len (PayloadByte w) = unsigned_key_len (unat w)"
| "payload_key_len _ = 0"

definition map_key_name_len :: "mon_value \<Rightarrow> nat" where
  "map_key_name_len v =
     (case v of
        StringValue s \<Rightarrow> text_len s
      | FixedValue p \<Rightarrow> payload_key_len p
      | BoolValue b \<Rightarrow> if b then 4 else 5
      | CharValue c \<Rightarrow> len_utf8 c
      | _ \<Rightarrow> 0)"

section \<open>Loops with early return\<close>

text \<open>A \<open>for\<close> loop whose body threads a state, may return early with an error, and pushes one
  result per element.\<close>

primrec collect_each ::
  "('a \<Rightarrow> 's \<Rightarrow> ('e, 'b \<times> 's) result) \<Rightarrow> 'a list \<Rightarrow> 's \<Rightarrow> ('e, 'b list \<times> 's) result" where
  "collect_each f [] s = Inr ([], s)"
| "collect_each f (x # xs) s =
     result_bind (f x s) (\<lambda>(y, s'). result_bind (collect_each f xs s') (\<lambda>(ys, t). Inr (y # ys, t)))"

lemma result_bind_cong [fundef_cong]:
  "r = r' \<Longrightarrow> (\<And>a. r' = Inr a \<Longrightarrow> f a = g a) \<Longrightarrow> result_bind r f = result_bind r' g"
  by (cases r') auto

lemma collect_each_cong [fundef_cong]:
  assumes "xs = ys" "s = t" "\<And>x u. x \<in> set ys \<Longrightarrow> f x u = g x u"
  shows "collect_each f xs s = collect_each g ys t"
  unfolding assms(1,2) using assms(3) by (induction ys arbitrary: t) (auto intro!: result_bind_cong)

text \<open>What a loop keeps: an invariant of the state, and a relation between elements and results.\<close>

lemma collect_each_induct:
  assumes "collect_each f xs s = Inr (ys, t)" "I s"
    and "\<And>x u y u'. x \<in> set xs \<Longrightarrow> I u \<Longrightarrow> f x u = Inr (y, u') \<Longrightarrow> I u' \<and> R x y"
  shows "I t \<and> list_all2 R xs ys"
  using assms
proof (induction xs arbitrary: s ys)
  case Nil
  then show ?case by simp
next
  case (Cons x xs)
  from Cons.prems(1) obtain y u zs where "f x s = Inr (y, u)" "collect_each f xs u = Inr (zs, t)" "ys = y # zs"
    by (auto simp: result_bind_eq_Inr_iff)
  then show ?case using Cons.IH [of u zs] Cons.prems(2,3) by auto
qed

lemma collect_each_length: "collect_each f xs s = Inr (ys, t) \<Longrightarrow> length ys = length xs"
  by (induction xs arbitrary: s ys) (auto simp: result_bind_eq_Inr_iff)

text \<open>A loop keeps an invariant of its state and relates every element to its result.\<close>

lemma outcome_collect:
  assumes "I s"
    and "\<And>x u. x \<in> set xs \<Longrightarrow> I u \<Longrightarrow> outcome E (\<lambda>(y, u'). I u' \<and> R x y) (f x u)"
  shows "outcome E (\<lambda>(ys, t). I t \<and> list_all2 R xs ys) (collect_each f xs s)"
  using assms
proof (induction xs arbitrary: s)
  case Nil
  then show ?case by simp
next
  case (Cons x xs)
  show ?case unfolding collect_each.simps
  proof (rule outcome_bindI [OF Cons.prems(2)])
    show "x \<in> set (x # xs)" "I s" using Cons.prems(1) by auto
  next
    fix a assume a: "case a of (y, u') \<Rightarrow> I u' \<and> R x y"
    obtain y u where yu: "a = (y, u)" by (cases a)
    have "outcome E (\<lambda>(ys, t). I t \<and> list_all2 R xs ys) (collect_each f xs u)"
      using Cons.IH [of u] Cons.prems(2) a yu by auto
    then show "outcome E (\<lambda>(ys, t). I t \<and> list_all2 R (x # xs) ys)
        (case a of (y, s') \<Rightarrow> result_bind (collect_each f xs s') (\<lambda>(ys, t). Inr (y # ys, t)))"
      using a yu by (auto elim!: outcome_bindI split: prod.splits)
  qed
qed

section \<open>The meter\<close>

text \<open>What every charge promises: it adds its count, keeps within the limit, and is refused only
  when the limit or the host counter would be passed.\<close>

locale meter =
  fixes used :: "'b \<Rightarrow> nat" and cap :: nat and charge :: "nat \<Rightarrow> 'b \<Rightarrow> ('e, 'b) result"
  assumes accepted: "charge n b = Inr b' \<Longrightarrow> used b' = used b + n \<and> used b' \<le> cap"
    and refused: "charge n b = Inl e \<Longrightarrow> min cap usize_max < used b + n"
begin

lemma charge_iff: "cap \<le> usize_max \<Longrightarrow> is_ok (charge n b) \<longleftrightarrow> used b + n \<le> cap"
  using accepted [of n b] refused [of n b]
  by (cases "charge n b") (force simp: is_ok_def)+

text \<open>Charging in two steps is charging the sum.\<close>

lemma charge_split:
  "charge m b = Inr b' \<Longrightarrow> charge n b' = Inr b'' \<Longrightarrow> used b'' = used b + (m + n)"
  using accepted by fastforce

end

lemma checked_usize_eq [simp]:
  "checked_usize n = Some k \<longleftrightarrow> n \<le> usize_max \<and> k = n"
  "checked_usize n = None \<longleftrightarrow> usize_max < n"
  by (auto simp: checked_usize_def)

interpretation node_meter: meter nodes "max_nodes lm" "\<lambda>n. charge_nodes lm n sp" for lm sp
  by unfold_locales
     (auto simp: charge_nodes_def result_bind_eq_Inr_iff result_bind_eq_Inl_iff split: if_splits)

interpretation decoded_meter: meter decoded_bytes "max_decoded_bytes lm" "\<lambda>n. charge_decoded_bytes lm n sp" for lm sp
  by unfold_locales
     (auto simp: charge_decoded_bytes_def result_bind_eq_Inr_iff result_bind_eq_Inl_iff split: if_splits)

lemma charge_default_accepted:
  "charge_default lm sp b = Inr b' \<Longrightarrow>
     b' = b\<lparr>default_expansions := default_expansions b + 1\<rparr> \<and>
     default_expansions b' \<le> max_default_expansions lm"
  by (auto simp: charge_default_def result_bind_eq_Inr_iff split: if_splits)

definition within_limits :: "limits \<Rightarrow> budget \<Rightarrow> bool" where
  "within_limits lm b \<longleftrightarrow>
     nodes b \<le> max_nodes lm \<and> decoded_bytes b \<le> max_decoded_bytes lm \<and>
     default_expansions b \<le> max_default_expansions lm"

section \<open>Properties\<close>

lemma count_digits_text: "count_digits m d + 1 = d + length (nat_to_string m)"
proof (induction m d rule: count_digits.induct)
  case (1 m d)
  show ?case
  proof (cases "10 \<le> m")
    case True
    then show ?thesis using 1 by (subst count_digits.simps) (simp add: nat_to_string_big)
  qed (subst count_digits.simps, simp)
qed

lemma unsigned_key_len_text: "unsigned_key_len n = length (nat_to_string n)"
  using count_digits_text [of n 1] by (simp add: unsigned_key_len_def)

lemma signed_key_len_text: "signed_key_len z = length (int_to_string z)"
  by (simp add: signed_key_len_def unsigned_key_len_text int_to_string_def)

lemma ascii_nat_to_string [simp]: "ascii (nat_to_string n)"
  using all_digits_nat_to_string [of n]
  by (auto simp: ascii_def all_digits_def list_all_iff is_ascii_digit_def byte_def)

lemma ascii_int_to_string [simp]: "ascii (int_to_string z)"
  by (simp add: int_to_string_def)

text \<open>The length charged for a map key before its diagnostic text is allocated is exactly the
  UTF-8 length of that text, for every key value.\<close>

theorem map_key_name_len_exact: "map_key_name_len v = text_len (map_key_name v)"
proof (cases v)
  case (FixedValue p)
  then show ?thesis
    by (cases p) (simp_all add: map_key_name_len_def map_key_name_def text_len_ustr
        unsigned_key_len_text signed_key_len_text)
qed (auto simp: map_key_name_len_def map_key_name_def text_len_ustr len_utf8_def)

end
