(* ===== verification/Mon_Parser.thy ===== *)
theory Mon_Parser
  imports Mon_Model Numeric_Grammar
begin

text \<open>
  The parser of MON documents (the first half of \<open>crates/moth-mon/src/reader.rs\<close>): a cursor over the
  caller's text, white space and comments, identifiers, literals with their escapes, containers,
  records and choices, up to the tree of raw literals with byte spans.

  \<^item> The cursor keeps the characters read (latest first) and those to read; \<open>pos\<close> is the UTF-8
    length of the former. Restoring the position is going back to the earlier cursor.
  \<^item> The parser's \<open>path\<close> is an argument: each push is closed by the matching truncation on success,
    and on failure \<open>decode_document\<close> gives the error the path at that point.
  \<^item> The recursive descent carries fuel for its nesting and each list loop fuel for its elements.
    Every nested value is one level deeper and the depth limit is checked first, and every element
    consumes at least one character, so neither fuel is used up; \<open>OutOfFuel\<close> is the value of a run
    that would not return, and it is proved not to occur.
\<close>

section \<open>Raw literals\<close>

record raw_identifier =
  id_name :: utext
  id_span :: mon_span

record numeric_raw =
  raw_text :: utext
  raw_normalized :: string
  raw_numeric_kind :: numeric_literal_kind

datatype raw_value = RawValue (raw_span: mon_span) (raw_kind: raw_kind)
and raw_kind =
    RawNone
  | RawBool bool
  | RawChar uchar
  | RawString utext
  | RawNumber numeric_raw
  | RawRecord "raw_identifier option" "raw_arg list"
  | RawCollection "raw_value list"
  | RawMap "(raw_value \<times> raw_value) list"
  | RawChoice "raw_identifier option" raw_identifier "raw_arg list option"
and raw_arg =
    PositionalArg raw_value mon_span
  | NamedArg utext mon_span raw_value mon_span

section \<open>The cursor\<close>

record parser =
  consumed :: utext
  rest :: utext
  parser_budget :: budget

type_synonym 'a parsing = "(mon_stop, 'a \<times> parser) result"
definition pos :: "parser \<Rightarrow> nat" where
  "pos p = text_len (consumed p)"

definition input_len :: "parser \<Rightarrow> nat" where
  "input_len p = text_len (consumed p) + text_len (rest p)"

definition span_end :: "nat \<Rightarrow> nat" where
  "span_end n = min n u32_max"

definition at_end :: "parser \<Rightarrow> bool" where
  "at_end p \<longleftrightarrow> rest p = []"

definition remaining_span :: "parser \<Rightarrow> mon_span" where
  "remaining_span p = span_new (pos p) (span_end (input_len p))"

definition peek :: "parser \<Rightarrow> uchar option" where
  "peek p = (case rest p of [] \<Rightarrow> None | c # _ \<Rightarrow> Some c)"

definition peek_next :: "parser \<Rightarrow> uchar option" where
  "peek_next p = (case rest p of _ # c # _ \<Rightarrow> Some c | _ \<Rightarrow> None)"

definition starts_with_text :: "string \<Rightarrow> parser \<Rightarrow> bool" where
  "starts_with_text s p \<longleftrightarrow> take (length s) (rest p) = ustr s"

definition advance :: "nat \<Rightarrow> parser \<Rightarrow> parser" where
  "advance n p = p\<lparr>consumed := rev (take n (rest p)) @ consumed p, rest := drop n (rest p)\<rparr>"

definition bump :: "parser \<Rightarrow> parser" where
  "bump p = advance 1 p"

definition skip_while :: "(uchar \<Rightarrow> bool) \<Rightarrow> parser \<Rightarrow> parser" where
  "skip_while P p = advance (length (takeWhile P (rest p))) p"

lemma advance_simps [simp]:
  "rest (advance n p) = drop n (rest p)" "consumed (advance n p) = rev (take n (rest p)) @ consumed p"
  "parser_budget (advance n p) = parser_budget p"
  by (simp_all add: advance_def)

lemma skip_while_rest [simp]: "rest (skip_while P p) = dropWhile P (rest p)"
  by (simp add: skip_while_def dropWhile_eq_drop)

lemma skip_while_budget [simp]: "parser_budget (skip_while P p) = parser_budget p"
  by (simp add: skip_while_def)

lemma skip_while_length: "length (rest (skip_while P p)) \<le> length (rest p)"
  using length_dropWhile_le [of P "rest p"] by simp

lemma starts_with_text_length: "starts_with_text s p \<Longrightarrow> length s \<le> length (rest p)"
  unfolding starts_with_text_def by (metis length_take min.cobounded1 length_map ustr_def)

function skip_space_and_comments :: "parser \<Rightarrow> parser" where
  "skip_space_and_comments p =
     (let p = skip_while is_whitespace p
      in if \<not> starts_with_text ''--'' p then p
         else skip_space_and_comments (skip_while (\<lambda>c. \<not> is_line_break c) (bump (bump p))))"
  by pat_completeness auto

termination
proof (relation "measure (\<lambda>p. length (rest p))", simp)
  fix p x
  assume x: "x = skip_while is_whitespace p" and s: "\<not> \<not> starts_with_text ''--'' x"
  have "2 \<le> length (rest x)" using starts_with_text_length [of "''--''" x] s by simp
  moreover have "length (rest x) \<le> length (rest p)" unfolding x by (rule skip_while_length)
  moreover have "length (rest (skip_while (\<lambda>c. \<not> is_line_break c) (bump (bump x)))) \<le> length (rest x) - 2"
    using skip_while_length [of "\<lambda>c. \<not> is_line_break c" "bump (bump x)"] by (simp add: bump_def)
  ultimately show "(skip_while (\<lambda>c. \<not> is_line_break c) (bump (bump x)), p) \<in> measure (\<lambda>p. length (rest p))"
    by simp
qed

declare skip_space_and_comments.simps [simp del]

definition is_horizontal_whitespace :: "uchar \<Rightarrow> bool" where
  "is_horizontal_whitespace c \<longleftrightarrow> is_whitespace c \<and> \<not> is_line_break c"

definition skip_horizontal_whitespace :: "parser \<Rightarrow> parser" where
  "skip_horizontal_whitespace p = skip_while is_horizontal_whitespace p"

text \<open>\<open>None\<close>: the expected character is not next.\<close>

definition consume :: "char \<Rightarrow> parser \<Rightarrow> parser option" where
  "consume expected p = (if peek p = Some (ch expected) then Some (bump p) else None)"

definition current_token_span :: "parser \<Rightarrow> mon_span" where
  "current_token_span p =
     span_new (pos p) (case peek p of Some c \<Rightarrow> pos p + len_utf8 c | None \<Rightarrow> pos p)"

definition point_span :: "parser \<Rightarrow> mon_span" where
  "point_span p = span_new (pos p) (pos p)"

section \<open>Failures and charges\<close>

definition stop :: "mon_error_code \<Rightarrow> mon_span \<Rightarrow> mon_path \<Rightarrow> (mon_stop, 'a) result" where
  "stop c sp path = Inl (MonFailure (mon_error_new c (Some sp) path))"

definition parser_charge ::
  "(mon_span option \<Rightarrow> budget \<Rightarrow> (mon_error, budget) result) \<Rightarrow> mon_span \<Rightarrow> mon_path \<Rightarrow> parser
   \<Rightarrow> (mon_stop, parser) result" where
  "parser_charge charge sp path p =
     map_sum MonFailure (\<lambda>b. p\<lparr>parser_budget := b\<rparr>) (with_path path (charge (Some sp) (parser_budget p)))"

definition parser_charge_nodes ::
  "limits \<Rightarrow> nat \<Rightarrow> mon_span \<Rightarrow> mon_path \<Rightarrow> parser \<Rightarrow> (mon_stop, parser) result" where
  "parser_charge_nodes lm n = parser_charge (charge_nodes lm n)"

definition parser_charge_decoded ::
  "limits \<Rightarrow> nat \<Rightarrow> mon_span \<Rightarrow> mon_path \<Rightarrow> parser \<Rightarrow> (mon_stop, parser) result" where
  "parser_charge_decoded lm n = parser_charge (charge_decoded_bytes lm n)"

section \<open>Identifiers and labels\<close>

definition parse_identifier :: "unicode \<Rightarrow> mon_path \<Rightarrow> parser \<Rightarrow> (utext \<times> mon_span) parsing" where
  "parse_identifier u path p =
     (case peek p of
        None \<Rightarrow> stop UnexpectedEnd (point_span p) path
      | Some first \<Rightarrow>
          if \<not> is_identifier_start u first then stop InvalidIdentifier (current_token_span p) path
          else
            (let q = skip_while (is_identifier_continue u) (bump p)
             in Inr ((first # takeWhile (is_identifier_continue u) (rest (bump p)),
                      span_new (pos p) (pos q)), q)))"

text \<open>The cursor \<open>p\<close> stands on the entry's \<open>=\<close>.\<close>

definition require_equals_spacing :: "mon_path \<Rightarrow> parser \<Rightarrow> (mon_stop, unit) result" where
  "require_equals_spacing path p =
     (let missing_before = (case consumed p of [] \<Rightarrow> True | c # _ \<Rightarrow> \<not> is_whitespace c);
          missing_after =
            (case peek_next p of
               None \<Rightarrow> False
             | Some c \<Rightarrow> \<not> is_whitespace c \<and> c \<notin> {ch CHR '','', ch CHR '')'', ch CHR '']'', ch CHR ''}''})
      in if missing_before \<or> missing_after
         then stop UnexpectedToken (span_new (pos p) (pos p + 1)) path
         else Inr ())"

definition reserved_name_error ::
  "limits \<Rightarrow> utext \<Rightarrow> mon_span \<Rightarrow> (utext \<Rightarrow> path_segment) option \<Rightarrow> mon_path \<Rightarrow> parser
   \<Rightarrow> (mon_stop, 'a) result" where
  "reserved_name_error lm name sp segment path p =
     result_bind (parser_charge_decoded lm (text_len name) sp path p) (\<lambda>_.
       stop InvalidIdentifier sp
         (case segment of Some mk \<Rightarrow> path @ [mk name] | None \<Rightarrow> path))"

definition try_named_label ::
  "unicode \<Rightarrow> limits \<Rightarrow> mon_path \<Rightarrow> parser \<Rightarrow> ((utext \<times> mon_span) option) parsing" where
  "try_named_label u lm path p =
     (if \<not> (case peek p of Some c \<Rightarrow> is_identifier_start u c | None \<Rightarrow> False) then Inr (None, p)
      else result_bind (parse_identifier u path p) (\<lambda>((name, sp), q).
        let q = skip_horizontal_whitespace q
        in if peek q \<noteq> Some (ch CHR ''='') then Inr (None, p)
           else if is_reserved_user_name name
           then reserved_name_error lm name sp (Some FieldSegment) path q
           else Inr (Some (name, sp), q)))"

section \<open>Scalar literals\<close>

definition hex_digit :: "uchar \<Rightarrow> nat option" where
  "hex_digit c =
     (if is_digit c then Some (c - 48)
      else if 97 \<le> c \<and> c \<le> 102 then Some (c - 87)
      else if 65 \<le> c \<and> c \<le> 70 then Some (c - 55)
      else None)"

text \<open>The digit loop of a Unicode escape, up to and including its closing brace. The spans of its
  errors start at the escape or at the first digit.\<close>

function parse_unicode_digits ::
  "mon_path \<Rightarrow> nat \<Rightarrow> nat \<Rightarrow> nat \<Rightarrow> nat \<Rightarrow> parser \<Rightarrow> nat parsing" where
  "parse_unicode_digits path start digits_start acc count p =
     (case peek p of
        None \<Rightarrow> stop InvalidEscape (span_new start (pos p)) path
      | Some c \<Rightarrow>
          if c = ch CHR ''}'' then
            (if count = 0 then stop InvalidEscape (span_new start (pos p + 1)) path
             else Inr (acc, bump p))
          else
            (case hex_digit c of
               None \<Rightarrow> stop InvalidEscape (span_new start (pos p + len_utf8 c)) path
             | Some digit \<Rightarrow>
                 if count = 6
                 then stop InvalidEscape (span_new digits_start (pos p + len_utf8 c)) path
                 else parse_unicode_digits path start digits_start (acc * 16 + digit) (count + 1) (bump p)))"
  by pat_completeness auto

termination
  by (relation "measure (\<lambda>(_, _, _, _, _, p). length (rest p))")
     (auto simp: peek_def bump_def split: list.splits)

declare parse_unicode_digits.simps [simp del]

definition parse_escape :: "mon_path \<Rightarrow> char \<Rightarrow> nat \<Rightarrow> parser \<Rightarrow> uchar parsing" where
  "parse_escape path quote start p =
     (case peek p of
        None \<Rightarrow> stop InvalidEscape (span_new start (pos p)) path
      | Some c \<Rightarrow>
          (let p = bump p in
           if c = ch CHR 0x5C then Inr (ch CHR 0x5C, p)
           else if c = ch CHR ''n'' then Inr (10, p)
           else if c = ch CHR ''r'' then Inr (13, p)
           else if c = ch CHR ''t'' then Inr (9, p)
           else if c = ch quote then Inr (ch quote, p)
           else if c \<noteq> ch CHR ''u'' then stop InvalidEscape (span_new start (pos p)) path
           else
             (case consume (CHR ''{'') p of
                None \<Rightarrow> stop InvalidEscape (span_new start (pos p)) path
              | Some p \<Rightarrow>
                  result_bind (parse_unicode_digits path start (pos p) 0 0 p) (\<lambda>(value, p).
                    case from_u32 value of
                      Some c \<Rightarrow> Inr (c, p)
                    | None \<Rightarrow> stop InvalidCharacter (span_new start (pos p)) path))))"

lemma parse_unicode_digits_consumes:
  "parse_unicode_digits path start ds acc count p = Inr (n, q) \<Longrightarrow> length (rest q) < length (rest p)"
proof (induction path start ds acc count p rule: parse_unicode_digits.induct)
  case (1 path start ds acc count p)
  show ?case
  proof (cases "rest p")
    case Nil
    then show ?thesis using 1(2) by (subst (asm) parse_unicode_digits.simps) (simp add: peek_def stop_def)
  next
    case (Cons c cs)
    then have p: "peek p = Some c" and b: "rest (bump p) = cs" by (simp_all add: peek_def bump_def)
    show ?thesis
    proof (cases "c = ch CHR ''}''")
      case True
      then show ?thesis using 1(2) p b Cons
        by (subst (asm) parse_unicode_digits.simps) (auto simp: stop_def split: if_splits)
    next
      case False
      from 1(2) p False obtain d where d: "hex_digit c = Some d" "count \<noteq> 6"
        and r: "parse_unicode_digits path start ds (acc * 16 + d) (count + 1) (bump p) = Inr (n, q)"
        by (subst (asm) parse_unicode_digits.simps) (auto simp: stop_def split: if_splits option.splits)
      from 1(1) [OF p False d r] show ?thesis using b Cons by simp
    qed
  qed
qed

lemma parse_escape_consumes:
  assumes "parse_escape path quote start p = Inr (c, q)"
  shows "length (rest q) < length (rest p)"
proof (cases "rest p")
  case Nil
  then show ?thesis using assms by (simp add: parse_escape_def peek_def stop_def)
next
  case (Cons d ds)
  have "length (rest q) \<le> length ds"
    using assms Cons parse_unicode_digits_consumes
    by (fastforce simp: parse_escape_def peek_def bump_def Let_def stop_def consume_def
        result_bind_eq_Inr_iff split: if_splits option.splits list.splits)
  then show ?thesis using Cons by simp
qed


lemma parser_charge_rest:
  "parser_charge_decoded lm n sp path p = Inr q \<Longrightarrow> rest q = rest p \<and> consumed q = consumed p"
  by (auto simp: parser_charge_decoded_def parser_charge_def map_sum_def split: sum.splits)

text \<open>The loop of \<open>parse_string_value\<close> after the opening quote.\<close>

function parse_string_rest ::
  "limits \<Rightarrow> mon_path \<Rightarrow> nat \<Rightarrow> utext \<Rightarrow> parser \<Rightarrow> raw_value parsing" where
  "parse_string_rest lm path start output p =
     (case peek p of
        None \<Rightarrow> stop UnexpectedEnd (point_span p) path
      | Some character \<Rightarrow>
          let character_start = pos p; q = bump p in
          if character = ch CHR 0x22
          then Inr (RawValue (span_new start (pos q)) (RawString output), q)
          else if character = ch CHR 0x5C then
            (case parse_escape path (CHR 0x22) character_start q of
               Inl e \<Rightarrow> Inl e
             | Inr (decoded, r) \<Rightarrow>
                 (case parser_charge_decoded lm (len_utf8 decoded) (span_new character_start (pos r)) path r of
                    Inl e \<Rightarrow> Inl e
                  | Inr r \<Rightarrow> parse_string_rest lm path start (output @ [decoded]) r))
          else
            (case parser_charge_decoded lm (len_utf8 character) (span_new character_start (pos q)) path q of
               Inl e \<Rightarrow> Inl e
             | Inr q \<Rightarrow> parse_string_rest lm path start (output @ [character]) q))"
  by pat_completeness auto

termination
proof (relation "measure (\<lambda>(_, _, _, _, p). length (rest p))", simp)
qed (auto simp: peek_def bump_def dest!: parser_charge_rest [THEN conjunct1] parse_escape_consumes split: list.splits)

declare parse_string_rest.simps [simp del]

definition parse_string_value :: "limits \<Rightarrow> mon_path \<Rightarrow> parser \<Rightarrow> raw_value parsing" where
  "parse_string_value lm path p = parse_string_rest lm path (pos p) [] (bump p)"

text \<open>The loop of \<open>parse_char_value\<close> after the opening quote.\<close>

function parse_char_rest ::
  "limits \<Rightarrow> mon_path \<Rightarrow> nat \<Rightarrow> uchar option \<Rightarrow> parser \<Rightarrow> raw_value parsing" where
  "parse_char_rest lm path start decoded_value p =
     (case peek p of
        None \<Rightarrow> stop UnexpectedEnd (point_span p) path
      | Some character \<Rightarrow>
          let character_start = pos p; q = bump p in
          if character = ch CHR 0x27 then
            (case decoded_value of
               None \<Rightarrow> stop InvalidCharacter (span_new start (pos q)) path
             | Some c \<Rightarrow> Inr (RawValue (span_new start (pos q)) (RawChar c), q))
          else
            (case (if character = ch CHR 0x5C then parse_escape path (CHR 0x27) character_start q
                   else Inr (character, q)) of
               Inl e \<Rightarrow> Inl e
             | Inr (decoded, r) \<Rightarrow>
                 (case parser_charge_decoded lm (len_utf8 decoded) (span_new character_start (pos r)) path r of
                    Inl e \<Rightarrow> Inl e
                  | Inr r \<Rightarrow>
                      if decoded_value \<noteq> None
                      then stop InvalidCharacter (span_new character_start (pos r)) path
                      else parse_char_rest lm path start (Some decoded) r)))"
  by pat_completeness auto

termination
proof (relation "measure (\<lambda>(_, _, _, _, p). length (rest p))", simp)
qed (auto simp: peek_def bump_def dest!: parser_charge_rest [THEN conjunct1] parse_escape_consumes split: list.splits if_splits)

declare parse_char_rest.simps [simp del]

definition parse_char_value :: "limits \<Rightarrow> mon_path \<Rightarrow> parser \<Rightarrow> raw_value parsing" where
  "parse_char_value lm path p = parse_char_rest lm path (pos p) None (bump p)"

definition is_number_delimiter :: "uchar \<Rightarrow> bool" where
  "is_number_delimiter c \<longleftrightarrow> is_whitespace c \<or> c \<in> set (ustr '',)}{=('')"

text \<open>How many characters the scanning loop of a number takes.\<close>

fun number_extent :: "utext \<Rightarrow> nat" where
  "number_extent [] = 0"
| "number_extent (c # cs) =
     (if c = ch CHR ''-'' \<and> (case cs of d # _ \<Rightarrow> d = ch CHR ''-'' | [] \<Rightarrow> False) then 0
      else if is_number_delimiter c then 0
      else Suc (number_extent cs))"

definition parse_number_value :: "limits \<Rightarrow> mon_path \<Rightarrow> parser \<Rightarrow> raw_value parsing" where
  "parse_number_value lm path p =
     (let sign = (if peek p = Some (ch CHR ''-'') then 1 else 0);
          extent = sign + number_extent (drop sign (rest p));
          q = advance extent p;
          sp = span_new (pos p) (pos q);
          txt = take extent (rest p);
          unsigned_txt = (case txt of [] \<Rightarrow> [] | c # cs \<Rightarrow> if c = ch CHR ''-'' then cs else txt)
      in if max_numeric_digits lm < length (filter is_digit txt) then stop NumericBudget sp path
         else result_bind (parser_charge_decoded lm (text_len unsigned_txt) sp path q) (\<lambda>q.
           case parse_numeric_literal (utf8 unsigned_txt) of
             Inl _ \<Rightarrow> stop NumericSyntax sp path
           | Inr parsed \<Rightarrow>
               if max_numeric_digits lm < digit_count parsed then stop NumericBudget sp path
               else Inr (RawValue sp
                      (RawNumber \<lparr>raw_text = txt, raw_normalized = normalized_text parsed,
                                  raw_numeric_kind = literal_kind parsed\<rparr>), q)))"

section \<open>Entries\<close>

text \<open>The operations below take the parser of nested values \<open>pv\<close>, of a depth, a path and a cursor.\<close>

type_synonym value_parser = "nat \<Rightarrow> mon_path \<Rightarrow> parser \<Rightarrow> raw_value parsing"

definition parse_argument ::
  "unicode \<Rightarrow> limits \<Rightarrow> value_parser \<Rightarrow> nat \<Rightarrow> mon_path \<Rightarrow> parser \<Rightarrow> raw_arg parsing" where
  "parse_argument u lm pv depth path p =
     (let p = skip_space_and_comments p; start = pos p in
      result_bind (try_named_label u lm path p) (\<lambda>(label, equals).
        case label of
          Some (name, name_span) \<Rightarrow>
            result_bind (parser_charge_decoded lm (text_len name) name_span path (bump equals)) (\<lambda>q.
            let field_path = path @ [FieldSegment name] in
            result_bind (require_equals_spacing field_path equals) (\<lambda>_.
            let q = skip_space_and_comments q in
            if at_end q then stop UnexpectedEnd (point_span q) field_path
            else result_bind (pv depth field_path q) (\<lambda>(v, q).
              Inr (NamedArg name name_span v (span_new start (mon_end (raw_span v))), q))))
        | None \<Rightarrow>
            result_bind (pv depth path p) (\<lambda>(v, q). Inr (PositionalArg v (raw_span v), q))))"

fun arg_span :: "raw_arg \<Rightarrow> mon_span" where
  "arg_span (PositionalArg _ sp) = sp"
| "arg_span (NamedArg _ _ _ sp) = sp"

fun is_named :: "raw_arg \<Rightarrow> bool" where
  "is_named (NamedArg _ _ _ _) = True"
| "is_named (PositionalArg _ _) = False"

primrec argument_list_loop ::
  "nat \<Rightarrow> unicode \<Rightarrow> limits \<Rightarrow> value_parser \<Rightarrow> char \<Rightarrow> nat \<Rightarrow> mon_path \<Rightarrow> raw_arg list \<Rightarrow> parser
   \<Rightarrow> raw_arg list parsing" where
  "argument_list_loop 0 u lm pv closing depth path args p = Inl OutOfFuel"
| "argument_list_loop (Suc n) u lm pv closing depth path args p =
     result_bind (parse_argument u lm pv depth path p) (\<lambda>(argument, p).
       let args = args @ [argument]; p = skip_space_and_comments p in
       case consume closing p of
         Some p \<Rightarrow> Inr (args, p)
       | None \<Rightarrow>
           (case consume (CHR '','') p of
              Some p \<Rightarrow>
                let p = skip_space_and_comments p in
                (case consume closing p of
                   Some p \<Rightarrow> Inr (args, p)
                 | None \<Rightarrow>
                     if at_end p then stop UnexpectedEnd (point_span p) path
                     else argument_list_loop n u lm pv closing depth path args p)
            | None \<Rightarrow>
                if at_end p then stop UnexpectedEnd (point_span p) path
                else stop MissingComma (current_token_span p) path))"

text \<open>Every round consumes a character: one more round than there are characters.\<close>

definition round_fuel :: "parser \<Rightarrow> nat" where
  "round_fuel p = Suc (length (rest p))"

definition parse_argument_list_after_open ::
  "unicode \<Rightarrow> limits \<Rightarrow> value_parser \<Rightarrow> char \<Rightarrow> nat \<Rightarrow> mon_path \<Rightarrow> parser \<Rightarrow> raw_arg list parsing" where
  "parse_argument_list_after_open u lm pv closing depth path p =
     (let p = skip_space_and_comments p in
      case consume closing p of
        Some p \<Rightarrow> Inr ([], p)
      | None \<Rightarrow> argument_list_loop (round_fuel p) u lm pv closing depth path [] p)"

primrec root_arguments_loop ::
  "nat \<Rightarrow> unicode \<Rightarrow> limits \<Rightarrow> value_parser \<Rightarrow> raw_arg list \<Rightarrow> parser \<Rightarrow> raw_arg list parsing" where
  "root_arguments_loop 0 u lm pv args p = Inl OutOfFuel"
| "root_arguments_loop (Suc n) u lm pv args p =
     result_bind (parse_argument u lm pv 1 [] p) (\<lambda>(argument, p).
       if \<not> is_named argument then stop RootNotRecord (arg_span argument) []
       else
         (let args = args @ [argument]; p = skip_space_and_comments p in
          if at_end p then Inr (args, p)
          else
            (case consume (CHR '','') p of
               Some p \<Rightarrow>
                 let p = skip_space_and_comments p in
                 if at_end p then Inr (args, p) else root_arguments_loop n u lm pv args p
             | None \<Rightarrow> stop MissingComma (current_token_span p) [])))"

definition parse_root_arguments ::
  "unicode \<Rightarrow> limits \<Rightarrow> value_parser \<Rightarrow> parser \<Rightarrow> raw_arg list parsing" where
  "parse_root_arguments u lm pv p =
     (let p = skip_space_and_comments p in
      if at_end p then Inr ([], p) else root_arguments_loop (round_fuel p) u lm pv [] p)"

section \<open>Records, choices and bare names\<close>

definition parse_record_value ::
  "unicode \<Rightarrow> limits \<Rightarrow> value_parser \<Rightarrow> nat \<Rightarrow> mon_path \<Rightarrow> parser \<Rightarrow> raw_value parsing" where
  "parse_record_value u lm pv depth path p =
     result_bind (parse_argument_list_after_open u lm pv (CHR '')'') (depth + 1) path (bump p))
       (\<lambda>(args, q). Inr (RawValue (span_new (pos p) (pos q)) (RawRecord None args), q))"

definition payload_opens_after_horizontal_whitespace :: "parser \<Rightarrow> bool" where
  "payload_opens_after_horizontal_whitespace p \<longleftrightarrow>
     peek (skip_horizontal_whitespace p) = Some (ch CHR ''('')"

definition parse_optional_payload ::
  "unicode \<Rightarrow> limits \<Rightarrow> value_parser \<Rightarrow> raw_identifier \<Rightarrow> nat \<Rightarrow> mon_path \<Rightarrow> parser
   \<Rightarrow> raw_arg list option parsing" where
  "parse_optional_payload u lm pv variant depth path p =
     (if \<not> payload_opens_after_horizontal_whitespace p then Inr (None, p)
      else
        result_bind (parser_charge_decoded lm (text_len (id_name variant)) (id_span variant) path
                       (bump (skip_horizontal_whitespace p))) (\<lambda>p.
        result_bind (parse_argument_list_after_open u lm pv (CHR '')'') (depth + 1)
                       (path @ [VariantSegment (id_name variant)]) p)
          (\<lambda>(args, p). Inr (Some args, p))))"

text \<open>The variant and its payload after \<open>::\<close>, which the cursor \<open>p\<close> has passed.\<close>

definition parse_variant ::
  "unicode \<Rightarrow> limits \<Rightarrow> value_parser \<Rightarrow> nat \<Rightarrow> raw_identifier option \<Rightarrow> nat \<Rightarrow> mon_path \<Rightarrow> parser
   \<Rightarrow> raw_value parsing" where
  "parse_variant u lm pv start qualifier depth path p =
     result_bind (parse_identifier u path p) (\<lambda>((variant, variant_span), p).
       if is_reserved_user_name variant
       then reserved_name_error lm variant variant_span (Some VariantSegment) path p
       else
         (let header = \<lparr>id_name = variant, id_span = variant_span\<rparr> in
          result_bind (parse_optional_payload u lm pv header depth path p) (\<lambda>(args, p).
            let end' = (if args \<noteq> None then pos p else mon_end variant_span) in
            Inr (RawValue (span_new start end') (RawChoice qualifier header args), p))))"

definition parse_choice_value ::
  "unicode \<Rightarrow> limits \<Rightarrow> value_parser \<Rightarrow> nat \<Rightarrow> mon_path \<Rightarrow> parser \<Rightarrow> raw_value parsing" where
  "parse_choice_value u lm pv depth path p =
     parse_variant u lm pv (pos p) None depth path (bump (bump p))"

definition parse_identifier_value ::
  "unicode \<Rightarrow> limits \<Rightarrow> value_parser \<Rightarrow> nat \<Rightarrow> mon_path \<Rightarrow> parser \<Rightarrow> raw_value parsing" where
  "parse_identifier_value u lm pv depth path p =
     result_bind (parse_identifier u path p) (\<lambda>((name, name_span), q).
       let qualifier = \<lparr>id_name = name, id_span = name_span\<rparr> in
       if starts_with_text ''::'' q then
         (if is_reserved_user_name name then reserved_name_error lm name name_span None path q
          else parse_variant u lm pv (pos p) (Some qualifier) depth path (bump (bump q)))
       else if payload_opens_after_horizontal_whitespace q then
         (if is_reserved_user_name name then reserved_name_error lm name name_span None path q
          else
            result_bind (parse_argument_list_after_open u lm pv (CHR '')'') (depth + 1) path
                           (bump (skip_horizontal_whitespace q)))
              (\<lambda>(args, r). Inr (RawValue (span_new (pos p) (pos r)) (RawRecord (Some qualifier) args), r)))
       else if name = ustr ''none'' then Inr (RawValue name_span RawNone, q)
       else if name = ustr ''true'' then Inr (RawValue name_span (RawBool True), q)
       else if name = ustr ''false'' then Inr (RawValue name_span (RawBool False), q)
       else stop UnexpectedToken name_span path)"


section \<open>Collections and maps\<close>

text \<open>A leading identifier that is neither a literal word nor a constructor is refused; otherwise
  the value is parsed from the first cursor again.\<close>

definition parse_map_key ::
  "unicode \<Rightarrow> limits \<Rightarrow> value_parser \<Rightarrow> nat \<Rightarrow> mon_path \<Rightarrow> parser \<Rightarrow> raw_value parsing" where
  "parse_map_key u lm pv depth path p =
     (case parse_identifier u path p of
        Inr ((name, sp), q) \<Rightarrow>
          (let q = skip_space_and_comments q;
               keyword = (name \<in> {ustr ''true'', ustr ''false'', ustr ''none''});
               constructor = (peek q \<in> {Some (ch CHR ''(''), Some (ch CHR '':'')})
           in if \<not> keyword \<and> \<not> constructor then stop InvalidMapKey sp path
              else pv depth path p)
      | Inl _ \<Rightarrow> pv depth path p)"

primrec collection_tail_loop ::
  "nat \<Rightarrow> value_parser \<Rightarrow> nat \<Rightarrow> mon_path \<Rightarrow> raw_value list \<Rightarrow> parser \<Rightarrow> raw_value list parsing" where
  "collection_tail_loop 0 pv depth path items p = Inl OutOfFuel"
| "collection_tail_loop (Suc n) pv depth path items p =
     (let p = skip_space_and_comments p in
      case consume (CHR ''}'') p of
        Some p \<Rightarrow> Inr (items, p)
      | None \<Rightarrow>
          (case consume (CHR '','') p of
             None \<Rightarrow>
               if at_end p then stop UnexpectedEnd (point_span p) path
               else stop MissingComma (current_token_span p) path
           | Some p \<Rightarrow>
               let p = skip_space_and_comments p in
               (case consume (CHR ''}'') p of
                  Some p \<Rightarrow> Inr (items, p)
                | None \<Rightarrow>
                    result_bind (pv (depth + 1) (path @ [IndexSegment (length items)]) p) (\<lambda>(v, p).
                      collection_tail_loop n pv depth path (items @ [v]) p))))"

definition parse_collection_tail ::
  "value_parser \<Rightarrow> nat \<Rightarrow> mon_path \<Rightarrow> raw_value list \<Rightarrow> parser \<Rightarrow> raw_value list parsing" where
  "parse_collection_tail pv depth path items p =
     collection_tail_loop (round_fuel p) pv depth path items p"

primrec map_tail_loop ::
  "nat \<Rightarrow> unicode \<Rightarrow> limits \<Rightarrow> value_parser \<Rightarrow> nat \<Rightarrow> mon_path \<Rightarrow> (raw_value \<times> raw_value) list \<Rightarrow> parser
   \<Rightarrow> (raw_value \<times> raw_value) list parsing" where
  "map_tail_loop 0 u lm pv depth path entries p = Inl OutOfFuel"
| "map_tail_loop (Suc n) u lm pv depth path entries p =
     (let p = skip_space_and_comments p in
      case consume (CHR ''}'') p of
        Some p \<Rightarrow> Inr (entries, p)
      | None \<Rightarrow>
          (case consume (CHR '','') p of
             None \<Rightarrow>
               if at_end p then stop UnexpectedEnd (point_span p) path
               else stop MissingComma (current_token_span p) path
           | Some p \<Rightarrow>
               let p = skip_space_and_comments p in
               (case consume (CHR ''}'') p of
                  Some p \<Rightarrow> Inr (entries, p)
                | None \<Rightarrow>
                    let entry_path = path @ [IndexSegment (length entries)] in
                    result_bind (parse_map_key u lm pv (depth + 1) entry_path p) (\<lambda>(key, p).
                    let equals = skip_space_and_comments p in
                    case consume (CHR ''='') equals of
                      None \<Rightarrow>
                        if at_end equals then stop UnexpectedEnd (point_span equals) entry_path
                        else stop MapKind (current_token_span equals) entry_path
                    | Some p \<Rightarrow>
                        result_bind (require_equals_spacing entry_path equals) (\<lambda>_.
                        result_bind (pv (depth + 1) entry_path (skip_space_and_comments p)) (\<lambda>(v, p).
                          map_tail_loop n u lm pv depth path (entries @ [(key, v)]) p))))))"

definition parse_map_tail ::
  "unicode \<Rightarrow> limits \<Rightarrow> value_parser \<Rightarrow> nat \<Rightarrow> mon_path \<Rightarrow> (raw_value \<times> raw_value) list \<Rightarrow> parser
   \<Rightarrow> (raw_value \<times> raw_value) list parsing" where
  "parse_map_tail u lm pv depth path entries p =
     map_tail_loop (round_fuel p) u lm pv depth path entries p"

definition parse_container_value ::
  "unicode \<Rightarrow> limits \<Rightarrow> value_parser \<Rightarrow> nat \<Rightarrow> mon_path \<Rightarrow> parser \<Rightarrow> raw_value parsing" where
  "parse_container_value u lm pv depth path p =
     (let start = pos p; p = skip_space_and_comments (bump p) in
      case consume (CHR ''}'') p of
        Some p \<Rightarrow> Inr (RawValue (span_new start (pos p)) (RawCollection []), p)
      | None \<Rightarrow>
          (case consume (CHR ''='') p of
             Some p \<Rightarrow>
               let p = skip_space_and_comments p in
               (case consume (CHR ''}'') p of
                  None \<Rightarrow>
                    if at_end p then stop UnexpectedEnd (point_span p) path
                    else stop UnexpectedToken (current_token_span p) path
                | Some p \<Rightarrow> Inr (RawValue (span_new start (pos p)) (RawMap []), p))
           | None \<Rightarrow>
               let entry_path = path @ [IndexSegment 0] in
               result_bind (parse_map_key u lm pv (depth + 1) entry_path p) (\<lambda>(first, p).
               let equals = skip_space_and_comments p in
               case consume (CHR ''='') equals of
                 Some p \<Rightarrow>
                   result_bind (require_equals_spacing path equals) (\<lambda>_.
                   let p = skip_space_and_comments p in
                   if at_end p then stop UnexpectedEnd (point_span p) entry_path
                   else
                     result_bind (pv (depth + 1) entry_path p) (\<lambda>(v, p).
                     result_bind (parse_map_tail u lm pv depth path [(first, v)] p) (\<lambda>(entries, p).
                       Inr (RawValue (span_new start (pos p)) (RawMap entries), p))))
               | None \<Rightarrow>
                   result_bind (parse_collection_tail pv depth path [first] equals) (\<lambda>(items, p).
                     Inr (RawValue (span_new start (pos p)) (RawCollection items), p)))))"

section \<open>Values and documents\<close>

text \<open>The literal a value's first character announces.\<close>

definition parse_literal ::
  "unicode \<Rightarrow> limits \<Rightarrow> value_parser \<Rightarrow> nat \<Rightarrow> mon_path \<Rightarrow> parser \<Rightarrow> raw_value parsing" where
  "parse_literal u lm pv depth path p =
     (case peek p of
        None \<Rightarrow> stop UnexpectedToken (current_token_span p) path
      | Some c \<Rightarrow>
          if c = ch CHR ''('' then parse_record_value u lm pv depth path p
          else if c = ch CHR ''{'' then parse_container_value u lm pv depth path p
          else if c = ch CHR 0x22 then parse_string_value lm path p
          else if c = ch CHR 0x27 then parse_char_value lm path p
          else if c = ch CHR ''-'' \<and> (case peek_next p of Some d \<Rightarrow> is_digit d | None \<Rightarrow> False)
          then parse_number_value lm path p
          else if is_digit c then parse_number_value lm path p
          else if c = ch CHR '':'' \<and> starts_with_text ''::'' p then parse_choice_value u lm pv depth path p
          else if is_identifier_start u c then parse_identifier_value u lm pv depth path p
          else stop UnexpectedToken (current_token_span p) path)"

primrec parse_value :: "unicode \<Rightarrow> limits \<Rightarrow> nat \<Rightarrow> value_parser" where
  "parse_value u lm 0 depth path p = Inl OutOfFuel"
| "parse_value u lm (Suc n) depth path p =
     (let p = skip_space_and_comments p; start = span_new (pos p) (pos p) in
      if at_end p then stop UnexpectedEnd start path
      else
        result_bind (lift_failure (with_path path (check_depth lm depth (Some start)))) (\<lambda>_.
        result_bind (parser_charge_nodes lm 1 start path p) (\<lambda>p.
          parse_literal u lm (parse_value u lm n) depth path p)))"

text \<open>Values of a document are at depth one; a value below the depth limit is refused.\<close>

definition depth_fuel :: "limits \<Rightarrow> nat" where
  "depth_fuel lm = max_depth lm + 1"

definition parser_new :: "utext \<Rightarrow> parser" where
  "parser_new input = \<lparr>consumed = [], rest = input, parser_budget = budget_new\<rparr>"

definition parse_document :: "unicode \<Rightarrow> limits \<Rightarrow> parser \<Rightarrow> raw_value parsing" where
  "parse_document u lm p =
     (let p = skip_space_and_comments p; start = pos p; pv = parse_value u lm (depth_fuel lm) in
      case consume (CHR ''('') p of
        Some q \<Rightarrow>
          result_bind (parser_charge_nodes lm 1 (span_new start (start + 1)) [] q) (\<lambda>q.
          result_bind (parse_argument_list_after_open u lm pv (CHR '')'') 1 [] q) (\<lambda>(args, q).
            Inr (RawValue (span_new start (pos q)) (RawRecord None args), q)))
      | None \<Rightarrow>
          result_bind (lift_failure (with_path [] (check_depth lm 0 (Some (span_new start start))))) (\<lambda>_.
          result_bind (parser_charge_nodes lm 1 (span_new start (span_end (input_len p))) [] p) (\<lambda>q.
          result_bind (parse_root_arguments u lm pv q) (\<lambda>(args, q).
            Inr (RawValue (span_new 0 (span_end (input_len p))) (RawRecord None args), q)))))"

end
