(* ===== verification/Mon_Parser_Safety.thy ===== *)
theory Mon_Parser_Safety
  imports Mon_Parser
begin

text \<open>
  What every run of the MON parser keeps: the cursor stays within the text, the budget within its
  limits, every span it reports within the document, and neither fuel is used up. The operations on
  entries rely on the parser of nested values only through the laws of the locale \<open>value_parsing\<close>,
  which the parser of values itself satisfies.
\<close>

section \<open>Cursors and spans\<close>

definition cursor_ok :: "limits \<Rightarrow> utext \<Rightarrow> parser \<Rightarrow> bool" where
  "cursor_ok lm src p \<longleftrightarrow>
     text_len src \<le> u32_max \<and> rev (consumed p) @ rest p = src \<and> within_limits lm (parser_budget p)"

definition covered :: "nat \<Rightarrow> mon_span \<Rightarrow> bool" where
  "covered n sp \<longleftrightarrow> mon_start sp \<le> mon_end sp \<and> mon_end sp \<le> n"

definition located :: "nat \<Rightarrow> mon_stop \<Rightarrow> bool" where
  "located n s = (case s of
     MonFailure e \<Rightarrow> (case error_span e of Some sp \<Rightarrow> covered n sp | None \<Rightarrow> False) | _ \<Rightarrow> False)"

text \<open>The cursor and result of a parse that leaves fewer than \<open>n\<close> characters.\<close>

definition leaves :: "limits \<Rightarrow> utext \<Rightarrow> nat \<Rightarrow> ('a \<Rightarrow> bool) \<Rightarrow> 'a \<times> parser \<Rightarrow> bool" where
  "leaves lm src n Q r \<longleftrightarrow> cursor_ok lm src (snd r) \<and> length (rest (snd r)) < n \<and> Q (fst r)"

lemma leaves_pair [simp]: "leaves lm src n Q (a, q) \<longleftrightarrow> cursor_ok lm src q \<and> length (rest q) < n \<and> Q a"
  by (simp add: leaves_def)

lemma leaves_mono:
  "outcome E (leaves lm src n Q) r \<Longrightarrow> n \<le> m \<Longrightarrow> (\<And>a. Q a \<Longrightarrow> P a) \<Longrightarrow> outcome E (leaves lm src m P) r"
  by (auto simp: leaves_def elim!: outcome_mono)

lemma cursor_okD:
  assumes "cursor_ok lm src p"
  shows "pos p + text_len (rest p) = text_len src" "pos p \<le> text_len src" "text_len src \<le> u32_max"
    "input_len p = text_len src" "within_limits lm (parser_budget p)"
proof -
  show *: "pos p + text_len (rest p) = text_len src"
    using assms by (auto simp: cursor_ok_def pos_def)
  then show "pos p \<le> text_len src" by simp
  show "input_len p = text_len src" using * by (simp add: input_len_def pos_def)
qed (use assms in \<open>simp_all add: cursor_ok_def\<close>)

lemma cursor_ok_advance [intro]: "cursor_ok lm src p \<Longrightarrow> cursor_ok lm src (advance n p)"
  by (auto simp: cursor_ok_def)

lemma cursor_ok_steps [intro]:
  assumes "cursor_ok lm src p"
  shows "cursor_ok lm src (bump p)" "cursor_ok lm src (skip_while P p)" "cursor_ok lm src (skip_horizontal_whitespace p)"
  using assms by (auto simp: bump_def skip_while_def skip_horizontal_whitespace_def)

lemma cursor_ok_skip [intro]: "cursor_ok lm src p \<Longrightarrow> cursor_ok lm src (skip_space_and_comments p)"
proof (induction p rule: skip_space_and_comments.induct)
  case (1 p)
  show ?case
    by (subst skip_space_and_comments.simps) (auto simp: Let_def intro!: 1 cursor_ok_steps)
qed

lemma skip_length: "length (rest (skip_space_and_comments p)) \<le> length (rest p)"
proof (induction p rule: skip_space_and_comments.induct)
  case (1 p)
  let ?x = "skip_while is_whitespace p"
  let ?y = "skip_while (\<lambda>c. \<not> is_line_break c) (bump (bump ?x))"
  have x: "length (rest ?x) \<le> length (rest p)" by (rule skip_while_length)
  have y: "length (rest ?y) \<le> length (rest ?x)"
    using skip_while_length [of "\<lambda>c. \<not> is_line_break c" "bump (bump ?x)"] by (simp add: bump_def)
  show ?case
  proof (cases "starts_with_text ''--'' ?x")
    case True
    have "length (rest (skip_space_and_comments ?y)) \<le> length (rest ?y)" by (rule 1 [OF refl]) (simp add: True)
    then show ?thesis using x y True by (subst skip_space_and_comments.simps) (simp add: Let_def)
  next
    case False
    then show ?thesis using x by (subst skip_space_and_comments.simps) (simp add: Let_def)
  qed
qed

lemma length_steps [simp]:
  "length (rest (bump p)) = length (rest p) - 1"
  "length (rest (skip_horizontal_whitespace p)) \<le> length (rest p)"
  using skip_while_length [of is_horizontal_whitespace p]
  by (simp_all add: bump_def skip_horizontal_whitespace_def)

lemma pos_mono:
  assumes "cursor_ok lm src p" "cursor_ok lm src q" "length (rest q) \<le> length (rest p)"
  shows "pos p \<le> pos q"
proof -
  have src: "rev (consumed p) @ rest p = src" "rev (consumed q) @ rest q = src"
    using assms(1,2) by (simp_all add: cursor_ok_def)
  then have "rest p = drop (length (consumed p)) src" "rest q = drop (length (consumed q)) src"
    by (metis append_eq_conv_conj length_rev)+
  moreover have "length (consumed p) \<le> length (consumed q)"
    using src assms(3) by (metis add_le_cancel_right add_le_mono1 le_add2 length_append length_rev nat_add_left_cancel_le)
  ultimately have "rest q = drop (length (consumed q) - length (consumed p)) (rest p)" by simp
  then have "text_len (rest q) \<le> text_len (rest p)"
    by (metis append_take_drop_id le_add2 text_len_simps(3))
  then show ?thesis using cursor_okD(1) [OF assms(1)] cursor_okD(1) [OF assms(2)] by linarith
qed

lemma peek_SomeD: "peek p = Some c \<Longrightarrow> \<exists>cs. rest p = c # cs"
  by (auto simp: peek_def split: list.splits)

lemma consume_SomeD:
  "consume c p = Some q \<Longrightarrow> q = bump p \<and> length (rest q) < length (rest p) \<and> (cursor_ok lm src p \<longrightarrow> cursor_ok lm src q)"
  by (auto simp: consume_def split: if_splits dest!: peek_SomeD)

lemma covered_span_new:
  "a \<le> b \<Longrightarrow> b \<le> n \<Longrightarrow> n \<le> u32_max \<Longrightarrow> covered n (span_new a b)"
  "b \<le> u32_max \<Longrightarrow> mon_end (span_new a b) = b" "a \<le> u32_max \<Longrightarrow> mon_start (span_new a b) = a"
  by (simp_all add: covered_def span_new_def)

lemma covered_spans:
  assumes "cursor_ok lm src p"
  shows "covered (text_len src) (point_span p)" "covered (text_len src) (current_token_span p)"
    "covered (text_len src) (remaining_span p)" "covered (text_len src) (span_new (pos p) (pos p))"
proof -
  note p = cursor_okD [OF assms]
  show "covered (text_len src) (point_span p)" "covered (text_len src) (span_new (pos p) (pos p))"
    using p by (auto simp: point_span_def intro!: covered_span_new(1))
  have "pos p + len_utf8 c \<le> text_len src" if "peek p = Some c" for c
    using peek_SomeD [OF that] p(1) by auto
  then show "covered (text_len src) (current_token_span p)"
    using p by (auto simp: current_token_span_def intro!: covered_span_new(1) split: option.split)
  show "covered (text_len src) (remaining_span p)"
    using p by (auto simp: remaining_span_def span_end_def intro!: covered_span_new(1))
qed

text \<open>A span from one cursor to a later one.\<close>

lemma covered_between:
  assumes "cursor_ok lm src p" "cursor_ok lm src q" "length (rest q) \<le> length (rest p)"
  shows "covered (text_len src) (span_new (pos p) (pos q))"
  using assms pos_mono [OF assms] cursor_okD(2,3) by (auto intro!: covered_span_new(1))

lemma outcome_stop [intro]:
  "covered n sp \<Longrightarrow> outcome (located n) Q (stop c sp path)"
  by (simp add: stop_def located_def mon_error_new_def)

lemma charge_outcome:
  assumes "cursor_ok lm src p" "covered (text_len src) sp"
  shows "outcome (located (text_len src))
      (\<lambda>q. cursor_ok lm src q \<and> rest q = rest p \<and> consumed q = consumed p) (parser_charge_decoded lm n sp path p)"
    "outcome (located (text_len src))
      (\<lambda>q. cursor_ok lm src q \<and> rest q = rest p \<and> consumed q = consumed p) (parser_charge_nodes lm n sp path p)"
  using assms
  by (auto simp: parser_charge_decoded_def parser_charge_nodes_def parser_charge_def outcome_map_sum with_path_def
      charge_decoded_bytes_def charge_nodes_def mon_error_new_def located_def cursor_ok_def within_limits_def
      ok_or_def outcome_def split: sum.splits option.splits if_splits)

section \<open>Raw values within the document\<close>

text \<open>The parts of a raw number are those of a literal of the numeric grammar.\<close>

definition number_ok :: "numeric_raw \<Rightarrow> bool" where
  "number_ok number \<longleftrightarrow>
     (case parse_numeric_literal (raw_normalized number) of
        Inr parsed \<Rightarrow> normalized_text parsed = raw_normalized number \<and> literal_kind parsed = raw_numeric_kind number
      | Inl _ \<Rightarrow> False)"

lemma number_ok_parsed:
  assumes "parse_numeric_literal s = Inr parsed"
  shows "number_ok \<lparr>raw_text = t, raw_normalized = normalized_text parsed, raw_numeric_kind = literal_kind parsed\<rparr>"
  by (simp add: number_ok_def conjunct2 [OF parse_numeric_literal_normalizes [OF assms]])

fun value_in :: "nat \<Rightarrow> raw_value \<Rightarrow> bool"
  and kind_in :: "nat \<Rightarrow> raw_kind \<Rightarrow> bool"
  and arg_in :: "nat \<Rightarrow> raw_arg \<Rightarrow> bool" where
  "value_in n (RawValue sp k) \<longleftrightarrow> covered n sp \<and> kind_in n k"
| "kind_in n (RawRecord q args) \<longleftrightarrow>
     (\<forall>i \<in> set_option q. covered n (id_span i)) \<and> list_all (arg_in n) args"
| "kind_in n (RawCollection items) \<longleftrightarrow> list_all (value_in n) items"
| "kind_in n (RawMap entries) \<longleftrightarrow> list_all (\<lambda>(k, v). value_in n k \<and> value_in n v) entries"
| "kind_in n (RawChoice q variant args) \<longleftrightarrow>
     (\<forall>i \<in> set_option q. covered n (id_span i)) \<and> covered n (id_span variant) \<and>
     (case args of Some as \<Rightarrow> list_all (arg_in n) as | None \<Rightarrow> True)"
| "kind_in n (RawNumber number) \<longleftrightarrow> number_ok number"
| "kind_in n k \<longleftrightarrow> True"
| "arg_in n (PositionalArg v sp) \<longleftrightarrow> value_in n v \<and> covered n sp"
| "arg_in n (NamedArg name name_span v sp) \<longleftrightarrow> covered n name_span \<and> value_in n v \<and> covered n sp"

lemma value_in_span: "value_in n v \<Longrightarrow> covered n (raw_span v)"
  by (cases v) simp

section \<open>Identifiers and labels\<close>

lemma parse_identifier_leaves:
  assumes "cursor_ok lm src p"
  shows "outcome (located (text_len src))
    (leaves lm src (length (rest p)) (\<lambda>(name, sp). covered (text_len src) sp \<and> pos p \<le> mon_end sp)) (parse_identifier u path p)"
proof (cases "peek p")
  case None
  then show ?thesis using covered_spans [OF assms] by (auto simp: parse_identifier_def)
next
  case (Some c)
  define q where "q = skip_while (is_identifier_continue u) (bump p)"
  obtain cs where cs: "rest p = c # cs" using peek_SomeD [OF Some] by blast
  have q: "cursor_ok lm src q" "length (rest q) < length (rest p)"
    using assms skip_while_length [of "is_identifier_continue u" "bump p"] cs by (auto simp: q_def)
  have sp: "covered (text_len src) (span_new (pos p) (pos q))"
    using covered_between [OF assms q(1)] q(2) by simp
  have e: "pos p \<le> mon_end (span_new (pos p) (pos q))"
    using pos_mono [OF assms q(1)] q(2) cursor_okD(2,3) [OF q(1)] covered_span_new(2) [of "pos q" "pos p"] by simp
  show ?thesis
    using q sp e covered_spans(2) [OF assms]
    by (auto simp: parse_identifier_def Some Let_def q_def [symmetric])
qed

lemma reserved_name_located:
  assumes "cursor_ok lm src p" "covered (text_len src) sp"
  shows "outcome (located (text_len src)) Q (reserved_name_error lm name sp segment path p)"
  unfolding reserved_name_error_def
  by (rule outcome_bindI [OF charge_outcome(1) [OF assms]]) (auto intro: assms(2))

definition label_post :: "utext \<Rightarrow> parser \<Rightarrow> (utext \<times> mon_span) option \<times> parser \<Rightarrow> bool" where
  "label_post src p r \<longleftrightarrow>
     (case fst r of
        None \<Rightarrow> snd r = p
      | Some (name, sp) \<Rightarrow>
          covered (text_len src) sp \<and> length (rest (snd r)) < length (rest p) \<and> peek (snd r) = Some (ch CHR ''=''))"

lemma try_named_label_leaves:
  assumes "cursor_ok lm src p"
  shows "outcome (located (text_len src)) (\<lambda>r. cursor_ok lm src (snd r) \<and> label_post src p r)
    (try_named_label u lm path p)"
  unfolding try_named_label_def
proof (split if_split, intro conjI impI)
  show "outcome (located (text_len src)) (\<lambda>r. cursor_ok lm src (snd r) \<and> label_post src p r) (Inr (None, p))"
    using assms by (simp add: label_post_def)
  show "outcome (located (text_len src)) (\<lambda>r. cursor_ok lm src (snd r) \<and> label_post src p r)
      (result_bind (parse_identifier u path p) (\<lambda>((name, sp), q).
        let q = skip_horizontal_whitespace q
        in if peek q \<noteq> Some (ch CHR ''='') then Inr (None, p)
           else if is_reserved_user_name name
           then reserved_name_error lm name sp (Some FieldSegment) path q
           else Inr (Some (name, sp), q)))" (is "outcome _ ?Q _")
  proof (rule outcome_bindI [OF parse_identifier_leaves [OF assms]], goal_cases)
    case (1 a)
    obtain name sp q where a: "a = ((name, sp), q)" by (metis surj_pair)
    define r where "r = skip_horizontal_whitespace q"
    have r: "cursor_ok lm src r" "length (rest r) < length (rest p)" "covered (text_len src) sp"
      using 1 by (auto simp: a r_def leaves_def intro: le_less_trans [OF length_steps(2)])
    then show ?case
      using assms
      by (simp add: a r_def [symmetric] Let_def label_post_def reserved_name_located [OF r(1,3)])
  qed
qed

section \<open>Literals\<close>

lemma parse_unicode_digits_leaves:
  assumes "cursor_ok lm src p" "start \<le> pos p" "ds \<le> pos p"
  shows "outcome (located (text_len src)) (leaves lm src (length (rest p)) (\<lambda>_. True))
    (parse_unicode_digits path start ds acc count p)"
  using assms
proof (induction path start ds acc count p rule: parse_unicode_digits.induct)
  case (1 path start ds acc count p)
  note p = cursor_okD [OF 1(2)]
  show ?case
  proof (cases "peek p")
    case None
    then show ?thesis using 1(2,3) p
      by (subst parse_unicode_digits.simps) (auto intro!: outcome_stop covered_span_new(1))
  next
    case (Some c)
    then obtain cs where cs: "rest p = c # cs" using peek_SomeD by blast
    then have l: "pos p + len_utf8 c \<le> text_len src" using p(1) by simp
    then have l1: "pos p + 1 \<le> text_len src" using len_utf8_pos [of c] by linarith
    have b: "cursor_ok lm src (bump p)" "pos (bump p) = pos p + len_utf8 c" "length (rest (bump p)) < length (rest p)"
      using 1(2) cs by (auto simp: bump_def pos_def)
    have stops: "covered (text_len src) (span_new start (pos p + 1))"
      "covered (text_len src) (span_new start (pos p + len_utf8 c))"
      "covered (text_len src) (span_new ds (pos p + len_utf8 c))"
      using 1(3,4) p l l1 by (auto intro!: covered_span_new(1))
    have "outcome (located (text_len src)) (leaves lm src (length (rest p)) (\<lambda>_. True))
        (parse_unicode_digits path start ds (acc * 16 + d) (count + 1) (bump p))"
      if "c \<noteq> ch CHR ''}''" "hex_digit c = Some d" "count \<noteq> 6" for d
      using 1(1) [OF Some that b(1)] 1(3,4) b(2,3)
      by (auto elim!: outcome_mono simp: leaves_def)
    then show ?thesis
      using stops b Some
      by (subst parse_unicode_digits.simps) (auto split: option.split)
  qed
qed

lemma parse_escape_leaves:
  assumes "cursor_ok lm src p" "start \<le> pos p"
  shows "outcome (located (text_len src)) (leaves lm src (length (rest p)) (\<lambda>_. True))
    (parse_escape path quote start p)"
proof (cases "peek p")
  case None
  then show ?thesis using assms cursor_okD [OF assms(1)]
    by (auto simp: parse_escape_def intro!: outcome_stop covered_span_new(1))
next
  case (Some c)
  then obtain cs where cs: "rest p = c # cs" using peek_SomeD by blast
  define q where "q = bump p"
  have q: "cursor_ok lm src q" "length (rest q) < length (rest p)" using assms(1) cs by (auto simp: q_def)
  have s: "start \<le> pos q" using pos_mono [OF assms(1) q(1)] q(2) assms(2) by linarith
  have st: "covered (text_len src) (span_new start (pos r))" if "cursor_ok lm src r" "start \<le> pos r" for r
    using that cursor_okD by (auto intro!: covered_span_new(1))
  have digits: "outcome (located (text_len src)) (leaves lm src (length (rest p)) (\<lambda>_. True))
      (result_bind (parse_unicode_digits path start (pos r) 0 0 r) (\<lambda>(acc, r).
         case from_u32 acc of Some c \<Rightarrow> Inr (c, r) | None \<Rightarrow> stop InvalidCharacter (span_new start (pos r)) path))"
    if r: "r = bump q" "length (rest r) < length (rest q)" "cursor_ok lm src r" for r
  proof (rule outcome_bindI [OF parse_unicode_digits_leaves [OF r(3)]])
    show sr: "start \<le> pos r" using pos_mono [OF q(1) r(3)] r(2) s by linarith
    show "pos r \<le> pos r" ..
    fix a :: "nat \<times> parser"
    assume a: "leaves lm src (length (rest r)) (\<lambda>_. True) a"
    obtain z t where zt: "a = (z, t)" by (cases a)
    have t: "cursor_ok lm src t" "length (rest t) < length (rest r)" using a by (simp_all add: zt)
    have "start \<le> pos t" using pos_mono [OF r(3) t(1)] t(2) sr by linarith
    then show "outcome (located (text_len src)) (leaves lm src (length (rest p)) (\<lambda>_. True))
        (case a of (acc, r) \<Rightarrow>
           case from_u32 acc of Some c \<Rightarrow> Inr (c, r) | None \<Rightarrow> stop InvalidCharacter (span_new start (pos r)) path)"
      using t r q(2) st [OF t(1)] by (auto simp: zt split: option.split)
  qed
  show ?thesis
    using q s st [OF q(1) s] digits
    by (auto simp: parse_escape_def Some q_def [symmetric] Let_def split: option.split dest!: consume_SomeD)
qed

text \<open>What the parser of a value promises of the value parsed from a cursor.\<close>

definition value_post :: "utext \<Rightarrow> nat \<Rightarrow> raw_value \<Rightarrow> bool" where
  "value_post src start v \<longleftrightarrow> value_in (text_len src) v \<and> start \<le> mon_end (raw_span v)"

lemma value_post_new:
  assumes "cursor_ok lm src q" "start \<le> pos q" "kind_in (text_len src) k"
  shows "value_post src start (RawValue (span_new start (pos q)) k)"
  using assms cursor_okD(2,3) [OF assms(1)] covered_span_new [of "pos q" start]
  by (auto simp: value_post_def intro!: covered_span_new(1))

lemma parse_string_rest_leaves:
  assumes "cursor_ok lm src p" "start \<le> pos p"
  shows "outcome (located (text_len src)) (leaves lm src (length (rest p)) (value_post src start))
    (parse_string_rest lm path start acc p)"
  using assms
proof (induction lm path start acc p rule: parse_string_rest.induct)
  case (1 lm path start acc p)
  show ?case
  proof (cases "peek p")
    case None
    then show ?thesis using covered_spans [OF 1(3)] by (subst parse_string_rest.simps) auto
  next
    case (Some c)
    then obtain cs where cs: "rest p = c # cs" using peek_SomeD by blast
    define q where "q = bump p"
    have q: "cursor_ok lm src q" "length (rest q) < length (rest p)" using 1(3) cs by (auto simp: q_def)
    have sq: "start \<le> pos q" "pos p \<le> pos q" using pos_mono [OF 1(3) q(1)] q(2) 1(4) by linarith+
    have esc: "outcome (located (text_len src)) (leaves lm src (length (rest q)) (\<lambda>_. True)) (parse_escape path CHR 0x22 (pos p) q)"
      by (rule parse_escape_leaves [OF q(1) sq(2)])
    have step: "outcome (located (text_len src)) (leaves lm src (length (rest p)) (value_post src start))
        (case parser_charge_decoded lm n (span_new (pos p) (pos r)) path r of Inl e \<Rightarrow> Inl e
         | Inr r \<Rightarrow> parse_string_rest lm path start (acc @ [d]) r)"
      if r: "cursor_ok lm src r" "length (rest r) \<le> length (rest q)"
        and IH: "\<And>t. parser_charge_decoded lm n (span_new (pos p) (pos r)) path r = Inr t \<Longrightarrow> cursor_ok lm src t \<Longrightarrow> start \<le> pos t \<Longrightarrow>
          outcome (located (text_len src)) (leaves lm src (length (rest t)) (value_post src start))
            (parse_string_rest lm path start (acc @ [d]) t)" for r d n
    proof (cases "parser_charge_decoded lm n (span_new (pos p) (pos r)) path r")
      case (Inl e)
      then show ?thesis
        using charge_outcome(1) [OF r(1) covered_between [OF 1(3) r(1)], of n path] r(2) q(2) by simp
    next
      case (Inr t)
      then have t: "cursor_ok lm src t" "rest t = rest r"
        using charge_outcome(1) [OF r(1) covered_between [OF 1(3) r(1)], of n path] r(2) q(2) by simp_all
      then have "start \<le> pos t" using pos_mono [OF 1(3) t(1)] r(2) q(2) 1(4) by simp
      from IH [OF Inr t(1) this] show ?thesis
        using r(2) q(2) t(2) Inr by (auto elim!: outcome_mono simp: leaves_def)
    qed
    consider "c = ch CHR 0x22" | "c = ch CHR 0x5C" | "c \<noteq> ch CHR 0x22" "c \<noteq> ch CHR 0x5C" by blast
    then show ?thesis
    proof cases
      case 1
      then show ?thesis using q sq value_post_new [OF q(1) sq(1), of "RawString acc"] Some
        by (subst parse_string_rest.simps) (simp add: q_def [symmetric] Let_def)
    next
      case 2
      show ?thesis
      proof (cases "parse_escape path CHR 0x22 (pos p) q")
        case (Inl e)
        then show ?thesis using esc 2 Some by (subst parse_string_rest.simps) (simp add: q_def [symmetric] Let_def)
      next
        case (Inr dr)
        obtain d r where dr: "dr = (d, r)" by (cases dr)
        have r: "cursor_ok lm src r" "length (rest r) \<le> length (rest q)" using esc Inr by (simp_all add: dr)
        have "outcome (located (text_len src)) (leaves lm src (length (rest p)) (value_post src start))
            (case parser_charge_decoded lm (len_utf8 d) (span_new (pos p) (pos r)) path r of Inl e \<Rightarrow> Inl e
             | Inr r \<Rightarrow> parse_string_rest lm path start (acc @ [d]) r)"
          by (rule step [OF r]) (rule 1(1) [OF Some refl refl]; simp add: 2 Inr dr q_def [symmetric])
        then show ?thesis using 2 Some Inr dr by (subst parse_string_rest.simps) (simp add: q_def [symmetric] Let_def)
      qed
    next
      case 3
      have "outcome (located (text_len src)) (leaves lm src (length (rest p)) (value_post src start))
          (case parser_charge_decoded lm (len_utf8 c) (span_new (pos p) (pos q)) path q of Inl e \<Rightarrow> Inl e
           | Inr r \<Rightarrow> parse_string_rest lm path start (acc @ [c]) r)"
        by (rule step [OF q(1) order_refl]) (rule 1(2) [OF Some refl refl]; use 3 in \<open>simp add: q_def [symmetric]\<close>)
      then show ?thesis using 3 Some by (subst parse_string_rest.simps) (simp add: q_def [symmetric] Let_def)
    qed
  qed
qed

lemma parse_string_value_leaves:
  assumes "cursor_ok lm src p" "rest p \<noteq> []"
  shows "outcome (located (text_len src)) (leaves lm src (length (rest p)) (value_post src (pos p)))
    (parse_string_value lm path p)"
proof -
  have b: "cursor_ok lm src (bump p)" "length (rest (bump p)) < length (rest p)" using assms by auto
  then have "pos p \<le> pos (bump p)" using pos_mono [OF assms(1) b(1)] by linarith
  from parse_string_rest_leaves [OF b(1) this] show ?thesis
    unfolding parse_string_value_def by (rule leaves_mono) (use b(2) in simp_all)
qed

lemma parse_char_rest_leaves:
  assumes "cursor_ok lm src p" "start \<le> pos p"
  shows "outcome (located (text_len src)) (leaves lm src (length (rest p)) (value_post src start))
    (parse_char_rest lm path start dv p)"
  using assms
proof (induction lm path start dv p rule: parse_char_rest.induct)
  case (1 lm path start dv p)
  show ?case
  proof (cases "peek p")
    case None
    then show ?thesis using covered_spans [OF 1(2)] by (subst parse_char_rest.simps) auto
  next
    case (Some c)
    then obtain cs where cs: "rest p = c # cs" using peek_SomeD by blast
    define q where "q = bump p"
    have q: "cursor_ok lm src q" "length (rest q) < length (rest p)" using 1(2) cs by (auto simp: q_def)
    have sq: "start \<le> pos q" "pos p \<le> pos q" using pos_mono [OF 1(2) q(1)] q(2) 1(3) by linarith+
    define dr where "dr = (if c = ch CHR 0x5C then parse_escape path CHR 0x27 (pos p) q else Inr (c, q))"
    have esc: "outcome (located (text_len src)) (leaves lm src (Suc (length (rest q))) (\<lambda>_. True)) dr"
    proof (cases "c = ch CHR 0x5C")
      case True
      then show ?thesis
        unfolding dr_def if_P [OF True] by (intro leaves_mono [OF parse_escape_leaves [OF q(1) sq(2)]]) simp_all
    qed (use q(1) in \<open>simp add: dr_def\<close>)
    have eq: "parse_char_rest lm path start dv p =
        (case dr of Inl e \<Rightarrow> Inl e
         | Inr (decoded, r) \<Rightarrow>
             (case parser_charge_decoded lm (len_utf8 decoded) (span_new (pos p) (pos r)) path r of
                Inl e \<Rightarrow> Inl e
              | Inr r \<Rightarrow>
                  if dv \<noteq> None then stop InvalidCharacter (span_new (pos p) (pos r)) path
                  else parse_char_rest lm path start (Some decoded) r))" if "c \<noteq> ch CHR 0x27"
      by (subst parse_char_rest.simps)
         (simp only: Some option.case Let_def q_def [symmetric] dr_def [symmetric] that if_False)
    have stops: "covered (text_len src) (span_new start (pos q))"
      using sq(1) cursor_okD(2,3) [OF q(1)] by (auto intro!: covered_span_new(1))
    show ?thesis
    proof (cases "c = ch CHR 0x27")
      case True
      then show ?thesis using Some q sq stops value_post_new [OF q(1) sq(1)]
        by (subst parse_char_rest.simps) (auto simp: q_def [symmetric] Let_def split: option.split)
    next
      case False
      show ?thesis
      proof (cases dr)
        case (Inl e)
        then show ?thesis using esc by (simp add: eq [OF False])
      next
        case (Inr a)
        obtain d r where a: "a = (d, r)" by (cases a)
        have r: "cursor_ok lm src r" "length (rest r) \<le> length (rest q)" using esc Inr by (simp_all add: a)
        have sp: "covered (text_len src) (span_new (pos p) (pos r))"
          using covered_between [OF 1(2) r(1)] r(2) q(2) by simp
        have "outcome (located (text_len src)) (leaves lm src (length (rest p)) (value_post src start))
            (case parser_charge_decoded lm (len_utf8 d) (span_new (pos p) (pos r)) path r of Inl e \<Rightarrow> Inl e
             | Inr r \<Rightarrow> if dv \<noteq> None then stop InvalidCharacter (span_new (pos p) (pos r)) path
                        else parse_char_rest lm path start (Some d) r)"
        proof (cases "parser_charge_decoded lm (len_utf8 d) (span_new (pos p) (pos r)) path r")
          case (Inl e)
          then show ?thesis using charge_outcome(1) [OF r(1) sp, of "len_utf8 d" path] by simp
        next
          case charged: (Inr t)
          then have t: "cursor_ok lm src t" "rest t = rest r" "consumed t = consumed r"
            using charge_outcome(1) [OF r(1) sp, of "len_utf8 d" path] by simp_all
          have st: "start \<le> pos t" using pos_mono [OF 1(2) t(1)] r(2) q(2) t(2) 1(3) by simp
          have "outcome (located (text_len src)) (leaves lm src (length (rest t)) (value_post src start))
              (parse_char_rest lm path start (Some d) t)" if "dv = None"
            by (rule 1(1) [OF Some refl refl, of a d r t])
               (use False Inr a that charged t(1) st in \<open>simp_all only: q_def [symmetric] dr_def [symmetric] simp_thms\<close>)
          moreover have "pos t = pos r" using t(3) by (simp add: pos_def)
          ultimately show ?thesis
            using charged sp t(2) r(2) q(2) by (auto elim!: outcome_mono simp: leaves_def)
        qed
        then show ?thesis by (simp add: eq [OF False] Inr a)
      qed
    qed
  qed
qed

lemma parse_char_value_leaves:
  assumes "cursor_ok lm src p" "rest p \<noteq> []"
  shows "outcome (located (text_len src)) (leaves lm src (length (rest p)) (value_post src (pos p)))
    (parse_char_value lm path p)"
proof -
  have b: "cursor_ok lm src (bump p)" "length (rest (bump p)) < length (rest p)" using assms by auto
  then have "pos p \<le> pos (bump p)" using pos_mono [OF assms(1) b(1)] by linarith
  from parse_char_rest_leaves [OF b(1) this] show ?thesis
    unfolding parse_char_value_def by (rule leaves_mono) (use b(2) in simp_all)
qed

lemma parse_number_value_leaves:
  assumes "cursor_ok lm src p" "peek p = Some c" "c = ch CHR ''-'' \<or> is_digit c"
  shows "outcome (located (text_len src)) (leaves lm src (length (rest p)) (value_post src (pos p)))
    (parse_number_value lm path p)"
proof -
  obtain cs where cs: "rest p = c # cs" using peek_SomeD [OF assms(2)] by blast
  define sign where "sign = (if peek p = Some (ch CHR ''-'') then 1 else 0 :: nat)"
  define extent where "extent = sign + number_extent (drop sign (rest p))"
  define q where "q = advance extent p"
  have "\<not> is_number_delimiter c" if "is_digit c"
    using that by (auto simp: is_digit_def is_number_delimiter_def is_whitespace_def)
  then have "0 < extent" using assms(2,3) cs by (auto simp: extent_def sign_def is_digit_def)
  then have q: "cursor_ok lm src q" "length (rest q) < length (rest p)" using assms(1) cs by (auto simp: q_def)
  have sp: "covered (text_len src) (span_new (pos p) (pos q))" using covered_between [OF assms(1) q(1)] q(2) by simp
  have pq: "pos p \<le> pos q" using pos_mono [OF assms(1) q(1)] q(2) by simp
  have post: "value_post src (pos p) (RawValue (span_new (pos p) (pos q)) (RawNumber n))" if "number_ok n" for n
    by (rule value_post_new [OF q(1) pq]) (simp add: that)
  show ?thesis
    unfolding parse_number_value_def Let_def sign_def [symmetric] extent_def [symmetric] q_def [symmetric]
    using sp
  proof (split if_split, intro conjI impI, blast, goal_cases)
    case 1
    show ?case
      by (rule outcome_bindI [OF charge_outcome(1) [OF q(1) sp]]) (use q(2) sp in \<open>auto split: sum.split intro: post number_ok_parsed\<close>)
  qed
qed

section \<open>Entries over a parser of values\<close>

text \<open>The laws the operations on entries need of the parser of nested values: from a cursor of the
  document, at a depth its fuel covers, it fails within the document or reads at least one
  character.\<close>

locale value_parsing =
  fixes lm :: limits and src :: utext and pv :: value_parser and enough :: "nat \<Rightarrow> bool"
  assumes pv: "cursor_ok lm src p \<Longrightarrow> enough d \<Longrightarrow>
    outcome (located (text_len src)) (leaves lm src (length (rest p)) (value_post src (pos p))) (pv d path p)"
begin

lemma parse_argument_leaves:
  assumes "cursor_ok lm src p" "enough d"
  shows "outcome (located (text_len src)) (leaves lm src (length (rest p)) (arg_in (text_len src)))
    (parse_argument u lm pv d path p)"
proof -
  define q where "q = skip_space_and_comments p"
  have q: "cursor_ok lm src q" "length (rest q) \<le> length (rest p)"
    using assms(1) skip_length [of p] by (auto simp: q_def)
  show ?thesis
    unfolding parse_argument_def Let_def q_def [symmetric]
  proof (rule outcome_bindI [OF try_named_label_leaves [OF q(1)]], goal_cases)
    case (1 a)
    obtain label eq where a: "a = (label, eq)" by (cases a)
    have eq: "cursor_ok lm src eq" using 1 by (simp add: a)
    show ?case
    proof (cases label)
      case None
      then have e: "eq = q" using 1 by (simp add: a label_post_def)
      have "outcome (located (text_len src)) (leaves lm src (length (rest p)) (arg_in (text_len src)))
          (result_bind (pv d path q) (\<lambda>(v, q). Inr (PositionalArg v (raw_span v), q)))"
        by (rule outcome_bindI [OF pv [OF q(1) assms(2)]])
           (use q(2) in \<open>auto simp: value_post_def value_in_span leaves_def\<close>)
      then show ?thesis by (simp add: a None)
    next
      case (Some ns)
      obtain name sp where ns: "ns = (name, sp)" by (cases ns)
      have sp: "covered (text_len src) sp" "length (rest eq) < length (rest q)" "peek eq = Some (ch CHR ''='')"
        using 1 by (simp_all add: a Some ns label_post_def)
      obtain cs where cs: "rest eq = ch CHR ''='' # cs" using peek_SomeD [OF sp(3)] by blast
      have b: "cursor_ok lm src (bump eq)" "length (rest (bump eq)) < length (rest p)"
        using eq cs sp(2) q(2) by auto
      have l1: "pos eq + 1 \<le> text_len src" using cursor_okD(1) [OF eq] cs by (simp add: len_utf8_def)
      have req: "outcome (located (text_len src)) (\<lambda>_. True) (require_equals_spacing fp eq)" for fp
        using l1 cursor_okD(3) [OF eq]
        by (auto simp: require_equals_spacing_def Let_def intro!: outcome_stop covered_span_new(1))
      show ?thesis
        unfolding a Some ns prod.case option.case
      proof (rule outcome_bindI [OF charge_outcome(1) [OF b(1) sp(1)]], goal_cases)
        case (1 t)
        define r where "r = skip_space_and_comments t"
        have r: "cursor_ok lm src r" "length (rest r) < length (rest p)" "pos q \<le> pos r"
        proof -
          show r1: "cursor_ok lm src r" using 1 by (auto simp: r_def)
          show r2: "length (rest r) < length (rest p)" using 1 b(2) skip_length [of t] by (simp add: r_def)
          have "length (rest r) \<le> length (rest q)" using 1 b(2) skip_length [of t] sp(2) cs by (simp add: r_def)
          then show "pos q \<le> pos r" using pos_mono [OF q(1) r1] by simp
        qed
        show ?case
          unfolding r_def [symmetric]
        proof (rule outcome_bindI [OF req], split if_split, intro conjI impI, goal_cases)
          case 1
          then show ?case using covered_spans(1) [OF r(1)] by blast
        next
          case 2
          show ?case
          proof (rule outcome_bindI [OF pv [OF r(1) assms(2)]], goal_cases)
            case (1 w)
            obtain v s where w: "w = (v, s)" by (cases w)
            have v: "value_in (text_len src) v" "pos r \<le> mon_end (raw_span v)" "cursor_ok lm src s"
              "length (rest s) < length (rest r)" using 1 by (simp_all add: w value_post_def)
            have "mon_end (raw_span v) \<le> text_len src" using value_in_span [OF v(1)] by (simp add: covered_def)
            then have "covered (text_len src) (span_new (pos q) (mon_end (raw_span v)))"
              using v(2) r(3) cursor_okD(3) [OF r(1)] by (intro covered_span_new(1)) auto
            then show ?case using v r(2) sp(1) by (simp add: w)
          qed
        qed
      qed
    qed
  qed
qed

text \<open>The end of one round of a list of arguments.\<close>

lemma argument_list_loop_leaves:
  assumes "cursor_ok lm src p" "enough d" "length (rest p) < n" "list_all (arg_in (text_len src)) args"
  shows "outcome (located (text_len src)) (leaves lm src (length (rest p)) (list_all (arg_in (text_len src))))
    (argument_list_loop n u lm pv closing d path args p)"
  using assms
proof (induction n arbitrary: p args)
  case (Suc n)
  note stops = covered_spans
  show ?case
    unfolding argument_list_loop.simps
  proof (rule outcome_bindI [OF parse_argument_leaves [OF Suc.prems(1,2)]], goal_cases)
    case (1 a)
    obtain argument t where a: "a = (argument, t)" by (cases a)
    define q where "q = skip_space_and_comments t"
    have args: "list_all (arg_in (text_len src)) (args @ [argument])" using 1 Suc.prems(4) by (simp add: a)
    have q: "cursor_ok lm src q" "length (rest q) < length (rest p)"
      using 1 skip_length [of t] by (auto simp: q_def a)
    show ?case
    proof (cases "consume closing q")
      case (Some r)
      then show ?thesis using consume_SomeD [OF Some, of lm src] q args by (auto simp: a Let_def q_def [symmetric])
    next
      case no_close: None
      show ?thesis
      proof (cases "consume (CHR '','') q")
        case None
        then show ?thesis using no_close stops [OF q(1)] by (auto simp: a Let_def q_def [symmetric])
      next
        case (Some r)
        define w where "w = skip_space_and_comments r"
        have r: "cursor_ok lm src r" "length (rest r) < length (rest q)" using consume_SomeD [OF Some, of lm src] q by auto
        have w: "cursor_ok lm src w" "length (rest w) < length (rest q)"
          using r skip_length [of r] by (auto simp: w_def)
        show ?thesis
        proof (cases "consume closing w")
          case (Some x)
          then show ?thesis using consume_SomeD [OF Some, of lm src] q w args no_close \<open>consume (CHR '','') q = Some r\<close>
            by (auto simp: a Let_def q_def [symmetric] w_def [symmetric])
        next
          case None
          have "outcome (located (text_len src)) (leaves lm src (length (rest w)) (list_all (arg_in (text_len src))))
              (argument_list_loop n u lm pv closing d path (args @ [argument]) w)"
            using w q(2) Suc.prems(2,3) args by (intro Suc.IH) auto
          then have "outcome (located (text_len src)) (leaves lm src (length (rest p)) (list_all (arg_in (text_len src))))
              (argument_list_loop n u lm pv closing d path (args @ [argument]) w)"
            by (rule leaves_mono) (use w q(2) in auto)
          then show ?thesis using None no_close \<open>consume (CHR '','') q = Some r\<close> stops [OF w(1)]
            by (auto simp: a Let_def q_def [symmetric] w_def [symmetric])
        qed
      qed
    qed
  qed
qed simp

lemma parse_argument_list_leaves:
  assumes "cursor_ok lm src p" "enough d"
  shows "outcome (located (text_len src)) (leaves lm src (Suc (length (rest p))) (list_all (arg_in (text_len src))))
    (parse_argument_list_after_open u lm pv closing d path p)"
proof -
  define q where "q = skip_space_and_comments p"
  have q: "cursor_ok lm src q" "length (rest q) \<le> length (rest p)"
    using assms(1) skip_length [of p] by (auto simp: q_def)
  have loop: "outcome (located (text_len src)) (leaves lm src (length (rest q)) (list_all (arg_in (text_len src))))
      (argument_list_loop (round_fuel q) u lm pv closing d path [] q)"
    by (rule argument_list_loop_leaves [OF q(1) assms(2)]) (simp_all add: round_fuel_def)
  then have "outcome (located (text_len src)) (leaves lm src (Suc (length (rest p))) (list_all (arg_in (text_len src))))
      (argument_list_loop (round_fuel q) u lm pv closing d path [] q)"
    by (rule leaves_mono) (use q(2) in auto)
  then show ?thesis
    using q consume_SomeD [of closing q _ lm src]
    by (fastforce simp: parse_argument_list_after_open_def Let_def q_def [symmetric] split: option.split)
qed

lemma root_arguments_loop_leaves:
  assumes "cursor_ok lm src p" "enough 1" "length (rest p) < n" "list_all (arg_in (text_len src)) args"
  shows "outcome (located (text_len src)) (leaves lm src (length (rest p)) (list_all (arg_in (text_len src))))
    (root_arguments_loop n u lm pv args p)"
  using assms
proof (induction n arbitrary: p args)
  case (Suc n)
  show ?case
    unfolding root_arguments_loop.simps
  proof (rule outcome_bindI [OF parse_argument_leaves [OF Suc.prems(1,2)]], goal_cases)
    case (1 a)
    obtain argument t where a: "a = (argument, t)" by (cases a)
    define q where "q = skip_space_and_comments t"
    have args: "list_all (arg_in (text_len src)) (args @ [argument])" using 1 Suc.prems(4) by (simp add: a)
    have q: "cursor_ok lm src q" "length (rest q) < length (rest p)"
      using 1 skip_length [of t] by (auto simp: q_def a)
    have sp: "covered (text_len src) (arg_span argument)" using args by (cases argument) simp_all
    show ?case
    proof (cases "consume (CHR '','') q")
      case None
      then show ?thesis using covered_spans [OF q(1)] q args sp by (auto simp: a Let_def q_def [symmetric])
    next
      case (Some r)
      define w where "w = skip_space_and_comments r"
      have r: "cursor_ok lm src r" "length (rest r) < length (rest q)" using consume_SomeD [OF Some, of lm src] q by auto
      have w: "cursor_ok lm src w" "length (rest w) < length (rest q)"
        using r skip_length [of r] by (auto simp: w_def)
      have "outcome (located (text_len src)) (leaves lm src (length (rest w)) (list_all (arg_in (text_len src))))
          (root_arguments_loop n u lm pv (args @ [argument]) w)"
        using w q(2) Suc.prems(2,3) args by (intro Suc.IH) auto
      then have "outcome (located (text_len src)) (leaves lm src (length (rest p)) (list_all (arg_in (text_len src))))
          (root_arguments_loop n u lm pv (args @ [argument]) w)"
        by (rule leaves_mono) (use w q(2) in auto)
      then show ?thesis using Some sp q w args by (auto simp: a Let_def q_def [symmetric] w_def [symmetric])
    qed
  qed
qed simp

lemma parse_root_arguments_leaves:
  assumes "cursor_ok lm src p" "enough 1"
  shows "outcome (located (text_len src)) (leaves lm src (Suc (length (rest p))) (list_all (arg_in (text_len src))))
    (parse_root_arguments u lm pv p)"
proof -
  define q where "q = skip_space_and_comments p"
  have q: "cursor_ok lm src q" "length (rest q) \<le> length (rest p)"
    using assms(1) skip_length [of p] by (auto simp: q_def)
  have "outcome (located (text_len src)) (leaves lm src (length (rest q)) (list_all (arg_in (text_len src))))
      (root_arguments_loop (round_fuel q) u lm pv [] q)"
    by (rule root_arguments_loop_leaves [OF q(1) assms(2)]) (simp_all add: round_fuel_def)
  then have "outcome (located (text_len src)) (leaves lm src (Suc (length (rest p))) (list_all (arg_in (text_len src))))
      (root_arguments_loop (round_fuel q) u lm pv [] q)"
    by (rule leaves_mono) (use q(2) in auto)
  then show ?thesis using q by (auto simp: parse_root_arguments_def Let_def q_def [symmetric])
qed

text \<open>A parenthesised list of arguments read after the cursor \<open>q\<close>, as a value that starts at \<open>start\<close>.\<close>

lemma arguments_value:
  assumes "cursor_ok lm src q" "enough d" "start \<le> pos q" "length (rest q) < n"
    and "\<And>args. list_all (arg_in (text_len src)) args \<Longrightarrow> kind_in (text_len src) (k args)"
  shows "outcome (located (text_len src)) (leaves lm src n (value_post src start))
    (result_bind (parse_argument_list_after_open u lm pv closing d path q)
       (\<lambda>(args, r). Inr (RawValue (span_new start (pos r)) (k args), r)))"
proof (rule outcome_bindI [OF parse_argument_list_leaves [OF assms(1,2)]], goal_cases)
  case (1 a)
  obtain args r where a: "a = (args, r)" by (cases a)
  have r: "cursor_ok lm src r" "length (rest r) \<le> length (rest q)" "list_all (arg_in (text_len src)) args"
    using 1 by (simp_all add: a)
  have "start \<le> pos r" using pos_mono [OF assms(1) r(1,2)] assms(3) by simp
  then show ?case using r assms(4) value_post_new [OF r(1)] assms(5) by (simp add: a)
qed

lemma parse_record_value_leaves:
  assumes "cursor_ok lm src p" "enough (Suc d)" "rest p \<noteq> []"
  shows "outcome (located (text_len src)) (leaves lm src (length (rest p)) (value_post src (pos p)))
    (parse_record_value u lm pv d path p)"
proof -
  have b: "cursor_ok lm src (bump p)" "length (rest (bump p)) < length (rest p)" using assms(1,3) by auto
  then have "pos p \<le> pos (bump p)" using pos_mono [OF assms(1) b(1)] by simp
  then show ?thesis unfolding parse_record_value_def using arguments_value [OF b(1) assms(2) _ b(2)] by simp
qed

lemma opens_payload:
  assumes "cursor_ok lm src p" "payload_opens_after_horizontal_whitespace p"
  shows "cursor_ok lm src (bump (skip_horizontal_whitespace p))"
    "length (rest (bump (skip_horizontal_whitespace p))) < length (rest p)"
    "pos p \<le> pos (bump (skip_horizontal_whitespace p))"
proof -
  obtain cs where "rest (skip_horizontal_whitespace p) = ch CHR ''('' # cs"
    using assms(2) peek_SomeD unfolding payload_opens_after_horizontal_whitespace_def by blast
  then show l: "length (rest (bump (skip_horizontal_whitespace p))) < length (rest p)"
    using skip_while_length [of is_horizontal_whitespace p]
    by (simp add: bump_def skip_horizontal_whitespace_def)
  show c: "cursor_ok lm src (bump (skip_horizontal_whitespace p))" using assms(1) by blast
  show "pos p \<le> pos (bump (skip_horizontal_whitespace p))" using pos_mono [OF assms(1) c] l by simp
qed

lemma parse_optional_payload_leaves:
  assumes "cursor_ok lm src p" "enough (Suc d)" "covered (text_len src) (id_span variant)"
  shows "outcome (located (text_len src))
    (leaves lm src (Suc (length (rest p))) (\<lambda>args. case args of Some as \<Rightarrow> list_all (arg_in (text_len src)) as | None \<Rightarrow> True))
    (parse_optional_payload u lm pv variant d path p)"
proof (cases "payload_opens_after_horizontal_whitespace p")
  case True
  note o = opens_payload [OF assms(1) True]
  show ?thesis
    unfolding parse_optional_payload_def
  proof (simp only: True not_True_eq_False if_False, rule outcome_bindI [OF charge_outcome(1) [OF o(1) assms(3)]], goal_cases)
    case (1 q)
    show ?case
      by (rule outcome_bindI [OF parse_argument_list_leaves [of q "d + 1"]])
         (use 1 assms(2) o(2) in \<open>auto simp: leaves_def\<close>)
  qed
qed (use assms(1) in \<open>simp add: parse_optional_payload_def\<close>)

lemma parse_variant_leaves:
  assumes "cursor_ok lm src p" "enough (Suc d)" "start \<le> pos p" "length (rest p) < n"
    and "\<forall>i \<in> set_option qualifier. covered (text_len src) (id_span i)"
  shows "outcome (located (text_len src)) (leaves lm src n (value_post src start))
    (parse_variant u lm pv start qualifier d path p)"
  unfolding parse_variant_def
proof (rule outcome_bindI [OF parse_identifier_leaves [OF assms(1)]], goal_cases)
  case (1 a)
  obtain variant sp q where a: "a = ((variant, sp), q)" by (metis surj_pair)
  have q: "cursor_ok lm src q" "length (rest q) < length (rest p)" "covered (text_len src) sp" "pos p \<le> mon_end sp"
    using 1 by (simp_all add: a)
  define header where "header = \<lparr>id_name = variant, id_span = sp\<rparr>"
  have pay: "outcome (located (text_len src)) (leaves lm src n (value_post src start))
      (result_bind (parse_optional_payload u lm pv header d path q) (\<lambda>(args, p).
         let end' = (if args \<noteq> None then pos p else mon_end sp) in
         Inr (RawValue (span_new start end') (RawChoice qualifier header args), p)))"
  proof (rule outcome_bindI [OF parse_optional_payload_leaves [OF q(1) assms(2)]], goal_cases)
    case 1
    then show ?case using q(3) by (simp add: header_def)
  next
    case (2 b)
    obtain args r where b: "b = (args, r)" by (cases b)
    have r: "cursor_ok lm src r" "length (rest r) \<le> length (rest q)"
      "kind_in (text_len src) (RawChoice qualifier header args)"
      using 2 q(3) assms(5) by (simp_all add: b header_def)
    have pr: "pos p \<le> pos r" using pos_mono [OF assms(1) r(1)] r(2) q(2) by simp
    have e: "mon_end sp \<le> text_len src" "start \<le> mon_end sp" using q(3,4) assms(3) by (simp_all add: covered_def)
    have "value_post src start (RawValue (span_new start (mon_end sp)) (RawChoice qualifier header args))"
      using e r(3) cursor_okD(3) [OF q(1)] covered_span_new(2) [of "mon_end sp" start]
      by (auto simp: value_post_def intro!: covered_span_new(1))
    then show ?case
      using r q(2) assms(3,4) pr value_post_new [OF r(1) _ r(3), of start] by (auto simp: b Let_def)
  qed
  then show ?case
    by (simp add: a header_def [symmetric] Let_def reserved_name_located [OF q(1,3)])
qed

lemma parse_choice_value_leaves:
  assumes "cursor_ok lm src p" "enough (Suc d)" "rest p \<noteq> []"
  shows "outcome (located (text_len src)) (leaves lm src (length (rest p)) (value_post src (pos p)))
    (parse_choice_value u lm pv d path p)"
proof -
  have b: "cursor_ok lm src (bump (bump p))" "length (rest (bump (bump p))) < length (rest p)" using assms(1,3) by auto
  then have "pos p \<le> pos (bump (bump p))" using pos_mono [OF assms(1) b(1)] by simp
  then show ?thesis unfolding parse_choice_value_def using parse_variant_leaves [OF b(1) assms(2) _ b(2)] by simp
qed

lemma parse_identifier_value_leaves:
  assumes "cursor_ok lm src p" "enough (Suc d)"
  shows "outcome (located (text_len src)) (leaves lm src (length (rest p)) (value_post src (pos p)))
    (parse_identifier_value u lm pv d path p)"
  unfolding parse_identifier_value_def
proof (rule outcome_bindI [OF parse_identifier_leaves [OF assms(1)]], goal_cases)
  case (1 a)
  obtain name sp q where a: "a = ((name, sp), q)" by (metis surj_pair)
  have q: "cursor_ok lm src q" "length (rest q) < length (rest p)" "covered (text_len src) sp" "pos p \<le> mon_end sp"
    using 1 by (simp_all add: a)
  have pq: "pos p \<le> pos q" using pos_mono [OF assms(1) q(1)] q(2) by simp
  define qualifier where "qualifier = \<lparr>id_name = name, id_span = sp\<rparr>"
  have sq: "\<forall>i \<in> set_option (Some qualifier). covered (text_len src) (id_span i)" using q(3) by (simp add: qualifier_def)
  note reserved = reserved_name_located [OF q(1,3)]
  show ?case
    unfolding a prod.case Let_def qualifier_def [symmetric]
  proof (split if_split, intro conjI impI, goal_cases)
    case 1
    have "rest q \<noteq> []" using starts_with_text_length [OF 1] by auto
    then have b: "cursor_ok lm src (bump (bump q))" "length (rest (bump (bump q))) < length (rest p)" using q(1,2) by auto
    have "pos p \<le> pos (bump (bump q))" using pos_mono [OF assms(1) b(1)] b(2) by simp
    then show ?case using parse_variant_leaves [OF b(1) assms(2) _ b(2) sq] by (simp add: reserved)
  next
    case 2
    show ?case
    proof (cases "payload_opens_after_horizontal_whitespace q")
      case True
      note o = opens_payload [OF q(1) True]
      have "outcome (located (text_len src)) (leaves lm src (length (rest p)) (value_post src (pos p)))
          (result_bind (parse_argument_list_after_open u lm pv (CHR '')'') (d + 1) path (bump (skip_horizontal_whitespace q)))
             (\<lambda>(args, r). Inr (RawValue (span_new (pos p) (pos r)) (RawRecord (Some qualifier) args), r)))"
        using o q(2) pq sq assms(2) by (intro arguments_value) auto
      then show ?thesis using True by (simp add: reserved)
    next
      case False
      have "value_post src (pos p) (RawValue sp k)" if "kind_in (text_len src) k" for k
        using q(3,4) that by (simp add: value_post_def)
      then show ?thesis using False q by (simp add: outcome_stop [OF q(3)])
    qed
  qed
qed

section \<open>Collections and maps over a parser of values\<close>

lemma parse_map_key_leaves:
  assumes "cursor_ok lm src p" "enough d"
  shows "outcome (located (text_len src)) (leaves lm src (length (rest p)) (value_post src (pos p)))
    (parse_map_key u lm pv d path p)"
proof (cases "parse_identifier u path p")
  case (Inl e)
  then show ?thesis using pv [OF assms] by (simp add: parse_map_key_def)
next
  case (Inr a)
  obtain name sp q where a: "a = ((name, sp), q)" by (metis surj_pair)
  have "covered (text_len src) sp" using parse_identifier_leaves [OF assms(1), of u path] Inr by (simp add: a)
  then show ?thesis using pv [OF assms] by (simp add: parse_map_key_def Inr a Let_def outcome_stop)
qed

lemma collection_tail_loop_leaves:
  assumes "cursor_ok lm src p" "enough (Suc d)" "length (rest p) < n" "list_all (value_in (text_len src)) items"
  shows "outcome (located (text_len src)) (leaves lm src (Suc (length (rest p))) (list_all (value_in (text_len src))))
    (collection_tail_loop n pv d path items p)"
  using assms
proof (induction n arbitrary: p items)
  case (Suc n)
  define q where "q = skip_space_and_comments p"
  have q: "cursor_ok lm src q" "length (rest q) \<le> length (rest p)"
    using Suc.prems(1) skip_length [of p] by (auto simp: q_def)
  show ?case
  proof (cases "consume (CHR ''}'') q")
    case (Some r)
    then show ?thesis using consume_SomeD [OF Some, of lm src] q Suc.prems(4) by (auto simp: Let_def q_def [symmetric])
  next
    case no_close: None
    show ?thesis
    proof (cases "consume (CHR '','') q")
      case None
      then show ?thesis using no_close covered_spans [OF q(1)] by (auto simp: Let_def q_def [symmetric])
    next
      case comma: (Some r)
      define w where "w = skip_space_and_comments r"
      have r: "cursor_ok lm src r" "length (rest r) < length (rest q)" using consume_SomeD [OF comma, of lm src] q by auto
      have w: "cursor_ok lm src w" "length (rest w) < length (rest q)"
        using r skip_length [of r] by (auto simp: w_def)
      show ?thesis
      proof (cases "consume (CHR ''}'') w")
        case (Some x)
        then show ?thesis using consume_SomeD [OF Some, of lm src] q w Suc.prems(4) no_close comma
          by (auto simp: Let_def q_def [symmetric] w_def [symmetric])
      next
        case None
        have "outcome (located (text_len src)) (leaves lm src (Suc (length (rest p))) (list_all (value_in (text_len src))))
            (result_bind (pv (d + 1) (path @ [IndexSegment (length items)]) w)
               (\<lambda>(v, p). collection_tail_loop n pv d path (items @ [v]) p))"
        proof (rule outcome_bindI [OF pv [OF w(1)]], goal_cases)
          case 1
          then show ?case using Suc.prems(2) by simp
        next
          case (2 b)
          obtain v t where b: "b = (v, t)" by (cases b)
          have t: "cursor_ok lm src t" "length (rest t) < length (rest w)" "value_in (text_len src) v"
            using 2 by (simp_all add: b value_post_def)
          have "outcome (located (text_len src)) (leaves lm src (Suc (length (rest t))) (list_all (value_in (text_len src))))
              (collection_tail_loop n pv d path (items @ [v]) t)"
            using t w(2) q(2) Suc.prems(2-4) by (intro Suc.IH) auto
          then show ?case unfolding b prod.case by (rule leaves_mono) (use t w q in auto)
        qed
        then show ?thesis using None no_close comma by (simp add: Let_def q_def [symmetric] w_def [symmetric])
      qed
    qed
  qed
qed simp

lemma equals_spacing_outcome:
  assumes "cursor_ok lm src p" "rest p \<noteq> []"
  shows "outcome (located (text_len src)) (\<lambda>_. True) (require_equals_spacing path p)"
proof -
  obtain c cs where "rest p = c # cs" using assms(2) by (cases "rest p") auto
  moreover have "1 \<le> len_utf8 c" by (simp add: Suc_leI)
  ultimately have "pos p + 1 \<le> text_len src" using cursor_okD(1) [OF assms(1)] by simp
  then show ?thesis
    using cursor_okD(3) [OF assms(1)]
    by (auto simp: require_equals_spacing_def Let_def intro!: outcome_stop covered_span_new(1))
qed

abbreviation entry_in :: "raw_value \<times> raw_value \<Rightarrow> bool" where
  "entry_in \<equiv> \<lambda>(k, v). value_in (text_len src) k \<and> value_in (text_len src) v"

lemma map_tail_loop_leaves:
  assumes "cursor_ok lm src p" "enough (Suc d)" "length (rest p) < n" "list_all entry_in entries"
  shows "outcome (located (text_len src)) (leaves lm src (Suc (length (rest p))) (list_all entry_in))
    (map_tail_loop n u lm pv d path entries p)"
  using assms
proof (induction n arbitrary: p entries)
  case (Suc n)
  define q where "q = skip_space_and_comments p"
  have q: "cursor_ok lm src q" "length (rest q) \<le> length (rest p)"
    using Suc.prems(1) skip_length [of p] by (auto simp: q_def)
  show ?case
  proof (cases "consume (CHR ''}'') q")
    case (Some r)
    then show ?thesis using consume_SomeD [OF Some, of lm src] q Suc.prems(4) by (auto simp: Let_def q_def [symmetric])
  next
    case no_close: None
    show ?thesis
    proof (cases "consume (CHR '','') q")
      case None
      then show ?thesis using no_close covered_spans [OF q(1)] by (auto simp: Let_def q_def [symmetric])
    next
      case comma: (Some r)
      define w where "w = skip_space_and_comments r"
      have r: "cursor_ok lm src r" "length (rest r) < length (rest q)" using consume_SomeD [OF comma, of lm src] q by auto
      have w: "cursor_ok lm src w" "length (rest w) < length (rest q)"
        using r skip_length [of r] by (auto simp: w_def)
      show ?thesis
      proof (cases "consume (CHR ''}'') w")
        case (Some x)
        then show ?thesis using consume_SomeD [OF Some, of lm src] q w Suc.prems(4) no_close comma
          by (auto simp: Let_def q_def [symmetric] w_def [symmetric])
      next
        case None
        define ep where "ep = path @ [IndexSegment (length entries)]"
        have "outcome (located (text_len src)) (leaves lm src (Suc (length (rest p))) (list_all entry_in))
            (result_bind (parse_map_key u lm pv (d + 1) ep w) (\<lambda>(key, p).
               let equals = skip_space_and_comments p in
               case consume (CHR ''='') equals of
                 None \<Rightarrow> if at_end equals then stop UnexpectedEnd (point_span equals) ep
                         else stop MapKind (current_token_span equals) ep
               | Some p \<Rightarrow>
                   result_bind (require_equals_spacing ep equals) (\<lambda>_.
                   result_bind (pv (d + 1) ep (skip_space_and_comments p)) (\<lambda>(v, p).
                     map_tail_loop n u lm pv d path (entries @ [(key, v)]) p))))"
        proof (rule outcome_bindI [OF parse_map_key_leaves [OF w(1)]], goal_cases)
          case 1
          then show ?case using Suc.prems(2) by simp
        next
          case (2 b)
          obtain key t where b: "b = (key, t)" by (cases b)
          define eq where "eq = skip_space_and_comments t"
          have t: "value_in (text_len src) key" using 2 by (simp add: b value_post_def)
          have eq: "cursor_ok lm src eq" "length (rest eq) < length (rest w)"
            using 2 skip_length [of t] by (auto simp: b eq_def)
          show ?case
          proof (cases "consume (CHR ''='') eq")
            case None
            then show ?thesis using covered_spans [OF eq(1)] by (auto simp: b Let_def eq_def [symmetric])
          next
            case equals: (Some s)
            define x where "x = skip_space_and_comments s"
            have s: "cursor_ok lm src s" "length (rest s) < length (rest eq)"
              using consume_SomeD [OF equals, of lm src] eq by auto
            then have ne: "rest eq \<noteq> []" by auto
            have x: "cursor_ok lm src x" "length (rest x) < length (rest eq)"
              using s skip_length [of s] by (auto simp: x_def)
            have "outcome (located (text_len src)) (leaves lm src (Suc (length (rest p))) (list_all entry_in))
                (result_bind (require_equals_spacing ep eq) (\<lambda>_.
                   result_bind (pv (d + 1) ep x) (\<lambda>(v, p).
                     map_tail_loop n u lm pv d path (entries @ [(key, v)]) p)))"
            proof (rule outcome_bindI [OF equals_spacing_outcome [OF eq(1) ne]], rule outcome_bindI [OF pv [OF x(1)]], goal_cases)
              case 1
              then show ?case using Suc.prems(2) by simp
            next
              case (2 _ c)
              obtain v y where c: "c = (v, y)" by (cases c)
              have y: "cursor_ok lm src y" "length (rest y) < length (rest x)" "value_in (text_len src) v"
                using 2 by (simp_all add: c value_post_def)
              have "outcome (located (text_len src)) (leaves lm src (Suc (length (rest y))) (list_all entry_in))
                  (map_tail_loop n u lm pv d path (entries @ [(key, v)]) y)"
                using y x(2) eq(2) w(2) q(2) t Suc.prems(2-4) by (intro Suc.IH) auto
              then show ?case unfolding c prod.case by (rule leaves_mono) (use y x eq w q in auto)
            qed
            then show ?thesis using equals by (simp add: b Let_def eq_def [symmetric] x_def)
          qed
        qed
        then show ?thesis using None no_close comma
          by (simp add: Let_def q_def [symmetric] w_def [symmetric] ep_def [symmetric])
      qed
    qed
  qed
qed simp

lemma parse_container_value_leaves:
  assumes "cursor_ok lm src p" "enough (Suc d)" "rest p \<noteq> []"
  shows "outcome (located (text_len src)) (leaves lm src (length (rest p)) (value_post src (pos p)))
    (parse_container_value u lm pv d path p)"
proof -
  define q where "q = skip_space_and_comments (bump p)"
  have q: "cursor_ok lm src q" "length (rest q) < length (rest p)"
    using assms(1,3) skip_length [of "bump p"] by (cases "rest p"; auto simp: q_def)+
  have later: "pos p \<le> pos r" if "cursor_ok lm src r" "length (rest r) < length (rest p)" for r
    using pos_mono [OF assms(1) that(1)] that(2) by simp
  show ?thesis
  proof (cases "consume (CHR ''}'') q")
    case (Some r)
    then have r: "cursor_ok lm src r" "length (rest r) < length (rest p)"
      using consume_SomeD [OF Some, of lm src] q by auto
    then show ?thesis using Some value_post_new [OF r(1) later [OF r]]
      by (simp add: parse_container_value_def Let_def q_def [symmetric])
  next
    case no_close: None
    show ?thesis
    proof (cases "consume (CHR ''='') q")
      case equals: (Some r)
      define w where "w = skip_space_and_comments r"
      have w: "cursor_ok lm src w" "length (rest w) < length (rest p)"
        using consume_SomeD [OF equals, of lm src] q skip_length [of r] by (auto simp: w_def)
      show ?thesis
      proof (cases "consume (CHR ''}'') w")
        case None
        then show ?thesis using no_close equals covered_spans [OF w(1)]
          by (auto simp: parse_container_value_def Let_def q_def [symmetric] w_def [symmetric])
      next
        case (Some x)
        then have x: "cursor_ok lm src x" "length (rest x) < length (rest p)"
          using consume_SomeD [OF Some, of lm src] w by auto
        then show ?thesis using Some no_close equals value_post_new [OF x(1) later [OF x]]
          by (simp add: parse_container_value_def Let_def q_def [symmetric] w_def [symmetric])
      qed
    next
      case no_equals: None
      define ep where "ep = path @ [IndexSegment 0]"
      let ?post = "outcome (located (text_len src)) (leaves lm src (length (rest p)) (value_post src (pos p)))"
      have "?post (result_bind (parse_map_key u lm pv (d + 1) ep q) (\<lambda>(first, p').
          let equals = skip_space_and_comments p' in
          case consume (CHR ''='') equals of
            Some p' \<Rightarrow>
              result_bind (require_equals_spacing path equals) (\<lambda>_.
              let p' = skip_space_and_comments p' in
              if at_end p' then stop UnexpectedEnd (point_span p') ep
              else
                result_bind (pv (d + 1) ep p') (\<lambda>(v, p').
                result_bind (parse_map_tail u lm pv d path [(first, v)] p') (\<lambda>(entries, p').
                  Inr (RawValue (span_new (pos p) (pos p')) (RawMap entries), p'))))
          | None \<Rightarrow>
              result_bind (parse_collection_tail pv d path [first] equals) (\<lambda>(items, p').
                Inr (RawValue (span_new (pos p) (pos p')) (RawCollection items), p'))))"
      proof (rule outcome_bindI [OF parse_map_key_leaves [OF q(1)]], goal_cases)
        case 1
        then show ?case using assms(2) by simp
      next
        case (2 b)
        obtain first t where b: "b = (first, t)" by (cases b)
        define eq where "eq = skip_space_and_comments t"
        have first: "value_in (text_len src) first" using 2 by (simp add: b value_post_def)
        have eq: "cursor_ok lm src eq" "length (rest eq) < length (rest q)"
          using 2 skip_length [of t] by (auto simp: b eq_def)
        show ?case
        proof (cases "consume (CHR ''='') eq")
          case None
          have "?post (result_bind (parse_collection_tail pv d path [first] eq) (\<lambda>(items, p').
              Inr (RawValue (span_new (pos p) (pos p')) (RawCollection items), p')))"
            unfolding parse_collection_tail_def
          proof (rule outcome_bindI [OF collection_tail_loop_leaves [OF eq(1) assms(2)]], goal_cases)
            case (3 c)
            obtain items y where c: "c = (items, y)" by (cases c)
            have y: "cursor_ok lm src y" "length (rest y) < length (rest p)"
              using 3 eq(2) q(2) by (simp_all add: c)
            then show ?case using 3 value_post_new [OF y(1) later [OF y]] by (simp add: c)
          qed (use first in \<open>simp_all add: round_fuel_def\<close>)
          then show ?thesis using None by (simp add: b Let_def eq_def [symmetric])
        next
          case equals: (Some s)
          define x where "x = skip_space_and_comments s"
          have s: "cursor_ok lm src s" "length (rest s) < length (rest eq)"
            using consume_SomeD [OF equals, of lm src] eq by auto
          then have ne: "rest eq \<noteq> []" by auto
          have x: "cursor_ok lm src x" "length (rest x) < length (rest eq)"
            using s skip_length [of s] by (auto simp: x_def)
          have "?post (result_bind (require_equals_spacing path eq) (\<lambda>_.
              if at_end x then stop UnexpectedEnd (point_span x) ep
              else
                result_bind (pv (d + 1) ep x) (\<lambda>(v, p').
                result_bind (parse_map_tail u lm pv d path [(first, v)] p') (\<lambda>(entries, p').
                  Inr (RawValue (span_new (pos p) (pos p')) (RawMap entries), p')))))"
          proof (rule outcome_bindI [OF equals_spacing_outcome [OF eq(1) ne]], split if_split, intro conjI impI, goal_cases)
            case 1
            then show ?case using covered_spans(1) [OF x(1)] by blast
          next
            case 2
            show ?case
            proof (rule outcome_bindI [OF pv [OF x(1)]], goal_cases)
              case 1
              then show ?case using assms(2) by simp
            next
              case (2 c)
              obtain v y where c: "c = (v, y)" by (cases c)
              have y: "cursor_ok lm src y" "length (rest y) < length (rest x)" "value_in (text_len src) v"
                using 2 by (simp_all add: c value_post_def)
              show ?case
                unfolding c prod.case parse_map_tail_def
              proof (rule outcome_bindI [OF map_tail_loop_leaves [OF y(1) assms(2)]], goal_cases)
                case (3 e)
                obtain entries z where e: "e = (entries, z)" by (cases e)
                have z: "cursor_ok lm src z" "length (rest z) < length (rest p)"
                  using 3 y(2) x(2) eq(2) q(2) by (simp_all add: e)
                then show ?case using 3 value_post_new [OF z(1) later [OF z]] by (simp add: e)
              qed (use first y in \<open>simp_all add: round_fuel_def\<close>)
            qed
          qed
          then show ?thesis by (simp only: b prod.case Let_def eq_def [symmetric] x_def [symmetric] equals option.case)
        qed
      qed
      then show ?thesis using no_close no_equals
        by (simp add: parse_container_value_def Let_def q_def [symmetric] ep_def [symmetric])
    qed
  qed
qed

lemma parse_literal_leaves:
  assumes "cursor_ok lm src p" "enough (Suc d)"
  shows "outcome (located (text_len src)) (leaves lm src (length (rest p)) (value_post src (pos p)))
    (parse_literal u lm pv d path p)"
proof (cases "peek p")
  case None
  then show ?thesis using covered_spans [OF assms(1)] by (auto simp: parse_literal_def)
next
  case (Some c)
  then have ne: "rest p \<noteq> []" using peek_SomeD by fastforce
  show ?thesis
    unfolding parse_literal_def Some option.case
    using parse_record_value_leaves [OF assms ne] parse_container_value_leaves [OF assms ne]
      parse_string_value_leaves [OF assms(1) ne] parse_char_value_leaves [OF assms(1) ne]
      parse_number_value_leaves [OF assms(1) Some] parse_choice_value_leaves [OF assms ne]
      parse_identifier_value_leaves [OF assms] covered_spans(2) [OF assms(1)]
    by (auto split: if_splits)
qed

end

section \<open>The parser of values\<close>

text \<open>Its fuel covers a depth when it is not used up at one below the depth limit.\<close>

definition depth_covered :: "limits \<Rightarrow> nat \<Rightarrow> nat \<Rightarrow> bool" where
  "depth_covered lm n d \<longleftrightarrow> d \<le> Suc (max_depth lm) \<and> Suc (max_depth lm) < d + n"

lemma value_parsing_parse_value: "value_parsing lm src (parse_value u lm n) (depth_covered lm n)"
proof (induction n)
  case 0
  show ?case by unfold_locales (auto simp: depth_covered_def)
next
  case (Suc n)
  show ?case
  proof (unfold_locales, goal_cases)
    case (1 p d path)
    define q where "q = skip_space_and_comments p"
    have q: "cursor_ok lm src q" "length (rest q) \<le> length (rest p)"
      using 1(1) skip_length [of p] by (auto simp: q_def)
    define sp where "sp = span_new (pos q) (pos q)"
    have sp: "covered (text_len src) sp" using covered_spans(4) [OF q(1)] by (simp add: sp_def)
    have pq: "pos p \<le> pos q" by (rule pos_mono [OF 1(1) q])
    have depth: "outcome (located (text_len src)) (\<lambda>_. d \<le> max_depth lm)
        (lift_failure (with_path path (check_depth lm d (Some sp))))"
      using sp by (auto simp: lift_failure_def with_path_def check_depth_def located_def mon_error_new_def)
    show ?case
      unfolding parse_value.simps Let_def q_def [symmetric] sp_def [symmetric]
    proof (split if_split, intro conjI impI, goal_cases)
      case 1
      then show ?case using sp by blast
    next
      case 2
      show ?case
      proof (rule outcome_bindI [OF depth], rule outcome_bindI [OF charge_outcome(2) [OF q(1) sp]], goal_cases)
        case (1 _ t)
        then have "depth_covered lm n (Suc d)" using \<open>depth_covered lm (Suc n) d\<close> by (simp add: depth_covered_def)
        then have "outcome (located (text_len src)) (leaves lm src (length (rest t)) (value_post src (pos t)))
            (parse_literal u lm (parse_value u lm n) d path t)"
          using value_parsing.parse_literal_leaves [OF Suc] 1 by blast
        moreover have "pos t = pos q" using 1 by (simp add: pos_def)
        ultimately show ?case
          using 1 q(2) pq by (auto simp: value_post_def elim!: leaves_mono)
      qed
    qed
  qed
qed

interpretation values_at_depth: value_parsing lm src "parse_value u lm n" "depth_covered lm n" for lm src u n
  by (rule value_parsing_parse_value)

lemma parse_document_leaves:
  assumes "cursor_ok lm src p"
  shows "outcome (located (text_len src)) (leaves lm src (Suc (length (rest p))) (value_in (text_len src)))
    (parse_document u lm p)"
proof -
  define q where "q = skip_space_and_comments p"
  have q: "cursor_ok lm src q" "length (rest q) \<le> length (rest p)"
    using assms skip_length [of p] by (auto simp: q_def)
  note qs = cursor_okD [OF q(1)]
  define pv where "pv = parse_value u lm (depth_fuel lm)"
  have one: "depth_covered lm (depth_fuel lm) 1" by (simp add: depth_covered_def depth_fuel_def)
  show ?thesis
  proof (cases "consume (CHR ''('') q")
    case (Some r)
    have r: "cursor_ok lm src r" "length (rest r) < length (rest q)" using consume_SomeD [OF Some, of lm src] q by auto
    obtain cs where cs: "rest q = ch CHR ''('' # cs" using Some peek_SomeD by (fastforce simp: consume_def split: if_splits)
    have sp: "covered (text_len src) (span_new (pos q) (pos q + 1))"
      using qs cs by (intro covered_span_new(1)) (auto simp: len_utf8_def)
    have "outcome (located (text_len src)) (leaves lm src (Suc (length (rest p))) (value_in (text_len src)))
        (result_bind (parser_charge_nodes lm 1 (span_new (pos q) (pos q + 1)) [] r) (\<lambda>t.
           result_bind (parse_argument_list_after_open u lm pv (CHR '')'') 1 [] t) (\<lambda>(args, t).
             Inr (RawValue (span_new (pos q) (pos t)) (RawRecord None args), t))))"
    proof (rule outcome_bindI [OF charge_outcome(2) [OF r(1) sp]], goal_cases)
      case (1 t)
      then have t: "cursor_ok lm src t" "length (rest t) < length (rest q)" using r(2) by auto
      have "pos q \<le> pos t" using pos_mono [OF q(1) t(1)] t(2) by simp
      then have "outcome (located (text_len src)) (leaves lm src (Suc (length (rest p))) (value_post src (pos q)))
          (result_bind (parse_argument_list_after_open u lm pv (CHR '')'') 1 [] t)
             (\<lambda>(args, r). Inr (RawValue (span_new (pos q) (pos r)) (RawRecord None args), r)))"
        unfolding pv_def using t q(2) by (intro values_at_depth.arguments_value [OF t(1) one]) auto
      then show ?case by (rule leaves_mono) (auto simp: value_post_def)
    qed
    then show ?thesis using Some by (simp add: parse_document_def Let_def q_def [symmetric] pv_def)
  next
    case None
    have sp: "covered (text_len src) (span_new (pos q) (span_end (input_len q)))"
      "covered (text_len src) (span_new 0 (span_end (input_len q)))"
      using qs by (auto simp: span_end_def intro!: covered_span_new(1))
    have depth: "outcome (located (text_len src)) (\<lambda>_. True)
        (lift_failure (with_path [] (check_depth lm 0 (Some (span_new (pos q) (pos q))))))"
      by (simp add: lift_failure_def with_path_def check_depth_def)
    have "outcome (located (text_len src)) (leaves lm src (Suc (length (rest p))) (value_in (text_len src)))
        (result_bind (lift_failure (with_path [] (check_depth lm 0 (Some (span_new (pos q) (pos q)))))) (\<lambda>_.
         result_bind (parser_charge_nodes lm 1 (span_new (pos q) (span_end (input_len q))) [] q) (\<lambda>t.
         result_bind (parse_root_arguments u lm pv t) (\<lambda>(args, t).
           Inr (RawValue (span_new 0 (span_end (input_len q))) (RawRecord None args), t)))))"
    proof (rule outcome_bindI [OF depth], rule outcome_bindI [OF charge_outcome(2) [OF q(1) sp(1)]], goal_cases)
      case (1 _ t)
      then have t: "cursor_ok lm src t" "rest t = rest q" by auto
      show ?case
        unfolding pv_def
        by (rule outcome_bindI [OF values_at_depth.parse_root_arguments_leaves [OF t(1) one]])
           (use t(2) q(2) sp(2) in \<open>auto simp: leaves_def\<close>)
    qed
    then show ?thesis using None by (simp add: parse_document_def Let_def q_def [symmetric] pv_def)
  qed
qed

end
