(* ===== verification/Mon_Schema.thy ===== *)
theory Mon_Schema
  imports Mon_Model Decimal_Facts "HOL-Library.Product_Lexorder"
begin

text \<open>
  MON schemas (\<open>crates/moth-mon/src/schema.rs\<close>, and the key index of \<open>map_keys.rs\<close>): preparation of a
  schema description into an immutable representation with sorted name indexes and completed
  defaults, and the validation and completion of a borrowed value against a prepared type.

  \<^item> A path argument is the \<open>path\<close> vector at the call; \<open>push\<close> before a nested call is \<open>path @ [segment]\<close>,
    and the matching \<open>pop\<close> needs no counterpart.
  \<^item> The iterative release of rejected trees (\<open>drop_*\<close>) frees memory only and is left out.
  \<^item> A hash set of keys is the set of its members.
  \<^item> The results carry a \<open>mon_stop\<close>: an error of the code is \<open>MonFailure\<close>, and completion can also stop with
    \<open>KeyIndexPanic\<close>, the panic of \<open>MapKeyIndex::new\<close>.
\<close>

section \<open>Prepared schemas\<close>

datatype prepared_type =
    NonePrepared
  | BoolPrepared
  | CharPrepared
  | StringPrepared
  | IntegerPrepared
  | DecimalPrepared number_scale
  | FixedPrepared fixed_scalar
  | OptionalPrepared prepared_type
  | RecordPrepared prepared_fields
  | StructPrepared utext prepared_fields
  | CollectionPrepared prepared_type
  | MapPrepared prepared_type prepared_type
  | ChoicePrepared utext prepared_variants
and prepared_field =
  PreparedField (prepared_name: utext) (prepared_ty: prepared_type) (prepared_default: "mon_value option")
and prepared_fields =
  PreparedFields (declared_fields: "prepared_field list") (field_lookup: "nat list")
and prepared_variant =
  PreparedVariant (prepared_variant_name: utext) (prepared_variant_fields: prepared_fields)
and prepared_variants =
  PreparedVariants (declared_variants: "prepared_variant list") (variant_lookup: "nat list")

text \<open>The binary search both indexes run over their sorted slots.\<close>

function find_slot :: "nat list \<Rightarrow> (nat \<Rightarrow> utext) \<Rightarrow> utext \<Rightarrow> nat \<Rightarrow> nat \<Rightarrow> nat option" where
  "find_slot lookup name_at name low high =
     (if low < high then
        (let mid = low + (high - low) div 2; slot = lookup ! mid
         in if name_at slot < name then find_slot lookup name_at name (mid + 1) high
            else if name < name_at slot then find_slot lookup name_at name low mid
            else Some slot)
      else None)"
  by pat_completeness auto

termination by (relation "measure (\<lambda>(_, _, _, low, high). high - low)") auto

declare find_slot.simps [simp del]

definition fields_find :: "prepared_fields \<Rightarrow> utext \<Rightarrow> nat option" where
  "fields_find fs name =
     find_slot (field_lookup fs) (\<lambda>slot. prepared_name (declared_fields fs ! slot)) name 0
       (length (field_lookup fs))"

definition variants_find :: "prepared_variants \<Rightarrow> utext \<Rightarrow> nat option" where
  "variants_find vs name =
     find_slot (variant_lookup vs) (\<lambda>slot. prepared_variant_name (declared_variants vs ! slot)) name 0
       (length (variant_lookup vs))"

record prepared_schema =
  prepared_root :: prepared_type
  prepared_limits :: limits

section \<open>Typed map keys\<close>

datatype map_key_index =
    StringKeys "utext set"
  | BoolKeys "bool set"
  | CharKeys "uchar set"
  | FixedKeys fixed_scalar "fixed_payload set"

text \<open>\<open>None\<close>: the key type has no index and \<open>MapKeyIndex::new\<close> panics; the callers give \<open>KeyIndexPanic\<close>.\<close>

definition map_key_index_new :: "prepared_type \<Rightarrow> map_key_index option" where
  "map_key_index_new key_type =
     (case key_type of
        StringPrepared \<Rightarrow> Some (StringKeys {})
      | BoolPrepared \<Rightarrow> Some (BoolKeys {})
      | CharPrepared \<Rightarrow> Some (CharKeys {})
      | FixedPrepared scalar \<Rightarrow> if scalar_class scalar = BinaryFloat then None else Some (FixedKeys scalar {})
      | _ \<Rightarrow> None)"

definition contains_value :: "map_key_index \<Rightarrow> mon_value \<Rightarrow> bool option" where
  "contains_value index v =
     (case (index, v) of
        (StringKeys keys, StringValue s) \<Rightarrow> Some (s \<in> keys)
      | (BoolKeys keys, BoolValue b) \<Rightarrow> Some (b \<in> keys)
      | (CharKeys keys, CharValue c) \<Rightarrow> Some (c \<in> keys)
      | (FixedKeys scalar keys, FixedValue p) \<Rightarrow> if payload_scalar p = scalar then Some (p \<in> keys) else None
      | _ \<Rightarrow> None)"

definition insert_value :: "map_key_index \<Rightarrow> mon_value \<Rightarrow> map_key_index" where
  "insert_value index v =
     (case (index, v) of
        (StringKeys keys, StringValue s) \<Rightarrow> StringKeys (insert s keys)
      | (BoolKeys keys, BoolValue b) \<Rightarrow> BoolKeys (insert b keys)
      | (CharKeys keys, CharValue c) \<Rightarrow> CharKeys (insert c keys)
      | (FixedKeys scalar keys, FixedValue p) \<Rightarrow>
          if payload_scalar p = scalar then FixedKeys scalar (insert p keys) else index
      | _ \<Rightarrow> index)"

section \<open>Errors and charges with a path\<close>

datatype completion_context = DefaultContext | InputContext

datatype record_context = RecordContext | ChoiceContext

definition schema_error :: "mon_error_code \<Rightarrow> mon_path \<Rightarrow> mon_stop" where
  "schema_error c path = MonFailure (mon_error_new c None path)"

definition value_error :: "completion_context \<Rightarrow> mon_error_code \<Rightarrow> mon_path \<Rightarrow> mon_stop" where
  "value_error ctx c path =
     (case ctx of
        DefaultContext \<Rightarrow> schema_error InvalidDefault path
      | InputContext \<Rightarrow> schema_error c path)"

definition charge_nodes_at :: "limits \<Rightarrow> nat \<Rightarrow> mon_path \<Rightarrow> budget \<Rightarrow> (mon_stop, budget) result" where
  "charge_nodes_at lm count path b = lift_failure (with_path path (charge_nodes lm count None b))"

definition charge_decoded_at :: "limits \<Rightarrow> nat \<Rightarrow> mon_path \<Rightarrow> budget \<Rightarrow> (mon_stop, budget) result" where
  "charge_decoded_at lm count path b = lift_failure (with_path path (charge_decoded_bytes lm count None b))"

definition charge_default_at :: "limits \<Rightarrow> mon_path \<Rightarrow> budget \<Rightarrow> (mon_stop, budget) result" where
  "charge_default_at lm path b = lift_failure (with_path path (charge_default lm None b))"

definition check_depth_at :: "limits \<Rightarrow> nat \<Rightarrow> mon_path \<Rightarrow> (mon_stop, unit) result" where
  "check_depth_at lm depth path = lift_failure (with_path path (check_depth lm depth None))"

section \<open>Numeric text\<close>

definition unsigned_numeric_text :: "utext \<Rightarrow> utext" where
  "unsigned_numeric_text s = (case s of [] \<Rightarrow> [] | c # cs \<Rightarrow> if c = ch CHR ''-'' then cs else s)"

definition check_numeric_budget :: "nat \<Rightarrow> limits \<Rightarrow> mon_path \<Rightarrow> (mon_stop, unit) result" where
  "check_numeric_budget count lm path =
     (if max_numeric_digits lm < count then Inl (schema_error NumericBudget path) else Inr ())"

definition check_numeric_text_budget :: "utext \<Rightarrow> limits \<Rightarrow> mon_path \<Rightarrow> (mon_stop, unit) result" where
  "check_numeric_text_budget s lm path = check_numeric_budget (length (filter is_digit s)) lm path"

definition numeric_value_error :: "completion_context \<Rightarrow> mon_path \<Rightarrow> mon_stop" where
  "numeric_value_error ctx path = value_error ctx NumericSyntax path"

text \<open>The steps both exact-number validators share: digit budget, scratch charge and parse.\<close>

definition parse_numeric_text ::
  "limits \<Rightarrow> completion_context \<Rightarrow> utext \<Rightarrow> mon_path \<Rightarrow> budget
   \<Rightarrow> (mon_stop, parsed_numeric_literal \<times> budget) result" where
  "parse_numeric_text lm ctx s path b =
     result_bind (check_numeric_text_budget s lm path) (\<lambda>_.
     result_bind (charge_decoded_at lm (text_len (unsigned_numeric_text s)) path b) (\<lambda>b.
     case parse_numeric_literal (utf8 (unsigned_numeric_text s)) of
       Inl reason \<Rightarrow> Inl (numeric_value_error ctx path)
     | Inr parsed \<Rightarrow>
         result_bind (check_numeric_budget (digit_count parsed) lm path) (\<lambda>_. Inr (parsed, b))))"

definition validate_integer_text ::
  "limits \<Rightarrow> completion_context \<Rightarrow> utext \<Rightarrow> mon_path \<Rightarrow> budget \<Rightarrow> (mon_stop, budget) result" where
  "validate_integer_text lm ctx s path b =
     result_bind (parse_numeric_text lm ctx s path b) (\<lambda>(parsed, b).
       if literal_kind parsed \<noteq> WholeNumber then Inl (value_error ctx NumericType path) else Inr b)"

definition validate_decimal_text ::
  "limits \<Rightarrow> completion_context \<Rightarrow> utext \<Rightarrow> number_scale \<Rightarrow> mon_path \<Rightarrow> budget \<Rightarrow> (mon_stop, budget) result" where
  "validate_decimal_text lm ctx s scale path b =
     result_bind (parse_numeric_text lm ctx s path b) (\<lambda>(parsed, b).
       if scale_get scale < effective_decimal_scale (normalized_text parsed)
       then Inl (value_error ctx NumericScale path) else Inr b)"

section \<open>Validation and completion\<close>

text \<open>The first loop of \<open>complete_record\<close>: supplied values move to the slots of their fields.\<close>

primrec supply_fields ::
  "unicode \<Rightarrow> limits \<Rightarrow> completion_context \<Rightarrow> record_context \<Rightarrow> prepared_fields \<Rightarrow> mon_path
   \<Rightarrow> (utext \<times> mon_value) list \<Rightarrow> mon_value option list \<Rightarrow> budget
   \<Rightarrow> (mon_stop, mon_value option list \<times> budget) result" where
  "supply_fields u lm ctx rc fs path [] supplied b = Inr (supplied, b)"
| "supply_fields u lm ctx rc fs path (nv # given) supplied b =
     (case nv of (name, v) \<Rightarrow>
       (case fields_find fs name of
          None \<Rightarrow>
            result_bind (charge_decoded_at lm (text_len name) path b) (\<lambda>b.
              let field_path = path @ [FieldSegment name]
              in if \<not> is_identifier u name \<or> is_reserved_user_name name
                 then Inl (value_error ctx InvalidIdentifier field_path)
                 else Inl (value_error ctx
                        (if ctx = InputContext \<and> rc = ChoiceContext then UnknownArgument else UnknownField)
                        field_path))
        | Some index \<Rightarrow>
            if supplied ! index \<noteq> None then
              result_bind (charge_decoded_at lm (text_len name) path b) (\<lambda>b.
                Inl (value_error ctx
                  (if ctx = InputContext \<and> rc = ChoiceContext then DuplicateArgument else DuplicateField)
                  (path @ [FieldSegment name])))
            else supply_fields u lm ctx rc fs path given (supplied[index := Some v]) b))"

lemma supply_fields_values:
  "supply_fields u lm ctx rc fs path given supplied b = Inr (supplied', b') \<Longrightarrow>
     Some v \<in> set supplied' \<Longrightarrow> Some v \<in> set supplied \<or> v \<in> snd ` set given"
proof (induction given arbitrary: supplied b)
  case (Cons nv given)
  obtain name w where nv: "nv = (name, w)" by (cases nv)
  from Cons.prems(1) obtain index where "supplied ! index = None"
    and "supply_fields u lm ctx rc fs path given (supplied[index := Some w]) b = Inr (supplied', b')"
    by (auto simp: nv result_bind_eq_Inr_iff Let_def split: option.splits if_splits)
  from Cons.IH [OF this(2) Cons.prems(2)] show ?case
    using set_update_subset_insert [of supplied index "Some w"] by (auto simp: nv)
qed simp

text \<open>A bounded copy of a completed default.\<close>

definition charge_nodes_span ::
  "limits \<Rightarrow> nat \<Rightarrow> mon_span option \<Rightarrow> mon_path \<Rightarrow> budget \<Rightarrow> (mon_error, budget) result" where
  "charge_nodes_span lm count sp path b = with_path path (charge_nodes lm count sp b)"

definition charge_decoded_span ::
  "limits \<Rightarrow> nat \<Rightarrow> mon_span option \<Rightarrow> mon_path \<Rightarrow> budget \<Rightarrow> (mon_error, budget) result" where
  "charge_decoded_span lm count sp path b = with_path path (charge_decoded_bytes lm count sp b)"

lemma enumerate_member: "(i, x) \<in> set (enumerate n xs) \<Longrightarrow> x \<in> set xs"
  by (auto simp: in_set_enumerate_eq)

lemma size_value_member: "x \<in> set xs \<Longrightarrow> size (x :: mon_value) < Suc (size_list size xs)"
  by (induction xs) auto

lemma size_field_member:
  "(name, x) \<in> set fs \<Longrightarrow> size (x :: mon_value) < Suc (size_list (size_prod (\<lambda>_. 0) size) fs)"
  by (induction fs) auto

lemma size_entry_member:
  assumes "(k, x) \<in> set entries"
  shows "size (k :: mon_value) < Suc (size_list (size_prod size size) entries)"
    "size (x :: mon_value) < Suc (size_list (size_prod size size) entries)"
  using assms by (induction entries) auto

lemmas size_members = size_value_member size_field_member size_entry_member
  size_value_member [OF enumerate_member] size_entry_member [OF enumerate_member]

function clone_default ::
  "limits \<Rightarrow> mon_span option \<Rightarrow> mon_value \<Rightarrow> mon_path \<Rightarrow> nat \<Rightarrow> budget
   \<Rightarrow> (mon_error, mon_value \<times> budget) result" where
  "clone_default lm sp v path depth b =
     result_bind (with_path path (check_depth lm depth sp)) (\<lambda>_.
     result_bind (charge_nodes_span lm 1 sp path b) (\<lambda>b.
     case v of
       NoneValue \<Rightarrow> Inr (v, b)
     | BoolValue _ \<Rightarrow> Inr (v, b)
     | CharValue c \<Rightarrow> result_bind (charge_decoded_span lm (len_utf8 c) sp path b) (\<lambda>b. Inr (v, b))
     | StringValue s \<Rightarrow> result_bind (charge_decoded_span lm (text_len s) sp path b) (\<lambda>b. Inr (v, b))
     | FixedValue _ \<Rightarrow> Inr (v, b)
     | IntegerValue s \<Rightarrow> result_bind (charge_decoded_span lm (text_len s) sp path b) (\<lambda>b. Inr (v, b))
     | DecimalValue s \<Rightarrow> result_bind (charge_decoded_span lm (text_len s) sp path b) (\<lambda>b. Inr (v, b))
     | RecordValue fs \<Rightarrow>
         result_bind (collect_each (\<lambda>(name, x) b.
             result_bind (charge_decoded_span lm (text_len name) sp path b) (\<lambda>b.
             result_bind (clone_default lm sp x (path @ [FieldSegment name]) (depth + 1) b) (\<lambda>(y, b).
             result_bind (charge_decoded_span lm (text_len name) sp path b) (\<lambda>b. Inr ((name, y), b))))) fs b)
           (\<lambda>(output, b). Inr (RecordValue output, b))
     | CollectionValue vs \<Rightarrow>
         result_bind (collect_each (\<lambda>(i, x) b.
             clone_default lm sp x (path @ [IndexSegment i]) (depth + 1) b) (enumerate 0 vs) b)
           (\<lambda>(output, b). Inr (CollectionValue output, b))
     | MapValue entries \<Rightarrow>
         result_bind (collect_each (\<lambda>(i, k, x) b.
             result_bind (clone_default lm sp k (path @ [IndexSegment i]) (depth + 1) b) (\<lambda>(k, b).
             result_bind (charge_nodes_span lm 1 sp (path @ [IndexSegment i]) b) (\<lambda>b.
             result_bind (clone_default lm sp x (path @ [IndexSegment i]) (depth + 1) b) (\<lambda>(y, b).
               Inr ((k, y), b))))) (enumerate 0 entries) b)
           (\<lambda>(output, b). Inr (MapValue output, b))
     | ChoiceValue qualifier variant fs \<Rightarrow>
         result_bind (case qualifier of
             Some q \<Rightarrow> charge_decoded_span lm (text_len q) sp path b
           | None \<Rightarrow> Inr b) (\<lambda>b.
         result_bind (charge_decoded_span lm (text_len variant) sp path b) (\<lambda>b.
         result_bind (charge_decoded_span lm (text_len variant) sp path b) (\<lambda>b.
         result_bind (collect_each (\<lambda>(name, x) b.
             result_bind (charge_decoded_span lm (text_len name) sp (path @ [VariantSegment variant]) b) (\<lambda>b.
             result_bind (clone_default lm sp x (path @ [VariantSegment variant, FieldSegment name]) (depth + 1) b)
               (\<lambda>(y, b).
             result_bind (charge_decoded_span lm (text_len name) sp (path @ [VariantSegment variant]) b)
               (\<lambda>b. Inr ((name, y), b))))) fs b)
           (\<lambda>(output, b). Inr (ChoiceValue qualifier variant output, b)))))))"
  by pat_completeness auto

termination
  by (relation "measure (\<lambda>(_, _, v, _). size v)") (auto intro: size_members)

text \<open>The second loop of \<open>complete_record\<close>, over the declared fields and the slots; \<open>cv\<close> is the
  completion of a nested value.\<close>

definition complete_fields ::
  "limits \<Rightarrow> completion_context \<Rightarrow> record_context \<Rightarrow> mon_path \<Rightarrow> nat
   \<Rightarrow> (mon_value \<Rightarrow> prepared_type \<Rightarrow> mon_path \<Rightarrow> budget \<Rightarrow> (mon_stop, mon_value \<times> budget) result)
   \<Rightarrow> (mon_value option \<times> prepared_field) list \<Rightarrow> budget
   \<Rightarrow> (mon_stop, (utext \<times> mon_value) list \<times> budget) result" where
  "complete_fields lm ctx rc path depth cv slots b =
     collect_each (\<lambda>(supplied, field) b.
       result_bind (charge_decoded_at lm (text_len (prepared_name field)) path b) (\<lambda>b.
       let field_path = path @ [FieldSegment (prepared_name field)] in
       result_bind
         (case supplied of
            Some v \<Rightarrow> cv v (prepared_ty field) field_path b
          | None \<Rightarrow>
              (case prepared_default field of
                 Some dflt \<Rightarrow>
                   result_bind (charge_default_at lm field_path b) (\<lambda>b.
                     lift_failure (clone_default lm None dflt field_path (depth + 1) b))
               | None \<Rightarrow> Inl (value_error ctx (if rc = ChoiceContext then Arity else MissingField) field_path)))
         (\<lambda>(v, b). Inr ((prepared_name field, v), b)))) slots b"

lemma complete_fields_cong [fundef_cong]:
  assumes "slots = slots'" "b = b'"
    and "\<And>v field p c. (Some v, field) \<in> set slots' \<Longrightarrow>
      cv v (prepared_ty field) p c = cv' v (prepared_ty field) p c"
  shows "complete_fields lm ctx rc path depth cv slots b =
    complete_fields lm ctx rc path depth cv' slots' b'"
  unfolding complete_fields_def assms(1,2)
  by (rule collect_each_cong [OF refl refl])
     (auto simp: Let_def assms(3) split: option.split intro!: result_bind_cong)

definition choice_qualifier_check ::
  "unicode \<Rightarrow> limits \<Rightarrow> completion_context \<Rightarrow> utext option \<Rightarrow> utext \<Rightarrow> mon_path \<Rightarrow> budget
   \<Rightarrow> (mon_stop, budget) result" where
  "choice_qualifier_check u lm ctx qualifier name path b =
     (case qualifier of
        None \<Rightarrow> Inr b
      | Some q \<Rightarrow>
          if \<not> is_identifier u q \<or> is_reserved_user_name q
          then Inl (value_error ctx InvalidIdentifier path)
          else if q \<noteq> name then
            result_bind (charge_decoded_at lm (text_len q) path b)
              (\<lambda>b. Inl (value_error ctx QualifierMismatch path))
          else charge_decoded_at lm (text_len q) path b)"

text \<open>One entry of the map loop, up to the completion of its value.\<close>

definition admit_map_key ::
  "limits \<Rightarrow> completion_context \<Rightarrow> mon_path \<Rightarrow> nat \<Rightarrow> mon_value \<Rightarrow> map_key_index \<Rightarrow> budget
   \<Rightarrow> (mon_stop, map_key_index \<times> budget) result" where
  "admit_map_key lm ctx path i key seen b =
     (let entry_path = path @ [IndexSegment i] in
      case contains_value seen key of
        None \<Rightarrow> Inl (value_error ctx InvalidMapKey path)
      | Some True \<Rightarrow>
          result_bind (charge_decoded_at lm (map_key_name_len key) entry_path b)
            (\<lambda>b. Inl (value_error ctx DuplicateMapKey (path @ [MapKeySegment (map_key_name key)])))
      | Some False \<Rightarrow>
          result_bind (charge_nodes_at lm 1 entry_path b) (\<lambda>b.
          result_bind (case key of
              StringValue s \<Rightarrow> charge_decoded_at lm (text_len s) entry_path b
            | _ \<Rightarrow> Inr b)
            (\<lambda>b. Inr (insert_value seen key, b))))"

lemma supplied_value_size:
  assumes "supply_fields u lm ctx rc fs path given (replicate n None) b = Inr (slots, b')"
    and "(Some v, field) \<in> set (zip slots ds)"
  shows "size v < Suc (size_list (size_prod (\<lambda>_. 0) size) given)"
proof -
  have "Some v \<in> set slots" using assms(2) by (auto dest: set_zip_leftD)
  then have "v \<in> snd ` set given" using supply_fields_values [OF assms(1), of v] by auto
  then show ?thesis by (auto intro: size_field_member)
qed

function complete_value ::
  "unicode \<Rightarrow> limits \<Rightarrow> completion_context \<Rightarrow> mon_value \<Rightarrow> prepared_type \<Rightarrow> mon_path \<Rightarrow> nat \<Rightarrow> budget
   \<Rightarrow> (mon_stop, mon_value \<times> budget) result" where
  "complete_value u lm ctx v ty path depth b =
     result_bind (check_depth_at lm depth path) (\<lambda>_.
     case ty of
       OptionalPrepared inner \<Rightarrow>
         if v = NoneValue then result_bind (charge_nodes_at lm 1 path b) (\<lambda>b. Inr (NoneValue, b))
         else complete_value u lm ctx v inner path depth b
     | _ \<Rightarrow>
     result_bind (charge_nodes_at lm 1 path b) (\<lambda>b.
     case (v, ty) of
       (NoneValue, NonePrepared) \<Rightarrow> Inr (NoneValue, b)
     | (NoneValue, _) \<Rightarrow> Inl (value_error ctx TypeMismatch path)
     | (BoolValue x, BoolPrepared) \<Rightarrow> Inr (BoolValue x, b)
     | (CharValue c, CharPrepared) \<Rightarrow>
         result_bind (charge_decoded_at lm (len_utf8 c) path b) (\<lambda>b. Inr (CharValue c, b))
     | (StringValue s, StringPrepared) \<Rightarrow>
         result_bind (charge_decoded_at lm (text_len s) path b) (\<lambda>b. Inr (StringValue s, b))
     | (_, FixedPrepared scalar) \<Rightarrow>
         if fixed_scalar_of v \<noteq> Some scalar then Inl (value_error ctx TypeMismatch path)
         else result_bind (ok_or (materialize_fixed_value v scalar) (value_error ctx NonFiniteFloat path))
                (\<lambda>w. Inr (w, b))
     | (IntegerValue s, IntegerPrepared) \<Rightarrow>
         result_bind (charge_decoded_at lm (text_len s) path b) (\<lambda>b.
         result_bind (validate_integer_text lm ctx s path b) (\<lambda>b. Inr (IntegerValue s, b)))
     | (DecimalValue s, DecimalPrepared scale) \<Rightarrow>
         result_bind (charge_decoded_at lm (text_len s) path b) (\<lambda>b.
         result_bind (validate_decimal_text lm ctx s scale path b) (\<lambda>b. Inr (DecimalValue s, b)))
     | (RecordValue given, RecordPrepared fs) \<Rightarrow>
         result_bind (supply_fields u lm ctx RecordContext fs path given
                        (replicate (length (declared_fields fs)) None) b) (\<lambda>(slots, b).
         result_bind (complete_fields lm ctx RecordContext path depth
                        (\<lambda>x t p b. complete_value u lm ctx x t p (depth + 1) b)
                        (zip slots (declared_fields fs)) b)
           (\<lambda>(completed, b). Inr (RecordValue completed, b)))
     | (RecordValue given, StructPrepared _ fs) \<Rightarrow>
         result_bind (supply_fields u lm ctx RecordContext fs path given
                        (replicate (length (declared_fields fs)) None) b) (\<lambda>(slots, b).
         result_bind (complete_fields lm ctx RecordContext path depth
                        (\<lambda>x t p b. complete_value u lm ctx x t p (depth + 1) b)
                        (zip slots (declared_fields fs)) b)
           (\<lambda>(completed, b). Inr (RecordValue completed, b)))
     | (CollectionValue vs, CollectionPrepared element) \<Rightarrow>
         result_bind (collect_each (\<lambda>(i, x) b.
             complete_value u lm ctx x element (path @ [IndexSegment i]) (depth + 1) b) (enumerate 0 vs) b)
           (\<lambda>(completed, b). Inr (CollectionValue completed, b))
     | (MapValue entries, MapPrepared key value_ty) \<Rightarrow>
         (case map_key_index_new key of
            None \<Rightarrow> Inl KeyIndexPanic
          | Some empty_index \<Rightarrow>
              result_bind (collect_each (\<lambda>(i, k, x) (seen, b).
                  result_bind (complete_value u lm ctx k key (path @ [IndexSegment i]) (depth + 1) b)
                    (\<lambda>(k, b).
                  result_bind (admit_map_key lm ctx path i k seen b) (\<lambda>(seen, b).
                  result_bind (complete_value u lm ctx x value_ty (path @ [IndexSegment i]) (depth + 1) b)
                    (\<lambda>(y, b). Inr ((k, y), (seen, b)))))) (enumerate 0 entries) (empty_index, b))
                (\<lambda>(completed, _, b). Inr (MapValue completed, b)))
     | (ChoiceValue qualifier variant given, ChoicePrepared name variants) \<Rightarrow>
         result_bind (choice_qualifier_check u lm ctx qualifier name path b) (\<lambda>b.
         result_bind (charge_decoded_at lm (text_len variant) path b) (\<lambda>b.
         if \<not> is_identifier u variant \<or> is_reserved_user_name variant
         then Inl (value_error ctx InvalidIdentifier (path @ [VariantSegment variant]))
         else
           (case variants_find variants variant of
              None \<Rightarrow> Inl (value_error ctx UnknownVariant path)
            | Some index \<Rightarrow>
                (let fs = prepared_variant_fields (declared_variants variants ! index);
                     variant_path = path @ [VariantSegment variant]
                 in result_bind (supply_fields u lm ctx ChoiceContext fs variant_path given
                                   (replicate (length (declared_fields fs)) None) b) (\<lambda>(slots, b).
                    result_bind (complete_fields lm ctx ChoiceContext variant_path depth
                                   (\<lambda>x t p b. complete_value u lm ctx x t p (depth + 1) b)
                                   (zip slots (declared_fields fs)) b)
                      (\<lambda>(completed, b). Inr (ChoiceValue qualifier variant completed, b)))))))
     | (CollectionValue _, MapPrepared _ _) \<Rightarrow> Inl (value_error ctx MapKind path)
     | (MapValue _, CollectionPrepared _) \<Rightarrow> Inl (value_error ctx MapKind path)
     | _ \<Rightarrow> Inl (value_error ctx TypeMismatch path)))"
  by pat_completeness auto

termination
  by (relation "measures [\<lambda>(_, _, _, v, _). size v, \<lambda>(_, _, _, _, ty, _). size ty]")
     (auto intro: size_members supplied_value_size)

definition validate_and_complete_value ::
  "unicode \<Rightarrow> mon_value \<Rightarrow> prepared_type \<Rightarrow> limits \<Rightarrow> (mon_stop, mon_value) result" where
  "validate_and_complete_value u v ty lm =
     result_bind (complete_value u lm InputContext v ty [] 0 budget_new) (\<lambda>(completed, _). Inr completed)"

section \<open>Preparation\<close>

definition accepts_none :: "prepared_type \<Rightarrow> bool" where
  "accepts_none ty = (case ty of NonePrepared \<Rightarrow> True | OptionalPrepared _ \<Rightarrow> True | _ \<Rightarrow> False)"

definition is_supported_map_key :: "prepared_type \<Rightarrow> bool" where
  "is_supported_map_key ty =
     (case ty of
        StringPrepared \<Rightarrow> True
      | BoolPrepared \<Rightarrow> True
      | CharPrepared \<Rightarrow> True
      | FixedPrepared scalar \<Rightarrow> scalar_class scalar \<noteq> BinaryFloat
      | _ \<Rightarrow> False)"

definition validate_identifier :: "unicode \<Rightarrow> utext \<Rightarrow> mon_path \<Rightarrow> (mon_stop, unit) result" where
  "validate_identifier u name path =
     (if \<not> is_identifier u name then Inl (schema_error InvalidSchema path)
      else if is_reserved_user_name name then Inl (schema_error InvalidSchema path)
      else Inr ())"

text \<open>The adjacent-pair loop of \<open>duplicate_candidates\<close> over the sorted slots.\<close>

fun earliest_duplicate :: "(nat \<Rightarrow> utext) \<Rightarrow> nat option \<Rightarrow> nat list \<Rightarrow> nat option" where
  "earliest_duplicate name_of duplicate (previous # current # slots) =
     earliest_duplicate name_of
       (if name_of previous = name_of current
        then Some (case duplicate of None \<Rightarrow> current | Some earliest \<Rightarrow> min earliest current)
        else duplicate)
       (current # slots)"
| "earliest_duplicate name_of duplicate _ = duplicate"

definition duplicate_candidates ::
  "limits \<Rightarrow> utext list \<Rightarrow> budget \<Rightarrow> nat list \<times> nat option" where
  "duplicate_candidates lm names b =
     (let reachable = min (length names) (saturating_sub_usize (max_nodes lm) (nodes b));
          slots = sort_key (\<lambda>slot. (names ! slot, slot)) [0..<reachable]
      in (slots, earliest_duplicate (\<lambda>slot. names ! slot) None slots))"

definition prepare_field ::
  "unicode \<Rightarrow> limits \<Rightarrow> mon_path \<Rightarrow> nat
   \<Rightarrow> (schema_type \<Rightarrow> mon_path \<Rightarrow> budget \<Rightarrow> (mon_stop, prepared_type \<times> budget) result)
   \<Rightarrow> schema_field \<Rightarrow> budget \<Rightarrow> (mon_stop, prepared_field \<times> budget) result" where
  "prepare_field u lm path depth pt field b =
     (let field_path = path @ [FieldSegment (field_name field)] in
      result_bind (pt (field_type field) field_path b) (\<lambda>(ty, b).
      case field_default field of
        None \<Rightarrow> Inr (PreparedField (field_name field) ty None, b)
      | Some v \<Rightarrow>
          result_bind (complete_value u lm DefaultContext v ty field_path depth b) (\<lambda>(completed, b).
            Inr (PreparedField (field_name field) ty (Some completed), b))))"

definition prepare_fields ::
  "unicode \<Rightarrow> limits \<Rightarrow> mon_path \<Rightarrow> bool \<Rightarrow> nat
   \<Rightarrow> (schema_type \<Rightarrow> mon_path \<Rightarrow> budget \<Rightarrow> (mon_stop, prepared_type \<times> budget) result)
   \<Rightarrow> schema_field list \<Rightarrow> budget \<Rightarrow> (mon_stop, prepared_fields \<times> budget) result" where
  "prepare_fields u lm path allow_defaults depth pt fs b =
     (case duplicate_candidates lm (map field_name fs) b of
        (slots, duplicate_slot) \<Rightarrow>
          result_bind (collect_each (\<lambda>(slot, field) b.
              result_bind (charge_nodes_at lm 1 path b) (\<lambda>b.
              result_bind (charge_decoded_at lm (text_len (field_name field)) path b) (\<lambda>b.
              result_bind (validate_identifier u (field_name field) path) (\<lambda>_.
              let field_path = path @ [FieldSegment (field_name field)] in
              if duplicate_slot = Some slot then Inl (schema_error DuplicateField field_path)
              else if \<not> allow_defaults \<and> field_default field \<noteq> None
              then Inl (schema_error InvalidSchema field_path)
              else prepare_field u lm path (depth + 1) pt field b)))) (enumerate 0 fs) b)
            (\<lambda>(prepared, b). Inr (PreparedFields prepared slots, b)))"

definition prepare_variants ::
  "unicode \<Rightarrow> limits \<Rightarrow> mon_path \<Rightarrow> nat
   \<Rightarrow> (schema_type \<Rightarrow> mon_path \<Rightarrow> budget \<Rightarrow> (mon_stop, prepared_type \<times> budget) result)
   \<Rightarrow> schema_variant list \<Rightarrow> budget \<Rightarrow> (mon_stop, prepared_variants \<times> budget) result" where
  "prepare_variants u lm path depth pt vs b =
     (case duplicate_candidates lm (map variant_name vs) b of
        (slots, duplicate_slot) \<Rightarrow>
          result_bind (collect_each (\<lambda>(slot, variant) b.
              result_bind (charge_decoded_at lm (text_len (variant_name variant)) path b) (\<lambda>b.
              result_bind (charge_nodes_at lm 1 path b) (\<lambda>b.
              let variant_path = path @ [VariantSegment (variant_name variant)] in
              if duplicate_slot = Some slot then Inl (schema_error InvalidSchema variant_path)
              else
                result_bind (validate_identifier u (variant_name variant) variant_path) (\<lambda>_.
                result_bind (prepare_fields u lm variant_path False depth pt (variant_fields variant) b)
                  (\<lambda>(prepared, b). Inr (PreparedVariant (variant_name variant) prepared, b))))))
              (enumerate 0 vs) b)
            (\<lambda>(prepared, b). Inr (PreparedVariants prepared slots, b)))"

lemma prepare_fields_cong [fundef_cong]:
  assumes "fs = fs'" "b = b'"
    and "\<And>field p c. field \<in> set fs' \<Longrightarrow> pt (field_type field) p c = pt' (field_type field) p c"
  shows "prepare_fields u lm path allow depth pt fs b = prepare_fields u lm path allow depth pt' fs' b'"
  unfolding prepare_fields_def prepare_field_def assms(1,2)
  by (auto simp: Let_def assms(3) dest: enumerate_member split: prod.split
      intro!: result_bind_cong collect_each_cong)

lemma prepare_variants_cong [fundef_cong]:
  assumes "vs = vs'" "b = b'"
    and "\<And>variant field p c. variant \<in> set vs' \<Longrightarrow> field \<in> set (variant_fields variant) \<Longrightarrow>
      pt (field_type field) p c = pt' (field_type field) p c"
  shows "prepare_variants u lm path depth pt vs b = prepare_variants u lm path depth pt' vs' b'"
  unfolding prepare_variants_def assms(1,2)
  by (auto simp: Let_def split: prod.split
      intro!: result_bind_cong collect_each_cong prepare_fields_cong assms(3) [OF enumerate_member])

lemma size_field_type:
  assumes "field \<in> set fs"
  shows "size (field_type field) < size_list size fs"
proof -
  have "size (field_type field) < size field" by (cases field) simp
  also have "size field \<le> size_list size fs" by (rule size_list_estimation' [OF assms]) simp
  finally show ?thesis .
qed

lemma size_variant_field_type:
  assumes "variant \<in> set vs" "field \<in> set (variant_fields variant)"
  shows "size (field_type field) < size_list size vs"
proof -
  have "size (field_type field) < size variant"
    using size_field_type [OF assms(2)] by (cases variant) simp
  also have "size variant \<le> size_list size vs" by (rule size_list_estimation' [OF assms(1)]) simp
  finally show ?thesis .
qed

function prepare_type ::
  "unicode \<Rightarrow> limits \<Rightarrow> schema_type \<Rightarrow> mon_path \<Rightarrow> nat \<Rightarrow> budget
   \<Rightarrow> (mon_stop, prepared_type \<times> budget) result" where
  "prepare_type u lm schema_type path depth b =
     result_bind (check_depth_at lm depth path) (\<lambda>_.
     result_bind (charge_nodes_at lm 1 path b) (\<lambda>b.
     case schema_type of
       NoneSchema \<Rightarrow> Inr (NonePrepared, b)
     | BoolSchema \<Rightarrow> Inr (BoolPrepared, b)
     | CharSchema \<Rightarrow> Inr (CharPrepared, b)
     | StringSchema \<Rightarrow> Inr (StringPrepared, b)
     | FixedSchema scalar \<Rightarrow> Inr (FixedPrepared scalar, b)
     | IntegerSchema \<Rightarrow> Inr (IntegerPrepared, b)
     | DecimalSchema scale \<Rightarrow>
         (case number_scale_new scale of
            Some scale \<Rightarrow> Inr (DecimalPrepared scale, b)
          | None \<Rightarrow> Inl (schema_error NumericScale path))
     | OptionalSchema inner \<Rightarrow>
         result_bind (prepare_type u lm inner path (depth + 1) b) (\<lambda>(inner, b).
           if accepts_none inner then Inl (schema_error InvalidSchema path)
           else Inr (OptionalPrepared inner, b))
     | RecordSchema fs \<Rightarrow>
         result_bind (prepare_fields u lm path True depth
                        (\<lambda>ty p b. prepare_type u lm ty p (depth + 1) b) fs b)
           (\<lambda>(prepared, b). Inr (RecordPrepared prepared, b))
     | StructSchema name fs \<Rightarrow>
         result_bind (charge_decoded_at lm (text_len name) path b) (\<lambda>b.
         result_bind (validate_identifier u name path) (\<lambda>_.
         result_bind (prepare_fields u lm path True depth
                        (\<lambda>ty p b. prepare_type u lm ty p (depth + 1) b) fs b)
           (\<lambda>(prepared, b). Inr (StructPrepared name prepared, b))))
     | CollectionSchema element \<Rightarrow>
         result_bind (prepare_type u lm element path (depth + 1) b) (\<lambda>(element, b).
           Inr (CollectionPrepared element, b))
     | MapSchema key val \<Rightarrow>
         result_bind (prepare_type u lm key path (depth + 1) b) (\<lambda>(key, b).
           if \<not> is_supported_map_key key then Inl (schema_error InvalidMapKey path)
           else result_bind (prepare_type u lm val path (depth + 1) b) (\<lambda>(val, b).
             Inr (MapPrepared key val, b)))
     | ChoiceSchema name vs \<Rightarrow>
         result_bind (charge_decoded_at lm (text_len name) path b) (\<lambda>b.
         result_bind (validate_identifier u name path) (\<lambda>_.
         result_bind (prepare_variants u lm path depth
                        (\<lambda>ty p b. prepare_type u lm ty p (depth + 1) b) vs b)
           (\<lambda>(prepared, b). Inr (ChoicePrepared name prepared, b))))
     | UnsupportedSchemaType name \<Rightarrow>
         result_bind (charge_decoded_at lm (text_len name) path b) (\<lambda>b.
         result_bind (validate_identifier u name path) (\<lambda>_.
           Inl (schema_error UnsupportedSchema path)))))"
  by pat_completeness auto

termination
  by (relation "measure (\<lambda>(_, _, ty, _). size ty)") (auto intro: less_SucI size_field_type size_variant_field_type)

definition prepare_schema :: "unicode \<Rightarrow> schema \<Rightarrow> (mon_stop, prepared_schema) result" where
  "prepare_schema u s =
     (if max_safe_depth < max_depth (schema_limits s) then Inl (schema_error DepthBudget [])
      else result_bind (prepare_type u (schema_limits s) (schema_root s) [] 0 budget_new) (\<lambda>(root, _).
        Inr \<lparr>prepared_root = root, prepared_limits = schema_limits s\<rparr>))"

declare clone_default.simps [simp del] complete_value.simps [simp del] prepare_type.simps [simp del]

end
