(* ===== verification/Mon_Names.thy ===== *)
theory Mon_Names
  imports Mon_Schema
begin

text \<open>
  The name indexes of prepared MON schemas: the duplicate search of preparation against the
  quadratic definition of a repeated name, and the binary search over the sorted slots, which both
  the field and the variant index provide as the interface \<open>name_index\<close>.
\<close>

section \<open>Repeated names\<close>

text \<open>The slot \<open>i\<close> repeats the name of an earlier slot.\<close>

definition repeats :: "'a list \<Rightarrow> nat \<Rightarrow> bool" where
  "repeats names i \<longleftrightarrow> i < length names \<and> names ! i \<in> set (take i names)"

lemma repeats_iff: "repeats names i \<longleftrightarrow> i < length names \<and> (\<exists>j < i. names ! j = names ! i)"
proof (cases "i < length names")
  case True
  then have "set (take i names) = (\<lambda>j. names ! j) ` {..<i}" using nth_image [of i names] by (auto simp: atLeast0LessThan)
  then have "names ! i \<in> set (take i names) \<longleftrightarrow> (\<exists>j < i. names ! j = names ! i)"
    by (metis (no_types, lifting) image_iff lessThan_iff)
  then show ?thesis using True by (simp add: repeats_def)
qed (simp add: repeats_def)

lemma distinct_iff_no_repeats: "distinct names \<longleftrightarrow> (\<forall>i. \<not> repeats names i)"
proof
  assume "distinct names"
  then show "\<forall>i. \<not> repeats names i" by (auto simp: distinct_conv_nth repeats_iff)
next
  assume r: "\<forall>i. \<not> repeats names i"
  show "distinct names"
    unfolding distinct_conv_nth
  proof (intro allI impI)
    fix i j
    assume "i < length names" "j < length names" "i \<noteq> j"
    then show "names ! i \<noteq> names ! j" using r unfolding repeats_iff by (cases "i < j") (metis, metis nat_neq_iff)
  qed
qed

text \<open>The least of a set of slots, as the code keeps it.\<close>

definition least_of :: "nat option \<Rightarrow> nat set \<Rightarrow> nat option" where
  "least_of d S =
     (if S = {} then d else Some (case d of None \<Rightarrow> Min S | Some e \<Rightarrow> min e (Min S)))"

lemma least_of_insert:
  assumes "finite S"
  shows "least_of (Some (case d of None \<Rightarrow> i | Some e \<Rightarrow> min e i)) S = least_of d (insert i S)"
  using assms by (cases "S = {}") (auto simp: least_of_def min.assoc split: option.split)

text \<open>The adjacent pairs of a list that agree.\<close>

fun adjacent_repeats :: "(nat \<Rightarrow> 'a) \<Rightarrow> nat list \<Rightarrow> nat set" where
  "adjacent_repeats f (a # b # slots) =
     (if f a = f b then insert b (adjacent_repeats f (b # slots)) else adjacent_repeats f (b # slots))"
| "adjacent_repeats f _ = {}"

lemma finite_adjacent [simp]: "finite (adjacent_repeats f slots)"
  by (induction f slots rule: adjacent_repeats.induct) auto

lemma earliest_duplicate_least: "earliest_duplicate f d slots = least_of d (adjacent_repeats f slots)"
proof (induction f d slots rule: earliest_duplicate.induct)
  case (1 f d a b slots)
  then show ?case by (simp add: least_of_insert)
qed (simp_all add: least_of_def)

lemma adjacent_repeats_sorted:
  assumes "sorted_wrt (\<lambda>a b. (f a, a) < (f b, b)) slots"
  shows "adjacent_repeats f slots = {b \<in> set slots. \<exists>a \<in> set slots. a < b \<and> f a = (f b :: 'a :: linorder)}"
  using assms
proof (induction slots rule: induct_list012)
  case (3 a b slots)
  have ab: "f a \<le> f b" "f a = f b \<Longrightarrow> a < b" using 3(3) by auto
  have later: "f b \<le> f c" "f b = f c \<Longrightarrow> b < c" if "c \<in> set slots" for c using 3(3) that by auto
  have IH: "adjacent_repeats f (b # slots) = {c \<in> set (b # slots). \<exists>d \<in> set (b # slots). d < c \<and> f d = f c}"
    using 3 by simp
  have b: "(\<exists>d \<in> set (a # b # slots). d < b \<and> f d = f b) \<longleftrightarrow> f a = f b"
  proof
    assume "\<exists>d \<in> set (a # b # slots). d < b \<and> f d = f b"
    then obtain d where d: "d \<in> set (a # b # slots)" "d < b" "f d = f b" by blast
    moreover have "d \<notin> set slots" using later(2) [of d] d(2,3) by fastforce
    ultimately show "f a = f b" by auto
  next
    assume "f a = f b"
    then show "\<exists>d \<in> set (a # b # slots). d < b \<and> f d = f b" using ab(2) by auto
  qed
  have c: "(\<exists>d \<in> set (a # b # slots). d < c \<and> f d = f c) \<longleftrightarrow> (\<exists>d \<in> set (b # slots). d < c \<and> f d = f c)"
    if c: "c \<in> set slots" for c
  proof
    assume "\<exists>d \<in> set (a # b # slots). d < c \<and> f d = f c"
    then obtain d where d: "d \<in> set (a # b # slots)" "d < c" "f d = f c" by blast
    show "\<exists>d \<in> set (b # slots). d < c \<and> f d = f c"
    proof (cases "d = a")
      case True
      then have "f b = f c" using ab(1) later(1) [OF c] d(3) by simp
      then show ?thesis using later(2) [OF c] by auto
    qed (use d in auto)
  qed auto
  have a: "\<not> (\<exists>d \<in> set (a # b # slots). d < a \<and> f d = f a)"
  proof
    assume "\<exists>d \<in> set (a # b # slots). d < a \<and> f d = f a"
    then obtain d where d: "d \<in> set (b # slots)" "d < a" "f d = f a" by auto
    have "f b \<le> f d" using d(1) later(1) by auto
    then have "f a = f b" using ab(1) d(3) by simp
    then have "a < b" "f b = f d" using ab(2) d(3) by simp_all
    then have "b \<le> d" using d(1) later(2) [of d] by auto
    then show False using \<open>a < b\<close> d(2) by simp
  qed
  have b0: "\<not> (\<exists>d \<in> set (b # slots). d < b \<and> f d = f b)"
    using later(2) by fastforce
  show ?case
  proof (rule set_eqI)
    fix c
    consider "c = a" "c \<noteq> b" | "c = b" | "c \<in> set slots" "c \<noteq> b" | "c \<notin> set (a # b # slots)" by auto
    then show "c \<in> adjacent_repeats f (a # b # slots) \<longleftrightarrow>
        c \<in> {e \<in> set (a # b # slots). \<exists>d \<in> set (a # b # slots). d < e \<and> f d = f e}"
    proof cases
      case 1
      have "a \<notin> set slots" using 3(3) by auto
      then show ?thesis using a 1 IH by auto
    next
      case 2
      then show ?thesis using b b0 IH by auto
    next
      case 3
      have "c \<in> adjacent_repeats f (a # b # slots) \<longleftrightarrow> c \<in> adjacent_repeats f (b # slots)" using 3(2) by simp
      also have "\<dots> \<longleftrightarrow> (\<exists>d \<in> set (b # slots). d < c \<and> f d = f c)" unfolding IH using 3(1) by simp
      also have "\<dots> \<longleftrightarrow> (\<exists>d \<in> set (a # b # slots). d < c \<and> f d = f c)" by (rule c [OF 3(1), symmetric])
      finally show ?thesis using 3(1) by simp
    next
      case 4
      then show ?thesis using IH by auto
    qed
  qed
qed auto

lemma sorted_slots:
  fixes names :: "utext list"
  defines "key \<equiv> \<lambda>slot. (names ! slot, slot)"
  shows "sorted_wrt (\<lambda>a b. key a < key b) (sort_key key [0..<n])"
proof -
  have "inj_on key {0..<n}" by (auto simp: key_def inj_on_def)
  then have "distinct (map key (sort_key key [0..<n]))" by (simp add: distinct_map)
  moreover have "sorted (map key (sort_key key [0..<n]))" by simp
  ultimately have "sorted_wrt (<) (map key (sort_key key [0..<n]))"
    by (simp add: strict_sorted_iff)
  then show ?thesis by (simp add: sorted_wrt_map)
qed

lemma duplicate_candidates_all:
  assumes "length names \<le> max_nodes lm - nodes b"
  shows "duplicate_candidates lm names b =
    (sort_key (\<lambda>slot. (names ! slot, slot)) [0..<length names],
     if distinct names then None else Some (LEAST i. repeats names i))"
proof -
  define slots where "slots = sort_key (\<lambda>slot. (names ! slot, slot)) [0..<length names]"
  have r: "min (length names) (saturating_sub_usize (max_nodes lm) (nodes b)) = length names"
    using assms by (auto simp: saturating_sub_usize_def)
  have "adjacent_repeats (\<lambda>slot. names ! slot) slots =
      {j \<in> set slots. \<exists>i \<in> set slots. i < j \<and> names ! i = names ! j}"
    unfolding slots_def by (rule adjacent_repeats_sorted [OF sorted_slots])
  also have "\<dots> = {i. repeats names i}" by (auto simp: slots_def repeats_iff)
  finally have a: "adjacent_repeats (\<lambda>slot. names ! slot) slots = {i. repeats names i}" .
  have f: "finite {i. repeats names i}" unfolding a [symmetric] by simp
  have "earliest_duplicate (\<lambda>slot. names ! slot) None slots =
      (if distinct names then None else Some (LEAST i. repeats names i))"
  proof (cases "distinct names")
    case True
    then show ?thesis unfolding earliest_duplicate_least a by (simp add: least_of_def distinct_iff_no_repeats)
  next
    case False
    then have "{i. repeats names i} \<noteq> {}" by (auto simp: distinct_iff_no_repeats)
    then show ?thesis unfolding earliest_duplicate_least a using False f by (simp add: least_of_def Least_Min [OF f])
  qed
  then show ?thesis by (simp add: duplicate_candidates_def r Let_def slots_def)
qed

section \<open>Binary search\<close>

lemma find_slot_sound: "find_slot lookup f name low high = Some i \<Longrightarrow> low \<le> high \<Longrightarrow> high \<le> length lookup \<Longrightarrow>
    i \<in> set lookup \<and> f i = name"
proof (induction lookup f name low high rule: find_slot.induct)
  case (1 lookup f name low high)
  show ?case
  proof (cases "low < high")
    case True
    define mid where "mid = low + (high - low) div 2"
    have m: "low \<le> mid" "mid < high" using True by (auto simp: mid_def)
    show ?thesis
    proof (cases "f (lookup ! mid) < name")
      case True
      then have "find_slot lookup f name (mid + 1) high = Some i"
        using 1(3) \<open>low < high\<close> by (subst (asm) find_slot.simps) (simp add: Let_def mid_def [symmetric])
      from 1(1) [OF \<open>low < high\<close> mid_def refl _ this] True m 1(5) show ?thesis by simp
    next
      case ge: False
      show ?thesis
      proof (cases "name < f (lookup ! mid)")
        case True
        then have "find_slot lookup f name low mid = Some i"
          using 1(3) \<open>low < high\<close> ge by (subst (asm) find_slot.simps) (simp add: Let_def mid_def [symmetric])
        from 1(2) [OF \<open>low < high\<close> mid_def refl ge True this] m 1(5) show ?thesis by simp
      next
        case False
        then have "i = lookup ! mid" "f (lookup ! mid) = name"
          using 1(3) \<open>low < high\<close> ge by (subst (asm) find_slot.simps; auto simp: Let_def mid_def [symmetric])+
        then show ?thesis using m 1(5) by simp
      qed
    qed
  next
    case False
    then show ?thesis using 1(3) by (subst (asm) find_slot.simps) simp
  qed
qed

lemma find_slot_complete:
  assumes "sorted_wrt (\<lambda>a b. f a < f b) lookup" "low \<le> k" "k < high" "high \<le> length lookup"
  shows "find_slot lookup f (f (lookup ! k)) low high = Some (lookup ! k)"
  using assms(2-4)
proof (induction "high - low" arbitrary: low high rule: less_induct)
  case less
  define mid where "mid = low + (high - low) div 2"
  have m: "low \<le> mid" "mid < high" using less.prems by (auto simp: mid_def)
  have mono: "f (lookup ! i) < f (lookup ! j)" if "i < j" "j < length lookup" for i j
    using sorted_wrt_nth_less [OF assms(1) that] .
  consider "k < mid" | "k = mid" | "mid < k" by linarith
  then show ?case
  proof cases
    case 1
    then have "f (lookup ! k) < f (lookup ! mid)" using m less.prems by (intro mono) auto
    moreover have "find_slot lookup f (f (lookup ! k)) low mid = Some (lookup ! k)"
      using m 1 less.prems by (intro less.hyps) auto
    ultimately show ?thesis using m less.prems
      by (subst find_slot.simps) (auto simp: Let_def mid_def [symmetric])
  next
    case 2
    then show ?thesis using m less.prems by (subst find_slot.simps) (simp add: Let_def mid_def [symmetric])
  next
    case 3
    then have "f (lookup ! mid) < f (lookup ! k)" using less.prems by (intro mono) auto
    moreover have "find_slot lookup f (f (lookup ! k)) (mid + 1) high = Some (lookup ! k)"
      using m 3 less.prems by (intro less.hyps) auto
    ultimately show ?thesis using m less.prems
      by (subst find_slot.simps) (auto simp: Let_def mid_def [symmetric])
  qed
qed

end
