(* ===== verification/Mon_Typing.thy ===== *)
theory Mon_Typing
  imports Mon_Names
begin

text \<open>
  What a prepared MON schema and its values look like: the well-formedness of prepared types (exact
  name indexes, user-chosen names, typed defaults) and the typing of values against them, with the
  meaning of completing a value, and the proof that completion, which never panics, gives typed values
  that complete the given ones.
\<close>

section \<open>Name indexes\<close>

text \<open>What the code relies on when it looks up a name.\<close>

locale name_index =
  fixes ok :: "'a \<Rightarrow> bool" and names :: "'a \<Rightarrow> utext list" and find :: "'a \<Rightarrow> utext \<Rightarrow> nat option"
  assumes distinct_names: "ok x \<Longrightarrow> distinct (names x)"
    and find_iff: "ok x \<Longrightarrow> find x name = Some i \<longleftrightarrow> i < length (names x) \<and> names x ! i = name"
begin

lemma find_nth: "ok x \<Longrightarrow> i < length (names x) \<Longrightarrow> find x (names x ! i) = Some i"
  by (simp add: find_iff)

lemma find_None: "ok x \<Longrightarrow> find x name = None \<longleftrightarrow> name \<notin> set (names x)"
  using find_iff [of x name] by (cases "find x name") (auto simp: in_set_conv_nth)

lemma find_SomeD: "ok x \<Longrightarrow> find x name = Some i \<Longrightarrow> i < length (names x) \<and> names x ! i = name"
  by (simp add: find_iff)

end

definition index_ok :: "utext list \<Rightarrow> nat list \<Rightarrow> bool" where
  "index_ok names lookup \<longleftrightarrow>
     distinct names \<and> lookup = sort_key (\<lambda>slot. (names ! slot, slot)) [0..<length names]"

lemma find_slot_index:
  assumes "index_ok names lookup" "\<And>i. i < length names \<Longrightarrow> f i = names ! i"
  shows "find_slot lookup f name 0 (length lookup) = Some i \<longleftrightarrow> i < length names \<and> names ! i = name"
proof -
  have s: "set lookup = {0..<length names}" using assms(1) by (simp add: index_ok_def)
  show ?thesis
  proof
    assume "find_slot lookup f name 0 (length lookup) = Some i"
    then have "i \<in> set lookup \<and> f i = name" using find_slot_sound [of lookup f name 0 "length lookup" i] by simp
    then show "i < length names \<and> names ! i = name" using s assms(2) by auto
  next
    assume i: "i < length names \<and> names ! i = name"
    have "sorted_wrt (\<lambda>a b. (names ! a, a) < (names ! b, b)) lookup"
      using assms(1) sorted_slots [of names "length names"] by (simp add: index_ok_def)
    then have "sorted_wrt (\<lambda>a b. f a < f b) lookup"
    proof (rule sorted_wrt_mono_rel [rotated])
      fix a b
      assume ab: "a \<in> set lookup" "b \<in> set lookup" "(names ! a, a) < (names ! b, b)"
      then have "a < length names" "b < length names" "a \<noteq> b" using s by auto
      then have "names ! a \<noteq> names ! b" using assms(1) by (simp add: index_ok_def nth_eq_iff_index_eq)
      then show "f a < f b" using ab(3) \<open>a < length names\<close> \<open>b < length names\<close> assms(2) by auto
    qed
    moreover obtain k where k: "k < length lookup" "lookup ! k = i" using i s by (metis atLeastLessThan_iff in_set_conv_nth zero_le)
    ultimately have "find_slot lookup f (f (lookup ! k)) 0 (length lookup) = Some (lookup ! k)"
      by (intro find_slot_complete) auto
    then show "find_slot lookup f name 0 (length lookup) = Some i" using k i assms(2) by simp
  qed
qed

definition field_names :: "prepared_fields \<Rightarrow> utext list" where
  "field_names fs = map prepared_name (declared_fields fs)"

definition variant_names :: "prepared_variants \<Rightarrow> utext list" where
  "variant_names vs = map prepared_variant_name (declared_variants vs)"

interpretation field_index: name_index "\<lambda>fs. index_ok (field_names fs) (field_lookup fs)" field_names fields_find
proof unfold_locales
  fix fs name i
  assume ok: "index_ok (field_names fs) (field_lookup fs)"
  show "distinct (field_names fs)" using ok by (simp add: index_ok_def)
  show "fields_find fs name = Some i \<longleftrightarrow> i < length (field_names fs) \<and> field_names fs ! i = name"
    unfolding fields_find_def by (rule find_slot_index [OF ok]) (simp add: field_names_def)
qed

interpretation variant_index: name_index "\<lambda>vs. index_ok (variant_names vs) (variant_lookup vs)" variant_names variants_find
proof unfold_locales
  fix vs name i
  assume ok: "index_ok (variant_names vs) (variant_lookup vs)"
  show "distinct (variant_names vs)" using ok by (simp add: index_ok_def)
  show "variants_find vs name = Some i \<longleftrightarrow> i < length (variant_names vs) \<and> variant_names vs ! i = name"
    unfolding variants_find_def by (rule find_slot_index [OF ok]) (simp add: variant_names_def)
qed

section \<open>Typed values\<close>

definition integer_text :: "utext \<Rightarrow> bool" where
  "integer_text s =
     (case parse_numeric_literal (utf8 (unsigned_numeric_text s)) of
        Inr parsed \<Rightarrow> literal_kind parsed = WholeNumber | Inl _ \<Rightarrow> False)"

definition decimal_text :: "number_scale \<Rightarrow> utext \<Rightarrow> bool" where
  "decimal_text scale s =
     (case parse_numeric_literal (utf8 (unsigned_numeric_text s)) of
        Inr parsed \<Rightarrow> effective_decimal_scale (normalized_text parsed) \<le> scale_get scale | Inl _ \<Rightarrow> False)"

fun payload_ok :: "fixed_payload \<Rightarrow> bool" where
  "payload_ok (PayloadF16 x) \<longleftrightarrow> f64_is_finite x \<and> precision_round Binary16 x = x"
| "payload_ok (PayloadF32 x) \<longleftrightarrow> f64_is_finite x \<and> precision_round Binary32 x = x"
| "payload_ok (PayloadF64 x) \<longleftrightarrow> f64_is_finite x \<and> precision_round Binary64 x = x"
| "payload_ok _ \<longleftrightarrow> True"

definition fields_of_variant :: "prepared_variants \<Rightarrow> nat \<Rightarrow> prepared_field list" where
  "fields_of_variant variants index = declared_fields (prepared_variant_fields (declared_variants variants ! index))"

lemma size_zip_field:
  "(nv, field) \<in> set (zip given ds) \<Longrightarrow>
     size (snd nv :: mon_value) < Suc (size_list (size_prod (\<lambda>_. 0) size) given)"
  by (cases nv) (auto dest: set_zip_leftD intro: size_field_member)

text \<open>A value of a prepared type: complete, in declaration order, with distinct map keys.\<close>

function typed :: "mon_value \<Rightarrow> prepared_type \<Rightarrow> bool" where
  "typed v ty =
     (case ty of
        NonePrepared \<Rightarrow> v = NoneValue
      | BoolPrepared \<Rightarrow> (case v of BoolValue _ \<Rightarrow> True | _ \<Rightarrow> False)
      | CharPrepared \<Rightarrow> (case v of CharValue _ \<Rightarrow> True | _ \<Rightarrow> False)
      | StringPrepared \<Rightarrow> (case v of StringValue _ \<Rightarrow> True | _ \<Rightarrow> False)
      | IntegerPrepared \<Rightarrow> (case v of IntegerValue s \<Rightarrow> integer_text s | _ \<Rightarrow> False)
      | DecimalPrepared scale \<Rightarrow> (case v of DecimalValue s \<Rightarrow> decimal_text scale s | _ \<Rightarrow> False)
      | FixedPrepared scalar \<Rightarrow> (case v of FixedValue p \<Rightarrow> payload_scalar p = scalar \<and> payload_ok p | _ \<Rightarrow> False)
      | OptionalPrepared inner \<Rightarrow> v = NoneValue \<or> typed v inner
      | RecordPrepared fs \<Rightarrow>
          (case v of
             RecordValue given \<Rightarrow>
               map fst given = map prepared_name (declared_fields fs) \<and>
               list_all (\<lambda>(nv, field). typed (snd nv) (prepared_ty field)) (zip given (declared_fields fs))
           | _ \<Rightarrow> False)
      | StructPrepared _ fs \<Rightarrow>
          (case v of
             RecordValue given \<Rightarrow>
               map fst given = map prepared_name (declared_fields fs) \<and>
               list_all (\<lambda>(nv, field). typed (snd nv) (prepared_ty field)) (zip given (declared_fields fs))
           | _ \<Rightarrow> False)
      | CollectionPrepared element \<Rightarrow>
          (case v of CollectionValue vs \<Rightarrow> list_all (\<lambda>x. typed x element) vs | _ \<Rightarrow> False)
      | MapPrepared key val \<Rightarrow>
          (case v of
             MapValue entries \<Rightarrow>
               list_all (\<lambda>(k, x). typed k key \<and> typed x val) entries \<and> distinct (map fst entries)
           | _ \<Rightarrow> False)
      | ChoicePrepared name variants \<Rightarrow>
          (case v of
             ChoiceValue qualifier variant given \<Rightarrow>
               (qualifier = None \<or> qualifier = Some name) \<and>
               (case variants_find variants variant of
                  None \<Rightarrow> False
                | Some index \<Rightarrow>
                    map fst given = map prepared_name (fields_of_variant variants index) \<and>
                    list_all (\<lambda>(nv, field). typed (snd nv) (prepared_ty field))
                      (zip given (fields_of_variant variants index)))
           | _ \<Rightarrow> False))"
  by pat_completeness auto

termination
  by (relation "measures [\<lambda>(v, _). size v, \<lambda>(_, ty). size ty]")
     (auto intro: size_members size_zip_field less_SucI)

declare typed.simps [simp del]

section \<open>Completions\<close>

text \<open>What completing a value against a prepared type means, without budgets and failures: scalars and texts
  are kept, a float payload is rounded once, every declared field takes the completion of the value given
  under its name, or its default when there is none, and the members of containers are completed in place.\<close>

inductive completes :: "mon_value \<Rightarrow> prepared_type \<Rightarrow> mon_value \<Rightarrow> bool"
  and fields_completed :: "(utext \<times> mon_value) list \<Rightarrow> prepared_field list \<Rightarrow> (utext \<times> mon_value) list \<Rightarrow> bool" where
  none_completed: "completes NoneValue NonePrepared NoneValue"
| bool_completed: "completes (BoolValue x) BoolPrepared (BoolValue x)"
| char_completed: "completes (CharValue c) CharPrepared (CharValue c)"
| string_completed: "completes (StringValue s) StringPrepared (StringValue s)"
| integer_completed: "completes (IntegerValue s) IntegerPrepared (IntegerValue s)"
| decimal_completed: "completes (DecimalValue s) (DecimalPrepared scale) (DecimalValue s)"
| fixed_completed: "fixed_scalar_of v = Some scalar \<Longrightarrow> materialize_fixed_value v scalar = Some w \<Longrightarrow>
    completes v (FixedPrepared scalar) w"
| absent_completed: "completes NoneValue (OptionalPrepared inner) NoneValue"
| present_completed: "v \<noteq> NoneValue \<Longrightarrow> completes v inner w \<Longrightarrow> completes v (OptionalPrepared inner) w"
| record_completed: "fields_completed given (declared_fields fs) output \<Longrightarrow>
    completes (RecordValue given) (RecordPrepared fs) (RecordValue output)"
| struct_completed: "fields_completed given (declared_fields fs) output \<Longrightarrow>
    completes (RecordValue given) (StructPrepared name fs) (RecordValue output)"
| collection_completed: "list_all2 (\<lambda>x y. completes x element y) vs ws \<Longrightarrow>
    completes (CollectionValue vs) (CollectionPrepared element) (CollectionValue ws)"
| map_completed: "list_all2 (\<lambda>e e'. completes (fst e) key (fst e') \<and> completes (snd e) val (snd e')) entries output \<Longrightarrow>
    completes (MapValue entries) (MapPrepared key val) (MapValue output)"
| choice_completed: "variants_find variants variant = Some index \<Longrightarrow>
    fields_completed given (fields_of_variant variants index) output \<Longrightarrow>
    completes (ChoiceValue qualifier variant given) (ChoicePrepared name variants) (ChoiceValue qualifier variant output)"
| fields_completed: "distinct (map fst given) \<Longrightarrow> fst ` set given \<subseteq> prepared_name ` set ds \<Longrightarrow>
    list_all2 (\<lambda>field nv. fst nv = prepared_name field \<and>
      ((\<exists>x. map_of given (prepared_name field) = Some x \<and> completes x (prepared_ty field) (snd nv)) \<or>
       (map_of given (prepared_name field) = None \<and> prepared_default field = Some (snd nv)))) ds output \<Longrightarrow>
    fields_completed given ds output"

section \<open>Well-formed prepared types\<close>

fun wf_type :: "unicode \<Rightarrow> prepared_type \<Rightarrow> bool"
  and wf_fields :: "unicode \<Rightarrow> bool \<Rightarrow> prepared_fields \<Rightarrow> bool"
  and wf_field :: "unicode \<Rightarrow> bool \<Rightarrow> prepared_field \<Rightarrow> bool"
  and wf_variant :: "unicode \<Rightarrow> prepared_variant \<Rightarrow> bool" where
  "wf_type u (DecimalPrepared scale) \<longleftrightarrow> scale_ok scale"
| "wf_type u (OptionalPrepared inner) \<longleftrightarrow> wf_type u inner \<and> \<not> accepts_none inner"
| "wf_type u (RecordPrepared fs) \<longleftrightarrow> wf_fields u True fs"
| "wf_type u (StructPrepared name fs) \<longleftrightarrow> user_name u name \<and> wf_fields u True fs"
| "wf_type u (CollectionPrepared element) \<longleftrightarrow> wf_type u element"
| "wf_type u (MapPrepared key val) \<longleftrightarrow> is_supported_map_key key \<and> wf_type u val"
| "wf_type u (ChoicePrepared name (PreparedVariants vs lookup)) \<longleftrightarrow>
     user_name u name \<and> index_ok (map prepared_variant_name vs) lookup \<and> list_all (wf_variant u) vs"
| "wf_type u _ \<longleftrightarrow> True"
| "wf_fields u defaults (PreparedFields fs lookup) \<longleftrightarrow>
     index_ok (map prepared_name fs) lookup \<and> list_all (wf_field u defaults) fs"
| "wf_field u defaults (PreparedField name ty dflt) \<longleftrightarrow>
     user_name u name \<and> wf_type u ty \<and>
     (case dflt of None \<Rightarrow> True | Some v \<Rightarrow> defaults \<and> typed v ty)"
| "wf_variant u (PreparedVariant name fs) \<longleftrightarrow> user_name u name \<and> wf_fields u False fs"


section \<open>Charges\<close>

abbreviation on_success :: "('a \<Rightarrow> bool) \<Rightarrow> ('e, 'a) result \<Rightarrow> bool" where
  "on_success \<equiv> outcome (\<lambda>_. True)"

text \<open>The budget \<open>b\<close> is within the limits and no node charged before \<open>b0\<close> was given back.\<close>

definition grown :: "limits \<Rightarrow> budget \<Rightarrow> budget \<Rightarrow> bool" where
  "grown lm b0 b \<longleftrightarrow> within_limits lm b \<and> nodes b0 \<le> nodes b"

lemma outcome_with_path [simp]:
  "outcome E Q (with_path p r) = outcome (\<lambda>e. E (e\<lparr>error_path := p\<rparr>)) Q r"
  by (cases r) (simp_all add: with_path_def)

lemma charged_nodes:
  assumes "grown lm b0 b"
  shows "on_success (\<lambda>b'. grown lm b0 b' \<and> nodes b' = nodes b + n) (charge_nodes lm n sp b)"
  using assms by (auto simp: charge_nodes_def grown_def within_limits_def ok_or_def checked_usize_def)

lemma charged_decoded:
  assumes "grown lm b0 b"
  shows "on_success (\<lambda>b'. grown lm b0 b' \<and> nodes b' = nodes b) (charge_decoded_bytes lm n sp b)"
  using assms by (auto simp: charge_decoded_bytes_def grown_def within_limits_def ok_or_def checked_usize_def)

lemma charged_default:
  assumes "grown lm b0 b"
  shows "on_success (\<lambda>b'. grown lm b0 b' \<and> nodes b' = nodes b) (charge_default lm sp b)"
  using assms by (auto simp: charge_default_def grown_def within_limits_def ok_or_def checked_usize_def)

text \<open>What a step of preparation or completion gives: a result within \<open>Q\<close>, or a failure, and no panic.\<close>

abbreviation settles :: "('a \<Rightarrow> bool) \<Rightarrow> (mon_stop, 'a) result \<Rightarrow> bool" where
  "settles \<equiv> outcome is_failure"

lemma settles_lift: "on_success Q r \<Longrightarrow> settles Q (lift_failure (with_path path r))"
  by (cases r) (simp_all add: lift_failure_def with_path_def)

lemma reported_failures [simp]:
  "is_failure (schema_error c path)" "is_failure (value_error ctx c path)" "is_failure (numeric_value_error ctx path)"
  by (simp_all add: numeric_value_error_def value_error_def schema_error_def split: completion_context.split)

lemma charges:
  assumes "grown lm b0 b"
  shows "settles (grown lm b0) (charge_nodes_at lm n path b)"
    "settles (grown lm b0) (charge_decoded_at lm n path b)"
    "settles (grown lm b0) (charge_default_at lm path b)"
  unfolding charge_nodes_at_def charge_decoded_at_def charge_default_at_def
  by (rule settles_lift, rule outcome_mono [OF charged_nodes [OF assms]] outcome_mono [OF charged_decoded [OF assms]]
      outcome_mono [OF charged_default [OF assms]], simp)+

lemma settles_bind_charge:
  assumes "grown lm b0 b" "\<And>b'. grown lm b0 b' \<Longrightarrow> settles Q (f b')"
  shows "settles Q (result_bind (charge_nodes_at lm n path b) f)"
    "settles Q (result_bind (charge_decoded_at lm n path b) f)"
    "settles Q (result_bind (charge_default_at lm path b) f)"
  using assms(2) by (auto intro!: outcome_bindI [OF charges(1) [OF assms(1)]] outcome_bindI [OF charges(2) [OF assms(1)]]
      outcome_bindI [OF charges(3) [OF assms(1)]])

lemma settles_depth:
  "(\<And>x. settles Q (f x)) \<Longrightarrow> settles Q (result_bind (check_depth_at lm depth path) f)"
  by (simp add: check_depth_at_def lift_failure_def with_path_def check_depth_def)

section \<open>Copies of defaults\<close>

lemma collect_copies:
  assumes "I s" "\<And>x u. x \<in> set xs \<Longrightarrow> I u \<Longrightarrow> outcome E (\<lambda>(y, u'). I u' \<and> y = g x) (f x u)"
  shows "outcome E (\<lambda>(ys, t). I t \<and> ys = map g xs) (collect_each f xs s)"
proof (rule outcome_mono [OF outcome_collect [where I = I and R = "\<lambda>x y. y = g x" and f = f]], goal_cases)
  case 1
  then show ?case by (rule assms(1))
next
  case (2 x u)
  then show ?case by (rule assms(2))
next
  case (3 a)
  then show ?case by (cases a) (auto simp: list_all2_conv_all_nth intro: nth_equalityI)
qed

lemma span_charges:
  assumes "grown lm b0 b"
  shows "outcome (\<lambda>e. error_span e = sp) (grown lm b0) (charge_nodes_span lm n sp path b)"
    "outcome (\<lambda>e. error_span e = sp) (grown lm b0) (charge_decoded_span lm n sp path b)"
  using assms
  by (auto simp: charge_nodes_span_def charge_decoded_span_def charge_nodes_def charge_decoded_bytes_def
      mon_error_new_def grown_def within_limits_def ok_or_def checked_usize_def)

lemma span_charge_bind:
  assumes "grown lm b0 b" "\<And>b'. grown lm b0 b' \<Longrightarrow> outcome (\<lambda>e. error_span e = sp) Q (f b')"
  shows "outcome (\<lambda>e. error_span e = sp) Q (result_bind (charge_nodes_span lm n sp path b) f)"
    "outcome (\<lambda>e. error_span e = sp) Q (result_bind (charge_decoded_span lm n sp path b) f)"
  by (rule outcome_bindI [OF span_charges(1) [OF assms(1)]], erule assms(2))
     (rule outcome_bindI [OF span_charges(2) [OF assms(1)]], erule assms(2))

lemma depth_bind:
  "(\<And>x. outcome (\<lambda>e. error_span e = sp) Q (f x)) \<Longrightarrow>
     outcome (\<lambda>e. error_span e = sp) Q (result_bind (with_path path (check_depth lm depth sp)) f)"
  by (simp add: check_depth_def with_path_def mon_error_new_def)

text \<open>A copy of a default is the default; a refused charge is reported at the given span.\<close>

lemma clone_default_copies:
  "grown lm b0 b \<Longrightarrow>
     outcome (\<lambda>e. error_span e = sp) (\<lambda>(w, b'). grown lm b0 b' \<and> w = v) (clone_default lm sp v path depth b)"
proof (induction v arbitrary: path depth b rule: measure_induct_rule [where f = size])
  case (less v)
  note IH = less.IH
  note g = less.prems
  have members: "outcome (\<lambda>e. error_span e = sp) (\<lambda>(ys, t). grown lm b0 t \<and> ys = map (\<lambda>(name, x). (name, x)) fs)
      (collect_each (\<lambda>(name, x) b.
         result_bind (charge_decoded_span lm (text_len name) sp p b) (\<lambda>b.
         result_bind (clone_default lm sp x (q @ [FieldSegment name]) d b) (\<lambda>(y, b).
         result_bind (charge_decoded_span lm (text_len name) sp p b) (\<lambda>b. Inr ((name, y), b))))) fs b)"
    if "size v = Suc (size_list (size_prod (\<lambda>_. 0) size) fs)" "grown lm b0 b" for fs p q d b
  proof (rule collect_copies, goal_cases)
    case 1
    then show ?case by (rule that(2))
  next
    case (2 nx u)
    obtain name x where nx: "nx = (name, x)" by (cases nx)
    then have sz: "size x < size v" using that(1) size_field_member [of name x fs] 2(1) by simp
    show ?case unfolding nx prod.case
    proof (rule span_charge_bind(2) [OF 2(2)])
      fix u' assume u': "grown lm b0 u'"
      show "outcome (\<lambda>e. error_span e = sp) (\<lambda>(y, u'). grown lm b0 u' \<and> y = (name, x))
         (result_bind (clone_default lm sp x (q @ [FieldSegment name]) d u') (\<lambda>(y, b).
            result_bind (charge_decoded_span lm (text_len name) sp p b) (\<lambda>b. Inr ((name, y), b))))"
        by (rule outcome_bindI [OF IH [OF sz u']], clarsimp, rule span_charge_bind(2), assumption, simp)
    qed
  qed
  show ?case
  proof (cases v)
    case (RecordValue fs)
    have "size v = Suc (size_list (size_prod (\<lambda>_. 0) size) fs)" by (simp add: RecordValue)
    note m = members [OF this]
    show ?thesis unfolding RecordValue
      by (subst clone_default.simps, rule depth_bind, rule span_charge_bind(1) [OF g], simp)
         (rule outcome_bindI [OF m], assumption, clarsimp)
  next
    case (CollectionValue vs)
    have c: "outcome (\<lambda>e. error_span e = sp) (\<lambda>(ys, t). grown lm b0 t \<and> ys = map snd (enumerate 0 vs))
        (collect_each (\<lambda>(i, x) b. clone_default lm sp x (path @ [IndexSegment i]) (depth + 1) b) (enumerate 0 vs) b)"
      if "grown lm b0 b" for b
      by (rule collect_copies [where I = "grown lm b0", OF that])
         (auto simp: CollectionValue size_value_member intro!: IH dest!: enumerate_member)
    show ?thesis unfolding CollectionValue
      by (subst clone_default.simps, rule depth_bind, rule span_charge_bind(1) [OF g], unfold mon_value.case)
         (rule outcome_bindI [OF c], assumption, clarsimp)
  next
    case (MapValue entries)
    have c: "outcome (\<lambda>e. error_span e = sp) (\<lambda>(ys, t). grown lm b0 t \<and> ys = map snd (enumerate 0 entries))
        (collect_each (\<lambda>(i, k, x) b.
             result_bind (clone_default lm sp k (path @ [IndexSegment i]) (depth + 1) b) (\<lambda>(k, b).
             result_bind (charge_nodes_span lm 1 sp (path @ [IndexSegment i]) b) (\<lambda>b.
             result_bind (clone_default lm sp x (path @ [IndexSegment i]) (depth + 1) b) (\<lambda>(y, b).
               Inr ((k, y), b))))) (enumerate 0 entries) b)"
      if "grown lm b0 b" for b
    proof (rule collect_copies [where I = "grown lm b0", OF that], goal_cases)
      case (1 e u)
      obtain i k x where e: "e = (i, k, x)" by (cases e)
      have sz: "size k < size v" "size x < size v"
        using 1(1) by (auto simp: e MapValue size_entry_member dest!: enumerate_member)
      show ?case unfolding e prod.case
        apply (rule outcome_bindI [OF IH [OF sz(1) 1(2)]])
        apply clarsimp
        apply (rule span_charge_bind(1), assumption)
        apply (rule outcome_bindI [OF IH [OF sz(2)]], assumption)
        apply clarsimp
        done
    qed
    show ?thesis unfolding MapValue
      by (subst clone_default.simps, rule depth_bind, rule span_charge_bind(1) [OF g], unfold mon_value.case)
         (rule outcome_bindI [OF c], assumption, clarsimp)
  next
    case (ChoiceValue qualifier variant fs)
    have "size v = Suc (size_list (size_prod (\<lambda>_. 0) size) fs)" by (simp add: ChoiceValue)
    note m = members [OF this, of _ _ "path @ [VariantSegment variant]"]
    have q: "outcome (\<lambda>e. error_span e = sp) (grown lm b0) (case qualifier of
             Some q \<Rightarrow> charge_decoded_span lm (text_len q) sp path b
           | None \<Rightarrow> Inr b)" if "grown lm b0 b" for b
      using that span_charges(2) [OF that] by (simp split: option.split)
    show ?thesis unfolding ChoiceValue
      apply (subst clone_default.simps, rule depth_bind, rule span_charge_bind(1) [OF g], unfold mon_value.case)
      apply (rule outcome_bindI [OF q], assumption)
      apply (rule span_charge_bind(2), assumption)
      apply (rule span_charge_bind(2), assumption)
      apply (rule outcome_bindI [OF m [unfolded append_assoc append_Cons append_Nil]], assumption)
      apply clarsimp
      done
  qed (subst clone_default.simps; 
     (rule depth_bind span_charge_bind [OF g] span_charge_bind | simp | assumption)+)+
qed

lemma clone_default_copied:
  "grown lm b0 b \<Longrightarrow>
     settles (\<lambda>(w, b'). grown lm b0 b' \<and> w = v) (lift_failure (clone_default lm sp v path depth b))"
  using clone_default_copies [of lm b0 b sp v path depth]
  by (auto simp: lift_failure_def outcome_def split: sum.splits)

section \<open>Fixed scalars\<close>

lemma precision_round_not_finite: "\<not> f64_is_finite v \<Longrightarrow> precision_round p v = v"
  by (cases p) (simp_all add: round_f64_to_f16_eq through_f32_def)

lemma precision_round_idem:
  assumes "f64_is_finite (precision_round p v)"
  shows "precision_round p (precision_round p v) = precision_round p v"
proof -
  have v: "f64_is_finite v" using assms precision_round_not_finite [of v p] by metis
  note nn = f64_mag_nonneg [of v]
  note pf = precision_pattern_facts [OF nn, of p]
  have lt: "precision_rnd p (f64_mag v) < two_powi (precision_limit p)"
    using assms pf(1) unfolding precision_round_eq [OF v] with_sign_facts(2) by simp
  have m: "f64_mag (precision_round p v) = precision_rnd p (f64_mag v)"
    unfolding precision_round_eq [OF v] with_sign_facts(1) by (rule pf(2) [OF lt])
  have n: "f64_is_sign_negative (precision_round p v) = f64_is_sign_negative v"
    unfolding precision_round_eq [OF v] by (rule with_sign_facts(3) [OF pf(3)])
  have "precision_round p (precision_round p v) =
      with_sign (f64_is_sign_negative v) (precision_pattern p (precision_rnd p (f64_mag v)))"
    unfolding precision_round_eq [OF assms] m n precision_rnd_facts(2) [OF nn] by (rule refl)
  also have "\<dots> = precision_round p v" by (rule precision_round_eq [OF v, symmetric])
  finally show ?thesis .
qed

lemma materialize_fixed_value_typed:
  assumes "fixed_scalar_of v = Some scalar" "materialize_fixed_value v scalar = Some w"
  shows "\<exists>p. w = FixedValue p \<and> payload_scalar p = scalar \<and> payload_ok p"
proof -
  obtain p where p: "v = FixedValue p" "payload_scalar p = scalar"
    using assms(1) by (cases v) (auto simp: fixed_scalar_of_def)
  show ?thesis
    using assms(2) p
    by (cases p) (auto simp: materialize_fixed_value_def float_carrier_def Let_def
        intro: precision_round_idem [of Binary16, simplified] precision_round_idem [of Binary32, simplified]
        split: if_splits)
qed

section \<open>Fields of a record\<close>

text \<open>The slots hold what is given under the name of each field; no name is given twice or undeclared.\<close>

definition slots_hold :: "prepared_fields \<Rightarrow> (utext \<times> mon_value) list \<Rightarrow> mon_value option list \<Rightarrow> bool" where
  "slots_hold fs given slots \<longleftrightarrow>
     slots = map (\<lambda>field. map_of given (prepared_name field)) (declared_fields fs) \<and>
     distinct (map fst given) \<and> fst ` set given \<subseteq> prepared_name ` set (declared_fields fs)"

lemma slots_hold_Nil: "slots_hold fs [] (replicate (length (declared_fields fs)) None)"
  by (simp add: slots_hold_def map_replicate_const)

lemma slots_hold_snoc:
  assumes "index_ok (field_names fs) (field_lookup fs)" "slots_hold fs given slots"
    and "fields_find fs name = Some index" "slots ! index = None"
  shows "slots_hold fs (given @ [(name, v)]) (slots[index := Some v])"
proof -
  have i: "index < length (declared_fields fs)" "prepared_name (declared_fields fs ! index) = name"
    using field_index.find_SomeD [OF assms(1,3)] by (auto simp: field_names_def)
  have d: "distinct (map prepared_name (declared_fields fs))"
    using field_index.distinct_names [OF assms(1)] by (simp add: field_names_def)
  have s: "slots = map (\<lambda>field. map_of given (prepared_name field)) (declared_fields fs)" "distinct (map fst given)"
    "fst ` set given \<subseteq> prepared_name ` set (declared_fields fs)"
    using assms(2) by (simp_all add: slots_hold_def)
  have new: "map_of given name = None" using assms(4) i by (simp add: s(1))
  have "slots[index := Some v] = map (\<lambda>field. map_of (given @ [(name, v)]) (prepared_name field)) (declared_fields fs)"
  proof (rule nth_equalityI)
    fix k assume "k < length (slots[index := Some v])"
    then have k: "k < length (declared_fields fs)" by (simp add: s(1))
    then have "prepared_name (declared_fields fs ! k) = name \<longleftrightarrow> k = index"
      using i d nth_eq_iff_index_eq [of "map prepared_name (declared_fields fs)" k index] by auto
    then show "slots[index := Some v] ! k =
        map (\<lambda>field. map_of (given @ [(name, v)]) (prepared_name field)) (declared_fields fs) ! k"
      using k i new by (auto simp: s(1) nth_list_update map_add_def split: option.split)
  qed (simp add: s(1))
  moreover have "name \<in> prepared_name ` set (declared_fields fs)" using i by (metis imageI nth_mem)
  ultimately show ?thesis using s(2,3) new by (auto simp: slots_hold_def map_of_eq_None_iff)
qed

lemma supply_fields_hold:
  assumes "index_ok (field_names fs) (field_lookup fs)" "grown lm b0 b" "slots_hold fs earlier supplied"
  shows "settles (\<lambda>(slots, b'). grown lm b0 b' \<and> slots_hold fs (earlier @ given) slots)
    (supply_fields u lm ctx rc fs path given supplied b)"
  using assms(2,3)
proof (induction given arbitrary: supplied earlier b)
  case (Cons nv given)
  obtain name v where nv: "nv = (name, v)" by (cases nv)
  have "settles (\<lambda>(slots, b'). grown lm b0 b' \<and> slots_hold fs (earlier @ (name, v) # given) slots)
      (supply_fields u lm ctx rc fs path given (supplied[index := Some v]) b)"
    if "fields_find fs name = Some index" "supplied ! index = None" for index
    using Cons.IH [OF Cons.prems(1) slots_hold_snoc [OF assms(1) Cons.prems(2) that]] by simp
  then show ?case
    unfolding nv supply_fields.simps prod.case
    by (auto simp: Let_def split: option.split intro!: settles_bind_charge(2) [OF Cons.prems(1)])
qed simp

text \<open>One completed field: of its declared name and type.\<close>

definition field_done :: "prepared_field \<Rightarrow> utext \<times> mon_value \<Rightarrow> bool" where
  "field_done field nv \<longleftrightarrow> fst nv = prepared_name field \<and> typed (snd nv) (prepared_ty field)"

text \<open>Its value completes the given one, or is the default.\<close>

definition field_filled :: "mon_value option \<Rightarrow> prepared_field \<Rightarrow> utext \<times> mon_value \<Rightarrow> bool" where
  "field_filled slot field nv \<longleftrightarrow>
     (case slot of
        Some x \<Rightarrow> completes x (prepared_ty field) (snd nv)
      | None \<Rightarrow> prepared_default field = Some (snd nv))"

lemma fields_done:
  assumes "list_all2 (\<lambda>(slot, field) nv. field_done field nv) (zip slots ds) given" "length slots = length ds"
  shows "map fst given = map prepared_name ds \<and>
    list_all (\<lambda>(nv, field). typed (snd nv) (prepared_ty field)) (zip given ds)"
proof -
  have l: "length given = length ds" using assms by (auto dest!: list_all2_lengthD)
  have "field_done (ds ! i) (given ! i)" if "i < length ds" for i
    using assms l that by (auto simp: list_all2_conv_all_nth)
  then show ?thesis using l by (auto simp: field_done_def list_all_length intro!: nth_equalityI)
qed

lemma fields_filled:
  assumes "slots_hold fs given slots"
    and "list_all2 (\<lambda>(slot, field) nv. field_done field nv \<and> field_filled slot field nv) (zip slots (declared_fields fs)) output"
  shows "fields_completed given (declared_fields fs) output"
proof (rule fields_completed)
  let ?ds = "declared_fields fs"
  have s: "slots = map (\<lambda>field. map_of given (prepared_name field)) ?ds" "distinct (map fst given)"
    "fst ` set given \<subseteq> prepared_name ` set ?ds"
    using assms(1) by (simp_all add: slots_hold_def)
  show "distinct (map fst given)" "fst ` set given \<subseteq> prepared_name ` set ?ds" by (rule s(2), rule s(3))
  have l: "length output = length ?ds" using assms(2) by (auto dest!: list_all2_lengthD simp: s(1))
  have filled: "field_done (?ds ! i) (output ! i) \<and> field_filled (map_of given (prepared_name (?ds ! i))) (?ds ! i) (output ! i)"
    if "i < length ?ds" for i
    using list_all2_nthD [OF assms(2), of i] that l by (simp add: s(1))
  have "fst (output ! i) = prepared_name (?ds ! i) \<and>
      ((\<exists>x. map_of given (prepared_name (?ds ! i)) = Some x \<and> completes x (prepared_ty (?ds ! i)) (snd (output ! i))) \<or>
       (map_of given (prepared_name (?ds ! i)) = None \<and> prepared_default (?ds ! i) = Some (snd (output ! i))))"
    if "i < length ?ds" for i
    using filled [OF that] by (cases "map_of given (prepared_name (?ds ! i))") (auto simp: field_done_def field_filled_def)
  then show "list_all2 (\<lambda>field nv. fst nv = prepared_name field \<and>
      ((\<exists>x. map_of given (prepared_name field) = Some x \<and> completes x (prepared_ty field) (snd nv)) \<or>
       (map_of given (prepared_name field) = None \<and> prepared_default field = Some (snd nv)))) ?ds output"
    by (simp add: list_all2_conv_all_nth l)
qed

definition default_ok :: "prepared_field \<Rightarrow> bool" where
  "default_ok field \<longleftrightarrow> (case prepared_default field of None \<Rightarrow> True | Some v \<Rightarrow> typed v (prepared_ty field))"

lemma complete_fields_done:
  assumes "grown lm b0 b"
    and "\<And>v field p c. (Some v, field) \<in> set slots \<Longrightarrow> grown lm b0 c \<Longrightarrow>
      settles (\<lambda>(w, c'). grown lm b0 c' \<and> typed w (prepared_ty field) \<and> completes v (prepared_ty field) w)
        (cv v (prepared_ty field) p c)"
    and "\<And>slot field. (slot, field) \<in> set slots \<Longrightarrow> default_ok field"
  shows "settles (\<lambda>(given, b'). grown lm b0 b' \<and> list_all2 (\<lambda>(slot, field) nv. field_done field nv \<and> field_filled slot field nv) slots given)
    (complete_fields lm ctx rc path depth cv slots b)"
  unfolding complete_fields_def
proof (rule outcome_collect [where I = "grown lm b0", OF assms(1)], goal_cases)
  case (1 e c)
  obtain slot field where e: "e = (slot, field)" by (cases e)
  show ?case unfolding e prod.case
  proof (rule settles_bind_charge(2) [OF 1(2)], goal_cases)
    case c: (1 c')
    note c' = c(1)
    have "settles (\<lambda>(w, c'). grown lm b0 c' \<and> typed w (prepared_ty field) \<and>
          field_filled slot field (prepared_name field, w))
        (case slot of
            Some v \<Rightarrow> cv v (prepared_ty field) (path @ [FieldSegment (prepared_name field)]) c'
          | None \<Rightarrow>
              (case prepared_default field of
                 Some dflt \<Rightarrow>
                   result_bind (charge_default_at lm (path @ [FieldSegment (prepared_name field)]) c') (\<lambda>b.
                     lift_failure (clone_default lm None dflt (path @ [FieldSegment (prepared_name field)]) (depth + 1) b))
               | None \<Rightarrow> Inl (value_error ctx (if rc = ChoiceContext then Arity else MissingField)
                   (path @ [FieldSegment (prepared_name field)]))))"
    proof (cases slot)
      case (Some v)
      then show ?thesis using assms(2) [of v field c'] 1(1) c' by (simp add: e field_filled_def)
    next
      case None
      show ?thesis
      proof (cases "prepared_default field")
        case (Some dflt)
        then have "typed dflt (prepared_ty field)" using assms(3) 1(1) by (fastforce simp: e default_ok_def)
        then show ?thesis unfolding None Some option.case
          by (intro settles_bind_charge(3) [OF c']) (auto simp: field_filled_def Some elim!: outcome_mono [OF clone_default_copied])
      qed (simp add: None)
    qed
    then show ?case
      unfolding Let_def by (rule outcome_bindI) (clarsimp simp: field_done_def)
  qed
qed


section \<open>Keys of a map\<close>

text \<open>The index \<open>seen\<close> of a key type holds exactly the keys \<open>S\<close>.\<close>

definition holds :: "prepared_type \<Rightarrow> map_key_index \<Rightarrow> mon_value set \<Rightarrow> bool" where
  "holds key seen S \<longleftrightarrow>
     (case key of
        StringPrepared \<Rightarrow> seen = StringKeys {s. StringValue s \<in> S}
      | BoolPrepared \<Rightarrow> seen = BoolKeys {b. BoolValue b \<in> S}
      | CharPrepared \<Rightarrow> seen = CharKeys {c. CharValue c \<in> S}
      | FixedPrepared scalar \<Rightarrow> seen = FixedKeys scalar {p. FixedValue p \<in> S}
      | _ \<Rightarrow> False)"

lemma holds_new: "is_supported_map_key key \<Longrightarrow> \<exists>seen. map_key_index_new key = Some seen \<and> holds key seen {}"
  by (cases key) (auto simp: is_supported_map_key_def map_key_index_new_def holds_def)

lemma holds_insert:
  assumes "holds key seen S" "typed k key"
  shows "contains_value seen k = Some (k \<in> S)" "holds key (insert_value seen k) (insert k S)"
  using assms
  by (cases key; cases k; auto simp: holds_def typed.simps contains_value_def insert_value_def)+

lemma collect_entries:
  assumes "holds key seen S" "I b"
    and "\<And>e seen c S. e \<in> set xs \<Longrightarrow> holds key seen S \<Longrightarrow> I c \<Longrightarrow>
      outcome E (\<lambda>((k, x), seen', c'). I c' \<and> typed k key \<and> typed x val \<and> R e (k, x) \<and> k \<notin> S \<and>
          holds key seen' (insert k S))
        (f e (seen, c))"
  shows "outcome E (\<lambda>(ys, seen', b'). I b' \<and> list_all (\<lambda>(k, x). typed k key \<and> typed x val) ys \<and> list_all2 R xs ys \<and>
      distinct (map fst ys) \<and> fst ` set ys \<inter> S = {}) (collect_each f xs (seen, b))"
  using assms
proof (induction xs arbitrary: seen S b)
  case (Cons e xs)
  show ?case unfolding collect_each.simps
  proof (rule outcome_bindI [OF Cons.prems(3) [OF _ Cons.prems(1,2)]], goal_cases)
    case (2 a)
    obtain k x seen' c' where a: "a = ((k, x), seen', c')" by (metis surj_pair)
    have p: "I c'" "typed k key" "typed x val" "R e (k, x)" "k \<notin> S" "holds key seen' (insert k S)" using 2 by (simp_all add: a)
    have "outcome E (\<lambda>(ys, seen', b'). I b' \<and> list_all (\<lambda>(k, x). typed k key \<and> typed x val) ys \<and> list_all2 R xs ys \<and>
      distinct (map fst ys) \<and> fst ` set ys \<inter> insert k S = {}) (collect_each f xs (seen', c'))"
      by (rule Cons.IH [OF p(6,1)]) (auto intro!: Cons.prems(3))
    then show ?case unfolding a prod.case
      by (rule outcome_bindI) (use p in auto)
  qed simp
qed simp

lemma admit_map_key_holds:
  assumes "grown lm b0 b" "holds key seen S" "typed k key"
  shows "settles (\<lambda>(seen', b'). grown lm b0 b' \<and> k \<notin> S \<and> holds key seen' (insert k S))
    (admit_map_key lm ctx path i k seen b)"
proof (cases "k \<in> S")
  case True
  then show ?thesis
    by (simp add: admit_map_key_def holds_insert(1) [OF assms(2,3)])
       (rule settles_bind_charge(2) [OF assms(1)], simp)
next
  case False
  have c: "settles (grown lm b0) (case k of
              StringValue s \<Rightarrow> charge_decoded_at lm (text_len s) (path @ [IndexSegment i]) b
            | _ \<Rightarrow> Inr b)" if "grown lm b0 b" for b
    using that charges(2) [OF that] by (simp split: mon_value.split)
  show ?thesis
    unfolding admit_map_key_def holds_insert(1) [OF assms(2,3)]
    using False holds_insert(2) [OF assms(2,3)]
    by (simp add: Let_def) (rule settles_bind_charge(1) [OF assms(1)], rule outcome_bindI [OF c], assumption, simp)
qed


section \<open>Completed values\<close>

lemma wf_fields_done:
  assumes "wf_fields u d fs" "field \<in> set (declared_fields fs)"
  shows "wf_type u (prepared_ty field)" "default_ok field"
  using assms by (cases fs; cases field; force simp: list_all_iff default_ok_def split: option.splits)+

lemma wf_fields_index: "wf_fields u d fs \<Longrightarrow> index_ok (field_names fs) (field_lookup fs)"
  by (cases fs) (simp add: field_names_def)

lemmas scalars_completed = none_completed bool_completed char_completed string_completed

lemma integer_text_validated:
  assumes "grown lm b0 b"
  shows "settles (\<lambda>b'. grown lm b0 b' \<and> integer_text s) (validate_integer_text lm ctx s path b)"
  unfolding validate_integer_text_def parse_numeric_text_def
  using charges(2) [OF assms, of "text_len (unsigned_numeric_text s)" path]
  by (auto simp: outcome_bind integer_text_def check_numeric_text_budget_def check_numeric_budget_def
      elim!: outcome_mono split: sum.split)

lemma decimal_text_validated:
  assumes "grown lm b0 b"
  shows "settles (\<lambda>b'. grown lm b0 b' \<and> decimal_text scale s) (validate_decimal_text lm ctx s scale path b)"
  unfolding validate_decimal_text_def parse_numeric_text_def
  using charges(2) [OF assms, of "text_len (unsigned_numeric_text s)" path]
  by (auto simp: outcome_bind decimal_text_def check_numeric_text_budget_def check_numeric_budget_def
      elim!: outcome_mono split: sum.split)

definition value_order :: "((mon_value \<times> prepared_type) \<times> mon_value \<times> prepared_type) set" where
  "value_order = measures [\<lambda>(v, _). size v, \<lambda>(_, ty). size ty]"

lemma value_order_wf: "wf value_order"
  by (simp add: value_order_def)

lemma value_order_member [simp]:
  "((v', ty'), (v, ty)) \<in> value_order \<longleftrightarrow> size v' < size v \<or> size v' = size v \<and> size ty' < size ty"
  by (auto simp: value_order_def)

lemma complete_value_completes:
  "wf_type u ty \<Longrightarrow> grown lm b0 b \<Longrightarrow>
     settles (\<lambda>(w, b'). grown lm b0 b' \<and> typed w ty \<and> completes v ty w) (complete_value u lm ctx v ty path depth b)"
proof (induction "(v, ty)" arbitrary: v ty path depth b rule: wf_induct_rule [OF value_order_wf])
  case (1 v ty)
  note IH = 1(1)
  note wf = 1(2)
  note g = 1(3)
  have smaller: "settles (\<lambda>(w, b'). grown lm b0 b' \<and> typed w ty' \<and> completes v' ty' w) (complete_value u lm ctx v' ty' p d c)"
    if "size v' < size v" "wf_type u ty'" "grown lm b0 c" for v' ty' p d c
    using that by (intro IH) simp_all
  have members: "settles (\<lambda>(w, b'). grown lm b0 b' \<and> typed w ty \<and> completes v ty w)
      (result_bind (supply_fields u lm ctx rc fs p given (replicate (length (declared_fields fs)) None) c)
        (\<lambda>(slots, b). result_bind (complete_fields lm ctx rc p depth
            (\<lambda>x t p b. complete_value u lm ctx x t p (depth + 1) b) (zip slots (declared_fields fs)) b)
          (\<lambda>(completed, b). Inr (wrap completed, b))))"
    if rec: "wf_fields u d fs" "grown lm b0 c" "size v = Suc (size_list (size_prod (\<lambda>_. 0) size) given)"
      and wrap: "\<And>completed. map fst completed = map prepared_name (declared_fields fs) \<Longrightarrow>
        list_all (\<lambda>(nv, field). typed (snd nv) (prepared_ty field)) (zip completed (declared_fields fs)) \<Longrightarrow>
        fields_completed given (declared_fields fs) completed \<Longrightarrow>
        typed (wrap completed) ty \<and> completes v ty (wrap completed)"
      and ix: "index_ok (field_names fs) (field_lookup fs)"
    for fs given rc p d c and wrap :: "(utext \<times> mon_value) list \<Rightarrow> mon_value"
  proof (rule outcome_bindI [OF supply_fields_hold [OF ix rec(2) slots_hold_Nil]], goal_cases)
    case (1 a)
    obtain slots c' where a: "a = (slots, c')" by (cases a)
    have p: "grown lm b0 c'" "slots_hold fs given slots" using 1 by (simp_all add: a)
    have given: "v \<in> snd ` set given" if "Some v \<in> set slots" for v
      using that p(2) by (auto simp: slots_hold_def intro: image_eqI [OF _ map_of_SomeD] dest!: sym [of "Some v"])
    have l: "length slots = length (declared_fields fs)" using p(2) by (simp add: slots_hold_def)
    show ?case unfolding a prod.case
    proof (rule outcome_bindI [OF complete_fields_done [OF p(1)]], goal_cases)
      case (1 x field p' c'')
      have "x \<in> snd ` set given" using 1(1) by (auto intro: given dest: set_zip_leftD)
      then have "size x < size v" using rec(3) by (auto intro: size_field_member)
      moreover have "wf_type u (prepared_ty field)" using 1(1) wf_fields_done(1) [OF rec(1)] by (auto dest: set_zip_rightD)
      ultimately show ?case using 1(2) by (intro smaller)
    next
      case (2 slot field)
      then show ?case using wf_fields_done(2) [OF rec(1)] by (auto dest: set_zip_rightD)
    next
      case (3 r)
      obtain completed c'' where r: "r = (completed, c'')" by (cases r)
      have f: "grown lm b0 c''"
        "list_all2 (\<lambda>(slot, field) nv. field_done field nv \<and> field_filled slot field nv) (zip slots (declared_fields fs)) completed"
        using 3 by (simp_all add: r)
      have "list_all2 (\<lambda>(slot, field) nv. field_done field nv) (zip slots (declared_fields fs)) completed"
        using f(2) by (rule list_all2_mono) auto
      from wrap [OF conjunct1 [OF fields_done [OF this l]] conjunct2 [OF fields_done [OF this l]] fields_filled [OF p(2) f(2)]]
      show ?case using f(1) by (simp add: r)
    qed
  qed
  show ?case
  proof (cases ty)
    case (OptionalPrepared inner)
    have "settles (\<lambda>(w, b'). grown lm b0 b' \<and> typed w inner \<and> completes v inner w) (complete_value u lm ctx v inner path depth b)"
      using wf g by (intro IH) (simp_all add: OptionalPrepared)
    then show ?thesis
      by (subst complete_value.simps)
         (auto simp: OptionalPrepared typed.simps [of _ "OptionalPrepared inner"] intro!: settles_depth
            settles_bind_charge(1) [OF g] absent_completed intro: present_completed elim!: outcome_mono)
  next
    case (RecordPrepared fs)
    note ty = this
    have w: "wf_fields u True fs" using wf by (simp add: ty)
    note ix = wf_fields_index [OF w]
    show ?thesis
    proof (cases v)
      case (RecordValue given)
      have "size v = Suc (size_list (size_prod (\<lambda>_. 0) size) given)" by (simp add: RecordValue)
      note m = members [OF w _ this, where wrap = RecordValue]
      show ?thesis unfolding RecordValue ty
        by (subst complete_value.simps, rule settles_depth, unfold prepared_type.case,
            rule settles_bind_charge(1) [OF g], unfold prod.case mon_value.case prepared_type.case)
           (rule m [unfolded RecordValue ty], assumption, simp add: typed.simps record_completed struct_completed, rule ix)
    qed (subst complete_value.simps; simp add: ty; intro settles_depth settles_bind_charge(1) [OF g]; simp)+
  next
    case (StructPrepared name fs)
    note ty = this
    have w: "wf_fields u True fs" using wf by (simp add: ty)
    note ix = wf_fields_index [OF w]
    show ?thesis
    proof (cases v)
      case (RecordValue given)
      have "size v = Suc (size_list (size_prod (\<lambda>_. 0) size) given)" by (simp add: RecordValue)
      note m = members [OF w _ this, where wrap = RecordValue]
      show ?thesis unfolding RecordValue ty
        by (subst complete_value.simps, rule settles_depth, unfold prepared_type.case,
            rule settles_bind_charge(1) [OF g], unfold prod.case mon_value.case prepared_type.case)
           (rule m [unfolded RecordValue ty], assumption, simp add: typed.simps record_completed struct_completed, rule ix)
    qed (subst complete_value.simps; simp add: ty; intro settles_depth settles_bind_charge(1) [OF g]; simp)+
  next
    case (CollectionPrepared element)
    note ty = this
    show ?thesis
    proof (cases v)
      case (CollectionValue vs)
      have c: "settles (\<lambda>(ys, t). grown lm b0 t \<and> list_all2 (\<lambda>(i, x) y. typed y element \<and> completes x element y) (enumerate 0 vs) ys)
          (collect_each (\<lambda>(i, x) b.
             complete_value u lm ctx x element (path @ [IndexSegment i]) (depth + 1) b) (enumerate 0 vs) b)"
        if "grown lm b0 b" for b
        by (rule outcome_collect [where I = "grown lm b0", OF that])
           (use wf in \<open>auto simp: CollectionValue ty size_value_member intro!: smaller dest!: enumerate_member\<close>)
      show ?thesis unfolding CollectionValue ty
        by (subst complete_value.simps, rule settles_depth, unfold prepared_type.case,
            rule settles_bind_charge(1) [OF g], unfold prod.case mon_value.case prepared_type.case)
           (rule outcome_bindI [OF c], assumption,
            auto simp: typed.simps list_all2_conv_all_nth list_all_length nth_enumerate_eq intro!: collection_completed)
    qed (subst complete_value.simps; simp add: ty; intro settles_depth settles_bind_charge(1) [OF g]; simp)+
  next
    case (MapPrepared key val)
    note ty = this
    have w: "is_supported_map_key key" "wf_type u val" using wf by (simp_all add: ty)
    have wk: "wf_type u key" using w(1) by (cases key) (simp_all add: is_supported_map_key_def)
    obtain seen where seen: "map_key_index_new key = Some seen" "holds key seen {}" using holds_new [OF w(1)] by auto
    show ?thesis
    proof (cases v)
      case (MapValue entries)
      have c: "settles (\<lambda>(ys, seen', b'). grown lm b0 b' \<and>
            list_all (\<lambda>(k, x). typed k key \<and> typed x val) ys \<and>
            list_all2 (\<lambda>e e'. completes (fst (snd e)) key (fst e') \<and> completes (snd (snd e)) val (snd e')) (enumerate 0 entries) ys \<and>
            distinct (map fst ys) \<and> fst ` set ys \<inter> {} = {})
          (collect_each (\<lambda>(i, k, x) (seen, b).
                  result_bind (complete_value u lm ctx k key (path @ [IndexSegment i]) (depth + 1) b)
                    (\<lambda>(k, b).
                  result_bind (admit_map_key lm ctx path i k seen b) (\<lambda>(seen, b).
                  result_bind (complete_value u lm ctx x val (path @ [IndexSegment i]) (depth + 1) b)
                    (\<lambda>(y, b). Inr ((k, y), (seen, b)))))) (enumerate 0 entries) (seen, b))"
        if "grown lm b0 b" for b
      proof (rule collect_entries [where I = "grown lm b0", OF seen(2) that], goal_cases)
        case (1 e seen c S)
        obtain i k x where e: "e = (i, k, x)" by (cases e)
        have sz: "size k < size v" "size x < size v"
          using 1(1) by (auto simp: e MapValue size_entry_member dest!: enumerate_member)
        show ?case unfolding e prod.case
          apply (rule outcome_bindI [OF smaller [OF sz(1) wk 1(3)]])
          apply clarsimp
          apply (rule outcome_bindI [OF admit_map_key_holds [OF _ 1(2)]], assumption, assumption)
          apply clarsimp
          apply (rule outcome_bindI [OF smaller [OF sz(2) w(2)]], assumption)
          apply clarsimp
          done
      qed
      show ?thesis unfolding MapValue ty
        by (subst complete_value.simps, rule settles_depth, unfold prepared_type.case,
            rule settles_bind_charge(1) [OF g], unfold prod.case mon_value.case prepared_type.case seen(1) option.case)
           (rule outcome_bindI [OF c], assumption,
            auto simp: typed.simps list_all2_conv_all_nth nth_enumerate_eq intro!: map_completed)
    qed (subst complete_value.simps; simp add: ty; intro settles_depth settles_bind_charge(1) [OF g]; simp)+
  next
    case (ChoicePrepared name variants)
    note ty = this
    obtain vs lookup where vs: "variants = PreparedVariants vs lookup" by (cases variants)
    have ix: "index_ok (variant_names variants) (variant_lookup variants)"
      using wf by (simp add: ty vs variant_names_def)
    show ?thesis
    proof (cases v)
      case (ChoiceValue qualifier variant given)
      have sz: "size v = Suc (size_list (size_prod (\<lambda>_. 0) size) given)" by (simp add: ChoiceValue)
      have q: "settles (\<lambda>b'. grown lm b0 b' \<and> (qualifier = None \<or> qualifier = Some name))
          (choice_qualifier_check u lm ctx qualifier name path b)" if "grown lm b0 b" for b
        unfolding choice_qualifier_check_def using that charges(2) [OF that]
        by (auto split: option.split intro!: settles_bind_charge(2) [OF that] elim!: outcome_mono)
      show ?thesis
      proof (cases "variants_find variants variant")
        case None
        show ?thesis unfolding ChoiceValue ty
          by (subst complete_value.simps, rule settles_depth, unfold prepared_type.case,
              rule settles_bind_charge(1) [OF g], unfold prod.case mon_value.case prepared_type.case None option.case)
             (rule outcome_bindI [OF q], assumption, rule settles_bind_charge(2), blast, simp)
      next
        case (Some index)
        have i: "index < length (declared_variants variants)"
          using variant_index.find_SomeD [OF ix Some] by (simp add: variant_names_def)
        obtain vn vf where v: "declared_variants variants ! index = PreparedVariant vn vf"
          by (cases "declared_variants variants ! index")
        have "wf_variant u (declared_variants variants ! index)"
          using wf i by (simp add: ty vs list_all_length)
        then have w: "wf_fields u False (prepared_variant_fields (declared_variants variants ! index))" by (simp add: v)
        show ?thesis unfolding ChoiceValue ty
          apply (subst complete_value.simps, rule settles_depth, unfold prepared_type.case,
              rule settles_bind_charge(1) [OF g], unfold prod.case mon_value.case prepared_type.case Some option.case)
          apply (rule outcome_bindI [OF q], assumption)
          apply (rule settles_bind_charge(2), blast)
          apply (simp only: Let_def split: if_split)
          apply (intro conjI impI, simp only: outcome_simps reported_failures)
          apply (rule members [OF w _ sz, unfolded ChoiceValue ty], assumption)
           apply (auto simp: typed.simps [of "ChoiceValue _ _ _"] Some fields_of_variant_def
              intro!: choice_completed [OF Some])[1]
          apply (rule wf_fields_index [OF w])
          done
      qed
    qed (subst complete_value.simps; simp add: ty; intro settles_depth settles_bind_charge(1) [OF g]; simp)+
  next
    case (FixedPrepared scalar)
    have m: "settles (\<lambda>w. typed w ty \<and> completes v ty w) (ok_or (materialize_fixed_value v scalar) (value_error ctx NonFiniteFloat path))"
      if "fixed_scalar_of v = Some scalar"
      using materialize_fixed_value_typed [OF that] fixed_completed [OF that]
      by (cases "materialize_fixed_value v scalar") (auto simp: ok_or_def FixedPrepared typed.simps)
    show ?thesis
    proof (cases v)
      case (FixedValue p)
      show ?thesis unfolding FixedValue FixedPrepared
        by (subst complete_value.simps, rule settles_depth, unfold prepared_type.case,
            rule settles_bind_charge(1) [OF g], unfold prod.case mon_value.case prepared_type.case)
           (simp, intro impI, rule outcome_bindI [OF m [unfolded FixedValue FixedPrepared]], simp_all)
    qed (subst complete_value.simps; simp add: FixedPrepared fixed_scalar_of_def;
         intro settles_depth settles_bind_charge(1) [OF g]; simp)+
  next
    case IntegerPrepared
    show ?thesis
    proof (cases v)
      case (IntegerValue s)
      show ?thesis unfolding IntegerValue IntegerPrepared
        by (subst complete_value.simps, rule settles_depth, unfold prepared_type.case,
            rule settles_bind_charge(1) [OF g], unfold prod.case mon_value.case prepared_type.case,
            rule settles_bind_charge(2), assumption, rule outcome_bindI [OF integer_text_validated], assumption)
           (simp add: typed.simps integer_completed decimal_completed)
    qed (subst complete_value.simps; simp add: IntegerPrepared; intro settles_depth settles_bind_charge(1) [OF g]; simp)+
  next
    case (DecimalPrepared scale)
    show ?thesis
    proof (cases v)
      case (DecimalValue s)
      show ?thesis unfolding DecimalValue DecimalPrepared
        by (subst complete_value.simps, rule settles_depth, unfold prepared_type.case,
            rule settles_bind_charge(1) [OF g], unfold prod.case mon_value.case prepared_type.case,
            rule settles_bind_charge(2), assumption, rule outcome_bindI [OF decimal_text_validated], assumption)
           (simp add: typed.simps integer_completed decimal_completed)
    qed (subst complete_value.simps; simp add: DecimalPrepared; intro settles_depth settles_bind_charge(1) [OF g]; simp)+
  qed (cases v; subst complete_value.simps; simp; intro settles_depth settles_bind_charge(1,2) [OF g]
     settles_bind_charge(1,2); simp add: typed.simps scalars_completed; intro settles_bind_charge(2);
     simp add: typed.simps scalars_completed)+
qed

end
