(* ===== verification/Mon_Prepared.thy ===== *)
theory Mon_Prepared
  imports Mon_Typing
begin

text \<open>
  Preparation of MON schemas gives well-formed types: distinct user-chosen names with exact indexes,
  supported map keys, and defaults that are values of their fields. Completion against a prepared
  schema gives values of its type.
\<close>

section \<open>Loops that charge a node per element\<close>

lemma grown_refl: "within_limits lm b \<Longrightarrow> grown lm b b"
  by (simp add: grown_def)

lemma grown_trans: "grown lm b0 b \<Longrightarrow> grown lm b b' \<Longrightarrow> grown lm b0 b'"
  by (auto simp: grown_def)

lemma grown_self: "grown lm b0 b \<Longrightarrow> grown lm b b"
  by (simp add: grown_def)

lemma collect_counted:
  assumes "grown lm b0 b"
    and "\<And>x u. x \<in> set xs \<Longrightarrow> grown lm b0 u \<Longrightarrow>
      settles (\<lambda>(y, u'). grown lm b0 u' \<and> nodes u < nodes u' \<and> R x y) (f x u)"
  shows "settles (\<lambda>(ys, t). grown lm b0 t \<and> nodes b + length xs \<le> nodes t \<and> list_all2 R xs ys)
    (collect_each f xs b)"
  using assms
proof (induction xs arbitrary: b)
  case Nil
  then show ?case by simp
next
  case (Cons x xs)
  show ?case unfolding collect_each.simps
  proof (rule outcome_bindI [OF Cons.prems(2) [OF _ Cons.prems(1)]], goal_cases)
    case (2 a)
    obtain y u where a: "a = (y, u)" by (cases a)
    have u: "grown lm b0 u" "nodes b < nodes u" "R x y" using 2 by (simp_all add: a)
    have "settles (\<lambda>(ys, t). grown lm b0 t \<and> nodes u + length xs \<le> nodes t \<and> list_all2 R xs ys)
        (collect_each f xs u)"
      by (rule Cons.IH [OF u(1)]) (auto intro: Cons.prems(2))
    then show ?case unfolding a prod.case
      by (rule outcome_bindI) (use u in auto)
  qed simp
qed

text \<open>A loop over declarations that stops at the reported duplicate only ends without one.\<close>

lemma declared_once:
  assumes "duplicate_candidates lm names b = (slots, dup)" "grown lm b b"
    and "nodes b + length names \<le> nodes t" "within_limits lm t"
    and "\<And>slot. slot < length names \<Longrightarrow> dup \<noteq> Some slot"
  shows "index_ok names slots"
proof -
  have l: "length names \<le> max_nodes lm - nodes b" using assms(3,4) unfolding within_limits_def by linarith
  note d = duplicate_candidates_all [OF l, unfolded assms(1)]
  have "distinct names"
  proof (rule ccontr)
    assume n: "\<not> distinct names"
    then obtain i where "repeats names i" by (auto simp: distinct_iff_no_repeats)
    then have "repeats names (LEAST i. repeats names i)" by (rule LeastI)
    then have "(LEAST i. repeats names i) < length names" by (simp add: repeats_def)
    then show False using assms(5) [of "LEAST i. repeats names i"] d n by simp
  qed
  then show ?thesis using d by (simp add: index_ok_def)
qed

section \<open>Fields and variants\<close>

text \<open>What the preparation of a nested type promises.\<close>

definition prepares :: "unicode \<Rightarrow> limits \<Rightarrow>
    (schema_type \<Rightarrow> mon_path \<Rightarrow> budget \<Rightarrow> (mon_stop, prepared_type \<times> budget) result) \<Rightarrow> schema_type \<Rightarrow> bool" where
  "prepares u lm pt ty \<longleftrightarrow>
     (\<forall>path b0 b. grown lm b0 b \<longrightarrow> settles (\<lambda>(p, b'). grown lm b0 b' \<and> wf_type u p) (pt ty path b))"

lemma preparesD:
  "prepares u lm pt ty \<Longrightarrow> grown lm b0 b \<Longrightarrow> settles (\<lambda>(p, b'). grown lm b0 b' \<and> wf_type u p) (pt ty path b)"
  by (simp add: prepares_def)

lemma validate_identifier_user:
  "settles (\<lambda>_. user_name u name) (validate_identifier u name path)"
  by (simp add: validate_identifier_def user_name_def)

lemma prepare_field_wf:
  assumes "prepares u lm pt (field_type field)" "user_name u (field_name field)" "grown lm b0 b"
    and "field_default field \<noteq> None \<Longrightarrow> defaults"
  shows "settles (\<lambda>(f, b'). grown lm b0 b' \<and> prepared_name f = field_name field \<and> wf_field u defaults f)
    (prepare_field u lm path depth pt field b)"
  unfolding prepare_field_def Let_def
proof (rule outcome_bindI [OF preparesD [OF assms(1,3)]], goal_cases)
  case (1 a)
  obtain ty b' where a: "a = (ty, b')" by (cases a)
  have ty: "grown lm b0 b'" "wf_type u ty" using 1 by (simp_all add: a)
  show ?case
  proof (cases "field_default field")
    case None
    then show ?thesis using ty assms(2) by (simp add: a)
  next
    case (Some v)
    then have d: "defaults" using assms(4) by simp
    show ?thesis unfolding a prod.case Some option.case
      by (rule outcome_bindI [OF complete_value_completes [OF ty(2,1)]]) (use assms(2) ty d in clarsimp)
  qed
qed

lemma prepare_fields_wf:
  assumes "\<And>field. field \<in> set fs \<Longrightarrow> prepares u lm pt (field_type field)" "grown lm b0 b"
  shows "settles (\<lambda>(p, b'). grown lm b0 b' \<and> wf_fields u allow p)
    (prepare_fields u lm path allow depth pt fs b)"
proof -
  obtain slots dup where d: "duplicate_candidates lm (map field_name fs) b = (slots, dup)" by fastforce
  let ?R = "\<lambda>(slot, field) f. dup \<noteq> Some slot \<and> prepared_name f = field_name field \<and> wf_field u allow f"
  have "settles (\<lambda>(prepared, t). grown lm b t \<and> nodes b + length (enumerate 0 fs) \<le> nodes t \<and>
        list_all2 ?R (enumerate 0 fs) prepared)
      (collect_each (\<lambda>(slot, field) b.
              result_bind (charge_nodes_at lm 1 path b) (\<lambda>b.
              result_bind (charge_decoded_at lm (text_len (field_name field)) path b) (\<lambda>b.
              result_bind (validate_identifier u (field_name field) path) (\<lambda>_.
              let field_path = path @ [FieldSegment (field_name field)] in
              if dup = Some slot then Inl (schema_error DuplicateField field_path)
              else if \<not> allow \<and> field_default field \<noteq> None
              then Inl (schema_error InvalidSchema field_path)
              else prepare_field u lm path (depth + 1) pt field b)))) (enumerate 0 fs) b)"
  proof (rule collect_counted [OF grown_self [OF assms(2)]], goal_cases)
    case (1 e u')
    obtain slot field where e: "e = (slot, field)" by (cases e)
    have f: "prepares u lm pt (field_type field)" using 1(1) assms(1) by (simp add: e enumerate_member)
    have n: "settles (\<lambda>c. grown lm b c \<and> nodes c = nodes u' + 1) (charge_nodes_at lm 1 path u')"
      unfolding charge_nodes_at_def by (rule settles_lift [OF charged_nodes [OF 1(2)]])
    show ?case unfolding e prod.case
    proof (rule outcome_bindI [OF n], goal_cases)
      case (1 c)
      have c: "grown lm b c" "nodes c = nodes u' + 1" using 1 by simp_all
      show ?case
      proof (rule settles_bind_charge(2) [OF grown_self [OF c(1)]], rule outcome_bindI [OF validate_identifier_user], goal_cases)
        case (1 c' x)
        show ?case
        proof (cases "dup = Some slot \<or> \<not> allow \<and> field_default field \<noteq> None")
          case True
          then show ?thesis by (auto simp: Let_def)
        next
          case False
          have "settles (\<lambda>(f, b'). grown lm c b' \<and> prepared_name f = field_name field \<and> wf_field u allow f)
              (prepare_field u lm path (depth + 1) pt field c')"
            by (rule prepare_field_wf [OF f 1(2,1)]) (use False in auto)
          then show ?thesis using False c grown_trans [OF c(1)]
            by (auto simp: Let_def grown_def elim!: outcome_mono)
        qed
      qed
    qed
  qed
  then show ?thesis unfolding prepare_fields_def d prod.case
  proof (rule outcome_bindI, goal_cases)
    case (1 a)
    obtain prepared t where a: "a = (prepared, t)" by (cases a)
    have p: "grown lm b t" "nodes b + length fs \<le> nodes t" "list_all2 ?R (enumerate 0 fs) prepared" using 1 by (simp_all add: a)
    have l: "length prepared = length fs" using p(3) by (auto dest: list_all2_lengthD)
    have nth: "dup \<noteq> Some i \<and> prepared_name (prepared ! i) = field_name (fs ! i) \<and> wf_field u allow (prepared ! i)"
      if "i < length fs" for i
      using list_all2_nthD [OF p(3), of i] that by (simp add: nth_enumerate_eq)
    have names: "map prepared_name prepared = map field_name fs" using nth l by (auto intro: nth_equalityI)
    have "index_ok (map field_name fs) slots"
      by (rule declared_once [OF d grown_self [OF assms(2)], of t]) (use p nth in \<open>auto simp: grown_def\<close>)
    then show ?case using nth l names p(1) grown_trans [OF assms(2)] by (auto simp: a list_all_length)
  qed
qed


lemma prepare_variants_wf:
  assumes "\<And>variant field. variant \<in> set vs \<Longrightarrow> field \<in> set (variant_fields variant) \<Longrightarrow>
      prepares u lm pt (field_type field)" "grown lm b0 b"
  shows "settles (\<lambda>(p, b'). grown lm b0 b' \<and> index_ok (variant_names p) (variant_lookup p) \<and>
      list_all (wf_variant u) (declared_variants p))
    (prepare_variants u lm path depth pt vs b)"
proof -
  obtain slots dup where d: "duplicate_candidates lm (map variant_name vs) b = (slots, dup)" by fastforce
  let ?R = "\<lambda>(slot, variant) v. dup \<noteq> Some slot \<and> prepared_variant_name v = variant_name variant \<and> wf_variant u v"
  have "settles (\<lambda>(prepared, t). grown lm b t \<and> nodes b + length (enumerate 0 vs) \<le> nodes t \<and>
        list_all2 ?R (enumerate 0 vs) prepared)
      (collect_each (\<lambda>(slot, variant) b.
              result_bind (charge_decoded_at lm (text_len (variant_name variant)) path b) (\<lambda>b.
              result_bind (charge_nodes_at lm 1 path b) (\<lambda>b.
              let variant_path = path @ [VariantSegment (variant_name variant)] in
              if dup = Some slot then Inl (schema_error InvalidSchema variant_path)
              else
                result_bind (validate_identifier u (variant_name variant) variant_path) (\<lambda>_.
                result_bind (prepare_fields u lm variant_path False depth pt (variant_fields variant) b)
                  (\<lambda>(prepared, b). Inr (PreparedVariant (variant_name variant) prepared, b))))))
              (enumerate 0 vs) b)"
  proof (rule collect_counted [OF grown_self [OF assms(2)]], goal_cases)
    case (1 e u')
    obtain slot variant where e: "e = (slot, variant)" by (cases e)
    have f: "prepares u lm pt (field_type field)" if "field \<in> set (variant_fields variant)" for field
      by (rule assms(1) [OF enumerate_member [OF 1(1) [unfolded e]] that])
    have g: "grown lm b u'" by (rule 1(2))
    show ?case unfolding e prod.case
    proof (rule settles_bind_charge(2) [OF grown_self [OF g]], goal_cases)
      case (1 c)
      have n: "settles (\<lambda>c'. grown lm b c' \<and> nodes u' < nodes c') (charge_nodes_at lm 1 path c)"
        unfolding charge_nodes_at_def
        by (rule settles_lift, rule outcome_mono [OF charged_nodes [OF grown_trans [OF g 1]]]) (use 1 in \<open>simp add: grown_def\<close>)
      show ?case
      proof (rule outcome_bindI [OF n], goal_cases)
        case (1 c')
        have c': "grown lm b c'" "nodes u' < nodes c'" using 1 by simp_all
        show ?case
        proof (cases "dup = Some slot")
          case True
          then show ?thesis by (simp add: Let_def)
        next
          case False
          show ?thesis unfolding Let_def if_not_P [OF False]
            apply (rule outcome_bindI [OF validate_identifier_user])
            apply (rule outcome_bindI [OF prepare_fields_wf [OF f grown_self [OF c'(1)], where allow = False]], assumption)
            using False c' grown_trans [OF c'(1)] by (auto simp: grown_def)
        qed
      qed
    qed
  qed
  then show ?thesis unfolding prepare_variants_def d prod.case
  proof (rule outcome_bindI, goal_cases)
    case (1 a)
    obtain prepared t where a: "a = (prepared, t)" by (cases a)
    have p: "grown lm b t" "nodes b + length vs \<le> nodes t" "list_all2 ?R (enumerate 0 vs) prepared" using 1 by (simp_all add: a)
    have l: "length prepared = length vs" using p(3) by (auto dest: list_all2_lengthD)
    have nth: "dup \<noteq> Some i \<and> prepared_variant_name (prepared ! i) = variant_name (vs ! i) \<and> wf_variant u (prepared ! i)"
      if "i < length vs" for i
      using list_all2_nthD [OF p(3), of i] that by (simp add: nth_enumerate_eq)
    have names: "map prepared_variant_name prepared = map variant_name vs" using nth l by (auto intro: nth_equalityI)
    have "index_ok (map variant_name vs) slots"
      by (rule declared_once [OF d grown_self [OF assms(2)], of t]) (use p nth in \<open>auto simp: grown_def\<close>)
    then show ?case using nth l names p(1) grown_trans [OF assms(2)]
      by (auto simp: a list_all_length variant_names_def)
  qed
qed

section \<open>Types and schemas\<close>

lemma wf_choice: "wf_type u (ChoicePrepared name vs) \<longleftrightarrow>
    user_name u name \<and> index_ok (variant_names vs) (variant_lookup vs) \<and> list_all (wf_variant u) (declared_variants vs)"
  by (cases vs) (simp add: variant_names_def)

lemma prepare_type_wf:
  "grown lm b0 b \<Longrightarrow> settles (\<lambda>(p, b'). grown lm b0 b' \<and> wf_type u p) (prepare_type u lm ty path depth b)"
proof (induction ty arbitrary: path depth b0 b rule: measure_induct_rule [where f = size])
  case (less ty)
  note IH = less.IH
  note g = less.prems
  have sub: "prepares u lm (\<lambda>ty p b. prepare_type u lm ty p (depth + 1) b) ty'" if "size ty' < size ty" for ty'
    using IH [OF that] by (auto simp: prepares_def)
  show ?case
  proof (cases ty)
    case (OptionalSchema inner)
    show ?thesis unfolding OptionalSchema
      apply (subst prepare_type.simps, rule settles_depth, rule settles_bind_charge(1) [OF g], unfold schema_type.case)
      apply (rule outcome_bindI [OF preparesD [OF sub]])
      by (auto simp: OptionalSchema)
  next
    case (RecordSchema fs)
    have f: "prepares u lm (\<lambda>ty p b. prepare_type u lm ty p (depth + 1) b) (field_type field)" if "field \<in> set fs" for field
      using size_field_type [OF that] by (intro sub) (simp add: RecordSchema)
    show ?thesis unfolding RecordSchema
      apply (subst prepare_type.simps, rule settles_depth, rule settles_bind_charge(1) [OF g], unfold schema_type.case)
      apply (rule outcome_bindI [OF prepare_fields_wf [OF f]], assumption, assumption)
      by auto
  next
    case (StructSchema name fs)
    have f: "prepares u lm (\<lambda>ty p b. prepare_type u lm ty p (depth + 1) b) (field_type field)" if "field \<in> set fs" for field
      using size_field_type [OF that] by (intro sub) (simp add: StructSchema)
    show ?thesis unfolding StructSchema
      apply (subst prepare_type.simps, rule settles_depth, rule settles_bind_charge(1) [OF g], unfold schema_type.case)
      apply (rule settles_bind_charge(2), assumption, rule outcome_bindI [OF validate_identifier_user])
      apply (rule outcome_bindI [OF prepare_fields_wf [OF f]], assumption, assumption)
      by auto
  next
    case (CollectionSchema element)
    show ?thesis unfolding CollectionSchema
      apply (subst prepare_type.simps, rule settles_depth, rule settles_bind_charge(1) [OF g], unfold schema_type.case)
      apply (rule outcome_bindI [OF preparesD [OF sub]])
      by (auto simp: CollectionSchema)
  next
    case (MapSchema key val)
    have v: "settles (\<lambda>(p, b'). grown lm b0 b' \<and> wf_type u p)
        (if \<not> is_supported_map_key k then Inl (schema_error InvalidMapKey path)
         else result_bind (prepare_type u lm val path (depth + 1) b) (\<lambda>(val, b). Inr (MapPrepared k val, b)))"
      if "grown lm b0 b" for k b
    proof (cases "is_supported_map_key k")
      case True
      have "settles (\<lambda>(p, b'). grown lm b0 b' \<and> wf_type u p)
          (result_bind (prepare_type u lm val path (depth + 1) b) (\<lambda>(val, b). Inr (MapPrepared k val, b)))"
        by (rule outcome_bindI [OF preparesD [OF sub that]]) (use True in \<open>auto simp: MapSchema\<close>)
      then show ?thesis using True by simp
    qed simp
    show ?thesis unfolding MapSchema
      by (subst prepare_type.simps, rule settles_depth, rule settles_bind_charge(1) [OF g], unfold schema_type.case)
         (rule outcome_bindI [OF preparesD [OF sub]], simp add: MapSchema, assumption, use v in \<open>clarsimp split del: if_split\<close>)
  next
    case (ChoiceSchema name vs)
    have f: "prepares u lm (\<lambda>ty p b. prepare_type u lm ty p (depth + 1) b) (field_type field)"
      if "variant \<in> set vs" "field \<in> set (variant_fields variant)" for variant field
      using size_variant_field_type [OF that] by (intro sub) (simp add: ChoiceSchema)
    show ?thesis unfolding ChoiceSchema
      apply (subst prepare_type.simps, rule settles_depth, rule settles_bind_charge(1) [OF g], unfold schema_type.case)
      apply (rule settles_bind_charge(2), assumption, rule outcome_bindI [OF validate_identifier_user])
      apply (rule outcome_bindI [OF prepare_variants_wf [OF f]], assumption, assumption, assumption)
      by (clarsimp simp: wf_choice simp del: wf_type.simps)
  next
    case (UnsupportedSchemaType name)
    show ?thesis unfolding UnsupportedSchemaType
      by (subst prepare_type.simps, rule settles_depth, rule settles_bind_charge(1) [OF g], unfold schema_type.case)
         (rule settles_bind_charge(2), assumption, rule outcome_bindI [OF validate_identifier_user], simp)
  next
    case (DecimalSchema scale)
    show ?thesis unfolding DecimalSchema
      by (subst prepare_type.simps, rule settles_depth, rule settles_bind_charge(1) [OF g], unfold schema_type.case)
         (auto simp: number_scale_new_def scale_ok_def split: option.split if_splits)
  qed (subst prepare_type.simps, rule settles_depth, rule settles_bind_charge(1) [OF g], simp)+
qed


lemma prepare_schema_wf:
  assumes "prepare_schema u s = Inr p"
  shows "wf_type u (prepared_root p)" "prepared_limits p = schema_limits s" "max_depth (prepared_limits p) \<le> max_safe_depth"
proof -
  have d: "\<not> max_safe_depth < max_depth (schema_limits s)" using assms by (auto simp: prepare_schema_def)
  obtain ty b where r: "prepare_type u (schema_limits s) (schema_root s) [] 0 budget_new = Inr (ty, b)"
    "p = \<lparr>prepared_root = ty, prepared_limits = schema_limits s\<rparr>"
    using assms d by (auto simp: prepare_schema_def result_bind_eq_Inr_iff)
  have "grown (schema_limits s) budget_new budget_new" by (simp add: grown_def within_limits_def budget_new_def)
  from prepare_type_wf [OF this, of u "schema_root s" "[]" 0] show "wf_type u (prepared_root p)" by (simp add: r)
  show "prepared_limits p = schema_limits s" "max_depth (prepared_limits p) \<le> max_safe_depth" using d by (simp_all add: r(2))
qed

lemma completed_value:
  assumes "prepare_schema u s = Inr p"
  shows "settles (\<lambda>w. completes v (prepared_root p) w \<and> typed w (prepared_root p))
    (validate_and_complete_value u v (prepared_root p) (prepared_limits p))"
proof -
  let ?lm = "prepared_limits p"
  have "grown ?lm budget_new budget_new" by (simp add: grown_def within_limits_def budget_new_def)
  from complete_value_completes [OF prepare_schema_wf(1) [OF assms] this] show ?thesis
    unfolding validate_and_complete_value_def by (rule outcome_bindI) auto
qed

lemma completed_typed:
  assumes "prepare_schema u s = Inr p"
    and "validate_and_complete_value u v (prepared_root p) (prepared_limits p) = Inr w"
  shows "typed w (prepared_root p)"
  using completed_value [OF assms(1), of v] by (simp add: assms(2))

section \<open>Properties\<close>

text \<open>C7. A schema that preparation accepts is well formed throughout: every record, choice and variant
  has distinct user-chosen names which its sorted index looks up exactly, map keys are of the
  supported types, no optional type accepts \<open>none\<close> twice, every decimal scale is in range, defaults
  occur only outside choice payloads and each is a complete value of its field's type; and the depth
  limit is at most the safe depth.\<close>

theorem prepared_schemas_well_formed:
  assumes "prepare_schema u s = Inr p"
  shows "wf_type u (prepared_root p) \<and> prepared_limits p = schema_limits s \<and> max_depth (prepared_limits p) \<le> 64"
  using prepare_schema_wf [OF assms] by (simp add: max_safe_depth_def)

text \<open>The schema of a record with an integer field and a default.\<close>

definition sample_schema :: schema where
  "sample_schema = record_schema
     [required_field (ustr ''id'') StringSchema, field_with_default (ustr ''retries'') (FixedSchema U8) (FixedValue (PayloadU8 3))]"

definition sample_prepared :: prepared_schema where
  "sample_prepared = \<lparr>prepared_root = RecordPrepared (PreparedFields
       [PreparedField (ustr ''id'') StringPrepared None,
        PreparedField (ustr ''retries'') (FixedPrepared U8) (Some (FixedValue (PayloadU8 3)))] [0, 1]),
     prepared_limits = default_limits\<rparr>"

definition ascii_only :: unicode where
  "ascii_only = \<lparr>alphabetic_beyond_ascii = \<lambda>_. False, numeric_beyond_ascii = \<lambda>_. False\<rparr>"

lemma sample_prepares: "prepare_schema ascii_only sample_schema = Inr sample_prepared"
  by code_simp

text \<open>A value of the schema that leaves the default out, and its completion.\<close>

definition sample_input :: mon_value where
  "sample_input = RecordValue [(ustr ''id'', StringValue (ustr ''a''))]"

definition sample_value :: mon_value where
  "sample_value = RecordValue [(ustr ''id'', StringValue (ustr ''a'')), (ustr ''retries'', FixedValue (PayloadU8 3))]"

lemma sample_completes:
  "validate_and_complete_value ascii_only sample_input (prepared_root sample_prepared) (prepared_limits sample_prepared) =
     Inr sample_value"
  by code_simp

theorem prepared_schemas_well_formed_witness: "wf_type ascii_only (prepared_root sample_prepared)"
  using prepared_schemas_well_formed [OF sample_prepares] by simp

text \<open>C9. Validation against a prepared schema never panics, and what it returns is the completion of the
  given value: scalars and texts are kept, floats rounded once at their width, every declared field is
  present once and in declaration order, with the completion of the value given under its name or, when
  none is given, with its default, members of containers are completed in place; map keys are distinct,
  integer and decimal texts in the grammar and scale, float payloads finite and exact at their width.\<close>

theorem completed_values_typed:
  assumes "prepare_schema u s = Inr p"
  shows "case validate_and_complete_value u v (prepared_root p) (prepared_limits p) of
      Inr w \<Rightarrow> completes v (prepared_root p) w \<and> typed w (prepared_root p)
    | Inl stopped \<Rightarrow> \<exists>e. stopped = MonFailure e"
  using completed_value [OF assms, of v] by (auto simp: outcome_def is_failure_def split: sum.splits mon_stop.splits)

theorem completed_values_typed_witness:
  "completes sample_input (prepared_root sample_prepared) sample_value \<and> typed sample_value (prepared_root sample_prepared)"
  using completed_values_typed [OF sample_prepares, of sample_input] by (simp add: sample_completes)

end
