(* ===== verification/Mon_Reader.thy ===== *)
theory Mon_Reader
  imports Mon_Parser Mon_Schema
begin

text \<open>
  The decoder of MON documents (the second half of \<open>crates/moth-mon/src/reader.rs\<close>): raw literals are
  validated against a prepared schema, named and positional arguments are matched to the declared
  fields, defaults are filled in and map keys checked for duplicates, up to the owned value.

  \<^item> \<open>checks\<close> says whether the build checks arithmetic overflow: the conversion of a literal to \<open>F16\<close>
    can then panic (see \<open>Binary16\<close>), the value \<open>MonPanic\<close>. \<open>CarrierPanic\<close> is the \<open>expect\<close> of the
    payload accessors and \<open>KeyIndexPanic\<close> the \<open>unreachable!\<close> of the key index of a map; both are proved
    not to occur.
  \<^item> The vector \<open>path\<close> is an argument, as in the schema component.
\<close>

section \<open>Scalars\<close>

definition type_mismatch :: "mon_span \<Rightarrow> mon_path \<Rightarrow> (mon_stop, 'a) result" where
  "type_mismatch sp path = stop TypeMismatch sp path"

definition read_charge_nodes ::
  "limits \<Rightarrow> nat \<Rightarrow> mon_span \<Rightarrow> mon_path \<Rightarrow> budget \<Rightarrow> (mon_stop, budget) result" where
  "read_charge_nodes lm count sp path b =
     lift_failure (with_path path (charge_nodes lm count (Some sp) b))"

definition read_charge_decoded ::
  "limits \<Rightarrow> nat \<Rightarrow> mon_span \<Rightarrow> mon_path \<Rightarrow> budget \<Rightarrow> (mon_stop, budget) result" where
  "read_charge_decoded lm count sp path b =
     lift_failure (with_path path (charge_decoded_bytes lm count (Some sp) b))"

definition read_charge_default ::
  "limits \<Rightarrow> mon_span \<Rightarrow> mon_path \<Rightarrow> budget \<Rightarrow> (mon_stop, budget) result" where
  "read_charge_default lm sp path b = lift_failure (with_path path (charge_default lm (Some sp) b))"

definition read_check_depth ::
  "limits \<Rightarrow> nat \<Rightarrow> mon_span \<Rightarrow> mon_path \<Rightarrow> (mon_stop, unit) result" where
  "read_check_depth lm depth sp path = lift_failure (with_path path (check_depth lm depth (Some sp)))"

definition fixed_error_code :: "number_literal_error_reason \<Rightarrow> mon_error_code" where
  "fixed_error_code reason =
     (case reason of
        NonFiniteFixedFloat _ \<Rightarrow> NonFiniteFloat
      | OutsideFixedScalarRange _ \<Rightarrow> NumericRange
      | NegativeUnsignedLiteral _ \<Rightarrow> NumericRange
      | _ \<Rightarrow> NumericSyntax)"

definition starts_negative :: "utext \<Rightarrow> bool" where
  "starts_negative s \<longleftrightarrow> take 1 s = ustr ''-''"

definition validate_fixed ::
  "bool \<Rightarrow> raw_value \<Rightarrow> fixed_scalar \<Rightarrow> mon_path \<Rightarrow> (mon_stop, mon_value) result" where
  "validate_fixed checks raw scalar path =
     (case raw_kind raw of
        RawNumber number \<Rightarrow>
          if \<not> literal_kind_initialises (raw_numeric_kind number) scalar
          then stop NumericType (raw_span raw) path
          else
            (case materialize_normalized_fixed_scalar checks (raw_normalized number)
                    (starts_negative (raw_text number)) scalar of
               Inl panic \<Rightarrow> Inl (MonPanic panic)
             | Inr (Inl reason) \<Rightarrow> stop (fixed_error_code reason) (raw_span raw) path
             | Inr (Inr materialised) \<Rightarrow> ok_or (fixed_scalar_to_value materialised) CarrierPanic)
      | _ \<Rightarrow> stop TypeMismatch (raw_span raw) path)"

definition take_signed_normalized_text ::
  "limits \<Rightarrow> numeric_raw \<Rightarrow> mon_span \<Rightarrow> mon_path \<Rightarrow> budget \<Rightarrow> (mon_stop, utext \<times> budget) result" where
  "take_signed_normalized_text lm number sp path b =
     (if starts_negative (raw_text number)
      then result_bind (read_charge_decoded lm 1 sp path b)
             (\<lambda>b. Inr (ustr ''-'' @ ustr (raw_normalized number), b))
      else Inr (ustr (raw_normalized number), b))"

definition validate_integer ::
  "limits \<Rightarrow> raw_value \<Rightarrow> mon_path \<Rightarrow> budget \<Rightarrow> (mon_stop, mon_value \<times> budget) result" where
  "validate_integer lm raw path b =
     (case raw_kind raw of
        RawNumber number \<Rightarrow>
          if raw_numeric_kind number \<noteq> WholeNumber then stop NumericType (raw_span raw) path
          else result_bind (take_signed_normalized_text lm number (raw_span raw) path b)
                 (\<lambda>(normalized, b). Inr (IntegerValue normalized, b))
      | _ \<Rightarrow> type_mismatch (raw_span raw) path)"

definition validate_decimal ::
  "limits \<Rightarrow> raw_value \<Rightarrow> number_scale \<Rightarrow> mon_path \<Rightarrow> budget \<Rightarrow> (mon_stop, mon_value \<times> budget) result" where
  "validate_decimal lm raw scale path b =
     (case raw_kind raw of
        RawNumber number \<Rightarrow>
          if scale_get scale < effective_decimal_scale (raw_normalized number)
          then stop NumericScale (raw_span raw) path
          else result_bind (take_signed_normalized_text lm number (raw_span raw) path b)
                 (\<lambda>(normalized, b). Inr (DecimalValue normalized, b))
      | _ \<Rightarrow> type_mismatch (raw_span raw) path)"

section \<open>Records\<close>

text \<open>The operations below take the validation of a nested value, of a type, a path and a budget.\<close>

type_synonym value_validator =
  "raw_value \<Rightarrow> prepared_type \<Rightarrow> mon_path \<Rightarrow> budget \<Rightarrow> (mon_stop, mon_value \<times> budget) result"

definition qualifier_check ::
  "utext option \<Rightarrow> raw_identifier option \<Rightarrow> mon_span \<Rightarrow> mon_path \<Rightarrow> (mon_stop, unit) result" where
  "qualifier_check expected_qualifier qualifier sp path =
     (case (expected_qualifier, qualifier) of
        (None, Some _) \<Rightarrow> stop QualifierMismatch sp path
      | (Some expected, Some actual) \<Rightarrow>
          if expected \<noteq> id_name actual then stop QualifierMismatch (id_span actual) path else Inr ()
      | _ \<Rightarrow> Inr ())"

primrec record_arguments ::
  "limits \<Rightarrow> value_validator \<Rightarrow> bool \<Rightarrow> prepared_fields \<Rightarrow> mon_path \<Rightarrow> raw_arg list \<Rightarrow> nat \<Rightarrow> bool
   \<Rightarrow> mon_value option list \<Rightarrow> budget \<Rightarrow> (mon_stop, mon_value option list \<times> budget) result" where
  "record_arguments lm vv allow_positional fs path [] positional_index named_started supplied b =
     Inr (supplied, b)"
| "record_arguments lm vv allow_positional fs path (argument # args) positional_index named_started supplied b =
     (case argument of
        PositionalArg v sp \<Rightarrow>
          if \<not> allow_positional \<or> named_started then stop ArgumentOrder sp path
          else if length (declared_fields fs) \<le> positional_index then stop Arity sp path
          else
            (let field = declared_fields fs ! positional_index in
             result_bind (read_charge_decoded lm (text_len (prepared_name field)) sp path b) (\<lambda>b.
             result_bind (vv v (prepared_ty field) (path @ [FieldSegment (prepared_name field)]) b)
               (\<lambda>(converted, b).
                 record_arguments lm vv allow_positional fs path args (positional_index + 1) named_started
                   (supplied[positional_index := Some converted]) b)))
      | NamedArg name name_span v _ \<Rightarrow>
          (case fields_find fs name of
             None \<Rightarrow>
               result_bind (read_charge_decoded lm (text_len name) name_span path b) (\<lambda>b.
                 stop UnknownField name_span (path @ [FieldSegment name]))
           | Some index \<Rightarrow>
               if supplied ! index \<noteq> None then
                 result_bind (read_charge_decoded lm (text_len name) name_span path b) (\<lambda>b.
                   stop DuplicateField name_span (path @ [FieldSegment name]))
               else
                 result_bind (read_charge_decoded lm (text_len name) name_span path b) (\<lambda>b.
                 result_bind (vv v (prepared_ty (declared_fields fs ! index)) (path @ [FieldSegment name]) b)
                   (\<lambda>(converted, b).
                     record_arguments lm vv allow_positional fs path args positional_index True
                       (supplied[index := Some converted]) b))))"

text \<open>The second loop of \<open>validate_record\<close>.\<close>

definition finish_fields ::
  "limits \<Rightarrow> mon_span \<Rightarrow> mon_path \<Rightarrow> nat \<Rightarrow> (mon_value option \<times> prepared_field) list \<Rightarrow> budget
   \<Rightarrow> (mon_stop, (utext \<times> mon_value) list \<times> budget) result" where
  "finish_fields lm sp path depth slots b =
     collect_each (\<lambda>(supplied, field) b.
       let name = prepared_name field; field_path = path @ [FieldSegment name] in
       result_bind
         (case supplied of
            Some v \<Rightarrow> Inr (v, b)
          | None \<Rightarrow>
              (case prepared_default field of
                 Some dflt \<Rightarrow>
                   result_bind (read_charge_default lm sp path b) (\<lambda>b.
                   result_bind (read_charge_decoded lm (text_len name) sp path b) (\<lambda>b.
                     lift_failure (clone_default lm (Some sp) dflt field_path (depth + 1) b)))
               | None \<Rightarrow>
                   result_bind (read_charge_decoded lm (text_len name) sp path b) (\<lambda>b.
                     stop MissingField sp field_path)))
         (\<lambda>(v, b).
           result_bind (read_charge_decoded lm (text_len name) sp path b) (\<lambda>b. Inr ((name, v), b)))) slots b"

definition validate_record ::
  "limits \<Rightarrow> value_validator \<Rightarrow> raw_value \<Rightarrow> utext option \<Rightarrow> prepared_fields \<Rightarrow> mon_path \<Rightarrow> nat \<Rightarrow> budget
   \<Rightarrow> (mon_stop, mon_value \<times> budget) result" where
  "validate_record lm vv raw expected_qualifier fs path depth b =
     (case raw_kind raw of
        RawRecord qualifier args \<Rightarrow>
          result_bind (qualifier_check expected_qualifier qualifier (raw_span raw) path) (\<lambda>_.
          result_bind (record_arguments lm vv (expected_qualifier \<noteq> None \<and> qualifier \<noteq> None) fs path args
                         0 False (replicate (length (declared_fields fs)) None) b) (\<lambda>(supplied, b).
          result_bind (finish_fields lm (raw_span raw) path depth (zip supplied (declared_fields fs)) b)
            (\<lambda>(output, b). Inr (RecordValue output, b))))
      | _ \<Rightarrow> type_mismatch (raw_span raw) path)"

section \<open>Maps\<close>

text \<open>The key of one entry, up to the descent into its value; the result carries the path there.\<close>

definition admit_decoded_key ::
  "limits \<Rightarrow> mon_span \<Rightarrow> mon_path \<Rightarrow> nat \<Rightarrow> mon_value \<Rightarrow> map_key_index \<Rightarrow> budget
   \<Rightarrow> (mon_stop, map_key_index \<times> budget) result" where
  "admit_decoded_key lm key_span path i key seen b =
     (case contains_value seen key of
        None \<Rightarrow> stop InvalidMapKey key_span (path @ [IndexSegment i])
      | Some is_duplicate \<Rightarrow>
          result_bind (read_charge_decoded lm (map_key_name_len key) key_span path b) (\<lambda>b.
          if is_duplicate then stop DuplicateMapKey key_span (path @ [MapKeySegment (map_key_name key)])
          else
            result_bind (read_charge_nodes lm 1 key_span path b) (\<lambda>b.
            result_bind (case key of
                StringValue _ \<Rightarrow> read_charge_decoded lm (map_key_name_len key) key_span path b
              | _ \<Rightarrow> Inr b)
              (\<lambda>b. Inr (insert_value seen key, b)))))"

definition validate_map ::
  "limits \<Rightarrow> value_validator \<Rightarrow> (raw_value \<times> raw_value) list \<Rightarrow> prepared_type \<Rightarrow> prepared_type \<Rightarrow> mon_path
   \<Rightarrow> mon_span \<Rightarrow> budget \<Rightarrow> (mon_stop, mon_value \<times> budget) result" where
  "validate_map lm vv entries key_type value_type path sp b =
     (case map_key_index_new key_type of
        None \<Rightarrow> Inl KeyIndexPanic
      | Some empty_index \<Rightarrow>
          result_bind (collect_each (\<lambda>(i, raw_key, raw_value) (seen, b).
              result_bind (vv raw_key key_type (path @ [IndexSegment i]) b) (\<lambda>(key, b).
              result_bind (admit_decoded_key lm (raw_span raw_key) path i key seen b) (\<lambda>(seen, b).
              result_bind (vv raw_value value_type (path @ [MapKeySegment (map_key_name key)]) b)
                (\<lambda>(v, b). Inr ((key, v), (seen, b))))))
              (enumerate 0 entries) (empty_index, b))
            (\<lambda>(output, _, b). Inr (MapValue output, b)))"

section \<open>Choices\<close>

definition owned_choice_header ::
  "limits \<Rightarrow> raw_identifier option \<Rightarrow> raw_identifier \<Rightarrow> mon_path \<Rightarrow> budget
   \<Rightarrow> (mon_stop, (utext option \<times> utext) \<times> budget) result" where
  "owned_choice_header lm qualifier variant path b =
     result_bind (case qualifier of
         Some q \<Rightarrow>
           result_bind (read_charge_decoded lm (text_len (id_name q)) (id_span q) path b)
             (\<lambda>b. Inr (Some (id_name q), b))
       | None \<Rightarrow> Inr (None, b)) (\<lambda>(qualifier, b).
     result_bind (read_charge_decoded lm (text_len (id_name variant)) (id_span variant) path b)
       (\<lambda>b. Inr ((qualifier, id_name variant), b)))"

definition charge_variant_and_field ::
  "limits \<Rightarrow> raw_identifier \<Rightarrow> utext \<Rightarrow> mon_span \<Rightarrow> mon_path \<Rightarrow> budget \<Rightarrow> (mon_stop, budget) result" where
  "charge_variant_and_field lm variant name sp path b =
     result_bind (read_charge_decoded lm (text_len (id_name variant)) (id_span variant) path b)
       (read_charge_decoded lm (text_len name) sp path)"

primrec choice_arguments ::
  "limits \<Rightarrow> value_validator \<Rightarrow> raw_identifier \<Rightarrow> prepared_fields \<Rightarrow> mon_path \<Rightarrow> raw_arg list \<Rightarrow> nat \<Rightarrow> bool
   \<Rightarrow> mon_value option list \<Rightarrow> budget \<Rightarrow> (mon_stop, mon_value option list \<times> budget) result" where
  "choice_arguments lm vv variant fs path [] positional_index named_started supplied b = Inr (supplied, b)"
| "choice_arguments lm vv variant fs path (argument # args) positional_index named_started supplied b =
     (let argument_path = (\<lambda>name. path @ [VariantSegment (id_name variant), FieldSegment name]) in
      case argument of
        PositionalArg v sp \<Rightarrow>
          if named_started then stop ArgumentOrder sp path
          else if length (declared_fields fs) \<le> positional_index then stop Arity sp path
          else
            (let field = declared_fields fs ! positional_index in
             result_bind (charge_variant_and_field lm variant (prepared_name field) sp path b) (\<lambda>b.
             result_bind (vv v (prepared_ty field) (argument_path (prepared_name field)) b)
               (\<lambda>(converted, b).
                 choice_arguments lm vv variant fs path args (positional_index + 1) named_started
                   (supplied[positional_index := Some converted]) b)))
      | NamedArg name name_span v _ \<Rightarrow>
          (case fields_find fs name of
             None \<Rightarrow>
               result_bind (charge_variant_and_field lm variant name name_span path b) (\<lambda>b.
                 stop UnknownArgument name_span (argument_path name))
           | Some index \<Rightarrow>
               if supplied ! index \<noteq> None then
                 result_bind (charge_variant_and_field lm variant name name_span path b) (\<lambda>b.
                   stop DuplicateArgument name_span (argument_path name))
               else
                 result_bind (charge_variant_and_field lm variant name name_span path b) (\<lambda>b.
                 result_bind (vv v (prepared_ty (declared_fields fs ! index)) (argument_path name) b)
                   (\<lambda>(converted, b).
                     choice_arguments lm vv variant fs path args positional_index True
                       (supplied[index := Some converted]) b))))"

text \<open>The second loop of \<open>validate_choice\<close>: variants have no defaults.\<close>

definition finish_choice_fields ::
  "limits \<Rightarrow> raw_identifier \<Rightarrow> mon_span \<Rightarrow> mon_path \<Rightarrow> (mon_value option \<times> prepared_field) list \<Rightarrow> budget
   \<Rightarrow> (mon_stop, (utext \<times> mon_value) list \<times> budget) result" where
  "finish_choice_fields lm variant sp path slots b =
     collect_each (\<lambda>(supplied, field) b.
       let name = prepared_name field in
       case supplied of
         None \<Rightarrow>
           result_bind (charge_variant_and_field lm variant name sp path b) (\<lambda>b.
             stop Arity sp (path @ [VariantSegment (id_name variant), FieldSegment name]))
       | Some v \<Rightarrow>
           result_bind (read_charge_decoded lm (text_len name) sp path b) (\<lambda>b. Inr ((name, v), b))) slots b"

definition validate_choice ::
  "limits \<Rightarrow> value_validator \<Rightarrow> raw_value \<Rightarrow> utext \<Rightarrow> prepared_variants \<Rightarrow> mon_path \<Rightarrow> budget
   \<Rightarrow> (mon_stop, mon_value \<times> budget) result" where
  "validate_choice lm vv raw expected_name variants path b =
     (case raw_kind raw of
        RawChoice qualifier variant args \<Rightarrow>
          (let sp = raw_span raw in
           result_bind (qualifier_check (Some expected_name) qualifier sp path) (\<lambda>_.
           case variants_find variants (id_name variant) of
             None \<Rightarrow>
               result_bind (read_charge_decoded lm (text_len (id_name variant)) (id_span variant) path b) (\<lambda>b.
                 stop UnknownVariant (id_span variant) (path @ [VariantSegment (id_name variant)]))
           | Some index \<Rightarrow>
               (let fs = prepared_variant_fields (declared_variants variants ! index) in
                if declared_fields fs = [] then
                  (if args \<noteq> None then stop Arity sp path
                   else result_bind (owned_choice_header lm qualifier variant path b) (\<lambda>((q, name), b).
                     Inr (ChoiceValue q name [], b)))
                else
                  (case args of
                     None \<Rightarrow> stop Arity sp path
                   | Some args \<Rightarrow>
                       result_bind (choice_arguments lm vv variant fs path args 0 False
                                      (replicate (length (declared_fields fs)) None) b) (\<lambda>(supplied, b).
                       result_bind (owned_choice_header lm qualifier variant path b) (\<lambda>((q, name), b).
                       result_bind (finish_choice_fields lm variant sp path
                                      (zip supplied (declared_fields fs)) b)
                         (\<lambda>(output, b). Inr (ChoiceValue q name output, b))))))))
      | _ \<Rightarrow> type_mismatch (raw_span raw) path)"

section \<open>Values\<close>

fun arg_value :: "raw_arg \<Rightarrow> raw_value" where
  "arg_value (PositionalArg v _) = v"
| "arg_value (NamedArg _ _ v _) = v"

lemma record_arguments_cong [fundef_cong]:
  assumes "args = args'"
    and pos: "\<And>v sp ty p c. PositionalArg v sp \<in> set args' \<Longrightarrow> vv v ty p c = vv' v ty p c"
    and named: "\<And>n s v sp ty p c. NamedArg n s v sp \<in> set args' \<Longrightarrow> vv v ty p c = vv' v ty p c"
    and "i = i'" "named = named'" "supplied = supplied'" "b = b'"
  shows "record_arguments lm vv allow fs path args i named supplied b =
    record_arguments lm vv' allow fs path args' i' named' supplied' b'"
  unfolding assms(1,4-7) using pos named
proof (induction args' arbitrary: allow i' named' supplied' b')
  case Nil
  then show ?case by simp
next
  case (Cons a args')
  have IH: "record_arguments lm vv al fs path args' j m t c = record_arguments lm vv' al fs path args' j m t c" for al j m t c
    by (rule Cons.IH) (rule Cons.prems, erule list.set_intros(2))+
  show ?case
    by (cases a) (auto simp: IH Let_def split: option.split intro!: result_bind_cong intro: Cons.prems)
qed

lemma choice_arguments_cong [fundef_cong]:
  assumes "args = args'"
    and pos: "\<And>v sp ty p c. PositionalArg v sp \<in> set args' \<Longrightarrow> vv v ty p c = vv' v ty p c"
    and named: "\<And>n s v sp ty p c. NamedArg n s v sp \<in> set args' \<Longrightarrow> vv v ty p c = vv' v ty p c"
    and "i = i'" "named = named'" "supplied = supplied'" "b = b'"
  shows "choice_arguments lm vv variant fs path args i named supplied b =
    choice_arguments lm vv' variant fs path args' i' named' supplied' b'"
  unfolding assms(1,4-7) using pos named
proof (induction args' arbitrary: i' named' supplied' b')
  case Nil
  then show ?case by simp
next
  case (Cons a args')
  have IH: "choice_arguments lm vv variant fs path args' j m t c = choice_arguments lm vv' variant fs path args' j m t c" for j m t c
    by (rule Cons.IH) (rule Cons.prems, erule list.set_intros(2))+
  show ?case
    by (cases a) (auto simp: IH Let_def split: option.split intro!: result_bind_cong intro: Cons.prems)
qed

lemma validate_map_cong [fundef_cong]:
  assumes "entries = entries'" "b = b'"
    and "\<And>k v ty p c. (k, v) \<in> set entries' \<Longrightarrow> vv k ty p c = vv' k ty p c"
    and "\<And>k v ty p c. (k, v) \<in> set entries' \<Longrightarrow> vv v ty p c = vv' v ty p c"
  shows "validate_map lm vv entries kt vt path sp b = validate_map lm vv' entries' kt vt path sp b'"
  unfolding validate_map_def assms(1,2)
  by (auto simp: assms(3,4) [OF enumerate_member] split: option.split
      intro!: result_bind_cong collect_each_cong)

fun kind_values :: "raw_kind \<Rightarrow> raw_value list" where
  "kind_values (RawRecord _ args) = map arg_value args"
| "kind_values (RawCollection items) = items"
| "kind_values (RawMap entries) = map fst entries @ map snd entries"
| "kind_values (RawChoice _ _ (Some args)) = map arg_value args"
| "kind_values _ = []"

lemma validate_record_cong [fundef_cong]:
  assumes "raw = raw'" "b = b'"
    and "\<And>v ty p c. v \<in> set (kind_values (raw_kind raw')) \<Longrightarrow> vv v ty p c = vv' v ty p c"
  shows "validate_record lm vv raw q fs path depth b = validate_record lm vv' raw' q fs path depth b'"
  unfolding validate_record_def assms(1,2)
  by (cases raw') (force split: raw_kind.split intro!: result_bind_cong record_arguments_cong assms(3))

lemma validate_choice_cong [fundef_cong]:
  assumes "raw = raw'" "b = b'"
    and "\<And>v ty p c. v \<in> set (kind_values (raw_kind raw')) \<Longrightarrow> vv v ty p c = vv' v ty p c"
  shows "validate_choice lm vv raw q vs path b = validate_choice lm vv' raw' q vs path b'"
  unfolding validate_choice_def assms(1,2)
  by (cases raw') (force simp: Let_def split: raw_kind.split option.split
      intro!: result_bind_cong choice_arguments_cong assms(3))

lemma size_kind_values: "v \<in> set (kind_values (raw_kind raw)) \<Longrightarrow> size v < size raw"
proof (cases raw)
  case (RawValue sp k)
  have arg: "size (arg_value a) < size_list size args" if "a \<in> set args" for a args
  proof -
    have "size (arg_value a) < size a" by (cases a) simp_all
    also have "size a \<le> size_list size args" by (rule size_list_estimation' [OF that]) simp
    finally show ?thesis .
  qed
  have item: "size v \<le> size_list size items" if "v \<in> set items" for items
    using size_list_estimation' [OF that, of "size v" size] by simp
  have entry: "size x \<le> Suc (size_list (size_prod size size) entries)"
    "size y \<le> Suc (size_list (size_prod size size) entries)"
    if "(x, y) \<in> set entries" for x y :: raw_value and entries
    using size_list_estimation' [OF that, of "size x" "size_prod size size"]
      size_list_estimation' [OF that, of "size y" "size_prod size size"] by simp_all
  assume "v \<in> set (kind_values (raw_kind raw))"
  then show ?thesis
    using RawValue
    by (cases k rule: kind_values.cases) (auto dest!: arg item intro: entry simp: less_Suc_eq_le)
qed

lemma size_item: "raw_kind raw = RawCollection items \<Longrightarrow> (i, v) \<in> set (enumerate n items) \<Longrightarrow> size v < size raw"
  by (rule size_kind_values) (simp add: enumerate_member)

lemma size_entry:
  assumes "raw_kind raw = RawMap entries" "(k, v) \<in> set entries"
  shows "size k < size raw \<and> size v < size raw"
  using assms by (force intro: size_kind_values)

function validate_value ::
  "bool \<Rightarrow> limits \<Rightarrow> raw_value \<Rightarrow> prepared_type \<Rightarrow> mon_path \<Rightarrow> nat \<Rightarrow> budget
   \<Rightarrow> (mon_stop, mon_value \<times> budget) result" where
  "validate_value checks lm raw ty path depth b =
     result_bind (read_check_depth lm depth (raw_span raw) path) (\<lambda>_.
     let sp = raw_span raw in
     case ty of
       NonePrepared \<Rightarrow> (case raw_kind raw of RawNone \<Rightarrow> Inr (NoneValue, b) | _ \<Rightarrow> type_mismatch sp path)
     | BoolPrepared \<Rightarrow> (case raw_kind raw of RawBool x \<Rightarrow> Inr (BoolValue x, b) | _ \<Rightarrow> type_mismatch sp path)
     | CharPrepared \<Rightarrow> (case raw_kind raw of RawChar c \<Rightarrow> Inr (CharValue c, b) | _ \<Rightarrow> type_mismatch sp path)
     | StringPrepared \<Rightarrow>
         (case raw_kind raw of RawString s \<Rightarrow> Inr (StringValue s, b) | _ \<Rightarrow> type_mismatch sp path)
     | IntegerPrepared \<Rightarrow> validate_integer lm raw path b
     | DecimalPrepared scale \<Rightarrow> validate_decimal lm raw scale path b
     | FixedPrepared scalar \<Rightarrow>
         result_bind (validate_fixed checks raw scalar path) (\<lambda>v. Inr (v, b))
     | OptionalPrepared inner \<Rightarrow>
         if raw_kind raw = RawNone then Inr (NoneValue, b)
         else validate_value checks lm raw inner path depth b
     | RecordPrepared fs \<Rightarrow>
         validate_record lm (\<lambda>v t p b. validate_value checks lm v t p (depth + 1) b) raw None fs path depth b
     | StructPrepared name fs \<Rightarrow>
         validate_record lm (\<lambda>v t p b. validate_value checks lm v t p (depth + 1) b) raw (Some name) fs path depth b
     | CollectionPrepared element \<Rightarrow>
         (case raw_kind raw of
            RawCollection items \<Rightarrow>
              result_bind (collect_each (\<lambda>(i, item) b.
                  validate_value checks lm item element (path @ [IndexSegment i]) (depth + 1) b)
                  (enumerate 0 items) b)
                (\<lambda>(output, b). Inr (CollectionValue output, b))
          | RawMap _ \<Rightarrow> stop MapKind sp path
          | _ \<Rightarrow> type_mismatch sp path)
     | MapPrepared key_type value_type \<Rightarrow>
         (case raw_kind raw of
            RawMap entries \<Rightarrow>
              validate_map lm (\<lambda>v t p b. validate_value checks lm v t p (depth + 1) b)
                entries key_type value_type path sp b
          | RawCollection _ \<Rightarrow> stop MapKind sp path
          | _ \<Rightarrow> type_mismatch sp path)
     | ChoicePrepared name variants \<Rightarrow>
         validate_choice lm (\<lambda>v t p b. validate_value checks lm v t p (depth + 1) b) raw name variants path b)"
  by pat_completeness auto

termination
  by (relation "measures [\<lambda>(_, _, raw, _). size raw, \<lambda>(_, _, _, ty, _). size ty]")
     (auto intro: size_kind_values dest: size_item size_entry)

declare validate_value.simps [simp del]

definition validate_root ::
  "bool \<Rightarrow> limits \<Rightarrow> raw_value \<Rightarrow> prepared_type \<Rightarrow> budget \<Rightarrow> (mon_stop, mon_value \<times> budget) result" where
  "validate_root checks lm raw ty b =
     (case raw_kind raw of
        RawRecord qualifier args \<Rightarrow>
          if qualifier \<noteq> None then stop QualifierMismatch (raw_span raw) []
          else
            (case ty of
               RecordPrepared _ \<Rightarrow> validate_value checks lm raw ty [] 0 b
             | StructPrepared _ _ \<Rightarrow> validate_value checks lm raw ty [] 0 b
             | _ \<Rightarrow> stop RootNotRecord (raw_span raw) [])
      | _ \<Rightarrow> stop RootNotRecord (raw_span raw) [])"

section \<open>Documents\<close>

definition decode_document ::
  "unicode \<Rightarrow> bool \<Rightarrow> utext \<Rightarrow> prepared_schema \<Rightarrow> (mon_stop, mon_value) result" where
  "decode_document u checks input schema =
     (let lm = prepared_limits schema; input_end = span_end (text_len input) in
      if max_input_bytes lm < text_len input \<or> u32_max < text_len input
      then stop InputBudget (span_new 0 input_end) []
      else
        result_bind (parse_document u lm (parser_new input)) (\<lambda>(raw, p).
          let p = skip_space_and_comments p in
          if \<not> at_end p then stop TrailingInput (remaining_span p) []
          else
            result_bind (validate_root checks lm raw (prepared_root schema) (parser_budget p))
              (\<lambda>(v, _). Inr v)))"

definition decode_document_bytes ::
  "unicode \<Rightarrow> bool \<Rightarrow> string \<Rightarrow> prepared_schema \<Rightarrow> (mon_stop, mon_value) result" where
  "decode_document_bytes u checks input schema =
     (let lm = prepared_limits schema; input_end = span_end (length input) in
      if max_input_bytes lm < length input \<or> u32_max < length input
      then stop InputBudget (span_new 0 input_end) []
      else
        (case from_utf8 input of
           Inl (valid_up_to, error_len) \<Rightarrow>
             (let end' = (case error_len of
                            Some n \<Rightarrow> saturating_add_usize valid_up_to n
                          | None \<Rightarrow> length input)
              in stop InvalidUtf8 (span_new valid_up_to (span_end end')) [])
         | Inr input \<Rightarrow> decode_document u checks input schema))"

end
