(* ===== verification/Mon_Reader_Safety.thy ===== *)
theory Mon_Reader_Safety
  imports Mon_Parser_Safety Mon_Prepared Mon_Reader
begin

text \<open>
  What every run of the MON decoder keeps: a failure lies within the document, a panic needs overflow
  checks, the payload accessors never panic, and a decoded value is a complete value of the prepared
  type.
\<close>

section \<open>Stops of the decoder\<close>

text \<open>The stops a decoder of a document of \<open>n\<close> bytes may report.\<close>

definition reported :: "bool \<Rightarrow> nat \<Rightarrow> mon_stop \<Rightarrow> bool" where
  "reported checks n s \<longleftrightarrow> located n s \<or> (checks \<and> (\<exists>panic. s = MonPanic panic))"

lemma reported_located: "located n s \<Longrightarrow> reported checks n s"
  by (simp add: reported_def)

lemma reported_stop [intro]: "covered n sp \<Longrightarrow> outcome (reported checks n) Q (stop c sp path)"
  by (auto simp: stop_def located_def mon_error_new_def reported_def)

lemma reported_lift:
  assumes "on_success Q r" "\<And>e. r = Inl e \<Longrightarrow> \<exists>sp. error_span e = Some sp \<and> covered n sp"
  shows "outcome (reported checks n) Q (lift_failure (with_path path r))"
  using assms by (cases r) (auto simp: lift_failure_def with_path_def reported_def located_def)

lemma read_charges:
  assumes "grown lm b0 b" "covered n sp"
  shows "outcome (reported checks n) (grown lm b0) (read_charge_nodes lm k sp path b)"
    "outcome (reported checks n) (grown lm b0) (read_charge_decoded lm k sp path b)"
    "outcome (reported checks n) (grown lm b0) (read_charge_default lm sp path b)"
  unfolding read_charge_nodes_def read_charge_decoded_def read_charge_default_def
  using assms(2)
  by (intro reported_lift outcome_mono [OF charged_nodes [OF assms(1)]] outcome_mono [OF charged_decoded [OF assms(1)]]
        outcome_mono [OF charged_default [OF assms(1)]];
      auto simp: charge_nodes_def charge_decoded_bytes_def charge_default_def mon_error_new_def ok_or_def
        split: option.splits if_splits)+

lemma read_charge_bind:
  assumes "grown lm b0 b" "covered n sp" "\<And>b'. grown lm b0 b' \<Longrightarrow> outcome (reported checks n) Q (f b')"
  shows "outcome (reported checks n) Q (result_bind (read_charge_nodes lm k sp path b) f)"
    "outcome (reported checks n) Q (result_bind (read_charge_decoded lm k sp path b) f)"
    "outcome (reported checks n) Q (result_bind (read_charge_default lm sp path b) f)"
  by (rule outcome_bindI [OF read_charges(1) [OF assms(1,2)]], erule assms(3))
     (rule outcome_bindI [OF read_charges(2) [OF assms(1,2)]], erule assms(3),
      rule outcome_bindI [OF read_charges(3) [OF assms(1,2)]], erule assms(3))

lemma read_depth:
  "covered n sp \<Longrightarrow> outcome (reported checks n) (\<lambda>_. d \<le> max_depth lm) (read_check_depth lm d sp path)"
  unfolding read_check_depth_def by (rule reported_lift) (auto simp: check_depth_def mon_error_new_def split: if_splits)

section \<open>Numbers\<close>

text \<open>The carrier of a materialised literal gives a payload of the scalar.\<close>

lemma carried_payload:
  assumes "fixed_signed scalar z = Some m \<or> fixed_unsigned scalar k = Some m \<or> fixed_binary_float scalar x = Some m"
  shows "\<exists>p. fixed_scalar_to_value m = Some (FixedValue p) \<and> payload_scalar p = scalar \<and> payload_ok p"
  using assms
  by (elim disjE; cases scalar;
      auto simp: fixed_signed_def fixed_unsigned_def fixed_binary_float_def fixed_scalar_to_value_def signed_payload_def
        unsigned_payload_def float_payload_def as_i64_def as_u64_def as_f64_def signed_range_eq unsigned_max_eq
        split: if_splits option.splits prod.splits)

lemma materialized_payload:
  assumes "materialize_normalized_fixed_scalar checks t negative scalar = Inr (Inr m)"
  shows "\<exists>p. fixed_scalar_to_value m = Some (FixedValue p) \<and> payload_scalar p = scalar \<and> payload_ok p"
proof -
  have s: "\<exists>z. fixed_signed scalar z = Some m" if "materialize_signed_fixed_scalar t sign scalar = Inr m" for sign
    using that by (auto simp: materialize_signed_fixed_scalar_def result_bind_eq_Inr_iff ok_or_eq_iff)
  have u: "\<exists>k. fixed_unsigned scalar k = Some m" if "materialize_unsigned_fixed_scalar t sign scalar = Inr m" for sign
    using that by (auto simp: materialize_unsigned_fixed_scalar_def result_bind_eq_Inr_iff ok_or_eq_iff split: if_splits)
  have f: "\<exists>x. fixed_binary_float scalar x = Some m"
    if "materialize_binary_float_fixed_scalar checks t sign scalar = Inr (Inr m)" for sign
    using that by (auto simp: materialize_binary_float_fixed_scalar_def Let_def map_sum_def result_bind_eq_Inr_iff ok_or_eq_iff
        split: option.splits sum.splits)
  show ?thesis
    using assms s u f carried_payload
    by (auto simp: materialize_normalized_fixed_scalar_def Let_def split: fixed_scalar_class.splits; metis)
qed

lemma number_literal:
  assumes "number_ok number"
  obtains ip fp ep where "normal_parts ip fp ep" "raw_normalized number = literal_text ip fp ep"
    "length (literal_text ip fp ep) \<le> u32_max"
proof -
  obtain parsed where p: "parse_numeric_literal (raw_normalized number) = Inr parsed"
    "normalized_text parsed = raw_normalized number"
    using assms by (auto simp: number_ok_def split: sum.splits)
  obtain ip fp ep where l: "normal_parts ip fp ep" "normalized_text parsed = literal_text ip fp ep"
    using normal_parts_of_parsed [OF p(1)] by blast
  moreover have "length (raw_normalized number) \<le> u32_max" using parse_numeric_literal_sound [OF p(1)] by blast
  ultimately show ?thesis using that p(2) by simp
qed

lemma materialize_no_panic:
  assumes "number_ok number" "materialize_normalized_fixed_scalar checks (raw_normalized number) negative scalar = Inl panic"
  shows checks
proof (rule ccontr)
  assume c: "\<not> checks"
  obtain ip fp ep where l: "normal_parts ip fp ep" "raw_normalized number = literal_text ip fp ep"
    "length (literal_text ip fp ep) \<le> u32_max" by (rule number_literal [OF assms(1)])
  have "\<exists>r. decimal_to_f16 checks (raw_normalized number) neg = Inr r" for neg
    unfolding l(2) using decimal_to_f16_once [OF l(1,3)] c by blast
  then show False using assms(2)
    by (auto simp: materialize_normalized_fixed_scalar_def materialize_binary_float_fixed_scalar_def Let_def map_sum_def
        split: fixed_scalar_class.splits option.splits binary_float_precision.splits sum.splits)
       (metis sum.distinct(1))+
qed

lemma validate_fixed_typed:
  assumes "value_in n raw"
  shows "outcome (reported checks n) (\<lambda>w. typed w (FixedPrepared scalar)) (validate_fixed checks raw scalar path)"
proof (cases "raw_kind raw")
  case (RawNumber number)
  have n: "number_ok number" "covered n (raw_span raw)" using assms RawNumber by (cases raw; simp)+
  show ?thesis
  proof (cases "materialize_normalized_fixed_scalar checks (raw_normalized number) (starts_negative (raw_text number)) scalar")
    case (Inl panic)
    then show ?thesis using materialize_no_panic [OF n(1) Inl] n(2)
      by (auto simp: validate_fixed_def RawNumber reported_def)
  next
    case (Inr r)
    then show ?thesis using n(2) materialized_payload [of checks _ _ scalar]
      by (cases r) (fastforce simp: validate_fixed_def RawNumber ok_or_def typed.simps)+
  qed
qed (use value_in_span [OF assms] in \<open>auto simp: validate_fixed_def\<close>)


lemma literal_text_ascii:
  assumes "normal_parts ip fp ep"
  shows "ascii (literal_text ip fp ep)" "\<exists>d ds. literal_text ip fp ep = d # ds \<and> is_ascii_digit d"
proof -
  have d: "ascii s" if "all_digits s" for s
    using that by (auto simp: ascii_def all_digits_def list_all_iff is_ascii_digit_def byte_def)
  show "ascii (literal_text ip fp ep)"
    using assms d by (auto simp: literal_text_def normal_parts_def exponent_sign_text_def split: option.splits
        numeric_exponent_sign.splits)
  show "\<exists>d ds. literal_text ip fp ep = d # ds \<and> is_ascii_digit d"
    using assms by (cases ip) (auto simp: literal_text_def normal_parts_def all_digits_def)
qed

text \<open>A signed normalized text is the text its unsigned part parses as.\<close>

lemma unsigned_normalized:
  assumes "number_ok number"
  shows "utf8 (unsigned_numeric_text (ustr ''-'' @ ustr (raw_normalized number))) = raw_normalized number"
    "utf8 (unsigned_numeric_text (ustr (raw_normalized number))) = raw_normalized number"
proof -
  obtain ip fp ep where l: "normal_parts ip fp ep" "raw_normalized number = literal_text ip fp ep"
    by (rule number_literal [OF assms])
  note a = literal_text_ascii [OF l(1)]
  show "utf8 (unsigned_numeric_text (ustr ''-'' @ ustr (raw_normalized number))) = raw_normalized number"
    using a(1) by (simp add: unsigned_numeric_text_def utf8_ustr l(2))
  obtain d ds where d: "literal_text ip fp ep = d # ds" "is_ascii_digit d" using a(2) by blast
  have "unsigned_numeric_text (ustr (literal_text ip fp ep)) = ustr (literal_text ip fp ep)"
    using d(2) by (auto simp: d(1) unsigned_numeric_text_def is_ascii_digit_def byte_def)
  then show "utf8 (unsigned_numeric_text (ustr (raw_normalized number))) = raw_normalized number"
    using a(1) by (simp add: l(2) utf8_ustr)
qed

lemma signed_normalized:
  assumes "number_ok number" "grown lm b0 b" "covered n sp"
  shows "outcome (reported checks n) (\<lambda>(t, b'). grown lm b0 b' \<and> utf8 (unsigned_numeric_text t) = raw_normalized number)
    (take_signed_normalized_text lm number sp path b)"
  unfolding take_signed_normalized_text_def
  using unsigned_normalized [OF assms(1)] assms(2)
  by (auto intro!: read_charge_bind(2) [OF assms(2,3)])

lemma validate_integer_typed:
  assumes "value_in n raw" "grown lm b0 b"
  shows "outcome (reported checks n) (\<lambda>(w, b'). grown lm b0 b' \<and> typed w IntegerPrepared) (validate_integer lm raw path b)"
proof (cases "raw_kind raw")
  case (RawNumber number)
  have n: "number_ok number" "covered n (raw_span raw)" using assms(1) RawNumber by (cases raw; simp)+
  have "typed (IntegerValue t) IntegerPrepared"
    if "utf8 (unsigned_numeric_text t) = raw_normalized number" "raw_numeric_kind number = WholeNumber" for t
    using n(1) that by (auto simp: typed.simps integer_text_def number_ok_def split: sum.splits)
  then show ?thesis
    using n(2) by (auto simp: validate_integer_def RawNumber intro!: outcome_bindI [OF signed_normalized [OF n(1) assms(2) n(2)]])
qed (use value_in_span [OF assms(1)] in \<open>auto simp: validate_integer_def type_mismatch_def\<close>)

lemma validate_decimal_typed:
  assumes "value_in n raw" "grown lm b0 b"
  shows "outcome (reported checks n) (\<lambda>(w, b'). grown lm b0 b' \<and> typed w (DecimalPrepared scale)) (validate_decimal lm raw scale path b)"
proof (cases "raw_kind raw")
  case (RawNumber number)
  have n: "number_ok number" "covered n (raw_span raw)" using assms(1) RawNumber by (cases raw; simp)+
  have "typed (DecimalValue t) (DecimalPrepared scale)"
    if "utf8 (unsigned_numeric_text t) = raw_normalized number"
      "\<not> scale_get scale < effective_decimal_scale (raw_normalized number)" for t
    using n(1) that by (auto simp: typed.simps decimal_text_def number_ok_def split: sum.splits)
  then show ?thesis
    using n(2) by (auto simp: validate_decimal_def RawNumber intro!: outcome_bindI [OF signed_normalized [OF n(1) assms(2) n(2)]])
qed (use value_in_span [OF assms(1)] in \<open>auto simp: validate_decimal_def type_mismatch_def\<close>)

section \<open>Records\<close>

text \<open>What the validation of the nested value \<open>v\<close> promises, at every type, path and budget.\<close>

definition validates :: "unicode \<Rightarrow> bool \<Rightarrow> nat \<Rightarrow> limits \<Rightarrow> value_validator \<Rightarrow> raw_value \<Rightarrow> bool" where
  "validates u checks n lm vv v \<longleftrightarrow>
     (\<forall>ty path b0 b. wf_type u ty \<longrightarrow> grown lm b0 b \<longrightarrow>
        outcome (reported checks n) (\<lambda>(w, b'). grown lm b0 b' \<and> typed w ty) (vv v ty path b))"

lemma validatesD:
  "validates u checks n lm vv v \<Longrightarrow> wf_type u ty \<Longrightarrow> grown lm b0 b \<Longrightarrow>
     outcome (reported checks n) (\<lambda>(w, b'). grown lm b0 b' \<and> typed w ty) (vv v ty path b)"
  by (simp add: validates_def)

text \<open>The values supplied so far have the types of their fields.\<close>

definition slots_ok :: "prepared_field list \<Rightarrow> mon_value option list \<Rightarrow> bool" where
  "slots_ok ds supplied \<longleftrightarrow>
     list_all2 (\<lambda>slot field. case slot of None \<Rightarrow> True | Some v \<Rightarrow> typed v (prepared_ty field)) supplied ds"

lemma slots_ok_update:
  "slots_ok ds supplied \<Longrightarrow> i < length ds \<Longrightarrow> typed v (prepared_ty (ds ! i)) \<Longrightarrow> slots_ok ds (supplied[i := Some v])"
  by (auto simp: slots_ok_def list_all2_conv_all_nth nth_list_update)

lemma slots_ok_empty: "slots_ok ds (replicate (length ds) None)"
  by (simp add: slots_ok_def list_all2_conv_all_nth)

lemma slots_ok_zip:
  "slots_ok ds supplied \<Longrightarrow> (Some v, field) \<in> set (zip supplied ds) \<Longrightarrow> typed v (prepared_ty field)"
  by (force simp: slots_ok_def list_all2_iff)

lemma slots_ok_length: "slots_ok ds supplied \<Longrightarrow> length supplied = length ds"
  by (auto simp: slots_ok_def dest: list_all2_lengthD)

lemma found_field:
  "wf_fields u d fs \<Longrightarrow> fields_find fs name = Some i \<Longrightarrow> i < length (declared_fields fs)"
  using field_index.find_SomeD [OF wf_fields_index] by (fastforce simp: field_names_def)

lemma record_arguments_typed:
  assumes "wf_fields u d fs" "\<And>v. v \<in> arg_value ` set args \<Longrightarrow> validates u checks n lm vv v"
    and "list_all (arg_in n) args" "slots_ok (declared_fields fs) supplied" "grown lm b0 b"
  shows "outcome (reported checks n) (\<lambda>(slots, b'). grown lm b0 b' \<and> slots_ok (declared_fields fs) slots)
    (record_arguments lm vv allow fs path args i named supplied b)"
  using assms(2-)
proof (induction args arbitrary: i named supplied b)
  case (Cons a args)
  note g = Cons.prems(4)
  have IH: "outcome (reported checks n) (\<lambda>(slots, b'). grown lm b0 b' \<and> slots_ok (declared_fields fs) slots)
      (record_arguments lm vv allow fs path args j m t c)"
    if "slots_ok (declared_fields fs) t" "grown lm b0 c" for j m t c
    using Cons.prems(1,2) that by (intro Cons.IH) auto
  have v: "validates u checks n lm vv (arg_value a)" using Cons.prems(1) by simp
  have ty: "wf_type u (prepared_ty (declared_fields fs ! k))" if "k < length (declared_fields fs)" for k
    using wf_fields_done(1) [OF assms(1)] that by simp
  show ?case
  proof (cases a)
    case (PositionalArg x sp)
    have sp: "covered n sp" using Cons.prems(2) PositionalArg by simp
    show ?thesis
    proof (cases "\<not> allow \<or> named \<or> length (declared_fields fs) \<le> i")
      case True
      then show ?thesis using sp by (auto simp: PositionalArg)
    next
      case False
      then have i: "i < length (declared_fields fs)" by simp
      have c: "\<not> (\<not> allow \<or> named)" "\<not> length (declared_fields fs) \<le> i" using False by simp_all
      show ?thesis
        unfolding PositionalArg record_arguments.simps raw_arg.case Let_def if_not_P [OF c(1)] if_not_P [OF c(2)]
        apply (rule read_charge_bind(2) [OF g sp])
        apply (rule outcome_bindI [OF validatesD [OF v [unfolded PositionalArg arg_value.simps] ty [OF i]]], assumption)
        using i slots_ok_update [OF Cons.prems(3)] by (auto intro: IH)
    qed
  next
    case (NamedArg name sp x whole)
    have sp: "covered n sp" using Cons.prems(2) NamedArg by simp
    show ?thesis
    proof (cases "fields_find fs name")
      case None
      then show ?thesis using sp by (auto simp: NamedArg intro!: read_charge_bind(2) [OF g sp])
    next
      case (Some k)
      note k = found_field [OF assms(1) Some]
      show ?thesis unfolding NamedArg record_arguments.simps raw_arg.case Some option.case
        apply (split if_split, intro conjI impI)
         apply (rule read_charge_bind(2) [OF g sp], rule reported_stop [OF sp])
        apply (rule read_charge_bind(2) [OF g sp])
        apply (rule outcome_bindI [OF validatesD [OF v [unfolded NamedArg arg_value.simps] ty [OF k]]], assumption)
        using k slots_ok_update [OF Cons.prems(3)] by (auto intro: IH)
    qed
  qed
qed simp

lemma lifted_clone:
  assumes "grown lm b0 b" "covered n sp"
  shows "outcome (reported checks n) (\<lambda>(w, b'). grown lm b0 b' \<and> w = v)
    (lift_failure (clone_default lm (Some sp) v path depth b))"
  using clone_default_copies [OF assms(1), of "Some sp" v path depth] assms(2)
  by (auto simp: lift_failure_def outcome_map_sum comp_def reported_def located_def outcome_def split: sum.splits)

lemma finish_fields_done:
  assumes "grown lm b0 b" "covered n sp"
    and "\<And>v field. (Some v, field) \<in> set slots \<Longrightarrow> typed v (prepared_ty field)"
    and "\<And>slot field. (slot, field) \<in> set slots \<Longrightarrow> default_ok field"
  shows "outcome (reported checks n)
    (\<lambda>(given, b'). grown lm b0 b' \<and> list_all2 (\<lambda>(slot, field) nv. field_done field nv) slots given)
    (finish_fields lm sp path depth slots b)"
  unfolding finish_fields_def
proof (rule outcome_collect [where I = "grown lm b0", OF assms(1)], goal_cases)
  case (1 e c)
  obtain slot field where e: "e = (slot, field)" by (cases e)
  let ?p = "path @ [FieldSegment (prepared_name field)]"
  have "outcome (reported checks n) (\<lambda>(w, c'). grown lm b0 c' \<and> typed w (prepared_ty field))
      (case slot of
            Some v \<Rightarrow> Inr (v, c)
          | None \<Rightarrow>
              (case prepared_default field of
                 Some dflt \<Rightarrow>
                   result_bind (read_charge_default lm sp path c) (\<lambda>b.
                   result_bind (read_charge_decoded lm (text_len (prepared_name field)) sp path b) (\<lambda>b.
                     lift_failure (clone_default lm (Some sp) dflt ?p (depth + 1) b)))
               | None \<Rightarrow>
                   result_bind (read_charge_decoded lm (text_len (prepared_name field)) sp path c) (\<lambda>b.
                     stop MissingField sp ?p)))"
  proof (cases slot)
    case (Some v)
    then show ?thesis using assms(3) [of v field] 1 by (simp add: e)
  next
    case None
    show ?thesis
    proof (cases "prepared_default field")
      case (Some dflt)
      then have "typed dflt (prepared_ty field)" using assms(4) 1(1) by (fastforce simp: e default_ok_def)
      then show ?thesis unfolding None Some option.case
        by (intro read_charge_bind(3) [OF 1(2) assms(2)] read_charge_bind(2) [OF _ assms(2)])
           (auto elim!: outcome_mono [OF lifted_clone [OF _ assms(2)]])
    qed (use assms(2) in \<open>auto simp: None intro!: read_charge_bind(2) [OF 1(2)]\<close>)
  qed
  then show ?case unfolding e prod.case Let_def
    by (rule outcome_bindI) (auto simp: field_done_def intro!: read_charge_bind(2) [OF _ assms(2)])
qed

lemma qualifier_check_reported:
  "covered n sp \<Longrightarrow> (\<And>i. qualifier = Some i \<Longrightarrow> covered n (id_span i)) \<Longrightarrow>
     outcome (reported checks n) (\<lambda>_. expected = None \<longrightarrow> qualifier = None)
       (qualifier_check expected qualifier sp path)"
  by (auto simp: qualifier_check_def split: option.split)

lemma validate_record_typed:
  assumes "wf_fields u d fs" "value_in n raw" "grown lm b0 b"
    and "\<And>v. v \<in> set (kind_values (raw_kind raw)) \<Longrightarrow> validates u checks n lm vv v"
  shows "outcome (reported checks n) (\<lambda>(w, b'). grown lm b0 b' \<and> (\<exists>given. w = RecordValue given \<and>
      map fst given = map prepared_name (declared_fields fs) \<and>
      list_all (\<lambda>(nv, field). typed (snd nv) (prepared_ty field)) (zip given (declared_fields fs))))
    (validate_record lm vv raw expected fs path depth b)"
proof (cases "raw_kind raw")
  case (RawRecord qualifier args)
  have r: "covered n (raw_span raw)" "\<And>i. qualifier = Some i \<Longrightarrow> covered n (id_span i)" "list_all (arg_in n) args"
    using assms(2) RawRecord by (cases raw; auto)+
  have v: "validates u checks n lm vv v" if "v \<in> arg_value ` set args" for v
    using assms(4) that by (simp add: RawRecord)
  show ?thesis
    unfolding validate_record_def RawRecord raw_kind.case
  proof (rule outcome_bindI [OF qualifier_check_reported [OF r(1,2)]], assumption,
      rule outcome_bindI [OF record_arguments_typed [OF assms(1) v r(3) slots_ok_empty assms(3)]], assumption, goal_cases)
    case (1 x a)
    obtain slots c where a: "a = (slots, c)" by (cases a)
    have p: "grown lm b0 c" "slots_ok (declared_fields fs) slots" using 1 by (simp_all add: a)
    have "outcome (reported checks n) (\<lambda>(given, b'). grown lm b0 b' \<and>
        list_all2 (\<lambda>(slot, field) nv. field_done field nv) (zip slots (declared_fields fs)) given)
      (finish_fields lm (raw_span raw) path depth (zip slots (declared_fields fs)) c)"
      using wf_fields_done(2) [OF assms(1)]
      by (intro finish_fields_done [OF p(1) r(1)]) (auto intro: slots_ok_zip [OF p(2)] dest: set_zip_rightD)
    then show ?case unfolding a prod.case
      by (rule outcome_bindI) (use fields_done [OF _ slots_ok_length [OF p(2)]] in auto)
  qed
qed (use value_in_span [OF assms(2)] in \<open>auto simp: validate_record_def type_mismatch_def\<close>)


section \<open>Maps and choices\<close>

lemma admit_decoded_key_holds:
  assumes "grown lm b0 b" "covered n sp" "holds key seen S" "typed k key"
  shows "outcome (reported checks n) (\<lambda>(seen', b'). grown lm b0 b' \<and> k \<notin> S \<and> holds key seen' (insert k S))
    (admit_decoded_key lm sp path i k seen b)"
proof -
  have c: "outcome (reported checks n) (grown lm b0)
      (case k of StringValue _ \<Rightarrow> read_charge_decoded lm (map_key_name_len k) sp path b | _ \<Rightarrow> Inr b)"
    if "grown lm b0 b" for b
    using that read_charges(2) [OF that assms(2)] by (simp split: mon_value.split)
  show ?thesis
    unfolding admit_decoded_key_def holds_insert(1) [OF assms(3,4)] option.case
  proof (rule read_charge_bind(2) [OF assms(1,2)], split if_split, intro conjI impI, goal_cases)
    case (1 b')
    then show ?case by (intro reported_stop [OF assms(2)])
  next
    case (2 b')
    show ?case
      by (rule read_charge_bind(1) [OF 2(1) assms(2)], rule outcome_bindI [OF c], assumption)
         (use 2(2) holds_insert(2) [OF assms(3,4)] in simp)
  qed
qed

lemma validate_map_typed:
  assumes "is_supported_map_key key" "wf_type u val" "covered n sp" "grown lm b0 b"
    and "\<And>k v. (k, v) \<in> set entries \<Longrightarrow> covered n (raw_span k) \<and> validates u checks n lm vv k \<and> validates u checks n lm vv v"
  shows "outcome (reported checks n) (\<lambda>(w, b'). grown lm b0 b' \<and> typed w (MapPrepared key val))
    (validate_map lm vv entries key val path sp b)"
proof -
  obtain seen where seen: "map_key_index_new key = Some seen" "holds key seen {}" using holds_new [OF assms(1)] by auto
  have wk: "wf_type u key" using assms(1) by (cases key) (simp_all add: is_supported_map_key_def)
  have c: "outcome (reported checks n) (\<lambda>(ys, seen', b'). grown lm b0 b' \<and>
        list_all (\<lambda>(k, x). typed k key \<and> typed x val) ys \<and> list_all2 (\<lambda>_ _. True) (enumerate 0 entries) ys \<and>
        distinct (map fst ys) \<and> fst ` set ys \<inter> {} = {})
      (collect_each (\<lambda>(i, raw_key, raw_value) (seen, b).
              result_bind (vv raw_key key (path @ [IndexSegment i]) b) (\<lambda>(key, b).
              result_bind (admit_decoded_key lm (raw_span raw_key) path i key seen b) (\<lambda>(seen, b).
              result_bind (vv raw_value val (path @ [MapKeySegment (map_key_name key)]) b)
                (\<lambda>(v, b). Inr ((key, v), (seen, b))))))
              (enumerate 0 entries) (seen, b))"
  proof (rule collect_entries [where I = "grown lm b0", OF seen(2) assms(4)], goal_cases)
    case (1 e seen c S)
    obtain i k x where e: "e = (i, k, x)" by (cases e)
    have v: "covered n (raw_span k)" "validates u checks n lm vv k" "validates u checks n lm vv x"
      using assms(5) [of k x] 1(1) by (simp_all add: e enumerate_member)
    show ?case unfolding e prod.case
      apply (rule outcome_bindI [OF validatesD [OF v(2) wk 1(3)]])
      apply clarsimp
      apply (rule outcome_bindI [OF admit_decoded_key_holds [OF _ v(1) 1(2)]], assumption, assumption)
      apply clarsimp
      apply (rule outcome_bindI [OF validatesD [OF v(3) assms(2)]], assumption)
      apply clarsimp
      done
  qed
  show ?thesis unfolding validate_map_def seen(1) option.case
    by (rule outcome_bindI [OF c]) (auto simp: typed.simps)
qed

lemma owned_choice_header_reported:
  assumes "grown lm b0 b" "\<And>i. qualifier = Some i \<Longrightarrow> covered n (id_span i)" "covered n (id_span variant)"
  shows "outcome (reported checks n) (\<lambda>(h, b'). grown lm b0 b' \<and> h = (map_option id_name qualifier, id_name variant))
    (owned_choice_header lm qualifier variant path b)"
proof -
  have q: "outcome (reported checks n) (\<lambda>(q, b'). grown lm b0 b' \<and> q = map_option id_name qualifier)
      (case qualifier of
         Some q \<Rightarrow> result_bind (read_charge_decoded lm (text_len (id_name q)) (id_span q) path b) (\<lambda>b. Inr (Some (id_name q), b))
       | None \<Rightarrow> Inr (None, b))"
    using assms(1,2) by (auto split: option.split intro!: read_charge_bind(2))
  show ?thesis unfolding owned_choice_header_def
    by (rule outcome_bindI [OF q]) (auto intro!: read_charge_bind(2) [OF _ assms(3)])
qed

lemma variant_charge_bind:
  assumes "grown lm b0 b" "covered n (id_span variant)" "covered n sp"
    and "\<And>b'. grown lm b0 b' \<Longrightarrow> outcome (reported checks n) Q (f b')"
  shows "outcome (reported checks n) Q (result_bind (charge_variant_and_field lm variant name sp path b) f)"
proof -
  have "outcome (reported checks n) (grown lm b0) (charge_variant_and_field lm variant name sp path b)"
    unfolding charge_variant_and_field_def
    by (rule read_charge_bind(2) [OF assms(1,2)]) (erule read_charges(2) [OF _ assms(3)])
  then show ?thesis by (rule outcome_bindI) (erule assms(4))
qed

lemma choice_arguments_typed:
  assumes "wf_fields u d fs" "covered n (id_span variant)"
    and "\<And>v. v \<in> arg_value ` set args \<Longrightarrow> validates u checks n lm vv v"
    and "list_all (arg_in n) args" "slots_ok (declared_fields fs) supplied" "grown lm b0 b"
  shows "outcome (reported checks n) (\<lambda>(slots, b'). grown lm b0 b' \<and> slots_ok (declared_fields fs) slots)
    (choice_arguments lm vv variant fs path args i named supplied b)"
  using assms(3-)
proof (induction args arbitrary: i named supplied b)
  case (Cons a args)
  note g = Cons.prems(4)
  have IH: "outcome (reported checks n) (\<lambda>(slots, b'). grown lm b0 b' \<and> slots_ok (declared_fields fs) slots)
      (choice_arguments lm vv variant fs path args j m t c)"
    if "slots_ok (declared_fields fs) t" "grown lm b0 c" for j m t c
    using Cons.prems(1,2) that by (intro Cons.IH) auto
  have v: "validates u checks n lm vv (arg_value a)" using Cons.prems(1) by simp
  have ty: "wf_type u (prepared_ty (declared_fields fs ! k))" if "k < length (declared_fields fs)" for k
    using wf_fields_done(1) [OF assms(1)] that by simp
  show ?case
  proof (cases a)
    case (PositionalArg x sp)
    have sp: "covered n sp" using Cons.prems(2) PositionalArg by simp
    show ?thesis
    proof (cases "named \<or> length (declared_fields fs) \<le> i")
      case True
      then show ?thesis using sp by (auto simp: PositionalArg Let_def)
    next
      case False
      then have i: "i < length (declared_fields fs)" by simp
      have c: "\<not> named" "\<not> length (declared_fields fs) \<le> i" using False by simp_all
      show ?thesis
        unfolding PositionalArg choice_arguments.simps raw_arg.case Let_def if_not_P [OF c(1)] if_not_P [OF c(2)]
        apply (rule variant_charge_bind [OF g assms(2) sp])
        apply (rule outcome_bindI [OF validatesD [OF v [unfolded PositionalArg arg_value.simps] ty [OF i]]], assumption)
        using i slots_ok_update [OF Cons.prems(3)] by (auto intro: IH)
    qed
  next
    case (NamedArg name sp x whole)
    have sp: "covered n sp" using Cons.prems(2) NamedArg by simp
    show ?thesis
    proof (cases "fields_find fs name")
      case None
      then show ?thesis using sp by (auto simp: NamedArg Let_def intro!: variant_charge_bind [OF g assms(2) sp])
    next
      case (Some k)
      note k = found_field [OF assms(1) Some]
      show ?thesis unfolding NamedArg choice_arguments.simps raw_arg.case Some option.case Let_def
        apply (split if_split, intro conjI impI)
         apply (rule variant_charge_bind [OF g assms(2) sp], rule reported_stop [OF sp])
        apply (rule variant_charge_bind [OF g assms(2) sp])
        apply (rule outcome_bindI [OF validatesD [OF v [unfolded NamedArg arg_value.simps] ty [OF k]]], assumption)
        using k slots_ok_update [OF Cons.prems(3)] by (auto intro: IH)
    qed
  qed
qed simp

lemma finish_choice_fields_done:
  assumes "grown lm b0 b" "covered n (id_span variant)" "covered n sp"
    and "\<And>v field. (Some v, field) \<in> set slots \<Longrightarrow> typed v (prepared_ty field)"
  shows "outcome (reported checks n)
    (\<lambda>(given, b'). grown lm b0 b' \<and> list_all2 (\<lambda>(slot, field) nv. field_done field nv) slots given)
    (finish_choice_fields lm variant sp path slots b)"
  unfolding finish_choice_fields_def
proof (rule outcome_collect [where I = "grown lm b0", OF assms(1)], goal_cases)
  case (1 e c)
  obtain slot field where e: "e = (slot, field)" by (cases e)
  show ?case
  proof (cases slot)
    case None
    then show ?thesis using assms(3) by (auto simp: e Let_def intro!: variant_charge_bind [OF 1(2) assms(2,3)])
  next
    case (Some v)
    then show ?thesis using assms(4) [of v field] 1(1)
      by (auto simp: e Let_def field_done_def intro!: read_charge_bind(2) [OF 1(2) assms(3)])
  qed
qed

lemma validate_choice_typed:
  assumes "wf_type u (ChoicePrepared name variants)" "value_in n raw" "grown lm b0 b"
    and "\<And>v. v \<in> set (kind_values (raw_kind raw)) \<Longrightarrow> validates u checks n lm vv v"
  shows "outcome (reported checks n) (\<lambda>(w, b'). grown lm b0 b' \<and> typed w (ChoicePrepared name variants))
    (validate_choice lm vv raw name variants path b)"
proof (cases "raw_kind raw")
  case (RawChoice qualifier variant args)
  have r: "covered n (raw_span raw)" "\<And>i. qualifier = Some i \<Longrightarrow> covered n (id_span i)" "covered n (id_span variant)"
    "\<And>as. args = Some as \<Longrightarrow> list_all (arg_in n) as"
    using assms(2) RawChoice by (cases raw; auto)+
  have v: "validates u checks n lm vv v" if "args = Some as" "v \<in> arg_value ` set as" for as v
    using assms(4) that by (simp add: RawChoice)
  have q: "outcome (reported checks n) (\<lambda>_. map_option id_name qualifier = None \<or> map_option id_name qualifier = Some name)
      (qualifier_check (Some name) qualifier (raw_span raw) path)"
    using r(1,2) by (auto simp: qualifier_check_def split: option.split)
  note wf = assms(1) [unfolded wf_choice]
  show ?thesis
    unfolding validate_choice_def RawChoice raw_kind.case Let_def
  proof (rule outcome_bindI [OF q], goal_cases)
    case qual: (1 x)
    note header = owned_choice_header_reported [where variant = variant, OF _ r(2,3)]
    show ?case
    proof (cases "variants_find variants (id_name variant)")
      case None
      then show ?thesis using r(3) by (auto intro!: read_charge_bind(2) [OF assms(3) r(3)])
    next
      case (Some index)
      define fs where "fs = prepared_variant_fields (declared_variants variants ! index)"
      have i: "index < length (declared_variants variants)"
        using variant_index.find_SomeD [OF _ Some] wf by (simp add: variant_names_def)
      have "wf_variant u (declared_variants variants ! index)" using wf i by (simp add: list_all_length)
      then have w: "wf_fields u False fs"
        by (cases "declared_variants variants ! index") (simp add: fs_def)
      have choice: "typed (ChoiceValue (map_option id_name qualifier) (id_name variant) given) (ChoicePrepared name variants)"
        if "map fst given = map prepared_name (declared_fields fs)"
          "list_all (\<lambda>(nv, field). typed (snd nv) (prepared_ty field)) (zip given (declared_fields fs))" for given
        using that qual by (simp add: typed.simps [of "ChoiceValue _ _ _"] Some fields_of_variant_def fs_def)
      show ?thesis
        unfolding Some option.case fs_def [symmetric]
      proof (split if_split, intro conjI impI, goal_cases)
        case 1
        have c: "typed (ChoiceValue (map_option id_name qualifier) (id_name variant) []) (ChoicePrepared name variants)"
          by (rule choice) (simp_all add: 1)
        show ?case
          by (split if_split, intro conjI impI, rule reported_stop [OF r(1)], rule outcome_bindI [OF header [OF assms(3)]])
             (use c in auto)
      next
        case 2
        show ?case
        proof (cases args)
          case None
          then show ?thesis using r(1) by auto
        next
          case (Some as)
          show ?thesis
            unfolding Some option.case
          proof (rule outcome_bindI [OF choice_arguments_typed [OF w r(3) v [OF Some] r(4) [OF Some] slots_ok_empty assms(3)]], assumption, goal_cases)
            case (1 a)
            obtain slots c where a: "a = (slots, c)" by (cases a)
            have p: "grown lm b0 c" "slots_ok (declared_fields fs) slots" using 1 by (simp_all add: a)
            show ?case unfolding a prod.case
            proof (rule outcome_bindI [OF header [OF p(1)]], assumption, goal_cases)
              case (1 a)
              obtain h c where h: "a = ((map_option id_name qualifier, id_name variant), c)" "grown lm b0 c" using 1 by (cases a) auto
              show ?case unfolding h(1) prod.case
                by (rule outcome_bindI [OF finish_choice_fields_done [OF h(2) r(3,1)]], erule slots_ok_zip [OF p(2)])
                   (use choice fields_done [OF _ slots_ok_length [OF p(2)]] in auto)
            qed
          qed
        qed
      qed
    qed
  qed
qed (use value_in_span [OF assms(2)] in \<open>auto simp: validate_choice_def type_mismatch_def\<close>)


section \<open>Values and documents\<close>

definition raw_order :: "((raw_value \<times> prepared_type) \<times> raw_value \<times> prepared_type) set" where
  "raw_order = measures [\<lambda>(raw, _). size raw, \<lambda>(_, ty). size ty]"

lemma raw_order_wf: "wf raw_order"
  by (simp add: raw_order_def)

lemma raw_order_member [simp]:
  "((v', ty'), (v, ty)) \<in> raw_order \<longleftrightarrow> size v' < size v \<or> size v' = size v \<and> size ty' < size ty"
  by (auto simp: raw_order_def)

lemma value_in_members:
  assumes "value_in n raw"
  shows "v \<in> set (kind_values (raw_kind raw)) \<Longrightarrow> value_in n v"
proof -
  have arg: "value_in n (arg_value a)" if "arg_in n a" for a using that by (cases a) simp_all
  show "v \<in> set (kind_values (raw_kind raw)) \<Longrightarrow> value_in n v"
    using assms arg by (cases raw; cases "raw_kind raw" rule: kind_values.cases) (force simp: list_all_iff)+
qed

lemma validate_value_typed:
  "wf_type u ty \<Longrightarrow> value_in n raw \<Longrightarrow> grown lm b0 b \<Longrightarrow>
     outcome (reported checks n) (\<lambda>(w, b'). grown lm b0 b' \<and> typed w ty) (validate_value checks lm raw ty path depth b)"
proof (induction "(raw, ty)" arbitrary: raw ty path depth b0 b rule: wf_induct_rule [OF raw_order_wf])
  case (1 raw ty)
  note wf = 1(2) and inside = 1(3) and g = 1(4)
  note sp = value_in_span [OF inside]
  let ?vv = "\<lambda>v t p b. validate_value checks lm v t p (depth + 1) b"
  have v: "validates u checks n lm ?vv v" if "v \<in> set (kind_values (raw_kind raw))" for v
    unfolding validates_def
    using value_in_members [OF inside that] size_kind_values [OF that] by (auto intro!: 1(1))
  show ?case
  proof (cases ty)
    case (OptionalPrepared inner)
    have "outcome (reported checks n) (\<lambda>(w, b'). grown lm b0 b' \<and> typed w inner) (validate_value checks lm raw inner path depth b)"
      using wf inside g by (intro 1(1)) (simp_all add: OptionalPrepared)
    then show ?thesis
      by (subst validate_value.simps)
         (auto simp: OptionalPrepared Let_def g typed.simps [of _ "OptionalPrepared inner"]
            intro!: outcome_bindI [OF read_depth [OF sp]] elim!: outcome_mono)
  next
    case (RecordPrepared fs)
    have w: "wf_fields u True fs" using wf by (simp add: RecordPrepared)
    show ?thesis
      by (subst validate_value.simps, rule outcome_bindI [OF read_depth [OF sp]],
          simp only: RecordPrepared prepared_type.case Let_def)
         (rule outcome_mono [OF validate_record_typed [OF w inside g v]], assumption, auto simp: typed.simps)
  next
    case (StructPrepared name fs)
    have w: "wf_fields u True fs" using wf by (simp add: StructPrepared)
    show ?thesis
      by (subst validate_value.simps, rule outcome_bindI [OF read_depth [OF sp]],
          simp only: StructPrepared prepared_type.case Let_def)
         (rule outcome_mono [OF validate_record_typed [OF w inside g v]], assumption, auto simp: typed.simps)
  next
    case (CollectionPrepared element)
    have w: "wf_type u element" using wf by (simp add: CollectionPrepared)
    show ?thesis
    proof (cases "raw_kind raw")
      case (RawCollection items)
      have e: "outcome (reported checks n) (\<lambda>(y, b'). grown lm b0 b' \<and> typed y element)
          (validate_value checks lm x element p (depth + 1) b)" if "x \<in> set items" "grown lm b0 b" for x p b
        using validatesD [OF v w that(2)] that(1) by (simp add: RawCollection)
      have c: "outcome (reported checks n) (\<lambda>(ys, t). grown lm b0 t \<and> list_all2 (\<lambda>_ y. typed y element) (enumerate 0 items) ys)
          (collect_each (\<lambda>(i, item) b. validate_value checks lm item element (path @ [IndexSegment i]) (depth + 1) b)
            (enumerate 0 items) b)"
        by (rule outcome_collect [where I = "grown lm b0", OF g])
           (use e in \<open>auto dest!: enumerate_member\<close>)
      show ?thesis
        by (subst validate_value.simps, rule outcome_bindI [OF read_depth [OF sp]],
            simp only: CollectionPrepared RawCollection prepared_type.case raw_kind.case Let_def)
           (rule outcome_bindI [OF c], auto simp: typed.simps list_all2_conv_all_nth list_all_length)
    qed (subst validate_value.simps; use sp in \<open>auto simp: CollectionPrepared Let_def type_mismatch_def
           intro!: outcome_bindI [OF read_depth [OF sp]]\<close>)+
  next
    case (MapPrepared key val)
    have w: "is_supported_map_key key" "wf_type u val" using wf by (simp_all add: MapPrepared)
    show ?thesis
    proof (cases "raw_kind raw")
      case (RawMap entries)
      have e: "covered n (raw_span k) \<and> validates u checks n lm ?vv k \<and> validates u checks n lm ?vv x"
        if "(k, x) \<in> set entries" for k x
      proof -
        have "k \<in> set (kind_values (raw_kind raw))" "x \<in> set (kind_values (raw_kind raw))"
          using that by (force simp: RawMap)+
        then show ?thesis using v value_in_span [OF value_in_members [OF inside]] by blast
      qed
      show ?thesis
        by (subst validate_value.simps, rule outcome_bindI [OF read_depth [OF sp]],
            simp only: MapPrepared RawMap prepared_type.case raw_kind.case Let_def)
           (rule validate_map_typed [OF w sp g e])
    qed (subst validate_value.simps; use sp in \<open>auto simp: MapPrepared Let_def type_mismatch_def
           intro!: outcome_bindI [OF read_depth [OF sp]]\<close>)+
  next
    case (ChoicePrepared name variants)
    show ?thesis
      by (subst validate_value.simps, rule outcome_bindI [OF read_depth [OF sp]],
          simp only: ChoicePrepared prepared_type.case Let_def)
         (rule validate_choice_typed [OF wf [unfolded ChoicePrepared] inside g v])
  next
    case IntegerPrepared
    show ?thesis
      by (subst validate_value.simps, rule outcome_bindI [OF read_depth [OF sp]])
         (simp add: IntegerPrepared Let_def validate_integer_typed [OF inside g])
  next
    case (DecimalPrepared scale)
    show ?thesis
      by (subst validate_value.simps, rule outcome_bindI [OF read_depth [OF sp]])
         (simp add: DecimalPrepared Let_def validate_decimal_typed [OF inside g])
  next
    case (FixedPrepared scalar)
    show ?thesis
      by (subst validate_value.simps, rule outcome_bindI [OF read_depth [OF sp]])
         (simp only: FixedPrepared prepared_type.case Let_def, rule outcome_bindI [OF validate_fixed_typed [OF inside]], simp add: g)
  qed (subst validate_value.simps; rule outcome_bindI [OF read_depth [OF sp]];
       use sp g in \<open>auto simp: Let_def type_mismatch_def typed.simps split: raw_kind.split\<close>)+
qed

lemma decode_outcome:
  assumes "wf_type u (prepared_root p)"
  shows "outcome (reported checks (min (text_len input) u32_max)) (\<lambda>v. typed v (prepared_root p)) (decode_document u checks input p)"
proof -
  define lm where "lm = prepared_limits p"
  show ?thesis
  proof (cases "max_input_bytes lm < text_len input \<or> u32_max < text_len input")
    case True
    have "covered (min (text_len input) u32_max) (span_new 0 (span_end (text_len input)))"
      by (rule covered_span_new(1)) (auto simp: span_end_def)
    then show ?thesis using True by (auto simp: decode_document_def Let_def lm_def)
  next
    case False
    then have m: "min (text_len input) u32_max = text_len input" by simp
    have c: "cursor_ok lm input (parser_new input)"
      using False by (simp add: cursor_ok_def parser_new_def within_limits_def budget_new_def)
    have d: "outcome (reported checks (text_len input))
        (leaves lm input (Suc (length (rest (parser_new input)))) (value_in (text_len input))) (parse_document u lm (parser_new input))"
      using parse_document_leaves [OF c, of u] by (auto simp: outcome_def reported_located split: sum.splits)
    show ?thesis
      unfolding m decode_document_def Let_def lm_def [symmetric] if_not_P [OF False]
    proof (rule outcome_bindI [OF d], goal_cases)
      case (1 a)
      obtain raw q where a: "a = (raw, q)" by (cases a)
      define r where "r = skip_space_and_comments q"
      have raw: "value_in (text_len input) raw" "cursor_ok lm input r" using 1 by (auto simp: a r_def)
      have g: "grown lm budget_new (parser_budget r)"
        using raw(2) by (simp add: grown_def cursor_ok_def budget_new_def)
      have v: "outcome (reported checks (text_len input)) (\<lambda>(w, b). typed w (prepared_root p))
          (validate_root checks lm raw (prepared_root p) (parser_budget r))"
        using outcome_mono [OF validate_value_typed [OF assms raw(1) g]] value_in_span [OF raw(1)]
        by (auto simp: validate_root_def split: raw_kind.split prepared_type.split)
      show ?case
        unfolding a prod.case r_def [symmetric]
        using covered_spans(3) [OF raw(2)] by (auto intro!: outcome_bindI [OF v])
    qed
  qed
qed


section \<open>Properties\<close>

text \<open>C6. Decoding against a prepared schema always returns, and returns one of three things: a value of
  the schema's type, complete and in declaration order, with exact numbers and distinct map keys; a
  failure whose span lies within the document; or, only in a build with overflow checks, the panic of
  the binary16 conversion. Neither the accessors of fixed-width payloads nor the key index of a map ever
  panics.\<close>

theorem decode_document_outcome:
  assumes "prepare_schema u s = Inr p"
  shows "case decode_document u checks input p of
      Inr v \<Rightarrow> typed v (prepared_root p)
    | Inl (MonFailure e) \<Rightarrow> (\<exists>sp. error_span e = Some sp \<and> mon_start sp \<le> mon_end sp \<and>
        mon_end sp \<le> min (text_len input) u32_max)
    | Inl (MonPanic _) \<Rightarrow> checks
    | Inl _ \<Rightarrow> False"
  using decode_outcome [OF prepare_schema_wf(1) [OF assms], of checks input]
  by (auto simp: outcome_def reported_def located_def covered_def split: sum.splits mon_stop.splits option.splits)

theorem decode_document_outcome_witness:
  "case decode_document ascii_only False (ustr ''retries = 4, id = none'') sample_prepared of
      Inr v \<Rightarrow> typed v (prepared_root sample_prepared)
    | Inl (MonFailure e) \<Rightarrow> (\<exists>sp. error_span e = Some sp \<and> mon_start sp \<le> mon_end sp \<and>
        mon_end sp \<le> min (text_len (ustr ''retries = 4, id = none'')) u32_max)
    | Inl _ \<Rightarrow> False"
  using decode_document_outcome [OF sample_prepares, where checks = False and input = "ustr ''retries = 4, id = none''"]
  by (auto split: sum.splits mon_stop.splits)

text \<open>C10. Decoding bytes is decoding the text they encode, and bytes that encode no text are refused at
  a span which starts where the longest readable prefix ends, not empty and within the input: the bytes
  before the start encode a text, and no longer prefix does.\<close>

theorem decode_bytes_exact:
  "(list_all is_scalar s \<longrightarrow> decode_document_bytes u checks (utf8 s) p = decode_document u checks s p) \<and>
   (length bytes \<le> min (max_input_bytes (prepared_limits p)) u32_max \<and> (\<nexists>s. list_all is_scalar s \<and> bytes = utf8 s) \<longrightarrow>
     (\<exists>start stop t. decode_document_bytes u checks bytes p =
          Inl (MonFailure \<lparr>code = InvalidUtf8, error_span = Some \<lparr>mon_start = start, mon_end = stop\<rparr>, error_path = []\<rparr>) \<and>
        start < stop \<and> stop \<le> length bytes \<and> list_all is_scalar t \<and> take start bytes = utf8 t \<and>
        (\<forall>n longer. start < n \<and> n \<le> length bytes \<and> list_all is_scalar longer \<longrightarrow> take n bytes \<noteq> utf8 longer)))"
proof (intro conjI impI)
  assume "list_all is_scalar s"
  then show "decode_document_bytes u checks (utf8 s) p = decode_document u checks s p"
    using from_utf8_utf8 [of s] by (simp add: decode_document_bytes_def decode_document_def Let_def length_utf8)
next
  assume a: "length bytes \<le> min (max_input_bytes (prepared_limits p)) u32_max \<and> (\<nexists>s. list_all is_scalar s \<and> bytes = utf8 s)"
  obtain start k where e: "from_utf8 bytes = Inl (start, k)"
    using a from_utf8_iff [of bytes] by (cases "from_utf8 bytes") auto
  have f: "from_utf8_from 0 bytes = Inl (start, k)" using e by (simp add: from_utf8_def)
  obtain t where t: "list_all is_scalar t" "take start bytes = utf8 t" using from_utf8_from_error_prefix [OF f] by auto
  have maximal: "\<forall>n longer. start < n \<and> n \<le> length bytes \<and> list_all is_scalar longer \<longrightarrow> take n bytes \<noteq> utf8 longer"
  proof (intro allI impI notI)
    fix n longer assume h: "start < n \<and> n \<le> length bytes \<and> list_all is_scalar longer" and eq: "take n bytes = utf8 longer"
    have "bytes = utf8 longer @ drop n bytes" unfolding eq [symmetric] by simp
    from from_utf8_from_error_maximal [OF f _ this] h have "length (utf8 longer) \<le> start" by simp
    then show False using h unfolding eq [symmetric] by simp
  qed
  define stop where "stop = (case k of Some n \<Rightarrow> start + n | None \<Rightarrow> length bytes)"
  have l: "start < stop" "stop \<le> length bytes"
    using from_utf8_from_error [OF f] by (auto simp: stop_def split: option.splits)
  have lim: "length bytes \<le> u32_max" "length bytes \<le> max_input_bytes (prepared_limits p)" using a by simp_all
  have end': "(case k of Some n \<Rightarrow> saturating_add_usize start n | None \<Rightarrow> length bytes) = stop"
    using l lim by (auto simp: stop_def saturating_add_usize_def split: option.splits)
  have at': "span_new start (span_end stop) = \<lparr>mon_start = start, mon_end = stop\<rparr>"
    using l lim by (simp add: span_new_def span_end_def)
  have r: "decode_document_bytes u checks bytes p =
      Inl (MonFailure \<lparr>code = InvalidUtf8, error_span = Some \<lparr>mon_start = start, mon_end = stop\<rparr>, error_path = []\<rparr>)"
    using e lim end' at' by (simp add: decode_document_bytes_def Let_def Mon_Parser.stop_def mon_error_new_def)
  show "\<exists>start stop t. decode_document_bytes u checks bytes p =
          Inl (MonFailure \<lparr>code = InvalidUtf8, error_span = Some \<lparr>mon_start = start, mon_end = stop\<rparr>, error_path = []\<rparr>) \<and>
        start < stop \<and> stop \<le> length bytes \<and> list_all is_scalar t \<and> take start bytes = utf8 t \<and>
        (\<forall>n longer. start < n \<and> n \<le> length bytes \<and> list_all is_scalar longer \<longrightarrow> take n bytes \<noteq> utf8 longer)"
    by (intro exI conjI) (rule r, rule l(1), rule l(2), rule t(1), rule t(2), rule maximal)
qed

theorem decode_bytes_exact_witness:
  "\<exists>start stop. decode_document_bytes ascii_only False [CHR ''i'', char_of (0xFF :: nat)] sample_prepared =
     Inl (MonFailure \<lparr>code = InvalidUtf8, error_span = Some \<lparr>mon_start = start, mon_end = stop\<rparr>, error_path = []\<rparr>)"
proof -
  define bytes :: string where "bytes = [CHR ''i'', char_of (0xFF :: nat)]"
  have e: "from_utf8 bytes = Inl (1, Some 1)" unfolding bytes_def by code_simp
  have "\<nexists>s. list_all is_scalar s \<and> bytes = utf8 s"
  proof
    assume "\<exists>s. list_all is_scalar s \<and> bytes = utf8 s"
    then obtain s where "from_utf8 bytes = Inr s" using from_utf8_utf8 by blast
    then show False by (simp add: e)
  qed
  moreover have "length bytes \<le> min (max_input_bytes (prepared_limits sample_prepared)) u32_max"
    by (simp add: bytes_def sample_prepared_def default_limits_def)
  ultimately show ?thesis
    unfolding bytes_def [symmetric]
    using decode_bytes_exact [where s = "[]" and u = ascii_only and checks = False and p = sample_prepared and bytes = bytes]
    by blast
qed

end
