(* ===== verification/Mon_Writer.thy ===== *)
theory Mon_Writer
  imports Mon_Schema Float_Format
begin

text \<open>
  The writers of the MON codec (\<open>crates/moth-mon/src/writer.rs\<close>): a value is validated and completed,
  then rendered in compact or indented form under the output budget.

  \<^item> The output string is threaded through the operations; \<open>path\<close> is an argument, as elsewhere.
  \<^item> \<open>R\<close> is the third-party float formatter of \<open>Float_Format\<close>, \<open>checks\<close> the overflow checks of the build.
\<close>

section \<open>Output\<close>

definition writer_fail :: "mon_error_code \<Rightarrow> mon_path \<Rightarrow> (mon_stop, 'a) result" where
  "writer_fail c path = Inl (MonFailure (mon_error_new c None path))"

definition ensure_output :: "limits \<Rightarrow> nat \<Rightarrow> mon_path \<Rightarrow> utext \<Rightarrow> (mon_stop, unit) result" where
  "ensure_output lm additional path output =
     (case checked_usize (text_len output + additional) of
        None \<Rightarrow> writer_fail OutputBudget path
      | Some reached \<Rightarrow> if max_output_bytes lm < reached then writer_fail OutputBudget path else Inr ())"

definition push_str :: "limits \<Rightarrow> mon_path \<Rightarrow> utext \<Rightarrow> utext \<Rightarrow> (mon_stop, utext) result" where
  "push_str lm path s output =
     result_bind (ensure_output lm (text_len s) path output) (\<lambda>_. Inr (output @ s))"

definition push_char :: "limits \<Rightarrow> mon_path \<Rightarrow> uchar \<Rightarrow> utext \<Rightarrow> (mon_stop, utext) result" where
  "push_char lm path c output =
     result_bind (ensure_output lm (len_utf8 c) path output) (\<lambda>_. Inr (output @ [c]))"

lemma fold_each_cong [fundef_cong]:
  assumes "xs = ys" "s = t" "\<And>x u. x \<in> set ys \<Longrightarrow> f x u = g x u"
  shows "fold_each f xs s = fold_each g ys t"
  unfolding assms(1,2) using assms(3) by (induction ys arbitrary: t) (auto intro!: result_bind_cong)

definition indent :: "limits \<Rightarrow> mon_path \<Rightarrow> nat \<Rightarrow> utext \<Rightarrow> (mon_stop, utext) result" where
  "indent lm path depth output = fold_each (\<lambda>_. push_str lm path (ustr ''    '')) [0..<depth] output"

section \<open>Scalars\<close>

text \<open>\<open>{:X}\<close>.\<close>

definition hex_digit_char :: "nat \<Rightarrow> char" where
  "hex_digit_char d = (if d < 10 then char_of (48 + d) else char_of (55 + d))"

fun upper_hex :: "nat \<Rightarrow> string" where
  "upper_hex n = (if n < 16 then [hex_digit_char n] else upper_hex (n div 16) @ [hex_digit_char (n mod 16)])"

declare upper_hex.simps [simp del]

definition write_escaped_char ::
  "limits \<Rightarrow> mon_path \<Rightarrow> char \<Rightarrow> uchar \<Rightarrow> utext \<Rightarrow> (mon_stop, utext) result" where
  "write_escaped_char lm path quote c output =
     (if c = ch CHR 0x5C then push_str lm path (ustr [CHR 0x5C, CHR 0x5C]) output
      else if c = 10 then push_str lm path (ustr [CHR 0x5C, CHR ''n'']) output
      else if c = 13 then push_str lm path (ustr [CHR 0x5C, CHR ''r'']) output
      else if c = 9 then push_str lm path (ustr [CHR 0x5C, CHR ''t'']) output
      else if c = ch quote then
        result_bind (push_char lm path (ch CHR 0x5C) output) (push_char lm path c)
      else if is_control c then
        push_str lm path (ustr ([CHR 0x5C, CHR ''u'', CHR ''{''] @ upper_hex c @ ''}'')) output
      else push_char lm path c output)"

definition write_escaped ::
  "limits \<Rightarrow> mon_path \<Rightarrow> utext \<Rightarrow> char \<Rightarrow> utext \<Rightarrow> (mon_stop, utext) result" where
  "write_escaped lm path s quote output = fold_each (write_escaped_char lm path quote) s output"

definition write_string :: "limits \<Rightarrow> mon_path \<Rightarrow> utext \<Rightarrow> utext \<Rightarrow> (mon_stop, utext) result" where
  "write_string lm path s output =
     result_bind (push_str lm path (ustr [CHR 0x22]) output) (\<lambda>output.
     result_bind (write_escaped lm path s CHR 0x22 output) (push_str lm path (ustr [CHR 0x22])))"

definition write_char :: "limits \<Rightarrow> mon_path \<Rightarrow> uchar \<Rightarrow> utext \<Rightarrow> (mon_stop, utext) result" where
  "write_char lm path c output =
     result_bind (push_str lm path (ustr [CHR 0x27]) output) (\<lambda>output.
     result_bind (write_escaped lm path [c] CHR 0x27 output) (push_str lm path (ustr [CHR 0x27])))"

definition check_numeric_digits :: "limits \<Rightarrow> mon_path \<Rightarrow> utext \<Rightarrow> (mon_stop, unit) result" where
  "check_numeric_digits lm path s =
     (if max_numeric_digits lm < length (filter is_digit s) then writer_fail NumericBudget path else Inr ())"

definition write_number :: "limits \<Rightarrow> mon_path \<Rightarrow> utext \<Rightarrow> utext \<Rightarrow> (mon_stop, utext) result" where
  "write_number lm path s output =
     result_bind (check_numeric_digits lm path s) (\<lambda>_. push_str lm path s output)"

text \<open>\<open>value == 0.0 && value.is_sign_negative()\<close> is the pattern of negative zero.\<close>

definition write_float ::
  "bool \<Rightarrow> shortest_formats \<Rightarrow> limits \<Rightarrow> mon_path \<Rightarrow> f64 \<Rightarrow> binary_float_precision \<Rightarrow> utext
   \<Rightarrow> (mon_stop, utext) result" where
  "write_float checks R lm path v precision output =
     (if \<not> f64_is_finite v then writer_fail NonFiniteFloat path
      else if f64_abs v = 0 \<and> f64_is_sign_negative v then write_number lm path (ustr ''-0.0'') output
      else
        (case format_finite_float checks R v precision of
           Inl panic \<Rightarrow> Inl (MonPanic panic)
         | Inr (Inl _) \<Rightarrow> writer_fail NonFiniteFloat path
         | Inr (Inr t) \<Rightarrow> write_number lm path (ustr t) output))"

definition write_fixed ::
  "bool \<Rightarrow> shortest_formats \<Rightarrow> limits \<Rightarrow> mon_path \<Rightarrow> mon_value \<Rightarrow> fixed_scalar \<Rightarrow> utext
   \<Rightarrow> (mon_stop, utext) result" where
  "write_fixed checks R lm path v scalar output =
     (if fixed_scalar_of v \<noteq> Some scalar then writer_fail InternalInvariant path
      else
        (case v of
           FixedValue (PayloadF16 x) \<Rightarrow> write_float checks R lm path x Binary16 output
         | FixedValue (PayloadF32 x) \<Rightarrow> write_float checks R lm path x Binary32 output
         | FixedValue (PayloadF64 x) \<Rightarrow> write_float checks R lm path x Binary64 output
         | FixedValue p \<Rightarrow>
             (case integer_payload_text p of
                Some t \<Rightarrow> write_number lm path (ustr t) output
              | None \<Rightarrow> writer_fail InternalInvariant path)
         | _ \<Rightarrow> writer_fail InternalInvariant path))"

section \<open>Containers\<close>

text \<open>What surrounds the entries of a record, collection, map or payload: the opening text, the
  separator and indentation of each entry, and the closing text.\<close>

definition begin_entry :: "bool \<Rightarrow> limits \<Rightarrow> mon_path \<Rightarrow> nat \<Rightarrow> nat \<Rightarrow> utext \<Rightarrow> (mon_stop, utext) result" where
  "begin_entry pretty lm path depth index output =
     result_bind
       (if 0 < index then
          result_bind (push_str lm path (ustr '','') output) (push_str lm path (if pretty then [10] else ustr '' ''))
        else Inr output)
       (\<lambda>output. if pretty then indent lm path (depth + 1) output else Inr output)"

definition end_entries :: "bool \<Rightarrow> limits \<Rightarrow> mon_path \<Rightarrow> nat \<Rightarrow> string \<Rightarrow> utext \<Rightarrow> (mon_stop, utext) result" where
  "end_entries pretty lm path depth closing output =
     result_bind
       (if pretty then result_bind (push_str lm path [10] output) (indent lm path depth) else Inr output)
       (push_str lm path (ustr closing))"

definition write_entries ::
  "bool \<Rightarrow> limits \<Rightarrow> mon_path \<Rightarrow> nat \<Rightarrow> string \<Rightarrow> ('a \<Rightarrow> nat \<Rightarrow> utext \<Rightarrow> (mon_stop, utext) result)
   \<Rightarrow> 'a list \<Rightarrow> utext \<Rightarrow> (mon_stop, utext) result" where
  "write_entries pretty lm path depth closing body entries output =
     result_bind (if pretty then push_str lm path [10] output else Inr output) (\<lambda>output.
     result_bind (fold_each (\<lambda>(index, entry). body entry index) (enumerate 0 entries) output)
       (end_entries pretty lm path depth closing))"

type_synonym value_writer = "mon_value \<Rightarrow> prepared_type \<Rightarrow> mon_path \<Rightarrow> utext \<Rightarrow> (mon_stop, utext) result"

text \<open>One field of a record or payload; \<open>segments\<close> leads to the values of the fields.\<close>

definition write_field ::
  "bool \<Rightarrow> limits \<Rightarrow> value_writer \<Rightarrow> mon_path \<Rightarrow> mon_path \<Rightarrow> nat \<Rightarrow> (utext \<times> mon_value) \<times> prepared_field \<Rightarrow> nat
   \<Rightarrow> utext \<Rightarrow> (mon_stop, utext) result" where
  "write_field pretty lm wv path segments depth entry index output =
     (case entry of ((name, v), field) \<Rightarrow>
        if name \<noteq> prepared_name field then writer_fail InternalInvariant path
        else
          result_bind (begin_entry pretty lm path depth index output) (\<lambda>output.
          result_bind (push_str lm path (prepared_name field) output) (\<lambda>output.
          result_bind (push_str lm path (ustr '' = '') output)
            (wv v (prepared_ty field) (segments @ [FieldSegment (prepared_name field)])))))"

definition write_record ::
  "bool \<Rightarrow> limits \<Rightarrow> value_writer \<Rightarrow> (utext \<times> mon_value) list \<Rightarrow> prepared_fields \<Rightarrow> mon_path \<Rightarrow> nat \<Rightarrow> utext
   \<Rightarrow> (mon_stop, utext) result" where
  "write_record pretty lm wv fs schema_fields path depth output =
     (if length fs \<noteq> length (declared_fields schema_fields) then writer_fail InternalInvariant path
      else
        result_bind (push_str lm path (ustr ''('') output) (\<lambda>output.
          if fs = [] then push_str lm path (ustr '')'') output
          else write_entries pretty lm path depth '')'' (write_field pretty lm wv path path depth)
                 (zip fs (declared_fields schema_fields)) output))"

definition write_collection ::
  "bool \<Rightarrow> limits \<Rightarrow> value_writer \<Rightarrow> mon_value list \<Rightarrow> prepared_type \<Rightarrow> mon_path \<Rightarrow> nat \<Rightarrow> utext
   \<Rightarrow> (mon_stop, utext) result" where
  "write_collection pretty lm wv vs element path depth output =
     result_bind (push_str lm path (ustr ''{'') output) (\<lambda>output.
       if vs = [] then push_str lm path (ustr ''}'') output
       else write_entries pretty lm path depth ''}''
              (\<lambda>v index output.
                 result_bind (begin_entry pretty lm path depth index output)
                   (wv v element (path @ [IndexSegment index]))) vs output)"

definition write_map ::
  "bool \<Rightarrow> limits \<Rightarrow> value_writer \<Rightarrow> (mon_value \<times> mon_value) list \<Rightarrow> prepared_type \<Rightarrow> prepared_type \<Rightarrow> mon_path \<Rightarrow> nat
   \<Rightarrow> utext \<Rightarrow> (mon_stop, utext) result" where
  "write_map pretty lm wv entries key value_ty path depth output =
     result_bind (push_str lm path (ustr ''{'') output) (\<lambda>output.
       if entries = [] then
         result_bind (push_str lm path (ustr ''='') output) (push_str lm path (ustr ''}''))
       else write_entries pretty lm path depth ''}''
              (\<lambda>(k, v) index output.
                 result_bind (begin_entry pretty lm path depth index output) (\<lambda>output.
                 result_bind (wv k key (path @ [IndexSegment index]) output) (\<lambda>output.
                 result_bind (push_str lm (path @ [IndexSegment index]) (ustr '' = '') output)
                   (wv v value_ty (path @ [IndexSegment index]))))) entries output)"

definition write_choice ::
  "bool \<Rightarrow> limits \<Rightarrow> value_writer \<Rightarrow> utext \<Rightarrow> (utext \<times> mon_value) list \<Rightarrow> prepared_variants \<Rightarrow> mon_path \<Rightarrow> nat
   \<Rightarrow> utext \<Rightarrow> (mon_stop, utext) result" where
  "write_choice pretty lm wv variant fs variants path depth output =
     (case variants_find variants variant of
        None \<Rightarrow> writer_fail InternalInvariant path
      | Some index \<Rightarrow>
          (let expected = prepared_variant_fields (declared_variants variants ! index) in
           if length fs \<noteq> length (declared_fields expected) then writer_fail InternalInvariant path
           else
             result_bind (push_str lm path (ustr ''::'') output) (\<lambda>output.
             result_bind (push_str lm path variant output) (\<lambda>output.
               if fs = [] then Inr output
               else
                 result_bind (push_str lm path (ustr ''('') output)
                   (write_entries pretty lm path depth '')''
                      (write_field pretty lm wv path (path @ [VariantSegment variant]) depth)
                      (zip fs (declared_fields expected)))))))"

section \<open>Values and documents\<close>

lemma size_field_entry:
  "((name, v), field) \<in> set (zip fs ds) \<Longrightarrow> size (v :: mon_value) < Suc (size_list (size_prod (\<lambda>_. 0) size) fs)"
  by (auto dest: set_zip_leftD intro: size_field_member)

lemma write_entries_cong [fundef_cong]:
  assumes "xs = ys" "output = output'" "\<And>x i out. x \<in> set ys \<Longrightarrow> f x i out = g x i out"
  shows "write_entries pretty lm path depth closing f xs output = write_entries pretty lm path depth closing g ys output'"
  unfolding write_entries_def assms(1,2)
  by (auto simp: assms(3) dest: enumerate_member intro!: result_bind_cong fold_each_cong)

lemma write_record_cong [fundef_cong]:
  assumes "fs = fs'" "output = output'" "\<And>name v t p out. (name, v) \<in> set fs' \<Longrightarrow> wv v t p out = wv' v t p out"
  shows "write_record pretty lm wv fs ds path depth output = write_record pretty lm wv' fs' ds path depth output'"
  unfolding write_record_def assms(1,2)
  by (auto intro!: result_bind_cong write_entries_cong simp: write_field_def assms(3) dest!: set_zip_leftD)

lemma write_collection_cong [fundef_cong]:
  assumes "vs = vs'" "output = output'" "\<And>v t p out. v \<in> set vs' \<Longrightarrow> wv v t p out = wv' v t p out"
  shows "write_collection pretty lm wv vs t path depth output = write_collection pretty lm wv' vs' t path depth output'"
  unfolding write_collection_def assms(1,2) by (auto intro!: result_bind_cong write_entries_cong simp: assms(3))

lemma write_map_cong [fundef_cong]:
  assumes "es = es'" "output = output'" "\<And>k v t p out. (k, v) \<in> set es' \<Longrightarrow> wv k t p out = wv' k t p out"
    "\<And>k v t p out. (k, v) \<in> set es' \<Longrightarrow> wv v t p out = wv' v t p out"
  shows "write_map pretty lm wv es kt vt path depth output = write_map pretty lm wv' es' kt vt path depth output'"
  unfolding write_map_def assms(1,2) by (auto intro!: result_bind_cong write_entries_cong simp: assms(3,4))

lemma write_choice_cong [fundef_cong]:
  assumes "fs = fs'" "output = output'" "\<And>name v t p out. (name, v) \<in> set fs' \<Longrightarrow> wv v t p out = wv' v t p out"
  shows "write_choice pretty lm wv variant fs vs path depth output = write_choice pretty lm wv' variant fs' vs path depth output'"
  unfolding write_choice_def assms(1,2)
  by (auto intro!: result_bind_cong write_entries_cong simp: Let_def write_field_def assms(3) dest!: set_zip_leftD
      split: option.split)

function write_value ::
  "bool \<Rightarrow> bool \<Rightarrow> shortest_formats \<Rightarrow> limits \<Rightarrow> mon_value \<Rightarrow> prepared_type \<Rightarrow> mon_path \<Rightarrow> nat \<Rightarrow> utext
   \<Rightarrow> (mon_stop, utext) result" where
  "write_value pretty checks R lm v ty path depth output =
     (if max_depth lm < depth then writer_fail DepthBudget path
      else
        (case ty of
           OptionalPrepared inner \<Rightarrow>
             if v = NoneValue then push_str lm path (ustr ''none'') output
             else write_value pretty checks R lm v inner path depth output
         | _ \<Rightarrow>
             (case (v, ty) of
                (NoneValue, NonePrepared) \<Rightarrow> push_str lm path (ustr ''none'') output
              | (BoolValue x, BoolPrepared) \<Rightarrow> push_str lm path (ustr (if x then ''true'' else ''false'')) output
              | (CharValue c, CharPrepared) \<Rightarrow> write_char lm path c output
              | (StringValue s, StringPrepared) \<Rightarrow> write_string lm path s output
              | (IntegerValue s, IntegerPrepared) \<Rightarrow> write_number lm path s output
              | (DecimalValue s, DecimalPrepared _) \<Rightarrow> write_number lm path s output
              | (_, FixedPrepared scalar) \<Rightarrow> write_fixed checks R lm path v scalar output
              | (RecordValue fs, RecordPrepared ds) \<Rightarrow>
                  write_record pretty lm (\<lambda>x t p. write_value pretty checks R lm x t p (depth + 1)) fs ds path depth output
              | (RecordValue fs, StructPrepared _ ds) \<Rightarrow>
                  write_record pretty lm (\<lambda>x t p. write_value pretty checks R lm x t p (depth + 1)) fs ds path depth output
              | (CollectionValue vs, CollectionPrepared element) \<Rightarrow>
                  write_collection pretty lm (\<lambda>x t p. write_value pretty checks R lm x t p (depth + 1))
                    vs element path depth output
              | (MapValue entries, MapPrepared key value_ty) \<Rightarrow>
                  write_map pretty lm (\<lambda>x t p. write_value pretty checks R lm x t p (depth + 1))
                    entries key value_ty path depth output
              | (ChoiceValue _ variant fs, ChoicePrepared _ variants) \<Rightarrow>
                  write_choice pretty lm (\<lambda>x t p. write_value pretty checks R lm x t p (depth + 1))
                    variant fs variants path depth output
              | _ \<Rightarrow> writer_fail InternalInvariant path)))"
  by pat_completeness auto

termination
  by (relation "measures [\<lambda>(_, _, _, _, v, _). size v, \<lambda>(_, _, _, _, _, ty, _). size ty]")
     (auto intro: size_members)

declare write_value.simps [simp del]

definition encode_value_with_options ::
  "bool \<Rightarrow> unicode \<Rightarrow> bool \<Rightarrow> shortest_formats \<Rightarrow> mon_value \<Rightarrow> prepared_schema \<Rightarrow> (mon_stop, utext) result" where
  "encode_value_with_options pretty u checks R v schema =
     (let lm = prepared_limits schema in
      result_bind (validate_and_complete_value u v (prepared_root schema) lm)
        (\<lambda>completed. write_value pretty checks R lm completed (prepared_root schema) [] 0 []))"

definition encode_document_with_options ::
  "bool \<Rightarrow> unicode \<Rightarrow> bool \<Rightarrow> shortest_formats \<Rightarrow> mon_value \<Rightarrow> prepared_schema \<Rightarrow> (mon_stop, utext) result" where
  "encode_document_with_options pretty u checks R v schema =
     (if \<not> (case prepared_root schema of RecordPrepared _ \<Rightarrow> True | StructPrepared _ _ \<Rightarrow> True | _ \<Rightarrow> False)
      then writer_fail RootNotRecord []
      else if \<not> (case v of RecordValue _ \<Rightarrow> True | _ \<Rightarrow> False) then writer_fail RootNotRecord []
      else encode_value_with_options pretty u checks R v schema)"

definition encode_document ::
  "unicode \<Rightarrow> bool \<Rightarrow> shortest_formats \<Rightarrow> mon_value \<Rightarrow> prepared_schema \<Rightarrow> (mon_stop, utext) result" where
  "encode_document = encode_document_with_options False"

definition encode_value ::
  "unicode \<Rightarrow> bool \<Rightarrow> shortest_formats \<Rightarrow> mon_value \<Rightarrow> prepared_schema \<Rightarrow> (mon_stop, utext) result" where
  "encode_value = encode_value_with_options False"

end
