(* ===== verification/Mon_Writer_Safety.thy ===== *)
theory Mon_Writer_Safety
  imports Mon_Prepared Mon_Writer
begin

text \<open>
  What every run of the MON writer keeps: the output stays within its budget, and rendering a complete
  value neither panics nor meets a value its schema does not describe.
\<close>

section \<open>Stops and output of the writer\<close>

definition writer_codes :: "mon_error_code set" where
  "writer_codes = {OutputBudget, DepthBudget, NumericBudget, NonFiniteFloat}"

fun writer_stop :: "mon_stop \<Rightarrow> bool" where
  "writer_stop (MonFailure e) \<longleftrightarrow> code e \<in> writer_codes \<and> error_span e = None"
| "writer_stop _ \<longleftrightarrow> False"

abbreviation fits :: "limits \<Rightarrow> utext \<Rightarrow> bool" where
  "fits lm t \<equiv> text_len t \<le> max_output_bytes lm"

abbreviation writes :: "limits \<Rightarrow> (mon_stop, utext) result \<Rightarrow> bool" where
  "writes lm \<equiv> outcome writer_stop (fits lm)"

lemma writer_fail_stop: "c \<in> writer_codes \<Longrightarrow> outcome writer_stop Q (writer_fail c path)"
  by (simp add: writer_fail_def mon_error_new_def)

lemma ensure_output_bound: "outcome writer_stop (\<lambda>_. text_len t + n \<le> max_output_bytes lm) (ensure_output lm n path t)"
  by (auto simp: ensure_output_def checked_usize_def writer_codes_def intro!: writer_fail_stop split: option.split)

lemma push_writes [intro]: "writes lm (push_str lm path s t)" "writes lm (push_char lm path c t)"
  unfolding push_str_def push_char_def
  by (rule outcome_bindI [OF ensure_output_bound], simp)+

lemmas fold_each_writes = outcome_fold_each [where I = "fits lm" for lm, rotated]

lemma indent_writes [intro]: "fits lm t \<Longrightarrow> writes lm (indent lm path depth t)"
  unfolding indent_def by (rule fold_each_writes) auto

section \<open>Scalars\<close>

lemma write_escaped_writes: "fits lm t \<Longrightarrow> writes lm (write_escaped lm path s quote t)"
  unfolding write_escaped_def
  by (rule fold_each_writes) (auto simp: write_escaped_char_def intro!: outcome_bindI [OF push_writes(2)])

lemma write_texts [intro]: "writes lm (write_string lm path s t)" "writes lm (write_char lm path c t)"
  unfolding write_string_def write_char_def
  by (rule outcome_bindI [OF push_writes(1)], rule outcome_bindI [OF write_escaped_writes], assumption, rule push_writes(1))+

lemma write_number_writes [intro]: "writes lm (write_number lm path s t)"
  unfolding write_number_def check_numeric_digits_def
  by (auto simp: outcome_bind writer_codes_def intro!: writer_fail_stop)

text \<open>Formatting a value its own precision represents never panics: the shortest \<open>F16\<close> text is found
  without overflow, and the other precisions call the third-party formatter.\<close>

lemma format_no_panic:
  assumes "f64_is_finite v" "precision_round p v = v"
  shows "format_finite_float checks R v p \<noteq> Inl panic"
proof (cases "f64_abs v = 0")
  case False
  then have e: "exact_at p v" using assms by (simp add: exact_at_def)
  have "\<exists>s. shortest_decimal checks R v p = Inr s"
  proof (cases p)
    case Binary16
    have "ryu_documented R Binary16 v" by (simp add: ryu_documented_def)
    then show ?thesis using shortest_decimal_text [of Binary16 v R checks] e Binary16 by blast
  qed (simp_all add: shortest_decimal_def)
  then show ?thesis using assms by (auto simp: format_finite_float_def)
qed (use assms in \<open>simp add: format_finite_float_def\<close>)

lemma write_float_writes:
  assumes "f64_is_finite v" "precision_round p v = v"
  shows "writes lm (write_float checks R lm path v p t)"
  using format_no_panic [OF assms, of checks R]
  by (auto simp: write_float_def writer_codes_def intro!: writer_fail_stop split: sum.split)

lemma write_fixed_writes:
  assumes "payload_scalar p = scalar" "payload_ok p"
  shows "writes lm (write_fixed checks R lm path (FixedValue p) scalar t)"
  using assms
  by (cases p) (auto simp: write_fixed_def fixed_scalar_of_def intro!: write_float_writes)

section \<open>Containers\<close>

lemma begin_entry_writes [intro]: "fits lm t \<Longrightarrow> writes lm (begin_entry pretty lm path depth i t)"
  unfolding begin_entry_def
  by (rule outcome_bindI [where P = "fits lm"]) (auto intro!: outcome_bindI [OF push_writes(1)])

lemma end_entries_writes [intro]: "fits lm t \<Longrightarrow> writes lm (end_entries pretty lm path depth closing t)"
  unfolding end_entries_def
  by (rule outcome_bindI [where P = "fits lm"]) (auto intro!: outcome_bindI [OF push_writes(1)])

lemma write_entries_writes:
  assumes "\<And>x i t. x \<in> set xs \<Longrightarrow> fits lm t \<Longrightarrow> writes lm (f x i t)" "fits lm t"
  shows "writes lm (write_entries pretty lm path depth closing f xs t)"
  unfolding write_entries_def
proof (rule outcome_bindI [where P = "fits lm"], goal_cases)
  case (2 a)
  show ?case
    by (rule outcome_bindI [OF fold_each_writes end_entries_writes])
       (use assms(1) 2 in \<open>auto dest: enumerate_member\<close>)
qed (use assms(2) in auto)

text \<open>The writers of a nested value, and the fields of a record or payload they are applied to.\<close>

definition renders :: "limits \<Rightarrow> value_writer \<Rightarrow> mon_value \<Rightarrow> prepared_type \<Rightarrow> bool" where
  "renders lm wv v ty \<longleftrightarrow> (\<forall>path t. fits lm t \<longrightarrow> writes lm (wv v ty path t))"

lemma rendersD: "renders lm wv v ty \<Longrightarrow> fits lm t \<Longrightarrow> writes lm (wv v ty path t)"
  by (simp add: renders_def)

lemma typed_members:
  assumes "map fst fs = map prepared_name ds"
    and "list_all (\<lambda>(nv, field). typed (snd nv) (prepared_ty field)) (zip fs ds)"
  shows "length fs = length ds"
    and "((name, v), field) \<in> set (zip fs ds) \<Longrightarrow> name = prepared_name field \<and> typed v (prepared_ty field)"
proof -
  show l: "length fs = length ds" using arg_cong [OF assms(1), of length] by simp
  assume m: "((name, v), field) \<in> set (zip fs ds)"
  obtain i where i: "i < length fs" "fs ! i = (name, v)" "ds ! i = field"
    using m by (auto simp: set_zip)
  have "fst (fs ! i) = prepared_name (ds ! i)" using arg_cong [OF assms(1), of "\<lambda>xs. xs ! i"] i(1) l by simp
  then show "name = prepared_name field \<and> typed v (prepared_ty field)"
    using assms(2) m i by (auto simp: list_all_iff)
qed

lemma write_members:
  assumes "map fst fs = map prepared_name ds"
    and "\<And>name v field. ((name, v), field) \<in> set (zip fs ds) \<Longrightarrow> renders lm wv v (prepared_ty field)" "fits lm t"
    and "list_all (\<lambda>(nv, field). typed (snd nv) (prepared_ty field)) (zip fs ds)"
  shows "writes lm (write_entries pretty lm path depth closing (write_field pretty lm wv path segments depth) (zip fs ds) t)"
proof (rule write_entries_writes [OF _ assms(3)], goal_cases)
  case (1 x i t)
  obtain name v field where x: "x = ((name, v), field)" by (cases x) auto
  have n: "name = prepared_name field" using typed_members(2) [OF assms(1,4)] 1(1) by (simp add: x)
  show ?case unfolding x write_field_def prod.case
    using n 1(2) rendersD [OF assms(2) [OF 1(1) [unfolded x]]]
    by (auto intro!: outcome_bindI [OF begin_entry_writes] outcome_bindI [OF push_writes(1)])
qed

lemma write_record_writes:
  assumes "map fst fs = map prepared_name (declared_fields ds)" "fits lm t"
    and "list_all (\<lambda>(nv, field). typed (snd nv) (prepared_ty field)) (zip fs (declared_fields ds))"
    and "\<And>name v field. ((name, v), field) \<in> set (zip fs (declared_fields ds)) \<Longrightarrow> renders lm wv v (prepared_ty field)"
  shows "writes lm (write_record pretty lm wv fs ds path depth t)"
  using typed_members(1) [OF assms(1,3)]
  by (auto simp: write_record_def intro!: outcome_bindI [OF push_writes(1)] write_members [OF assms(1,4) _ assms(3)])

lemma write_collection_writes:
  assumes "\<And>v. v \<in> set vs \<Longrightarrow> renders lm wv v element"
  shows "writes lm (write_collection pretty lm wv vs element path depth t)"
  unfolding write_collection_def
  by (rule outcome_bindI [OF push_writes(1)])
     (auto intro!: write_entries_writes outcome_bindI [OF begin_entry_writes] rendersD [OF assms])

lemma write_map_writes:
  assumes "\<And>k v. (k, v) \<in> set es \<Longrightarrow> renders lm wv k key \<and> renders lm wv v val"
  shows "writes lm (write_map pretty lm wv es key val path depth t)"
  unfolding write_map_def
proof (rule outcome_bindI [OF push_writes(1)], goal_cases)
  case (1 t)
  show ?case
  proof (cases "es = []")
    case True
    then show ?thesis by (auto intro: outcome_bindI [OF push_writes(1)])
  next
    case False
    show ?thesis unfolding if_not_P [OF False]
    proof (rule write_entries_writes [OF _ 1], goal_cases)
      case (1 x i t)
      obtain k v where x: "x = (k, v)" by (cases x)
      have r: "renders lm wv k key" "renders lm wv v val" using assms 1(1) by (auto simp: x)
      show ?case unfolding x prod.case
        by (rule outcome_bindI [OF begin_entry_writes [OF 1(2)]], rule outcome_bindI [OF rendersD [OF r(1)]], assumption,
            rule outcome_bindI [OF push_writes(1)], rule rendersD [OF r(2)], assumption)
    qed
  qed
qed

lemma write_choice_writes:
  assumes "variants_find variants variant = Some index"
    and "map fst fs = map prepared_name (fields_of_variant variants index)"
    and "list_all (\<lambda>(nv, field). typed (snd nv) (prepared_ty field)) (zip fs (fields_of_variant variants index))"
    and "\<And>name v field. ((name, v), field) \<in> set (zip fs (fields_of_variant variants index)) \<Longrightarrow>
      renders lm wv v (prepared_ty field)"
  shows "writes lm (write_choice pretty lm wv variant fs variants path depth t)"
  using typed_members(1) [OF assms(2,3)] unfolding write_choice_def assms(1) option.case Let_def fields_of_variant_def [symmetric]
  by (auto intro!: outcome_bindI [OF push_writes(1)] write_members [OF assms(2,4) _ assms(3)])

section \<open>Values\<close>

lemma write_value_writes:
  "typed v ty \<Longrightarrow> fits lm t \<Longrightarrow> writes lm (write_value pretty checks R lm v ty path depth t)"
proof (induction "(v, ty)" arbitrary: v ty path depth t rule: wf_induct_rule [OF value_order_wf])
  case (1 v ty)
  note IH = 1(1)
  note ty = 1(2) [unfolded typed.simps [of v ty]]
  have smaller: "renders lm (\<lambda>x t p. write_value pretty checks R lm x t p d) v' ty'"
    if "size v' < size v" "typed v' ty'" for v' ty' d
    using that by (auto simp: renders_def intro: IH)
  have fields: "renders lm (\<lambda>x t p. write_value pretty checks R lm x t p d) v' (prepared_ty field)"
    if "((name, v'), field) \<in> set (zip fs ds)" "size v = Suc (size_list (size_prod (\<lambda>_. 0) size) fs)"
      "map fst fs = map prepared_name ds"
      "list_all (\<lambda>(nv, field). typed (snd nv) (prepared_ty field)) (zip fs ds)" for fs ds name v' field d
    using size_zip_field [OF that(1)] that(2) typed_members(2) [OF that(3,4,1)] by (intro smaller) simp_all
  show ?case
  proof (cases "max_depth lm < depth")
    case True
    then show ?thesis by (subst write_value.simps) (simp add: writer_fail_stop writer_codes_def)
  next
    case False
    show ?thesis
    proof (cases ty)
      case (OptionalPrepared inner)
      show ?thesis using False ty IH [of v inner t path depth] 1(3)
        by (subst write_value.simps) (auto simp: OptionalPrepared)
    next
      case (RecordPrepared ds)
      obtain fs where v: "v = RecordValue fs" using ty by (auto simp: RecordPrepared split: mon_value.splits)
      show ?thesis using False ty fields [of _ _ _ fs]
        by (subst write_value.simps) (auto simp: RecordPrepared v intro!: write_record_writes [OF _ 1(3)])
    next
      case (StructPrepared name ds)
      obtain fs where v: "v = RecordValue fs" using ty by (auto simp: StructPrepared split: mon_value.splits)
      show ?thesis using False ty fields [of _ _ _ fs]
        by (subst write_value.simps) (auto simp: StructPrepared v intro!: write_record_writes [OF _ 1(3)])
    next
      case (CollectionPrepared element)
      obtain vs where v: "v = CollectionValue vs" using ty by (auto simp: CollectionPrepared split: mon_value.splits)
      show ?thesis using False ty
        by (subst write_value.simps)
           (auto simp: CollectionPrepared v list_all_iff intro!: write_collection_writes smaller size_value_member)
    next
      case (MapPrepared key val)
      obtain es where v: "v = MapValue es" using ty by (auto simp: MapPrepared split: mon_value.splits)
      show ?thesis using False ty
        by (subst write_value.simps)
           (auto simp: MapPrepared v list_all_iff intro!: write_map_writes smaller elim: size_entry_member)
    next
      case (ChoicePrepared name variants)
      obtain q variant fs index where v: "v = ChoiceValue q variant fs" "variants_find variants variant = Some index"
        "map fst fs = map prepared_name (fields_of_variant variants index)"
        "list_all (\<lambda>(nv, field). typed (snd nv) (prepared_ty field)) (zip fs (fields_of_variant variants index))"
        using ty by (auto simp: ChoicePrepared split: mon_value.splits option.splits)
      show ?thesis using False fields [of _ _ _ fs, OF _ _ v(3,4)]
        by (subst write_value.simps) (auto simp: ChoicePrepared v(1) intro!: write_choice_writes [OF v(2-4)])
    next
      case (FixedPrepared scalar)
      obtain p where v: "v = FixedValue p" "payload_scalar p = scalar" "payload_ok p"
        using ty by (auto simp: FixedPrepared split: mon_value.splits)
      show ?thesis using False by (subst write_value.simps) (simp add: FixedPrepared v(1) write_fixed_writes [OF v(2,3)])
    qed (use False ty in \<open>subst write_value.simps, auto split: mon_value.splits\<close>)+
  qed
qed

section \<open>Properties\<close>

text \<open>C8. Rendering in compact or indented form: once validation has completed a value against a prepared
  schema, writing it gives a text within the output budget, or a failure of a budget (or of the
  third-party float formatter); it never panics, and never meets a shape the schema does not describe.\<close>

theorem encode_outcome:
  assumes "prepare_schema u s = Inr p"
    and "validate_and_complete_value u v (prepared_root p) (prepared_limits p) = Inr w"
  shows "case encode_value_with_options pretty u checks R v p of
      Inr t \<Rightarrow> text_len t \<le> max_output_bytes (prepared_limits p)
    | Inl (MonFailure e) \<Rightarrow> code e \<in> {OutputBudget, DepthBudget, NumericBudget, NonFiniteFloat} \<and> error_span e = None
    | Inl _ \<Rightarrow> False"
proof -
  have "typed w (prepared_root p)" by (rule completed_typed [OF assms])
  from write_value_writes [OF this, where lm = "prepared_limits p" and t = "[]" and pretty = pretty and checks = checks
    and R = R and path = "[]" and depth = 0]
  show ?thesis using assms(2)
    by (auto simp: encode_value_with_options_def Let_def outcome_def writer_codes_def split: sum.splits mon_stop.splits)
qed

theorem encode_outcome_witness:
  "case encode_value_with_options False ascii_only True \<lparr>ryu_f32 = \<lambda>_. [], ryu_f64 = \<lambda>_. [], lower_exp = \<lambda>_. []\<rparr>
      sample_input sample_prepared of
     Inr t \<Rightarrow> text_len t \<le> 16777216 | Inl _ \<Rightarrow> True"
  using encode_outcome [OF sample_prepares sample_completes, of False True "\<lparr>ryu_f32 = \<lambda>_. [], ryu_f64 = \<lambda>_. [], lower_exp = \<lambda>_. []\<rparr>"]
  by (simp add: sample_prepared_def default_limits_def split: sum.splits)

end
