(* ===== verification/Ordered_Map.thy ===== *)
theory Ordered_Map
  imports Prelude
begin

text \<open>
  \<open>BTreeMap\<close> as the code uses it: an association list in increasing order of its keys, so that
  iteration follows the keys. A \<open>BTreeSet\<close> is a set where only membership is asked and an increasing
  list where it is iterated.
\<close>

type_synonym ('k, 'v) btree_map = "('k \<times> 'v) list"

abbreviation bt_get :: "('k, 'v) btree_map \<Rightarrow> 'k \<Rightarrow> 'v option" where
  "bt_get \<equiv> map_of"

abbreviation bt_keys :: "('k, 'v) btree_map \<Rightarrow> 'k list" where
  "bt_keys m \<equiv> map fst m"

fun bt_insert :: "'k::linorder \<Rightarrow> 'v \<Rightarrow> ('k, 'v) btree_map \<Rightarrow> ('k, 'v) btree_map" where
  "bt_insert k v [] = [(k, v)]"
| "bt_insert k v ((l, w) # m) =
     (if k < l then (k, v) # (l, w) # m else if k = l then (k, v) # m else (l, w) # bt_insert k v m)"

text \<open>\<open>map.entry(key).or_default().push(value)\<close>.\<close>

definition bt_push :: "'k::linorder \<Rightarrow> 'v \<Rightarrow> ('k, 'v list) btree_map \<Rightarrow> ('k, 'v list) btree_map" where
  "bt_push k v m = bt_insert k ((case bt_get m k of Some vs \<Rightarrow> vs | None \<Rightarrow> []) @ [v]) m"

abbreviation bt_ordered :: "('k::linorder, 'v) btree_map \<Rightarrow> bool" where
  "bt_ordered m \<equiv> sorted_wrt (<) (bt_keys m)"

lemma bt_get_insert [simp]: "bt_get (bt_insert k v m) = (bt_get m)(k \<mapsto> v)"
  by (induction m) auto

lemma bt_keys_insert [simp]: "fst ` set (bt_insert k v m) = insert k (fst ` set m)"
proof (induction m)
  case (Cons p m)
  then show ?case by (cases p) (simp add: insert_commute)
qed simp

lemma bt_ordered_insert: "bt_ordered m \<Longrightarrow> bt_ordered (bt_insert k v m)"
proof (induction m)
  case (Cons p m)
  obtain l w where p: "p = (l, w)" by (cases p)
  have l: "\<And>x. x \<in> fst ` set m \<Longrightarrow> l < x" using Cons.prems by (auto simp: p)
  show ?case
  proof (cases "k < l")
    case True
    then show ?thesis using Cons.prems l by (auto simp: p dest: order.strict_trans)
  next
    case False
    have "\<And>x. x \<in> fst ` set (bt_insert k v m) \<Longrightarrow> k \<noteq> l \<Longrightarrow> l < x"
      unfolding bt_keys_insert using l False by auto
    then show ?thesis using Cons False by (simp add: p)
  qed
qed simp

lemma bt_get_push: "bt_get (bt_push k v m) l =
    (if l = k then Some ((case bt_get m k of Some vs \<Rightarrow> vs | None \<Rightarrow> []) @ [v]) else bt_get m l)"
  by (simp add: bt_push_def)

lemma bt_ordered_distinct: "bt_ordered m \<Longrightarrow> distinct (bt_keys m)"
  using strict_sorted_iff by blast

text \<open>Inserting every row of a table under its key.\<close>

lemma bt_get_foldl_insert:
  "bt_get (foldl (\<lambda>m x. bt_insert (f x) (g x) m) m xs) = bt_get m ++ map_of (rev (map (\<lambda>x. (f x, g x)) xs))"
  by (induction xs arbitrary: m) (auto simp: map_add_def fun_eq_iff split: option.split)

lemma bt_ordered_foldl_insert:
  "bt_ordered m \<Longrightarrow> bt_ordered (foldl (\<lambda>m x. bt_insert (f x) (g x) m) m xs)"
  by (induction xs arbitrary: m) (simp_all add: bt_ordered_insert)

lemma bt_keys_foldl_insert:
  "fst ` set (foldl (\<lambda>m x. bt_insert (f x) (g x) m) m xs) = fst ` set m \<union> f ` set xs"
  by (induction xs arbitrary: m) simp_all

text \<open>Pushing every row of a table onto the list of its key groups the rows by key.\<close>

lemma bt_get_foldl_push:
  "bt_get (foldl (\<lambda>m x. bt_push (f x) (g x) m) m xs) k =
     (let new = map g (filter (\<lambda>x. f x = k) xs)
      in case bt_get m k of Some vs \<Rightarrow> Some (vs @ new) | None \<Rightarrow> if new = [] then None else Some new)"
  by (induction xs arbitrary: m) (auto simp: bt_get_push Let_def split: option.split)

end
