(* ===== verification/Borrow_Problem.thy ===== *)
theory Borrow_Problem
  imports Ordered_Map "HOL-Library.Product_Lexorder"
begin

text \<open>
  The normalized input of one borrow-analysis problem and its atomic validation
  (\<open>analysis/borrow_checker/problem/\<close>: \<open>ids.rs\<close>, \<open>bindings.rs\<close>, \<open>control_flow.rs\<close>, \<open>events.rs\<close>,
  \<open>places.rs\<close>, \<open>origins.rs\<close>, \<open>mod.rs\<close>, \<open>validation.rs\<close>).

  \<^item> The identities are \<open>u32\<close> newtypes; they are naturals here, and an identity's \<open>index()\<close> is itself.
  \<^item> Every failed check is \<open>InternalFailure\<close> (its wording is left out). An index outside a table or
    vector, which panics, is \<open>IndexPanic\<close>; validation is proved not to panic on any input.
\<close>

section \<open>The problem\<close>

type_synonym block_id = nat
type_synonym point_id = nat
type_synonym event_id = nat
type_synonym binding_id = nat
type_synonym place_id = nat
type_synonym value_origin_id = nat
type_synonym loan_id = nat
type_synonym use_id = nat
type_synonym call_id = nat

record event_source =
  hir_node :: "nat option"
  source_span :: "u32 option"

record binding =
  binding_row :: binding_id
  hir_local :: "nat option"
  binding_region :: "nat option"
  is_mutable :: bool
  compiler_temporary :: bool
  binding_source :: event_source

record program_point =
  point_row :: point_id
  point_block :: block_id
  ordinal :: nat
  point_source :: event_source

record cfg_block =
  block_row :: block_id
  entry_point :: point_id
  exit_point :: point_id
  block_events :: "event_id list"

record cfg_edge =
  edge_from :: block_id
  edge_to :: block_id

record control_flow =
  flow_blocks :: "cfg_block list"
  flow_edges :: "cfg_edge list"
  flow_entry :: block_id
  flow_exits :: "block_id list"

datatype projection_elem = FieldProjection u32 | FixedIndex u32 | DynamicIndex | CollectionElement | MapEntry

record place =
  place_row :: place_id
  place_root :: binding_id
  projections :: "projection_elem list"

datatype place_overlap = DisjointPlaces | OverlapPlaces | ConservativePlaces

text \<open>The loop of \<open>overlap\<close> over the common length.\<close>

fun projection_overlap :: "projection_elem list \<Rightarrow> projection_elem list \<Rightarrow> place_overlap" where
  "projection_overlap (l # ls) (r # rs) =
     (if l = r then projection_overlap ls rs
      else
        (case (l, r) of
           (FieldProjection x, FieldProjection y) \<Rightarrow> if x \<noteq> y then DisjointPlaces else ConservativePlaces
         | _ \<Rightarrow> ConservativePlaces))"
| "projection_overlap _ _ = OverlapPlaces"

definition overlap :: "place \<Rightarrow> place \<Rightarrow> place_overlap" where
  "overlap self other =
     (if place_root self \<noteq> place_root other then DisjointPlaces
      else projection_overlap (projections self) (projections other))"

datatype call_result_unknown_reason = SummaryUnknown | MissingSummary | OpaqueExternal

datatype call_result_provenance =
    FreshResult | AliasResult "value_origin_id list" | AliasParams "nat list"
  | UnknownResult call_result_unknown_reason

datatype origin_kind =
    UnknownOrigin | ParameterOrigin nat | FreshOrigin | AliasOrigin "value_origin_id list"
  | ExclusiveAliasOrigin "value_origin_id list" | CopyOrigin "value_origin_id list"
  | ProjectionOrigin value_origin_id projection_elem | JoinOrigin "value_origin_id list"
  | CallResultOrigin call_id call_result_provenance

record value_origin =
  origin_row :: value_origin_id
  origin_kind :: origin_kind

datatype binding_destination = DefinePlace place_id | UpdatePlace place_id

fun destination_place :: "binding_destination \<Rightarrow> place_id" where
  "destination_place (DefinePlace p) = p"
| "destination_place (UpdatePlace p) = p"

definition is_definition :: "binding_destination \<Rightarrow> bool" where
  "is_definition d = (case d of DefinePlace _ \<Rightarrow> True | _ \<Rightarrow> False)"

datatype access_kind = SharedAccess | ExclusiveAccess

datatype use_kind = ReadUse | BindingWriteUse binding_destination | WriteUse | LoanObservation

definition access_kind_of :: "use_kind \<Rightarrow> access_kind" where
  "access_kind_of k =
     (case k of ReadUse \<Rightarrow> SharedAccess | LoanObservation \<Rightarrow> SharedAccess | _ \<Rightarrow> ExclusiveAccess)"

definition is_write :: "use_kind \<Rightarrow> bool" where
  "is_write k = (case k of WriteUse \<Rightarrow> True | BindingWriteUse _ \<Rightarrow> True | _ \<Rightarrow> False)"

definition use_destination :: "use_kind \<Rightarrow> binding_destination option" where
  "use_destination k = (case k of BindingWriteUse d \<Rightarrow> Some d | _ \<Rightarrow> None)"

record problem_use =
  use_row :: use_id
  use_point :: point_id
  use_place :: place_id
  use_kind :: use_kind
  definition_use :: bool

record loan =
  loan_row :: loan_id
  loan_kind :: access_kind
  issued_at :: point_id
  loan_place :: place_id
  loan_origins :: "value_origin_id list"
  holders :: "place_id list"
  loan_uses :: "use_id list"
  kills :: "point_id list"

datatype kill_reason = FinalUse | RebindKill | ScopeExitKill | UnreachableContinuation | ExplicitKill

record jump_argument =
  jump_source :: place_id
  jump_destination :: binding_destination

datatype terminator_event =
    JumpEvent block_id "jump_argument list" | BranchEvent "block_id list" | ReturnEvent | ReturnErrorEvent
  | BreakEvent block_id | ContinueEvent block_id | RuntimeFailureEvent | AssertFailureEvent

record aggregate_field =
  field_projection :: projection_elem
  field_source :: place_id

record call_argument =
  argument_place :: place_id
  argument_access :: access_kind
  argument_use :: use_id

record call_result =
  result_destination :: binding_destination
  result_origin :: value_origin_id

record call_effect =
  effect_call :: call_id
  effect_arguments :: "call_argument list"
  effect_results :: "call_result list"

record problem_call =
  call_row :: call_id
  call_label :: string

datatype rebind_value =
  FreshRebind value_origin_id | AliasRebind "value_origin_id list" | AliasFromPlaceRebind place_id

datatype event_kind =
    FreshEvent binding_destination value_origin_id
  | AliasEvent place_id binding_destination "value_origin_id list"
  | AliasFromPlaceEvent place_id binding_destination
  | ExclusiveAliasEvent place_id binding_destination "value_origin_id list"
  | ExclusiveAliasFromPlaceEvent place_id binding_destination
  | CopyEvent place_id binding_destination value_origin_id
  | ProjectionEvent place_id binding_destination value_origin_id
  | RebindEvent binding_destination rebind_value
  | AggregateEvent binding_destination value_origin_id "aggregate_field list"
  | ScopeExitEvent "binding_id list"
  | CallArgumentEvent call_id nat call_argument
  | TerminatorEvent terminator_event
  | CallEffectEvent call_effect
  | AccessEvent use_id
  | LoanIssueEvent loan_id
  | LoanKillEvent loan_id kill_reason

record event =
  event_row :: event_id
  event_point :: point_id
  event_source :: event_source
  event_kind :: event_kind

record borrow_problem_parts =
  parts_bindings :: "binding list"
  parts_points :: "program_point list"
  parts_blocks :: "cfg_block list"
  parts_edges :: "cfg_edge list"
  parts_entry :: block_id
  parts_exits :: "block_id list"
  parts_places :: "place list"
  parts_origins :: "value_origin list"
  parts_loans :: "loan list"
  parts_uses :: "problem_use list"
  parts_calls :: "problem_call list"
  parts_events :: "event list"

record borrow_problem =
  bindings :: "binding list"
  problem_flow :: control_flow
  points :: "program_point list"
  places :: "place list"
  origins :: "value_origin list"
  loans :: "loan list"
  uses :: "problem_use list"
  calls :: "problem_call list"
  events :: "event list"

section \<open>Checks on tables\<close>

datatype problem_failure = InternalFailure | IndexPanic

type_synonym 'a checked = "(problem_failure, 'a) result"

definition internal_failure :: "'a checked" where
  "internal_failure = Inl InternalFailure"

text \<open>\<open>table[index]\<close>, and an assignment to \<open>table[index]\<close>.\<close>

definition row :: "'a list \<Rightarrow> nat \<Rightarrow> 'a checked" where
  "row xs i = ok_or (slice_get xs i) IndexPanic"

definition update_row :: "'a list \<Rightarrow> nat \<Rightarrow> ('a \<Rightarrow> 'a) \<Rightarrow> 'a list checked" where
  "update_row xs i f = result_bind (row xs i) (\<lambda>x. Inr (xs[i := f x]))"

definition require :: "bool \<Rightarrow> unit checked" where
  "require ok = (if ok then Inr () else internal_failure)"

definition validate_dense_ids :: "('a \<Rightarrow> nat) \<Rightarrow> 'a list \<Rightarrow> unit checked" where
  "validate_dense_ids row_of rows =
     check_each (\<lambda>(index, r).
       result_bind (require (index \<le> u32_max)) (\<lambda>_. require (row_of r = index))) (enumerate 0 rows)"

definition require_index :: "nat \<Rightarrow> nat \<Rightarrow> nat checked" where
  "require_index index len = (if len \<le> index then internal_failure else Inr index)"

definition validate_sorted_unique :: "nat list \<Rightarrow> unit checked" where
  "validate_sorted_unique xs = check_each (\<lambda>(x, y). require (\<not> y \<le> x)) (zip xs (tl xs))"

definition validate_origin_set :: "value_origin_id list \<Rightarrow> nat \<Rightarrow> unit checked" where
  "validate_origin_set os origin_count =
     result_bind (validate_sorted_unique os) (\<lambda>_.
     result_bind (check_each (\<lambda>origin. result_bind (require_index origin origin_count) (\<lambda>_. Inr ())) os) (\<lambda>_.
     require (os \<noteq> [])))"

definition validate_point :: "point_id \<Rightarrow> nat \<Rightarrow> unit checked" where
  "validate_point point point_count = result_bind (require_index point point_count) (\<lambda>_. Inr ())"

definition validate_place :: "place_id \<Rightarrow> nat \<Rightarrow> unit checked" where
  "validate_place p place_count = result_bind (require_index p place_count) (\<lambda>_. Inr ())"

definition validate_origin :: "value_origin_id \<Rightarrow> nat \<Rightarrow> unit checked" where
  "validate_origin origin origin_count = result_bind (require_index origin origin_count) (\<lambda>_. Inr ())"

definition validate_binding_destination :: "binding_destination \<Rightarrow> place list \<Rightarrow> unit checked" where
  "validate_binding_destination d ps =
     result_bind (validate_place (destination_place d) (length ps)) (\<lambda>_.
       if is_definition d then result_bind (row ps (destination_place d)) (\<lambda>p. require (projections p = []))
       else Inr ())"

section \<open>Control flow\<close>

text \<open>The numbers of incoming and outgoing edges of each block, and its outgoing targets.\<close>

definition count_edges ::
  "cfg_edge list \<Rightarrow> nat \<Rightarrow> (nat list \<times> nat list \<times> block_id list list) checked" where
  "count_edges es block_count =
     fold_each (\<lambda>edge (incoming, outgoing, outgoing_targets).
       result_bind (require_index (edge_from edge) block_count) (\<lambda>from'.
       result_bind (require_index (edge_to edge) block_count) (\<lambda>to'.
       result_bind (update_row outgoing from' Suc) (\<lambda>outgoing.
       result_bind (update_row outgoing_targets from' (\<lambda>ts. ts @ [edge_to edge])) (\<lambda>outgoing_targets.
       result_bind (update_row incoming to' Suc) (\<lambda>incoming.
         Inr (incoming, outgoing, outgoing_targets)))))))
       es (replicate block_count 0, replicate block_count 0, replicate block_count [])"

definition validate_exits ::
  "cfg_block list \<Rightarrow> block_id list \<Rightarrow> nat list \<Rightarrow> unit checked" where
  "validate_exits blocks exits outgoing =
     result_bind (fold_each (\<lambda>exit exit_seen.
       result_bind (require_index exit (length blocks)) (\<lambda>exit_index.
       result_bind (require (exit \<notin> exit_seen)) (\<lambda>_.
       result_bind (row outgoing exit_index) (\<lambda>n.
       result_bind (require (n = 0)) (\<lambda>_. Inr (insert exit exit_seen))))))
       exits {}) (\<lambda>exit_seen.
     check_each (\<lambda>block.
       result_bind (row outgoing (block_row block)) (\<lambda>n. require (\<not> (n = 0 \<and> block_row block \<notin> exit_seen))))
       blocks)"

definition validate_point_blocks :: "program_point list \<Rightarrow> cfg_block list \<Rightarrow> unit checked" where
  "validate_point_blocks pts blocks =
     check_each (\<lambda>point.
       result_bind (require_index (point_block point) (length blocks)) (\<lambda>block_index.
       result_bind (row blocks block_index) (\<lambda>block.
         require (block_row block = point_block point)))) pts"

text \<open>The events of one block, in its order; the state is \<open>event_seen\<close> and \<open>previous_ordinal\<close>.\<close>

definition validate_block_event ::
  "event list \<Rightarrow> program_point list \<Rightarrow> block_id \<Rightarrow> event_id \<Rightarrow> bool list \<times> nat option
   \<Rightarrow> (bool list \<times> nat option) checked" where
  "validate_block_event evs pts block e state =
     (case state of (event_seen, previous_ordinal) \<Rightarrow>
       result_bind (require_index e (length evs)) (\<lambda>event_index.
       result_bind (row event_seen event_index) (\<lambda>seen.
       result_bind (require (\<not> seen)) (\<lambda>_.
       result_bind (update_row event_seen event_index (\<lambda>_. True)) (\<lambda>event_seen.
       result_bind (row evs event_index) (\<lambda>ev.
       result_bind (require_index (event_point ev) (length pts)) (\<lambda>point_index.
       result_bind (row pts point_index) (\<lambda>point.
       result_bind (require (point_block point = block)) (\<lambda>_.
       result_bind (require (\<not> (case previous_ordinal of Some previous \<Rightarrow> ordinal point < previous | None \<Rightarrow> False)))
         (\<lambda>_. Inr (event_seen, Some (ordinal point))))))))))))"

definition validate_block ::
  "event list \<Rightarrow> program_point list \<Rightarrow> cfg_block \<Rightarrow> (nat \<times> nat) list \<times> bool list
   \<Rightarrow> ((nat \<times> nat) list \<times> bool list) checked" where
  "validate_block evs pts block state =
     (case state of (block_ranges, event_seen) \<Rightarrow>
       result_bind (require_index (entry_point block) (length pts)) (\<lambda>entry_index.
       result_bind (row pts entry_index) (\<lambda>entry.
       result_bind (require_index (exit_point block) (length pts)) (\<lambda>exit_index.
       result_bind (row pts exit_index) (\<lambda>exit.
       result_bind (require (\<not> (point_block entry \<noteq> block_row block \<or> point_block exit \<noteq> block_row block))) (\<lambda>_.
       result_bind (require (\<not> ordinal exit < ordinal entry)) (\<lambda>_.
       result_bind (update_row block_ranges (block_row block) (\<lambda>_. (ordinal entry, ordinal exit))) (\<lambda>block_ranges.
       result_bind (fold_each (validate_block_event evs pts (block_row block)) (block_events block) (event_seen, None))
         (\<lambda>(event_seen, _). Inr (block_ranges, event_seen))))))))))"

definition validate_blocks ::
  "event list \<Rightarrow> program_point list \<Rightarrow> cfg_block list \<Rightarrow> unit checked" where
  "validate_blocks evs pts blocks =
     result_bind (fold_each (validate_block evs pts) blocks
                    (replicate (length blocks) (0, 0), replicate (length evs) False)) (\<lambda>(block_ranges, event_seen).
     result_bind (check_each (\<lambda>point.
       result_bind (row block_ranges (point_block point)) (\<lambda>(entry_ordinal, exit_ordinal).
         require (\<not> (ordinal point < entry_ordinal \<or> exit_ordinal < ordinal point)))) pts) (\<lambda>_.
     require (list_all (\<lambda>seen. seen) event_seen)))"

fun terminator_targets :: "terminator_event \<Rightarrow> block_id set" where
  "terminator_targets (JumpEvent target _) = {target}"
| "terminator_targets (BreakEvent target) = {target}"
| "terminator_targets (ContinueEvent target) = {target}"
| "terminator_targets (BranchEvent targets) = set targets"
| "terminator_targets _ = {}"

definition is_terminal :: "terminator_event \<Rightarrow> bool" where
  "is_terminal k =
     (case k of ReturnEvent \<Rightarrow> True | ReturnErrorEvent \<Rightarrow> True | RuntimeFailureEvent \<Rightarrow> True
      | AssertFailureEvent \<Rightarrow> True | _ \<Rightarrow> False)"

definition validate_terminators ::
  "event list \<Rightarrow> nat list \<Rightarrow> block_id list list \<Rightarrow> cfg_block list \<Rightarrow> unit checked" where
  "validate_terminators evs outgoing outgoing_targets blocks =
     check_each (\<lambda>block.
       if block_events block = [] then internal_failure
       else
         result_bind (row evs (last (block_events block))) (\<lambda>ev.
         result_bind (row outgoing_targets (block_row block)) (\<lambda>block_targets.
         case event_kind ev of
           TerminatorEvent kind \<Rightarrow>
             result_bind (row outgoing (block_row block)) (\<lambda>n.
             result_bind (require (\<not> (n = 0 \<and> \<not> is_terminal kind))) (\<lambda>_.
             let actual = terminator_targets kind;
                 expected = set block_targets \<inter> actual
             in require (\<not> (expected \<noteq> actual \<or> card expected \<noteq> length block_targets))))
         | _ \<Rightarrow> internal_failure))) blocks"

section \<open>Uses, origins and loans\<close>

definition validate_use :: "nat \<Rightarrow> place list \<Rightarrow> problem_use \<Rightarrow> unit checked" where
  "validate_use point_count ps u =
     result_bind (validate_point (use_point u) point_count) (\<lambda>_.
     result_bind (require_index (use_place u) (length ps)) (\<lambda>place_index.
     result_bind (require (\<not> (definition_use u \<and> \<not> is_write (use_kind u)))) (\<lambda>_.
     if definition_use u then result_bind (row ps place_index) (\<lambda>p. require (projections p = [])) else Inr ())))"

definition validate_place_root :: "nat \<Rightarrow> place \<Rightarrow> unit checked" where
  "validate_place_root binding_count p = result_bind (require_index (place_root p) binding_count) (\<lambda>_. Inr ())"

definition call_result_owners ::
  "event list \<Rightarrow> (value_origin_id, (event_id \<times> call_id \<times> place_id) list) btree_map" where
  "call_result_owners evs =
     foldl (\<lambda>owners ev.
       (case event_kind ev of
          CallEffectEvent effect \<Rightarrow>
            foldl (\<lambda>owners r. bt_push (result_origin r)
                     (event_row ev, effect_call effect, destination_place (result_destination r)) owners)
              owners (effect_results effect)
        | _ \<Rightarrow> owners)) [] evs"

text \<open>The number of arguments of the first effect of a call.\<close>

definition effect_argument_count :: "event list \<Rightarrow> call_id \<Rightarrow> nat option" where
  "effect_argument_count evs call =
     map_option (\<lambda>ev. case event_kind ev of CallEffectEvent effect \<Rightarrow> length (effect_arguments effect) | _ \<Rightarrow> 0)
       (find (\<lambda>ev. case event_kind ev of CallEffectEvent effect \<Rightarrow> effect_call effect = call | _ \<Rightarrow> False) evs)"

definition validate_provenance ::
  "event list \<Rightarrow> nat \<Rightarrow> call_id \<Rightarrow> call_result_provenance \<Rightarrow> unit checked" where
  "validate_provenance evs origin_count call provenance =
     (case provenance of
        AliasResult sources \<Rightarrow> validate_origin_set sources origin_count
      | AliasParams indices \<Rightarrow>
          if indices = [] then internal_failure
          else
            result_bind (validate_sorted_unique indices) (\<lambda>_.
            case effect_argument_count evs call of
              None \<Rightarrow> internal_failure
            | Some argument_count \<Rightarrow> require (\<not> list_ex (\<lambda>i. argument_count \<le> i) indices))
      | _ \<Rightarrow> Inr ())"

definition validate_origin_row ::
  "event list \<Rightarrow> nat \<Rightarrow> nat \<Rightarrow> (value_origin_id, (event_id \<times> call_id \<times> place_id) list) btree_map \<Rightarrow> value_origin
   \<Rightarrow> unit checked" where
  "validate_origin_row evs origin_count call_count owners_by_origin origin =
     (case origin_kind origin of
        AliasOrigin sources \<Rightarrow> validate_origin_set sources origin_count
      | ExclusiveAliasOrigin sources \<Rightarrow> validate_origin_set sources origin_count
      | CopyOrigin sources \<Rightarrow> validate_origin_set sources origin_count
      | JoinOrigin sources \<Rightarrow> validate_origin_set sources origin_count
      | ProjectionOrigin s _ \<Rightarrow> validate_origin_set [s] origin_count
      | CallResultOrigin call provenance \<Rightarrow>
          result_bind (require_index call call_count) (\<lambda>_.
          case bt_get owners_by_origin (origin_row origin) of
            None \<Rightarrow> internal_failure
          | Some owners \<Rightarrow>
              if owners = [] \<or> list_ex (\<lambda>owner. fst (snd owner) \<noteq> call \<or> fst owner \<noteq> fst (hd owners)) owners
              then internal_failure
              else validate_provenance evs origin_count call provenance)
      | _ \<Rightarrow> Inr ())"

definition validate_loan :: "nat \<Rightarrow> nat \<Rightarrow> nat \<Rightarrow> nat \<Rightarrow> loan \<Rightarrow> unit checked" where
  "validate_loan point_count place_count origin_count use_count l =
     result_bind (validate_point (issued_at l) point_count) (\<lambda>_.
     result_bind (require_index (loan_place l) place_count) (\<lambda>_.
     result_bind (validate_origin_set (loan_origins l) origin_count) (\<lambda>_.
     result_bind (require (holders l \<noteq> [])) (\<lambda>_.
     result_bind (check_each (\<lambda>h. result_bind (require_index h place_count) (\<lambda>_. Inr ())) (holders l)) (\<lambda>_.
     result_bind (validate_sorted_unique (loan_uses l)) (\<lambda>_.
     result_bind (check_each (\<lambda>u. result_bind (require_index u use_count) (\<lambda>_. Inr ())) (loan_uses l)) (\<lambda>_.
     result_bind (validate_sorted_unique (kills l)) (\<lambda>_.
     check_each (\<lambda>k. validate_point k point_count) (kills l)))))))))"

section \<open>Calls\<close>

type_synonym event_location = "block_id \<times> nat"

definition event_locations :: "cfg_block list \<Rightarrow> (event_id, event_location) btree_map" where
  "event_locations blocks =
     foldl (\<lambda>m block. foldl (\<lambda>m (index, e). bt_insert e (block_row block, index) m) m
              (enumerate 0 (block_events block))) [] blocks"

definition located_at :: "(event_id, event_location) btree_map \<Rightarrow> event_id \<Rightarrow> event_location checked" where
  "located_at locations e = ok_or (bt_get locations e) IndexPanic"

type_synonym granular_argument = "nat \<times> call_argument \<times> event_id"

definition granular_call_uses :: "event list \<Rightarrow> use_id set" where
  "granular_call_uses evs =
     set (List.map_filter (\<lambda>ev. case event_kind ev of CallArgumentEvent _ _ a \<Rightarrow> Some (argument_use a) | _ \<Rightarrow> None) evs)"

definition collect_call_events ::
  "event list \<Rightarrow> ((call_id, granular_argument list) btree_map \<times> (call_id, call_argument list) btree_map) checked" where
  "collect_call_events evs =
     fold_each (\<lambda>ev (granular, effects).
       case event_kind ev of
         CallArgumentEvent call index a \<Rightarrow> Inr (bt_push call (index, a, event_row ev) granular, effects)
       | CallEffectEvent effect \<Rightarrow>
           if bt_get effects (effect_call effect) \<noteq> None then internal_failure
           else Inr (granular, bt_insert (effect_call effect) (effect_arguments effect) effects)
       | _ \<Rightarrow> Inr (granular, effects)) evs ([], [])"

text \<open>The location of the first effect of a call: every event before it is looked up as well.\<close>

primrec effect_location ::
  "(event_id, event_location) btree_map \<Rightarrow> call_id \<Rightarrow> event list \<Rightarrow> event_location option checked" where
  "effect_location locations call [] = Inr None"
| "effect_location locations call (ev # evs) =
     result_bind (located_at locations (event_row ev)) (\<lambda>l.
       if (case event_kind ev of CallEffectEvent effect \<Rightarrow> effect_call effect = call | _ \<Rightarrow> False)
       then Inr (Some l) else effect_location locations call evs)"

text \<open>\<open>sort_by_key\<close> looks every argument event up; the sort is stable.\<close>

definition sort_arguments ::
  "(event_id, event_location) btree_map \<Rightarrow> granular_argument list \<Rightarrow> (event_location \<times> granular_argument) list checked" where
  "sort_arguments locations args =
     map_sum id (sort_key fst)
       (fold_each (\<lambda>a keyed. result_bind (located_at locations (snd (snd a))) (\<lambda>l. Inr (keyed @ [(l, a)]))) args [])"

definition validate_call ::
  "event list \<Rightarrow> (event_id, event_location) btree_map \<Rightarrow> (call_id, granular_argument list) btree_map
   \<Rightarrow> call_id \<times> call_argument list \<Rightarrow> unit checked" where
  "validate_call evs locations granular entry =
     (case entry of (call, expected) \<Rightarrow>
       if expected = [] then require (bt_get granular call = None)
       else
         (case bt_get granular call of
            None \<Rightarrow> internal_failure
          | Some args \<Rightarrow>
              result_bind (sort_arguments locations args) (\<lambda>sorted_args.
              result_bind (require (length sorted_args = length expected)) (\<lambda>_.
              result_bind (effect_location locations call evs) (\<lambda>found.
              case found of
                None \<Rightarrow> internal_failure
              | Some (effect_block, effect_index) \<Rightarrow>
                  check_each (\<lambda>(expected_index, (argument_block, argument_index), index, a, _).
                    result_bind (require (expected_index \<le> u32_max)) (\<lambda>_.
                    result_bind (require (\<not> (index \<noteq> expected_index \<or> slice_get expected expected_index \<noteq> Some a)))
                      (\<lambda>_. require (\<not> (argument_block \<noteq> effect_block \<or> effect_index \<le> argument_index)))))
                    (enumerate 0 sorted_args))))))"

definition validate_calls :: "event list \<Rightarrow> cfg_block list \<Rightarrow> unit checked" where
  "validate_calls evs blocks =
     (let locations = event_locations blocks in
      result_bind (collect_call_events evs) (\<lambda>(granular, effects).
      result_bind (check_each (validate_call evs locations granular) effects) (\<lambda>_.
      check_each (\<lambda>call. require (bt_get effects call \<noteq> None)) (bt_keys granular))))"

section \<open>Events\<close>

record event_tallies =
  use_owners :: "nat list"
  loan_issues :: "nat list"
  loan_kills :: "(loan_id \<times> point_id) set"

definition own_use :: "use_id \<Rightarrow> event_tallies \<Rightarrow> event_tallies checked" where
  "own_use u t = result_bind (update_row (use_owners t) u Suc) (\<lambda>owners. Inr (t\<lparr>use_owners := owners\<rparr>))"

definition validate_effect_argument ::
  "borrow_problem \<Rightarrow> use_id set \<Rightarrow> point_id \<Rightarrow> call_argument \<Rightarrow> event_tallies \<Rightarrow> event_tallies checked" where
  "validate_effect_argument p granular point a t =
     result_bind (validate_place (argument_place a) (length (places p))) (\<lambda>_.
     result_bind (require_index (argument_use a) (length (uses p))) (\<lambda>use_index.
     result_bind (row (uses p) use_index) (\<lambda>u.
     result_bind (require (\<not> (argument_use a \<notin> granular \<and> (use_point u \<noteq> point \<or> use_place u \<noteq> argument_place a))))
       (\<lambda>_. if argument_use a \<notin> granular then own_use use_index t else Inr t))))"

definition validate_effect_result ::
  "borrow_problem \<Rightarrow> call_effect \<Rightarrow> call_result \<Rightarrow> place_id set \<Rightarrow> place_id set checked" where
  "validate_effect_result p effect r destinations =
     (let d = destination_place (result_destination r) in
      result_bind (require (d \<notin> destinations)) (\<lambda>_.
      result_bind (validate_binding_destination (result_destination r) (places p)) (\<lambda>_.
      result_bind (validate_origin (result_origin r) (length (origins p))) (\<lambda>_.
      result_bind (row (origins p) (result_origin r)) (\<lambda>origin.
      case origin_kind origin of
        CallResultOrigin origin_call provenance \<Rightarrow>
          result_bind (require (origin_call = effect_call effect)) (\<lambda>_.
          result_bind (case provenance of
              AliasParams indices \<Rightarrow> check_each (\<lambda>i. require (slice_get (effect_arguments effect) i \<noteq> None)) indices
            | _ \<Rightarrow> Inr ())
            (\<lambda>_. Inr (insert d destinations)))
      | _ \<Rightarrow> internal_failure)))))"

definition validate_jump_argument ::
  "borrow_problem \<Rightarrow> jump_argument \<Rightarrow> place_id set \<Rightarrow> place_id set checked" where
  "validate_jump_argument p a destinations =
     (let d = destination_place (jump_destination a) in
      result_bind (validate_place (jump_source a) (length (places p))) (\<lambda>_.
      result_bind (validate_binding_destination (jump_destination a) (places p)) (\<lambda>_.
      result_bind (require (is_definition (jump_destination a))) (\<lambda>_.
      result_bind (require (d \<notin> destinations)) (\<lambda>_.
      result_bind (row (places p) d) (\<lambda>target.
      if projections target \<noteq> [] then internal_failure
      else
        result_bind (row (places p) (jump_source a)) (\<lambda>source.
        result_bind (require (projections source = [])) (\<lambda>_. Inr (insert d destinations)))))))))"

definition validate_target :: "borrow_problem \<Rightarrow> block_id \<Rightarrow> unit checked" where
  "validate_target p target =
     result_bind (require_index target (length (flow_blocks (problem_flow p)))) (\<lambda>_. Inr ())"

definition validate_terminator_event :: "borrow_problem \<Rightarrow> terminator_event \<Rightarrow> unit checked" where
  "validate_terminator_event p kind =
     (case kind of
        JumpEvent target args \<Rightarrow>
          result_bind (validate_target p target) (\<lambda>_.
          result_bind (fold_each (validate_jump_argument p) args {}) (\<lambda>_. Inr ()))
      | BreakEvent target \<Rightarrow> validate_target p target
      | ContinueEvent target \<Rightarrow> validate_target p target
      | BranchEvent targets \<Rightarrow>
          result_bind (validate_sorted_unique targets) (\<lambda>_. check_each (validate_target p) targets)
      | _ \<Rightarrow> Inr ())"

text \<open>The cases that only check their operands.\<close>

definition validate_value_event :: "borrow_problem \<Rightarrow> event_kind \<Rightarrow> unit checked" where
  "validate_value_event p kind =
     (let place_ok = (\<lambda>pl. validate_place pl (length (places p)));
          destination_ok = (\<lambda>d. validate_binding_destination d (places p));
          origin_ok = (\<lambda>origin. validate_origin origin (length (origins p)));
          origin_set_ok = (\<lambda>os. validate_origin_set os (length (origins p)))
      in case kind of
        FreshEvent d origin \<Rightarrow> result_bind (destination_ok d) (\<lambda>_. origin_ok origin)
      | AliasEvent source d os \<Rightarrow>
          result_bind (place_ok source) (\<lambda>_. result_bind (destination_ok d) (\<lambda>_. origin_set_ok os))
      | ExclusiveAliasEvent source d os \<Rightarrow>
          result_bind (place_ok source) (\<lambda>_. result_bind (destination_ok d) (\<lambda>_. origin_set_ok os))
      | AliasFromPlaceEvent source d \<Rightarrow> result_bind (place_ok source) (\<lambda>_. destination_ok d)
      | ExclusiveAliasFromPlaceEvent source d \<Rightarrow> result_bind (place_ok source) (\<lambda>_. destination_ok d)
      | CopyEvent source d origin \<Rightarrow>
          result_bind (place_ok source) (\<lambda>_. result_bind (destination_ok d) (\<lambda>_. origin_ok origin))
      | ProjectionEvent source d origin \<Rightarrow>
          result_bind (place_ok source) (\<lambda>_. result_bind (destination_ok d) (\<lambda>_. origin_ok origin))
      | RebindEvent d v \<Rightarrow>
          result_bind (destination_ok d) (\<lambda>_.
          case v of
            FreshRebind origin \<Rightarrow> origin_ok origin
          | AliasRebind os \<Rightarrow> origin_set_ok os
          | AliasFromPlaceRebind source \<Rightarrow> place_ok source)
      | AggregateEvent d origin fs \<Rightarrow>
          result_bind (destination_ok d) (\<lambda>_.
          result_bind (origin_ok origin) (\<lambda>_. check_each (\<lambda>f. place_ok (field_source f)) fs))
      | ScopeExitEvent bs \<Rightarrow>
          result_bind (validate_sorted_unique bs) (\<lambda>_.
          check_each (\<lambda>b. result_bind (require_index b (length (bindings p))) (\<lambda>_. Inr ())) bs)
      | TerminatorEvent terminator \<Rightarrow> validate_terminator_event p terminator
      | _ \<Rightarrow> Inr ())"

definition validate_event ::
  "borrow_problem \<Rightarrow> use_id set \<Rightarrow> event \<Rightarrow> event_tallies \<Rightarrow> event_tallies checked" where
  "validate_event p granular ev t =
     result_bind (validate_point (event_point ev) (length (points p))) (\<lambda>_.
     case event_kind ev of
       CallArgumentEvent call index a \<Rightarrow>
         result_bind (require_index call (length (calls p))) (\<lambda>_.
         result_bind (require_index (argument_use a) (length (uses p))) (\<lambda>_.
         result_bind (validate_place (argument_place a) (length (places p))) (\<lambda>_.
         case slice_get (uses p) (argument_use a) of
           None \<Rightarrow> internal_failure
         | Some u \<Rightarrow>
             result_bind (require (argument_access a = access_kind_of (use_kind u))) (\<lambda>_.
             result_bind (require (\<not> (use_point u \<noteq> event_point ev \<or> use_place u \<noteq> argument_place a))) (\<lambda>_.
             own_use (argument_use a) t)))))
     | CallEffectEvent effect \<Rightarrow>
         result_bind (require_index (effect_call effect) (length (calls p))) (\<lambda>_.
         result_bind (fold_each (validate_effect_argument p granular (event_point ev)) (effect_arguments effect) t) (\<lambda>t.
         result_bind (fold_each (validate_effect_result p effect) (effect_results effect) {}) (\<lambda>_. Inr t)))
     | AccessEvent u \<Rightarrow>
         result_bind (require_index u (length (uses p))) (\<lambda>use_index.
         result_bind (row (uses p) use_index) (\<lambda>used.
         result_bind (require (use_point used = event_point ev)) (\<lambda>_. own_use use_index t)))
     | LoanIssueEvent l \<Rightarrow>
         result_bind (require_index l (length (loans p))) (\<lambda>loan_index.
         result_bind (row (loans p) loan_index) (\<lambda>issued.
         result_bind (require (issued_at issued = event_point ev)) (\<lambda>_.
         result_bind (update_row (loan_issues t) loan_index Suc) (\<lambda>issues. Inr (t\<lparr>loan_issues := issues\<rparr>)))))
     | LoanKillEvent l _ \<Rightarrow>
         result_bind (require_index l (length (loans p))) (\<lambda>loan_index.
         result_bind (row (loans p) loan_index) (\<lambda>killed.
         result_bind (require (event_point ev \<in> set (kills killed))) (\<lambda>_.
         Inr (t\<lparr>loan_kills := insert (l, event_point ev) (loan_kills t)\<rparr>))))
     | kind \<Rightarrow> result_bind (validate_value_event p kind) (\<lambda>_. Inr t))"

section \<open>Writers of bindings\<close>

definition event_binding_destination :: "event \<Rightarrow> binding_destination option" where
  "event_binding_destination ev =
     (case event_kind ev of
        FreshEvent d _ \<Rightarrow> Some d
      | AliasEvent _ d _ \<Rightarrow> Some d
      | AliasFromPlaceEvent _ d \<Rightarrow> Some d
      | ExclusiveAliasEvent _ d _ \<Rightarrow> Some d
      | ExclusiveAliasFromPlaceEvent _ d \<Rightarrow> Some d
      | CopyEvent _ d _ \<Rightarrow> Some d
      | ProjectionEvent _ d _ \<Rightarrow> Some d
      | RebindEvent d _ \<Rightarrow> Some d
      | AggregateEvent d _ _ \<Rightarrow> Some d
      | _ \<Rightarrow> None)"

text \<open>The use an access event at a position of a block owns; an event of another kind is refused.\<close>

definition access_at :: "event list \<Rightarrow> problem_use list \<Rightarrow> event_id list \<Rightarrow> nat \<Rightarrow> problem_use checked" where
  "access_at evs us es index =
     result_bind (row es index) (\<lambda>e.
     result_bind (row evs e) (\<lambda>ev.
     case event_kind ev of AccessEvent u \<Rightarrow> row us u | _ \<Rightarrow> internal_failure))"

text \<open>The arguments of a jump are read in order, then defined in order, just before the jump; the
  result is where the definitions start.\<close>

definition validate_jump_accesses ::
  "event list \<Rightarrow> problem_use list \<Rightarrow> event_id list \<Rightarrow> jump_argument list \<Rightarrow> nat checked" where
  "validate_jump_accesses evs us es args =
     (case checked_sub_usize (length es - 1) (length args) of
        None \<Rightarrow> internal_failure
      | Some write_start \<Rightarrow>
          result_bind (check_each (\<lambda>(offset, a).
              result_bind (access_at evs us es (write_start + offset)) (\<lambda>u.
                require (\<not> (use_destination (use_kind u) \<noteq> Some (jump_destination a) \<or>
                         use_place u \<noteq> destination_place (jump_destination a))))) (enumerate 0 args)) (\<lambda>_.
          case checked_sub_usize write_start (length args) of
            None \<Rightarrow> internal_failure
          | Some source_start \<Rightarrow>
              result_bind (check_each (\<lambda>(offset, a).
                  result_bind (access_at evs us es (source_start + offset)) (\<lambda>u.
                    require (\<not> (use_kind u \<noteq> ReadUse \<or> use_place u \<noteq> jump_source a)))) (enumerate 0 args)) (\<lambda>_.
              Inr write_start)))"

definition jump_write_start ::
  "event list \<Rightarrow> problem_use list \<Rightarrow> event_id list \<Rightarrow> nat option checked" where
  "jump_write_start evs us es =
     (case (if es = [] then None else slice_get evs (last es)) of
        None \<Rightarrow> Inr None
      | Some ev \<Rightarrow>
          (case event_kind ev of
             TerminatorEvent (JumpEvent _ args) \<Rightarrow>
               if args = [] then Inr None
               else result_bind (validate_jump_accesses evs us es args) (\<lambda>start. Inr (Some start))
           | _ \<Rightarrow> Inr None))"

text \<open>Whether the nearest call effect before an access, with only accesses in between, defines the
  destination; the events are given latest first.\<close>

primrec previous_call_matches :: "event list \<Rightarrow> binding_destination \<Rightarrow> event_id list \<Rightarrow> bool checked" where
  "previous_call_matches evs d [] = Inr False"
| "previous_call_matches evs d (e # es) =
     result_bind (row evs e) (\<lambda>ev.
     case event_kind ev of
       AccessEvent _ \<Rightarrow> previous_call_matches evs d es
     | CallEffectEvent effect \<Rightarrow> Inr (list_ex (\<lambda>r. result_destination r = d) (effect_results effect))
     | _ \<Rightarrow> Inr False)"

definition validate_write_access ::
  "event list \<Rightarrow> problem_use list \<Rightarrow> event_id list \<Rightarrow> nat option \<Rightarrow> nat \<times> event_id \<Rightarrow> unit checked" where
  "validate_write_access evs us es write_start indexed =
     (case indexed of (index, e) \<Rightarrow>
       result_bind (row evs e) (\<lambda>ev.
       case event_kind ev of
         AccessEvent u \<Rightarrow>
           result_bind (row us u) (\<lambda>used.
           case use_destination (use_kind used) of
             None \<Rightarrow> Inr ()
           | Some d \<Rightarrow>
               result_bind (require (destination_place d = use_place used)) (\<lambda>_.
               let next_matches =
                     (case slice_get es (index + 1) of
                        None \<Rightarrow> False
                      | Some following \<Rightarrow>
                          (case slice_get evs following of
                             None \<Rightarrow> False
                           | Some ev \<Rightarrow> event_binding_destination ev = Some d));
                   jump_matches = (case write_start of Some start \<Rightarrow> start \<le> index | None \<Rightarrow> False)
               in result_bind (previous_call_matches evs d (rev (take index es))) (\<lambda>call_matches.
                    require ((of_bool next_matches + of_bool call_matches + of_bool jump_matches :: nat) = 1))))
       | _ \<Rightarrow> Inr ()))"

definition validate_binding_write_accesses ::
  "cfg_block list \<Rightarrow> event list \<Rightarrow> problem_use list \<Rightarrow> unit checked" where
  "validate_binding_write_accesses blocks evs us =
     check_each (\<lambda>block.
       result_bind (jump_write_start evs us (block_events block)) (\<lambda>write_start.
       check_each (validate_write_access evs us (block_events block) write_start)
         (enumerate 0 (block_events block)))) blocks"

section \<open>The atomic check\<close>

definition validate_ids :: "borrow_problem \<Rightarrow> unit checked" where
  "validate_ids p =
     result_bind (validate_dense_ids binding_row (bindings p)) (\<lambda>_.
     result_bind (validate_dense_ids block_row (flow_blocks (problem_flow p))) (\<lambda>_.
     result_bind (validate_dense_ids point_row (points p)) (\<lambda>_.
     result_bind (validate_dense_ids place_row (places p)) (\<lambda>_.
     result_bind (validate_dense_ids origin_row (origins p)) (\<lambda>_.
     result_bind (validate_dense_ids loan_row (loans p)) (\<lambda>_.
     result_bind (validate_dense_ids use_row (uses p)) (\<lambda>_.
     result_bind (validate_dense_ids call_row (calls p)) (\<lambda>_.
     validate_dense_ids event_row (events p)))))))))"

definition validate_control_flow :: "borrow_problem \<Rightarrow> unit checked" where
  "validate_control_flow p =
     (let flow = problem_flow p; blocks = flow_blocks flow in
      result_bind (require_index (flow_entry flow) (length blocks)) (\<lambda>entry.
      result_bind (require (flow_exits flow \<noteq> [])) (\<lambda>_.
      result_bind (count_edges (flow_edges flow) (length blocks)) (\<lambda>(incoming, outgoing, outgoing_targets).
      result_bind (row incoming entry) (\<lambda>n.
      result_bind (require (n = 0)) (\<lambda>_.
      result_bind (validate_exits blocks (flow_exits flow) outgoing) (\<lambda>_.
      result_bind (validate_point_blocks (points p) blocks) (\<lambda>_.
      result_bind (validate_blocks (events p) (points p) blocks) (\<lambda>_.
      validate_terminators (events p) outgoing outgoing_targets blocks)))))))))"

definition validate_rows :: "borrow_problem \<Rightarrow> unit checked" where
  "validate_rows p =
     result_bind (check_each (validate_use (length (points p)) (places p)) (uses p)) (\<lambda>_.
     result_bind (check_each (validate_place_root (length (bindings p))) (places p)) (\<lambda>_.
     result_bind (check_each (validate_origin_row (events p) (length (origins p)) (length (calls p))
                    (call_result_owners (events p))) (origins p)) (\<lambda>_.
     check_each (validate_loan (length (points p)) (length (places p)) (length (origins p)) (length (uses p)))
       (loans p))))"

definition validate_events :: "borrow_problem \<Rightarrow> unit checked" where
  "validate_events p =
     result_bind (validate_calls (events p) (flow_blocks (problem_flow p))) (\<lambda>_.
     result_bind (fold_each (validate_event p (granular_call_uses (events p))) (events p)
       \<lparr>use_owners = replicate (length (uses p)) 0, loan_issues = replicate (length (loans p)) 0, loan_kills = {}\<rparr>)
       (\<lambda>t.
     result_bind (check_each (\<lambda>n. require (n = 1)) (use_owners t)) (\<lambda>_.
     result_bind (validate_binding_write_accesses (flow_blocks (problem_flow p)) (events p) (uses p)) (\<lambda>_.
     result_bind (check_each (\<lambda>n. require (n = 1)) (loan_issues t)) (\<lambda>_.
     check_each (\<lambda>l. check_each (\<lambda>k. require ((loan_row l, k) \<in> loan_kills t)) (kills l)) (loans p))))))"

definition validate_problem :: "borrow_problem \<Rightarrow> unit checked" where
  "validate_problem p =
     result_bind (require (flow_blocks (problem_flow p) \<noteq> [])) (\<lambda>_.
     result_bind (require (points p \<noteq> [])) (\<lambda>_.
     result_bind (validate_ids p) (\<lambda>_.
     result_bind (validate_control_flow p) (\<lambda>_.
     result_bind (validate_rows p) (\<lambda>_.
     validate_events p)))))"

definition borrow_problem_new :: "borrow_problem_parts \<Rightarrow> borrow_problem checked" where
  "borrow_problem_new parts =
     (let p = \<lparr>bindings = parts_bindings parts,
               problem_flow = \<lparr>flow_blocks = parts_blocks parts, flow_edges = parts_edges parts,
                               flow_entry = parts_entry parts, flow_exits = parts_exits parts\<rparr>,
               points = parts_points parts, places = parts_places parts, origins = parts_origins parts,
               loans = parts_loans parts, uses = parts_uses parts, calls = parts_calls parts,
               events = parts_events parts\<rparr>
      in result_bind (validate_problem p) (\<lambda>_. Inr p))"

end
