(* ===== verification/Borrow_Problem_Facts.thy ===== *)
theory Borrow_Problem_Facts
  imports Borrow_Problem
begin

text \<open>
  What validation of a borrow problem establishes: no input makes it panic, and an accepted problem is
  well formed, with dense tables, a closed control flow, events partitioned among the blocks, and one
  owning event per use.
\<close>

section \<open>Checks without panics\<close>

abbreviation checked :: "('a \<Rightarrow> bool) \<Rightarrow> 'a checked \<Rightarrow> bool" where
  "checked \<equiv> outcome (\<lambda>e. e \<noteq> IndexPanic)"

lemma checked_basic [simp]:
  "checked Q internal_failure"
  "checked R (require b) \<longleftrightarrow> (b \<longrightarrow> R ())"
  "checked I (require_index i n) \<longleftrightarrow> (i < n \<longrightarrow> I i)"
  by (auto simp: internal_failure_def require_def require_index_def)

lemma row_ok [simp]: "i < length xs \<Longrightarrow> row xs i = Inr (xs ! i)"
  by (simp add: row_def slice_get_def)

lemma update_row_ok [simp]: "i < length xs \<Longrightarrow> update_row xs i f = Inr (xs[i := f (xs ! i)])"
  by (simp add: update_row_def)

lemma checked_dense [simp]:
  "checked (\<lambda>_. \<forall>i < length rows. row_of (rows ! i) = i) (validate_dense_ids row_of rows)"
proof -
  have "checked (\<lambda>_. \<forall>x \<in> set (enumerate 0 rows). row_of (snd x) = fst x) (validate_dense_ids row_of rows)"
    unfolding validate_dense_ids_def by (rule outcome_check_each) (auto simp: outcome_bind)
  then show ?thesis
  proof (rule outcome_mono, intro allI impI)
    fix i assume "\<forall>x \<in> set (enumerate 0 rows). row_of (snd x) = fst x" "i < length rows"
    moreover have "(i, rows ! i) \<in> set (enumerate 0 rows)" if "i < length rows"
      using that by (simp add: in_set_enumerate_eq)
    ultimately show "row_of (rows ! i) = i" by fastforce
  qed
qed

lemma checked_sorted_unique [simp]: "checked (\<lambda>_. sorted_wrt (<) xs) (validate_sorted_unique xs)"
proof -
  have "checked (\<lambda>_. \<forall>x \<in> set (zip xs (tl xs)). fst x < snd x) (validate_sorted_unique xs)"
    unfolding validate_sorted_unique_def by (rule outcome_check_each) auto
  then show ?thesis
  proof (rule outcome_mono)
    assume z: "\<forall>x \<in> set (zip xs (tl xs)). fst x < snd x"
    then show "sorted_wrt (<) xs"
    proof (induction xs)
      case (Cons x xs)
      show ?case
      proof (cases xs)
        case (Cons y ys)
        have "sorted_wrt (<) xs" using Cons.IH Cons.prems Cons by simp
        then show ?thesis using Cons.prems Cons by auto
      qed simp
    qed simp
  qed
qed

lemma checked_indices [simp]:
  "checked (\<lambda>_. \<forall>x \<in> set xs. x < n) (check_each (\<lambda>x. result_bind (require_index x n) (\<lambda>_. Inr ())) xs)"
  by (rule outcome_check_each) (simp add: outcome_bind)

lemma checked_point [simp]: "checked Q (validate_point i n) \<longleftrightarrow> (i < n \<longrightarrow> Q ())"
  "checked Q (validate_place i n) \<longleftrightarrow> (i < n \<longrightarrow> Q ())"
  "checked Q (validate_origin i n) \<longleftrightarrow> (i < n \<longrightarrow> Q ())"
  by (simp_all add: validate_point_def validate_place_def validate_origin_def outcome_bind)

lemma checked_origin_set [simp]: "checked (\<lambda>_. \<forall>x \<in> set os. x < n) (validate_origin_set os n)"
  unfolding validate_origin_set_def
  by (rule outcome_bindI [OF checked_sorted_unique], rule outcome_bindI [OF checked_indices]) simp

lemma checked_destination [simp]:
  "checked (\<lambda>_. destination_place d < length ps) (validate_binding_destination d ps)"
  by (auto simp: validate_binding_destination_def outcome_bind)

section \<open>Control flow\<close>

definition out_edges :: "cfg_edge list \<Rightarrow> block_id \<Rightarrow> block_id list" where
  "out_edges es b = map edge_to (filter (\<lambda>e. edge_from e = b) es)"

definition in_degree :: "cfg_edge list \<Rightarrow> block_id \<Rightarrow> nat" where
  "in_degree es b = length (filter (\<lambda>e. edge_to e = b) es)"

lemma checked_edges:
  "checked (\<lambda>(incoming, outgoing, targets).
      (\<forall>e \<in> set es. edge_from e < n \<and> edge_to e < n) \<and>
      incoming = map (in_degree es) [0..<n] \<and> outgoing = map (\<lambda>b. length (out_edges es b)) [0..<n] \<and>
      targets = map (out_edges es) [0..<n]) (count_edges es n)"
  unfolding count_edges_def
proof (rule outcome_fold_prefix [where I = "\<lambda>es (incoming, outgoing, targets).
      (\<forall>e \<in> set es. edge_from e < n \<and> edge_to e < n) \<and>
      incoming = map (in_degree es) [0..<n] \<and> outgoing = map (\<lambda>b. length (out_edges es b)) [0..<n] \<and>
      targets = map (out_edges es) [0..<n]"], goal_cases)
  case 1
  show ?case by (auto simp: in_degree_def out_edges_def intro: nth_equalityI)
next
  case (2 ys e u)
  obtain incoming outgoing targets where u: "u = (incoming, outgoing, targets)" by (cases u)
  show ?case using 2
    by (auto simp: u outcome_bind in_degree_def out_edges_def nth_list_update intro!: nth_equalityI)
qed

lemma checked_exits:
  assumes "outgoing = map (\<lambda>b. length (out_edges es b)) [0..<length blocks]"
    and "\<And>b. b \<in> set blocks \<Longrightarrow> block_row b < length blocks"
  shows "checked (\<lambda>_. (\<forall>x \<in> set exits. x < length blocks \<and> out_edges es x = []) \<and> distinct exits \<and>
      (\<forall>b \<in> set blocks. out_edges es (block_row b) = [] \<longrightarrow> block_row b \<in> set exits))
    (validate_exits blocks exits outgoing)"
  unfolding validate_exits_def
proof (rule outcome_bindI [OF outcome_fold_prefix [where I = "\<lambda>xs seen. seen = set xs \<and> distinct xs \<and>
      (\<forall>x \<in> set xs. x < length blocks \<and> out_edges es x = [])"]], goal_cases)
  case (2 ys x u)
  then show ?case using assms(1) by (auto simp: outcome_bind)
next
  case (3 seen)
  have "checked (\<lambda>_. \<forall>b \<in> set blocks. out_edges es (block_row b) = [] \<longrightarrow> block_row b \<in> seen)
    (check_each (\<lambda>block. result_bind (row outgoing (block_row block))
       (\<lambda>n. require (\<not> (n = 0 \<and> block_row block \<notin> seen)))) blocks)"
    by (rule outcome_check_each) (use assms in \<open>auto simp: outcome_bind\<close>)
  then show ?case by (rule outcome_mono) (use 3 in auto)
qed simp

lemma checked_point_blocks:
  "checked (\<lambda>_. \<forall>pt \<in> set pts. point_block pt < length blocks) (validate_point_blocks pts blocks)"
  unfolding validate_point_blocks_def by (rule outcome_check_each) (auto simp: outcome_bind)

section \<open>Events of blocks\<close>

text \<open>What the walk over the blocks establishes of the event lists visited so far.\<close>

definition listed :: "event list \<Rightarrow> program_point list \<Rightarrow> cfg_block \<Rightarrow> bool" where
  "listed evs pts block \<longleftrightarrow>
     entry_point block < length pts \<and> exit_point block < length pts \<and>
     point_block (pts ! entry_point block) = block_row block \<and>
     point_block (pts ! exit_point block) = block_row block \<and>
     (\<forall>e \<in> set (block_events block). e < length evs \<and> event_point (evs ! e) < length pts \<and>
       point_block (pts ! event_point (evs ! e)) = block_row block) \<and>
     sorted (map (\<lambda>e. ordinal (pts ! event_point (evs ! e))) (block_events block))"

definition seen_exactly :: "nat \<Rightarrow> event_id list \<Rightarrow> bool list \<Rightarrow> bool" where
  "seen_exactly n es seen \<longleftrightarrow>
     length seen = n \<and> distinct es \<and> set es \<subseteq> {..<n} \<and> (\<forall>e < n. seen ! e \<longleftrightarrow> e \<in> set es)"

lemma sorted_le_last: "sorted xs \<Longrightarrow> x \<in> set xs \<Longrightarrow> x \<le> last xs"
  by (induction xs) auto

lemma seen_exactly_insert:
  assumes "seen_exactly n es seen" "e < n" "\<not> seen ! e"
  shows "seen_exactly n (es @ [e]) (seen[e := True])"
  using assms by (auto simp: seen_exactly_def nth_list_update)

lemma checked_block_events:
  assumes "seen_exactly (length evs) es seen"
  shows "checked (\<lambda>(seen', _). seen_exactly (length evs) (es @ bes) seen' \<and>
      (\<forall>e \<in> set bes. e < length evs \<and> event_point (evs ! e) < length pts \<and>
        point_block (pts ! event_point (evs ! e)) = b) \<and>
      sorted (map (\<lambda>e. ordinal (pts ! event_point (evs ! e))) bes))
    (fold_each (validate_block_event evs pts b) bes (seen, None))"
proof -
  let ?ord = "\<lambda>e. ordinal (pts ! event_point (evs ! e))"
  let ?I = "\<lambda>ys (seen', previous). seen_exactly (length evs) (es @ ys) seen' \<and>
      (\<forall>e \<in> set ys. e < length evs \<and> event_point (evs ! e) < length pts \<and>
        point_block (pts ! event_point (evs ! e)) = b) \<and> sorted (map ?ord ys) \<and>
      previous = (if ys = [] then None else Some (?ord (last ys)))"
  have "checked (?I bes) (fold_each (validate_block_event evs pts b) bes (seen, None))"
  proof (rule outcome_fold_prefix, goal_cases)
    case (2 ys e u)
    obtain seen' previous where u: "u = (seen', previous)" by (cases u)
    have s: "seen_exactly (length evs) (es @ ys) seen'" "length seen' = length evs" "sorted (map ?ord ys)"
      using 2(2) by (simp_all add: u seen_exactly_def)
    have mono: "?ord y \<le> ?ord e" if "y \<in> set ys" "\<not> ?ord e < ?ord (last ys)" for y
    proof -
      have "?ord y \<le> last (map ?ord ys)" using that(1) s(3) by (intro sorted_le_last) auto
      then show ?thesis using that by (cases "ys = []") (auto simp: last_map)
    qed
    show ?case unfolding u validate_block_event_def prod.case
      using 2(2) seen_exactly_insert [OF s(1)] s(2) mono
      by (auto simp: u outcome_bind sorted_append split: if_splits)
  qed (use assms in simp)
  then show ?thesis by (rule outcome_mono) auto
qed

lemma checked_blocks:
  assumes "\<And>i. i < length blocks \<Longrightarrow> block_row (blocks ! i) = i"
    and "\<forall>pt \<in> set pts. point_block pt < length blocks"
  shows "checked (\<lambda>_. (\<forall>b \<in> set blocks. listed evs pts b) \<and>
      distinct (concat (map block_events blocks)) \<and> set (concat (map block_events blocks)) = {..<length evs})
    (validate_blocks evs pts blocks)"
proof -
  have row: "block_row b < length blocks" if "b \<in> set blocks" for b
    using that assms(1) by (auto simp: in_set_conv_nth)
  let ?I = "\<lambda>bs (ranges, seen). length ranges = length blocks \<and> (\<forall>b \<in> set bs. listed evs pts b) \<and>
      seen_exactly (length evs) (concat (map block_events bs)) seen"
  have "checked (?I blocks) (fold_each (validate_block evs pts) blocks
      (replicate (length blocks) (0, 0), replicate (length evs) False))"
  proof (rule outcome_fold_prefix [where I = ?I], goal_cases)
    case (2 bs b u)
    obtain ranges seen where u: "u = (ranges, seen)" by (cases u)
    have s: "length ranges = length blocks" "seen_exactly (length evs) (concat (map block_events bs)) seen"
      "\<forall>b \<in> set bs. listed evs pts b" using 2(2) by (simp_all add: u)
    note events = checked_block_events [OF s(2), of "block_events b" pts "block_row b"]
    show ?case unfolding u validate_block_def prod.case
      apply (rule outcome_bindI [where P = "\<lambda>i. i = entry_point b \<and> i < length pts"], simp)
      apply (simp add: outcome_bind s(1) row [OF 2(1)])
      apply (intro impI)
      apply (rule outcome_mono [OF events])
      using s row [OF 2(1)] by (auto simp: listed_def)
  qed (simp add: seen_exactly_def)
  then show ?thesis unfolding validate_blocks_def
  proof (rule outcome_bindI, goal_cases)
    case (1 a)
    obtain ranges seen where a: "a = (ranges, seen)" by (cases a)
    have "checked (\<lambda>_. True) (check_each (\<lambda>point. result_bind (row ranges (point_block point))
        (\<lambda>(entry_ordinal, exit_ordinal). require (\<not> (ordinal point < entry_ordinal \<or> exit_ordinal < ordinal point)))) pts)"
      by (rule outcome_mono [OF outcome_check_each [where Q = "\<lambda>_. True"]])
         (use 1 assms(2) in \<open>auto simp: a outcome_bind split: prod.split\<close>)
    then show ?case unfolding a prod.case
      by (rule outcome_bindI) (use 1 in \<open>auto simp: a seen_exactly_def list_all_length\<close>)
  qed
qed

text \<open>Every block ends in a terminator whose targets are the block's successors, without repetition.\<close>

definition terminated :: "event list \<Rightarrow> cfg_edge list \<Rightarrow> cfg_block \<Rightarrow> bool" where
  "terminated evs es block \<longleftrightarrow>
     block_events block \<noteq> [] \<and>
     (\<exists>kind. event_kind (evs ! last (block_events block)) = TerminatorEvent kind \<and>
        terminator_targets kind = set (out_edges es (block_row block)) \<and>
        distinct (out_edges es (block_row block)) \<and>
        (out_edges es (block_row block) = [] \<longleftrightarrow> is_terminal kind))"

lemma terminatedI:
  assumes "block_events b \<noteq> []" "event_kind (evs ! last (block_events b)) = TerminatorEvent kind"
    and "\<not> (length xs = 0 \<and> \<not> is_terminal kind)"
    and "set xs \<inter> terminator_targets kind = terminator_targets kind"
    and "card (set xs \<inter> terminator_targets kind) = length xs" and xs: "xs = out_edges es (block_row b)"
  shows "terminated evs es b"
proof -
  let ?T = "terminator_targets kind"
  have "card (set xs \<inter> ?T) \<le> card (set xs)" by (intro card_mono) auto
  then have d: "distinct xs" using assms(5) card_length [of xs] by (intro card_distinct) linarith
  have "?T \<subseteq> set xs" using assms(4) by blast
  moreover have "card ?T = card (set xs)" using assms(4,5) distinct_card [OF d] by simp
  ultimately have eq: "?T = set xs" by (intro card_subset_eq) auto
  have "?T = {}" if "is_terminal kind" using that by (cases kind) (auto simp: is_terminal_def)
  then have "xs = [] \<longleftrightarrow> is_terminal kind" using assms(3) eq by auto
  then show ?thesis using assms(1,2) d eq unfolding terminated_def xs by blast
qed

lemma checked_terminators:
  assumes "outgoing = map (\<lambda>b. length (out_edges es b)) [0..<length blocks]"
    and "targets = map (out_edges es) [0..<length blocks]"
    and "\<And>b. b \<in> set blocks \<Longrightarrow> block_row b < length blocks \<and> listed evs pts b"
  shows "checked (\<lambda>_. \<forall>b \<in> set blocks. terminated evs es b) (validate_terminators evs outgoing targets blocks)"
  unfolding validate_terminators_def
proof (rule outcome_check_each, goal_cases)
  case (1 b)
  note b = 1
  show ?case
  proof (cases "block_events b = []")
    case False
    have last: "last (block_events b) < length evs" using assms(3) [OF b] False by (auto simp: listed_def)
    have rows: "row outgoing (block_row b) = Inr (length (out_edges es (block_row b)))"
      "row targets (block_row b) = Inr (out_edges es (block_row b))"
      using assms(1,2) assms(3) [OF b] by simp_all
    show ?thesis
    proof (cases "event_kind (evs ! last (block_events b))")
      case (TerminatorEvent kind)
      show ?thesis
        apply (simp only: False if_False row_ok [OF last] rows result_bind_simps TerminatorEvent event_kind.case
              outcome_bind checked_basic Let_def de_Morgan_disj not_not)
        apply (intro impI, elim conjE)
        apply (rule terminatedI [OF False TerminatorEvent _ _ _ refl])
        by assumption+
    qed (use False last rows in simp_all)
  qed simp
qed

section \<open>Rows\<close>

lemma checked_use: "checked (\<lambda>_. use_point u < n \<and> use_place u < length ps) (validate_use n ps u)"
  by (auto simp: validate_use_def outcome_bind)

lemma checked_origin_row: "checked (\<lambda>_. True) (validate_origin_row evs n m owners origin)"
proof -
  have "checked (\<lambda>_. True) (validate_origin_set os n)" for os
    by (rule outcome_mono [OF checked_origin_set]) simp
  moreover have "checked (\<lambda>_. True) (validate_provenance evs n call provenance)" for call provenance
    using calculation
    by (auto simp: validate_provenance_def split: call_result_provenance.split option.split
        intro!: outcome_bindI [OF checked_sorted_unique])
  ultimately show ?thesis
    by (auto simp: validate_origin_row_def outcome_bind split: origin_kind.split option.split)
qed

lemma checked_loan:
  "checked (\<lambda>_. \<forall>u \<in> set (loan_uses l). u < k) (validate_loan n m j k l)"
  unfolding validate_loan_def
  apply (rule outcome_bindI [where P = "\<lambda>_. True"], simp)
  apply (rule outcome_bindI [where P = "\<lambda>_. True"], simp)
  apply (rule outcome_bindI [OF checked_origin_set])
  apply (rule outcome_bindI [where P = "\<lambda>_. True"], simp)
  apply (rule outcome_bindI [OF checked_indices])
  apply (rule outcome_bindI [OF checked_sorted_unique])
  apply (rule outcome_bindI [OF checked_indices])
  apply (rule outcome_bindI [OF checked_sorted_unique])
  apply (rule outcome_mono [OF outcome_check_each [where Q = "\<lambda>_. True"]])
  by simp_all

section \<open>Calls\<close>

definition granular_at :: "event list \<Rightarrow> call_id \<Rightarrow> nat \<Rightarrow> call_argument \<Rightarrow> bool" where
  "granular_at evs call index a \<longleftrightarrow> (\<exists>ev \<in> set evs. event_kind ev = CallArgumentEvent call index a)"

lemma event_locations_keys:
  "fst ` set (event_locations blocks) = (\<Union>block \<in> set blocks. set (block_events block))"
proof -
  have inner: "fst ` set (foldl (\<lambda>m (index, e). bt_insert e (f index) m) m xs) = snd ` set xs \<union> fst ` set m"
    for f :: "nat \<Rightarrow> event_location" and m and xs :: "(nat \<times> event_id) list"
  proof (induction xs arbitrary: m)
    case (Cons x xs)
    then show ?case by (cases x) simp
  qed simp
  have ids: "snd ` set (enumerate 0 es) = set es" for es :: "event_id list"
    by (metis map_snd_enumerate set_map)
  have "fst ` set (foldl (\<lambda>m block. foldl (\<lambda>m (index, e). bt_insert e (block_row block, index) m) m
      (enumerate 0 (block_events block))) m blocks) =
      (\<Union>block \<in> set blocks. set (block_events block)) \<union> fst ` set m" for m
    by (induction blocks arbitrary: m) (simp_all add: inner ids Un_commute Un_left_commute)
  from this [of "[]"] show ?thesis by (simp add: event_locations_def)
qed

lemma event_located:
  assumes "set (concat (map block_events blocks)) = {..<n}" "e < n"
  shows "\<exists>l. located_at (event_locations blocks) e = Inr l"
proof -
  have "fst ` set (event_locations blocks) = {..<n}" using assms(1) unfolding event_locations_keys by simp
  then have "e \<in> fst ` set (event_locations blocks)" using assms(2) by simp
  then have "bt_get (event_locations blocks) e \<noteq> None" unfolding map_of_eq_None_iff by blast
  then show ?thesis unfolding located_at_def by (cases "bt_get (event_locations blocks) e") simp_all
qed

definition granular_ok :: "event list \<Rightarrow> (call_id, granular_argument list) btree_map \<Rightarrow> bool" where
  "granular_ok evs granular \<longleftrightarrow>
     (\<forall>call args index a e. bt_get granular call = Some args \<longrightarrow> (index, a, e) \<in> set args \<longrightarrow>
        (\<exists>ev \<in> set evs. event_row ev = e \<and> event_kind ev = CallArgumentEvent call index a))"

definition effects_ok :: "event list \<Rightarrow> (call_id, call_argument list) btree_map \<Rightarrow> bool" where
  "effects_ok evs effects \<longleftrightarrow>
     (\<forall>ev \<in> set evs. \<forall>effect. event_kind ev = CallEffectEvent effect \<longrightarrow>
        bt_get effects (effect_call effect) = Some (effect_arguments effect))"

lemma granular_ok_append: "granular_ok ys granular \<Longrightarrow> granular_ok (ys @ [ev]) granular"
  unfolding granular_ok_def by (auto 4 3)

lemma granular_ok_push:
  assumes "granular_ok ys granular" "event_kind ev = CallArgumentEvent call index a"
  shows "granular_ok (ys @ [ev]) (bt_push call (index, a, event_row ev) granular)"
  unfolding granular_ok_def
proof (intro allI impI)
  fix c args i b e
  assume g: "bt_get (bt_push call (index, a, event_row ev) granular) c = Some args" "(i, b, e) \<in> set args"
  show "\<exists>x \<in> set (ys @ [ev]). event_row x = e \<and> event_kind x = CallArgumentEvent c i b"
  proof (cases "c = call \<and> i = index \<and> b = a \<and> e = event_row ev")
    case True
    then show ?thesis using assms(2) by simp
  next
    case False
    then obtain old where "bt_get granular c = Some old" "(i, b, e) \<in> set old"
      using g by (auto simp: bt_get_push split: option.splits if_splits)
    then show ?thesis using granular_ok_append [OF assms(1), of ev] unfolding granular_ok_def by blast
  qed
qed

lemma effects_ok_append:
  "effects_ok ys effects \<Longrightarrow> (\<And>effect. event_kind ev \<noteq> CallEffectEvent effect) \<Longrightarrow> effects_ok (ys @ [ev]) effects"
  by (auto simp: effects_ok_def)

lemma effects_ok_insert:
  assumes "effects_ok ys effects" "event_kind ev = CallEffectEvent effect" "bt_get effects (effect_call effect) = None"
  shows "effects_ok (ys @ [ev]) (bt_insert (effect_call effect) (effect_arguments effect) effects)"
  using assms unfolding effects_ok_def by auto

lemma checked_collect:
  "checked (\<lambda>(granular, effects). granular_ok evs granular \<and> effects_ok evs effects) (collect_call_events evs)"
  unfolding collect_call_events_def
proof (rule outcome_fold_prefix [where I = "\<lambda>evs (granular, effects). granular_ok evs granular \<and> effects_ok evs effects"],
    goal_cases)
  case (2 ys ev u)
  obtain granular effects where u: "u = (granular, effects)" by (cases u)
  have g: "granular_ok ys granular" "effects_ok ys effects" using 2(2) by (simp_all add: u)
  show ?case
    using granular_ok_append [OF g(1), of ev] granular_ok_push [OF g(1), of ev]
      effects_ok_append [OF g(2), of ev] effects_ok_insert [OF g(2), of ev]
    by (cases "event_kind ev") (simp_all add: u)
qed (simp add: granular_ok_def effects_ok_def)

lemma sort_arguments_ok:
  assumes "\<And>index a e. (index, a, e) \<in> set args \<Longrightarrow> \<exists>l. located_at locations e = Inr l"
  shows "checked (\<lambda>keyed. set (map snd keyed) = set args \<and> length keyed = length args) (sort_arguments locations args)"
proof -
  have "checked (\<lambda>keyed. map snd keyed = args)
      (fold_each (\<lambda>a keyed. result_bind (located_at locations (snd (snd a))) (\<lambda>l. Inr (keyed @ [(l, a)]))) args [])"
  proof (rule outcome_fold_prefix [where I = "\<lambda>ys keyed. map snd keyed = ys"], goal_cases)
    case (2 ys x u)
    then show ?case using assms [of "fst x" "fst (snd x)" "snd (snd x)"] by auto
  qed simp
  then show ?thesis
    unfolding sort_arguments_def outcome_map_sum comp_def id_apply
    by (rule outcome_mono) (simp only: set_map set_sort length_sort length_map flip: list.set_map, simp add: image_image, auto)
qed

lemma effect_location_ok:
  assumes "\<And>ev. ev \<in> set evs \<Longrightarrow> \<exists>l. located_at locations (event_row ev) = Inr l"
  shows "checked (\<lambda>_. True) (effect_location locations call evs)"
  using assms
proof (induction evs)
  case (Cons ev evs)
  obtain l where "located_at locations (event_row ev) = Inr l" using Cons.prems by fastforce
  then show ?case using Cons by simp
qed simp

lemma checked_call:
  assumes "granular_ok evs granular" "\<And>ev. ev \<in> set evs \<Longrightarrow> \<exists>l. located_at locations (event_row ev) = Inr l"
  shows "checked (\<lambda>_. \<forall>i < length expected. granular_at evs call i (expected ! i))
    (validate_call evs locations granular (call, expected))"
proof (cases "expected = [] \<or> bt_get granular call = None")
  case False
  then obtain args where args: "bt_get granular call = Some args" by auto
  have member: "\<exists>ev \<in> set evs. event_row ev = e \<and> event_kind ev = CallArgumentEvent call index a"
    if "(index, a, e) \<in> set args" for index a e
    using assms(1) args that unfolding granular_ok_def by blast
  have located: "\<exists>l. located_at locations e = Inr l" if "(index, a, e) \<in> set args" for index a e
    using member [OF that] assms(2) by blast
  have nonempty: "expected \<noteq> []" using False by simp
  show ?thesis unfolding validate_call_def prod.case if_not_P [OF nonempty] args option.case
    apply (rule outcome_bindI [OF sort_arguments_ok [OF located]], assumption)
    subgoal for keyed
      apply (rule outcome_bindI [where P = "\<lambda>_. length keyed = length expected"], simp)
      apply (rule outcome_bindI [OF effect_location_ok [OF assms(2)]], assumption)
      subgoal premises prems for x found
      proof (cases found)
        case (Some l)
        obtain b n where l: "l = (b, n)" by (cases l)
        have "checked (\<lambda>_. \<forall>x \<in> set (enumerate 0 keyed). fst (snd (snd x)) = fst x \<and>
            slice_get expected (fst x) = Some (fst (snd (snd (snd x)))))
          (check_each (\<lambda>(expected_index, (argument_block, argument_index), index, a, _).
             result_bind (require (expected_index \<le> u32_max)) (\<lambda>_.
             result_bind (require (\<not> (index \<noteq> expected_index \<or> slice_get expected expected_index \<noteq> Some a)))
               (\<lambda>_. require (\<not> (argument_block \<noteq> b \<or> n \<le> argument_index))))) (enumerate 0 keyed))"
          by (rule outcome_check_each) (auto simp: outcome_bind)
        then show ?thesis unfolding Some option.case l prod.case
        proof (rule outcome_mono, intro allI impI)
          fix i assume x: "\<forall>x \<in> set (enumerate 0 keyed). fst (snd (snd x)) = fst x \<and>
              slice_get expected (fst x) = Some (fst (snd (snd (snd x))))" and i: "i < length expected"
          obtain k index a e where k: "keyed ! i = (k, index, a, e)" by (metis prod_cases4)
          have "(i, keyed ! i) \<in> set (enumerate 0 keyed)" using i prems by (simp add: in_set_enumerate_eq)
          then have e: "index = i" "expected ! i = a" using x k by (fastforce simp: slice_get_eq_Some)+
          have "(index, a, e) \<in> set (map snd keyed)" using i prems k by (force simp: set_conv_nth)
          then have "(index, a, e) \<in> set args" using prems by simp
          then show "granular_at evs call i (expected ! i)" using member e unfolding granular_at_def by blast
        qed
      qed simp
      done
    done
qed (auto simp: validate_call_def)

lemma checked_calls:
  assumes "set (concat (map block_events blocks)) = {..<length evs}"
    and "\<And>i. i < length evs \<Longrightarrow> event_row (evs ! i) = i"
  shows "checked (\<lambda>_. \<forall>ev \<in> set evs. \<forall>effect. event_kind ev = CallEffectEvent effect \<longrightarrow>
      (\<forall>i < length (effect_arguments effect). granular_at evs (effect_call effect) i (effect_arguments effect ! i)))
    (validate_calls evs blocks)"
  unfolding validate_calls_def Let_def
proof (rule outcome_bindI [OF checked_collect], goal_cases)
  case (1 ge)
  obtain granular effects where ge: "ge = (granular, effects)" by (cases ge)
  have g: "granular_ok evs granular" "effects_ok evs effects" using 1 by (simp_all add: ge)
  have located: "\<exists>l. located_at (event_locations blocks) (event_row ev) = Inr l" if "ev \<in> set evs" for ev
  proof -
    have "event_row ev < length evs" using that assms(2) by (auto simp: in_set_conv_nth)
    then show ?thesis by (rule event_located [OF assms(1)])
  qed
  have "checked (\<lambda>_. \<forall>x \<in> set effects. \<forall>i < length (snd x). granular_at evs (fst x) i (snd x ! i))
      (check_each (validate_call evs (event_locations blocks) granular) effects)"
  proof (rule outcome_check_each)
    fix x assume "x \<in> set effects"
    show "checked (\<lambda>_. \<forall>i < length (snd x). granular_at evs (fst x) i (snd x ! i))
        (validate_call evs (event_locations blocks) granular x)"
      using checked_call [OF g(1) located, of "snd x" "fst x"] by simp
  qed
  then show ?case unfolding ge prod.case
  proof (rule outcome_bindI, goal_cases)
    case (1 y)
    have "checked (\<lambda>_. \<forall>x \<in> set (bt_keys granular). True)
        (check_each (\<lambda>call. require (bt_get effects call \<noteq> None)) (bt_keys granular))"
      by (rule outcome_check_each) simp
    then show ?case
      by (rule outcome_mono) (use 1 g(2) in \<open>fastforce simp: effects_ok_def dest: map_of_SomeD\<close>)
  qed
qed

section \<open>Events\<close>

text \<open>The event that owns a use: the granular call argument or the access that names it.\<close>

definition owns :: "use_id \<Rightarrow> event_kind \<Rightarrow> bool" where
  "owns u kind =
     (case kind of CallArgumentEvent _ _ a \<Rightarrow> argument_use a = u | AccessEvent v \<Rightarrow> v = u | _ \<Rightarrow> False)"

definition issues :: "loan_id \<Rightarrow> event_kind \<Rightarrow> bool" where
  "issues l kind = (case kind of LoanIssueEvent m \<Rightarrow> m = l | _ \<Rightarrow> False)"

definition count_events :: "(event_kind \<Rightarrow> bool) \<Rightarrow> event list \<Rightarrow> nat" where
  "count_events P evs = length (filter (\<lambda>ev. P (event_kind ev)) evs)"

lemma count_events_append [simp]:
  "count_events P (evs @ [ev]) = count_events P evs + of_bool (P (event_kind ev))"
  by (simp add: count_events_def)

definition tallied :: "borrow_problem \<Rightarrow> event list \<Rightarrow> event_tallies \<Rightarrow> bool" where
  "tallied p evs t \<longleftrightarrow>
     use_owners t = map (\<lambda>u. count_events (owns u) evs) [0..<length (uses p)] \<and>
     loan_issues t = map (\<lambda>l. count_events (issues l) evs) [0..<length (loans p)] \<and>
     loan_kills t = {(l, event_point ev) | l ev. ev \<in> set evs \<and> (\<exists>why. event_kind ev = LoanKillEvent l why)}"

text \<open>What an accepted event refers to.\<close>

definition event_ok :: "borrow_problem \<Rightarrow> event \<Rightarrow> bool" where
  "event_ok p ev \<longleftrightarrow>
     event_point ev < length (points p) \<and>
     (case event_kind ev of
        CallArgumentEvent _ _ a \<Rightarrow>
          argument_use a < length (uses p) \<and> use_point (uses p ! argument_use a) = event_point ev \<and>
          use_place (uses p ! argument_use a) = argument_place a \<and>
          argument_access a = access_kind_of (use_kind (uses p ! argument_use a))
      | AccessEvent u \<Rightarrow> u < length (uses p) \<and> use_point (uses p ! u) = event_point ev
      | LoanIssueEvent l \<Rightarrow> l < length (loans p) \<and> issued_at (loans p ! l) = event_point ev
      | LoanKillEvent l _ \<Rightarrow> l < length (loans p) \<and> event_point ev \<in> set (kills (loans p ! l))
      | _ \<Rightarrow> True)"

lemma bump_map:
  "i < n \<Longrightarrow> (map f [0..<n])[i := Suc (map f [0..<n] ! i)] = map (\<lambda>j. f j + of_bool (i = j)) [0..<n]"
  by (intro nth_equalityI) (auto simp: nth_list_update)

lemma checked_True_destination: "checked (\<lambda>_. True) (validate_binding_destination d ps)"
  by (rule outcome_mono [OF checked_destination]) simp

lemma checked_True_origins: "checked (\<lambda>_. True) (validate_origin_set os n)"
  by (rule outcome_mono [OF checked_origin_set]) simp

lemma checked_True_each: "(\<And>x. x \<in> set xs \<Longrightarrow> checked (\<lambda>_. True) (f x)) \<Longrightarrow> checked (\<lambda>_. True) (check_each f xs)"
  by (rule outcome_mono [OF outcome_check_each [where Q = "\<lambda>_. True"]]) simp_all

lemma checked_True_sorted: "checked (\<lambda>_. True) (validate_sorted_unique xs)"
  by (rule outcome_mono [OF checked_sorted_unique]) simp

lemmas checked_True = checked_True_each outcome_mono [OF checked_True_destination]
  outcome_mono [OF checked_True_origins] outcome_mono [OF checked_True_sorted]

lemma checked_effect_results:
  "checked (\<lambda>_. True) (fold_each (validate_effect_result p effect) rs s)"
proof (rule outcome_fold_each [where I = "\<lambda>_. True"])
  fix r u assume "r \<in> set rs"
  show "checked (\<lambda>_. True) (validate_effect_result p effect r u)"
    unfolding validate_effect_result_def Let_def
    by (rule outcome_bindI [where P = "\<lambda>_. True"], simp, rule outcome_bindI [OF checked_True_destination])
       (auto simp: outcome_bind intro!: checked_True split: origin_kind.split call_result_provenance.split)
qed simp

lemma checked_terminator_event: "checked (\<lambda>_. True) (validate_terminator_event p kind)"
proof -
  have "checked (\<lambda>_. True) (fold_each (validate_jump_argument p) args {})" for args
  proof (rule outcome_fold_each [where I = "\<lambda>_. True"])
    fix a u assume "a \<in> set args"
    show "checked (\<lambda>_. True) (validate_jump_argument p a u)"
      unfolding validate_jump_argument_def Let_def
      by (rule outcome_bindI [where P = "\<lambda>_. jump_source a < length (places p)"], simp,
          rule outcome_bindI [OF checked_destination]) (simp add: outcome_bind)
  qed simp
  then show ?thesis
    by (cases kind) (auto simp: validate_terminator_event_def validate_target_def outcome_bind
        intro!: checked_True)
qed

lemma checked_value_event: "checked (\<lambda>_. True) (validate_value_event p kind)"
  by (cases kind)
     (auto simp: validate_value_event_def Let_def outcome_bind checked_terminator_event
        intro!: checked_True split: rebind_value.split)

lemma checked_effect_arguments:
  assumes "\<And>a. a \<in> set args \<Longrightarrow> argument_use a \<in> granular"
  shows "checked (\<lambda>t'. t' = t) (fold_each (validate_effect_argument p granular point) args t)"
  by (rule outcome_fold_each [where I = "\<lambda>t'. t' = t"])
     (auto simp: validate_effect_argument_def outcome_bind assms)

lemma checked_event:
  assumes "tallied p ys t"
    and "\<And>effect a. event_kind ev = CallEffectEvent effect \<Longrightarrow> a \<in> set (effect_arguments effect) \<Longrightarrow>
      argument_use a \<in> granular"
  shows "checked (\<lambda>t. tallied p (ys @ [ev]) t \<and> event_ok p ev) (validate_event p granular ev t)"
proof -
  have len: "length (use_owners t) = length (uses p)" "length (loan_issues t) = length (loans p)"
    using assms(1) by (simp_all add: tallied_def)
  have other: "tallied p (ys @ [ev]) t \<and> (event_point ev < length (points p) \<longrightarrow> event_ok p ev)"
    if "case event_kind ev of CallArgumentEvent _ _ _ \<Rightarrow> False | AccessEvent _ \<Rightarrow> False
        | LoanIssueEvent _ \<Rightarrow> False | LoanKillEvent _ _ \<Rightarrow> False | _ \<Rightarrow> True"
    using assms(1) that
    by (cases "event_kind ev") (auto simp: tallied_def event_ok_def owns_def issues_def)
  show ?thesis unfolding validate_event_def
  proof (rule outcome_bindI [where P = "\<lambda>_. event_point ev < length (points p)"], simp, goal_cases)
    case (1 x)
    show ?case
    proof (cases "event_kind ev")
      case (CallArgumentEvent call index a)
      show ?thesis using 1 assms(1) len
        by (auto simp: CallArgumentEvent outcome_bind own_use_def event_ok_def slice_get_def tallied_def
            owns_def issues_def nth_list_update intro!: nth_equalityI)
    next
      case (AccessEvent u)
      show ?thesis using 1 assms(1) len
        by (auto simp: AccessEvent outcome_bind own_use_def event_ok_def tallied_def
            owns_def issues_def nth_list_update intro!: nth_equalityI)
    next
      case (CallEffectEvent effect)
      have o: "tallied p (ys @ [ev]) t" "event_ok p ev"
        using other 1 by (simp_all add: CallEffectEvent)
      show ?thesis unfolding CallEffectEvent event_kind.case
        by (rule outcome_bindI [where P = "\<lambda>_. True"], simp,
            rule outcome_bindI [OF checked_effect_arguments], rule assms(2) [OF CallEffectEvent], assumption,
            rule outcome_bindI [OF checked_effect_results]) (simp add: o)
    next
      case (LoanIssueEvent l)
      show ?thesis using 1 assms(1) len
        by (auto simp: LoanIssueEvent outcome_bind event_ok_def tallied_def
            owns_def issues_def nth_list_update intro!: nth_equalityI)
    next
      case (LoanKillEvent l why)
      have kills: "{(m, event_point x) | m x. x \<in> set (ys @ [ev]) \<and> (\<exists>why. event_kind x = LoanKillEvent m why)} =
          insert (l, event_point ev) {(m, event_point x) | m x. x \<in> set ys \<and> (\<exists>why. event_kind x = LoanKillEvent m why)}"
      proof -
        have "{(m, event_point x) | m x. x \<in> set (ys @ [ev]) \<and> (\<exists>why. event_kind x = LoanKillEvent m why)} =
            {(m, event_point x) | m x. x \<in> set ys \<and> (\<exists>why. event_kind x = LoanKillEvent m why)} \<union>
            {(m, event_point ev) | m. \<exists>why. event_kind ev = LoanKillEvent m why}" by auto
        also have "{(m, event_point ev) | m. \<exists>why. event_kind ev = LoanKillEvent m why} = {(l, event_point ev)}"
          by (auto simp: LoanKillEvent)
        finally show ?thesis by simp
      qed
      show ?thesis using 1 assms(1) len unfolding tallied_def kills
        by (auto simp: LoanKillEvent outcome_bind event_ok_def owns_def issues_def)
    qed (use other 1 in \<open>auto simp: outcome_bind intro!: outcome_mono [OF checked_value_event]\<close>)
  qed
qed

section \<open>Writers of bindings\<close>

lemma checked_access_at:
  assumes "\<And>e. e \<in> set es \<Longrightarrow> e < length evs" "\<And>ev u. ev \<in> set evs \<Longrightarrow> event_kind ev = AccessEvent u \<Longrightarrow> u < length us"
    and "i < length es"
  shows "checked (\<lambda>_. True) (access_at evs us es i)"
proof -
  have e: "es ! i < length evs" using assms(1,3) by simp
  then show ?thesis using assms(2) [of "evs ! (es ! i)"] assms(3)
    by (auto simp: access_at_def outcome_bind split: event_kind.split)
qed

lemma checked_jump_write_start:
  assumes "\<And>e. e \<in> set es \<Longrightarrow> e < length evs" "\<And>ev u. ev \<in> set evs \<Longrightarrow> event_kind ev = AccessEvent u \<Longrightarrow> u < length us"
  shows "checked (\<lambda>_. True) (jump_write_start evs us es)"
proof -
  note at = outcome_mono [OF checked_access_at [OF assms]]
  have "checked (\<lambda>_. True) (validate_jump_accesses evs us es args)" for args
  proof (cases "length args \<le> length es - 1 \<and> length args \<le> length es - 1 - length args")
    case True
    have each: "checked (\<lambda>_. True) (check_each (\<lambda>(offset, a). result_bind (access_at evs us es (start + offset))
        (\<lambda>u. require (P a u))) (enumerate 0 args))" if "start + length args \<le> length es" for start P
      using that by (auto simp: outcome_bind in_set_enumerate_eq intro!: checked_True at)
    show ?thesis using True unfolding validate_jump_accesses_def checked_sub_usize_def
      by (simp, intro outcome_bindI [OF each]) auto
  next
    case False
    have each: "checked (\<lambda>_. True) (check_each (\<lambda>(offset, a). result_bind (access_at evs us es (start + offset))
        (\<lambda>u. require (P a u))) (enumerate 0 args))" if "start + length args \<le> length es" for start P
      using that by (auto simp: outcome_bind in_set_enumerate_eq intro!: checked_True at)
    show ?thesis using False unfolding validate_jump_accesses_def checked_sub_usize_def
      by (auto intro!: outcome_bindI [OF each])
  qed
  then show ?thesis
    by (auto simp: jump_write_start_def outcome_bind split: option.split event_kind.split terminator_event.split)
qed

lemma checked_write_accesses:
  assumes "\<And>b e. b \<in> set blocks \<Longrightarrow> e \<in> set (block_events b) \<Longrightarrow> e < length evs"
    and "\<And>ev u. ev \<in> set evs \<Longrightarrow> event_kind ev = AccessEvent u \<Longrightarrow> u < length us"
  shows "checked (\<lambda>_. True) (validate_binding_write_accesses blocks evs us)"
  unfolding validate_binding_write_accesses_def
proof (rule checked_True_each)
  fix b assume b: "b \<in> set blocks"
  have previous: "checked (\<lambda>_. True) (previous_call_matches evs d es)" if "set es \<subseteq> set (block_events b)" for d es
    using that assms(1) [OF b] by (induction es) (auto split: event_kind.split)
  show "checked (\<lambda>_. True) (result_bind (jump_write_start evs us (block_events b)) (\<lambda>write_start.
      check_each (validate_write_access evs us (block_events b) write_start) (enumerate 0 (block_events b))))"
  proof (rule outcome_bindI [OF checked_jump_write_start [OF assms(1) [OF b] assms(2)]], assumption+,
      rule checked_True_each, goal_cases)
    case (1 start x)
    obtain i e where x: "x = (i, e)" by (cases x)
    have e: "e < length evs" using 1 assms(1) [OF b] by (auto simp: x in_set_enumerate_eq)
    have "set (rev (take i (block_events b))) \<subseteq> set (block_events b)" by (auto dest: in_set_takeD)
    then show ?case using e assms(2) [of "evs ! e"]
      by (auto simp: x validate_write_access_def outcome_bind Let_def intro!: outcome_mono [OF previous]
          split: event_kind.split option.split)
  qed
qed

section \<open>Well-formed problems\<close>

definition well_formed :: "borrow_problem \<Rightarrow> bool" where
  "well_formed p \<longleftrightarrow>
     (let blocks = flow_blocks (problem_flow p); edges = flow_edges (problem_flow p);
          exits = flow_exits (problem_flow p); evs = events p
      in blocks \<noteq> [] \<and>
         (\<forall>i < length blocks. block_row (blocks ! i) = i) \<and>
         (\<forall>i < length (points p). point_row (points p ! i) = i) \<and>
         (\<forall>i < length (places p). place_row (places p ! i) = i) \<and>
         (\<forall>i < length (loans p). loan_row (loans p ! i) = i) \<and>
         (\<forall>i < length (uses p). use_row (uses p ! i) = i) \<and>
         (\<forall>i < length evs. event_row (evs ! i) = i) \<and>
         flow_entry (problem_flow p) < length blocks \<and> in_degree edges (flow_entry (problem_flow p)) = 0 \<and>
         (\<forall>e \<in> set edges. edge_from e < length blocks \<and> edge_to e < length blocks) \<and>
         distinct exits \<and>
         (\<forall>b < length blocks. b \<in> set exits \<longleftrightarrow> out_edges edges b = []) \<and> set exits \<subseteq> {..<length blocks} \<and>
         (\<forall>pt \<in> set (points p). point_block pt < length blocks) \<and>
         (\<forall>b \<in> set blocks. listed evs (points p) b \<and> terminated evs edges b) \<and>
         distinct (concat (map block_events blocks)) \<and> set (concat (map block_events blocks)) = {..<length evs} \<and>
         (\<forall>u \<in> set (uses p). use_point u < length (points p) \<and> use_place u < length (places p)) \<and>
         (\<forall>l \<in> set (loans p). \<forall>u \<in> set (loan_uses l). u < length (uses p)) \<and>
         (\<forall>ev \<in> set evs. event_ok p ev) \<and>
         (\<forall>u < length (uses p). count_events (owns u) evs = 1) \<and>
         (\<forall>l < length (loans p). count_events (issues l) evs = 1) \<and>
         (\<forall>l \<in> set (loans p). \<forall>k \<in> set (kills l).
            \<exists>ev \<in> set evs. event_point ev = k \<and> (\<exists>why. event_kind ev = LoanKillEvent (loan_row l) why)))"

lemma checked_ids:
  "checked (\<lambda>_. (\<forall>i < length (flow_blocks (problem_flow p)). block_row (flow_blocks (problem_flow p) ! i) = i) \<and>
      (\<forall>i < length (points p). point_row (points p ! i) = i) \<and>
      (\<forall>i < length (places p). place_row (places p ! i) = i) \<and>
      (\<forall>i < length (loans p). loan_row (loans p ! i) = i) \<and>
      (\<forall>i < length (uses p). use_row (uses p ! i) = i) \<and>
      (\<forall>i < length (events p). event_row (events p ! i) = i)) (validate_ids p)"
  unfolding validate_ids_def
  by (rule outcome_bindI [OF checked_dense])+ (rule outcome_mono [OF checked_dense], blast)

definition flow_ok :: "borrow_problem \<Rightarrow> bool" where
  "flow_ok p \<longleftrightarrow>
     (let blocks = flow_blocks (problem_flow p); edges = flow_edges (problem_flow p);
          exits = flow_exits (problem_flow p); evs = events p
      in flow_entry (problem_flow p) < length blocks \<and> in_degree edges (flow_entry (problem_flow p)) = 0 \<and>
         (\<forall>e \<in> set edges. edge_from e < length blocks \<and> edge_to e < length blocks) \<and>
         distinct exits \<and>
         (\<forall>b < length blocks. b \<in> set exits \<longleftrightarrow> out_edges edges b = []) \<and> set exits \<subseteq> {..<length blocks} \<and>
         (\<forall>pt \<in> set (points p). point_block pt < length blocks) \<and>
         (\<forall>b \<in> set blocks. listed evs (points p) b \<and> terminated evs edges b) \<and>
         distinct (concat (map block_events blocks)) \<and> set (concat (map block_events blocks)) = {..<length evs})"

lemma checked_control_flow:
  assumes dense: "\<And>i. i < length (flow_blocks (problem_flow p)) \<Longrightarrow> block_row (flow_blocks (problem_flow p) ! i) = i"
  shows "checked (\<lambda>_. flow_ok p) (validate_control_flow p)"
proof -
  let ?blocks = "flow_blocks (problem_flow p)" and ?es = "flow_edges (problem_flow p)"
  have row: "block_row b < length ?blocks" if "b \<in> set ?blocks" for b
    using that dense by (auto simp: in_set_conv_nth)
  have every: "(\<forall>b \<in> set ?blocks. P (block_row b)) \<longleftrightarrow> (\<forall>i < length ?blocks. P i)" for P
    using dense by (auto simp: all_set_conv_all_nth)
  have backwards: "b \<in> E" if "\<forall>x \<in> set ?blocks. out_edges ?es (block_row x) = [] \<longrightarrow> block_row x \<in> E"
      "b < length ?blocks" "out_edges ?es b = []" for b E
    using that every [of "\<lambda>b. out_edges ?es b = [] \<longrightarrow> b \<in> E"] by blast
  show ?thesis unfolding validate_control_flow_def Let_def
    apply (rule outcome_bindI [where P = "\<lambda>entry. entry = flow_entry (problem_flow p) \<and> entry < length ?blocks"], simp)
    apply (rule outcome_bindI [where P = "\<lambda>_. True"], simp)
    apply (rule outcome_bindI [OF checked_edges])
    subgoal premises prems for entry unit counts
    proof -
      obtain incoming outgoing targets where c: "counts = (incoming, outgoing, targets)" by (cases counts)
      have e: "\<forall>e \<in> set ?es. edge_from e < length ?blocks \<and> edge_to e < length ?blocks"
        "incoming = map (in_degree ?es) [0..<length ?blocks]"
        "outgoing = map (\<lambda>b. length (out_edges ?es b)) [0..<length ?blocks]"
        "targets = map (out_edges ?es) [0..<length ?blocks]" using prems(3) by (simp_all add: c)
      have entry: "entry = flow_entry (problem_flow p)" "entry < length ?blocks" using prems(1) by simp_all
      show ?thesis unfolding c prod.case
        apply (rule outcome_bindI [where P = "\<lambda>n. n = in_degree ?es entry"])
         apply (simp add: e(2) entry(2))
        apply (rule outcome_bindI [where P = "\<lambda>_. in_degree ?es entry = 0"], simp)
        apply (rule outcome_bindI [OF checked_exits [OF e(3) row]], assumption)
        apply (rule outcome_bindI [OF checked_point_blocks])
        apply (rule outcome_bindI [OF checked_blocks [OF dense]], assumption, assumption)
        apply (rule outcome_mono [OF checked_terminators [OF e(3,4), where pts = "points p"]])
        using row apply blast
        unfolding flow_ok_def Let_def entry(1) [symmetric] every
        using e(1) entry(2) apply (elim conjE)
        apply (intro conjI ballI)
        by (simp_all only:) (auto intro: backwards)
    qed
    done
qed

definition rows_ok :: "borrow_problem \<Rightarrow> bool" where
  "rows_ok p \<longleftrightarrow>
     (\<forall>u \<in> set (uses p). use_point u < length (points p) \<and> use_place u < length (places p)) \<and>
     (\<forall>l \<in> set (loans p). \<forall>u \<in> set (loan_uses l). u < length (uses p))"

lemma checked_rows: "checked (\<lambda>_. rows_ok p) (validate_rows p)"
proof -
  have root: "checked (\<lambda>_. True) (validate_place_root n pl)" for n pl
    by (simp add: validate_place_root_def outcome_bind)
  show ?thesis unfolding validate_rows_def
    apply (rule outcome_bindI [OF outcome_check_each [OF checked_use]])
    apply (rule outcome_bindI [OF outcome_check_each [OF root]])
    apply (rule outcome_bindI [OF outcome_check_each [OF checked_origin_row]])
    apply (rule outcome_mono [OF outcome_check_each [OF checked_loan]])
    by (auto simp: rows_ok_def)
qed

definition events_ok :: "borrow_problem \<Rightarrow> bool" where
  "events_ok p \<longleftrightarrow>
     (\<forall>ev \<in> set (events p). event_ok p ev) \<and>
     (\<forall>u < length (uses p). count_events (owns u) (events p) = 1) \<and>
     (\<forall>l < length (loans p). count_events (issues l) (events p) = 1) \<and>
     (\<forall>l \<in> set (loans p). \<forall>k \<in> set (kills l).
        \<exists>ev \<in> set (events p). event_point ev = k \<and> (\<exists>why. event_kind ev = LoanKillEvent (loan_row l) why))"

lemma checked_events:
  assumes dense: "\<And>i. i < length (events p) \<Longrightarrow> event_row (events p ! i) = i"
    and flow: "flow_ok p"
  shows "checked (\<lambda>_. events_ok p) (validate_events p)"
proof -
  let ?blocks = "flow_blocks (problem_flow p)" and ?granular = "granular_call_uses (events p)"
  have listed: "set (concat (map block_events ?blocks)) = {..<length (events p)}"
    using flow unfolding flow_ok_def Let_def by blast
  have granular: "argument_use a \<in> ?granular" if "granular_at (events p) call i a" for call i a
    using that by (force simp: granular_at_def granular_call_uses_def List.map_filter_def split: event_kind.split)
  have start: "tallied p [] \<lparr>use_owners = replicate (length (uses p)) 0, loan_issues = replicate (length (loans p)) 0,
      loan_kills = {}\<rparr>"
    by (auto simp: tallied_def count_events_def intro: nth_equalityI)
  show ?thesis unfolding validate_events_def
  proof (rule outcome_bindI [OF checked_calls [OF listed dense]], assumption, goal_cases)
    case (1 x)
    have effects: "argument_use a \<in> ?granular"
      if "ev \<in> set (events p)" "event_kind ev = CallEffectEvent effect" "a \<in> set (effect_arguments effect)" for ev effect a
      using 1 that granular by (metis in_set_conv_nth)
    let ?I = "\<lambda>ys t. tallied p ys t \<and> (\<forall>ev \<in> set ys. event_ok p ev)"
    have "checked (?I (events p)) (fold_each (validate_event p ?granular) (events p)
        \<lparr>use_owners = replicate (length (uses p)) 0, loan_issues = replicate (length (loans p)) 0, loan_kills = {}\<rparr>)"
    proof (rule outcome_fold_prefix [where I = ?I], goal_cases)
      case (2 ys ev u)
      have "checked (\<lambda>t. tallied p (ys @ [ev]) t \<and> event_ok p ev) (validate_event p ?granular ev u)"
        by (rule checked_event) (use 2 effects in auto)
      then show ?case by (rule outcome_mono) (use 2 in auto)
    qed (simp add: start)
    then show ?case
    proof (rule outcome_bindI, goal_cases)
      case (1 t)
      have t: "tallied p (events p) t" and ok: "\<forall>ev \<in> set (events p). event_ok p ev" using 1 by simp_all
      have killed: "\<exists>ev \<in> set (events p). event_point ev = k \<and> (\<exists>why. event_kind ev = LoanKillEvent l why)"
        if "(l, k) \<in> loan_kills t" for l k using t that unfolding tallied_def by auto
      have owners: "count_events (owns u) (events p) = 1" if "\<forall>n \<in> set (use_owners t). n = 1" "u < length (uses p)" for u
        using t that unfolding tallied_def by simp
      have issued: "count_events (issues l) (events p) = 1" if "\<forall>n \<in> set (loan_issues t). n = 1" "l < length (loans p)" for l
        using t that unfolding tallied_def by simp
      have each: "checked (\<lambda>_. \<forall>n \<in> set ns. n = 1) (check_each (\<lambda>n. require (n = 1)) ns)" for ns :: "nat list"
        by (rule outcome_check_each) simp
      have blocks: "e < length (events p)" if "b \<in> set ?blocks" "e \<in> set (block_events b)" for b e
        using listed that by auto
      have accesses: "u < length (uses p)" if "ev \<in> set (events p)" "event_kind ev = AccessEvent u" for ev u
        using ok that by (force simp: event_ok_def)
      have kills: "checked (\<lambda>_. \<forall>l \<in> set (loans p). \<forall>k \<in> set (kills l). (loan_row l, k) \<in> loan_kills t)
          (check_each (\<lambda>l. check_each (\<lambda>k. require ((loan_row l, k) \<in> loan_kills t)) (kills l)) (loans p))"
        by (intro outcome_check_each) simp
      show ?case
        apply (rule outcome_bindI [OF each])
        apply (rule outcome_bindI [OF checked_write_accesses [OF blocks accesses]], assumption, assumption, assumption, assumption)
        apply (rule outcome_bindI [OF each])
        apply (rule outcome_mono [OF kills])
        using owners issued killed ok unfolding events_ok_def by blast
    qed
  qed
qed

lemma checked_problem: "checked (\<lambda>_. well_formed p) (validate_problem p)"
  unfolding validate_problem_def
proof (rule outcome_bindI [where P = "\<lambda>_. flow_blocks (problem_flow p) \<noteq> []"], simp,
    rule outcome_bindI [where P = "\<lambda>_. True"], simp, rule outcome_bindI [OF checked_ids], goal_cases)
  case (1 x y z)
  show ?case
  proof (rule outcome_bindI [OF checked_control_flow], use 1(3) in blast, goal_cases)
    case (1 w)
    note flow = 1
    show ?case
      by (rule outcome_bindI [OF checked_rows], rule outcome_mono [OF checked_events [OF _ flow]])
         (use \<open>flow_blocks (problem_flow p) \<noteq> []\<close> 1 \<open>_ \<and> _\<close> in
           \<open>simp_all add: well_formed_def flow_ok_def rows_ok_def events_ok_def Let_def\<close>)
  qed
qed

section \<open>Properties\<close>

text \<open>A loop whose body reads a place and then branches back or out.\<close>

abbreviation no_source :: event_source where
  "no_source \<equiv> \<lparr>hir_node = None, source_span = None\<rparr>"

definition loop_problem :: borrow_problem where
  "loop_problem =
     \<lparr>bindings = [\<lparr>binding_row = 0, hir_local = None, binding_region = None, is_mutable = False,
                  compiler_temporary = False, binding_source = no_source\<rparr>],
      problem_flow =
        \<lparr>flow_blocks = [\<lparr>block_row = 0, entry_point = 0, exit_point = 0, block_events = [0]\<rparr>,
                       \<lparr>block_row = 1, entry_point = 1, exit_point = 2, block_events = [1, 2]\<rparr>,
                       \<lparr>block_row = 2, entry_point = 3, exit_point = 3, block_events = [3]\<rparr>],
         flow_edges = [\<lparr>edge_from = 0, edge_to = 1\<rparr>, \<lparr>edge_from = 1, edge_to = 1\<rparr>, \<lparr>edge_from = 1, edge_to = 2\<rparr>],
         flow_entry = 0, flow_exits = [2]\<rparr>,
      points = [\<lparr>point_row = 0, point_block = 0, ordinal = 0, point_source = no_source\<rparr>,
                \<lparr>point_row = 1, point_block = 1, ordinal = 0, point_source = no_source\<rparr>,
                \<lparr>point_row = 2, point_block = 1, ordinal = 1, point_source = no_source\<rparr>,
                \<lparr>point_row = 3, point_block = 2, ordinal = 0, point_source = no_source\<rparr>],
      places = [\<lparr>place_row = 0, place_root = 0, projections = []\<rparr>],
      origins = [], loans = [],
      uses = [\<lparr>use_row = 0, use_point = 1, use_place = 0, use_kind = ReadUse, definition_use = False\<rparr>],
      calls = [],
      events = [\<lparr>event_row = 0, event_point = 0, event_source = no_source, event_kind = TerminatorEvent (JumpEvent 1 [])\<rparr>,
                \<lparr>event_row = 1, event_point = 1, event_source = no_source, event_kind = AccessEvent 0\<rparr>,
                \<lparr>event_row = 2, event_point = 2, event_source = no_source, event_kind = TerminatorEvent (BranchEvent [1, 2])\<rparr>,
                \<lparr>event_row = 3, event_point = 3, event_source = no_source, event_kind = TerminatorEvent ReturnEvent\<rparr>]\<rparr>"

lemma loop_problem_valid: "validate_problem loop_problem = Inr ()"
  by code_simp


end
