(* ===== verification/Last_Use.thy ===== *)
theory Last_Use
  imports Borrow_Problem "HOL-Library.While_Combinator"
begin

text \<open>
  The future-use analysis of a validated borrow problem
  (\<open>analysis/borrow_checker/last_use/mod.rs\<close>): observations of places, bindings, origins and loans,
  and the query whether a subject may or must be observed after a program location.

  \<^item> A failure is \<open>InternalFailure\<close>, an absent key in \<open>map[key]\<close> is \<open>IndexPanic\<close>.
  \<^item> The fixpoint loop of \<open>block_summaries\<close> is \<open>while_option\<close>; a query whose loop would not end is
    \<open>None\<close>, and it is proved that this does not occur.
\<close>

section \<open>Vocabulary\<close>

datatype future_use_status = NoFutureUse | MayBeUsed | MustBeUsed

datatype last_use_subject =
  PlaceSubject place_id | BindingSubject binding_id | OriginSubject value_origin_id | LoanSubject loan_id

text \<open>The derived order: constructors in their order, then the identity.\<close>

primrec subject_key :: "last_use_subject \<Rightarrow> nat \<times> nat" where
  "subject_key (PlaceSubject i) = (0, i)"
| "subject_key (BindingSubject i) = (1, i)"
| "subject_key (OriginSubject i) = (2, i)"
| "subject_key (LoanSubject i) = (3, i)"

lemma subject_key_inject [simp]: "subject_key s = subject_key t \<longleftrightarrow> s = t"
  by (cases s; cases t) simp_all

instantiation last_use_subject :: linorder
begin

definition less_eq_last_use_subject :: "last_use_subject \<Rightarrow> last_use_subject \<Rightarrow> bool" where
  "s \<le> t \<longleftrightarrow> subject_key s \<le> subject_key t"

definition less_last_use_subject :: "last_use_subject \<Rightarrow> last_use_subject \<Rightarrow> bool" where
  "s < t \<longleftrightarrow> subject_key s < subject_key t"

instance
  by standard
     (auto simp: less_eq_last_use_subject_def less_last_use_subject_def less_le_not_le [of "subject_key _"]
       intro: order.trans dest: order.antisym)

end

record last_use_location =
  at_point :: point_id
  after_event :: "event_id option"

definition after_event_at :: "event_id \<Rightarrow> point_id \<Rightarrow> last_use_location" where
  "after_event_at e point = \<lparr>at_point = point, after_event = Some e\<rparr>"

record last_use_observation =
  observed_subject :: last_use_subject
  observed_at :: last_use_location
  observed_use :: use_id

datatype last_use_witness =
    NoFutureUseWitness "block_id list"
  | MayBeUsedWitness use_id "block_id option"
  | MustBeUsedWitness use_id

record last_use_result =
  asked_subject :: last_use_subject
  asked_location :: last_use_location
  future_use :: future_use_status
  future_witness :: last_use_witness

record last_use_analysis =
  point_block_by_id :: "(point_id, block_id) btree_map"
  events_by_block :: "(block_id, event_id list) btree_map"
  event_location_by_id :: "(event_id, last_use_location) btree_map"
  observations_by_subject :: "(last_use_subject, last_use_observation list) btree_map"
  successors :: "(block_id, block_id list) btree_map"
  exit_blocks :: "block_id set"

section \<open>Construction\<close>

definition block_event_locations ::
  "event list \<Rightarrow> cfg_block \<Rightarrow> (event_id, last_use_location) btree_map \<Rightarrow> (event_id, last_use_location) btree_map" where
  "block_event_locations evs block m =
     foldl (\<lambda>m e. case slice_get evs e of
                    Some ev \<Rightarrow> bt_insert e (after_event_at e (event_point ev)) m
                  | None \<Rightarrow> m) m (block_events block)"

definition empty_analysis :: "borrow_problem \<Rightarrow> last_use_analysis" where
  "empty_analysis p =
     (let flow = problem_flow p; blocks = flow_blocks flow;
          targets = foldl (\<lambda>m edge. bt_push (edge_from edge) (edge_to edge) m)
                      (foldl (\<lambda>m block. bt_insert (block_row block) [] m) [] blocks) (flow_edges flow)
      in \<lparr>point_block_by_id = foldl (\<lambda>m point. bt_insert (point_row point) (point_block point) m) [] (points p),
          events_by_block = foldl (\<lambda>m block. bt_insert (block_row block) (block_events block) m) [] blocks,
          event_location_by_id = foldl (\<lambda>m block. block_event_locations (events p) block m) [] blocks,
          observations_by_subject = [],
          successors = map (\<lambda>(block, ts). (block, remdups_adj (sort ts))) targets,
          exit_blocks = set (flow_exits flow)\<rparr>)"

definition add_observation :: "last_use_observation \<Rightarrow> last_use_analysis \<Rightarrow> last_use_analysis" where
  "add_observation ob a = a\<lparr>observations_by_subject := bt_push (observed_subject ob) ob (observations_by_subject a)\<rparr>"

text \<open>\<open>Option\<close> orders \<open>None\<close> before every \<open>Some\<close>.\<close>

definition observation_key :: "last_use_observation \<Rightarrow> nat \<times> nat \<times> nat" where
  "observation_key ob =
     (at_point (observed_at ob), (case after_event (observed_at ob) of None \<Rightarrow> 0 | Some e \<Rightarrow> Suc e), observed_use ob)"

definition sort_observations :: "last_use_analysis \<Rightarrow> last_use_analysis" where
  "sort_observations a =
     a\<lparr>observations_by_subject := map (\<lambda>(subject, obs). (subject, sort_key observation_key obs)) (observations_by_subject a)\<rparr>"

definition use_event_map :: "borrow_problem \<Rightarrow> (use_id, event_id) btree_map" where
  "use_event_map p =
     foldl (\<lambda>m ev.
       case event_kind ev of
         CallArgumentEvent _ _ a \<Rightarrow> bt_insert (argument_use a) (event_row ev) m
       | AccessEvent u \<Rightarrow> if bt_get m u = None then bt_insert u (event_row ev) m else m
       | _ \<Rightarrow> m) [] (events p)"

definition event_for_use :: "borrow_problem \<Rightarrow> use_id \<Rightarrow> event_id checked" where
  "event_for_use p u = ok_or (bt_get (use_event_map p) u) InternalFailure"

text \<open>The location of the event that owns a use.\<close>

definition use_location ::
  "(use_id, event_id) btree_map \<Rightarrow> last_use_analysis \<Rightarrow> use_id \<Rightarrow> last_use_location checked" where
  "use_location event_by_use a u =
     result_bind (ok_or (bt_get event_by_use u) InternalFailure) (\<lambda>e.
       ok_or (bt_get (event_location_by_id a) e) InternalFailure)"

definition observe_use ::
  "borrow_problem \<Rightarrow> (use_id, event_id) btree_map \<Rightarrow> problem_use \<Rightarrow> last_use_analysis \<Rightarrow> last_use_analysis checked" where
  "observe_use p event_by_use u a =
     result_bind (use_location event_by_use a (use_row u)) (\<lambda>location.
     let a = add_observation \<lparr>observed_subject = PlaceSubject (use_place u), observed_at = location,
                              observed_use = use_row u\<rparr> a
     in result_bind (ok_or (slice_get (places p) (use_place u)) InternalFailure) (\<lambda>pl.
          Inr (add_observation \<lparr>observed_subject = BindingSubject (place_root pl), observed_at = location,
                                observed_use = use_row u\<rparr> a)))"

definition observe_loan_use ::
  "(use_id, event_id) btree_map \<Rightarrow> loan_id \<times> use_id \<Rightarrow> last_use_analysis \<Rightarrow> last_use_analysis checked" where
  "observe_loan_use event_by_use entry a =
     (case entry of (l, u) \<Rightarrow>
        result_bind (use_location event_by_use a u) (\<lambda>location.
          Inr (add_observation \<lparr>observed_subject = LoanSubject l, observed_at = location, observed_use = u\<rparr> a)))"

definition from_problem :: "borrow_problem \<Rightarrow> last_use_analysis checked" where
  "from_problem p =
     result_bind (validate_problem p) (\<lambda>_.
     let event_by_use = use_event_map p in
     result_bind (fold_each (observe_use p event_by_use) (uses p) (empty_analysis p)) (\<lambda>a.
     result_bind (fold_each (\<lambda>l. fold_each (observe_loan_use event_by_use) (map (Pair (loan_row l)) (loan_uses l)))
                    (loans p) a)
       (\<lambda>a. Inr (sort_observations a))))"

definition validate_observation :: "borrow_problem \<Rightarrow> last_use_observation \<Rightarrow> unit checked" where
  "validate_observation p ob =
     result_bind (ok_or (slice_get (points p) (at_point (observed_at ob))) InternalFailure) (\<lambda>point.
     case after_event (observed_at ob) of
       None \<Rightarrow> Inr ()
     | Some e \<Rightarrow>
         result_bind (ok_or (slice_get (events p) e) InternalFailure) (\<lambda>ev.
           require (event_point ev = point_row point)))"

definition with_observations ::
  "borrow_problem \<Rightarrow> last_use_observation list \<Rightarrow> last_use_analysis \<Rightarrow> last_use_analysis checked" where
  "with_observations p obs a =
     result_bind (fold_each (\<lambda>ob a. result_bind (validate_observation p ob) (\<lambda>_. Inr (add_observation ob a))) obs a)
       (\<lambda>a. Inr (sort_observations a))"

section \<open>Queries inside a block\<close>

definition block_for_point :: "last_use_analysis \<Rightarrow> point_id \<Rightarrow> block_id checked" where
  "block_for_point a point = ok_or (bt_get (point_block_by_id a) point) InternalFailure"

text \<open>\<open>iter().position(..)\<close>.\<close>

definition position :: "('a \<Rightarrow> bool) \<Rightarrow> 'a list \<Rightarrow> nat option" where
  "position P xs = (let n = length (takeWhile (\<lambda>x. \<not> P x) xs) in if n < length xs then Some n else None)"

definition start_event_index :: "last_use_analysis \<Rightarrow> block_id \<Rightarrow> last_use_location \<Rightarrow> nat checked" where
  "start_event_index a block location =
     result_bind (ok_or (bt_get (events_by_block a) block) InternalFailure) (\<lambda>es.
     case after_event location of
       Some e \<Rightarrow> result_bind (ok_or (position (\<lambda>x. x = e) es) InternalFailure) (\<lambda>index. Inr (index + 1))
     | None \<Rightarrow>
         Inr (case position (\<lambda>e. case bt_get (event_location_by_id a) e of
                        Some l \<Rightarrow> at_point l = at_point location | None \<Rightarrow> False) es of
                Some index \<Rightarrow> index | None \<Rightarrow> 0))"

definition event_id_for_observation :: "last_use_analysis \<Rightarrow> last_use_observation \<Rightarrow> event_id option" where
  "event_id_for_observation a ob =
     (case after_event (observed_at ob) of
        Some e \<Rightarrow> Some e
      | None \<Rightarrow> map_option fst (find (\<lambda>(_, l). at_point l = at_point (observed_at ob)) (event_location_by_id a)))"

definition observation_after_in_block :: "last_use_analysis \<Rightarrow> block_id \<Rightarrow> nat \<Rightarrow> last_use_observation \<Rightarrow> bool" where
  "observation_after_in_block a block start_index ob =
     (case event_id_for_observation a ob of
        None \<Rightarrow> False
      | Some e \<Rightarrow>
          (case bt_get (events_by_block a) block of
             None \<Rightarrow> False
           | Some es \<Rightarrow> (case position (\<lambda>x. x = e) es of Some index \<Rightarrow> start_index \<le> index | None \<Rightarrow> False)))"

definition observations_of :: "last_use_analysis \<Rightarrow> last_use_subject \<Rightarrow> last_use_observation list" where
  "observations_of a subject = (case bt_get (observations_by_subject a) subject of Some obs \<Rightarrow> obs | None \<Rightarrow> [])"

text \<open>\<open>find_map\<close>.\<close>

fun find_map :: "('a \<Rightarrow> 'b option) \<Rightarrow> 'a list \<Rightarrow> 'b option" where
  "find_map f [] = None"
| "find_map f (x # xs) = (case f x of Some y \<Rightarrow> Some y | None \<Rightarrow> find_map f xs)"

definition first_observation_in_block ::
  "last_use_analysis \<Rightarrow> last_use_subject \<Rightarrow> block_id \<Rightarrow> nat \<Rightarrow> use_id option" where
  "first_observation_in_block a subject block start_index =
     (case (bt_get (events_by_block a) block, bt_get (observations_by_subject a) subject) of
        (Some es, Some obs) \<Rightarrow>
          find_map (\<lambda>e. find_map (\<lambda>ob. if event_id_for_observation a ob = Some e then Some (observed_use ob) else None) obs)
            (drop start_index es)
      | _ \<Rightarrow> None)"

section \<open>Summaries of blocks\<close>

type_synonym flags = "(block_id, bool) btree_map"

definition flag :: "flags \<Rightarrow> block_id \<Rightarrow> bool checked" where
  "flag m block = ok_or (bt_get m block) IndexPanic"

text \<open>\<open>iter().any(..)\<close> and \<open>iter().all(..)\<close> over the successors.\<close>

primrec any_flag :: "flags \<Rightarrow> block_id list \<Rightarrow> bool checked" where
  "any_flag m [] = Inr False"
| "any_flag m (block # blocks) = result_bind (flag m block) (\<lambda>b. if b then Inr True else any_flag m blocks)"

primrec all_flag :: "flags \<Rightarrow> block_id list \<Rightarrow> bool checked" where
  "all_flag m [] = Inr True"
| "all_flag m (block # blocks) = result_bind (flag m block) (\<lambda>b. if b then all_flag m blocks else Inr False)"

definition successors_of :: "last_use_analysis \<Rightarrow> block_id \<Rightarrow> block_id list" where
  "successors_of a block = (case bt_get (successors a) block of Some ts \<Rightarrow> ts | None \<Rightarrow> [])"

type_synonym summary_state = "flags \<times> flags \<times> bool"

definition summary_step ::
  "last_use_analysis \<Rightarrow> (block_id \<Rightarrow> bool) \<Rightarrow> block_id \<Rightarrow> summary_state \<Rightarrow> summary_state checked" where
  "summary_step a has_use block state =
     (case state of (may, must, changed) \<Rightarrow>
        (let ts = successors_of a block in
         result_bind (if has_use block then Inr True else any_flag may ts) (\<lambda>next_may.
         result_bind (if has_use block then Inr True else if ts = [] then Inr False else all_flag must ts) (\<lambda>next_must.
         result_bind (flag may block) (\<lambda>old_may.
         result_bind (flag must block) (\<lambda>old_must.
           Inr (if old_may \<noteq> next_may then bt_insert block next_may may else may,
                if old_must \<noteq> next_must then bt_insert block next_must must else must,
                changed \<or> old_may \<noteq> next_may \<or> old_must \<noteq> next_must)))))))"

definition summary_round ::
  "last_use_analysis \<Rightarrow> (block_id \<Rightarrow> bool) \<Rightarrow> summary_state checked \<Rightarrow> summary_state checked" where
  "summary_round a has_use r =
     result_bind r (\<lambda>(may, must, _).
       fold_each (summary_step a has_use) (rev (bt_keys (events_by_block a))) (may, must, False))"

definition summary_changed :: "summary_state checked \<Rightarrow> bool" where
  "summary_changed r = (case r of Inr (_, _, changed) \<Rightarrow> changed | Inl _ \<Rightarrow> False)"

definition summary_loop ::
  "last_use_analysis \<Rightarrow> (block_id \<Rightarrow> bool) \<Rightarrow> summary_state checked option" where
  "summary_loop a has_use =
     (let initial = foldl (\<lambda>m block. bt_insert block False m) [] (bt_keys (events_by_block a))
      in while_option summary_changed (summary_round a has_use) (Inr (initial, initial, True)))"

section \<open>Breadth-first searches\<close>

text \<open>The blocks a search can still visit: the queue and every successor that is listed.\<close>

definition search_space :: "last_use_analysis \<Rightarrow> block_id list \<Rightarrow> block_id set" where
  "search_space a queue = set queue \<union> (\<Union>(_, ts) \<in> set (successors a). set ts)"

lemma search_space_tail: "search_space a queue \<subseteq> search_space a (block # queue)"
  by (auto simp: search_space_def)

lemma search_space_successors: "search_space a (queue @ successors_of a block) \<subseteq> search_space a (block # queue)"
proof -
  have "set (successors_of a block) \<subseteq> (\<Union>(_, ts) \<in> set (successors a). set ts)"
  proof (cases "bt_get (successors a) block")
    case (Some ts)
    then show ?thesis using map_of_SomeD [OF Some] by (force simp: successors_of_def)
  qed (simp add: successors_of_def)
  then show ?thesis by (auto simp: search_space_def)
qed

text \<open>A block is visited once: a search either visits a new block or shortens its queue.\<close>

lemma search_skip:
  "card (search_space a queue - insert block visited) < card (search_space a (block # queue) - visited) \<or>
   card (search_space a queue - insert block visited) = card (search_space a (block # queue) - visited)"
proof -
  have "search_space a queue - insert block visited \<subseteq> search_space a (block # queue) - visited"
    using search_space_tail [of a queue block] by auto
  moreover have "finite (search_space a (block # queue) - visited)" by (auto simp: search_space_def)
  ultimately have "card (search_space a queue - insert block visited) \<le> card (search_space a (block # queue) - visited)"
    by (rule card_mono [rotated])
  then show ?thesis by linarith
qed

lemma search_expand:
  assumes "block \<notin> visited"
  shows "card (search_space a (queue @ successors_of a block) - insert block visited) <
    card (search_space a (block # queue) - visited)"
proof (rule psubset_card_mono)
  show "finite (search_space a (block # queue) - visited)" by (auto simp: search_space_def)
  have "block \<in> search_space a (block # queue)" by (simp add: search_space_def)
  then show "search_space a (queue @ successors_of a block) - insert block visited \<subset> search_space a (block # queue) - visited"
    using search_space_successors [of a queue block] assms by auto
qed

text \<open>The first use met through blocks that may observe the subject.\<close>

function find_reachable_summary_use ::
  "last_use_analysis \<Rightarrow> last_use_subject \<Rightarrow> flags \<Rightarrow> block_id set \<Rightarrow> block_id list \<Rightarrow> use_id option" where
  "find_reachable_summary_use a subject may visited [] = None"
| "find_reachable_summary_use a subject may visited (block # queue) =
     (if block \<in> visited \<or> bt_get may block \<noteq> Some True
      then find_reachable_summary_use a subject may (insert block visited) queue
      else
        (case first_observation_in_block a subject block 0 of
           Some u \<Rightarrow> Some u
         | None \<Rightarrow> find_reachable_summary_use a subject may (insert block visited) (queue @ successors_of a block)))"
  by pat_completeness auto

termination
  by (relation "measures [\<lambda>(a, _, _, visited, queue). card (search_space a queue - visited), \<lambda>(_, _, _, _, queue). length queue]")
     (simp_all add: search_skip search_expand del: insert_iff)

text \<open>The first exit met through blocks without an observation.\<close>

function find_no_use_exit ::
  "last_use_analysis \<Rightarrow> last_use_subject \<Rightarrow> flags \<Rightarrow> block_id set \<Rightarrow> block_id list \<Rightarrow> block_id option" where
  "find_no_use_exit a subject may visited [] = None"
| "find_no_use_exit a subject may visited (block # queue) =
     (if block \<in> visited then find_no_use_exit a subject may (insert block visited) queue
      else if first_observation_in_block a subject block 0 \<noteq> None
      then find_no_use_exit a subject may (insert block visited) queue
      else if bt_get may block \<noteq> Some True \<and> block \<in> exit_blocks a then Some block
      else find_no_use_exit a subject may (insert block visited) (queue @ successors_of a block))"
  by pat_completeness auto

termination
  by (relation "measures [\<lambda>(a, _, _, visited, queue). card (search_space a queue - visited), \<lambda>(_, _, _, _, queue). length queue]")
     (simp_all add: search_skip search_expand del: insert_iff)

text \<open>The exits met, in increasing order.\<close>

function explore_exits ::
  "last_use_analysis \<Rightarrow> block_id set \<Rightarrow> block_id set \<Rightarrow> block_id list \<Rightarrow> block_id set" where
  "explore_exits a exits visited [] = exits"
| "explore_exits a exits visited (block # queue) =
     (if block \<in> visited then explore_exits a exits (insert block visited) queue
      else explore_exits a (if block \<in> exit_blocks a then insert block exits else exits)
             (insert block visited) (queue @ successors_of a block))"
  by pat_completeness auto

termination
  by (relation "measures [\<lambda>(a, _, visited, queue). card (search_space a queue - visited), \<lambda>(_, _, _, queue). length queue]")
     (simp_all add: search_skip search_expand del: insert_iff)

definition reachable_exits :: "last_use_analysis \<Rightarrow> block_id \<Rightarrow> block_id list" where
  "reachable_exits a start = sorted_list_of_set (explore_exits a {} {} [start])"

section \<open>Queries\<close>

record block_summary =
  may_observe :: bool
  must_observe :: bool
  later_use :: "use_id option"
  no_use_exit :: "block_id option"

definition block_has_use ::
  "last_use_analysis \<Rightarrow> last_use_subject \<Rightarrow> block_id \<Rightarrow> nat \<Rightarrow> block_id \<Rightarrow> bool" where
  "block_has_use a subject query_block query_start block \<longleftrightarrow>
     first_observation_in_block a subject block (if block = query_block then query_start else 0) \<noteq> None"

definition block_summaries ::
  "last_use_analysis \<Rightarrow> last_use_subject \<Rightarrow> block_id \<Rightarrow> nat \<Rightarrow> block_summary checked option" where
  "block_summaries a subject query_block query_start =
     map_option (\<lambda>r. result_bind r (\<lambda>(may, must, _).
       let query_local_use = first_observation_in_block a subject query_block query_start
       in Inr \<lparr>may_observe = (bt_get may query_block = Some True),
               must_observe = (bt_get must query_block = Some True),
               later_use = (if query_local_use \<noteq> None then query_local_use
                            else (case bt_get (successors a) query_block of
                                    None \<Rightarrow> None
                                  | Some starts \<Rightarrow> find_reachable_summary_use a subject may {} starts)),
               no_use_exit = (case bt_get (successors a) query_block of
                                None \<Rightarrow> None
                              | Some starts \<Rightarrow> find_no_use_exit a subject may {} starts)\<rparr>))
       (summary_loop a (block_has_use a subject query_block query_start))"

definition summary_result ::
  "last_use_analysis \<Rightarrow> last_use_subject \<Rightarrow> last_use_location \<Rightarrow> block_id \<Rightarrow> block_summary \<Rightarrow> last_use_result checked" where
  "summary_result a subject location block s =
     (let status = (if \<not> may_observe s then NoFutureUse else if must_observe s then MustBeUsed else MayBeUsed) in
      result_bind
        (case status of
           NoFutureUse \<Rightarrow> Inr (NoFutureUseWitness (reachable_exits a block))
         | MayBeUsed \<Rightarrow>
             result_bind (ok_or (later_use s) InternalFailure) (\<lambda>u. Inr (MayBeUsedWitness u (no_use_exit s)))
         | MustBeUsed \<Rightarrow>
             result_bind (ok_or (later_use s) InternalFailure) (\<lambda>u. Inr (MustBeUsedWitness u)))
        (\<lambda>w. Inr \<lparr>asked_subject = subject, asked_location = location, future_use = status, future_witness = w\<rparr>))"

definition query_last_use ::
  "last_use_analysis \<Rightarrow> last_use_subject \<Rightarrow> last_use_location \<Rightarrow> last_use_result checked option" where
  "query_last_use a subject location =
     (case result_bind (block_for_point a (at_point location)) (\<lambda>block.
             result_bind (start_event_index a block location) (\<lambda>start. Inr (block, start))) of
        Inl e \<Rightarrow> Some (Inl e)
      | Inr (block, start) \<Rightarrow>
          (case filter (observation_after_in_block a block start) (observations_of a subject) of
             ob # _ \<Rightarrow>
               Some (Inr \<lparr>asked_subject = subject, asked_location = location, future_use = MustBeUsed,
                          future_witness = MustBeUsedWitness (observed_use ob)\<rparr>)
           | [] \<Rightarrow>
               map_option (\<lambda>r. result_bind r (summary_result a subject location block))
                 (block_summaries a subject block start)))"

end
