(* ===== verification/Last_Use_Continuations.thy ===== *)
theory Last_Use_Continuations
  imports Borrow_Problem_Facts Last_Use
begin

text \<open>
  What the answers of the future-use analysis mean: the continuations of a program location, the two
  least fixpoints computed by the summary loop, and the evidence returned with an answer.
\<close>

section \<open>Continuations\<close>

text \<open>A position is a block and the events still to happen in it. From the end of a block, control goes on
  at the start of a successor.\<close>

inductive program_step ::
  "last_use_analysis \<Rightarrow> block_id \<times> event_id list \<Rightarrow> block_id \<times> event_id list \<Rightarrow> bool" for a where
  event: "program_step a (b, e # es) (b, es)"
| edge: "b' \<in> set (successors_of a b) \<Longrightarrow> bt_get (events_by_block a) b' = Some es' \<Longrightarrow> program_step a (b, []) (b', es')"

inductive_cases program_step_event: "program_step a (b, e # es) pos"
inductive_cases program_step_edge: "program_step a (b, []) pos"

text \<open>Some continuation meets an event with \<open>P\<close>.\<close>

definition observable :: "last_use_analysis \<Rightarrow> (event_id \<Rightarrow> bool) \<Rightarrow> block_id \<times> event_id list \<Rightarrow> bool" where
  "observable a P pos \<longleftrightarrow> (\<exists>b e es. (program_step a)\<^sup>*\<^sup>* pos (b, e # es) \<and> P e)"

text \<open>Every continuation meets an event with \<open>P\<close> after finitely many steps.\<close>

inductive inevitable :: "last_use_analysis \<Rightarrow> (event_id \<Rightarrow> bool) \<Rightarrow> block_id \<times> event_id list \<Rightarrow> bool" for a P where
  here: "P e \<Longrightarrow> inevitable a P (b, e # es)"
| onwards: "\<exists>next. program_step a pos next \<Longrightarrow> \<forall>next. program_step a pos next \<longrightarrow> inevitable a P next \<Longrightarrow> inevitable a P pos"

definition observed :: "last_use_analysis \<Rightarrow> last_use_subject \<Rightarrow> event_id \<Rightarrow> bool" where
  "observed a subject e \<longleftrightarrow> (\<exists>ob \<in> set (observations_of a subject). event_id_for_observation a ob = Some e)"

lemma observable_events:
  "observable a P (b, es) \<longleftrightarrow> (\<exists>e \<in> set es. P e) \<or> observable a P (b, [])"
proof (induction es)
  case (Cons e es)
  have step: "program_step a (b, e # es) pos \<longleftrightarrow> pos = (b, es)" for pos
    by (auto intro: program_step.event elim: program_step_event)
  have "observable a P (b, e # es) \<longleftrightarrow> P e \<or> observable a P (b, es)"
  proof
    assume "observable a P (b, e # es)"
    then obtain b' e' es' where r: "(program_step a)\<^sup>*\<^sup>* (b, e # es) (b', e' # es')" "P e'" unfolding observable_def by blast
    from r(1) show "P e \<or> observable a P (b, es)"
      by (cases rule: converse_rtranclpE) (use r(2) in \<open>auto simp: step observable_def\<close>)
  next
    assume "P e \<or> observable a P (b, es)"
    then show "observable a P (b, e # es)"
      unfolding observable_def by (meson program_step.event converse_rtranclp_into_rtranclp rtranclp.rtrancl_refl)
  qed
  then show ?case using Cons by auto
qed simp

lemma observable_edge:
  "observable a P (b, []) \<longleftrightarrow>
     (\<exists>b' \<in> set (successors_of a b). \<exists>es'. bt_get (events_by_block a) b' = Some es' \<and> observable a P (b', es'))"
proof
  assume "observable a P (b, [])"
  then obtain b1 e es where r: "(program_step a)\<^sup>*\<^sup>* (b, []) (b1, e # es)" "P e" unfolding observable_def by blast
  from r(1) obtain pos where "program_step a (b, []) pos" "(program_step a)\<^sup>*\<^sup>* pos (b1, e # es)"
    by (cases rule: converse_rtranclpE) auto
  then show "\<exists>b' \<in> set (successors_of a b). \<exists>es'. bt_get (events_by_block a) b' = Some es' \<and> observable a P (b', es')"
    using r(2) unfolding observable_def by (blast elim: program_step_edge)
next
  assume "\<exists>b' \<in> set (successors_of a b). \<exists>es'. bt_get (events_by_block a) b' = Some es' \<and> observable a P (b', es')"
  then show "observable a P (b, [])"
    unfolding observable_def by (meson program_step.edge converse_rtranclp_into_rtranclp)
qed

lemma inevitable_events:
  "inevitable a P (b, es) \<longleftrightarrow> (\<exists>e \<in> set es. P e) \<or> inevitable a P (b, [])"
proof (induction es)
  case (Cons e es)
  have "inevitable a P (b, e # es) \<longleftrightarrow> P e \<or> inevitable a P (b, es)"
  proof
    assume "inevitable a P (b, e # es)"
    then show "P e \<or> inevitable a P (b, es)"
      by (cases rule: inevitable.cases) (auto intro: program_step.event)
  next
    assume "P e \<or> inevitable a P (b, es)"
    then show "inevitable a P (b, e # es)"
      by (auto intro: inevitable.here inevitable.onwards program_step.event elim: program_step_event)
  qed
  then show ?case using Cons by auto
qed simp

lemma inevitable_edge:
  assumes "\<And>b'. b' \<in> set (successors_of a b) \<Longrightarrow> bt_get (events_by_block a) b' \<noteq> None"
  shows "inevitable a P (b, []) \<longleftrightarrow> successors_of a b \<noteq> [] \<and>
     (\<forall>b' \<in> set (successors_of a b). \<exists>es'. bt_get (events_by_block a) b' = Some es' \<and> inevitable a P (b', es'))"
proof
  assume "inevitable a P (b, [])"
  then show "successors_of a b \<noteq> [] \<and>
     (\<forall>b' \<in> set (successors_of a b). \<exists>es'. bt_get (events_by_block a) b' = Some es' \<and> inevitable a P (b', es'))"
  proof (cases rule: inevitable.cases)
    case onwards
    have "\<exists>es'. bt_get (events_by_block a) b' = Some es' \<and> inevitable a P (b', es')" if m: "b' \<in> set (successors_of a b)" for b'
    proof -
      obtain es' where "bt_get (events_by_block a) b' = Some es'" using assms [OF m] by blast
      then show ?thesis using onwards(2) program_step.edge [OF m] by blast
    qed
    moreover have "successors_of a b \<noteq> []" using onwards(1) by (auto elim: program_step_edge)
    ultimately show ?thesis by blast
  qed
next
  assume r: "successors_of a b \<noteq> [] \<and>
     (\<forall>b' \<in> set (successors_of a b). \<exists>es'. bt_get (events_by_block a) b' = Some es' \<and> inevitable a P (b', es'))"
  then obtain b' es' where "b' \<in> set (successors_of a b)" "bt_get (events_by_block a) b' = Some es'"
    by (meson last_in_set)
  then have "\<exists>pos. program_step a (b, []) pos" by (blast intro: program_step.edge)
  then show "inevitable a P (b, [])"
    by (rule inevitable.onwards) (use r in \<open>auto elim!: program_step_edge\<close>)
qed

section \<open>The summary loop\<close>

abbreviation graph_blocks :: "last_use_analysis \<Rightarrow> block_id set" where
  "graph_blocks a \<equiv> fst ` set (events_by_block a)"

text \<open>Successors are blocks of the graph.\<close>

definition closed_graph :: "last_use_analysis \<Rightarrow> bool" where
  "closed_graph a \<longleftrightarrow> (\<forall>b \<in> graph_blocks a. set (successors_of a b) \<subseteq> graph_blocks a)"

definition on :: "flags \<Rightarrow> block_id \<Rightarrow> bool" where
  "on m b \<longleftrightarrow> bt_get m b = Some True"

definition flags_ok :: "last_use_analysis \<Rightarrow> flags \<Rightarrow> bool" where
  "flags_ok a m \<longleftrightarrow> fst ` set m = graph_blocks a"

lemma flag_ok: "flags_ok a m \<Longrightarrow> b \<in> graph_blocks a \<Longrightarrow> flag m b = Inr (on m b)"
proof -
  assume "flags_ok a m" "b \<in> graph_blocks a"
  then have "bt_get m b \<noteq> None" unfolding flags_ok_def map_of_eq_None_iff by blast
  then show "flag m b = Inr (on m b)" by (auto simp: flag_def on_def)
qed

lemma any_flag_ok: "flags_ok a m \<Longrightarrow> set ts \<subseteq> graph_blocks a \<Longrightarrow> any_flag m ts = Inr (\<exists>b \<in> set ts. on m b)"
  by (induction ts) (auto simp: flag_ok)

lemma all_flag_ok: "flags_ok a m \<Longrightarrow> set ts \<subseteq> graph_blocks a \<Longrightarrow> all_flag m ts = Inr (\<forall>b \<in> set ts. on m b)"
  by (induction ts) (auto simp: flag_ok)

lemma on_insert [simp]: "on (bt_insert b v m) = (on m)(b := v)"
  by (auto simp: on_def fun_eq_iff)

text \<open>The right-hand sides of the two equations of a block.\<close>

definition may_equation :: "last_use_analysis \<Rightarrow> (block_id \<Rightarrow> bool) \<Rightarrow> (block_id \<Rightarrow> bool) \<Rightarrow> block_id \<Rightarrow> bool" where
  "may_equation a has m b \<longleftrightarrow> has b \<or> (\<exists>s \<in> set (successors_of a b). m s)"

definition must_equation :: "last_use_analysis \<Rightarrow> (block_id \<Rightarrow> bool) \<Rightarrow> (block_id \<Rightarrow> bool) \<Rightarrow> block_id \<Rightarrow> bool" where
  "must_equation a has m b \<longleftrightarrow> has b \<or> successors_of a b \<noteq> [] \<and> (\<forall>s \<in> set (successors_of a b). m s)"

lemma summary_step_eq:
  assumes "closed_graph a" "flags_ok a may" "flags_ok a must" "b \<in> graph_blocks a"
  shows "\<exists>may' must'. summary_step a has b (may, must, changed) =
      Inr (may', must', changed \<or> on may b \<noteq> may_equation a has (on may) b \<or> on must b \<noteq> must_equation a has (on must) b) \<and>
    flags_ok a may' \<and> flags_ok a must' \<and>
    on may' = (on may)(b := may_equation a has (on may) b) \<and>
    on must' = (on must)(b := must_equation a has (on must) b) \<and>
    (on may b = may_equation a has (on may) b \<longrightarrow> may' = may) \<and>
    (on must b = must_equation a has (on must) b \<longrightarrow> must' = must)"
proof -
  have ts: "set (successors_of a b) \<subseteq> graph_blocks a" using assms(1,4) by (auto simp: closed_graph_def)
  have may: "(if has b then Inr True else any_flag may (successors_of a b)) = Inr (may_equation a has (on may) b)"
    using any_flag_ok [OF assms(2) ts] by (simp add: may_equation_def)
  have must: "(if has b then Inr True else if successors_of a b = [] then Inr False else all_flag must (successors_of a b)) =
      Inr (must_equation a has (on must) b)"
    using all_flag_ok [OF assms(3) ts] by (simp add: must_equation_def)
  have ins: "flags_ok a (bt_insert b v m)" if "flags_ok a m" for v m
    using that assms(4) by (simp add: flags_ok_def insert_absorb)
  have same: "on m = (on m)(b := on m b)" for m by simp
  show ?thesis unfolding summary_step_def prod.case Let_def may must result_bind_simps
      flag_ok [OF assms(2,4)] flag_ok [OF assms(3,4)]
    by (cases "on may b = may_equation a has (on may) b"; cases "on must b = must_equation a has (on must) b")
       (simp_all add: ins assms(2,3) fun_upd_idem)
qed

text \<open>Flags are only set where their equation and the meaning of the flag hold.\<close>

definition justified ::
  "last_use_analysis \<Rightarrow> ((block_id \<Rightarrow> bool) \<Rightarrow> block_id \<Rightarrow> bool) \<Rightarrow> (block_id \<Rightarrow> bool) \<Rightarrow> flags \<Rightarrow> bool" where
  "justified a eqn meaning m \<longleftrightarrow> flags_ok a m \<and> (\<forall>b. on m b \<longrightarrow> eqn (on m) b \<and> meaning b)"

lemma flags_step:
  assumes "justified a eqn meaning m" "flags_ok a m'" "on m' = (on m)(b := eqn (on m) b)"
    and mono: "\<And>m m' b. (\<And>x. m x \<Longrightarrow> m' x) \<Longrightarrow> eqn m b \<Longrightarrow> eqn m' b"
    and sound: "\<And>m b. (\<And>x. m x \<Longrightarrow> meaning x) \<Longrightarrow> eqn m b \<Longrightarrow> meaning b"
  shows "justified a eqn meaning m'" and "\<And>x. on m x \<Longrightarrow> on m' x"
proof -
  show grows: "on m' x" if "on m x" for x using that assms(1,3) by (auto simp: justified_def)
  have "eqn (on m') x \<and> meaning x" if "on m' x" for x
  proof -
    have "eqn (on m) x" using that assms(1,3) by (auto simp: justified_def split: if_splits)
    then show ?thesis using mono [OF grows] sound [of "on m" x] assms(1) by (auto simp: justified_def)
  qed
  then show "justified a eqn meaning m'" using assms(2) by (simp add: justified_def)
qed

definition set_flags :: "last_use_analysis \<Rightarrow> flags \<Rightarrow> nat" where
  "set_flags a m = card {b \<in> graph_blocks a. on m b}"

lemma set_flags_bound: "set_flags a m \<le> card (graph_blocks a)"
  unfolding set_flags_def by (intro card_mono) auto

lemma set_flags_grow:
  assumes "b \<in> graph_blocks a" "\<And>x. on m x \<Longrightarrow> on m' x"
  shows "set_flags a m \<le> set_flags a m'" and "on m' b \<Longrightarrow> \<not> on m b \<Longrightarrow> set_flags a m < set_flags a m'"
proof -
  show "set_flags a m \<le> set_flags a m'" unfolding set_flags_def using assms(2) by (intro card_mono) auto
  assume "on m' b" "\<not> on m b"
  then show "set_flags a m < set_flags a m'" unfolding set_flags_def using assms by (intro psubset_card_mono) auto
qed

text \<open>What a round keeps: both families of flags justified, no flag taken back; a round that reports no
  change has checked the equations of every block it visited.\<close>

definition round_ok ::
  "last_use_analysis \<Rightarrow> (block_id \<Rightarrow> bool) \<Rightarrow> (block_id \<Rightarrow> bool) \<Rightarrow> (block_id \<Rightarrow> bool) \<Rightarrow> flags \<Rightarrow> flags
   \<Rightarrow> block_id list \<Rightarrow> summary_state \<Rightarrow> bool" where
  "round_ok a has may_holds must_holds may must visited state \<longleftrightarrow>
     (case state of (may', must', changed) \<Rightarrow>
        justified a (may_equation a has) may_holds may' \<and> justified a (must_equation a has) must_holds must' \<and>
        set_flags a may + set_flags a must + of_bool changed \<le> set_flags a may' + set_flags a must' \<and>
        (\<not> changed \<longrightarrow> may' = may \<and> must' = must \<and>
           (\<forall>b \<in> set visited. on may b = may_equation a has (on may) b \<and> on must b = must_equation a has (on must) b)))"

lemma summary_round_ok:
  assumes graph: "closed_graph a"
    and may: "justified a (may_equation a has) may_holds may" and must: "justified a (must_equation a has) must_holds must"
    and may_sound: "\<And>m b. (\<And>x. m x \<Longrightarrow> may_holds x) \<Longrightarrow> may_equation a has m b \<Longrightarrow> may_holds b"
    and must_sound: "\<And>m b. (\<And>x. m x \<Longrightarrow> must_holds x) \<Longrightarrow> must_equation a has m b \<Longrightarrow> must_holds b"
  shows "\<exists>s. summary_round a has (Inr (may, must, changed)) = Inr s \<and>
    round_ok a has may_holds must_holds may must (rev (bt_keys (events_by_block a))) s"
proof -
  let ?I = "round_ok a has may_holds must_holds may must"
  have "outcome (\<lambda>_. False) (?I (rev (bt_keys (events_by_block a))))
      (fold_each (summary_step a has) (rev (bt_keys (events_by_block a))) (may, must, False))"
  proof (rule outcome_fold_prefix [where I = ?I], goal_cases)
    case 1
    then show ?case using may must by (simp add: round_ok_def)
  next
    case (2 ys b u)
    obtain may1 must1 ch where u: "u = (may1, must1, ch)" by (cases u)
    have b: "b \<in> graph_blocks a" using 2(1) by simp
    have j: "justified a (may_equation a has) may_holds may1" "justified a (must_equation a has) must_holds must1"
      using 2(2) by (simp_all add: round_ok_def u)
    have ok: "flags_ok a may1" "flags_ok a must1" using j by (simp_all add: justified_def)
    let ?m = "may_equation a has (on may1) b" and ?n = "must_equation a has (on must1) b"
    obtain may2 must2 where step: "summary_step a has b u = Inr (may2, must2, ch \<or> on may1 b \<noteq> ?m \<or> on must1 b \<noteq> ?n)"
      "flags_ok a may2" "flags_ok a must2" "on may2 = (on may1)(b := ?m)" "on must2 = (on must1)(b := ?n)"
      "on may1 b = ?m \<longrightarrow> may2 = may1" "on must1 b = ?n \<longrightarrow> must2 = must1"
      using summary_step_eq [OF graph ok b, of has ch] unfolding u by blast
    have j2: "justified a (may_equation a has) may_holds may2" "\<And>x. on may1 x \<Longrightarrow> on may2 x"
      by (rule flags_step [OF j(1) step(2,4) _ may_sound]; auto simp: may_equation_def)+
    have j3: "justified a (must_equation a has) must_holds must2" "\<And>x. on must1 x \<Longrightarrow> on must2 x"
      by (rule flags_step [OF j(2) step(3,5) _ must_sound]; auto simp: must_equation_def)+
    have up: "?m" if "on may1 b" using that j(1) by (simp add: justified_def)
    have un: "?n" if "on must1 b" using that j(2) by (simp add: justified_def)
    have grow: "set_flags a may1 + of_bool (on may1 b \<noteq> ?m) \<le> set_flags a may2"
    proof (cases "on may1 b = ?m")
      case True
      then show ?thesis using set_flags_grow(1) [of b a may1 may2, OF b j2(2)] by simp
    next
      case False
      then have "\<not> on may1 b" "on may2 b" using up by (auto simp: step(4))
      then have "set_flags a may1 < set_flags a may2" using set_flags_grow(2) [of b a may1 may2, OF b j2(2)] by blast
      then show ?thesis by (simp add: of_bool_def)
    qed
    have grow': "set_flags a must1 + of_bool (on must1 b \<noteq> ?n) \<le> set_flags a must2"
    proof (cases "on must1 b = ?n")
      case True
      then show ?thesis using set_flags_grow(1) [of b a must1 must2, OF b j3(2)] by simp
    next
      case False
      then have "\<not> on must1 b" "on must2 b" using un by (auto simp: step(5))
      then have "set_flags a must1 < set_flags a must2" using set_flags_grow(2) [of b a must1 must2, OF b j3(2)] by blast
      then show ?thesis by (simp add: of_bool_def)
    qed
    show ?case
    proof (cases "ch \<or> on may1 b \<noteq> ?m \<or> on must1 b \<noteq> ?n")
      case True
      have "set_flags a may + set_flags a must + of_bool ch \<le> set_flags a may1 + set_flags a must1"
        using 2(2) by (simp add: round_ok_def u)
      then have "set_flags a may + set_flags a must + 1 \<le> set_flags a may2 + set_flags a must2"
        using True grow grow' by (auto simp: of_bool_def split: if_splits)
      then show ?thesis using j2(1) j3(1) True by (simp add: step(1) round_ok_def)
    next
      case False
      then have "may2 = may1" "must2 = must1" "may1 = may" "must1 = must" using step(6,7) 2(2) by (auto simp: round_ok_def u)
      then show ?thesis unfolding step(1) outcome_simps using 2(2) False by (auto simp: round_ok_def u)
    qed
  qed
  then show ?thesis unfolding summary_round_def by (auto simp: outcome_def split: sum.splits)
qed

text \<open>The loop ends, with flags that satisfy every equation.\<close>

definition solved :: "last_use_analysis \<Rightarrow> (block_id \<Rightarrow> bool) \<Rightarrow> flags \<Rightarrow> flags \<Rightarrow> bool" where
  "solved a has may must \<longleftrightarrow>
     (\<forall>b \<in> graph_blocks a. on may b = may_equation a has (on may) b \<and> on must b = must_equation a has (on must) b)"

lemma summary_loop_solves:
  assumes graph: "closed_graph a"
    and may_sound: "\<And>m b. (\<And>x. m x \<Longrightarrow> may_holds x) \<Longrightarrow> may_equation a has m b \<Longrightarrow> may_holds b"
    and must_sound: "\<And>m b. (\<And>x. m x \<Longrightarrow> must_holds x) \<Longrightarrow> must_equation a has m b \<Longrightarrow> must_holds b"
  shows "\<exists>may must. summary_loop a has = Some (Inr (may, must, False)) \<and> solved a has may must \<and>
    justified a (may_equation a has) may_holds may \<and> justified a (must_equation a has) must_holds must"
proof -
  let ?initial = "foldl (\<lambda>m block. bt_insert block False m) [] (bt_keys (events_by_block a))"
  let ?P = "\<lambda>r. \<exists>may must ch. r = Inr (may, must, ch) \<and>
    justified a (may_equation a has) may_holds may \<and> justified a (must_equation a has) must_holds must \<and>
    (\<not> ch \<longrightarrow> solved a has may must)"
  let ?f = "\<lambda>r :: summary_state checked. case r of Inl _ \<Rightarrow> 0
    | Inr (may, must, ch) \<Rightarrow> 2 * (2 * card (graph_blocks a) - (set_flags a may + set_flags a must)) + of_bool ch"
  have keys: "fst ` set ?initial = graph_blocks a"
    using bt_keys_foldl_insert [of "\<lambda>b. b" "\<lambda>_. False" "[]" "bt_keys (events_by_block a)"] by simp
  have off: "\<not> on ?initial b" for b
  proof -
    have "bt_get (foldl (\<lambda>m block. bt_insert block False m) m xs) b \<noteq> Some True" if "bt_get m b \<noteq> Some True"
      for m and xs :: "block_id list"
      using that by (induction xs arbitrary: m) auto
    then show ?thesis by (simp add: on_def)
  qed
  have start: "?P (Inr (?initial, ?initial, True))"
    using keys off by (auto simp: justified_def flags_ok_def)
  have step: "?P (summary_round a has r) \<and> ?f (summary_round a has r) < ?f r" if P: "?P r" and c: "summary_changed r" for r
  proof -
    obtain may must where r: "r = Inr (may, must, True)"
      and j: "justified a (may_equation a has) may_holds may" "justified a (must_equation a has) must_holds must"
      using P c by (auto simp: summary_changed_def)
    have "\<exists>s. summary_round a has (Inr (may, must, True)) = Inr s \<and>
        round_ok a has may_holds must_holds may must (rev (bt_keys (events_by_block a))) s"
      by (rule summary_round_ok [OF graph j]) (fact may_sound, fact must_sound)
    then obtain state where state: "summary_round a has r = Inr state"
      "round_ok a has may_holds must_holds may must (rev (bt_keys (events_by_block a))) state"
      unfolding r by blast
    obtain may' must' ch where "state = (may', must', ch)" by (cases state)
    then have s: "summary_round a has r = Inr (may', must', ch)"
      "round_ok a has may_holds must_holds may must (rev (bt_keys (events_by_block a))) (may', must', ch)"
      using state by simp_all
    have j': "justified a (may_equation a has) may_holds may'" "justified a (must_equation a has) must_holds must'"
      and grow: "set_flags a may + set_flags a must + of_bool ch \<le> set_flags a may' + set_flags a must'"
      using s(2) by (simp_all add: round_ok_def)
    have "solved a has may' must'" if "\<not> ch"
      using s(2) that unfolding round_ok_def prod.case solved_def by auto
    moreover have "set_flags a may' + set_flags a must' \<le> 2 * card (graph_blocks a)"
      using set_flags_bound [of a may'] set_flags_bound [of a must'] by linarith
    ultimately show ?thesis using j' grow unfolding r s(1) [unfolded r] by (cases ch) auto
  qed
  obtain r where r: "while_option summary_changed (summary_round a has) (Inr (?initial, ?initial, True)) = Some r"
    using measure_while_option_Some [of ?P summary_changed "summary_round a has" ?f, OF step start] by blast
  have "?P r" by (rule while_option_rule [where P = ?P, OF _ r start]) (use step in blast)
  moreover have "\<not> summary_changed r" by (rule while_option_stop [OF r])
  ultimately obtain may must where "r = Inr (may, must, False)" "justified a (may_equation a has) may_holds may"
    "justified a (must_equation a has) must_holds must" "solved a has may must"
    by (auto simp: summary_changed_def)
  then show ?thesis using r unfolding summary_loop_def Let_def by blast
qed

end
