(* ===== verification/Last_Use_Proofs.thy ===== *)
theory Last_Use_Proofs
  imports Last_Use_Continuations
begin

text \<open>
  The answers of future-use queries: status, evidence, and totality on validated problems.
\<close>

section \<open>Observations in blocks\<close>

definition observes :: "last_use_analysis \<Rightarrow> last_use_subject \<Rightarrow> use_id \<Rightarrow> event_id \<Rightarrow> bool" where
  "observes a subject u e \<longleftrightarrow>
     (\<exists>ob \<in> set (observations_of a subject). event_id_for_observation a ob = Some e \<and> observed_use ob = u)"

lemma observed_iff: "observed a subject e \<longleftrightarrow> (\<exists>u. observes a subject u e)"
  by (auto simp: observed_def observes_def)

lemma find_map_eq_None: "find_map f xs = None \<longleftrightarrow> (\<forall>x \<in> set xs. f x = None)"
  by (induction xs) (auto split: option.split)

lemma find_map_SomeD: "find_map f xs = Some y \<Longrightarrow> \<exists>x \<in> set xs. f x = Some y"
  by (induction xs) (auto split: option.splits)

lemma first_observation_eq_None:
  "first_observation_in_block a subject b i = None \<longleftrightarrow>
     (\<forall>es. bt_get (events_by_block a) b = Some es \<longrightarrow> (\<forall>e \<in> set (drop i es). \<not> observed a subject e))"
  by (auto simp: first_observation_in_block_def find_map_eq_None observed_def observations_of_def split: option.split)

lemma first_observation_SomeD:
  assumes "first_observation_in_block a subject b i = Some u"
  shows "\<exists>es e. bt_get (events_by_block a) b = Some es \<and> e \<in> set (drop i es) \<and> observes a subject u e"
  using assms
  by (fastforce simp: first_observation_in_block_def observes_def observations_of_def
      split: option.splits if_splits dest!: find_map_SomeD)

text \<open>A graph of blocks with disjoint lists of distinct events.\<close>

definition analysis_ok :: "last_use_analysis \<Rightarrow> bool" where
  "analysis_ok a \<longleftrightarrow>
     closed_graph a \<and>
     (\<forall>b es. bt_get (events_by_block a) b = Some es \<longrightarrow> distinct es) \<and>
     (\<forall>b b' es es'. bt_get (events_by_block a) b = Some es \<longrightarrow> bt_get (events_by_block a) b' = Some es' \<longrightarrow>
        b \<noteq> b' \<longrightarrow> set es \<inter> set es' = {})"

lemma analysis_okD:
  assumes "analysis_ok a"
  shows "closed_graph a"
    and "\<And>b es. bt_get (events_by_block a) b = Some es \<Longrightarrow> distinct es"
    and "\<And>b b' es es'. bt_get (events_by_block a) b = Some es \<Longrightarrow> bt_get (events_by_block a) b' = Some es' \<Longrightarrow>
      b \<noteq> b' \<Longrightarrow> set es \<inter> set es' = {}"
  using assms unfolding analysis_ok_def by blast+

lemma position_eq_Some:
  assumes "distinct es"
  shows "position (\<lambda>x. x = e) es = Some i \<longleftrightarrow> i < length es \<and> es ! i = e"
proof
  assume "position (\<lambda>x. x = e) es = Some i"
  then have i: "i = length (takeWhile (\<lambda>x. x \<noteq> e) es)" "i < length es"
    by (simp_all add: position_def Let_def split: if_splits)
  then show "i < length es \<and> es ! i = e" using nth_length_takeWhile [of "\<lambda>x. x \<noteq> e" es] by simp
next
  assume i: "i < length es \<and> es ! i = e"
  have "\<And>j. j < i \<Longrightarrow> es ! j \<noteq> e" using i assms by (auto simp: nth_eq_iff_index_eq)
  then have "takeWhile (\<lambda>x. x \<noteq> e) es = take i es" using i by (intro takeWhile_eq_take_P_nth) auto
  then show "position (\<lambda>x. x = e) es = Some i" using i by (simp add: position_def)
qed

lemma in_set_drop: "e \<in> set (drop n es) \<longleftrightarrow> (\<exists>i \<ge> n. i < length es \<and> es ! i = e)"
proof
  assume "e \<in> set (drop n es)"
  then obtain j where "j < length es - n" "es ! (n + j) = e" by (auto simp: in_set_conv_nth)
  then show "\<exists>i \<ge> n. i < length es \<and> es ! i = e" by (intro exI [of _ "n + j"]) auto
next
  assume "\<exists>i \<ge> n. i < length es \<and> es ! i = e"
  then obtain i where "n \<le> i" "i < length es" "es ! i = e" by blast
  then show "e \<in> set (drop n es)" by (auto simp: in_set_conv_nth intro!: exI [of _ "i - n"])
qed

lemma observation_after_iff:
  assumes "analysis_ok a" and es: "bt_get (events_by_block a) b = Some es"
  shows "observation_after_in_block a b start ob \<longleftrightarrow>
     (\<exists>e \<in> set (drop start es). event_id_for_observation a ob = Some e)"
proof -
  note position = position_eq_Some [OF analysis_okD(2) [OF assms]]
  have "(case position (\<lambda>x. x = e) es of Some i \<Rightarrow> start \<le> i | None \<Rightarrow> False) \<longleftrightarrow> e \<in> set (drop start es)" for e
  proof (cases "position (\<lambda>x. x = e) es")
    case None
    then have "\<And>i. \<not> (i < length es \<and> es ! i = e)" using position [of e] by simp
    then show ?thesis unfolding None option.case in_set_drop by blast
  next
    case (Some i)
    have "j = i" if "j < length es" "es ! j = e" for j using position [of e j] that Some by simp
    then show ?thesis using position [of e i] unfolding Some option.case in_set_drop by blast
  qed
  then show ?thesis unfolding observation_after_in_block_def es option.case
    by (cases "event_id_for_observation a ob") simp_all
qed

section \<open>The meaning of the summaries\<close>

text \<open>The observations the summaries of a query count: in the query's block only those from its start on.\<close>

definition counted ::
  "last_use_analysis \<Rightarrow> last_use_subject \<Rightarrow> block_id \<Rightarrow> nat \<Rightarrow> event_id \<Rightarrow> bool" where
  "counted a subject q start e \<longleftrightarrow>
     observed a subject e \<and> (\<forall>es. bt_get (events_by_block a) q = Some es \<longrightarrow> e \<notin> set (take start es))"

lemma block_has_use_iff:
  assumes "analysis_ok a"
  shows "block_has_use a subject q start b \<longleftrightarrow>
     (\<exists>es. bt_get (events_by_block a) b = Some es \<and> (\<exists>e \<in> set es. counted a subject q start e))"
proof (cases "bt_get (events_by_block a) b")
  case None
  then show ?thesis by (simp add: block_has_use_def first_observation_in_block_def split: option.split)
next
  case (Some es)
  have d: "distinct es" by (rule analysis_okD(2) [OF assms Some])
  have drop: "e \<in> set (drop start es) \<longleftrightarrow> e \<in> set es \<and> e \<notin> set (take start es)" for e
  proof -
    have "set es = set (take start es) \<union> set (drop start es)" by (metis append_take_drop_id set_append)
    moreover have "set (take start es) \<inter> set (drop start es) = {}"
      using d by (metis append_take_drop_id distinct_append)
    ultimately show ?thesis by blast
  qed
  have other: "e \<notin> set (take start es')"
    if "b \<noteq> q" "bt_get (events_by_block a) q = Some es'" "e \<in> set es" for es' e
    using analysis_okD(3) [OF assms Some that(2)] that(1,3) by (auto dest: in_set_takeD)
  show ?thesis
  proof (cases "b = q")
    case True
    then show ?thesis using Some drop
      by (auto simp: block_has_use_def first_observation_eq_None counted_def)
  next
    case False
    then show ?thesis using Some other
      by (auto simp: block_has_use_def first_observation_eq_None counted_def)
  qed
qed

definition may_meet :: "last_use_analysis \<Rightarrow> (event_id \<Rightarrow> bool) \<Rightarrow> block_id \<Rightarrow> bool" where
  "may_meet a P b \<longleftrightarrow> (\<forall>es. bt_get (events_by_block a) b = Some es \<longrightarrow> observable a P (b, es))"

definition must_meet :: "last_use_analysis \<Rightarrow> (event_id \<Rightarrow> bool) \<Rightarrow> block_id \<Rightarrow> bool" where
  "must_meet a P b \<longleftrightarrow> (\<forall>es. bt_get (events_by_block a) b = Some es \<longrightarrow> inevitable a P (b, es))"

lemma graph_block: "b \<in> graph_blocks a \<longleftrightarrow> (\<exists>es. bt_get (events_by_block a) b = Some es)"
  using map_of_eq_None_iff [of "events_by_block a" b] by (cases "bt_get (events_by_block a) b") auto

lemma graph_successor:
  assumes "analysis_ok a" "bt_get (events_by_block a) b = Some es" "s \<in> set (successors_of a b)"
  shows "\<exists>es'. bt_get (events_by_block a) s = Some es'"
proof -
  have "b \<in> graph_blocks a" using assms(2) graph_block by blast
  then have "s \<in> graph_blocks a" using assms(1,3) by (auto simp: analysis_ok_def closed_graph_def)
  then show ?thesis using graph_block by blast
qed

lemma may_meet_sound:
  assumes ok: "analysis_ok a" and has: "\<And>b. has b \<longleftrightarrow> (\<exists>es. bt_get (events_by_block a) b = Some es \<and> (\<exists>e \<in> set es. P e))"
    and m: "\<And>x. m x \<Longrightarrow> may_meet a P x" "may_equation a has m b"
  shows "may_meet a P b"
  unfolding may_meet_def
proof (intro allI impI)
  fix es assume es: "bt_get (events_by_block a) b = Some es"
  show "observable a P (b, es)"
  proof (cases "has b")
    case True
    then show ?thesis using has [of b] es observable_events [of a P b es] by simp
  next
    case False
    then obtain s where s: "s \<in> set (successors_of a b)" "m s" using m(2) by (auto simp: may_equation_def)
    obtain es' where es': "bt_get (events_by_block a) s = Some es'" using graph_successor [OF ok es s(1)] by blast
    then have "observable a P (s, es')" using m(1) [OF s(2)] by (simp add: may_meet_def)
    then show ?thesis using s(1) es' observable_edge [of a P b] observable_events [of a P b es] by blast
  qed
qed

lemma must_meet_sound:
  assumes ok: "analysis_ok a" and has: "\<And>b. has b \<longleftrightarrow> (\<exists>es. bt_get (events_by_block a) b = Some es \<and> (\<exists>e \<in> set es. P e))"
    and m: "\<And>x. m x \<Longrightarrow> must_meet a P x" "must_equation a has m b"
  shows "must_meet a P b"
  unfolding must_meet_def
proof (intro allI impI)
  fix es assume es: "bt_get (events_by_block a) b = Some es"
  have closed: "\<And>s. s \<in> set (successors_of a b) \<Longrightarrow> bt_get (events_by_block a) s \<noteq> None"
    using graph_successor [OF ok es] by fastforce
  show "inevitable a P (b, es)"
  proof (cases "has b")
    case True
    then show ?thesis using has [of b] es inevitable_events [of a P b es] by simp
  next
    case False
    then have s: "successors_of a b \<noteq> []" "\<And>s. s \<in> set (successors_of a b) \<Longrightarrow> must_meet a P s"
      using m by (auto simp: must_equation_def)
    have "\<exists>es'. bt_get (events_by_block a) t = Some es' \<and> inevitable a P (t, es')" if "t \<in> set (successors_of a b)" for t
      using s(2) [OF that] closed [OF that] by (auto simp: must_meet_def)
    then have "inevitable a P (b, [])" using inevitable_edge [of a b P] closed s(1) by blast
    then show ?thesis using inevitable_events by blast
  qed
qed

lemma solvedD:
  "solved a has may must \<Longrightarrow> b \<in> graph_blocks a \<Longrightarrow>
     on may b = may_equation a has (on may) b \<and> on must b = must_equation a has (on must) b"
  unfolding solved_def by blast

lemma observable_solved:
  assumes ok: "analysis_ok a" and has: "\<And>b. has b \<longleftrightarrow> (\<exists>es. bt_get (events_by_block a) b = Some es \<and> (\<exists>e \<in> set es. P e))"
    and solved: "solved a has may must"
    and path: "(program_step a)\<^sup>*\<^sup>* pos (b', e # es')" "P e"
  shows "bt_get (events_by_block a) (fst pos) = Some full \<Longrightarrow> set (snd pos) \<subseteq> set full \<Longrightarrow> on may (fst pos)"
  using path(1)
proof (induction arbitrary: full rule: converse_rtranclp_induct)
  case base
  then have "has b'" using has path(2) by auto
  moreover have "b' \<in> graph_blocks a" using base graph_block by auto
  ultimately show ?case using solvedD [OF solved] by (simp add: may_equation_def)
next
  case (step pos later)
  from step.hyps(1) show ?case
  proof cases
    case (event b e' es)
    then show ?thesis using step by auto
  next
    case (edge s b es)
    have "on may s" using step.IH [of es] edge by simp
    moreover have "b \<in> graph_blocks a" using step.prems edge graph_block by auto
    ultimately show ?thesis using solvedD [OF solved, of b] edge by (auto simp: may_equation_def)
  qed
qed

lemma inevitable_solved:
  assumes ok: "analysis_ok a" and has: "\<And>b. has b \<longleftrightarrow> (\<exists>es. bt_get (events_by_block a) b = Some es \<and> (\<exists>e \<in> set es. P e))"
    and solved: "solved a has may must" and "inevitable a P pos"
  shows "bt_get (events_by_block a) (fst pos) = Some full \<Longrightarrow> set (snd pos) \<subseteq> set full \<Longrightarrow> on must (fst pos)"
  using assms(4)
proof (induction arbitrary: full rule: inevitable.induct)
  case (here e b es)
  then have "has b" using has by auto
  moreover have "b \<in> graph_blocks a" using here graph_block by auto
  ultimately show ?case using solvedD [OF solved] by (simp add: must_equation_def)
next
  case (onwards pos)
  obtain b es where pos: "pos = (b, es)" by (cases pos)
  show ?case
  proof (cases es)
    case (Cons e es')
    then have "program_step a pos (b, es')" by (simp add: pos program_step.event)
    then show ?thesis using onwards.IH onwards.prems by (auto simp: pos Cons)
  next
    case Nil
    have b: "b \<in> graph_blocks a" using onwards.prems graph_block by (auto simp: pos)
    have full: "bt_get (events_by_block a) b = Some full" using onwards.prems by (simp add: pos)
    have "on must s" if s: "s \<in> set (successors_of a b)" for s
    proof -
      obtain es'' where es'': "bt_get (events_by_block a) s = Some es''" using graph_successor [OF ok full s] by blast
      then have "program_step a pos (s, es'')" using s by (simp add: pos Nil program_step.edge)
      then show ?thesis using onwards.IH es'' by auto
    qed
    moreover have "successors_of a b \<noteq> []" using onwards.hyps(1) by (auto simp: pos Nil elim: program_step_edge)
    ultimately show ?thesis using solvedD [OF solved b] by (simp add: pos must_equation_def)
  qed
qed

lemma summary_loop_meaning:
  assumes ok: "analysis_ok a"
  shows "\<exists>may must. summary_loop a (block_has_use a subject q start) = Some (Inr (may, must, False)) \<and>
    (\<forall>b es. bt_get (events_by_block a) b = Some es \<longrightarrow>
       (on may b \<longleftrightarrow> observable a (counted a subject q start) (b, es)) \<and>
       (on must b \<longleftrightarrow> inevitable a (counted a subject q start) (b, es)))"
proof -
  let ?has = "block_has_use a subject q start" and ?P = "counted a subject q start"
  note has = block_has_use_iff [OF ok, of subject q start]
  have "\<exists>may must. summary_loop a ?has = Some (Inr (may, must, False)) \<and> solved a ?has may must \<and>
      justified a (may_equation a ?has) (may_meet a ?P) may \<and> justified a (must_equation a ?has) (must_meet a ?P) must"
    by (rule summary_loop_solves [OF analysis_okD(1) [OF ok]])
       (rule may_meet_sound [OF ok has], assumption, assumption, rule must_meet_sound [OF ok has])
  then obtain may must where loop: "summary_loop a ?has = Some (Inr (may, must, False))"
    and solved: "solved a ?has may must"
    and may: "justified a (may_equation a ?has) (may_meet a ?P) may"
    and must: "justified a (must_equation a ?has) (must_meet a ?P) must" by blast
  have "(on may b \<longleftrightarrow> observable a ?P (b, es)) \<and> (on must b \<longleftrightarrow> inevitable a ?P (b, es))"
    if es: "bt_get (events_by_block a) b = Some es" for b es
  proof -
    have "observable a ?P (b, es)" if "on may b" using that may es unfolding justified_def may_meet_def by blast
    moreover have "inevitable a ?P (b, es)" if "on must b" using that must es unfolding justified_def must_meet_def by blast
    moreover have "on may b" if o: "observable a ?P (b, es)"
    proof -
      obtain b' e es' where "(program_step a)\<^sup>*\<^sup>* (b, es) (b', e # es')" "?P e" using o unfolding observable_def by blast
      from observable_solved [OF ok has solved this] show ?thesis using es by simp
    qed
    moreover have "on must b" if i: "inevitable a ?P (b, es)"
      using inevitable_solved [OF ok has solved i] es by simp
    ultimately show ?thesis by blast
  qed
  then show ?thesis using loop by blast
qed

text \<open>From the query's own position the counted observations are the same as from its block's start.\<close>

lemma query_position:
  assumes ok: "analysis_ok a" and es: "bt_get (events_by_block a) q = Some es"
  shows "observable a (counted a subject q start) (q, drop start es) \<longleftrightarrow> observable a (counted a subject q start) (q, es)"
    and "inevitable a (counted a subject q start) (q, drop start es) \<longleftrightarrow> inevitable a (counted a subject q start) (q, es)"
proof -
  have split: "(\<exists>e \<in> set (drop start es). counted a subject q start e) \<longleftrightarrow> (\<exists>e \<in> set es. counted a subject q start e)"
  proof -
    have "set es = set (take start es) \<union> set (drop start es)" by (metis append_take_drop_id set_append)
    then show ?thesis using es by (auto simp: counted_def)
  qed
  show "observable a (counted a subject q start) (q, drop start es) \<longleftrightarrow> observable a (counted a subject q start) (q, es)"
    by (simp only: observable_events [of _ _ q "drop start es"] observable_events [of _ _ q es] split)
  show "inevitable a (counted a subject q start) (q, drop start es) \<longleftrightarrow> inevitable a (counted a subject q start) (q, es)"
    by (simp only: inevitable_events [of _ _ q "drop start es"] inevitable_events [of _ _ q es] split)
qed

section \<open>The searches\<close>

abbreviation flows :: "last_use_analysis \<Rightarrow> block_id \<Rightarrow> block_id \<Rightarrow> bool" where
  "flows a x y \<equiv> y \<in> set (successors_of a x)"

lemma find_reachable_sound:
  "find_reachable_summary_use a subject may visited queue = Some u \<Longrightarrow>
     \<exists>q \<in> set queue. \<exists>b. (flows a)\<^sup>*\<^sup>* q b \<and> first_observation_in_block a subject b 0 = Some u"
proof (induction a subject may visited queue rule: find_reachable_summary_use.induct)
  case (2 a subject may visited block queue)
  show ?case
  proof (cases "block \<in> visited \<or> bt_get may block \<noteq> Some True")
    case True
    then show ?thesis using 2 by auto
  next
    case False
    show ?thesis
    proof (cases "first_observation_in_block a subject block 0")
      case None
      then obtain q b where "q \<in> set (queue @ successors_of a block)" "(flows a)\<^sup>*\<^sup>* q b"
        "first_observation_in_block a subject b 0 = Some u" using 2 False by auto
      moreover have "(flows a)\<^sup>*\<^sup>* block b" if "flows a block q"
        using that \<open>(flows a)\<^sup>*\<^sup>* q b\<close> by (rule converse_rtranclp_into_rtranclp)
      ultimately show ?thesis by auto
    next
      case (Some v)
      then show ?thesis using 2(3) False by auto
    qed
  qed
qed simp

text \<open>A search that finds nothing has closed its visited set, and no visited block it may enter has a use.\<close>

lemma find_reachable_closed:
  assumes "find_reachable_summary_use a subject may visited queue = None"
    and "\<forall>b \<in> visited. on may b \<longrightarrow> first_observation_in_block a subject b 0 = None \<and>
      set (successors_of a b) \<subseteq> visited \<union> set queue"
  shows "\<exists>V. visited \<union> set queue \<subseteq> V \<and> (\<forall>b \<in> V. on may b \<longrightarrow>
      first_observation_in_block a subject b 0 = None \<and> set (successors_of a b) \<subseteq> V)"
  using assms
proof (induction a subject may visited queue rule: find_reachable_summary_use.induct)
  case (1 a subject may visited)
  then show ?case by (intro exI [of _ visited]) simp
next
  case (2 a subject may visited block queue)
  show ?case
  proof (cases "block \<in> visited \<or> bt_get may block \<noteq> Some True")
    case True
    have "\<exists>V. insert block visited \<union> set queue \<subseteq> V \<and> (\<forall>b \<in> V. on may b \<longrightarrow>
        first_observation_in_block a subject b 0 = None \<and> set (successors_of a b) \<subseteq> V)"
      by (rule 2(1) [OF True]) (use 2(3,4) True in \<open>auto simp: on_def\<close>)
    then show ?thesis by auto
  next
    case False
    have none: "first_observation_in_block a subject block 0 = None" using 2(3) False by (auto split: option.splits)
    have "\<exists>V. insert block visited \<union> set (queue @ successors_of a block) \<subseteq> V \<and> (\<forall>b \<in> V. on may b \<longrightarrow>
        first_observation_in_block a subject b 0 = None \<and> set (successors_of a b) \<subseteq> V)"
      by (rule 2(2) [OF False none]) (use 2(3,4) False none in \<open>auto simp: on_def\<close>)
    then show ?thesis by auto
  qed
qed

text \<open>The blocks between a block and an exit found without a use.\<close>

lemma find_no_use_exit_sound:
  "find_no_use_exit a subject may visited queue = Some x \<Longrightarrow>
     x \<in> exit_blocks a \<and> first_observation_in_block a subject x 0 = None \<and>
     (\<exists>q \<in> set queue. (\<lambda>y z. flows a y z \<and> first_observation_in_block a subject y 0 = None)\<^sup>*\<^sup>* q x)"
proof (induction a subject may visited queue rule: find_no_use_exit.induct)
  case (2 a subject may visited block queue)
  consider "block \<in> visited" | "block \<notin> visited" "first_observation_in_block a subject block 0 \<noteq> None"
    | "block \<notin> visited" "first_observation_in_block a subject block 0 = None" by blast
  then show ?case
  proof cases
    case 3
    show ?thesis
    proof (cases "bt_get may block \<noteq> Some True \<and> block \<in> exit_blocks a")
      case True
      then show ?thesis using 2(4) 3 by auto
    next
      case False
      then have r: "find_no_use_exit a subject may (insert block visited) (queue @ successors_of a block) = Some x"
        using 2(4) 3 by auto
      have "x \<in> exit_blocks a \<and> first_observation_in_block a subject x 0 = None \<and>
          (\<exists>q \<in> set (queue @ successors_of a block).
             (\<lambda>y z. flows a y z \<and> first_observation_in_block a subject y 0 = None)\<^sup>*\<^sup>* q x)"
        using 2(3) 3 False r by blast
      then obtain q where q: "q \<in> set queue \<or> flows a block q" "x \<in> exit_blocks a"
        "first_observation_in_block a subject x 0 = None"
        "(\<lambda>y z. flows a y z \<and> first_observation_in_block a subject y 0 = None)\<^sup>*\<^sup>* q x" by auto
      have "(\<lambda>y z. flows a y z \<and> first_observation_in_block a subject y 0 = None)\<^sup>*\<^sup>* block x"
        if "flows a block q"
        by (rule converse_rtranclp_into_rtranclp [OF _ q(4)]) (use that 3 in blast)
      then show ?thesis using q by auto
    qed
  qed (use 2 in auto)
qed simp

text \<open>All exits that control reaches.\<close>

lemma explore_exits_sound:
  "explore_exits a exits visited queue \<subseteq> exits \<union> {x \<in> exit_blocks a. \<exists>q \<in> set queue. (flows a)\<^sup>*\<^sup>* q x}"
proof (induction a exits visited queue rule: explore_exits.induct)
  case (2 a exits visited block queue)
  show ?case
  proof (cases "block \<in> visited")
    case True
    then show ?thesis using 2(1) by auto
  next
    case False
    have "(flows a)\<^sup>*\<^sup>* block x" if "flows a block q" "(flows a)\<^sup>*\<^sup>* q x" for q x
      using that by (rule converse_rtranclp_into_rtranclp)
    then have "{x \<in> exit_blocks a. \<exists>q \<in> set (queue @ successors_of a block). (flows a)\<^sup>*\<^sup>* q x} \<subseteq>
        {x \<in> exit_blocks a. \<exists>q \<in> set (block # queue). (flows a)\<^sup>*\<^sup>* q x}" by auto
    moreover have "(if block \<in> exit_blocks a then insert block exits else exits) \<subseteq>
        exits \<union> {x \<in> exit_blocks a. \<exists>q \<in> set (block # queue). (flows a)\<^sup>*\<^sup>* q x}" by auto
    moreover have "explore_exits a exits visited (block # queue) =
        explore_exits a (if block \<in> exit_blocks a then insert block exits else exits)
          (insert block visited) (queue @ successors_of a block)" using False by simp
    ultimately show ?thesis using 2(2) [OF False] by blast
  qed
qed simp

lemma explore_exits_closed:
  assumes "\<forall>b \<in> visited. set (successors_of a b) \<subseteq> visited \<union> set queue \<and> (b \<in> exit_blocks a \<longrightarrow> b \<in> exits)"
  shows "exits \<subseteq> explore_exits a exits visited queue \<and>
    (\<exists>V. visited \<union> set queue \<subseteq> V \<and> (\<forall>b \<in> V. set (successors_of a b) \<subseteq> V \<and>
      (b \<in> exit_blocks a \<longrightarrow> b \<in> explore_exits a exits visited queue)))"
  using assms
proof (induction a exits visited queue rule: explore_exits.induct)
  case (1 a exits visited)
  then show ?case by (intro conjI exI [of _ visited]) auto
next
  case (2 a exits visited block queue)
  show ?case
  proof (cases "block \<in> visited")
    case True
    have "\<forall>b \<in> insert block visited. set (successors_of a b) \<subseteq> insert block visited \<union> set queue \<and>
        (b \<in> exit_blocks a \<longrightarrow> b \<in> exits)" using 2(3) True by auto
    from 2(1) [OF True this] show ?thesis using True by simp
  next
    case False
    let ?exits = "if block \<in> exit_blocks a then insert block exits else exits"
    have "\<forall>b \<in> insert block visited. set (successors_of a b) \<subseteq> insert block visited \<union> set (queue @ successors_of a block) \<and>
        (b \<in> exit_blocks a \<longrightarrow> b \<in> ?exits)" using 2(3) by auto
    from 2(2) [OF False this]
    have r: "?exits \<subseteq> explore_exits a exits visited (block # queue) \<and>
      (\<exists>V. insert block visited \<union> set (queue @ successors_of a block) \<subseteq> V \<and> (\<forall>b \<in> V. set (successors_of a b) \<subseteq> V \<and>
        (b \<in> exit_blocks a \<longrightarrow> b \<in> explore_exits a exits visited (block # queue))))" using False by simp
    then obtain V where V: "insert block visited \<union> set (queue @ successors_of a block) \<subseteq> V"
      "\<forall>b \<in> V. set (successors_of a b) \<subseteq> V \<and> (b \<in> exit_blocks a \<longrightarrow> b \<in> explore_exits a exits visited (block # queue))" by blast
    have "exits \<subseteq> explore_exits a exits visited (block # queue)" using r by (auto split: if_splits)
    moreover have "visited \<union> set (block # queue) \<subseteq> V" using V(1) by auto
    ultimately show ?thesis using V(2) by blast
  qed
qed

lemma explore_exits_finite: "finite exits \<Longrightarrow> finite (explore_exits a exits visited queue)"
  by (induction a exits visited queue rule: explore_exits.induct) simp_all

lemma reachable_exits_exact:
  shows "set (reachable_exits a q) = {x \<in> exit_blocks a. (flows a)\<^sup>*\<^sup>* q x}" and "sorted (reachable_exits a q)"
proof -
  have fin: "finite (explore_exits a {} {} [q])" by (simp add: explore_exits_finite del: explore_exits.simps)
  obtain V where V: "q \<in> V" "\<forall>b \<in> V. set (successors_of a b) \<subseteq> V \<and> (b \<in> exit_blocks a \<longrightarrow> b \<in> explore_exits a {} {} [q])"
    using explore_exits_closed [of "{}" a "[q]" "{}"] by auto
  have "x \<in> V" if "(flows a)\<^sup>*\<^sup>* q x" for x
    using that by (induction rule: rtranclp_induct) (use V in auto)
  then have "{x \<in> exit_blocks a. (flows a)\<^sup>*\<^sup>* q x} \<subseteq> explore_exits a {} {} [q]" using V(2) by blast
  moreover have "explore_exits a {} {} [q] \<subseteq> {x \<in> exit_blocks a. (flows a)\<^sup>*\<^sup>* q x}"
    using explore_exits_sound [of a "{}" "{}" "[q]"] by simp
  ultimately show "set (reachable_exits a q) = {x \<in> exit_blocks a. (flows a)\<^sup>*\<^sup>* q x}"
    unfolding reachable_exits_def set_sorted_list_of_set [OF fin] by blast
  show "sorted (reachable_exits a q)" by (simp add: reachable_exits_def del: explore_exits.simps)
qed

section \<open>Evidence\<close>

text \<open>A use that some continuation meets.\<close>

definition use_met :: "last_use_analysis \<Rightarrow> last_use_subject \<Rightarrow> block_id \<times> event_id list \<Rightarrow> use_id \<Rightarrow> bool" where
  "use_met a subject pos u \<longleftrightarrow> observable a (observes a subject u) pos"

text \<open>An exit reached from the end of a block without a use on the way.\<close>

definition exit_without_use :: "last_use_analysis \<Rightarrow> last_use_subject \<Rightarrow> block_id \<Rightarrow> block_id \<Rightarrow> bool" where
  "exit_without_use a subject q x \<longleftrightarrow>
     x \<in> exit_blocks a \<and> first_observation_in_block a subject x 0 = None \<and>
     (\<exists>s \<in> set (successors_of a q).
        (\<lambda>y z. flows a y z \<and> first_observation_in_block a subject y 0 = None)\<^sup>*\<^sup>* s x)"

primrec evidence_ok :: "last_use_analysis \<Rightarrow> last_use_subject \<Rightarrow> block_id \<Rightarrow> event_id list \<Rightarrow> last_use_witness \<Rightarrow> bool" where
  "evidence_ok a subject q es (NoFutureUseWitness exits) \<longleftrightarrow>
     sorted exits \<and> set exits = {x \<in> exit_blocks a. (flows a)\<^sup>*\<^sup>* q x}"
| "evidence_ok a subject q es (MayBeUsedWitness u x) \<longleftrightarrow>
     use_met a subject (q, es) u \<and> (case x of None \<Rightarrow> True | Some b \<Rightarrow> exit_without_use a subject q b)"
| "evidence_ok a subject q es (MustBeUsedWitness u) \<longleftrightarrow> use_met a subject (q, es) u"

lemma observable_flow:
  assumes "analysis_ok a" "bt_get (events_by_block a) b = Some es" "(flows a)\<^sup>*\<^sup>* s b"
    "\<exists>e \<in> set es. P e"
  shows "\<And>es'. bt_get (events_by_block a) s = Some es' \<Longrightarrow> observable a P (s, es')"
  using assms(3)
proof (induction rule: converse_rtranclp_induct)
  case base
  then show ?case using assms(2,4) observable_events [of a P b es'] by simp
next
  case (step s t)
  obtain es'' where "bt_get (events_by_block a) t = Some es''"
    using graph_successor [OF assms(1) step.prems step.hyps(1)] by blast
  then have "observable a P (s, [])" using step.hyps(1) step.IH observable_edge [of a P s] by blast
  then show ?case using observable_events by blast
qed

lemma query_later_use:
  assumes ok: "analysis_ok a" and es: "bt_get (events_by_block a) q = Some es"
    and found: "find_reachable_summary_use a subject may {} (successors_of a q) = Some u"
  shows "use_met a subject (q, drop start es) u"
proof -
  obtain s b where s: "s \<in> set (successors_of a q)" "(flows a)\<^sup>*\<^sup>* s b" "first_observation_in_block a subject b 0 = Some u"
    using find_reachable_sound [OF found] by blast
  obtain bs e where b: "bt_get (events_by_block a) b = Some bs" "e \<in> set (drop 0 bs)" "observes a subject u e"
    using first_observation_SomeD [OF s(3)] by blast
  have e: "\<exists>e \<in> set bs. observes a subject u e" using b(2,3) by auto
  obtain es' where es': "bt_get (events_by_block a) s = Some es'" using graph_successor [OF ok es s(1)] by blast
  have "observable a (observes a subject u) (s, es')" by (rule observable_flow [OF ok b(1) s(2) e es'])
  then have "observable a (observes a subject u) (q, [])" using s(1) es' observable_edge by blast
  then show ?thesis unfolding use_met_def using observable_events by blast
qed

text \<open>If the subject is observable, the search for a use succeeds.\<close>

lemma search_finds_use:
  assumes ok: "analysis_ok a" and es: "bt_get (events_by_block a) q = Some es"
    and may: "\<And>b es. bt_get (events_by_block a) b = Some es \<Longrightarrow> on may b \<longleftrightarrow> observable a (counted a subject q start) (b, es)"
    and none: "find_reachable_summary_use a subject may {} (successors_of a q) = None"
  shows "\<not> observable a (counted a subject q start) (q, [])"
proof
  let ?P = "counted a subject q start"
  assume "observable a ?P (q, [])"
  then obtain s es' where s: "s \<in> set (successors_of a q)" "bt_get (events_by_block a) s = Some es'"
    "observable a ?P (s, es')" using observable_edge by blast
  obtain V where V: "set (successors_of a q) \<subseteq> V" "\<And>b. b \<in> V \<Longrightarrow> on may b \<Longrightarrow>
      first_observation_in_block a subject b 0 = None \<and> set (successors_of a b) \<subseteq> V"
    using find_reachable_closed [OF none] by auto
  obtain b e bs where path: "(program_step a)\<^sup>*\<^sup>* (s, es') (b, e # bs)" "?P e" using s(3) unfolding observable_def by blast
  have "False" if "(program_step a)\<^sup>*\<^sup>* pos (b, e # bs)" "fst pos \<in> V"
    "bt_get (events_by_block a) (fst pos) = Some full" "set (snd pos) \<subseteq> set full" for pos full
    using that
  proof (induction arbitrary: full rule: converse_rtranclp_induct)
    case base
    have "observable a ?P (b, full)" using observable_events [of a ?P b full] base(3) path(2) by auto
    then have "on may b" using may [of b full] base(2) by simp
    then have "first_observation_in_block a subject b 0 = None" using V(2) [of b] base(1) by simp
    then show ?case using base(2,3) path(2) by (auto simp: first_observation_eq_None counted_def)
  next
    case (step pos later)
    from step.hyps(1) show ?case
    proof cases
      case (event c e' rest)
      show ?thesis by (rule step.IH [of full]) (use event step.prems in auto)
    next
      case (edge t c rest)
      have "(program_step a)\<^sup>*\<^sup>* (c, []) (b, e # bs)"
        using step.hyps edge converse_rtranclp_into_rtranclp [of "program_step a" pos later] by simp
      then have "observable a ?P (c, [])" using path(2) unfolding observable_def by blast
      then have "observable a ?P (c, full)" using observable_events by blast
      then have "on may c" using may [of c full] step.prems(2) edge(1) by simp
      then have "t \<in> V" using V(2) [of c] step.prems(1) edge by auto
      show ?thesis by (rule step.IH [of rest]) (use edge \<open>t \<in> V\<close> in auto)
    qed
  qed
  from this [OF path(1), of es'] show False using s(1,2) V(1) by auto
qed

end
