(* ===== verification/Last_Use_Queries.thy ===== *)
theory Last_Use_Queries
  imports Last_Use_Proofs
begin

text \<open>
  Future-use queries: their status and evidence against the continuations of the queried location, and
  their totality on validated problems.
\<close>

section \<open>The answer of a query\<close>

lemma inevitable_observable: "inevitable a P pos \<Longrightarrow> observable a P pos"
proof (induction rule: inevitable.induct)
  case (here e b es)
  then show ?case by (auto simp: observable_def)
next
  case (onwards pos)
  then obtain later where "program_step a pos later" "observable a P later" by blast
  then show ?case unfolding observable_def using converse_rtranclp_into_rtranclp by metis
qed

text \<open>The status tells whether an observation the query counts may or must be met.\<close>

definition status_exact ::
  "last_use_analysis \<Rightarrow> (event_id \<Rightarrow> bool) \<Rightarrow> block_id \<times> event_id list \<Rightarrow> future_use_status \<Rightarrow> bool" where
  "status_exact a P pos status \<longleftrightarrow>
     (status = NoFutureUse \<longleftrightarrow> \<not> observable a P pos) \<and> (status = MustBeUsed \<longleftrightarrow> inevitable a P pos)"

definition answers ::
  "last_use_analysis \<Rightarrow> last_use_subject \<Rightarrow> block_id \<Rightarrow> nat \<Rightarrow> event_id list \<Rightarrow> last_use_result \<Rightarrow> bool" where
  "answers a subject q start es r \<longleftrightarrow>
     status_exact a (counted a subject q start) (q, drop start es) (future_use r) \<and>
     evidence_ok a subject q (drop start es) (future_witness r) \<and>
     (case future_witness r of
        NoFutureUseWitness _ \<Rightarrow> future_use r = NoFutureUse
      | MayBeUsedWitness _ _ \<Rightarrow> future_use r = MayBeUsed
      | MustBeUsedWitness _ \<Rightarrow> future_use r = MustBeUsed)"

lemma counted_after:
  assumes "analysis_ok a" "bt_get (events_by_block a) q = Some es" "e \<in> set (drop start es)"
  shows "counted a subject q start e \<longleftrightarrow> observed a subject e"
proof -
  have "distinct (take start es @ drop start es)" using analysis_okD(2) [OF assms(1,2)] by simp
  then show ?thesis using assms(2,3) by (auto simp only: counted_def distinct_append option.inject)
qed

lemma local_use:
  assumes ok: "analysis_ok a" and es: "bt_get (events_by_block a) q = Some es"
    and ob: "filter (observation_after_in_block a q start) (observations_of a subject) = ob # rest"
  shows "\<exists>e \<in> set (drop start es). observes a subject (observed_use ob) e"
proof -
  have "ob \<in> set (filter (observation_after_in_block a q start) (observations_of a subject))" by (simp add: ob)
  then show ?thesis using observation_after_iff [OF ok es, of start ob] by (auto simp: observes_def)
qed

lemma no_local_use:
  assumes ok: "analysis_ok a" and es: "bt_get (events_by_block a) q = Some es"
    and none: "filter (observation_after_in_block a q start) (observations_of a subject) = []"
  shows "\<forall>e \<in> set (drop start es). \<not> observed a subject e"
  using none observation_after_iff [OF ok es, of start] by (auto simp: filter_empty_conv observed_def)

lemma summaries_answer:
  assumes ok: "analysis_ok a" and es: "bt_get (events_by_block a) q = Some es"
    and none: "\<forall>e \<in> set (drop start es). \<not> observed a subject e"
  shows "\<exists>s r. block_summaries a subject q start = Some (Inr s) \<and>
    summary_result a subject location q s = Inr r \<and> answers a subject q start es r"
proof -
  let ?P = "counted a subject q start" and ?pos = "(q, drop start es)"
  obtain may must where loop: "summary_loop a (block_has_use a subject q start) = Some (Inr (may, must, False))"
    and meaning: "\<And>b es. bt_get (events_by_block a) b = Some es \<Longrightarrow>
       (on may b \<longleftrightarrow> observable a ?P (b, es)) \<and> (on must b \<longleftrightarrow> inevitable a ?P (b, es))"
    using summary_loop_meaning [OF ok, of subject q start] by blast
  have first: "first_observation_in_block a subject q start = None"
    unfolding first_observation_eq_None using none es by simp
  let ?later = "find_reachable_summary_use a subject may {} (successors_of a q)"
    and ?exit = "find_no_use_exit a subject may {} (successors_of a q)"
  let ?s = "\<lparr>may_observe = on may q, must_observe = on must q, later_use = ?later, no_use_exit = ?exit\<rparr>"
  have "(case bt_get (successors a) q of None \<Rightarrow> None | Some starts \<Rightarrow> f starts) = f (successors_of a q)"
    if "f [] = None" for f :: "nat list \<Rightarrow> nat option"
    using that by (simp add: successors_of_def split: option.split)
  then have s: "block_summaries a subject q start = Some (Inr ?s)"
    by (simp add: block_summaries_def loop first on_def del: find_reachable_summary_use.simps(2) find_no_use_exit.simps(2))
  have may: "on may q \<longleftrightarrow> observable a ?P ?pos" and must: "on must q \<longleftrightarrow> inevitable a ?P ?pos"
    using meaning [OF es] query_position [OF ok es, of subject start] by simp_all
  have "\<not> (\<exists>e \<in> set (drop start es). ?P e)" using none by (auto simp: counted_def)
  then have later: "\<exists>u. ?later = Some u" if "on may q"
    using that may observable_events [of a ?P q "drop start es"]
      search_finds_use [OF ok es, where may = may and subject = subject and start = start] meaning by blast
  have met: "use_met a subject ?pos u" if "?later = Some u" for u by (rule query_later_use [OF ok es that])
  have unused: "exit_without_use a subject q x" if "?exit = Some x" for x
    using find_no_use_exit_sound [OF that] by (simp add: exit_without_use_def)
  have exact: "status_exact a ?P ?pos (if \<not> on may q then NoFutureUse else if on must q then MustBeUsed else MayBeUsed)"
    using may must inevitable_observable [of a ?P ?pos] by (auto simp: status_exact_def)
  have "\<exists>r. summary_result a subject location q ?s = Inr r \<and> answers a subject q start es r"
  proof (cases "on may q")
    case False
    then show ?thesis using exact by (simp add: summary_result_def answers_def reachable_exits_exact)
  next
    case True
    then obtain u where "?later = Some u" using later by blast
    then show ?thesis using exact True met unused
      by (cases "on must q") (simp_all add: summary_result_def answers_def split: option.split)
  qed
  then show ?thesis using s by blast
qed

lemma query_answers:
  assumes ok: "analysis_ok a" and q: "block_for_point a (at_point location) = Inr q"
    and start: "start_event_index a q location = Inr start" and es: "bt_get (events_by_block a) q = Some es"
  shows "\<exists>r. query_last_use a subject location = Some (Inr r) \<and>
    asked_subject r = subject \<and> asked_location r = location \<and> answers a subject q start es r"
proof (cases "filter (observation_after_in_block a q start) (observations_of a subject)")
  case Nil
  obtain s r where s: "block_summaries a subject q start = Some (Inr s)"
    "summary_result a subject location q s = Inr r" "answers a subject q start es r"
    using summaries_answer [OF ok es no_local_use [OF ok es Nil]] by blast
  have "asked_subject r = subject \<and> asked_location r = location"
    using s(2) by (cases "later_use s")
      (auto simp: summary_result_def Let_def result_bind_def split: future_use_status.splits if_splits)
  then show ?thesis using s by (simp add: query_last_use_def q start Nil)
next
  case (Cons ob rest)
  obtain e where e: "e \<in> set (drop start es)" "observes a subject (observed_use ob) e"
    using local_use [OF ok es Cons] by blast
  then have c: "counted a subject q start e" using counted_after [OF ok es] observed_iff by blast
  then have "inevitable a (counted a subject q start) (q, drop start es)" using e(1) inevitable_events by blast
  moreover have "use_met a subject (q, drop start es) (observed_use ob)"
    unfolding use_met_def using e observable_events by blast
  ultimately show ?thesis using inevitable_observable
    by (auto simp: query_last_use_def q start Cons answers_def status_exact_def)
qed

section \<open>Queries whose block control cannot re-enter\<close>

abbreviation re_entered :: "last_use_analysis \<Rightarrow> block_id \<Rightarrow> bool" where
  "re_entered a q \<equiv> (flows a)\<^sup>+\<^sup>+ q q"

text \<open>Positions that control reaches from inside a block it does not re-enter.\<close>

definition past :: "last_use_analysis \<Rightarrow> block_id \<Rightarrow> event_id list \<Rightarrow> block_id \<times> event_id list \<Rightarrow> bool" where
  "past a q es pos \<longleftrightarrow>
     fst pos = q \<and> set (snd pos) \<subseteq> set es \<or>
     (flows a)\<^sup>+\<^sup>+ q (fst pos) \<and> (\<exists>full. bt_get (events_by_block a) (fst pos) = Some full \<and> set (snd pos) \<subseteq> set full)"

lemma past_step: "past a q es pos \<Longrightarrow> program_step a pos later \<Longrightarrow> past a q es later"
proof -
  assume past: "past a q es pos" and "program_step a pos later"
  from this(2) show "past a q es later"
  proof cases
    case (event b e rest)
    then show ?thesis using past by (auto simp: past_def)
  next
    case (edge t b rest)
    have "(flows a)\<^sup>+\<^sup>+ q t"
    proof (cases "b = q")
      case True
      then show ?thesis using edge by blast
    next
      case False
      then have "(flows a)\<^sup>+\<^sup>+ q b" using past edge by (simp add: past_def)
      then show ?thesis using edge(3) by (rule tranclp.trancl_into_trancl)
    qed
    then show ?thesis using edge by (simp add: past_def)
  qed
qed

lemma observable_cong:
  assumes "I pos" "\<And>p s. I p \<Longrightarrow> program_step a p s \<Longrightarrow> I s" "\<And>b e es. I (b, e # es) \<Longrightarrow> P e \<Longrightarrow> Q e"
  shows "observable a P pos \<Longrightarrow> observable a Q pos"
proof -
  assume "observable a P pos"
  then obtain b e es where r: "(program_step a)\<^sup>*\<^sup>* pos (b, e # es)" "P e" unfolding observable_def by blast
  from r(1) have "I (b, e # es)" using assms(1,2) by (induction rule: rtranclp_induct) blast+
  then show ?thesis using r assms(3) unfolding observable_def by blast
qed

lemma inevitable_cong:
  assumes "\<And>p s. I p \<Longrightarrow> program_step a p s \<Longrightarrow> I s" "\<And>b e es. I (b, e # es) \<Longrightarrow> P e \<Longrightarrow> Q e"
  shows "inevitable a P pos \<Longrightarrow> I pos \<Longrightarrow> inevitable a Q pos"
proof (induction rule: inevitable.induct)
  case (here e b es)
  then show ?case using assms(2) inevitable.here by blast
next
  case (onwards pos)
  then show ?case using assms(1) inevitable.onwards [of a pos Q] by blast
qed

lemma counted_observed:
  assumes ok: "analysis_ok a" and es: "bt_get (events_by_block a) q = Some es" and once: "\<not> re_entered a q"
    and past: "past a q (drop start es) (b, e # rest)" and ob: "observed a subject e"
  shows "counted a subject q start e"
proof (cases "e \<in> set (drop start es)")
  case True
  then show ?thesis using counted_after [OF ok es] ob by blast
next
  case False
  then have "(flows a)\<^sup>+\<^sup>+ q b" "\<exists>full. bt_get (events_by_block a) b = Some full \<and> e \<in> set full"
    using past by (auto simp: past_def)
  moreover have "b \<noteq> q" using calculation(1) once by blast
  ultimately have "e \<notin> set es" using analysis_okD(3) [OF ok es] by blast
  then show ?thesis using ob es by (auto simp: counted_def dest: in_set_takeD)
qed

lemma answers_observed:
  assumes ok: "analysis_ok a" and es: "bt_get (events_by_block a) q = Some es" and ans: "answers a subject q start es r"
  shows "future_use r = MustBeUsed \<Longrightarrow> inevitable a (observed a subject) (q, drop start es)"
    and "future_use r \<noteq> NoFutureUse \<Longrightarrow> observable a (observed a subject) (q, drop start es)"
    and "\<not> re_entered a q \<Longrightarrow> status_exact a (observed a subject) (q, drop start es) (future_use r)"
proof -
  let ?pos = "(q, drop start es)" and ?P = "counted a subject q start" and ?Q = "observed a subject"
  have exact: "status_exact a ?P ?pos (future_use r)" using ans by (simp add: answers_def)
  have obs: "observable a ?P ?pos \<Longrightarrow> observable a ?Q ?pos"
    by (rule observable_cong [where I = "\<lambda>_. True"]) (auto simp: counted_def)
  have inev: "inevitable a ?P ?pos \<Longrightarrow> inevitable a ?Q ?pos"
    by (rule inevitable_cong [where I = "\<lambda>_. True"]) (auto simp: counted_def)
  show "future_use r = MustBeUsed \<Longrightarrow> inevitable a ?Q ?pos" using exact inev by (simp add: status_exact_def)
  show "future_use r \<noteq> NoFutureUse \<Longrightarrow> observable a ?Q ?pos" using exact obs by (simp add: status_exact_def)
  assume once: "\<not> re_entered a q"
  have here: "past a q (drop start es) ?pos" by (simp add: past_def)
  have "observable a ?Q ?pos \<Longrightarrow> observable a ?P ?pos"
    by (rule observable_cong [where I = "past a q (drop start es)", OF here past_step counted_observed [OF ok es once]])
  moreover have "inevitable a ?Q ?pos \<Longrightarrow> inevitable a ?P ?pos"
    by (rule inevitable_cong [where I = "past a q (drop start es)", OF past_step counted_observed [OF ok es once] _ here])
  ultimately show "status_exact a ?Q ?pos (future_use r)" using exact obs inev by (auto simp: status_exact_def)
qed

end
