(* ===== verification/Last_Use_Construction.thy ===== *)
theory Last_Use_Construction
  imports Last_Use_Queries
begin

text \<open>
  The analysis built from a validated problem: its tables, its observations, and the totality of its
  construction and queries.
\<close>

section \<open>Tables of a problem\<close>

lemma dense_map:
  assumes "\<And>i. i < length xs \<Longrightarrow> f (xs ! i) = i"
  shows "bt_get (foldl (\<lambda>m x. bt_insert (f x) (g x) m) [] xs) k = (if k < length xs then Some (g (xs ! k)) else None)"
proof -
  have f: "map f xs = [0..<length xs]" using assms by (auto intro: nth_equalityI)
  have "distinct (map fst (rev (map (\<lambda>x. (f x, g x)) xs)))" by (simp add: comp_def f rev_map [symmetric])
  then have "map_of (rev (map (\<lambda>x. (f x, g x)) xs)) k = Some y \<longleftrightarrow> k < length xs \<and> y = g (xs ! k)" for y
    using assms by (auto simp: map_of_eq_Some_iff in_set_conv_nth intro!: image_eqI [of _ _ "xs ! k"])
  then have "map_of (rev (map (\<lambda>x. (f x, g x)) xs)) k = (if k < length xs then Some (g (xs ! k)) else None)"
    by (cases "map_of (rev (map (\<lambda>x. (f x, g x)) xs)) k") auto
  then show ?thesis by (simp add: bt_get_foldl_insert map_add_def)
qed

lemma bt_get_map_values: "bt_get (map (\<lambda>(k, v). (k, f v)) m) k = map_option f (bt_get m k)"
  by (induction m) auto

definition event_at :: "borrow_problem \<Rightarrow> event_id \<Rightarrow> last_use_location" where
  "event_at p e = after_event_at e (event_point (events p ! e))"

lemma block_locations:
  "bt_get (block_event_locations (events p) block m) e =
     (if e \<in> set (block_events block) \<and> e < length (events p) then Some (event_at p e) else bt_get m e)"
proof -
  have "bt_get (foldl (\<lambda>m e. case slice_get (events p) e of
          Some ev \<Rightarrow> bt_insert e (after_event_at e (event_point ev)) m | None \<Rightarrow> m) m es) e =
      (if e \<in> set es \<and> e < length (events p) then Some (event_at p e) else bt_get m e)" for es
    by (induction es arbitrary: m) (auto simp: slice_get_def event_at_def)
  then show ?thesis by (simp add: block_event_locations_def)
qed

lemma all_locations:
  "bt_get (foldl (\<lambda>m block. block_event_locations (events p) block m) m blocks) e =
     (if e \<in> (\<Union>b \<in> set blocks. set (block_events b)) \<and> e < length (events p) then Some (event_at p e) else bt_get m e)"
  by (induction blocks arbitrary: m) (auto simp: block_locations)

text \<open>Consequences of well-formedness in the form the tables need.\<close>

lemma well_formedD:
  assumes "well_formed p"
  shows "i < length (flow_blocks (problem_flow p)) \<Longrightarrow> block_row (flow_blocks (problem_flow p) ! i) = i"
    and "i < length (points p) \<Longrightarrow> point_row (points p ! i) = i"
    and "i < length (uses p) \<Longrightarrow> use_row (uses p ! i) = i"
    and "i < length (loans p) \<Longrightarrow> loan_row (loans p ! i) = i"
    and "i < length (events p) \<Longrightarrow> event_row (events p ! i) = i"
    and "e \<in> set (flow_edges (problem_flow p)) \<Longrightarrow>
      edge_from e < length (flow_blocks (problem_flow p)) \<and> edge_to e < length (flow_blocks (problem_flow p))"
    and "pt \<in> set (points p) \<Longrightarrow> point_block pt < length (flow_blocks (problem_flow p))"
    and "b \<in> set (flow_blocks (problem_flow p)) \<Longrightarrow> listed (events p) (points p) b"
    and "distinct (concat (map block_events (flow_blocks (problem_flow p))))"
    and "set (concat (map block_events (flow_blocks (problem_flow p)))) = {..<length (events p)}"
    and "u \<in> set (uses p) \<Longrightarrow> use_point u < length (points p) \<and> use_place u < length (places p)"
    and "l \<in> set (loans p) \<Longrightarrow> v \<in> set (loan_uses l) \<Longrightarrow> v < length (uses p)"
    and "v < length (uses p) \<Longrightarrow> count_events (owns v) (events p) = 1"
  using assms unfolding well_formed_def Let_def by simp_all

lemma distinct_concat_disjoint:
  "distinct (concat xss) \<Longrightarrow> i < length xss \<Longrightarrow> j < length xss \<Longrightarrow> i \<noteq> j \<Longrightarrow> set (xss ! i) \<inter> set (xss ! j) = {}"
proof (induction xss arbitrary: i j)
  case (Cons xs xss)
  have head: "set xs \<inter> set (xss ! n) = {}" if "n < length xss" for n
    using Cons.prems(1) nth_mem [OF that] by auto
  then show ?case using Cons by (cases i; cases j) auto
qed simp

lemma distinct_concat_inner: "distinct (concat xss) \<Longrightarrow> xs \<in> set xss \<Longrightarrow> distinct xs"
  by (induction xss) auto

abbreviation problem_blocks :: "borrow_problem \<Rightarrow> cfg_block list" where
  "problem_blocks p \<equiv> flow_blocks (problem_flow p)"

text \<open>The static tables of an analysis of a problem.\<close>

definition analyses :: "borrow_problem \<Rightarrow> last_use_analysis \<Rightarrow> bool" where
  "analyses p a \<longleftrightarrow>
     (\<forall>k. bt_get (point_block_by_id a) k = (if k < length (points p) then Some (point_block (points p ! k)) else None)) \<and>
     (\<forall>b. bt_get (events_by_block a) b =
        (if b < length (problem_blocks p) then Some (block_events (problem_blocks p ! b)) else None)) \<and>
     (\<forall>e. bt_get (event_location_by_id a) e = (if e < length (events p) then Some (event_at p e) else None)) \<and>
     (\<forall>b < length (problem_blocks p). set (successors_of a b) = set (out_edges (flow_edges (problem_flow p)) b)) \<and>
     exit_blocks a = set (flow_exits (problem_flow p))"

lemma empty_analysis_analyses:
  assumes wf: "well_formed p"
  shows "analyses p (empty_analysis p)"
proof -
  let ?blocks = "problem_blocks p"
  note dense = well_formedD [OF wf]
  have covered: "e \<in> (\<Union>b \<in> set ?blocks. set (block_events b)) \<longleftrightarrow> e < length (events p)" for e
    using dense(10) by auto
  have targets: "set (successors_of (empty_analysis p) b) = set (out_edges (flow_edges (problem_flow p)) b)"
    if "b < length ?blocks" for b
  proof -
    have "bt_get (foldl (\<lambda>m block. bt_insert (block_row block) ([] :: nat list) m) [] ?blocks) b = Some []"
      using dense_map [of ?blocks block_row "\<lambda>_. []" b] dense(1) that by simp
    then show ?thesis
      by (simp add: successors_of_def empty_analysis_def Let_def bt_get_map_values bt_get_foldl_push out_edges_def)
  qed
  show ?thesis unfolding analyses_def
  proof (intro conjI allI impI)
    show "bt_get (point_block_by_id (empty_analysis p)) k =
        (if k < length (points p) then Some (point_block (points p ! k)) else None)" for k
      using dense_map [of "points p" point_row point_block k] dense(2) by (simp add: empty_analysis_def Let_def)
    show "bt_get (events_by_block (empty_analysis p)) b =
        (if b < length ?blocks then Some (block_events (?blocks ! b)) else None)" for b
      using dense_map [of ?blocks block_row block_events b] dense(1) by (simp add: empty_analysis_def Let_def)
    show "bt_get (event_location_by_id (empty_analysis p)) e =
        (if e < length (events p) then Some (event_at p e) else None)" for e
      using covered by (simp add: empty_analysis_def Let_def all_locations)
  qed (use targets in \<open>simp_all add: empty_analysis_def Let_def\<close>)
qed

lemma analysesD:
  assumes "analyses p a"
  shows "bt_get (point_block_by_id a) k = (if k < length (points p) then Some (point_block (points p ! k)) else None)"
    and "bt_get (events_by_block a) b =
      (if b < length (problem_blocks p) then Some (block_events (problem_blocks p ! b)) else None)"
    and "bt_get (event_location_by_id a) e = (if e < length (events p) then Some (event_at p e) else None)"
    and "b < length (problem_blocks p) \<Longrightarrow> set (successors_of a b) = set (out_edges (flow_edges (problem_flow p)) b)"
  using assms unfolding analyses_def by blast+

lemma analyses_ok:
  assumes wf: "well_formed p" and a: "analyses p a"
  shows "analysis_ok a"
proof -
  note tables = analysesD [OF a]
  have graph: "b \<in> graph_blocks a \<longleftrightarrow> b < length (problem_blocks p)" for b by (simp add: graph_block tables(2))
  have "closed_graph a"
    unfolding closed_graph_def
  proof (intro ballI subsetI)
    fix b t assume "b \<in> graph_blocks a" "t \<in> set (successors_of a b)"
    then show "t \<in> graph_blocks a" using well_formedD(6) [OF wf] unfolding graph by (auto simp: tables(4) out_edges_def)
  qed
  moreover have "distinct (block_events (problem_blocks p ! b))" if "b < length (problem_blocks p)" for b
    using well_formedD(9) [OF wf] that by (auto intro: distinct_concat_inner)
  moreover have "set (block_events (problem_blocks p ! b)) \<inter> set (block_events (problem_blocks p ! c)) = {}"
    if "b < length (problem_blocks p)" "c < length (problem_blocks p)" "b \<noteq> c" for b c
    using distinct_concat_disjoint [OF well_formedD(9) [OF wf], of b c] that by simp
  ultimately show ?thesis unfolding analysis_ok_def tables(2) by (auto split: if_splits)
qed

section \<open>Observations of a problem\<close>

definition owner :: "borrow_problem \<Rightarrow> use_id \<Rightarrow> event_id \<Rightarrow> bool" where
  "owner p u e \<longleftrightarrow> e < length (events p) \<and> owns u (event_kind (events p ! e))"

text \<open>The uses of a subject at an event.\<close>

fun subject_used :: "borrow_problem \<Rightarrow> last_use_subject \<Rightarrow> event_id \<Rightarrow> use_id \<Rightarrow> bool" where
  "subject_used p (PlaceSubject pl) e u \<longleftrightarrow> u < length (uses p) \<and> use_place (uses p ! u) = pl \<and> owner p u e"
| "subject_used p (BindingSubject b) e u \<longleftrightarrow>
     u < length (uses p) \<and> place_root (places p ! use_place (uses p ! u)) = b \<and> owner p u e"
| "subject_used p (LoanSubject l) e u \<longleftrightarrow>
     l < length (loans p) \<and> u \<in> set (loan_uses (loans p ! l)) \<and> owner p u e"
| "subject_used p (OriginSubject _) e u \<longleftrightarrow> False"

lemma owner_unique:
  assumes wf: "well_formed p" and "u < length (uses p)" "owner p u e" "owner p u e'"
  shows "e = e'"
proof (rule ccontr)
  let ?O = "{i. i < length (events p) \<and> owns u (event_kind (events p ! i))}"
  assume "e \<noteq> e'"
  then have "card {e, e'} = 2" by simp
  moreover have "{e, e'} \<subseteq> ?O" using assms(3,4) by (simp add: owner_def)
  moreover have "finite ?O" by simp
  ultimately have "2 \<le> card ?O" using card_mono [of ?O "{e, e'}"] by linarith
  moreover have "card ?O = 1"
    using well_formedD(13) [OF wf assms(2)] by (simp add: count_events_def length_filter_conv_card)
  ultimately show False by linarith
qed

lemma owner_exists:
  assumes wf: "well_formed p" and "u < length (uses p)"
  shows "\<exists>e. owner p u e"
proof -
  have "filter (\<lambda>ev. owns u (event_kind ev)) (events p) \<noteq> []"
    using well_formedD(13) [OF assms] by (auto simp: count_events_def)
  then show ?thesis by (auto simp: owner_def filter_empty_conv in_set_conv_nth)
qed

lemma use_events_sound:
  "bt_get (foldl (\<lambda>m ev. case event_kind ev of
         CallArgumentEvent _ _ a \<Rightarrow> bt_insert (argument_use a) (event_row ev) m
       | AccessEvent u \<Rightarrow> if bt_get m u = None then bt_insert u (event_row ev) m else m
       | _ \<Rightarrow> m) m evs) u = Some e \<Longrightarrow>
     bt_get m u = Some e \<or> (\<exists>ev \<in> set evs. owns u (event_kind ev) \<and> e = event_row ev)"
proof (induction evs arbitrary: m)
  case (Cons ev evs)
  show ?case
  proof (cases "event_kind ev")
    case (CallArgumentEvent c i a)
    then show ?thesis using Cons.IH Cons.prems by (fastforce simp: owns_def split: if_splits)
  next
    case (AccessEvent v)
    then show ?thesis using Cons.IH Cons.prems by (fastforce simp: owns_def split: if_splits)
  qed (use Cons.IH Cons.prems in auto)
qed simp

lemma use_events_complete:
  "bt_get m u \<noteq> None \<or> (\<exists>ev \<in> set evs. owns u (event_kind ev)) \<Longrightarrow>
   bt_get (foldl (\<lambda>m ev. case event_kind ev of
         CallArgumentEvent _ _ a \<Rightarrow> bt_insert (argument_use a) (event_row ev) m
       | AccessEvent u \<Rightarrow> if bt_get m u = None then bt_insert u (event_row ev) m else m
       | _ \<Rightarrow> m) m evs) u \<noteq> None"
proof (induction evs arbitrary: m)
  case (Cons ev evs)
  show ?case unfolding foldl_Cons
    by (rule Cons.IH) (use Cons.prems in \<open>auto simp: owns_def split: event_kind.splits\<close>)
qed simp

lemma use_event_map_exact:
  assumes wf: "well_formed p" and u: "u < length (uses p)"
  shows "bt_get (use_event_map p) u = Some e \<longleftrightarrow> owner p u e"
proof -
  have sound: "owner p u e" if "bt_get (use_event_map p) u = Some e" for e
  proof -
    obtain ev where "ev \<in> set (events p)" "owns u (event_kind ev)" "e = event_row ev"
      using use_events_sound [of "[]" "events p" u e] \<open>bt_get (use_event_map p) u = Some e\<close>
      by (auto simp: use_event_map_def)
    then show ?thesis using well_formedD(5) [OF wf] by (auto simp: owner_def in_set_conv_nth)
  qed
  obtain e' where e': "owner p u e'" using owner_exists [OF wf u] by blast
  then have "\<exists>ev \<in> set (events p). owns u (event_kind ev)" by (auto simp: owner_def)
  then have "bt_get (use_event_map p) u \<noteq> None"
    using use_events_complete [of "[]" u "events p"] by (simp add: use_event_map_def)
  then obtain e'' where "bt_get (use_event_map p) u = Some e''" by blast
  then show ?thesis using sound owner_unique [OF wf u] by auto
qed

text \<open>The state of the construction: the static tables, and the observations made so far.\<close>

definition built :: "borrow_problem \<Rightarrow> last_use_analysis \<Rightarrow> last_use_observation set \<Rightarrow> bool" where
  "built p a S \<longleftrightarrow> analyses p a \<and> (\<forall>s. set (observations_of a s) = {ob \<in> S. observed_subject ob = s})"

lemma built_add: "built p a S \<Longrightarrow> built p (add_observation ob a) (insert ob S)"
proof -
  assume b: "built p a S"
  have "set (observations_of (add_observation ob a) s) =
      set (observations_of a s) \<union> (if s = observed_subject ob then {ob} else {})" for s
    by (auto simp: observations_of_def add_observation_def bt_push_def split: option.split)
  then have "\<forall>s. set (observations_of (add_observation ob a) s) = {ob' \<in> insert ob S. observed_subject ob' = s}"
    using b by (auto simp: built_def)
  moreover have "analyses p (add_observation ob a)"
    using b by (simp add: built_def analyses_def add_observation_def successors_of_def)
  ultimately show ?thesis by (simp add: built_def)
qed

lemma built_sort: "built p (sort_observations a) S = built p a S"
proof -
  have "set (observations_of (sort_observations a) s) = set (observations_of a s)" for s
    by (simp add: observations_of_def sort_observations_def bt_get_map_values split: option.split)
  moreover have "analyses p (sort_observations a) = analyses p a"
    by (simp add: analyses_def sort_observations_def successors_of_def)
  ultimately show ?thesis by (simp add: built_def)
qed

definition observation_of :: "borrow_problem \<Rightarrow> last_use_subject \<Rightarrow> use_id \<Rightarrow> last_use_observation \<Rightarrow> bool" where
  "observation_of p s u ob \<longleftrightarrow>
     (\<exists>e. owner p u e \<and> ob = \<lparr>observed_subject = s, observed_at = event_at p e, observed_use = u\<rparr>)"

lemma use_location_exact:
  assumes wf: "well_formed p" and a: "analyses p a" and u: "u < length (uses p)"
  shows "\<exists>e. owner p u e \<and> use_location (use_event_map p) a u = Inr (event_at p e)"
proof -
  obtain e where e: "owner p u e" using owner_exists [OF wf u] by blast
  then show ?thesis using use_event_map_exact [OF wf u, of e] analysesD(3) [OF a, of e]
    by (intro exI [of _ e]) (simp add: use_location_def owner_def)
qed

lemma observation_of_owner:
  assumes "well_formed p" "u < length (uses p)" "owner p u e"
  shows "observation_of p s u ob \<longleftrightarrow> ob = \<lparr>observed_subject = s, observed_at = event_at p e, observed_use = u\<rparr>"
  using owner_unique [OF assms] assms(3) unfolding observation_of_def by blast

definition use_observations :: "borrow_problem \<Rightarrow> use_id \<Rightarrow> last_use_observation set" where
  "use_observations p u =
     {ob. observation_of p (PlaceSubject (use_place (uses p ! u))) u ob} \<union>
     {ob. observation_of p (BindingSubject (place_root (places p ! use_place (uses p ! u)))) u ob}"

lemma use_number:
  assumes wf: "well_formed p" and u: "u \<in> set (uses p)"
  shows "use_row u < length (uses p)" and "uses p ! use_row u = u"
proof -
  obtain i where "i < length (uses p)" "u = uses p ! i" using u by (auto simp: in_set_conv_nth)
  then show "use_row u < length (uses p)" "uses p ! use_row u = u" using well_formedD(3) [OF wf] by simp_all
qed

lemma observe_use_built:
  assumes wf: "well_formed p" and b: "built p a S" and u: "u \<in> set (uses p)"
  shows "outcome (\<lambda>_. False) (\<lambda>a'. built p a' (S \<union> use_observations p (use_row u)))
    (observe_use p (use_event_map p) u a)"
proof -
  note row = use_number [OF wf u]
  obtain e where e: "owner p (use_row u) e" "use_location (use_event_map p) a (use_row u) = Inr (event_at p e)"
    using use_location_exact [OF wf _ row(1), of a] b unfolding built_def by blast
  have pl: "slice_get (places p) (use_place u) = Some (places p ! use_place u)"
    using well_formedD(11) [OF wf u] by (simp add: slice_get_def)
  have set: "S \<union> use_observations p (use_row u) =
      insert \<lparr>observed_subject = BindingSubject (place_root (places p ! use_place u)), observed_at = event_at p e,
              observed_use = use_row u\<rparr>
      (insert \<lparr>observed_subject = PlaceSubject (use_place u), observed_at = event_at p e, observed_use = use_row u\<rparr> S)"
    by (auto simp: use_observations_def observation_of_owner [OF wf row(1) e(1)] row(2))
  show ?thesis unfolding observe_use_def e(2) set
    by (simp add: pl Let_def built_add b)
qed

lemma observe_loan_use_built:
  assumes wf: "well_formed p" and b: "built p a S" and u: "u < length (uses p)"
  shows "outcome (\<lambda>_. False) (\<lambda>a'. built p a' (S \<union> {ob. observation_of p (LoanSubject l) u ob}))
    (observe_loan_use (use_event_map p) (l, u) a)"
proof -
  obtain e where e: "owner p u e" "use_location (use_event_map p) a u = Inr (event_at p e)"
    using use_location_exact [OF wf _ u, of a] b unfolding built_def by blast
  have set: "S \<union> {ob. observation_of p (LoanSubject l) u ob} =
      insert \<lparr>observed_subject = LoanSubject l, observed_at = event_at p e, observed_use = u\<rparr> S"
    by (auto simp: observation_of_owner [OF wf u e(1)])
  show ?thesis unfolding observe_loan_use_def prod.case e(2) set by (simp add: built_add b)
qed

definition loan_observations :: "borrow_problem \<Rightarrow> loan \<Rightarrow> last_use_observation set" where
  "loan_observations p l = {ob. \<exists>u \<in> set (loan_uses l). observation_of p (LoanSubject (loan_row l)) u ob}"

lemma observe_loan_built:
  assumes wf: "well_formed p" and b: "built p a S" and l: "l \<in> set (loans p)"
  shows "outcome (\<lambda>_. False) (\<lambda>a'. built p a' (S \<union> loan_observations p l))
    (fold_each (observe_loan_use (use_event_map p)) (map (Pair (loan_row l)) (loan_uses l)) a)"
proof -
  let ?I = "\<lambda>ys a. built p a (S \<union> {ob. \<exists>(m, u) \<in> set ys. observation_of p (LoanSubject m) u ob})"
  have "outcome (\<lambda>_. False) (?I (map (Pair (loan_row l)) (loan_uses l)))
      (fold_each (observe_loan_use (use_event_map p)) (map (Pair (loan_row l)) (loan_uses l)) a)"
  proof (rule outcome_fold_prefix [where I = ?I], goal_cases)
    case (2 ys x s)
    obtain m u where x: "x = (m, u)" by (cases x)
    have u: "u < length (uses p)" using 2(1) well_formedD(12) [OF wf l] by (auto simp: x)
    have "S \<union> {ob. \<exists>(m, u) \<in> set (ys @ [x]). observation_of p (LoanSubject m) u ob} =
        (S \<union> {ob. \<exists>(m, u) \<in> set ys. observation_of p (LoanSubject m) u ob}) \<union> {ob. observation_of p (LoanSubject m) u ob}"
      by (auto simp: x)
    then show ?case using observe_loan_use_built [OF wf 2(2) u, of m] by (simp only: x)
  qed (simp add: b)
  moreover have "{ob. \<exists>(m, u) \<in> set (map (Pair (loan_row l)) (loan_uses l)). observation_of p (LoanSubject m) u ob} =
      loan_observations p l" by (auto simp: loan_observations_def)
  ultimately show ?thesis by (simp only:)
qed

lemma from_problem_built:
  assumes valid: "validate_problem p = Inr ()"
  shows "outcome (\<lambda>_. False) (\<lambda>a. built p a ((\<Union>u \<in> set (uses p). use_observations p (use_row u)) \<union>
    (\<Union>l \<in> set (loans p). loan_observations p l))) (from_problem p)"
proof -
  have wf: "well_formed p" using checked_problem [of p] by (simp add: valid)
  let ?I = "\<lambda>ys a. built p a (\<Union>u \<in> set ys. use_observations p (use_row u))"
  let ?J = "\<lambda>ys a. built p a ((\<Union>u \<in> set (uses p). use_observations p (use_row u)) \<union> (\<Union>l \<in> set ys. loan_observations p l))"
  have start: "?I [] (empty_analysis p)"
    using empty_analysis_analyses [OF wf] by (simp add: built_def observations_of_def empty_analysis_def Let_def)
  have first: "outcome (\<lambda>_. False) (?I (uses p)) (fold_each (observe_use p (use_event_map p)) (uses p) (empty_analysis p))"
  proof (rule outcome_fold_prefix [where I = ?I, OF start], goal_cases)
    case (1 ys u a)
    have "outcome (\<lambda>_. False) (\<lambda>a'. built p a' ((\<Union>u \<in> set ys. use_observations p (use_row u)) \<union>
        use_observations p (use_row u))) (observe_use p (use_event_map p) u a)"
      by (rule observe_use_built [OF wf 1(2,1)])
    then show ?case by (simp add: Un_commute)
  qed
  have rest: "outcome (\<lambda>_. False) (?J (loans p))
      (fold_each (\<lambda>l. fold_each (observe_loan_use (use_event_map p)) (map (Pair (loan_row l)) (loan_uses l))) (loans p) a)"
    if "?I (uses p) a" for a
  proof (rule outcome_fold_prefix [where I = ?J], goal_cases)
    case (2 ys l a)
    have "(\<Union>u \<in> set (uses p). use_observations p (use_row u)) \<union> (\<Union>l \<in> set (ys @ [l]). loan_observations p l) =
        (\<Union>u \<in> set (uses p). use_observations p (use_row u)) \<union> (\<Union>l \<in> set ys. loan_observations p l) \<union> loan_observations p l"
      by auto
    then show ?case using observe_loan_built [OF wf 2(2,1)] by (simp only:)
  qed (use that in simp)
  show ?thesis unfolding from_problem_def valid result_bind_simps Let_def
    by (rule outcome_bindI [OF first], rule outcome_bindI [OF rest]) (simp_all add: built_sort)
qed

text \<open>The analysis observes a subject exactly at the events that own its uses.\<close>

lemma built_observes:
  assumes wf: "well_formed p" and b: "built p a ((\<Union>u \<in> set (uses p). use_observations p (use_row u)) \<union>
    (\<Union>l \<in> set (loans p). loan_observations p l))"
  shows "observes a s u e \<longleftrightarrow> subject_used p s e u"
proof -
  have rows: "(\<Union>u \<in> set (uses p). use_observations p (use_row u)) = (\<Union>u \<in> {..<length (uses p)}. use_observations p u)"
    using well_formedD(3) [OF wf] by (fastforce simp: in_set_conv_nth)
  have loans: "(\<Union>l \<in> set (loans p). loan_observations p l) =
      {ob. \<exists>l < length (loans p). \<exists>u \<in> set (loan_uses (loans p ! l)). observation_of p (LoanSubject l) u ob}"
    using well_formedD(4) [OF wf] by (fastforce simp: in_set_conv_nth loan_observations_def)
  let ?ob = "\<lambda>s e u. \<lparr>observed_subject = s, observed_at = event_at p e, observed_use = u\<rparr>"
  let ?S = "(\<Union>u \<in> set (uses p). use_observations p (use_row u)) \<union> (\<Union>l \<in> set (loans p). loan_observations p l)"
  have made: "?ob s e u \<in> ?S" if "subject_used p s e u" for s e u
    using that unfolding rows loans by (cases s) (auto simp: use_observations_def observation_of_def)
  have used: "\<exists>e u. subject_used p s e u \<and> ob = ?ob s e u" if "ob \<in> ?S" "observed_subject ob = s" for ob s
    using that unfolding rows loans by (auto simp: use_observations_def observation_of_def)
  have id: "event_id_for_observation a (?ob s e u) = Some e" for s e u
    by (simp add: event_id_for_observation_def event_at_def after_event_at_def)
  have obs: "ob \<in> set (observations_of a s) \<longleftrightarrow> ob \<in> ?S \<and> observed_subject ob = s" for ob
    using b unfolding built_def by blast
  show ?thesis
  proof
    assume "observes a s u e"
    then obtain ob where ob: "ob \<in> set (observations_of a s)" "event_id_for_observation a ob = Some e" "observed_use ob = u"
      unfolding observes_def by (elim bexE conjE)
    from ob(1) have "ob \<in> ?S" "observed_subject ob = s" by (simp_all only: obs)
    from used [OF this] obtain e' u' where "subject_used p s e' u'" "ob = ?ob s e' u'" by (elim exE conjE)
    then show "subject_used p s e u" using ob(2,3) by (simp add: id)
  next
    assume "subject_used p s e u"
    from made [OF this] show "observes a s u e" unfolding observes_def
      by (intro bexI [of _ "?ob s e u"]) (simp_all add: obs id)
  qed
qed

section \<open>Totality\<close>

text \<open>A location of the problem: a point, or the place after an event that happens there.\<close>

definition location_ok :: "borrow_problem \<Rightarrow> last_use_location \<Rightarrow> bool" where
  "location_ok p location \<longleftrightarrow>
     at_point location < length (points p) \<and>
     (case after_event location of
        None \<Rightarrow> True | Some e \<Rightarrow> e < length (events p) \<and> event_point (events p ! e) = at_point location)"

text \<open>The block of a location.\<close>

definition location_block :: "borrow_problem \<Rightarrow> last_use_location \<Rightarrow> block_id" where
  "location_block p location = point_block (points p ! at_point location)"

lemma event_in_block:
  assumes wf: "well_formed p" and e: "e < length (events p)"
  shows "e \<in> set (block_events (problem_blocks p ! point_block (points p ! event_point (events p ! e))))"
proof -
  obtain b where b: "b < length (problem_blocks p)" "e \<in> set (block_events (problem_blocks p ! b))"
  proof -
    have "e \<in> set (concat (map block_events (problem_blocks p)))" unfolding well_formedD(10) [OF wf] using e by simp
    then obtain block where "block \<in> set (problem_blocks p)" "e \<in> set (block_events block)" by auto
    then show ?thesis using that by (auto simp: in_set_conv_nth [of block])
  qed
  then have "point_block (points p ! event_point (events p ! e)) = b"
    using well_formedD(8) [OF wf, of "problem_blocks p ! b"] well_formedD(1) [OF wf b(1)] by (simp add: listed_def)
  then show ?thesis using b(2) by simp
qed

lemma locations_found:
  assumes wf: "well_formed p" and a: "analyses p a" and ok: "location_ok p location"
  shows "block_for_point a (at_point location) = Inr (location_block p location)"
    and "bt_get (events_by_block a) (location_block p location) =
      Some (block_events (problem_blocks p ! location_block p location))"
    and "\<exists>start. start_event_index a (location_block p location) location = Inr start"
proof -
  note tables = analysesD [OF a]
  have pt: "at_point location < length (points p)" using ok by (simp add: location_ok_def)
  then have q: "location_block p location < length (problem_blocks p)"
    using well_formedD(7) [OF wf] by (simp add: location_block_def)
  show "block_for_point a (at_point location) = Inr (location_block p location)"
    using pt by (simp add: block_for_point_def tables(1) location_block_def)
  show es: "bt_get (events_by_block a) (location_block p location) =
      Some (block_events (problem_blocks p ! location_block p location))" using q by (simp add: tables(2))
  show "\<exists>start. start_event_index a (location_block p location) location = Inr start"
  proof (cases "after_event location")
    case None
    then show ?thesis by (simp add: start_event_index_def es)
  next
    case (Some e)
    have "e \<in> set (block_events (problem_blocks p ! location_block p location))"
      using event_in_block [OF wf, of e] ok Some by (simp add: location_ok_def location_block_def)
    then obtain i where "i < length (block_events (problem_blocks p ! location_block p location))"
      "block_events (problem_blocks p ! location_block p location) ! i = e" by (auto simp: in_set_conv_nth)
    then have "position (\<lambda>x. x = e) (block_events (problem_blocks p ! location_block p location)) = Some i"
      using position_eq_Some [OF analysis_okD(2) [OF analyses_ok [OF wf a] es]] by blast
    then show ?thesis by (simp add: start_event_index_def es Some)
  qed
qed

text \<open>After an event, what is left of the block is what follows the event.\<close>

lemma start_after_event:
  assumes "start_event_index a q location = Inr start" "bt_get (events_by_block a) q = Some es"
    and "after_event location = Some e"
  shows "\<exists>i. start = Suc i \<and> i < length es \<and> es ! i = e"
  using assms nth_length_takeWhile [of "\<lambda>x. x \<noteq> e" es]
  by (auto simp: start_event_index_def position_def Let_def split: if_splits)

lemma problem_query_answers:
  assumes valid: "validate_problem p = Inr ()" and a: "from_problem p = Inr a" and ok: "location_ok p location"
  shows "\<exists>start r. start_event_index a (location_block p location) location = Inr start \<and>
    query_last_use a subject location = Some (Inr r) \<and> asked_subject r = subject \<and> asked_location r = location \<and>
    answers a subject (location_block p location) start (block_events (problem_blocks p ! location_block p location)) r"
proof -
  have wf: "well_formed p" using checked_problem [of p] by (simp add: valid)
  have "analyses p a" using from_problem_built [OF valid] by (simp add: a built_def)
  note found = locations_found [OF wf this ok] and graph = analyses_ok [OF wf this]
  obtain start where start: "start_event_index a (location_block p location) location = Inr start" using found(3) by blast
  then show ?thesis using query_answers [OF graph found(1) start found(2), of subject] by blast
qed

end
