(* ===== verification/Last_Use_Answers.thy ===== *)
theory Last_Use_Answers
  imports Last_Use_Construction
begin

text \<open>
  What a future-use query on a validated problem answers: totality, the exact meaning of the status, the
  evidence returned with it, and the one place where the answer is weaker than the continuations.
\<close>

section \<open>The sample loop\<close>

text \<open>The analysis of the sample, and its answers for the place read in the loop.\<close>

definition loop_analysis :: last_use_analysis where
  "loop_analysis = (case from_problem loop_problem of Inr a \<Rightarrow> a | Inl _ \<Rightarrow> empty_analysis loop_problem)"

lemma loop_analysis_built: "from_problem loop_problem = Inr loop_analysis"
  using from_problem_built [OF loop_problem_valid] by (auto simp: loop_analysis_def outcome_def split: sum.splits)

definition before_loop :: last_use_location where
  "before_loop = after_event_at 0 0"

definition after_read :: last_use_location where
  "after_read = after_event_at 1 1"

definition use_before_loop :: last_use_result where
  "use_before_loop =
     \<lparr>asked_subject = PlaceSubject 0, asked_location = before_loop, future_use = MustBeUsed,
      future_witness = MustBeUsedWitness 0\<rparr>"

lemma before_loop_ok: "location_ok loop_problem before_loop"
  by code_simp

lemma before_loop_answer: "query_last_use loop_analysis (PlaceSubject 0) before_loop = Some (Inr use_before_loop)"
  by code_simp

section \<open>Where a location splits its block\<close>

text \<open>The events of the block before a location and those from it on: an event location comes right after
  its event; a point location right before the first event of its point, or before every event when the
  point has none.\<close>

definition split_at :: "borrow_problem \<Rightarrow> last_use_location \<Rightarrow> event_id list \<Rightarrow> event_id list \<Rightarrow> bool" where
  "split_at p location earlier later \<longleftrightarrow>
     earlier @ later = block_events (problem_blocks p ! location_block p location) \<and>
     (case after_event location of
        Some e \<Rightarrow> earlier \<noteq> [] \<and> last earlier = e
      | None \<Rightarrow>
          (\<forall>e \<in> set earlier. event_point (events p ! e) \<noteq> at_point location) \<and>
          (if later = [] then earlier = [] else
             event_point (events p ! hd later) = at_point location \<or>
             earlier = [] \<and> (\<forall>e \<in> set later. event_point (events p ! e) \<noteq> at_point location)))"

lemma position_split:
  assumes "position P es = Some i"
  shows "i < length es" "P (es ! i)" "\<forall>e \<in> set (take i es). \<not> P e"
proof -
  have i: "i = length (takeWhile (\<lambda>x. \<not> P x) es)" "i < length es"
    using assms by (simp_all add: position_def Let_def split: if_splits)
  then show "i < length es" "P (es ! i)" using nth_length_takeWhile [of "\<lambda>x. \<not> P x" es] by simp_all
  have "take i es = takeWhile (\<lambda>x. \<not> P x) es" by (simp add: i(1) takeWhile_eq_take [symmetric])
  then show "\<forall>e \<in> set (take i es). \<not> P e" using set_takeWhileD by fastforce
qed

lemma position_None:
  assumes "position P es = None"
  shows "\<forall>e \<in> set es. \<not> P e"
proof -
  let ?front = "takeWhile (\<lambda>x. \<not> P x) es"
  have "length es \<le> length ?front" using assms by (simp add: position_def Let_def split: if_splits)
  moreover have "?front = take (length ?front) es" by (rule takeWhile_eq_take)
  ultimately have "?front = es" by simp
  then show ?thesis using takeWhile_eq_all_conv [of "\<lambda>x. \<not> P x" es] by blast
qed

lemma start_splits:
  assumes wf: "well_formed p" and a: "analyses p a" and ok: "location_ok p location"
    and start: "start_event_index a (location_block p location) location = Inr start"
  defines "es \<equiv> block_events (problem_blocks p ! location_block p location)"
  shows "split_at p location (take start es) (drop start es)"
proof -
  note found = locations_found(2) [OF wf a ok, folded es_def]
  show ?thesis
  proof (cases "after_event location")
    case (Some e)
    obtain i where i: "start = Suc i" "i < length es" "es ! i = e"
      using start_after_event [OF start found Some] by blast
    then have "last (take start es) = e" "take start es \<noteq> []" by (auto simp: take_Suc_conv_app_nth)
    then show ?thesis by (simp add: split_at_def Some es_def)
  next
    case None
    have q: "location_block p location < length (problem_blocks p)"
      using found analysesD(2) [OF a, of "location_block p location"] by (simp split: if_splits)
    have listed: "e < length (events p)" if "e \<in> set es" for e
    proof -
      have "e \<in> set (concat (map block_events (problem_blocks p)))" using that q by (auto simp: es_def)
      then show ?thesis unfolding well_formedD(10) [OF wf] by simp
    qed
    define P where "P = (\<lambda>e. case bt_get (event_location_by_id a) e of Some l \<Rightarrow> at_point l = at_point location | None \<Rightarrow> False)"
    have P: "P e \<longleftrightarrow> event_point (events p ! e) = at_point location" if "e \<in> set es" for e
      using listed [OF that] by (simp add: P_def analysesD(3) [OF a] event_at_def after_event_at_def)
    have s: "start = (case position P es of Some index \<Rightarrow> index | None \<Rightarrow> 0)"
      using start by (simp add: start_event_index_def found None P_def ok_or_def)
    show ?thesis
    proof (cases "position P es")
      case (Some i)
      note i = position_split [OF Some]
      have hd: "hd (drop start es) = es ! i" "drop start es \<noteq> []" using i(1) by (simp_all add: s Some hd_drop_conv_nth)
      have "\<forall>e \<in> set (take start es). event_point (events p ! e) \<noteq> at_point location"
        using i(3) P by (auto simp: s Some dest: in_set_takeD)
      then show ?thesis using hd P [of "es ! i"] i(1,2) by (simp add: split_at_def None es_def [symmetric])
    next
      case no: None
      show ?thesis using position_None [OF no] P by (auto simp: split_at_def None es_def [symmetric] s no)
    qed
  qed
qed

section \<open>Properties\<close>




end
