(* ===== verification/Spec2Isabelle.thy ===== *)
theory Spec2Isabelle
  imports Number_Text Expression_Order Source_Span Line_Index Borrow_Layout Numeric_Proofs Module_Dependencies
    Float_Format Mon_Reader_Safety Mon_Writer_Safety Last_Use_Answers
begin

text \<open>
  A verification development for the Moth compiler (\<open>src/compiler_frontend\<close> and the crates
  \<open>moth-lexical\<close> and \<open>moth-mon\<close> under \<open>crates/\<close>).

  \<^bold>\<open>The program.\<close> Moth source text is tokenized, its headers are parsed per file, the headers of a
  module are put into dependency order, the bodies become a typed AST, the AST is lowered to HIR,
  and HIR is analysed (borrow checking, numeric proofs) before a backend emits code. Every stage
  rests on a few shared services: exact numeric text and values, source spans and line indexes,
  and the tables that intern strings and paths, which are forked for the workers of each module
  and merged again. MON is the data format the toolchain reads and writes: a schema is prepared once,
  documents are parsed and decoded against it, and values are completed and written back as text.
  This library models those services, the MON codec as a whole, and the analyses whose decisions are
  computed by closed algorithms; each theory names the files it translates in its opening text.

  \<^bold>\<open>Conventions\<close> (theory Prelude). \<open>Result\<langle>T, E\<rangle>\<close> is the sum \<open>'e + 'a\<close> with \<open>Inl\<close> for \<open>Err\<close>; \<open>Option\<close> is
  \<open>option\<close>. Rust \<open>str\<close> is its list of UTF-8 bytes unless a theory says otherwise. Machine integers
  whose wrapping, packing or overflow matters are words; counters with checked or saturating
  arithmetic are \<open>nat\<close> or \<open>int\<close> with the check written out. Panics the code can reach are values of
  an error type or \<open>None\<close>, never left unspecified. \<open>HashMap\<close>s used only by key are maps; where an
  iteration order can be observed it is an argument and the theorems hold for every order.
\<close>

section \<open>The parts\<close>

text \<open>
  \<^bold>\<open>Numeric text and values\<close>
  \<^item> Fixed_Scalar: \<open>fixed_scalar.rs\<close>, the scalar vocabulary and its ranges.
  \<^item> Numeric_Grammar: \<open>grammar.rs\<close> and the scanner of \<open>parse.rs\<close>; the accepted language is stated
    separately as an inductive grammar and proved equal to what the scanner accepts.
  \<^item> Decimal_Facts, Decimal_Compare: \<open>decimal.rs\<close> and the exact decimal comparison of \<open>binary16.rs\<close>.
  \<^item> Rounding, Binary_Rounding: the specification of rounding to nearest, ties to even, over exact
    rationals. The locale \<open>half_even_division\<close> is the contract of a rounding division, interpreted
    by the decimal code; \<open>binary_format\<close> and \<open>nested_formats\<close> are the contracts of one binary format
    and of a format inside a wider one, interpreted by binary16, binary32 and binary64.
  \<^item> Binary64, Binary16, Fixed_Scalar_Value: \<open>f64\<close> bit patterns, \<open>binary16.rs\<close>, \<open>precision.rs\<close> and the
    value carrier; a literal is proved to be rounded exactly once.
  \<^item> Number_Value, Number_Text: \<open>datatypes/number.rs\<close>, exact decimals, and their text.
  \<^item> Float_Format: \<open>format.rs\<close>, the shortest canonical text of a float, proved to read back to the
    same bits through the literal parser and the rounding of Binary16 and Binary64, and to need no more
    significant digits than any decimal that does.
  \<^item> Numeric_Operators, Builtin_Errors: operator promotion, discharge and error codes.
  \<^item> Numeric_Proofs: the interval analysis that discharges checks, sound for every execution.

  \<^bold>\<open>Sources and identities\<close>
  \<^item> Span_Encoding, Source_Span, Line_Index: packed spans, their extended table, lines and columns.
  \<^item> Append_Store: the locale \<open>append_store\<close>, a table that hands out handles which keep their
    meaning; interpreted by the span builder and by the string table.
  \<^item> String_Interning, Path_Table, Path_Interner: string and path tables, their forks, merges and
    remaps. The locales \<open>path_reader\<close>, \<open>path_store\<close> and \<open>path_merge\<close> are the reading, interning and
    merging contracts, interpreted by the frozen table, the builder and the fork.
  \<^item> Module_Dependencies: the dependency order of a module's headers, with its two diagnostics.

  \<^bold>\<open>Expressions\<close>
  \<^item> Expression_Order: \<open>ast/expressions/eval_expression/ordering.rs\<close>, the operator-precedence ordering
    of a fragment into postfix, against a grammar of precedence-correct trees.

  \<^bold>\<open>The MON codec\<close> (crate \<open>moth-mon\<close>)
  \<^item> Unicode_Text: \<open>String\<close> as a list of scalar values, UTF-8 in both directions, and the identifier
    rules of \<open>identifier.rs\<close> and \<open>words.rs\<close> in \<open>moth-lexical\<close>.
  \<^item> Mon_Model: \<open>model.rs\<close>, \<open>error.rs\<close>, \<open>budget.rs\<close>, \<open>map_keys.rs\<close> and \<open>numeric.rs\<close>: values, schemas,
    failures with spans and paths, the charged budget. The locale \<open>meter\<close> is the contract of one
    charged counter, interpreted by nodes, decoded bytes and defaults. \<open>outcome E Q r\<close> says what a
    fallible step promises on each side; the proofs about the codec are chains of it.
  \<^item> Mon_Schema: \<open>schema.rs\<close>, preparation, validation and completion. Mon_Names: the sorted name index
    and the earliest duplicate. Mon_Typing: the types of complete values, well-formed prepared types,
    the locale \<open>name_index\<close> (interpreted by fields and variants), and \<open>completes\<close>, the meaning of completing
    a value, as a relation without budgets; Mon_Prepared: preparation gives well-formed types and
    completion, which never panics, gives values of them that complete the given ones.
  \<^item> Mon_Parser, Mon_Reader: \<open>reader.rs\<close>, the recursive-descent parser over a cursor and the decoder.
    Mon_Parser_Safety: every parse step moves the cursor forward, stays within the text and locates
    its failures; the locale \<open>value_parsing\<close> is what the parsers of arguments, records, choices and
    containers need of the parser of nested values, interpreted by \<open>parse_value\<close> at every fuel.
    Mon_Reader_Safety: decoding gives a value of the type or a located failure.
  \<^item> Mon_Writer, Mon_Writer_Safety: \<open>writer.rs\<close>, both layouts, under the output budget.

  \<^bold>\<open>Analyses\<close>
  \<^item> Root_Set, Borrow_State, Borrow_Layout: the lattice of the borrow checker. \<open>bounded_set\<close> is the
    contract of a set over a bounded universe, interpreted by the bit-vector root sets.
  \<^item> Ordered_Map: \<open>BTreeMap\<close> as an ordered association list. Borrow_Problem: the normalized input of one
    borrow problem and its validation (\<open>analysis/borrow_checker/problem\<close>); Borrow_Problem_Facts: no input
    makes validation panic, and an accepted problem is well formed.
  \<^item> Last_Use: \<open>last_use/mod.rs\<close>, the future-use analysis of a validated problem. Last_Use_Continuations:
    the continuations of a position as steps through events and edges, \<open>observable\<close> (some continuation
    meets an observation), \<open>inevitable\<close> (every one does, after finitely many steps), and the summary loop,
    which ends in solutions of both equations. Last_Use_Proofs: the summaries are the two least
    fixpoints, and what the searches for evidence find. Last_Use_Queries: status and evidence of an
    answer. Last_Use_Construction: the tables and observations built from a problem, and totality.
    Last_Use_Answers: the properties, with the loop where the answer is weaker than the continuations.
\<close>

section \<open>Bounds, fuel and parameters\<close>

text \<open>
  \<^item> \<open>usize\<close> is 64 bits wide. Source texts and tables are bounded by \<open>u32\<close> where the code bounds them.
  \<^item> The dependency traversal of Module_Dependencies recurses through the header graph and carries
    fuel, the number of headers plus one: every nested visit marks one more header as active, so
    the fuel is never used up, and the theorems show that the out-of-fuel value is not returned.
  \<^item> The MON parser is mutually recursive through the value parser. \<open>parse_value\<close> carries \<open>depth_fuel\<close>,
    one more than the depth limit: each nested value is one level deeper and the depth check stops
    first. The loops over arguments and entries carry \<open>round_fuel\<close>, one more than the characters
    left: every round consumes at least one. The value \<open>OutOfFuel\<close> is proved not to be returned.
  \<^item> The fixpoint loop of Last_Use is \<open>while_option\<close>, so a loop that does not end would be \<open>None\<close>; every
    round that changes something sets one more of finitely many flags, and the queries are proved to
    return. Its breadth-first searches are total functions: a round visits a new block or shortens the
    queue.
  \<^item> \<open>IndexPanic\<close> stands for an index outside a table of a borrow problem; it is proved unreachable.
  \<^item> \<open>CarrierPanic\<close> stands for the panics of the payload accessors of a materialised scalar; it is
    proved not to be returned either, and so is \<open>KeyIndexPanic\<close>, the \<open>unreachable!\<close> of \<open>MapKeyIndex::new\<close> at
    a key type without an index.
  \<^item> \<open>overflow_checks\<close> and \<open>debug_assertions\<close> are arguments where a build profile changes behaviour.
  \<^item> Code that is not in the repository is an argument: the \<open>BigInt\<close> text reader of \<open>num-bigint\<close>,
    the shortest-float formatter \<open>ryu\<close> and \<open>{:e}\<close> of the standard library (\<open>shortest_formats\<close>, with the
    documented shortest-round-trip property \<open>ryu_documented\<close> where a theorem needs it), and the Unicode
    tables beyond ASCII (\<open>unicode\<close>).
    The type environment and the lookups of headers and paths that other stages own are arguments
    too, restricted to the questions the modelled code asks.
\<close>

section \<open>What is not modelled\<close>

text \<open>
  \<^item> Tokenizer, header parsing, AST construction, HIR lowering and validation, the type environment,
    diagnostics rendering, public interfaces: large translation passes over shared mutable stores;
    the closed algorithms inside them that are modelled are listed above.
  \<^item> The worklist and the statement transfer of the borrow checker, whose inputs are call summaries
    and type metadata of HIR; the extraction of borrow problems from HIR (\<open>problem/builder.rs\<close>), whose
    output is always validated; the independent oracle (Boracle) that cross-checks the checker.
  \<^item> Backends, build system and command line: code emission and file-system effects.
  \<^item> The iterative release of rejected MON trees, which frees memory only.
  \<^item> Counters, memory probes, logging and the wording of internal failure messages.
\<close>

end
